(* ===== verification/JsPrelude.thy ===== *)
theory JsPrelude
  imports Main "HOL-Library.AList" "HOL-Library.Monad_Syntax"
begin

text \<open>
  The vocabulary every other theory shares: JavaScript values, objects as insertion-ordered
  association lists, and the string and number operations of the standard library that the
  frontend code calls (\<open>trim\<close>, \<open>split\<close>, \<open>indexOf\<close>, \<open>slice\<close>, \<open>JSON.stringify\<close>, ...).
  A string is a list of code units below 256; case conversion is the one on ASCII letters.
  An object is the list of its own enumerable properties in insertion order (a key that looks
  like an array index keeps its place as any other key, and the members every object inherits
  from \<open>Object.prototype\<close> are not keys of the model). A value that JavaScript compares by
  identity carries its identity as a number.
\<close>

named_theorems js_simps \<open>rewrite rules for values, objects and strings\<close>
named_theorems inv_intros \<open>preservation facts for component invariants\<close>

section \<open>Lists and options\<close>

lemma map_of_None_iff [js_simps]: "map_of o1 k = None \<longleftrightarrow> k \<notin> set (map fst o1)"
  by (induction o1) auto

lemma distinct_remove1_set [simp]: "distinct xs \<Longrightarrow> set (remove1 x xs) = set xs - {x}"
  by (rule set_remove1_eq)

text \<open>\<open>xs[i]\<close> of an array: out of range reads undefined, here \<open>None\<close>.\<close>

definition nth_opt :: "'a list \<Rightarrow> nat \<Rightarrow> 'a option" where
  "nth_opt xs i = (if i < length xs then Some (xs ! i) else None)"

lemma nth_opt_Nil [simp]: "nth_opt [] i = None"
  by (simp add: nth_opt_def)

lemma nth_opt_Cons_0 [simp]: "nth_opt (x # xs) 0 = Some x"
  by (simp add: nth_opt_def)

lemma nth_opt_Cons_Suc [simp]: "nth_opt (x # xs) (Suc i) = nth_opt xs i"
  by (simp add: nth_opt_def)

lemma nth_opt_Some: "nth_opt xs i = Some x \<longleftrightarrow> i < length xs \<and> xs ! i = x"
  by (auto simp: nth_opt_def)

lemma nth_opt_None: "nth_opt xs i = None \<longleftrightarrow> length xs \<le> i"
  by (auto simp: nth_opt_def)

text \<open>\<open>arr.indexOf(x)\<close> with the answer -1 as \<open>None\<close>, for a given equality.\<close>

fun index_by :: "('a \<Rightarrow> bool) \<Rightarrow> 'a list \<Rightarrow> nat option" where
  "index_by p [] = None"
| "index_by p (x # xs) = (if p x then Some 0 else map_option Suc (index_by p xs))"

definition indexOf :: "'a list \<Rightarrow> 'a \<Rightarrow> nat option" where
  "indexOf xs x = index_by (\<lambda>y. y = x) xs"

lemma index_by_None: "index_by p xs = None \<longleftrightarrow> (\<forall>x\<in>set xs. \<not> p x)"
  by (induction xs) auto

lemma index_by_Some:
  "index_by p xs = Some i \<Longrightarrow> i < length xs \<and> p (xs ! i) \<and> (\<forall>j<i. \<not> p (xs ! j))"
proof (induction xs arbitrary: i)
  case Nil
  then show ?case by simp
next
  case (Cons x xs)
  show ?case
  proof (cases "p x")
    case True
    with Cons.prems show ?thesis by simp
  next
    case False
    with Cons.prems obtain k where k: "index_by p xs = Some k" "i = Suc k" by auto
    with Cons.IH [OF k(1)] False show ?thesis
      by (auto simp: less_Suc_eq_0_disj)
  qed
qed

lemma indexOf_None: "indexOf xs x = None \<longleftrightarrow> x \<notin> set xs"
  by (auto simp: indexOf_def index_by_None)

lemma find_append: "List.find p (xs @ ys) = (case List.find p xs of Some x \<Rightarrow> Some x | None \<Rightarrow> List.find p ys)"
  by (induction xs) auto

text \<open>\<open>arr.splice(i, 1)\<close>: the element at \<open>i\<close> leaves.\<close>

definition splice1 :: "nat \<Rightarrow> 'a list \<Rightarrow> 'a list" where
  "splice1 i xs = take i xs @ drop (Suc i) xs"

lemma splice1_indexOf: "indexOf xs x = Some i \<Longrightarrow> splice1 i xs = remove1 x xs"
proof (induction xs arbitrary: i)
  case Nil
  then show ?case by (simp add: indexOf_def)
next
  case (Cons y ys)
  then show ?case
    by (auto simp: indexOf_def splice1_def split: if_splits)
qed

text \<open>\<open>arr.splice(i, 0, x)\<close>: a new element before position \<open>i\<close>.\<close>

definition splice_in :: "nat \<Rightarrow> 'a \<Rightarrow> 'a list \<Rightarrow> 'a list" where
  "splice_in i x xs = take i xs @ x # drop i xs"

lemma set_splice_in [simp]: "set (splice_in i x xs) = insert x (set xs)"
proof -
  have "set xs = set (take i xs) \<union> set (drop i xs)"
    by (metis append_take_drop_id set_append)
  then show ?thesis by (auto simp: splice_in_def)
qed

section \<open>Strings\<close>

definition dq :: char where "dq = CHR 0x22"
definition sq :: char where "sq = CHR 0x27"
definition bsl :: char where "bsl = CHR 0x5C"
definition nl :: char where "nl = CHR 0x0A"

lemmas char_consts [js_simps] = dq_def sq_def bsl_def nl_def

definition code :: "char \<Rightarrow> nat" where "code c = of_char c"

definition is_upper :: "char \<Rightarrow> bool" where "is_upper c \<longleftrightarrow> 65 \<le> code c \<and> code c \<le> 90"
definition is_lower :: "char \<Rightarrow> bool" where "is_lower c \<longleftrightarrow> 97 \<le> code c \<and> code c \<le> 122"
definition is_digit :: "char \<Rightarrow> bool" where "is_digit c \<longleftrightarrow> 48 \<le> code c \<and> code c \<le> 57"

text \<open>The class \<open>\w\<close> of a regular expression, and the white space of \<open>\s\<close> and \<open>trim\<close>.\<close>

definition is_word :: "char \<Rightarrow> bool" where
  "is_word c \<longleftrightarrow> is_upper c \<or> is_lower c \<or> is_digit c \<or> c = CHR ''_''"

definition is_space :: "char \<Rightarrow> bool" where
  "is_space c \<longleftrightarrow> code c \<in> {9, 10, 11, 12, 13, 32, 160}"

definition up_char :: "char \<Rightarrow> char" where
  "up_char c = (if is_lower c then char_of (code c - 32) else c)"
definition low_char :: "char \<Rightarrow> char" where
  "low_char c = (if is_upper c then char_of (code c + 32) else c)"

definition toUpperCase :: "string \<Rightarrow> string" where "toUpperCase s = map up_char s"
definition toLowerCase :: "string \<Rightarrow> string" where "toLowerCase s = map low_char s"

lemma code_eq_iff: "code c = code d \<longleftrightarrow> c = d"
  by (simp add: code_def)

lemma code_lt: "code c < 256"
  by (simp add: code_def)

lemma code_char_of: "n < 256 \<Longrightarrow> code (char_of n) = n"
  by (simp add: code_def)

lemma up_low_char: "is_upper c \<Longrightarrow> up_char (low_char c) = c"
proof -
  assume u: "is_upper c"
  then have lc: "code (low_char c) = code c + 32"
    by (simp add: low_char_def is_upper_def code_char_of)
  with u have "is_lower (low_char c)" by (simp add: is_lower_def is_upper_def)
  with lc have "code (up_char (low_char c)) = code c"
    using code_lt [of c] by (simp add: up_char_def code_char_of)
  then show ?thesis by (simp add: code_eq_iff)
qed

lemma low_char_not_upper: "\<not> is_upper (low_char c)"
  by (auto simp: low_char_def is_upper_def code_char_of)

lemma low_char_id [simp]: "\<not> is_upper c \<Longrightarrow> low_char c = c"
  by (simp add: low_char_def)

definition trim_start :: "string \<Rightarrow> string" where "trim_start s = dropWhile is_space s"
definition trim :: "string \<Rightarrow> string" where
  "trim s = rev (dropWhile is_space (rev (trim_start s)))"

lemma trim_id: "s = [] \<or> (\<not> is_space (hd s) \<and> \<not> is_space (last s)) \<Longrightarrow> trim s = s"
proof -
  assume h: "s = [] \<or> (\<not> is_space (hd s) \<and> \<not> is_space (last s))"
  show ?thesis
  proof (cases "s = []")
    case True
    then show ?thesis by (simp add: trim_def trim_start_def)
  next
    case False
    with h have hd: "\<not> is_space (hd s)" and la: "\<not> is_space (last s)" by auto
    from False hd have "dropWhile is_space s = s" by (cases s) auto
    moreover from False la have "dropWhile is_space (rev s) = rev s"
      by (cases "rev s") (auto simp: last_rev hd_rev)
    ultimately show ?thesis by (simp add: trim_def trim_start_def)
  qed
qed

definition starts_with :: "string \<Rightarrow> string \<Rightarrow> bool" where
  "starts_with p s \<longleftrightarrow> take (length p) s = p"

text \<open>A word up to its terminator is a prefix exactly of the same word.\<close>

lemma prefix_up_to:
  "d \<notin> set n \<Longrightarrow> d \<notin> set k \<Longrightarrow> starts_with (n @ [d]) (k @ d # v) \<longleftrightarrow> n = k"
proof (induction n arbitrary: k)
  case Nil
  then show ?case by (cases k) (auto simp: starts_with_def)
next
  case (Cons c n)
  then show ?case by (cases k) (auto simp: starts_with_def)
qed

text \<open>\<open>s.indexOf(sub, from)\<close> and \<open>s.lastIndexOf(ch)\<close>; \<open>None\<close> is -1.\<close>

fun find_sub :: "string \<Rightarrow> string \<Rightarrow> nat option" where
  "find_sub p [] = (if p = [] then Some 0 else None)"
| "find_sub p (c # s) = (if starts_with p (c # s) then Some 0 else map_option Suc (find_sub p s))"

definition find_char :: "char \<Rightarrow> string \<Rightarrow> nat option" where
  "find_char c s = index_by (\<lambda>d. d = c) s"

definition find_last_char :: "char \<Rightarrow> string \<Rightarrow> nat option" where
  "find_last_char c s = map_option (\<lambda>k. length s - Suc k) (find_char c (rev s))"

lemma find_char_None: "find_char c s = None \<longleftrightarrow> c \<notin> set s"
  by (auto simp: find_char_def index_by_None)

definition slice :: "nat \<Rightarrow> nat \<Rightarrow> 'a list \<Rightarrow> 'a list" where
  "slice i j s = take (j - i) (drop i s)"

text \<open>\<open>s.slice(0, -1)\<close>\<close>

definition drop_last :: "string \<Rightarrow> string" where "drop_last s = butlast s"

fun split_on :: "char \<Rightarrow> string \<Rightarrow> string list" where
  "split_on d [] = [[]]"
| "split_on d (c # s) =
     (if c = d then [] # split_on d s
      else (case split_on d s of [] \<Rightarrow> [[c]] | p # ps \<Rightarrow> (c # p) # ps))"

fun join :: "string \<Rightarrow> string list \<Rightarrow> string" where
  "join sep [] = []"
| "join sep [s] = s"
| "join sep (s # t # ss) = s @ sep @ join sep (t # ss)"

lemma split_on_nonempty: "split_on d s \<noteq> []"
  by (induction s) (auto split: list.splits)

lemma split_on_no_sep: "d \<notin> set s \<Longrightarrow> split_on d s = [s]"
  by (induction s) auto

lemma split_on_append: "d \<notin> set p \<Longrightarrow> split_on d (p @ d # s) = p # split_on d s"
  by (induction p) auto

lemma split_join: "(\<forall>s\<in>set ss. d \<notin> set s) \<Longrightarrow> ss \<noteq> [] \<Longrightarrow> split_on d (join [d] ss) = ss"
  by (induction "[d]" ss rule: join.induct) (auto simp: split_on_no_sep split_on_append)

section \<open>Numbers\<close>

text \<open>
  A number is NaN, an infinity, or the finite decimal \<open>m / 10 ^ e\<close> that JavaScript prints for
  it, in lowest terms. The exponent notation JavaScript prints for magnitudes of \<open>1e21\<close> and
  more or below \<open>1e-6\<close>, and the rounding of a literal to the nearest double, are outside.
\<close>

datatype jsnum = NaN | Infinity bool | Dec int nat

fun digit_char :: "nat \<Rightarrow> char" where "digit_char n = char_of (48 + n)"

fun show_nat :: "nat \<Rightarrow> string" where
  "show_nat n = (if n < 10 then [digit_char n] else show_nat (n div 10) @ [digit_char (n mod 10)])"

declare show_nat.simps [simp del]

definition show_int :: "int \<Rightarrow> string" where
  "show_int i = (if i < 0 then CHR ''-'' # show_nat (nat (- i)) else show_nat (nat i))"

definition pad_left :: "nat \<Rightarrow> string \<Rightarrow> string" where
  "pad_left n s = replicate (n - length s) (CHR ''0'') @ s"

definition show_num :: "jsnum \<Rightarrow> string" where
  "show_num n = (case n of
       NaN \<Rightarrow> ''NaN''
     | Infinity neg \<Rightarrow> (if neg then ''-Infinity'' else ''Infinity'')
     | Dec m e \<Rightarrow>
         (let d = pad_left (Suc e) (show_nat (nat \<bar>m\<bar>));
              whole = take (length d - e) d; frac = drop (length d - e) d
          in (if m < 0 then ''-'' else []) @ whole @ (if e = 0 then [] else ''.'' @ frac)))"

function norm_dec :: "int \<Rightarrow> nat \<Rightarrow> jsnum" where
  "norm_dec m e = (if e = 0 then Dec m 0
                   else if m mod 10 = 0 then norm_dec (m div 10) (e - 1) else Dec m e)"
  by pat_completeness auto
termination by (relation "measure snd") auto

declare norm_dec.simps [simp del]

definition digits_val :: "string \<Rightarrow> int" where
  "digits_val s = foldl (\<lambda>a c. 10 * a + int (code c - 48)) 0 s"

text \<open>
  \<open>parseFloat\<close>: leading white space, a sign, then \<open>Infinity\<close> or the longest decimal literal
  prefix (a power suffix \<open>e10\<close> is not read).
\<close>

definition parse_float :: "string \<Rightarrow> jsnum" where
  "parse_float s0 =
     (let s1 = trim_start s0;
          neg = (s1 \<noteq> [] \<and> hd s1 = CHR ''-'');
          s = (if s1 \<noteq> [] \<and> (hd s1 = CHR ''-'' \<or> hd s1 = CHR ''+'') then tl s1 else s1);
          ip = takeWhile is_digit s;
          r = dropWhile is_digit s;
          fp = (if r \<noteq> [] \<and> hd r = CHR ''.'' then takeWhile is_digit (tl r) else []);
          m = digits_val (ip @ fp)
      in if starts_with ''Infinity'' s then Infinity neg
         else if ip = [] \<and> fp = [] then NaN
         else norm_dec (if neg then - m else m) (length fp))"

text \<open>\<open>parseInt(s, 10)\<close>: the integer prefix.\<close>

definition parse_int :: "string \<Rightarrow> int option" where
  "parse_int s0 =
     (let s1 = trim_start s0;
          neg = (s1 \<noteq> [] \<and> hd s1 = CHR ''-'');
          s = (if s1 \<noteq> [] \<and> (hd s1 = CHR ''-'' \<or> hd s1 = CHR ''+'') then tl s1 else s1);
          ip = takeWhile is_digit s
      in if ip = [] then None else Some (if neg then - digits_val ip else digits_val ip))"

lemma digits_val_append: "digits_val (xs @ [c]) = 10 * digits_val xs + int (code c - 48)"
  by (simp add: digits_val_def)

lemma code_digit_char: "d < 10 \<Longrightarrow> code (digit_char d) = 48 + d"
  by (simp add: code_char_of)

lemma is_digit_digit_char: "d < 10 \<Longrightarrow> is_digit (digit_char d)"
  unfolding is_digit_def by (subst (1 2) code_digit_char) auto

lemma show_nat_small: "n < 10 \<Longrightarrow> show_nat n = [digit_char n]"
  by (simp add: show_nat.simps)

lemma show_nat_step: "10 \<le> n \<Longrightarrow> show_nat n = show_nat (n div 10) @ [digit_char (n mod 10)]"
  by (subst show_nat.simps) simp

lemma show_nat_nonempty [simp]: "show_nat n \<noteq> []"
  by (subst show_nat.simps) simp

lemma show_nat_digits: "list_all is_digit (show_nat n)"
proof (induction n rule: show_nat.induct)
  case (1 n)
  then show ?case
    by (subst show_nat.simps) (auto simp del: digit_char.simps simp: is_digit_digit_char)
qed

lemma digits_val_show_nat: "digits_val (show_nat n) = int n"
proof (induction n rule: show_nat.induct)
  case (1 n)
  show ?case
  proof (cases "n < 10")
    case True
    then show ?thesis
      by (simp add: show_nat_small digits_val_def code_digit_char del: digit_char.simps)
  next
    case False
    with 1 have "digits_val (show_nat n) = 10 * int (n div 10) + int (n mod 10)"
      by (simp add: show_nat_step digits_val_append code_digit_char del: digit_char.simps)
    moreover have "n = 10 * (n div 10) + n mod 10" by simp
    ultimately show ?thesis by linarith
  qed
qed

lemma digits_val_zeros: "digits_val (replicate k (CHR ''0'') @ s) = digits_val s"
  by (induction k) (simp_all add: digits_val_def code_def)

section \<open>JSON.stringify of a string\<close>

definition hex_digit :: "nat \<Rightarrow> char" where
  "hex_digit n = (if n < 10 then char_of (48 + n) else char_of (87 + n))"

definition json_char :: "char \<Rightarrow> string" where
  "json_char c =
     (if c = dq then [bsl, dq]
      else if c = bsl then [bsl, bsl]
      else if code c = 8 then [bsl, CHR ''b'']
      else if code c = 9 then [bsl, CHR ''t'']
      else if code c = 10 then [bsl, CHR ''n'']
      else if code c = 12 then [bsl, CHR ''f'']
      else if code c = 13 then [bsl, CHR ''r'']
      else if code c < 32 then bsl # ''u00'' @ [hex_digit (code c div 16), hex_digit (code c mod 16)]
      else [c])"

definition json_quote :: "string \<Rightarrow> string" where
  "json_quote s = dq # concat (map json_char s) @ [dq]"

section \<open>Objects\<close>

type_synonym 'v obj = "(string \<times> 'v) list"

abbreviation obj_keys :: "'v obj \<Rightarrow> string list" where "obj_keys ob \<equiv> map fst ob"
abbreviation obj_put :: "string \<Rightarrow> 'v \<Rightarrow> 'v obj \<Rightarrow> 'v obj" where "obj_put \<equiv> AList.update"
abbreviation obj_del :: "string \<Rightarrow> 'v obj \<Rightarrow> 'v obj" where "obj_del \<equiv> AList.delete"

definition wf_obj :: "'v obj \<Rightarrow> bool" where "wf_obj ob \<longleftrightarrow> distinct (obj_keys ob)"

lemma get_put [js_simps, simp]: "map_of (obj_put k v ob) k' = (if k' = k then Some v else map_of ob k')"
  by (simp add: update_conv)

lemma get_del [js_simps, simp]: "map_of (obj_del k ob) k' = (if k' = k then None else map_of ob k')"
  by (simp add: delete_conv)

lemma wf_obj_put [inv_intros, simp]: "wf_obj ob \<Longrightarrow> wf_obj (obj_put k v ob)"
  by (simp add: wf_obj_def distinct_update)

lemma wf_obj_del [inv_intros, simp]: "wf_obj ob \<Longrightarrow> wf_obj (obj_del k ob)"
  by (simp add: wf_obj_def distinct_delete)

lemma wf_obj_Nil [simp]: "wf_obj []"
  by (simp add: wf_obj_def)

lemma keys_put: "set (obj_keys (obj_put k v ob)) = insert k (set (obj_keys ob))"
  by (simp add: dom_update)

end
