(* ===== verification/SharedUtil.thy ===== *)
theory SharedUtil
  imports JsPrelude
begin

text \<open>
  The helpers of \<open>frontend/js/vue.js\<close> that every part of the framework calls (\<open>isUndef\<close> to
  \<open>once\<close>), over a datatype of JavaScript values; then \<open>isReserved\<close> and \<open>parsePath\<close>. The
  lemmas show what the case converters do to identifiers, that \<open>looseEqual\<close> is reflexive (and
  how it fails to be symmetric), and that the list helpers are the list operations they look like.
\<close>

section \<open>JavaScript values\<close>

text \<open>
  Arrays, objects, functions and host objects (a date, a regular expression: a class name and a
  printed text, no own enumerable keys) carry their identity as a number.
\<close>

datatype jsval =
    JUndef
  | JNull
  | JBool bool
  | JNum jsnum
  | JStr string
  | JSym nat string
  | JArr nat "jsval list"
  | JObj nat "(string \<times> jsval) list"
  | JFun nat string
  | JHost nat string string

fun truthy :: "jsval \<Rightarrow> bool" where
  "truthy JUndef = False"
| "truthy JNull = False"
| "truthy (JBool b) = b"
| "truthy (JNum n) = (n \<noteq> NaN \<and> n \<noteq> Dec 0 0)"
| "truthy (JStr s) = (s \<noteq> [])"
| "truthy _ = True"

text \<open>\<open>a === b\<close>: NaN differs from itself, objects are compared by identity.\<close>

definition strict_eq :: "jsval \<Rightarrow> jsval \<Rightarrow> bool" where
  "strict_eq a b =
     (case a of
        JUndef \<Rightarrow> b = JUndef
      | JNull \<Rightarrow> b = JNull
      | JBool x \<Rightarrow> b = JBool x
      | JNum x \<Rightarrow> x \<noteq> NaN \<and> b = JNum x
      | JStr x \<Rightarrow> b = JStr x
      | JSym i _ \<Rightarrow> (case b of JSym j _ \<Rightarrow> i = j | _ \<Rightarrow> False)
      | JArr i _ \<Rightarrow> (case b of JArr j _ \<Rightarrow> i = j | _ \<Rightarrow> False)
      | JObj i _ \<Rightarrow> (case b of JObj j _ \<Rightarrow> i = j | _ \<Rightarrow> False)
      | JFun i _ \<Rightarrow> (case b of JFun j _ \<Rightarrow> i = j | _ \<Rightarrow> False)
      | JHost i _ _ \<Rightarrow> (case b of JHost j _ _ \<Rightarrow> i = j | _ \<Rightarrow> False))"

text \<open>\<open>typeof\<close>\<close>

fun js_typeof :: "jsval \<Rightarrow> string" where
  "js_typeof JUndef = ''undefined''"
| "js_typeof JNull = ''object''"
| "js_typeof (JBool _) = ''boolean''"
| "js_typeof (JNum _) = ''number''"
| "js_typeof (JStr _) = ''string''"
| "js_typeof (JSym _ _) = ''symbol''"
| "js_typeof (JFun _ _) = ''function''"
| "js_typeof _ = ''object''"

text \<open>\<open>String(v)\<close>\<close>

fun js_String :: "jsval \<Rightarrow> string"
  and js_elems :: "jsval list \<Rightarrow> string list" where
  "js_String JUndef = ''undefined''"
| "js_String JNull = ''null''"
| "js_String (JBool b) = (if b then ''true'' else ''false'')"
| "js_String (JNum n) = show_num n"
| "js_String (JStr s) = s"
| "js_String (JSym _ d) = ''Symbol('' @ d @ '')''"
| "js_String (JArr _ xs) = join '','' (js_elems xs)"
| "js_String (JObj _ _) = ''[object Object]''"
| "js_String (JFun _ src) = src"
| "js_String (JHost _ _ txt) = txt"
| "js_elems [] = []"
| "js_elems (x # xs) =
     (if x = JUndef \<or> x = JNull then [] else js_String x) # js_elems xs"

definition isUndef :: "jsval \<Rightarrow> bool" where "isUndef v \<longleftrightarrow> v = JUndef \<or> v = JNull"
definition isDef :: "jsval \<Rightarrow> bool" where "isDef v \<longleftrightarrow> v \<noteq> JUndef \<and> v \<noteq> JNull"
definition isTrue :: "jsval \<Rightarrow> bool" where "isTrue v \<longleftrightarrow> v = JBool True"
definition isFalse :: "jsval \<Rightarrow> bool" where "isFalse v \<longleftrightarrow> v = JBool False"

definition isPrimitive :: "jsval \<Rightarrow> bool" where
  "isPrimitive value \<longleftrightarrow>
     js_typeof value = ''string'' \<or> js_typeof value = ''number'' \<or>
     js_typeof value = ''symbol'' \<or> js_typeof value = ''boolean''"

definition isObject :: "jsval \<Rightarrow> bool" where
  "isObject ob \<longleftrightarrow> ob \<noteq> JNull \<and> js_typeof ob = ''object''"

text \<open>\<open>_toString.call(value).slice(8, -1)\<close>: the class name between \<open>[object \<close> and \<open>]\<close>.\<close>

fun toRawType :: "jsval \<Rightarrow> string" where
  "toRawType JUndef = ''Undefined''"
| "toRawType JNull = ''Null''"
| "toRawType (JBool _) = ''Boolean''"
| "toRawType (JNum _) = ''Number''"
| "toRawType (JStr _) = ''String''"
| "toRawType (JSym _ _) = ''Symbol''"
| "toRawType (JArr _ _) = ''Array''"
| "toRawType (JObj _ _) = ''Object''"
| "toRawType (JFun _ _) = ''Function''"
| "toRawType (JHost _ cls _) = cls"

definition isPlainObject :: "jsval \<Rightarrow> bool" where
  "isPlainObject ob \<longleftrightarrow> toRawType ob = ''Object''"

definition isRegExp :: "jsval \<Rightarrow> bool" where
  "isRegExp v \<longleftrightarrow> toRawType v = ''RegExp''"

text \<open>
  \<open>isFinite(val)\<close> of the global object converts its argument to a number, which must consume
  the whole string; a string is finite here when its trimmed text is an optional sign and a
  plain decimal literal, or empty.
\<close>

definition plain_decimal :: "string \<Rightarrow> bool" where
  "plain_decimal s0 =
     (let s = (if s0 \<noteq> [] \<and> (hd s0 = CHR ''-'' \<or> hd s0 = CHR ''+'') then tl s0 else s0);
          ip = takeWhile is_digit s; r = dropWhile is_digit s
      in if r = [] then ip \<noteq> []
         else hd r = CHR ''.'' \<and> list_all is_digit (tl r) \<and> \<not> (ip = [] \<and> tl r = []))"

fun js_isFinite :: "jsval \<Rightarrow> bool" where
  "js_isFinite JUndef = False"
| "js_isFinite JNull = True"
| "js_isFinite (JBool _) = True"
| "js_isFinite (JNum n) = (case n of Dec _ _ \<Rightarrow> True | _ \<Rightarrow> False)"
| "js_isFinite v = (let s = trim (js_String v) in s = [] \<or> plain_decimal s)"

definition isValidArrayIndex :: "jsval \<Rightarrow> bool" where
  "isValidArrayIndex val =
     (case parse_float (js_String val) of
        NaN \<Rightarrow> False
      | Infinity neg \<Rightarrow> \<not> neg \<and> js_isFinite val
      | Dec m e \<Rightarrow> 0 \<le> m \<and> e = 0 \<and> js_isFinite val)"

text \<open>\<open>JSON.stringify(val, null, 2)\<close>, used by \<open>toString\<close> (\<open>_s\<close> in render functions).\<close>

definition omitted :: "jsval \<Rightarrow> bool" where
  "omitted v \<longleftrightarrow> (case v of JUndef \<Rightarrow> True | JFun _ _ \<Rightarrow> True | JSym _ _ \<Rightarrow> True | _ \<Rightarrow> False)"

fun json_val :: "nat \<Rightarrow> jsval \<Rightarrow> string"
  and json_arr :: "nat \<Rightarrow> jsval list \<Rightarrow> string list"
  and json_obj :: "nat \<Rightarrow> (string \<times> jsval) list \<Rightarrow> string list" where
  "json_val i JUndef = ''null''"
| "json_val i JNull = ''null''"
| "json_val i (JBool b) = (if b then ''true'' else ''false'')"
| "json_val i (JNum n) = (case n of Dec _ _ \<Rightarrow> show_num n | _ \<Rightarrow> ''null'')"
| "json_val i (JStr s) = json_quote s"
| "json_val i (JSym _ _) = ''null''"
| "json_val i (JFun _ _) = ''null''"
| "json_val i (JHost _ _ txt) = (if txt = [] then ''{}'' else json_quote txt)"
| "json_val i (JArr _ xs) =
     (if xs = [] then ''[]''
      else ''['' @ nl # replicate (i + 2) (CHR '' '') @
           join ('','' @ nl # replicate (i + 2) (CHR '' '')) (json_arr (i + 2) xs) @
           nl # replicate i (CHR '' '') @ '']'')"
| "json_val i (JObj _ kvs) =
     (let ps = json_obj (i + 2) kvs in
      if ps = [] then ''{}''
      else ''{'' @ nl # replicate (i + 2) (CHR '' '') @
           join ('','' @ nl # replicate (i + 2) (CHR '' '')) ps @
           nl # replicate i (CHR '' '') @ ''}'')"
| "json_arr i [] = []"
| "json_arr i (x # xs) = json_val i x # json_arr i xs"
| "json_obj i [] = []"
| "json_obj i ((k, v) # kvs) =
     (if omitted v then json_obj i kvs
      else (json_quote k @ '': '' @ json_val i v) # json_obj i kvs)"

definition toString :: "jsval \<Rightarrow> string" where
  "toString val =
     (if isUndef val then []
      else if js_typeof val = ''object'' then json_val 0 val
      else js_String val)"

definition toNumber :: "jsval \<Rightarrow> jsval" where
  "toNumber val = (case parse_float (js_String val) of NaN \<Rightarrow> val | n \<Rightarrow> JNum n)"

section \<open>Sets of names, arrays, objects\<close>

text \<open>A lookup in the map answers \<open>true\<close> or undefined; the model's answer is a boolean.\<close>

definition makeMap :: "string \<Rightarrow> bool \<Rightarrow> string \<Rightarrow> bool" where
  "makeMap str expectsLowerCase val =
     (let lst = split_on (CHR '','') str
      in if expectsLowerCase then toLowerCase val \<in> set lst else val \<in> set lst)"

definition isBuiltInTag :: "string \<Rightarrow> bool" where
  "isBuiltInTag = makeMap ''slot,component'' True"

definition isReservedAttribute :: "string \<Rightarrow> bool" where
  "isReservedAttribute = makeMap ''key,ref,slot,slot-scope,is'' False"

text \<open>\<open>remove(arr, item)\<close> mutates the array: the model returns the array after the call.\<close>

definition remove_item :: "'a list \<Rightarrow> 'a \<Rightarrow> 'a list" where
  "remove_item arr item =
     (if length arr \<noteq> 0
      then (case indexOf arr item of Some i \<Rightarrow> splice1 i arr | None \<Rightarrow> arr)
      else arr)"

definition hasOwn :: "'v obj \<Rightarrow> string \<Rightarrow> bool" where
  "hasOwn ob key \<longleftrightarrow> key \<in> set (obj_keys ob)"

text \<open>
  \<open>cached(fn)\<close>: the returned function reads and writes its own table. A falsy hit (an empty
  string, say) is computed again. The result is the value and the table after the call.
\<close>

definition cached_call ::
    "('v \<Rightarrow> bool) \<Rightarrow> (string \<Rightarrow> 'v) \<Rightarrow> 'v obj \<Rightarrow> string \<Rightarrow> 'v \<times> 'v obj" where
  "cached_call tr fn cache str =
     (case map_of cache str of
        Some hit \<Rightarrow> (if tr hit then (hit, cache) else (fn str, obj_put str (fn str) cache))
      | None \<Rightarrow> (fn str, obj_put str (fn str) cache))"

definition toArray :: "'a list \<Rightarrow> nat \<Rightarrow> 'a list" where
  "toArray lst start = map (\<lambda>i. lst ! (i + start)) [0..<length lst - start]"

fun extend :: "'v obj \<Rightarrow> 'v obj \<Rightarrow> 'v obj" where
  "extend to [] = to"
| "extend to ((key, v) # from) = extend (obj_put key v to) from"

text \<open>\<open>toObject(arr)\<close>: falsy entries (\<open>None\<close>) are skipped.\<close>

definition toObject :: "('v obj) option list \<Rightarrow> 'v obj" where
  "toObject arr = fold (\<lambda>x res. case x of Some ob \<Rightarrow> extend res ob | None \<Rightarrow> res) arr []"

definition genStaticKeys :: "(string list) option list \<Rightarrow> string" where
  "genStaticKeys modules =
     join '','' (foldl (\<lambda>ks m. ks @ (case m of Some sk \<Rightarrow> sk | None \<Rightarrow> [])) [] modules)"

section \<open>Case conversion of names\<close>

text \<open>\<open>str.replace(/-(\w)/g, (_, c) => c ? c.toUpperCase() : '')\<close>\<close>

fun camelize :: "string \<Rightarrow> string" where
  "camelize [] = []"
| "camelize [c] = [c]"
| "camelize (c # d # s) =
     (if c = CHR ''-'' \<and> is_word d then up_char d # camelize s else c # camelize (d # s))"

definition capitalize :: "string \<Rightarrow> string" where
  "capitalize str = toUpperCase (take 1 str) @ drop 1 str"

text \<open>
  \<open>str.replace(/\B([A-Z])/g, '-$1').toLowerCase()\<close>: \<open>\B\<close> before a capital (a word character)
  holds exactly when the character before it is a word character too.
\<close>

fun hyphen_marks :: "bool \<Rightarrow> string \<Rightarrow> string" where
  "hyphen_marks w [] = []"
| "hyphen_marks w (c # s) =
     (if w \<and> is_upper c then CHR ''-'' # c # hyphen_marks True s else c # hyphen_marks (is_word c) s)"

definition hyphenate :: "string \<Rightarrow> string" where
  "hyphenate str = toLowerCase (hyphen_marks False str)"

section \<open>Loose equality\<close>

text \<open>
  The recursive calls of \<open>a.every\<close> and \<open>keysA.every\<close> are the two list functions; a key the
  second object lacks reads undefined. A host object has no own enumerable keys. The
  \<open>catch\<close> branches answer getters that throw and cyclic values, which the datatype excludes.
\<close>

fun own_props :: "jsval \<Rightarrow> (string \<times> jsval) list" where
  "own_props (JObj _ kvs) = kvs"
| "own_props _ = []"

definition get_or_undef :: "jsval obj \<Rightarrow> string \<Rightarrow> jsval" where
  "get_or_undef kvs k = (case map_of kvs k of Some v \<Rightarrow> v | None \<Rightarrow> JUndef)"

fun looseEqual :: "jsval \<Rightarrow> jsval \<Rightarrow> bool"
  and every_elem :: "jsval list \<Rightarrow> jsval list \<Rightarrow> bool"
  and every_key :: "(string \<times> jsval) list \<Rightarrow> jsval obj \<Rightarrow> bool" where
  "looseEqual a b =
     (if strict_eq a b then True
      else if isObject a \<and> isObject b then
        (case a of
           JArr _ xs \<Rightarrow> (case b of JArr _ ys \<Rightarrow> length xs = length ys \<and> every_elem xs ys | _ \<Rightarrow> False)
         | JObj _ kvs \<Rightarrow>
             (case b of JArr _ _ \<Rightarrow> False
              | _ \<Rightarrow> length kvs = length (own_props b) \<and> every_key kvs (own_props b))
         | _ \<Rightarrow> (case b of JArr _ _ \<Rightarrow> False | _ \<Rightarrow> own_props b = []))
      else if \<not> isObject a \<and> \<not> isObject b then js_String a = js_String b
      else False)"
| "every_elem [] ys = True"
| "every_elem (x # xs) ys =
     (case ys of [] \<Rightarrow> looseEqual x JUndef \<and> every_elem xs [] | y # ys' \<Rightarrow> looseEqual x y \<and> every_elem xs ys')"
| "every_key [] ob = True"
| "every_key ((k, v) # kvs) ob = (looseEqual v (get_or_undef ob k) \<and> every_key kvs ob)"

declare looseEqual.simps [simp del]

definition looseIndexOf :: "jsval list \<Rightarrow> jsval \<Rightarrow> nat option" where
  "looseIndexOf arr val = index_by (\<lambda>x. looseEqual x val) arr"

text \<open>
  \<open>once(fn)\<close>: the flag \<open>called\<close> of the closure is the state; a call runs \<open>fn\<close> on the caller's
  state or leaves it alone.
\<close>

definition once :: "('s \<Rightarrow> 's) \<Rightarrow> bool \<times> 's \<Rightarrow> bool \<times> 's" where
  "once fn st = (case st of (called, s) \<Rightarrow> if \<not> called then (True, fn s) else (called, s))"

section \<open>Language helpers\<close>

definition isReserved :: "string \<Rightarrow> bool" where
  "isReserved str \<longleftrightarrow> (str \<noteq> [] \<and> (code (hd str) = 0x24 \<or> code (hd str) = 0x5F))"

text \<open>
  \<open>parsePath(path)\<close>: undefined when \<open>/[^\w.$]/\<close> matches, else a getter that follows the
  segments, stopping with undefined at a falsy value. An array answers its indices and
  \<open>length\<close>; what primitives inherit from their prototypes is not modelled.
\<close>

definition array_index :: "string \<Rightarrow> nat option" where
  "array_index k =
     (if k \<noteq> [] \<and> list_all is_digit k \<and> show_nat (nat (digits_val k)) = k
      then Some (nat (digits_val k)) else None)"

definition get_prop :: "jsval \<Rightarrow> string \<Rightarrow> jsval" where
  "get_prop v k =
     (case v of
        JArr _ xs \<Rightarrow>
          (if k = ''length'' then JNum (Dec (int (length xs)) 0)
           else (case array_index k of
                   Some i \<Rightarrow> (case nth_opt xs i of Some x \<Rightarrow> x | None \<Rightarrow> JUndef)
                 | None \<Rightarrow> JUndef))
      | _ \<Rightarrow> get_or_undef (own_props v) k)"

fun follow :: "string list \<Rightarrow> jsval \<Rightarrow> jsval" where
  "follow [] ob = ob"
| "follow (s # segs) ob = (if \<not> truthy ob then JUndef else follow segs (get_prop ob s))"

definition parsePath :: "string \<Rightarrow> (jsval \<Rightarrow> jsval) option" where
  "parsePath path =
     (if list_ex (\<lambda>c. \<not> (is_word c \<or> c = CHR ''.'' \<or> c = CHR ''$'')) path then None
      else Some (follow (split_on (CHR ''.'') path)))"

section \<open>Lemmas\<close>

lemma isDef_iff [js_simps]: "isDef v \<longleftrightarrow> \<not> isUndef v"
  by (auto simp: isDef_def isUndef_def)

lemma remove_item_eq [js_simps]: "remove_item arr item = remove1 item arr"
  by (auto simp: remove_item_def splice1_indexOf indexOf_None remove1_idem split: option.splits)

lemma toArray_eq [js_simps]: "toArray lst start = drop start lst"
  by (rule nth_equalityI) (auto simp: toArray_def add.commute)

lemma extend_append: "extend to (xs @ ys) = extend (extend to xs) ys"
  by (induction to xs rule: extend.induct) auto

lemma get_extend: "wf_obj from \<Longrightarrow>
    map_of (extend to from) k = (case map_of from k of Some v \<Rightarrow> Some v | None \<Rightarrow> map_of to k)"
proof (induction to "from" rule: extend.induct)
  case (1 to)
  then show ?case by simp
next
  case (2 to key v "from")
  then have "wf_obj from" and notin: "key \<notin> set (obj_keys from)"
    by (auto simp: wf_obj_def)
  moreover from notin have "map_of from key = None" by (simp add: js_simps)
  ultimately show ?case using 2 by (auto split: option.splits)
qed

lemma wf_extend [inv_intros, simp]: "wf_obj to \<Longrightarrow> wf_obj (extend to from)"
  by (induction to "from" rule: extend.induct) auto

lemma keys_extend: "set (obj_keys (extend to from)) = set (obj_keys to) \<union> set (obj_keys from)"
  by (induction to "from" rule: extend.induct) (auto simp: dom_update)

lemma put_fresh: "k \<notin> set (obj_keys res) \<Longrightarrow> obj_put k v res = res @ [(k, v)]"
  by (induction res) auto

lemma extend_fresh:
  "distinct (obj_keys ds) \<Longrightarrow> set (obj_keys ds) \<inter> set (obj_keys res) = {} \<Longrightarrow> extend res ds = res @ ds"
proof (induction res ds rule: extend.induct)
  case (1 to)
  then show ?case by simp
next
  case (2 to key v "from")
  then show ?case by (simp add: put_fresh)
qed

lemma extend_foldl: "extend res ds = foldl (\<lambda>res (k, v). obj_put k v res) res ds"
  by (induction res ds rule: extend.induct) auto

subsection \<open>Memoisation\<close>

text \<open>
  The contract of \<open>cached\<close>: a table that holds only results of the function keeps doing so,
  and the memoised function returns what the function returns.
\<close>

locale memo =
  fixes call :: "'t \<Rightarrow> string \<Rightarrow> 'v \<times> 't"
    and fn :: "string \<Rightarrow> 'v"
    and sound :: "'t \<Rightarrow> bool"
    and start :: 't
  assumes sound_start: "sound start"
    and call_val: "sound t \<Longrightarrow> fst (call t s) = fn s"
    and call_sound: "sound t \<Longrightarrow> sound (snd (call t s))"
begin

fun call_all :: "'t \<Rightarrow> string list \<Rightarrow> 'v list" where
  "call_all t [] = []"
| "call_all t (s # ss) = fst (call t s) # call_all (snd (call t s)) ss"

lemma call_all_map: "sound t \<Longrightarrow> call_all t ss = map fn ss"
  by (induction ss arbitrary: t) (auto simp: call_val call_sound)

lemma transparent: "call_all start ss = map fn ss"
  by (rule call_all_map [OF sound_start])

end

definition cache_sound :: "(string \<Rightarrow> 'v) \<Rightarrow> 'v obj \<Rightarrow> bool" where
  "cache_sound fn cache \<longleftrightarrow> (\<forall>(k, v) \<in> set cache. v = fn k)"

lemma cache_sound_get: "cache_sound fn c \<Longrightarrow> map_of c k = Some v \<Longrightarrow> v = fn k"
  by (auto simp: cache_sound_def dest: map_of_SomeD)

lemma cache_sound_put: "cache_sound fn c \<Longrightarrow> cache_sound fn (obj_put k (fn k) c)"
  by (induction c) (auto simp: cache_sound_def)

interpretation memo_camelize: memo "cached_call (\<lambda>r. r \<noteq> []) camelize" camelize "cache_sound camelize" "[]"
  by unfold_locales
    (auto simp: cached_call_def cache_sound_put split: option.splits dest: cache_sound_get,
     simp add: cache_sound_def)

interpretation memo_hyphenate: memo "cached_call (\<lambda>r. r \<noteq> []) hyphenate" hyphenate "cache_sound hyphenate" "[]"
  by unfold_locales
    (auto simp: cached_call_def cache_sound_put split: option.splits dest: cache_sound_get,
     simp add: cache_sound_def)

lemma cached_call_transparent:
  "cache_sound fn c \<Longrightarrow> fst (cached_call tr fn c s) = fn s \<and> cache_sound fn (snd (cached_call tr fn c s))"
  by (auto simp: cached_call_def cache_sound_put split: option.splits dest: cache_sound_get)

subsection \<open>Camel case and kebab case\<close>

lemma is_word_cases: "is_upper c \<Longrightarrow> is_word c" "is_lower c \<Longrightarrow> is_word c" "is_digit c \<Longrightarrow> is_word c"
  by (auto simp: is_word_def)

lemma hyphen_not_word [simp]: "\<not> is_word (CHR ''-'')" "\<not> is_upper (CHR ''-'')"
  by (auto simp: is_word_def is_upper_def is_lower_def is_digit_def code_def)

lemma is_word_low: "is_word c \<Longrightarrow> is_word (low_char c)"
  by (auto simp: is_word_def low_char_def is_upper_def is_lower_def is_digit_def code_char_of)

lemma camelize_hyphen_marks:
  "list_all is_word s \<Longrightarrow> \<not> w \<Longrightarrow> s \<noteq> [] \<Longrightarrow> \<not> is_upper (hd s) \<Longrightarrow>
     camelize (toLowerCase (hyphen_marks w s)) = s"
  "list_all is_word s \<Longrightarrow> w \<Longrightarrow> is_word c \<Longrightarrow>
     camelize (c # toLowerCase (hyphen_marks w s)) = c # s"
proof (induction s arbitrary: w c)
  case Nil
  { case 1 then show ?case by simp }
  { case 2 then show ?case by (simp add: toLowerCase_def) }
next
  case (Cons d s)
  { case 1
    then have "hyphen_marks w (d # s) = d # hyphen_marks True s" by simp
    with 1 Cons.IH(2) [of True d] show ?case by (simp add: toLowerCase_def) }
  { case 2
    then have c: "c \<noteq> CHR ''-''" and wd: "is_word d" by auto
    show ?case
    proof (cases "is_upper d")
      case True
      with 2 have "hyphen_marks w (d # s) = CHR ''-'' # d # hyphen_marks True s" by simp
      moreover have "camelize (low_char d # toLowerCase (hyphen_marks True s)) = low_char d # s"
        using 2 Cons.IH(2) [of True "low_char d"] wd by (simp add: is_word_low)
      moreover have "camelize (toLowerCase (hyphen_marks True s)) = s"
        using calculation(2) is_word_low [OF wd]
        by (cases "toLowerCase (hyphen_marks True s)") (auto split: if_splits)
      ultimately show ?thesis
        using c wd True by (simp add: toLowerCase_def is_word_low up_low_char)
    next
      case False
      with 2 wd have "hyphen_marks w (d # s) = d # hyphen_marks True s" by simp
      moreover have "camelize (d # toLowerCase (hyphen_marks True s)) = d # s"
        using 2 Cons.IH(2) [of True d] wd by simp
      ultimately show ?thesis using c False by (simp add: toLowerCase_def)
    qed }
qed

text \<open>
  \<open>camelize\<close> undoes \<open>hyphenate\<close>: a name of word characters that does not start with a
  capital comes back unchanged from kebab case, so a prop declared \<open>fooBar\<close> is found again from
  the attribute \<open>foo-bar\<close>.
\<close>

theorem camelize_hyphenate_id:
  "list_all is_word s \<Longrightarrow> s = [] \<or> \<not> is_upper (hd s) \<Longrightarrow> camelize (hyphenate s) = s"
  using camelize_hyphen_marks(1) [of s False]
  by (cases "s = []") (auto simp: hyphenate_def toLowerCase_def)

lemma hyphenate_no_upper: "c \<in> set (hyphenate s) \<Longrightarrow> \<not> is_upper c"
  by (auto simp: hyphenate_def toLowerCase_def low_char_not_upper)

subsection \<open>Loose equality\<close>

text \<open>
  \<open>renumber f v\<close> is a deep copy of \<open>v\<close>: the same shape and primitives, every array and object
  under a new identity. \<open>wf_val v\<close>: no object in \<open>v\<close> has a key twice.
\<close>

fun renumber :: "(nat \<Rightarrow> nat) \<Rightarrow> jsval \<Rightarrow> jsval"
  and renumber_list :: "(nat \<Rightarrow> nat) \<Rightarrow> jsval list \<Rightarrow> jsval list"
  and renumber_kvs :: "(nat \<Rightarrow> nat) \<Rightarrow> (string \<times> jsval) list \<Rightarrow> (string \<times> jsval) list" where
  "renumber f (JArr i xs) = JArr (f i) (renumber_list f xs)"
| "renumber f (JObj i kvs) = JObj (f i) (renumber_kvs f kvs)"
| "renumber f v = v"
| "renumber_list f [] = []"
| "renumber_list f (x # xs) = renumber f x # renumber_list f xs"
| "renumber_kvs f [] = []"
| "renumber_kvs f ((k, v) # kvs) = (k, renumber f v) # renumber_kvs f kvs"

fun wf_val :: "jsval \<Rightarrow> bool" and wf_list :: "jsval list \<Rightarrow> bool"
  and wf_kvs :: "(string \<times> jsval) list \<Rightarrow> bool" where
  "wf_val (JArr _ xs) = wf_list xs"
| "wf_val (JObj _ kvs) = (wf_obj kvs \<and> wf_kvs kvs)"
| "wf_val _ = True"
| "wf_list [] = True"
| "wf_list (x # xs) = (wf_val x \<and> wf_list xs)"
| "wf_kvs [] = True"
| "wf_kvs ((_, v) # kvs) = (wf_val v \<and> wf_kvs kvs)"

lemma length_renumber [simp]:
  "length (renumber_list f xs) = length xs" "length (renumber_kvs f kvs) = length kvs"
proof -
  show "length (renumber_list f xs) = length xs" by (induction xs) auto
  show "length (renumber_kvs f kvs) = length kvs" by (induction kvs) auto
qed

lemma get_renumber: "map_of (renumber_kvs f kvs) k = map_option (renumber f) (map_of kvs k)"
  by (induction kvs) auto

lemma every_key_renumber:
  assumes "wf_obj kvs" and "set qs \<subseteq> set kvs"
    and "\<forall>(k, v) \<in> set qs. looseEqual v (renumber f v)"
  shows "every_key qs (renumber_kvs f kvs)"
  using assms(2,3)
proof (induction qs)
  case Nil
  then show ?case by simp
next
  case (Cons q qs)
  obtain k v where q: "q = (k, v)" by force
  with Cons.prems(1) assms(1) have "map_of kvs k = Some v"
    by (simp add: wf_obj_def)
  with q Cons show ?case by (simp add: get_or_undef_def get_renumber)
qed

lemma looseEqual_copies:
  "wf_val v \<Longrightarrow> looseEqual v (renumber f v)"
  "wf_list xs \<Longrightarrow> every_elem xs (renumber_list f xs)"
  "wf_kvs kvs \<Longrightarrow> \<forall>(k, v) \<in> set kvs. looseEqual v (renumber f v)"
proof (induction f v and f xs and f kvs rule: renumber_renumber_list_renumber_kvs.induct)
  case (1 f i xs)
  then show ?case by (simp add: looseEqual.simps isObject_def)
next
  case (2 f i kvs)
  then show ?case by (simp add: looseEqual.simps isObject_def every_key_renumber)
qed (auto simp: looseEqual.simps isObject_def strict_eq_def)

lemma looseEqual_refl: "looseEqual v v"
  by (cases v) (auto simp: looseEqual.simps strict_eq_def isObject_def)

lemma looseIndexOf_None: "looseIndexOf arr val = None \<longleftrightarrow> (\<forall>x\<in>set arr. \<not> looseEqual x val)"
  by (simp add: looseIndexOf_def index_by_None)

lemma looseIndexOf_member: "val \<in> set arr \<Longrightarrow> looseIndexOf arr val \<noteq> None"
  using looseEqual_refl by (auto simp: looseIndexOf_None)

lemma once_idem: "once fn (once fn st) = once fn st"
  by (auto simp: once_def split: prod.splits if_splits)

lemma camelize_hyphenate_witness: "camelize (hyphenate ''fooBarBaz'') = ''fooBarBaz''"
  by (rule camelize_hyphenate_id) (simp_all add: is_word_def is_upper_def is_lower_def code_def)

text \<open>
  \<open>looseEqual\<close> compares by structure: an array or object that holds no key twice is loosely
  equal to any copy of it under new identities, however deep. This is what lets a \<open>v-model\<close>
  select find an option by value.
\<close>

theorem looseEqual_deep_copy: "wf_val v \<Longrightarrow> looseEqual v (renumber f v)"
  by (rule looseEqual_copies(1))

lemma looseEqual_deep_copy_witness:
  "looseEqual (JObj 1 [(''a'', JArr 2 [JBool True])]) (JObj 11 [(''a'', JArr 12 [JBool True])])"
  using looseEqual_deep_copy [of "JObj 1 [(''a'', JArr 2 [JBool True])]" "\<lambda>n. n + 10"]
  by (simp add: wf_obj_def)

text \<open>
  It is not symmetric: as many keys are enough, and a key the other object lacks reads as
  \<open>undefined\<close>.
\<close>

lemma looseEqual_not_symmetric:
  "looseEqual (JObj 1 [(''a'', JUndef)]) (JObj 2 [(''b'', JBool True)]) \<and>
   \<not> looseEqual (JObj 2 [(''b'', JBool True)]) (JObj 1 [(''a'', JUndef)])"
  by code_simp

end
