(* ===== verification/AppCommon.thy ===== *)
theory AppCommon
  imports SharedUtil
begin

text \<open>
  The application's own scripts, \<open>frontend/js/common.js\<close> and \<open>frontend/js/footer.js\<close>: the
  request and response interceptors, the query serialiser, \<open>getUrlParam\<close>, \<open>formatPrice\<close> and
  the page switch of the footer bar. The lemmas show what a price in cents is printed as, that
  printing and reading prices round-trip, and that a serialised query is read back. A string
  here is the sequence of its UTF-8 bytes, so that \<open>decodeURI\<close> is byte-wise.
\<close>

section \<open>Interceptors\<close>

record config =
  headers :: "string obj"
  url :: string

text \<open>\<open>token\<close> is read from the session storage when the script loads; \<open>None\<close> is null.\<close>

definition request_interceptor :: "string option \<Rightarrow> config \<Rightarrow> config" where
  "request_interceptor token cfg =
     (case token of
        Some t \<Rightarrow> (if t \<noteq> [] then cfg\<lparr>headers := obj_put ''authorization'' t (headers cfg)\<rparr> else cfg)
      | None \<Rightarrow> cfg)"

text \<open>The backend's \<open>Result\<close> body, and what a request ends with.\<close>

record result_body =
  success :: bool
  errorMsg :: jsval
  body_data :: jsval

record response =
  status :: int
  body :: "result_body option"

text \<open>
  The messages of the rejections: the three fixed texts (please log in first; requests too
  frequent, retry later; server error) and a message of the backend.
\<close>

datatype reject_msg = LoginFirst | TooFrequent | ServerError | Backend jsval

datatype outcome = Resolved result_body | Rejected reject_msg

definition response_ok :: "result_body \<Rightarrow> outcome" where
  "response_ok data = (if \<not> success data then Rejected (Backend (errorMsg data)) else Resolved data)"

text \<open>The error handler: the outcome, and whether a jump to \<open>/login.html\<close> is scheduled.\<close>

definition response_error :: "response option \<Rightarrow> outcome \<times> bool" where
  "response_error r =
     (case r of
        Some resp \<Rightarrow>
          (if status resp = 401 then (Rejected LoginFirst, True)
           else if status resp = 429 \<or> status resp = 503 then
             (Rejected (case body resp of
                          Some b \<Rightarrow> (if truthy (errorMsg b) then Backend (errorMsg b) else TooFrequent)
                        | None \<Rightarrow> TooFrequent), False)
           else (Rejected ServerError, False))
      | None \<Rightarrow> (Rejected ServerError, False))"

section \<open>Query strings\<close>

definition paramsSerializer :: "jsval obj \<Rightarrow> string" where
  "paramsSerializer params =
     foldl (\<lambda>p (k, v). if truthy v then p @ ''&'' @ k @ ''='' @ js_String v else p) [] params"

text \<open>
  \<open>decodeURI\<close>: \<open>%XX\<close> escapes become bytes, except those of the reserved characters and \<open>#\<close>,
  which stay escaped; an ill-formed escape or UTF-8 sequence throws (\<open>None\<close>).
\<close>

definition hex_val :: "char \<Rightarrow> nat option" where
  "hex_val c =
     (if is_digit c then Some (code c - 48)
      else if 97 \<le> code c \<and> code c \<le> 102 then Some (code c - 87)
      else if 65 \<le> code c \<and> code c \<le> 70 then Some (code c - 55)
      else None)"

fun read_escape :: "string \<Rightarrow> (nat \<times> string) option" where
  "read_escape (p # h # l # s) =
     (if p = CHR ''%'' then
        (case (hex_val h, hex_val l) of (Some a, Some b) \<Rightarrow> Some (16 * a + b, s) | _ \<Rightarrow> None)
      else None)"
| "read_escape _ = None"

fun read_tail :: "nat \<Rightarrow> nat \<Rightarrow> nat \<Rightarrow> string \<Rightarrow> (string \<times> string) option" where
  "read_tail 0 lo hi s = Some ([], s)"
| "read_tail (Suc k) lo hi s =
     (case read_escape s of
        None \<Rightarrow> None
      | Some (b, s') \<Rightarrow>
          (if lo \<le> b \<and> b \<le> hi
           then (case read_tail k 128 191 s' of
                   None \<Rightarrow> None | Some (bs, r) \<Rightarrow> Some (char_of b # bs, r))
           else None))"

definition utf8_shape :: "nat \<Rightarrow> (nat \<times> nat \<times> nat) option" where
  "utf8_shape b =
     (if 194 \<le> b \<and> b \<le> 223 then Some (1, 128, 191)
      else if b = 224 then Some (2, 160, 191)
      else if b = 237 then Some (2, 128, 159)
      else if 225 \<le> b \<and> b \<le> 239 then Some (2, 128, 191)
      else if b = 240 then Some (3, 144, 191)
      else if b = 244 then Some (3, 128, 143)
      else if 241 \<le> b \<and> b \<le> 243 then Some (3, 128, 191)
      else None)"

fun decodeURI_fuel :: "nat \<Rightarrow> string \<Rightarrow> string option" where
  "decodeURI_fuel 0 s = (if s = [] then Some [] else None)"
| "decodeURI_fuel (Suc n) [] = Some []"
| "decodeURI_fuel (Suc n) (c # s) =
     (if c \<noteq> CHR ''%'' then map_option ((#) c) (decodeURI_fuel n s)
      else (case read_escape (c # s) of
              None \<Rightarrow> None
            | Some (b, r) \<Rightarrow>
                (if b < 128 then
                   (if char_of b \<in> set '';/?:@&=+$,#''
                    then map_option (\<lambda>t. take 3 (c # s) @ t) (decodeURI_fuel n r)
                    else map_option (\<lambda>t. char_of b # t) (decodeURI_fuel n r))
                 else (case utf8_shape b of
                         None \<Rightarrow> None
                       | Some (k, lo, hi) \<Rightarrow>
                           (case read_tail k lo hi r of
                              None \<Rightarrow> None
                            | Some (bs, r') \<Rightarrow>
                                map_option (\<lambda>t. char_of b # bs @ t) (decodeURI_fuel n r'))))))"

definition decodeURI :: "string \<Rightarrow> string option" where
  "decodeURI s = decodeURI_fuel (length s) s"

text \<open>
  \<open>getUrlParam(name)\<close> matches \<open>(^|&)name=([^&]*)(&|$)\<close>, ignoring case, in the query without
  its first character: for a name without special characters of regular expressions that is
  the first \<open>&\<close>-separated segment that starts with \<open>name=\<close>. The result is an empty string
  when there is none, and \<open>None\<close> when \<open>decodeURI\<close> throws.
\<close>

definition getUrlParam :: "string \<Rightarrow> string \<Rightarrow> string option" where
  "getUrlParam search name =
     (case List.find (\<lambda>seg. starts_with (toLowerCase (name @ ''='')) (toLowerCase seg))
             (split_on (CHR ''&'') (drop 1 search)) of
        Some seg \<Rightarrow> decodeURI (drop (length name + 1) seg)
      | None \<Rightarrow> Some [])"

section \<open>Prices\<close>

text \<open>
  \<open>Number(s)\<close> is not NaN: blank, a decimal literal with an optional power, \<open>Infinity\<close>, or an
  unsigned hexadecimal, octal or binary literal.
\<close>

definition is_hex_digit :: "char \<Rightarrow> bool" where
  "is_hex_digit c \<longleftrightarrow> hex_val c \<noteq> None"

definition js_isNaN :: "string \<Rightarrow> bool" where
  "js_isNaN s0 =
     (let s = trim s0;
          u = (if s \<noteq> [] \<and> (hd s = CHR ''-'' \<or> hd s = CHR ''+'') then tl s else s);
          man = takeWhile (\<lambda>c. c \<noteq> CHR ''e'' \<and> c \<noteq> CHR ''E'') s;
          pow = drop (Suc (length man)) s;
          pw = (if pow \<noteq> [] \<and> (hd pow = CHR ''-'' \<or> hd pow = CHR ''+'') then tl pow else pow)
      in \<not> (s = [] \<or> plain_decimal s \<or> u = ''Infinity'' \<or>
            (length man < length s \<and> plain_decimal man \<and> pw \<noteq> [] \<and> list_all is_digit pw) \<or>
            (2 < length s \<and> take 1 s = ''0'' \<and> toLowerCase (take 1 (drop 1 s)) = ''x'' \<and>
               list_all is_hex_digit (drop 2 s)) \<or>
            (2 < length s \<and> take 1 s = ''0'' \<and> toLowerCase (take 1 (drop 1 s)) = ''o'' \<and>
               list_all (\<lambda>c. 48 \<le> code c \<and> code c \<le> 55) (drop 2 s)) \<or>
            (2 < length s \<and> take 1 s = ''0'' \<and> toLowerCase (take 1 (drop 1 s)) = ''b'' \<and>
               list_all (\<lambda>c. c = CHR ''0'' \<or> c = CHR ''1'') (drop 2 s))))"

definition remove_first_dot :: "string \<Rightarrow> string" where
  "remove_first_dot s = remove1 (CHR ''.'') s"

text \<open>
  \<open>formatPrice\<close> of a string: yuan to cents; null is \<open>None\<close>, NaN is \<open>Some None\<close>. The length
  the second branch looks at is the length of \<open>p\<close>, which is still empty there. \<open>parseInt\<close>
  here never sees a \<open>0x\<close> prefix that matters for a decimal price.
\<close>

definition formatPrice_string :: "string \<Rightarrow> (int option) option" where
  "formatPrice_string val =
     (if js_isNaN val then None
      else
        let p = ([] :: string);
            r = (case find_last_char (CHR ''.'') val of
                   None \<Rightarrow> val @ ''00''
                 | Some index \<Rightarrow>
                     (if int index = int (length p) - 2 then remove_first_dot val @ ''0''
                      else remove_first_dot val))
        in Some (parse_int r))"

text \<open>\<open>formatPrice\<close> of a number: cents to yuan; null is \<open>None\<close>.\<close>

definition formatPrice_number :: "jsnum \<Rightarrow> string option" where
  "formatPrice_number val =
     (if \<not> truthy (JNum val) then None
      else
        let s = show_num val in
        if length s = 0 then Some ''0.00''
        else if length s = 1 then Some (''0.0'' @ s)
        else if length s = 2 then Some (''0.'' @ s)
        else (case find_char (CHR ''.'') s of
                None \<Rightarrow> Some (take (length s - 2) s @ ''.'' @ drop (length s - 2) s)
              | Some i \<Rightarrow>
                  (let num = take i s @ drop (i + 1) s in
                   if i = 1 then Some (''0.0'' @ num)
                   else if i = 2 then Some (''0.'' @ num)
                   else if 2 < i then Some (take (i - 2) num @ ''.'' @ drop (i - 2) num)
                   else None)))"

section \<open>The footer bar\<close>

text \<open>\<open>toPage(i)\<close>: the page the browser is sent to, if any.\<close>

definition toPage :: "int \<Rightarrow> string option" where
  "toPage i =
     (if i = 0 then Some ''/blog-edit.html''
      else if i = 4 then Some ''/info.html''
      else if i = 1 then Some ''/''
      else None)"

section \<open>Lemmas\<close>

lemma show_num_nat: "0 < n \<Longrightarrow> show_num (Dec (int n) 0) = show_nat n"
proof -
  have "1 \<le> length (show_nat n)" by (cases "show_nat n") auto
  then show ?thesis by (simp add: show_num_def pad_left_def Let_def)
qed

lemma digit_not_dot: "is_digit c \<Longrightarrow> c \<noteq> CHR ''.''"
  by (auto simp: is_digit_def code_def)

lemma show_nat_no_dot: "CHR ''.'' \<notin> set (show_nat n)"
  using show_nat_digits [of n] digit_not_dot by (auto simp: list_all_iff)

text \<open>The two last digits of a printed number.\<close>

definition two_digits :: "nat \<Rightarrow> string" where
  "two_digits k = [digit_char (k div 10), digit_char (k mod 10)]"

lemma show_nat_100:
  "100 \<le> n \<Longrightarrow> show_nat n = show_nat (n div 100) @ two_digits (n mod 100)"
proof -
  assume n: "100 \<le> n"
  have "show_nat n = show_nat (n div 10) @ [digit_char (n mod 10)]"
    using n by (intro show_nat_step) simp
  also have "show_nat (n div 10) = show_nat (n div 10 div 10) @ [digit_char (n div 10 mod 10)]"
    using n by (intro show_nat_step) simp
  finally have eq: "show_nat n = (show_nat (n div 10 div 10) @ [digit_char (n div 10 mod 10)])
      @ [digit_char (n mod 10)]" .
  have e1: "n div 10 div 10 = n div 100" by (simp add: div_mult2_eq [symmetric])
  have m: "n mod 100 = 10 * (n div 10 mod 10) + n mod 10"
    using mod_mult2_eq [of n 10 10] by simp
  have e2: "n mod 100 div 10 = n div 10 mod 10" by (subst m) simp
  have e3: "n mod 100 mod 10 = n mod 10" by (subst m) simp
  show ?thesis
    by (simp only: two_digits_def eq e1 e2 e3 append_assoc append.simps)
qed

lemma digit_char_0 [simp]: "digit_char 0 = CHR ''0''"
  by code_simp

lemma digit_char_zero_code: "CHR ''0'' = char_of (48 :: nat)"
  by code_simp

lemma show_nat_2: "10 \<le> n \<Longrightarrow> n < 100 \<Longrightarrow> show_nat n = two_digits n"
  by (simp add: show_nat_step show_nat_small two_digits_def del: digit_char.simps)

lemma formatPrice_number_eq:
  assumes "0 < n"
  shows "formatPrice_number (Dec (int n) 0) =
           Some (show_nat (n div 100) @ ''.'' @ two_digits (n mod 100))"
proof -
  consider "n < 10" | "10 \<le> n" "n < 100" | "100 \<le> n" by linarith
  then show ?thesis
  proof cases
    case 1
    with assms show ?thesis
      by (simp add: formatPrice_number_def show_num_nat show_nat_small two_digits_def
          del: digit_char.simps)
  next
    case 2
    with assms show ?thesis
      by (simp add: formatPrice_number_def show_num_nat show_nat_2 show_nat_small)
        (simp add: two_digits_def digit_char_zero_code)
  next
    case 3
    have "1 \<le> length (show_nat (n div 100))"
      by (cases "show_nat (n div 100)") auto
    moreover have "find_char (CHR ''.'') (show_nat n) = None"
      by (simp add: find_char_None show_nat_no_dot)
    ultimately show ?thesis using assms 3
      by (simp add: formatPrice_number_def show_num_nat show_nat_100 two_digits_def Let_def
          del: digit_char.simps)
  qed
qed

lemma is_digit_not_space: "is_digit c \<Longrightarrow> \<not> is_space c"
  by (auto simp: is_digit_def is_space_def)

lemma digits_val_price: "k < 100 \<Longrightarrow> digits_val (show_nat a @ two_digits k) = 100 * int a + int k"
proof -
  assume k: "k < 100"
  have "digits_val ((show_nat a @ [digit_char (k div 10)]) @ [digit_char (k mod 10)])
          = 10 * (10 * int a + int (k div 10)) + int (k mod 10)"
    using k by (simp only: digits_val_append digits_val_show_nat)
      (simp add: code_digit_char del: digit_char.simps)
  also have "\<dots> = 100 * int a + int k"
  proof -
    have "int k = 10 * int (k div 10) + int (k mod 10)" by presburger
    then show ?thesis by simp
  qed
  finally show ?thesis by (simp add: two_digits_def)
qed

lemma two_digits_digits: "k < 100 \<Longrightarrow> list_all is_digit (two_digits k)"
  by (simp add: two_digits_def is_digit_digit_char del: digit_char.simps)

lemma plain_decimal_not_NaN: "plain_decimal s \<Longrightarrow> trim s = s \<Longrightarrow> \<not> js_isNaN s"
  by (simp add: js_isNaN_def Let_def)

text \<open>What \<open>formatPrice\<close> of a string reads from a decimal with any number of places.\<close>

lemma formatPrice_string_decimal:
  assumes a: "list_all is_digit a" "a \<noteq> []" and b: "list_all is_digit b" "b \<noteq> []"
  shows "formatPrice_string (a @ ''.'' @ b) = Some (Some (digits_val (a @ b)))"
proof -
  have na: "\<forall>c\<in>set a. is_digit c" "\<forall>c\<in>set b. is_digit c"
    using a(1) b(1) by (auto simp: list_all_iff)
  have hd: "\<not> is_space (hd a)" "is_digit (hd a)" and la: "\<not> is_space (last b)"
    using na a(2) b(2) is_digit_not_space by auto
  have sgn: "hd a \<noteq> CHR ''-''" "hd a \<noteq> CHR ''+''"
    using hd(2) by (auto simp: is_digit_def code_def)
  have "trim (a @ ''.'' @ b) = a @ ''.'' @ b"
    using a(2) b(2) hd la by (intro trim_id) simp
  moreover have tw: "takeWhile is_digit (a @ ''.'' @ b) = a" "dropWhile is_digit (a @ ''.'' @ b) = ''.'' @ b"
    using na(1) by (auto simp: takeWhile_append dropWhile_append is_digit_def code_def)
  moreover have "plain_decimal (a @ ''.'' @ b)"
    using tw a(2) b(1) sgn by (simp add: plain_decimal_def)
  ultimately have nan: "\<not> js_isNaN (a @ ''.'' @ b)"
    by (intro plain_decimal_not_NaN)
  have "find_last_char (CHR ''.'') (a @ ''.'' @ b) \<noteq> None"
    by (auto simp: find_last_char_def find_char_None)
  then obtain i where i: "find_last_char (CHR ''.'') (a @ ''.'' @ b) = Some i" by auto
  have "CHR ''.'' \<notin> set a" using na(1) digit_not_dot by blast
  then have rm: "remove_first_dot (a @ ''.'' @ b) = a @ b"
    by (simp add: remove_first_dot_def remove1_append)
  have tb: "takeWhile is_digit b = b"
    using na by (auto simp: takeWhile_eq_all_conv)
  have "trim_start (a @ b) = a @ b"
    using a(2) hd by (cases a) (auto simp: trim_start_def)
  then have "parse_int (a @ b) = Some (digits_val (a @ b))"
    using a(2) sgn na(1) by (simp add: parse_int_def tb)
  with nan i rm show ?thesis by (simp add: formatPrice_string_def)
qed

text \<open>
  C31. \<open>formatPrice\<close> reads back what it prints: a positive amount in cents is shown as a
  decimal with two places, and formatting that text gives the amount again.
\<close>

theorem formatPrice_round_trip:
  assumes "0 < n"
  shows "\<exists>s. formatPrice_number (Dec (int n) 0) = Some s \<and> formatPrice_string s = Some (Some (int n))"
proof -
  have k: "n mod 100 < 100" by simp
  have "formatPrice_string (show_nat (n div 100) @ ''.'' @ two_digits (n mod 100))
          = Some (Some (digits_val (show_nat (n div 100) @ two_digits (n mod 100))))"
    using two_digits_digits [OF k]
    by (intro formatPrice_string_decimal) (auto simp: show_nat_digits two_digits_def)
  also have "digits_val (show_nat (n div 100) @ two_digits (n mod 100)) = int n"
    using div_mult_mod_eq [of n 100] by (simp only: digits_val_price [OF k])
  finally show ?thesis using formatPrice_number_eq [OF assms] by simp
qed

subsection \<open>Query strings\<close>

lemma paramsSerializer_concat:
  "paramsSerializer ps = concat (map (\<lambda>(k, v). ''&'' @ k @ ''='' @ js_String v) (filter (truthy \<circ> snd) ps))"
proof -
  have "foldl (\<lambda>p (k, v). if truthy v then p @ ''&'' @ k @ ''='' @ js_String v else p) acc ps
      = acc @ concat (map (\<lambda>(k, v). ''&'' @ k @ ''='' @ js_String v) (filter (truthy \<circ> snd) ps))" for acc
    by (induction ps arbitrary: acc) auto
  then show ?thesis by (simp add: paramsSerializer_def)
qed

lemma decodeURI_plain: "CHR ''%'' \<notin> set s \<Longrightarrow> decodeURI s = Some s"
proof -
  have "CHR ''%'' \<notin> set s \<Longrightarrow> length s \<le> n \<Longrightarrow> decodeURI_fuel n s = Some s" for n
  proof (induction s arbitrary: n)
    case Nil
    then show ?case by (cases n) auto
  next
    case (Cons c s)
    then show ?case by (cases n) auto
  qed
  then show "CHR ''%'' \<notin> set s \<Longrightarrow> decodeURI s = Some s" by (simp add: decodeURI_def)
qed

text \<open>The segments \<open>split\<close> sees in a serialised query.\<close>

definition seg :: "string \<times> string \<Rightarrow> string" where
  "seg kv = fst kv @ ''='' @ snd kv"

lemma split_segments:
  "(\<forall>kv\<in>set kvs. CHR ''&'' \<notin> set (seg kv)) \<Longrightarrow> CHR ''&'' \<notin> set pre \<Longrightarrow>
     split_on (CHR ''&'') (pre @ concat (map (\<lambda>kv. ''&'' @ seg kv) kvs)) = pre # map seg kvs"
proof (induction kvs arbitrary: pre)
  case Nil
  then show ?case by (simp add: split_on_no_sep)
next
  case (Cons kv kvs)
  then have "split_on (CHR ''&'') (seg kv @ concat (map (\<lambda>kv. ''&'' @ seg kv) kvs)) = seg kv # map seg kvs"
    by auto
  with Cons.prems show ?case by (simp add: split_on_append)
qed

lemma low_char_eq_sign: "low_char c = CHR ''='' \<longleftrightarrow> c = CHR ''=''"
proof
  assume h: "low_char c = CHR ''=''"
  show "c = CHR ''=''"
  proof (cases "is_upper c")
    case True
    then have "code (low_char c) = code c + 32"
      by (simp add: low_char_def is_upper_def code_char_of)
    moreover have "code (low_char c) = 61" using h by (simp add: code_def)
    ultimately show ?thesis using True by (simp add: is_upper_def)
  next
    case False
    with h show ?thesis by simp
  qed
next
  assume "c = CHR ''=''"
  then show "low_char c = CHR ''=''" by (simp add: low_char_def is_upper_def code_def)
qed

lemma starts_with_seg:
  assumes "CHR ''='' \<notin> set n" "CHR ''='' \<notin> set k"
  shows "starts_with (toLowerCase (n @ ''='')) (toLowerCase (seg (k, v))) \<longleftrightarrow> toLowerCase n = toLowerCase k"
proof -
  have "CHR ''='' \<notin> set (map low_char n)" "CHR ''='' \<notin> set (map low_char k)"
    using assms by (auto simp: low_char_eq_sign dest: sym)
  from prefix_up_to [OF this] show ?thesis
    using low_char_eq_sign [of "CHR ''=''"] by (simp add: toLowerCase_def seg_def)
qed

text \<open>A query whose keys differ and hold no separators, with nonempty unescaped values.\<close>

definition plain_params :: "(string \<times> string) list \<Rightarrow> bool" where
  "plain_params ps \<longleftrightarrow>
     distinct (map (toLowerCase \<circ> fst) ps) \<and>
     (\<forall>(k, v) \<in> set ps. CHR ''='' \<notin> set k \<and> CHR ''&'' \<notin> set k \<and> CHR ''&'' \<notin> set v \<and>
        CHR ''%'' \<notin> set v \<and> v \<noteq> [])"

lemma find_segment:
  assumes "plain_params ps" and "(name, v) \<in> set ps"
  shows "List.find (\<lambda>s. starts_with (toLowerCase (name @ ''='')) (toLowerCase s)) (map seg ps)
           = Some (seg (name, v))"
proof -
  have name: "CHR ''='' \<notin> set name" using assms by (auto simp: plain_params_def)
  have "List.find (\<lambda>s. starts_with (toLowerCase (name @ ''='')) (toLowerCase s)) (map seg qs)
          = Some (seg (name, v))"
    if "set qs \<subseteq> set ps" "distinct (map (toLowerCase \<circ> fst) qs)" "(name, v) \<in> set qs" for qs
    using that
  proof (induction qs)
    case Nil
    then show ?case by simp
  next
    case (Cons q qs)
    obtain k w where q: "q = (k, w)" by force
    with Cons.prems(1) assms(1) have k: "CHR ''='' \<notin> set k" by (auto simp: plain_params_def)
    show ?case
    proof (cases "q = (name, v)")
      case True
      then show ?thesis using starts_with_seg [OF name name, of v] by simp
    next
      case False
      with Cons.prems(3) have "(name, v) \<in> set qs" by auto
      moreover from this Cons.prems(2) q have "toLowerCase name \<noteq> toLowerCase k"
        by (force simp: image_iff)
      ultimately show ?thesis
        using Cons starts_with_seg [OF name k, of w] q by simp
    qed
  qed
  from this [of ps] assms show ?thesis by (auto simp: plain_params_def)
qed

text \<open>
  A parameter that \<open>paramsSerializer\<close> puts in the query is what \<open>getUrlParam\<close> finds there,
  when the names are distinct up to case and neither names nor values hold separators.
\<close>

theorem getUrlParam_serialized:
  assumes "plain_params ps" and "(name, v) \<in> set ps"
  shows "getUrlParam (''?'' @ paramsSerializer (map (\<lambda>(k, v). (k, JStr v)) ps)) name = Some v"
proof -
  have ne: "\<forall>(k, v) \<in> set ps. v \<noteq> []" and amp: "\<forall>kv\<in>set ps. CHR ''&'' \<notin> set (seg kv)"
    using assms(1) by (auto simp: plain_params_def seg_def)
  have "filter (truthy \<circ> snd) (map (\<lambda>(k, v). (k, JStr v)) ps) = map (\<lambda>(k, v). (k, JStr v)) ps"
    using ne by (auto simp: filter_id_conv)
  then have "paramsSerializer (map (\<lambda>(k, v). (k, JStr v)) ps) = concat (map (\<lambda>kv. ''&'' @ seg kv) ps)"
    by (simp add: paramsSerializer_concat comp_def seg_def case_prod_beta)
  with split_segments [OF amp, of "[]"]
  have "split_on (CHR ''&'') (paramsSerializer (map (\<lambda>(k, v). (k, JStr v)) ps)) = [] # map seg ps"
    by simp
  moreover have "\<not> starts_with (toLowerCase (name @ ''='')) (toLowerCase [])"
    by (simp add: starts_with_def toLowerCase_def)
  moreover have "CHR ''%'' \<notin> set v" using assms by (auto simp: plain_params_def)
  ultimately show ?thesis
    using find_segment [OF assms]
    by (simp add: getUrlParam_def decodeURI_plain seg_def)
qed

lemma formatPrice_round_trip_witness:
  "\<exists>s. formatPrice_number (Dec 1234 0) = Some s \<and> formatPrice_string s = Some (Some 1234)"
  using formatPrice_round_trip [of 1234] by simp

lemma getUrlParam_witness:
  "getUrlParam (''?'' @ paramsSerializer [(''id'', JStr ''7''), (''Type'', JStr ''a b'')]) ''Type'' = Some ''a b''"
  using getUrlParam_serialized [of "[(''id'', ''7''), (''Type'', ''a b'')]" "''Type''" "''a b''"]
  by (simp add: plain_params_def toLowerCase_def low_char_def is_upper_def code_def)

text \<open>A price with one decimal place is read as a tenth of what it says.\<close>

lemma formatPrice_one_decimal: "formatPrice_string ''12.5'' = Some (Some 125)"
  using formatPrice_string_decimal [of "''12''" "''5''"] by (simp add: is_digit_def code_def digits_val_def)

text \<open>A parameter whose value is 0, false or empty is left out of the query.\<close>

lemma paramsSerializer_drops_falsy: "\<not> truthy v \<Longrightarrow> paramsSerializer [(k, v)] = []"
  by (simp add: paramsSerializer_concat)

end
