(* ===== verification/Ast.thy ===== *)
theory Ast
  imports SharedUtil
begin

text \<open>
  The template compiler's syntax tree (\<open>createASTElement\<close> and the fields the parser, the
  directive generators and the optimizer add to an element), and the helpers of
  \<open>frontend/js/vue.js\<close> that read and extend an element: \<open>addProp\<close> to \<open>getAndRemoveAttr\<close>.

  An element's own fields are the record \<open>elem\<close>; a field the code leaves undefined is \<open>None\<close>, a
  flag it leaves undefined is \<open>False\<close>. The tree is the datatype \<open>node\<close>: the element with its
  children, the conditions of its \<open>v-else-if\<close>/\<open>v-else\<close> blocks and its scoped slots.
  \<open>ifConditions[0]\<close> is always the element itself with \<open>el.if\<close> as its expression, so the third
  argument of \<open>Element\<close> holds the conditions from index 1. A node's parent is not stored: the
  functions that follow \<open>parent\<close> links take the list of ancestors, innermost first.
  \<open>scopeKey\<close> tells that the key \<open>slotScope\<close> exists (a template gets it even when its value is
  undefined). A call of \<open>warn\<close> is an entry (message, is it a tip) of a list of warnings.
\<close>

record handler =
  h_value :: string
  h_modifiers :: "bool obj option"

text \<open>\<open>events[name]\<close> is one handler or an array of handlers.\<close>

datatype handlers = HOne handler | HMany "handler list"

record directive =
  d_name :: string
  d_rawName :: string
  d_value :: string
  d_arg :: "string option"
  d_modifiers :: "bool obj option"

record model_info =
  m_value :: string
  m_expression :: string
  m_callback :: string

record elem =
  tag :: string
  attrsList :: "(string \<times> string) list"
  attrsMap :: "string obj"
  ns :: "string option"
  forbidden :: bool
  el_pre :: bool
  plain :: bool
  processed :: bool
  el_key :: "string option"
  el_ref :: "string option"
  refInFor :: bool
  el_for :: "string option"
  el_alias :: "string option"
  iterator1 :: "string option"
  iterator2 :: "string option"
  el_if :: "string option"
  el_elseif :: "string option"
  el_else :: bool
  el_once :: bool
  slotName :: "string option"
  slotScope :: "string option"
  scopeKey :: bool
  slotTarget :: "string option"
  component :: "string option"
  inlineTemplate :: bool
  hasBindings :: bool
  staticClass :: "string option"
  classBinding :: "string option"
  staticStyle :: "string option"
  styleBinding :: "string option"
  attrs :: "(string \<times> string) list option"
  props :: "(string \<times> string) list option"
  directives :: "directive list option"
  events :: "handlers obj option"
  nativeEvents :: "handlers obj option"
  el_model :: "model_info option"
  wrapData :: "(string \<Rightarrow> string) option"
  wrapListeners :: "(string \<Rightarrow> string) option"
  el_static :: bool
  staticRoot :: bool
  staticInFor :: bool
  staticProcessed :: bool
  onceProcessed :: bool
  forProcessed :: bool
  ifProcessed :: bool

datatype node =
    Element elem "node list" "(string option \<times> node) list" "(string \<times> node) list option"
  | Expression string string
  | TextNode string bool

type_synonym warns = "(string \<times> bool) list"

abbreviation err :: "string \<Rightarrow> warns" where "err msg \<equiv> [(msg, False)]"
abbreviation tip :: "string \<Rightarrow> warns" where "tip msg \<equiv> [(msg, True)]"

text \<open>A string field in a test: undefined and the empty string are falsy.\<close>

definition tru :: "string option \<Rightarrow> bool" where
  "tru x \<longleftrightarrow> (case x of Some s \<Rightarrow> s \<noteq> [] | None \<Rightarrow> False)"

lemma tru_simps [simp]: "\<not> tru None" "tru (Some s) \<longleftrightarrow> s \<noteq> []"
  by (simp_all add: tru_def)

text \<open>\<open>a || b\<close> of strings\<close>

definition or_else :: "string option \<Rightarrow> string option \<Rightarrow> string option" where
  "or_else a b = (if tru a then a else b)"

definition str_or :: "string option \<Rightarrow> string \<Rightarrow> string" where
  "str_or a d = (if tru a then the a else d)"

section \<open>Building an element\<close>

definition makeAttrsMap :: "(string \<times> string) list \<Rightarrow> string obj \<times> warns" where
  "makeAttrsMap as =
     fold (\<lambda>(n, v) (m, w).
        (obj_put n v m, if tru (map_of m n) then w @ err (''duplicate attribute: '' @ n) else w)) as ([], [])"

definition createASTElement :: "string \<Rightarrow> (string \<times> string) list \<Rightarrow> elem \<times> warns" where
  "createASTElement t as =
     (let (m, w) = makeAttrsMap as in
      (\<lparr>tag = t, attrsList = as, attrsMap = m, ns = None, forbidden = False, el_pre = False,
        plain = False, processed = False, el_key = None, el_ref = None, refInFor = False,
        el_for = None, el_alias = None, iterator1 = None, iterator2 = None, el_if = None,
        el_elseif = None, el_else = False, el_once = False, slotName = None, slotScope = None, scopeKey = False,
        slotTarget = None, component = None, inlineTemplate = False, hasBindings = False,
        staticClass = None, classBinding = None, staticStyle = None, styleBinding = None,
        attrs = None, props = None, directives = None, events = None, nativeEvents = None,
        el_model = None, wrapData = None, wrapListeners = None, el_static = False,
        staticRoot = False, staticInFor = False, staticProcessed = False, onceProcessed = False,
        forProcessed = False, ifProcessed = False\<rparr>, w))"

definition addProp :: "elem \<Rightarrow> string \<Rightarrow> string \<Rightarrow> elem" where
  "addProp el name value =
     el\<lparr>props := Some (case props el of Some ps \<Rightarrow> ps @ [(name, value)] | None \<Rightarrow> [(name, value)]),
        plain := False\<rparr>"

definition addAttr :: "elem \<Rightarrow> string \<Rightarrow> string \<Rightarrow> elem" where
  "addAttr el name value =
     el\<lparr>attrs := Some (case attrs el of Some ps \<Rightarrow> ps @ [(name, value)] | None \<Rightarrow> [(name, value)]),
        plain := False\<rparr>"

definition addRawAttr :: "elem \<Rightarrow> string \<Rightarrow> string \<Rightarrow> elem" where
  "addRawAttr el name value =
     el\<lparr>attrsMap := obj_put name value (attrsMap el), attrsList := attrsList el @ [(name, value)]\<rparr>"

definition addDirective ::
    "elem \<Rightarrow> string \<Rightarrow> string \<Rightarrow> string \<Rightarrow> string option \<Rightarrow> bool obj option \<Rightarrow> elem" where
  "addDirective el name rawName value arg modifiers =
     (let d = \<lparr>d_name = name, d_rawName = rawName, d_value = value, d_arg = arg, d_modifiers = modifiers\<rparr>
      in el\<lparr>directives := Some (case directives el of Some ds \<Rightarrow> ds @ [d] | None \<Rightarrow> [d]),
            plain := False\<rparr>)"

section \<open>Event handlers\<close>

definition has_mod :: "bool obj \<Rightarrow> string \<Rightarrow> bool" where
  "has_mod ms k \<longleftrightarrow> map_of ms k = Some True"

text \<open>
  The modifiers that move into the event name: \<open>!\<close> capture, \<open>~\<close> once, \<open>&\<close> passive; each
  leaves the modifier object when it is set.
\<close>

definition mark_event :: "string \<Rightarrow> string \<Rightarrow> string \<times> bool obj \<Rightarrow> string \<times> bool obj" where
  "mark_event key prefix nm =
     (case nm of (name, ms) \<Rightarrow>
        if has_mod ms key then (prefix @ name, obj_del key ms) else (name, ms))"

definition click_event :: "string \<times> bool obj \<Rightarrow> string \<times> bool obj" where
  "click_event nm =
     (case nm of (name, ms) \<Rightarrow>
        if name = ''click'' then
          (if has_mod ms ''right'' then (''contextmenu'', obj_del ''right'' ms)
           else if has_mod ms ''middle'' then (''mouseup'', ms)
           else (name, ms))
        else (name, ms))"

definition put_handler :: "bool \<Rightarrow> string \<Rightarrow> handler \<Rightarrow> handlers obj \<Rightarrow> handlers obj" where
  "put_handler important name h evs =
     obj_put name
       (case map_of evs name of
          Some (HMany hs) \<Rightarrow> HMany (if important then h # hs else hs @ [h])
        | Some (HOne h0) \<Rightarrow> HMany (if important then [h, h0] else [h0, h])
        | None \<Rightarrow> HOne h) evs"

text \<open>\<open>modifiers = None\<close> is the undefined or null that \<open>emptyObject\<close> replaces.\<close>

definition addHandler ::
    "elem \<Rightarrow> string \<Rightarrow> string \<Rightarrow> bool obj option \<Rightarrow> bool \<Rightarrow> bool \<Rightarrow> elem \<times> warns" where
  "addHandler el name0 value modifiers0 important warn =
     (let ms0 = (case modifiers0 of Some m \<Rightarrow> m | None \<Rightarrow> []);
          w = (if warn \<and> has_mod ms0 ''prevent'' \<and> has_mod ms0 ''passive'' then
                 err (''passive and prevent can'' @ sq # ''t be used together. '' @
                      ''Passive handler can'' @ sq # ''t prevent default event.'')
               else []);
          (name, ms) = click_event (mark_event ''passive'' ''&'' (mark_event ''once'' ''~''
                         (mark_event ''capture'' ''!'' (name0, ms0))));
          native = has_mod ms ''native'';
          ms' = (if native then obj_del ''native'' ms else ms);
          h = \<lparr>h_value = trim value,
               h_modifiers = (case modifiers0 of Some _ \<Rightarrow> Some ms' | None \<Rightarrow> None)\<rparr>;
          upd = (\<lambda>evs. Some (put_handler important name h (case evs of Some e \<Rightarrow> e | None \<Rightarrow> [])))
      in ((if native then el\<lparr>nativeEvents := upd (nativeEvents el), plain := False\<rparr>
           else el\<lparr>events := upd (events el), plain := False\<rparr>), w))"

section \<open>Attributes\<close>

definition remove_attr :: "string \<Rightarrow> (string \<times> string) list \<Rightarrow> (string \<times> string) list" where
  "remove_attr name as =
     (case index_by (\<lambda>a. fst a = name) as of Some i \<Rightarrow> splice1 i as | None \<Rightarrow> as)"

definition getAndRemoveAttr :: "elem \<Rightarrow> string \<Rightarrow> bool \<Rightarrow> string option \<times> elem" where
  "getAndRemoveAttr el name removeFromMap =
     (let val = map_of (attrsMap el) name;
          el1 = (if val \<noteq> None then el\<lparr>attrsList := remove_attr name (attrsList el)\<rparr> else el);
          el2 = (if removeFromMap then el1\<lparr>attrsMap := obj_del name (attrsMap el1)\<rparr> else el1)
      in (val, el2))"

end
