(* ===== verification/CompilerUtil.thy ===== *)
theory CompilerUtil
  imports Ast
begin

text \<open>
  The expression scanners of the compiler in \<open>frontend/js/vue.js\<close>: \<open>parseFilters\<close> with
  \<open>wrapFilter\<close>, \<open>getBindingAttr\<close>, and \<open>parseModel\<close> with \<open>genAssignmentCode\<close>. The lemmas show
  that \<open>parseFilters\<close> splits an expression at exactly the separating pipes, and what
  \<open>parseModel\<close> takes as the base and the key of a path.
\<close>

section \<open>Filters\<close>

definition wrapFilter :: "string \<Rightarrow> string \<Rightarrow> string" where
  "wrapFilter exp fil =
     (case find_char (CHR ''('') fil of
        None \<Rightarrow> ''_f('' @ dq # fil @ dq # '')('' @ exp @ '')''
      | Some i \<Rightarrow>
          (let name = take i fil; args = drop (i + 1) fil
           in ''_f('' @ dq # name @ dq # '')('' @ exp @ (if args \<noteq> '')'' then '','' @ args else args)))"

text \<open>The lexical part of the scanner's variables.\<close>

record lex =
  inSingle :: bool
  inDouble :: bool
  inTemplateString :: bool
  inRegex :: bool
  curly :: int
  square :: int
  paren :: int

record pf_state =
  plex :: lex
  lastFilterIndex :: nat
  expression :: "string option"
  filters :: "string list"

definition lex0 :: lex where
  "lex0 = \<lparr>inSingle = False, inDouble = False, inTemplateString = False, inRegex = False,
           curly = 0, square = 0, paren = 0\<rparr>"

definition validDivisionChar :: "char \<Rightarrow> bool" where
  "validDivisionChar c \<longleftrightarrow> is_word c \<or> c \<in> {CHR '')'', CHR ''.'', CHR ''+'', CHR ''-'', CHR ''_'', CHR ''$'', CHR '']''}"

text \<open>
  \<open>p\<close> after the backward search: \<open>None\<close> when there is no character before position \<open>i\<close>, a
  space when there are only spaces.
\<close>

definition prev_nonspace :: "string \<Rightarrow> nat \<Rightarrow> char option" where
  "prev_nonspace exp i =
     (case List.find (\<lambda>c. c \<noteq> CHR '' '') (rev (take i exp)) of
        Some c \<Rightarrow> Some c
      | None \<Rightarrow> (if i = 0 then None else Some (CHR '' '')))"

definition prev_char :: "string \<Rightarrow> nat \<Rightarrow> char option" where
  "prev_char exp i = (if i = 0 then None else nth_opt exp (i - 1))"

text \<open>A character that is neither inside a string or regular expression nor a separator.\<close>

definition lex_other :: "string \<Rightarrow> nat \<Rightarrow> char \<Rightarrow> lex \<Rightarrow> lex" where
  "lex_other exp i c l =
     (let l1 = (if c = dq then l\<lparr>inDouble := True\<rparr>
                else if c = sq then l\<lparr>inSingle := True\<rparr>
                else if c = CHR 0x60 then l\<lparr>inTemplateString := True\<rparr>
                else if c = CHR ''('' then l\<lparr>paren := paren l + 1\<rparr>
                else if c = CHR '')'' then l\<lparr>paren := paren l - 1\<rparr>
                else if c = CHR ''['' then l\<lparr>square := square l + 1\<rparr>
                else if c = CHR '']'' then l\<lparr>square := square l - 1\<rparr>
                else if c = CHR ''{'' then l\<lparr>curly := curly l + 1\<rparr>
                else if c = CHR ''}'' then l\<lparr>curly := curly l - 1\<rparr>
                else l)
      in if c = CHR ''/'' \<and> (case prev_nonspace exp i of None \<Rightarrow> True | Some p \<Rightarrow> \<not> validDivisionChar p)
         then l1\<lparr>inRegex := True\<rparr> else l1)"

definition is_separator :: "string \<Rightarrow> nat \<Rightarrow> lex \<Rightarrow> bool" where
  "is_separator exp i l \<longleftrightarrow>
     exp ! i = CHR ''|'' \<and> nth_opt exp (i + 1) \<noteq> Some (CHR ''|'') \<and>
     prev_char exp i \<noteq> Some (CHR ''|'') \<and> curly l = 0 \<and> square l = 0 \<and> paren l = 0"

definition pushFilter :: "string \<Rightarrow> nat \<Rightarrow> pf_state \<Rightarrow> pf_state" where
  "pushFilter exp i st =
     st\<lparr>filters := filters st @ [trim (slice (lastFilterIndex st) i exp)], lastFilterIndex := i + 1\<rparr>"

definition pf_step :: "string \<Rightarrow> nat \<Rightarrow> pf_state \<Rightarrow> pf_state" where
  "pf_step exp i st =
     (let c = exp ! i; esc = (prev_char exp i = Some bsl); l = plex st in
      if inSingle l then
        (if c = sq \<and> \<not> esc then st\<lparr>plex := l\<lparr>inSingle := False\<rparr>\<rparr> else st)
      else if inDouble l then
        (if c = dq \<and> \<not> esc then st\<lparr>plex := l\<lparr>inDouble := False\<rparr>\<rparr> else st)
      else if inTemplateString l then
        (if c = CHR 0x60 \<and> \<not> esc then st\<lparr>plex := l\<lparr>inTemplateString := False\<rparr>\<rparr> else st)
      else if inRegex l then
        (if c = CHR ''/'' \<and> \<not> esc then st\<lparr>plex := l\<lparr>inRegex := False\<rparr>\<rparr> else st)
      else if is_separator exp i l then
        (if expression st = None
         then st\<lparr>lastFilterIndex := i + 1, expression := Some (trim (take i exp))\<rparr>
         else pushFilter exp i st)
      else st\<lparr>plex := lex_other exp i c l\<rparr>)"

definition pf_init :: pf_state where
  "pf_init = \<lparr>plex = lex0, lastFilterIndex = 0, expression = None, filters = []\<rparr>"

definition pf_run :: "string \<Rightarrow> nat \<Rightarrow> nat \<Rightarrow> pf_state \<Rightarrow> pf_state" where
  "pf_run exp i k st = fold (pf_step exp) [i..<i + k] st"

definition parseFilters :: "string \<Rightarrow> string" where
  "parseFilters exp =
     (let n = length exp;
          st = pf_run exp 0 n pf_init;
          (e, fs) = (case expression st of
                       None \<Rightarrow> (trim exp, filters st)
                     | Some e \<Rightarrow> (e, if lastFilterIndex st \<noteq> 0 then filters (pushFilter exp n st)
                                     else filters st))
      in foldl wrapFilter e fs)"

section \<open>Bound and static attributes\<close>

definition getBindingAttr :: "elem \<Rightarrow> string \<Rightarrow> bool \<Rightarrow> string option \<times> elem" where
  "getBindingAttr el name getStatic =
     (let (v1, el1) = getAndRemoveAttr el ('':'' @ name) False;
          (dynamicValue, el2) =
            (if tru v1 then (v1, el1) else getAndRemoveAttr el1 (''v-bind:'' @ name) False)
      in case dynamicValue of
           Some d \<Rightarrow> (Some (parseFilters d), el2)
         | None \<Rightarrow>
             (if getStatic then
                (let (s, el3) = getAndRemoveAttr el2 name False in (map_option json_quote s, el3))
              else (None, el2)))"

section \<open>Assignments to a v-model path\<close>

definition isStringStart :: "char option \<Rightarrow> bool" where
  "isStringStart chr \<longleftrightarrow> chr = Some dq \<or> chr = Some sq"

text \<open>The index after \<open>parseString(quote)\<close>, called at index \<open>i\<close>.\<close>

function parseString :: "string \<Rightarrow> char option \<Rightarrow> nat \<Rightarrow> nat" where
  "parseString str stringQuote i =
     (if length str \<le> i then i
      else if nth_opt str (i + 1) = stringQuote then i + 1
      else parseString str stringQuote (i + 1))"
  by pat_completeness auto
termination by (relation "measure (\<lambda>(str, q, i). length str - i)") auto

declare parseString.simps [simp del]

lemma parseString_ge: "i \<le> parseString str q i"
proof (induction str q i rule: parseString.induct)
  case (1 str q i)
  then show ?case by (subst parseString.simps) auto
qed

text \<open>
  The loop of \<open>parseBracket\<close> from index \<open>i\<close> with \<open>inBracket\<close> open brackets: the index and
  \<open>expressionEndPos\<close> afterwards.
\<close>

function bracketLoop :: "string \<Rightarrow> nat \<Rightarrow> int \<Rightarrow> nat \<Rightarrow> nat \<times> nat" where
  "bracketLoop str i inBracket endPos =
     (if length str \<le> i then (i, endPos)
      else
        let chr = nth_opt str (i + 1) in
        if isStringStart chr then bracketLoop str (parseString str chr (i + 1)) inBracket endPos
        else
          let n1 = (if chr = Some (CHR ''['') then inBracket + 1 else inBracket);
              n2 = (if chr = Some (CHR '']'') then n1 - 1 else n1)
          in if n2 = 0 then (i + 1, i + 1) else bracketLoop str (i + 1) n2 endPos)"
  by pat_completeness auto
termination
  by (relation "measure (\<lambda>(str, i, n, e). length str - i)")
    (auto simp: nth_opt_def isStringStart_def split: if_splits,
     (metis (no_types) Suc_eq_plus1 diff_less_mono2 le_eq_less_or_eq less_Suc_eq_le
        linorder_not_le parseString_ge)+)

declare bracketLoop.simps [simp del]

text \<open>
  The loop of \<open>parseModel\<close> over \<open>(index$1, expressionPos, expressionEndPos)\<close>; \<open>parseBracket\<close>
  sets \<open>expressionPos\<close> to the index of its bracket.
\<close>

lemma bracketLoop_ge: "i \<le> fst (bracketLoop str i n e)"
proof (induction str i n e rule: bracketLoop.induct)
  case (1 str i n e)
  show ?case
  proof (cases "length str \<le> i")
    case True
    then show ?thesis by (simp add: bracketLoop.simps)
  next
    case False
    let ?chr = "nth_opt str (i + 1)"
    show ?thesis
    proof (cases "isStringStart ?chr")
      case True
      with False "1.IH"(1) [OF False refl True] parseString_ge [of "i + 1" str ?chr]
      show ?thesis by (subst bracketLoop.simps) (simp add: Let_def)
    next
      case nostr: False
      with False "1.IH"(2) [OF False refl nostr refl refl]
      show ?thesis
        by (subst bracketLoop.simps) (auto simp: Let_def split: if_splits)
    qed
  qed
qed

function modelLoop :: "string \<Rightarrow> nat \<Rightarrow> nat \<Rightarrow> nat \<Rightarrow> nat \<times> nat" where
  "modelLoop str i pos endPos =
     (if length str \<le> i then (pos, endPos)
      else
        let chr = nth_opt str (i + 1) in
        if isStringStart chr then modelLoop str (parseString str chr (i + 1)) pos endPos
        else if chr = Some (CHR ''['') then
          modelLoop str (fst (bracketLoop str (i + 1) 1 endPos)) (i + 1) (snd (bracketLoop str (i + 1) 1 endPos))
        else modelLoop str (i + 1) pos endPos)"
  by pat_completeness auto
termination
proof (relation "measure (\<lambda>(str, i, pos, e). length str - i)", goal_cases)
  case 1
  then show ?case by simp
next
  case (2 str i pos e chr)
  then show ?case using parseString_ge [of "i + 1" str chr] by simp
next
  case (3 str i pos e chr)
  then show ?case using bracketLoop_ge [of "i + 1" str 1 e] by simp
next
  case (4 str i pos e chr)
  then show ?case by simp
qed

declare modelLoop.simps [simp del]

text \<open>The result: \<open>exp\<close>, and \<open>key\<close> or null (\<open>None\<close>).\<close>

definition parseModel :: "string \<Rightarrow> string \<times> string option" where
  "parseModel val0 =
     (let val = trim val0; len = length val in
      if find_char (CHR ''['') val = None \<or>
         (case find_last_char (CHR '']'') val of None \<Rightarrow> 0 < len | Some k \<Rightarrow> k + 1 < len)
      then (case find_last_char (CHR ''.'') val of
              Some k \<Rightarrow> (take k val, Some (dq # drop (k + 1) val @ [dq]))
            | None \<Rightarrow> (val, None))
      else (let (pos, endPos) = modelLoop val 0 0 0
            in (take pos val, Some (slice (pos + 1) endPos val))))"

definition genAssignmentCode :: "string \<Rightarrow> string \<Rightarrow> string" where
  "genAssignmentCode value assignment =
     (case parseModel value of
        (e, None) \<Rightarrow> value @ ''='' @ assignment
      | (e, Some key) \<Rightarrow> ''$set('' @ e @ '', '' @ key @ '', '' @ assignment @ '')'')"

section \<open>Lemmas on filters\<close>

lemma pf_run_0 [simp]: "pf_run exp i 0 st = st"
  by (simp add: pf_run_def)

lemma pf_run_Suc: "pf_run exp i (Suc k) st = pf_step exp (i + k) (pf_run exp i k st)"
  by (simp add: pf_run_def)

lemma pf_run_add: "pf_run exp i (k + m) st = pf_run exp (i + k) m (pf_run exp i k st)"
  by (induction m) (simp_all add: pf_run_Suc add.assoc)

lemma pf_step_expression: "expression st \<noteq> None \<Longrightarrow> expression (pf_step exp i st) \<noteq> None"
  by (auto simp: pf_step_def pushFilter_def Let_def)

lemma pf_run_expression: "expression st \<noteq> None \<Longrightarrow> expression (pf_run exp i k st) \<noteq> None"
proof (induction k)
  case 0
  then show ?case by simp
next
  case (Suc k)
  then show ?case using pf_step_expression [of "pf_run exp i k st" exp "i + k"]
    by (simp add: pf_run_Suc)
qed

text \<open>
  A segment is quiet when the scanner, started on it alone, meets no separator and ends
  outside every string, regular expression and bracket.
\<close>

definition quiet :: "string \<Rightarrow> bool" where
  "quiet s \<longleftrightarrow> (let st = pf_run s 0 (length s) pf_init in expression st = None \<and> plex st = lex0)"

text \<open>\<open>s\<close> stands in \<open>exp\<close> at position \<open>j\<close>, between pipes or the ends of \<open>exp\<close>.\<close>

definition occurs :: "string \<Rightarrow> nat \<Rightarrow> string \<Rightarrow> bool" where
  "occurs exp j s \<longleftrightarrow>
     (\<exists>pre post. exp = pre @ s @ post \<and> length pre = j \<and>
        (pre = [] \<or> last pre = CHR ''|'') \<and> (post = [] \<or> hd post = CHR ''|''))"

definition segment :: "string \<Rightarrow> bool" where
  "segment s \<longleftrightarrow> s \<noteq> [] \<and> hd s \<noteq> CHR ''|'' \<and> last s \<noteq> CHR ''|'' \<and> quiet s"

lemma occurs_nth: "occurs exp j s \<Longrightarrow> i < length s \<Longrightarrow> exp ! (j + i) = s ! i"
  by (auto simp: occurs_def nth_append)

lemma occurs_nth_opt: "occurs exp j s \<Longrightarrow> i < length s \<Longrightarrow> nth_opt exp (j + i) = nth_opt s i"
  using occurs_nth [of exp j s i] by (auto simp: occurs_def nth_opt_def)

lemma occurs_prev:
  "occurs exp j s \<Longrightarrow> i < length s \<Longrightarrow> 0 < i \<Longrightarrow> prev_char exp (j + i) = prev_char s i"
  using occurs_nth_opt [of exp j s "i - 1"] by (simp add: prev_char_def)

lemma occurs_next:
  "occurs exp j s \<Longrightarrow> i + 1 < length s \<Longrightarrow> nth_opt exp (j + i + 1) = nth_opt s (i + 1)"
  by (auto simp: occurs_def nth_opt_def nth_append)

lemma occurs_prev_nonspace:
  assumes "occurs exp j s" "i < length s"
  shows "(case prev_nonspace exp (j + i) of None \<Rightarrow> True | Some p \<Rightarrow> \<not> validDivisionChar p) =
         (case prev_nonspace s i of None \<Rightarrow> True | Some p \<Rightarrow> \<not> validDivisionChar p)"
proof -
  from assms(1) obtain pre post where e: "exp = pre @ s @ post" "length pre = j"
      "pre = [] \<or> last pre = CHR ''|''"
    by (auto simp: occurs_def)
  then have tk: "take (j + i) exp = pre @ take i s" using assms(2) by simp
  have nv: "\<not> validDivisionChar (CHR '' '')" "\<not> validDivisionChar (CHR ''|'')"
    by (auto simp: validDivisionChar_def is_word_def is_upper_def is_lower_def is_digit_def code_def)
  show ?thesis
  proof (cases "List.find (\<lambda>c. c \<noteq> CHR '' '') (rev (take i s))")
    case (Some c)
    then have "List.find (\<lambda>c. c \<noteq> CHR '' '') (rev (take i s) @ rev pre) = Some c"
      by (simp add: find_append)
    with Some tk show ?thesis by (simp add: prev_nonspace_def)
  next
    case None
    then have n: "List.find (\<lambda>c. c \<noteq> CHR '' '') (rev (take i s) @ rev pre)
                    = List.find (\<lambda>c. c \<noteq> CHR '' '') (rev pre)"
      by (simp add: find_append)
    show ?thesis
    proof (cases "pre = []")
      case True
      with e(2) tk show ?thesis by (simp add: prev_nonspace_def)
    next
      case False
      then obtain pre' where p: "pre = pre' @ ''|''"
        using e(3) by (cases pre rule: rev_cases) auto
      show ?thesis
        using None n tk nv unfolding p by (simp add: prev_nonspace_def)
    qed
  qed
qed

definition in_code :: "lex \<Rightarrow> bool" where
  "in_code l \<longleftrightarrow> \<not> inSingle l \<and> \<not> inDouble l \<and> \<not> inTemplateString l \<and> \<not> inRegex l"

definition lex_step :: "string \<Rightarrow> nat \<Rightarrow> lex \<Rightarrow> lex" where
  "lex_step exp i l =
     (let c = exp ! i; esc = (prev_char exp i = Some bsl) in
      if inSingle l then (if c = sq \<and> \<not> esc then l\<lparr>inSingle := False\<rparr> else l)
      else if inDouble l then (if c = dq \<and> \<not> esc then l\<lparr>inDouble := False\<rparr> else l)
      else if inTemplateString l then (if c = CHR 0x60 \<and> \<not> esc then l\<lparr>inTemplateString := False\<rparr> else l)
      else if inRegex l then (if c = CHR ''/'' \<and> \<not> esc then l\<lparr>inRegex := False\<rparr> else l)
      else lex_other exp i c l)"

lemma pf_step_lex:
  "\<not> (in_code (plex st) \<and> is_separator exp i (plex st)) \<Longrightarrow>
     pf_step exp i st = st\<lparr>plex := lex_step exp i (plex st)\<rparr>"
  by (auto simp: pf_step_def lex_step_def in_code_def Let_def)

lemma pf_step_separator:
  "in_code (plex st) \<Longrightarrow> is_separator exp i (plex st) \<Longrightarrow>
     pf_step exp i st = (if expression st = None
        then st\<lparr>lastFilterIndex := i + 1, expression := Some (trim (take i exp))\<rparr>
        else pushFilter exp i st)"
  by (auto simp: pf_step_def in_code_def Let_def)

lemma lex0_in_code [simp]: "in_code lex0"
  by (simp add: in_code_def lex0_def)

lemma lex_step_occurs:
  assumes "occurs exp j s" "i < length s" "0 < i \<or> l = lex0"
  shows "lex_step exp (j + i) l = lex_step s i l"
proof -
  have other: "lex_other exp (j + i) c l = lex_other s i c l" for c
    using occurs_prev_nonspace [OF assms(1,2)] by (simp add: lex_other_def)
  show ?thesis
  proof (cases "0 < i")
    case True
    then show ?thesis
      by (simp only: lex_step_def other occurs_nth [OF assms(1,2)] occurs_prev [OF assms(1,2) True])
  next
    case False
    with assms(3) have "l = lex0" by simp
    with other show ?thesis
      by (simp add: lex_step_def lex0_def occurs_nth [OF assms(1,2)])
  qed
qed

lemma separator_occurs:
  assumes "occurs exp j s" "i < length s" "hd s \<noteq> CHR ''|''" "last s \<noteq> CHR ''|''"
  shows "is_separator exp (j + i) l = is_separator s i l"
proof (cases "s ! i = CHR ''|''")
  case False
  then show ?thesis using occurs_nth [OF assms(1,2)] by (simp add: is_separator_def)
next
  case True
  have ne: "s \<noteq> []" using assms(2) by auto
  have "i \<noteq> 0"
  proof
    assume "i = 0"
    with True assms(3) ne show False by (simp add: hd_conv_nth)
  qed
  moreover have "i + 1 < length s"
  proof (rule ccontr)
    assume "\<not> i + 1 < length s"
    then have "i = length s - 1" using assms(2) by simp
    then show False using True assms(4) ne by (simp add: last_conv_nth)
  qed
  ultimately show ?thesis
    using occurs_nth [OF assms(1,2)] occurs_prev [OF assms(1,2)] occurs_next [OF assms(1)]
    by (simp add: is_separator_def)
qed

lemma quiet_prefix:
  assumes "quiet s" "k < length s"
  shows "\<not> (in_code (plex (pf_run s 0 k pf_init)) \<and> is_separator s k (plex (pf_run s 0 k pf_init)))"
proof
  assume h: "in_code (plex (pf_run s 0 k pf_init)) \<and> is_separator s k (plex (pf_run s 0 k pf_init))"
  have "expression (pf_run s 0 (Suc k) pf_init) \<noteq> None"
    using h by (auto simp: pf_run_Suc pf_step_separator pushFilter_def)
  then have "expression (pf_run s (0 + Suc k) (length s - Suc k) (pf_run s 0 (Suc k) pf_init)) \<noteq> None"
    by (rule pf_run_expression)
  then have "expression (pf_run s 0 (Suc k + (length s - Suc k)) pf_init) \<noteq> None"
    by (subst pf_run_add)
  moreover have "Suc k + (length s - Suc k) = length s" using assms(2) by simp
  ultimately have "expression (pf_run s 0 (length s) pf_init) \<noteq> None" by metis
  then show False using assms(1) by (simp add: quiet_def Let_def)
qed

lemma pf_run_segment_prefix:
  assumes "occurs exp j s" "segment s" "plex st = lex0" "k \<le> length s"
  shows "pf_run exp j k st = st\<lparr>plex := plex (pf_run s 0 k pf_init)\<rparr>"
  using assms(4)
proof (induction k)
  case 0
  then show ?case using assms(3) by (simp add: pf_init_def)
next
  case (Suc k)
  let ?l = "plex (pf_run s 0 k pf_init)"
  have k: "k < length s" and q: "quiet s" using Suc.prems assms(2) by (auto simp: segment_def)
  have nosep: "\<not> (in_code ?l \<and> is_separator s k ?l)" by (rule quiet_prefix [OF q k])
  then have "plex (pf_run s 0 (Suc k) pf_init) = lex_step s k ?l"
    by (simp add: pf_run_Suc pf_step_lex)
  moreover have "is_separator exp (j + k) ?l = is_separator s k ?l"
    using assms(1,2) k by (intro separator_occurs) (auto simp: segment_def)
  moreover have "lex_step exp (j + k) ?l = lex_step s k ?l"
    by (rule lex_step_occurs [OF assms(1) k]) (cases "k = 0", auto simp: pf_init_def)
  ultimately show ?case using Suc nosep by (simp add: pf_run_Suc pf_step_lex)
qed

lemma pf_run_segment:
  assumes "occurs exp j s" "segment s" "plex st = lex0"
  shows "pf_run exp j (length s) st = st"
proof -
  have "plex (pf_run s 0 (length s) pf_init) = lex0"
    using assms(2) by (simp add: segment_def quiet_def Let_def)
  then show ?thesis
    using pf_run_segment_prefix [OF assms order_refl] assms(3) by simp
qed

lemma join_pipe: "ss \<noteq> [] \<Longrightarrow> join ''|'' (s # ss) = s @ ''|'' @ join ''|'' ss"
  by (cases ss) auto

lemma join_hd: "segment s \<Longrightarrow> \<exists>c r. join ''|'' (s # ss) = c # r \<and> c \<noteq> CHR ''|''"
  by (cases s; cases ss) (auto simp: segment_def)

lemma sep_at:
  assumes "exp = pre @ s @ ''|'' @ rest" "segment s" "\<exists>c r. rest = c # r \<and> c \<noteq> CHR ''|''"
  shows "is_separator exp (length pre + length s) lex0"
proof -
  obtain s' d where s: "s = s' @ [d]" using assms(2) by (cases s rule: rev_cases) (auto simp: segment_def)
  obtain c r where r: "rest = c # r" "c \<noteq> CHR ''|''" using assms(3) by auto
  from assms(2) s have d: "d \<noteq> CHR ''|''" by (simp add: segment_def)
  have "exp = (pre @ s') @ d # CHR ''|'' # c # r" using assms(1) s r by simp
  then have "exp ! (length pre + length s) = CHR ''|''" "prev_char exp (length pre + length s) = Some d"
    "nth_opt exp (length pre + length s + 1) = Some c"
    using s by (auto simp: prev_char_def nth_opt_def nth_append)
  with r d show ?thesis by (simp add: is_separator_def lex0_def)
qed

lemma pf_run_filters:
  assumes "exp = pre @ join ''|'' ss" "ss \<noteq> []" "\<forall>s\<in>set ss. segment s"
    and "pre = [] \<or> last pre = CHR ''|''"
    and "plex st = lex0" "lastFilterIndex st = length pre" "expression st \<noteq> None"
  shows "\<exists>st'. pf_run exp (length pre) (length (join ''|'' ss)) st = st' \<and>
           expression st' = expression st \<and>
           filters (pushFilter exp (length exp) st') = filters st @ map trim ss \<and>
           lastFilterIndex st' \<ge> length pre"
  using assms
proof (induction ss arbitrary: pre st)
  case Nil
  then show ?case by simp
next
  case (Cons s ss)
  show ?case
  proof (cases "ss = []")
    case True
    with Cons.prems have e: "exp = pre @ s" by simp
    have "occurs exp (length pre) s" unfolding occurs_def
      using e Cons.prems(4) by (intro exI [of _ pre] exI [of _ "[]"]) simp
    then have "pf_run exp (length pre) (length s) st = st"
      using Cons.prems by (intro pf_run_segment) auto
    with True e Cons.prems(6) show ?thesis
      by (simp add: pushFilter_def slice_def)
  next
    case False
    let ?rest = "join ''|'' ss" and ?j = "length pre" and ?pre' = "pre @ s @ ''|''"
    have e: "exp = pre @ s @ ''|'' @ ?rest" using Cons.prems(1) False by (simp add: join_pipe)
    have seg: "segment s" using Cons.prems(3) by simp
    obtain t ts where ss: "ss = t # ts" using False by (cases ss) auto
    have rest: "\<exists>c r. ?rest = c # r \<and> c \<noteq> CHR ''|''"
      using Cons.prems(3) join_hd [of t ts] unfolding ss by auto
    have occ: "occurs exp ?j s" unfolding occurs_def
      using e Cons.prems(4) by (intro exI [of _ pre] exI [of _ "''|'' @ ?rest"]) simp
    let ?st1 = "pushFilter exp (?j + length s) st"
    have step: "pf_run exp ?j (length s + 1) st = ?st1"
      using pf_run_segment [OF occ seg Cons.prems(5)] sep_at [OF e seg rest] Cons.prems(5,7)
      by (auto simp: pf_run_Suc pf_step_separator)
    have f1: "filters ?st1 = filters st @ [trim s]"
      using e Cons.prems(6) by (simp add: pushFilter_def slice_def)
    have ih: "\<exists>st'. pf_run exp (length ?pre') (length ?rest) ?st1 = st' \<and>
           expression st' = expression ?st1 \<and>
           filters (pushFilter exp (length exp) st') = filters ?st1 @ map trim ss \<and>
           lastFilterIndex st' \<ge> length ?pre'"
      by (rule Cons.IH) (use e False Cons.prems in \<open>auto simp: pushFilter_def\<close>)
    have "length (join ''|'' (s # ss)) = (length s + 1) + length ?rest"
      using False by (simp add: join_pipe)
    then have "pf_run exp ?j (length (join ''|'' (s # ss))) st
                 = pf_run exp (length ?pre') (length ?rest) ?st1"
      using step by (simp only: pf_run_add) (simp add: add.assoc)
    with ih f1 show ?thesis by (auto simp: pushFilter_def)
  qed
qed

text \<open>
  \<open>parseFilters\<close> splits an expression at exactly its separating pipes: when every part, read
  alone, ends outside strings, regular expressions and brackets and meets no separator, the
  result wraps the trimmed first part in the calls of the trimmed filters, in order. Pipes
  inside strings and brackets, and \<open>||\<close>, stay in their part.
\<close>

theorem parseFilters_segments:
  assumes "\<forall>s\<in>set (e # fs). segment s"
  shows "parseFilters (join ''|'' (e # fs)) = foldl wrapFilter (trim e) (map trim fs)"
proof (cases "fs = []")
  case True
  have "quiet e" using assms by (simp add: segment_def)
  with True show ?thesis
    using pf_run_segment_prefix [of e 0 e pf_init "length e"] assms
    by (auto simp: parseFilters_def quiet_def Let_def occurs_def pf_init_def)
next
  case False
  let ?exp = "join ''|'' (e # fs)" and ?rest = "join ''|'' fs"
  have x: "?exp = [] @ e @ ''|'' @ ?rest" using False by (simp add: join_pipe)
  have seg: "segment e" using assms by simp
  obtain t ts where fs: "fs = t # ts" using False by (cases fs) auto
  have rest: "\<exists>c r. ?rest = c # r \<and> c \<noteq> CHR ''|''"
    using assms join_hd [of t ts] unfolding fs by auto
  have occ: "occurs ?exp 0 e" using x by (auto simp: occurs_def)
  let ?st1 = "pf_init\<lparr>lastFilterIndex := length e + 1, expression := Some (trim e)\<rparr>"
  have "pf_run ?exp 0 (length e) pf_init = pf_init"
    using pf_run_segment [OF occ seg] by (simp add: pf_init_def)
  then have step: "pf_run ?exp 0 (length e + 1) pf_init = ?st1"
    using sep_at [OF x seg rest] x by (simp add: pf_run_Suc pf_step_separator pf_init_def)
  obtain st' where st': "pf_run ?exp (length (e @ ''|'')) (length ?rest) ?st1 = st'"
      "expression st' = Some (trim e)"
      "filters (pushFilter ?exp (length ?exp) st') = map trim fs" "lastFilterIndex st' \<ge> length (e @ ''|'')"
    using pf_run_filters [of ?exp "e @ ''|''" fs ?st1] x False assms
    by (auto simp: pf_init_def)
  have "length ?exp = (length e + 1) + length ?rest" using x by simp
  then have "pf_run ?exp 0 (length ?exp) pf_init = st'"
    using step st'(1) by (simp only: pf_run_add) simp
  with st' show ?thesis by (simp add: parseFilters_def Let_def)
qed

section \<open>Lemmas on v-model paths\<close>

text \<open>\<open>closes n s\<close>: read with \<open>n\<close> brackets open, \<open>s\<close> keeps one open all the way and ends with one.\<close>

fun closes :: "int \<Rightarrow> string \<Rightarrow> bool" where
  "closes n [] = (n = 1)"
| "closes n (c # cs) =
     (let n' = (if c = CHR ''['' then n + 1 else if c = CHR '']'' then n - 1 else n)
      in 0 < n' \<and> closes n' cs)"

definition no_quotes :: "string \<Rightarrow> bool" where
  "no_quotes s \<longleftrightarrow> list_all (\<lambda>c. c \<noteq> dq \<and> c \<noteq> sq) s"

lemma nth_opt_append [simp]: "nth_opt (b @ c # r) (length b) = Some c"
  by (simp add: nth_opt_def)

lemma bracketLoop_closes:
  "no_quotes k \<Longrightarrow> closes n k \<Longrightarrow> length b = i + 1 \<Longrightarrow>
   bracketLoop (b @ k @ CHR '']'' # r) i n e = (i + 1 + length k, i + 1 + length k)"
proof (induction k arbitrary: n b i)
  case Nil
  then have "nth_opt (b @ CHR '']'' # r) (i + 1) = Some (CHR '']'')"
    by (metis nth_opt_append)
  with Nil show ?case
    by (subst bracketLoop.simps) (simp add: isStringStart_def dq_def sq_def)
next
  case (Cons c k)
  let ?n = "if c = CHR ''['' then n + 1 else if c = CHR '']'' then n - 1 else n"
  have nth: "nth_opt (b @ (c # k) @ CHR '']'' # r) (i + 1) = Some c"
    using Cons.prems(3) nth_opt_append [of b c "k @ CHR '']'' # r"] by simp
  have nq: "c \<noteq> dq" "c \<noteq> sq" "no_quotes k" using Cons.prems(1) by (auto simp: no_quotes_def)
  have cl: "0 < ?n" "closes ?n k" using Cons.prems(2) by (auto simp: Let_def)
  have "bracketLoop (b @ (c # k) @ CHR '']'' # r) i n e
          = bracketLoop (b @ (c # k) @ CHR '']'' # r) (i + 1) ?n e"
    using nth nq cl Cons.prems(3) by (subst bracketLoop.simps) (auto simp: isStringStart_def)
  also have "\<dots> = (i + 1 + 1 + length k, i + 1 + 1 + length k)"
    using Cons.IH [of ?n "b @ [c]" "i + 1"] nq cl Cons.prems(3) by simp
  finally show ?case by simp
qed

lemma modelLoop_skip:
  "list_all (\<lambda>c. c \<noteq> dq \<and> c \<noteq> sq \<and> c \<noteq> CHR ''['') s \<Longrightarrow> length b = i + 1 \<Longrightarrow>
   modelLoop (b @ s @ r) i p e = modelLoop (b @ s @ r) (i + length s) p e"
proof (induction s arbitrary: b i)
  case Nil
  then show ?case by simp
next
  case (Cons c s)
  have nth: "nth_opt (b @ (c # s) @ r) (i + 1) = Some c"
    using Cons.prems(2) nth_opt_append [of b c "s @ r"] by simp
  have "modelLoop (b @ (c # s) @ r) i p e = modelLoop (b @ (c # s) @ r) (i + 1) p e"
    using nth Cons.prems by (subst modelLoop.simps) (simp add: isStringStart_def)
  also have "\<dots> = modelLoop (b @ (c # s) @ r) (i + 1 + length s) p e"
    using Cons.IH [of "b @ [c]" "i + 1"] Cons.prems by simp
  finally show ?case by simp
qed

lemma modelLoop_end:
  "length str \<le> i + 1 \<Longrightarrow> modelLoop str i p e = (p, e)"
  by (subst modelLoop.simps, simp add: nth_opt_def isStringStart_def)
    (subst modelLoop.simps, simp)

lemma modelLoop_bracket:
  assumes "list_all (\<lambda>c. c \<noteq> dq \<and> c \<noteq> sq \<and> c \<noteq> CHR ''['') s" "no_quotes k" "closes 1 k"
  shows "modelLoop (c # s @ CHR ''['' # k @ '']'') 0 p e
           = (1 + length s, 2 + length s + length k)"
proof -
  let ?str = "c # s @ CHR ''['' # k @ '']''"
  let ?b = "c # s @ ''[''"
  have "modelLoop ?str 0 p e = modelLoop ?str (length s) p e"
    using modelLoop_skip [OF assms(1), of "[c]" 0 "CHR ''['' # k @ '']''" p e] by simp
  also have "\<dots> = modelLoop ?str (fst (bracketLoop ?str (length s + 1) 1 e)) (length s + 1)
                        (snd (bracketLoop ?str (length s + 1) 1 e))"
  proof -
    have "nth_opt ?str (length s + 1) = Some (CHR ''['')"
      using nth_opt_append [of "c # s" "CHR ''[''" "k @ '']''"] by simp
    then show ?thesis by (subst modelLoop.simps) (simp add: isStringStart_def dq_def sq_def)
  qed
  also have "bracketLoop ?str (length s + 1) 1 e = (length s + 1 + 1 + length k, length s + 1 + 1 + length k)"
    using bracketLoop_closes [OF assms(2,3), of ?b "length s + 1" "[]" e] by simp
  finally show ?thesis by (simp add: modelLoop_end)
qed

text \<open>
  A subscripted path splits at its last top-level subscript: the base is everything before its
  opening bracket (a subscript-free prefix here), the key everything inside, nested subscripts
  included.
\<close>

text \<open>
  A subscripted v-model path splits at its last top-level subscript: the base is
  everything before its opening bracket (a subscript-free prefix here), the key is everything
  inside, nested subscripts included.
\<close>

theorem parseModel_subscript:
  assumes "list_all (\<lambda>c. c \<noteq> dq \<and> c \<noteq> sq \<and> c \<noteq> CHR ''['') base" "base \<noteq> []"
    and "no_quotes key" "closes 1 key"
    and "trim (base @ ''['' @ key @ '']'') = base @ ''['' @ key @ '']''"
  shows "parseModel (base @ ''['' @ key @ '']'') = (base, Some key)"
proof -
  let ?v = "base @ ''['' @ key @ '']''"
  obtain c s where b: "base = c # s" using assms(2) by (cases base) auto
  have "find_char (CHR ''['') ?v \<noteq> None" by (simp add: find_char_None)
  then obtain i where f: "find_char (CHR ''['') ?v = Some i" by blast
  have l: "find_last_char (CHR '']'') ?v = Some (length ?v - 1)"
    by (simp add: find_last_char_def find_char_def)
  have m: "modelLoop ?v 0 0 0 = (length base, length base + 1 + length key)"
    using modelLoop_bracket [of s key c 0 0] assms b by simp
  show ?thesis unfolding parseModel_def assms(5) Let_def
    using f l m by (simp add: slice_def)
qed

lemma parseFilters_segments_witness:
  "parseFilters ''a | f | g(1)'' = ''_f('' @ dq # ''g'' @ dq # '')(_f('' @ dq # ''f'' @ dq # '')(a),1)''"
proof -
  have "\<forall>s\<in>set [''a '', '' f '', '' g(1)'']. segment s" by code_simp
  then have "parseFilters (join ''|'' [''a '', '' f '', '' g(1)'']) =
      foldl wrapFilter (trim ''a '') (map trim ['' f '', '' g(1)''])"
    by (rule parseFilters_segments)
  moreover have "foldl wrapFilter (trim ''a '') (map trim ['' f '', '' g(1)''])
      = ''_f('' @ dq # ''g'' @ dq # '')(_f('' @ dq # ''f'' @ dq # '')(a),1)''"
    by code_simp
  ultimately show ?thesis by simp
qed

lemma parseModel_subscript_witness:
  "parseModel ''xxx.test[a[b].c[key]]'' = (''xxx.test'', Some ''a[b].c[key]'')"
proof -
  have "parseModel (''xxx.test'' @ ''['' @ ''a[b].c[key]'' @ '']'') = (''xxx.test'', Some ''a[b].c[key]'')"
    by (rule parseModel_subscript) code_simp+
  then show ?thesis by simp
qed

end
