(* ===== verification/WebTags.thy ===== *)
theory WebTags
  imports SharedUtil
begin

text \<open>
  The tag and attribute tables of the web platform in \<open>frontend/js/vue.js\<close> (\<open>mustUseProp\<close> to
  \<open>isTextInputType\<close>, and the tables of the HTML parser), which the compiler, the patcher and
  the attribute module consult.
\<close>

definition isReservedAttr :: "string \<Rightarrow> bool" where
  "isReservedAttr = makeMap ''style,class'' False"

definition acceptValue :: "string \<Rightarrow> bool" where
  "acceptValue = makeMap ''input,textarea,option,select,progress'' False"

definition mustUseProp :: "string \<Rightarrow> string option \<Rightarrow> string \<Rightarrow> bool" where
  "mustUseProp tag type attr \<longleftrightarrow>
     (attr = ''value'' \<and> acceptValue tag) \<and> type \<noteq> Some ''button'' \<or>
     (attr = ''selected'' \<and> tag = ''option'') \<or>
     (attr = ''checked'' \<and> tag = ''input'') \<or>
     (attr = ''muted'' \<and> tag = ''video'')"

definition isEnumeratedAttr :: "string \<Rightarrow> bool" where
  "isEnumeratedAttr = makeMap ''contenteditable,draggable,spellcheck'' False"

definition isBooleanAttr :: "string \<Rightarrow> bool" where
  "isBooleanAttr = makeMap
     (''allowfullscreen,async,autofocus,autoplay,checked,compact,controls,declare,'' @
      ''default,defaultchecked,defaultmuted,defaultselected,defer,disabled,'' @
      ''enabled,formnovalidate,hidden,indeterminate,inert,ismap,itemscope,loop,multiple,'' @
      ''muted,nohref,noresize,noshade,novalidate,nowrap,open,pauseonexit,readonly,'' @
      ''required,reversed,scoped,seamless,selected,sortable,translate,'' @
      ''truespeed,typemustmatch,visible'') False"

definition xlinkNS :: string where "xlinkNS = ''http://www.w3.org/1999/xlink''"

definition isXlink :: "string \<Rightarrow> bool" where
  "isXlink name \<longleftrightarrow> nth_opt name 5 = Some (CHR '':'') \<and> take 5 name = ''xlink''"

definition getXlinkProp :: "string \<Rightarrow> string" where
  "getXlinkProp name = (if isXlink name then slice 6 (length name) name else [])"

definition isFalsyAttrValue :: "jsval \<Rightarrow> bool" where
  "isFalsyAttrValue val \<longleftrightarrow> isUndef val \<or> val = JBool False"

definition namespaceMap :: "string \<Rightarrow> string option" where
  "namespaceMap = map_of
     [(''svg'', ''http://www.w3.org/2000/svg''),
      (''math'', ''http://www.w3.org/1998/Math/MathML'')]"

definition isHTMLTag :: "string \<Rightarrow> bool" where
  "isHTMLTag = makeMap
     (''html,body,base,head,link,meta,style,title,'' @
      ''address,article,aside,footer,header,h1,h2,h3,h4,h5,h6,hgroup,nav,section,'' @
      ''div,dd,dl,dt,figcaption,figure,picture,hr,img,li,main,ol,p,pre,ul,'' @
      ''a,b,abbr,bdi,bdo,br,cite,code,data,dfn,em,i,kbd,mark,q,rp,rt,rtc,ruby,'' @
      ''s,samp,small,span,strong,sub,sup,time,u,var,wbr,area,audio,map,track,video,'' @
      ''embed,object,param,source,canvas,script,noscript,del,ins,'' @
      ''caption,col,colgroup,table,thead,tbody,td,th,tr,'' @
      ''button,datalist,fieldset,form,input,label,legend,meter,optgroup,option,'' @
      ''output,progress,select,textarea,'' @
      ''details,dialog,menu,menuitem,summary,'' @
      ''content,element,shadow,template,blockquote,iframe,tfoot'') False"

definition isSVG :: "string \<Rightarrow> bool" where
  "isSVG = makeMap
     (''svg,animate,circle,clippath,cursor,defs,desc,ellipse,filter,font-face,'' @
      ''foreignObject,g,glyph,image,line,marker,mask,missing-glyph,path,pattern,'' @
      ''polygon,polyline,rect,switch,symbol,text,textpath,tspan,use,view'') True"

definition isPreTag :: "string \<Rightarrow> bool" where "isPreTag tag \<longleftrightarrow> tag = ''pre''"

definition isReservedTag :: "string \<Rightarrow> bool" where
  "isReservedTag tag \<longleftrightarrow> isHTMLTag tag \<or> isSVG tag"

definition getTagNamespace :: "string \<Rightarrow> string option" where
  "getTagNamespace tag =
     (if isSVG tag then Some ''svg'' else if tag = ''math'' then Some ''math'' else None)"

text \<open>
  \<open>isUnknownElement\<close> with its cache: \<open>probe\<close> stands for what the browser says of a new element
  of that name (is its constructor \<open>HTMLUnknownElement\<close>, is it \<open>HTMLElement\<close>, does its printed
  form name \<open>HTMLUnknownElement\<close>).
\<close>

definition isUnknownElement ::
    "bool \<Rightarrow> (string \<Rightarrow> bool \<times> bool \<times> bool) \<Rightarrow> bool obj \<Rightarrow> string \<Rightarrow> bool \<times> bool obj" where
  "isUnknownElement inBrowser probe cache tag0 =
     (if \<not> inBrowser then (True, cache)
      else if isReservedTag tag0 then (False, cache)
      else
        let tag = toLowerCase tag0
        in case map_of cache tag of
             Some b \<Rightarrow> (b, cache)
           | None \<Rightarrow>
               (case probe tag of
                  (unknownCtor, elementCtor, unknownText) \<Rightarrow>
                    let b = (if CHR ''-'' \<in> set tag then unknownCtor \<or> elementCtor else unknownText)
                    in (b, obj_put tag b cache)))"

definition isTextInputType :: "string \<Rightarrow> bool" where
  "isTextInputType = makeMap ''text,number,password,search,email,tel,url'' False"

section \<open>Tables of the HTML parser\<close>

definition isUnaryTag :: "string \<Rightarrow> bool" where
  "isUnaryTag = makeMap
     (''area,base,br,col,embed,frame,hr,img,input,isindex,keygen,'' @
      ''link,meta,param,source,track,wbr'') False"

definition canBeLeftOpenTag :: "string \<Rightarrow> bool" where
  "canBeLeftOpenTag = makeMap ''colgroup,dd,dt,li,options,p,td,tfoot,th,thead,tr,source'' False"

definition isNonPhrasingTag :: "string \<Rightarrow> bool" where
  "isNonPhrasingTag = makeMap
     (''address,article,aside,base,blockquote,body,caption,col,colgroup,dd,'' @
      ''details,dialog,div,dl,dt,fieldset,figcaption,figure,footer,form,'' @
      ''h1,h2,h3,h4,h5,h6,head,header,hgroup,hr,html,legend,li,menuitem,meta,'' @
      ''optgroup,option,param,rp,rt,source,style,summary,tbody,td,tfoot,th,thead,'' @
      ''title,tr,track'') False"

definition isPlainTextElement :: "string \<Rightarrow> bool" where
  "isPlainTextElement = makeMap ''script,style,textarea'' True"

definition isIgnoreNewlineTag :: "string \<Rightarrow> bool" where
  "isIgnoreNewlineTag = makeMap ''pre,textarea'' True"

section \<open>Lemmas\<close>

lemma isXlink_iff: "isXlink name \<longleftrightarrow> (\<exists>r. name = ''xlink:'' @ r)"
proof
  assume h: "isXlink name"
  then have l: "5 < length name" "name ! 5 = CHR '':''" by (auto simp: isXlink_def nth_opt_Some)
  have "name = take 5 name @ name ! 5 # drop 6 name"
    using id_take_nth_drop [OF l(1)] by simp
  with h l show "\<exists>r. name = ''xlink:'' @ r" by (metis append_Cons append_Nil append_assoc isXlink_def)
qed (auto simp: isXlink_def nth_opt_def)

lemma getXlinkProp_prefix [js_simps]: "getXlinkProp (''xlink:'' @ r) = r"
  by (auto simp: getXlinkProp_def isXlink_iff slice_def)

text \<open>The cache of \<open>isUnknownElement\<close> never changes an answer of a deterministic browser.\<close>

definition unknown_cache_ok :: "(string \<Rightarrow> bool \<times> bool \<times> bool) \<Rightarrow> bool obj \<Rightarrow> bool" where
  "unknown_cache_ok probe cache \<longleftrightarrow>
     (\<forall>tag b. map_of cache tag = Some b \<longrightarrow>
        b = (case probe tag of (u, e, t) \<Rightarrow> if CHR ''-'' \<in> set tag then u \<or> e else t))"

lemma isUnknownElement_cached [inv_intros]:
  assumes "unknown_cache_ok probe cache"
  shows "unknown_cache_ok probe (snd (isUnknownElement inB probe cache tag))"
    and "fst (isUnknownElement inB probe cache tag) = fst (isUnknownElement inB probe [] tag)"
proof -
  obtain u e t where p: "probe (toLowerCase tag) = (u, e, t)" by (metis prod_cases3)
  show "unknown_cache_ok probe (snd (isUnknownElement inB probe cache tag))"
    using assms p by (auto simp: isUnknownElement_def unknown_cache_ok_def Let_def split: option.splits)
  show "fst (isUnknownElement inB probe cache tag) = fst (isUnknownElement inB probe [] tag)"
  proof (cases "map_of cache (toLowerCase tag)")
    case None
    then show ?thesis by (simp add: isUnknownElement_def Let_def p)
  next
    case (Some b)
    have "b = (case probe (toLowerCase tag) of
        (u, e, t) \<Rightarrow> if CHR ''-'' \<in> set (toLowerCase tag) then u \<or> e else t)"
      by (rule assms [unfolded unknown_cache_ok_def, rule_format, OF Some])
    then have b: "b = (if CHR ''-'' \<in> set (toLowerCase tag) then u \<or> e else t)"
      by (simp only: p prod.case)
    show ?thesis by (simp add: isUnknownElement_def Let_def p Some) (simp add: b)
  qed
qed

text \<open>
  \<open>isSVG\<close> lowercases the tag before the lookup, so its entry \<open>foreignObject\<close> is unreachable.
\<close>

lemma isSVG_foreignObject: "\<not> isSVG ''foreignObject''"
  by code_simp

end
