(* ===== verification/WebClass.thy ===== *)
theory WebClass
  imports WebTags
begin

text \<open>
  The class module of \<open>frontend/js/vue.js\<close>: \<open>genClassForVnode\<close> and its helpers compute the
  class attribute from the class data along a chain of component roots, \<open>updateClass\<close> writes it
  when it changed, and \<open>addClass\<close>/\<open>removeClass\<close> edit the attribute of an element without
  \<open>classList\<close>. The lemmas show in which order the classes of child, vnode and parents
  appear, and that the DOM attribute is always the last class computed.
\<close>

section \<open>The class text of a vnode\<close>

record class_data =
  cd_static :: "string option"
  cd_class :: jsval

definition concat_class :: "string \<Rightarrow> string \<Rightarrow> string" where
  "concat_class a b = (if a \<noteq> [] then (if b \<noteq> [] then a @ '' '' @ b else a) else b)"

definition optstr :: "string option \<Rightarrow> string" where
  "optstr s = (case s of Some x \<Rightarrow> x | None \<Rightarrow> [])"

fun stringifyObject :: "jsval obj \<Rightarrow> string \<Rightarrow> string" where
  "stringifyObject [] res = res"
| "stringifyObject ((key, v) # value) res =
     stringifyObject value
       (if truthy v then (if res \<noteq> [] then res @ '' '' else res) @ key else res)"

text \<open>
  The loops of \<open>stringifyArray\<close> and \<open>stringifyObject\<close> carry the text built so far. The result
  of \<open>stringifyClass\<close> is always a string, so the test \<open>isDef(stringified)\<close> holds.
\<close>

fun stringifyClass :: "jsval \<Rightarrow> string" and stringifyArray :: "jsval list \<Rightarrow> string \<Rightarrow> string" where
  "stringifyClass (JArr i xs) = stringifyArray xs []"
| "stringifyClass (JObj i kvs) = stringifyObject kvs []"
| "stringifyClass (JStr s) = s"
| "stringifyClass _ = []"
| "stringifyArray [] res = res"
| "stringifyArray (v # value) res =
     stringifyArray value
       (if stringifyClass v \<noteq> [] then (if res \<noteq> [] then res @ '' '' else res) @ stringifyClass v
        else res)"

definition mergeClassData :: "class_data \<Rightarrow> class_data \<Rightarrow> class_data" where
  "mergeClassData child parent =
     \<lparr>cd_static = Some (concat_class (optstr (cd_static child)) (optstr (cd_static parent))),
      cd_class = (if isDef (cd_class child) then JArr 0 [cd_class child, cd_class parent]
                  else cd_class parent)\<rparr>"

definition renderClass :: "string option \<Rightarrow> jsval \<Rightarrow> string" where
  "renderClass staticClass dynamicClass =
     (if staticClass \<noteq> None \<or> isDef dynamicClass
      then concat_class (optstr staticClass) (stringifyClass dynamicClass) else [])"

text \<open>
  \<open>children\<close>: the data of the root vnodes of the nested component instances, outermost first;
  \<open>parents\<close>: the data of the placeholder vnodes along \<open>parent\<close>. \<open>None\<close> is a vnode without data
  (or a null \<open>_vnode\<close>).
\<close>

definition genClassForVnode ::
    "class_data option list \<Rightarrow> class_data \<Rightarrow> class_data option list \<Rightarrow> string" where
  "genClassForVnode children data0 parents =
     (let d1 = foldl (\<lambda>data c. case c of Some cd \<Rightarrow> mergeClassData cd data | None \<Rightarrow> data) data0 children;
          d2 = foldl (\<lambda>data p. case p of Some pd \<Rightarrow> mergeClassData data pd | None \<Rightarrow> data) d1 parents
      in renderClass (cd_static d2) (cd_class d2))"

section \<open>Writing the attribute\<close>

text \<open>
  What the module keeps of a DOM element: its class attribute, \<open>_prevClass\<close>,
  \<open>_transitionClasses\<close>, and how often the attribute was written.
\<close>

record class_el =
  class_attr :: "string option"
  prevClass :: "string option"
  transitionClasses :: "jsval option"
  class_writes :: nat

definition no_class :: "class_data option \<Rightarrow> bool" where
  "no_class d \<longleftrightarrow> (case d of None \<Rightarrow> True
                        | Some d \<Rightarrow> cd_static d = None \<and> isUndef (cd_class d))"

definition updateClass ::
    "class_data option list \<Rightarrow> class_data option list \<Rightarrow> class_data option \<Rightarrow> class_data \<Rightarrow> class_el \<Rightarrow> class_el" where
  "updateClass children parents oldData data el =
     (if no_class (Some data) \<and> no_class oldData then el
      else
        let cls0 = genClassForVnode children data parents;
            cls = (case transitionClasses el of
                     Some t \<Rightarrow> concat_class cls0 (stringifyClass t)
                   | None \<Rightarrow> cls0)
        in if Some cls \<noteq> prevClass el
           then el\<lparr>class_attr := Some cls, prevClass := Some cls, class_writes := class_writes el + 1\<rparr>
           else el)"

text \<open>
  \<open>addClass\<close> and \<open>removeClass\<close>. \<open>classList\<close> is an ordered set of tokens: \<open>add\<close> appends a new
  one, \<open>remove\<close> deletes it. Without it the attribute text is edited. \<open>split_spaces\<close> is
  \<open>split(/\s+/)\<close> of a trimmed text.
\<close>

datatype class_store = ClassList "string list" | ClassAttr "string option"

function split_spaces :: "string \<Rightarrow> string list" where
  "split_spaces s =
     (let w = takeWhile (\<lambda>c. \<not> is_space c) s; r = dropWhile (\<lambda>c. \<not> is_space c) s
      in if r = [] then [w] else w # split_spaces (dropWhile is_space r))"
  by pat_completeness auto
termination
proof (relation "measure length", goal_cases)
  case 1
  show ?case by simp
next
  case (2 s w r)
  then obtain c r' where r: "r = c # r'" by (meson list.exhaust)
  have "is_space c" using 2 r by (metis (no_types, lifting) dropWhile_eq_Cons_conv)
  then have "length (dropWhile is_space r) < length r"
    using r by (simp add: le_imp_less_Suc length_dropWhile_le)
  also have "length r \<le> length s" using 2 by (simp add: length_dropWhile_le)
  finally show ?case by simp
qed

definition token_add :: "string list \<Rightarrow> string \<Rightarrow> string list" where
  "token_add ts c = (if c \<in> set ts then ts else ts @ [c])"

definition padded :: "string option \<Rightarrow> string" where
  "padded a = '' '' @ optstr a @ '' ''"

definition addClass :: "class_store \<Rightarrow> string option \<Rightarrow> class_store" where
  "addClass el cls0 =
     (let cls = trim (optstr cls0) in
      if cls = [] then el
      else case el of
        ClassList ts \<Rightarrow>
          (if CHR '' '' \<in> set cls then ClassList (foldl token_add ts (split_spaces cls))
           else ClassList (token_add ts cls))
      | ClassAttr a \<Rightarrow>
          (if find_sub ('' '' @ cls @ '' '') (padded a) = None
           then ClassAttr (Some (trim (padded a @ cls))) else el))"

text \<open>\<open>s.replace(tar, ' ')\<close> of the first occurrence, until none is left.\<close>

definition replace_first :: "string \<Rightarrow> string \<Rightarrow> string \<Rightarrow> string" where
  "replace_first tar by s =
     (case find_sub tar s of Some i \<Rightarrow> take i s @ by @ drop (i + length tar) s | None \<Rightarrow> s)"

lemma find_sub_bound: "find_sub p s = Some i \<Longrightarrow> i + length p \<le> length s"
proof (induction s arbitrary: i)
  case Nil
  then show ?case by (auto split: if_splits)
next
  case (Cons c s)
  show ?case
  proof (cases "starts_with p (c # s)")
    case True
    then have "length (take (length p) (c # s)) = length p" by (simp add: starts_with_def)
    then have "length p \<le> length (c # s)" by simp
    with True Cons.prems show ?thesis by simp
  next
    case False
    with Cons show ?thesis by auto
  qed
qed

function remove_tokens :: "string \<Rightarrow> string \<Rightarrow> string" where
  "remove_tokens tar cur =
     (if find_sub tar cur = None \<or> length tar < 2 then cur
      else remove_tokens tar (replace_first tar '' '' cur))"
  by pat_completeness auto
termination
proof (relation "measure (\<lambda>(tar, cur). length cur)", goal_cases)
  case 1
  show ?case by simp
next
  case (2 tar cur)
  then obtain i where i: "find_sub tar cur = Some i" by auto
  with 2 find_sub_bound [OF i] show ?case by (auto simp: replace_first_def)
qed

definition removeClass :: "class_store \<Rightarrow> string option \<Rightarrow> class_store" where
  "removeClass el cls0 =
     (let cls = trim (optstr cls0) in
      if cls = [] then el
      else case el of
        ClassList ts \<Rightarrow>
          ClassList (if CHR '' '' \<in> set cls then foldl (\<lambda>ts c. removeAll c ts) ts (split_spaces cls)
                     else removeAll cls ts)
      | ClassAttr a \<Rightarrow>
          (let cur = trim (remove_tokens ('' '' @ cls @ '' '') (padded a))
           in if cur \<noteq> [] then ClassAttr (Some cur) else ClassAttr None))"

declare split_spaces.simps [simp del] remove_tokens.simps [simp del]

section \<open>Order of the classes\<close>

lemma concat_class_assoc: "concat_class (concat_class a b) c = concat_class a (concat_class b c)"
  by (simp add: concat_class_def)

lemma concat_class_unit [simp]: "concat_class [] a = a" "concat_class a [] = a"
  by (simp_all add: concat_class_def)

text \<open>The nonempty texts among \<open>ss\<close>, separated by single spaces.\<close>

definition words :: "string list \<Rightarrow> string" where
  "words ss = foldr concat_class ss []"

lemma words_simps [simp]: "words [] = []" "words (s # ss) = concat_class s (words ss)"
  by (simp_all add: words_def)

lemma words_append: "words (xs @ ys) = concat_class (words xs) (words ys)"
  by (induction xs) (simp_all add: concat_class_assoc)

lemma join_eq_Nil: "\<forall>t\<in>set ts. t \<noteq> [] \<Longrightarrow> join '' '' ts = [] \<longleftrightarrow> ts = []"
  by (induction "'' ''" ts rule: join.induct) auto

lemma words_join: "words ss = join '' '' (filter (\<lambda>s. s \<noteq> []) ss)"
proof (induction ss)
  case Nil
  then show ?case by simp
next
  case (Cons s ss)
  have "join '' '' (filter (\<lambda>s. s \<noteq> []) ss) = [] \<longleftrightarrow> filter (\<lambda>s. s \<noteq> []) ss = []"
    by (rule join_eq_Nil) simp
  with Cons show ?case
    by (cases "filter (\<lambda>s. s \<noteq> []) ss") (auto simp: concat_class_def)
qed

lemma stringifyArray_words: "stringifyArray xs res = words (res # map stringifyClass xs)"
proof (induction xs arbitrary: res)
  case Nil
  then show ?case by simp
next
  case (Cons v xs)
  have "stringifyArray (v # xs) res = stringifyArray xs (concat_class res (stringifyClass v))"
    by (simp add: concat_class_def)
  with Cons show ?case by (simp add: concat_class_assoc)
qed

lemma stringifyObject_words:
  "\<forall>k\<in>set (obj_keys kvs). k \<noteq> [] \<Longrightarrow>
     stringifyObject kvs res = words (res # map fst (filter (truthy \<circ> snd) kvs))"
proof (induction kvs arbitrary: res)
  case Nil
  then show ?case by simp
next
  case (Cons kv kvs)
  obtain k v where kv: "kv = (k, v)" by force
  with Cons.prems have "stringifyObject (kv # kvs) res =
      stringifyObject kvs (if truthy v then concat_class res k else res)"
    by (simp add: concat_class_def)
  with kv Cons show ?case by (simp add: concat_class_assoc)
qed

abbreviation static_of :: "class_data option \<Rightarrow> string" where
  "static_of d \<equiv> (case d of Some cd \<Rightarrow> optstr (cd_static cd) | None \<Rightarrow> [])"
abbreviation dynamic_of :: "class_data option \<Rightarrow> string" where
  "dynamic_of d \<equiv> (case d of Some cd \<Rightarrow> stringifyClass (cd_class cd) | None \<Rightarrow> [])"

lemma stringifyClass_undef: "isUndef v \<Longrightarrow> stringifyClass v = []"
  by (cases v) (auto simp: isUndef_def)

lemma merge_static: "optstr (cd_static (mergeClassData c p)) = words [optstr (cd_static c), optstr (cd_static p)]"
  by (simp add: mergeClassData_def optstr_def)

lemma merge_dynamic:
  "stringifyClass (cd_class (mergeClassData c p))
     = words [stringifyClass (cd_class c), stringifyClass (cd_class p)]"
  by (auto simp: mergeClassData_def stringifyArray_words isDef_iff stringifyClass_undef)

lemma fold_children:
  defines "step \<equiv> \<lambda>data c. case c of Some cd \<Rightarrow> mergeClassData cd data | None \<Rightarrow> data"
  shows "static_of (Some (foldl step d cs)) = words (map static_of (rev cs) @ [static_of (Some d)])"
    and "dynamic_of (Some (foldl step d cs)) = words (map dynamic_of (rev cs) @ [dynamic_of (Some d)])"
proof (induction cs arbitrary: d)
  case Nil
  { case 1 show ?case by simp }
  { case 2 show ?case by simp }
next
  case (Cons c cs)
  { case 1 show ?case
      using Cons by (cases c) (simp_all add: step_def merge_static words_append concat_class_assoc) }
  { case 2 show ?case
      using Cons by (cases c) (simp_all add: step_def merge_dynamic words_append concat_class_assoc) }
qed

lemma fold_parents:
  defines "step \<equiv> \<lambda>data c. case c of Some cd \<Rightarrow> mergeClassData data cd | None \<Rightarrow> data"
  shows "static_of (Some (foldl step d ps)) = words (static_of (Some d) # map static_of ps)"
    and "dynamic_of (Some (foldl step d ps)) = words (dynamic_of (Some d) # map dynamic_of ps)"
proof (induction ps arbitrary: d)
  case Nil
  { case 1 show ?case by simp }
  { case 2 show ?case by simp }
next
  case (Cons c cs)
  { case 1 show ?case
      using Cons by (cases c) (simp_all add: step_def merge_static concat_class_assoc) }
  { case 2 show ?case
      using Cons by (cases c) (simp_all add: step_def merge_dynamic concat_class_assoc) }
qed

text \<open>
  The class text of a vnode lists the static classes of the whole component chain, then the
  dynamic ones; within each, the innermost child root comes first, then the vnode itself, then
  the placeholders of its parents outwards, with single spaces and nothing for what is empty.
\<close>

theorem genClassForVnode_order:
  "genClassForVnode children data parents =
     words (map static_of (rev children @ [Some data] @ parents) @
            map dynamic_of (rev children @ [Some data] @ parents))"
proof -
  have render: "renderClass (cd_static d) (cd_class d)
      = concat_class (static_of (Some d)) (dynamic_of (Some d))" for d
    by (auto simp: renderClass_def isDef_iff stringifyClass_undef optstr_def)
  show ?thesis
    unfolding genClassForVnode_def Let_def render fold_parents fold_children
    by (simp add: words_append concat_class_assoc)
qed

section \<open>The attribute follows the class text\<close>

definition class_ok :: "class_el \<Rightarrow> bool" where
  "class_ok el \<longleftrightarrow> prevClass el = class_attr el"

lemma updateClass_ok [inv_intros]:
  "class_ok el \<Longrightarrow> class_ok (updateClass children parents oldData data el)"
  by (simp add: updateClass_def class_ok_def Let_def)

definition full_class :: "class_data option list \<Rightarrow> class_data \<Rightarrow> class_data option list \<Rightarrow> class_el \<Rightarrow> string" where
  "full_class children data parents el =
     concat_class (genClassForVnode children data parents)
       (case transitionClasses el of Some t \<Rightarrow> stringifyClass t | None \<Rightarrow> [])"

lemma updateClass_attr:
  assumes "class_ok el" "\<not> (no_class (Some data) \<and> no_class oldData)"
  shows "class_attr (updateClass children parents oldData data el) = Some (full_class children data parents el)"
  using assms
  by (auto simp: updateClass_def class_ok_def full_class_def Let_def split: option.splits)

text \<open>
  \<open>updateClass\<close> is exact and writes only when needed: with the bookkeeping field in step
  with the DOM, patching a vnode that has (or had) class data leaves the attribute equal to the
  full class text, transition classes included, keeps the bookkeeping in step, and patching
  the same vnode again writes nothing.
\<close>

theorem updateClass_exact:
  assumes "class_ok el" "\<not> (no_class (Some data) \<and> no_class oldData)"
    and "el' = updateClass children parents oldData data el"
  shows "class_attr el' = Some (full_class children data parents el) \<and> class_ok el' \<and>
         updateClass children parents (Some data) data el' = el'"
proof -
  have "updateClass children parents (Some data) data el' = el'"
    by (simp add: assms(3) updateClass_def Let_def)
  with updateClass_attr [OF assms(1,2)] updateClass_ok [OF assms(1)] show ?thesis
    by (simp add: assms(3))
qed

lemma updateClass_exact_witness:
  "class_attr (updateClass [] [] None \<lparr>cd_static = Some ''a'', cd_class = JStr ''b''\<rparr>
     \<lparr>class_attr = None, prevClass = None, transitionClasses = None, class_writes = 0\<rparr>) = Some ''a b''"
proof -
  let ?d = "\<lparr>cd_static = Some ''a'', cd_class = JStr ''b''\<rparr>"
  let ?el = "\<lparr>class_attr = None, prevClass = None, transitionClasses = None, class_writes = 0\<rparr>"
  have "class_ok ?el" "\<not> (no_class (Some ?d) \<and> no_class None)"
    by (simp_all add: class_ok_def no_class_def)
  from updateClass_exact [OF this refl, of "[]" "[]"] show ?thesis
    by (simp add: full_class_def genClassForVnode_def renderClass_def optstr_def concat_class_def)
qed

section \<open>Tokens of the class attribute\<close>

text \<open>A class name: not empty, without white space.\<close>

definition token :: "string \<Rightarrow> bool" where
  "token t \<longleftrightarrow> t \<noteq> [] \<and> list_all (\<lambda>c. \<not> is_space c) t"

text \<open>Each token after a space, and one space at the end.\<close>

definition spaced :: "string list \<Rightarrow> string" where
  "spaced ts = concat (map (\<lambda>t. '' '' @ t) ts) @ '' ''"

definition attr_of :: "string list \<Rightarrow> string option" where
  "attr_of ts = (if ts = [] then None else Some (join '' '' ts))"

lemma spaced_simps [simp]: "spaced [] = '' ''" "spaced (t # ts) = CHR '' '' # t @ spaced ts"
  by (simp_all add: spaced_def)

lemma spaced_hd: "\<exists>r. spaced ts = CHR '' '' # r"
  by (cases ts) auto

lemma space_is_space [simp]: "is_space (CHR '' '')"
  by (simp add: is_space_def code_def)

lemma token_no_space: "token t \<Longrightarrow> CHR '' '' \<notin> set t"
  by (auto simp: token_def list_all_iff)

lemma find_sub_skip:
  assumes "CHR '' '' \<notin> set t"
  shows "find_sub (CHR '' '' # p) (t @ r) = map_option (\<lambda>i. length t + i) (find_sub (CHR '' '' # p) r)"
  using assms
proof (induction t)
  case Nil
  then show ?case by (simp add: option.map_ident)
next
  case (Cons c t)
  then have "\<not> starts_with (CHR '' '' # p) ((c # t) @ r)" by (auto simp: starts_with_def)
  with Cons show ?case by (auto simp: option.map_comp comp_def)
qed

lemma find_sub_spaced_aux:
  assumes "token c" "\<forall>t\<in>set ts. token t"
  shows "(find_sub ('' '' @ c @ '' '') (spaced ts) = None \<longleftrightarrow> c \<notin> set ts) \<and>
    (c \<in> set ts \<longrightarrow> replace_first ('' '' @ c @ '' '') '' '' (spaced ts) = spaced (remove1 c ts))"
  using assms(2)
proof (induction ts)
  case Nil
  then show ?case using assms(1) by (auto simp: starts_with_def token_def)
next
  case (Cons t ts)
  let ?tar = "'' '' @ c @ '' ''"
  obtain r where r: "spaced ts = CHR '' '' # r" using spaced_hd by blast
  have t: "CHR '' '' \<notin> set t" "CHR '' '' \<notin> set c"
    using Cons.prems assms(1) by (auto dest: token_no_space)
  have st: "starts_with ?tar (CHR '' '' # t @ spaced ts) \<longleftrightarrow> c = t"
    using prefix_up_to [OF t(2,1), of r] r by (simp add: starts_with_def)
  have fs: "find_sub ?tar (spaced (t # ts)) =
      (if c = t then Some 0 else map_option (\<lambda>i. Suc (length t + i)) (find_sub ?tar (spaced ts)))"
    using st find_sub_skip [OF t(1), of "c @ '' ''" "spaced ts"]
    by (auto simp: option.map_comp comp_def)
  have ih: "find_sub ?tar (spaced ts) = None \<longleftrightarrow> c \<notin> set ts"
    "c \<in> set ts \<Longrightarrow> replace_first ?tar '' '' (spaced ts) = spaced (remove1 c ts)"
    using Cons by auto
  show ?case
  proof (cases "c = t")
    case True
    with fs show ?thesis using r by (simp add: replace_first_def)
  next
    case False
    have "replace_first ?tar '' '' (spaced (t # ts)) = CHR '' '' # t @ replace_first ?tar '' '' (spaced ts)"
      if "find_sub ?tar (spaced ts) = Some i" for i
      unfolding replace_first_def fs using False that by simp
    moreover have "find_sub ?tar (spaced (t # ts)) = None \<longleftrightarrow> c \<notin> set ts"
      unfolding fs using False ih(1) by auto
    ultimately show ?thesis using False ih by (cases "find_sub ?tar (spaced ts)") auto
  qed
qed

lemma find_sub_spaced:
  assumes "token c" "\<forall>t\<in>set ts. token t"
  shows "find_sub ('' '' @ c @ '' '') (spaced ts) = None \<longleftrightarrow> c \<notin> set ts"
    and "c \<in> set ts \<Longrightarrow> replace_first ('' '' @ c @ '' '') '' '' (spaced ts) = spaced (remove1 c ts)"
  using find_sub_spaced_aux [OF assms] by auto

lemma remove_tokens_spaced:
  assumes "token c" "\<forall>t\<in>set ts. token t"
  shows "remove_tokens ('' '' @ c @ '' '') (spaced ts) = spaced (removeAll c ts)"
  using assms(2)
proof (induction "length ts" arbitrary: ts rule: less_induct)
  case less
  show ?case
  proof (cases "c \<in> set ts")
    case False
    with find_sub_spaced(1) [OF assms(1) less.prems] show ?thesis
      by (subst remove_tokens.simps) (simp add: removeAll_id)
  next
    case True
    have "\<forall>t\<in>set (remove1 c ts). token t" using less.prems notin_set_remove1 by fast
    moreover have "length (remove1 c ts) < length ts"
      using True length_pos_if_in_set [OF True] by (simp add: length_remove1)
    ultimately have "remove_tokens ('' '' @ c @ '' '') (spaced (remove1 c ts)) = spaced (removeAll c (remove1 c ts))"
      using less.hyps by blast
    moreover have "removeAll c (remove1 c ts) = removeAll c ts"
      by (simp add: removeAll_filter_not_eq filter_remove1 remove1_filter_not)
    ultimately show ?thesis
      using True find_sub_spaced [OF assms(1) less.prems] by (subst remove_tokens.simps) auto
  qed
qed

lemma join_tokens:
  "ts \<noteq> [] \<Longrightarrow> \<forall>t\<in>set ts. token t \<Longrightarrow>
     join '' '' ts \<noteq> [] \<and> \<not> is_space (hd (join '' '' ts)) \<and> \<not> is_space (last (join '' '' ts))"
proof (induction "'' ''" ts rule: join.induct)
  case 1
  then show ?case by simp
next
  case (2 s)
  then show ?case by (cases s) (auto simp: token_def list_all_iff)
next
  case (3 s t ss)
  then show ?case by (cases s) (auto simp: token_def list_all_iff)
qed

lemma trim_pad:
  assumes "s \<noteq> []" "\<not> is_space (hd s)" "\<not> is_space (last s)"
  shows "trim (CHR '' '' # s @ '' '') = s" "trim (CHR '' '' # s) = s" "trim (CHR '' '' # CHR '' '' # s) = s"
proof -
  obtain c r where s: "s = c # r" "\<not> is_space c" using assms by (cases s) auto
  obtain d q where q: "rev s = d # q" "\<not> is_space d"
    using assms by (cases "rev s") (auto simp: hd_rev [symmetric])
  have "dropWhile is_space (s @ x) = s @ x" for x using s by simp
  moreover from this [of "[]"] have "dropWhile is_space s = s" by simp
  moreover have "dropWhile is_space (rev s) = rev s" using q by simp
  ultimately show "trim (CHR '' '' # s @ '' '') = s" "trim (CHR '' '' # s) = s"
      "trim (CHR '' '' # CHR '' '' # s) = s"
    by (simp_all add: trim_def trim_start_def)
qed

lemma spaced_join: "ts \<noteq> [] \<Longrightarrow> spaced ts = CHR '' '' # join '' '' ts @ '' ''"
  by (induction "'' ''" ts rule: join.induct) auto

lemma spaced_snoc: "spaced ts @ c = CHR '' '' # join '' '' (ts @ [c])"
  by (induction "'' ''" ts rule: join.induct) auto

lemma trim_spaced: "\<forall>t\<in>set ts. token t \<Longrightarrow> trim (spaced ts) = join '' '' ts"
  using trim_pad(1) [of "join '' '' ts"] join_tokens [of ts]
  by (cases "ts = []") (auto simp: spaced_join, simp add: trim_def trim_start_def)

lemma padded_attr: "padded (attr_of ts) = (if ts = [] then ''  '' else spaced ts)"
  by (simp add: padded_def attr_of_def optstr_def spaced_join)

lemma padded_None: "padded None = ''  ''"
  by (simp add: padded_def optstr_def)

lemma padded_join: "ts \<noteq> [] \<Longrightarrow> padded (Some (join '' '' ts)) = spaced ts"
  by (simp add: padded_def optstr_def spaced_join)

lemma trim_token: "token c \<Longrightarrow> trim c = c"
  by (rule trim_id) (cases c, auto simp: token_def list_all_iff)

lemma no_tar_blank: "token c \<Longrightarrow> find_sub (CHR '' '' # c @ '' '') ''  '' = None"
  by (cases c) (auto simp: starts_with_def token_def)

lemma addClass_tokens:
  assumes c: "token c" and ts: "\<forall>t\<in>set ts. token t"
  shows "addClass (ClassAttr (attr_of ts)) (Some c) = ClassAttr (attr_of (token_add ts c))"
proof -
  have ne: "c \<noteq> []" using c by (simp add: token_def)
  have j: "trim (CHR '' '' # join '' '' (ts @ [c])) = join '' '' (ts @ [c])"
    using join_tokens [of "ts @ [c]"] c ts by (intro trim_pad(2)) auto
  show ?thesis
  proof (cases "ts = []")
    case True
    have "trim (CHR '' '' # CHR '' '' # c) = c"
      using join_tokens [of "[c]"] c by (intro trim_pad(3)) auto
    with True ne show ?thesis
      by (simp add: addClass_def trim_token [OF c] optstr_def padded_None token_add_def attr_of_def
          no_tar_blank [OF c] del: find_sub.simps)
  next
    case False
    then show ?thesis
      using ne j find_sub_spaced(1) [OF c ts] spaced_snoc [of ts c]
      by (auto simp: addClass_def trim_token [OF c] optstr_def padded_join token_add_def attr_of_def)
  qed
qed

lemma removeClass_tokens:
  assumes c: "token c" and ts: "\<forall>t\<in>set ts. token t"
  shows "removeClass (ClassAttr (attr_of ts)) (Some c) = ClassAttr (attr_of (removeAll c ts))"
proof -
  have ne: "c \<noteq> []" using c by (simp add: token_def)
  have ts': "\<forall>t\<in>set (removeAll c ts). token t" using ts by auto
  show ?thesis
  proof (cases "ts = []")
    case True
    have "remove_tokens (CHR '' '' # c @ '' '') ''  '' = ''  ''"
      using no_tar_blank [OF c] by (subst remove_tokens.simps) simp
    moreover have "trim ''  '' = []" by (simp add: trim_def trim_start_def)
    ultimately show ?thesis using True ne
      by (simp add: removeClass_def trim_token [OF c] optstr_def padded_None attr_of_def)
  next
    case False
    have "join '' '' (removeAll c ts) = [] \<longleftrightarrow> removeAll c ts = []"
      using ts' by (intro join_eq_Nil) (auto simp: token_def)
    with False ne remove_tokens_spaced [OF c ts] trim_spaced [OF ts'] show ?thesis
      by (simp add: removeClass_def trim_token [OF c] optstr_def padded_join attr_of_def Let_def)
  qed
qed

lemma addClass_tokens_token [inv_intros]: "token c \<Longrightarrow> \<forall>t\<in>set ts. token t \<Longrightarrow> \<forall>t\<in>set (token_add ts c). token t"
  by (simp add: token_add_def)

text \<open>
  The two stores of a class attribute promise the same: the tokens after \<open>addClass\<close> and
  \<open>removeClass\<close> of a class name. \<open>view\<close> reads the tokens of a store built by these operations.
\<close>

locale class_tokens =
  fixes store :: "string list \<Rightarrow> class_store"
    and add remove :: "class_store \<Rightarrow> string \<Rightarrow> class_store"
  assumes add_law: "token c \<Longrightarrow> \<forall>t\<in>set ts. token t \<Longrightarrow> add (store ts) c = store (token_add ts c)"
    and remove_law: "token c \<Longrightarrow> \<forall>t\<in>set ts. token t \<Longrightarrow> remove (store ts) c = store (removeAll c ts)"
begin

lemma add_remove:
  assumes "token c" "\<forall>t\<in>set ts. token t" "c \<notin> set ts"
  shows "remove (add (store ts) c) c = store ts"
proof -
  have "token_add ts c = ts @ [c]" using assms(3) by (simp add: token_add_def)
  then have "remove (add (store ts) c) c = store (removeAll c (ts @ [c]))"
    using add_law [OF assms(1,2)] remove_law [OF assms(1), of "ts @ [c]"] assms(1,2) by simp
  then show ?thesis using assms(3) by (simp add: removeAll_id)
qed

lemma add_list:
  "\<forall>c\<in>set cs. token c \<Longrightarrow> \<forall>t\<in>set ts. token t \<Longrightarrow>
     foldl add (store ts) cs = store (foldl token_add ts cs)"
proof (induction cs arbitrary: ts)
  case Nil
  then show ?case by simp
next
  case (Cons c cs)
  then have "\<forall>t\<in>set (token_add ts c). token t" by (intro addClass_tokens_token) auto
  with Cons show ?case by (simp add: add_law)
qed

end

lemma token_blank: "token c \<Longrightarrow> CHR '' '' \<notin> set c \<and> c \<noteq> []"
  using token_no_space by (auto simp: token_def)

interpretation attr_store: class_tokens "\<lambda>ts. ClassAttr (attr_of ts)"
    "\<lambda>el c. addClass el (Some c)" "\<lambda>el c. removeClass el (Some c)"
  by unfold_locales (simp_all add: addClass_tokens removeClass_tokens)

interpretation list_store: class_tokens ClassList
    "\<lambda>el c. addClass el (Some c)" "\<lambda>el c. removeClass el (Some c)"
  by unfold_locales
    (simp_all add: addClass_def removeClass_def trim_token optstr_def token_blank)

text \<open>
  \<open>removeClass\<close> undoes \<open>addClass\<close> on an element without \<open>classList\<close>: for a class name the
  attribute does not contain, the text edits of the attribute give back the attribute it had,
  whatever other classes have the name as a part of theirs.
\<close>

theorem removeClass_addClass:
  assumes "token c" "\<forall>t\<in>set ts. token t" "c \<notin> set ts"
  shows "removeClass (addClass (ClassAttr (attr_of ts)) (Some c)) (Some c) = ClassAttr (attr_of ts)"
  by (rule attr_store.add_remove [OF assms])

lemma removeClass_addClass_witness:
  "removeClass (addClass (ClassAttr (Some ''v-enter-active box'')) (Some ''v-enter'')) (Some ''v-enter'')
     = ClassAttr (Some ''v-enter-active box'')"
proof -
  have "token ''v-enter''" "\<forall>t\<in>set [''v-enter-active'', ''box'']. token t"
      "''v-enter'' \<notin> set [''v-enter-active'', ''box'']"
    by code_simp+
  from removeClass_addClass [OF this] show ?thesis by (simp add: attr_of_def)
qed

end
