(* ===== verification/WebAttrs.thy ===== *)
theory WebAttrs
  imports WebTags
begin

text \<open>
  The attribute and DOM property modules of \<open>frontend/js/vue.js\<close>: \<open>updateAttrs\<close> with \<open>setAttr\<close>
  and \<open>baseSetAttr\<close>, \<open>updateDOMProps\<close> with \<open>shouldUpdateValue\<close>. The DOM element is the state:
  its attributes by namespace and local name, as \<open>setAttribute\<close>, \<open>setAttributeNS\<close> and their
  removals document them, and its properties. The lemmas show that patching brings the
  attributes in step with the new vnode, and exactly where it does not.
\<close>

section \<open>Attributes\<close>

record browser =
  isIE :: bool
  isIE9 :: bool
  isEdge :: bool

type_synonym attr_key = "string option \<times> string"

record attr_el =
  ae_tag :: string
  ae_attrs :: "(attr_key \<times> string) list"
  ae_ieph :: bool

definition setAttribute :: "attr_key \<Rightarrow> string \<Rightarrow> attr_el \<Rightarrow> attr_el" where
  "setAttribute k v el = el\<lparr>ae_attrs := AList.update k v (ae_attrs el)\<rparr>"

definition removeAttribute :: "attr_key \<Rightarrow> attr_el \<Rightarrow> attr_el" where
  "removeAttribute k el = el\<lparr>ae_attrs := AList.delete k (ae_attrs el)\<rparr>"

definition baseSetAttr :: "browser \<Rightarrow> attr_el \<Rightarrow> string \<Rightarrow> jsval \<Rightarrow> attr_el" where
  "baseSetAttr b el key value =
     (if isFalsyAttrValue value then removeAttribute (None, key) el
      else
        let el1 = (if isIE b \<and> \<not> isIE9 b \<and> ae_tag el = ''TEXTAREA'' \<and> key = ''placeholder'' \<and> \<not> ae_ieph el
                   then el\<lparr>ae_ieph := True\<rparr> else el)
        in setAttribute (None, key) (js_String value) el1)"

definition setAttr :: "browser \<Rightarrow> attr_el \<Rightarrow> string \<Rightarrow> jsval \<Rightarrow> attr_el" where
  "setAttr b el key value =
     (if CHR ''-'' \<in> set (ae_tag el) then baseSetAttr b el key value
      else if isBooleanAttr key then
        (if isFalsyAttrValue value then removeAttribute (None, key) el
         else setAttribute (None, key)
                (if key = ''allowfullscreen'' \<and> ae_tag el = ''EMBED'' then ''true'' else key) el)
      else if isEnumeratedAttr key then
        setAttribute (None, key)
          (if isFalsyAttrValue value \<or> value = JStr ''false'' then ''false'' else ''true'') el
      else if isXlink key then
        (if isFalsyAttrValue value then removeAttribute (Some xlinkNS, getXlinkProp key) el
         else setAttribute (Some xlinkNS, getXlinkProp key) (js_String value) el)
      else baseSetAttr b el key value)"

definition dropAttr :: "jsval obj \<Rightarrow> attr_el \<Rightarrow> string \<Rightarrow> attr_el" where
  "dropAttr as el key =
     (if isUndef (get_or_undef as key) then
        (if isXlink key then removeAttribute (Some xlinkNS, getXlinkProp key) el
         else if \<not> isEnumeratedAttr key then removeAttribute (None, key) el
         else el)
      else el)"

definition diffAttr :: "browser \<Rightarrow> jsval obj \<Rightarrow> attr_el \<Rightarrow> string \<times> jsval \<Rightarrow> attr_el" where
  "diffAttr b oldAttrs el kv =
     (case kv of (key, cur) \<Rightarrow>
        if \<not> strict_eq (get_or_undef oldAttrs key) cur then setAttr b el key cur else el)"

text \<open>
  \<open>noInherit\<close>: the vnode is a component whose options say \<open>inheritAttrs: false\<close>. The clone of
  an observed attribute object has the same keys and values.
\<close>

definition updateAttrs ::
    "browser \<Rightarrow> bool \<Rightarrow> jsval obj option \<Rightarrow> jsval obj option \<Rightarrow> attr_el \<Rightarrow> attr_el" where
  "updateAttrs b noInherit oldA newA elm =
     (if noInherit then elm
      else if oldA = None \<and> newA = None then elm
      else
        let oldAttrs = (case oldA of Some a \<Rightarrow> a | None \<Rightarrow> []);
            as = (case newA of Some a \<Rightarrow> a | None \<Rightarrow> []);
            e1 = foldl (diffAttr b oldAttrs) elm as;
            e2 = (if (isIE b \<or> isEdge b) \<and>
                     \<not> strict_eq (get_or_undef as ''value'') (get_or_undef oldAttrs ''value'')
                  then setAttr b e1 ''value'' (get_or_undef as ''value'') else e1)
        in foldl (dropAttr as) e2 (obj_keys oldAttrs))"

section \<open>The attributes after a patch\<close>

text \<open>Where \<open>setAttr\<close> keeps a key on an element, and the text it puts there (\<open>None\<close>: no attribute).\<close>

definition attr_slot :: "string \<Rightarrow> string \<Rightarrow> attr_key" where
  "attr_slot tag key =
     (if CHR ''-'' \<notin> set tag \<and> \<not> isBooleanAttr key \<and> \<not> isEnumeratedAttr key \<and> isXlink key
      then (Some xlinkNS, getXlinkProp key) else (None, key))"

definition attr_text :: "string \<Rightarrow> string \<Rightarrow> jsval \<Rightarrow> string option" where
  "attr_text tag key value =
     (if CHR ''-'' \<notin> set tag \<and> isBooleanAttr key then
        (if isFalsyAttrValue value then None
         else Some (if key = ''allowfullscreen'' \<and> tag = ''EMBED'' then ''true'' else key))
      else if CHR ''-'' \<notin> set tag \<and> isEnumeratedAttr key then
        Some (if isFalsyAttrValue value \<or> value = JStr ''false'' then ''false'' else ''true'')
      else if isFalsyAttrValue value then None else Some (js_String value))"

abbreviation attr_at :: "attr_el \<Rightarrow> string \<Rightarrow> string option" where
  "attr_at el key \<equiv> map_of (ae_attrs el) (attr_slot (ae_tag el) key)"

lemma get_set_attr [simp]:
  "map_of (ae_attrs (setAttribute k v el)) k' = (if k' = k then Some v else map_of (ae_attrs el) k')"
  "map_of (ae_attrs (removeAttribute k el)) k' = (if k' = k then None else map_of (ae_attrs el) k')"
  by (simp_all add: setAttribute_def removeAttribute_def update_conv delete_conv)

lemma tag_set_attr [simp]:
  "ae_tag (setAttribute k v el) = ae_tag el" "ae_tag (removeAttribute k el) = ae_tag el"
  "ae_tag (baseSetAttr b el key val) = ae_tag el" "ae_tag (setAttr b el key val) = ae_tag el"
  by (simp_all add: setAttribute_def removeAttribute_def baseSetAttr_def setAttr_def Let_def)

lemma slot_inj: "attr_slot tag k = attr_slot tag k' \<longleftrightarrow> k = k'"
proof
  assume h: "attr_slot tag k = attr_slot tag k'"
  show "k = k'"
  proof (cases "fst (attr_slot tag k) = None")
    case True
    with h show ?thesis by (auto simp: attr_slot_def split: if_splits)
  next
    case False
    with h have "isXlink k" "isXlink k'" "getXlinkProp k = getXlinkProp k'"
      by (auto simp: attr_slot_def split: if_splits)
    then show ?thesis by (metis getXlinkProp_prefix isXlink_iff)
  qed
qed simp

lemma setAttr_slots:
  "map_of (ae_attrs (setAttr b el key v)) s =
     (if s = attr_slot (ae_tag el) key then attr_text (ae_tag el) key v else map_of (ae_attrs el) s)"
  by (auto simp: setAttr_def baseSetAttr_def attr_slot_def attr_text_def Let_def)

text \<open>A key whose removal looks for its attribute where \<open>setAttr\<close> put it.\<close>

definition droppable :: "string \<Rightarrow> string \<Rightarrow> bool" where
  "droppable tag key \<longleftrightarrow> (isXlink key \<longrightarrow> attr_slot tag key \<noteq> (None, key))"

lemma dropAttr_slot:
  "droppable (ae_tag el) key \<Longrightarrow>
     map_of (ae_attrs (dropAttr as el key)) s =
       (if s = attr_slot (ae_tag el) key \<and> isUndef (get_or_undef as key) \<and> \<not> isEnumeratedAttr key
        then None else map_of (ae_attrs el) s)"
  by (auto simp: dropAttr_def droppable_def attr_slot_def split: if_splits)

lemma tag_dropAttr [simp]: "ae_tag (dropAttr as el key) = ae_tag el"
  by (simp add: dropAttr_def)

lemma tag_foldl_drop [simp]: "ae_tag (foldl (dropAttr as) el ks) = ae_tag el"
  by (induction ks arbitrary: el) auto

lemma foldl_dropAttr:
  "\<forall>k\<in>set ks. droppable t k \<Longrightarrow> ae_tag el = t \<Longrightarrow>
     map_of (ae_attrs (foldl (dropAttr as) el ks)) (attr_slot t key) =
       (if key \<in> set ks \<and> isUndef (get_or_undef as key) \<and> \<not> isEnumeratedAttr key
        then None else map_of (ae_attrs el) (attr_slot t key))"
  by (induction ks arbitrary: el) (auto simp: dropAttr_slot slot_inj)

lemma tag_diffAttr [simp]: "ae_tag (diffAttr b old el kv) = ae_tag el"
  by (simp add: diffAttr_def split: prod.splits)

lemma tag_foldl_diff [simp]: "ae_tag (foldl (diffAttr b old) el as) = ae_tag el"
  by (induction as arbitrary: el) auto

lemma diffAttr_slot:
  "ae_tag el = t \<Longrightarrow> map_of (ae_attrs (diffAttr b old el (k, cur))) (attr_slot t key) =
     (if key = k \<and> \<not> strict_eq (get_or_undef old key) cur then attr_text t key cur
      else map_of (ae_attrs el) (attr_slot t key))"
  by (auto simp: diffAttr_def setAttr_slots slot_inj)

lemma foldl_diffAttr:
  "wf_obj as \<Longrightarrow> ae_tag el = t \<Longrightarrow>
     map_of (ae_attrs (foldl (diffAttr b old) el as)) (attr_slot t key) =
       (case map_of as key of
          Some cur \<Rightarrow> (if strict_eq (get_or_undef old key) cur then map_of (ae_attrs el) (attr_slot t key)
                       else attr_text t key cur)
        | None \<Rightarrow> map_of (ae_attrs el) (attr_slot t key))"
proof (induction as arbitrary: el)
  case Nil
  then show ?case by simp
next
  case (Cons kv as)
  obtain k cur where kv: "kv = (k, cur)" by force
  from Cons.prems have w: "wf_obj as" "map_of as k = None"
    by (auto simp: wf_obj_def kv map_of_None_iff)
  with Cons show ?case
    by (auto simp: kv diffAttr_slot split: option.splits)
qed

text \<open>
  An element is in step with an attribute object on the keys \<open>K\<close>; an enumerated attribute whose
  value is undefined is not constrained, since the module never removes it.
\<close>

definition attrs_sync :: "string set \<Rightarrow> jsval obj \<Rightarrow> attr_el \<Rightarrow> bool" where
  "attrs_sync K as el \<longleftrightarrow>
     (\<forall>key\<in>K. isEnumeratedAttr key \<and> isUndef (get_or_undef as key) \<or>
        attr_at el key = attr_text (ae_tag el) key (get_or_undef as key))"

definition plain_value :: "jsval \<Rightarrow> bool" where
  "plain_value v \<longleftrightarrow> (case v of JUndef \<Rightarrow> True | JNull \<Rightarrow> True | JBool _ \<Rightarrow> True | JNum _ \<Rightarrow> True
                        | JStr _ \<Rightarrow> True | _ \<Rightarrow> False)"

lemma strict_eq_plain: "strict_eq u v \<Longrightarrow> plain_value v \<Longrightarrow> u = v"
  by (cases v) (auto simp: strict_eq_def plain_value_def split: jsval.splits)

lemma attr_text_undef: "isUndef v \<Longrightarrow> \<not> isEnumeratedAttr key \<Longrightarrow> attr_text tag key v = None"
  by (simp add: attr_text_def isFalsyAttrValue_def)

abbreviation opt_obj :: "jsval obj option \<Rightarrow> jsval obj" where
  "opt_obj a \<equiv> (case a of Some m \<Rightarrow> m | None \<Rightarrow> [])"

lemma get_or_undef_None: "map_of kvs k = None \<Longrightarrow> get_or_undef kvs k = JUndef"
  by (simp add: get_or_undef_def)

lemma tag_after_value [simp]:
  "ae_tag (if c then setAttr b el k v else el) = ae_tag el"
  by simp

lemma tag_updateAttrs [simp]: "ae_tag (updateAttrs b noInherit oldA newA el) = ae_tag el"
  by (simp add: updateAttrs_def Let_def)

text \<open>The first loop: what differs is set.\<close>

lemma diffed_attr:
  assumes "attrs_sync K old el" "wf_obj new" "\<forall>(k, v) \<in> set new. plain_value v" "key \<in> K"
    and "\<not> (isEnumeratedAttr key \<and> isUndef (get_or_undef new key))"
    and "key \<in> set (obj_keys old) \<Longrightarrow> map_of new key \<noteq> None"
  shows "attr_at (foldl (diffAttr b old) el new) key = attr_text (ae_tag el) key (get_or_undef new key)"
proof (cases "map_of new key")
  case None
  with assms(6) have "map_of old key = None" by (metis map_of_None_iff)
  then have u: "get_or_undef old key = JUndef" "get_or_undef new key = JUndef"
    using None by (simp_all only: get_or_undef_None)
  from assms(5) have "\<not> isEnumeratedAttr key" by (simp add: u isUndef_def)
  with assms(1,4) have "attr_at el key = attr_text (ae_tag el) key JUndef"
    unfolding attrs_sync_def by (metis u(1))
  moreover have "attr_at (foldl (diffAttr b old) el new) key = attr_at el key"
    using foldl_diffAttr [OF assms(2) refl, of b old el key] None by (simp del: option.case_eq_if)
  ultimately show ?thesis by (simp only: u)
next
  case (Some cur)
  have "plain_value cur" using Some assms(3) by (auto dest: map_of_SomeD)
  then have "strict_eq (get_or_undef old key) cur \<Longrightarrow> get_or_undef old key = cur"
    by (rule strict_eq_plain [rotated])
  with Some assms(1,4,5) show ?thesis
    by (auto simp: foldl_diffAttr [OF assms(2) refl] attrs_sync_def get_or_undef_def)
qed

text \<open>The second loop: what is no longer there is removed.\<close>

lemma dropped_attr:
  assumes "\<forall>k\<in>set ks. droppable (ae_tag el) k"
    and "\<not> (isEnumeratedAttr key \<and> isUndef (get_or_undef new key))"
    and "\<not> (key \<in> set ks \<and> isUndef (get_or_undef new key)) \<Longrightarrow> attr_at el key = attr_text (ae_tag el) key (get_or_undef new key)"
  shows "attr_at (foldl (dropAttr new) el ks) key = attr_text (ae_tag el) key (get_or_undef new key)"
  using foldl_dropAttr [OF assms(1) refl, of new key] assms(2,3) attr_text_undef [of "get_or_undef new key" key]
  by (cases "key \<in> set ks \<and> isUndef (get_or_undef new key)") auto

lemma updateAttrs_keeps_sync:
  assumes "attrs_sync K (opt_obj oldA) el" and "wf_obj (opt_obj newA)"
    and "\<forall>(k, v) \<in> set (opt_obj newA). plain_value v"
    and "\<forall>k\<in>set (obj_keys (opt_obj oldA)). droppable (ae_tag el) k"
  shows "attrs_sync K (opt_obj newA) (updateAttrs b False oldA newA el)"
proof (cases "oldA = None \<and> newA = None")
  case True
  then show ?thesis using assms(1) by (simp add: updateAttrs_def)
next
  case False
  let ?old = "opt_obj oldA" and ?new = "opt_obj newA"
  let ?e1 = "foldl (diffAttr b ?old) el ?new"
  let ?ie = "(isIE b \<or> isEdge b) \<and> \<not> strict_eq (get_or_undef ?new ''value'') (get_or_undef ?old ''value'')"
  define e2 where "e2 = (if ?ie then setAttr b ?e1 ''value'' (get_or_undef ?new ''value'') else ?e1)"
  have e: "updateAttrs b False oldA newA el = foldl (dropAttr ?new) e2 (obj_keys ?old)"
    using False by (simp only: updateAttrs_def Let_def if_False simp_thms e2_def)
  have tag: "ae_tag e2 = ae_tag el" by (simp add: e2_def)
  have at2: "map_of (ae_attrs e2) (attr_slot (ae_tag el) key) = (if ?ie \<and> key = ''value'' then attr_text (ae_tag el) key (get_or_undef ?new key) else attr_at ?e1 key)" for key
    by (simp add: e2_def setAttr_slots slot_inj)
  have drop: "\<forall>k\<in>set (obj_keys ?old). droppable (ae_tag e2) k" using assms(4) by (simp only: tag)
  show ?thesis
    unfolding attrs_sync_def e
  proof (intro ballI)
    fix key assume k: "key \<in> K"
    let ?u = "isEnumeratedAttr key \<and> isUndef (get_or_undef ?new key)"
    have "attr_at (foldl (dropAttr ?new) e2 (obj_keys ?old)) key = attr_text (ae_tag el) key (get_or_undef ?new key)"
      if u: "\<not> ?u"
      unfolding tag [symmetric]
    proof (rule dropped_attr [OF drop u])
      assume n: "\<not> (key \<in> set (obj_keys ?old) \<and> isUndef (get_or_undef ?new key))"
      have m: "map_of ?new key \<noteq> None" if "key \<in> set (obj_keys ?old)"
        using n that get_or_undef_None [of ?new key] by (metis isUndef_def)
      have d: "attr_at ?e1 key = attr_text (ae_tag el) key (get_or_undef ?new key)"
        by (rule diffed_attr [OF assms(1-3) k u m])
      show "attr_at e2 key = attr_text (ae_tag e2) key (get_or_undef ?new key)"
        unfolding tag at2 d if_cancel by (rule refl)
    qed
    then show "?u \<or> attr_at (foldl (dropAttr ?new) e2 (obj_keys ?old)) key =
        attr_text (ae_tag (foldl (dropAttr ?new) e2 (obj_keys ?old))) key (get_or_undef ?new key)"
      by (simp only: tag_foldl_drop tag) blast
  qed
qed

text \<open>
  C28. Patching attributes keeps the element in step with the vnode: an element that shows the old
  vnode's attributes shows the new one's afterwards, whatever the browser workarounds do. The
  removal must look where the setting put the attribute, which fails for an \<open>xlink:\<close> attribute
  of a custom element, and an enumerated attribute that is dropped stays.
\<close>

theorem updateAttrs_sync:
  assumes "attrs_sync K (opt_obj oldA) el" and "wf_obj (opt_obj newA)"
    and "\<forall>(k, v) \<in> set (opt_obj newA). plain_value v"
    and "\<forall>k\<in>set (obj_keys (opt_obj oldA)). droppable (ae_tag el) k"
  shows "attrs_sync K (opt_obj newA) (updateAttrs b False oldA newA el)"
  by (rule updateAttrs_keeps_sync [OF assms])

lemma updateAttrs_sync_witness:
  "attrs_sync {''id'', ''disabled'', ''title''} [(''id'', JStr ''b''), (''disabled'', JBool True)]
     (updateAttrs \<lparr>isIE = False, isIE9 = False, isEdge = False\<rparr> False
        (Some [(''id'', JStr ''a''), (''title'', JStr ''t'')])
        (Some [(''id'', JStr ''b''), (''disabled'', JBool True)])
        \<lparr>ae_tag = ''DIV'', ae_attrs = [((None, ''id''), ''a''), ((None, ''title''), ''t'')], ae_ieph = False\<rparr>)"
proof -
  let ?el = "\<lparr>ae_tag = ''DIV'', ae_attrs = [((None, ''id''), ''a''), ((None, ''title''), ''t'')], ae_ieph = False\<rparr>"
  let ?old = "Some [(''id'', JStr ''a''), (''title'', JStr ''t'')]"
  let ?new = "Some [(''id'', JStr ''b''), (''disabled'', JBool True)]"
  have "attrs_sync {''id'', ''disabled'', ''title''} (opt_obj ?old) ?el"
    unfolding attrs_sync_def by code_simp
  moreover have "wf_obj (opt_obj ?new)" "\<forall>(k, v) \<in> set (opt_obj ?new). plain_value v"
      "\<forall>k\<in>set (obj_keys (opt_obj ?old)). droppable (ae_tag ?el) k"
    by code_simp+
  ultimately have "attrs_sync {''id'', ''disabled'', ''title''} (opt_obj ?new)
      (updateAttrs \<lparr>isIE = False, isIE9 = False, isEdge = False\<rparr> False ?old ?new ?el)"
    by (rule updateAttrs_sync)
  then show ?thesis by simp
qed

text \<open>
  The exception is real: on a custom element an \<open>xlink:\<close> attribute is set without its namespace
  and removed with it, so it survives its removal from the vnode.
\<close>

lemma xlink_survives:
  "ae_attrs (updateAttrs \<lparr>isIE = False, isIE9 = False, isEdge = False\<rparr> False
       (Some [(''xlink:href'', JStr ''#a'')]) None
       (setAttr \<lparr>isIE = False, isIE9 = False, isEdge = False\<rparr>
          \<lparr>ae_tag = ''X-ICON'', ae_attrs = [], ae_ieph = False\<rparr> ''xlink:href'' (JStr ''#a'')))
     = [((None, ''xlink:href''), ''#a'')]"
  by code_simp

section \<open>DOM properties\<close>

text \<open>
  The properties a patch writes: \<open>de_value\<close> is the live \<open>elm.value\<close>, \<open>de_rawValue\<close> the
  \<open>_value\<close> kept beside it, \<open>de_inFocus\<close> what \<open>document.activeElement === elm\<close> answers
  (\<open>None\<close>: reading it throws), \<open>de_children\<close> the number of its child nodes.
\<close>

record dom_el =
  de_tag :: string
  de_props :: "jsval obj"
  de_value :: string
  de_rawValue :: jsval
  de_composing :: bool
  de_inFocus :: "bool option"
  de_modifiers :: "bool obj option"
  de_children :: nat

definition modifier :: "bool obj \<Rightarrow> string \<Rightarrow> bool" where
  "modifier ms k \<longleftrightarrow> map_of ms k = Some True"

definition isNotInFocusAndDirty :: "dom_el \<Rightarrow> string \<Rightarrow> bool" where
  "isNotInFocusAndDirty elm checkVal \<longleftrightarrow>
     (let notInFocus = (case de_inFocus elm of Some f \<Rightarrow> \<not> f | None \<Rightarrow> True)
      in notInFocus \<and> de_value elm \<noteq> checkVal)"

definition isDirtyWithModifiers :: "dom_el \<Rightarrow> string \<Rightarrow> bool" where
  "isDirtyWithModifiers elm newVal =
     (case de_modifiers elm of
        Some ms \<Rightarrow>
          (if modifier ms ''lazy'' then False
           else if modifier ms ''number'' then
             \<not> strict_eq (toNumber (JStr (de_value elm))) (toNumber (JStr newVal))
           else if modifier ms ''trim'' then trim (de_value elm) \<noteq> trim newVal
           else de_value elm \<noteq> newVal)
      | None \<Rightarrow> de_value elm \<noteq> newVal)"

definition shouldUpdateValue :: "dom_el \<Rightarrow> string \<Rightarrow> bool" where
  "shouldUpdateValue elm checkVal \<longleftrightarrow>
     \<not> de_composing elm \<and>
     (de_tag elm = ''OPTION'' \<or> isNotInFocusAndDirty elm checkVal \<or> isDirtyWithModifiers elm checkVal)"

text \<open>
  One turn of the second loop: the state is the element and the vnode's number of children
  (emptied by \<open>textContent\<close> and \<open>innerHTML\<close>). Setting \<open>textContent\<close> or \<open>innerHTML\<close> is
  recorded as the property; the child nodes the browser builds from it are not modelled.
\<close>

definition setDOMProp :: "jsval obj \<Rightarrow> dom_el \<times> nat \<Rightarrow> string \<times> jsval \<Rightarrow> dom_el \<times> nat" where
  "setDOMProp oldProps st kv =
     (case (st, kv) of ((elm, vchildren), (key, cur)) \<Rightarrow>
        let content = (key = ''textContent'' \<or> key = ''innerHTML'');
            vchildren' = (if content then 0 else vchildren)
        in if content \<and> strict_eq cur (get_or_undef oldProps key) then (elm, vchildren')
           else
             let elm1 = (if content \<and> de_children elm = 1 then elm\<lparr>de_children := 0\<rparr> else elm)
             in if key = ''value'' then
                  (let strCur = (if isUndef cur then [] else js_String cur);
                       elm2 = elm1\<lparr>de_rawValue := cur\<rparr>
                   in ((if shouldUpdateValue elm2 strCur then elm2\<lparr>de_value := strCur\<rparr> else elm2), vchildren'))
                else (elm1\<lparr>de_props := obj_put key cur (de_props elm1)\<rparr>, vchildren'))"

definition clearDOMProp :: "jsval obj \<Rightarrow> dom_el \<Rightarrow> string \<Rightarrow> dom_el" where
  "clearDOMProp ps elm key =
     (if isUndef (get_or_undef ps key) then
        (if key = ''value'' then elm\<lparr>de_value := []\<rparr>
         else elm\<lparr>de_props := obj_put key (JStr []) (de_props elm)\<rparr>)
      else elm)"

definition updateDOMProps ::
    "jsval obj option \<Rightarrow> jsval obj option \<Rightarrow> dom_el \<times> nat \<Rightarrow> dom_el \<times> nat" where
  "updateDOMProps oldP newP st =
     (if oldP = None \<and> newP = None then st
      else case st of (elm, vchildren) \<Rightarrow>
        foldl (setDOMProp (opt_obj oldP))
          (foldl (clearDOMProp (opt_obj newP)) elm (obj_keys (opt_obj oldP)), vchildren)
          (opt_obj newP))"

text \<open>What \<open>v-model\<close> leaves to the user: text being composed, or edited under a modifier.\<close>

definition user_edit :: "dom_el \<Rightarrow> string \<Rightarrow> bool" where
  "user_edit elm s \<longleftrightarrow>
     de_composing elm \<or>
     (de_tag elm \<noteq> ''OPTION'' \<and> de_inFocus elm = Some True \<and>
      (\<exists>ms. de_modifiers elm = Some ms \<and> \<not> isDirtyWithModifiers elm s))"

lemma setDOMProp_other:
  "key \<noteq> ''value'' \<Longrightarrow>
     de_value (fst (setDOMProp old st (key, cur))) = de_value (fst st) \<and>
     de_rawValue (fst (setDOMProp old st (key, cur))) = de_rawValue (fst st)"
  by (cases st) (simp add: setDOMProp_def Let_def)

lemma setDOMProp_value:
  "de_value (fst (setDOMProp old (elm, n) (''value'', cur))) =
     (if user_edit elm (js_String cur) \<and> \<not> isUndef cur \<or> user_edit elm [] \<and> isUndef cur
      then de_value elm else if isUndef cur then [] else js_String cur)"
  by (auto simp: setDOMProp_def Let_def shouldUpdateValue_def isNotInFocusAndDirty_def user_edit_def
        isDirtyWithModifiers_def split: option.splits if_splits)

text \<open>What the decision about \<open>value\<close> reads of an element.\<close>

definition value_view :: "dom_el \<Rightarrow> string \<times> string \<times> bool \<times> bool option \<times> bool obj option" where
  "value_view elm = (de_value elm, de_tag elm, de_composing elm, de_inFocus elm, de_modifiers elm)"

lemma user_edit_view: "value_view e1 = value_view e2 \<Longrightarrow> user_edit e1 s = user_edit e2 s"
proof -
  assume h: "value_view e1 = value_view e2"
  then have v: "de_value e1 = de_value e2" and m: "de_modifiers e1 = de_modifiers e2"
    by (simp_all add: value_view_def)
  have "isDirtyWithModifiers e1 s = isDirtyWithModifiers e2 s"
    unfolding isDirtyWithModifiers_def v m by (rule refl)
  with h show ?thesis by (simp add: value_view_def user_edit_def)
qed

lemma setDOMProp_view:
  "key \<noteq> ''value'' \<Longrightarrow> value_view (fst (setDOMProp old st (key, cur))) = value_view (fst st)"
  by (cases st) (simp add: setDOMProp_def Let_def value_view_def)

lemma foldl_setDOMProp_view:
  "''value'' \<notin> set (obj_keys ps) \<Longrightarrow>
     value_view (fst (foldl (setDOMProp old) st ps)) = value_view (fst st) \<and>
     de_rawValue (fst (foldl (setDOMProp old) st ps)) = de_rawValue (fst st)"
proof (induction ps arbitrary: st)
  case Nil
  then show ?case by simp
next
  case (Cons kv ps)
  obtain k v where kv: "kv = (k, v)" by force
  with Cons.prems have "k \<noteq> ''value''" by auto
  with Cons kv setDOMProp_view [of k old st v] setDOMProp_other [of k old st v] show ?case by simp
qed

lemma foldl_clear_view:
  "\<not> isUndef (get_or_undef ps ''value'') \<Longrightarrow>
     value_view (foldl (clearDOMProp ps) elm ks) = value_view elm"
  by (induction ks arbitrary: elm) (auto simp: clearDOMProp_def value_view_def)

lemma setDOMProp_raw: "de_rawValue (fst (setDOMProp old (elm, n) (''value'', cur))) = cur"
  by (simp add: setDOMProp_def Let_def)

text \<open>
  Patching a bound \<open>value\<close> shows the new value unless that would disturb the user: the input's
  text becomes the printed value, except while text is being composed, or in a focused
  input whose modifier (\<open>lazy\<close>, \<open>number\<close>, \<open>trim\<close>) makes the two texts equivalent; the raw
  value is kept beside it in every case.
\<close>

theorem updateDOMProps_value:
  assumes "wf_obj ps" "map_of ps ''value'' = Some cur" "\<not> isUndef cur"
    and "elm' = fst (updateDOMProps oldP (Some ps) (elm, n))"
  shows "de_rawValue elm' = cur \<and>
         de_value elm' = (if user_edit elm (js_String cur) then de_value elm else js_String cur)"
proof -
  let ?old = "opt_obj oldP"
  let ?e0 = "foldl (clearDOMProp ps) elm (obj_keys ?old)"
  obtain xs ys where ps: "ps = xs @ (''value'', cur) # ys"
    using assms(2) by (meson map_of_SomeD split_list)
  have xy: "''value'' \<notin> set (obj_keys xs)" "''value'' \<notin> set (obj_keys ys)"
    using assms(1) ps by (auto simp: wf_obj_def)
  let ?s1 = "foldl (setDOMProp ?old) (?e0, n) xs"
  let ?s2 = "setDOMProp ?old ?s1 (''value'', cur)"
  have e: "elm' = fst (foldl (setDOMProp ?old) ?s2 ys)"
    by (simp add: assms(4) updateDOMProps_def) (simp add: ps)
  have v0: "value_view ?e0 = value_view elm"
    using assms(2,3) by (intro foldl_clear_view) (simp add: get_or_undef_def)
  have v1: "value_view (fst ?s1) = value_view elm"
    using foldl_setDOMProp_view [OF xy(1), of ?old "(?e0, n)"] v0 by simp
  have "de_value (fst ?s2) = (if user_edit elm (js_String cur) then de_value elm else js_String cur)"
    using setDOMProp_value [of ?old "fst ?s1" "snd ?s1" cur] assms(3) v1 user_edit_view [OF v1]
    by (simp add: value_view_def)
  moreover have "de_rawValue (fst ?s2) = cur"
    using setDOMProp_raw [of ?old "fst ?s1" "snd ?s1" cur] by simp
  ultimately show ?thesis
    using foldl_setDOMProp_view [OF xy(2), of ?old ?s2] e by (simp add: value_view_def)
qed

lemma updateDOMProps_value_witness:
  "de_value (fst (updateDOMProps None (Some [(''value'', JStr ''new'')])
     (\<lparr>de_tag = ''INPUT'', de_props = [], de_value = ''old'', de_rawValue = JUndef, de_composing = False,
       de_inFocus = Some True, de_modifiers = None, de_children = 0\<rparr>, 0))) = ''new''"
proof -
  let ?elm = "\<lparr>de_tag = ''INPUT'', de_props = [], de_value = ''old'', de_rawValue = JUndef,
    de_composing = False, de_inFocus = Some True, de_modifiers = None, de_children = 0\<rparr>"
  have "wf_obj [(''value'', JStr ''new'')]" "map_of [(''value'', JStr ''new'')] ''value'' = Some (JStr ''new'')"
      "\<not> isUndef (JStr ''new'')"
    by (simp_all add: wf_obj_def isUndef_def)
  from updateDOMProps_value [OF this refl, of None ?elm 0] show ?thesis
    by (simp add: user_edit_def)
qed

end
