(* ===== verification/WebStyle.thy ===== *)
theory WebStyle
  imports WebAttrs
begin

text \<open>
  The style module of \<open>frontend/js/vue.js\<close>: \<open>parseStyleText\<close> reads a style attribute,
  \<open>normalizeStyleData\<close> and \<open>getStyle\<close> merge static and bound styles along the component chain,
  \<open>updateStyle\<close> emits the changes through \<open>setProp\<close>, which resolves vendor prefixes with
  \<open>normalize\<close>. The writes to \<open>el.style\<close> are a list of operations in order. The lemmas show the
  round trip of a style text and which style wins along the chain.
\<close>

section \<open>Parsing a style text\<close>

text \<open>
  \<open>/;(?![^(]*\))/\<close> matches a semicolon after which no closing parenthesis comes before the next
  opening one; \<open>/:(.+)/\<close> matches a colon followed by at least one character that does not end
  the line, and captures the rest of the line.
\<close>

definition delimits :: "string \<Rightarrow> bool" where
  "delimits r \<longleftrightarrow> CHR '')'' \<notin> set (takeWhile (\<lambda>c. c \<noteq> CHR ''('') r)"

fun split_list_items :: "string \<Rightarrow> string list" where
  "split_list_items [] = [[]]"
| "split_list_items (c # r) =
     (if c = CHR '';'' \<and> delimits r then [] # split_list_items r
      else (case split_list_items r of [] \<Rightarrow> [[c]] | p # ps \<Rightarrow> (c # p) # ps))"

definition line_end :: "char \<Rightarrow> bool" where
  "line_end c \<longleftrightarrow> code c = 10 \<or> code c = 13"

fun split_property :: "string \<Rightarrow> (string \<times> string) option" where
  "split_property [] = None"
| "split_property (c # r) =
     (if c = CHR '':'' \<and> r \<noteq> [] \<and> \<not> line_end (hd r) then Some ([], takeWhile (\<lambda>d. \<not> line_end d) r)
      else map_option (\<lambda>(k, v). (c # k, v)) (split_property r))"

definition parseStyleText :: "string \<Rightarrow> string obj" where
  "parseStyleText cssText =
     foldl (\<lambda>res item.
        if item \<noteq> [] then
          (case split_property item of Some (k, v) \<Rightarrow> obj_put (trim k) (trim v) res | None \<Rightarrow> res)
        else res) [] (split_list_items cssText)"

section \<open>Merging styles\<close>

text \<open>
  A bound style is a string, an array whose entries are objects (or falsy), an object, or absent.
\<close>

datatype style_binding = NoStyle | StyleText string | StyleArr "(jsval obj) option list" | StyleObj "jsval obj"

record style_data =
  sd_static :: "jsval obj option"
  sd_style :: style_binding
  sd_normalized :: "jsval obj option"

definition normalizeStyleBinding :: "style_binding \<Rightarrow> jsval obj option" where
  "normalizeStyleBinding b =
     (case b of
        StyleArr xs \<Rightarrow> Some (toObject xs)
      | StyleText s \<Rightarrow> Some (map (\<lambda>(k, v). (k, JStr v)) (parseStyleText s))
      | StyleObj ob \<Rightarrow> Some ob
      | NoStyle \<Rightarrow> None)"

text \<open>\<open>extend\<close> copies nothing from undefined.\<close>

definition normalizeStyleData :: "style_data \<Rightarrow> jsval obj option" where
  "normalizeStyleData data =
     (let style = normalizeStyleBinding (sd_style data)
      in case sd_static data of
           Some st \<Rightarrow> Some (SharedUtil.extend st (opt_obj style))
         | None \<Rightarrow> style)"

text \<open>
  The data along the chain as in \<open>genClassForVnode\<close>: roots of nested component instances
  (outermost first) when \<open>checkChild\<close>, the vnode, the placeholders of its parents.
\<close>

definition add_style :: "jsval obj \<Rightarrow> style_data option \<Rightarrow> jsval obj" where
  "add_style res d =
     (case d of
        Some sd \<Rightarrow> (case normalizeStyleData sd of Some st \<Rightarrow> SharedUtil.extend res st | None \<Rightarrow> res)
      | None \<Rightarrow> res)"

definition getStyle :: "style_data option list \<Rightarrow> style_data \<Rightarrow> style_data option list \<Rightarrow> bool \<Rightarrow> jsval obj" where
  "getStyle children data parents checkChild =
     foldl add_style
       (add_style (if checkChild then foldl add_style [] children else []) (Some data)) parents"

section \<open>Writing to the element\<close>

datatype style_op =
    SetProperty string jsval
  | SetImportant string string
  | AssignStyle "string option" jsval

definition vendorNames :: "string list" where
  "vendorNames = [''Webkit'', ''Moz'', ''ms'']"

text \<open>\<open>known\<close>: the properties the browser's style object has.\<close>

definition normalize_name :: "(string \<Rightarrow> bool) \<Rightarrow> string \<Rightarrow> string option" where
  "normalize_name known prop0 =
     (let prop = camelize prop0 in
      if prop \<noteq> ''filter'' \<and> known prop then Some prop
      else List.find known (map (\<lambda>v. v @ capitalize prop) vendorNames))"

definition isImportant :: "string \<Rightarrow> bool" where
  "isImportant val \<longleftrightarrow> starts_with (rev ''!important'') (rev val)"

definition dropImportant :: "string \<Rightarrow> string" where
  "dropImportant val =
     rev (dropWhile is_space (rev (take (length val - length ''!important'') val)))"

definition setProp :: "(string \<Rightarrow> bool) \<Rightarrow> string \<Rightarrow> jsval \<Rightarrow> style_op list" where
  "setProp known name val =
     (if starts_with ''--'' name then [SetProperty name val]
      else if isImportant (js_String val) then [SetImportant name (dropImportant (js_String val))]
      else
        let normalizedName = normalize_name known name
        in case val of
             JArr _ xs \<Rightarrow> map (\<lambda>v. AssignStyle normalizedName v) xs
           | _ \<Rightarrow> [AssignStyle normalizedName val])"

text \<open>
  \<open>updateStyle\<close> returns the writes and the new vnode's data: \<open>normalizedStyle\<close> is stored, and
  \<open>getStyle\<close> has merged the bound style into the static one. The clone of an observed style has
  the same keys and values.
\<close>

definition no_style :: "style_data \<Rightarrow> bool" where
  "no_style d \<longleftrightarrow> sd_static d = None \<and> sd_style d = NoStyle"

definition binding_obj :: "style_binding \<Rightarrow> jsval obj" where
  "binding_obj b = (case b of StyleObj ob \<Rightarrow> ob | _ \<Rightarrow> [])"

definition diffStyle :: "(string \<Rightarrow> bool) \<Rightarrow> jsval obj \<Rightarrow> jsval obj \<Rightarrow> style_op list" where
  "diffStyle known oldStyle newStyle =
     concat (map (\<lambda>name. if isUndef (get_or_undef newStyle name) then setProp known name (JStr []) else [])
               (obj_keys oldStyle)) @
     concat (map (\<lambda>(name, cur).
               if \<not> strict_eq cur (get_or_undef oldStyle name)
               then setProp known name (if isUndef cur then JStr [] else cur) else []) newStyle)"

definition updateStyle ::
    "(string \<Rightarrow> bool) \<Rightarrow> style_data option list \<Rightarrow> style_data option list \<Rightarrow> style_data \<Rightarrow> style_data \<Rightarrow>
       style_op list \<times> style_data" where
  "updateStyle known children parents oldData data =
     (if no_style data \<and> no_style oldData then ([], data)
      else
        let oldStyleBinding = (case sd_normalized oldData of Some n \<Rightarrow> n | None \<Rightarrow> binding_obj (sd_style oldData));
            oldStyle = (case sd_static oldData of Some s \<Rightarrow> s | None \<Rightarrow> oldStyleBinding);
            style = opt_obj (normalizeStyleBinding (sd_style data));
            newStyle = getStyle children data parents True;
            data' = data\<lparr>sd_normalized := Some style,
                         sd_static := (case sd_static data of Some st \<Rightarrow> Some (SharedUtil.extend st style) | None \<Rightarrow> None)\<rparr>
        in (diffStyle known oldStyle newStyle, data'))"

section \<open>The round trip of a style text\<close>

text \<open>A declaration whose text survives: trimmed, with no delimiter of the grammar in it.\<close>

definition plain_decl :: "string \<times> string \<Rightarrow> bool" where
  "plain_decl kv \<longleftrightarrow>
     (case kv of (k, v) \<Rightarrow>
        trim k = k \<and> trim v = v \<and> v \<noteq> [] \<and>
        list_all (\<lambda>c. c \<noteq> CHR '';'' \<and> c \<noteq> CHR '':'' \<and> c \<noteq> CHR ''('' \<and> c \<noteq> CHR '')'' \<and> \<not> line_end c) k \<and>
        list_all (\<lambda>c. c \<noteq> CHR '';'' \<and> c \<noteq> CHR ''('' \<and> c \<noteq> CHR '')'' \<and> \<not> line_end c) v)"

definition style_text :: "(string \<times> string) list \<Rightarrow> string" where
  "style_text ds = concat (map (\<lambda>(k, v). k @ '':'' @ v @ '';'') ds)"

lemma split_list_items_plain:
  "CHR '';'' \<notin> set p \<Longrightarrow> delimits r \<Longrightarrow>
     split_list_items (p @ CHR '';'' # r) = p # split_list_items r"
  by (induction p) auto

lemma delimits_no_paren: "CHR '')'' \<notin> set r \<Longrightarrow> delimits r"
  by (auto simp: delimits_def dest: set_takeWhileD)

lemma plain_declD:
  assumes "plain_decl (k, v)"
  shows "trim k = k" "trim v = v" "v \<noteq> []" "CHR '':'' \<notin> set k" "CHR '';'' \<notin> set (k @ '':'' @ v)"
    "CHR '')'' \<notin> set (k @ '':'' @ v @ '';'')" "list_all (\<lambda>c. \<not> line_end c) v"
  using assms unfolding plain_decl_def prod.case list_all_iff by simp_all blast+

lemma no_paren_text: "\<forall>d\<in>set ds. plain_decl d \<Longrightarrow> CHR '')'' \<notin> set (style_text ds)"
proof (induction ds)
  case Nil
  then show ?case by (simp add: style_text_def)
next
  case (Cons d ds)
  obtain k v where d: "d = (k, v)" by force
  with Cons plain_declD(6) [of k v] show ?case by (simp add: style_text_def)
qed

lemma split_style_text:
  "\<forall>d\<in>set ds. plain_decl d \<Longrightarrow>
     split_list_items (style_text ds) = map (\<lambda>(k, v). k @ '':'' @ v) ds @ [[]]"
proof (induction ds)
  case Nil
  then show ?case by (simp add: style_text_def)
next
  case (Cons d ds)
  obtain k v where d: "d = (k, v)" by force
  with Cons.prems have n: "CHR '';'' \<notin> set (k @ '':'' @ v)"
    by (intro plain_declD(5)) simp
  have "style_text (d # ds) = (k @ '':'' @ v) @ CHR '';'' # style_text ds"
    by (simp add: style_text_def d)
  moreover have "delimits (style_text ds)"
    using Cons.prems by (intro delimits_no_paren no_paren_text) simp
  ultimately show ?case using split_list_items_plain [OF n] Cons d by simp
qed

lemma split_property_plain:
  "CHR '':'' \<notin> set k \<Longrightarrow> v \<noteq> [] \<Longrightarrow> list_all (\<lambda>c. \<not> line_end c) v \<Longrightarrow>
     split_property (k @ '':'' @ v) = Some (k, v)"
  by (induction k) (auto simp: takeWhile_eq_all_conv list_all_iff hd_in_set)

text \<open>
  C30. A style text is read back declaration by declaration: the text of plain declarations with
  distinct names parses to exactly those names and values, in order.
\<close>

theorem parseStyleText_round_trip:
  assumes "\<forall>d\<in>set ds. plain_decl d" "distinct (map fst ds)"
  shows "parseStyleText (style_text ds) = ds"
proof -
  have "foldl (\<lambda>res item. if item \<noteq> [] then
            (case split_property item of Some (k, v) \<Rightarrow> obj_put (trim k) (trim v) res | None \<Rightarrow> res)
          else res) res (map (\<lambda>(k, v). k @ '':'' @ v) ds)
        = foldl (\<lambda>res (k, v). obj_put k v res) res ds" for res
    using assms(1)
  proof (induction ds arbitrary: res)
    case Nil
    then show ?case by simp
  next
    case (Cons d ds)
    obtain k v where d: "d = (k, v)" by force
    with Cons.prems have p: "plain_decl (k, v)" by simp
    have "split_property (k @ '':'' @ v) = Some (k, v)"
      by (rule split_property_plain) (rule plain_declD [OF p])+
    with Cons.prems Cons.IH [of "obj_put k v res"] d plain_declD(1,2) [OF p] show ?case by simp
  qed
  then show ?thesis
    using extend_fresh [OF assms(2), of "[]"]
    by (simp add: extend_foldl parseStyleText_def split_style_text [OF assms(1)])
qed

lemma parseStyleText_round_trip_witness:
  "parseStyleText ''color:red;margin-top:1px 2px;'' = [(''color'', ''red''), (''margin-top'', ''1px 2px'')]"
proof -
  have "\<forall>d\<in>set [(''color'', ''red''), (''margin-top'', ''1px 2px'')]. plain_decl d"
      "distinct (map fst [(''color'', ''red''), (''margin-top'', ''1px 2px'')])"
    by code_simp+
  from parseStyleText_round_trip [OF this] show ?thesis by (simp add: style_text_def)
qed

section \<open>Which style wins, and when nothing is written\<close>

lemma getStyle_snoc:
  "getStyle children data (parents @ [p]) b = add_style (getStyle children data parents b) p"
  by (simp add: getStyle_def)

lemma get_add_style:
  "normalizeStyleData sd = Some st \<Longrightarrow> wf_obj st \<Longrightarrow>
     map_of (add_style res (Some sd)) k = (case map_of st k of Some v \<Rightarrow> Some v | None \<Rightarrow> map_of res k)"
  by (simp add: add_style_def get_extend)

lemma getStyle_parent_wins:
  "normalizeStyleData sd = Some st \<Longrightarrow> wf_obj st \<Longrightarrow> map_of st k = Some v \<Longrightarrow>
     map_of (getStyle children data (parents @ [Some sd]) b) k = Some v"
  by (simp add: getStyle_snoc get_add_style)

definition self_equal :: "jsval \<Rightarrow> bool" where "self_equal v \<longleftrightarrow> strict_eq v v"

lemma diffStyle_same:
  assumes "wf_obj st" "\<forall>(k, v) \<in> set st. self_equal v \<and> \<not> isUndef v"
  shows "diffStyle known st st = []"
proof -
  have get: "get_or_undef st k = v" if "(k, v) \<in> set st" for k v
    using assms(1) that by (simp add: get_or_undef_def wf_obj_def)
  have "\<not> isUndef (get_or_undef st k)" if "k \<in> set (obj_keys st)" for k
    using that assms(2) get by fastforce
  moreover have "strict_eq v (get_or_undef st k)" if "(k, v) \<in> set st" for k v
    using that assms(2) get [OF that] by (auto simp: self_equal_def)
  ultimately show ?thesis by (auto simp: diffStyle_def)
qed

text \<open>
  Patching a style that did not change writes nothing: with a bound style object whose values
  are defined (and not NaN), no static style and no styled relatives, the second patch with the
  same object issues no write to the element.
\<close>

theorem updateStyle_unchanged:
  assumes "wf_obj st" "\<forall>(k, v) \<in> set st. self_equal v \<and> \<not> isUndef v"
    and "sd_static oldData = None" "sd_style oldData = StyleObj st"
    and "sd_static data = None" "sd_style data = StyleObj st"
  shows "fst (updateStyle known [] [] (snd (updateStyle known [] [] prev oldData)) data) = []"
proof -
  let ?d = "snd (updateStyle known [] [] prev oldData)"
  have d: "sd_normalized ?d = Some st" "sd_static ?d = None"
    using assms(3,4) by (simp_all add: updateStyle_def no_style_def normalizeStyleBinding_def)
  have "SharedUtil.extend [] st = st"
    using assms(1) by (simp add: extend_fresh wf_obj_def)
  then have "getStyle [] data [] True = st"
    using assms(5,6) by (simp add: getStyle_def add_style_def normalizeStyleData_def normalizeStyleBinding_def)
  then show ?thesis
    using d assms(5,6) diffStyle_same [OF assms(1,2)] by (simp add: updateStyle_def no_style_def)
qed

lemma updateStyle_unchanged_witness:
  "fst (updateStyle (\<lambda>p. True) [] []
     (snd (updateStyle (\<lambda>p. True) [] [] \<lparr>sd_static = None, sd_style = NoStyle, sd_normalized = None\<rparr>
        \<lparr>sd_static = None, sd_style = StyleObj [(''color'', JStr ''red'')], sd_normalized = None\<rparr>))
     \<lparr>sd_static = None, sd_style = StyleObj [(''color'', JStr ''red'')], sd_normalized = None\<rparr>) = []"
  by (rule updateStyle_unchanged [of "[(''color'', JStr ''red'')]"])
    (simp_all add: wf_obj_def self_equal_def strict_eq_def isUndef_def)

end
