(* ===== verification/ModelGen.thy ===== *)
theory ModelGen
  imports CompilerUtil WebTags
begin

text \<open>
  The compile-time directives of \<open>frontend/js/vue.js\<close>: \<open>v-model\<close> (\<open>genComponentModel\<close>,
  \<open>model\<close> and the generators for checkboxes, radio buttons, selects and text inputs),
  \<open>v-text\<close>, \<open>v-html\<close>, and the run-time normalisation of the event tokens they emit
  (\<open>normalizeEvents\<close>). The lemmas show that every supported element gets its listener ahead of
  the user's, and that the run-time step leaves no token behind.
\<close>

definition modifier_on :: "bool obj option \<Rightarrow> string \<Rightarrow> bool" where
  "modifier_on ms k \<longleftrightarrow> (case ms of Some m \<Rightarrow> has_mod m k | None \<Rightarrow> False)"

abbreviation RANGE_TOKEN :: string where "RANGE_TOKEN \<equiv> ''__r''"
abbreviation CHECKBOX_RADIO_TOKEN :: string where "CHECKBOX_RADIO_TOKEN \<equiv> ''__c''"

definition genComponentModel :: "elem \<Rightarrow> string \<Rightarrow> bool obj option \<Rightarrow> elem" where
  "genComponentModel el value modifiers =
     (let base = ''$$v'';
          v1 = (if modifier_on modifiers ''trim''
                then ''(typeof '' @ base @ '' === '' @ [sq] @ ''string'' @ [sq] @ ''? '' @ base @ ''.trim(): '' @ base @ '')''
                else base);
          v2 = (if modifier_on modifiers ''number'' then ''_n('' @ v1 @ '')'' else v1);
          assignment = genAssignmentCode value v2
      in el\<lparr>el_model := Some
           \<lparr>m_value = ''('' @ value @ '')'',
            m_expression = [dq] @ value @ [dq],
            m_callback = ''function ('' @ base @ '') {'' @ assignment @ ''}''\<rparr>\<rparr>)"

definition genCheckboxModel :: "elem \<Rightarrow> string \<Rightarrow> bool obj option \<Rightarrow> elem" where
  "genCheckboxModel el value modifiers =
     (let number = modifier_on modifiers ''number'';
          (vb, el1) = getBindingAttr el ''value'' True;
          valueBinding = str_or vb ''null'';
          (tb, el2) = getBindingAttr el1 ''true-value'' True;
          trueValueBinding = str_or tb ''true'';
          (fb, el3) = getBindingAttr el2 ''false-value'' True;
          falseValueBinding = str_or fb ''false'';
          el4 = addProp el3 ''checked''
            (''Array.isArray('' @ value @ '')'' @
             ''?_i('' @ value @ '','' @ valueBinding @ '')>-1'' @
             (if trueValueBinding = ''true'' then '':('' @ value @ '')''
              else '':_q('' @ value @ '','' @ trueValueBinding @ '')''))
      in fst (addHandler el4 ''change''
           (''var $$a='' @ value @ '','' @
            ''$$el=$event.target,'' @
            ''$$c=$$el.checked?('' @ trueValueBinding @ ''):('' @ falseValueBinding @ '');'' @
            ''if(Array.isArray($$a)){'' @
            ''var $$v='' @ (if number then ''_n('' @ valueBinding @ '')'' else valueBinding) @ '','' @
            ''$$i=_i($$a,$$v);'' @
            ''if($$el.checked){$$i<0&&('' @ genAssignmentCode value ''$$a.concat([$$v])'' @ '')}'' @
            ''else{$$i>-1&&('' @ genAssignmentCode value ''$$a.slice(0,$$i).concat($$a.slice($$i+1))'' @ '')}'' @
            ''}else{'' @ genAssignmentCode value ''$$c'' @ ''}'')
           None True False))"

definition genRadioModel :: "elem \<Rightarrow> string \<Rightarrow> bool obj option \<Rightarrow> elem" where
  "genRadioModel el value modifiers =
     (let number = modifier_on modifiers ''number'';
          (vb, el1) = getBindingAttr el ''value'' True;
          v0 = str_or vb ''null'';
          valueBinding = (if number then ''_n('' @ v0 @ '')'' else v0);
          el2 = addProp el1 ''checked'' (''_q('' @ value @ '','' @ valueBinding @ '')'')
      in fst (addHandler el2 ''change'' (genAssignmentCode value valueBinding) None True False))"

definition genSelect :: "elem \<Rightarrow> string \<Rightarrow> bool obj option \<Rightarrow> elem" where
  "genSelect el value modifiers =
     (let number = modifier_on modifiers ''number'';
          selectedVal =
            ''Array.prototype.filter'' @
            ''.call($event.target.options,function(o){return o.selected})'' @
            ''.map(function(o){var val = '' @ [dq] @ ''_value'' @ [dq] @ '' in o ? o._value : o.value;'' @
            ''return '' @ (if number then ''_n(val)'' else ''val'') @ ''})'';
          assignment = ''$event.target.multiple ? $$selectedVal : $$selectedVal[0]'';
          code = ''var $$selectedVal = '' @ selectedVal @ '';'' @ '' '' @ genAssignmentCode value assignment
      in fst (addHandler el ''change'' code None True False))"

definition model_conflict :: "elem \<Rightarrow> warns" where
  "model_conflict el =
     (let value1 = or_else (map_of (attrsMap el) ''v-bind:value'') (map_of (attrsMap el) '':value'');
          typeBinding = or_else (map_of (attrsMap el) ''v-bind:type'') (map_of (attrsMap el) '':type'')
      in if tru value1 \<and> \<not> tru typeBinding then
           err ((if tru (map_of (attrsMap el) ''v-bind:value'') then ''v-bind:value'' else '':value'') @
                ''='' @ [dq] @ the value1 @ [dq] @ '' conflicts with v-model on the same element '' @
                ''because the latter already expands to a value binding internally'')
         else [])"

definition genDefaultModel :: "elem \<Rightarrow> string \<Rightarrow> bool obj option \<Rightarrow> elem \<times> warns" where
  "genDefaultModel el value modifiers =
     (let type = map_of (attrsMap el) ''type'';
          w = model_conflict el;
          lazy = modifier_on modifiers ''lazy'';
          number = modifier_on modifiers ''number'';
          trims = modifier_on modifiers ''trim'';
          needCompositionGuard = (\<not> lazy \<and> type \<noteq> Some ''range'');
          event = (if lazy then ''change'' else if type = Some ''range'' then RANGE_TOKEN else ''input'');
          v1 = (if trims then ''$event.target.value.trim()'' else ''$event.target.value'');
          v2 = (if number then ''_n('' @ v1 @ '')'' else v1);
          code0 = genAssignmentCode value v2;
          code = (if needCompositionGuard then ''if($event.target.composing)return;'' @ code0 else code0);
          el1 = addProp el ''value'' (''('' @ value @ '')'');
          el2 = fst (addHandler el1 event code None True False);
          el3 = (if trims \<or> number then fst (addHandler el2 ''blur'' ''$forceUpdate()'' None False False) else el2)
      in (el3, w))"

text \<open>
  \<open>model\<close> answers whether the directive needs its run-time part. \<open>reserved\<close> is
  \<open>config.isReservedTag\<close>.
\<close>

definition model :: "(string \<Rightarrow> bool) \<Rightarrow> elem \<Rightarrow> directive \<Rightarrow> bool \<times> elem \<times> warns" where
  "model reserved el dir =
     (let value = d_value dir; modifiers = d_modifiers dir; tg = tag el;
          type = map_of (attrsMap el) ''type'';
          w0 = (if tg = ''input'' \<and> type = Some ''file'' then
                  err (''<'' @ tg @ '' v-model='' @ [dq] @ value @ [dq] @ '' type='' @ [dq] @ ''file'' @ [dq] @ ''>:'' @ [nl] @
                       ''File inputs are read only. Use a v-on:change listener instead.'')
                else [])
      in if tru (component el) then (False, genComponentModel el value modifiers, w0)
         else if tg = ''select'' then (True, genSelect el value modifiers, w0)
         else if tg = ''input'' \<and> type = Some ''checkbox'' then (True, genCheckboxModel el value modifiers, w0)
         else if tg = ''input'' \<and> type = Some ''radio'' then (True, genRadioModel el value modifiers, w0)
         else if tg = ''input'' \<or> tg = ''textarea'' then
           (let (el', w) = genDefaultModel el value modifiers in (True, el', w0 @ w))
         else if \<not> reserved tg then (False, genComponentModel el value modifiers, w0)
         else (True, el, w0 @
                err (''<'' @ tg @ '' v-model='' @ [dq] @ value @ [dq] @ ''>: '' @
                     ''v-model is not supported on this element type. '' @
                     ''If you are working with contenteditable, it'' @ [sq] @ ''s recommended to '' @
                     ''wrap a library dedicated for that purpose inside a custom component.'')))"

definition text_directive :: "elem \<Rightarrow> directive \<Rightarrow> elem" where
  "text_directive el dir =
     (if d_value dir \<noteq> [] then addProp el ''textContent'' (''_s('' @ d_value dir @ '')'') else el)"

definition html_directive :: "elem \<Rightarrow> directive \<Rightarrow> elem" where
  "html_directive el dir =
     (if d_value dir \<noteq> [] then addProp el ''innerHTML'' (''_s('' @ d_value dir @ '')'') else el)"

section \<open>Run-time tokens\<close>

text \<open>The listeners of a vnode by event name; one handler is a list of one.\<close>

definition move_token :: "string \<Rightarrow> string \<Rightarrow> 'h list obj \<Rightarrow> 'h list obj" where
  "move_token token event on =
     (case map_of on token of
        Some hs \<Rightarrow>
          obj_del token (obj_put event (hs @ (case map_of on event of Some us \<Rightarrow> us | None \<Rightarrow> [])) on)
      | None \<Rightarrow> on)"

definition normalizeEvents :: "bool \<Rightarrow> 'h list obj \<Rightarrow> 'h list obj" where
  "normalizeEvents isIE on =
     move_token CHECKBOX_RADIO_TOKEN ''change''
       (move_token RANGE_TOKEN (if isIE then ''change'' else ''input'') on)"

section \<open>Lemmas\<close>

definition handlers_of :: "handlers obj option \<Rightarrow> string \<Rightarrow> handler list" where
  "handlers_of evs name =
     (case evs of
        Some e \<Rightarrow> (case map_of e name of Some (HOne h) \<Rightarrow> [h] | Some (HMany hs) \<Rightarrow> hs | None \<Rightarrow> [])
      | None \<Rightarrow> [])"

lemma handlers_put:
  "handlers_of (Some (put_handler imp name h (case evs of Some e \<Rightarrow> e | None \<Rightarrow> []))) n =
     (if n = name then (if imp then h # handlers_of evs n else handlers_of evs n @ [h])
      else handlers_of evs n)"
  by (cases evs) (auto simp: handlers_of_def put_handler_def split: option.splits handlers.splits)

lemma addHandler_plain:
  "addHandler el name value None imp w =
       (el\<lparr>events := Some (put_handler imp name \<lparr>h_value = trim value, h_modifiers = None\<rparr>
              (case events el of Some e \<Rightarrow> e | None \<Rightarrow> [])), plain := False\<rparr>, [])"
  by (auto simp: addHandler_def mark_event_def click_event_def has_mod_def Let_def)

lemma addHandler_important:
  "handlers_of (events (fst (addHandler el name value None True w))) n =
     (if n = name then \<lparr>h_value = trim value, h_modifiers = None\<rparr> # handlers_of (events el) n
      else handlers_of (events el) n)"
  by (simp add: addHandler_plain handlers_put)

lemma events_prop [simp]: "events (addProp el n v) = events el"
  by (simp add: addProp_def)

lemma events_remove [simp]: "events (snd (getAndRemoveAttr el n b)) = events el"
  by (simp add: getAndRemoveAttr_def Let_def)

lemma events_binding [simp]: "events (snd (getBindingAttr el n b)) = events el"
  by (simp add: getBindingAttr_def Let_def case_prod_beta split: option.splits)

text \<open>The event \<open>v-model\<close> listens to on a native form element.\<close>

definition model_event :: "elem \<Rightarrow> bool obj option \<Rightarrow> string" where
  "model_event el ms =
     (let type = map_of (attrsMap el) ''type'' in
      if tag el = ''select'' \<or> (tag el = ''input'' \<and> type \<in> {Some ''checkbox'', Some ''radio''}) then ''change''
      else if modifier_on ms ''lazy'' then ''change''
      else if type = Some ''range'' then RANGE_TOKEN else ''input'')"

lemma checkbox_events:
  "\<exists>h. handlers_of (events (genCheckboxModel el v ms)) ''change'' = h # handlers_of (events el) ''change''"
  by (simp add: genCheckboxModel_def Let_def case_prod_beta addHandler_important)

lemma radio_events:
  "\<exists>h. handlers_of (events (genRadioModel el v ms)) ''change'' = h # handlers_of (events el) ''change''"
  by (simp add: genRadioModel_def Let_def case_prod_beta addHandler_important)

lemma select_events:
  "\<exists>h. handlers_of (events (genSelect el v ms)) ''change'' = h # handlers_of (events el) ''change''"
  by (simp add: genSelect_def Let_def addHandler_important)

lemma default_events:
  assumes "tag el = ''textarea'' \<or> tag el = ''input'' \<and> map_of (attrsMap el) ''type'' \<notin> {Some ''checkbox'', Some ''radio''}"
  shows "\<exists>h. handlers_of (events (fst (genDefaultModel el v ms))) (model_event el ms)
           = h # handlers_of (events el) (model_event el ms)"
proof -
  have blur: "handlers_of (events (fst (addHandler e ''blur'' c None False False))) n = handlers_of (events e) n"
    if "n \<noteq> ''blur''" for e c n
    using that by (simp add: addHandler_plain handlers_put)
  have "model_event el ms = (if modifier_on ms ''lazy'' then ''change''
      else if map_of (attrsMap el) ''type'' = Some ''range'' then RANGE_TOKEN else ''input'')"
    using assms by (auto simp: model_event_def Let_def)
  then show ?thesis
    by (simp add: genDefaultModel_def Let_def blur addHandler_important)
qed

text \<open>
  \<open>v-model\<close> on a native form element listens first: on the event its kind of element uses,
  the generated listener comes before every listener the element had, and the directive keeps its
  run-time part.
\<close>

theorem model_listens_first:
  assumes "\<not> tru (component el)" and "tag el \<in> {''select'', ''input'', ''textarea''}"
  shows "\<exists>el' w h. model reserved el dir = (True, el', w) \<and>
     handlers_of (events el') (model_event el (d_modifiers dir))
       = h # handlers_of (events el) (model_event el (d_modifiers dir))"
proof -
  let ?t = "map_of (attrsMap el) ''type''" and ?ms = "d_modifiers dir" and ?v = "d_value dir"
  consider "tag el = ''select''" | "tag el = ''input''" "?t = Some ''checkbox''"
    | "tag el = ''input''" "?t = Some ''radio''"
    | "tag el = ''textarea'' \<or> tag el = ''input'' \<and> ?t \<notin> {Some ''checkbox'', Some ''radio''}"
    using assms(2) by auto
  then show ?thesis
  proof cases
    case 1
    then show ?thesis using assms(1) select_events [of el ?v ?ms]
      by (simp add: model_def model_event_def)
  next
    case 2
    then show ?thesis using assms(1) checkbox_events [of el ?v ?ms]
      by (simp add: model_def model_event_def)
  next
    case 3
    then show ?thesis using assms(1) radio_events [of el ?v ?ms]
      by (simp add: model_def model_event_def)
  next
    case 4
    then show ?thesis using assms(1) default_events [OF 4, of ?v ?ms]
      by (auto simp: model_def Let_def case_prod_beta)
  qed
qed

lemma move_token_get:
  "token \<noteq> event \<Longrightarrow>
     map_of (move_token token event on) e =
       (if e = token then None
        else if e = event \<and> map_of on token \<noteq> None
        then Some (the (map_of on token) @ (case map_of on event of Some us \<Rightarrow> us | None \<Rightarrow> []))
        else map_of on e)"
  by (auto simp: move_token_def delete_conv' split: option.splits)

text \<open>
  At run time no token survives: the \<open>v-model\<close> listeners stored under a token move in front of
  the user's listeners of the real event, and every other event keeps its listeners.
\<close>

theorem normalizeEvents_spec:
  assumes "target = (if ie then ''change'' else ''input'')"
  shows "map_of (normalizeEvents ie on) RANGE_TOKEN = None \<and>
    map_of (normalizeEvents ie on) CHECKBOX_RADIO_TOKEN = None \<and>
    (map_of on RANGE_TOKEN = Some hs \<and> map_of on CHECKBOX_RADIO_TOKEN = None \<longrightarrow>
       map_of (normalizeEvents ie on) target =
         Some (hs @ (case map_of on target of Some us \<Rightarrow> us | None \<Rightarrow> []))) \<and>
    (e \<notin> {RANGE_TOKEN, CHECKBOX_RADIO_TOKEN, ''change'', ''input''} \<longrightarrow>
       map_of (normalizeEvents ie on) e = map_of on e)"
  using assms by (auto simp: normalizeEvents_def move_token_get)

lemma normalizeEvents_witness:
  "map_of (normalizeEvents False [(''input'', [2 :: nat]), (RANGE_TOKEN, [1])]) ''input'' = Some [1, 2]"
  using normalizeEvents_spec [of "''input''" False "[(''input'', [2 :: nat]), (RANGE_TOKEN, [1])]" "[1]"]
  by simp

lemma model_listens_first_witness:
  "\<exists>el' w h. model isReservedTag (fst (createASTElement ''input'' [(''type'', ''range'')]))
       \<lparr>d_name = ''model'', d_rawName = ''v-model'', d_value = ''x'', d_arg = None, d_modifiers = None\<rparr>
       = (True, el', w) \<and> handlers_of (events el') RANGE_TOKEN = [h]"
proof -
  let ?el = "fst (createASTElement ''input'' [(''type'', ''range'')])"
  have "\<not> tru (component ?el)" "tag ?el \<in> {''select'', ''input'', ''textarea''}"
      "model_event ?el None = RANGE_TOKEN" "handlers_of (events ?el) RANGE_TOKEN = []"
    by (simp_all add: createASTElement_def makeAttrsMap_def model_event_def modifier_on_def handlers_of_def)
  from model_listens_first [OF this(1,2), of isReservedTag
      "\<lparr>d_name = ''model'', d_rawName = ''v-model'', d_value = ''x'', d_arg = None, d_modifiers = None\<rparr>"] this(3,4)
  show ?thesis by simp
qed

end
