(* ===== verification/HandlerGen.thy ===== *)
theory HandlerGen
  imports Ast
begin

text \<open>
  The event part of the code generator in \<open>frontend/js/vue.js\<close>: \<open>genHandlers\<close>, \<open>genHandler\<close> with
  its modifier table, \<open>genKeyFilter\<close>, \<open>genFilterCode\<close>, and the two regular expressions that tell
  a method path and a function expression from a statement, as recognisers. The lemmas show
  what runs before the user's code and in which order.
\<close>

section \<open>Recognisers\<close>

definition ident_char :: "char \<Rightarrow> bool" where
  "ident_char c \<longleftrightarrow> is_word c \<or> c = CHR ''$''"

definition ident_start :: "char \<Rightarrow> bool" where
  "ident_start c \<longleftrightarrow> is_upper c \<or> is_lower c \<or> c = CHR ''_'' \<or> c = CHR ''$''"

text \<open>\<open>fnExpRE\<close>: \<open>/^([\w$_]+|\([^)]*?\))\s*=>|^function\s*\(/\<close>\<close>

definition fnExpRE :: "string \<Rightarrow> bool" where
  "fnExpRE s \<longleftrightarrow>
     (takeWhile ident_char s \<noteq> [] \<and> starts_with ''=>'' (dropWhile is_space (dropWhile ident_char s))) \<or>
     (case s of
        c # r \<Rightarrow> c = CHR ''('' \<and>
          (case dropWhile (\<lambda>d. d \<noteq> CHR '')'') r of
             _ # r' \<Rightarrow> starts_with ''=>'' (dropWhile is_space r')
           | [] \<Rightarrow> False)
      | [] \<Rightarrow> False) \<or>
     (starts_with ''function'' s \<and> starts_with ''('' (dropWhile is_space (drop 8 s)))"

text \<open>
  \<open>simplePathRE\<close>: an identifier followed by segments \<open>.name\<close>, \<open>['...']\<close>, \<open>["..."]\<close>, \<open>[digits]\<close>
  or \<open>[name]\<close>. \<open>path_segment\<close> reads one segment and returns the rest.
\<close>

definition path_ident :: "string \<Rightarrow> string option" where
  "path_ident s =
     (case s of c # r \<Rightarrow> if ident_start c then Some (dropWhile ident_char r) else None | [] \<Rightarrow> None)"

definition close_with :: "string \<Rightarrow> string \<Rightarrow> string option" where
  "close_with e s = (if starts_with e s then Some (drop (length e) s) else None)"

definition path_segment :: "string \<Rightarrow> string option" where
  "path_segment s =
     (case s of
        [] \<Rightarrow> None
      | c # r \<Rightarrow>
          (if c = CHR ''.'' then path_ident r
           else if c = CHR ''['' then
             (case r of
                [] \<Rightarrow> None
              | d # r' \<Rightarrow>
                  (if d = sq then close_with [sq, CHR '']''] (dropWhile (\<lambda>x. x \<noteq> sq) r')
                   else if d = dq then close_with [dq, CHR '']''] (dropWhile (\<lambda>x. x \<noteq> dq) r')
                   else if is_digit d then close_with '']'' (dropWhile is_digit r)
                   else (case path_ident r of Some q \<Rightarrow> close_with '']'' q | None \<Rightarrow> None)))
           else None))"

lemma path_ident_shorter: "path_ident s = Some r \<Longrightarrow> length r < length s"
  by (auto simp: path_ident_def le_imp_less_Suc length_dropWhile_le split: list.splits if_splits)

lemma close_with_le: "close_with e s = Some r \<Longrightarrow> length r \<le> length s"
  by (auto simp: close_with_def split: if_splits)

lemma path_segment_shorter:
  assumes "path_segment s = Some r"
  shows "length r < length s"
proof -
  obtain c t where s: "s = c # t" using assms by (cases s) (auto simp: path_segment_def)
  have drop: "length (dropWhile P u) \<le> length u" for P and u :: string by (rule length_dropWhile_le)
  have "length r \<le> length t"
  proof (cases "c = CHR ''.''")
    case True
    with assms s have "path_ident t = Some r" by (simp add: path_segment_def)
    then show ?thesis using path_ident_shorter by fastforce
  next
    case False
    with assms s obtain d u where t: "t = d # u" by (cases t) (auto simp: path_segment_def split: if_splits)
    have le: "close_with e (dropWhile P v) = Some r \<Longrightarrow> length v \<le> length t \<Longrightarrow> length r \<le> length t" for e P v
      using close_with_le [of e "dropWhile P v" r] drop [of P v] by linarith
    from assms False s t consider
        "close_with [sq, CHR '']''] (dropWhile (\<lambda>x. x \<noteq> sq) u) = Some r"
      | "close_with [dq, CHR '']''] (dropWhile (\<lambda>x. x \<noteq> dq) u) = Some r"
      | "close_with '']'' (dropWhile is_digit t) = Some r"
      | q where "path_ident t = Some q" "close_with '']'' q = Some r"
      by (auto simp: path_segment_def split: if_splits option.splits)
    then show ?thesis
    proof cases
      case 4
      then show ?thesis using path_ident_shorter [of t q] close_with_le [of "'']''" q r] by linarith
    qed (use le t in fastforce)+
  qed
  with s show ?thesis by simp
qed

function path_rest :: "string \<Rightarrow> bool" where
  "path_rest s = (if s = [] then True
                  else (case path_segment s of Some r \<Rightarrow> path_rest r | None \<Rightarrow> False))"
  by pat_completeness auto
termination by (relation "measure length") (auto dest: path_segment_shorter)

declare path_rest.simps [simp del]

definition simplePathRE :: "string \<Rightarrow> bool" where
  "simplePathRE s = (case path_ident s of Some r \<Rightarrow> path_rest r | None \<Rightarrow> False)"

section \<open>Tables\<close>

definition keyCodes :: "(string \<times> nat list) list" where
  "keyCodes =
     [(''esc'', [27]), (''tab'', [9]), (''enter'', [13]), (''space'', [32]), (''up'', [38]),
      (''left'', [37]), (''right'', [39]), (''down'', [40]), (''delete'', [8, 46])]"

definition keyNames :: "(string \<times> string list) list" where
  "keyNames =
     [(''esc'', [''Escape'']), (''tab'', [''Tab'']), (''enter'', [''Enter'']), (''space'', ['' '']),
      (''up'', [''Up'', ''ArrowUp'']), (''left'', [''Left'', ''ArrowLeft'']),
      (''right'', [''Right'', ''ArrowRight'']), (''down'', [''Down'', ''ArrowDown'']),
      (''delete'', [''Backspace'', ''Delete''])]"

definition genGuard :: "string \<Rightarrow> string" where
  "genGuard condition = ''if('' @ condition @ '')return null;''"

definition button_guard :: "string \<Rightarrow> string" where
  "button_guard n = genGuard ([sq] @ ''button'' @ [sq] @ '' in $event && $event.button !== '' @ n)"

definition modifierCode :: "(string \<times> string) list" where
  "modifierCode =
     [(''stop'', ''$event.stopPropagation();''),
      (''prevent'', ''$event.preventDefault();''),
      (''self'', genGuard ''$event.target !== $event.currentTarget''),
      (''ctrl'', genGuard ''!$event.ctrlKey''),
      (''shift'', genGuard ''!$event.shiftKey''),
      (''alt'', genGuard ''!$event.altKey''),
      (''meta'', genGuard ''!$event.metaKey''),
      (''left'', button_guard ''0''),
      (''middle'', button_guard ''1''),
      (''right'', button_guard ''2'')]"

section \<open>Generating a handler\<close>

text \<open>\<open>JSON.stringify\<close> of a key code or key name: one value, an array, or undefined.\<close>

definition json_one_or_many :: "string list option \<Rightarrow> string" where
  "json_one_or_many xs =
     (case xs of
        None \<Rightarrow> ''undefined''
      | Some [x] \<Rightarrow> x
      | Some ys \<Rightarrow> ''['' @ join '','' ys @ '']'')"

definition genFilterCode :: "string \<Rightarrow> string" where
  "genFilterCode key =
     (case parse_int key of
        Some keyVal \<Rightarrow>
          (if keyVal \<noteq> 0 then ''$event.keyCode!=='' @ show_int keyVal
           else ''_k($event.keyCode,'' @ json_quote key @ '','' @
                  json_one_or_many (map_option (map show_nat) (map_of keyCodes key)) @ '','' @ ''$event.key,'' @
                  json_one_or_many (map_option (map json_quote) (map_of keyNames key)) @ '')'')
      | None \<Rightarrow>
          ''_k($event.keyCode,'' @ json_quote key @ '','' @
            json_one_or_many (map_option (map show_nat) (map_of keyCodes key)) @ '','' @ ''$event.key,'' @
            json_one_or_many (map_option (map json_quote) (map_of keyNames key)) @ '')'')"

definition genKeyFilter :: "string list \<Rightarrow> string" where
  "genKeyFilter keys =
     ''if(!('' @ [sq] @ ''button'' @ [sq] @ '' in $event)&&'' @ join ''&&'' (map genFilterCode keys) @ '')return null;''"

definition exactGuard :: "bool obj \<Rightarrow> string" where
  "exactGuard modifiers =
     genGuard (join ''||'' (map (\<lambda>m. ''$event.'' @ m @ ''Key'')
       (filter (\<lambda>m. \<not> has_mod modifiers m) [''ctrl'', ''shift'', ''alt'', ''meta''])))"

text \<open>The loop over the modifiers, from \<open>(genModifierCode, keys)\<close>.\<close>

definition modifier_step :: "bool obj \<Rightarrow> string \<times> string list \<Rightarrow> string \<Rightarrow> string \<times> string list" where
  "modifier_step modifiers acc key =
     (case acc of (gmc, keys) \<Rightarrow>
        case map_of modifierCode key of
          Some mc \<Rightarrow> (gmc @ mc, if map_of keyCodes key \<noteq> None then keys @ [key] else keys)
        | None \<Rightarrow>
            if key = ''exact'' then (gmc @ exactGuard modifiers, keys) else (gmc, keys @ [key]))"

definition genHandler_one :: "handler \<Rightarrow> string" where
  "genHandler_one handler =
     (let value = h_value handler;
          isMethodPath = simplePathRE value;
          isFunctionExpression = fnExpRE value
      in case h_modifiers handler of
           None \<Rightarrow>
             (if isMethodPath \<or> isFunctionExpression then value
              else ''function($event){'' @ value @ ''}'')
         | Some modifiers \<Rightarrow>
             (let (gmc, keys) = foldl (modifier_step modifiers) ([], []) (obj_keys modifiers);
                  pre = (if keys \<noteq> [] then genKeyFilter keys else []) @ gmc;
                  handlerCode =
                    (if isMethodPath then ''return '' @ value @ ''($event)''
                     else if isFunctionExpression then ''return ('' @ value @ '')($event)''
                     else value)
              in ''function($event){'' @ pre @ handlerCode @ ''}''))"

definition genHandler :: "handlers \<Rightarrow> string" where
  "genHandler hs =
     (case hs of
        HOne h \<Rightarrow> genHandler_one h
      | HMany l \<Rightarrow> ''['' @ join '','' (map genHandler_one l) @ '']'')"

definition genHandlers :: "handlers obj \<Rightarrow> bool \<Rightarrow> string" where
  "genHandlers evs isNative =
     drop_last
       (foldl (\<lambda>res (name, h). res @ [dq] @ name @ [dq] @ '':'' @ genHandler h @ '','')
          (if isNative then ''nativeOn:{'' else ''on:{'') evs) @ ''}''"

section \<open>Lemmas\<close>

text \<open>The three classes of modifiers.\<close>

definition mod_code :: "bool obj \<Rightarrow> string \<Rightarrow> string" where
  "mod_code ms key =
     (case map_of modifierCode key of Some c \<Rightarrow> c | None \<Rightarrow> if key = ''exact'' then exactGuard ms else [])"

definition key_mod :: "string \<Rightarrow> bool" where
  "key_mod key \<longleftrightarrow>
     (case map_of modifierCode key of Some _ \<Rightarrow> map_of keyCodes key \<noteq> None | None \<Rightarrow> key \<noteq> ''exact'')"

lemma modifier_step_eq:
  "modifier_step ms (g, ks) key = (g @ mod_code ms key, ks @ (if key_mod key then [key] else []))"
  by (auto simp: modifier_step_def mod_code_def key_mod_def split: option.splits)

lemma foldl_modifier_step:
  "foldl (modifier_step ms) (g, ks) keys = (g @ concat (map (mod_code ms) keys), ks @ filter key_mod keys)"
  by (induction keys arbitrary: g ks) (auto simp: modifier_step_eq)

text \<open>
  A handler with modifiers runs in a fixed order: the filter of all its key modifiers first, then
  the code of the other modifiers in the order they were written (\<open>prevent\<close> and \<open>stop\<close> among
  them), then the user's handler; so an event the key filter rejects is neither stopped nor
  prevented.
\<close>

theorem genHandler_order:
  assumes "h_modifiers h = Some ms"
  shows "\<exists>body. genHandler (HOne h) =
     ''function($event){'' @
       (let keys = filter key_mod (obj_keys ms) in if keys = [] then [] else genKeyFilter keys) @
       concat (map (mod_code ms) (obj_keys ms)) @ body @ ''}'' \<and>
     (body = h_value h \<or> body = ''return '' @ h_value h @ ''($event)'' \<or>
      body = ''return ('' @ h_value h @ '')($event)'')"
  using assms by (auto simp: genHandler_def genHandler_one_def foldl_modifier_step Let_def)

lemma genHandler_order_witness:
  "\<exists>body. genHandler (HOne \<lparr>h_value = ''go'', h_modifiers = Some [(''prevent'', True), (''enter'', True)]\<rparr>) =
     ''function($event){'' @ genKeyFilter [''enter''] @ ''$event.preventDefault();'' @ body @ ''}''"
proof -
  let ?ms = "[(''prevent'', True), (''enter'', True)]" and ?h = "''go''"
  have k: "filter key_mod (obj_keys ?ms) = [''enter'']"
    and m: "concat (map (mod_code ?ms) (obj_keys ?ms)) = ''$event.preventDefault();''"
    by code_simp+
  have "h_modifiers \<lparr>h_value = ?h, h_modifiers = Some ?ms\<rparr> = Some ?ms" by simp
  from genHandler_order [OF this] obtain body where
    "genHandler (HOne \<lparr>h_value = ?h, h_modifiers = Some ?ms\<rparr>) = ''function($event){'' @
       (let keys = filter key_mod (obj_keys ?ms) in if keys = [] then [] else genKeyFilter keys) @
       concat (map (mod_code ?ms) (obj_keys ?ms)) @ body @ ''}''"
    by blast
  then show ?thesis unfolding k m Let_def by (intro exI [of _ body]) simp
qed

lemma path_ident_word: "ident_start c \<Longrightarrow> list_all ident_char r \<Longrightarrow> path_ident (c # r) = Some []"
  by (simp add: path_ident_def list_all_iff)

lemma simplePathRE_ident: "ident_start c \<Longrightarrow> list_all ident_char r \<Longrightarrow> simplePathRE (c # r)"
  by (simp add: simplePathRE_def path_ident_word path_rest.simps)

end
