(* ===== verification/Codegen.thy ===== *)
theory Codegen
  imports HandlerGen ModelGen "HOL-Library.Sublist"
begin

text \<open>
  The code generator of \<open>frontend/js/vue.js\<close>: \<open>generate\<close> and \<open>genElement\<close> with every generator
  they dispatch to. A generator is a function of the code generation state (the warnings, the
  \<open>v-once\<close> counter and the hoisted static render functions); it may throw, and because the
  generators call each other on the same node after setting one of its processed flags, their
  recursion is bounded by fuel. Each generator is a definition over \<open>rec\<close>, the recursive calls to
  \<open>genElement\<close> and \<open>genOnce\<close>; \<open>gen_fuel\<close> ties the knot. A flag the code sets on a node is set on
  the node passed on. The ancestors of a node, innermost first, stand for its \<open>parent\<close> links. The
  alternative generators that \<open>genIf\<close>, \<open>genFor\<close> and \<open>genChildren\<close> accept are for a server
  renderer this build does not have: no call passes one. The characters U+2028 and U+2029 that
  \<open>transformSpecialNewlines\<close> escapes are outside the character model.

  The lemmas show that \<open>gen_size\<close> fuel always suffices, that the state only grows, that a
  hoisted tree is referred to by its own index, and what \<open>getNormalizationType\<close> computes.
\<close>

section \<open>State and results\<close>

record cstate =
  cs_warns :: warns
  cs_onceId :: nat
  cs_static :: "string list"

datatype gen_error = OutOfFuel | TypeError

type_synonym 'a gen = "cstate \<Rightarrow> gen_error + 'a \<times> cstate"

definition gret :: "'a \<Rightarrow> 'a gen" where "gret x = (\<lambda>s. Inr (x, s))"

definition gthrow :: "gen_error \<Rightarrow> 'a gen" where "gthrow e = (\<lambda>s. Inl e)"

definition gbind :: "'a gen \<Rightarrow> ('a \<Rightarrow> 'b gen) \<Rightarrow> 'b gen" where
  "gbind m f = (\<lambda>s. case m s of Inl e \<Rightarrow> Inl e | Inr (x, s') \<Rightarrow> f x s')"

definition gwarn :: "warns \<Rightarrow> unit gen" where
  "gwarn w = (\<lambda>s. Inr ((), s\<lparr>cs_warns := cs_warns s @ w\<rparr>))"

definition gonce_id :: "nat gen" where
  "gonce_id = (\<lambda>s. Inr (cs_onceId s, s\<lparr>cs_onceId := cs_onceId s + 1\<rparr>))"

text \<open>\<open>staticRenderFns.push(fn)\<close>, and the index of what was pushed\<close>

definition gpush_static :: "string \<Rightarrow> nat gen" where
  "gpush_static fn = (\<lambda>s. Inr (length (cs_static s), s\<lparr>cs_static := cs_static s @ [fn]\<rparr>))"

fun gmap :: "('a \<Rightarrow> 'b gen) \<Rightarrow> 'a list \<Rightarrow> 'b list gen" where
  "gmap f [] = gret []"
| "gmap f (x # xs) = gbind (f x) (\<lambda>y. gbind (gmap f xs) (\<lambda>ys. gret (y # ys)))"

datatype call = GElement | GOnce

type_synonym rec_gen = "call \<Rightarrow> elem list \<Rightarrow> node \<Rightarrow> string gen"

section \<open>Static roots, v-once, v-if, v-for\<close>

definition set_elem :: "(elem \<Rightarrow> elem) \<Rightarrow> node \<Rightarrow> node" where
  "set_elem f n = (case n of Element el ch ic sc \<Rightarrow> Element (f el) ch ic sc | _ \<Rightarrow> n)"

definition with_this :: "string \<Rightarrow> string" where
  "with_this body = ''with(this){return '' @ body @ ''}''"

definition genStatic :: "rec_gen \<Rightarrow> elem list \<Rightarrow> elem \<Rightarrow> node \<Rightarrow> string gen" where
  "genStatic rec anc el n =
     gbind (rec GElement anc (set_elem (\<lambda>e. e\<lparr>staticProcessed := True\<rparr>) n)) (\<lambda>body.
     gbind (gpush_static (with_this body)) (\<lambda>i.
     gret (''_m('' @ show_nat i @ (if staticInFor el then '',true'' else []) @ '')'')))"

definition genTernaryExp :: "rec_gen \<Rightarrow> elem list \<Rightarrow> node \<Rightarrow> string gen" where
  "genTernaryExp rec anc block =
     (case block of
        Element el _ _ _ \<Rightarrow> if el_once el then rec GOnce anc block else rec GElement anc block
      | _ \<Rightarrow> rec GElement anc block)"

fun genIfConditions :: "rec_gen \<Rightarrow> elem list \<Rightarrow> (string option \<times> node) list \<Rightarrow> string gen" where
  "genIfConditions rec anc [] = gret ''_e()''"
| "genIfConditions rec anc ((exp, block) # conditions) =
     (if tru exp then
        gbind (genTernaryExp rec anc block) (\<lambda>t.
        gbind (genIfConditions rec anc conditions) (\<lambda>f.
        gret (''('' @ the exp @ '')?'' @ t @ '':'' @ f)))
      else genTernaryExp rec anc block)"

text \<open>\<open>ifConditions\<close> starts with the element itself, whose flag is set by now.\<close>

definition genIf :: "rec_gen \<Rightarrow> elem list \<Rightarrow> elem \<Rightarrow> node \<Rightarrow> (string option \<times> node) list \<Rightarrow> string gen" where
  "genIf rec anc el n ic =
     genIfConditions rec anc ((el_if el, set_elem (\<lambda>e. e\<lparr>ifProcessed := True\<rparr>) n) # ic)"

definition once_key :: "elem list \<Rightarrow> string option" where
  "once_key anc = (case List.find (\<lambda>p. tru (el_for p)) anc of Some p \<Rightarrow> el_key p | None \<Rightarrow> Some [])"

definition genOnce ::
    "rec_gen \<Rightarrow> elem list \<Rightarrow> elem \<Rightarrow> node \<Rightarrow> (string option \<times> node) list \<Rightarrow> string gen" where
  "genOnce rec anc el0 n0 ic =
     (let el = el0\<lparr>onceProcessed := True\<rparr>; n = set_elem (\<lambda>e. e\<lparr>onceProcessed := True\<rparr>) n0 in
      if tru (el_if el) \<and> \<not> ifProcessed el then genIf rec anc el n ic
      else if staticInFor el then
        (let key = once_key anc in
         if \<not> tru key then
           gbind (gwarn (err ''v-once can only be used inside v-for that is keyed. '')) (\<lambda>_. rec GElement anc n)
         else
           gbind (rec GElement anc n) (\<lambda>c.
           gbind gonce_id (\<lambda>i.
           gret (''_o('' @ c @ '','' @ show_nat i @ '','' @ the key @ '')''))))
      else genStatic rec anc el n)"

definition iterators :: "elem \<Rightarrow> string" where
  "iterators el =
     (if tru (iterator1 el) then '','' @ the (iterator1 el) else []) @
     (if tru (iterator2 el) then '','' @ the (iterator2 el) else [])"

text \<open>A field put into a template text: undefined prints as such.\<close>

definition opt_text :: "string option \<Rightarrow> string" where
  "opt_text s = (case s of Some t \<Rightarrow> t | None \<Rightarrow> ''undefined'')"

definition genFor :: "rec_gen \<Rightarrow> elem list \<Rightarrow> elem \<Rightarrow> node \<Rightarrow> string gen" where
  "genFor rec anc el n =
     gbind (gwarn (if \<not> isReservedTag (tag el) \<and> tag el \<noteq> ''slot'' \<and> tag el \<noteq> ''template'' \<and> \<not> tru (el_key el)
                   then tip (''<'' @ tag el @ '' v-for='' @ [dq] @ opt_text (el_alias el) @ '' in '' @ opt_text (el_for el) @
                             [dq] @ ''>: component lists rendered with '' @
                             ''v-for should have explicit keys. '' @
                             ''See https://vuejs.org/guide/list.html#key for more info.'')
                   else [])) (\<lambda>_.
     gbind (rec GElement anc (set_elem (\<lambda>e. e\<lparr>forProcessed := True\<rparr>) n)) (\<lambda>body.
     gret (''_l(('' @ opt_text (el_for el) @ ''),'' @
           ''function('' @ opt_text (el_alias el) @ iterators el @ ''){'' @
           ''return '' @ body @ ''})'')))"

section \<open>Children\<close>

definition needsNormalization :: "elem \<Rightarrow> bool" where
  "needsNormalization el \<longleftrightarrow> el_for el \<noteq> None \<or> tag el = ''template'' \<or> tag el = ''slot''"

definition maybeComponent :: "elem \<Rightarrow> bool" where
  "maybeComponent el \<longleftrightarrow> \<not> isReservedTag (tag el)"

definition block_some :: "(elem \<Rightarrow> bool) \<Rightarrow> (string option \<times> node) list \<Rightarrow> bool" where
  "block_some p ic \<longleftrightarrow> list_ex (\<lambda>(e, b). case b of Element el _ _ _ \<Rightarrow> p el | _ \<Rightarrow> False) ic"

text \<open>
  The loop with \<open>res\<close>; an element that has conditions is itself the block of the first one, so the
  test of \<open>ifConditions.some\<close> adds the other blocks only.
\<close>

fun getNormalizationType :: "node list \<Rightarrow> nat \<Rightarrow> nat" where
  "getNormalizationType [] res = res"
| "getNormalizationType (c # children) res =
     (case c of
        Element el _ ic _ \<Rightarrow>
          (if needsNormalization el \<or> block_some needsNormalization ic then 2
           else if maybeComponent el \<or> block_some maybeComponent ic then getNormalizationType children 1
           else getNormalizationType children res)
      | _ \<Rightarrow> getNormalizationType children res)"

definition genText :: "node \<Rightarrow> string" where
  "genText n =
     ''_v('' @ (case n of Expression e _ \<Rightarrow> e | TextNode t _ \<Rightarrow> json_quote t | _ \<Rightarrow> ''undefined'') @ '')''"

definition genComment :: "string \<Rightarrow> string" where
  "genComment t = ''_e('' @ json_quote t @ '')''"

definition genNode :: "rec_gen \<Rightarrow> elem list \<Rightarrow> node \<Rightarrow> string gen" where
  "genNode rec anc n =
     (case n of
        Element _ _ _ _ \<Rightarrow> rec GElement anc n
      | TextNode t isComment \<Rightarrow> gret (if isComment then genComment t else genText n)
      | _ \<Rightarrow> gret (genText n))"

definition single_for :: "node list \<Rightarrow> bool" where
  "single_for children \<longleftrightarrow>
     (case children of
        [Element el _ _ _] \<Rightarrow> tru (el_for el) \<and> tag el \<noteq> ''template'' \<and> tag el \<noteq> ''slot''
      | _ \<Rightarrow> False)"

text \<open>The result is undefined (\<open>None\<close>) without children. \<open>anc\<close> already starts with the element.\<close>

definition genChildren :: "rec_gen \<Rightarrow> elem list \<Rightarrow> node list \<Rightarrow> bool \<Rightarrow> string option gen" where
  "genChildren rec anc children checkSkip =
     (if children = [] then gret None
      else if single_for children then gbind (rec GElement anc (hd children)) (\<lambda>c. gret (Some c))
      else
        let normalizationType = (if checkSkip then getNormalizationType children 0 else 0)
        in gbind (gmap (genNode rec anc) children) (\<lambda>cs.
           gret (Some (''['' @ join '','' cs @ '']'' @
                  (if normalizationType \<noteq> 0 then '','' @ show_nat normalizationType else [])))))"

definition genSlot :: "rec_gen \<Rightarrow> elem list \<Rightarrow> elem \<Rightarrow> node list \<Rightarrow> string gen" where
  "genSlot rec anc el ch =
     (let name = str_or (slotName el) ([dq] @ ''default'' @ [dq]) in
      gbind (genChildren rec (el # anc) ch False) (\<lambda>children.
        let ats = map_option (\<lambda>as. ''{'' @ join '','' (map (\<lambda>(n, v). camelize n @ '':'' @ v) as) @ ''}'') (attrs el);
            b = map_of (attrsMap el) ''v-bind'';
            r1 = ''_t('' @ name @ (if tru children then '','' @ the children else []);
            r2 = (if (ats \<noteq> None \<or> tru b) \<and> \<not> tru children then r1 @ '',null'' else r1);
            r3 = (case ats of Some a \<Rightarrow> r2 @ '','' @ a | None \<Rightarrow> r2);
            r4 = (if tru b then r3 @ (if ats \<noteq> None then [] else '',null'') @ '','' @ the b else r3)
        in gret (r4 @ '')'')))"

section \<open>Data\<close>

definition genProps :: "(string \<times> string) list \<Rightarrow> string" where
  "genProps ps = drop_last (foldl (\<lambda>res (n, v). res @ [dq] @ n @ [dq] @ '':'' @ v @ '','') [] ps)"

text \<open>The \<open>genData\<close> of the class and the style module\<close>

definition genData :: "elem \<Rightarrow> string" where
  "genData el =
     (if tru (staticClass el) then ''staticClass:'' @ the (staticClass el) @ '','' else []) @
     (if tru (classBinding el) then ''class:'' @ the (classBinding el) @ '','' else [])"

definition genData_style :: "elem \<Rightarrow> string" where
  "genData_style el =
     (if tru (staticStyle el) then ''staticStyle:'' @ the (staticStyle el) @ '','' else []) @
     (if tru (styleBinding el) then ''style:('' @ the (styleBinding el) @ ''),'' else [])"

definition on_directive :: "elem \<Rightarrow> directive \<Rightarrow> elem \<times> warns" where
  "on_directive el dir =
     (el\<lparr>wrapListeners := Some (\<lambda>c. ''_g('' @ c @ '','' @ d_value dir @ '')'')\<rparr>,
      if d_modifiers dir \<noteq> None then err ''v-on without argument does not support modifiers.'' else [])"

definition bind_directive :: "elem \<Rightarrow> directive \<Rightarrow> elem" where
  "bind_directive el dir =
     el\<lparr>wrapData := Some (\<lambda>c.
        ''_b('' @ c @ '','' @ [sq] @ tag el @ [sq] @ '','' @ d_value dir @ '','' @
        (if modifier_on (d_modifiers dir) ''prop'' then ''true'' else ''false'') @
        (if modifier_on (d_modifiers dir) ''sync'' then '',true'' else []) @ '')'')\<rparr>"

text \<open>
  \<open>state.directives[dir.name]\<close>: does the directive need its run-time part, the element after the
  compile-time part, the warnings.
\<close>

definition run_directive :: "elem \<Rightarrow> directive \<Rightarrow> bool \<times> elem \<times> warns" where
  "run_directive el dir =
     (if d_name dir = ''on'' then (False, on_directive el dir)
      else if d_name dir = ''bind'' then (False, bind_directive el dir, [])
      else if d_name dir = ''cloak'' then (False, el, [])
      else if d_name dir = ''model'' then model isReservedTag el dir
      else if d_name dir = ''text'' then (False, text_directive el dir, [])
      else if d_name dir = ''html'' then (False, html_directive el dir, [])
      else (True, el, []))"

definition json_mods :: "bool obj \<Rightarrow> string" where
  "json_mods ms =
     ''{'' @ join '','' (map (\<lambda>(k, b). json_quote k @ '':'' @ (if b then ''true'' else ''false'')) ms) @ ''}''"

definition directive_code :: "directive \<Rightarrow> string" where
  "directive_code dir =
     ''{name:'' @ [dq] @ d_name dir @ [dq] @ '',rawName:'' @ [dq] @ d_rawName dir @ [dq] @
     (if d_value dir \<noteq> [] then '',value:('' @ d_value dir @ ''),expression:'' @ json_quote (d_value dir) else []) @
     (if tru (d_arg dir) then '',arg:'' @ [dq] @ the (d_arg dir) @ [dq] else []) @
     (case d_modifiers dir of Some ms \<Rightarrow> '',modifiers:'' @ json_mods ms | None \<Rightarrow> []) @ ''},''"

fun directive_loop :: "directive list \<Rightarrow> elem \<Rightarrow> string \<Rightarrow> bool \<Rightarrow> (elem \<times> string \<times> bool) gen" where
  "directive_loop [] el res hasRuntime = gret (el, res, hasRuntime)"
| "directive_loop (dir # dirs) el res hasRuntime =
     (case run_directive el dir of
        (needRuntime, el', w) \<Rightarrow>
          gbind (gwarn w) (\<lambda>_.
            if needRuntime then directive_loop dirs el' (res @ directive_code dir) True
            else directive_loop dirs el' res hasRuntime))"

definition genDirectives :: "elem \<Rightarrow> (elem \<times> string option) gen" where
  "genDirectives el =
     (case directives el of
        None \<Rightarrow> gret (el, None)
      | Some dirs \<Rightarrow>
          gbind (directive_loop dirs el ''directives:['' False) (\<lambda>(el', res, hasRuntime).
            gret (el', if hasRuntime then Some (drop_last res @ '']'') else None)))"

text \<open>
  \<open>generate\<close> on a subtree has its own counter and its own static render functions; the warnings
  go to the same place.
\<close>

definition gfresh :: "string gen \<Rightarrow> (string \<times> string list) gen" where
  "gfresh m = (\<lambda>s.
     case m \<lparr>cs_warns = cs_warns s, cs_onceId = 0, cs_static = []\<rparr> of
       Inl e \<Rightarrow> Inl e
     | Inr (c, s') \<Rightarrow> Inr ((with_this c, cs_static s'), s\<lparr>cs_warns := cs_warns s'\<rparr>))"

definition genInlineTemplate :: "rec_gen \<Rightarrow> elem list \<Rightarrow> node list \<Rightarrow> string option gen" where
  "genInlineTemplate rec anc children =
     (let is_elem = (\<lambda>n. case n of Element _ _ _ _ \<Rightarrow> True | _ \<Rightarrow> False) in
      gbind (gwarn (if length children \<noteq> 1 \<or> \<not> is_elem (hd children)
                    then err ''Inline-template components must have exactly one child element.'' else [])) (\<lambda>_.
      if children = [] then gthrow TypeError
      else if is_elem (hd children) then
        gbind (gfresh (rec GElement anc (hd children))) (\<lambda>(render, statics).
        gret (Some (''inlineTemplate:{render:function(){'' @ render @ ''},staticRenderFns:['' @
          join '','' (map (\<lambda>c. ''function(){'' @ c @ ''}'') statics) @ '']}'')))
      else gret None))"

definition genScopedSlot_body :: "rec_gen \<Rightarrow> elem list \<Rightarrow> string \<Rightarrow> node \<Rightarrow> string gen" where
  "genScopedSlot_body rec anc key n =
     (case n of
        Element el ch ic sc \<Rightarrow>
          gbind (if tag el = ''template'' then
                   gbind (genChildren rec (el # anc) ch False) (\<lambda>c.
                     gret (if tru (el_if el) then the (el_if el) @ ''?'' @ str_or c ''undefined'' @ '':undefined''
                           else str_or c ''undefined''))
                 else rec GElement anc n) (\<lambda>body.
          gret (''{key:'' @ key @ '',fn:function('' @ opt_text (slotScope el) @ ''){return '' @ body @ ''}}''))
      | _ \<Rightarrow> gthrow TypeError)"

definition genScopedSlot :: "rec_gen \<Rightarrow> elem list \<Rightarrow> string \<times> node \<Rightarrow> string gen" where
  "genScopedSlot rec anc slot =
     (case slot of
        (key, Element el ch ic sc) \<Rightarrow>
          if tru (el_for el) \<and> \<not> forProcessed el then
            gbind (genScopedSlot_body rec anc key (Element (el\<lparr>forProcessed := True\<rparr>) ch ic sc)) (\<lambda>c.
            gret (''_l(('' @ opt_text (el_for el) @ ''),function('' @ opt_text (el_alias el) @ iterators el @ ''){'' @
                  ''return '' @ c @ ''})''))
          else genScopedSlot_body rec anc key (Element el ch ic sc)
      | (key, n) \<Rightarrow> gthrow TypeError)"

definition genScopedSlots :: "rec_gen \<Rightarrow> elem list \<Rightarrow> (string \<times> node) list \<Rightarrow> string gen" where
  "genScopedSlots rec anc slots =
     gbind (gmap (genScopedSlot rec anc) slots) (\<lambda>cs. gret (''scopedSlots:_u(['' @ join '','' cs @ ''])''))"

definition opt_gen :: "bool \<Rightarrow> string gen \<Rightarrow> string gen" where
  "opt_gen c m = (if c then m else gret [])"

definition strip_comma :: "string \<Rightarrow> string" where
  "strip_comma s = (if s \<noteq> [] \<and> last s = CHR '','' then butlast s else s)"

text \<open>The part of \<open>genData$2\<close> that reads fields only, after the directives.\<close>

definition data_fields :: "elem \<Rightarrow> string" where
  "data_fields el =
     (if tru (el_key el) then ''key:'' @ the (el_key el) @ '','' else []) @
     (if tru (el_ref el) then ''ref:'' @ the (el_ref el) @ '','' else []) @
     (if refInFor el then ''refInFor:true,'' else []) @
     (if el_pre el then ''pre:true,'' else []) @
     (if tru (component el) then ''tag:'' @ [dq] @ tag el @ [dq] @ '','' else []) @
     genData el @ genData_style el @
     (case attrs el of Some as \<Rightarrow> ''attrs:{'' @ genProps as @ ''},'' | None \<Rightarrow> []) @
     (case props el of Some ps \<Rightarrow> ''domProps:{'' @ genProps ps @ ''},'' | None \<Rightarrow> []) @
     (case events el of Some evs \<Rightarrow> genHandlers evs False @ '','' | None \<Rightarrow> []) @
     (case nativeEvents el of Some evs \<Rightarrow> genHandlers evs True @ '','' | None \<Rightarrow> []) @
     (if tru (slotTarget el) \<and> \<not> tru (slotScope el) then ''slot:'' @ the (slotTarget el) @ '','' else [])"

definition model_field :: "elem \<Rightarrow> string" where
  "model_field el =
     (case el_model el of
        Some m \<Rightarrow> ''model:{value:'' @ m_value m @ '',callback:'' @ m_callback m @
                  '',expression:'' @ m_expression m @ ''},''
      | None \<Rightarrow> [])"

definition genData_2 ::
    "rec_gen \<Rightarrow> elem list \<Rightarrow> elem \<Rightarrow> node list \<Rightarrow> (string \<times> node) list option \<Rightarrow> string gen" where
  "genData_2 rec anc el0 ch sc =
     gbind (genDirectives el0) (\<lambda>(el, dirs).
     gbind (case sc of Some slots \<Rightarrow> gbind (genScopedSlots rec (el # anc) slots) (\<lambda>c. gret (c @ '',''))
            | None \<Rightarrow> gret []) (\<lambda>scoped.
     gbind (if inlineTemplate el then
              gbind (genInlineTemplate rec (el # anc) ch) (\<lambda>c. gret (if tru c then the c @ '','' else []))
            else gret []) (\<lambda>inl.
       let d1 = ''{'' @ (if tru dirs then the dirs @ '','' else []) @ data_fields el @ scoped @ model_field el @ inl;
           d2 = strip_comma d1 @ ''}'';
           d3 = (case wrapData el of Some f \<Rightarrow> f d2 | None \<Rightarrow> d2);
           d4 = (case wrapListeners el of Some f \<Rightarrow> f d3 | None \<Rightarrow> d3)
       in gret d4)))"

section \<open>Elements\<close>

definition comma_opt :: "string option \<Rightarrow> string" where
  "comma_opt c = (if tru c then '','' @ the c else [])"

definition genComponent ::
    "rec_gen \<Rightarrow> elem list \<Rightarrow> string \<Rightarrow> elem \<Rightarrow> node list \<Rightarrow> (string \<times> node) list option \<Rightarrow> string gen" where
  "genComponent rec anc componentName el ch sc =
     gbind (if inlineTemplate el then gret None else genChildren rec (el # anc) ch True) (\<lambda>children.
     gbind (genData_2 rec anc el ch sc) (\<lambda>data.
     gret (''_c('' @ componentName @ '','' @ data @ comma_opt children @ '')'')))"

definition genPlainElement ::
    "rec_gen \<Rightarrow> elem list \<Rightarrow> elem \<Rightarrow> node list \<Rightarrow> (string \<times> node) list option \<Rightarrow> string gen" where
  "genPlainElement rec anc el ch sc =
     gbind (if plain el then gret None else gbind (genData_2 rec anc el ch sc) (\<lambda>d. gret (Some d))) (\<lambda>data.
     gbind (if inlineTemplate el then gret None else genChildren rec (el # anc) ch True) (\<lambda>children.
     gret (''_c('' @ [sq] @ tag el @ [sq] @ comma_opt data @ comma_opt children @ '')'')))"

text \<open>The web platform's modules have no \<open>transformCode\<close>, so the loop over the transforms is empty.\<close>

definition genElement :: "rec_gen \<Rightarrow> elem list \<Rightarrow> node \<Rightarrow> string gen" where
  "genElement rec anc n =
     (case n of
        Element el ch ic sc \<Rightarrow>
          (if staticRoot el \<and> \<not> staticProcessed el then genStatic rec anc el n
           else if el_once el \<and> \<not> onceProcessed el then genOnce rec anc el n ic
           else if tru (el_for el) \<and> \<not> forProcessed el then genFor rec anc el n
           else if tru (el_if el) \<and> \<not> ifProcessed el then genIf rec anc el n ic
           else if tag el = ''template'' \<and> \<not> tru (slotTarget el) then
             gbind (genChildren rec (el # anc) ch False) (\<lambda>c. gret (str_or c ''void 0''))
           else if tag el = ''slot'' then genSlot rec anc el ch
           else if tru (component el) then genComponent rec anc (the (component el)) el ch sc
           else genPlainElement rec anc el ch sc)
      | _ \<Rightarrow> gthrow TypeError)"

fun gen_fuel :: "nat \<Rightarrow> rec_gen" where
  "gen_fuel 0 c anc n = gthrow OutOfFuel"
| "gen_fuel (Suc k) GElement anc n = genElement (gen_fuel k) anc n"
| "gen_fuel (Suc k) GOnce anc n =
     (case n of Element el ch ic sc \<Rightarrow> genOnce (gen_fuel k) anc el n ic | _ \<Rightarrow> gthrow TypeError)"

text \<open>Every call decreases \<open>gen_size\<close>: a flag more is set, or the call is on a part of the node.\<close>

definition flags_left :: "elem \<Rightarrow> nat" where
  "flags_left el =
     (if staticProcessed el then 0 else 1) + (if onceProcessed el then 0 else 1) +
     (if forProcessed el then 0 else 1) + (if ifProcessed el then 0 else 1)"

fun node_size :: "node \<Rightarrow> nat" where
  "node_size (Element el ch ic sc) =
     1 + flags_left el + sum_list (map node_size ch) + sum_list (map (\<lambda>c. node_size (snd c)) ic) +
     (case sc of Some slots \<Rightarrow> sum_list (map (\<lambda>c. node_size (snd c)) slots) | None \<Rightarrow> 0)"
| "node_size _ = 1"

definition gen_size :: "call \<Rightarrow> node \<Rightarrow> nat" where
  "gen_size c n = 2 * node_size n + (case c of GElement \<Rightarrow> 1 | GOnce \<Rightarrow> 2)"

definition cstate0 :: cstate where
  "cstate0 = \<lparr>cs_warns = [], cs_onceId = 0, cs_static = []\<rparr>"

text \<open>\<open>generate\<close>: the render function, the static render functions, the warnings.\<close>

definition generate :: "node option \<Rightarrow> gen_error + string \<times> string list \<times> warns" where
  "generate ast =
     (case ast of
        None \<Rightarrow> Inr (with_this (''_c('' @ [dq] @ ''div'' @ [dq] @ '')''), [], [])
      | Some n \<Rightarrow>
          (case gen_fuel (gen_size GElement n) GElement [] n cstate0 of
             Inl e \<Rightarrow> Inl e
           | Inr (c, s) \<Rightarrow> Inr (with_this c, cs_static s, cs_warns s)))"

section \<open>The state grows and the fuel suffices\<close>

definition grows :: "cstate \<Rightarrow> cstate \<Rightarrow> bool" where
  "grows s s' \<longleftrightarrow> cs_onceId s \<le> cs_onceId s' \<and> prefix (cs_static s) (cs_static s') \<and>
     prefix (cs_warns s) (cs_warns s')"

lemma grows_refl [simp, intro]: "grows s s"
  by (simp add: grows_def)

lemma grows_trans: "grows s t \<Longrightarrow> grows t u \<Longrightarrow> grows s u"
  by (auto simp: grows_def intro: prefix_order.trans)

text \<open>A generator that never runs out of fuel and only extends the state\<close>

definition well :: "'a gen \<Rightarrow> bool" where
  "well m \<longleftrightarrow> (\<forall>s. case m s of Inl e \<Rightarrow> e \<noteq> OutOfFuel | Inr (x, s') \<Rightarrow> grows s s')"

named_theorems well_intros \<open>closure of \<open>well\<close> under the generators\<close>

lemma well_gret [well_intros]: "well (gret x)"
  by (simp add: well_def gret_def)

lemma well_throw [well_intros]: "well (gthrow TypeError)"
  by (simp add: well_def gthrow_def)

lemma well_gwarn [well_intros]: "well (gwarn w)"
  by (simp add: well_def gwarn_def grows_def)

lemma well_gonce_id [well_intros]: "well gonce_id"
  by (simp add: well_def gonce_id_def grows_def)

lemma well_gpush [well_intros]: "well (gpush_static f)"
  by (simp add: well_def gpush_static_def grows_def)

lemma well_gbind [well_intros]:
  assumes "well m" "\<And>x. well (f x)"
  shows "well (gbind m f)"
  unfolding well_def
proof
  fix s
  show "case gbind m f s of Inl e \<Rightarrow> e \<noteq> OutOfFuel | Inr (x, s') \<Rightarrow> grows s s'"
  proof (cases "m s")
    case (Inl e)
    moreover from this have "e \<noteq> OutOfFuel" using assms(1) by (auto simp: well_def dest: spec [of _ s])
    ultimately show ?thesis by (simp add: gbind_def)
  next
    case (Inr r)
    obtain x t where r: "r = (x, t)" by force
    have g: "grows s t" using assms(1) Inr r by (auto simp: well_def dest: spec [of _ s])
    have "case f x t of Inl e \<Rightarrow> e \<noteq> OutOfFuel | Inr (x, s') \<Rightarrow> grows t s'"
      using assms(2) [of x] by (simp add: well_def)
    with g show ?thesis using Inr r by (auto simp: gbind_def split: sum.splits intro: grows_trans)
  qed
qed

lemma well_gmap: "(\<And>x. x \<in> set xs \<Longrightarrow> well (f x)) \<Longrightarrow> well (gmap f xs)"
  by (induction xs) (auto intro!: well_intros)

lemma well_if [well_intros]: "(c \<Longrightarrow> well a) \<Longrightarrow> (\<not> c \<Longrightarrow> well b) \<Longrightarrow> well (if c then a else b)"
  by simp

lemma well_gfresh [well_intros]:
  assumes "well m" shows "well (gfresh m)"
  unfolding well_def
proof
  fix s :: cstate
  let ?t = "\<lparr>cs_warns = cs_warns s, cs_onceId = 0, cs_static = []\<rparr>"
  have "case m ?t of Inl e \<Rightarrow> e \<noteq> OutOfFuel | Inr (x, s') \<Rightarrow> grows ?t s'"
    using assms by (simp add: well_def)
  then show "case gfresh m s of Inl e \<Rightarrow> e \<noteq> OutOfFuel | Inr (x, s') \<Rightarrow> grows s s'"
    by (auto simp: gfresh_def grows_def split: sum.splits)
qed

lemma well_directive_loop [well_intros]: "well (directive_loop dirs el res hasRuntime)"
  by (induction dirs el res hasRuntime rule: directive_loop.induct)
    (auto intro!: well_intros split: prod.splits)

lemma well_genDirectives [well_intros]: "well (genDirectives el)"
  by (auto simp: genDirectives_def intro!: well_intros split: option.splits)

text \<open>\<open>rec\<close> is well on every call of size at most \<open>k\<close>\<close>

definition covers :: "rec_gen \<Rightarrow> nat \<Rightarrow> bool" where
  "covers rec k \<longleftrightarrow> (\<forall>c anc n. gen_size c n \<le> k \<longrightarrow> well (rec c anc n))"

lemma covers_well: "covers rec k \<Longrightarrow> gen_size c n \<le> k \<Longrightarrow> well (rec c anc n)"
  by (simp add: covers_def)

lemma gen_size_le: "node_size n < m \<Longrightarrow> gen_size c n \<le> 2 * m"
  by (cases c) (auto simp: gen_size_def)

lemma covers_part: "covers rec (2 * m) \<Longrightarrow> node_size n < m \<Longrightarrow> well (rec c anc n)"
  by (rule covers_well) (auto intro: gen_size_le)

lemma covers_mono: "covers rec k \<Longrightarrow> j \<le> k \<Longrightarrow> covers rec j"
  by (auto simp: covers_def)

lemma node_size_child: "x \<in> set ch \<Longrightarrow> node_size x < node_size (Element el ch ic sc)"
  using member_le_sum_list [of "node_size x" "map node_size ch"] by simp

lemma node_size_cond: "c \<in> set ic \<Longrightarrow> node_size (snd c) < node_size (Element el ch ic sc)"
  using member_le_sum_list [of "node_size (snd c)" "map (\<lambda>c. node_size (snd c)) ic"] by simp

lemma node_size_slot: "c \<in> set slots \<Longrightarrow> node_size (snd c) < node_size (Element el ch ic (Some slots))"
  using member_le_sum_list [of "node_size (snd c)" "map (\<lambda>c. node_size (snd c)) slots"] by simp

lemma flags_set:
  "\<not> staticProcessed el \<Longrightarrow> flags_left (el\<lparr>staticProcessed := True\<rparr>) < flags_left el"
  "\<not> onceProcessed el \<Longrightarrow> flags_left (el\<lparr>onceProcessed := True\<rparr>) < flags_left el"
  "\<not> forProcessed el \<Longrightarrow> flags_left (el\<lparr>forProcessed := True\<rparr>) < flags_left el"
  "\<not> ifProcessed el \<Longrightarrow> flags_left (el\<lparr>ifProcessed := True\<rparr>) < flags_left el"
  "flags_left (el\<lparr>staticProcessed := True\<rparr>) \<le> flags_left el"
  "flags_left (el\<lparr>onceProcessed := True\<rparr>) \<le> flags_left el"
  by (simp_all add: flags_left_def)

lemma size_set_flag:
  "\<not> staticProcessed el \<Longrightarrow>
     node_size (set_elem (\<lambda>e. e\<lparr>staticProcessed := True\<rparr>) (Element el ch ic sc)) < node_size (Element el ch ic sc)"
  "\<not> onceProcessed el \<Longrightarrow>
     node_size (set_elem (\<lambda>e. e\<lparr>onceProcessed := True\<rparr>) (Element el ch ic sc)) < node_size (Element el ch ic sc)"
  "\<not> forProcessed el \<Longrightarrow>
     node_size (set_elem (\<lambda>e. e\<lparr>forProcessed := True\<rparr>) (Element el ch ic sc)) < node_size (Element el ch ic sc)"
  "\<not> ifProcessed el \<Longrightarrow>
     node_size (set_elem (\<lambda>e. e\<lparr>ifProcessed := True\<rparr>) (Element el ch ic sc)) < node_size (Element el ch ic sc)"
  "node_size (set_elem (\<lambda>e. e\<lparr>staticProcessed := True\<rparr>) (Element el ch ic sc)) \<le> node_size (Element el ch ic sc)"
  "node_size (set_elem (\<lambda>e. e\<lparr>onceProcessed := True\<rparr>) (Element el ch ic sc)) \<le> node_size (Element el ch ic sc)"
  by (simp_all add: set_elem_def flags_set)

lemma well_genStatic:
  "well (rec GElement anc (set_elem (\<lambda>e. e\<lparr>staticProcessed := True\<rparr>) n)) \<Longrightarrow> well (genStatic rec anc el n)"
  by (auto simp: genStatic_def intro!: well_intros)

lemma well_genTernary: "covers rec (2 * m) \<Longrightarrow> node_size b < m \<Longrightarrow> well (genTernaryExp rec anc b)"
  by (auto simp: genTernaryExp_def intro: covers_part split: node.splits)

lemma well_genIfConditions:
  "covers rec (2 * m) \<Longrightarrow> \<forall>c\<in>set ic. node_size (snd c) < m \<Longrightarrow> well (genIfConditions rec anc ic)"
proof (induction rec anc ic rule: genIfConditions.induct)
  case (1 rec anc)
  then show ?case by (simp add: well_intros)
next
  case (2 rec anc exp block conditions)
  then show ?case by (auto intro!: well_intros well_genTernary)
qed

lemma well_genIf:
  assumes "covers rec (2 * m)" "node_size (Element el ch ic sc) \<le> m" "\<not> ifProcessed el"
  shows "well (genIf rec anc el (Element el ch ic sc) ic)"
  unfolding genIf_def
proof (rule well_genIfConditions [OF assms(1)], rule ballI)
  fix c assume "c \<in> set ((el_if el, set_elem (\<lambda>e. e\<lparr>ifProcessed := True\<rparr>) (Element el ch ic sc)) # ic)"
  then show "node_size (snd c) < m"
    using size_set_flag(4) [OF assms(3), of ch ic sc] node_size_cond [of c ic el ch sc] assms(2)
    by auto
qed

lemma well_genOnce:
  assumes "covers rec k" "2 * node_size (set_elem (\<lambda>e. e\<lparr>onceProcessed := True\<rparr>) (Element el ch ic sc)) + 1 \<le> k"
  shows "well (genOnce rec anc el (Element el ch ic sc) ic)"
proof -
  let ?el = "el\<lparr>onceProcessed := True\<rparr>"
  let ?n = "Element ?el ch ic sc"
  have n: "set_elem (\<lambda>e. e\<lparr>onceProcessed := True\<rparr>) (Element el ch ic sc) = ?n"
    by (simp add: set_elem_def)
  with assms(2) have k: "2 * node_size ?n + 1 \<le> k" by simp
  have cov: "covers rec (2 * node_size ?n)" using k by (intro covers_mono [OF assms(1)]) simp
  have self: "well (rec GElement anc ?n)" using k by (intro covers_well [OF assms(1)]) (simp add: gen_size_def)
  have "node_size (set_elem (\<lambda>e. e\<lparr>staticProcessed := True\<rparr>) ?n) \<le> node_size ?n"
    by (rule size_set_flag(5))
  then have "well (rec GElement anc (set_elem (\<lambda>e. e\<lparr>staticProcessed := True\<rparr>) ?n))"
    using k by (intro covers_well [OF assms(1)]) (simp add: gen_size_def)
  then have stat: "well (genStatic rec anc ?el ?n)" by (rule well_genStatic)
  have "\<not> ifProcessed ?el \<Longrightarrow> well (genIf rec anc ?el ?n ic)"
    by (rule well_genIf [OF cov order_refl])
  then show ?thesis
    unfolding genOnce_def n Let_def using self stat by (auto intro!: well_intros)
qed

lemma well_genNode: "covers rec (2 * m) \<Longrightarrow> node_size n < m \<Longrightarrow> well (genNode rec anc n)"
  by (auto simp: genNode_def intro!: well_intros intro: covers_part split: node.splits)

lemma well_genChildren:
  assumes "covers rec (2 * m)" "\<forall>c\<in>set ch. node_size c < m"
  shows "well (genChildren rec anc ch chk)"
proof (cases ch)
  case Nil
  then show ?thesis by (simp add: genChildren_def well_intros)
next
  case (Cons c cs)
  then show ?thesis unfolding genChildren_def Let_def
    using assms by (auto intro!: well_intros well_gmap well_genNode intro: covers_part)
qed

lemma well_genScopedSlot_body:
  assumes "covers rec (2 * m)" "node_size n < m"
  shows "well (genScopedSlot_body rec anc key n)"
proof (cases n)
  case (Element el ch ic sc)
  have "\<forall>c\<in>set ch. node_size c < m"
    using node_size_child [of _ ch el ic sc] assms(2) Element less_trans by blast
  then show ?thesis using assms Element
    by (auto simp: genScopedSlot_body_def intro!: well_intros well_genChildren intro: covers_part)
qed (auto simp: genScopedSlot_body_def intro: well_intros)

lemma well_genScopedSlot:
  assumes "covers rec (2 * m)" "node_size (snd slot) < m"
  shows "well (genScopedSlot rec anc slot)"
proof (cases slot)
  case (Pair key n)
  show ?thesis
  proof (cases n)
    case (Element el ch ic sc)
    have "\<not> forProcessed el \<Longrightarrow> node_size (Element (el\<lparr>forProcessed := True\<rparr>) ch ic sc) < m"
      using assms(2) Pair Element flags_set(3) [of el] by simp
    with Pair Element assms show ?thesis
      by (auto simp: genScopedSlot_def intro!: well_intros well_genScopedSlot_body)
  qed (auto simp: genScopedSlot_def Pair intro: well_intros)
qed

lemma well_genData_2:
  assumes "covers rec (2 * node_size (Element el ch ic sc))"
  shows "well (genData_2 rec anc el ch sc)"
proof -
  let ?m = "node_size (Element el ch ic sc)"
  have slots: "well (genScopedSlots rec anc' slots)" if "sc = Some slots" for anc' slots
    using assms that node_size_slot [of _ slots el ch ic] unfolding genScopedSlots_def
    by (auto intro!: well_intros well_gmap well_genScopedSlot [of rec ?m])
  have inl: "well (genInlineTemplate rec anc' ch)" for anc'
    using assms node_size_child [of _ ch el ic sc] unfolding genInlineTemplate_def Let_def
    by (cases ch) (auto intro!: well_intros covers_part [of rec ?m] split: prod.splits)
  show ?thesis unfolding genData_2_def Let_def
    using slots inl by (auto intro!: well_intros split: option.splits prod.splits)
qed

lemma well_genElement:
  assumes "covers rec (2 * node_size n)"
  shows "well (genElement rec anc n)"
proof (cases n)
  case (Element el ch ic sc)
  let ?n = "Element el ch ic sc"
  note cov = assms [unfolded Element]
  have part: "well (rec GElement anc m)" if "node_size m < node_size ?n" for m
    by (rule covers_part [OF cov that])
  have ch: "well (genChildren rec anc' ch chk)" for anc' chk
    using node_size_child by (intro well_genChildren [OF cov]) blast
  have data: "well (genData_2 rec anc el ch sc)" by (rule well_genData_2 [OF cov])
  have stat: "\<not> staticProcessed el \<Longrightarrow> well (genStatic rec anc el ?n)"
    by (rule well_genStatic, rule part, rule size_set_flag(1))
  have "\<not> onceProcessed el \<Longrightarrow>
      2 * node_size (set_elem (\<lambda>e. e\<lparr>onceProcessed := True\<rparr>) ?n) + 1 \<le> 2 * node_size ?n"
    using size_set_flag(2) [of el ch ic sc] by linarith
  then have onc: "\<not> onceProcessed el \<Longrightarrow> well (genOnce rec anc el ?n ic)"
    by (rule well_genOnce [OF cov])
  have lst: "\<not> forProcessed el \<Longrightarrow> well (genFor rec anc el ?n)"
    using part [OF size_set_flag(3)] unfolding genFor_def by (auto intro!: well_intros)
  have if': "\<not> ifProcessed el \<Longrightarrow> well (genIf rec anc el ?n ic)"
    by (rule well_genIf [OF cov order_refl])
  have slot: "well (genSlot rec anc el ch)"
    unfolding genSlot_def Let_def using ch by (auto intro!: well_intros)
  have comp: "well (genComponent rec anc nm el ch sc)" for nm
    unfolding genComponent_def using ch data by (auto intro!: well_intros)
  have el: "well (genPlainElement rec anc el ch sc)"
    unfolding genPlainElement_def using ch data by (auto intro!: well_intros)
  show ?thesis unfolding genElement_def Element
    using stat onc lst if' ch slot comp el by (auto intro!: well_intros)
qed (auto simp: genElement_def intro: well_intros)

lemma gen_fuel_well: "gen_size c n \<le> k \<Longrightarrow> well (gen_fuel k c anc n)"
proof (induction k arbitrary: c anc n)
  case 0
  then show ?case by (cases c) (auto simp: gen_size_def)
next
  case (Suc k)
  have cov: "covers (gen_fuel k) k" using Suc.IH by (simp add: covers_def)
  show ?case
  proof (cases c)
    case GElement
    with Suc.prems have "2 * node_size n \<le> k" by (simp add: gen_size_def)
    with cov have "covers (gen_fuel k) (2 * node_size n)" by (rule covers_mono)
    with GElement show ?thesis by (simp add: well_genElement)
  next
    case GOnce
    show ?thesis
    proof (cases n)
      case (Element el ch ic sc)
      have "node_size (set_elem (\<lambda>e. e\<lparr>onceProcessed := True\<rparr>) (Element el ch ic sc)) \<le> node_size n"
        unfolding Element by (rule size_set_flag(6))
      with Suc.prems GOnce have "2 * node_size (set_elem (\<lambda>e. e\<lparr>onceProcessed := True\<rparr>) (Element el ch ic sc)) + 1 \<le> k"
        by (simp add: gen_size_def)
      from well_genOnce [OF cov this] show ?thesis using GOnce Element by simp
    qed (auto simp: GOnce intro: well_intros)
  qed
qed

text \<open>
  C18. \<open>generate\<close> terminates on every syntax tree: the recursion over processed flags never runs
  away. It returns render code, or throws the one error the code can raise, on a malformed
  inline template or scoped slot.
\<close>

theorem generate_terminates: "generate ast \<noteq> Inl OutOfFuel"
proof (cases ast)
  case None
  then show ?thesis by (simp add: generate_def)
next
  case (Some n)
  have "well (gen_fuel (gen_size GElement n) GElement [] n)"
    by (rule gen_fuel_well) simp
  then show ?thesis using Some
    by (auto simp: generate_def well_def dest: spec [of _ cstate0] split: sum.splits)
qed

text \<open>
  A hoisted static tree is referred to by its own index: generating a static root yields
  \<open>_m(i)\<close> where the \<open>i\<close>-th static render function is the one pushed for it, after everything
  hoisted before; what was hoisted earlier stays where it was, however deep static trees nest.
\<close>

theorem static_root_index:
  assumes "staticRoot el" "\<not> staticProcessed el" "gen_size GElement (Element el ch ic sc) \<le> k"
    and "gen_fuel k GElement anc (Element el ch ic sc) s = Inr (c, s')"
  shows "\<exists>i body. c = ''_m('' @ show_nat i @ (if staticInFor el then '',true'' else []) @ '')'' \<and>
           i < length (cs_static s') \<and> cs_static s' ! i = with_this body \<and>
           length (cs_static s) \<le> i \<and> prefix (cs_static s) (cs_static s')"
proof -
  obtain j where k: "k = Suc j" using assms(3) by (cases k) (auto simp: gen_size_def)
  let ?n = "Element el ch ic sc"
  let ?m = "set_elem (\<lambda>e. e\<lparr>staticProcessed := True\<rparr>) ?n"
  have g: "genStatic (gen_fuel j) anc el ?n s = Inr (c, s')"
    using assms(1,2,4) k by (simp add: genElement_def)
  have "gen_size GElement ?m \<le> j"
    using size_set_flag(1) [OF assms(2), of ch ic sc] assms(3) k by (simp add: gen_size_def)
  then have "well (gen_fuel j GElement anc ?m)" by (rule gen_fuel_well)
  moreover obtain b t where bt: "gen_fuel j GElement anc ?m s = Inr (b, t)"
      "cs_static s' = cs_static t @ [with_this b]"
      "c = ''_m('' @ show_nat (length (cs_static t)) @ (if staticInFor el then '',true'' else []) @ '')''"
    using g by (auto simp: genStatic_def gbind_def gpush_static_def gret_def split: sum.splits prod.splits)
  ultimately have "grows s t" by (auto simp: well_def dest: spec [of _ s])
  then have "prefix (cs_static s) (cs_static t)" by (simp add: grows_def)
  then show ?thesis
    using bt(2,3) prefix_length_le [of "cs_static s" "cs_static t"]
    by (intro exI [of _ "length (cs_static t)"] exI [of _ b]) auto
qed

lemma static_root_index_witness:
  "\<exists>i body. ''_m(0)'' = ''_m('' @ show_nat i @ '')'' \<and> body = ''_c('' @ [sq] @ ''p'' @ [sq] @ '',[_v('' @ [dq] @ ''hi'' @ [dq] @ '')])'' \<and> i = 0 \<and>
     [with_this body] ! i = with_this body"
proof -
  let ?el = "(fst (createASTElement ''p'' []))\<lparr>staticRoot := True, plain := True\<rparr>"
  let ?b = "''_c('' @ [sq] @ ''p'' @ [sq] @ '',[_v('' @ [dq] @ ''hi'' @ [dq] @ '')])''"
  have run: "gen_fuel 20 GElement [] (Element ?el [TextNode ''hi'' False] [] None) cstate0
      = Inr (''_m(0)'', \<lparr>cs_warns = [], cs_onceId = 0, cs_static = [with_this ?b]\<rparr>)"
    by code_simp
  have "gen_size GElement (Element ?el [TextNode ''hi'' False] [] None) \<le> 20"
      "staticRoot ?el" "\<not> staticProcessed ?el" "\<not> staticInFor ?el"
    by code_simp+
  from static_root_index [OF this(2,3,1) run] this(4) show ?thesis by auto
qed

section \<open>Normalisation of children\<close>

definition child_needs :: "(elem \<Rightarrow> bool) \<Rightarrow> node \<Rightarrow> bool" where
  "child_needs p n = (case n of Element el _ ic _ \<Rightarrow> p el \<or> block_some p ic | _ \<Rightarrow> False)"

lemma child_needs_simps [simp]:
  "child_needs p (Element el ch ic sc) = (p el \<or> block_some p ic)"
  "child_needs p (Expression e t) = False" "child_needs p (TextNode t b) = False"
  by (simp_all add: child_needs_def)

text \<open>
  \<open>getNormalizationType\<close> is 2 exactly when some child or one of its conditional blocks is a
  \<open>v-for\<close>, a template or a slot; otherwise 1 when some is possibly a component; otherwise 0. The
  loop's early exit loses nothing.
\<close>

theorem getNormalizationType_spec:
  "getNormalizationType children 0 =
     (if list_ex (child_needs needsNormalization) children then 2
      else if list_ex (child_needs maybeComponent) children then 1 else 0)"
proof -
  have "getNormalizationType children res =
     (if list_ex (child_needs needsNormalization) children then 2
      else if list_ex (child_needs maybeComponent) children then 1 else res)" for res
    by (induction children res rule: getNormalizationType.induct)
      (auto split: node.splits)
  then show ?thesis .
qed

end
