(* ===== verification/TextParse.thy ===== *)
theory TextParse
  imports CompilerUtil
begin

text \<open>
  The small parsers of the template compiler in \<open>frontend/js/vue.js\<close>, each a recogniser for the
  regular expression it uses: \<open>parseText\<close> (interpolations), \<open>parseFor\<close> (\<open>v-for\<close> expressions),
  \<open>parseModifiers\<close> and the stripping of directive names. The lemmas show the round trip of an
  interpolated text and the parts \<open>parseFor\<close> finds.
\<close>

section \<open>Interpolated text\<close>

text \<open>
  \<open>((?:.|\n)+?)\<close> up to the closing delimiter: the shortest nonempty content without a carriage
  return, and what follows the delimiter.
\<close>

fun lazy_to :: "string \<Rightarrow> string \<Rightarrow> (string \<times> string) option" where
  "lazy_to cl [] = None"
| "lazy_to cl (c # r) =
     (if code c = 13 then None
      else if starts_with cl r then Some ([c], drop (length cl) r)
      else map_option (\<lambda>(m, q). (c # m, q)) (lazy_to cl r))"

text \<open>A match of the tag expression at the start of \<open>s\<close>: the captured text and the rest.\<close>

definition tag_match :: "string \<Rightarrow> string \<Rightarrow> string \<Rightarrow> (string \<times> string) option" where
  "tag_match op cl s = (if op \<noteq> [] \<and> starts_with op s then lazy_to cl (drop (length op) s) else None)"

lemma lazy_to_shorter: "lazy_to cl s = Some (m, q) \<Longrightarrow> length q < length s"
proof (induction s arbitrary: m q)
  case Nil
  then show ?case by simp
next
  case (Cons c s)
  then show ?case by (fastforce split: if_splits)
qed

lemma tag_match_shorter: "tag_match op cl s = Some (m, q) \<Longrightarrow> length q < length s"
  using lazy_to_shorter [of cl "drop (length op) s" m q] by (auto simp: tag_match_def split: if_splits)

datatype token = TText string | TBinding string

definition text_token :: "string \<Rightarrow> token list" where
  "text_token lit = (if lit \<noteq> [] then [TText lit] else [])"

text \<open>The raw tokens; \<open>lit\<close> is the text since \<open>lastIndex\<close>.\<close>

function text_tokens :: "string \<Rightarrow> string \<Rightarrow> string \<Rightarrow> string \<Rightarrow> token list" where
  "text_tokens op cl lit s =
     (case tag_match op cl s of
        Some (m, q) \<Rightarrow> text_token lit @ TBinding (parseFilters (trim m)) # text_tokens op cl [] q
      | None \<Rightarrow> (case s of [] \<Rightarrow> text_token lit | c # r \<Rightarrow> text_tokens op cl (lit @ [c]) r))"
  by pat_completeness auto
termination
  by (relation "measure (\<lambda>(op, cl, lit, s). length s)") (auto dest: tag_match_shorter)

declare text_tokens.simps [simp del]

definition token_code :: "token \<Rightarrow> string" where
  "token_code t = (case t of TText s \<Rightarrow> json_quote s | TBinding e \<Rightarrow> ''_s('' @ e @ '')'')"

definition is_binding :: "token \<Rightarrow> bool" where
  "is_binding t = (case t of TBinding _ \<Rightarrow> True | _ \<Rightarrow> False)"

text \<open>\<open>None\<close> when the tag expression does not occur.\<close>

definition parseText :: "string \<Rightarrow> (string \<times> string) option \<Rightarrow> (string \<times> token list) option" where
  "parseText text delimiters =
     (let (op, cl) = (case delimiters of Some d \<Rightarrow> d | None \<Rightarrow> (''{{'', ''}}''));
          ts = text_tokens op cl [] text
      in if list_ex is_binding ts then Some (join ''+'' (map token_code ts), ts) else None)"

section \<open>v-for expressions\<close>

record for_result =
  fr_for :: string
  fr_alias :: string
  fr_iterator1 :: "string option"
  fr_iterator2 :: "string option"

text \<open>\<open>\s+(?:in|of)\s+([^]*)\<close> at the start of \<open>s\<close>: what follows.\<close>

definition in_or_of :: "string \<Rightarrow> string option" where
  "in_or_of s =
     (let r = dropWhile is_space s; r' = drop 2 r in
      if s \<noteq> [] \<and> is_space (hd s) \<and> (take 2 r = ''in'' \<or> take 2 r = ''of'') \<and> r' \<noteq> [] \<and> is_space (hd r')
      then Some (dropWhile is_space r') else None)"

text \<open>\<open>forAliasRE\<close>: the shortest first group\<close>

fun for_alias :: "string \<Rightarrow> (string \<times> string) option" where
  "for_alias [] = None"
| "for_alias (c # r) =
     (case in_or_of (c # r) of
        Some rest \<Rightarrow> Some ([], rest)
      | None \<Rightarrow> map_option (\<lambda>(g, rest). (c # g, rest)) (for_alias r))"

definition strip_parens :: "string \<Rightarrow> string" where
  "strip_parens s =
     (let s1 = (if s \<noteq> [] \<and> hd s = CHR ''('' then tl s else s)
      in if s1 \<noteq> [] \<and> last s1 = CHR '')'' then butlast s1 else s1)"

definition iter_char :: "char \<Rightarrow> bool" where
  "iter_char c \<longleftrightarrow> c \<noteq> CHR '','' \<and> c \<noteq> CHR ''}'' \<and> c \<noteq> CHR '']''"

text \<open>\<open>forIteratorRE\<close>: what precedes the match, and its two groups\<close>

fun for_iterator :: "string \<Rightarrow> (string \<times> string \<times> string option) option" where
  "for_iterator [] = None"
| "for_iterator (c # r) =
     (let a = takeWhile iter_char r; q = dropWhile iter_char r in
      if c = CHR '','' \<and> q = [] then Some ([], a, None)
      else if c = CHR '','' \<and> hd q = CHR '','' \<and> list_all iter_char (tl q) then Some ([], a, Some (tl q))
      else map_option (\<lambda>(p, g). (c # p, g)) (for_iterator r))"

definition parseFor :: "string \<Rightarrow> for_result option" where
  "parseFor exp =
     (case for_alias exp of
        None \<Rightarrow> None
      | Some (g1, g2) \<Rightarrow>
          (let al = strip_parens (trim g1) in
           case for_iterator al of
             Some (p, i1, i2) \<Rightarrow>
               Some \<lparr>fr_for = trim g2, fr_alias = p, fr_iterator1 = Some (trim i1),
                     fr_iterator2 = (if tru i2 then Some (trim (the i2)) else None)\<rparr>
           | None \<Rightarrow>
               Some \<lparr>fr_for = trim g2, fr_alias = al, fr_iterator1 = None, fr_iterator2 = None\<rparr>))"

section \<open>Directive names\<close>

definition dirRE :: "string \<Rightarrow> bool" where
  "dirRE name \<longleftrightarrow> starts_with ''v-'' name \<or> starts_with ''@'' name \<or> starts_with '':'' name"

definition bindRE :: "string \<Rightarrow> bool" where
  "bindRE name \<longleftrightarrow> starts_with '':'' name \<or> starts_with ''v-bind:'' name"

definition onRE :: "string \<Rightarrow> bool" where
  "onRE name \<longleftrightarrow> starts_with ''@'' name \<or> starts_with ''v-on:'' name"

definition strip_first :: "string list \<Rightarrow> string \<Rightarrow> string" where
  "strip_first ps name =
     (case List.find (\<lambda>p. starts_with p name) ps of Some p \<Rightarrow> drop (length p) name | None \<Rightarrow> name)"

text \<open>
  \<open>modifierRE\<close>, \<open>/\.[^.]+/g\<close>: the name without its matches, and the matches without their dots.
\<close>

function split_modifiers :: "string \<Rightarrow> string \<times> string list" where
  "split_modifiers s =
     (case s of
        [] \<Rightarrow> ([], [])
      | c # r \<Rightarrow>
          (let m = takeWhile (\<lambda>d. d \<noteq> CHR ''.'') r in
           if c = CHR ''.'' \<and> m \<noteq> [] then
             (let (k, ms) = split_modifiers (dropWhile (\<lambda>d. d \<noteq> CHR ''.'') r) in (k, m # ms))
           else (let (k, ms) = split_modifiers r in (c # k, ms))))"
  by pat_completeness auto
termination
  by (relation "measure length") (auto simp: le_imp_less_Suc length_dropWhile_le)

declare split_modifiers.simps [simp del]

definition parseModifiers :: "string \<Rightarrow> bool obj option" where
  "parseModifiers name =
     (case snd (split_modifiers name) of
        [] \<Rightarrow> None
      | ms \<Rightarrow> Some (foldl (\<lambda>ret m. obj_put m True ret) [] ms))"

text \<open>\<open>argRE\<close>, \<open>/:(.*)$/\<close>: the part after the first colon.\<close>

fun split_arg :: "string \<Rightarrow> (string \<times> string) option" where
  "split_arg [] = None"
| "split_arg (c # r) =
     (if c = CHR '':'' \<and> list_all (\<lambda>d. code d \<noteq> 10 \<and> code d \<noteq> 13) r then Some ([], r)
      else map_option (\<lambda>(n, a). (c # n, a)) (split_arg r))"

section \<open>The round trip of an interpolated text\<close>

text \<open>The pieces of a template text: literal text, or the inside of a pair of braces.\<close>

datatype piece = Lit string | Mustache string

definition piece_text :: "piece \<Rightarrow> string" where
  "piece_text p = (case p of Lit s \<Rightarrow> s | Mustache e \<Rightarrow> ''{{'' @ e @ ''}}'')"

definition piece_token :: "piece \<Rightarrow> token" where
  "piece_token p = (case p of Lit s \<Rightarrow> TText s | Mustache e \<Rightarrow> TBinding (parseFilters (trim e)))"

definition good_piece :: "piece \<Rightarrow> bool" where
  "good_piece p =
     (case p of
        Lit s \<Rightarrow> s \<noteq> [] \<and> CHR ''{'' \<notin> set s
      | Mustache e \<Rightarrow> e \<noteq> [] \<and> CHR ''}'' \<notin> set e \<and> list_all (\<lambda>c. code c \<noteq> 13) e)"

text \<open>No two literals meet.\<close>

lemma piece_simps [simp]:
  "piece_text (Lit s) = s" "piece_token (Lit s) = TText s"
  by (simp_all add: piece_text_def piece_token_def)

definition is_lit :: "piece \<Rightarrow> bool" where
  "is_lit p = (case p of Lit _ \<Rightarrow> True | _ \<Rightarrow> False)"

fun alternating :: "piece list \<Rightarrow> bool" where
  "alternating [] = True"
| "alternating (p # ps) = (\<not> (is_lit p \<and> ps \<noteq> [] \<and> is_lit (hd ps)) \<and> alternating ps)"

lemma lazy_to_plain:
  assumes "e \<noteq> []" "CHR ''}'' \<notin> set e" "list_all (\<lambda>c. code c \<noteq> 13) e"
  shows "lazy_to ''}}'' (e @ ''}}'' @ q) = Some (e, q)"
  using assms
proof (induction e)
  case Nil
  then show ?case by simp
next
  case (Cons c e)
  show ?case
  proof (cases "e = []")
    case True
    with Cons.prems show ?thesis by (simp add: starts_with_def)
  next
    case False
    then obtain d t where e: "e = d # t" by (cases e) auto
    with Cons.prems have "\<not> starts_with ''}}'' (e @ ''}}'' @ q)" by (auto simp: starts_with_def)
    with Cons False show ?thesis by simp
  qed
qed

lemma tag_match_mustache:
  "good_piece (Mustache e) \<Longrightarrow> tag_match ''{{'' ''}}'' (''{{'' @ e @ ''}}'' @ q) = Some (e, q)"
  using lazy_to_plain [of e q] by (simp add: tag_match_def good_piece_def starts_with_def)

lemma tag_match_other: "CHR ''{'' \<noteq> c \<Longrightarrow> tag_match ''{{'' cl (c # r) = None"
  by (auto simp: tag_match_def starts_with_def)

lemma text_tokens_skip:
  "CHR ''{'' \<notin> set s \<Longrightarrow> text_tokens ''{{'' ''}}'' lit (s @ r) = text_tokens ''{{'' ''}}'' (lit @ s) r"
proof (induction s arbitrary: lit)
  case Nil
  then show ?case by simp
next
  case (Cons c s)
  then have "text_tokens ''{{'' ''}}'' lit ((c # s) @ r) = text_tokens ''{{'' ''}}'' (lit @ [c]) (s @ r)"
    by (subst text_tokens.simps) (simp add: tag_match_other)
  with Cons show ?case by simp
qed

lemma text_tokens_end: "text_tokens ''{{'' ''}}'' lit [] = text_token lit"
  by (subst text_tokens.simps) (simp add: tag_match_def starts_with_def)

lemma text_tokens_mustache:
  "good_piece (Mustache e) \<Longrightarrow>
     text_tokens ''{{'' ''}}'' lit (piece_text (Mustache e) @ r) =
       text_token lit @ piece_token (Mustache e) # text_tokens ''{{'' ''}}'' [] r"
  using tag_match_mustache [of e r] by (subst text_tokens.simps) (simp add: piece_text_def piece_token_def)

lemma text_tokens_pieces:
  "\<forall>p\<in>set ps. good_piece p \<Longrightarrow> alternating ps \<Longrightarrow> lit = [] \<or> (\<forall>s qs. ps \<noteq> Lit s # qs) \<Longrightarrow>
     text_tokens ''{{'' ''}}'' lit (concat (map piece_text ps)) = text_token lit @ map piece_token ps"
proof (induction ps arbitrary: lit)
  case Nil
  then show ?case by (simp add: text_tokens_end)
next
  case (Cons p ps)
  show ?case
  proof (cases p)
    case (Mustache e)
    have alt: "alternating ps" using Cons.prems(2) by simp
    have "text_tokens ''{{'' ''}}'' [] (concat (map piece_text ps)) = text_token [] @ map piece_token ps"
      by (rule Cons.IH) (use Cons.prems(1) alt in auto)
    moreover have "good_piece (Mustache e)" using Cons.prems(1) Mustache by simp
    ultimately show ?thesis using Mustache by (simp add: text_tokens_mustache text_token_def)
  next
    case (Lit s)
    with Cons.prems have s: "lit = []" "s \<noteq> []" "CHR ''{'' \<notin> set s" by (auto simp: good_piece_def)
    have nolit: "\<forall>t qs. ps \<noteq> Lit t # qs"
      using Cons.prems(2) Lit by (auto simp: is_lit_def)
    have alt: "alternating ps" using Cons.prems(2) by simp
    have "text_tokens ''{{'' ''}}'' s (concat (map piece_text ps)) = text_token s @ map piece_token ps"
      by (rule Cons.IH) (use Cons.prems(1) alt nolit in auto)
    with s Lit show ?thesis
      by (simp add: text_tokens_skip text_token_def)
  qed
qed

text \<open>
  An interpolated text is cut exactly at its braces: the text of any alternation of literals and
  interpolations compiles to the sum, in order, of the quoted literals and of \<open>_s(...)\<close> around
  each interpolation with its filters applied; without an interpolation there is no result.
\<close>

theorem parseText_pieces:
  assumes "\<forall>p\<in>set ps. good_piece p" "alternating ps"
  shows "parseText (concat (map piece_text ps)) None =
     (if \<exists>e. Mustache e \<in> set ps
      then Some (join ''+'' (map (token_code \<circ> piece_token) ps), map piece_token ps) else None)"
proof -
  have t: "text_tokens ''{{'' ''}}'' [] (concat (map piece_text ps)) = map piece_token ps"
    using text_tokens_pieces [OF assms, of "[]"] by (simp add: text_token_def)
  have "is_binding (piece_token p) \<longleftrightarrow> (\<exists>e. p = Mustache e)" for p
    by (cases p) (auto simp: is_binding_def piece_token_def)
  then have "list_ex is_binding (map piece_token ps) \<longleftrightarrow> (\<exists>e. Mustache e \<in> set ps)"
    by (auto simp: list_ex_iff)
  then show ?thesis by (simp add: parseText_def t)
qed

lemma parseText_pieces_witness:
  "parseText ''Hi {{ name }}!'' None =
     Some (json_quote ''Hi '' @ ''+_s(name)+'' @ json_quote ''!'', [TText ''Hi '', TBinding ''name'', TText ''!''])"
proof -
  have "\<forall>p\<in>set [Lit ''Hi '', Mustache '' name '', Lit ''!'']. good_piece p"
      "alternating [Lit ''Hi '', Mustache '' name '', Lit ''!'']"
    by code_simp+
  from parseText_pieces [OF this]
  have "parseText ''Hi {{ name }}!'' None =
      Some (join ''+'' (map token_code (map piece_token [Lit ''Hi '', Mustache '' name '', Lit ''!''])),
            map piece_token [Lit ''Hi '', Mustache '' name '', Lit ''!''])"
    by (simp add: piece_text_def)
  moreover have "map piece_token [Lit ''Hi '', Mustache '' name '', Lit ''!'']
      = [TText ''Hi '', TBinding ''name'', TText ''!'']"
    by code_simp
  ultimately show ?thesis by (simp only:) (simp add: token_code_def)
qed

section \<open>The parts of a v-for expression\<close>

text \<open>A name: nothing in it that the grammar of \<open>v-for\<close> gives a meaning.\<close>

definition for_name :: "string \<Rightarrow> bool" where
  "for_name s \<longleftrightarrow> s \<noteq> [] \<and> list_all (\<lambda>c. \<not> is_space c \<and> iter_char c \<and> c \<noteq> CHR ''('' \<and> c \<noteq> CHR '')'') s"

lemma in_or_of_nonspace: "\<not> is_space c \<Longrightarrow> in_or_of (c # r) = None"
  by (simp add: in_or_of_def Let_def)

lemma for_alias_skip:
  "list_all (\<lambda>c. \<not> is_space c) s \<Longrightarrow>
     for_alias (s @ r) = map_option (\<lambda>(g, rest). (s @ g, rest)) (for_alias r)"
proof (induction s)
  case Nil
  then show ?case by (cases "for_alias r") auto
next
  case (Cons c s)
  then show ?case
    by (cases "for_alias r") (auto simp: in_or_of_nonspace)
qed

lemma sp [simp]: "is_space (CHR '' '')"
  by (simp add: is_space_def code_def)

lemma for_alias_in: "\<not> is_space (hd e) \<Longrightarrow> e \<noteq> [] \<Longrightarrow> for_alias ('' in '' @ e) = Some ([], e)"
  by (cases e) (simp_all add: in_or_of_def Let_def is_space_def code_def)

lemma for_iterator_none: "list_all iter_char s \<Longrightarrow> for_iterator s = None"
  by (induction s) (auto simp: Let_def iter_char_def)

lemma for_iterator_one:
  "list_all iter_char a \<Longrightarrow> list_all iter_char i \<Longrightarrow> for_iterator (a @ CHR '','' # i) = Some (a, i, None)"
proof (induction a)
  case Nil
  then have "takeWhile iter_char i = i" "dropWhile iter_char i = []"
    by (simp_all add: list_all_iff)
  then show ?case by simp
next
  case (Cons c a)
  then show ?case by (auto simp: Let_def iter_char_def)
qed

lemma in_or_of_name:
  assumes "for_name i"
  shows "in_or_of (CHR '' '' # i @ CHR '')'' # r) = None"
proof -
  obtain c t where i: "i = c # t" "\<not> is_space c" using assms by (cases i) (auto simp: for_name_def)
  have ns: "\<not> is_space (CHR '')'')" by (simp add: is_space_def code_def)
  let ?u = "i @ CHR '')'' # r"
  have d: "dropWhile is_space (CHR '' '' # ?u) = ?u" using i by simp
  have "drop 2 ?u = [] \<or> \<not> is_space (hd (drop 2 ?u)) \<or> (take 2 ?u \<noteq> ''in'' \<and> take 2 ?u \<noteq> ''of'')"
    using assms i ns by (cases t; cases "tl t") (auto simp: for_name_def)
  then show ?thesis unfolding in_or_of_def Let_def d by auto
qed

text \<open>
  \<open>parseFor\<close> of \<open>(item, index) in list\<close> finds the list expression, the alias and the index name
  without the parentheses, and of \<open>item in list\<close> the expression and the alias alone; a name that
  starts with \<open>in\<close> or \<open>of\<close> is not mistaken for the keyword.
\<close>

theorem parseFor_parts:
  assumes "for_name a" "for_name i" "e \<noteq> []" "\<not> is_space (hd e)" "\<not> is_space (last e)"
  shows "parseFor (''('' @ a @ '', '' @ i @ '') in '' @ e) =
           Some \<lparr>fr_for = e, fr_alias = a, fr_iterator1 = Some i, fr_iterator2 = None\<rparr> \<and>
         parseFor (a @ '' in '' @ e) =
           Some \<lparr>fr_for = e, fr_alias = a, fr_iterator1 = None, fr_iterator2 = None\<rparr>"
proof -
  have a: "a \<noteq> []" "list_all (\<lambda>c. \<not> is_space c) a" "list_all iter_char a"
      "hd a \<noteq> CHR ''(''" "last a \<noteq> CHR '')''" "\<not> is_space (hd a)" "\<not> is_space (last a)"
    using assms(1) by (auto simp: for_name_def list_all_iff)
  have i: "i \<noteq> []" "list_all (\<lambda>c. \<not> is_space c) i" "list_all iter_char i" "\<not> is_space (hd i)" "\<not> is_space (last i)"
    using assms(2) by (auto simp: for_name_def list_all_iff)
  have te: "trim e = e" "trim a = a" "trim i = i" using assms(4,5) a i by (auto intro: trim_id)
  have pc: "\<not> is_space (CHR ''('')" "\<not> is_space (CHR '')'')" "\<not> is_space (CHR '','')"
    by (simp_all add: is_space_def code_def)
  have "for_alias (a @ '' in '' @ e) = Some (a, e)"
    using for_alias_skip [OF a(2), of "'' in '' @ e"] for_alias_in [OF assms(4,3)] by simp
  moreover have "strip_parens a = a" using a by (simp add: strip_parens_def Let_def)
  ultimately have two: "parseFor (a @ '' in '' @ e) =
      Some \<lparr>fr_for = e, fr_alias = a, fr_iterator1 = None, fr_iterator2 = None\<rparr>"
    using te a(3) by (simp add: parseFor_def Let_def for_iterator_none)
  let ?g = "''('' @ a @ '', '' @ i @ '')''"
  have "for_alias (('' '' @ i @ '')'') @ '' in '' @ e)
      = map_option (\<lambda>(g, rest). (CHR '' '' # g, rest)) (for_alias ((i @ '')'') @ '' in '' @ e))"
    using in_or_of_name [OF assms(2), of "'' in '' @ e"] by simp
  also have "for_alias ((i @ '')'') @ '' in '' @ e) = Some (i @ '')'', e)"
    using for_alias_skip [of "i @ '')''" "'' in '' @ e"] i(2) pc for_alias_in [OF assms(4,3)] by simp
  finally have tail: "for_alias ('' '' @ i @ '')'' @ '' in '' @ e) = Some ('' '' @ i @ '')'', e)" by simp
  have "for_alias ((''('' @ a @ '','') @ '' '' @ i @ '')'' @ '' in '' @ e) = Some (?g, e)"
    using for_alias_skip [of "''('' @ a @ '',''" "'' '' @ i @ '')'' @ '' in '' @ e"] a(2) pc tail by simp
  then have fa: "for_alias (''('' @ a @ '', '' @ i @ '') in '' @ e) = Some (?g, e)" by simp
  have "trim ?g = ?g" using pc by (intro trim_id) simp
  moreover have "strip_parens ?g = a @ CHR '','' # CHR '' '' # i"
    by (simp add: strip_parens_def Let_def butlast_append)
  moreover have "for_iterator (a @ CHR '','' # CHR '' '' # i) = Some (a, CHR '' '' # i, None)"
    using for_iterator_one [OF a(3), of "CHR '' '' # i"] i(3) by (simp add: iter_char_def)
  moreover have "trim (CHR '' '' # i) = i"
    using te(3) by (simp add: trim_def trim_start_def)
  ultimately have "parseFor (''('' @ a @ '', '' @ i @ '') in '' @ e) =
      Some \<lparr>fr_for = e, fr_alias = a, fr_iterator1 = Some i, fr_iterator2 = None\<rparr>"
    using fa te(1) by (simp add: parseFor_def Let_def)
  with two show ?thesis by simp
qed

lemma parseFor_parts_witness:
  "parseFor ''(order, index) in list.rows'' =
     Some \<lparr>fr_for = ''list.rows'', fr_alias = ''order'', fr_iterator1 = Some ''index'', fr_iterator2 = None\<rparr>"
proof -
  have "for_name ''order''" "for_name ''index''" "''list.rows'' \<noteq> ([] :: char list)"
      "\<not> is_space (hd ''list.rows'')" "\<not> is_space (last ''list.rows'')"
    by code_simp+
  from parseFor_parts [OF this] show ?thesis by simp
qed

end
