(* ===== verification/ElementParse.thy ===== *)
theory ElementParse
  imports TextParse WebStyle
begin

text \<open>
  What the template parser of \<open>frontend/js/vue.js\<close> does to one element: \<open>processPre\<close> to
  \<open>processAttrs\<close>, the class and style transforms, the pre-transform that expands an \<open>input\<close> with
  \<open>v-model\<close> and a dynamic type, and the tests on tags. A step takes an element and returns it
  changed, with its warnings. The ancestors of the element, innermost first, stand for its
  \<open>parent\<close> links. The lemmas show that no attribute gets lost: what each one becomes.
\<close>

type_synonym step = "elem \<Rightarrow> elem \<times> warns"

definition seq :: "step \<Rightarrow> step \<Rightarrow> step" where
  "seq f g el = (let (e1, w1) = f el; (e2, w2) = g e1 in (e2, w1 @ w2))"

definition put_if :: "bool \<Rightarrow> (elem \<Rightarrow> elem) \<Rightarrow> elem \<Rightarrow> elem" where
  "put_if c f el = (if c then f el else el)"

section \<open>Structural attributes\<close>

definition processPre :: "elem \<Rightarrow> elem" where
  "processPre el =
     (let (v, el1) = getAndRemoveAttr el ''v-pre'' False in put_if (v \<noteq> None) (\<lambda>e. e\<lparr>el_pre := True\<rparr>) el1)"

definition processRawAttrs :: "elem \<Rightarrow> elem" where
  "processRawAttrs el =
     (if attrsList el \<noteq> [] then
        el\<lparr>attrs := Some (map (\<lambda>(n, v). (n, json_quote v)) (attrsList el))\<rparr>
      else if \<not> el_pre el then el\<lparr>plain := True\<rparr>
      else el)"

definition processKey :: step where
  "processKey el =
     (let (exp, el1) = getBindingAttr el ''key'' True in
      if tru exp then
        (el1\<lparr>el_key := exp\<rparr>,
         if tag el1 = ''template''
         then err ''<template> cannot be keyed. Place the key on real elements instead.'' else [])
      else (el1, []))"

definition checkInFor :: "elem list \<Rightarrow> elem \<Rightarrow> bool" where
  "checkInFor anc el \<longleftrightarrow> list_ex (\<lambda>p. el_for p \<noteq> None) (el # anc)"

definition processRef :: "elem list \<Rightarrow> elem \<Rightarrow> elem" where
  "processRef anc el =
     (let (r, el1) = getBindingAttr el ''ref'' True in
      if tru r then el1\<lparr>el_ref := r, refInFor := checkInFor anc el1\<rparr> else el1)"

definition extend_for :: "for_result \<Rightarrow> elem \<Rightarrow> elem" where
  "extend_for res el =
     el\<lparr>el_for := Some (fr_for res), el_alias := Some (fr_alias res),
        iterator1 := (case fr_iterator1 res of Some i \<Rightarrow> Some i | None \<Rightarrow> iterator1 el),
        iterator2 := (case fr_iterator2 res of Some i \<Rightarrow> Some i | None \<Rightarrow> iterator2 el)\<rparr>"

definition processFor :: step where
  "processFor el =
     (let (exp, el1) = getAndRemoveAttr el ''v-for'' False in
      if tru exp then
        (case parseFor (the exp) of
           Some res \<Rightarrow> (extend_for res el1, [])
         | None \<Rightarrow> (el1, err (''Invalid v-for expression: '' @ the exp)))
      else (el1, []))"

text \<open>
  The condition \<open>{exp: exp, block: el}\<close> a \<open>v-if\<close> adds first is the element itself: see the type
  of \<open>node\<close>.
\<close>

definition processIf :: "elem \<Rightarrow> elem" where
  "processIf el =
     (let (exp, el1) = getAndRemoveAttr el ''v-if'' False in
      if tru exp then el1\<lparr>el_if := exp\<rparr>
      else
        let (els, el2) = getAndRemoveAttr el1 ''v-else'' False;
            el3 = put_if (els \<noteq> None) (\<lambda>e. e\<lparr>el_else := True\<rparr>) el2;
            (elseif, el4) = getAndRemoveAttr el3 ''v-else-if'' False
        in put_if (tru elseif) (\<lambda>e. e\<lparr>el_elseif := elseif\<rparr>) el4)"

definition processOnce :: "elem \<Rightarrow> elem" where
  "processOnce el =
     (let (o1, el1) = getAndRemoveAttr el ''v-once'' False in put_if (o1 \<noteq> None) (\<lambda>e. e\<lparr>el_once := True\<rparr>) el1)"

text \<open>
  \<open>findPrevElement\<close> pops the text after the last element, warning about what is not a blank; the
  siblings that stay end with that element. \<open>node_text\<close> is the \<open>text\<close> of a text node.
\<close>

definition node_text :: "node \<Rightarrow> string" where
  "node_text n = (case n of TextNode t _ \<Rightarrow> t | Expression _ t \<Rightarrow> t | Element _ _ _ _ \<Rightarrow> [])"

definition is_element :: "node \<Rightarrow> bool" where
  "is_element n = (case n of Element _ _ _ _ \<Rightarrow> True | _ \<Rightarrow> False)"

fun findPrev_rev :: "node list \<Rightarrow> node list \<times> warns" where
  "findPrev_rev [] = ([], [])"
| "findPrev_rev (n # rest) =
     (if is_element n then (n # rest, [])
      else
        let (r, w) = findPrev_rev rest;
            w0 = (if node_text n \<noteq> '' '' then
                    err (''text '' @ [dq] @ trim (node_text n) @ [dq] @
                         '' between v-if and v-else(-if) will be ignored.'') else [])
        in (r, w0 @ w))"

definition findPrevElement :: "node list \<Rightarrow> node list \<times> warns" where
  "findPrevElement children = (let (r, w) = findPrev_rev (rev children) in (rev r, w))"

definition addIfCondition :: "node \<Rightarrow> string option \<times> node \<Rightarrow> node" where
  "addIfCondition n c = (case n of Element el ch ic sc \<Rightarrow> Element el ch (ic @ [c]) sc | _ \<Rightarrow> n)"

text \<open>The children of the parent after \<open>processIfConditions\<close> on the block \<open>n\<close>.\<close>

definition processIfConditions :: "elem \<Rightarrow> node \<Rightarrow> node list \<Rightarrow> node list \<times> warns" where
  "processIfConditions el n children =
     (let (cs, w) = findPrevElement children in
      if cs \<noteq> [] \<and> (case last cs of Element p _ _ _ \<Rightarrow> tru (el_if p) | _ \<Rightarrow> False) then
        (butlast cs @ [addIfCondition (last cs) (el_elseif el, n)], w)
      else
        (cs, w @ err (''v-'' @ (if tru (el_elseif el) then ''else-if='' @ [dq] @ the (el_elseif el) @ [dq] else ''else'') @ '' '' @
                      ''used on element <'' @ tag el @ ''> without corresponding v-if.'')))"

definition processSlot :: step where
  "processSlot el =
     (if tag el = ''slot'' then
        (let (n, el1) = getBindingAttr el ''name'' True in
         (el1\<lparr>slotName := n\<rparr>,
          if tru (el_key el1) then
            err (''`key` does not work on <slot> because slots are abstract outlets '' @
                 ''and can possibly expand into multiple elements. '' @
                 ''Use the key on a wrapping element instead.'')
          else []))
      else
        let (el1, w1) =
              (if tag el = ''template'' then
                 (let (sc, e1) = getAndRemoveAttr el ''scope'' False in
                  if tru sc then
                    (e1\<lparr>slotScope := sc, scopeKey := True\<rparr>,
                     tip (''the '' @ [dq] @ ''scope'' @ [dq] @ '' attribute for scoped slots have been deprecated and '' @
                          ''replaced by '' @ [dq] @ ''slot-scope'' @ [dq] @ '' since 2.5. The new '' @ [dq] @ ''slot-scope'' @ [dq] @ '' attribute '' @
                          ''can also be used on plain elements in addition to <template> to '' @
                          ''denote scoped slots.''))
                  else
                    (let (ss, e2) = getAndRemoveAttr e1 ''slot-scope'' False in (e2\<lparr>slotScope := ss, scopeKey := True\<rparr>, [])))
               else
                 (let (ss, e1) = getAndRemoveAttr el ''slot-scope'' False in
                  if tru ss then
                    (e1\<lparr>slotScope := ss, scopeKey := True\<rparr>,
                     if tru (map_of (attrsMap e1) ''v-for'') then
                       tip (''Ambiguous combined usage of slot-scope and v-for on <'' @ tag e1 @ ''> '' @
                            ''(v-for takes higher priority). Use a wrapper <template> for the '' @
                            ''scoped slot to make it clearer.'')
                     else [])
                  else (e1, [])));
            (target, el2) = getBindingAttr el1 ''slot'' True
        in if tru target then
             (let t = (if the target = [dq, dq] then [dq] @ ''default'' @ [dq] else the target);
                  el3 = el2\<lparr>slotTarget := Some t\<rparr>
              in (if tag el3 \<noteq> ''template'' \<and> \<not> tru (slotScope el3) then addAttr el3 ''slot'' (the target) else el3, w1))
           else (el2, w1))"

definition processComponent :: "elem \<Rightarrow> elem" where
  "processComponent el =
     (let (binding, el1) = getBindingAttr el ''is'' True;
          el2 = put_if (tru binding) (\<lambda>e. e\<lparr>component := binding\<rparr>) el1;
          (it, el3) = getAndRemoveAttr el2 ''inline-template'' False
      in put_if (it \<noteq> None) (\<lambda>e. e\<lparr>inlineTemplate := True\<rparr>) el3)"

section \<open>Class and style transforms\<close>

definition interpolation_warning :: "string \<Rightarrow> string \<Rightarrow> string \<Rightarrow> warns" where
  "interpolation_warning name value example =
     err (name @ ''='' @ [dq] @ value @ [dq] @ '': '' @
          ''Interpolation inside attributes has been removed. '' @
          ''Use v-bind or the colon shorthand instead. For example, '' @
          ''instead of <div '' @ example @ ''='' @ [dq] @ ''{{ val }}'' @ [dq] @ ''>, use <div :'' @ example @ ''='' @ [dq] @ ''val'' @ [dq] @ ''>.'')"

definition transformNode :: "(string \<times> string) option \<Rightarrow> step" where
  "transformNode delimiters el =
     (let (sc, el1) = getAndRemoveAttr el ''class'' False;
          w = (if tru sc \<and> parseText (the sc) delimiters \<noteq> None
               then interpolation_warning ''class'' (the sc) ''class'' else []);
          el2 = put_if (tru sc) (\<lambda>e. e\<lparr>staticClass := Some (json_quote (the sc))\<rparr>) el1;
          (cb, el3) = getBindingAttr el2 ''class'' False
      in (put_if (tru cb) (\<lambda>e. e\<lparr>classBinding := cb\<rparr>) el3, w))"

definition json_style :: "string obj \<Rightarrow> string" where
  "json_style st = ''{'' @ join '','' (map (\<lambda>(k, v). json_quote k @ '':'' @ json_quote v) st) @ ''}''"

definition transformNode_style :: "(string \<times> string) option \<Rightarrow> step" where
  "transformNode_style delimiters el =
     (let (ss, el1) = getAndRemoveAttr el ''style'' False;
          w = (if tru ss \<and> parseText (the ss) delimiters \<noteq> None
               then interpolation_warning ''style'' (the ss) ''style'' else []);
          el2 = put_if (tru ss) (\<lambda>e. e\<lparr>staticStyle := Some (json_style (parseStyleText (the ss)))\<rparr>) el1;
          (sb, el3) = getBindingAttr el2 ''style'' False
      in (put_if (tru sb) (\<lambda>e. e\<lparr>styleBinding := sb\<rparr>) el3, w))"

section \<open>The remaining attributes\<close>

definition checkForAliasModel :: "elem list \<Rightarrow> elem \<Rightarrow> string \<Rightarrow> warns" where
  "checkForAliasModel anc el value =
     concat (map (\<lambda>p. if tru (el_for p) \<and> el_alias p = Some value then
        err (''<'' @ tag el @ '' v-model='' @ [dq] @ value @ [dq] @ ''>: '' @
             ''You are binding v-model directly to a v-for iteration alias. '' @
             ''This will not be able to modify the v-for source array because '' @
             ''writing to the alias is like modifying a function local variable. '' @
             ''Consider using an array of objects and use v-model on an object property instead.'')
        else []) (el # anc))"

definition uses_prop :: "elem \<Rightarrow> string \<Rightarrow> bool" where
  "uses_prop el name \<longleftrightarrow> \<not> tru (component el) \<and> mustUseProp (tag el) (map_of (attrsMap el) ''type'') name"

text \<open>\<open>v-bind\<close>: the name after the prefix and its modifiers, the value with its filters.\<close>

definition bindAttr :: "string \<Rightarrow> string \<Rightarrow> bool obj option \<Rightarrow> elem \<Rightarrow> elem" where
  "bindAttr name0 value0 modifiers el =
     (let ms = (case modifiers of Some m \<Rightarrow> m | None \<Rightarrow> []);
          value = parseFilters value0;
          isProp = has_mod ms ''prop'';
          n1 = (if isProp then (let n = camelize name0 in if n = ''innerHtml'' then ''innerHTML'' else n) else name0);
          n2 = (if has_mod ms ''camel'' then camelize n1 else n1);
          el1 = (if has_mod ms ''sync''
                 then fst (addHandler el (''update:'' @ camelize n2) (genAssignmentCode value ''$event'') None False False)
                 else el)
      in if isProp \<or> uses_prop el1 n2 then addProp el1 n2 value else addAttr el1 n2 value)"

definition directiveAttr :: "elem list \<Rightarrow> string \<Rightarrow> string \<Rightarrow> string \<Rightarrow> bool obj option \<Rightarrow> step" where
  "directiveAttr anc rawName name0 value modifiers el =
     (let (name, arg) = (case split_arg name0 of
                           Some (n, a) \<Rightarrow> if a \<noteq> [] then (n, Some a) else (name0, Some a)
                         | None \<Rightarrow> (name0, None));
          el1 = addDirective el name rawName value arg modifiers
      in (el1, if name = ''model'' then checkForAliasModel anc el1 value else []))"

definition literalAttr :: "(string \<times> string) option \<Rightarrow> string \<Rightarrow> string \<Rightarrow> step" where
  "literalAttr delimiters name value el =
     (let w = (if parseText value delimiters \<noteq> None then interpolation_warning name value ''id'' else []);
          el1 = addAttr el name (json_quote value)
      in (if name = ''muted'' \<and> uses_prop el1 name then addProp el1 name ''true'' else el1, w))"

definition processAttr :: "(string \<times> string) option \<Rightarrow> elem list \<Rightarrow> string \<times> string \<Rightarrow> step" where
  "processAttr delimiters anc attr el =
     (case attr of (rawName, value) \<Rightarrow>
        if dirRE rawName then
          (let el1 = el\<lparr>hasBindings := True\<rparr>;
               modifiers = parseModifiers rawName;
               name = (if modifiers \<noteq> None then fst (split_modifiers rawName) else rawName)
           in if bindRE name then (bindAttr (strip_first ['':'', ''v-bind:''] name) value modifiers el1, [])
              else if onRE name then
                addHandler el1 (strip_first [''@'', ''v-on:''] name) value modifiers False True
              else directiveAttr anc rawName (strip_first [''v-'', ''@'', '':''] name) value modifiers el1)
        else literalAttr delimiters rawName value el)"

fun processAttr_list :: "(string \<times> string) option \<Rightarrow> elem list \<Rightarrow> (string \<times> string) list \<Rightarrow> step" where
  "processAttr_list delimiters anc [] el = (el, [])"
| "processAttr_list delimiters anc (a # as) el =
     seq (processAttr delimiters anc a) (processAttr_list delimiters anc as) el"

definition processAttrs :: "(string \<times> string) option \<Rightarrow> elem list \<Rightarrow> step" where
  "processAttrs delimiters anc el = processAttr_list delimiters anc (attrsList el) el"

definition processElement :: "(string \<times> string) option \<Rightarrow> elem list \<Rightarrow> step" where
  "processElement delimiters anc =
     seq processKey
       (\<lambda>el0.
          let el = el0\<lparr>plain := (\<not> tru (el_key el0) \<and> attrsList el0 = [])\<rparr> in
          seq (\<lambda>e. processSlot (processRef anc e))
            (\<lambda>e. seq (transformNode delimiters)
               (seq (transformNode_style delimiters) (processAttrs delimiters anc)) (processComponent e)) el)"

section \<open>Tags and the namespace bug of old browsers\<close>

definition isTextTag :: "elem \<Rightarrow> bool" where
  "isTextTag el \<longleftrightarrow> tag el = ''script'' \<or> tag el = ''style''"

definition isForbiddenTag :: "elem \<Rightarrow> bool" where
  "isForbiddenTag el \<longleftrightarrow>
     tag el = ''style'' \<or>
     (tag el = ''script'' \<and>
      (\<not> tru (map_of (attrsMap el) ''type'') \<or> map_of (attrsMap el) ''type'' = Some ''text/javascript''))"

definition ieNSBug :: "string \<Rightarrow> bool" where
  "ieNSBug name \<longleftrightarrow> starts_with ''xmlns:NS'' name \<and> (case drop 8 name of c # _ \<Rightarrow> is_digit c | [] \<Rightarrow> False)"

definition strip_ieNS :: "string \<Rightarrow> string" where
  "strip_ieNS name =
     (let r = drop 2 name; q = dropWhile is_digit r in
      if starts_with ''NS'' name \<and> takeWhile is_digit r \<noteq> [] \<and> q \<noteq> [] \<and> hd q = CHR '':'' then tl q else name)"

definition guardIESVGBug :: "(string \<times> string) list \<Rightarrow> (string \<times> string) list" where
  "guardIESVGBug as =
     map (\<lambda>(n, v). (strip_ieNS n, v)) (filter (\<lambda>(n, v). \<not> ieNSBug n) as)"

section \<open>Dynamic input types\<close>

definition cloneASTElement :: "elem \<Rightarrow> elem \<times> warns" where
  "cloneASTElement el = createASTElement (tag el) (attrsList el)"

definition input_branch ::
    "(string \<times> string) option \<Rightarrow> elem list \<Rightarrow> elem \<Rightarrow> step \<Rightarrow> string \<Rightarrow> string \<Rightarrow> elem \<times> warns" where
  "input_branch delimiters anc el on_for name value =
     (let (b, w) = cloneASTElement el;
          (b', w') = seq (seq on_for (\<lambda>e. (addRawAttr e name value, []))) (processElement delimiters anc) b
      in (b', w @ w'))"

definition drop_for :: step where
  "drop_for el = (snd (getAndRemoveAttr el ''v-for'' True), [])"

text \<open>The type binding, and the element without it on its list.\<close>

definition dynamic_type :: "elem \<Rightarrow> string option \<times> elem" where
  "dynamic_type el =
     (let m = attrsMap el;
          (tb, el1) = (if tru (map_of m '':type'') \<or> tru (map_of m ''v-bind:type'')
                       then getBindingAttr el ''type'' True else (None, el))
      in (if \<not> tru (map_of m ''type'') \<and> \<not> tru tb \<and> tru (map_of m ''v-bind'')
          then Some (''('' @ the (map_of m ''v-bind'') @ '').type'') else tb, el1))"

definition type_test :: "string \<Rightarrow> string \<Rightarrow> string option \<Rightarrow> string" where
  "type_test t kind ifCondition =
     ''('' @ t @ '')==='' @ [sq] @ kind @ [sq] @
     (if tru ifCondition then ''&&('' @ the ifCondition @ '')'' else [])"

text \<open>
  The result is \<open>branch0\<close> with its two further conditions; \<open>None\<close> when the element stays as it
  is (then only its \<open>:type\<close> binding may have been taken off its list).
\<close>

definition expand_input ::
    "(string \<times> string) option \<Rightarrow> elem list \<Rightarrow> elem \<Rightarrow> string \<Rightarrow>
       (elem \<times> (string option \<times> node) list) option \<times> elem \<times> warns" where
  "expand_input delimiters anc el1 t =
     (let (ifCondition, el2) = getAndRemoveAttr el1 ''v-if'' True;
          (els, el3) = getAndRemoveAttr el2 ''v-else'' True;
          (elseIfCondition, el4) = getAndRemoveAttr el3 ''v-else-if'' True;
          (b0, w0) = input_branch delimiters anc el4 processFor ''type'' ''checkbox'';
          branch0 = b0\<lparr>processed := True, el_if := Some (type_test t ''checkbox'' ifCondition)\<rparr>;
          (branch1, w1) = input_branch delimiters anc el4 drop_for ''type'' ''radio'';
          (branch2, w2) = input_branch delimiters anc el4 drop_for '':type'' t;
          conds = [(Some (type_test t ''radio'' ifCondition), Element branch1 [] [] None),
                   (ifCondition, Element branch2 [] [] None)];
          final = (if els \<noteq> None then branch0\<lparr>el_else := True\<rparr>
                   else if tru elseIfCondition then branch0\<lparr>el_elseif := elseIfCondition\<rparr>
                   else branch0)
      in (Some (final, conds), el4, w0 @ w1 @ w2))"

definition preTransformNode ::
    "(string \<times> string) option \<Rightarrow> elem list \<Rightarrow> elem \<Rightarrow>
       (elem \<times> (string option \<times> node) list) option \<times> elem \<times> warns" where
  "preTransformNode delimiters anc el =
     (if tag el \<noteq> ''input'' \<or> \<not> tru (map_of (attrsMap el) ''v-model'') then (None, el, [])
      else
        let (typeBinding, el1) = dynamic_type el
        in if \<not> tru typeBinding then (None, el1, [])
           else expand_input delimiters anc el1 (the typeBinding))"

section \<open>What stays of an element\<close>

text \<open>The steps on one element leave its tag, its attribute map and the forbidden flag alone.\<close>

definition same_source :: "elem \<Rightarrow> elem \<Rightarrow> bool" where
  "same_source el el' \<longleftrightarrow> tag el' = tag el \<and> attrsMap el' = attrsMap el \<and> forbidden el' = forbidden el"

named_theorems source_intros \<open>steps that keep the tag and the attribute map\<close>

lemma same_source_refl [simp, intro]: "same_source el el"
  by (simp add: same_source_def)

lemma same_source_trans: "same_source a b \<Longrightarrow> same_source b c \<Longrightarrow> same_source a c"
  by (simp add: same_source_def)

lemma source_remove: "same_source el (snd (getAndRemoveAttr el n False))"
  by (simp add: same_source_def getAndRemoveAttr_def Let_def)

lemma source_binding: "same_source el (snd (getBindingAttr el n b))"
  using source_remove [of el "'':'' @ n"]
    source_remove [of "snd (getAndRemoveAttr el ('':'' @ n) False)" "''v-bind:'' @ n"]
    source_remove [of _ n]
  by (auto simp: getBindingAttr_def Let_def case_prod_beta split: option.splits
      intro: same_source_trans simp: same_source_def)

lemma source_addProp: "same_source el (addProp el n v)"
  by (simp add: same_source_def addProp_def)

lemma source_addAttr: "same_source el (addAttr el n v)"
  by (simp add: same_source_def addAttr_def)

lemma source_addDirective: "same_source el (addDirective el n r v a m)"
  by (simp add: same_source_def addDirective_def Let_def)

lemma source_addHandler: "same_source el (fst (addHandler el n v m i w))"
  by (simp add: same_source_def addHandler_def Let_def case_prod_beta)

lemma fold_source:
  "tag (snd (getAndRemoveAttr el n False)) = tag el" "attrsMap (snd (getAndRemoveAttr el n False)) = attrsMap el" "forbidden (snd (getAndRemoveAttr el n False)) = forbidden el"
  "tag (snd (getBindingAttr el n b)) = tag el" "attrsMap (snd (getBindingAttr el n b)) = attrsMap el" "forbidden (snd (getBindingAttr el n b)) = forbidden el"
  "tag (addProp el n v) = tag el" "attrsMap (addProp el n v) = attrsMap el" "forbidden (addProp el n v) = forbidden el"
  "tag (addAttr el n v) = tag el" "attrsMap (addAttr el n v) = attrsMap el" "forbidden (addAttr el n v) = forbidden el"
  "tag (addDirective el n r v a ms) = tag el" "attrsMap (addDirective el n r v a ms) = attrsMap el" "forbidden (addDirective el n r v a ms) = forbidden el"
  "tag (fst (addHandler el n v ms i w)) = tag el" "attrsMap (fst (addHandler el n v ms i w)) = attrsMap el" "forbidden (fst (addHandler el n v ms i w)) = forbidden el"
  using source_remove [of el n] source_binding [of el n b] source_addProp [of el n v] source_addAttr [of el n v]
    source_addDirective [of el n r v a ms] source_addHandler [of el n v ms i w]
  by (auto simp: same_source_def)

lemmas keep_simps = same_source_def put_if_def Let_def case_prod_beta fold_source

lemma source_seq: "(\<And>e. same_source e (fst (f e))) \<Longrightarrow> (\<And>e. same_source e (fst (g e))) \<Longrightarrow> same_source el (fst (seq f g el))"
  by (auto simp: seq_def case_prod_beta Let_def intro: same_source_trans)

lemma source_processFor: "same_source el (fst (processFor el))"
  by (auto simp: processFor_def keep_simps extend_for_def split: option.splits)

lemma source_processKey: "same_source el (fst (processKey el))"
  by (simp add: processKey_def keep_simps)

lemma source_processRef: "same_source el (processRef anc el)"
  by (simp add: processRef_def keep_simps)

lemma source_processSlot: "same_source el (fst (processSlot el))"
  by (simp add: processSlot_def keep_simps)

lemma source_processComponent: "same_source el (processComponent el)"
  by (simp add: processComponent_def keep_simps)

lemma source_transform:
  "same_source el (fst (transformNode d el))" "same_source el (fst (transformNode_style d el))"
  by (simp_all add: transformNode_def transformNode_style_def keep_simps)

lemma source_bindAttr: "same_source el (bindAttr n v ms el)"
  by (simp add: bindAttr_def keep_simps)

lemma source_processAttr: "same_source el (fst (processAttr d anc a el))"
proof (cases a)
  case (Pair n v)
  have b: "same_source el (bindAttr n' v ms (el\<lparr>hasBindings := True\<rparr>))" for n' ms
    using source_bindAttr [of "el\<lparr>hasBindings := True\<rparr>" n' v ms] by (simp add: same_source_def)
  then show ?thesis
    by (simp add: processAttr_def Pair directiveAttr_def literalAttr_def keep_simps split: option.split)
qed

lemma source_processAttr_list: "same_source el (fst (processAttr_list d anc as el))"
proof (induction as arbitrary: el)
  case Nil
  then show ?case by simp
next
  case (Cons a as)
  then show ?case by (simp only: processAttr_list.simps) (rule source_seq, rule source_processAttr, rule Cons)
qed

lemma source_processElement: "same_source el (fst (processElement d anc el))"
proof -
  define f where "f = seq (\<lambda>e. processSlot (processRef anc e))
    (\<lambda>e. seq (transformNode d) (seq (transformNode_style d) (processAttrs d anc)) (processComponent e))"
  have attrs': "same_source e (fst (processAttrs d anc e))" for e
    by (simp add: processAttrs_def source_processAttr_list)
  have tail: "same_source e (fst (seq (transformNode d)
      (seq (transformNode_style d) (processAttrs d anc)) (processComponent e)))" for e
  proof (rule same_source_trans [OF source_processComponent])
    show "same_source (processComponent e)
        (fst (seq (transformNode d) (seq (transformNode_style d) (processAttrs d anc)) (processComponent e)))"
      by (rule source_seq, rule source_transform(1), rule source_seq, rule source_transform(2), rule attrs')
  qed
  have slot: "same_source e (fst (processSlot (processRef anc e)))" for e
    by (rule same_source_trans [OF source_processRef source_processSlot])
  have f: "same_source e (fst (f e))" for e
    unfolding f_def by (rule source_seq) (rule slot, rule tail)
  have pl: "same_source e (fst (f (e\<lparr>plain := b\<rparr>)))" for e b
    using f [of "e\<lparr>plain := b\<rparr>"] by (simp add: same_source_def)
  have "processElement d anc el =
      seq processKey (\<lambda>e. f (e\<lparr>plain := (\<not> tru (el_key e) \<and> attrsList e = [])\<rparr>)) el"
    unfolding processElement_def Let_def f_def by (rule refl)
  then show ?thesis
    by (simp only:) (rule source_seq, rule source_processKey, rule pl)
qed

lemma source_clone:
  "tag (fst (cloneASTElement el)) = tag el"
  by (simp add: cloneASTElement_def createASTElement_def case_prod_beta)

lemma input_branch_type:
  assumes "\<And>e. tag (fst (on_for e)) = tag e"
  shows "map_of (attrsMap (fst (input_branch d anc el on_for name value))) name = Some value"
    and "tag (fst (input_branch d anc el on_for name value)) = tag el"
proof -
  define b where "b = addRawAttr (fst (on_for (fst (cloneASTElement el)))) name value"
  have e: "fst (input_branch d anc el on_for name value) = fst (processElement d anc b)"
    by (simp add: input_branch_def seq_def case_prod_beta Let_def b_def)
  have "attrsMap b = obj_put name value (attrsMap (fst (on_for (fst (cloneASTElement el)))))"
    by (simp add: b_def addRawAttr_def)
  then have bm: "map_of (attrsMap b) name = Some value" by simp
  have "tag b = tag (fst (on_for (fst (cloneASTElement el))))" by (simp add: b_def addRawAttr_def)
  also have "\<dots> = tag el" by (simp only: assms source_clone)
  finally have bt: "tag b = tag el" .
  have p: "tag (fst (processElement d anc b)) = tag b" "attrsMap (fst (processElement d anc b)) = attrsMap b"
    using source_processElement [of b d anc, unfolded same_source_def]
    by (rule conjunct1, rule conjunct2 [THEN conjunct1])
  show "map_of (attrsMap (fst (input_branch d anc el on_for name value))) name = Some value"
    unfolding e p by (rule bm)
  show "tag (fst (input_branch d anc el on_for name value)) = tag el"
    unfolding e p by (rule bt)
qed

lemma branch_steps:
  "tag (fst (processFor e)) = tag e" "tag (fst (drop_for e)) = tag e"
  using source_processFor [of e] by (simp_all add: same_source_def drop_for_def getAndRemoveAttr_def Let_def)

lemma source_dynamic_type: "same_source el (snd (dynamic_type el))"
  by (simp add: dynamic_type_def Let_def case_prod_beta source_binding)

lemma expand_input_branches:
  assumes "expand_input d anc el t = (Some (b0, conds), el', w)" "tag el = ''input''"
  shows "\<exists>b1 b2. conds =
       [(Some (type_test t ''radio'' (map_of (attrsMap el) ''v-if'')), Element b1 [] [] None),
        (map_of (attrsMap el) ''v-if'', Element b2 [] [] None)] \<and>
     el_if b0 = Some (type_test t ''checkbox'' (map_of (attrsMap el) ''v-if'')) \<and> processed b0 \<and>
     tag b0 = ''input'' \<and> tag b1 = ''input'' \<and> tag b2 = ''input'' \<and>
     map_of (attrsMap b0) ''type'' = Some ''checkbox'' \<and> map_of (attrsMap b1) ''type'' = Some ''radio'' \<and>
     map_of (attrsMap b2) '':type'' = Some t"
proof -
  let ?e2 = "getAndRemoveAttr el ''v-if'' True"
  let ?e4 = "snd (getAndRemoveAttr (snd (getAndRemoveAttr (snd ?e2) ''v-else'' True)) ''v-else-if'' True)"
  have t: "tag ?e4 = ''input''" using assms(2) by (simp add: getAndRemoveAttr_def Let_def)
  have i: "fst ?e2 = map_of (attrsMap el) ''v-if''" by (simp add: getAndRemoveAttr_def Let_def)
  let ?b0 = "fst (input_branch d anc ?e4 processFor ''type'' ''checkbox'')"
  let ?b1 = "fst (input_branch d anc ?e4 drop_for ''type'' ''radio'')"
  let ?b2 = "fst (input_branch d anc ?e4 drop_for '':type'' t)"
  have b: "tag ?b0 = ''input''" "tag ?b1 = ''input''" "tag ?b2 = ''input''"
      "map_of (attrsMap ?b0) ''type'' = Some ''checkbox''" "map_of (attrsMap ?b1) ''type'' = Some ''radio''"
      "map_of (attrsMap ?b2) '':type'' = Some t"
    by (simp_all only: input_branch_type [of processFor, OF branch_steps(1)]
        input_branch_type [of drop_for, OF branch_steps(2)] t)
  have "conds = [(Some (type_test t ''radio'' (fst ?e2)), Element ?b1 [] [] None), (fst ?e2, Element ?b2 [] [] None)]"
    using assms(1) unfolding expand_input_def Let_def case_prod_beta by auto
  moreover have "el_if b0 = Some (type_test t ''checkbox'' (fst ?e2)) \<and> processed b0 \<and>
      tag b0 = tag ?b0 \<and> attrsMap b0 = attrsMap ?b0"
    using assms(1) unfolding expand_input_def Let_def case_prod_beta by (auto split: if_splits)
  ultimately show ?thesis using b unfolding i
    by (intro exI [of _ ?b1] exI [of _ ?b2]) simp
qed

text \<open>
  An \<open>input\<close> with \<open>v-model\<close> and a dynamic type becomes a chain of three inputs: a checkbox, a
  radio button and one that keeps the dynamic type, in this order, the first two under the
  comparison of the type with their own (and under the condition the element had), the last one
  under that condition alone; the first is marked as processed.
\<close>

theorem preTransformNode_branches:
  assumes "preTransformNode d anc el = (Some (b0, conds), el', w)"
  shows "\<exists>t b1 b2. t \<noteq> [] \<and> conds =
       [(Some (type_test t ''radio'' (map_of (attrsMap el) ''v-if'')), Element b1 [] [] None),
        (map_of (attrsMap el) ''v-if'', Element b2 [] [] None)] \<and>
     el_if b0 = Some (type_test t ''checkbox'' (map_of (attrsMap el) ''v-if'')) \<and> processed b0 \<and>
     tag b0 = ''input'' \<and> tag b1 = ''input'' \<and> tag b2 = ''input'' \<and>
     map_of (attrsMap b0) ''type'' = Some ''checkbox'' \<and> map_of (attrsMap b1) ''type'' = Some ''radio'' \<and>
     map_of (attrsMap b2) '':type'' = Some t"
proof -
  let ?d = "dynamic_type el"
  have h: "tag el = ''input''" "tru (fst ?d)"
      "expand_input d anc (snd ?d) (the (fst ?d)) = (Some (b0, conds), el', w)"
    using assms unfolding preTransformNode_def by (auto simp: case_prod_beta Let_def split: if_splits)
  have "tag (snd ?d) = ''input''" "attrsMap (snd ?d) = attrsMap el"
    using source_dynamic_type [of el] h(1) by (simp_all add: same_source_def)
  moreover have "the (fst ?d) \<noteq> []" using h(2) by (auto simp: tru_def split: option.splits)
  ultimately show ?thesis using expand_input_branches [OF h(3)]
    by (intro exI [of _ "the (fst ?d)"]) simp
qed

lemma preTransformNode_some:
  assumes "tag el = ''input''" "tru (map_of (attrsMap el) ''v-model'')" "tru (fst (dynamic_type el))"
  shows "\<exists>b0 conds el' w. preTransformNode d anc el = (Some (b0, conds), el', w)"
proof -
  have "preTransformNode d anc el = expand_input d anc (snd (dynamic_type el)) (the (fst (dynamic_type el)))"
    using assms by (simp add: preTransformNode_def case_prod_beta Let_def)
  moreover have "\<exists>b0 conds el' w. expand_input d anc e t = (Some (b0, conds), el', w)" for e t
    unfolding expand_input_def Let_def case_prod_beta by blast
  ultimately show ?thesis by metis
qed

lemma preTransformNode_branches_witness:
  "\<exists>b0 cs el' w t b1 b2. preTransformNode None []
       (fst (createASTElement ''input'' [(''v-model'', ''x''), ('':type'', ''k'')])) = (Some (b0, cs), el', w) \<and>
     cs = [(Some (type_test t ''radio'' None), Element b1 [] [] None), (None, Element b2 [] [] None)] \<and>
     map_of (attrsMap b0) ''type'' = Some ''checkbox'' \<and> map_of (attrsMap b1) ''type'' = Some ''radio''"
proof -
  let ?el = "fst (createASTElement ''input'' [(''v-model'', ''x''), ('':type'', ''k'')])"
  have "tag ?el = ''input''" "tru (map_of (attrsMap ?el) ''v-model'')" "tru (fst (dynamic_type ?el))"
    by code_simp+
  from preTransformNode_some [OF this, of None "[]"] obtain b0 cs el' w where
    p: "preTransformNode None [] ?el = (Some (b0, cs), el', w)" by blast
  have i: "map_of (attrsMap ?el) ''v-if'' = None" by code_simp
  from preTransformNode_branches [OF p, unfolded i] show ?thesis using p by blast
qed

section \<open>Literal attributes and v-else\<close>

lemma processAttr_literal:
  assumes "\<not> dirRE n" "n \<noteq> ''muted''"
  shows "fst (processAttr d anc (n, v) el) = addAttr el n (json_quote v)"
  using assms by (simp add: processAttr_def literalAttr_def Let_def)

text \<open>
  Literal attributes survive parsing: an element without directives gets, in the order they were
  written, exactly one attribute per literal attribute, its value quoted, after those it had.
\<close>

theorem processAttrs_literal:
  assumes "\<forall>(n, v) \<in> set (attrsList el). \<not> dirRE n \<and> n \<noteq> ''muted''" "attrsList el \<noteq> []"
  shows "attrs (fst (processAttrs d anc el)) =
     Some ((case attrs el of Some as \<Rightarrow> as | None \<Rightarrow> []) @ map (\<lambda>(n, v). (n, json_quote v)) (attrsList el))"
proof -
  let ?old = "\<lambda>e. case attrs e of Some as \<Rightarrow> as | None \<Rightarrow> []"
  have step: "?old (addAttr e n v) = ?old e @ [(n, v)]" "attrs (addAttr e n v) \<noteq> None" for e n v
    by (simp_all add: addAttr_def split: option.splits)
  have "\<forall>(n, v) \<in> set as. \<not> dirRE n \<and> n \<noteq> ''muted'' \<Longrightarrow>
      ?old (fst (processAttr_list d anc as e)) = ?old e @ map (\<lambda>(n, v). (n, json_quote v)) as \<and>
      (as \<noteq> [] \<or> attrs e \<noteq> None \<longrightarrow> attrs (fst (processAttr_list d anc as e)) \<noteq> None)" for as e
  proof (induction as arbitrary: e)
    case Nil
    then show ?case by simp
  next
    case (Cons a as)
    obtain n v where a: "a = (n, v)" by force
    have f: "fst (processAttr_list d anc (a # as) e)
        = fst (processAttr_list d anc as (addAttr e n (json_quote v)))"
      using Cons.prems processAttr_literal [of n d anc v e] a by (simp add: seq_def case_prod_beta Let_def)
    show ?case unfolding f using Cons.IH [of "addAttr e n (json_quote v)"] Cons.prems step a by auto
  qed
  from this [OF assms(1), of el] assms(2) show ?thesis
    by (auto simp: processAttrs_def split: option.splits)
qed

lemma processAttrs_literal_witness:
  "attrs (fst (processAttrs None [] (fst (createASTElement ''a'' [(''href'', ''/x''), (''id'', ''y'')])))) =
     Some [(''href'', json_quote ''/x''), (''id'', json_quote ''y'')]"
proof -
  let ?el = "fst (createASTElement ''a'' [(''href'', ''/x''), (''id'', ''y'')])"
  have "\<forall>(n, v) \<in> set (attrsList ?el). \<not> dirRE n \<and> n \<noteq> ''muted''" "attrsList ?el \<noteq> []"
      "attrs ?el = None" "attrsList ?el = [(''href'', ''/x''), (''id'', ''y'')]"
    by code_simp+
  from processAttrs_literal [OF this(1,2), of None "[]"] this(3,4) show ?thesis by simp
qed

lemma findPrev_rev_texts:
  "\<forall>t\<in>set ts. \<not> is_element t \<Longrightarrow> is_element p \<Longrightarrow> fst (findPrev_rev (ts @ p # rs)) = p # rs"
  by (induction ts) (auto simp: Let_def case_prod_beta)

text \<open>
  A \<open>v-else\<close> (or \<open>v-else-if\<close>) block joins the element right before it: if that element has a
  \<open>v-if\<close>, the block becomes its last condition and the text between the two is dropped; the
  element itself and everything before stay.
\<close>

theorem processIfConditions_attach:
  assumes "tru (el_if p)" "\<forall>t\<in>set texts. \<not> is_element t"
  shows "fst (processIfConditions el n (before @ Element p ch ic sc # texts)) =
           before @ [Element p ch (ic @ [(el_elseif el, n)]) sc]"
proof -
  have "fst (findPrev_rev (rev texts @ Element p ch ic sc # rev before)) = Element p ch ic sc # rev before"
    using assms(2) by (intro findPrev_rev_texts) (auto simp: is_element_def)
  then have "fst (findPrevElement (before @ Element p ch ic sc # texts)) = before @ [Element p ch ic sc]"
    by (simp add: findPrevElement_def case_prod_beta)
  then show ?thesis
    using assms(1) by (simp add: processIfConditions_def case_prod_beta Let_def addIfCondition_def)
qed

lemma processIfConditions_attach_witness:
  "fst (processIfConditions (fst (createASTElement ''b'' [])) (TextNode ''y'' False)
     ([TextNode ''x'' False] @ Element ((fst (createASTElement ''i'' []))\<lparr>el_if := Some ''ok''\<rparr>) [] [] None # [TextNode '' '' False])) =
   [TextNode ''x'' False] @
     [Element ((fst (createASTElement ''i'' []))\<lparr>el_if := Some ''ok''\<rparr>) [] ([] @ [(None, TextNode ''y'' False)]) None]"
proof -
  have "el_elseif (fst (createASTElement ''b'' [])) = None"
    by (simp add: createASTElement_def case_prod_beta)
  then show ?thesis
    using processIfConditions_attach [of "(fst (createASTElement ''i'' []))\<lparr>el_if := Some ''ok''\<rparr>"
        "[TextNode '' '' False]" "fst (createASTElement ''b'' [])" "TextNode ''y'' False" "[TextNode ''x'' False]" "[]" "[]" None]
    by (simp add: is_element_def)
qed

end
