(* ===== verification/Optimizer.thy ===== *)
theory Optimizer
  imports ElementParse
begin

text \<open>
  The optimizer of the template compiler in \<open>frontend/js/vue.js\<close>: \<open>optimize\<close> with \<open>isStatic\<close>,
  \<open>markStatic$1\<close> and \<open>markStaticRoots\<close>. The passes return the tree with the flags set. The
  lemmas show that only purely static trees are hoisted and that no hoisted tree contains
  another.
\<close>

section \<open>Static keys\<close>

definition genStaticKeys_1 :: "string \<Rightarrow> string \<Rightarrow> bool" where
  "genStaticKeys_1 keys =
     makeMap (''type,tag,attrsList,attrsMap,plain,parent,children,attrs'' @
              (if keys \<noteq> [] then '','' @ keys else [])) False"

text \<open>The static keys of the web platform's modules\<close>

definition staticKeys :: string where
  "staticKeys = genStaticKeys [Some [''staticClass''], Some [''staticStyle''], None]"

definition isStaticKey :: "string \<Rightarrow> bool" where
  "isStaticKey = genStaticKeys_1 staticKeys"

text \<open>\<open>Object.keys\<close> of an element as the parser leaves it: a key exists when its field was set.\<close>

definition key_if :: "bool \<Rightarrow> string \<Rightarrow> string list" where
  "key_if c k = (if c then [k] else [])"

definition elem_keys :: "elem \<Rightarrow> bool \<Rightarrow> string list" where
  "elem_keys el scoped =
     [''type'', ''tag'', ''attrsList'', ''attrsMap'', ''parent'', ''children''] @
     key_if (ns el \<noteq> None) ''ns'' @ key_if (forbidden el) ''forbidden'' @ key_if (el_pre el) ''pre'' @
     key_if (plain el) ''plain'' @ key_if (processed el) ''processed'' @ key_if (el_key el \<noteq> None) ''key'' @
     key_if (el_ref el \<noteq> None) ''ref'' @ key_if (el_for el \<noteq> None) ''for'' @
     key_if (el_alias el \<noteq> None) ''alias'' @ key_if (iterator1 el \<noteq> None) ''iterator1'' @
     key_if (iterator2 el \<noteq> None) ''iterator2'' @ key_if (el_if el \<noteq> None) ''if'' @
     key_if (el_elseif el \<noteq> None) ''elseif'' @ key_if (el_else el) ''else'' @ key_if (el_once el) ''once'' @
     key_if (slotName el \<noteq> None) ''slotName'' @ key_if (slotScope el \<noteq> None \<or> scopeKey el) ''slotScope'' @
     key_if (slotTarget el \<noteq> None) ''slotTarget'' @ key_if (component el \<noteq> None) ''component'' @
     key_if (inlineTemplate el) ''inlineTemplate'' @ key_if (hasBindings el) ''hasBindings'' @
     key_if (staticClass el \<noteq> None) ''staticClass'' @ key_if (classBinding el \<noteq> None) ''classBinding'' @
     key_if (staticStyle el \<noteq> None) ''staticStyle'' @ key_if (styleBinding el \<noteq> None) ''styleBinding'' @
     key_if (attrs el \<noteq> None) ''attrs'' @ key_if (props el \<noteq> None) ''props'' @
     key_if (directives el \<noteq> None) ''directives'' @ key_if (events el \<noteq> None) ''events'' @
     key_if (nativeEvents el \<noteq> None) ''nativeEvents'' @ key_if scoped ''scopedSlots''"

fun isDirectChildOfTemplateFor :: "elem list \<Rightarrow> bool" where
  "isDirectChildOfTemplateFor [] = False"
| "isDirectChildOfTemplateFor (p # anc) =
     (if tag p \<noteq> ''template'' then False
      else if tru (el_for p) then True else isDirectChildOfTemplateFor anc)"

definition isStatic :: "elem list \<Rightarrow> node \<Rightarrow> bool" where
  "isStatic anc n =
     (case n of
        Expression _ _ \<Rightarrow> False
      | TextNode _ _ \<Rightarrow> True
      | Element el _ _ sc \<Rightarrow>
          el_pre el \<or>
          (\<not> hasBindings el \<and> \<not> tru (el_if el) \<and> \<not> tru (el_for el) \<and> \<not> isBuiltInTag (tag el) \<and>
           isReservedTag (tag el) \<and> \<not> isDirectChildOfTemplateFor anc \<and>
           list_all isStaticKey (elem_keys el (sc \<noteq> None))))"

section \<open>The two passes\<close>

definition node_static :: "node \<Rightarrow> bool" where
  "node_static n = (case n of Expression _ _ \<Rightarrow> False | TextNode _ _ \<Rightarrow> True | Element el _ _ _ \<Rightarrow> el_static el)"

text \<open>The tags whose children \<open>markStatic$1\<close> visits\<close>

definition visited :: "elem \<Rightarrow> bool" where
  "visited el \<longleftrightarrow>
     isReservedTag (tag el) \<or> tag el = ''slot'' \<or> map_of (attrsMap el) ''inline-template'' \<noteq> None"

fun markStatic_1 :: "elem list \<Rightarrow> node \<Rightarrow> node" where
  "markStatic_1 anc (Element el ch ic sc) =
     (let st = isStatic anc (Element el ch ic sc) in
      if \<not> visited el then Element (el\<lparr>el_static := st\<rparr>) ch ic sc
      else
        let ch' = map (markStatic_1 (el # anc)) ch;
            ic' = map (\<lambda>c. (fst c, markStatic_1 anc (snd c))) ic
        in Element (el\<lparr>el_static := st \<and> list_all node_static ch' \<and> list_all (\<lambda>c. node_static (snd c)) ic'\<rparr>)
             ch' ic' sc)"
| "markStatic_1 anc n = n"

definition is_text :: "node \<Rightarrow> bool" where
  "is_text n = (case n of TextNode _ _ \<Rightarrow> True | _ \<Rightarrow> False)"

definition worth_hoisting :: "elem \<Rightarrow> node list \<Rightarrow> bool" where
  "worth_hoisting el ch \<longleftrightarrow> el_static el \<and> ch \<noteq> [] \<and> \<not> (length ch = 1 \<and> is_text (hd ch))"

fun markStaticRoots :: "bool \<Rightarrow> node \<Rightarrow> node" where
  "markStaticRoots isInFor (Element el ch ic sc) =
     (let el1 = (if el_static el \<or> el_once el then el\<lparr>staticInFor := isInFor\<rparr> else el) in
      if worth_hoisting el1 ch then Element (el1\<lparr>staticRoot := True\<rparr>) ch ic sc
      else Element (el1\<lparr>staticRoot := False\<rparr>)
             (map (markStaticRoots (isInFor \<or> tru (el_for el1))) ch)
             (map (\<lambda>c. (fst c, markStaticRoots isInFor (snd c))) ic) sc)"
| "markStaticRoots isInFor n = n"

definition optimize :: "node option \<Rightarrow> node option" where
  "optimize root = map_option (\<lambda>n. markStaticRoots False (markStatic_1 [] n)) root"

section \<open>Only static trees are hoisted\<close>

text \<open>
  A tree that can never change: no interpolation, and no element with a binding, a condition or a
  repetition, unless it is under \<open>v-pre\<close>.
\<close>

fun constant_tree :: "node \<Rightarrow> bool" where
  "constant_tree (Element el ch ic sc) =
     ((el_pre el \<or> \<not> hasBindings el \<and> \<not> tru (el_if el) \<and> \<not> tru (el_for el)) \<and>
      list_all constant_tree ch \<and> list_all (\<lambda>c. constant_tree (snd c)) ic)"
| "constant_tree (Expression _ _) = False"
| "constant_tree (TextNode _ _) = True"

text \<open>\<open>v-pre\<close> stands on no component: a component's slot content is not looked at.\<close>

fun pre_visited :: "node \<Rightarrow> bool" where
  "pre_visited (Element el ch ic sc) =
     ((el_pre el \<longrightarrow> visited el) \<and> list_all pre_visited ch \<and> list_all (\<lambda>c. pre_visited (snd c)) ic)"
| "pre_visited _ = True"

text \<open>Every element of a tree, conditional blocks included; scoped slots are not visited by the passes.\<close>

fun tree_elements :: "node \<Rightarrow> node list" where
  "tree_elements (Element el ch ic sc) =
     Element el ch ic sc # concat (map tree_elements ch) @ concat (map (\<lambda>c. tree_elements (snd c)) ic)"
| "tree_elements _ = []"

definition hoisted :: "node \<Rightarrow> bool" where
  "hoisted n = (case n of Element el _ _ _ \<Rightarrow> staticRoot el | _ \<Rightarrow> False)"

text \<open>No element is flagged as a root yet.\<close>

definition fresh_tree :: "node \<Rightarrow> bool" where
  "fresh_tree n \<longleftrightarrow> list_all (\<lambda>m. \<not> hoisted m) (tree_elements n)"

lemma isStatic_visited: "isStatic anc (Element el ch ic sc) \<Longrightarrow> (el_pre el \<longrightarrow> visited el) \<Longrightarrow> visited el"
  by (auto simp: isStatic_def visited_def)

lemma markStatic_constant: "pre_visited n \<Longrightarrow> node_static (markStatic_1 anc n) \<Longrightarrow> constant_tree n"
proof (induction anc n rule: markStatic_1.induct)
  case (1 anc el ch ic sc)
  let ?n = "Element el ch ic sc"
  have st: "isStatic anc ?n"
    using "1.prems"(2) by (auto simp: Let_def node_static_def split: if_splits)
  have vis: "visited el" using isStatic_visited [OF st] "1.prems"(1) by simp
  have all: "list_all node_static (map (markStatic_1 (el # anc)) ch)"
    "list_all (\<lambda>c. node_static (snd c)) (map (\<lambda>c. (fst c, markStatic_1 anc (snd c))) ic)"
    using "1.prems"(2) vis by (auto simp: Let_def node_static_def)
  have "constant_tree c" if "c \<in> set ch" for c
    using "1.IH"(1) [OF refl _ that] vis that all(1) "1.prems"(1) by (auto simp: list_all_iff)
  moreover have "constant_tree (snd c)" if "c \<in> set ic" for c
    using "1.IH"(2) [OF refl _ refl that] vis that all(2) "1.prems"(1) by (auto simp: list_all_iff)
  ultimately show ?case using st by (auto simp: isStatic_def list_all_iff)
qed (auto simp: node_static_def)

lemma constant_mark: "constant_tree (markStatic_1 anc n) = constant_tree n"
proof (induction anc n rule: markStatic_1.induct)
  case (1 anc el ch ic sc)
  show ?case
  proof (cases "visited el")
    case True
    then show ?thesis using "1.IH" [OF refl] by (auto simp: Let_def list_all_iff)
  next
    case False
    then show ?thesis by (simp add: Let_def)
  qed
qed auto

text \<open>The first pass is sound at every element of its result.\<close>

lemma markStatic_elements:
  "pre_visited n \<Longrightarrow> \<forall>m\<in>set (tree_elements n). \<not> node_static m \<Longrightarrow>
     \<forall>m\<in>set (tree_elements (markStatic_1 anc n)). node_static m \<longrightarrow> constant_tree m"
proof (induction anc n rule: markStatic_1.induct)
  case (1 anc el ch ic sc)
  let ?n = "Element el ch ic sc"
  have top: "node_static (markStatic_1 anc ?n) \<longrightarrow> constant_tree (markStatic_1 anc ?n)"
    using markStatic_constant [OF "1.prems"(1)] constant_mark by metis
  show ?case
  proof (cases "visited el")
    case False
    have "\<forall>m\<in>set (tree_elements (markStatic_1 anc ?n)). m = markStatic_1 anc ?n \<or> \<not> node_static m"
      using False "1.prems"(2) by (auto simp: Let_def)
    with top show ?thesis by auto
  next
    case True
    have ch: "\<forall>m\<in>set (tree_elements (markStatic_1 (el # anc) c)). node_static m \<longrightarrow> constant_tree m"
      if "c \<in> set ch" for c
      using "1.IH"(1) [OF refl _ that] True that "1.prems" by (auto simp: list_all_iff)
    have ic: "\<forall>m\<in>set (tree_elements (markStatic_1 anc (snd c))). node_static m \<longrightarrow> constant_tree m"
      if c: "c \<in> set ic" for c
    proof -
      have "pre_visited (snd c)" "\<forall>m\<in>set (tree_elements (snd c)). \<not> node_static m"
        using "1.prems" c by (auto simp: list_all_iff)
      then show ?thesis using "1.IH"(2) [OF refl _ refl c] True by auto
    qed
    have "m = markStatic_1 anc ?n \<or> (\<exists>c\<in>set ch. m \<in> set (tree_elements (markStatic_1 (el # anc) c))) \<or>
        (\<exists>c\<in>set ic. m \<in> set (tree_elements (markStatic_1 anc (snd c))))"
      if "m \<in> set (tree_elements (markStatic_1 anc ?n))" for m
      using that True by (auto simp: Let_def)
    with top ch ic show ?thesis by blast
  qed
qed auto

lemma fresh_parts:
  "fresh_tree (Element el ch ic sc) \<longleftrightarrow>
     \<not> staticRoot el \<and> (\<forall>c\<in>set ch. fresh_tree c) \<and> (\<forall>c\<in>set ic. fresh_tree (snd c))"
  by (auto simp: fresh_tree_def list_all_iff hoisted_def)

definition inner_elements :: "node \<Rightarrow> node list" where
  "inner_elements n = tl (tree_elements n)"

lemma inner_fresh: "fresh_tree (Element el ch ic sc) \<Longrightarrow> list_all (\<lambda>m. \<not> hoisted m) (inner_elements (Element el ch ic sc))"
  by (auto simp: fresh_tree_def inner_elements_def)

lemma markStaticRoots_hoisted:
  "fresh_tree n \<Longrightarrow> \<forall>m\<in>set (tree_elements n). node_static m \<longrightarrow> constant_tree m \<Longrightarrow>
     \<forall>m\<in>set (tree_elements (markStaticRoots b n)). hoisted m \<longrightarrow>
       constant_tree m \<and> list_all (\<lambda>k. \<not> hoisted k) (inner_elements m)"
proof (induction b n rule: markStaticRoots.induct)
  case (1 b el ch ic sc)
  define el1 where "el1 = (if el_static el \<or> el_once el then el\<lparr>staticInFor := b\<rparr> else el)"
  have f: "el_static el1 = el_static el" "el_pre el1 = el_pre el" "hasBindings el1 = hasBindings el"
    "el_if el1 = el_if el" "el_for el1 = el_for el"
    by (simp_all add: el1_def)
  show ?case
  proof (cases "worth_hoisting el1 ch")
    case True
    let ?r = "Element (el1\<lparr>staticRoot := True\<rparr>) ch ic sc"
    have e: "markStaticRoots b (Element el ch ic sc) = ?r"
      using True by (simp add: Let_def el1_def [symmetric])
    have "node_static (Element el ch ic sc)" using True f by (simp add: worth_hoisting_def node_static_def)
    then have "constant_tree (Element el ch ic sc)" using "1.prems"(2) by simp
    then have c: "constant_tree ?r" using f by simp
    have i: "list_all (\<lambda>k. \<not> hoisted k) (inner_elements ?r)"
      using inner_fresh [OF "1.prems"(1)] by (simp add: inner_elements_def)
    have "m = ?r \<or> \<not> hoisted m" if "m \<in> set (tree_elements ?r)" for m
      using that i by (auto simp: inner_elements_def list_all_iff)
    with c i show ?thesis unfolding e by blast
  next
    case False
    let ?f = "\<lambda>c. markStaticRoots (b \<or> tru (el_for el1)) c"
    let ?r = "Element (el1\<lparr>staticRoot := False\<rparr>) (map ?f ch) (map (\<lambda>c. (fst c, markStaticRoots b (snd c))) ic) sc"
    have e: "markStaticRoots b (Element el ch ic sc) = ?r"
      using False by (simp add: Let_def el1_def [symmetric])
    have ch: "\<forall>m\<in>set (tree_elements (?f c)). hoisted m \<longrightarrow>
        constant_tree m \<and> list_all (\<lambda>k. \<not> hoisted k) (inner_elements m)" if "c \<in> set ch" for c
      using "1.IH"(1) [OF el1_def False that] "1.prems" that by (auto simp: fresh_parts)
    have ic: "\<forall>m\<in>set (tree_elements (markStaticRoots b (snd c))). hoisted m \<longrightarrow>
        constant_tree m \<and> list_all (\<lambda>k. \<not> hoisted k) (inner_elements m)" if "c \<in> set ic" for c
      using "1.IH"(2) [OF el1_def False that] "1.prems" that by (auto simp: fresh_parts)
    have "\<not> hoisted m \<or> (\<exists>c\<in>set ch. m \<in> set (tree_elements (?f c))) \<or>
        (\<exists>c\<in>set ic. m \<in> set (tree_elements (markStaticRoots b (snd c))))"
      if "m \<in> set (tree_elements ?r)" for m
      using that by (auto simp: hoisted_def)
    with ch ic show ?thesis unfolding e by blast
  qed
qed auto

lemma fresh_mark: "fresh_tree n \<Longrightarrow> fresh_tree (markStatic_1 anc n)"
proof (induction anc n rule: markStatic_1.induct)
  case (1 anc el ch ic sc)
  then show ?case by (cases "visited el") (auto simp: fresh_parts Let_def)
qed auto



end
