(* ===== verification/ParseHTML.thy ===== *)
theory ParseHTML
  imports Ast WebTags "HOL-Library.Sublist"
begin

text \<open>
  The HTML parser of \<open>frontend/js/vue.js\<close>: \<open>parseHTML\<close> with \<open>parseStartTag\<close>, \<open>handleStartTag\<close> and
  \<open>parseEndTag\<close>. Its regular expressions are recognisers that return what follows the match; its
  callbacks are the events it emits, in order. The text positions passed to the callbacks are not
  used by this build's callbacks and are left out. The lemmas show that the loop ends because
  every turn consumes input, and that the tags of the events are balanced for every input.
\<close>

section \<open>Recognisers\<close>

definition nc_start :: "char \<Rightarrow> bool" where
  "nc_start c \<longleftrightarrow> is_upper c \<or> is_lower c \<or> c = CHR ''_''"

definition nc_char :: "char \<Rightarrow> bool" where
  "nc_char c \<longleftrightarrow> is_word c \<or> c = CHR ''-'' \<or> c = CHR ''.''"

definition ncname :: "string \<Rightarrow> (string \<times> string) option" where
  "ncname s =
     (case s of
        c # r \<Rightarrow> if nc_start c then Some (c # takeWhile nc_char r, dropWhile nc_char r) else None
      | [] \<Rightarrow> None)"

definition qname :: "string \<Rightarrow> (string \<times> string) option" where
  "qname s =
     (case ncname s of
        None \<Rightarrow> None
      | Some (n, r) \<Rightarrow>
          (case r of
             c # r' \<Rightarrow>
               (if c = CHR '':'' then
                  (case ncname r' of Some (m, q) \<Rightarrow> Some (n @ '':'' @ m, q) | None \<Rightarrow> Some (n, r))
                else Some (n, r))
           | [] \<Rightarrow> Some (n, r)))"

definition startTagOpen :: "string \<Rightarrow> (string \<times> string) option" where
  "startTagOpen s = (case s of c # r \<Rightarrow> if c = CHR ''<'' then qname r else None | [] \<Rightarrow> None)"

text \<open>What follows the next \<open>>\<close>\<close>

definition after_gt :: "string \<Rightarrow> string option" where
  "after_gt s = (case dropWhile (\<lambda>c. c \<noteq> CHR ''>'') s of c # r \<Rightarrow> Some r | [] \<Rightarrow> None)"

definition endTag :: "string \<Rightarrow> (string \<times> string) option" where
  "endTag s =
     (if starts_with ''</'' s then
        (case qname (drop 2 s) of
           Some (n, r) \<Rightarrow> (case after_gt r of Some q \<Rightarrow> Some (n, q) | None \<Rightarrow> None)
         | None \<Rightarrow> None)
      else None)"

text \<open>\<open>startTagClose\<close>: is there a slash, and the rest\<close>

definition startTagClose :: "string \<Rightarrow> (bool \<times> string) option" where
  "startTagClose s =
     (let r = dropWhile is_space s in
      if starts_with ''/>'' r then Some (True, drop 2 r)
      else if starts_with ''>'' r then Some (False, drop 1 r) else None)"

definition doctype :: "string \<Rightarrow> string option" where
  "doctype s =
     (if toLowerCase (take 10 s) = ''<!doctype '' \<and> takeWhile (\<lambda>c. c \<noteq> CHR ''>'') (drop 10 s) \<noteq> []
      then after_gt (drop 10 s) else None)"

definition is_comment :: "string \<Rightarrow> bool" where "is_comment s \<longleftrightarrow> starts_with ''<!--'' s"
definition conditionalComment :: "string \<Rightarrow> bool" where "conditionalComment s \<longleftrightarrow> starts_with ''<!['' s"

definition attr_char :: "char \<Rightarrow> bool" where
  "attr_char c \<longleftrightarrow> \<not> is_space c \<and> c \<noteq> dq \<and> c \<noteq> sq \<and> c \<noteq> CHR ''<'' \<and> c \<noteq> CHR ''>'' \<and> c \<noteq> CHR ''/'' \<and> c \<noteq> CHR ''=''"

definition unquoted_char :: "char \<Rightarrow> bool" where
  "unquoted_char c \<longleftrightarrow> \<not> is_space c \<and> c \<noteq> dq \<and> c \<noteq> sq \<and> c \<noteq> CHR ''='' \<and> c \<noteq> CHR ''<'' \<and> c \<noteq> CHR ''>'' \<and> c \<noteq> CHR 0x60"

text \<open>\<open>q([^q]*)q+\<close> after its first quote\<close>

definition quoted :: "char \<Rightarrow> string \<Rightarrow> (string \<times> string) option" where
  "quoted q s =
     (let v = takeWhile (\<lambda>c. c \<noteq> q) s; r = dropWhile (\<lambda>c. c \<noteq> q) s
      in if r = [] then None else Some (v, dropWhile (\<lambda>c. c = q) r))"

definition attr_value :: "string \<Rightarrow> (string \<times> string) option" where
  "attr_value s =
     (case dropWhile is_space s of
        [] \<Rightarrow> None
      | c # r \<Rightarrow>
          (if c \<noteq> CHR ''='' then None
           else
             case dropWhile is_space r of
               [] \<Rightarrow> None
             | d # r' \<Rightarrow>
                 (if d = dq \<or> d = sq then quoted d r'
                  else if unquoted_char d then
                    Some (takeWhile unquoted_char (d # r'), dropWhile unquoted_char (d # r'))
                  else None)))"

text \<open>\<open>attribute\<close>: the name, \<open>args[3] || args[4] || args[5] || ''\<close>, and the rest\<close>

definition attribute :: "string \<Rightarrow> (string \<times> string \<times> string) option" where
  "attribute s =
     (let r = dropWhile is_space s; n = takeWhile attr_char r; q = dropWhile attr_char r in
      if n = [] then None
      else case attr_value q of Some (v, q') \<Rightarrow> Some (n, v, q') | None \<Rightarrow> Some (n, [], q))"

text \<open>\<open>decodeAttr\<close>: the named entities, and the two numeric ones when newlines are decoded\<close>

definition decodingMap :: "(string \<times> char) list" where
  "decodingMap = [(''&lt;'', CHR ''<''), (''&gt;'', CHR ''>''), (''&quot;'', dq), (''&amp;'', CHR ''&''),
                  (''&#10;'', nl), (''&#9;'', CHR 0x09)]"

function decodeAttr :: "bool \<Rightarrow> string \<Rightarrow> string" where
  "decodeAttr newlines s =
     (case s of
        [] \<Rightarrow> []
      | c # r \<Rightarrow>
          (case List.find (\<lambda>(e, d). starts_with e s \<and> e \<noteq> []) (if newlines then decodingMap else take 4 decodingMap) of
             Some (e, d) \<Rightarrow> d # decodeAttr newlines (drop (length e) s)
           | None \<Rightarrow> c # decodeAttr newlines r))"
  by pat_completeness auto
termination
  by (relation "measure (\<lambda>(b, s). length s)") (auto simp: find_Some_iff length_greater_0_conv [symmetric] simp del: length_greater_0_conv)

declare decodeAttr.simps [simp del]

section \<open>State and events\<close>

datatype event =
    EStart string "(string \<times> string) list" bool
  | EEnd string
  | EChars string
  | EComment string
  | EWarn string

record html_options =
  ho_expectHTML :: bool
  ho_decodeNewlines :: bool
  ho_decodeNewlinesForHref :: bool
  ho_comments :: bool

text \<open>
  \<open>stack\<close> holds the open tags with the innermost first; \<open>lastTag\<close> is the innermost one, or
  undefined (0 after the last one closed).
\<close>

record hstate =
  hs_html :: string
  hs_stack :: "string list"
  hs_lastTag :: "string option"
  hs_events :: "event list"

definition emit :: "event list \<Rightarrow> hstate \<Rightarrow> hstate" where
  "emit es st = st\<lparr>hs_events := hs_events st @ es\<rparr>"

definition set_html :: "string \<Rightarrow> hstate \<Rightarrow> hstate" where
  "set_html s st = st\<lparr>hs_html := s\<rparr>"

definition no_end_warning :: "string \<Rightarrow> event" where
  "no_end_warning t = EWarn (''tag <'' @ t @ ''> has no matching end tag.'')"

text \<open>Closes the first \<open>n\<close> open tags; the last of them is the one asked for when \<open>named\<close>.\<close>

definition close_tags :: "bool \<Rightarrow> nat \<Rightarrow> hstate \<Rightarrow> hstate" where
  "close_tags named n st =
     (let open' = take n (hs_stack st);
          es = concat (map (\<lambda>(i, t). (if i + 1 < n \<or> \<not> named then [no_end_warning t] else []) @ [EEnd t])
                 (zip [0..<n] open'));
          rest = drop n (hs_stack st)
      in emit es (st\<lparr>hs_stack := rest, hs_lastTag := (case rest of t # _ \<Rightarrow> Some t | [] \<Rightarrow> None)\<rparr>))"

definition parseEndTag :: "string option \<Rightarrow> hstate \<Rightarrow> hstate" where
  "parseEndTag tagName st =
     (case tagName of
        None \<Rightarrow> close_tags False (length (hs_stack st)) st
      | Some t \<Rightarrow>
          (case index_by (\<lambda>o'. toLowerCase o' = toLowerCase t) (hs_stack st) of
             Some i \<Rightarrow> close_tags True (i + 1) st
           | None \<Rightarrow>
               (if toLowerCase t = ''br'' then emit [EStart t [] True] st
                else if toLowerCase t = ''p'' then emit [EStart t [] False, EEnd t] st
                else st)))"

section \<open>Start tags\<close>

text \<open>The attributes before the closing of the tag: the loop of \<open>parseStartTag\<close>.\<close>

lemma suffix_attr_value: "attr_value s = Some (v, q) \<Longrightarrow> suffix q s"
proof -
  assume a: "attr_value s = Some (v, q)"
  obtain c r where s: "dropWhile is_space s = c # r" "c = CHR ''=''"
    using a by (auto simp: attr_value_def split: list.splits if_splits)
  obtain e r' where r: "dropWhile is_space r = e # r'"
    using a s by (auto simp: attr_value_def split: list.splits if_splits)
  have "suffix (e # r') r" by (metis r suffix_dropWhile)
  moreover have "suffix r s" by (metis s(1) suffix_dropWhile suffix_ConsD)
  ultimately have l: "suffix (e # r') s" by (rule suffix_order.trans)
  consider "quoted e r' = Some (v, q)" | "q = dropWhile unquoted_char (e # r')"
    using a s r by (auto simp: attr_value_def split: if_splits)
  then have "suffix q (e # r')"
  proof cases
    case 1
    then have q: "q = dropWhile (\<lambda>c. c = e) (dropWhile (\<lambda>c. c \<noteq> e) r')"
      by (auto simp: quoted_def Let_def split: if_splits)
    have "suffix q r'" unfolding q using suffix_dropWhile suffix_dropWhile by (rule suffix_order.trans)
    then show ?thesis by (rule suffix_ConsI)
  next
    case 2
    show ?thesis unfolding 2 by (rule suffix_dropWhile)
  qed
  then show ?thesis using l by (rule suffix_order.trans)
qed

lemma attribute_shorter:
  assumes "attribute s = Some (n, v, q)"
  shows "length q < length s"
proof -
  let ?r = "dropWhile is_space s"
  let ?m = "dropWhile attr_char ?r"
  have n: "takeWhile attr_char ?r \<noteq> []" using assms by (auto simp: attribute_def Let_def split: if_splits)
  have "length (takeWhile attr_char ?r) + length ?m = length ?r"
    by (metis length_append takeWhile_dropWhile_id)
  with n have m: "length ?m < length ?r" by (cases "takeWhile attr_char ?r") auto
  have "length q \<le> length ?m"
    using assms n suffix_attr_value [of ?m, THEN suffix_length_le]
    by (auto simp: attribute_def Let_def split: option.splits if_splits)
  also note m
  also have "length ?r \<le> length s" by (rule length_dropWhile_le)
  finally show ?thesis .
qed

function tag_attrs :: "string \<Rightarrow> (string \<times> string) list \<times> string" where
  "tag_attrs s =
     (if startTagClose s \<noteq> None then ([], s)
      else case attribute s of
        Some (n, v, q) \<Rightarrow> (let (as, r) = tag_attrs q in ((n, v) # as, r))
      | None \<Rightarrow> ([], s))"
  by pat_completeness auto
termination by (relation "measure length") (auto dest: attribute_shorter)

declare tag_attrs.simps [simp del]

text \<open>
  \<open>parseStartTag\<close>: the match (name, attributes, slash), if there is one, and the input afterwards:
  an unfinished tag has been consumed all the same.
\<close>

definition parseStartTag :: "string \<Rightarrow> (string \<times> (string \<times> string) list \<times> bool) option \<times> string" where
  "parseStartTag html =
     (case startTagOpen html of
        None \<Rightarrow> (None, html)
      | Some (t, r) \<Rightarrow>
          (let (as, q) = tag_attrs r in
           case startTagClose q of
             Some (slash, q') \<Rightarrow> (Some (t, as, slash), q')
           | None \<Rightarrow> (None, q)))"

definition handleStartTag ::
    "html_options \<Rightarrow> string \<Rightarrow> (string \<times> string) list \<Rightarrow> bool \<Rightarrow> hstate \<Rightarrow> hstate" where
  "handleStartTag opts tagName as0 slash st0 =
     (let st1 = (if ho_expectHTML opts \<and> hs_lastTag st0 = Some ''p'' \<and> isNonPhrasingTag tagName
                 then parseEndTag (Some ''p'') st0 else st0);
          st2 = (if ho_expectHTML opts \<and> canBeLeftOpenTag tagName \<and> hs_lastTag st1 = Some tagName
                 then parseEndTag (Some tagName) st1 else st1);
          unary = (isUnaryTag tagName \<or> slash);
          as = map (\<lambda>(n, v). (n, decodeAttr (if tagName = ''a'' \<and> n = ''href'' then ho_decodeNewlinesForHref opts
                                              else ho_decodeNewlines opts) v)) as0;
          st3 = (if \<not> unary then st2\<lparr>hs_stack := tagName # hs_stack st2, hs_lastTag := Some tagName\<rparr> else st2)
      in emit [EStart tagName as unary] st3)"

definition shouldIgnoreFirstNewline :: "string option \<Rightarrow> string \<Rightarrow> bool" where
  "shouldIgnoreFirstNewline tg html \<longleftrightarrow>
     (case tg of Some t \<Rightarrow> isIgnoreNewlineTag t | None \<Rightarrow> False) \<and> html \<noteq> [] \<and> hd html = nl"

section \<open>Text\<close>

definition markup_ahead :: "string \<Rightarrow> bool" where
  "markup_ahead rest \<longleftrightarrow>
     endTag rest \<noteq> None \<or> startTagOpen rest \<noteq> None \<or> is_comment rest \<or> conditionalComment rest"

text \<open>\<open>textEnd\<close> after the loop, started at \<open>k\<close>: a \<open><\<close> that opens nothing is text.\<close>

function text_end :: "string \<Rightarrow> nat \<Rightarrow> nat" where
  "text_end html k =
     (let rest = drop k html in
      if markup_ahead rest then k
      else case find_char (CHR ''<'') (drop 1 rest) of
        Some n \<Rightarrow> text_end html (k + (n + 1))
      | None \<Rightarrow> k)"
  by pat_completeness auto
termination
proof (relation "measure (\<lambda>(html, k). length html - k)", goal_cases)
  case 1
  show ?case by simp
next
  case (2 html k rest n)
  then have "n < length (drop 1 (drop k html))"
    using index_by_Some [of _ "drop 1 rest" n] by (auto simp: find_char_def)
  then show ?case by simp
qed

declare text_end.simps [simp del]

text \<open>
  The contents of a plain text element: the text before its end tag and the input after it. The
  regular expression matches from the start of the input to the first \<open></tag\<close> (in any case)
  that is closed by a \<open>>\<close>.
\<close>

fun until_close :: "string \<Rightarrow> string \<Rightarrow> (string \<times> string) option" where
  "until_close t [] = None"
| "until_close t (c # r) =
     (case (if starts_with (''</'' @ t) (toLowerCase (c # r)) then after_gt (drop (2 + length t) (c # r)) else None) of
        Some q \<Rightarrow> Some ([], q)
      | None \<Rightarrow> map_option (\<lambda>(a, q). (c # a, q)) (until_close t r))"

section \<open>The loop\<close>

definition chars_if :: "string \<Rightarrow> event list" where
  "chars_if text = (if text \<noteq> [] then [EChars text] else [])"

text \<open>\<open>substring\<close>, which swaps its arguments when they are out of order\<close>

definition substring :: "nat \<Rightarrow> nat \<Rightarrow> string \<Rightarrow> string" where
  "substring a b s = take (max a b - min a b) (drop (min a b) s)"

text \<open>The text branch, on an input that may have been advanced by an unfinished start tag.\<close>

definition text_step :: "nat option \<Rightarrow> hstate \<Rightarrow> hstate" where
  "text_step textEnd st =
     (let html = hs_html st in
      case textEnd of
        Some k \<Rightarrow>
          (let e = text_end html k in emit (chars_if (take e html)) (set_html (drop e html) st))
      | None \<Rightarrow> emit (chars_if html) (set_html [] st))"

definition markup_step :: "html_options \<Rightarrow> hstate \<Rightarrow> hstate" where
  "markup_step opts st =
     (let html = hs_html st;
          commentEnd = (if is_comment html then find_sub ''-->'' html else None);
          conditionalEnd = (if conditionalComment html then find_sub '']>'' html else None)
      in case commentEnd of
           Some i \<Rightarrow> set_html (drop (i + 3) html)
                      (if ho_comments opts then emit [EComment (substring 4 i html)] st else st)
         | None \<Rightarrow>
           (case conditionalEnd of
              Some i \<Rightarrow> set_html (drop (i + 2) html) st
            | None \<Rightarrow>
              (case doctype html of
                 Some r \<Rightarrow> set_html r st
               | None \<Rightarrow>
                 (case endTag html of
                    Some (t, r) \<Rightarrow> parseEndTag (Some t) (set_html r st)
                  | None \<Rightarrow>
                    (case parseStartTag html of
                       (Some (t, as, slash), r) \<Rightarrow>
                         (let st1 = handleStartTag opts t as slash (set_html r st) in
                          if shouldIgnoreFirstNewline (hs_lastTag st1) r then set_html (drop 1 r) st1 else st1)
                     | (None, r) \<Rightarrow> text_step (Some 0) (set_html r st))))))"

definition plain_step :: "string \<Rightarrow> hstate \<Rightarrow> hstate" where
  "plain_step lastTag st =
     (let stackedTag = toLowerCase lastTag in
      case until_close stackedTag (hs_html st) of
        Some (text, r) \<Rightarrow>
          parseEndTag (Some stackedTag)
            (emit [EChars (if shouldIgnoreFirstNewline (Some stackedTag) text then drop 1 text else text)]
              (set_html r st))
      | None \<Rightarrow> parseEndTag (Some stackedTag) st)"

definition html_step :: "html_options \<Rightarrow> hstate \<Rightarrow> hstate" where
  "html_step opts st =
     (case hs_lastTag st of
        Some t \<Rightarrow>
          (if isPlainTextElement t then plain_step t st
           else (case find_char (CHR ''<'') (hs_html st) of
                   Some 0 \<Rightarrow> markup_step opts st
                 | k \<Rightarrow> text_step k st))
      | None \<Rightarrow>
          (case find_char (CHR ''<'') (hs_html st) of
             Some 0 \<Rightarrow> markup_step opts st
           | k \<Rightarrow> text_step k st))"

text \<open>Every turn leaves a suffix of the input.\<close>

lemma suffix_trans_drop [intro, simp]: "suffix (drop n (s::string)) s"
  by (rule suffix_drop)

lemma suffix_after_gt: "after_gt s = Some r \<Longrightarrow> suffix r s"
proof -
  assume "after_gt s = Some r"
  then obtain c where "dropWhile (\<lambda>c. c \<noteq> CHR ''>'') s = c # r"
    by (auto simp: after_gt_def split: list.splits)
  then have "suffix (c # r) s" by (metis suffix_dropWhile)
  then show "suffix r s" by (rule suffix_ConsD)
qed

lemma suffix_ncname: "ncname s = Some (n, r) \<Longrightarrow> suffix r s"
  by (auto simp: ncname_def suffix_dropWhile intro: suffix_ConsI split: list.splits if_splits)

lemma suffix_qname: "qname s = Some (n, r) \<Longrightarrow> suffix r s"
proof -
  assume q: "qname s = Some (n, r)"
  then obtain n' r' where n: "ncname s = Some (n', r')" by (auto simp: qname_def split: option.splits)
  have r': "suffix r' s" by (rule suffix_ncname [OF n])
  consider "r = r'" | m q' where "r' = CHR '':'' # q'" "ncname q' = Some (m, r)"
    using q n by (auto simp: qname_def split: list.splits if_splits option.splits)
  then show "suffix r s"
  proof cases
    case 1
    with r' show ?thesis by simp
  next
    case 2
    have "suffix r q'" by (rule suffix_ncname [OF 2(2)])
    then have "suffix r r'" unfolding 2(1) by (rule suffix_ConsI)
    then show ?thesis using r' by (rule suffix_order.trans)
  qed
qed

lemma suffix_startTagOpen: "startTagOpen s = Some (n, r) \<Longrightarrow> suffix r s"
  by (auto simp: startTagOpen_def intro: suffix_ConsI suffix_qname split: list.splits if_splits)

lemma suffix_endTag: "endTag s = Some (n, r) \<Longrightarrow> suffix r s"
proof -
  assume "endTag s = Some (n, r)"
  then obtain u where u: "qname (drop 2 s) = Some (n, u)" "after_gt u = Some r"
    by (auto simp: endTag_def split: if_splits option.splits)
  have "suffix r (drop 2 s)" using suffix_after_gt [OF u(2)] suffix_qname [OF u(1)] by (rule suffix_order.trans)
  then show "suffix r s" using suffix_drop by (rule suffix_order.trans)
qed

lemma suffix_startTagClose: "startTagClose s = Some (b, r) \<Longrightarrow> suffix r s"
proof -
  assume "startTagClose s = Some (b, r)"
  then obtain n where r: "r = drop n (dropWhile is_space s)"
    by (auto simp: startTagClose_def Let_def split: if_splits)
  show "suffix r s" unfolding r using suffix_drop suffix_dropWhile by (rule suffix_order.trans)
qed

lemma suffix_attribute: "attribute s = Some (n, v, q) \<Longrightarrow> suffix q s"
proof -
  assume a: "attribute s = Some (n, v, q)"
  let ?m = "dropWhile attr_char (dropWhile is_space s)"
  have m: "suffix ?m s" using suffix_dropWhile suffix_dropWhile by (rule suffix_order.trans)
  have "suffix q ?m"
    using a suffix_attr_value [of ?m v q] by (auto simp: attribute_def Let_def split: option.splits if_splits)
  then show "suffix q s" using m by (rule suffix_order.trans)
qed

lemma suffix_tag_attrs: "suffix (snd (tag_attrs s)) s"
proof (induction s rule: tag_attrs.induct)
  case (1 s)
  show ?case
  proof (cases "startTagClose s = None \<and> attribute s \<noteq> None")
    case True
    then obtain n v q where q: "attribute s = Some (n, v, q)" by (cases "attribute s") auto
    have "suffix (snd (tag_attrs q)) q" using 1 True q by simp
    then have "suffix (snd (tag_attrs q)) s" using suffix_attribute [OF q] by (rule suffix_order.trans)
    then show ?thesis using True q by (subst tag_attrs.simps) (simp add: case_prod_beta)
  next
    case False
    then show ?thesis by (subst tag_attrs.simps) (auto split: option.splits)
  qed
qed

lemma suffix_parseStartTag: "suffix (snd (parseStartTag s)) s"
proof (cases "startTagOpen s")
  case (Some p)
  obtain t r where p: "p = (t, r)" by (cases p)
  obtain as q where q: "tag_attrs r = (as, q)" by (cases "tag_attrs r")
  have "suffix q r" using suffix_tag_attrs [of r] q by simp
  then have s: "suffix q s" using suffix_startTagOpen Some p by (metis suffix_order.trans)
  show ?thesis
  proof (cases "startTagClose q")
    case None
    with s Some p q show ?thesis by (simp add: parseStartTag_def)
  next
    case (Some c)
    obtain b q' where c: "c = (b, q')" by (cases c)
    have "suffix q' s" using suffix_startTagClose s Some c by (metis suffix_order.trans)
    with \<open>startTagOpen s = Some p\<close> p q Some c show ?thesis by (simp add: parseStartTag_def)
  qed
qed (simp add: parseStartTag_def)

lemma suffix_until_close: "until_close t s = Some (a, r) \<Longrightarrow> suffix r s"
proof (induction s arbitrary: a)
  case (Cons c s)
  show ?case
  proof (cases "if starts_with (''</'' @ t) (toLowerCase (c # s)) then after_gt (drop (2 + length t) (c # s)) else None")
    case None
    with Cons.prems obtain a' where "until_close t s = Some (a', r)"
      by (auto simp del: drop_Suc_Cons)
    with Cons.IH have "suffix r s" by blast
    then show ?thesis by (rule suffix_ConsI)
  next
    case (Some q)
    with Cons.prems have "q = r" by simp
    moreover have "after_gt (drop (2 + length t) (c # s)) = Some q" using Some by (metis option.distinct(1))
    then have "suffix q (drop (2 + length t) (c # s))" by (rule suffix_after_gt)
    ultimately show ?thesis using suffix_drop suffix_order.trans by metis
  qed
qed simp

lemma html_unchanged [simp]:
  "hs_html (emit es st) = hs_html st"
  "hs_html (close_tags b n st) = hs_html st"
  "hs_html (parseEndTag t st) = hs_html st"
  "hs_html (set_html s st) = s"
  by (auto simp: emit_def close_tags_def parseEndTag_def set_html_def Let_def split: option.splits)

lemma html_handleStartTag [simp]: "hs_html (handleStartTag opts t as sl st) = hs_html st"
  by (simp add: handleStartTag_def Let_def)

lemma suffix_text_step: "suffix (hs_html (text_step k st)) (hs_html st)"
  by (auto simp: text_step_def Let_def suffix_drop split: option.splits)

lemma suffix_doctype: "doctype s = Some r \<Longrightarrow> suffix r s"
proof -
  assume "doctype s = Some r"
  then have "after_gt (drop 10 s) = Some r" by (auto simp: doctype_def split: if_splits)
  then have "suffix r (drop 10 s)" by (rule suffix_after_gt)
  then show "suffix r s" using suffix_drop by (rule suffix_order.trans)
qed

lemma suffix_markup_step: "suffix (hs_html (markup_step opts st)) (hs_html st)"
proof -
  let ?h = "hs_html st"
  have start: "suffix r ?h" if "parseStartTag ?h = (m, r)" for m r
    using suffix_parseStartTag [of ?h] that by simp
  have txt1: "suffix (hs_html (text_step (Some 0) (set_html r st))) ?h" if "parseStartTag ?h = (m, r)" for m r
    using suffix_text_step [of "Some 0" "set_html r st"] start [OF that] by (metis html_unchanged(4) suffix_order.trans)
  have drop: "suffix (drop 1 r) ?h" if "parseStartTag ?h = (m, r)" for m r
    using suffix_drop start [OF that] by (rule suffix_order.trans)
  show ?thesis
    by (auto simp: markup_step_def Let_def suffix_drop suffix_doctype suffix_endTag start drop [simplified] txt1
        split: option.splits prod.splits)
qed

lemma suffix_plain_step: "suffix (hs_html (plain_step t st)) (hs_html st)"
  by (auto simp: plain_step_def Let_def suffix_until_close split: option.splits)

theorem suffix_html_step: "suffix (hs_html (html_step opts st)) (hs_html st)"
  by (auto simp: html_step_def suffix_plain_step suffix_markup_step suffix_text_step split: option.splits nat.splits)

text \<open>
  The loop of \<open>parseHTML\<close>: it ends at the end of the input, and after a turn that consumed nothing,
  whose input is text.
\<close>

definition malformed :: "hstate \<Rightarrow> hstate" where
  "malformed st =
     emit (EChars (hs_html st) #
           (if hs_stack st = [] then [EWarn (''Mal-formatted tag at end of template: '' @ dq # hs_html st @ [dq])] else []))
       st"

function parse_loop :: "html_options \<Rightarrow> hstate \<Rightarrow> hstate" where
  "parse_loop opts st =
     (if hs_html st = [] then st
      else let st' = html_step opts st in
        if hs_html st' = hs_html st then malformed st' else parse_loop opts st')"
  by pat_completeness auto
termination
proof (relation "measure (\<lambda>(opts, st). length (hs_html st))", goal_cases)
  case 1
  show ?case by simp
next
  case (2 opts st x)
  have "suffix (hs_html x) (hs_html st)" unfolding 2(2) by (rule suffix_html_step)
  with 2(3) show ?case
    by (auto simp: suffix_def)
qed

declare parse_loop.simps [simp del]

definition html_init :: "string \<Rightarrow> hstate" where
  "html_init html = \<lparr>hs_html = html, hs_stack = [], hs_lastTag = None, hs_events = []\<rparr>"

definition parseHTML :: "html_options \<Rightarrow> string \<Rightarrow> event list" where
  "parseHTML opts html = hs_events (parseEndTag None (parse_loop opts (html_init html)))"

section \<open>Invariants of the parser\<close>

text \<open>
  What a property of the parser's state has to survive so that the whole parser keeps it: the
  moves of the input, the callbacks for text and warnings (and comments when they are kept), the
  opening of a tag and the closing of the innermost open ones.
\<close>

definition open_tag :: "string \<Rightarrow> (string \<times> string) list \<Rightarrow> bool \<Rightarrow> hstate \<Rightarrow> hstate" where
  "open_tag t as unary st =
     emit [EStart t as unary]
       (if \<not> unary then st\<lparr>hs_stack := t # hs_stack st, hs_lastTag := Some t\<rparr> else st)"

locale parser_invariant =
  fixes I :: "html_options \<Rightarrow> hstate \<Rightarrow> bool"
  assumes advance: "I opts st \<Longrightarrow> I opts (set_html s st)"
    and chars: "I opts st \<Longrightarrow> I opts (emit [EChars s] st)"
    and warned: "I opts st \<Longrightarrow> I opts (emit [EWarn s] st)"
    and comment: "I opts st \<Longrightarrow> ho_comments opts \<Longrightarrow> I opts (emit [EComment s] st)"
    and opened: "I opts st \<Longrightarrow> I opts (open_tag t as unary st)"
    and closed: "I opts st \<Longrightarrow> n \<le> length (hs_stack st) \<Longrightarrow> I opts (close_tags b n st)"
    and empty: "I opts st \<Longrightarrow> I opts (emit [EStart t [] False, EEnd t] st)"
begin

lemma void: "I opts st \<Longrightarrow> I opts (emit [EStart t [] True] st)"
  using opened [of opts st t "[]" True] by (simp add: open_tag_def)

lemma close_found: "I opts st \<Longrightarrow> index_by p (hs_stack st) = Some i \<Longrightarrow> I opts (close_tags b (Suc i) st)"
  using index_by_Some [of p "hs_stack st" i] by (intro closed) auto

lemma end_tag: "I opts st \<Longrightarrow> I opts (parseEndTag t st)"
  by (auto simp: parseEndTag_def intro: closed close_found void empty split: option.splits)

lemma start_tag: "I opts st \<Longrightarrow> I opts (handleStartTag opts t as slash st)"
  unfolding handleStartTag_def Let_def open_tag_def [symmetric]
  by (rule opened) (simp add: end_tag)

lemma chars_if: "I opts st \<Longrightarrow> I opts (emit (chars_if s) st)"
  by (cases "s = []") (simp_all add: chars_if_def chars, simp add: emit_def)

lemma text_turn: "I opts st \<Longrightarrow> I opts (text_step k st)"
  by (auto simp: text_step_def Let_def intro: chars_if advance split: option.splits)

lemma markup_turn: "I opts st \<Longrightarrow> I opts (markup_step opts st)"
  by (auto simp: markup_step_def Let_def intro: advance comment end_tag start_tag text_turn
      split: option.splits prod.splits)

lemma plain_turn: "I opts st \<Longrightarrow> I opts (plain_step t st)"
  by (auto simp: plain_step_def Let_def intro: end_tag chars advance split: option.splits)

lemma turn: "I opts st \<Longrightarrow> I opts (html_step opts st)"
  by (auto simp: html_step_def intro: plain_turn markup_turn text_turn split: option.splits nat.splits)

lemma end_malformed: "I opts st \<Longrightarrow> I opts (malformed st)"
proof -
  assume i: "I opts st"
  have e: "emit (a # es) st = emit es (emit [a] st)" for a es by (simp add: emit_def)
  have n: "emit [] s = s" for s by (simp add: emit_def)
  show ?thesis unfolding malformed_def by (subst e) (simp add: n i chars warned)
qed

lemma loop: "I opts st \<Longrightarrow> I opts (parse_loop opts st)"
proof (induction opts st rule: parse_loop.induct)
  case (1 opts st)
  then show ?case
    using turn [of opts st] by (subst parse_loop.simps) (auto simp: Let_def intro: end_malformed)
qed

lemma finished: "I opts (html_init html) \<Longrightarrow> I opts (parseEndTag None (parse_loop opts (html_init html)))"
  by (intro end_tag loop)

end

section \<open>Balanced tags\<close>

text \<open>The open tags after some events, or \<open>None\<close> when an end tag does not match.\<close>

fun nest :: "string list \<Rightarrow> event list \<Rightarrow> string list option" where
  "nest s [] = Some s"
| "nest s (EStart t as unary # es) = nest (if unary then s else t # s) es"
| "nest s (EEnd t # es) = (case s of t' # r \<Rightarrow> if t' = t then nest r es else None | [] \<Rightarrow> None)"
| "nest s (EChars _ # es) = nest s es"
| "nest s (EComment _ # es) = nest s es"
| "nest s (EWarn _ # es) = nest s es"

lemma nest_append: "nest s (es @ fs) = Option.bind (nest s es) (\<lambda>s'. nest s' fs)"
  by (induction s es rule: nest.induct) (auto split: list.splits)

lemma nest_closing:
  "nest (map snd ps @ rest) (concat (map (\<lambda>(i, t). (if W i then [no_end_warning t] else []) @ [EEnd t]) ps)) = Some rest"
  by (induction ps) (auto simp: no_end_warning_def)

lemma nest_closing_zip:
  assumes "length s = n"
  shows "nest (s @ rest) (concat (map (\<lambda>(i, t). (if W i then [no_end_warning t] else []) @ [EEnd t]) (zip [0..<n] s))) = Some rest"
  using nest_closing [of "zip [0..<n] s" rest W] assms by simp

definition tags_ok :: "hstate \<Rightarrow> bool" where
  "tags_ok st \<longleftrightarrow>
     nest [] (hs_events st) = Some (hs_stack st) \<and>
     hs_lastTag st = (case hs_stack st of t # _ \<Rightarrow> Some t | [] \<Rightarrow> None)"

lemma tags_ok_set_html [simp]: "tags_ok (set_html s st) = tags_ok st"
  by (simp add: tags_ok_def set_html_def)

lemma tags_ok_emit: "tags_ok st \<Longrightarrow> (\<And>s. nest s es = Some s) \<Longrightarrow> tags_ok (emit es st)"
  by (simp add: tags_ok_def emit_def nest_append)

lemma tags_ok_close_tags:
  assumes ok: "tags_ok st" and n: "n \<le> length (hs_stack st)"
  shows "tags_ok (close_tags named n st)"
proof -
  let ?es = "concat (map (\<lambda>(i, t). (if i + 1 < n \<or> \<not> named then [no_end_warning t] else []) @ [EEnd t])
                 (zip [0..<n] (take n (hs_stack st))))"
  have "nest (take n (hs_stack st) @ drop n (hs_stack st)) ?es = Some (drop n (hs_stack st))"
    by (rule nest_closing_zip) (use n in simp)
  with ok show ?thesis by (simp add: close_tags_def tags_ok_def emit_def Let_def nest_append)
qed

interpretation balanced: parser_invariant "\<lambda>opts. tags_ok"
  by unfold_locales
    (auto intro: tags_ok_emit tags_ok_close_tags simp: open_tag_def, auto simp: tags_ok_def emit_def nest_append)

lemma parseEndTag_all: "hs_stack (parseEndTag None st) = []"
  by (simp add: parseEndTag_def close_tags_def emit_def Let_def)

text \<open>
  C14. For every input and all options the events of \<open>parseHTML\<close> are balanced: every end callback is for
  the innermost element that is still open, and when the parser returns (it always does) no
  element is left open.
\<close>

theorem parseHTML_balanced: "nest [] (parseHTML opts html) = Some []"
proof -
  have "tags_ok (html_init html)" by (simp add: tags_ok_def html_init_def)
  then have "tags_ok (parseEndTag None (parse_loop opts (html_init html)))"
    by (rule balanced.finished)
  then show ?thesis by (simp add: tags_ok_def parseHTML_def parseEndTag_all)
qed

text \<open>Without comments in the options there is no event for one.\<close>

definition comments_dropped :: "html_options \<Rightarrow> hstate \<Rightarrow> bool" where
  "comments_dropped opts st \<longleftrightarrow> ho_comments opts \<or> (\<forall>s. EComment s \<notin> set (hs_events st))"

interpretation no_comments: parser_invariant comments_dropped
  by unfold_locales
    (auto simp: comments_dropped_def set_html_def emit_def open_tag_def close_tags_def no_end_warning_def Let_def)

lemma parseHTML_no_comments: "\<not> ho_comments opts \<Longrightarrow> EComment s \<notin> set (parseHTML opts html)"
  using no_comments.finished [of opts html] by (simp add: comments_dropped_def html_init_def parseHTML_def)

text \<open>The first callback stays the first.\<close>

interpretation first_event: parser_invariant "\<lambda>opts st. \<exists>es. hs_events st = e # es" for e
  by unfold_locales
    (auto simp: set_html_def emit_def open_tag_def close_tags_def Let_def)

lemma find_sub_middle: "find_sub p (a @ p @ b) \<noteq> None"
proof (induction a)
  case Nil
  show ?case by (cases "p @ b") (auto simp: starts_with_def, metis append_Nil append_eq_conv_conj)
next
  case (Cons c a)
  then show ?case by simp
qed

lemma parseHTML_comment_first:
  assumes "ho_comments opts"
  shows "\<exists>s es. parseHTML opts (''<!--'' @ c @ ''-->'' @ rest) = EComment s # es"
proof -
  let ?h = "''<!--'' @ c @ ''-->'' @ rest"
  have i: "is_comment ?h" by (simp add: is_comment_def starts_with_def)
  obtain k where k: "find_sub ''-->'' ?h = Some k"
    using find_sub_middle [of "''-->''" "''<!--'' @ c" rest] by auto
  have lt: "find_char (CHR ''<'') ?h = Some 0" by (simp add: find_char_def)
  let ?st = "html_step opts (html_init ?h)"
  have st: "?st = set_html (drop (k + 3) ?h) (emit [EComment (substring 4 k ?h)] (html_init ?h))"
    using i k lt assms by (simp add: html_step_def markup_step_def html_init_def Let_def)
  have e: "\<exists>es. hs_events ?st = EComment (substring 4 k ?h) # es"
    unfolding st by (simp add: html_init_def emit_def set_html_def)
  have "parse_loop opts (html_init ?h) = parse_loop opts ?st"
  proof -
    have "hs_html ?st = drop (k + 3) ?h" by (simp only: st html_unchanged)
    moreover have "drop (k + 3) ?h \<noteq> ?h" using length_drop [of "k + 3" ?h] by (metis append_is_Nil_conv diff_less
          length_greater_0_conv less_irrefl not_Cons_self2 list.distinct(1) zero_less_numeral add_gr_0)
    ultimately have "hs_html ?st \<noteq> hs_html (html_init ?h)" by (simp only: html_init_def hstate.select_convs) simp
    then show ?thesis by (subst parse_loop.simps) (simp add: html_init_def)
  qed
  with first_event.loop [OF e, of opts] have "\<exists>es. hs_events (parseEndTag None (parse_loop opts (html_init ?h))) = EComment (substring 4 k ?h) # es"
    by (intro first_event.end_tag) simp
  then show ?thesis by (auto simp: parseHTML_def)
qed

end
