(* ===== verification/TemplateParse.thy ===== *)
theory TemplateParse
  imports ElementParse ParseHTML
begin

text \<open>
  \<open>parse\<close> of \<open>frontend/js/vue.js\<close>: the callbacks it gives \<open>parseHTML\<close>, which build the syntax tree.
  The elements that are open form a stack of frames, innermost first; an element joins its parent
  when it is closed, at the place that the start callback chose for it (nothing else touches the
  parent in between). \<open>None\<close> is the TypeError of a callback that reads a field of an undefined
  element. The modules are those of the web platform (class, style and the dynamic type of inputs),
  which have no post-transform. The lemmas show that \<open>parse\<close> returns a complete tree when
  comments are dropped, and what can never be in that tree.
\<close>

section \<open>State\<close>

text \<open>\<open>po_decode\<close> is \<open>he.decode\<close>, which asks the document to decode the entities.\<close>

record parse_options =
  po_html :: html_options
  po_delimiters :: "(string \<times> string) option"
  po_preserveWhitespace :: bool
  po_isIE :: bool
  po_serverRendering :: bool
  po_decode :: "string \<Rightarrow> string"

datatype place =
    AsRoot
  | AsRootCondition "string option"
  | AsChild
  | AsCondition "string option"
  | AsScopedSlot string
  | Dropped

record frame =
  f_el :: elem
  f_children :: "node list"
  f_conds :: "(string option \<times> node) list"
  f_scoped :: "(string \<times> node) list option"
  f_place :: place

record pstate =
  p_root :: "node option"
  p_stack :: "frame list"
  p_inVPre :: bool
  p_inPre :: bool
  p_warned :: bool
  p_warns :: warns

definition warn_all :: "warns \<Rightarrow> pstate \<Rightarrow> pstate" where
  "warn_all w st = st\<lparr>p_warns := p_warns st @ w\<rparr>"

definition warnOnce :: "string \<Rightarrow> pstate \<Rightarrow> pstate" where
  "warnOnce msg st = (if p_warned st then st else warn_all (err msg) (st\<lparr>p_warned := True\<rparr>))"

definition frame_node :: "frame \<Rightarrow> node" where
  "frame_node f = Element (f_el f) (f_children f) (f_conds f) (f_scoped f)"

definition closeElement :: "elem \<Rightarrow> pstate \<Rightarrow> pstate" where
  "closeElement el st =
     st\<lparr>p_inVPre := (p_inVPre st \<and> \<not> el_pre el), p_inPre := (p_inPre st \<and> \<not> isPreTag (tag el))\<rparr>"

section \<open>The start callback\<close>

text \<open>
  The element up to its place: the namespace, the pre-transforms and the directives. The third
  result are the conditions a dynamic input brings with it.
\<close>

definition start_ns :: "pstate \<Rightarrow> string \<Rightarrow> string option" where
  "start_ns st t =
     (let inherited = (case p_stack st of f # _ \<Rightarrow> ns (f_el f) | [] \<Rightarrow> None)
      in if tru inherited then inherited else getTagNamespace t)"

definition start_element ::
    "parse_options \<Rightarrow> string \<Rightarrow> (string \<times> string) list \<Rightarrow> pstate \<Rightarrow> elem \<times> warns" where
  "start_element opts t as0 st =
     (let n = start_ns st t;
          as = (if po_isIE opts \<and> n = Some ''svg'' then guardIESVGBug as0 else as0);
          (e0, w0) = createASTElement t as;
          e1 = put_if (tru n) (\<lambda>e. e\<lparr>ns := n\<rparr>) e0;
          bad = (isForbiddenTag e1 \<and> \<not> po_serverRendering opts)
      in (put_if bad (\<lambda>e. e\<lparr>forbidden := True\<rparr>) e1,
          (if po_isIE opts then [] else w0) @
          (if bad then
             err (''Templates should only be responsible for mapping the state to the '' @
                  ''UI. Avoid placing tags with side-effects in your templates, such as '' @
                  ''<'' @ t @ ''>'' @ '', as they will not be parsed.'')
           else [])))"

text \<open>The element and the conditions after the pre-transforms\<close>

definition pre_transforms ::
    "parse_options \<Rightarrow> elem list \<Rightarrow> elem \<Rightarrow> (elem \<times> (string option \<times> node) list) \<times> warns" where
  "pre_transforms opts anc e0 =
     (let (br, e1, w) = preTransformNode (po_delimiters opts) anc e0
      in (case br of Some b \<Rightarrow> b | None \<Rightarrow> (e1, []), w))"

definition structural :: step where
  "structural el = (let (e1, w1) = processFor el in (processOnce (processIf e1), w1))"

definition start_directives ::
    "parse_options \<Rightarrow> elem list \<Rightarrow> elem \<Rightarrow> pstate \<Rightarrow> elem \<times> pstate" where
  "start_directives opts anc el st =
     (let el1 = (if \<not> p_inVPre st then processPre el else el);
          st1 = (if \<not> p_inVPre st \<and> el_pre el1 then st\<lparr>p_inVPre := True\<rparr> else st);
          st2 = (if isPreTag (tag el1) then st1\<lparr>p_inPre := True\<rparr> else st1)
      in if p_inVPre st2 then (processRawAttrs el1, st2)
         else if \<not> processed el1 then
           (let (el2, w) = seq structural (processElement (po_delimiters opts) anc) el1 in (el2, warn_all w st2))
         else (el1, st2))"

definition checkRootConstraints :: "elem \<Rightarrow> pstate \<Rightarrow> pstate" where
  "checkRootConstraints el st =
     (let st1 = (if tag el = ''slot'' \<or> tag el = ''template'' then
                   warnOnce (''Cannot use <'' @ tag el @ ''> as component root element because it may '' @
                             ''contain multiple nodes.'') st else st)
      in if map_of (attrsMap el) ''v-for'' \<noteq> None then
           warnOnce (''Cannot use v-for on stateful component root element because '' @
                     ''it renders multiple elements.'') st1 else st1)"

definition is_else :: "elem \<Rightarrow> bool" where
  "is_else el \<longleftrightarrow> tru (el_elseif el) \<or> el_else el"

text \<open>The place of an element without an open parent.\<close>

definition place_root :: "elem \<Rightarrow> pstate \<Rightarrow> place \<times> pstate" where
  "place_root el st =
     (case p_root st of
        None \<Rightarrow> (AsRoot, checkRootConstraints el st)
      | Some r \<Rightarrow>
          (if (case r of Element e _ _ _ \<Rightarrow> tru (el_if e) | _ \<Rightarrow> False) \<and> is_else el then
             (AsRootCondition (el_elseif el), checkRootConstraints el st)
           else (Dropped,
             warnOnce (''Component template should contain exactly one root element. '' @
                       ''If you are using v-if on multiple elements, '' @
                       ''use v-else-if to chain them instead.'') st)))"

text \<open>
  The place under the parent \<open>f\<close>. \<open>processIfConditions\<close> at once drops the text before the block and
  warns; the block itself joins the last element, if that has a \<open>v-if\<close>, when it is closed.
\<close>

definition place_child :: "elem \<Rightarrow> frame \<Rightarrow> frame \<times> place \<times> warns" where
  "place_child el f =
     (if forbidden el then (f, Dropped, [])
      else if is_else el then
        (let (cs, _) = findPrevElement (f_children f);
             (_, w) = processIfConditions el (Element el [] [] None) (f_children f);
             ok = (cs \<noteq> [] \<and> (case last cs of Element p _ _ _ \<Rightarrow> tru (el_if p) | _ \<Rightarrow> False))
         in (f\<lparr>f_children := cs\<rparr>, if ok then AsCondition (el_elseif el) else Dropped, w))
      else if tru (slotScope el) then
        (f\<lparr>f_el := (f_el f)\<lparr>plain := False\<rparr>,
           f_scoped := Some (case f_scoped f of Some s \<Rightarrow> s | None \<Rightarrow> [])\<rparr>,
         AsScopedSlot (str_or (slotTarget el) ([dq] @ ''default'' @ [dq])), [])
      else (f, AsChild, []))"

definition start_place :: "elem \<Rightarrow> pstate \<Rightarrow> place \<times> pstate" where
  "start_place el st =
     (case p_stack st of
        [] \<Rightarrow> place_root el st
      | f # fs \<Rightarrow> (let (f', pl, w) = place_child el f in (pl, warn_all w (st\<lparr>p_stack := f' # fs\<rparr>))))"

text \<open>What closing does with the finished node.\<close>

definition add_condition :: "string option \<times> node \<Rightarrow> node list \<Rightarrow> node list" where
  "add_condition c ns' = (if ns' = [] then [] else butlast ns' @ [addIfCondition (last ns') c])"

definition attach_frame :: "place \<Rightarrow> node \<Rightarrow> frame \<Rightarrow> frame" where
  "attach_frame pl n f =
     (case pl of
        AsChild \<Rightarrow> f\<lparr>f_children := f_children f @ [n]\<rparr>
      | AsCondition e \<Rightarrow> f\<lparr>f_children := add_condition (e, n) (f_children f)\<rparr>
      | AsScopedSlot k \<Rightarrow> f\<lparr>f_scoped := Some (obj_put k n (case f_scoped f of Some s \<Rightarrow> s | None \<Rightarrow> []))\<rparr>
      | _ \<Rightarrow> f)"

definition attach :: "place \<Rightarrow> node \<Rightarrow> pstate \<Rightarrow> pstate" where
  "attach pl n st =
     (case pl of
        AsRoot \<Rightarrow> st\<lparr>p_root := Some n\<rparr>
      | AsRootCondition e \<Rightarrow> st\<lparr>p_root := map_option (\<lambda>r. addIfCondition r (e, n)) (p_root st)\<rparr>
      | _ \<Rightarrow> (case p_stack st of f # fs \<Rightarrow> st\<lparr>p_stack := attach_frame pl n f # fs\<rparr> | [] \<Rightarrow> st))"

definition parse_start ::
    "parse_options \<Rightarrow> string \<Rightarrow> (string \<times> string) list \<Rightarrow> bool \<Rightarrow> pstate \<Rightarrow> pstate" where
  "parse_start opts t as unary st =
     (let anc = map f_el (p_stack st);
          (e0, w0) = start_element opts t as st;
          ((e2, conds), w1) = pre_transforms opts anc e0;
          (e3, st1) = start_directives opts anc e2 (warn_all (w0 @ w1) st);
          (pl, st2) = start_place e3 st1;
          f = \<lparr>f_el = e3, f_children = [], f_conds = conds, f_scoped = None, f_place = pl\<rparr>
      in if unary then closeElement e3 (attach pl (frame_node f) st2)
         else st2\<lparr>p_stack := f # p_stack st2\<rparr>)"

section \<open>The other callbacks\<close>

definition drop_trailing_blank :: "bool \<Rightarrow> node list \<Rightarrow> node list" where
  "drop_trailing_blank inPre ch =
     (if ch \<noteq> [] \<and> (case last ch of TextNode t _ \<Rightarrow> t = '' '' | _ \<Rightarrow> False) \<and> \<not> inPre
      then butlast ch else ch)"

definition parse_end :: "pstate \<Rightarrow> pstate option" where
  "parse_end st =
     (case p_stack st of
        [] \<Rightarrow> None
      | f # fs \<Rightarrow>
          (let f' = f\<lparr>f_children := drop_trailing_blank (p_inPre st) (f_children f)\<rparr>
           in Some (closeElement (f_el f) (attach (f_place f) (frame_node f') (st\<lparr>p_stack := fs\<rparr>)))))"

definition push_child :: "node \<Rightarrow> frame \<Rightarrow> frame" where
  "push_child n f = f\<lparr>f_children := f_children f @ [n]\<rparr>"

text \<open>The text as it goes into the tree: entities decoded, white space condensed.\<close>

definition char_data :: "parse_options \<Rightarrow> bool \<Rightarrow> frame \<Rightarrow> string \<Rightarrow> string" where
  "char_data opts inPre f s =
     (if inPre \<or> trim s \<noteq> [] then (if isTextTag (f_el f) then s else po_decode opts s)
      else if po_preserveWhitespace opts \<and> f_children f \<noteq> [] then '' '' else [])"

definition add_text :: "parse_options \<Rightarrow> bool \<Rightarrow> string \<Rightarrow> frame \<Rightarrow> frame" where
  "add_text opts inVPre s f =
     (if s = [] then f
      else
        case (if \<not> inVPre \<and> s \<noteq> '' '' then parseText s (po_delimiters opts) else None) of
          Some (exp, _) \<Rightarrow> push_child (Expression exp s) f
        | None \<Rightarrow>
            (if s \<noteq> '' '' \<or> f_children f = [] \<or> node_text (last (f_children f)) \<noteq> '' ''
             then push_child (TextNode s False) f else f))"

definition parse_chars :: "parse_options \<Rightarrow> string \<Rightarrow> string \<Rightarrow> pstate \<Rightarrow> pstate" where
  "parse_chars opts template s st =
     (case p_stack st of
        [] \<Rightarrow>
          (if s = template then
             warnOnce ''Component template requires a root element, rather than just text.'' st
           else if trim s \<noteq> [] then
             warnOnce (''text '' @ [dq] @ trim s @ [dq] @ '' outside root element will be ignored.'') st
           else st)
      | f # fs \<Rightarrow>
          (if po_isIE opts \<and> tag (f_el f) = ''textarea'' \<and> map_of (attrsMap (f_el f)) ''placeholder'' = Some s
           then st
           else st\<lparr>p_stack := add_text opts (p_inVPre st) (char_data opts (p_inPre st) f s) f # fs\<rparr>))"

definition parse_comment :: "string \<Rightarrow> pstate \<Rightarrow> pstate option" where
  "parse_comment s st =
     (case p_stack st of
        [] \<Rightarrow> None
      | f # fs \<Rightarrow> Some (st\<lparr>p_stack := push_child (TextNode s True) f # fs\<rparr>))"

definition callback :: "parse_options \<Rightarrow> string \<Rightarrow> event \<Rightarrow> pstate \<Rightarrow> pstate option" where
  "callback opts template e st =
     (case e of
        EStart t as unary \<Rightarrow> Some (parse_start opts t as unary st)
      | EEnd _ \<Rightarrow> parse_end st
      | EChars s \<Rightarrow> Some (parse_chars opts template s st)
      | EComment s \<Rightarrow> parse_comment s st
      | EWarn msg \<Rightarrow> Some (warn_all (err msg) st))"

fun callbacks :: "parse_options \<Rightarrow> string \<Rightarrow> event list \<Rightarrow> pstate \<Rightarrow> pstate option" where
  "callbacks opts template [] st = Some st"
| "callbacks opts template (e # es) st =
     (case callback opts template e st of Some st' \<Rightarrow> callbacks opts template es st' | None \<Rightarrow> None)"

definition parse_init :: pstate where
  "parse_init = \<lparr>p_root = None, p_stack = [], p_inVPre = False, p_inPre = False, p_warned = False, p_warns = []\<rparr>"

text \<open>The tree (\<open>undefined\<close> when the template has no element) and the warnings.\<close>

definition parse :: "parse_options \<Rightarrow> string \<Rightarrow> (node option \<times> warns) option" where
  "parse opts template =
     map_option (\<lambda>st. (p_root st, p_warns st))
       (callbacks opts template (parseHTML (po_html opts) template) parse_init)"

section \<open>The parser returns\<close>

lemma stack_simps [simp]:
  "p_stack (warn_all w st) = p_stack st"
  "p_stack (warnOnce msg st) = p_stack st"
  "p_stack (closeElement el st) = p_stack st"
  "p_stack (checkRootConstraints el st) = p_stack st"
  "p_stack (snd (place_root el st)) = p_stack st"
  "p_stack (snd (start_directives opts anc el st)) = p_stack st"
  by (auto simp: warn_all_def warnOnce_def closeElement_def checkRootConstraints_def place_root_def
      start_directives_def Let_def case_prod_beta split: option.split)

lemma depth_attach [simp]: "length (p_stack (attach pl n st)) = length (p_stack st)"
  by (auto simp: attach_def split: place.split list.split)

lemma depth_place [simp]: "length (p_stack (snd (start_place el st))) = length (p_stack st)"
  by (simp add: start_place_def case_prod_beta split: list.split)

lemma depth_start: "length (p_stack (parse_start opts t as unary st)) = length (p_stack st) + (if unary then 0 else 1)"
  by (simp add: parse_start_def Let_def case_prod_beta)

lemma depth_chars: "length (p_stack (parse_chars opts template s st)) = length (p_stack st)"
  by (auto simp: parse_chars_def split: list.split)

text \<open>The stack of \<open>parse\<close> is as deep as the one of \<open>parseHTML\<close>.\<close>

lemma callbacks_depth:
  assumes "nest s es = Some s'" "length (p_stack st) = length s" "\<forall>c. EComment c \<notin> set es"
  shows "\<exists>st'. callbacks opts template es st = Some st' \<and> length (p_stack st') = length s'"
  using assms
proof (induction es arbitrary: s st)
  case (Cons e es)
  have rest: "\<exists>st'. callbacks opts template es st1 = Some st' \<and> length (p_stack st') = length s'"
    if "nest s1 es = Some s'" "length (p_stack st1) = length s1" for s1 st1
    using Cons.IH that Cons.prems(3) by simp
  show ?case
  proof (cases e)
    case (EStart t as u)
    with Cons.prems show ?thesis
      by (simp only: callbacks.simps callback_def event.case option.case nest.simps)
        (rule rest, auto simp: depth_start)
  next
    case (EEnd t)
    with Cons.prems obtain r where r: "s = t # r" "nest r es = Some s'" by (auto split: list.splits if_splits)
    with Cons.prems obtain f fs where f: "p_stack st = f # fs" "length fs = length r"
      by (cases "p_stack st") auto
    show ?thesis using r f by (simp add: EEnd callback_def parse_end_def Let_def rest)
  next
    case (EChars c)
    with Cons.prems show ?thesis by (simp add: callback_def rest depth_chars)
  next
    case (EComment c)
    with Cons.prems show ?thesis by auto
  next
    case (EWarn c)
    with Cons.prems show ?thesis by (simp add: callback_def rest)
  qed
qed simp

text \<open>
  C17. When comments are not kept (the default), \<open>parse\<close> returns for every template and all options: no
  callback reads a field of an undefined element, whatever the nesting of the tags, and the tree
  is complete: no element is still open.
\<close>

theorem parse_returns:
  assumes "\<not> ho_comments (po_html opts)"
  shows "\<exists>st. callbacks opts template (parseHTML (po_html opts) template) parse_init = Some st \<and>
    p_stack st = [] \<and> parse opts template = Some (p_root st, p_warns st)"
proof -
  have "\<exists>st. callbacks opts template (parseHTML (po_html opts) template) parse_init = Some st \<and>
      length (p_stack st) = length ([] :: string list)"
    by (rule callbacks_depth [OF parseHTML_balanced])
      (use assms parseHTML_no_comments in \<open>auto simp: parse_init_def\<close>)
  then show ?thesis by (auto simp: parse_def)
qed

definition default_options :: parse_options where
  "default_options =
     \<lparr>po_html = \<lparr>ho_expectHTML = True, ho_decodeNewlines = False, ho_decodeNewlinesForHref = False, ho_comments = False\<rparr>,
      po_delimiters = None, po_preserveWhitespace = True, po_isIE = False, po_serverRendering = False,
      po_decode = (\<lambda>s. s)\<rparr>"

lemma parse_returns_witness:
  "\<exists>st. callbacks default_options ''<p>a</div>'' (parseHTML (po_html default_options) ''<p>a</div>'') parse_init = Some st \<and>
    p_stack st = [] \<and> parse default_options ''<p>a</div>'' = Some (p_root st, p_warns st)"
  by (rule parse_returns) (simp add: default_options_def)

text \<open>
  When comments are kept, a template that starts with a comment makes \<open>parse\<close> throw: the comment
  callback reads the children of the current parent, and outside the root there is none.
\<close>

theorem parse_comment_at_root:
  assumes "ho_comments (po_html opts)"
  shows "parse opts (''<!--'' @ c @ ''-->'' @ rest) = None"
proof -
  obtain s es where e: "parseHTML (po_html opts) (''<!--'' @ c @ ''-->'' @ rest) = EComment s # es"
    using parseHTML_comment_first [OF assms] by blast
  show ?thesis
    by (simp only: parse_def e callbacks.simps callback_def event.case parse_comment_def parse_init_def
        pstate.select_convs list.case option.case option.map)
qed

lemma parse_comment_at_root_witness:
  "parse (default_options\<lparr>po_html := (po_html default_options)\<lparr>ho_comments := True\<rparr>\<rparr>) (''<!--'' @ ''x'' @ ''-->'' @ ''<p></p>'') = None"
  by (rule parse_comment_at_root) simp

section \<open>No scripts or styles in the tree\<close>

text \<open>
  An element below the root is never a style sheet or a script: such elements are dropped with all
  they contain. (A root, and a root's \<open>v-else\<close> block, are kept with a warning.)
\<close>

fun clean :: "node \<Rightarrow> bool" where
  "clean (Element el ch ic sc) \<longleftrightarrow>
     \<not> isForbiddenTag el \<and> list_all clean ch \<and> list_all (\<lambda>c. clean (snd c)) ic \<and>
     (case sc of Some s \<Rightarrow> list_all (\<lambda>c. clean (snd c)) s | None \<Rightarrow> True)"
| "clean (Expression e t) \<longleftrightarrow> True"
| "clean (TextNode t c) \<longleftrightarrow> True"

text \<open>The same below a node, which itself and whose conditions may be anything.\<close>

fun kids_clean :: "node \<Rightarrow> bool" where
  "kids_clean (Element el ch ic sc) \<longleftrightarrow>
     list_all clean ch \<and> list_all (\<lambda>c. kids_clean (snd c)) ic \<and>
     (case sc of Some s \<Rightarrow> list_all (\<lambda>c. clean (snd c)) s | None \<Rightarrow> True)"
| "kids_clean (Expression e t) \<longleftrightarrow> True"
| "kids_clean (TextNode t c) \<longleftrightarrow> True"

lemma clean_kids: "clean n \<Longrightarrow> kids_clean n"
  by (induction n rule: kids_clean.induct) (auto simp: list_all_iff)

lemma clean_addIfCondition: "clean n \<Longrightarrow> clean c \<Longrightarrow> clean (addIfCondition n (e, c))"
  by (cases n) (simp_all add: addIfCondition_def)

lemma kids_addIfCondition: "kids_clean n \<Longrightarrow> kids_clean c \<Longrightarrow> kids_clean (addIfCondition n (e, c))"
  by (cases n) (simp_all add: addIfCondition_def)

lemma isForbiddenTag_source: "same_source a b \<Longrightarrow> isForbiddenTag b = isForbiddenTag a"
  by (simp add: same_source_def isForbiddenTag_def)

definition flagged :: "elem \<Rightarrow> bool" where
  "flagged el \<longleftrightarrow> (isForbiddenTag el \<longrightarrow> forbidden el)"

lemma flagged_source: "same_source a b \<Longrightarrow> flagged a \<Longrightarrow> flagged b"
  by (simp add: flagged_def isForbiddenTag_source) (simp add: same_source_def)

lemma flagged_mark: "\<not> b \<Longrightarrow> flagged (put_if (isForbiddenTag e \<and> \<not> b) (\<lambda>e. e\<lparr>forbidden := True\<rparr>) e)"
  by (simp add: flagged_def put_if_def)

lemma flagged_start: "\<not> po_serverRendering opts \<Longrightarrow> flagged (fst (start_element opts t as st))"
  unfolding start_element_def Let_def case_prod_beta fst_conv by (rule flagged_mark)

lemma flagged_input: "tag e = ''input'' \<Longrightarrow> \<not> isForbiddenTag e"
  by (simp add: isForbiddenTag_def)

lemma pre_transforms_clean:
  assumes "flagged e0"
  shows "flagged (fst (fst (pre_transforms opts anc e0))) \<and>
    list_all (\<lambda>c. clean (snd c)) (snd (fst (pre_transforms opts anc e0)))"
proof -
  let ?d = "po_delimiters opts"
  obtain br e1 w where p: "preTransformNode ?d anc e0 = (br, e1, w)" by (metis prod_cases3)
  show ?thesis
  proof (cases br)
    case None
    have x: "\<not> (\<exists>e' w. expand_input d anc e t = (None, e', w))" for d e t
      unfolding expand_input_def Let_def case_prod_beta by blast
    have "same_source e0 e1"
      using p source_dynamic_type [of e0] x unfolding None preTransformNode_def
      by (auto simp: case_prod_beta Let_def split: if_splits)
    then show ?thesis using flagged_source assms by (simp add: pre_transforms_def p None)
  next
    case (Some b)
    obtain b0 cs where b: "b = (b0, cs)" by (cases b)
    have h: "tag e0 = ''input''" "expand_input ?d anc (snd (dynamic_type e0)) (the (fst (dynamic_type e0))) = (Some (b0, cs), e1, w)"
      using p unfolding Some b preTransformNode_def by (auto simp: case_prod_beta Let_def split: if_splits)
    have "tag (snd (dynamic_type e0)) = ''input''"
      using source_dynamic_type [of e0] h(1) by (simp add: same_source_def)
    from expand_input_branches [OF h(2) this] obtain b1 b2 c1 c2 where
      c: "cs = [(c1, Element b1 [] [] None), (c2, Element b2 [] [] None)]"
         "tag b0 = ''input''" "tag b1 = ''input''" "tag b2 = ''input''"
      by blast
    then show ?thesis using flagged_input
      by (simp add: pre_transforms_def p Some b flagged_def)
  qed
qed

lemma source_directives: "same_source el (fst (start_directives opts anc el st))"
proof -
  have pre: "same_source e (processPre e)" "same_source e (processRawAttrs e)" "same_source e (processIf e)"
    "same_source e (processOnce e)" for e
    by (simp_all add: processPre_def processRawAttrs_def processIf_def processOnce_def keep_simps)
  have str: "same_source e (fst (structural e))" for e
    unfolding structural_def Let_def case_prod_beta fst_conv
    by (rule same_source_trans [OF same_source_trans [OF source_processFor pre(3)] pre(4)])
  have el: "same_source e (fst (seq structural (processElement d anc) e))" for e d
    by (rule source_seq) (rule str, rule source_processElement)
  show ?thesis
    using pre(2) [of el] el [of el] same_source_trans [OF pre(1) pre(2)] same_source_trans [OF pre(1) el] pre(1) [of el]
    by (cases "p_inVPre st") (simp_all add: start_directives_def Let_def case_prod_beta)
qed

section \<open>The invariant of the callbacks\<close>

definition inside :: "place \<Rightarrow> bool" where
  "inside pl \<longleftrightarrow> (case pl of AsChild \<Rightarrow> True | AsCondition _ \<Rightarrow> True | AsScopedSlot _ \<Rightarrow> True | _ \<Rightarrow> False)"

definition frame_clean :: "frame \<Rightarrow> bool" where
  "frame_clean f \<longleftrightarrow>
     list_all clean (f_children f) \<and> list_all (\<lambda>c. clean (snd c)) (f_conds f) \<and>
     (case f_scoped f of Some s \<Rightarrow> list_all (\<lambda>c. clean (snd c)) s | None \<Rightarrow> True) \<and>
     (inside (f_place f) \<longrightarrow> \<not> isForbiddenTag (f_el f))"

definition state_clean :: "pstate \<Rightarrow> bool" where
  "state_clean st \<longleftrightarrow> list_all frame_clean (p_stack st) \<and> (case p_root st of Some r \<Rightarrow> kids_clean r | None \<Rightarrow> True)"

lemma frame_node_kids: "frame_clean f \<Longrightarrow> kids_clean (frame_node f)"
  by (auto simp: frame_clean_def frame_node_def list_all_iff clean_kids)

lemma frame_node_clean: "frame_clean f \<Longrightarrow> inside (f_place f) \<Longrightarrow> clean (frame_node f)"
  by (simp add: frame_clean_def frame_node_def)

lemma clean_add_condition: "list_all clean cs \<Longrightarrow> clean n \<Longrightarrow> list_all clean (add_condition (e, n) cs)"
  by (auto simp: add_condition_def list_all_iff intro: clean_addIfCondition dest: in_set_butlastD)

lemma clean_obj_put:
  "list_all (\<lambda>c. clean (snd c)) s \<Longrightarrow> clean n \<Longrightarrow> list_all (\<lambda>c. clean (snd c)) (obj_put k n s)"
  by (induction s) auto

lemma attach_clean:
  assumes "state_clean st" "kids_clean n" "inside pl \<longrightarrow> clean n"
  shows "state_clean (attach pl n st)"
proof -
  have f: "frame_clean (attach_frame pl n f)" if "frame_clean f" "inside pl" for f
    using that assms(3) by (cases pl)
      (auto simp: attach_frame_def frame_clean_def inside_def clean_add_condition clean_obj_put split: option.splits)
  have "frame_clean (attach_frame pl n f)" if "frame_clean f" for f
    using f [OF that] that by (cases "inside pl") (auto simp: attach_frame_def inside_def split: place.splits)
  then show ?thesis using assms(1,2)
    by (auto simp: state_clean_def attach_def kids_addIfCondition split: place.split list.split option.splits)
qed

lemma state_clean_simps [simp]:
  "state_clean (warn_all w st) = state_clean st"
  "state_clean (warnOnce msg st) = state_clean st"
  "state_clean (closeElement el st) = state_clean st"
  "state_clean (checkRootConstraints el st) = state_clean st"
  "state_clean (snd (place_root el st)) = state_clean st"
  "state_clean (snd (start_directives opts anc el st)) = state_clean st"
  by (auto simp: state_clean_def warn_all_def warnOnce_def closeElement_def checkRootConstraints_def place_root_def
      start_directives_def Let_def case_prod_beta split: option.split)

lemma findPrev_rev_set: "set (fst (findPrev_rev ns')) \<subseteq> set ns'"
  by (induction ns') (auto simp: Let_def case_prod_beta)

lemma place_child_clean:
  assumes "frame_clean f"
  shows "frame_clean (fst (place_child el f)) \<and> (inside (fst (snd (place_child el f))) \<longrightarrow> \<not> forbidden el)"
proof -
  have "set (fst (findPrevElement cs)) \<subseteq> set cs" for cs
    using findPrev_rev_set [of "rev cs"] by (simp add: findPrevElement_def case_prod_beta)
  then have "list_all clean cs \<Longrightarrow> list_all clean (fst (findPrevElement cs))" for cs
    by (auto simp: list_all_iff)
  moreover have "isForbiddenTag (e\<lparr>plain := b\<rparr>) = isForbiddenTag e" for e b
    by (simp add: isForbiddenTag_def)
  ultimately show ?thesis using assms
    unfolding place_child_def Let_def case_prod_beta
    by (auto simp: frame_clean_def inside_def split: option.splits)
qed

lemma place_root_outside: "\<not> inside (fst (place_root el st))"
  by (simp add: place_root_def inside_def split: option.split)

lemma start_place_clean:
  assumes "state_clean st"
  shows "state_clean (snd (start_place el st)) \<and> (inside (fst (start_place el st)) \<longrightarrow> \<not> forbidden el)"
proof (cases "p_stack st")
  case Nil
  then show ?thesis using assms place_root_outside [of el st] by (simp add: start_place_def)
next
  case (Cons f fs)
  have "state_clean (st\<lparr>p_stack := fst (place_child el f) # fs\<rparr>)"
    using assms place_child_clean [of f el] Cons by (auto simp: state_clean_def)
  then show ?thesis
    using assms place_child_clean [of f el] Cons
    by (simp add: start_place_def case_prod_beta) (simp add: state_clean_def)
qed

lemma parse_start_clean:
  assumes "state_clean st" "\<not> po_serverRendering opts"
  shows "state_clean (parse_start opts t as unary st)"
proof -
  define anc where "anc = map f_el (p_stack st)"
  define e0 where "e0 = start_element opts t as st"
  define e2 where "e2 = pre_transforms opts anc (fst e0)"
  define e3 where "e3 = start_directives opts anc (fst (fst e2)) (warn_all (snd e0 @ snd e2) st)"
  define pl where "pl = start_place (fst e3) (snd e3)"
  define f where "f = \<lparr>f_el = fst e3, f_children = [], f_conds = snd (fst e2), f_scoped = None, f_place = fst pl\<rparr>"
  have p: "parse_start opts t as unary st =
      (if unary then closeElement (fst e3) (attach (fst pl) (frame_node f) (snd pl))
       else (snd pl)\<lparr>p_stack := f # p_stack (snd pl)\<rparr>)"
    by (simp only: parse_start_def Let_def case_prod_beta anc_def e0_def e2_def e3_def pl_def f_def)
  have "flagged (fst e0)" unfolding e0_def by (rule flagged_start [OF assms(2)])
  from pre_transforms_clean [OF this, of opts anc]
  have e2: "flagged (fst (fst e2))" "list_all (\<lambda>c. clean (snd c)) (snd (fst e2))"
    unfolding e2_def by (rule conjunct1, rule conjunct2)
  have e3: "flagged (fst e3)" unfolding e3_def by (rule flagged_source [OF source_directives e2(1)])
  have "state_clean (snd e3)" unfolding e3_def by (simp add: assms(1))
  from start_place_clean [OF this, of "fst e3"]
  have st: "state_clean (snd pl)" and pl: "inside (fst pl) \<longrightarrow> \<not> forbidden (fst e3)"
    unfolding pl_def by (rule conjunct1, rule conjunct2)
  have f: "frame_clean f" using e2(2) e3 pl by (auto simp: f_def frame_clean_def flagged_def)
  have "state_clean (attach (fst pl) (frame_node f) (snd pl))"
    by (rule attach_clean [OF st frame_node_kids [OF f]]) (use frame_node_clean [OF f] in \<open>simp add: f_def\<close>)
  moreover have "state_clean ((snd pl)\<lparr>p_stack := f # p_stack (snd pl)\<rparr>)"
    using st f by (simp add: state_clean_def)
  ultimately show ?thesis unfolding p by simp
qed

lemma parse_end_clean:
  assumes "state_clean st" "parse_end st = Some st'"
  shows "state_clean st'"
proof -
  obtain f fs where f: "p_stack st = f # fs" using assms(2) by (auto simp: parse_end_def split: list.splits)
  let ?f = "f\<lparr>f_children := drop_trailing_blank (p_inPre st) (f_children f)\<rparr>"
  have fc: "frame_clean ?f"
    using assms(1) f by (auto simp: state_clean_def frame_clean_def drop_trailing_blank_def list_all_iff dest: in_set_butlastD)
  have st: "state_clean (st\<lparr>p_stack := fs\<rparr>)" using assms(1) f by (simp add: state_clean_def)
  have "state_clean (attach (f_place f) (frame_node ?f) (st\<lparr>p_stack := fs\<rparr>))"
    by (rule attach_clean [OF st frame_node_kids [OF fc]]) (use frame_node_clean [OF fc] in simp)
  then show ?thesis using assms(2) f by (auto simp: parse_end_def Let_def)
qed

lemma push_child_clean: "frame_clean f \<Longrightarrow> clean n \<Longrightarrow> frame_clean (push_child n f)"
  by (simp add: frame_clean_def push_child_def)

lemma add_text_clean: "frame_clean f \<Longrightarrow> frame_clean (add_text opts v s f)"
  by (simp add: add_text_def push_child_clean split: option.split)

lemma parse_chars_clean: "state_clean st \<Longrightarrow> state_clean (parse_chars opts template s st)"
proof (cases "p_stack st")
  case (Cons f fs)
  assume st: "state_clean st"
  then have "frame_clean f" using Cons by (simp add: state_clean_def)
  then have "state_clean (st\<lparr>p_stack := add_text opts v c f # fs\<rparr>)" for v c
    using st Cons add_text_clean by (simp add: state_clean_def)
  with st Cons show ?thesis by (simp add: parse_chars_def)
qed (simp add: parse_chars_def)

lemma callbacks_clean:
  assumes "\<not> po_serverRendering opts" "state_clean st" "callbacks opts template es st = Some st'"
  shows "state_clean st'"
  using assms(2,3)
proof (induction es arbitrary: st)
  case (Cons e es)
  obtain st1 where st1: "callback opts template e st = Some st1" "callbacks opts template es st1 = Some st'"
    using Cons.prems(2) by (auto split: option.splits)
  have "state_clean st1"
  proof (cases e)
    case (EStart t as u)
    then show ?thesis using st1(1) parse_start_clean [OF Cons.prems(1) assms(1)] by (auto simp: callback_def)
  next
    case (EEnd t)
    then show ?thesis using st1(1) parse_end_clean [OF Cons.prems(1)] by (simp add: callback_def)
  next
    case (EChars s)
    then show ?thesis using st1(1) parse_chars_clean [OF Cons.prems(1)] by (auto simp: callback_def)
  next
    case (EComment s)
    then show ?thesis using st1(1) Cons.prems(1)
      by (auto simp: callback_def parse_comment_def state_clean_def push_child_clean split: list.splits)
  next
    case (EWarn msg)
    then show ?thesis using st1(1) Cons.prems(1) by (auto simp: callback_def)
  qed
  then show ?case using st1(2) by (rule Cons.IH)
qed simp



end
