(* ===== verification/Patch.thy ===== *)
theory Patch
  imports WebAttrs
begin

text \<open>
  The virtual DOM patch of \<open>frontend/js/vue.js\<close>: \<open>sameVnode\<close>, \<open>createElm\<close>, \<open>updateChildren\<close>,
  \<open>patchVnode\<close> and the functions they call, on plain vnodes (elements, texts and comments; a
  component's own tree is patched the same way by its own call).

  A vnode is the record \<open>vinfo\<close> of its fields with its children; \<open>v_elm\<close> is the identity of its DOM
  node. The DOM below the patched node is a tree whose nodes carry their identities; the DOM
  operations find the node they are given among the children of the parent they are called on and
  answer \<open>None\<close> where the browser throws. Identities for new nodes come from a counter. The module
  hooks that keep an element's own state (attributes and so on) are a record of functions.
  The comparison \<open>oldVnode === vnode\<close> is equality of the values, DOM identities included.
\<close>

section \<open>Virtual nodes\<close>

datatype vkey = KStr string | KNum int

text \<open>The name of the property a key reads or writes in an object used as a map.\<close>

definition key_prop :: "vkey \<Rightarrow> string" where
  "key_prop k = (case k of KStr s \<Rightarrow> s | KNum n \<Rightarrow> show_int n)"

record vdata =
  vd_attrs :: "jsval obj option"

record vinfo =
  v_tag :: "string option"
  v_data :: "vdata option"
  v_text :: "string option"
  v_elm :: "nat option"
  v_key :: "vkey option"
  v_isComment :: bool
  v_isStatic :: bool
  v_isCloned :: bool
  v_isOnce :: bool
  v_isAsyncPlaceholder :: bool
  v_asyncFactory :: "nat option"
  v_asyncError :: bool

datatype vnode = VNode (v_info: vinfo) (v_children: "vnode list option")

definition elm_of :: "vnode \<Rightarrow> nat option" where
  "elm_of v = v_elm (v_info v)"

definition set_elm :: "nat option \<Rightarrow> vnode \<Rightarrow> vnode" where
  "set_elm e v = VNode ((v_info v)\<lparr>v_elm := e\<rparr>) (v_children v)"

definition cloneVNode :: "vnode \<Rightarrow> vnode" where
  "cloneVNode v = VNode ((v_info v)\<lparr>v_isCloned := True\<rparr>) (v_children v)"

text \<open>\<open>isDef(data) && isDef(data.attrs) && data.attrs.type\<close>\<close>

definition input_type :: "vinfo \<Rightarrow> jsval" where
  "input_type a =
     (case v_data a of
        None \<Rightarrow> JBool False
      | Some d \<Rightarrow> (case vd_attrs d of None \<Rightarrow> JBool False | Some as \<Rightarrow> get_or_undef as ''type''))"

definition text_input :: "jsval \<Rightarrow> bool" where
  "text_input t \<longleftrightarrow> (case t of JStr s \<Rightarrow> isTextInputType s | _ \<Rightarrow> False)"

definition sameInputType :: "vinfo \<Rightarrow> vinfo \<Rightarrow> bool" where
  "sameInputType a b \<longleftrightarrow>
     v_tag a \<noteq> Some ''input'' \<or> strict_eq (input_type a) (input_type b) \<or>
     text_input (input_type a) \<and> text_input (input_type b)"

definition sameVnode :: "vnode \<Rightarrow> vnode \<Rightarrow> bool" where
  "sameVnode x y \<longleftrightarrow>
     (let a = v_info x; b = v_info y in
      v_key a = v_key b \<and>
      (v_tag a = v_tag b \<and> v_isComment a = v_isComment b \<and>
       (v_data a = None) = (v_data b = None) \<and> sameInputType a b \<or>
       v_isAsyncPlaceholder a \<and> v_asyncFactory a = v_asyncFactory b \<and> \<not> v_asyncError b))"

text \<open>
  Objects used as maps inherit the properties of \<open>Object.prototype\<close>: reading one of them gives a
  function, which is defined and true but is no index.
\<close>

definition proto_names :: "string list" where
  "proto_names = [''constructor'', ''__defineGetter__'', ''__defineSetter__'', ''hasOwnProperty'',
     ''__lookupGetter__'', ''__lookupSetter__'', ''isPrototypeOf'', ''propertyIsEnumerable'',
     ''toString'', ''valueOf'', ''__proto__'', ''toLocaleString'']"

definition duplicate_warning :: "vkey \<Rightarrow> string" where
  "duplicate_warning k =
     ''Duplicate keys detected: '' @ [sq] @ key_prop k @ [sq] @ ''. This may cause an update error.''"

fun check_keys :: "string list \<Rightarrow> vnode list \<Rightarrow> string list" where
  "check_keys seen [] = []"
| "check_keys seen (v # vs) =
     (case v_key (v_info v) of
        None \<Rightarrow> check_keys seen vs
      | Some k \<Rightarrow>
          (if key_prop k \<in> set seen then duplicate_warning k # check_keys seen vs
           else check_keys (key_prop k # seen) vs))"

definition checkDuplicateKeys :: "vnode list \<Rightarrow> string list" where
  "checkDuplicateKeys children = check_keys proto_names children"

text \<open>\<open>createKeyToOldIdx\<close>: assigning a number to \<open>__proto__\<close> has no effect.\<close>

fun createKeyToOldIdx :: "vnode option list \<Rightarrow> nat \<Rightarrow> nat \<Rightarrow> nat obj \<Rightarrow> nat obj option" where
  "createKeyToOldIdx old i 0 m = Some m"
| "createKeyToOldIdx old i (Suc n) m =
     (case old ! i of
        None \<Rightarrow> None
      | Some v \<Rightarrow>
          createKeyToOldIdx old (Suc i) n
            (case v_key (v_info v) of
               Some k \<Rightarrow> if key_prop k = ''__proto__'' then m else obj_put (key_prop k) i m
             | None \<Rightarrow> m))"

text \<open>The first index from \<open>i\<close> on, among \<open>n\<close>, whose vnode matches.\<close>

fun findIdxInOld :: "vnode \<Rightarrow> vnode option list \<Rightarrow> nat \<Rightarrow> nat \<Rightarrow> nat option" where
  "findIdxInOld node old i 0 = None"
| "findIdxInOld node old i (Suc n) =
     (case old ! i of
        Some c \<Rightarrow> if sameVnode node c then Some i else findIdxInOld node old (Suc i) n
      | None \<Rightarrow> findIdxInOld node old (Suc i) n)"

section \<open>The DOM\<close>

datatype 'p dom = DElem nat string 'p "'p dom list" | DText nat string | DComment nat string

fun dom_id :: "'p dom \<Rightarrow> nat" where
  "dom_id (DElem i t p ds) = i"
| "dom_id (DText i s) = i"
| "dom_id (DComment i s) = i"

fun find_node :: "nat \<Rightarrow> 'p dom list \<Rightarrow> 'p dom option" where
  "find_node i [] = None"
| "find_node i (d # ds) = (if dom_id d = i then Some d else find_node i ds)"

fun detach :: "nat \<Rightarrow> 'p dom list \<Rightarrow> 'p dom list" where
  "detach i [] = []"
| "detach i (d # ds) = (if dom_id d = i then ds else d # detach i ds)"

definition set_node :: "'p dom \<Rightarrow> 'p dom list \<Rightarrow> 'p dom list" where
  "set_node d ds = map (\<lambda>e. if dom_id e = dom_id d then d else e) ds"

fun put_before :: "nat \<Rightarrow> 'p dom \<Rightarrow> 'p dom list \<Rightarrow> 'p dom list option" where
  "put_before j d [] = None"
| "put_before j d (e # ds) =
     (if dom_id e = j then Some (d # e # ds) else map_option (Cons e) (put_before j d ds))"

fun nextSibling :: "nat \<Rightarrow> 'p dom list \<Rightarrow> nat option" where
  "nextSibling i [] = None"
| "nextSibling i (d # ds) =
     (if dom_id d = i then (case ds of e # _ \<Rightarrow> Some (dom_id e) | [] \<Rightarrow> None) else nextSibling i ds)"

text \<open>Moves the child \<open>i\<close> before the child \<open>ref\<close>, or to the end.\<close>

definition insertBefore :: "nat \<Rightarrow> nat option \<Rightarrow> 'p dom list \<Rightarrow> 'p dom list option" where
  "insertBefore i ref ds =
     (case find_node i ds of
        None \<Rightarrow> None
      | Some d \<Rightarrow>
          (case ref of
             None \<Rightarrow> Some (detach i ds @ [d])
           | Some j \<Rightarrow> if j = i then Some ds else put_before j d (detach i ds)))"

text \<open>\<open>insert\<close> of a new node: nothing happens when the reference node has another parent.\<close>

definition insert_elm :: "'p dom \<Rightarrow> nat option \<Rightarrow> 'p dom list \<Rightarrow> 'p dom list" where
  "insert_elm d ref ds =
     (case ref of
        None \<Rightarrow> ds @ [d]
      | Some j \<Rightarrow> (case put_before j d ds of Some r \<Rightarrow> r | None \<Rightarrow> ds))"

definition setTextContent :: "string \<Rightarrow> nat \<Rightarrow> 'p dom \<Rightarrow> 'p dom \<times> nat" where
  "setTextContent s f d =
     (case d of
        DElem i t p ds \<Rightarrow> if s = [] then (DElem i t p [], f) else (DElem i t p [DText f s], f + 1)
      | DText i _ \<Rightarrow> (DText i s, f)
      | DComment i _ \<Rightarrow> (DComment i s, f))"

definition dom_kids :: "'p dom \<Rightarrow> 'p dom list" where
  "dom_kids d = (case d of DElem i t p ds \<Rightarrow> ds | _ \<Rightarrow> [])"

definition set_kids :: "'p dom list \<Rightarrow> 'p dom \<Rightarrow> 'p dom" where
  "set_kids ks d = (case d of DElem i t p ds \<Rightarrow> DElem i t p ks | _ \<Rightarrow> d)"

section \<open>Creating elements\<close>

record 'p hooks =
  hk_element :: "string \<Rightarrow> vdata option \<Rightarrow> 'p"
  hk_create :: "vdata \<Rightarrow> 'p \<Rightarrow> 'p"
  hk_update :: "vdata \<Rightarrow> vdata \<Rightarrow> 'p \<Rightarrow> 'p"

text \<open>\<open>document.createTextNode(text)\<close> turns its argument into a string.\<close>

definition text_or_undefined :: "string option \<Rightarrow> string" where
  "text_or_undefined t = (case t of Some s \<Rightarrow> s | None \<Rightarrow> ''undefined'')"

definition new_props :: "'p hooks \<Rightarrow> string \<Rightarrow> vdata option \<Rightarrow> 'p" where
  "new_props hk t d =
     (let p = hk_element hk t d in case d of Some dt \<Rightarrow> hk_create hk dt p | None \<Rightarrow> p)"

text \<open>
  The vnode with its DOM identities, its DOM tree and the next free identity. A vnode of an owner
  array that already has an element is cloned first.
\<close>

fun createElm :: "'p hooks \<Rightarrow> bool \<Rightarrow> vnode \<Rightarrow> nat \<Rightarrow> vnode \<times> 'p dom \<times> nat"
and createChildren :: "'p hooks \<Rightarrow> vnode list \<Rightarrow> nat \<Rightarrow> vnode list \<times> 'p dom list \<times> nat" where
  "createElm hk owned (VNode i ch) f =
     (let i' = i\<lparr>v_elm := Some f, v_isCloned := (v_isCloned i \<or> owned \<and> v_elm i \<noteq> None)\<rparr> in
      case v_tag i of
        Some t \<Rightarrow>
          (let (ch', kids, f') =
             (case ch of
                Some cs \<Rightarrow> (let (cs', ks, f1) = createChildren hk cs (f + 1) in (Some cs', ks, f1))
              | None \<Rightarrow> (case v_text i of
                           Some s \<Rightarrow> (None, [DText (f + 1) s], f + 2)
                         | None \<Rightarrow> (None, [], f + 1)))
           in (VNode i' ch', DElem f t (new_props hk t (v_data i)) kids, f'))
      | None \<Rightarrow>
          (VNode i' ch,
           if v_isComment i then DComment f (text_or_undefined (v_text i)) else DText f (text_or_undefined (v_text i)),
           f + 1))"
| "createChildren hk [] f = ([], [], f)"
| "createChildren hk (v # vs) f =
     (let (v', d, f1) = createElm hk True v f; (vs', ds, f2) = createChildren hk vs f1
      in (v' # vs', d # ds, f2))"

text \<open>\<open>addVnodes\<close>: creates the vnodes from \<open>i\<close> on, \<open>n\<close> of them, before the reference node.\<close>

fun addVnodes ::
    "'p hooks \<Rightarrow> nat option \<Rightarrow> vnode list \<Rightarrow> nat \<Rightarrow> nat \<Rightarrow> 'p dom list \<Rightarrow> nat \<Rightarrow> vnode list \<times> 'p dom list \<times> nat" where
  "addVnodes hk ref vs i 0 ds f = (vs, ds, f)"
| "addVnodes hk ref vs i (Suc n) ds f =
     (let (v', d, f') = createElm hk True (vs ! i) f
      in addVnodes hk ref (vs[i := v']) (Suc i) n (insert_elm d ref ds) f')"

text \<open>
  \<open>removeVnodes\<close>: the nodes leave their parent (at once: the hooks of modules without leaving
  transitions call back immediately).
\<close>

fun removeVnodes :: "vnode option list \<Rightarrow> 'p dom list \<Rightarrow> 'p dom list" where
  "removeVnodes [] ds = ds"
| "removeVnodes (None # vs) ds = removeVnodes vs ds"
| "removeVnodes (Some v # vs) ds =
     removeVnodes vs (case elm_of v of Some i \<Rightarrow> detach i ds | None \<Rightarrow> ds)"

section \<open>Updating children\<close>

text \<open>
  The state of the loop. The windows of old and new children still to be handled are
  \<open>c_os .. c_oe - 1\<close> and \<open>c_ns .. c_ne - 1\<close> (\<open>oldEndIdx\<close> and \<open>newEndIdx\<close> plus one); the vnodes at their
  ends are read from the arrays, where the code keeps them in variables.
\<close>

record 'p cstate =
  c_old :: "vnode option list"
  c_new :: "vnode list"
  c_dom :: "'p dom list"
  c_fresh :: nat
  c_os :: nat
  c_oe :: nat
  c_ns :: nat
  c_ne :: nat
  c_map :: "nat obj option"

type_synonym 'p patcher = "vnode \<Rightarrow> vnode \<Rightarrow> 'p dom \<Rightarrow> nat \<Rightarrow> (vnode \<times> 'p dom \<times> nat) option"

text \<open>\<open>patchVnode(o, newCh[k])\<close> on the DOM node of \<open>o\<close>\<close>

definition patch_at :: "'p patcher \<Rightarrow> vnode \<Rightarrow> nat \<Rightarrow> 'p cstate \<Rightarrow> 'p cstate option" where
  "patch_at pv v k st =
     (case elm_of v of
        None \<Rightarrow> None
      | Some i \<Rightarrow>
          (case find_node i (c_dom st) of
             None \<Rightarrow> None
           | Some d \<Rightarrow>
               (case pv v (c_new st ! k) d (c_fresh st) of
                  None \<Rightarrow> None
                | Some (n', d', f') \<Rightarrow>
                    Some (st\<lparr>c_new := (c_new st)[k := n'], c_dom := set_node d' (c_dom st), c_fresh := f'\<rparr>))))"

definition move_elm :: "bool \<Rightarrow> vnode \<Rightarrow> nat option \<Rightarrow> 'p cstate \<Rightarrow> 'p cstate option" where
  "move_elm canMove v ref st =
     (if \<not> canMove then Some st
      else
        case elm_of v of
          None \<Rightarrow> None
        | Some i \<Rightarrow>
            (case insertBefore i ref (c_dom st) of
               Some ds \<Rightarrow> Some (st\<lparr>c_dom := ds\<rparr>)
             | None \<Rightarrow> None))"

definition next_of :: "vnode \<Rightarrow> 'p dom list \<Rightarrow> nat option" where
  "next_of v ds = (case elm_of v of Some i \<Rightarrow> nextSibling i ds | None \<Rightarrow> None)"

definition create_at :: "'p hooks \<Rightarrow> nat option \<Rightarrow> 'p cstate \<Rightarrow> 'p cstate" where
  "create_at hk ref st =
     (let (v', d, f') = createElm hk True (c_new st ! c_ns st) (c_fresh st)
      in st\<lparr>c_new := (c_new st)[c_ns st := v'], c_dom := insert_elm d ref (c_dom st), c_fresh := f'\<rparr>)"

text \<open>The key map, made once per call.\<close>

definition with_map :: "'p cstate \<Rightarrow> 'p cstate option" where
  "with_map st =
     (case c_map st of
        Some _ \<Rightarrow> Some st
      | None \<Rightarrow>
          (case createKeyToOldIdx (c_old st) (c_os st) (c_oe st - c_os st) [] of
             Some m \<Rightarrow> Some (st\<lparr>c_map := Some m\<rparr>)
           | None \<Rightarrow> None))"

text \<open>
  No match at either end: look for the old vnode of the new one by its key, or else by comparing.
  \<open>a\<close> is \<open>oldStartVnode\<close>. Reading a key that is no own property of the map but inherited gives no
  index, so the vnode to move is undefined and comparing it throws, as with one moved before.
\<close>

definition keyed_step :: "'p patcher \<Rightarrow> 'p hooks \<Rightarrow> bool \<Rightarrow> vnode \<Rightarrow> 'p cstate \<Rightarrow> 'p cstate option" where
  "keyed_step pv hk canMove a st =
     (let n = c_new st ! c_ns st;
          m = (case c_map st of Some m \<Rightarrow> m | None \<Rightarrow> []);
          idx = (case v_key (v_info n) of
                   Some k \<Rightarrow> map_of m (key_prop k)
                 | None \<Rightarrow> findIdxInOld n (c_old st) (c_os st) (c_oe st - 1 - c_os st));
          inherited = (case v_key (v_info n) of
                         Some k \<Rightarrow> map_of m (key_prop k) = None \<and> key_prop k \<in> set proto_names
                       | None \<Rightarrow> False)
      in if inherited then None
         else
           case idx of
             None \<Rightarrow> Some (create_at hk (elm_of a) st)
           | Some i \<Rightarrow>
               (case c_old st ! i of
                  None \<Rightarrow> None
                | Some v \<Rightarrow>
                    (if sameVnode v n then
                       (case patch_at pv v (c_ns st) st of
                          Some st1 \<Rightarrow> move_elm canMove v (elm_of a) (st1\<lparr>c_old := (c_old st1)[i := None]\<rparr>)
                        | None \<Rightarrow> None)
                     else Some (create_at hk (elm_of a) st))))"

definition children_step :: "'p patcher \<Rightarrow> 'p hooks \<Rightarrow> bool \<Rightarrow> 'p cstate \<Rightarrow> 'p cstate option" where
  "children_step pv hk canMove st =
     (case c_old st ! c_os st of
        None \<Rightarrow> Some (st\<lparr>c_os := c_os st + 1\<rparr>)
      | Some a \<Rightarrow>
        (case c_old st ! (c_oe st - 1) of
           None \<Rightarrow> Some (st\<lparr>c_oe := c_oe st - 1\<rparr>)
         | Some b \<Rightarrow>
             (if sameVnode a (c_new st ! c_ns st) then
                map_option (\<lambda>s. s\<lparr>c_os := c_os s + 1, c_ns := c_ns s + 1\<rparr>) (patch_at pv a (c_ns st) st)
              else if sameVnode b (c_new st ! (c_ne st - 1)) then
                map_option (\<lambda>s. s\<lparr>c_oe := c_oe s - 1, c_ne := c_ne s - 1\<rparr>) (patch_at pv b (c_ne st - 1) st)
              else if sameVnode a (c_new st ! (c_ne st - 1)) then
                (case patch_at pv a (c_ne st - 1) st of
                   Some st1 \<Rightarrow>
                     map_option (\<lambda>s. s\<lparr>c_os := c_os s + 1, c_ne := c_ne s - 1\<rparr>)
                       (move_elm canMove a (next_of b (c_dom st1)) st1)
                 | None \<Rightarrow> None)
              else if sameVnode b (c_new st ! c_ns st) then
                (case patch_at pv b (c_ns st) st of
                   Some st1 \<Rightarrow>
                     map_option (\<lambda>s. s\<lparr>c_oe := c_oe s - 1, c_ns := c_ns s + 1\<rparr>)
                       (move_elm canMove b (elm_of a) st1)
                 | None \<Rightarrow> None)
              else
                (case with_map st of
                   Some st1 \<Rightarrow>
                     map_option (\<lambda>s. s\<lparr>c_ns := c_ns s + 1\<rparr>) (keyed_step pv hk canMove a st1)
                 | None \<Rightarrow> None))))"

lemma bounds_kept:
  "patch_at pv v k st = Some st' \<Longrightarrow>
     c_os st' = c_os st \<and> c_oe st' = c_oe st \<and> c_ns st' = c_ns st \<and> c_ne st' = c_ne st"
  "move_elm cm v ref st = Some st' \<Longrightarrow>
     c_os st' = c_os st \<and> c_oe st' = c_oe st \<and> c_ns st' = c_ns st \<and> c_ne st' = c_ne st"
  "with_map st = Some st' \<Longrightarrow>
     c_os st' = c_os st \<and> c_oe st' = c_oe st \<and> c_ns st' = c_ns st \<and> c_ne st' = c_ne st"
  by (auto simp: patch_at_def move_elm_def with_map_def split: option.splits prod.splits if_splits)

lemma create_bounds [simp]:
  "c_os (create_at hk ref st) = c_os st" "c_oe (create_at hk ref st) = c_oe st"
  "c_ns (create_at hk ref st) = c_ns st" "c_ne (create_at hk ref st) = c_ne st"
  by (simp_all add: create_at_def case_prod_beta Let_def)

lemma keyed_bounds:
  "keyed_step pv hk cm a st = Some st' \<Longrightarrow>
     c_os st' = c_os st \<and> c_oe st' = c_oe st \<and> c_ns st' = c_ns st \<and> c_ne st' = c_ne st"
  by (auto simp: keyed_step_def Let_def split: option.splits if_splits dest!: bounds_kept)

definition window :: "'p cstate \<Rightarrow> nat" where
  "window st = (c_oe st - c_os st) + (c_ne st - c_ns st)"

lemma children_step_window:
  "children_step pv hk cm st = Some st' \<Longrightarrow> c_os st < c_oe st \<Longrightarrow> c_ns st < c_ne st \<Longrightarrow>
     window st' < window st"
  by (auto simp: children_step_def window_def split: option.splits if_splits dest!: bounds_kept keyed_bounds)

function children_loop :: "'p patcher \<Rightarrow> 'p hooks \<Rightarrow> bool \<Rightarrow> 'p cstate \<Rightarrow> 'p cstate option" where
  "children_loop pv hk canMove st =
     (if c_os st < c_oe st \<and> c_ns st < c_ne st then
        (case children_step pv hk canMove st of
           Some st' \<Rightarrow> children_loop pv hk canMove st'
         | None \<Rightarrow> None)
      else Some st)"
  by pat_completeness auto
termination
  by (relation "measure (\<lambda>(pv, hk, cm, st). window st)") (auto dest: children_step_window)

declare children_loop.simps [simp del]

definition children_init :: "vnode list \<Rightarrow> vnode list \<Rightarrow> 'p dom list \<Rightarrow> nat \<Rightarrow> 'p cstate" where
  "children_init old new ds f =
     \<lparr>c_old = map Some old, c_new = new, c_dom = ds, c_fresh = f,
      c_os = 0, c_oe = length old, c_ns = 0, c_ne = length new, c_map = None\<rparr>"

definition children_finish :: "'p hooks \<Rightarrow> 'p cstate \<Rightarrow> vnode list \<times> 'p dom list \<times> nat" where
  "children_finish hk st =
     (if c_oe st \<le> c_os st then
        addVnodes hk (if c_ne st < length (c_new st) then elm_of (c_new st ! c_ne st) else None)
          (c_new st) (c_ns st) (c_ne st - c_ns st) (c_dom st) (c_fresh st)
      else
        (c_new st, removeVnodes (take (c_oe st - c_os st) (drop (c_os st) (c_old st))) (c_dom st), c_fresh st))"

definition updateChildren ::
    "'p patcher \<Rightarrow> 'p hooks \<Rightarrow> bool \<Rightarrow> vnode list \<Rightarrow> vnode list \<Rightarrow> 'p dom list \<Rightarrow> nat \<Rightarrow>
       (vnode list \<times> 'p dom list \<times> nat) option" where
  "updateChildren pv hk removeOnly old new ds f =
     map_option (children_finish hk) (children_loop pv hk (\<not> removeOnly) (children_init old new ds f))"

section \<open>Patching a vnode\<close>

definition reuse_static :: "vinfo \<Rightarrow> vinfo \<Rightarrow> bool" where
  "reuse_static old new \<longleftrightarrow>
     v_isStatic new \<and> v_isStatic old \<and> v_key new = v_key old \<and> (v_isCloned new \<or> v_isOnce new)"

text \<open>
  The update hooks, run on elements whose vnode has data; they read the data of the old vnode.
\<close>

definition update_props :: "'p hooks \<Rightarrow> vinfo \<Rightarrow> vinfo \<Rightarrow> 'p dom \<Rightarrow> 'p dom option" where
  "update_props hk old new d =
     (case v_data new of
        None \<Rightarrow> Some d
      | Some dt \<Rightarrow>
          (if v_tag new = None then Some d
           else
             case v_data old of
               None \<Rightarrow> None
             | Some dt0 \<Rightarrow>
                 Some (case d of DElem i t p ds \<Rightarrow> DElem i t (hk_update hk dt0 dt p) ds | _ \<Rightarrow> d)))"

text \<open>What \<open>patchVnode\<close> does to the text or the children of the element\<close>

definition patch_content ::
    "'p patcher \<Rightarrow> 'p hooks \<Rightarrow> bool \<Rightarrow> vnode \<Rightarrow> vnode \<Rightarrow> 'p dom \<Rightarrow> nat \<Rightarrow> (vnode \<times> 'p dom \<times> nat) option" where
  "patch_content pv hk removeOnly old v d f =
     (case v_text (v_info v) of
        None \<Rightarrow>
          (case (v_children old, v_children v) of
             (Some oc, Some c) \<Rightarrow>
               (if oc = c then Some (v, d, f)
                else
                  case updateChildren pv hk removeOnly oc c (dom_kids d) f of
                    Some (c', ks, f') \<Rightarrow> Some (VNode (v_info v) (Some c'), set_kids ks d, f')
                  | None \<Rightarrow> None)
           | (None, Some c) \<Rightarrow>
               (let (d1, f1) = (if v_text (v_info old) \<noteq> None then setTextContent [] f d else (d, f));
                    (c', ks, f2) = addVnodes hk None c 0 (length c) (dom_kids d1) f1
                in Some (VNode (v_info v) (Some c'), set_kids ks d1, f2))
           | (Some oc, None) \<Rightarrow> Some (v, set_kids (removeVnodes (map Some oc) (dom_kids d)) d, f)
           | (None, None) \<Rightarrow>
               (let (d1, f1) = (if v_text (v_info old) \<noteq> None then setTextContent [] f d else (d, f))
                in Some (v, d1, f1)))
      | Some s \<Rightarrow>
          (let (d1, f1) = (if v_text (v_info old) \<noteq> Some s then setTextContent s f d else (d, f))
           in Some (v, d1, f1)))"

text \<open>
  \<open>patchVnode\<close> on the DOM tree of the old vnode: the new vnode with its DOM identities and the new
  tree. The fuel bounds the depth of the recursion; the depth of the new vnode is enough. An async
  placeholder, whose element is hydrated, is outside this model (\<open>None\<close>).
\<close>

fun patchVnode :: "'p hooks \<Rightarrow> nat \<Rightarrow> bool \<Rightarrow> 'p patcher" where
  "patchVnode hk 0 removeOnly old v d f = None"
| "patchVnode hk (Suc n) removeOnly old v d f =
     (if old = v then Some (v, d, f)
      else
        let v1 = set_elm (elm_of old) v in
        if v_isAsyncPlaceholder (v_info old) then None
        else if reuse_static (v_info old) (v_info v1) then Some (v1, d, f)
        else
          case update_props hk (v_info old) (v_info v1) d of
            None \<Rightarrow> None
          | Some d1 \<Rightarrow> patch_content (patchVnode hk n False) hk removeOnly old v1 d1 f)"

text \<open>The depth of a vnode\<close>

fun depth :: "vnode \<Rightarrow> nat" where
  "depth (VNode i ch) = Suc (case ch of Some cs \<Rightarrow> foldr max (map depth cs) 0 | None \<Rightarrow> 0)"

text \<open>
  \<open>patch\<close> of a root whose parent element has the children \<open>ds\<close>. \<open>mounting\<close> tells that the old node is
  a real element, which \<open>emptyNodeAt\<close> has wrapped into a vnode and which is always replaced. Without
  an old vnode the new element goes before \<open>ref\<close>.
\<close>

definition patch ::
    "'p hooks \<Rightarrow> bool \<Rightarrow> bool \<Rightarrow> nat option \<Rightarrow> vnode option \<Rightarrow> vnode option \<Rightarrow> 'p dom list \<Rightarrow> nat \<Rightarrow>
       (vnode option \<times> 'p dom list \<times> nat) option" where
  "patch hk removeOnly mounting ref old new ds f =
     (case new of
        None \<Rightarrow> Some (None, ds, f)
      | Some v \<Rightarrow>
          (case old of
             None \<Rightarrow>
               (let (v', d, f') = createElm hk False v f in Some (Some v', insert_elm d ref ds, f'))
           | Some ov \<Rightarrow>
               (case elm_of ov of
                  None \<Rightarrow> None
                | Some i \<Rightarrow>
                    (if \<not> mounting \<and> sameVnode ov v then
                       (case find_node i ds of
                          None \<Rightarrow> None
                        | Some d \<Rightarrow>
                            (case patchVnode hk (depth v) removeOnly ov v d f of
                               Some (v', d', f') \<Rightarrow> Some (Some v', set_node d' ds, f')
                             | None \<Rightarrow> None))
                     else
                       (let (v', d, f') = createElm hk False v f
                        in Some (Some v', removeVnodes [Some ov] (insert_elm d (nextSibling i ds) ds), f'))))))"

section \<open>A vnode and its DOM\<close>

text \<open>The text nodes of an element whose content is text\<close>

definition shows_text :: "string \<Rightarrow> 'p dom list \<Rightarrow> bool" where
  "shows_text s ds \<longleftrightarrow> (\<exists>ts. ds = map (\<lambda>(i, t). DText i t) ts \<and> concat (map snd ts) = s)"

text \<open>
  \<open>mounted sync v d\<close>: the DOM tree \<open>d\<close> is what the vnode \<open>v\<close> describes, with the identities \<open>v\<close> holds;
  \<open>sync t data p\<close> says it of an element's own state.
\<close>

function mounted :: "(string \<Rightarrow> vdata option \<Rightarrow> 'p \<Rightarrow> bool) \<Rightarrow> vnode \<Rightarrow> 'p dom \<Rightarrow> bool" where
  "mounted sync (VNode i ch) d \<longleftrightarrow>
     v_elm i = Some (dom_id d) \<and>
     (case d of
        DElem k t p ds \<Rightarrow>
          v_tag i = Some t \<and> sync t (v_data i) p \<and>
          (case ch of
             Some cs \<Rightarrow> length cs = length ds \<and> list_all (\<lambda>(c, e). mounted sync c e) (zip cs ds)
           | None \<Rightarrow> (case v_text i of Some s \<Rightarrow> shows_text s ds | None \<Rightarrow> ds = []))
      | DText k s \<Rightarrow> v_tag i = None \<and> \<not> v_isComment i \<and> v_text i = Some s
      | DComment k s \<Rightarrow> v_tag i = None \<and> v_isComment i \<and> v_text i = Some s)"
  by pat_completeness auto
termination
proof (relation "measure (\<lambda>(sync, v, d). size v)", goal_cases)
  case 1
  show ?case by simp
next
  case (2 sync i ch d k t p ds cs z x y)
  then have "x \<in> set cs" by (auto dest: set_zip_leftD)
  then have "size x \<le> size_list size cs" by (simp add: size_list_estimation')
  with 2 show ?case by (cases z) simp
qed

text \<open>Identities below \<open>f\<close>, different among siblings\<close>

fun dom_ok :: "nat \<Rightarrow> 'p dom \<Rightarrow> bool" where
  "dom_ok f (DElem i t p ds) \<longleftrightarrow> i < f \<and> distinct (map dom_id ds) \<and> list_all (dom_ok f) ds"
| "dom_ok f (DText i s) \<longleftrightarrow> i < f"
| "dom_ok f (DComment i s) \<longleftrightarrow> i < f"

definition doms_ok :: "nat \<Rightarrow> 'p dom list \<Rightarrow> bool" where
  "doms_ok f ds \<longleftrightarrow> distinct (map dom_id ds) \<and> list_all (dom_ok f) ds"

text \<open>A vnode without what patching writes into it\<close>

fun erase :: "vnode \<Rightarrow> vnode" where
  "erase (VNode i ch) = VNode (i\<lparr>v_elm := None, v_isCloned := False\<rparr>) (map_option (map erase) ch)"

text \<open>
  The vnodes of a render function: an element has children or text, a text or comment node has its
  text, and siblings have different keys (no warning about duplicates).
\<close>

fun wf_vnode :: "(string \<Rightarrow> vdata \<Rightarrow> bool) \<Rightarrow> vnode \<Rightarrow> bool" where
  "wf_vnode okd (VNode i ch) \<longleftrightarrow>
     \<not> v_isAsyncPlaceholder i \<and>
     (case v_tag i of
        Some t \<Rightarrow> (case v_data i of Some d \<Rightarrow> okd t d | None \<Rightarrow> True) \<and> (ch = None \<or> v_text i = None)
      | None \<Rightarrow> v_data i = None \<and> ch = None \<and> v_text i \<noteq> None) \<and>
     (case ch of Some cs \<Rightarrow> checkDuplicateKeys cs = [] \<and> list_all (wf_vnode okd) cs | None \<Rightarrow> True)"

lemma mounted_kids:
  "length cs = length ds \<and> list_all (\<lambda>(c, e). mounted sync c e) (zip cs ds) \<longleftrightarrow> list_all2 (mounted sync) cs ds"
  by (auto simp: list_all2_iff list_all_iff)

lemmas mounted_simps = mounted.simps [unfolded mounted_kids]

lemma mounted_elm: "mounted sync v d \<Longrightarrow> elm_of v = Some (dom_id d)"
  by (cases v) (simp add: elm_of_def)

declare mounted.simps [simp del]

lemma dom_ok_id: "dom_ok f d \<Longrightarrow> dom_id d < f"
  by (cases d) simp_all

lemma dom_ok_mono: "dom_ok f d \<Longrightarrow> f \<le> f' \<Longrightarrow> dom_ok f' d"
  by (induction f d rule: dom_ok.induct) (auto simp: list_all_iff)

lemma info_erase [simp]:
  "v_key (v_info (erase v)) = v_key (v_info v)" "v_tag (v_info (erase v)) = v_tag (v_info v)"
  by (cases v; simp)+

lemma erase_key: "erase v = erase w \<Longrightarrow> v_key (v_info v) = v_key (v_info w)"
  by (metis info_erase(1))

text \<open>A vnode and all below it\<close>

fun parts :: "vnode \<Rightarrow> vnode list" where
  "parts (VNode i ch) = VNode i ch # (case ch of Some cs \<Rightarrow> concat (map parts cs) | None \<Rightarrow> [])"

text \<open>
  A static vnode that is reused (a clone, or under \<open>v-once\<close>) has the contents of the one it stands for:
  the render function keeps one tree per key.
\<close>

definition static_agree :: "vnode \<Rightarrow> vnode \<Rightarrow> bool" where
  "static_agree old new \<longleftrightarrow>
     (\<forall>v\<in>set (parts old). \<forall>w\<in>set (parts new). reuse_static (v_info v) (v_info w) \<longrightarrow>
        v_children w = v_children v \<and> v_text (v_info w) = v_text (v_info v) \<and> v_data (v_info w) = v_data (v_info v))"

lemma depth_child: "c \<in> set cs \<Longrightarrow> depth c < depth (VNode i (Some cs))"
proof -
  have "x \<in> set xs \<Longrightarrow> x \<le> foldr max xs 0" for x and xs :: "nat list"
    by (induction xs) (auto simp: le_max_iff_disj)
  then show "c \<in> set cs \<Longrightarrow> depth c < depth (VNode i (Some cs))" by (simp add: less_Suc_eq_le)
qed

lemma static_agree_child:
  "static_agree (VNode i (Some cs)) (VNode j (Some ds)) \<Longrightarrow> c \<in> set cs \<Longrightarrow> d \<in> set ds \<Longrightarrow> static_agree c d"
  by (auto simp: static_agree_def)

section \<open>Lists of DOM nodes\<close>

lemma find_node_middle: "dom_id d \<notin> dom_id ` set X \<Longrightarrow> find_node (dom_id d) (X @ d # Y) = Some d"
  by (induction X) auto

lemma detach_middle: "dom_id d \<notin> dom_id ` set X \<Longrightarrow> detach (dom_id d) (X @ d # Y) = X @ Y"
  by (induction X) auto

lemma detach_absent: "i \<notin> dom_id ` set X \<Longrightarrow> detach i X = X"
  by (induction X) auto

lemma set_node_middle:
  assumes "distinct (map dom_id (X @ d # Y))" "dom_id d' = dom_id d"
  shows "set_node d' (X @ d # Y) = X @ d' # Y"
proof -
  have "map (\<lambda>e. if dom_id e = dom_id d' then d' else e) Z = Z" if "dom_id d \<notin> dom_id ` set Z" for Z
    using that assms(2) by (induction Z) auto
  then show ?thesis using assms by (simp add: set_node_def)
qed

lemma put_before_middle: "dom_id e \<notin> dom_id ` set X \<Longrightarrow> put_before (dom_id e) d (X @ e # Y) = Some (X @ d # e # Y)"
  by (induction X) auto

lemma nextSibling_middle:
  "dom_id d \<notin> dom_id ` set X \<Longrightarrow>
     nextSibling (dom_id d) (X @ d # Y) = (case Y of e # _ \<Rightarrow> Some (dom_id e) | [] \<Rightarrow> None)"
  by (induction X) (auto split: list.split)

definition first_id :: "'p dom list \<Rightarrow> nat option" where
  "first_id ds = (case ds of e # _ \<Rightarrow> Some (dom_id e) | [] \<Rightarrow> None)"

lemma insert_elm_before:
  assumes "distinct (map dom_id (X @ Y))"
  shows "insert_elm d (first_id Y) (X @ Y) = X @ d # Y"
proof (cases Y)
  case Nil
  then show ?thesis by (simp add: insert_elm_def first_id_def)
next
  case (Cons e Y')
  then have "dom_id e \<notin> dom_id ` set X" using assms by auto
  from put_before_middle [OF this, of d Y'] show ?thesis using Cons by (simp add: insert_elm_def first_id_def)
qed

text \<open>A child that moves to the right, and one that moves to the left.\<close>

lemma insertBefore_right:
  assumes "distinct (map dom_id (X @ d # Y @ Z))"
  shows "insertBefore (dom_id d) (first_id Z) (X @ d # Y @ Z) = Some (X @ Y @ d # Z)"
proof (cases Z)
  case Nil
  then show ?thesis using assms by (simp add: insertBefore_def first_id_def find_node_middle detach_middle)
next
  case (Cons e Z')
  then have "dom_id e \<notin> dom_id ` set (X @ Y)" "dom_id e \<noteq> dom_id d" using assms by auto
  moreover from this(1) have "put_before (dom_id e) d ((X @ Y) @ e # Z') = Some ((X @ Y) @ d # e # Z')"
    by (rule put_before_middle)
  ultimately show ?thesis using assms Cons
    by (simp add: insertBefore_def first_id_def find_node_middle detach_middle)
qed

lemma insertBefore_left:
  assumes "distinct (map dom_id (X @ Y @ d # Z))"
  shows "insertBefore (dom_id d) (first_id (Y @ [d])) (X @ Y @ d # Z) = Some (X @ d # Y @ Z)"
proof -
  have n: "dom_id d \<notin> dom_id ` set (X @ Y)" using assms by auto
  note f = find_node_middle [OF n, of Z] detach_middle [OF n, of Z]
  show ?thesis
  proof (cases Y)
    case Nil
    then show ?thesis using f by (simp add: insertBefore_def first_id_def)
  next
    case (Cons e Y')
    then have "dom_id e \<notin> dom_id ` set X" "dom_id e \<noteq> dom_id d" using assms by auto
    then show ?thesis using f Cons put_before_middle [of e X d "Y' @ Z"]
      by (simp add: insertBefore_def first_id_def)
  qed
qed

lemma removeVnodes_mounted:
  assumes "list_all2 (\<lambda>v d. elm_of v = Some (dom_id d)) vs M" "distinct (map dom_id (A @ M @ B))"
  shows "removeVnodes (map Some vs) (A @ M @ B) = A @ B"
  using assms
proof (induction vs M rule: list_all2_induct)
  case (Cons v vs d M)
  then have "detach (dom_id d) (A @ (d # M) @ B) = A @ M @ B"
    using detach_middle [of d A "M @ B"] by auto
  with Cons show ?case by simp
qed simp

end
