(* ===== verification/PatchProof.thy ===== *)
theory PatchProof
  imports Patch "HOL-Library.Multiset"
begin

text \<open>
  The correctness of the virtual DOM patch: whatever the hooks of the modules are, if they keep an
  element's own state in step with its vnode's data, then patching a DOM tree that shows the old
  vnode gives one that shows the new vnode. The contract of the hooks is the locale
  \<open>dom_modules\<close>; the attribute module of the web platform is an instance of it.
\<close>

section \<open>Keys\<close>

definition key_name :: "vnode \<Rightarrow> string option" where
  "key_name v = map_option key_prop (v_key (v_info v))"

text \<open>Two vnodes with keys that name the same property\<close>

definition clash :: "vnode \<Rightarrow> vnode \<Rightarrow> bool" where
  "clash v w \<longleftrightarrow> key_name v \<noteq> None \<and> key_name v = key_name w"

lemma same_key: "sameVnode v w \<Longrightarrow> key_name v = key_name w"
  by (auto simp: sameVnode_def key_name_def Let_def)

lemma check_keys_seen: "check_keys seen vs = [] \<Longrightarrow> v \<in> set vs \<Longrightarrow> key_name v = Some s \<Longrightarrow> s \<notin> set seen"
proof (induction vs arbitrary: seen)
  case (Cons u vs)
  show ?case
  proof (cases "v_key (v_info u)")
    case None
    with Cons show ?thesis by (auto simp: key_name_def)
  next
    case (Some k)
    with Cons.prems(1) have k: "key_prop k \<notin> set seen" "check_keys (key_prop k # seen) vs = []"
      by (auto split: if_splits)
    with Cons.prems Some Cons.IH [OF k(2)] show ?thesis by (auto simp: key_name_def)
  qed
qed simp

lemma check_keys_differ:
  "check_keys seen vs = [] \<Longrightarrow> i < j \<Longrightarrow> j < length vs \<Longrightarrow> \<not> clash (vs ! i) (vs ! j)"
proof (induction vs arbitrary: seen i j)
  case (Cons u vs)
  obtain j' where j: "j = Suc j'" using Cons.prems(2) by (cases j) auto
  obtain seen' where c: "check_keys seen' vs = []" "\<forall>s. key_name u = Some s \<longrightarrow> s \<in> set seen'"
    using Cons.prems(1) by (cases "v_key (v_info u)") (auto simp: key_name_def split: if_splits)
  show ?case
  proof (cases i)
    case 0
    have "vs ! j' \<in> set vs" using Cons.prems(3) j by simp
    then have "key_name (vs ! j') = Some s \<Longrightarrow> s \<notin> set seen'" for s
      using check_keys_seen [OF c(1)] by blast
    then show ?thesis using c(2) 0 j by (auto simp: clash_def)
  next
    case (Suc i')
    then show ?thesis using Cons.IH [OF c(1), of i' j'] Cons.prems j by simp
  qed
qed simp

lemma distinct_keys:
  assumes "checkDuplicateKeys vs = []" "i < length vs" "j < length vs" "i \<noteq> j"
  shows "\<not> clash (vs ! i) (vs ! j)"
proof (cases "i < j")
  case True
  with check_keys_differ assms show ?thesis by (metis checkDuplicateKeys_def)
next
  case False
  then have "\<not> clash (vs ! j) (vs ! i)" using check_keys_differ assms by (metis checkDuplicateKeys_def linorder_neqE_nat)
  then show ?thesis by (auto simp: clash_def)
qed

section \<open>Windows of the old children\<close>

definition win :: "'a list \<Rightarrow> nat \<Rightarrow> nat \<Rightarrow> 'a list" where
  "win l i j = take (j - i) (drop i l)"

fun somes :: "'a option list \<Rightarrow> 'a list" where
  "somes [] = []"
| "somes (None # xs) = somes xs"
| "somes (Some x # xs) = x # somes xs"

lemma somes_append [simp]: "somes (xs @ ys) = somes xs @ somes ys"
  by (induction xs rule: somes.induct) auto

lemma somes_map_Some [simp]: "somes (map Some xs) = xs"
  by (induction xs) auto

lemma win_append:
  assumes "i \<le> k" "k \<le> j"
  shows "win l i j = win l i k @ win l k j"
proof -
  have "take (j - i) (drop i l) = take (k - i) (drop i l) @ take (j - k) (drop (k - i) (drop i l))"
    using assms take_add [of "k - i" "j - k" "drop i l"] by simp
  then show ?thesis using assms by (simp add: win_def)
qed

lemma win_mid:
  assumes "i \<le> k" "k < j" "j \<le> length l"
  shows "win l i j = win l i k @ l ! k # win l (Suc k) j"
proof -
  have "drop k l = l ! k # drop (Suc k) l" using assms by (simp add: Cons_nth_drop_Suc)
  moreover have "j - k = Suc (j - Suc k)" using assms by simp
  ultimately have "win l k j = l ! k # win l (Suc k) j" by (simp only: win_def take_Suc_Cons)
  then show ?thesis using win_append [of i k j l] assms by simp
qed

lemma win_empty [simp]: "win l i i = []"
  by (simp add: win_def)

lemma win_update_outside: "k < i \<or> j \<le> k \<Longrightarrow> win (l[k := x]) i j = win l i j"
  by (cases "k < i") (auto simp: win_def drop_update_swap)

lemma win_update:
  assumes "i \<le> k" "k < j" "j \<le> length l"
  shows "win (l[k := x]) i j = win l i k @ x # win l (Suc k) j"
  using assms by (subst win_mid [of i k j]) (simp_all add: win_update_outside)

lemma win_all: "win l 0 (length l) = l"
  by (simp add: win_def)

text \<open>Taking the first or the last entry off a window\<close>

lemma win_first: "i < j \<Longrightarrow> j \<le> length l \<Longrightarrow> win l i j = l ! i # win l (Suc i) j"
  using win_mid [of i i j l] by simp

lemma win_last: "i < j \<Longrightarrow> j \<le> length l \<Longrightarrow> win l i j = win l i (j - 1) @ [l ! (j - 1)]"
  using win_mid [of i "j - 1" j l] by simp

section \<open>The contract of the modules\<close>

locale dom_modules =
  fixes hk :: "'p hooks"
    and okd :: "string \<Rightarrow> vdata \<Rightarrow> bool"
    and sync :: "string \<Rightarrow> vdata option \<Rightarrow> 'p \<Rightarrow> bool"
  assumes bare: "sync t None (hk_element hk t None)"
    and created: "okd t d \<Longrightarrow> sync t (Some d) (hk_create hk d (hk_element hk t (Some d)))"
    and updated: "okd t d0 \<Longrightarrow> okd t d \<Longrightarrow> sync t (Some d0) p \<Longrightarrow> sync t (Some d) (hk_update hk d0 d p)"
begin

abbreviation shows_vnode :: "vnode \<Rightarrow> 'p dom \<Rightarrow> bool" where "shows_vnode \<equiv> mounted sync"
abbreviation wf :: "vnode \<Rightarrow> bool" where "wf \<equiv> wf_vnode okd"

text \<open>What creating or patching promises of its results\<close>

definition fresh_result :: "vnode \<Rightarrow> vnode \<times> 'p dom \<times> nat \<Rightarrow> nat \<Rightarrow> bool" where
  "fresh_result v r f \<longleftrightarrow>
     (case r of (v', d, f') \<Rightarrow>
        shows_vnode v' d \<and> dom_ok f' d \<and> f \<le> dom_id d \<and> f < f' \<and> erase v' = erase v)"

definition fresh_results :: "vnode list \<Rightarrow> vnode list \<times> 'p dom list \<times> nat \<Rightarrow> nat \<Rightarrow> bool" where
  "fresh_results vs r f \<longleftrightarrow>
     (case r of (vs', ds, f') \<Rightarrow>
        list_all2 shows_vnode vs' ds \<and> list_all (dom_ok f') ds \<and> distinct (map dom_id ds) \<and>
        list_all (\<lambda>d. f \<le> dom_id d) ds \<and> f \<le> f' \<and> map erase vs' = map erase vs)"

lemma new_props_sync:
  "(case d of Some dt \<Rightarrow> okd t dt | None \<Rightarrow> True) \<Longrightarrow> sync t d (new_props hk t d)"
  by (cases d) (simp_all add: new_props_def bare created)

lemma fresh_results_Cons:
  assumes "fresh_result v (v', d, f1) f" "fresh_results vs (vs', ds, f2) f1"
  shows "fresh_results (v # vs) (v' # vs', d # ds, f2) f"
proof -
  have d: "dom_ok f1 d" "f \<le> dom_id d" "f < f1" and ds: "list_all (\<lambda>e. f1 \<le> dom_id e) ds" "f1 \<le> f2"
    using assms by (simp_all add: fresh_result_def fresh_results_def)
  have "dom_id d < f1" by (rule dom_ok_id [OF d(1)])
  then have "dom_id d \<notin> dom_id ` set ds" "list_all (\<lambda>e. f \<le> dom_id e) ds"
    using d(3) ds(1) by (auto simp: list_all_iff)
  then show ?thesis
    using assms dom_ok_mono [OF d(1) ds(2)] by (simp add: fresh_result_def fresh_results_def)
qed

lemma createChildren_fresh:
  assumes "\<And>v owned f. v \<in> set vs \<Longrightarrow> wf v \<Longrightarrow> fresh_result v (createElm hk owned v f) f"
    and "list_all wf vs"
  shows "fresh_results vs (createChildren hk vs f) f"
  using assms
proof (induction vs arbitrary: f)
  case Nil
  show ?case by (simp add: fresh_results_def)
next
  case (Cons v vs)
  obtain v' d f1 where c: "createElm hk True v f = (v', d, f1)" by (metis prod_cases3)
  obtain vs' ds f2 where cs: "createChildren hk vs f1 = (vs', ds, f2)" by (metis prod_cases3)
  have "fresh_result v (v', d, f1) f" using Cons.prems(1) [of v True f] Cons.prems(2) by (simp add: c)
  moreover have "fresh_results vs (vs', ds, f2) f1" using Cons.IH [of f1] Cons.prems by (simp add: cs)
  ultimately show ?case using fresh_results_Cons by (simp add: c cs)
qed

lemma createElm_fresh: "wf v \<Longrightarrow> fresh_result v (createElm hk owned v f) f"
proof (induction v arbitrary: owned f)
  case (VNode i ch)
  show ?case
  proof (cases "v_tag i")
    case None
    then obtain s where "v_text i = Some s" "ch = None" using VNode.prems by auto
    then show ?thesis using None
      by (simp add: fresh_result_def mounted_simps text_or_undefined_def)
  next
    case (Some t)
    have p: "sync t (v_data i) (new_props hk t (v_data i))"
      using VNode.prems Some by (intro new_props_sync) simp
    show ?thesis
    proof (cases ch)
      case None
      show ?thesis
      proof (cases "v_text i")
        case None
        with \<open>ch = None\<close> Some p show ?thesis
          by (simp add: fresh_result_def mounted_simps shows_text_def)
      next
        case (Some s)
        have "shows_text s [DText (f + 1) s]" unfolding shows_text_def by (rule exI [of _ "[(f + 1, s)]"]) simp
        with \<open>ch = None\<close> \<open>v_tag i = Some t\<close> Some p show ?thesis
          by (simp add: fresh_result_def mounted_simps)
      qed
    next
      case (Some cs)
      obtain cs' ks f1 where c: "createChildren hk cs (f + 1) = (cs', ks, f1)" by (metis prod_cases3)
      have "fresh_results cs (createChildren hk cs (f + 1)) (f + 1)"
        by (rule createChildren_fresh) (use VNode Some in auto)
      then show ?thesis
        using Some \<open>v_tag i = Some t\<close> p c by (simp add: fresh_result_def fresh_results_def mounted_simps Let_def)
    qed
  qed
qed

text \<open>A list of vnodes and the children of a DOM node\<close>

definition children_ok :: "vnode list \<Rightarrow> vnode list \<times> 'p dom list \<times> nat \<Rightarrow> nat \<Rightarrow> bool" where
  "children_ok vs r f \<longleftrightarrow>
     (case r of (vs', ds, f') \<Rightarrow>
        list_all2 shows_vnode vs' ds \<and> doms_ok f' ds \<and> f \<le> f' \<and> map erase vs' = map erase vs)"

lemma doms_ok_mono: "doms_ok f ds \<Longrightarrow> f \<le> f' \<Longrightarrow> doms_ok f' ds"
  using dom_ok_mono by (auto simp: doms_ok_def list_all_iff)

lemma doms_ok_insert:
  assumes "doms_ok f (A @ B)" "dom_ok f' d" "f \<le> dom_id d" "f \<le> f'"
  shows "doms_ok f' (A @ d # B)"
proof -
  have "dom_id e < f" if "e \<in> set (A @ B)" for e
    using that assms(1) by (intro dom_ok_id) (auto simp: doms_ok_def list_all_iff)
  then have "dom_id d \<notin> dom_id ` set (A @ B)" using assms(3) by fastforce
  then show ?thesis
    using doms_ok_mono [OF assms(1,4)] assms(2) by (auto simp: doms_ok_def)
qed

lemma addVnodes_ok:
  assumes "list_all2 shows_vnode (take i vs) A" "list_all2 shows_vnode (drop (i + n) vs) B"
    and "i + n \<le> length vs" "\<And>k. i \<le> k \<Longrightarrow> k < i + n \<Longrightarrow> wf (vs ! k)" "doms_ok f (A @ B)"
  shows "children_ok vs (addVnodes hk (first_id B) vs i n (A @ B) f) f"
  using assms
proof (induction n arbitrary: i vs A f)
  case 0
  have "list_all2 shows_vnode (take i vs @ drop i vs) (A @ B)"
    using 0 by (intro list_all2_appendI) simp_all
  then show ?case using 0 by (simp add: children_ok_def)
next
  case (Suc n)
  obtain v' d f1 where c: "createElm hk True (vs ! i) f = (v', d, f1)" by (metis prod_cases3)
  have fr: "fresh_result (vs ! i) (v', d, f1) f"
    using createElm_fresh [of "vs ! i" True f] Suc.prems(4) [of i] by (simp add: c)
  then have d: "shows_vnode v' d" "dom_ok f1 d" "f \<le> dom_id d" "f \<le> f1" "erase v' = erase (vs ! i)"
    by (simp_all add: fresh_result_def)
  have ins: "insert_elm d (first_id B) (A @ B) = (A @ [d]) @ B"
    using Suc.prems(5) insert_elm_before [of A B d] by (simp add: doms_ok_def)
  let ?vs = "vs[i := v']"
  have i: "i < length vs" using Suc.prems(3) by simp
  have e: "map erase ?vs = map erase vs" by (metis d(5) list_update_id map_update)
  have "children_ok ?vs (addVnodes hk (first_id B) ?vs (Suc i) n ((A @ [d]) @ B) f1) f1"
  proof (rule Suc.IH)
    show "list_all2 shows_vnode (take (Suc i) ?vs) (A @ [d])"
      using Suc.prems(1) i d(1) by (simp add: take_Suc_conv_app_nth list_all2_appendI)
    show "list_all2 shows_vnode (drop (Suc i + n) ?vs) B" using Suc.prems(2) by simp
    show "Suc i + n \<le> length ?vs" using Suc.prems(3) by simp
    show "doms_ok f1 ((A @ [d]) @ B)" using doms_ok_insert [OF Suc.prems(5) d(2-4)] by simp
    show "wf (?vs ! k)" if "Suc i \<le> k" "k < Suc i + n" for k
      using Suc.prems(4) [of k] that by simp
  qed
  then show ?case using d(4) e by (auto simp: c ins children_ok_def case_prod_beta)
qed

subsection \<open>The invariant of the loop\<close>

text \<open>
  The children are the DOM nodes \<open>A\<close> of the new vnodes already done at the start, those \<open>M\<close> of the
  old vnodes still to be handled, in order, and those \<open>B\<close> of the new vnodes done at the end.
\<close>

definition region :: "'p cstate \<Rightarrow> 'p dom list \<Rightarrow> 'p dom list \<Rightarrow> 'p dom list \<Rightarrow> bool" where
  "region st A M B \<longleftrightarrow>
     c_dom st = A @ M @ B \<and> doms_ok (c_fresh st) (A @ M @ B) \<and>
     list_all2 shows_vnode (take (c_ns st) (c_new st)) A \<and>
     list_all2 shows_vnode (somes (win (c_old st) (c_os st) (c_oe st))) M \<and>
     list_all2 shows_vnode (drop (c_ne st) (c_new st)) B"

definition arrays :: "vnode list \<Rightarrow> vnode list \<Rightarrow> nat \<Rightarrow> 'p cstate \<Rightarrow> bool" where
  "arrays old new f st \<longleftrightarrow>
     c_os st \<le> c_oe st \<and> c_oe st \<le> length old \<and> length (c_old st) = length old \<and>
     c_ns st \<le> c_ne st \<and> c_ne st \<le> length new \<and> length (c_new st) = length new \<and> f \<le> c_fresh st \<and>
     (\<forall>k. c_ns st \<le> k \<and> k < c_ne st \<longrightarrow> c_new st ! k = new ! k) \<and> map erase (c_new st) = map erase new \<and>
     (\<forall>i<length old. c_old st ! i = Some (old ! i) \<or> c_old st ! i = None)"

text \<open>An old vnode outside the window, or moved, has no key in common with the new ones to come.\<close>

definition gone :: "'p cstate \<Rightarrow> nat \<Rightarrow> bool" where
  "gone st i \<longleftrightarrow> i < c_os st \<or> c_oe st \<le> i \<or> c_old st ! i = None"

definition keys_inv :: "vnode list \<Rightarrow> vnode list \<Rightarrow> 'p cstate \<Rightarrow> bool" where
  "keys_inv old new st \<longleftrightarrow>
     (\<forall>i j. i < length old \<longrightarrow> gone st i \<longrightarrow> c_ns st \<le> j \<longrightarrow> j < c_ne st \<longrightarrow> \<not> clash (old ! i) (new ! j)) \<and>
     (case c_map st of
        None \<Rightarrow> \<forall>i<length old. c_old st ! i = Some (old ! i)
      | Some m \<Rightarrow> \<forall>s i. map_of m s = Some i \<longrightarrow> i < length old \<and> key_name (old ! i) = Some s)"

definition loop_inv :: "vnode list \<Rightarrow> vnode list \<Rightarrow> nat \<Rightarrow> 'p cstate \<Rightarrow> bool" where
  "loop_inv old new f st \<longleftrightarrow> arrays old new f st \<and> keys_inv old new st \<and> (\<exists>A M B. region st A M B)"

text \<open>What the loop relies on: the function it patches a pair of children with.\<close>

definition patches :: "'p patcher \<Rightarrow> vnode list \<Rightarrow> vnode list \<Rightarrow> bool" where
  "patches pv old new \<longleftrightarrow>
     (\<forall>a v d f. a \<in> set old \<longrightarrow> v \<in> set new \<longrightarrow> sameVnode a v \<longrightarrow> shows_vnode a d \<longrightarrow> dom_ok f d \<longrightarrow>
        (\<exists>v' d' f'. pv a v d f = Some (v', d', f') \<and> shows_vnode v' d' \<and> dom_ok f' d' \<and> f \<le> f' \<and>
           dom_id d' = dom_id d \<and> erase v' = erase v))"

lemma patch_at_ok:
  assumes "patches pv old new" "a \<in> set old" "k < length new" "c_new st ! k = new ! k" "sameVnode a (new ! k)"
    and "c_dom st = X @ d # Y" "shows_vnode a d" "doms_ok (c_fresh st) (X @ d # Y)"
  obtains n' d' f' where
    "patch_at pv a k st = Some (st\<lparr>c_new := (c_new st)[k := n'], c_dom := X @ d' # Y, c_fresh := f'\<rparr>)"
    "shows_vnode n' d'" "dom_id d' = dom_id d" "doms_ok f' (X @ d' # Y)" "c_fresh st \<le> f'" "erase n' = erase (new ! k)"
proof -
  have d: "dom_ok (c_fresh st) d" and dist: "distinct (map dom_id (X @ d # Y))"
    using assms(8) by (simp_all add: doms_ok_def)
  have nk: "new ! k \<in> set new" using assms(3) by (rule nth_mem)
  obtain n' d' f' where p: "pv a (new ! k) d (c_fresh st) = Some (n', d', f')"
      "shows_vnode n' d'" "dom_ok f' d'" "c_fresh st \<le> f'" "dom_id d' = dom_id d" "erase n' = erase (new ! k)"
    using assms(1)[unfolded patches_def, rule_format, OF assms(2) nk assms(5,7) d] by blast
  have "find_node (dom_id d) (X @ d # Y) = Some d" using dist by (intro find_node_middle) auto
  moreover have "set_node d' (X @ d # Y) = X @ d' # Y" using dist p(5) by (rule set_node_middle)
  ultimately have "patch_at pv a k st = Some (st\<lparr>c_new := (c_new st)[k := n'], c_dom := X @ d' # Y, c_fresh := f'\<rparr>)"
    using mounted_elm [OF assms(7)] p(1) assms(4,6) by (simp add: patch_at_def)
  moreover have "doms_ok f' (X @ d' # Y)"
    using doms_ok_mono [OF assms(8) p(4)] p(3,5) by (simp add: doms_ok_def)
  ultimately show ?thesis using that p by blast
qed

lemma erase_update: "erase n' = erase (new ! k) \<Longrightarrow> map erase ns = map erase new \<Longrightarrow> map erase (ns[k := n']) = map erase new"
  by (metis list_update_beyond list_update_id map_update nth_map not_le_imp_less length_map)

text \<open>Patching the old child \<open>i\<close> into the new child \<open>j\<close> keeps the keys apart.\<close>

lemma keys_inv_patch:
  assumes "keys_inv old new st" "checkDuplicateKeys new = []" "arrays old new f st"
    and "i < length old" "sameVnode (old ! i) (new ! j)" "j = c_ns st \<or> j = c_ne st - 1" "c_ns st < c_ne st"
    and "c_map st' = c_map st" "c_map st = None \<longrightarrow> c_old st' = c_old st"
    and "\<And>k. k < length old \<Longrightarrow> gone st' k \<Longrightarrow> gone st k \<or> k = i"
    and "\<And>k. c_ns st' \<le> k \<Longrightarrow> k < c_ne st' \<Longrightarrow> c_ns st \<le> k \<and> k < c_ne st \<and> k \<noteq> j"
  shows "keys_inv old new st'"
proof -
  have j: "j < length new" using assms(3,6,7) by (auto simp: arrays_def)
  have "\<not> clash (old ! i) (new ! k)" if "c_ns st' \<le> k" "k < c_ne st'" for k
  proof -
    have "k < length new" "k \<noteq> j" using assms(3) assms(11) [OF that] by (auto simp: arrays_def)
    then have "\<not> clash (new ! j) (new ! k)" using distinct_keys [OF assms(2) j] by blast
    then show ?thesis using same_key [OF assms(5)] by (simp add: clash_def)
  qed
  then show ?thesis
    using assms(1,8-11) unfolding keys_inv_def by (auto split: option.splits) metis+
qed

text \<open>The vnode at the start of the window, and the one at its end, with their DOM nodes\<close>

lemma region_first:
  assumes "region st A M B" "c_os st < c_oe st" "arrays old new f st" "c_old st ! c_os st = Some a"
  obtains d M' where "M = d # M'" "shows_vnode a d"
    "list_all2 shows_vnode (somes (win (c_old st) (Suc (c_os st)) (c_oe st))) M'"
proof -
  have "win (c_old st) (c_os st) (c_oe st) = Some a # win (c_old st) (Suc (c_os st)) (c_oe st)"
    using win_first [of "c_os st" "c_oe st" "c_old st"] assms(2-4) by (simp add: arrays_def)
  then have "list_all2 shows_vnode (a # somes (win (c_old st) (Suc (c_os st)) (c_oe st))) M"
    using assms(1) by (simp add: region_def)
  then show ?thesis using that by (auto simp: list_all2_Cons1)
qed

lemma region_last:
  assumes "region st A M B" "c_os st < c_oe st" "arrays old new f st" "c_old st ! (c_oe st - 1) = Some b"
  obtains d M' where "M = M' @ [d]" "shows_vnode b d"
    "list_all2 shows_vnode (somes (win (c_old st) (c_os st) (c_oe st - 1))) M'"
proof -
  have "win (c_old st) (c_os st) (c_oe st) = win (c_old st) (c_os st) (c_oe st - 1) @ [Some b]"
    using win_last [of "c_os st" "c_oe st" "c_old st"] assms(2-4) by (simp add: arrays_def)
  then have "list_all2 shows_vnode (somes (win (c_old st) (c_os st) (c_oe st - 1)) @ [b]) M"
    using assms(1) by (simp add: region_def)
  then show ?thesis using that by (auto simp: list_all2_append1 list_all2_Cons1)
qed

lemma old_entry:
  assumes "arrays old new f st" "c_old st ! i = Some a" "i < length old"
  shows "a = old ! i" "a \<in> set old"
proof -
  show "a = old ! i" using assms by (auto simp: arrays_def)
  then show "a \<in> set old" using assms(3) by simp
qed

lemma take_one_more: "j < length l \<Longrightarrow> take (Suc j) (l[j := x]) = take j l @ [x]"
  by (simp add: take_Suc_conv_app_nth)

lemma drop_one_less: "0 < j \<Longrightarrow> j \<le> length l \<Longrightarrow> drop (j - 1) (l[j - 1 := x]) = x # drop j l"
  by (cases j) (simp_all add: Cons_nth_drop_Suc [symmetric])

lemma new_bounds:
  assumes "arrays old new f st" "c_ns st < c_ne st"
  shows "c_ns st < length new" "c_ne st - 1 < length new" "c_new st ! c_ns st = new ! c_ns st"
    "c_new st ! (c_ne st - 1) = new ! (c_ne st - 1)" "length (c_new st) = length new" "0 < c_ne st" "c_ne st \<le> length new"
  using assms by (auto simp: arrays_def)

text \<open>The steps that match at one end of each window\<close>

definition step_ok :: "vnode list \<Rightarrow> vnode list \<Rightarrow> nat \<Rightarrow> 'p cstate option \<Rightarrow> bool" where
  "step_ok old new f r \<longleftrightarrow> (\<exists>st'. r = Some st' \<and> loop_inv old new f st')"

lemma start_start:
  assumes inv: "arrays old new f st" "keys_inv old new st" "region st A M B"
    and uniq: "checkDuplicateKeys new = []" and pv: "patches pv old new"
    and w: "c_os st < c_oe st" "c_ns st < c_ne st"
    and a: "c_old st ! c_os st = Some a" "sameVnode a (c_new st ! c_ns st)"
  shows "step_ok old new f (map_option (\<lambda>s. s\<lparr>c_os := c_os s + 1, c_ns := c_ns s + 1\<rparr>) (patch_at pv a (c_ns st) st))"
proof -
  note nb = new_bounds [OF inv(1) w(2)]
  have i: "c_os st < length old" using inv(1) w by (simp add: arrays_def)
  note ao = old_entry [OF inv(1) a(1) i]
  obtain d M' where m: "M = d # M'" "shows_vnode a d"
      "list_all2 shows_vnode (somes (win (c_old st) (Suc (c_os st)) (c_oe st))) M'"
    by (rule region_first [OF inv(3) w(1) inv(1) a(1)])
  have same: "sameVnode a (new ! c_ns st)" using a(2) nb(3) by simp
  obtain n' d' f' where p:
      "patch_at pv a (c_ns st) st = Some (st\<lparr>c_new := (c_new st)[c_ns st := n'], c_dom := A @ d' # M' @ B, c_fresh := f'\<rparr>)"
      "shows_vnode n' d'" "dom_id d' = dom_id d" "doms_ok f' (A @ d' # M' @ B)" "c_fresh st \<le> f'" "erase n' = erase (new ! c_ns st)"
    by (rule patch_at_ok [OF pv ao(2) nb(1) nb(3) same, of A d "M' @ B"])
      (use inv(3) m in \<open>simp_all add: region_def\<close>)
  let ?st = "st\<lparr>c_new := (c_new st)[c_ns st := n'], c_dom := A @ d' # M' @ B, c_fresh := f',
      c_os := c_os st + 1, c_ns := c_ns st + 1\<rparr>"
  have "arrays old new f ?st" using inv(1) w p(5,6) erase_update [OF p(6)] by (auto simp: arrays_def)
  moreover have "keys_inv old new ?st"
    by (rule keys_inv_patch [OF inv(2) uniq inv(1) i, of "c_ns st"])
      (use same ao w in \<open>auto simp: gone_def\<close>)
  moreover have "region ?st (A @ [d']) M' B"
    using inv(3) m p(2,4) w nb take_one_more [of "c_ns st" "c_new st" n']
    by (auto simp: region_def intro: list_all2_appendI)
  ultimately show ?thesis unfolding step_ok_def loop_inv_def using p(1) by auto
qed

lemma end_end:
  assumes inv: "arrays old new f st" "keys_inv old new st" "region st A M B"
    and uniq: "checkDuplicateKeys new = []" and pv: "patches pv old new"
    and w: "c_os st < c_oe st" "c_ns st < c_ne st"
    and b: "c_old st ! (c_oe st - 1) = Some b" "sameVnode b (c_new st ! (c_ne st - 1))"
  shows "step_ok old new f (map_option (\<lambda>s. s\<lparr>c_oe := c_oe s - 1, c_ne := c_ne s - 1\<rparr>) (patch_at pv b (c_ne st - 1) st))"
proof -
  note nb = new_bounds [OF inv(1) w(2)]
  have i: "c_oe st - 1 < length old" using inv(1) w by (auto simp: arrays_def)
  note bo = old_entry [OF inv(1) b(1) i]
  obtain d M' where m: "M = M' @ [d]" "shows_vnode b d"
      "list_all2 shows_vnode (somes (win (c_old st) (c_os st) (c_oe st - 1))) M'"
    by (rule region_last [OF inv(3) w(1) inv(1) b(1)])
  have same: "sameVnode b (new ! (c_ne st - 1))" using b(2) nb(4) by simp
  obtain n' d' f' where p:
      "patch_at pv b (c_ne st - 1) st = Some (st\<lparr>c_new := (c_new st)[c_ne st - 1 := n'], c_dom := (A @ M') @ d' # B, c_fresh := f'\<rparr>)"
      "shows_vnode n' d'" "dom_id d' = dom_id d" "doms_ok f' ((A @ M') @ d' # B)" "c_fresh st \<le> f'" "erase n' = erase (new ! (c_ne st - 1))"
    by (rule patch_at_ok [OF pv bo(2) nb(2) nb(4) same, of "A @ M'" d B])
      (use inv(3) m in \<open>simp_all add: region_def\<close>)
  let ?st = "st\<lparr>c_new := (c_new st)[c_ne st - 1 := n'], c_dom := (A @ M') @ d' # B, c_fresh := f',
      c_oe := c_oe st - 1, c_ne := c_ne st - 1\<rparr>"
  have "arrays old new f ?st" using inv(1) w p(5,6) erase_update [OF p(6)] by (auto simp: arrays_def)
  moreover have "keys_inv old new ?st"
    by (rule keys_inv_patch [OF inv(2) uniq inv(1) i, of "c_ne st - 1"])
      (use same bo w in \<open>auto simp: gone_def\<close>)
  moreover have "region ?st A M' (d' # B)"
    using inv(3) m p(2,4) w nb drop_one_less [of "c_ne st" "c_new st" n']
    by (auto simp: region_def)
  ultimately show ?thesis unfolding step_ok_def loop_inv_def using p(1) by auto
qed

text \<open>The steps that move a node across\<close>

lemma doms_ok_perm: "doms_ok f ds \<Longrightarrow> mset ds' = mset ds \<Longrightarrow> doms_ok f ds'"
proof -
  assume "doms_ok f ds" and m: "mset ds' = mset ds"
  then have "distinct (map dom_id ds')" by (metis doms_ok_def mset_eq_imp_distinct_iff mset_map)
  moreover have "set ds' = set ds" using m by (metis set_mset_mset)
  ultimately show ?thesis using \<open>doms_ok f ds\<close> by (simp add: doms_ok_def list_all_iff)
qed

lemma start_end:
  assumes inv: "arrays old new f st" "keys_inv old new st" "region st A M B"
    and uniq: "checkDuplicateKeys new = []" and pv: "patches pv old new"
    and w: "c_os st < c_oe st" "c_ns st < c_ne st"
    and a: "c_old st ! c_os st = Some a" "sameVnode a (c_new st ! (c_ne st - 1))"
    and b: "c_old st ! (c_oe st - 1) = Some b"
  shows "step_ok old new f
    (case patch_at pv a (c_ne st - 1) st of
       Some st1 \<Rightarrow> map_option (\<lambda>s. s\<lparr>c_os := c_os s + 1, c_ne := c_ne s - 1\<rparr>)
                     (move_elm True a (next_of b (c_dom st1)) st1)
     | None \<Rightarrow> None)"
proof -
  note nb = new_bounds [OF inv(1) w(2)]
  have i: "c_os st < length old" using inv(1) w by (simp add: arrays_def)
  note ao = old_entry [OF inv(1) a(1) i]
  obtain d M' where m: "M = d # M'" "shows_vnode a d"
      "list_all2 shows_vnode (somes (win (c_old st) (Suc (c_os st)) (c_oe st))) M'"
    by (rule region_first [OF inv(3) w(1) inv(1) a(1)])
  obtain e M2 where e: "M = M2 @ [e]" "shows_vnode b e"
    by (rule region_last [OF inv(3) w(1) inv(1) b])
  have same: "sameVnode a (new ! (c_ne st - 1))" using a(2) nb(4) by simp
  obtain n' d' f' where p:
      "patch_at pv a (c_ne st - 1) st = Some (st\<lparr>c_new := (c_new st)[c_ne st - 1 := n'], c_dom := A @ d' # M' @ B, c_fresh := f'\<rparr>)"
      "shows_vnode n' d'" "dom_id d' = dom_id d" "doms_ok f' (A @ d' # M' @ B)" "c_fresh st \<le> f'" "erase n' = erase (new ! (c_ne st - 1))"
    by (rule patch_at_ok [OF pv ao(2) nb(2) nb(4) same, of A d "M' @ B"])
      (use inv(3) m in \<open>simp_all add: region_def\<close>)
  let ?l = "A @ d' # M' @ B"
  have dist: "distinct (map dom_id ?l)" using p(4) by (simp add: doms_ok_def)
  have nx: "next_of b ?l = first_id B"
  proof -
    obtain e' M3 where e': "d' # M' = M3 @ [e']" "dom_id e' = dom_id e"
      using m(1) e(1) p(3) by (cases M' rule: rev_cases) auto
    have l: "?l = (A @ M3) @ e' # B" using e'(1) by (metis append.assoc append_Cons append_Nil)
    have "dom_id e' \<notin> dom_id ` set (A @ M3)" using dist unfolding l by auto
    from nextSibling_middle [OF this, of B] show ?thesis
      using mounted_elm [OF e(2)] e'(2) by (simp only: next_of_def option.case l first_id_def)
  qed
  have "insertBefore (dom_id d') (first_id B) ?l = Some (A @ M' @ d' # B)"
    using insertBefore_right [of A d' M' B] dist by simp
  then have mv: "insertBefore (dom_id d) (first_id B) ?l = Some (A @ M' @ d' # B)" by (simp only: p(3))
  let ?st = "st\<lparr>c_new := (c_new st)[c_ne st - 1 := n'], c_fresh := f', c_dom := A @ M' @ d' # B,
      c_os := c_os st + 1, c_ne := c_ne st - 1\<rparr>"
  have "arrays old new f ?st" using inv(1) w p(5,6) erase_update [OF p(6)] by (auto simp: arrays_def)
  moreover have "keys_inv old new ?st"
    by (rule keys_inv_patch [OF inv(2) uniq inv(1) i, of "c_ne st - 1"])
      (use same ao w in \<open>auto simp: gone_def\<close>)
  moreover have "doms_ok f' (A @ M' @ d' # B)" by (rule doms_ok_perm [OF p(4)]) simp
  then have "region ?st A M' (d' # B)"
    using inv(3) m p(2) w nb drop_one_less [of "c_ne st" "c_new st" n']
    by (auto simp: region_def)
  ultimately show ?thesis unfolding step_ok_def loop_inv_def
    using p(1) mv mounted_elm [OF m(2)] nx by (auto simp: move_elm_def)
qed

lemma end_start:
  assumes inv: "arrays old new f st" "keys_inv old new st" "region st A M B"
    and uniq: "checkDuplicateKeys new = []" and pv: "patches pv old new"
    and w: "c_os st < c_oe st" "c_ns st < c_ne st"
    and b: "c_old st ! (c_oe st - 1) = Some b" "sameVnode b (c_new st ! c_ns st)"
    and a: "c_old st ! c_os st = Some a"
  shows "step_ok old new f
    (case patch_at pv b (c_ns st) st of
       Some st1 \<Rightarrow> map_option (\<lambda>s. s\<lparr>c_oe := c_oe s - 1, c_ns := c_ns s + 1\<rparr>) (move_elm True b (elm_of a) st1)
     | None \<Rightarrow> None)"
proof -
  note nb = new_bounds [OF inv(1) w(2)]
  have i: "c_oe st - 1 < length old" using inv(1) w by (auto simp: arrays_def)
  note bo = old_entry [OF inv(1) b(1) i]
  obtain d M' where m: "M = M' @ [d]" "shows_vnode b d"
      "list_all2 shows_vnode (somes (win (c_old st) (c_os st) (c_oe st - 1))) M'"
    by (rule region_last [OF inv(3) w(1) inv(1) b(1)])
  obtain e M2 where e: "M = e # M2" "shows_vnode a e"
    by (rule region_first [OF inv(3) w(1) inv(1) a])
  have same: "sameVnode b (new ! c_ns st)" using b(2) nb(3) by simp
  obtain n' d' f' where p:
      "patch_at pv b (c_ns st) st = Some (st\<lparr>c_new := (c_new st)[c_ns st := n'], c_dom := (A @ M') @ d' # B, c_fresh := f'\<rparr>)"
      "shows_vnode n' d'" "dom_id d' = dom_id d" "doms_ok f' ((A @ M') @ d' # B)" "c_fresh st \<le> f'" "erase n' = erase (new ! c_ns st)"
    by (rule patch_at_ok [OF pv bo(2) nb(1) nb(3) same, of "A @ M'" d B])
      (use inv(3) m in \<open>simp_all add: region_def\<close>)
  have dist: "distinct (map dom_id (A @ M' @ d' # B))" using p(4) by (simp add: doms_ok_def)
  have ref: "elm_of a = first_id (M' @ [d'])"
    using mounted_elm [OF e(2)] e(1) m(1) p(3) by (cases M') (auto simp: first_id_def)
  have mv: "insertBefore (dom_id d) (first_id (M' @ [d'])) (A @ M' @ d' # B) = Some (A @ d' # M' @ B)"
    using insertBefore_left [OF dist] p(3) by simp
  let ?st = "st\<lparr>c_new := (c_new st)[c_ns st := n'], c_fresh := f', c_dom := A @ d' # M' @ B,
      c_oe := c_oe st - 1, c_ns := c_ns st + 1\<rparr>"
  have "arrays old new f ?st" using inv(1) w p(5,6) erase_update [OF p(6)] by (auto simp: arrays_def)
  moreover have "keys_inv old new ?st"
    by (rule keys_inv_patch [OF inv(2) uniq inv(1) i, of "c_ns st"])
      (use same bo w in \<open>auto simp: gone_def\<close>)
  moreover have "doms_ok f' (A @ d' # M' @ B)" by (rule doms_ok_perm [OF p(4)]) simp
  then have "region ?st (A @ [d']) M' B"
    using inv(3) m p(2) w nb take_one_more [of "c_ns st" "c_new st" n']
    by (auto simp: region_def intro: list_all2_appendI)
  ultimately show ?thesis unfolding step_ok_def loop_inv_def
    using p(1) mv mounted_elm [OF m(2)] ref by (auto simp: move_elm_def)
qed

text \<open>No match at the ends\<close>

lemma createKeyToOldIdx_ok:
  assumes "\<And>k. i \<le> k \<Longrightarrow> k < i + n \<Longrightarrow> k < length old \<and> l ! k = Some (old ! k)"
    and "\<And>s j. map_of m s = Some j \<Longrightarrow> j < length old \<and> key_name (old ! j) = Some s"
  shows "\<exists>m'. createKeyToOldIdx l i n m = Some m' \<and>
    (\<forall>s j. map_of m' s = Some j \<longrightarrow> j < length old \<and> key_name (old ! j) = Some s)"
  using assms
proof (induction n arbitrary: i m)
  case (Suc n)
  have i: "i < length old" "l ! i = Some (old ! i)" using Suc.prems(1) [of i] by simp_all
  let ?m = "case v_key (v_info (old ! i)) of
      Some k \<Rightarrow> if key_prop k = ''__proto__'' then m else obj_put (key_prop k) i m | None \<Rightarrow> m"
  have "j < length old \<and> key_name (old ! j) = Some s" if "map_of ?m s = Some j" for s j
    using that Suc.prems(2) i(1) by (auto simp: key_name_def split: option.splits if_splits)
  then have "\<exists>m'. createKeyToOldIdx l (Suc i) n ?m = Some m' \<and>
      (\<forall>s j. map_of m' s = Some j \<longrightarrow> j < length old \<and> key_name (old ! j) = Some s)"
    using Suc.prems(1) by (intro Suc.IH) auto
  then show ?case using i(2) by simp
qed simp

lemma with_map_ok:
  assumes "arrays old new f st" "keys_inv old new st" "region st A M B"
  obtains m where "with_map st = Some (st\<lparr>c_map := Some m\<rparr>)"
    "arrays old new f (st\<lparr>c_map := Some m\<rparr>)" "keys_inv old new (st\<lparr>c_map := Some m\<rparr>)" "region (st\<lparr>c_map := Some m\<rparr>) A M B"
proof -
  have ok: "\<exists>m. with_map st = Some (st\<lparr>c_map := Some m\<rparr>) \<and>
      (\<forall>s j. map_of m s = Some j \<longrightarrow> j < length old \<and> key_name (old ! j) = Some s)"
  proof (cases "c_map st")
    case None
    have "\<exists>m. createKeyToOldIdx (c_old st) (c_os st) (c_oe st - c_os st) [] = Some m \<and>
        (\<forall>s j. map_of m s = Some j \<longrightarrow> j < length old \<and> key_name (old ! j) = Some s)"
      by (rule createKeyToOldIdx_ok) (use assms(1,2) None in \<open>auto simp: keys_inv_def arrays_def\<close>)
    then show ?thesis using None by (auto simp: with_map_def)
  next
    case (Some m)
    then have "st\<lparr>c_map := Some m\<rparr> = st" by (cases st) simp
    then show ?thesis using Some assms(2) by (intro exI [of _ m]) (simp add: with_map_def keys_inv_def)
  qed
  then obtain m where m: "with_map st = Some (st\<lparr>c_map := Some m\<rparr>)"
      "\<forall>s j. map_of m s = Some j \<longrightarrow> j < length old \<and> key_name (old ! j) = Some s" by blast
  have "arrays old new f (st\<lparr>c_map := Some m\<rparr>)" using assms(1) by (simp add: arrays_def)
  moreover have "keys_inv old new (st\<lparr>c_map := Some m\<rparr>)" using assms(2) m(2) by (simp add: keys_inv_def gone_def)
  moreover have "region (st\<lparr>c_map := Some m\<rparr>) A M B" using assms(3) by (simp add: region_def)
  ultimately show ?thesis using that m(1) by blast
qed

lemma create_step:
  assumes inv: "arrays old new f st" "keys_inv old new st" "region st A M B" "c_map st \<noteq> None"
    and wf: "\<forall>v\<in>set new. wf v" and w: "c_os st < c_oe st" "c_ns st < c_ne st"
    and a: "c_old st ! c_os st = Some a"
  shows "loop_inv old new f ((create_at hk (elm_of a) st)\<lparr>c_ns := c_ns st + 1\<rparr>)"
proof -
  note nb = new_bounds [OF inv(1) w(2)]
  obtain d M' where m: "M = d # M'" "shows_vnode a d" by (rule region_first [OF inv(3) w(1) inv(1) a])
  obtain v' e f' where c: "createElm hk True (new ! c_ns st) (c_fresh st) = (v', e, f')" by (metis prod_cases3)
  have "fresh_result (new ! c_ns st) (v', e, f') (c_fresh st)"
    using createElm_fresh [of "new ! c_ns st" True "c_fresh st"] wf nb(1) by (simp add: c)
  then have e: "shows_vnode v' e" "dom_ok f' e" "c_fresh st \<le> dom_id e" "c_fresh st \<le> f'" "erase v' = erase (new ! c_ns st)"
    by (simp_all add: fresh_result_def)
  have ok: "doms_ok (c_fresh st) (A @ M @ B)" using inv(3) by (simp add: region_def)
  then have "insert_elm e (first_id (M @ B)) (A @ M @ B) = A @ e # M @ B"
    by (intro insert_elm_before) (simp add: doms_ok_def)
  moreover have "elm_of a = first_id (M @ B)" using mounted_elm [OF m(2)] m(1) by (simp add: first_id_def)
  ultimately have st: "(create_at hk (elm_of a) st)\<lparr>c_ns := c_ns st + 1\<rparr> =
      st\<lparr>c_new := (c_new st)[c_ns st := v'], c_dom := A @ e # M @ B, c_fresh := f', c_ns := c_ns st + 1\<rparr>"
    using inv(3) nb(3) by (simp add: create_at_def c region_def)
  let ?st = "st\<lparr>c_new := (c_new st)[c_ns st := v'], c_dom := A @ e # M @ B, c_fresh := f', c_ns := c_ns st + 1\<rparr>"
  have "arrays old new f ?st" using inv(1) w e(4) erase_update [OF e(5)] by (auto simp: arrays_def)
  moreover have "keys_inv old new ?st" using inv(2,4) by (auto simp: keys_inv_def gone_def)
  moreover have "region ?st (A @ [e]) M B"
    using inv(3) e(1) w nb take_one_more [of "c_ns st" "c_new st" v'] doms_ok_insert [OF ok e(2-4)]
    by (auto simp: region_def intro: list_all2_appendI)
  ultimately show ?thesis unfolding st loop_inv_def by blast
qed

lemma move_step:
  assumes inv: "arrays old new f st" "keys_inv old new st" "region st A M B" "c_map st \<noteq> None"
    and uniq: "checkDuplicateKeys new = []" and pv: "patches pv old new"
    and w: "c_os st < c_oe st" "c_ns st < c_ne st"
    and a: "c_old st ! c_os st = Some a"
    and v: "c_os st \<le> i" "i < c_oe st" "c_old st ! i = Some v" "sameVnode v (c_new st ! c_ns st)"
  shows "step_ok old new f
    (map_option (\<lambda>s. s\<lparr>c_ns := c_ns s + 1\<rparr>)
      (case patch_at pv v (c_ns st) st of
         Some st1 \<Rightarrow> move_elm True v (elm_of a) (st1\<lparr>c_old := (c_old st1)[i := None]\<rparr>)
       | None \<Rightarrow> None))"
proof -
  note nb = new_bounds [OF inv(1) w(2)]
  have i: "i < length old" "i < length (c_old st)" "c_oe st \<le> length (c_old st)" using inv(1) v(2) by (auto simp: arrays_def)
  note vo = old_entry [OF inv(1) v(3) i(1)]
  have "win (c_old st) (c_os st) (c_oe st) = win (c_old st) (c_os st) i @ Some v # win (c_old st) (Suc i) (c_oe st)"
    using win_mid [OF v(1,2) i(3)] v(3) by simp
  then have "list_all2 shows_vnode (somes (win (c_old st) (c_os st) i) @ v # somes (win (c_old st) (Suc i) (c_oe st))) M"
    using inv(3) by (simp add: region_def)
  then obtain M1 d M2 where m: "M = M1 @ d # M2" "shows_vnode v d"
      "list_all2 shows_vnode (somes (win (c_old st) (c_os st) i)) M1"
      "list_all2 shows_vnode (somes (win (c_old st) (Suc i) (c_oe st))) M2"
    by (auto simp: list_all2_append1 list_all2_Cons1)
  obtain e M3 where e: "M = e # M3" "shows_vnode a e" by (rule region_first [OF inv(3) w(1) inv(1) a])
  have same: "sameVnode v (new ! c_ns st)" using v(4) nb(3) by simp
  obtain n' d' f' where p:
      "patch_at pv v (c_ns st) st = Some (st\<lparr>c_new := (c_new st)[c_ns st := n'], c_dom := (A @ M1) @ d' # M2 @ B, c_fresh := f'\<rparr>)"
      "shows_vnode n' d'" "dom_id d' = dom_id d" "doms_ok f' ((A @ M1) @ d' # M2 @ B)" "c_fresh st \<le> f'" "erase n' = erase (new ! c_ns st)"
    by (rule patch_at_ok [OF pv vo(2) nb(1) nb(3) same, of "A @ M1" d "M2 @ B"])
      (use inv(3) m in \<open>simp_all add: region_def\<close>)
  have dist: "distinct (map dom_id (A @ M1 @ d' # M2 @ B))" using p(4) by (simp add: doms_ok_def)
  have ref: "elm_of a = first_id (M1 @ [d'])"
    using mounted_elm [OF e(2)] e(1) m(1) p(3) by (cases M1) (auto simp: first_id_def)
  have mv: "insertBefore (dom_id d) (first_id (M1 @ [d'])) (A @ M1 @ d' # M2 @ B) = Some (A @ d' # M1 @ M2 @ B)"
    using insertBefore_left [OF dist] p(3) by simp
  let ?st = "st\<lparr>c_new := (c_new st)[c_ns st := n'], c_fresh := f', c_old := (c_old st)[i := None],
      c_dom := A @ d' # M1 @ M2 @ B, c_ns := c_ns st + 1\<rparr>"
  have "arrays old new f ?st" using inv(1) w p(5,6) erase_update [OF p(6)] i
    by (auto simp: arrays_def nth_list_update)
  moreover have "keys_inv old new ?st"
    by (rule keys_inv_patch [OF inv(2) uniq inv(1) i(1), of "c_ns st"])
      (use same vo w inv(4) i in \<open>auto simp: gone_def nth_list_update\<close>)
  moreover have "doms_ok f' (A @ d' # M1 @ M2 @ B)" by (rule doms_ok_perm [OF p(4)]) simp
  then have "region ?st (A @ [d']) (M1 @ M2) B"
    using inv(3) m p(2) w nb take_one_more [of "c_ns st" "c_new st" n'] win_update [OF v(1,2) i(3)]
    by (auto simp: region_def intro: list_all2_appendI)
  ultimately show ?thesis unfolding step_ok_def loop_inv_def
    using p(1) mv mounted_elm [OF m(2)] ref by (auto simp: move_elm_def)
qed

lemma findIdxInOld_ok:
  "findIdxInOld v l i n = Some j \<Longrightarrow> i \<le> j \<and> j < i + n \<and> l ! j \<noteq> None"
  by (induction v l i n rule: findIdxInOld.induct) (fastforce split: option.splits if_splits)+

lemma keyed_ok:
  assumes inv: "arrays old new f st" "keys_inv old new st" "region st A M B" "c_map st = Some m"
    and uniq: "checkDuplicateKeys new = []" and pv: "patches pv old new" and wf: "\<forall>v\<in>set new. wf v"
    and w: "c_os st < c_oe st" "c_ns st < c_ne st"
    and a: "c_old st ! c_os st = Some a"
  shows "step_ok old new f (map_option (\<lambda>s. s\<lparr>c_ns := c_ns s + 1\<rparr>) (keyed_step pv hk True a st))"
proof -
  note nb = new_bounds [OF inv(1) w(2)]
  let ?n = "c_new st ! c_ns st"
  have cm: "c_map st \<noteq> None" using inv(4) by simp
  have create: "step_ok old new f (map_option (\<lambda>s. s\<lparr>c_ns := c_ns s + 1\<rparr>) (Some (create_at hk (elm_of a) st)))"
    using create_step [OF inv(1-3) cm wf w a] by (simp add: step_ok_def)
  have move: "step_ok old new f (map_option (\<lambda>s. s\<lparr>c_ns := c_ns s + 1\<rparr>)
      (case patch_at pv v (c_ns st) st of
         Some st1 \<Rightarrow> move_elm True v (elm_of a) (st1\<lparr>c_old := (c_old st1)[i := None]\<rparr>) | None \<Rightarrow> None))"
    if "c_os st \<le> i" "i < c_oe st" "c_old st ! i = Some v" "sameVnode v ?n" for i v
    by (rule move_step [OF inv(1-3) cm uniq pv w a that])
  show ?thesis
  proof (cases "v_key (v_info ?n)")
    case None
    show ?thesis
    proof (cases "findIdxInOld ?n (c_old st) (c_os st) (c_oe st - 1 - c_os st)")
      case (Some i)
      with findIdxInOld_ok obtain v where "c_os st \<le> i" "i < c_oe st" "c_old st ! i = Some v" by fastforce
      then show ?thesis using None Some move create by (simp add: keyed_step_def inv(4))
    qed (use None create in \<open>simp add: keyed_step_def inv(4)\<close>)
  next
    case (Some k)
    have kn: "key_name ?n = Some (key_prop k)" using Some by (simp add: key_name_def)
    have "new ! c_ns st \<in> set new" using nb(1) by (rule nth_mem)
    then have inh: "key_prop k \<notin> set proto_names"
      using check_keys_seen [of proto_names new "new ! c_ns st"] uniq kn nb(3) by (simp add: checkDuplicateKeys_def)
    show ?thesis
    proof (cases "map_of m (key_prop k)")
      case (Some i)
      then have i: "i < length old" "key_name (old ! i) = Some (key_prop k)"
        using inv(2,4) by (auto simp: keys_inv_def)
      then have "clash (old ! i) (new ! c_ns st)" using kn nb(3) by (simp add: clash_def)
      then have "\<not> gone st i" using inv(2) i(1) w(2) unfolding keys_inv_def by blast
      then obtain v where "c_os st \<le> i" "i < c_oe st" "c_old st ! i = Some v" by (auto simp: gone_def)
      then show ?thesis using \<open>v_key (v_info ?n) = Some k\<close> Some inh move create by (simp add: keyed_step_def inv(4))
    qed (use \<open>v_key (v_info ?n) = Some k\<close> inh create in \<open>simp add: keyed_step_def inv(4)\<close>)
  qed
qed

lemma skip_step:
  assumes "loop_inv old new f st" "c_os st < c_oe st" "c_old st ! i = None"
    and "i = c_os st \<and> st' = st\<lparr>c_os := c_os st + 1\<rparr> \<or> i = c_oe st - 1 \<and> st' = st\<lparr>c_oe := c_oe st - 1\<rparr>"
  shows "loop_inv old new f st'"
proof -
  obtain A M B where r: "region st A M B" and ar: "arrays old new f st" and k: "keys_inv old new st"
    using assms(1) by (auto simp: loop_inv_def)
  have len: "c_oe st \<le> length (c_old st)" using ar by (simp add: arrays_def)
  have "somes (win (c_old st) (c_os st) (c_oe st)) = somes (win (c_old st) (c_os st') (c_oe st'))"
  proof (cases "i = c_os st \<and> st' = st\<lparr>c_os := c_os st + 1\<rparr>")
    case True
    then show ?thesis using win_first [OF assms(2) len] assms(3) by simp
  next
    case False
    with assms(4) have "i = c_oe st - 1" "st' = st\<lparr>c_oe := c_oe st - 1\<rparr>" by blast+
    then show ?thesis using win_last [OF assms(2) len] assms(3) by simp
  qed
  moreover have "c_old st' = c_old st" "c_dom st' = c_dom st" "c_new st' = c_new st" "c_fresh st' = c_fresh st"
      "c_ns st' = c_ns st" "c_ne st' = c_ne st" "c_map st' = c_map st"
    using assms(4) by auto
  ultimately have "region st' A M B" using r by (simp add: region_def)
  moreover have "arrays old new f st'" using ar assms(2,4) by (auto simp: arrays_def)
  moreover have "keys_inv old new st'"
  proof -
    have g: "gone st j" if "gone st' j" for j
    proof (rule ccontr)
      assume n: "\<not> gone st j"
      then have "j \<noteq> i" using assms(3) by (auto simp: gone_def)
      with n have "\<not> gone st' j" using assms(4) by (auto simp: gone_def)
      with that show False by simp
    qed
    have m: "c_map st' = c_map st" "c_old st' = c_old st" "c_ns st' = c_ns st" "c_ne st' = c_ne st"
      using assms(4) by auto
    show ?thesis using k g unfolding keys_inv_def m by blast
  qed
  ultimately show ?thesis unfolding loop_inv_def by blast
qed

lemma children_step_ok:
  assumes inv: "loop_inv old new f st"
    and uniq: "checkDuplicateKeys new = []" and pv: "patches pv old new" and wf: "\<forall>v\<in>set new. wf v"
    and w: "c_os st < c_oe st" "c_ns st < c_ne st"
  shows "step_ok old new f (children_step pv hk True st)"
proof -
  obtain A M B where r: "region st A M B" and ar: "arrays old new f st" and k: "keys_inv old new st"
    using inv by (auto simp: loop_inv_def)
  show ?thesis
  proof (cases "c_old st ! c_os st")
    case None
    then show ?thesis using skip_step [OF inv w(1) None] by (simp add: children_step_def step_ok_def)
  next
    case a: (Some a)
    show ?thesis
    proof (cases "c_old st ! (c_oe st - 1)")
      case None
      then show ?thesis using a skip_step [OF inv w(1) None] by (simp add: children_step_def step_ok_def)
    next
      case b: (Some b)
      obtain m where m: "with_map st = Some (st\<lparr>c_map := Some m\<rparr>)"
          "arrays old new f (st\<lparr>c_map := Some m\<rparr>)" "keys_inv old new (st\<lparr>c_map := Some m\<rparr>)" "region (st\<lparr>c_map := Some m\<rparr>) A M B"
        by (rule with_map_ok [OF ar k r])
      have keyed: "step_ok old new f (map_option (\<lambda>s. s\<lparr>c_ns := c_ns s + 1\<rparr>) (keyed_step pv hk True a (st\<lparr>c_map := Some m\<rparr>)))"
        by (rule keyed_ok [OF m(2-4) _ uniq pv wf]) (use w a in auto)
      note ends = start_start [OF ar k r uniq pv w a] end_end [OF ar k r uniq pv w b]
        start_end [OF ar k r uniq pv w a _ b] end_start [OF ar k r uniq pv w b _ a]
      show ?thesis unfolding children_step_def a b m(1) option.case
        using ends keyed by (simp only: if_split) blast
    qed
  qed
qed

lemma children_loop_ok:
  assumes "loop_inv old new f st" "checkDuplicateKeys new = []" "patches pv old new" "\<forall>v\<in>set new. wf v"
  shows "\<exists>st'. children_loop pv hk True st = Some st' \<and> loop_inv old new f st' \<and>
    (c_oe st' \<le> c_os st' \<or> c_ne st' \<le> c_ns st')"
  using assms(1)
proof (induction "window st" arbitrary: st rule: less_induct)
  case less
  show ?case
  proof (cases "c_os st < c_oe st \<and> c_ns st < c_ne st")
    case True
    then obtain st1 where st1: "children_step pv hk True st = Some st1" "loop_inv old new f st1"
      using children_step_ok [OF less.prems assms(2-4)] by (auto simp: step_ok_def)
    have "window st1 < window st" using children_step_window [OF st1(1)] True by blast
    from less.hyps [OF this st1(2)] show ?thesis
      using True st1(1) by (subst children_loop.simps) simp
  next
    case False
    then show ?thesis using less.prems by (subst children_loop.simps) (auto simp: not_less)
  qed
qed

lemma list_all2_elm: "list_all2 shows_vnode vs ds \<Longrightarrow> list_all2 (\<lambda>v d. elm_of v = Some (dom_id d)) vs ds"
  by (erule list_all2_mono) (rule mounted_elm)

lemma children_finish_ok:
  assumes "loop_inv old new f st" "c_oe st \<le> c_os st \<or> c_ne st \<le> c_ns st" "\<forall>v\<in>set new. wf v"
  shows "children_ok new (children_finish hk st) f"
proof -
  obtain A M B where r: "region st A M B" and ar: "arrays old new f st"
    using assms(1) by (auto simp: loop_inv_def)
  show ?thesis
  proof (cases "c_oe st \<le> c_os st")
    case True
    then have "M = []" using r ar by (auto simp: region_def arrays_def win_def)
    then have dom: "c_dom st = A @ B" "doms_ok (c_fresh st) (A @ B)" using r by (simp_all add: region_def)
    have B: "list_all2 shows_vnode (drop (c_ne st) (c_new st)) B" using r by (simp add: region_def)
    have ref: "(if c_ne st < length (c_new st) then elm_of (c_new st ! c_ne st) else None) = first_id B"
    proof (cases "c_ne st < length (c_new st)")
      case True
      then have "drop (c_ne st) (c_new st) = c_new st ! c_ne st # drop (Suc (c_ne st)) (c_new st)"
        by (simp add: Cons_nth_drop_Suc)
      with B obtain d B' where "B = d # B'" "shows_vnode (c_new st ! c_ne st) d" by (auto simp: list_all2_Cons1)
      with True show ?thesis by (simp add: first_id_def mounted_elm)
    next
      case False
      with B have "B = []" by simp
      with False show ?thesis by (simp add: first_id_def)
    qed
    have "children_ok (c_new st) (addVnodes hk (first_id B) (c_new st) (c_ns st) (c_ne st - c_ns st) (A @ B) (c_fresh st)) (c_fresh st)"
    proof (rule addVnodes_ok)
      show "list_all2 shows_vnode (take (c_ns st) (c_new st)) A" using r by (simp add: region_def)
      show "list_all2 shows_vnode (drop (c_ns st + (c_ne st - c_ns st)) (c_new st)) B"
        using B ar by (simp add: arrays_def)
      show "c_ns st + (c_ne st - c_ns st) \<le> length (c_new st)" using ar by (simp add: arrays_def)
      show "wf (c_new st ! k)" if "c_ns st \<le> k" "k < c_ns st + (c_ne st - c_ns st)" for k
      proof -
        have "c_new st ! k = new ! k" "k < length new" using that ar by (auto simp: arrays_def)
        then show ?thesis using assms(3) by simp
      qed
      show "doms_ok (c_fresh st) (A @ B)" by (rule dom(2))
    qed
    moreover have "children_finish hk st = addVnodes hk (first_id B) (c_new st) (c_ns st) (c_ne st - c_ns st) (A @ B) (c_fresh st)"
      by (simp only: children_finish_def True if_True ref dom(1))
    moreover have "f \<le> c_fresh st" "map erase (c_new st) = map erase new" using ar by (simp_all add: arrays_def)
    ultimately show ?thesis by (auto simp: children_ok_def)
  next
    case False
    then have e: "c_ne st = c_ns st" using assms(2) ar by (simp add: arrays_def)
    let ?W = "win (c_old st) (c_os st) (c_oe st)"
    have W: "list_all2 shows_vnode (somes ?W) M" using r by (simp add: region_def)
    have d: "distinct (map dom_id (A @ M @ B))" using r by (simp add: region_def doms_ok_def)
    have "removeVnodes W ds = removeVnodes (map Some (somes W)) ds" for W and ds :: "'p dom list"
      by (induction W ds rule: removeVnodes.induct) auto
    then have "removeVnodes ?W (c_dom st) = A @ B"
      using removeVnodes_mounted [OF list_all2_elm [OF W] d] r by (simp add: region_def)
    moreover have "list_all2 shows_vnode (take (c_ns st) (c_new st) @ drop (c_ns st) (c_new st)) (A @ B)"
      using r e by (intro list_all2_appendI) (simp_all add: region_def)
    moreover have "doms_ok (c_fresh st) (A @ B)" using r by (auto simp: region_def doms_ok_def)
    ultimately show ?thesis using False ar
      by (simp add: children_finish_def children_ok_def arrays_def win_def)
  qed
qed

lemma updateChildren_ok:
  assumes "list_all2 shows_vnode old ds" "doms_ok f ds" "checkDuplicateKeys new = []" "\<forall>v\<in>set new. wf v"
    and "patches pv old new"
  shows "\<exists>r. updateChildren pv hk False old new ds f = Some r \<and> children_ok new r f"
proof -
  let ?st = "children_init old new ds f"
  have "loop_inv old new f ?st"
    using assms(1,2) unfolding loop_inv_def
    by (intro conjI exI [of _ "[]"] exI [of _ ds])
      (auto simp: arrays_def keys_inv_def region_def children_init_def gone_def win_def)
  then obtain st' where st': "children_loop pv hk True ?st = Some st'" "loop_inv old new f st'"
      "c_oe st' \<le> c_os st' \<or> c_ne st' \<le> c_ns st'"
    using children_loop_ok [OF _ assms(3,5,4)] by blast
  then show ?thesis using children_finish_ok [OF st'(2,3) assms(4)] by (simp add: updateChildren_def)
qed

section \<open>Patching a vnode\<close>

definition patch_ok :: "vnode \<Rightarrow> 'p dom \<Rightarrow> nat \<Rightarrow> (vnode \<times> 'p dom \<times> nat) option \<Rightarrow> bool" where
  "patch_ok v d f r \<longleftrightarrow>
     (\<exists>v' d' f'. r = Some (v', d', f') \<and> shows_vnode v' d' \<and> dom_ok f' d' \<and> f \<le> f' \<and>
        dom_id d' = dom_id d \<and> erase v' = erase v)"

lemma update_props_ok:
  assumes "wf old" "wf v" "sameVnode old v" "shows_vnode old (DElem k t p ds)"
  shows "\<exists>p'. update_props hk (v_info old) ((v_info v)\<lparr>v_elm := e\<rparr>) (DElem k t p ds) = Some (DElem k t p' ds) \<and>
    sync t (v_data (v_info v)) p' \<and> v_tag (v_info v) = Some t"
proof -
  obtain i ch where v: "v = VNode i ch" by (cases v)
  obtain j oc where o: "old = VNode j oc" by (cases old)
  have t: "v_tag j = Some t" "v_tag i = Some t" "(v_data j = None) = (v_data i = None)" "sync t (v_data j) p"
    using assms by (auto simp: v o mounted_simps sameVnode_def Let_def)
  show ?thesis
  proof (cases "v_data i")
    case None
    with t show ?thesis by (simp add: v o update_props_def)
  next
    case (Some dt)
    then obtain dt0 where "v_data j = Some dt0" using t(3) by auto
    with t Some assms(1,2) updated show ?thesis by (auto simp: v o update_props_def)
  qed
qed

lemma done_element:
  assumes "k < f" "f \<le> f'" "doms_ok f' ks" "v_tag i = Some t" "sync t (v_data i) p" "v_elm i = Some k"
    and "map_option (map erase) ch' = map_option (map erase) ch"
    and "case ch' of Some cs \<Rightarrow> list_all2 shows_vnode cs ks | None \<Rightarrow> (case v_text i of Some s \<Rightarrow> shows_text s ks | None \<Rightarrow> ks = [])"
  shows "patch_ok (VNode i ch) (DElem k t p0 ds) f (Some (VNode i ch', DElem k t p ks, f'))"
  using assms by (auto simp: patch_ok_def mounted_simps doms_ok_def split: option.split)

lemma shows_text_one [simp]: "shows_text s [DText f s]" "shows_text [] []"
  unfolding shows_text_def by (rule exI [of _ "[(f, s)]"], simp) (rule exI [of _ "[]"], simp)

lemma patch_content_ok:
  assumes old: "wf (VNode j oc)" "shows_vnode (VNode j oc) (DElem k t p0 ds)" "doms_ok f ds" "k < f"
    and v: "wf (VNode i ch)" "v_tag i = Some t" "sync t (v_data i) p" "v_elm i = Some k"
    and pv: "\<And>os c. oc = Some os \<Longrightarrow> ch = Some c \<Longrightarrow> patches pv os c"
  shows "patch_ok (VNode i ch) (DElem k t p ds) f (patch_content pv hk False (VNode j oc) (VNode i ch) (DElem k t p ds) f)"
proof (cases "v_text i")
  case (Some s)
  then have ch: "ch = None" using v(1,2) by auto
  have t: "v_tag j = Some t" using old(2) by (simp add: mounted_simps)
  show ?thesis
  proof (cases "v_text j = Some s")
    case True
    then have "oc = None" "shows_text s ds" using old(1,2) t by (auto simp: mounted_simps)
    then show ?thesis using True Some ch old v by (simp add: patch_content_def done_element)
  next
    case False
    then show ?thesis using Some ch old v
      by (auto simp: patch_content_def setTextContent_def doms_ok_def intro!: done_element)
  qed
next
  case None
  have t: "v_tag j = Some t" using old(2) by (simp add: mounted_simps)
  consider (both) os c where "oc = Some os" "ch = Some c" | (add) c where "oc = None" "ch = Some c"
    | (remove) os where "oc = Some os" "ch = None" | (none) "oc = None" "ch = None"
    by (cases oc; cases ch) auto
  then show ?thesis
  proof cases
    case both
    have os: "list_all2 shows_vnode os ds" using old(2) both by (simp add: mounted_simps)
    have "\<exists>r. updateChildren pv hk False os c ds f = Some r \<and> children_ok c r f"
      using v(1) both by (intro updateChildren_ok [OF os old(3) _ _ pv [OF both]]) (simp_all add: list_all_iff)
    then obtain c' ks f' where "updateChildren pv hk False os c ds f = Some (c', ks, f')"
        "list_all2 shows_vnode c' ks" "doms_ok f' ks" "f \<le> f'" "map erase c' = map erase c"
      by (auto simp: children_ok_def)
    then show ?thesis using both None os old v
      by (auto simp: patch_content_def dom_kids_def set_kids_def intro!: done_element)
  next
    case add
    have ds: "(if v_text j \<noteq> None then setTextContent [] f (DElem k t p ds) else (DElem k t p ds, f)) = (DElem k t p [], f)"
      using old(2) add by (auto simp: mounted_simps setTextContent_def)
    obtain c' ks f' where a: "addVnodes hk None c 0 (length c) [] f = (c', ks, f')" by (metis prod_cases3)
    have "children_ok c (addVnodes hk (first_id ([] :: 'p dom list)) c 0 (length c) ([] @ []) f) f"
      using v(1) add by (intro addVnodes_ok [of 0 c "[]" "length c" "[]" f]) (auto simp: doms_ok_def list_all_iff)
    then have "list_all2 shows_vnode c' ks" "doms_ok f' ks" "f \<le> f'" "map erase c' = map erase c"
      using a by (simp_all add: first_id_def children_ok_def)
    moreover have "patch_content pv hk False (VNode j oc) (VNode i ch) (DElem k t p ds) f
        = Some (VNode i (Some c'), DElem k t p ks, f')"
      by (simp only: patch_content_def vnode.sel None add option.case prod.case ds Let_def a dom_kids_def set_kids_def dom.case)
    ultimately show ?thesis using add None old v by (auto intro!: done_element)
  next
    case remove
    have os: "list_all2 shows_vnode os ds" using old(2) remove by (simp add: mounted_simps)
    have "removeVnodes (map Some os) ([] @ ds @ []) = [] @ []"
      using old(3) by (intro removeVnodes_mounted list_all2_elm os) (simp add: doms_ok_def)
    then show ?thesis using remove None old v
      by (auto simp: patch_content_def dom_kids_def set_kids_def doms_ok_def intro!: done_element)
  next
    case none
    have ds: "(if v_text j \<noteq> None then setTextContent [] f (DElem k t p ds) else (DElem k t p ds, f)) = (DElem k t p [], f)"
      using old(2) none by (auto simp: mounted_simps setTextContent_def)
    have "patch_content pv hk False (VNode j oc) (VNode i ch) (DElem k t p ds) f = Some (VNode i ch, DElem k t p [], f)"
      by (simp only: patch_content_def vnode.sel None none option.case prod.case ds Let_def)
    then show ?thesis using none None old v by (auto simp: doms_ok_def intro!: done_element)
  qed
qed

text \<open>Texts and comments\<close>

lemma patch_text_ok:
  assumes "shows_vnode (VNode j oc) d" "dom_ok f d" "v_tag i = None" "v_tag j = None" "v_isComment j = v_isComment i"
    and "v_text i = Some s" "v_elm i = v_elm j" "ch = None"
  shows "patch_ok (VNode i ch) d f (patch_content pv hk False (VNode j oc) (VNode i ch) d f)"
  using assms by (cases d) (auto simp: patch_content_def patch_ok_def mounted_simps setTextContent_def)

lemma shows_same:
  assumes "shows_vnode (VNode j ch) d" "v_elm i = v_elm j" "v_tag i = v_tag j" "v_data i = v_data j"
    and "v_text i = v_text j" "v_isComment i = v_isComment j"
  shows "shows_vnode (VNode i ch) d"
  using assms by (cases d; cases ch) (simp_all add: mounted_simps)

lemma patchVnode_ok:
  "depth v \<le> n \<Longrightarrow> wf old \<Longrightarrow> wf v \<Longrightarrow> static_agree old v \<Longrightarrow> sameVnode old v \<Longrightarrow>
     shows_vnode old d \<Longrightarrow> dom_ok f d \<Longrightarrow> patch_ok v d f (patchVnode hk n False old v d f)"
proof (induction n arbitrary: old v d f)
  case 0
  then show ?case by (cases v) simp
next
  case (Suc n)
  obtain i ch where v: "v = VNode i ch" by (cases v)
  obtain j oc where o: "old = VNode j oc" by (cases old)
  let ?i = "i\<lparr>v_elm := v_elm j\<rparr>"
  have tags: "v_tag j = v_tag i" "v_isComment j = v_isComment i" "(v_data j = None) = (v_data i = None)" "\<not> v_isAsyncPlaceholder j"
    using Suc.prems(2,3,5) by (auto simp: v o sameVnode_def Let_def)
  have elm: "v_elm j = Some (dom_id d)" using mounted_elm [OF Suc.prems(6)] by (simp add: o elm_of_def)
  have wf1: "wf (VNode ?i ch)" using Suc.prems(3) by (cases "v_tag i"; cases "v_data i") (auto simp: v)
  have lift: "patch_ok v d f r" if "patch_ok (VNode ?i ch) d' f r" "dom_id d' = dom_id d" for r d'
    using that by (auto simp: patch_ok_def v)
  have pv: "patches (patchVnode hk n False) os c" if "oc = Some os" "ch = Some c" for os c
    unfolding patches_def
  proof (intro allI impI)
    fix a w e g
    assume h: "a \<in> set os" "w \<in> set c" "sameVnode a w" "shows_vnode a e" "dom_ok g e"
    have "depth w < depth v" unfolding v that(2) by (rule depth_child [OF h(2)])
    then have "depth w \<le> n" using Suc.prems(1) by simp
    moreover have "wf a" "wf w" using Suc.prems(2,3) h(1,2) that by (simp_all add: v o list_all_iff)
    moreover have "static_agree a w" using Suc.prems(4) h(1,2) that unfolding v o by (simp add: static_agree_child)
    ultimately have "patch_ok w e g (patchVnode hk n False a w e g)" using h(3-5) by (intro Suc.IH)
    then show "\<exists>v' d' f'. patchVnode hk n False a w e g = Some (v', d', f') \<and> shows_vnode v' d' \<and> dom_ok f' d' \<and>
        g \<le> f' \<and> dom_id d' = dom_id e \<and> erase v' = erase w"
      by (simp add: patch_ok_def)
  qed
  show ?case
  proof (cases "old = v")
    case True
    then show ?thesis using Suc.prems(6,7) by (simp add: patch_ok_def)
  next
    case False
    have run: "patchVnode hk (Suc n) False old v d f =
        (if reuse_static j ?i then Some (VNode ?i ch, d, f)
         else case update_props hk j ?i d of
           None \<Rightarrow> None
         | Some d1 \<Rightarrow> patch_content (patchVnode hk n False) hk False old (VNode ?i ch) d1 f)"
    proof -
      have e: "set_elm (elm_of old) v = VNode ?i ch" "v_info old = j" by (simp_all add: v o set_elm_def elm_of_def)
      show ?thesis using False tags(4) by (simp only: patchVnode.simps e Let_def vnode.sel if_False)
    qed
    show ?thesis
    proof (cases "reuse_static j ?i")
      case True
      then have "reuse_static j i" by (simp add: reuse_static_def)
      then have "ch = oc \<and> v_text i = v_text j \<and> v_data i = v_data j"
        using Suc.prems(4) by (simp add: v o static_agree_def)
      then have "shows_vnode (VNode ?i ch) d"
        using Suc.prems(6) tags by (auto simp: o intro: shows_same)
      then show ?thesis unfolding run using Suc.prems(7) True by (simp add: patch_ok_def v)
    next
      case False
      show ?thesis
      proof (cases "v_tag i")
        case None
        then obtain s where "v_text i = Some s" "ch = None" "v_data i = None" using Suc.prems(3) by (auto simp: v)
        then have "patch_ok (VNode ?i ch) d f (patch_content (patchVnode hk n False) hk False (VNode j oc) (VNode ?i ch) d f)"
          using Suc.prems(6,7) None tags by (intro patch_text_ok) (simp_all add: o)
        then show ?thesis unfolding run using False \<open>v_data i = None\<close> lift [OF _ refl] by (simp add: update_props_def o)
      next
        case (Some t)
        obtain k p ds where d: "d = DElem k t p ds"
          using Suc.prems(6) Some tags(1) by (cases d) (auto simp: o mounted_simps)
        obtain p' where p': "update_props hk j ?i d = Some (DElem k t p' ds)" "sync t (v_data i) p'"
          using update_props_ok [OF Suc.prems(2,3,5), of k t p ds "v_elm j"] Suc.prems(6) by (auto simp: v o d)
        have "patch_ok (VNode ?i ch) (DElem k t p' ds) f
            (patch_content (patchVnode hk n False) hk False (VNode j oc) (VNode ?i ch) (DElem k t p' ds) f)"
          by (rule patch_content_ok [OF Suc.prems(2)[unfolded o] Suc.prems(6)[unfolded o d]])
            (use Suc.prems(7) wf1 Some p'(2) elm pv in \<open>simp_all add: d doms_ok_def\<close>)
        then have "patch_ok v d f (patch_content (patchVnode hk n False) hk False old (VNode ?i ch) (DElem k t p' ds) f)"
          unfolding o by (rule lift) (simp add: d)
        then show ?thesis unfolding run using False p'(1) by simp
      qed
    qed
  qed
qed

text \<open>The root among the children of its parent\<close>

lemma patch_root_ok:
  assumes "wf old" "wf v" "static_agree old v" "shows_vnode old d" "doms_ok f (X @ d # Y)"
  shows "\<exists>v' d' f'. patch hk False mounting ref (Some old) (Some v) (X @ d # Y) f = Some (Some v', X @ d' # Y, f') \<and>
    shows_vnode v' d' \<and> doms_ok f' (X @ d' # Y) \<and> f \<le> f' \<and> erase v' = erase v"
proof -
  have dist: "distinct (map dom_id (X @ d # Y))" and d: "dom_ok f d" using assms(5) by (simp_all add: doms_ok_def)
  have elm: "elm_of old = Some (dom_id d)" by (rule mounted_elm [OF assms(4)])
  show ?thesis
  proof (cases "\<not> mounting \<and> sameVnode old v")
    case True
    have "patch_ok v d f (patchVnode hk (depth v) False old v d f)"
      using True assms(1-4) d by (intro patchVnode_ok) simp_all
    then obtain v' d' f' where p: "patchVnode hk (depth v) False old v d f = Some (v', d', f')" "shows_vnode v' d'"
        "dom_ok f' d'" "f \<le> f'" "dom_id d' = dom_id d" "erase v' = erase v" by (auto simp: patch_ok_def)
    have "find_node (dom_id d) (X @ d # Y) = Some d" using dist by (intro find_node_middle) auto
    moreover have "set_node d' (X @ d # Y) = X @ d' # Y" using dist p(5) by (rule set_node_middle)
    moreover have "doms_ok f' (X @ d' # Y)"
      using doms_ok_mono [OF assms(5) p(4)] p(3,5) by (simp add: doms_ok_def)
    ultimately show ?thesis using True elm p by (simp add: patch_def)
  next
    case False
    obtain v' e f' where c: "createElm hk False v f = (v', e, f')" by (metis prod_cases3)
    have e: "shows_vnode v' e" "dom_ok f' e" "f \<le> dom_id e" "f \<le> f'" "erase v' = erase v"
      using createElm_fresh [OF assms(2), of False f] by (simp_all add: c fresh_result_def)
    have "nextSibling (dom_id d) (X @ d # Y) = first_id Y"
      unfolding first_id_def using dist by (intro nextSibling_middle) auto
    moreover have "insert_elm e (first_id Y) ((X @ [d]) @ Y) = (X @ [d]) @ e # Y"
      using dist by (intro insert_elm_before) simp
    moreover have "detach (dom_id d) (X @ d # e # Y) = X @ e # Y"
      using dist by (intro detach_middle) auto
    ultimately have "patch hk False mounting ref (Some old) (Some v) (X @ d # Y) f = Some (Some v', X @ e # Y, f')"
      using False elm by (auto simp: patch_def c)
    moreover have "doms_ok f (X @ Y)" using assms(5) by (auto simp: doms_ok_def)
    then have "doms_ok f' (X @ e # Y)" using e(2-4) by (rule doms_ok_insert)
    ultimately show ?thesis using e by blast
  qed
qed

end

section \<open>The attribute module\<close>

text \<open>
  \<open>nodeOps.createElement\<close> (a \<open>select\<close> gets \<open>multiple\<close> at once) and the create and update hooks of the
  attribute module.
\<close>

definition createElement_1 :: "string \<Rightarrow> vdata option \<Rightarrow> attr_el" where
  "createElement_1 tagName d =
     \<lparr>ae_tag = tagName,
      ae_attrs =
        (if tagName = ''select'' \<and>
            (case d of Some dt \<Rightarrow> (case vd_attrs dt of Some as \<Rightarrow> get_or_undef as ''multiple'' \<noteq> JUndef | None \<Rightarrow> False)
             | None \<Rightarrow> False)
         then [((None, ''multiple''), ''multiple'')] else []),
      ae_ieph = False\<rparr>"

definition attr_hooks :: "browser \<Rightarrow> attr_el hooks" where
  "attr_hooks b =
     \<lparr>hk_element = createElement_1,
      hk_create = (\<lambda>d p. updateAttrs b False None (vd_attrs d) p),
      hk_update = (\<lambda>d0 d p. updateAttrs b False (vd_attrs d0) (vd_attrs d) p)\<rparr>"

definition attrs_okd :: "string \<Rightarrow> vdata \<Rightarrow> bool" where
  "attrs_okd t d \<longleftrightarrow>
     (case vd_attrs d of
        None \<Rightarrow> True
      | Some as \<Rightarrow> wf_obj as \<and> list_all (\<lambda>(k, v). plain_value v \<and> droppable t k) as)"

definition attrs_shown :: "string \<Rightarrow> vdata option \<Rightarrow> attr_el \<Rightarrow> bool" where
  "attrs_shown t d p \<longleftrightarrow>
     ae_tag p = t \<and>
     attrs_sync {k. \<not> (t = ''select'' \<and> k = ''multiple'')}
       (case d of Some dt \<Rightarrow> opt_obj (vd_attrs dt) | None \<Rightarrow> []) p"

lemma bare_attrs: "attrs_sync K [] \<lparr>ae_tag = t, ae_attrs = [], ae_ieph = False\<rparr>"
  using attr_text_undef [of JUndef _ t] by (simp add: attrs_sync_def get_or_undef_def isUndef_def) metis

lemma createElement_sync: "attrs_shown t None (createElement_1 t d)"
proof -
  let ?K = "{k. \<not> (t = ''select'' \<and> k = ''multiple'')}"
  have m: "t = ''select'' \<Longrightarrow> attr_slot t ''multiple'' = (None, ''multiple'')" by (simp add: attr_slot_def isXlink_def)
  have "attr_at (createElement_1 t d) key = attr_at \<lparr>ae_tag = t, ae_attrs = [], ae_ieph = False\<rparr> key" if "key \<in> ?K" for key
    using that m slot_inj [of t key "''multiple''"] by (auto simp: createElement_1_def)
  then show ?thesis
    using bare_attrs [of ?K t] by (simp add: attrs_shown_def attrs_sync_def) (simp add: createElement_1_def)
qed

lemma attrs_updated:
  assumes "ae_tag p = t" "attrs_sync K (opt_obj oldA) p"
    and "attrs_okd t \<lparr>vd_attrs = oldA\<rparr>" "attrs_okd t \<lparr>vd_attrs = newA\<rparr>"
  shows "attrs_sync K (opt_obj newA) (updateAttrs b False oldA newA p)"
proof (rule updateAttrs_keeps_sync [OF assms(2)])
  show "wf_obj (opt_obj newA)" "\<forall>(k, v) \<in> set (opt_obj newA). plain_value v"
    using assms(4) by (auto simp: attrs_okd_def list_all_iff wf_obj_def split: option.splits)
  show "\<forall>k\<in>set (obj_keys (opt_obj oldA)). droppable (ae_tag p) k"
    using assms(1,3) by (auto simp: attrs_okd_def list_all_iff split: option.splits)
qed

interpretation attrs_module: dom_modules "attr_hooks b" attrs_okd attrs_shown for b
proof
  show "attrs_shown t None (hk_element (attr_hooks b) t None)" for t
    by (simp add: attr_hooks_def createElement_sync)
next
  fix t d
  assume ok: "attrs_okd t d"
  have "attrs_shown t None (createElement_1 t (Some d))" by (rule createElement_sync)
  then show "attrs_shown t (Some d) (hk_create (attr_hooks b) d (hk_element (attr_hooks b) t (Some d)))"
    using ok attrs_updated [of "createElement_1 t (Some d)" t _ None "vd_attrs d"]
    by (simp add: attrs_shown_def attr_hooks_def attrs_okd_def)
next
  fix t d0 d p
  assume "attrs_okd t d0" "attrs_okd t d" "attrs_shown t (Some d0) p"
  then show "attrs_shown t (Some d) (hk_update (attr_hooks b) d0 d p)"
    using attrs_updated [of p t _ "vd_attrs d0" "vd_attrs d"]
    by (simp add: attrs_shown_def attr_hooks_def attrs_okd_def)
qed

section \<open>Properties\<close>

text \<open>
  C1. Patching renders: on a DOM that shows the old vnode tree, with its attributes, patching with any
  new tree of the render function (siblings without duplicate keys) never throws and leaves a DOM
  that shows the new tree, node for node and in order, whatever was added, removed, moved or
  replaced; the nodes beside the root are untouched and the new vnodes are unchanged but for the
  DOM nodes they hold. The attributes are those of the attribute module.
\<close>

theorem patch_renders:
  assumes "wf_vnode attrs_okd old" "wf_vnode attrs_okd new" "static_agree old new"
    and "mounted attrs_shown old d" "doms_ok f (before @ d # after)"
  shows "\<exists>new' d' f'. patch (attr_hooks b) False mounting ref (Some old) (Some new) (before @ d # after) f =
      Some (Some new', before @ d' # after, f') \<and>
    mounted attrs_shown new' d' \<and> erase new' = erase new"
  using attrs_module.patch_root_ok [OF assms] by blast

definition el_vnode :: "string \<Rightarrow> vkey option \<Rightarrow> jsval obj option \<Rightarrow> vnode list \<Rightarrow> vnode" where
  "el_vnode t k as ch =
     VNode \<lparr>v_tag = Some t, v_data = map_option (\<lambda>a. \<lparr>vd_attrs = Some a\<rparr>) as, v_text = None, v_elm = None, v_key = k,
            v_isComment = False, v_isStatic = False, v_isCloned = False, v_isOnce = False,
            v_isAsyncPlaceholder = False, v_asyncFactory = None, v_asyncError = False\<rparr> (Some ch)"

text \<open>A list whose items move, appear, disappear and change their attributes.\<close>

definition old_list :: vnode where
  "old_list = el_vnode ''ul'' None None
     [el_vnode ''li'' (Some (KNum 1)) (Some [(''id'', JStr ''x'')]) [], el_vnode ''li'' (Some (KNum 2)) None [],
      el_vnode ''li'' (Some (KNum 3)) None [], el_vnode ''li'' (Some (KNum 4)) None []]"

definition new_list :: vnode where
  "new_list = el_vnode ''ul'' None None
     [el_vnode ''li'' (Some (KNum 3)) None [el_vnode ''b'' None None []], el_vnode ''li'' (Some (KNum 5)) None [],
      el_vnode ''li'' (Some (KNum 1)) (Some [(''id'', JStr ''y'')]) []]"

lemma patch_renders_witness:
  "\<exists>old d new' d' f'. patch (attr_hooks \<lparr>isIE = False, isIE9 = False, isEdge = False\<rparr>) False False None
       (Some old) (Some new_list) ([] @ d # []) 9 = Some (Some new', [] @ d' # [], f') \<and>
     erase old = erase old_list \<and> mounted attrs_shown new' d' \<and> erase new' = erase new_list"
proof -
  let ?b = "\<lparr>isIE = False, isIE9 = False, isEdge = False\<rparr>"
  let ?c = "createElm (attr_hooks ?b) False old_list 0"
  have "attrs_module.fresh_result old_list ?c 0"
    by (rule attrs_module.createElm_fresh) code_simp
  then have m: "mounted attrs_shown (fst ?c) (fst (snd ?c))" "erase (fst ?c) = erase old_list"
    by (auto simp: attrs_module.fresh_result_def)
  have "wf_vnode attrs_okd (fst ?c)" "wf_vnode attrs_okd new_list" "static_agree (fst ?c) new_list"
      "doms_ok 9 ([] @ fst (snd ?c) # [])"
    by code_simp+
  from patch_renders [OF this(1-3) m(1) this(4), of ?b False None] m(2) show ?thesis by blast
qed

text \<open>
  C32. A key that is the name of a property every object has (\<open>constructor\<close>, \<open>toString\<close>, ...) breaks the
  patch: when the child with that key replaces another one, the lookup in the map of the old keys
  finds the inherited property, takes it for an index, and the comparison with the vnode at that
  index throws.
\<close>

theorem inherited_key_throws:
  assumes "v_key (v_info new) = Some k" "key_prop k \<in> set proto_names" "\<not> sameVnode old new"
    and "key_name old \<noteq> Some (key_prop k)"
  shows "updateChildren pv hk removeOnly [old] [new] ds f = None"
proof -
  obtain m where "createKeyToOldIdx [Some old] 0 (Suc 0) [] = Some m" "map_of m (key_prop k) = None"
    using assms(4) by (cases "v_key (v_info old)") (auto simp: key_name_def)
  then have "children_step pv hk (\<not> removeOnly) (children_init [old] [new] ds f) = None"
    using assms(1-3) by (simp add: children_step_def children_init_def with_map_def keyed_step_def)
  then have "children_loop pv hk (\<not> removeOnly) (children_init [old] [new] ds f) = None"
    by (subst children_loop.simps) (simp add: children_init_def)
  then show ?thesis by (simp add: updateChildren_def)
qed

lemma inherited_key_throws_witness:
  "updateChildren (patchVnode (attr_hooks \<lparr>isIE = False, isIE9 = False, isEdge = False\<rparr>) 2 False) (attr_hooks \<lparr>isIE = False, isIE9 = False, isEdge = False\<rparr>) False
     [el_vnode ''p'' None None []] [el_vnode ''p'' (Some (KStr ''constructor'')) None []] [] 0 = None"
  by (rule inherited_key_throws) code_simp+

end
