(* ===== verification/Scheduler.thy ===== *)
theory Scheduler
  imports JsPrelude
begin

text \<open>
  The scheduler of \<open>frontend/js/vue.js\<close>: \<open>queueWatcher\<close>, \<open>flushSchedulerQueue\<close> and their state. A
  watcher is its id. Running one is a parameter: what it does to the state of the application, and
  the watchers it queues meanwhile, in order; \<open>None\<close> is an exception. The lemmas show the
  invariant of the queue in every reachable state, the order of a flush, when a flush ends, and
  the two situations in which it does not: watchers that queue each other, and a watcher that
  throws, after which no flush is ever scheduled again.
\<close>

section \<open>State and operations\<close>

record sched =
  s_queue :: "nat list"
  s_activated :: "nat list"
  s_has :: "nat \<Rightarrow> bool"
  s_circular :: "nat \<Rightarrow> nat"
  s_waiting :: bool
  s_flushing :: bool
  s_index :: nat
  s_ticks :: nat

text \<open>\<open>s_ticks\<close> counts the flushes given to \<open>nextTick\<close> that have not been called yet.\<close>

definition sched_init :: sched where
  "sched_init = \<lparr>s_queue = [], s_activated = [], s_has = (\<lambda>_. False), s_circular = (\<lambda>_. 0),
     s_waiting = False, s_flushing = False, s_index = 0, s_ticks = 0\<rparr>"

definition MAX_UPDATE_COUNT :: nat where
  "MAX_UPDATE_COUNT = 100"

definition resetSchedulerState :: "sched \<Rightarrow> sched" where
  "resetSchedulerState st =
     st\<lparr>s_index := 0, s_queue := [], s_activated := [], s_has := (\<lambda>_. False), s_circular := (\<lambda>_. 0),
        s_waiting := False, s_flushing := False\<rparr>"

text \<open>The loop that looks for the place of a watcher in a queue that is being flushed\<close>

fun scan_back :: "nat list \<Rightarrow> nat \<Rightarrow> nat \<Rightarrow> nat \<Rightarrow> nat" where
  "scan_back q ix w 0 = 0"
| "scan_back q ix w (Suc i) = (if ix < Suc i \<and> w < q ! Suc i then scan_back q ix w i else Suc i)"

definition enqueue :: "nat \<Rightarrow> sched \<Rightarrow> sched" where
  "enqueue w st =
     (if \<not> s_flushing st then st\<lparr>s_queue := s_queue st @ [w]\<rparr>
      else
        let i = scan_back (s_queue st) (s_index st) w (length (s_queue st) - 1)
        in st\<lparr>s_queue := splice_in (i + 1) w (s_queue st)\<rparr>)"

definition queueWatcher :: "nat \<Rightarrow> sched \<Rightarrow> sched" where
  "queueWatcher w st =
     (if s_has st w then st
      else
        let st1 = enqueue w (st\<lparr>s_has := (s_has st)(w := True)\<rparr>)
        in if \<not> s_waiting st1 then st1\<lparr>s_waiting := True, s_ticks := s_ticks st1 + 1\<rparr> else st1)"

definition queueActivatedComponent :: "nat \<Rightarrow> sched \<Rightarrow> sched" where
  "queueActivatedComponent vm st = st\<lparr>s_activated := s_activated st @ [vm]\<rparr>"

text \<open>\<open>nextTick\<close> calls the flush.\<close>

definition start_flush :: "sched \<Rightarrow> sched" where
  "start_flush st =
     st\<lparr>s_ticks := s_ticks st - 1, s_flushing := True, s_queue := sort (s_queue st), s_index := 0\<rparr>"

definition pick :: "sched \<Rightarrow> nat \<times> sched" where
  "pick st = (let w = s_queue st ! s_index st in (w, st\<lparr>s_has := (s_has st)(w := False)\<rparr>))"

text \<open>After a run: is the loop left because of too many circular updates?\<close>

definition after_run :: "nat \<Rightarrow> sched \<Rightarrow> bool \<times> sched" where
  "after_run w st =
     (if s_has st w then
        (let c = s_circular st w + 1; st1 = st\<lparr>s_circular := (s_circular st)(w := c)\<rparr>
         in if MAX_UPDATE_COUNT < c then (True, st1) else (False, st1\<lparr>s_index := s_index st1 + 1\<rparr>))
      else (False, st\<lparr>s_index := s_index st + 1\<rparr>))"

section \<open>The flush\<close>

type_synonym 's runner = "nat \<Rightarrow> 's \<Rightarrow> (nat list \<times> 's) option"

text \<open>
  How a flush ends: with the watchers run, in order, and whether the loop was left early; with an
  exception, which leaves the scheduler as it is; or not within the given number of runs.
\<close>

datatype 's outcome = Finished "nat list" bool sched 's | Threw "nat list" sched 's | Running

fun flush_loop :: "'s runner \<Rightarrow> nat \<Rightarrow> nat list \<Rightarrow> sched \<Rightarrow> 's \<Rightarrow> 's outcome" where
  "flush_loop run fuel trace st s =
     (if s_index st < length (s_queue st) then
        (case fuel of
           0 \<Rightarrow> Running
         | Suc n \<Rightarrow>
             (let (w, st1) = pick st in
              case run w s of
                None \<Rightarrow> Threw (trace @ [w]) st1 s
              | Some (ws, s') \<Rightarrow>
                  (let (left, st2) = after_run w (fold queueWatcher ws st1)
                   in if left then Finished (trace @ [w]) True st2 s'
                      else flush_loop run n (trace @ [w]) st2 s')))
      else Finished trace False st s)"

declare flush_loop.simps [simp del]

text \<open>
  The hooks called after the loop: \<open>activated\<close> in order, \<open>updated\<close> from the last watcher of the queue to
  the first, for the mounted components whose render watcher it is.
\<close>

record flush_report =
  r_ran :: "nat list"
  r_warned :: bool
  r_activated :: "nat list"
  r_updated :: "nat list"

definition callUpdatedHooks :: "(nat \<Rightarrow> bool) \<Rightarrow> nat list \<Rightarrow> nat list" where
  "callUpdatedHooks mounted_render queue = filter mounted_render (rev queue)"

definition flushSchedulerQueue ::
    "'s runner \<Rightarrow> (nat \<Rightarrow> bool) \<Rightarrow> nat \<Rightarrow> sched \<Rightarrow> 's \<Rightarrow> (flush_report option \<times> sched \<times> 's) option" where
  "flushSchedulerQueue run mounted_render fuel st s =
     (case flush_loop run fuel [] (start_flush st) s of
        Finished trace left st1 s' \<Rightarrow>
          Some (Some \<lparr>r_ran = trace, r_warned = left, r_activated = s_activated st1,
                      r_updated = callUpdatedHooks mounted_render (s_queue st1)\<rparr>,
                resetSchedulerState st1, s')
      | Threw trace st1 s' \<Rightarrow> Some (None, st1, s')
      | Running \<Rightarrow> None)"

section \<open>Steps of the scheduler\<close>

text \<open>
  The scheduler as a machine: the application queues watchers outside a flush and, while a watcher
  runs, inside one; the flush starts, picks a watcher, comes back from its run, and ends.
\<close>

datatype phase = Idle | Between | During nat | Left

inductive sched_step :: "phase \<times> sched \<Rightarrow> phase \<times> sched \<Rightarrow> bool" where
  Queue: "p = Idle \<or> p = During v \<Longrightarrow> sched_step (p, st) (p, queueWatcher w st)"
| Activate: "p = Idle \<or> p = During v \<Longrightarrow> sched_step (p, st) (p, queueActivatedComponent vm st)"
| Start: "0 < s_ticks st \<Longrightarrow> sched_step (Idle, st) (Between, start_flush st)"
| Pick: "s_index st < length (s_queue st) \<Longrightarrow> pick st = (w, st') \<Longrightarrow> sched_step (Between, st) (During w, st')"
| Back: "after_run w st = (left, st') \<Longrightarrow> sched_step (During w, st) (if left then Left else Between, st')"
| End: "s_index st = length (s_queue st) \<Longrightarrow> sched_step (Between, st) (Idle, resetSchedulerState st)"
| Leave: "sched_step (Left, st) (Idle, resetSchedulerState st)"

inductive_cases sched_stepE: "sched_step c c'"

inductive reachable :: "phase \<times> sched \<Rightarrow> bool" where
  init: "reachable (Idle, sched_init)"
| step: "reachable c \<Longrightarrow> sched_step c c' \<Longrightarrow> reachable c'"

text \<open>The watchers still to run\<close>

definition pending :: "phase \<Rightarrow> sched \<Rightarrow> nat list" where
  "pending p st =
     (case p of
        Idle \<Rightarrow> s_queue st
      | Between \<Rightarrow> drop (s_index st) (s_queue st)
      | During w \<Rightarrow> drop (s_index st + 1) (s_queue st)
      | Left \<Rightarrow> drop (s_index st + 1) (s_queue st))"

text \<open>
  A watcher is flagged exactly when it is pending, once; the pending watchers of a flush are sorted
  by id; a flush is scheduled (one, not more) exactly when watchers wait for it.
\<close>

definition sched_inv :: "phase \<times> sched \<Rightarrow> bool" where
  "sched_inv c \<longleftrightarrow>
     (case c of (p, st) \<Rightarrow>
        distinct (pending p st) \<and> (\<forall>w. s_has st w \<longleftrightarrow> w \<in> set (pending p st)) \<and>
        s_flushing st = (p \<noteq> Idle) \<and> (p \<noteq> Idle \<longrightarrow> sorted (pending p st) \<and> s_waiting st) \<and>
        s_ticks st = (if p = Idle \<and> s_queue st \<noteq> [] then 1 else 0) \<and> (p = Idle \<longrightarrow> s_waiting st = (s_queue st \<noteq> [])) \<and>
        (p = Idle \<longrightarrow> s_circular st = (\<lambda>_. 0)) \<and>
        (p = Between \<longrightarrow> s_index st \<le> length (s_queue st)) \<and>
        (case p of During w \<Rightarrow> s_index st < length (s_queue st) \<and> s_queue st ! s_index st = w
         | Left \<Rightarrow> s_index st < length (s_queue st) | _ \<Rightarrow> True))"

section \<open>The invariant\<close>

lemma scan_back_spec:
  "ix \<le> n \<Longrightarrow> ix \<le> scan_back q ix w n \<and> scan_back q ix w n \<le> n \<and>
     (\<forall>k. scan_back q ix w n < k \<longrightarrow> k \<le> n \<longrightarrow> w < q ! k) \<and>
     (scan_back q ix w n = ix \<or> \<not> w < q ! scan_back q ix w n)"
  by (induction n) (auto simp: le_Suc_eq)

lemma sorted_insert_at:
  assumes "sorted P" "j \<le> length P" "\<And>k. j \<le> k \<Longrightarrow> k < length P \<Longrightarrow> w < P ! k" "j = 0 \<or> P ! (j - 1) \<le> w"
  shows "sorted (take j P @ w # drop j P)"
proof -
  have "x \<le> w" if x: "x \<in> set (take j P)" for x
  proof -
    obtain i where i: "i < j" "i < length P" "x = P ! i" using x by (auto simp: in_set_conv_nth)
    then have "P ! i \<le> P ! (j - 1)" using assms(1,2) by (intro sorted_nth_mono) auto
    with i assms(4) show ?thesis by auto
  qed
  moreover have "w \<le> x" if x: "x \<in> set (drop j P)" for x
  proof -
    obtain i where "i < length P - j" "x = P ! (j + i)" using x by (auto simp: in_set_conv_nth)
    then have "j + i < length P" by linarith
    with assms(3) [of "j + i"] \<open>x = P ! (j + i)\<close> show ?thesis by simp
  qed
  moreover have "sorted (take j P @ drop j P)" using assms(1) by simp
  ultimately show ?thesis by (auto simp: sorted_append intro: order_trans)
qed

text \<open>A watcher queued during a flush goes to its place among the pending ones.\<close>

lemma enqueue_flushing:
  assumes "s_flushing st" "s_index st < length (s_queue st)" "sorted (drop (s_index st + 1) (s_queue st))"
  shows "\<exists>A B. drop (s_index st + 1) (s_queue st) = A @ B \<and>
    drop (s_index st + 1) (s_queue (enqueue w st)) = A @ w # B \<and> sorted (A @ w # B) \<and>
    s_queue (enqueue w st) ! s_index st = s_queue st ! s_index st \<and> length (s_queue (enqueue w st)) = Suc (length (s_queue st))"
proof -
  let ?q = "s_queue st" and ?ix = "s_index st"
  let ?P = "drop (?ix + 1) ?q"
  let ?i = "scan_back ?q ?ix w (length ?q - 1)"
  have i: "?ix \<le> ?i" "?i < length ?q" "\<forall>k. ?i < k \<longrightarrow> k \<le> length ?q - 1 \<longrightarrow> w < ?q ! k" "?i = ?ix \<or> \<not> w < ?q ! ?i"
  proof -
    have "?ix \<le> length ?q - 1" using assms(2) by simp
    note sp = scan_back_spec [OF this, of ?q w]
    then have "?i \<le> length ?q - 1" by blast
    then show "?i < length ?q" using assms(2) by linarith
  qed (use scan_back_spec [of ?ix "length ?q - 1" ?q w] assms(2) in \<open>auto\<close>)
  let ?j = "?i - ?ix"
  have q: "s_queue (enqueue w st) = take (?i + 1) ?q @ w # drop (?i + 1) ?q"
    using assms(1) by (simp add: enqueue_def splice_in_def Let_def)
  have d: "drop (?ix + 1) (take (?i + 1) ?q @ w # drop (?i + 1) ?q) = take ?j ?P @ w # drop ?j ?P"
    using i(1,2) by (simp add: drop_take)
  have so: "sorted (take ?j ?P @ w # drop ?j ?P)"
  proof (rule sorted_insert_at [OF assms(3)])
    show "?j \<le> length ?P" using i(1,2) by simp
    show "w < ?P ! k" if "?j \<le> k" "k < length ?P" for k
      using that i(1,3) by simp
    show "?j = 0 \<or> ?P ! (?j - 1) \<le> w" using i(1,2,4) by (cases "?i = ?ix") (auto simp: not_less)
  qed
  have cur: "(take (?i + 1) ?q @ w # drop (?i + 1) ?q) ! ?ix = ?q ! ?ix"
    using i(1,2) by (simp add: nth_append)
  have len: "length (take (?i + 1) ?q @ w # drop (?i + 1) ?q) = Suc (length ?q)" using i(2) by simp
  show ?thesis unfolding q d
    by (intro exI [of _ "take ?j ?P"] exI [of _ "drop ?j ?P"] conjI append_take_drop_id [symmetric] refl so cur len)
qed

lemma enqueue_fields [simp]:
  "s_has (enqueue w st) = s_has st" "s_flushing (enqueue w st) = s_flushing st" "s_waiting (enqueue w st) = s_waiting st"
  "s_index (enqueue w st) = s_index st" "s_ticks (enqueue w st) = s_ticks st" "s_circular (enqueue w st) = s_circular st"
  by (simp_all add: enqueue_def Let_def)

lemma enqueue_has [simp]: "s_queue (enqueue w (st\<lparr>s_has := h\<rparr>)) = s_queue (enqueue w st)"
  by (simp add: enqueue_def Let_def)

lemma queue_inv:
  assumes "sched_inv (p, st)" "p = Idle \<or> p = During v"
  shows "sched_inv (p, queueWatcher w st)"
proof (cases "s_has st w")
  case True
  then show ?thesis using assms by (simp add: queueWatcher_def)
next
  case False
  from assms(2) show ?thesis
  proof
    assume p: "p = Idle"
    with assms(1) False show ?thesis
      by (auto simp: sched_inv_def pending_def queueWatcher_def enqueue_def Let_def)
  next
    assume p: "p = During v"
    have inv: "distinct (drop (s_index st + 1) (s_queue st))" "\<forall>w. s_has st w \<longleftrightarrow> w \<in> set (drop (s_index st + 1) (s_queue st))"
        "s_flushing st" "sorted (drop (s_index st + 1) (s_queue st))" "s_waiting st" "s_ticks st = 0"
        "s_index st < length (s_queue st)" "s_queue st ! s_index st = v"
      using assms(1) by (auto simp: sched_inv_def pending_def p)
    obtain A B where ab: "drop (s_index st + 1) (s_queue st) = A @ B"
        "drop (s_index st + 1) (s_queue (enqueue w st)) = A @ w # B" "sorted (A @ w # B)"
        "s_queue (enqueue w st) ! s_index st = s_queue st ! s_index st" "length (s_queue (enqueue w st)) = Suc (length (s_queue st))"
      using enqueue_flushing [OF inv(3,7,4)] by blast
    have w: "w \<notin> set (A @ B)" using False inv(2) ab(1) by simp
    have d: "distinct (A @ w # B)" using w inv(1) ab(1) by simp
    have h: "((s_has st)(w := True)) u \<longleftrightarrow> u \<in> set (A @ w # B)" for u using inv(2) ab(1) by auto
    have q: "queueWatcher w st = enqueue w (st\<lparr>s_has := (s_has st)(w := True)\<rparr>)"
      using False inv(5) by (simp add: queueWatcher_def Let_def)
    show ?thesis unfolding p q sched_inv_def pending_def
      using d h inv(3,5-8) ab(2-5) by simp
  qed
qed

lemma start_inv: "sched_inv (Idle, st) \<Longrightarrow> 0 < s_ticks st \<Longrightarrow> sched_inv (Between, start_flush st)"
  by (auto simp: sched_inv_def pending_def start_flush_def split: if_splits)

lemma pick_inv:
  assumes "sched_inv (Between, st)" "s_index st < length (s_queue st)" "pick st = (w, st')"
  shows "sched_inv (During w, st')"
proof -
  have d: "drop (s_index st) (s_queue st) = s_queue st ! s_index st # drop (s_index st + 1) (s_queue st)"
    using assms(2) by (simp add: Cons_nth_drop_Suc)
  show ?thesis using assms d
    by (auto simp: sched_inv_def pending_def pick_def Let_def split: if_splits)
qed

lemma back_inv:
  assumes "sched_inv (During w, st)" "after_run w st = (left, st')"
  shows "sched_inv (if left then Left else Between, st')"
  using assms by (auto simp: sched_inv_def pending_def after_run_def Let_def split: if_splits)

lemma activate_inv:
  "sched_inv (p, st) \<Longrightarrow> sched_inv (p, queueActivatedComponent vm st)"
  by (cases p) (simp_all add: sched_inv_def pending_def queueActivatedComponent_def)

lemma reset_inv: "sched_inv (Idle, resetSchedulerState st) \<longleftrightarrow> s_ticks st = 0"
  by (simp add: sched_inv_def pending_def resetSchedulerState_def)

lemma flushing_no_tick: "sched_inv (p, st) \<Longrightarrow> p \<noteq> Idle \<Longrightarrow> s_ticks st = 0"
  by (simp add: sched_inv_def)

lemma sched_step_inv: "sched_step c c' \<Longrightarrow> sched_inv c \<Longrightarrow> sched_inv c'"
proof (induction rule: sched_step.induct)
  case (Queue p v st w)
  then show ?case by (intro queue_inv)
next
  case (Activate p v st vm)
  then show ?case by (intro activate_inv)
next
  case (Start st)
  then show ?case by (intro start_inv)
next
  case (Pick st w st')
  then show ?case by (intro pick_inv)
next
  case (Back w st left st')
  then show ?case by (intro back_inv)
next
  case (End st)
  then show ?case using flushing_no_tick by (simp add: reset_inv)
next
  case (Leave st)
  then show ?case using flushing_no_tick by (simp add: reset_inv)
qed

lemma reachable_inv: "reachable c \<Longrightarrow> sched_inv c"
proof (induction rule: reachable.induct)
  case init
  show ?case by (simp add: sched_inv_def pending_def sched_init_def)
next
  case (step c c')
  then show ?case by (blast intro: sched_step_inv)
qed

text \<open>
  C16. In every reachable state of the scheduler a watcher is flagged in \<open>has\<close> exactly when it still
  has to run, each is pending once, the pending watchers of a flush are in ascending order of
  their ids, and a flush is scheduled, once, exactly when watchers wait for one.
\<close>

theorem scheduler_invariant: "reachable c \<Longrightarrow> sched_inv c"
  by (rule reachable_inv)

lemma scheduler_invariant_witness: "sched_inv (Idle, queueWatcher 4 (queueWatcher 7 sched_init))"
  by (rule scheduler_invariant, rule reachable.step [OF reachable.step [OF reachable.init]]; rule sched_step.Queue; simp)

section \<open>The order of a flush\<close>

lemma queueWatcher_has: "s_has (queueWatcher w st) = (s_has st)(w := True)"
  by (auto simp: queueWatcher_def Let_def fun_eq_iff)

lemma fold_queue_has: "s_has (fold queueWatcher ws st) v \<longleftrightarrow> s_has st v \<or> v \<in> set ws"
  by (induction ws arbitrary: st) (auto simp: queueWatcher_has)

lemma fold_queue_inv: "sched_inv (During w, st) \<Longrightarrow> sched_inv (During w, fold queueWatcher ws st)"
proof (induction ws arbitrary: st)
  case (Cons v ws)
  have "sched_inv (During w, queueWatcher v st)" by (rule queue_inv [OF Cons.prems]) simp
  then show ?case by (simp add: Cons.IH)
qed simp

lemma pending_has: "sched_inv (p, st) \<Longrightarrow> set (pending p st) = {w. s_has st w}"
  by (auto simp: sched_inv_def)

lemma fold_queue_circular: "s_circular (fold queueWatcher ws st) = s_circular st"
  by (induction ws arbitrary: st) (simp_all add: queueWatcher_def Let_def)

text \<open>One turn of the loop, when the watcher returns\<close>

lemma flush_run:
  assumes inv: "sched_inv (Between, st)" and p: "pending Between st = w # P" and r: "run w s = Some (ws, s')"
  obtains st' where "flush_loop run (Suc n) trace st s =
      (let (left, st'') = after_run w st' in
       if left then Finished (trace @ [w]) True st'' s' else flush_loop run n (trace @ [w]) st'' s')"
    "sched_inv (During w, st')" "{v. s_has st' v} = set P \<union> set ws" "s_circular st' = s_circular st"
proof -
  have i: "s_index st < length (s_queue st)"
    using p by (cases "s_index st < length (s_queue st)") (simp_all add: pending_def)
  then have w: "s_queue st ! s_index st = w"
    using p Cons_nth_drop_Suc [OF i] by (simp add: pending_def)
  obtain st1 where st1: "pick st = (w, st1)" using w by (simp add: pick_def Let_def)
  have inv1: "sched_inv (During w, st1)" by (rule pick_inv [OF inv i st1])
  have d: "distinct (w # P)" using inv p by (simp add: sched_inv_def)
  have h1: "s_has st1 v \<longleftrightarrow> v \<in> set P" for v
  proof -
    have "s_has st v \<longleftrightarrow> v \<in> set (w # P)" using inv p by (simp add: sched_inv_def)
    moreover have "s_has st1 = (s_has st)(w := False)" using st1 w by (auto simp: pick_def Let_def)
    ultimately show ?thesis using d by auto
  qed
  have c1: "s_circular st1 = s_circular st" using st1 by (auto simp: pick_def Let_def)
  show ?thesis
  proof (rule that [of "fold queueWatcher ws st1"])
    show "flush_loop run (Suc n) trace st s =
        (let (left, st'') = after_run w (fold queueWatcher ws st1) in
         if left then Finished (trace @ [w]) True st'' s' else flush_loop run n (trace @ [w]) st'' s')"
      using i st1 r(1) by (subst flush_loop.simps) simp
    show "sched_inv (During w, fold queueWatcher ws st1)" by (rule fold_queue_inv [OF inv1])
    show "{v. s_has (fold queueWatcher ws st1) v} = set P \<union> set ws" by (auto simp: fold_queue_has h1)
    show "s_circular (fold queueWatcher ws st1) = s_circular st" by (simp add: fold_queue_circular c1)
  qed
qed

lemma after_run_cases:
  assumes inv: "sched_inv (During w, st)"
  obtains (left) st' where "after_run w st = (True, st')" "s_has st w" "MAX_UPDATE_COUNT < s_circular st w + 1"
  | (again) st' where "after_run w st = (False, st')" "s_has st w" "s_circular st w + 1 \<le> MAX_UPDATE_COUNT"
      "sched_inv (Between, st')" "set (pending Between st') = {v. s_has st v}"
      "s_circular st' = (s_circular st)(w := s_circular st w + 1)"
  | (over) st' where "after_run w st = (False, st')" "\<not> s_has st w" "sched_inv (Between, st')"
      "set (pending Between st') = {v. s_has st v}" "s_circular st' = s_circular st"
proof -
  obtain l st' where a: "after_run w st = (l, st')" by (cases "after_run w st") blast
  have i: "sched_inv (if l then Left else Between, st')" by (rule back_inv [OF inv a])
  have h: "s_has st' = s_has st" using a by (auto simp: after_run_def Let_def split: if_splits)
  have p: "set (pending Between st') = {v. s_has st v}" if "\<not> l" using pending_has i that h by auto
  show ?thesis
  proof (cases "s_has st w")
    case True
    show ?thesis
    proof (cases l)
      assume "l"
      with a True show ?thesis by (intro left [of st']) (auto simp: after_run_def Let_def split: if_splits)
    next
      assume l: "\<not> l"
      with a True have "s_circular st w + 1 \<le> MAX_UPDATE_COUNT" "s_circular st' = (s_circular st)(w := s_circular st w + 1)"
        by (auto simp: after_run_def Let_def split: if_splits)
      with a l i True p show ?thesis by (intro again [of st']) auto
    qed
  next
    case False
    then have "\<not> l" "s_circular st' = s_circular st" using a by (auto simp: after_run_def)
    with a i False p show ?thesis by (intro over [of st']) auto
  qed
qed

lemma flush_turn:
  assumes "sched_inv (Between, st)" "pending Between st = w # P" "run w s = Some (ws, s')" "w \<notin> set ws"
  obtains st' where "flush_loop run (Suc n) trace st s = flush_loop run n (trace @ [w]) st' s'"
    "sched_inv (Between, st')" "set (pending Between st') = set P \<union> set ws" "s_circular st' = s_circular st"
proof -
  obtain st1 where st1: "flush_loop run (Suc n) trace st s =
      (let (left, st'') = after_run w st1 in
       if left then Finished (trace @ [w]) True st'' s' else flush_loop run n (trace @ [w]) st'' s')"
    "sched_inv (During w, st1)" "{v. s_has st1 v} = set P \<union> set ws" "s_circular st1 = s_circular st"
    by (rule flush_run [where run = run and s = s and n = n and trace = trace, OF assms(1-3)])
  have "w \<notin> {v. s_has st1 v}" using assms(1,2,4) by (simp add: st1(3) sched_inv_def)
  then have nw: "\<not> s_has st1 w" by simp
  from st1(2) show ?thesis
  proof (cases rule: after_run_cases)
    case (over st')
    then show ?thesis using st1(1,3,4) by (intro that [of st']) auto
  qed (use nw in auto)
qed

lemma flush_done: "pending Between st = [] \<Longrightarrow> flush_loop run n trace st s = Finished trace False st s"
  by (subst flush_loop.simps) (simp add: pending_def)

lemma flush_ordered_loop:
  assumes "\<And>w s. \<exists>ws s'. run w s = Some (ws, s') \<and> (\<forall>v\<in>set ws. w < v \<and> v < N)"
    and "sched_inv (Between, st)" "\<forall>w\<in>set (pending Between st). w < N" "sorted_wrt (<) trace"
    and "\<forall>t\<in>set trace. t < N \<and> (\<forall>w\<in>set (pending Between st). t < w)" "N \<le> n + length trace"
  shows "\<exists>more st' s'. flush_loop run n trace st s = Finished (trace @ more) False st' s' \<and>
    sorted_wrt (<) (trace @ more) \<and> set (pending Between st) \<subseteq> set more"
  using assms(2-6)
proof (induction n arbitrary: trace st s)
  case 0
  have "distinct trace" using 0(3) by (simp add: strict_sorted_iff)
  then have "card (set trace) = N" "set trace \<subseteq> {..<N}"
    using 0(4,5) card_mono [of "{..<N}" "set trace"] by (auto simp: distinct_card)
  then have "set trace = {..<N}" by (intro card_subset_eq) auto
  have e: "pending Between st = []"
  proof (rule ccontr)
    assume "pending Between st \<noteq> []"
    then obtain w where w: "w \<in> set (pending Between st)" by (cases "pending Between st") auto
    then have "w \<in> set trace" using 0(2) \<open>set trace = {..<N}\<close> by blast
    then show False using 0(4) w by blast
  qed
  then show ?case using 0(3) flush_done [OF e] by (intro exI [of _ "[]"] exI [of _ st] exI [of _ s]) simp
next
  case (Suc n)
  show ?case
  proof (cases "pending Between st")
    case Nil
    then show ?thesis using Suc.prems(3) flush_done [OF Nil] by (intro exI [of _ "[]"] exI [of _ st] exI [of _ s]) simp
  next
    case (Cons w P)
    obtain ws s' where r: "run w s = Some (ws, s')" "\<forall>v\<in>set ws. w < v \<and> v < N" using assms(1) by blast
    then have "w \<notin> set ws" by auto
    then obtain st' where st': "flush_loop run (Suc n) trace st s = flush_loop run n (trace @ [w]) st' s'"
        "sched_inv (Between, st')" "set (pending Between st') = set P \<union> set ws"
      by (rule flush_turn [where run = run and w = w and s = s and ws = ws and s' = s' and n = n and trace = trace, OF Suc.prems(1) Cons r(1)])
    have P: "sorted (w # P)" "distinct (w # P)" using Suc.prems(1) Cons by (simp_all add: sched_inv_def)
    have gt: "\<forall>v\<in>set (pending Between st'). w < v \<and> v < N"
      using P r(2) Suc.prems(2) Cons by (auto simp: st'(3) order_le_less)
    have "\<exists>more st'' s''. flush_loop run n (trace @ [w]) st' s' = Finished ((trace @ [w]) @ more) False st'' s'' \<and>
        sorted_wrt (<) ((trace @ [w]) @ more) \<and> set (pending Between st') \<subseteq> set more"
    proof (rule Suc.IH [OF st'(2)])
      show "sorted_wrt (<) (trace @ [w])" using Suc.prems(3,4) Cons by (auto simp: sorted_wrt_append)
      show "\<forall>t\<in>set (trace @ [w]). t < N \<and> (\<forall>v\<in>set (pending Between st'). t < v)"
        using Suc.prems(2,4) Cons gt by (auto intro: less_trans)
    qed (use gt Suc.prems(5) in auto)
    then obtain more st'' s'' where m: "flush_loop run n (trace @ [w]) st' s' = Finished ((trace @ [w]) @ more) False st'' s''"
        "sorted_wrt (<) ((trace @ [w]) @ more)" "set (pending Between st') \<subseteq> set more" by blast
    show ?thesis unfolding st'(1) using m Cons st'(3) by (intro exI [of _ "w # more"]) auto
  qed
qed

text \<open>
  C19. When updates flow from parent to child (running a watcher returns, and queues only watchers
  created after it, of \<open>N\<close> in all), a flush ends after at most \<open>N\<close> runs without a warning; it runs
  every watcher that was waiting, in ascending order of ids, each of them once, and leaves the
  scheduler reset.
\<close>

theorem flush_in_order:
  assumes "\<And>w s. \<exists>ws s'. run w s = Some (ws, s') \<and> (\<forall>v\<in>set ws. w < v \<and> v < N)"
    and "reachable (Idle, st)" "0 < s_ticks st" "\<forall>w\<in>set (s_queue st). w < N"
  shows "\<exists>r st' s'. flushSchedulerQueue run mounted N st s = Some (Some r, resetSchedulerState st', s') \<and>
    sorted_wrt (<) (r_ran r) \<and> set (s_queue st) \<subseteq> set (r_ran r) \<and> \<not> r_warned r"
proof -
  have "sched_inv (Idle, st)" by (rule reachable_inv [OF assms(2)])
  then have inv: "sched_inv (Between, start_flush st)" by (rule start_inv [OF _ assms(3)])
  have p: "set (pending Between (start_flush st)) = set (s_queue st)" by (simp add: pending_def start_flush_def)
  obtain more st' s' where "flush_loop run N [] (start_flush st) s = Finished ([] @ more) False st' s'"
      "sorted_wrt (<) ([] @ more)" "set (pending Between (start_flush st)) \<subseteq> set more"
    using flush_ordered_loop [where run = run and n = N and trace = "[]" and s = s, OF assms(1) inv] assms(4) p by auto
  then show ?thesis by (auto simp: flushSchedulerQueue_def p)
qed

lemma flush_in_order_witness:
  "\<exists>r st' s'. flushSchedulerQueue (\<lambda>w s. Some (if w < 2 then [2] else [], s + w)) (\<lambda>w. True) 3
      (queueWatcher 1 (queueWatcher 0 sched_init)) (0::nat) = Some (Some r, resetSchedulerState st', s') \<and>
    sorted_wrt (<) (r_ran r) \<and> {0, 1} \<subseteq> set (r_ran r) \<and> \<not> r_warned r"
proof -
  let ?st = "queueWatcher 1 (queueWatcher 0 sched_init)"
  have r: "reachable (Idle, ?st)"
    by (rule reachable.step [OF reachable.step [OF reachable.init]]; rule sched_step.Queue; simp)
  have q: "s_queue ?st = [0, 1]" "s_ticks ?st = 1" by code_simp+
  have run: "\<exists>ws s'. (if w < 2 then Some ([2::nat], s + w) else Some ([], s + w)) = Some (ws, s') \<and> (\<forall>v\<in>set ws. w < v \<and> v < 3)" for w s :: nat
    by auto
  show ?thesis
    using flush_in_order [of "\<lambda>w s. Some (if w < 2 then [2] else [], s + w)" 3 ?st "\<lambda>w. True" 0] r q by auto
qed

section \<open>The guard against circular updates\<close>

definition runs_left :: "sched \<Rightarrow> nat" where
  "runs_left st = (\<Sum>v\<in>set (pending Between st). MAX_UPDATE_COUNT + 1 - s_circular st v)"

lemma runs_left_less:
  assumes "w \<in> set (pending Between st)" "set (pending Between st') \<subseteq> set (pending Between st)"
    "\<And>v. s_circular st v \<le> s_circular st' v" "s_circular st w \<le> MAX_UPDATE_COUNT"
    "w \<in> set (pending Between st') \<Longrightarrow> s_circular st w < s_circular st' w"
  shows "runs_left st' < runs_left st"
proof -
  let ?f = "\<lambda>u v. MAX_UPDATE_COUNT + 1 - s_circular u v"
  let ?A = "set (pending Between st)" and ?B = "set (pending Between st')"
  have "(\<Sum>v\<in>?B. ?f st' v) = (\<Sum>v\<in>?A. if v \<in> ?B then ?f st' v else 0)"
    using assms(2) by (simp add: sum.inter_restrict [symmetric] Int_absorb1)
  also have "\<dots> < (\<Sum>v\<in>?A. ?f st v)"
  proof (rule sum_strict_mono_ex1)
    show "\<forall>v\<in>?A. (if v \<in> ?B then ?f st' v else 0) \<le> ?f st v" using assms(3) by (simp add: diff_le_mono2)
    show "\<exists>v\<in>?A. (if v \<in> ?B then ?f st' v else 0) < ?f st v"
      using assms(1,4,5) by (intro bexI [of _ w]) auto
  qed simp
  finally show ?thesis by (simp add: runs_left_def)
qed

lemma flush_bounded_loop:
  assumes "\<And>w s. \<exists>ws s'. run w s = Some (ws, s') \<and> set ws \<subseteq> {w}"
    and "sched_inv (Between, st)" "runs_left st \<le> n" "\<And>v. s_circular st v \<le> MAX_UPDATE_COUNT"
    and "\<And>v. count_list trace v \<le> s_circular st v + (if v \<in> set (pending Between st) then 0 else 1)"
  shows "\<exists>trace' left st' s'. flush_loop run n trace st s = Finished trace' left st' s' \<and>
    (\<forall>v. count_list trace' v \<le> MAX_UPDATE_COUNT + 1)"
  using assms(2-5)
proof (induction n arbitrary: trace st s)
  case 0
  have "pending Between st = []"
  proof (rule ccontr)
    assume "pending Between st \<noteq> []"
    then obtain w where "w \<in> set (pending Between st)" by (cases "pending Between st") auto
    with 0(2,3) show False by (auto simp: runs_left_def Suc_diff_le)
  qed
  moreover have "count_list trace v \<le> MAX_UPDATE_COUNT + 1" for v
    using 0(3) [of v] 0(4) [of v] by (simp split: if_splits)
  ultimately show ?case by (auto simp: flush_done)
next
  case (Suc n)
  show ?case
  proof (cases "pending Between st")
    case Nil
    moreover have "count_list trace v \<le> MAX_UPDATE_COUNT + 1" for v
      using Suc.prems(3) [of v] Suc.prems(4) [of v] by (simp split: if_splits)
    ultimately show ?thesis by (auto simp: flush_done)
  next
    case (Cons w P)
    obtain ws s' where r: "run w s = Some (ws, s')" "set ws \<subseteq> {w}" using assms(1) by blast
    obtain st1 where st1: "flush_loop run (Suc n) trace st s =
        (let (left, st'') = after_run w st1 in
         if left then Finished (trace @ [w]) True st'' s' else flush_loop run n (trace @ [w]) st'' s')"
      "sched_inv (During w, st1)" "{v. s_has st1 v} = set P \<union> set ws" "s_circular st1 = s_circular st"
      by (rule flush_run [where run = run and s = s and n = n and trace = trace, OF Suc.prems(1) Cons r(1)])
    have sub: "{v. s_has st1 v} \<subseteq> set (pending Between st)" "{v. s_has st1 v} \<union> {w} = set (pending Between st)"
      using r(2) Cons by (auto simp: st1(3))
    have w: "w \<in> set (pending Between st)" by (simp add: Cons)
    have c: "count_list (trace @ [w]) v \<le> s_circular st v + (if v \<in> set (pending Between st) \<and> v \<noteq> w then 0 else 1)" for v
      using Suc.prems(4) [of v] w by (auto split: if_splits)
    from st1(2) show ?thesis
    proof (cases rule: after_run_cases)
      case (left st')
      have "count_list (trace @ [w]) v \<le> MAX_UPDATE_COUNT + 1" for v
        using c [of v] Suc.prems(3) [of v] by (simp split: if_splits)
      then show ?thesis using st1(1) left by auto
    next
      case (again st')
      have "runs_left st' < runs_left st"
        by (rule runs_left_less [OF w]) (use again Suc.prems(3) sub in \<open>auto simp: st1(4)\<close>)
      then have "\<exists>trace' left st'' s''. flush_loop run n (trace @ [w]) st' s' = Finished trace' left st'' s'' \<and>
          (\<forall>v. count_list trace' v \<le> MAX_UPDATE_COUNT + 1)"
      proof (intro Suc.IH [OF again(4)])
        show "s_circular st' v \<le> MAX_UPDATE_COUNT" for v using again(3,6) Suc.prems(3) [of v] by (simp add: st1(4))
        show "count_list (trace @ [w]) v \<le> s_circular st' v + (if v \<in> set (pending Between st') then 0 else 1)" for v
          using c [of v] again(2,5,6) sub by (auto simp: st1(4) split: if_splits)
      qed (use Suc.prems(2) in simp)
      then show ?thesis using st1(1) again(1) by simp
    next
      case (over st')
      have "runs_left st' < runs_left st"
        by (rule runs_left_less [OF w]) (use over Suc.prems(3) sub in \<open>auto simp: st1(4)\<close>)
      then have "\<exists>trace' left st'' s''. flush_loop run n (trace @ [w]) st' s' = Finished trace' left st'' s'' \<and>
          (\<forall>v. count_list trace' v \<le> MAX_UPDATE_COUNT + 1)"
      proof (intro Suc.IH [OF over(3)])
        show "s_circular st' v \<le> MAX_UPDATE_COUNT" for v using over(5) Suc.prems(3) [of v] by (simp add: st1(4))
        show "count_list (trace @ [w]) v \<le> s_circular st' v + (if v \<in> set (pending Between st') then 0 else 1)" for v
          using c [of v] over(2,4,5) sub by (auto simp: st1(4) split: if_splits)
      qed (use Suc.prems(2) in simp)
      then show ?thesis using st1(1) over(1) by simp
    qed
  qed
qed

text \<open>
  C20. When a watcher queues at most itself, the guard makes every flush end, within 101 runs for
  each watcher that was waiting; no watcher runs more often than that, and the scheduler is reset.
\<close>

theorem circular_guard_bounds:
  assumes "\<And>w s. \<exists>ws s'. run w s = Some (ws, s') \<and> set ws \<subseteq> {w}"
    and "reachable (Idle, st)" "0 < s_ticks st"
  shows "\<exists>r st' s'. flushSchedulerQueue run mounted ((MAX_UPDATE_COUNT + 1) * length (s_queue st)) st s =
      Some (Some r, resetSchedulerState st', s') \<and> (\<forall>w. count_list (r_ran r) w \<le> MAX_UPDATE_COUNT + 1)"
proof -
  have i: "sched_inv (Idle, st)" by (rule reachable_inv [OF assms(2)])
  then have inv: "sched_inv (Between, start_flush st)" by (rule start_inv [OF _ assms(3)])
  have p: "set (pending Between (start_flush st)) = set (s_queue st)" by (simp add: pending_def start_flush_def)
  have z: "s_circular (start_flush st) = (\<lambda>_. 0)" using i by (simp add: sched_inv_def start_flush_def)
  have "distinct (s_queue st)" using i by (simp add: sched_inv_def pending_def)
  then have "runs_left (start_flush st) \<le> (MAX_UPDATE_COUNT + 1) * length (s_queue st)"
    by (simp add: runs_left_def p z distinct_card)
  then have "\<exists>trace' left st' s'. flush_loop run ((MAX_UPDATE_COUNT + 1) * length (s_queue st)) [] (start_flush st) s =
      Finished trace' left st' s' \<and> (\<forall>v. count_list trace' v \<le> MAX_UPDATE_COUNT + 1)"
    by (intro flush_bounded_loop [OF assms(1) inv]) (simp_all add: z)
  then show ?thesis by (auto simp: flushSchedulerQueue_def simp del: One_nat_def add_Suc_right Nat.add_0_right)
qed

lemma circular_guard_bounds_witness:
  "\<exists>r st' s'. flushSchedulerQueue (\<lambda>w s. Some ([w], s + 1)) (\<lambda>_. True) 101 (queueWatcher 3 sched_init) (0::nat) =
      Some (Some r, resetSchedulerState st', s') \<and> (\<forall>w. count_list (r_ran r) w \<le> 101)"
proof -
  have r: "reachable (Idle, queueWatcher 3 sched_init)"
    by (rule reachable.step [OF reachable.init]; rule sched_step.Queue; simp)
  have q: "s_queue (queueWatcher 3 sched_init) = [3]" "s_ticks (queueWatcher 3 sched_init) = 1" by code_simp+
  show ?thesis
    using circular_guard_bounds [of "\<lambda>w s. Some ([w], s + 1)" "queueWatcher 3 sched_init" "\<lambda>_. True" "0::nat"] r q
    by (simp add: MAX_UPDATE_COUNT_def)
qed

section \<open>Flushes that do not end well\<close>

lemma distinct_singleton: "distinct xs \<Longrightarrow> set xs = {x} \<Longrightarrow> xs = [x]"
  by (cases xs; cases "tl xs") auto

text \<open>
  The guard against infinite updates only sees a watcher that queues itself while it runs. Two
  watchers that queue each other are never stopped: the flush does not end, whatever the number
  of runs it is given.
\<close>

theorem mutual_updates_never_stop:
  assumes "a \<noteq> b"
  shows "flushSchedulerQueue (\<lambda>w s. Some (if w = a then [b] else [a], s)) mounted n (queueWatcher a sched_init) s = None"
proof -
  let ?run = "\<lambda>w s. Some (if w = a then [b] else [a], s)"
  have loop: "flush_loop ?run n trace st s = Running"
    if "sched_inv (Between, st)" "pending Between st = [w]" "w = a \<or> w = b" for n trace st s w
    using that
  proof (induction n arbitrary: trace st s w)
    case 0
    then show ?case by (cases "s_index st < length (s_queue st)") (simp_all add: pending_def flush_loop.simps [of _ 0])
  next
    case (Suc n)
    let ?v = "if w = a then b else a"
    have v: "w \<notin> set [?v]" "?v = a \<or> ?v = b" using assms Suc.prems(3) by auto
    have r: "?run w s = Some ([?v], s)" by simp
    obtain st' where st': "flush_loop ?run (Suc n) trace st s = flush_loop ?run n (trace @ [w]) st' s"
        "sched_inv (Between, st')" "set (pending Between st') = set [] \<union> set [?v]"
      by (rule flush_turn [where run = ?run and w = w and s = s and ws = "[?v]" and s' = s and n = n and trace = trace, OF Suc.prems(1,2) r v(1)])
    have "distinct (pending Between st')" using st'(2) by (simp add: sched_inv_def)
    moreover have "set (pending Between st') = {?v}" using st'(3) by simp
    ultimately have "pending Between st' = [?v]" by (rule distinct_singleton)
    then have "flush_loop ?run n (trace @ [w]) st' s = Running" by (rule Suc.IH [OF st'(2) _ v(2)])
    then show ?case by (simp only: st'(1))
  qed
  have "sched_inv (Idle, queueWatcher a sched_init)"
    by (rule queue_inv) (simp_all add: sched_inv_def pending_def sched_init_def)
  then have "sched_inv (Between, start_flush (queueWatcher a sched_init))"
    by (rule start_inv) (simp add: queueWatcher_def sched_init_def enqueue_def Let_def)
  then have "flush_loop ?run n [] (start_flush (queueWatcher a sched_init)) s = Running"
    by (rule loop [OF _ _ disjI1 [OF refl]])
      (simp_all add: pending_def start_flush_def queueWatcher_def sched_init_def enqueue_def Let_def)
  then show ?thesis by (simp add: flushSchedulerQueue_def)
qed

lemma mutual_updates_never_stop_witness:
  "flushSchedulerQueue (\<lambda>w s. Some (if w = 1 then [2] else [1], s)) (\<lambda>w. True) 1000 (queueWatcher 1 sched_init) () = None"
  by (rule mutual_updates_never_stop) simp

text \<open>A watcher that throws leaves the loop with the state of the scheduler in the middle of a flush.\<close>

lemma flush_threw_inv:
  "flush_loop run n trace st s = Threw t st' s' \<Longrightarrow> sched_inv (Between, st) \<Longrightarrow> \<exists>w. sched_inv (During w, st')"
proof (induction n arbitrary: trace st s)
  case 0
  then show ?case by (subst (asm) flush_loop.simps) (simp split: if_splits)
next
  case (Suc n)
  show ?case
  proof (cases "pending Between st")
    case Nil
    with Suc.prems(1) show ?thesis by (simp add: flush_done)
  next
    case (Cons w P)
    then have i: "s_index st < length (s_queue st)"
      by (cases "s_index st < length (s_queue st)") (simp_all add: pending_def)
    obtain w' st1 where st1: "pick st = (w', st1)" by (cases "pick st") blast
    have inv1: "sched_inv (During w', st1)" by (rule pick_inv [OF Suc.prems(2) i st1])
    show ?thesis
    proof (cases "run w' s")
      case None
      then have "st' = st1" using Suc.prems(1) i st1 by (subst (asm) flush_loop.simps) simp
      then show ?thesis using inv1 by blast
    next
      case (Some a)
      obtain ws s1 where a: "a = (ws, s1)" by (cases a) blast
      obtain l st2 where ar: "after_run w' (fold queueWatcher ws st1) = (l, st2)"
        by (cases "after_run w' (fold queueWatcher ws st1)") blast
      have "sched_inv (if l then Left else Between, st2)" by (rule back_inv [OF fold_queue_inv [OF inv1] ar])
      moreover have "\<not> l \<and> flush_loop run n (trace @ [w']) st2 s1 = Threw t st' s'"
        using Suc.prems(1) i st1 Some a ar by (subst (asm) flush_loop.simps) (simp split: if_splits)
      ultimately show ?thesis by (intro Suc.IH) auto
    qed
  qed
qed

lemma queue_waiting: "s_waiting st \<Longrightarrow> s_waiting (fold queueWatcher ws st) \<and> s_ticks (fold queueWatcher ws st) = s_ticks st"
  by (induction ws arbitrary: st) (simp_all add: queueWatcher_def Let_def)

text \<open>
  When a watcher throws during a flush, the scheduler stays in the middle of it: it is never
  reset, and whatever is queued afterwards, no flush is scheduled any more.
\<close>

theorem throw_stops_scheduler:
  assumes "reachable (Idle, st)" "0 < s_ticks st"
    and "flushSchedulerQueue run mounted n st s = Some (None, st', s')"
  shows "s_ticks (fold queueWatcher ws st') = 0 \<and> s_waiting (fold queueWatcher ws st')"
proof -
  have "sched_inv (Between, start_flush st)" by (rule start_inv [OF reachable_inv [OF assms(1)] assms(2)])
  moreover obtain t where "flush_loop run n [] (start_flush st) s = Threw t st' s'"
    using assms(3) by (auto simp: flushSchedulerQueue_def split: outcome.splits)
  ultimately obtain w where "sched_inv (During w, st')" using flush_threw_inv by metis
  then have "s_waiting st'" "s_ticks st' = 0" by (simp_all add: sched_inv_def)
  then show ?thesis using queue_waiting [of st' ws] by simp
qed

lemma throw_stops_scheduler_witness:
  "\<exists>st'. flushSchedulerQueue (\<lambda>w s. if w = 2 then None else Some ([], s)) (\<lambda>_. True) 5 (queueWatcher 2 sched_init) () =
      Some (None, st', ()) \<and> s_ticks (fold queueWatcher [2, 5] st') = 0 \<and> s_waiting (fold queueWatcher [2, 5] st')"
proof -
  let ?st = "queueWatcher 2 sched_init"
  have r: "reachable (Idle, ?st)" by (rule reachable.step [OF reachable.init]; rule sched_step.Queue; simp)
  have t: "0 < s_ticks ?st" by code_simp
  obtain st' where f: "flushSchedulerQueue (\<lambda>w s. if w = 2 then None else Some ([], s)) (\<lambda>_. True) 5 ?st () = Some (None, st', ())"
    by (simp add: flushSchedulerQueue_def flush_loop.simps [of _ 5] start_flush_def queueWatcher_def sched_init_def
        enqueue_def Let_def pick_def)
  show ?thesis using throw_stops_scheduler [OF r t f] f by blast
qed

end
