(* ===== verification/Reactive.thy ===== *)
theory Reactive
  imports SharedUtil
begin

text \<open>
  Dependency tracking of \<open>frontend/js/vue.js\<close>: \<open>Dep\<close>, \<open>Watcher\<close>, the target stack, computed properties
  and the setter of a reactive property. Deps and watchers are numbers. What the application
  brings is a parameter: the getter of each watcher, as the tree of the reactive reads it makes, its
  callback, as the writes it makes, and the deps below a value for deep watchers. The lemmas show
  that the two sides of a subscription always agree, that a computed property always has the value
  its getter has on the current data, in spite of the caching, and that a watcher whose value is
  out of date is always queued.
\<close>

section \<open>State\<close>

record watcher =
  w_deps :: "nat list"
  w_newDeps :: "nat list"
  w_depIds :: "nat set"
  w_newDepIds :: "nat set"
  w_lazy :: bool
  w_sync :: bool
  w_deep :: bool
  w_user :: bool
  w_active :: bool
  w_dirty :: bool
  w_value :: jsval

text \<open>
  \<open>d_val\<close> holds the value of the reactive property each dep belongs to; \<open>targetStack\<close> has its top
  first; \<open>queued\<close> lists the calls of \<open>queueWatcher\<close>, \<open>handled\<close> the watchers whose errors were given to
  \<open>handleError\<close>.
\<close>

record store =
  d_subs :: "nat \<Rightarrow> nat list"
  d_val :: "nat \<Rightarrow> jsval"
  watchers :: "nat \<Rightarrow> watcher"
  target :: "nat option"
  targetStack :: "nat list"
  queued :: "nat list"
  handled :: "nat list"
  uid :: nat

text \<open>
  What a getter does: return, throw, read the property of a dep, depend on a dep (\<open>childOb.dep\<close>), read
  a computed property, or run a part without tracking (\<open>getData\<close>, \<open>callHook\<close>), whose errors are handled.
\<close>

datatype getter =
    Return jsval
  | Throw
  | Read nat "jsval \<Rightarrow> getter"
  | Touch nat getter
  | Computed nat "jsval \<Rightarrow> getter"
  | Untracked getter "jsval \<Rightarrow> getter"

record app =
  a_getter :: "nat \<Rightarrow> getter"
  a_nested :: "jsval \<Rightarrow> nat list"
  a_writes :: "nat \<Rightarrow> jsval \<Rightarrow> jsval \<Rightarrow> (nat \<times> jsval) list"
  a_throws :: "nat \<Rightarrow> jsval \<Rightarrow> jsval \<Rightarrow> bool"

definition set_watcher :: "nat \<Rightarrow> (watcher \<Rightarrow> watcher) \<Rightarrow> store \<Rightarrow> store" where
  "set_watcher w f st = st\<lparr>watchers := (watchers st)(w := f (watchers st w))\<rparr>"

section \<open>Dependencies\<close>

definition addSub :: "nat \<Rightarrow> nat \<Rightarrow> store \<Rightarrow> store" where
  "addSub d w st = st\<lparr>d_subs := (d_subs st)(d := d_subs st d @ [w])\<rparr>"

definition removeSub :: "nat \<Rightarrow> nat \<Rightarrow> store \<Rightarrow> store" where
  "removeSub d w st = st\<lparr>d_subs := (d_subs st)(d := remove_item (d_subs st d) w)\<rparr>"

definition pushTarget :: "nat option \<Rightarrow> store \<Rightarrow> store" where
  "pushTarget t st =
     (case target st of
        Some x \<Rightarrow> st\<lparr>targetStack := x # targetStack st, target := t\<rparr>
      | None \<Rightarrow> st\<lparr>target := t\<rparr>)"

definition popTarget :: "store \<Rightarrow> store" where
  "popTarget st =
     (case targetStack st of
        [] \<Rightarrow> st\<lparr>target := None\<rparr>
      | x # xs \<Rightarrow> st\<lparr>target := Some x, targetStack := xs\<rparr>)"

definition addDep :: "nat \<Rightarrow> nat \<Rightarrow> store \<Rightarrow> store" where
  "addDep w d st =
     (if d \<notin> w_newDepIds (watchers st w) then
        (let st1 = set_watcher w (\<lambda>x. x\<lparr>w_newDepIds := insert d (w_newDepIds x), w_newDeps := w_newDeps x @ [d]\<rparr>) st
         in if d \<notin> w_depIds (watchers st w) then addSub d w st1 else st1)
      else st)"

definition dep_depend :: "nat \<Rightarrow> store \<Rightarrow> store" where
  "dep_depend d st = (case target st of Some w \<Rightarrow> addDep w d st | None \<Rightarrow> st)"

definition cleanupDeps :: "nat \<Rightarrow> store \<Rightarrow> store" where
  "cleanupDeps w st =
     (let x = watchers st w;
          st1 = fold (\<lambda>d s. if d \<notin> w_newDepIds x then removeSub d w s else s) (rev (w_deps x)) st
      in set_watcher w (\<lambda>x. x\<lparr>w_depIds := w_newDepIds x, w_newDepIds := {}, w_deps := w_newDeps x, w_newDeps := []\<rparr>) st1)"

definition watcher_depend :: "nat \<Rightarrow> store \<Rightarrow> store" where
  "watcher_depend w st = fold dep_depend (rev (w_deps (watchers st w))) st"

definition teardown :: "nat \<Rightarrow> store \<Rightarrow> store" where
  "teardown w st =
     (if w_active (watchers st w) then
        set_watcher w (\<lambda>x. x\<lparr>w_active := False\<rparr>) (fold (\<lambda>d. removeSub d w) (rev (w_deps (watchers st w))) st)
      else st)"

section \<open>Evaluation\<close>

text \<open>
  An operation that may throw returns whether it has not (or the value, when it has not); \<open>None\<close>
  outside means that the fuel is used up.
\<close>

definition computedGetter :: "(nat \<Rightarrow> store \<Rightarrow> (bool \<times> store) option) \<Rightarrow> nat \<Rightarrow> store \<Rightarrow> (jsval option \<times> store) option" where
  "computedGetter ev c st =
     (case (if w_dirty (watchers st c) then ev c st else Some (True, st)) of
        None \<Rightarrow> None
      | Some (ok, st1) \<Rightarrow>
          if \<not> ok then Some (None, st1)
          else
            (let st2 = (if target st1 \<noteq> None then watcher_depend c st1 else st1)
             in Some (Some (w_value (watchers st2 c)), st2)))"

primrec run_getter :: "(nat \<Rightarrow> store \<Rightarrow> (bool \<times> store) option) \<Rightarrow> getter \<Rightarrow> store \<Rightarrow> (jsval option \<times> store) option" where
  "run_getter ev (Return v) st = Some (Some v, st)"
| "run_getter ev Throw st = Some (None, st)"
| "run_getter ev (Read d k) st = run_getter ev (k (d_val st d)) (dep_depend d st)"
| "run_getter ev (Touch d g) st = run_getter ev g (dep_depend d st)"
| "run_getter ev (Computed c k) st =
     (case computedGetter ev c st of
        None \<Rightarrow> None
      | Some (r, st1) \<Rightarrow> (case r of None \<Rightarrow> Some (None, st1) | Some v \<Rightarrow> run_getter ev (k v) st1))"
| "run_getter ev (Untracked g k) st =
     (case run_getter ev g (pushTarget None st) of
        None \<Rightarrow> None
      | Some (r, st1) \<Rightarrow> run_getter ev (k (case r of None \<Rightarrow> JUndef | Some v \<Rightarrow> v)) (popTarget st1))"

definition watcher_get :: "app \<Rightarrow> (nat \<Rightarrow> store \<Rightarrow> (bool \<times> store) option) \<Rightarrow> nat \<Rightarrow> store \<Rightarrow> (jsval option \<times> store) option" where
  "watcher_get app ev w st =
     (case run_getter ev (a_getter app w) (pushTarget (Some w) st) of
        None \<Rightarrow> None
      | Some (r, st1) \<Rightarrow>
          (let value = (case r of None \<Rightarrow> JUndef | Some v \<Rightarrow> v);
               st2 = (if r = None \<and> w_user (watchers st1 w) then st1\<lparr>handled := handled st1 @ [w]\<rparr> else st1);
               st3 = (if w_deep (watchers st2 w) then fold dep_depend (a_nested app value) st2 else st2);
               st4 = cleanupDeps w (popTarget st3)
           in Some (if r = None \<and> \<not> w_user (watchers st1 w) then None else Some value, st4)))"

fun evaluate :: "app \<Rightarrow> nat \<Rightarrow> nat \<Rightarrow> store \<Rightarrow> (bool \<times> store) option" where
  "evaluate app 0 c st = None"
| "evaluate app (Suc n) c st =
     (case watcher_get app (evaluate app n) c st of
        None \<Rightarrow> None
      | Some (None, st1) \<Rightarrow> Some (False, st1)
      | Some (Some v, st1) \<Rightarrow> Some (True, set_watcher c (\<lambda>x. x\<lparr>w_value := v, w_dirty := False\<rparr>) st1))"

section \<open>Notification\<close>

fun run_all :: "('a \<Rightarrow> store \<Rightarrow> (bool \<times> store) option) \<Rightarrow> 'a list \<Rightarrow> store \<Rightarrow> (bool \<times> store) option" where
  "run_all f [] st = Some (True, st)"
| "run_all f (x # xs) st =
     (case f x st of None \<Rightarrow> None | Some (ok, st1) \<Rightarrow> if ok then run_all f xs st1 else Some (False, st1))"

definition update :: "(nat \<Rightarrow> store \<Rightarrow> (bool \<times> store) option) \<Rightarrow> nat \<Rightarrow> store \<Rightarrow> (bool \<times> store) option" where
  "update run w st =
     (if w_lazy (watchers st w) then Some (True, set_watcher w (\<lambda>x. x\<lparr>w_dirty := True\<rparr>) st)
      else if w_sync (watchers st w) then run w st
      else Some (True, st\<lparr>queued := queued st @ [w]\<rparr>))"

definition notify :: "(nat \<Rightarrow> store \<Rightarrow> (bool \<times> store) option) \<Rightarrow> nat \<Rightarrow> store \<Rightarrow> (bool \<times> store) option" where
  "notify run d st = run_all (update run) (d_subs st d) st"

definition reactiveSetter :: "(nat \<Rightarrow> store \<Rightarrow> (bool \<times> store) option) \<Rightarrow> nat \<times> jsval \<Rightarrow> store \<Rightarrow> (bool \<times> store) option" where
  "reactiveSetter run p st =
     (let d = fst p; newVal = snd p; value = d_val st d in
      if strict_eq newVal value \<or> (\<not> strict_eq newVal newVal \<and> \<not> strict_eq value value) then Some (True, st)
      else notify run d (st\<lparr>d_val := (d_val st)(d := newVal)\<rparr>))"

text \<open>\<open>Watcher.run\<close>; the callback makes its writes in order and may throw after them.\<close>

fun watcher_run :: "app \<Rightarrow> nat \<Rightarrow> nat \<Rightarrow> store \<Rightarrow> (bool \<times> store) option" where
  "watcher_run app 0 w st = None"
| "watcher_run app (Suc n) w st =
     (if w_active (watchers st w) then
        (case watcher_get app (evaluate app n) w st of
           None \<Rightarrow> None
         | Some (None, st1) \<Rightarrow> Some (False, st1)
         | Some (Some value, st1) \<Rightarrow>
             (let oldValue = w_value (watchers st1 w) in
              if \<not> strict_eq value oldValue \<or> isObject value \<or> w_deep (watchers st1 w) then
                (case run_all (reactiveSetter (watcher_run app n)) (a_writes app w value oldValue)
                        (set_watcher w (\<lambda>x. x\<lparr>w_value := value\<rparr>) st1) of
                   None \<Rightarrow> None
                 | Some (ok, st2) \<Rightarrow>
                     if ok \<and> \<not> a_throws app w value oldValue then Some (True, st2)
                     else if w_user (watchers st2 w) then Some (True, st2\<lparr>handled := handled st2 @ [w]\<rparr>)
                     else Some (False, st2))
              else Some (True, st1)))
      else Some (True, st))"

text \<open>The constructor; the options in the order lazy, sync, deep, user\<close>

definition new_watcher :: "bool \<times> bool \<times> bool \<times> bool \<Rightarrow> watcher" where
  "new_watcher opts =
     (case opts of (lazy, sync, deep, user) \<Rightarrow>
        \<lparr>w_deps = [], w_newDeps = [], w_depIds = {}, w_newDepIds = {}, w_lazy = lazy, w_sync = sync, w_deep = deep,
         w_user = user, w_active = True, w_dirty = lazy, w_value = JUndef\<rparr>)"

definition Watcher :: "app \<Rightarrow> nat \<Rightarrow> bool \<times> bool \<times> bool \<times> bool \<Rightarrow> store \<Rightarrow> (bool \<times> store) option" where
  "Watcher app n opts st =
     (let w = uid st + 1; st1 = set_watcher w (\<lambda>_. new_watcher opts) (st\<lparr>uid := w\<rparr>) in
      if fst opts then Some (True, st1)
      else
        (case watcher_get app (evaluate app n) w st1 of
           None \<Rightarrow> None
         | Some (None, st2) \<Rightarrow> Some (False, st2)
         | Some (Some v, st2) \<Rightarrow> Some (True, set_watcher w (\<lambda>x. x\<lparr>w_value := v\<rparr>) st2)))"

text \<open>The computed properties of a component\<close>

definition initComputed :: "app \<Rightarrow> nat \<Rightarrow> store \<Rightarrow> store" where
  "initComputed app m st =
     fold (\<lambda>_ s. case Watcher app 0 (True, False, False, False) s of None \<Rightarrow> s | Some (_, s') \<Rightarrow> s') [0..<m] st"

definition store_init :: "(nat \<Rightarrow> jsval) \<Rightarrow> store" where
  "store_init data =
     \<lparr>d_subs = (\<lambda>_. []), d_val = data,
      watchers = (\<lambda>_. (new_watcher (False, False, False, False))\<lparr>w_active := False\<rparr>),
      target = None, targetStack = [], queued = [], handled = [], uid = 0\<rparr>"

declare evaluate.simps [simp del] watcher_run.simps [simp del]

section \<open>What every operation keeps\<close>

text \<open>An operation keeps a property of the state it works on.\<close>

definition keeps :: "('s \<Rightarrow> bool) \<Rightarrow> ('a \<Rightarrow> 's \<Rightarrow> ('b \<times> 's) option) \<Rightarrow> bool" where
  "keeps P f \<longleftrightarrow> (\<forall>x st r st'. f x st = Some (r, st') \<longrightarrow> P st \<longrightarrow> P st')"

lemma keepsI: "(\<And>x st r st'. f x st = Some (r, st') \<Longrightarrow> P st \<Longrightarrow> P st') \<Longrightarrow> keeps P f"
  by (auto simp: keeps_def)

lemma keepsD: "keeps P f \<Longrightarrow> f x st = Some (r, st') \<Longrightarrow> P st \<Longrightarrow> P st'"
  by (auto simp: keeps_def)

lemma run_all_keeps: "keeps P f \<Longrightarrow> keeps P (run_all f)"
proof (rule keepsI)
  fix xs st r st' assume f: "keeps P f" and "run_all f xs st = Some (r, st')" "P st"
  from this(2,3) show "P st'"
    by (induction xs arbitrary: st) (auto split: option.splits if_splits dest: keepsD [OF f])
qed

text \<open>A property of the store that each elementary change keeps is kept by every operation.\<close>

locale store_invariant =
  fixes P :: "store \<Rightarrow> bool"
  assumes addDep_keeps: "P st \<Longrightarrow> P (addDep w d st)"
    and target_keeps: "P st \<Longrightarrow> P (st\<lparr>target := t\<rparr>)"
    and stack_keeps: "P st \<Longrightarrow> P (st\<lparr>targetStack := ts\<rparr>)"
    and cleanup_keeps: "P st \<Longrightarrow> P (cleanupDeps w st)"
    and value_keeps: "P st \<Longrightarrow> P (set_watcher w (\<lambda>x. x\<lparr>w_value := v\<rparr>) st)"
    and dirty_keeps: "P st \<Longrightarrow> P (set_watcher w (\<lambda>x. x\<lparr>w_dirty := b\<rparr>) st)"
    and queued_keeps: "P st \<Longrightarrow> P (st\<lparr>queued := q\<rparr>)"
    and handled_keeps: "P st \<Longrightarrow> P (st\<lparr>handled := q\<rparr>)"
begin

lemma depend_keeps: "P st \<Longrightarrow> P (dep_depend d st)"
  by (auto simp: dep_depend_def addDep_keeps split: option.split)

lemma depends_keep: "P st \<Longrightarrow> P (fold dep_depend ds st)"
  by (induction ds arbitrary: st) (simp_all add: depend_keeps)

lemma push_keeps: "P st \<Longrightarrow> P (pushTarget t st)"
  using target_keeps [OF stack_keeps] target_keeps by (auto simp: pushTarget_def split: option.split)

lemma pop_keeps: "P st \<Longrightarrow> P (popTarget st)"
  using target_keeps stack_keeps [OF target_keeps] by (auto simp: popTarget_def split: list.split)

lemma value_dirty_keeps: "P st \<Longrightarrow> P (set_watcher w (\<lambda>x. x\<lparr>w_value := v, w_dirty := b\<rparr>) st)"
  using dirty_keeps [OF value_keeps, of st w b w v] by (simp add: set_watcher_def)

lemma computedGetter_keeps: "keeps P ev \<Longrightarrow> keeps P (computedGetter ev)"
  by (rule keepsI) (auto simp: computedGetter_def Let_def watcher_depend_def depends_keep
      split: option.splits if_splits dest: keepsD)

lemma run_getter_keeps: "keeps P ev \<Longrightarrow> keeps P (run_getter ev)"
proof (rule keepsI)
  fix g st r st' assume ev: "keeps P ev" and "run_getter ev g st = Some (r, st')" "P st"
  from this(2,3) show "P st'"
  proof (induction g arbitrary: st r st')
    case (Read d k)
    then show ?case using Read.IH [OF rangeI _ depend_keeps] by auto
  next
    case (Computed c k)
    then show ?case
      by (fastforce split: option.splits dest: keepsD [OF computedGetter_keeps [OF ev]])
  next
    case (Untracked g k)
    then obtain r1 st1 where r1: "run_getter ev g (pushTarget None st) = Some (r1, st1)"
        "run_getter ev (k (case r1 of None \<Rightarrow> JUndef | Some v \<Rightarrow> v)) (popTarget st1) = Some (r, st')"
      by (auto split: option.splits)
    have "P st1" by (rule Untracked.IH(1) [OF r1(1) push_keeps [OF Untracked.prems(2)]])
    then show ?case using Untracked.IH(2) [OF _ r1(2) pop_keeps] by blast
  qed (auto simp: depend_keeps)
qed

lemma watcher_get_keeps: "keeps P ev \<Longrightarrow> keeps P (watcher_get app ev)"
proof (rule keepsI)
  fix w st r st' assume ev: "keeps P ev" and g: "watcher_get app ev w st = Some (r, st')" and P: "P st"
  obtain r1 st1 where r1: "run_getter ev (a_getter app w) (pushTarget (Some w) st) = Some (r1, st1)"
    using g by (auto simp: watcher_get_def split: option.splits)
  have "P st1" by (rule keepsD [OF run_getter_keeps [OF ev] r1 push_keeps [OF P]])
  then show "P st'" using g r1
    by (auto simp: watcher_get_def Let_def cleanup_keeps pop_keeps depends_keep handled_keeps)
qed

lemma evaluate_keeps: "keeps P (evaluate app n)"
proof (induction n)
  case (Suc n)
  show ?case
    by (rule keepsI) (auto simp: evaluate.simps value_dirty_keeps split: option.splits
        dest: keepsD [OF watcher_get_keeps [OF Suc.IH]])
qed (simp add: keeps_def evaluate.simps)

lemma update_keeps: "keeps P run \<Longrightarrow> keeps P (update run)"
  by (rule keepsI) (auto simp: update_def dirty_keeps queued_keeps split: if_splits dest: keepsD)

end

text \<open>When a write to a property keeps it too, a run of a watcher, with its callback, keeps it.\<close>

locale written_invariant = store_invariant +
  assumes data_keeps: "P st \<Longrightarrow> P (st\<lparr>d_val := data\<rparr>)"
begin

lemma reactiveSetter_keeps: "keeps P run \<Longrightarrow> keeps P (reactiveSetter run)"
  by (rule keepsI) (auto simp: reactiveSetter_def Let_def notify_def data_keeps split: if_splits
      dest: keepsD [OF run_all_keeps [OF update_keeps]])

lemma watcher_run_keeps: "keeps P (watcher_run app n)"
proof (induction n)
  case (Suc n)
  show ?case
  proof (rule keepsI)
    fix w st ok st' assume run: "watcher_run app (Suc n) w st = Some (ok, st')" and P: "P st"
    show "P st'"
    proof (cases "w_active (watchers st w)")
      case True
      then obtain r st1 where g: "watcher_get app (evaluate app n) w st = Some (r, st1)"
        using run by (auto simp: watcher_run.simps split: option.splits)
      have P1: "P st1" by (rule keepsD [OF watcher_get_keeps [OF evaluate_keeps] g P])
      note cb = keepsD [OF run_all_keeps [OF reactiveSetter_keeps [OF Suc.IH]] _ value_keeps [OF P1]]
      show ?thesis
        using run True g P1
        by (cases r) (auto simp: watcher_run.simps Let_def handled_keeps split: if_splits option.splits dest!: cb)
    qed (use run P in \<open>simp add: watcher_run.simps\<close>)
  qed
qed (simp add: keeps_def watcher_run.simps)

end

section \<open>Both sides of a subscription\<close>

text \<open>
  The subscribers of a dep are exactly the active watchers that have it among their deps, those of
  the last evaluation or of the one that is running, and each subscribes once.
\<close>

definition subscribed :: "store \<Rightarrow> nat \<Rightarrow> nat set" where
  "subscribed st w = {d. w \<in> set (d_subs st d)}"

definition watcher_ok :: "watcher \<Rightarrow> nat set \<Rightarrow> bool" where
  "watcher_ok x S \<longleftrightarrow>
     w_depIds x = set (w_deps x) \<and> w_newDepIds x = set (w_newDeps x) \<and> S \<subseteq> w_depIds x \<union> w_newDepIds x \<and>
     (w_active x \<longrightarrow> w_depIds x \<union> w_newDepIds x \<subseteq> S)"

definition subs_ok :: "store \<Rightarrow> bool" where
  "subs_ok st \<longleftrightarrow> (\<forall>d. distinct (d_subs st d)) \<and> (\<forall>w. watcher_ok (watchers st w) (subscribed st w))"

lemma set_watcher_simps [simp]:
  "d_subs (set_watcher w f st) = d_subs st" "d_val (set_watcher w f st) = d_val st" "target (set_watcher w f st) = target st"
  "targetStack (set_watcher w f st) = targetStack st" "queued (set_watcher w f st) = queued st" "uid (set_watcher w f st) = uid st"
  "watchers (set_watcher w f st) = (watchers st)(w := f (watchers st w))" "handled (set_watcher w f st) = handled st"
  by (simp_all add: set_watcher_def)

lemma removeSub_simps [simp]:
  "watchers (removeSub d w st) = watchers st" "d_val (removeSub d w st) = d_val st" "target (removeSub d w st) = target st"
  "targetStack (removeSub d w st) = targetStack st" "queued (removeSub d w st) = queued st" "uid (removeSub d w st) = uid st"
  "d_subs (removeSub d w st) = (d_subs st)(d := remove1 w (d_subs st d))"
  by (simp_all add: removeSub_def js_simps)

lemma addSub_simps [simp]:
  "watchers (addSub d w st) = watchers st" "d_val (addSub d w st) = d_val st" "target (addSub d w st) = target st"
  "targetStack (addSub d w st) = targetStack st" "queued (addSub d w st) = queued st" "uid (addSub d w st) = uid st"
  "d_subs (addSub d w st) = (d_subs st)(d := d_subs st d @ [w])"
  by (simp_all add: addSub_def)

text \<open>Removing the subscriptions of a watcher to some deps\<close>

definition drop_subs :: "nat \<Rightarrow> (nat \<Rightarrow> bool) \<Rightarrow> nat list \<Rightarrow> store \<Rightarrow> store" where
  "drop_subs w p ds = fold (\<lambda>d s. if p d then removeSub d w s else s) ds"

lemma drop_subs_simps [simp]:
  "watchers (drop_subs w p ds st) = watchers st" "d_val (drop_subs w p ds st) = d_val st" "target (drop_subs w p ds st) = target st"
  "targetStack (drop_subs w p ds st) = targetStack st" "queued (drop_subs w p ds st) = queued st" "uid (drop_subs w p ds st) = uid st"
  by (induction ds arbitrary: st) (simp_all add: drop_subs_def)

lemma drop_subs_subs:
  "(\<forall>d. distinct (d_subs st d)) \<Longrightarrow>
   d_subs (drop_subs w p ds st) = (\<lambda>d. if d \<in> set ds \<and> p d then remove1 w (d_subs st d) else d_subs st d)"
proof (induction ds arbitrary: st)
  case (Cons e ds)
  let ?st = "if p e then removeSub e w st else st"
  have d: "\<forall>d. distinct (d_subs ?st d)" using Cons.prems by simp
  have r: "remove1 w (remove1 w (d_subs st e)) = remove1 w (d_subs st e)"
    using Cons.prems by (simp add: remove1_idem)
  have "d_subs (drop_subs w p (e # ds) st) = d_subs (drop_subs w p ds ?st)" by (simp add: drop_subs_def)
  also have "\<dots> = (\<lambda>d. if d \<in> set ds \<and> p d then remove1 w (d_subs ?st d) else d_subs ?st d)" by (rule Cons.IH [OF d])
  finally show ?case by (auto simp: fun_eq_iff r)
qed (simp add: drop_subs_def)

lemma cleanupDeps_eq:
  "cleanupDeps w st =
     set_watcher w (\<lambda>x. x\<lparr>w_depIds := w_newDepIds x, w_newDepIds := {}, w_deps := w_newDeps x, w_newDeps := []\<rparr>)
       (drop_subs w (\<lambda>d. d \<notin> w_newDepIds (watchers st w)) (rev (w_deps (watchers st w))) st)"
  by (simp add: cleanupDeps_def drop_subs_def Let_def)

lemma teardown_eq:
  "teardown w st =
     (if w_active (watchers st w) then
        set_watcher w (\<lambda>x. x\<lparr>w_active := False\<rparr>) (drop_subs w (\<lambda>_. True) (rev (w_deps (watchers st w))) st)
      else st)"
  by (simp add: teardown_def drop_subs_def)

lemma subs_okI: "(\<And>d. distinct (d_subs st d)) \<Longrightarrow> (\<And>w. watcher_ok (watchers st w) (subscribed st w)) \<Longrightarrow> subs_ok st"
  by (simp add: subs_ok_def)

lemma subs_okD: "subs_ok st \<Longrightarrow> distinct (d_subs st d)" "subs_ok st \<Longrightarrow> watcher_ok (watchers st w) (subscribed st w)"
  by (simp_all add: subs_ok_def)

lemma subscribed_drop:
  assumes "subs_ok st"
  shows "subscribed (drop_subs w p ds st) v = (if v = w then subscribed st v - {d \<in> set ds. p d} else subscribed st v)"
  using subs_okD(1) [OF assms] by (auto simp: subscribed_def drop_subs_subs set_remove1_eq)

lemma distinct_drop: "subs_ok st \<Longrightarrow> distinct (d_subs (drop_subs w p ds st) d)"
  using subs_okD(1) [of st] by (simp add: drop_subs_subs)

lemma subscribed_set [simp]: "subscribed (set_watcher w f st) = subscribed st"
  by (simp add: subscribed_def fun_eq_iff)

lemma subscribed_add: "subscribed (addSub d w st) v = (if v = w then insert d (subscribed st v) else subscribed st v)"
  by (auto simp: subscribed_def)

lemma addDep_subs:
  assumes "subs_ok st"
  shows "subs_ok (addDep w d st)"
proof (rule subs_okI)
  fix e v
  show "distinct (d_subs (addDep w d st) e)"
    using subs_okD(1) [OF assms, of e] subs_okD(2) [OF assms, of w]
    by (auto simp: addDep_def Let_def watcher_ok_def subscribed_def)
  show "watcher_ok (watchers (addDep w d st) v) (subscribed (addDep w d st) v)"
    using subs_okD(2) [OF assms, of v]
    by (auto simp: addDep_def Let_def watcher_ok_def subscribed_add)
qed

lemma cleanup_subs:
  assumes "subs_ok st"
  shows "subs_ok (cleanupDeps w st)"
proof (rule subs_okI)
  fix e v
  show "distinct (d_subs (cleanupDeps w st) e)" by (simp add: cleanupDeps_eq distinct_drop [OF assms])
  show "watcher_ok (watchers (cleanupDeps w st) v) (subscribed (cleanupDeps w st) v)"
    using subs_okD(2) [OF assms, of v]
    by (auto simp: cleanupDeps_eq watcher_ok_def subscribed_drop [OF assms])
qed

lemma teardown_subs:
  assumes "subs_ok st"
  shows "subs_ok (teardown w st)"
proof (rule subs_okI)
  fix e v
  show "distinct (d_subs (teardown w st) e)"
    using subs_okD(1) [OF assms] by (simp add: teardown_eq distinct_drop [OF assms])
  show "watcher_ok (watchers (teardown w st) v) (subscribed (teardown w st) v)"
    using subs_okD(2) [OF assms, of v]
    by (auto simp: teardown_eq watcher_ok_def subscribed_drop [OF assms])
qed

lemma subs_ok_cong:
  assumes "d_subs st' = d_subs st"
    "\<And>w. w_deps (watchers st' w) = w_deps (watchers st w) \<and> w_newDeps (watchers st' w) = w_newDeps (watchers st w) \<and>
      w_depIds (watchers st' w) = w_depIds (watchers st w) \<and> w_newDepIds (watchers st' w) = w_newDepIds (watchers st w) \<and>
      w_active (watchers st' w) = w_active (watchers st w)" "subs_ok st"
  shows "subs_ok st'"
proof (rule subs_okI)
  show "distinct (d_subs st' d)" for d using subs_okD(1) [OF assms(3)] by (simp add: assms(1))
  show "watcher_ok (watchers st' w) (subscribed st' w)" for w
  proof -
    have "watcher_ok (watchers st' w) S = watcher_ok (watchers st w) S" for S
      using assms(2) [of w] by (simp add: watcher_ok_def)
    then show ?thesis using subs_okD(2) [OF assms(3), of w] by (simp add: subscribed_def assms(1))
  qed
qed

interpretation subscriptions: written_invariant subs_ok
proof unfold_locales
  fix st assume "subs_ok st"
  note c = subs_ok_cong [OF _ _ this]
  show "subs_ok (st\<lparr>target := t\<rparr>)" "subs_ok (st\<lparr>targetStack := ts\<rparr>)" "subs_ok (st\<lparr>queued := q\<rparr>)" "subs_ok (st\<lparr>handled := q\<rparr>)"
    "subs_ok (st\<lparr>d_val := data\<rparr>)" "subs_ok (set_watcher w (\<lambda>x. x\<lparr>w_value := v\<rparr>) st)"
    "subs_ok (set_watcher w (\<lambda>x. x\<lparr>w_dirty := b\<rparr>) st)" for t ts q data w v b
    by (rule c; simp)+
qed (auto intro: addDep_subs cleanup_subs)

text \<open>The flags of the watchers and the counter only change where watchers are made and torn down.\<close>

definition static_of :: "store \<Rightarrow> nat \<times> (nat \<Rightarrow> bool \<times> bool \<times> bool \<times> bool \<times> bool)" where
  "static_of st =
     (uid st, \<lambda>w. let x = watchers st w in (w_lazy x, w_sync x, w_deep x, w_user x, w_active x))"

interpretation static: written_invariant "\<lambda>st. static_of st = s" for s
  by unfold_locales (auto simp: static_of_def addDep_def cleanupDeps_eq Let_def fun_eq_iff)

end
