(* ===== verification/ReactiveSound.thy ===== *)
theory ReactiveSound
  imports Reactive
begin

text \<open>
  Soundness of the dependency tracking. The value of a getter is specified without caches and
  subscriptions: every computed property it reads is evaluated anew. The evaluation with caches
  agrees with it, and records every dep the specified evaluation reads; from this follow the
  invariant of the machine made of writes, reads, new watchers and runs, and the two properties an
  application relies on: a computed property is never stale, and a watcher that is out of date is
  queued.
\<close>

section \<open>Specification\<close>

primrec pure_getter :: "(nat \<Rightarrow> jsval option) \<Rightarrow> (nat \<Rightarrow> jsval) \<Rightarrow> getter \<Rightarrow> jsval option" where
  "pure_getter V data (Return v) = Some v"
| "pure_getter V data Throw = None"
| "pure_getter V data (Read d k) = pure_getter V data (k (data d))"
| "pure_getter V data (Touch d g) = pure_getter V data g"
| "pure_getter V data (Computed c k) = (case V c of None \<Rightarrow> None | Some v \<Rightarrow> pure_getter V data (k v))"
| "pure_getter V data (Untracked g k) = (case pure_getter V data g of None \<Rightarrow> pure_getter V data (k JUndef) | Some v \<Rightarrow> pure_getter V data (k v))"

primrec getter_reads :: "(nat \<Rightarrow> jsval option) \<Rightarrow> (nat \<Rightarrow> nat set) \<Rightarrow> (nat \<Rightarrow> jsval) \<Rightarrow> getter \<Rightarrow> nat set" where
  "getter_reads V R data (Return v) = {}"
| "getter_reads V R data Throw = {}"
| "getter_reads V R data (Read d k) = insert d (getter_reads V R data (k (data d)))"
| "getter_reads V R data (Touch d g) = getter_reads V R data g"
| "getter_reads V R data (Computed c k) = R c \<union> (case V c of None \<Rightarrow> {} | Some v \<Rightarrow> getter_reads V R data (k v))"
| "getter_reads V R data (Untracked g k) = (case pure_getter V data g of None \<Rightarrow> getter_reads V R data (k JUndef) | Some v \<Rightarrow> getter_reads V R data (k v))"

text \<open>
  The computed properties of an application must not depend on themselves: \<open>rk\<close> ranks the watchers,
  and a getter only reads computed properties of a smaller rank, among those that exist; it has no
  untracked parts.
\<close>

primrec wf_getter :: "(nat \<Rightarrow> nat) \<Rightarrow> nat set \<Rightarrow> nat \<Rightarrow> getter \<Rightarrow> bool" where
  "wf_getter rk L r (Return v) \<longleftrightarrow> True"
| "wf_getter rk L r Throw \<longleftrightarrow> True"
| "wf_getter rk L r (Read d k) \<longleftrightarrow> (\<forall>v. wf_getter rk L r (k v))"
| "wf_getter rk L r (Touch d g) \<longleftrightarrow> wf_getter rk L r g"
| "wf_getter rk L r (Computed c k) \<longleftrightarrow> c \<in> L \<and> rk c < r \<and> (\<forall>v. wf_getter rk L r (k v))"
| "wf_getter rk L r (Untracked g k) \<longleftrightarrow> False"

fun val_fuel :: "app \<Rightarrow> (nat \<Rightarrow> jsval) \<Rightarrow> nat \<Rightarrow> nat \<Rightarrow> jsval option" where
  "val_fuel app data 0 c = None"
| "val_fuel app data (Suc n) c = pure_getter (val_fuel app data n) data (a_getter app c)"

fun reads_fuel :: "app \<Rightarrow> (nat \<Rightarrow> jsval) \<Rightarrow> nat \<Rightarrow> nat \<Rightarrow> nat set" where
  "reads_fuel app data 0 c = {}"
| "reads_fuel app data (Suc n) c =
     getter_reads (val_fuel app data n) (reads_fuel app data n) data (a_getter app c)"

text \<open>The value of a watcher's getter on given data, and the deps it reads\<close>

definition getter_value :: "app \<Rightarrow> (nat \<Rightarrow> nat) \<Rightarrow> (nat \<Rightarrow> jsval) \<Rightarrow> nat \<Rightarrow> jsval option" where
  "getter_value app rk data w = val_fuel app data (Suc (rk w)) w"

definition getter_deps :: "app \<Rightarrow> (nat \<Rightarrow> nat) \<Rightarrow> (nat \<Rightarrow> jsval) \<Rightarrow> nat \<Rightarrow> nat set" where
  "getter_deps app rk data w = reads_fuel app data (Suc (rk w)) w"

lemma wf_getter_mono: "wf_getter rk L r g \<Longrightarrow> L \<subseteq> L' \<Longrightarrow> wf_getter rk L' r g"
  by (induction g) auto

lemma pure_getter_cong:
  "wf_getter rk L r g \<Longrightarrow> (\<And>c. c \<in> L \<Longrightarrow> rk c < r \<Longrightarrow> V c = V' c) \<Longrightarrow> pure_getter V data g = pure_getter V' data g"
  by (induction g) (auto split: option.splits)

lemma getter_reads_cong:
  "wf_getter rk L r g \<Longrightarrow> (\<And>c. c \<in> L \<Longrightarrow> rk c < r \<Longrightarrow> V c = V' c \<and> R c = R' c) \<Longrightarrow>
   getter_reads V R data g = getter_reads V' R' data g"
  by (induction g) (auto split: option.splits)

lemma fuel_enough:
  assumes L: "\<forall>c\<in>L. wf_getter rk L (rk c) (a_getter app c)"
  shows "c \<in> L \<Longrightarrow> rk c < n \<Longrightarrow> rk c < m \<Longrightarrow>
    val_fuel app data n c = val_fuel app data m c \<and> reads_fuel app data n c = reads_fuel app data m c"
proof (induction "rk c" arbitrary: c n m rule: less_induct)
  case less
  obtain n' m' where nm: "n = Suc n'" "m = Suc m'" using less.prems by (cases n; cases m) auto
  have e: "val_fuel app data n' e = val_fuel app data m' e \<and> reads_fuel app data n' e = reads_fuel app data m' e"
    if "e \<in> L" "rk e < rk c" for e
  proof (rule less.hyps [OF that(2,1)])
    show "rk e < n'" "rk e < m'" using that(2) less.prems(2,3) nm by linarith+
  qed
  have "pure_getter (val_fuel app data n') data (a_getter app c) = pure_getter (val_fuel app data m') data (a_getter app c)"
    using e by (intro pure_getter_cong [OF bspec [OF L less.prems(1)]]) blast
  moreover have "getter_reads (val_fuel app data n') (reads_fuel app data n') data (a_getter app c) =
      getter_reads (val_fuel app data m') (reads_fuel app data m') data (a_getter app c)"
    using e by (intro getter_reads_cong [OF bspec [OF L less.prems(1)]]) blast
  ultimately show ?case unfolding nm by simp
qed

text \<open>The specification unfolded: no fuel\<close>

lemma getter_value_unfold:
  assumes L: "\<forall>c\<in>L. wf_getter rk L (rk c) (a_getter app c)" and w: "wf_getter rk L (rk w) (a_getter app w)"
  shows "getter_value app rk data w = pure_getter (getter_value app rk data) data (a_getter app w)"
    "getter_deps app rk data w = getter_reads (getter_value app rk data) (getter_deps app rk data) data (a_getter app w)"
proof -
  have f: "val_fuel app data (rk w) e = getter_value app rk data e \<and> reads_fuel app data (rk w) e = getter_deps app rk data e"
    if "e \<in> L" "rk e < rk w" for e
    unfolding getter_value_def getter_deps_def using that by (intro fuel_enough [OF L]) auto
  have "getter_value app rk data w = pure_getter (val_fuel app data (rk w)) data (a_getter app w)"
    by (simp add: getter_value_def)
  also have "\<dots> = pure_getter (getter_value app rk data) data (a_getter app w)"
    using f by (intro pure_getter_cong [OF w]) simp
  finally show "getter_value app rk data w = pure_getter (getter_value app rk data) data (a_getter app w)" .
  have "getter_deps app rk data w = getter_reads (val_fuel app data (rk w)) (reads_fuel app data (rk w)) data (a_getter app w)"
    by (simp add: getter_deps_def)
  also have "\<dots> = getter_reads (getter_value app rk data) (getter_deps app rk data) data (a_getter app w)"
    using f by (intro getter_reads_cong [OF w]) simp
  finally show "getter_deps app rk data w = getter_reads (getter_value app rk data) (getter_deps app rk data) data (a_getter app w)" .
qed

text \<open>A write to a property that an evaluation does not read changes neither its value nor its deps.\<close>

lemma getter_local:
  assumes "wf_getter rk L r g" "\<And>c. c \<in> L \<Longrightarrow> rk c < r \<Longrightarrow> d \<notin> R c \<Longrightarrow> V' c = V c \<and> R' c = R c"
    "d \<notin> getter_reads V R data g"
  shows "pure_getter V' (data(d := v)) g = pure_getter V data g \<and>
    getter_reads V' R' (data(d := v)) g = getter_reads V R data g"
  using assms by (induction g) (auto split: option.splits)

lemma value_local:
  assumes L: "\<forall>c\<in>L. wf_getter rk L (rk c) (a_getter app c)"
  shows "wf_getter rk L (rk w) (a_getter app w) \<Longrightarrow> d \<notin> getter_deps app rk data w \<Longrightarrow>
    getter_value app rk (data(d := v)) w = getter_value app rk data w \<and>
    getter_deps app rk (data(d := v)) w = getter_deps app rk data w"
proof (induction "rk w" arbitrary: w rule: less_induct)
  case less
  note u = getter_value_unfold [OF L less.prems(1)]
  have "d \<notin> getter_reads (getter_value app rk data) (getter_deps app rk data) data (a_getter app w)"
    using less.prems(2) unfolding u(2) [symmetric] .
  then have "pure_getter (getter_value app rk (data(d := v))) (data(d := v)) (a_getter app w) =
        pure_getter (getter_value app rk data) data (a_getter app w) \<and>
      getter_reads (getter_value app rk (data(d := v))) (getter_deps app rk (data(d := v))) (data(d := v)) (a_getter app w) =
        getter_reads (getter_value app rk data) (getter_deps app rk data) data (a_getter app w)"
    using less.hyps L by (intro getter_local [OF less.prems(1)]) auto
  then show ?case by (simp add: u [symmetric])
qed

section \<open>One evaluation\<close>

definition lazies :: "store \<Rightarrow> nat set" where
  "lazies st = {w. w_lazy (watchers st w)}"

text \<open>The cache of a computed property: not being filled, and right when it is not dirty\<close>

definition cell_ok :: "app \<Rightarrow> (nat \<Rightarrow> nat) \<Rightarrow> store \<Rightarrow> nat \<Rightarrow> bool" where
  "cell_ok app rk st c \<longleftrightarrow>
     w_newDepIds (watchers st c) = {} \<and>
     (\<not> w_dirty (watchers st c) \<longrightarrow>
        getter_value app rk (d_val st) c = Some (w_value (watchers st c)) \<and>
        getter_deps app rk (d_val st) c \<subseteq> w_depIds (watchers st c))"

definition cells_ok :: "app \<Rightarrow> (nat \<Rightarrow> nat) \<Rightarrow> nat \<Rightarrow> store \<Rightarrow> bool" where
  "cells_ok app rk r st \<longleftrightarrow> (\<forall>c\<in>lazies st. rk c < r \<longrightarrow> cell_ok app rk st c)"

text \<open>The target is never a computed property of a smaller rank, and the stack is empty without a target.\<close>

definition target_ok :: "(nat \<Rightarrow> nat) \<Rightarrow> nat \<Rightarrow> store \<Rightarrow> bool" where
  "target_ok rk r st \<longleftrightarrow>
     (\<forall>t. target st = Some t \<longrightarrow> t \<in> lazies st \<longrightarrow> r \<le> rk t) \<and> (target st = None \<longrightarrow> targetStack st = [])"

text \<open>What an evaluation of rank \<open>r\<close> may change: smaller computed properties, and the new deps of the target\<close>

definition grown :: "watcher \<Rightarrow> watcher \<Rightarrow> bool" where
  "grown x x' \<longleftrightarrow>
     w_deps x' = w_deps x \<and> w_depIds x' = w_depIds x \<and> w_value x' = w_value x \<and> w_dirty x' = w_dirty x \<and>
     w_newDepIds x \<subseteq> w_newDepIds x'"

definition frame :: "(nat \<Rightarrow> nat) \<Rightarrow> nat \<Rightarrow> store \<Rightarrow> store \<Rightarrow> bool" where
  "frame rk r st st' \<longleftrightarrow>
     d_val st' = d_val st \<and> target st' = target st \<and> targetStack st' = targetStack st \<and> queued st' = queued st \<and>
     static_of st' = static_of st \<and>
     (\<forall>w. \<not> (w \<in> lazies st \<and> rk w < r) \<longrightarrow>
        (if target st = Some w then grown (watchers st w) (watchers st' w) else watchers st' w = watchers st w))"

lemma grown_refl [simp]: "grown x x"
  by (simp add: grown_def)

lemma grown_trans: "grown x y \<Longrightarrow> grown y z \<Longrightarrow> grown x z"
  by (auto simp: grown_def)

lemma static_lazies: "static_of st' = static_of st \<Longrightarrow> lazies st' = lazies st"
  by (auto simp: static_of_def lazies_def Let_def fun_eq_iff)

lemma static_flags:
  assumes "static_of st' = static_of st"
  shows "w_user (watchers st' w) = w_user (watchers st w)" "w_sync (watchers st' w) = w_sync (watchers st w)"
    "w_active (watchers st' w) = w_active (watchers st w)" "w_deep (watchers st' w) = w_deep (watchers st w)"
    "w_lazy (watchers st' w) = w_lazy (watchers st w)" "uid st' = uid st"
  using assms by (auto simp: static_of_def Let_def fun_eq_iff)

lemma frame_refl [intro, simp]: "frame rk r st st"
  by (simp add: frame_def)

lemma frame_trans:
  assumes "frame rk r st st'" "frame rk r st' st''"
  shows "frame rk r st st''"
proof -
  have L: "lazies st' = lazies st" using assms(1) by (intro static_lazies) (simp add: frame_def)
  show ?thesis unfolding frame_def
  proof (intro conjI allI impI)
    fix w assume w: "\<not> (w \<in> lazies st \<and> rk w < r)"
    have "target st' = target st" using assms(1) by (simp add: frame_def)
    moreover have "if target st = Some w then grown (watchers st w) (watchers st' w) else watchers st' w = watchers st w"
      using assms(1) w unfolding frame_def by blast
    moreover have "if target st' = Some w then grown (watchers st' w) (watchers st'' w) else watchers st'' w = watchers st' w"
      using assms(2) w unfolding frame_def L by blast
    ultimately show "if target st = Some w then grown (watchers st w) (watchers st'' w) else watchers st'' w = watchers st w"
      by (auto intro: grown_trans)
  qed (use assms in \<open>simp_all add: frame_def\<close>)
qed

lemma frame_mono: "frame rk r st st' \<Longrightarrow> r \<le> r' \<Longrightarrow> frame rk r' st st'"
  unfolding frame_def by (meson order.strict_trans2)

lemma frame_lazies: "frame rk r st st' \<Longrightarrow> lazies st' = lazies st"
  by (intro static_lazies) (simp add: frame_def)

lemma frame_target_ok: "frame rk r st st' \<Longrightarrow> target_ok rk r st \<Longrightarrow> target_ok rk r st'"
  using frame_lazies [of rk r st st'] by (simp add: target_ok_def frame_def)

text \<open>The states an evaluation of rank \<open>r\<close> starts and ends in\<close>

definition ready :: "app \<Rightarrow> (nat \<Rightarrow> nat) \<Rightarrow> nat \<Rightarrow> store \<Rightarrow> bool" where
  "ready app rk r st \<longleftrightarrow>
     subs_ok st \<and> cells_ok app rk r st \<and> target_ok rk r st \<and>
     (\<forall>c\<in>lazies st. wf_getter rk (lazies st) (rk c) (a_getter app c)) \<and> (\<forall>c\<in>lazies st. \<not> w_user (watchers st c))"

lemma ready_mono: "ready app rk r st \<Longrightarrow> r' \<le> r \<Longrightarrow> ready app rk r' st"
  unfolding ready_def cells_ok_def target_ok_def by (meson order.strict_trans2 order.trans)

lemma ready_wf: "ready app rk r st \<Longrightarrow> \<forall>c\<in>lazies st. wf_getter rk (lazies st) (rk c) (a_getter app c)"
  by (simp add: ready_def)

lemma ready_subs: "ready app rk r st \<Longrightarrow> subs_ok st"
  by (simp add: ready_def)

lemma ready_cell: "ready app rk r st \<Longrightarrow> c \<in> lazies st \<Longrightarrow> rk c < r \<Longrightarrow> cell_ok app rk st c"
  by (simp add: ready_def cells_ok_def)

lemma ready_step:
  assumes "ready app rk r st" "frame rk r st st'" "subs_ok st'" "cells_ok app rk r st'"
  shows "ready app rk r st'"
proof -
  have s: "static_of st' = static_of st" using assms(2) by (simp add: frame_def)
  show ?thesis
    using assms frame_target_ok [OF assms(2)] frame_lazies [OF assms(2)] by (simp add: ready_def static_flags(1) [OF s])
qed

lemma cells_cong:
  assumes "cells_ok app rk r st" "lazies st' = lazies st" "d_val st' = d_val st"
    "\<And>c. c \<in> lazies st \<Longrightarrow> rk c < r \<Longrightarrow> watchers st' c = watchers st c"
  shows "cells_ok app rk r st'"
  using assms by (simp add: cells_ok_def cell_ok_def)

text \<open>The deps the current target has collected; without a target, nothing is missing\<close>

definition collected :: "store \<Rightarrow> nat set" where
  "collected st = (case target st of None \<Rightarrow> UNIV | Some t \<Rightarrow> w_newDepIds (watchers st t))"

lemma frame_collected:
  assumes "frame rk r st st'" "target_ok rk r st"
  shows "collected st \<subseteq> collected st'"
proof (cases "target st")
  case (Some t)
  have "grown (watchers st t) (watchers st' t)"
    using assms Some unfolding frame_def target_ok_def by (metis leD)
  then show ?thesis using assms(1) Some by (simp add: collected_def frame_def grown_def)
qed (use assms(1) in \<open>simp add: collected_def frame_def\<close>)

lemma depend_watchers:
  "watchers (dep_depend d st) =
     (case target st of None \<Rightarrow> watchers st
      | Some t \<Rightarrow> (watchers st)(t :=
          if d \<in> w_newDepIds (watchers st t) then watchers st t
          else (watchers st t)\<lparr>w_newDepIds := insert d (w_newDepIds (watchers st t)), w_newDeps := w_newDeps (watchers st t) @ [d]\<rparr>))"
  by (auto simp: dep_depend_def addDep_def Let_def split: option.splits)

lemma depend_simps [simp]:
  "d_val (dep_depend d st) = d_val st" "target (dep_depend d st) = target st" "targetStack (dep_depend d st) = targetStack st"
  "queued (dep_depend d st) = queued st"
  by (auto simp: dep_depend_def addDep_def Let_def split: option.splits)

lemma depend_step:
  assumes "ready app rk r st"
  shows "frame rk r st (dep_depend d st) \<and> ready app rk r (dep_depend d st) \<and> d \<in> collected (dep_depend d st)"
proof -
  have s: "static_of (dep_depend d st) = static_of st" using static.depend_keeps [of st _ d] by simp
  have f: "frame rk r st (dep_depend d st)"
    unfolding frame_def by (auto simp: s depend_watchers grown_def split: option.split)
  have L: "lazies (dep_depend d st) = lazies st" by (rule static_lazies [OF s])
  have t: "target_ok rk r st" "cells_ok app rk r st" using assms by (simp_all add: ready_def)
  have "cells_ok app rk r (dep_depend d st)"
    by (rule cells_cong [OF t(2) L]) (use t(1) in \<open>auto simp: depend_watchers target_ok_def split: option.split\<close>)
  then have "ready app rk r (dep_depend d st)"
    using subscriptions.depend_keeps [OF ready_subs [OF assms]] by (intro ready_step [OF assms f])
  moreover have "d \<in> collected (dep_depend d st)"
    by (auto simp: collected_def depend_watchers split: option.split)
  ultimately show ?thesis using f by blast
qed

lemma depends_step:
  "ready app rk r st \<Longrightarrow>
   frame rk r st (fold dep_depend ds st) \<and> ready app rk r (fold dep_depend ds st) \<and> set ds \<subseteq> collected (fold dep_depend ds st)"
proof (induction ds arbitrary: st)
  case (Cons d ds)
  let ?st = "dep_depend d st"
  note 1 = depend_step [OF Cons.prems, of d]
  then have 2: "frame rk r ?st (fold dep_depend ds ?st)" "ready app rk r (fold dep_depend ds ?st)"
      "set ds \<subseteq> collected (fold dep_depend ds ?st)"
    using Cons.IH [of ?st] by blast+
  have "collected ?st \<subseteq> collected (fold dep_depend ds ?st)"
    using 1 by (intro frame_collected [OF 2(1)]) (simp add: ready_def)
  then show ?case using 1 2 by (auto intro: frame_trans)
qed simp

lemma depends_value: "w_value (watchers (fold dep_depend ds st) w) = w_value (watchers st w)"
  by (induction ds arbitrary: st) (simp_all add: depend_watchers split: option.split)

text \<open>A correct evaluation of the dirty computed properties of rank below \<open>r\<close>\<close>

definition ev_ok :: "app \<Rightarrow> (nat \<Rightarrow> nat) \<Rightarrow> nat \<Rightarrow> (nat \<Rightarrow> store \<Rightarrow> (bool \<times> store) option) \<Rightarrow> bool" where
  "ev_ok app rk r ev \<longleftrightarrow>
     (\<forall>c st. c \<in> lazies st \<longrightarrow> rk c < r \<longrightarrow> w_dirty (watchers st c) \<longrightarrow> ready app rk r st \<longrightarrow>
        (\<exists>ok st'. ev c st = Some (ok, st') \<and> frame rk r st st' \<and> ready app rk r st' \<and>
           (ok \<longleftrightarrow> getter_value app rk (d_val st) c \<noteq> None) \<and> (ok \<longrightarrow> \<not> w_dirty (watchers st' c))))"

lemma computed_step:
  assumes ev: "ev_ok app rk r ev" and c: "c \<in> lazies st" "rk c < r" and st: "ready app rk r st"
  shows "\<exists>st'. computedGetter ev c st = Some (getter_value app rk (d_val st) c, st') \<and> frame rk r st st' \<and> ready app rk r st' \<and>
    (getter_value app rk (d_val st) c \<noteq> None \<longrightarrow> getter_deps app rk (d_val st) c \<subseteq> collected st')"
proof -
  let ?V = "getter_value app rk (d_val st) c"
  obtain ok st1 where 1: "(if w_dirty (watchers st c) then ev c st else Some (True, st)) = Some (ok, st1)"
      "frame rk r st st1" "ready app rk r st1" "ok \<longleftrightarrow> ?V \<noteq> None" "ok \<longrightarrow> \<not> w_dirty (watchers st1 c)"
  proof (cases "w_dirty (watchers st c)")
    case True
    then show ?thesis using ev c st that unfolding ev_ok_def by (smt (verit))
  next
    case False
    moreover have "?V \<noteq> None" using ready_cell [OF st c] False by (simp add: cell_ok_def)
    ultimately show ?thesis using st that [of True st] by simp
  qed
  show ?thesis
  proof (cases ok)
    case False
    then show ?thesis using 1 by (auto simp: computedGetter_def)
  next
    case True
    have c1: "c \<in> lazies st1" using frame_lazies [OF 1(2)] c(1) by simp
    have d1: "d_val st1 = d_val st" using 1(2) by (simp add: frame_def)
    have cell: "?V = Some (w_value (watchers st1 c))" "getter_deps app rk (d_val st) c \<subseteq> w_depIds (watchers st1 c)"
      using ready_cell [OF 1(3) c1 c(2)] 1(5) True by (simp_all add: cell_ok_def d1)
    have ids: "w_depIds (watchers st1 c) = set (w_deps (watchers st1 c))"
      using subs_okD(2) [OF ready_subs [OF 1(3)], of c] by (simp add: watcher_ok_def)
    let ?st2 = "if target st1 \<noteq> None then watcher_depend c st1 else st1"
    have 2: "frame rk r st1 ?st2" "ready app rk r ?st2" "set (w_deps (watchers st1 c)) \<subseteq> collected ?st2"
    proof -
      have "frame rk r st1 ?st2 \<and> ready app rk r ?st2 \<and> set (w_deps (watchers st1 c)) \<subseteq> collected ?st2"
      proof (cases "target st1")
        case None
        then show ?thesis using 1(3) by (simp add: collected_def)
      next
        case (Some t)
        then show ?thesis
          using depends_step [OF 1(3), of "rev (w_deps (watchers st1 c))"] by (simp add: watcher_depend_def)
      qed
      then show "frame rk r st1 ?st2" "ready app rk r ?st2" "set (w_deps (watchers st1 c)) \<subseteq> collected ?st2" by blast+
    qed
    have "w_value (watchers ?st2 c) = w_value (watchers st1 c)"
      by (simp add: watcher_depend_def depends_value)
    then have "computedGetter ev c st = Some (?V, ?st2)"
      using 1(1) True cell(1) by (simp add: computedGetter_def Let_def)
    then show ?thesis using 2 frame_trans [OF 1(2) 2(1)] cell(2) ids by blast
  qed
qed

lemma run_getter_step:
  assumes ev: "ev_ok app rk r ev"
  shows "ready app rk r st \<Longrightarrow> wf_getter rk (lazies st) r g \<Longrightarrow>
    \<exists>st'. run_getter ev g st = Some (pure_getter (getter_value app rk (d_val st)) (d_val st) g, st') \<and>
      frame rk r st st' \<and> ready app rk r st' \<and>
      (pure_getter (getter_value app rk (d_val st)) (d_val st) g \<noteq> None \<longrightarrow>
         getter_reads (getter_value app rk (d_val st)) (getter_deps app rk (d_val st)) (d_val st) g \<subseteq> collected st')"
proof (induction g arbitrary: st)
  case (Read d k)
  let ?st = "dep_depend d st"
  note 1 = depend_step [OF Read.prems(1), of d]
  have L: "lazies ?st = lazies st" using 1 frame_lazies by blast
  obtain st' where st': "run_getter ev (k (d_val st d)) ?st =
        Some (pure_getter (getter_value app rk (d_val st)) (d_val st) (k (d_val st d)), st')"
      "frame rk r ?st st'" "ready app rk r st'"
      "pure_getter (getter_value app rk (d_val st)) (d_val st) (k (d_val st d)) \<noteq> None \<longrightarrow>
         getter_reads (getter_value app rk (d_val st)) (getter_deps app rk (d_val st)) (d_val st) (k (d_val st d)) \<subseteq> collected st'"
    using Read.IH [OF rangeI, of ?st "d_val st d"] 1 Read.prems(2) L by auto
  have "collected ?st \<subseteq> collected st'"
    using 1 by (intro frame_collected [OF st'(2)]) (simp add: ready_def)
  then show ?case using 1 st' by (auto intro: frame_trans)
next
  case (Touch d g)
  let ?st = "dep_depend d st"
  note 1 = depend_step [OF Touch.prems(1), of d]
  have L: "lazies ?st = lazies st" using 1 frame_lazies by blast
  show ?case using Touch.IH [of ?st] 1 Touch.prems(2) L by (auto intro: frame_trans)
next
  case (Computed c k)
  let ?V = "getter_value app rk (d_val st)"
  have c: "c \<in> lazies st" "rk c < r" using Computed.prems(2) by simp_all
  obtain st1 where 1: "computedGetter ev c st = Some (?V c, st1)" "frame rk r st st1" "ready app rk r st1"
      "?V c \<noteq> None \<longrightarrow> getter_deps app rk (d_val st) c \<subseteq> collected st1"
    using computed_step [OF ev c Computed.prems(1)] by blast
  show ?case
  proof (cases "?V c")
    case None
    then show ?thesis using 1 by auto
  next
    case (Some v)
    have d1: "d_val st1 = d_val st" and L: "lazies st1 = lazies st"
      using 1(2) frame_lazies [OF 1(2)] by (simp_all add: frame_def)
    obtain st' where st': "run_getter ev (k v) st1 = Some (pure_getter ?V (d_val st) (k v), st')" "frame rk r st1 st'" "ready app rk r st'"
        "pure_getter ?V (d_val st) (k v) \<noteq> None \<longrightarrow>
           getter_reads ?V (getter_deps app rk (d_val st)) (d_val st) (k v) \<subseteq> collected st'"
      using Computed.IH [OF rangeI 1(3), of v] Computed.prems(2) L d1 by auto
    have "collected st1 \<subseteq> collected st'"
      using 1(3) by (intro frame_collected [OF st'(2)]) (simp add: ready_def)
    then show ?thesis using 1 st' Some by (auto intro: frame_trans)
  qed
qed auto

lemma frame_handled: "frame rk r st st' \<Longrightarrow> frame rk r st (st'\<lparr>handled := h\<rparr>)"
  by (simp add: frame_def static_of_def)

lemma ready_handled: "ready app rk r st \<Longrightarrow> ready app rk r (st\<lparr>handled := h\<rparr>)"
  using subscriptions.handled_keeps [of st h]
  by (simp add: ready_def cells_ok_def cell_ok_def target_ok_def lazies_def)

lemma collected_handled: "collected (st\<lparr>handled := h\<rparr>) = collected st"
  by (cases "target st") (simp_all add: collected_def)

text \<open>\<open>Watcher.get\<close>: the target and the stack are restored, and only smaller computed properties change otherwise\<close>

lemma get_step:
  assumes ev: "ev_ok app rk (rk w) ev" and st: "ready app rk (rk w) st"
    and w: "wf_getter rk (lazies st) (rk w) (a_getter app w)" "w_newDepIds (watchers st w) = {}"
  shows "\<exists>st'. watcher_get app ev w st =
      Some (if getter_value app rk (d_val st) w = None \<and> \<not> w_user (watchers st w) then None
            else Some (case getter_value app rk (d_val st) w of None \<Rightarrow> JUndef | Some v \<Rightarrow> v), st') \<and>
    d_val st' = d_val st \<and> target st' = target st \<and> targetStack st' = targetStack st \<and> queued st' = queued st \<and>
    static_of st' = static_of st \<and> subs_ok st' \<and> cells_ok app rk (rk w) st' \<and>
    (\<forall>v. v \<noteq> w \<longrightarrow> \<not> (v \<in> lazies st \<and> rk v < rk w) \<longrightarrow> watchers st' v = watchers st v) \<and>
    w_newDepIds (watchers st' w) = {} \<and> w_value (watchers st' w) = w_value (watchers st w) \<and>
    w_dirty (watchers st' w) = w_dirty (watchers st w) \<and>
    (getter_value app rk (d_val st) w \<noteq> None \<longrightarrow> getter_deps app rk (d_val st) w \<subseteq> w_depIds (watchers st' w))"
proof -
  let ?V = "getter_value app rk (d_val st)" and ?D = "getter_deps app rk (d_val st)"
  note u = getter_value_unfold [OF ready_wf [OF st] w(1)]
  let ?st0 = "pushTarget (Some w) st"
  have p: "d_val ?st0 = d_val st" "watchers ?st0 = watchers st" "d_subs ?st0 = d_subs st" "queued ?st0 = queued st"
      "static_of ?st0 = static_of st" "target ?st0 = Some w" "lazies ?st0 = lazies st"
      "targetStack ?st0 = (case target st of None \<Rightarrow> targetStack st | Some x \<Rightarrow> x # targetStack st)"
    by (auto simp: pushTarget_def static_of_def lazies_def split: option.split)
  have r0: "ready app rk (rk w) ?st0"
    using st subscriptions.push_keeps [OF ready_subs [OF st], of "Some w"]
    by (simp add: ready_def cells_ok_def cell_ok_def target_ok_def p)
  obtain st1 where 1: "run_getter ev (a_getter app w) ?st0 = Some (?V w, st1)" "frame rk (rk w) ?st0 st1"
      "ready app rk (rk w) st1" "?V w \<noteq> None \<longrightarrow> ?D w \<subseteq> collected st1"
    using run_getter_step [OF ev r0, of "a_getter app w"] w(1) unfolding p(7) p(1) u [symmetric] by blast
  have user: "w_user (watchers st1 w) = w_user (watchers st w)"
    using 1(2) unfolding frame_def p(5) by (auto simp: static_of_def Let_def fun_eq_iff)
  let ?st2 = "if ?V w = None \<and> w_user (watchers st1 w) then st1\<lparr>handled := handled st1 @ [w]\<rparr> else st1"
  have 2: "frame rk (rk w) ?st0 ?st2" "ready app rk (rk w) ?st2" "collected ?st2 = collected st1"
    using 1(2,3) by (auto simp: frame_handled ready_handled collected_handled)
  define val where "val = (case ?V w of None \<Rightarrow> JUndef | Some v \<Rightarrow> v)"
  define st3 where "st3 = (if w_deep (watchers ?st2 w) then fold dep_depend (a_nested app val) ?st2 else ?st2)"
  have 3: "frame rk (rk w) ?st0 st3" "ready app rk (rk w) st3" "collected st1 \<subseteq> collected st3"
  proof -
    have "frame rk (rk w) ?st2 st3 \<and> ready app rk (rk w) st3"
      using depends_step [OF 2(2)] 2(2) by (auto simp: st3_def)
    then show "frame rk (rk w) ?st0 st3" "ready app rk (rk w) st3" "collected st1 \<subseteq> collected st3"
      using frame_trans [OF 2(1)] frame_collected [of rk "rk w" ?st2 st3] 2(2) unfolding 2(3) ready_def by blast+
  qed
  have L: "lazies st3 = lazies st" using frame_lazies [OF 3(1)] p(7) by simp
  have f: "d_val st3 = d_val st" "target st3 = Some w" "targetStack st3 = targetStack ?st0" "queued st3 = queued st"
      "static_of st3 = static_of st" "grown (watchers st w) (watchers st3 w)"
      "\<And>v. v \<noteq> w \<Longrightarrow> \<not> (v \<in> lazies st \<and> rk v < rk w) \<Longrightarrow> watchers st3 v = watchers st v"
    using 3(1) unfolding frame_def p by auto
  let ?st4 = "popTarget st3"
  have t4: "target ?st4 = target st \<and> targetStack ?st4 = targetStack st"
  proof (cases "target st")
    case None
    then have "targetStack st = []" using st by (simp add: ready_def target_ok_def)
    with None show ?thesis by (simp add: popTarget_def f(3) p(8))
  qed (simp add: popTarget_def f(3) p(8))
  have p4: "d_val ?st4 = d_val st3" "watchers ?st4 = watchers st3" "queued ?st4 = queued st3" "static_of ?st4 = static_of st3"
    by (auto simp: popTarget_def static_of_def split: list.split)
  let ?st5 = "cleanupDeps w ?st4"
  have g: "watcher_get app ev w st =
      Some (if ?V w = None \<and> \<not> w_user (watchers st w) then None else Some val, ?st5)"
    using 1(1) user by (simp add: watcher_get_def Let_def st3_def val_def)
  have s5: "static_of ?st5 = static_of st" using static.cleanup_keeps [of ?st4 "static_of st" w] p4(4) f(5) by simp
  have L5: "lazies ?st5 = lazies st3" by (rule static_lazies) (simp add: s5 f(5))
  have w5: "watchers ?st5 v = watchers st3 v" if "v \<noteq> w" for v using that by (simp add: cleanupDeps_eq p4)
  have "cells_ok app rk (rk w) ?st5"
  proof (rule cells_cong [OF _ L5])
    show "cells_ok app rk (rk w) st3" using 3(2) by (simp add: ready_def)
    show "d_val ?st5 = d_val st3" by (simp add: cleanupDeps_eq p4)
    show "watchers ?st5 c = watchers st3 c" if "rk c < rk w" for c using that by (intro w5) auto
  qed
  moreover have "subs_ok ?st5"
    by (rule cleanup_subs [OF subscriptions.pop_keeps [OF ready_subs [OF 3(2)]]])
  moreover have "?V w \<noteq> None \<longrightarrow> ?D w \<subseteq> w_depIds (watchers ?st5 w)"
    using 1(4) 3(3) f(2) by (auto simp: cleanupDeps_eq p4 collected_def)
  moreover have "d_val ?st5 = d_val st" "target ?st5 = target st" "targetStack ?st5 = targetStack st" "queued ?st5 = queued st"
    using t4 by (simp_all add: cleanupDeps_eq p4 f)
  moreover have "w_newDepIds (watchers ?st5 w) = {}" "w_value (watchers ?st5 w) = w_value (watchers st w)"
      "w_dirty (watchers ?st5 w) = w_dirty (watchers st w)"
    using f(6) by (simp_all add: cleanupDeps_eq p4 grown_def)
  moreover have "\<forall>v. v \<noteq> w \<longrightarrow> \<not> (v \<in> lazies st \<and> rk v < rk w) \<longrightarrow> watchers ?st5 v = watchers st v"
    using w5 f(7) by simp
  ultimately show ?thesis using g s5 unfolding val_def by blast
qed

lemma evaluate_ok: "r \<le> n \<Longrightarrow> ev_ok app rk r (evaluate app n)"
proof (induction n arbitrary: r)
  case (Suc n)
  show ?case unfolding ev_ok_def
  proof (intro allI impI)
    fix c st assume c: "c \<in> lazies st" "rk c < r" and dirty: "w_dirty (watchers st c)" and st: "ready app rk r st"
    let ?V = "getter_value app rk (d_val st) c"
    have ev: "ev_ok app rk (rk c) (evaluate app n)" using Suc.IH Suc.prems c(2) by simp
    have st': "ready app rk (rk c) st" using ready_mono [OF st] c(2) by simp
    have new: "w_newDepIds (watchers st c) = {}" using ready_cell [OF st c] by (simp add: cell_ok_def)
    have tc: "target st \<noteq> Some c" using st c by (auto simp: ready_def target_ok_def)
    obtain s1 where 1: "watcher_get app (evaluate app n) c st =
        Some (if ?V = None \<and> \<not> w_user (watchers st c) then None else Some (case ?V of None \<Rightarrow> JUndef | Some v \<Rightarrow> v), s1)"
      "d_val s1 = d_val st" "target s1 = target st" "targetStack s1 = targetStack st" "queued s1 = queued st"
      "static_of s1 = static_of st" "subs_ok s1" "cells_ok app rk (rk c) s1"
      "\<forall>v. v \<noteq> c \<longrightarrow> \<not> (v \<in> lazies st \<and> rk v < rk c) \<longrightarrow> watchers s1 v = watchers st v"
      "w_newDepIds (watchers s1 c) = {}" "w_dirty (watchers s1 c)"
      "?V \<noteq> None \<longrightarrow> getter_deps app rk (d_val st) c \<subseteq> w_depIds (watchers s1 c)"
      using get_step [OF ev st' bspec [OF ready_wf [OF st] c(1)] new] dirty by blast
    have L: "lazies s1 = lazies st" by (rule static_lazies [OF 1(6)])
    have cell1: "cell_ok app rk s1 e" if "e \<in> lazies st" "rk e < r" "e \<noteq> c" for e
    proof (cases "rk e < rk c")
      case True
      then show ?thesis using 1(8) that(1) by (simp add: cells_ok_def L)
    next
      case False
      then show ?thesis using ready_cell [OF st that(1,2)] 1(2,9) that(3) by (simp add: cell_ok_def)
    qed
    have user: "\<forall>e\<in>lazies st. \<not> w_user (watchers s1 e)" "\<not> w_user (watchers st c)"
      using st c by (simp_all add: ready_def static_flags(1) [OF 1(6)])
    have ok1: "target_ok rk r s1" "\<forall>e\<in>lazies st. wf_getter rk (lazies st) (rk e) (a_getter app e)"
      using st by (simp_all add: ready_def target_ok_def L 1(3,4))
    have fr: "frame rk r st s1"
      unfolding frame_def using 1(2-6,9) c by (auto simp: tc)
    show "\<exists>ok st'. evaluate app (Suc n) c st = Some (ok, st') \<and> frame rk r st st' \<and> ready app rk r st' \<and>
        (ok \<longleftrightarrow> ?V \<noteq> None) \<and> (ok \<longrightarrow> \<not> w_dirty (watchers st' c))"
    proof (cases ?V)
      case None
      have "cell_ok app rk s1 c" using 1(10,11) by (simp add: cell_ok_def)
      then have "cells_ok app rk r s1" using cell1 by (auto simp: cells_ok_def L)
      then have "ready app rk r s1" using 1(7) ok1 user by (simp add: ready_def L)
      then show ?thesis using 1(1) None fr user(2) by (intro exI [of _ False] exI [of _ s1]) (simp add: evaluate.simps)
    next
      case (Some v)
      let ?s2 = "set_watcher c (\<lambda>x. x\<lparr>w_value := v, w_dirty := False\<rparr>) s1"
      have s: "static_of ?s2 = static_of s1" using static.value_dirty_keeps by blast
      have L2: "lazies ?s2 = lazies st" using static_lazies [OF s] L by simp
      have "cell_ok app rk ?s2 e" if "e \<in> lazies st" "rk e < r" for e
      proof (cases "e = c")
        case True
        then show ?thesis using 1(2,10,12) Some by (simp add: cell_ok_def)
      next
        case False
        then show ?thesis using cell1 [OF that] by (simp add: cell_ok_def)
      qed
      then have "cells_ok app rk r ?s2" by (simp add: cells_ok_def L2)
      moreover have "subs_ok ?s2" by (rule subscriptions.value_dirty_keeps [OF 1(7)])
      ultimately have "ready app rk r ?s2" using ok1 user(1) by (simp add: ready_def target_ok_def L2 L static_flags(1) [OF s])
      moreover have "frame rk r st ?s2"
        using fr c unfolding frame_def by (simp add: s)
      ultimately show ?thesis using 1(1) Some by (intro exI [of _ True] exI [of _ ?s2]) (simp add: evaluate.simps)
    qed
  qed
qed (simp add: ev_ok_def)

section \<open>The machine\<close>

definition unqueue :: "nat \<Rightarrow> store \<Rightarrow> store" where
  "unqueue w st = st\<lparr>queued := filter (\<lambda>v. v \<noteq> w) (queued st)\<rparr>"

text \<open>
  What happens to the store between evaluations: the application writes a property or reads a
  computed one, a component makes its computed properties, a watcher (not a synchronous one) is
  made, run from the queue, or torn down.
\<close>

inductive react :: "app \<Rightarrow> (nat \<Rightarrow> nat) \<Rightarrow> store \<Rightarrow> store \<Rightarrow> bool" for app rk where
  Assign: "reactiveSetter (watcher_run app n) p st = Some (ok, st') \<Longrightarrow> react app rk st st'"
| Observe: "c \<in> lazies st \<Longrightarrow> rk c < n \<Longrightarrow> computedGetter (evaluate app n) c st = Some (r, st') \<Longrightarrow> react app rk st st'"
| Init: "\<forall>w\<in>{uid st<..uid st + m}. wf_getter rk (lazies st \<union> {uid st<..uid st + m}) (rk w) (a_getter app w) \<Longrightarrow>
    react app rk st (initComputed app m st)"
| Watch: "wf_getter rk (lazies st) (rk (uid st + 1)) (a_getter app (uid st + 1)) \<Longrightarrow> rk (uid st + 1) \<le> n \<Longrightarrow>
    Watcher app n (False, False, deep, user) st = Some (ok, st') \<Longrightarrow> react app rk st st'"
| Run: "w \<in> set (queued st) \<Longrightarrow> rk w < n \<Longrightarrow> watcher_run app n w (unqueue w st) = Some (ok, st') \<Longrightarrow> react app rk st st'"
| Teardown: "w \<notin> lazies st \<Longrightarrow> react app rk st (teardown w st)"

inductive reached :: "app \<Rightarrow> (nat \<Rightarrow> nat) \<Rightarrow> store \<Rightarrow> bool" for app rk where
  init: "reached app rk (store_init data)"
| step: "reached app rk st \<Longrightarrow> react app rk st st' \<Longrightarrow> reached app rk st'"

definition never_throws :: "app \<Rightarrow> (nat \<Rightarrow> nat) \<Rightarrow> nat \<Rightarrow> bool" where
  "never_throws app rk w \<longleftrightarrow> (\<forall>data. getter_value app rk data w \<noteq> None)"

definition up_to_date :: "app \<Rightarrow> (nat \<Rightarrow> nat) \<Rightarrow> store \<Rightarrow> nat \<Rightarrow> bool" where
  "up_to_date app rk st w \<longleftrightarrow>
     (\<exists>v. getter_value app rk (d_val st) w = Some v \<and>
          (w_value (watchers st w) = v \<or> strict_eq v (w_value (watchers st w))) \<and>
          getter_deps app rk (d_val st) w \<subseteq> w_depIds (watchers st w))"

text \<open>The invariant, but for the watchers in \<open>X\<close>, which are about to be run\<close>

definition quiet :: "store \<Rightarrow> bool" where
  "quiet st \<longleftrightarrow> target st = None \<and> targetStack st = [] \<and> (\<forall>w. w_newDepIds (watchers st w) = {})"

definition shape_ok :: "app \<Rightarrow> (nat \<Rightarrow> nat) \<Rightarrow> store \<Rightarrow> bool" where
  "shape_ok app rk st \<longleftrightarrow>
     (\<forall>w. \<not> w_sync (watchers st w)) \<and>
     (\<forall>c\<in>lazies st. w_active (watchers st c) \<and> \<not> w_user (watchers st c) \<and> wf_getter rk (lazies st) (rk c) (a_getter app c)) \<and>
     (\<forall>w. w_active (watchers st w) \<longrightarrow> wf_getter rk (lazies st) (rk w) (a_getter app w)) \<and>
     (\<forall>w. uid st < w \<longrightarrow> \<not> w_active (watchers st w) \<and> \<not> w_lazy (watchers st w) \<and> w_depIds (watchers st w) = {}) \<and>
     (\<forall>w\<in>set (queued st). w \<notin> lazies st \<and> w \<le> uid st)"

definition react_inv :: "app \<Rightarrow> (nat \<Rightarrow> nat) \<Rightarrow> nat set \<Rightarrow> store \<Rightarrow> bool" where
  "react_inv app rk X st \<longleftrightarrow>
     subs_ok st \<and> quiet st \<and> shape_ok app rk st \<and> (\<forall>c\<in>lazies st. cell_ok app rk st c) \<and>
     (\<forall>w. w_active (watchers st w) \<longrightarrow> w \<notin> lazies st \<longrightarrow> w \<notin> X \<longrightarrow> w \<notin> set (queued st) \<longrightarrow>
        never_throws app rk w \<longrightarrow> up_to_date app rk st w)"

lemma inv_ready: "react_inv app rk X st \<Longrightarrow> ready app rk r st"
  by (simp add: react_inv_def ready_def cells_ok_def target_ok_def quiet_def shape_ok_def)

lemma inv_wf: "react_inv app rk X st \<Longrightarrow> w_active (watchers st w) \<Longrightarrow> wf_getter rk (lazies st) (rk w) (a_getter app w)"
  by (simp add: react_inv_def shape_ok_def)

text \<open>A write: the subscribed computed properties become dirty, the other subscribers are queued.\<close>

definition marked :: "nat list \<Rightarrow> store \<Rightarrow> store" where
  "marked ws st =
     st\<lparr>watchers := (\<lambda>w. if w \<in> set ws \<and> w \<in> lazies st then (watchers st w)\<lparr>w_dirty := True\<rparr> else watchers st w),
        queued := queued st @ filter (\<lambda>w. w \<notin> lazies st) ws\<rparr>"

lemma notify_marked: "(\<forall>w. \<not> w_sync (watchers st w)) \<Longrightarrow> run_all (update run) ws st = Some (True, marked ws st)"
proof (induction ws arbitrary: st)
  case Nil
  then show ?case by (simp add: marked_def)
next
  case (Cons w ws)
  show ?case
  proof (cases "w \<in> lazies st")
    case True
    let ?st = "set_watcher w (\<lambda>x. x\<lparr>w_dirty := True\<rparr>) st"
    have L: "lazies ?st = lazies st" by (auto simp: lazies_def)
    have "run_all (update run) ws ?st = Some (True, marked ws ?st)" using Cons.prems by (intro Cons.IH) simp
    moreover have "marked ws ?st = marked (w # ws) st"
      using True by (intro store.equality) (auto simp: marked_def L fun_eq_iff)
    ultimately show ?thesis using True by (simp add: update_def [of run w st] lazies_def)
  next
    case False
    let ?st = "st\<lparr>queued := queued st @ [w]\<rparr>"
    have L: "lazies ?st = lazies st" by (simp add: lazies_def)
    have "run_all (update run) ws ?st = Some (True, marked ws ?st)" using Cons.prems by (intro Cons.IH) simp
    moreover have "marked ws ?st = marked (w # ws) st"
      using False by (auto simp: marked_def L fun_eq_iff)
    ultimately show ?thesis using False Cons.prems by (simp add: update_def [of run w st] lazies_def)
  qed
qed

lemma marked_simps [simp]:
  "d_subs (marked ws st) = d_subs st" "d_val (marked ws st) = d_val st" "target (marked ws st) = target st"
  "targetStack (marked ws st) = targetStack st" "uid (marked ws st) = uid st" "lazies (marked ws st) = lazies st"
  by (auto simp: marked_def lazies_def)

lemma marked_watcher:
  "w_depIds (watchers (marked ws st) w) = w_depIds (watchers st w)" "w_newDepIds (watchers (marked ws st) w) = w_newDepIds (watchers st w)"
  "w_value (watchers (marked ws st) w) = w_value (watchers st w)" "w_active (watchers (marked ws st) w) = w_active (watchers st w)"
  "w_user (watchers (marked ws st) w) = w_user (watchers st w)" "w_sync (watchers (marked ws st) w) = w_sync (watchers st w)"
  "w_deps (watchers (marked ws st) w) = w_deps (watchers st w)" "w_newDeps (watchers (marked ws st) w) = w_newDeps (watchers st w)"
  "w_lazy (watchers (marked ws st) w) = w_lazy (watchers st w)"
  "w_dirty (watchers (marked ws st) w) \<longleftrightarrow> w_dirty (watchers st w) \<or> (w \<in> set ws \<and> w \<in> lazies st)"
  by (auto simp: marked_def)

lemma subs_active: "subs_ok st \<Longrightarrow> w_active (watchers st w) \<Longrightarrow> d \<in> w_depIds (watchers st w) \<Longrightarrow> w \<in> set (d_subs st d)"
  using subs_okD(2) [of st w] by (auto simp: watcher_ok_def subscribed_def)

lemma write_inv:
  assumes inv: "react_inv app rk X st" and "reactiveSetter run (d, v) st = Some (ok, st')"
  shows "ok \<and> react_inv app rk X st'"
proof (cases "strict_eq v (d_val st d) \<or> (\<not> strict_eq v v \<and> \<not> strict_eq (d_val st d) (d_val st d))")
  case True
  with assms show ?thesis by (simp add: reactiveSetter_def)
next
  case False
  let ?s = "st\<lparr>d_val := (d_val st)(d := v)\<rparr>"
  let ?ws = "d_subs st d"
  have sh: "subs_ok st" "quiet st" "shape_ok app rk st" "\<forall>c\<in>lazies st. cell_ok app rk st c" using inv by (simp_all add: react_inv_def)
  have "\<forall>w. \<not> w_sync (watchers ?s w)" using sh(3) by (simp add: shape_ok_def)
  from notify_marked [OF this, of run ?ws] have st': "ok" "st' = marked ?ws ?s"
    using assms(2) False by (auto simp: reactiveSetter_def notify_def Let_def)
  have L: "lazies ?s = lazies st" by (simp add: lazies_def)
  have so: "subs_ok st'" unfolding st'(2)
    by (rule subs_ok_cong [OF _ _ sh(1)]) (simp_all add: marked_watcher)
  have local: "getter_value app rk (d_val st') w = getter_value app rk (d_val st) w \<and> getter_deps app rk (d_val st') w = getter_deps app rk (d_val st) w"
    if "w_active (watchers st w)" "w \<notin> set ?ws" "getter_deps app rk (d_val st) w \<subseteq> w_depIds (watchers st w)" for w
  proof -
    have "d \<notin> getter_deps app rk (d_val st) w" using subs_active [OF sh(1) that(1)] that(2,3) by blast
    moreover have "\<forall>c\<in>lazies st. wf_getter rk (lazies st) (rk c) (a_getter app c)" using sh(3) by (simp add: shape_ok_def)
    ultimately show ?thesis using value_local [OF _ inv_wf [OF inv that(1)]] by (simp add: st'(2))
  qed
  have "shape_ok app rk st'"
  proof -
    have "w \<le> uid st" if "w \<in> set ?ws" for w
    proof (rule ccontr)
      assume "\<not> w \<le> uid st"
      then have "w_depIds (watchers st w) = {}" "w_newDepIds (watchers st w) = {}"
        using sh(2,3) by (simp_all add: shape_ok_def quiet_def)
      with subs_okD(2) [OF sh(1), of w] that show False by (auto simp: watcher_ok_def subscribed_def)
    qed
    then show ?thesis using sh(3)
      by (auto simp: shape_ok_def st'(2) marked_watcher L) (auto simp: marked_def L)
  qed
  moreover have "quiet st'" using sh(2) by (simp add: quiet_def st'(2) marked_watcher)
  moreover have "cell_ok app rk st' c" if c: "c \<in> lazies st" for c
  proof (cases "w_dirty (watchers st' c)")
    case True
    then show ?thesis using sh(2) by (simp add: cell_ok_def st'(2) marked_watcher quiet_def)
  next
    case False
    then have n: "c \<notin> set ?ws" "\<not> w_dirty (watchers st c)" using c by (simp_all add: st'(2) marked_watcher L)
    moreover have "w_active (watchers st c)" using sh(3) c by (simp add: shape_ok_def)
    ultimately show ?thesis using sh(4) c local [of c]
      by (auto simp: cell_ok_def) (auto simp: st'(2) marked_watcher)
  qed
  moreover have "up_to_date app rk st' w"
    if w: "w_active (watchers st' w)" "w \<notin> lazies st'" "w \<notin> X" "w \<notin> set (queued st')" "never_throws app rk w" for w
  proof -
    have w': "w_active (watchers st w)" "w \<notin> lazies st" "w \<notin> set (queued st)" "w \<notin> set ?ws"
      using w by (auto simp: st'(2) marked_watcher L) (auto simp: marked_def L)
    then have "up_to_date app rk st w" using inv w(3,5) by (simp add: react_inv_def)
    then show ?thesis using local [OF w'(1,4)] unfolding up_to_date_def
      by (auto simp: st'(2) marked_watcher)
  qed
  ultimately show ?thesis using so st'(1) by (simp add: react_inv_def st'(2) L)
qed

lemma setter_total: "(\<forall>w. \<not> w_sync (watchers st w)) \<Longrightarrow> \<exists>st'. reactiveSetter run p st = Some (True, st')"
  by (auto simp: reactiveSetter_def notify_def Let_def notify_marked)

lemma inv_drop: "react_inv app rk X st \<Longrightarrow> X \<subseteq> lazies st \<Longrightarrow> react_inv app rk {} st"
  unfolding react_inv_def by blast

lemma writes_inv:
  "react_inv app rk X st \<Longrightarrow> run_all (reactiveSetter run) ps st = Some (ok, st') \<Longrightarrow> ok \<and> react_inv app rk X st'"
proof (induction ps arbitrary: st)
  case (Cons p ps)
  obtain b st1 where 1: "reactiveSetter run p st = Some (b, st1)" using Cons.prems(2) by (auto split: option.splits)
  then have "b \<and> react_inv app rk X st1" using write_inv [OF Cons.prems(1), of run "fst p" "snd p"] by simp
  then show ?case using Cons.IH [of st1] Cons.prems(2) 1 by simp
qed simp

text \<open>A read of a computed property\<close>

lemma frame_inv:
  assumes inv: "react_inv app rk X st" and f: "frame rk r st st'" and r: "ready app rk r st'" and "target st = None"
  shows "react_inv app rk X st'"
proof -
  have L: "lazies st' = lazies st" by (rule frame_lazies [OF f])
  have s: "static_of st' = static_of st" and d: "d_val st' = d_val st" "queued st' = queued st"
    and t: "target st' = None" "targetStack st' = targetStack st" using f assms(4) by (simp_all add: frame_def)
  have same: "watchers st' w = watchers st w" if "\<not> (w \<in> lazies st \<and> rk w < r)" for w
    using f that assms(4) by (simp add: frame_def)
  have small: "cell_ok app rk st' w" if "w \<in> lazies st" "rk w < r" for w using ready_cell [OF r] that L by simp
  have sh: "quiet st" "shape_ok app rk st" "\<forall>c\<in>lazies st. cell_ok app rk st c" using inv by (simp_all add: react_inv_def)
  have cell: "cell_ok app rk st' w" if "w \<in> lazies st" for w
  proof (cases "rk w < r")
    case False
    then show ?thesis using sh(3) same [of w] that by (simp add: cell_ok_def d)
  qed (rule small [OF that])
  have "quiet st'"
    unfolding quiet_def
  proof (intro conjI allI)
    show "w_newDepIds (watchers st' w) = {}" for w
      using sh(1) same [of w] cell [of w] by (cases "w \<in> lazies st") (auto simp: quiet_def cell_ok_def)
  qed (use sh(1) t in \<open>simp_all add: quiet_def\<close>)
  moreover have "shape_ok app rk st'"
    unfolding shape_ok_def L static_flags [OF s] d(2)
  proof (intro conjI)
    show "\<forall>w. uid st < w \<longrightarrow> \<not> w_active (watchers st w) \<and> \<not> w_lazy (watchers st w) \<and> w_depIds (watchers st' w) = {}"
      using sh(2) same by (auto simp: shape_ok_def lazies_def)
  qed (use sh(2) in \<open>simp_all add: shape_ok_def\<close>)
  moreover have "up_to_date app rk st' w"
    if "w_active (watchers st' w)" "w \<notin> lazies st'" "w \<notin> X" "w \<notin> set (queued st')" "never_throws app rk w" for w
  proof -
    have "up_to_date app rk st w" using inv that by (simp add: react_inv_def L static_flags [OF s] d(2))
    then show ?thesis using same [of w] that(2) by (simp add: up_to_date_def d(1) L)
  qed
  ultimately show ?thesis using ready_subs [OF r] cell by (simp add: react_inv_def L)
qed

lemma observe:
  assumes inv: "react_inv app rk X st" and c: "c \<in> lazies st" "rk c < n"
  shows "\<exists>st'. computedGetter (evaluate app n) c st = Some (getter_value app rk (d_val st) c, st') \<and>
    d_val st' = d_val st \<and> react_inv app rk X st'"
proof -
  have t: "target st = None" using inv by (simp add: react_inv_def quiet_def)
  obtain st' where "computedGetter (evaluate app n) c st = Some (getter_value app rk (d_val st) c, st')"
      "frame rk n st st'" "ready app rk n st'"
    using computed_step [OF evaluate_ok [OF order_refl] c inv_ready [OF inv]] by blast
  then show ?thesis using frame_inv [OF inv _ _ t] by (auto simp: frame_def)
qed

text \<open>An evaluation of a watcher that is not a computed property\<close>

lemma get_inv:
  assumes inv: "react_inv app rk X st" and w: "w \<notin> lazies st" "w_active (watchers st w)" and n: "rk w \<le> n"
  shows "\<exists>st'. watcher_get app (evaluate app n) w st =
      Some (if getter_value app rk (d_val st) w = None \<and> \<not> w_user (watchers st w) then None
            else Some (case getter_value app rk (d_val st) w of None \<Rightarrow> JUndef | Some v \<Rightarrow> v), st') \<and>
    react_inv app rk (insert w X) st' \<and> static_of st' = static_of st \<and> queued st' = queued st \<and> d_val st' = d_val st \<and>
    w_value (watchers st' w) = w_value (watchers st w) \<and>
    (getter_value app rk (d_val st) w \<noteq> None \<longrightarrow> getter_deps app rk (d_val st) w \<subseteq> w_depIds (watchers st' w))"
proof -
  let ?V = "getter_value app rk (d_val st) w"
  have sh: "quiet st" "shape_ok app rk st" "\<forall>c\<in>lazies st. cell_ok app rk st c" using inv by (simp_all add: react_inv_def)
  have new: "w_newDepIds (watchers st w) = {}" using sh(1) by (simp add: quiet_def)
  obtain s1 where 1: "watcher_get app (evaluate app n) w st =
      Some (if ?V = None \<and> \<not> w_user (watchers st w) then None else Some (case ?V of None \<Rightarrow> JUndef | Some v \<Rightarrow> v), s1)"
    "d_val s1 = d_val st" "target s1 = target st" "targetStack s1 = targetStack st" "queued s1 = queued st"
    "static_of s1 = static_of st" "subs_ok s1" "cells_ok app rk (rk w) s1"
    "\<forall>v. v \<noteq> w \<longrightarrow> \<not> (v \<in> lazies st \<and> rk v < rk w) \<longrightarrow> watchers s1 v = watchers st v"
    "w_newDepIds (watchers s1 w) = {}" "w_value (watchers s1 w) = w_value (watchers st w)"
    "?V \<noteq> None \<longrightarrow> getter_deps app rk (d_val st) w \<subseteq> w_depIds (watchers s1 w)"
    using get_step [OF evaluate_ok [OF n] inv_ready [OF inv] inv_wf [OF inv w(2)] new] by blast
  have L: "lazies s1 = lazies st" by (rule static_lazies [OF 1(6)])
  have cell: "cell_ok app rk s1 c" if "c \<in> lazies st" for c
  proof (cases "rk c < rk w")
    case True
    then show ?thesis using 1(8) that by (simp add: cells_ok_def L)
  next
    case False
    moreover have "c \<noteq> w" using that w(1) by auto
    ultimately have "watchers s1 c = watchers st c" using 1(9) by simp
    then show ?thesis using sh(3) that 1(2) by (simp add: cell_ok_def)
  qed
  have "quiet s1"
    unfolding quiet_def
  proof (intro conjI allI)
    fix v
    consider "v = w" | "v \<in> lazies st" | "v \<noteq> w" "v \<notin> lazies st" by blast
    then show "w_newDepIds (watchers s1 v) = {}"
      using 1(9,10) cell [of v] sh(1) by cases (auto simp: cell_ok_def quiet_def)
  qed (use sh(1) 1(3,4) in \<open>simp_all add: quiet_def\<close>)
  moreover have "shape_ok app rk s1"
    unfolding shape_ok_def L static_flags [OF 1(6)] 1(5)
  proof (intro conjI)
    show "\<forall>v. uid st < v \<longrightarrow> \<not> w_active (watchers st v) \<and> \<not> w_lazy (watchers st v) \<and> w_depIds (watchers s1 v) = {}"
      using sh(2) 1(9) w(2) by (auto simp: shape_ok_def lazies_def)
  qed (use sh(2) in \<open>simp_all add: shape_ok_def\<close>)
  moreover have "up_to_date app rk s1 v"
    if "w_active (watchers s1 v)" "v \<notin> lazies s1" "v \<notin> insert w X" "v \<notin> set (queued s1)" "never_throws app rk v" for v
  proof -
    have "up_to_date app rk st v" using inv that by (simp add: react_inv_def L static_flags [OF 1(6)] 1(5))
    then show ?thesis using 1(2,9) that(2,3) by (simp add: up_to_date_def L)
  qed
  ultimately have "react_inv app rk (insert w X) s1" using cell 1(7) by (simp add: react_inv_def L)
  with 1 show ?thesis by blast
qed

text \<open>Once its value is assigned, the watcher is up to date.\<close>

lemma value_inv:
  assumes inv: "react_inv app rk (insert w X) st" and w: "w \<notin> lazies st"
    and v: "never_throws app rk w \<Longrightarrow> getter_value app rk (d_val st) w = Some v \<and> getter_deps app rk (d_val st) w \<subseteq> w_depIds (watchers st w)"
    and u: "u = v \<or> strict_eq v u"
  shows "react_inv app rk X (set_watcher w (\<lambda>x. x\<lparr>w_value := u\<rparr>) st)"
proof -
  let ?s = "set_watcher w (\<lambda>x. x\<lparr>w_value := u\<rparr>) st"
  have s: "static_of ?s = static_of st" using static.value_keeps by blast
  have L: "lazies ?s = lazies st" by (rule static_lazies [OF s])
  have sh: "subs_ok st" "quiet st" "shape_ok app rk st" "\<forall>c\<in>lazies st. cell_ok app rk st c" using inv by (simp_all add: react_inv_def)
  have "shape_ok app rk ?s"
    using sh(3) unfolding shape_ok_def L static_flags [OF s] by auto
  moreover have "quiet ?s" using sh(2) by (auto simp: quiet_def)
  moreover have "\<forall>c\<in>lazies ?s. cell_ok app rk ?s c" unfolding L using sh(4) w by (auto simp: cell_ok_def)
  moreover have "up_to_date app rk ?s x"
    if x: "w_active (watchers ?s x)" "x \<notin> lazies ?s" "x \<notin> X" "x \<notin> set (queued ?s)" "never_throws app rk x" for x
  proof (cases "x = w")
    case True
    with v u x(5) show ?thesis by (auto simp: up_to_date_def)
  next
    case False
    then have "up_to_date app rk st x" using inv x unfolding react_inv_def L by simp
    with False show ?thesis by (simp add: up_to_date_def)
  qed
  ultimately show ?thesis using subscriptions.value_keeps [OF sh(1)] by (simp add: react_inv_def)
qed

lemma set_value_id: "set_watcher w (\<lambda>x. x\<lparr>w_value := w_value (watchers st w)\<rparr>) st = st"
  by (simp add: set_watcher_def)

lemma handled_inv: "react_inv app rk X (st\<lparr>handled := h\<rparr>) = react_inv app rk X st"
proof -
  have "subs_ok (st\<lparr>handled := h\<rparr>) = subs_ok st" by (simp add: subs_ok_def subscribed_def)
  then show ?thesis
    by (simp add: react_inv_def quiet_def shape_ok_def cell_ok_def up_to_date_def lazies_def)
qed

text \<open>A run of a watcher from the queue, callback included\<close>

lemma run_inv:
  assumes inv: "react_inv app rk (insert w X) st" and w: "w \<notin> lazies st" and n: "rk w < n"
  shows "\<exists>ok st'. watcher_run app n w st = Some (ok, st') \<and>
    react_inv app rk (if getter_value app rk (d_val st) w = None then insert w X else X) st'"
proof -
  obtain m where m: "n = Suc m" "rk w \<le> m" using n by (cases n) auto
  let ?V = "getter_value app rk (d_val st) w"
  show ?thesis
  proof (cases "w_active (watchers st w)")
    case False
    have "react_inv app rk X st" using inv False unfolding react_inv_def by blast
    moreover have "react_inv app rk (insert w X) st" by (rule inv)
    ultimately show ?thesis using False m by (intro exI [of _ True] exI [of _ st]) (simp add: watcher_run.simps)
  next
    case True
    obtain s1 where 1: "watcher_get app (evaluate app m) w st =
        Some (if ?V = None \<and> \<not> w_user (watchers st w) then None else Some (case ?V of None \<Rightarrow> JUndef | Some v \<Rightarrow> v), s1)"
      "react_inv app rk (insert w X) s1" "static_of s1 = static_of st" "d_val s1 = d_val st"
      "?V \<noteq> None \<longrightarrow> getter_deps app rk (d_val st) w \<subseteq> w_depIds (watchers s1 w)"
      using get_inv [OF inv w True m(2)] unfolding insert_absorb2 by blast
    have w1: "w \<notin> lazies s1" using w static_lazies [OF 1(3)] by simp
    let ?v = "case ?V of None \<Rightarrow> JUndef | Some v \<Rightarrow> v"
    let ?X = "if ?V = None then insert w X else X"
    show ?thesis
    proof (cases "?V = None \<and> \<not> w_user (watchers st w)")
      case True
      then show ?thesis using 1(1,2) m(1) \<open>w_active (watchers st w)\<close> by (auto simp: watcher_run.simps)
    next
      case False
      have g: "watcher_get app (evaluate app m) w st = Some (Some ?v, s1)" using 1(1) False by simp
      have val: "react_inv app rk ?X (set_watcher w (\<lambda>x. x\<lparr>w_value := u\<rparr>) s1)" if u: "u = ?v \<or> strict_eq ?v u" for u
      proof (rule value_inv [OF _ w1 _ u])
        show "react_inv app rk (insert w ?X) s1" using 1(2) by simp
        show "getter_value app rk (d_val s1) w = Some ?v \<and> getter_deps app rk (d_val s1) w \<subseteq> w_depIds (watchers s1 w)" if "never_throws app rk w"
        proof -
          have "?V \<noteq> None" using that by (simp add: never_throws_def)
          then show ?thesis using 1(4,5) by auto
        qed
      qed
      let ?old = "w_value (watchers s1 w)"
      show ?thesis
      proof (cases "\<not> strict_eq ?v ?old \<or> isObject ?v \<or> w_deep (watchers s1 w)")
        case True
        let ?s2 = "set_watcher w (\<lambda>x. x\<lparr>w_value := ?v\<rparr>) s1"
        have "\<exists>st'. run_all (reactiveSetter (watcher_run app m)) ps s = Some (True, st')"
          if "react_inv app rk ?X s" for ps s using that
        proof (induction ps arbitrary: s)
          case (Cons p ps)
          have "\<forall>w. \<not> w_sync (watchers s w)" using Cons.prems by (simp add: react_inv_def shape_ok_def)
          then obtain s' where s': "reactiveSetter (watcher_run app m) (fst p, snd p) s = Some (True, s')"
            using setter_total by blast
          then have "react_inv app rk ?X s'" using write_inv [OF Cons.prems] by blast
          then show ?case using Cons.IH [of s'] s' by simp
        qed simp
        then obtain s3 where s3: "run_all (reactiveSetter (watcher_run app m)) (a_writes app w ?v ?old) ?s2 = Some (True, s3)"
          using val [of ?v] by blast
        then have "react_inv app rk ?X s3" using writes_inv [OF val [of ?v]] by blast
        then show ?thesis using g True s3 m(1) \<open>w_active (watchers st w)\<close>
          by (auto simp: watcher_run.simps Let_def handled_inv)
      next
        case False
        then have "react_inv app rk ?X s1" using val [of ?old] by (simp add: set_value_id)
        then show ?thesis using g False m(1) \<open>w_active (watchers st w)\<close> by (auto simp: watcher_run.simps Let_def)
      qed
    qed
  qed
qed

text \<open>New watchers: a computed property is made dirty and subscribes to nothing.\<close>

definition with_new :: "nat set \<Rightarrow> watcher \<Rightarrow> nat \<Rightarrow> store \<Rightarrow> store" where
  "with_new N x u st = st\<lparr>uid := u, watchers := (\<lambda>w. if w \<in> N then x else watchers st w)\<rparr>"

lemma initComputed_eq:
  "initComputed app m st = with_new {uid st<..uid st + m} (new_watcher (True, False, False, False)) (uid st + m) st"
proof (induction m)
  case 0
  show ?case by (simp add: initComputed_def with_new_def)
next
  case (Suc m)
  let ?s = "initComputed app m st"
  have "initComputed app (Suc m) st = set_watcher (uid ?s + 1) (\<lambda>_. new_watcher (True, False, False, False)) (?s\<lparr>uid := uid ?s + 1\<rparr>)"
    by (simp add: initComputed_def Watcher_def Let_def)
  also have "\<dots> = with_new {uid st<..uid st + Suc m} (new_watcher (True, False, False, False)) (uid st + Suc m) st"
    unfolding Suc.IH by (intro store.equality) (auto simp: with_new_def fun_eq_iff)
  finally show ?case .
qed

lemma fresh_unsubscribed:
  assumes "react_inv app rk X st" "uid st < w"
  shows "subscribed st w = {}"
proof -
  have "w_depIds (watchers st w) = {}" "w_newDepIds (watchers st w) = {}"
    using assms by (simp_all add: react_inv_def shape_ok_def quiet_def)
  then show ?thesis using assms(1) subs_okD(2) [of st w] by (simp add: react_inv_def watcher_ok_def)
qed

lemma with_new_inv:
  assumes inv: "react_inv app rk X st" and N: "\<forall>w\<in>N. uid st < w \<and> w \<le> u" "uid st \<le> u" and x: "x = new_watcher (l, False, deep, user)"
    and wf: "\<forall>w\<in>N. wf_getter rk (lazies st \<union> (if l then N else {})) (rk w) (a_getter app w)" "l \<longrightarrow> \<not> user"
  shows "react_inv app rk (X \<union> N) (with_new N x u st)"
proof -
  let ?s = "with_new N x u st"
  have sh: "subs_ok st" "quiet st" "shape_ok app rk st" "\<forall>c\<in>lazies st. cell_ok app rk st c" using inv by (simp_all add: react_inv_def)
  have N0: "w \<notin> lazies st" if "w \<in> N" for w using N(1) that sh(3) by (auto simp: shape_ok_def lazies_def)
  have ws: "watchers ?s w = (if w \<in> N then x else watchers st w)" for w by (simp add: with_new_def)
  have fs: "d_subs ?s = d_subs st" "d_val ?s = d_val st" "queued ?s = queued st" "uid ?s = u" "target ?s = target st"
      "targetStack ?s = targetStack st" by (simp_all add: with_new_def)
  have x': "w_lazy x = l" "\<not> w_sync x" "w_active x" "w_dirty x = l" "w_user x = user" "w_depIds x = {}" "w_newDepIds x = {}"
      "w_deps x = []" "w_newDeps x = []" by (simp_all add: x new_watcher_def)
  have L: "lazies ?s = lazies st \<union> (if l then N else {})" using N0 by (auto simp: lazies_def ws x')
  have so: "subs_ok ?s"
  proof (rule subs_okI)
    show "distinct (d_subs ?s d)" for d using subs_okD(1) [OF sh(1)] by (simp add: fs)
    show "watcher_ok (watchers ?s w) (subscribed ?s w)" for w
    proof (cases "w \<in> N")
      case True
      then have "subscribed ?s w = {}" using fresh_unsubscribed [OF inv, of w] N(1) by (simp add: subscribed_def fs)
      with True show ?thesis by (simp add: watcher_ok_def ws x')
    next
      case False
      then show ?thesis using subs_okD(2) [OF sh(1), of w] by (simp add: ws subscribed_def fs)
    qed
  qed
  have "quiet ?s" using sh(2) by (auto simp: quiet_def fs ws x')
  moreover have "shape_ok app rk ?s"
    unfolding shape_ok_def L fs
  proof (intro conjI ballI allI impI)
    fix c assume "c \<in> lazies st \<union> (if l then N else {})"
    then show "w_active (watchers ?s c)" "\<not> w_user (watchers ?s c)"
        "wf_getter rk (lazies st \<union> (if l then N else {})) (rk c) (a_getter app c)"
      using sh(3) wf N0 by (auto simp: shape_ok_def ws x' split: if_splits intro: wf_getter_mono)
  next
    fix w assume "w_active (watchers ?s w)"
    then show "wf_getter rk (lazies st \<union> (if l then N else {})) (rk w) (a_getter app w)"
      using sh(3) wf by (cases "w \<in> N") (auto simp: shape_ok_def ws intro: wf_getter_mono)
  next
    fix w assume "u < w"
    then have "uid st < w" "w \<notin> N" using N by auto
    then show "\<not> w_active (watchers ?s w)" "\<not> w_lazy (watchers ?s w)" "w_depIds (watchers ?s w) = {}"
      using sh(3) by (simp_all add: shape_ok_def ws)
  next
    fix w assume "w \<in> set (queued st)"
    then have q: "w \<notin> lazies st" "w \<le> uid st" using sh(3) by (simp_all add: shape_ok_def)
    then show "w \<notin> lazies st \<union> (if l then N else {})" "w \<le> u" using N by auto
  qed (use sh(3) in \<open>auto simp: shape_ok_def ws x'\<close>)
  moreover have "\<forall>c\<in>lazies ?s. cell_ok app rk ?s c"
    unfolding L using sh(4) N0 by (auto simp: cell_ok_def ws fs x' split: if_splits)
  moreover have "up_to_date app rk ?s w"
    if "w_active (watchers ?s w)" "w \<notin> lazies ?s" "w \<notin> X \<union> N" "w \<notin> set (queued ?s)" "never_throws app rk w" for w
  proof -
    have "up_to_date app rk st w" using inv that by (simp add: react_inv_def ws fs L)
    then show ?thesis using that(3) by (simp add: up_to_date_def ws fs)
  qed
  ultimately show ?thesis using so by (simp add: react_inv_def)
qed

lemma watch_inv:
  assumes inv: "react_inv app rk {} st" and wf: "wf_getter rk (lazies st) (rk (uid st + 1)) (a_getter app (uid st + 1))"
    and n: "rk (uid st + 1) \<le> n" and W: "Watcher app n (False, False, deep, user) st = Some (ok, st')"
  shows "react_inv app rk {} st'"
proof -
  let ?w = "uid st + 1"
  let ?s = "with_new {?w} (new_watcher (False, False, deep, user)) ?w st"
  have s: "set_watcher ?w (\<lambda>_. new_watcher (False, False, deep, user)) (st\<lparr>uid := ?w\<rparr>) = ?s"
    by (intro store.equality) (auto simp: with_new_def fun_eq_iff)
  have i: "react_inv app rk {?w} ?s"
    using with_new_inv [OF inv, of "{?w}" ?w "new_watcher (False, False, deep, user)" False deep user] wf by simp
  have w: "?w \<notin> lazies ?s" "w_active (watchers ?s ?w)" by (simp_all add: lazies_def with_new_def new_watcher_def)
  let ?V = "getter_value app rk (d_val ?s) ?w"
  obtain s1 where 1: "watcher_get app (evaluate app n) ?w ?s =
      Some (if ?V = None \<and> \<not> w_user (watchers ?s ?w) then None else Some (case ?V of None \<Rightarrow> JUndef | Some v \<Rightarrow> v), s1)"
    "react_inv app rk {?w} s1" "static_of s1 = static_of ?s" "d_val s1 = d_val ?s"
    "?V \<noteq> None \<longrightarrow> getter_deps app rk (d_val ?s) ?w \<subseteq> w_depIds (watchers s1 ?w)"
    using get_inv [OF i w n] by auto
  have w1: "?w \<notin> lazies s1" using w(1) static_lazies [OF 1(3)] by simp
  have e: "Watcher app n (False, False, deep, user) st =
      (case watcher_get app (evaluate app n) ?w ?s of
         None \<Rightarrow> None
       | Some (None, st2) \<Rightarrow> Some (False, st2)
       | Some (Some v, st2) \<Rightarrow> Some (True, set_watcher ?w (\<lambda>x. x\<lparr>w_value := v\<rparr>) st2))"
    unfolding Watcher_def Let_def fst_conv if_False s by (rule refl)
  show ?thesis
  proof (cases "?V = None \<and> \<not> w_user (watchers ?s ?w)")
    case True
    then have st': "st' = s1" using W unfolding e 1(1) by simp
    have "\<not> never_throws app rk ?w" using True by (auto simp: never_throws_def)
    then show ?thesis using 1(2) unfolding st' react_inv_def by blast
  next
    case False
    let ?v = "case ?V of None \<Rightarrow> JUndef | Some v \<Rightarrow> v"
    have st': "st' = set_watcher ?w (\<lambda>x. x\<lparr>w_value := ?v\<rparr>) s1"
      using W unfolding e 1(1) if_not_P [OF False] by simp
    show ?thesis unfolding st'
    proof (rule value_inv [OF 1(2) w1])
      show "getter_value app rk (d_val s1) ?w = Some ?v \<and> getter_deps app rk (d_val s1) ?w \<subseteq> w_depIds (watchers s1 ?w)"
        if "never_throws app rk ?w"
      proof -
        have "?V \<noteq> None" using that by (simp add: never_throws_def)
        then show ?thesis using 1(4,5) by auto
      qed
    qed simp
  qed
qed

lemma teardown_inv:
  assumes inv: "react_inv app rk {} st" and w: "w \<notin> lazies st"
  shows "react_inv app rk {} (teardown w st)"
proof (cases "w_active (watchers st w)")
  case True
  let ?s = "teardown w st"
  have sh: "subs_ok st" "quiet st" "shape_ok app rk st" "\<forall>c\<in>lazies st. cell_ok app rk st c" using inv by (simp_all add: react_inv_def)
  have ws: "watchers ?s = (watchers st)(w := (watchers st w)\<lparr>w_active := False\<rparr>)" using True by (simp add: teardown_eq)
  have fs: "d_val ?s = d_val st" "queued ?s = queued st" "uid ?s = uid st" "target ?s = target st" "targetStack ?s = targetStack st"
    using True by (simp_all add: teardown_eq)
  have L: "lazies ?s = lazies st" by (auto simp: lazies_def ws)
  have "quiet ?s" using sh(2) by (auto simp: quiet_def fs ws)
  moreover have "shape_ok app rk ?s" using sh(3) w unfolding shape_ok_def L fs ws by auto
  moreover have "\<forall>c\<in>lazies ?s. cell_ok app rk ?s c" unfolding L using sh(4) w by (auto simp: cell_ok_def ws fs)
  moreover have "up_to_date app rk ?s v"
    if "w_active (watchers ?s v)" "v \<notin> lazies ?s" "v \<notin> set (queued ?s)" "never_throws app rk v" for v
  proof -
    have v: "v \<noteq> w" using that(1) by (auto simp: ws)
    then have "up_to_date app rk st v" using inv that by (simp add: react_inv_def ws fs L)
    then show ?thesis using v by (simp add: up_to_date_def ws fs)
  qed
  ultimately show ?thesis using teardown_subs [OF sh(1)] by (simp add: react_inv_def)
next
  case False
  then have "teardown w st = st" by (simp add: teardown_eq)
  with inv show ?thesis by simp
qed

lemma unqueue_inv: "react_inv app rk {} st \<Longrightarrow> react_inv app rk {w} (unqueue w st)"
proof -
  assume inv: "react_inv app rk {} st"
  then have "subs_ok (unqueue w st)" using subscriptions.queued_keeps by (simp add: unqueue_def react_inv_def)
  moreover have "lazies (unqueue w st) = lazies st" by (simp add: unqueue_def lazies_def)
  ultimately show "react_inv app rk {w} (unqueue w st)"
    using inv by (simp add: react_inv_def quiet_def shape_ok_def cell_ok_def up_to_date_def) (simp add: unqueue_def)
qed

lemma react_step_inv: "react app rk st st' \<Longrightarrow> react_inv app rk {} st \<Longrightarrow> react_inv app rk {} st'"
proof (induction rule: react.induct)
  case (Assign n p st ok st')
  then show ?case using write_inv [of app rk "{}" st _ "fst p" "snd p"] by simp
next
  case (Observe c st n r st')
  then show ?case using observe [OF Observe.prems Observe.hyps(1,2)] by auto
next
  case (Init st m)
  have "react_inv app rk ({} \<union> {uid st<..uid st + m}) (initComputed app m st)"
    unfolding initComputed_eq
    by (rule with_new_inv [OF Init.prems, where l = True and deep = False and user = False]) (use Init.hyps in auto)
  moreover have "{uid st<..uid st + m} \<subseteq> lazies (initComputed app m st)"
    by (auto simp: initComputed_eq with_new_def lazies_def new_watcher_def)
  ultimately show ?case by (intro inv_drop) auto
next
  case (Watch st n deep user ok st')
  then show ?case using watch_inv by blast
next
  case (Run w st n ok st')
  have "w \<notin> lazies (unqueue w st)"
    using Run.prems Run.hyps(1) by (simp add: react_inv_def shape_ok_def unqueue_def lazies_def)
  then have "react_inv app rk (if getter_value app rk (d_val (unqueue w st)) w = None then {w} else {}) st'"
    using run_inv [where X = "{}", OF unqueue_inv [OF Run.prems] _ Run.hyps(2)] Run.hyps(3) by auto
  moreover have "react_inv app rk {w} s \<Longrightarrow> \<not> never_throws app rk w \<Longrightarrow> react_inv app rk {} s" for s
    unfolding react_inv_def by blast
  ultimately show ?case by (auto simp: never_throws_def split: if_splits)
next
  case (Teardown w st)
  then show ?case by (intro teardown_inv)
qed

lemma reached_inv: "reached app rk st \<Longrightarrow> react_inv app rk {} st"
proof (induction rule: reached.induct)
  case (init data)
  have "watcher_ok (watchers (store_init data) w) (subscribed (store_init data) w)" for w
    by (simp add: watcher_ok_def subscribed_def store_init_def new_watcher_def)
  then have "subs_ok (store_init data)" by (intro subs_okI) (simp_all add: store_init_def)
  then show ?case
    by (simp add: react_inv_def quiet_def shape_ok_def lazies_def) (simp add: store_init_def new_watcher_def)
qed (rule react_step_inv)

section \<open>Properties\<close>





end
