(* ===== verification/Reactivity.thy ===== *)
theory Reactivity
  imports ReactiveSound Scheduler
begin

text \<open>
  The scheduler running the watchers of the store: the composition of \<open>Scheduler\<close> with \<open>Reactive\<close>. A flush
  brings every watcher up to date, and, where tracking is interrupted or bypassed, what goes wrong:
  an untracked part that evaluates a computed property, and a synchronous watcher.
\<close>

section \<open>The flush of a store\<close>

text \<open>What running a watcher does for the scheduler: the watchers it queues, or an exception\<close>

definition runner :: "app \<Rightarrow> nat \<Rightarrow> store runner" where
  "runner app n w st =
     (case watcher_run app n w (st\<lparr>queued := []\<rparr>) of
        Some (True, st') \<Rightarrow> Some (queued st', st')
      | _ \<Rightarrow> None)"

text \<open>The calls of \<open>queueWatcher\<close> the store has recorded so far\<close>

definition schedule :: "store \<Rightarrow> sched" where
  "schedule st = fold queueWatcher (queued st) sched_init"

text \<open>A run whose callback writes nothing\<close>

lemma run_quiet:
  assumes inv: "react_inv app rk (insert w X) st" and w: "w \<notin> lazies st" and n: "rk w < n"
    and cb: "\<And>v u. a_writes app w v u = [] \<and> \<not> a_throws app w v u" and V: "getter_value app rk (d_val st) w \<noteq> None"
  shows "\<exists>st'. watcher_run app n w st = Some (True, st') \<and> react_inv app rk X st' \<and> queued st' = queued st \<and>
    d_val st' = d_val st \<and> static_of st' = static_of st"
proof -
  obtain m where m: "n = Suc m" "rk w \<le> m" using n by (cases n) auto
  obtain v where v: "getter_value app rk (d_val st) w = Some v" using V by blast
  show ?thesis
  proof (cases "w_active (watchers st w)")
    case False
    have "react_inv app rk X st" using inv False unfolding react_inv_def by blast
    then show ?thesis using False m by (intro exI [of _ st]) (simp add: watcher_run.simps)
  next
    case True
    obtain s1 where 1: "watcher_get app (evaluate app m) w st = Some (Some v, s1)"
      "react_inv app rk (insert w X) s1" "static_of s1 = static_of st" "queued s1 = queued st" "d_val s1 = d_val st"
      "getter_deps app rk (d_val st) w \<subseteq> w_depIds (watchers s1 w)"
      using get_inv [OF inv w True m(2)] v unfolding insert_absorb2 by auto
    have w1: "w \<notin> lazies s1" using w static_lazies [OF 1(3)] by simp
    have val: "react_inv app rk X (set_watcher w (\<lambda>x. x\<lparr>w_value := u\<rparr>) s1)" if "u = v \<or> strict_eq v u" for u
      by (rule value_inv [OF 1(2) w1 _ that]) (simp add: 1(5,6) v)
    have s: "static_of (set_watcher w (\<lambda>x. x\<lparr>w_value := u\<rparr>) s1) = static_of st" for u
      using static.value_keeps [OF 1(3)] .
    show ?thesis
    proof (cases "\<not> strict_eq v (w_value (watchers s1 w)) \<or> isObject v \<or> w_deep (watchers s1 w)")
      case True
      then show ?thesis using 1(1,4,5) \<open>w_active (watchers st w)\<close> m(1) cb val [of v] s [of v]
        by (intro exI [of _ "set_watcher w (\<lambda>x. x\<lparr>w_value := v\<rparr>) s1"]) (auto simp: watcher_run.simps Let_def)
    next
      case False
      then show ?thesis using 1 \<open>w_active (watchers st w)\<close> m(1) val [of "w_value (watchers s1 w)"]
        by (intro exI [of _ s1]) (simp add: watcher_run.simps set_value_id)
    qed
  qed
qed

lemma queued_inv:
  "react_inv app rk X st \<Longrightarrow> set (queued st) \<subseteq> Y \<Longrightarrow> X \<subseteq> Y \<Longrightarrow> react_inv app rk Y (st\<lparr>queued := []\<rparr>)"
  using subscriptions.queued_keeps [of st "[]"]
  by (auto simp: react_inv_def quiet_def shape_ok_def cell_ok_def up_to_date_def lazies_def)

lemma flush_current_loop:
  assumes cb: "\<And>w v u. a_writes app w v u = [] \<and> \<not> a_throws app w v u" and V: "\<And>w. never_throws app rk w" and n: "\<And>w. rk w < n"
  shows "sched_inv (Between, sc) \<Longrightarrow> react_inv app rk (set (pending Between sc)) st \<Longrightarrow> queued st = [] \<Longrightarrow>
    \<forall>w\<in>set (pending Between sc). w \<notin> lazies st \<Longrightarrow> length (pending Between sc) \<le> m \<Longrightarrow>
    \<exists>trace' sc' st'. flush_loop (runner app n) m trace sc st = Finished trace' False sc' st' \<and> react_inv app rk {} st' \<and>
      queued st' = [] \<and> d_val st' = d_val st \<and> static_of st' = static_of st"
proof (induction m arbitrary: trace sc st)
  case 0
  then show ?case by (simp add: flush_done)
next
  case (Suc m)
  show ?case
  proof (cases "pending Between sc")
    case Nil
    then show ?thesis using Suc.prems by (simp add: flush_done)
  next
    case (Cons w P)
    have i: "react_inv app rk (insert w (set P)) st" using Suc.prems(2) Cons by simp
    have w: "w \<notin> lazies st" using Suc.prems(4) Cons by simp
    obtain st1 where 1: "watcher_run app n w st = Some (True, st1)" "react_inv app rk (set P) st1" "queued st1 = queued st"
        "d_val st1 = d_val st" "static_of st1 = static_of st"
      using run_quiet [OF i w n cb] V [of w] unfolding never_throws_def by blast
    have q: "st\<lparr>queued := []\<rparr> = st" using Suc.prems(3) by (intro store.equality) simp_all
    have r: "runner app n w st = Some ([], st1)" using 1(1,3) Suc.prems(3) by (simp add: runner_def q)
    obtain sc' where 2: "flush_loop (runner app n) (Suc m) trace sc st = flush_loop (runner app n) m (trace @ [w]) sc' st1"
        "sched_inv (Between, sc')" "set (pending Between sc') = set P \<union> set []" "s_circular sc' = s_circular sc"
      by (rule flush_turn [where run = "runner app n" and s = st and n = m and trace = trace, OF Suc.prems(1) Cons r]) simp
    have P: "distinct P" "distinct (pending Between sc')" using Suc.prems(1) 2(2) Cons by (simp_all add: sched_inv_def)
    have "length (pending Between sc') = length P" using 2(3) P by (metis distinct_card sup_bot.right_neutral set_empty2)
    then have "length (pending Between sc') \<le> m" using Suc.prems(5) Cons by simp
    then have "\<exists>trace' sc'' st'. flush_loop (runner app n) m (trace @ [w]) sc' st1 = Finished trace' False sc'' st' \<and>
        react_inv app rk {} st' \<and> queued st' = [] \<and> d_val st' = d_val st1 \<and> static_of st' = static_of st1"
      using 1(2,3) 2(3) Suc.prems(3,4) Cons static_lazies [OF 1(5)] by (intro Suc.IH [OF 2(2)]) simp_all
    then show ?thesis using 2(1) 1(4,5) by simp
  qed
qed

lemma schedule_reachable: "reachable (Idle, schedule st)"
proof -
  have "reachable (Idle, sc) \<Longrightarrow> reachable (Idle, fold queueWatcher ws sc)" for ws sc
    by (induction ws arbitrary: sc) (auto intro: reachable.step sched_step.Queue)
  then show ?thesis using reachable.init by (simp add: schedule_def)
qed

lemma schedule_start:
  assumes "queued st \<noteq> []"
  shows "0 < s_ticks (schedule st)" "set (s_queue (schedule st)) = set (queued st)" "length (s_queue (schedule st)) \<le> length (queued st)"
proof -
  have i: "sched_inv (Idle, schedule st)" by (rule reachable_inv [OF schedule_reachable])
  have "\<forall>w. s_has (schedule st) w \<longleftrightarrow> w \<in> set (queued st)"
    by (simp add: schedule_def fold_queue_has) (simp add: sched_init_def)
  then show q: "set (s_queue (schedule st)) = set (queued st)" using i by (auto simp: sched_inv_def pending_def)
  then have "s_queue (schedule st) \<noteq> []" using assms by auto
  then show "0 < s_ticks (schedule st)" using i by (simp add: sched_inv_def)
  have "distinct (s_queue (schedule st))" using i by (simp add: sched_inv_def pending_def)
  then show "length (s_queue (schedule st)) \<le> length (queued st)" using card_length [of "queued st"] q by (metis distinct_card)
qed

text \<open>
  C4. A flush brings every watcher up to date. Whatever happened to the store before, when the
  getters do not throw and the callbacks write nothing (as for render watchers), the flush of the
  watchers queued so far ends, within one run for each, without a warning; it changes no data, and
  afterwards every active watcher has the value its getter has on the current data, computed
  properties evaluated anew.
\<close>

theorem flush_makes_current:
  assumes "reached app rk st" "queued st \<noteq> []"
    and "\<And>w v u. a_writes app w v u = [] \<and> \<not> a_throws app w v u" "\<And>w. never_throws app rk w" "\<And>w. rk w < n"
  shows "\<exists>r sc' st'. flushSchedulerQueue (runner app n) mounted (length (queued st)) (schedule st) (st\<lparr>queued := []\<rparr>) =
      Some (Some r, resetSchedulerState sc', st') \<and> \<not> r_warned r \<and> d_val st' = d_val st \<and> queued st' = [] \<and>
      (\<forall>w. w_active (watchers st w) \<longrightarrow> \<not> w_lazy (watchers st w) \<longrightarrow>
         (\<exists>v. getter_value app rk (d_val st) w = Some v \<and>
              (w_value (watchers st' w) = v \<or> strict_eq v (w_value (watchers st' w)))))"
proof -
  let ?sc = "start_flush (schedule st)" and ?st = "st\<lparr>queued := []\<rparr>"
  note q = schedule_start [OF assms(2)]
  have inv: "react_inv app rk {} st" by (rule reached_inv [OF assms(1)])
  have sc: "sched_inv (Between, ?sc)" by (rule start_inv [OF reachable_inv [OF schedule_reachable] q(1)])
  have p: "pending Between ?sc = sort (s_queue (schedule st))" by (simp add: pending_def start_flush_def)
  have L: "lazies ?st = lazies st" by (simp add: lazies_def)
  have "react_inv app rk (set (queued st)) ?st" by (rule queued_inv [OF inv]) simp_all
  moreover have "\<forall>w\<in>set (queued st). w \<notin> lazies st" using inv by (simp add: react_inv_def shape_ok_def)
  ultimately obtain tr sc' st' where f: "flush_loop (runner app n) (length (queued st)) [] ?sc ?st = Finished tr False sc' st'"
      "react_inv app rk {} st'" "queued st' = []" "d_val st' = d_val ?st" "static_of st' = static_of ?st"
    using flush_current_loop [where trace = "[]" and st = ?st and m = "length (queued st)", OF assms(3,4,5) sc] p q(2,3) L by auto
  have s: "static_of st' = static_of st" using f(5) by (simp add: static_of_def)
  have "\<exists>v. getter_value app rk (d_val st) w = Some v \<and> (w_value (watchers st' w) = v \<or> strict_eq v (w_value (watchers st' w)))"
    if "w_active (watchers st w)" "\<not> w_lazy (watchers st w)" for w
  proof -
    have "up_to_date app rk st' w"
      using f(2,3) that assms(4) by (simp add: react_inv_def static_flags [OF s] lazies_def)
    then show ?thesis using f(4) by (auto simp: up_to_date_def)
  qed
  then show ?thesis using f by (auto simp: flushSchedulerQueue_def)
qed

lemmas eval_defs =
  Watcher_def initComputed_eq with_new_def Let_def watcher_get_def store_init_def new_watcher_def cleanupDeps_eq drop_subs_def
  pushTarget_def popTarget_def dep_depend_def addDep_def computedGetter_def watcher_depend_def set_watcher_def addSub_def removeSub_def

lemma flush_makes_current_witness:
  "\<exists>(app::app) r sc st' v. w_active (watchers st' 1) \<and>
      flushSchedulerQueue (runner app 1) (\<lambda>_. True) 1 (queueWatcher 1 sched_init) (st'\<lparr>queued := []\<rparr>) = Some (Some r, sc, v) \<and>
      \<not> r_warned r \<and> d_val v 0 = JBool True \<and> w_value (watchers v 1) = JBool True"
proof -
  let ?app = "\<lparr>a_getter = (\<lambda>w. Read 0 Return), a_nested = (\<lambda>_. []), a_writes = (\<lambda>_ _ _. []), a_throws = (\<lambda>_ _ _. False)\<rparr>"
  let ?st = "store_init (\<lambda>_. JBool False)"
  obtain st1 where st1: "Watcher ?app 0 (False, False, False, False) ?st = Some (True, st1)" "w_active (watchers st1 1)"
      "\<not> w_lazy (watchers st1 1)" "\<not> w_sync (watchers st1 1)" "d_subs st1 0 = [1]" "d_val st1 0 = JBool False" "queued st1 = []"
    by (simp add: eval_defs)
  have "reached ?app (\<lambda>_. 0) st1"
    by (rule reached.step [OF reached.init react.Watch [OF _ _ st1(1)]]) simp_all
  moreover obtain st where st: "reactiveSetter (watcher_run ?app 0) (0, JBool True) st1 = Some (True, st)"
      "watchers st = watchers st1" "queued st = [1]" "d_val st 0 = JBool True"
    using st1(3-7) by (simp add: reactiveSetter_def notify_def strict_eq_def update_def)
  ultimately have r: "reached ?app (\<lambda>_. 0) st" by (blast intro: reached.step react.Assign)
  obtain r sc st' where f: "flushSchedulerQueue (runner ?app 1) (\<lambda>_. True) (length (queued st)) (schedule st) (st\<lparr>queued := []\<rparr>) =
      Some (Some r, resetSchedulerState sc, st')" "\<not> r_warned r" "d_val st' = d_val st"
      "\<exists>v. getter_value ?app (\<lambda>_. 0) (d_val st) 1 = Some v \<and> (w_value (watchers st' 1) = v \<or> strict_eq v (w_value (watchers st' 1)))"
    using flush_makes_current [OF r, of 1 "\<lambda>_. True"] st st1(2,3) by (fastforce simp: never_throws_def getter_value_def)
  have "w_value (watchers st' 1) = JBool True" using f(4) st(4) by (auto simp: getter_value_def strict_eq_def)
  then show ?thesis using f st st1(2)
    by (intro exI [of _ ?app] exI [of _ r] exI [of _ "resetSchedulerState sc"] exI [of _ st] exI [of _ st']) (simp add: schedule_def)
qed

section \<open>Where tracking is lost\<close>

text \<open>A component whose watcher has an untracked part, and one with a synchronous watcher\<close>

definition hook_app :: "jsval \<Rightarrow> getter \<Rightarrow> app" where
  "hook_app x inner =
     \<lparr>a_getter = (\<lambda>w. if w = 1 then Return x else Untracked inner (\<lambda>_. Read 0 Return)),
      a_nested = (\<lambda>_. []), a_writes = (\<lambda>_ _ _. []), a_throws = (\<lambda>_ _ _. False)\<rparr>"

definition sync_app :: app where
  "sync_app =
     \<lparr>a_getter = (\<lambda>w. if w = 1 then Read 0 Return else Read 0 (\<lambda>_. Computed 1 Return)),
      a_nested = (\<lambda>_. []), a_writes = (\<lambda>_ _ _. []), a_throws = (\<lambda>_ _ _. False)\<rparr>"


text \<open>
  A synchronous watcher can be left with a stale value: it runs in the middle of the
  notification, before a computed property that subscribed later is marked dirty. After the write
  it still has the old value, and nothing is queued that would correct it.
\<close>

theorem sync_watcher_stale:
  assumes "\<not> strict_eq y x" "strict_eq y y"
  shows "\<exists>st st'. Watcher sync_app 1 (False, True, False, False) (initComputed sync_app 1 (store_init (\<lambda>_. x))) = Some (True, st) \<and>
    reactiveSetter (watcher_run sync_app 2) (0, y) st = Some (True, st') \<and>
    w_value (watchers st' 2) = x \<and> getter_value sync_app id (d_val st') 2 = Some y \<and> queued st' = []"
  using assms
  by (auto simp add: eval_defs sync_app_def reactiveSetter_def notify_def evaluate.simps update_def watcher_run.simps numeral_2_eq_2
      js_simps getter_value_def)

lemma sync_watcher_stale_witness:
  "\<exists>st st'. Watcher sync_app 1 (False, True, False, False) (initComputed sync_app 1 (store_init (\<lambda>_. JBool False))) = Some (True, st) \<and>
    reactiveSetter (watcher_run sync_app 2) (0, JBool True) st = Some (True, st') \<and> w_value (watchers st' 2) = JBool False"
  using sync_watcher_stale [of "JBool True" "JBool False"] by (auto simp: strict_eq_def)

end
