(* ===== verification/Options.thy ===== *)
theory Options
  imports SharedUtil
begin

text \<open>
  Component options of \<open>frontend/js/vue.js\<close>: the merging strategies, \<open>mergeOptions\<close>, the
  normalization of \<open>props\<close>, \<open>inject\<close> and \<open>directives\<close>, \<open>resolveAsset\<close>, and the validation of props.
  Calling a function of the application is a parameter. The lemmas show the order in which
  lifecycle hooks run over \<open>extends\<close> and \<open>mixins\<close>, that merged data keeps the component's own
  values, where an asset is found, and what a validated prop can be.
\<close>

section \<open>Option values\<close>

text \<open>
  An option is a value, a table with a prototype chain (own properties first), or the function a
  data strategy returns: whether it is for an instance, the child's and the parent's option. The
  identity of an object a strategy makes is not used: it is 0.
\<close>

datatype optval = Val jsval | Table "jsval obj list" | DataFn bool optval optval

type_synonym opts = "(string \<times> optval) list"

definition opt_get :: "opts \<Rightarrow> string \<Rightarrow> optval" where
  "opt_get os k = (case map_of os k of Some v \<Rightarrow> v | None \<Rightarrow> Val JUndef)"

fun opt_truthy :: "optval \<Rightarrow> bool" where
  "opt_truthy (Val v) = truthy v"
| "opt_truthy _ = True"

fun opt_is_fun :: "optval \<Rightarrow> bool" where
  "opt_is_fun (Val v) \<longleftrightarrow> js_typeof v = ''function''"
| "opt_is_fun (Table _) \<longleftrightarrow> False"
| "opt_is_fun (DataFn _ _ _) \<longleftrightarrow> True"

text \<open>The layers of a table, and what \<open>for in\<close> enumerates: an inherited key that is shadowed once\<close>

fun layers :: "optval \<Rightarrow> jsval obj list" where
  "layers (Val v) = (if truthy v then [own_props v] else [])"
| "layers (Table ls) = ls"
| "layers (DataFn _ _ _) = [[]]"

definition for_in :: "optval \<Rightarrow> jsval obj" where
  "for_in v = foldl (\<lambda>acc l. acc @ filter (\<lambda>(k, _). k \<notin> set (obj_keys acc)) l) [] (layers v)"

fun chain_get :: "jsval obj list \<Rightarrow> string \<Rightarrow> jsval" where
  "chain_get [] k = JUndef"
| "chain_get (l # ls) k = (case map_of l k of Some v \<Rightarrow> v | None \<Rightarrow> chain_get ls k)"

section \<open>Merging data\<close>

lemma size_own_props: "size_list (size_prod (\<lambda>_. 0) size) (own_props v) \<le> size v"
  by (cases v) auto

text \<open>
  \<open>mergeData\<close> puts what is missing into \<open>to\<close> and returns it; \<open>None\<close> is the exception of reading a
  property of undefined or null. On other values that are not plain objects nothing is put.
\<close>

function mergeData :: "jsval \<Rightarrow> jsval \<Rightarrow> jsval option"
  and mergeKeys :: "jsval \<Rightarrow> (string \<times> jsval) list \<Rightarrow> jsval option" where
  "mergeData to from = (if \<not> truthy from then Some to else mergeKeys to (own_props from))"
| "mergeKeys to [] = Some to"
| "mergeKeys to ((key, fromVal) # ps) =
     (case to of
        JUndef \<Rightarrow> None
      | JNull \<Rightarrow> None
      | JObj i fs \<Rightarrow>
          (case map_of fs key of
             None \<Rightarrow> mergeKeys (JObj i (fs @ [(key, fromVal)])) ps
           | Some toVal \<Rightarrow>
               (if isPlainObject toVal \<and> isPlainObject fromVal then
                  (case mergeData toVal fromVal of
                     None \<Rightarrow> None
                   | Some m \<Rightarrow> mergeKeys (JObj i (obj_put key m fs)) ps)
                else mergeKeys to ps))
      | _ \<Rightarrow> Some to)"
  by pat_completeness auto

termination
  by (relation "measure (\<lambda>x. case x of Inl (_, v) \<Rightarrow> Suc (size v) | Inr (_, ps) \<Rightarrow> size_list (size_prod (\<lambda>_. 0) size) ps)")
    (auto simp: size_own_props le_imp_less_Suc)

definition mergeDataOrFn :: "optval \<Rightarrow> optval \<Rightarrow> bool \<Rightarrow> optval" where
  "mergeDataOrFn parentVal childVal vm =
     (if \<not> vm then
        (if \<not> opt_truthy childVal then parentVal
         else if \<not> opt_truthy parentVal then childVal
         else DataFn False childVal parentVal)
      else DataFn True childVal parentVal)"

text \<open>The data an option stands for, when it is called; \<open>call\<close> is the application's function.\<close>

fun data_of :: "(jsval \<Rightarrow> jsval) \<Rightarrow> optval \<Rightarrow> jsval option" where
  "data_of call (Val v) = Some (if js_typeof v = ''function'' then call v else v)"
| "data_of call (Table ls) = Some (JObj 0 (for_in (Table ls)))"
| "data_of call (DataFn inst childVal parentVal) =
     (case (data_of call childVal, data_of call parentVal) of
        (Some c, Some p) \<Rightarrow> if inst \<and> \<not> truthy c then Some p else mergeData c p
      | _ \<Rightarrow> None)"

section \<open>Strategies\<close>

text \<open>A strategy returns the merged option and its warnings.\<close>

definition assertObjectType :: "string \<Rightarrow> optval \<Rightarrow> string list" where
  "assertObjectType name value =
     (case value of
        Val v \<Rightarrow>
          if isPlainObject v then []
          else [''Invalid value for option '' @ [dq] @ name @ [dq] @ '': expected an Object, but got '' @ toRawType v @ ''.'']
      | Table _ \<Rightarrow> []
      | DataFn _ _ _ \<Rightarrow> [''Invalid value for option '' @ [dq] @ name @ [dq] @ '': expected an Object, but got Function.''])"

definition defaultStrat :: "optval \<Rightarrow> optval \<Rightarrow> optval" where
  "defaultStrat parentVal childVal = (if childVal = Val JUndef then parentVal else childVal)"

definition strat_el :: "optval \<Rightarrow> optval \<Rightarrow> bool \<Rightarrow> string \<Rightarrow> optval \<times> string list" where
  "strat_el parent child vm key =
     (defaultStrat parent child,
      if \<not> vm then [''option '' @ [dq] @ key @ [dq] @ '' can only be used during instance creation with the `new` keyword.''] else [])"

definition strat_data :: "optval \<Rightarrow> optval \<Rightarrow> bool \<Rightarrow> optval \<times> string list" where
  "strat_data parentVal childVal vm =
     (if \<not> vm then
        (if opt_truthy childVal \<and> \<not> opt_is_fun childVal then
           (parentVal, [''The '' @ [dq] @ ''data'' @ [dq] @ '' option should be a function that returns a per-instance value in component definitions.''])
         else (mergeDataOrFn parentVal childVal False, []))
      else (mergeDataOrFn parentVal childVal vm, []))"

definition isArray :: "jsval \<Rightarrow> bool" where
  "isArray v \<longleftrightarrow> (case v of JArr _ _ \<Rightarrow> True | _ \<Rightarrow> False)"

text \<open>\<open>a.concat(b)\<close>: an array is joined, anything else appended.\<close>

fun elems_of :: "jsval \<Rightarrow> jsval list" where
  "elems_of (JArr _ xs) = xs"
| "elems_of v = [v]"

definition concat_val :: "jsval \<Rightarrow> jsval \<Rightarrow> jsval" where
  "concat_val a b = JArr 0 (elems_of a @ elems_of b)"

definition mergeHook :: "jsval \<Rightarrow> jsval \<Rightarrow> jsval" where
  "mergeHook parentVal childVal =
     (if truthy childVal then
        (if truthy parentVal then concat_val parentVal childVal
         else if isArray childVal then childVal else JArr 0 [childVal])
      else parentVal)"

definition mergeAssets :: "optval \<Rightarrow> optval \<Rightarrow> string \<Rightarrow> optval \<times> string list" where
  "mergeAssets parentVal childVal key =
     (let res = (if opt_truthy parentVal then layers parentVal else []) in
      if opt_truthy childVal then (Table (extend [] (for_in childVal) # res), assertObjectType key childVal)
      else (Table ([] # res), []))"

text \<open>\<open>watch\<close>: the handlers of a key are joined. (\<open>nativeWatch\<close> is undefined but in old Firefox.)\<close>

fun merge_watch :: "jsval obj \<Rightarrow> jsval obj \<Rightarrow> jsval obj" where
  "merge_watch ret [] = ret"
| "merge_watch ret ((key, child) # ps) =
     (let parent0 = get_or_undef ret key;
          parent = (if truthy parent0 \<and> \<not> isArray parent0 then JArr 0 [parent0] else parent0)
      in merge_watch (obj_put key (if truthy parent then concat_val parent child
                                   else if isArray child then child else JArr 0 [child]) ret) ps)"

definition strat_watch :: "optval \<Rightarrow> optval \<Rightarrow> string \<Rightarrow> optval \<times> string list" where
  "strat_watch parentVal childVal key =
     (if \<not> opt_truthy childVal then (Table ([] # (if opt_truthy parentVal then layers parentVal else [])), [])
      else
        (if \<not> opt_truthy parentVal then childVal
         else Val (JObj 0 (merge_watch (extend [] (for_in parentVal)) (for_in childVal))),
         assertObjectType key childVal))"

definition strat_object :: "optval \<Rightarrow> optval \<Rightarrow> string \<Rightarrow> optval \<times> string list" where
  "strat_object parentVal childVal key =
     (if \<not> opt_truthy parentVal then childVal
      else
        (let ret = extend [] (for_in parentVal)
         in Table [if opt_truthy childVal then extend ret (for_in childVal) else ret]),
      if opt_truthy childVal then assertObjectType key childVal else [])"

definition ASSET_TYPES :: "string list" where
  "ASSET_TYPES = [''component'', ''directive'', ''filter'']"

definition LIFECYCLE_HOOKS :: "string list" where
  "LIFECYCLE_HOOKS =
     [''beforeCreate'', ''created'', ''beforeMount'', ''mounted'', ''beforeUpdate'', ''updated'', ''beforeDestroy'',
      ''destroyed'', ''activated'', ''deactivated'', ''errorCaptured'']"

definition the_val :: "optval \<Rightarrow> jsval" where
  "the_val v = (case v of Val x \<Rightarrow> x | Table ls \<Rightarrow> JObj 0 (for_in v) | DataFn _ _ _ \<Rightarrow> JFun 0 [])"

text \<open>\<open>strats[key] || defaultStrat\<close>\<close>

definition strats :: "string \<Rightarrow> optval \<Rightarrow> optval \<Rightarrow> bool \<Rightarrow> optval \<times> string list" where
  "strats key parentVal childVal vm =
     (if key \<in> {''el'', ''propsData''} then strat_el parentVal childVal vm key
      else if key = ''data'' then strat_data parentVal childVal vm
      else if key \<in> set LIFECYCLE_HOOKS then (Val (mergeHook (the_val parentVal) (the_val childVal)), [])
      else if key \<in> set (map (\<lambda>t. t @ ''s'') ASSET_TYPES) then mergeAssets parentVal childVal key
      else if key = ''watch'' then strat_watch parentVal childVal key
      else if key \<in> {''props'', ''methods'', ''inject'', ''computed''} then strat_object parentVal childVal key
      else if key = ''provide'' then (mergeDataOrFn parentVal childVal vm, [])
      else (defaultStrat parentVal childVal, []))"

section \<open>Normalization\<close>

definition validateComponentName :: "string \<Rightarrow> string list" where
  "validateComponentName name =
     (if \<not> (name \<noteq> [] \<and> (is_upper (hd name) \<or> is_lower (hd name)) \<and> list_all (\<lambda>c. is_word c \<or> c = CHR ''-'') (tl name)) then
        [''Invalid component name: '' @ [dq] @ name @ [dq] @ ''. Component names can only contain alphanumeric characters and the hyphen, and must start with a letter.'']
      else [])"

definition checkComponents :: "(string \<Rightarrow> bool) \<Rightarrow> opts \<Rightarrow> string list" where
  "checkComponents reserved options =
     concat (map (\<lambda>(name, _). validateComponentName name @
        (if isBuiltInTag name \<or> reserved name then
           [''Do not use built-in or reserved HTML elements as component id: '' @ name] else []))
       (for_in (opt_get options ''components'')))"

definition normalizeProps :: "opts \<Rightarrow> opts \<times> string list" where
  "normalizeProps options =
     (let p = the_val (opt_get options ''props'') in
      if \<not> truthy p then (options, [])
      else
        (let (res, ws) =
           (case p of
              JArr _ xs \<Rightarrow>
                foldl (\<lambda>(res, ws) v. case v of
                         JStr s \<Rightarrow> (obj_put (camelize s) (JObj 0 [(''type'', JNull)]) res, ws)
                       | _ \<Rightarrow> (res, ws @ [''props must be strings when using array syntax.'']))
                  ([], []) (rev xs)
            | JObj _ kvs \<Rightarrow>
                (foldl (\<lambda>res (key, v). obj_put (camelize key) (if isPlainObject v then v else JObj 0 [(''type'', v)]) res) [] kvs, [])
            | _ \<Rightarrow> ([], [''Invalid value for option '' @ [dq] @ ''props'' @ [dq] @ '': expected an Array or an Object, but got '' @ toRawType p @ ''.'']))
         in (obj_put ''props'' (Val (JObj 0 res)) options, ws)))"

definition normalizeInject :: "opts \<Rightarrow> opts \<times> string list" where
  "normalizeInject options =
     (let inject = the_val (opt_get options ''inject'') in
      if \<not> truthy inject then (options, [])
      else
        (let (res, ws) =
           (case inject of
              JArr _ xs \<Rightarrow> (foldl (\<lambda>res v. obj_put (js_String v) (JObj 0 [(''from'', v)]) res) [] xs, [])
            | JObj _ kvs \<Rightarrow>
                (foldl (\<lambda>res (key, v). obj_put key
                   (if isPlainObject v then JObj 0 (extend [(''from'', JStr key)] (own_props v)) else JObj 0 [(''from'', v)]) res) [] kvs, [])
            | _ \<Rightarrow> ([], [''Invalid value for option '' @ [dq] @ ''inject'' @ [dq] @ '': expected an Array or an Object, but got '' @ toRawType inject @ ''.'']))
         in (obj_put ''inject'' (Val (JObj 0 res)) options, ws)))"

definition normalizeDirectives :: "opts \<Rightarrow> opts" where
  "normalizeDirectives options =
     (case opt_get options ''directives'' of
        Val (JObj i dirs) \<Rightarrow>
          obj_put ''directives''
            (Val (JObj i (map (\<lambda>(k, d). (k, if js_typeof d = ''function'' then JObj 0 [(''bind'', d), (''update'', d)] else d)) dirs))) options
      | _ \<Rightarrow> options)"

section \<open>Merging options\<close>

text \<open>
  The options of a component, with the components it extends and mixes in; a constructor given
  instead stands for its options. The keys \<open>extends\<close> and \<open>mixins\<close> themselves are left out of the result.
\<close>

datatype component = Component opts "component option" "component list"

definition mergeField :: "bool \<Rightarrow> opts \<Rightarrow> opts \<Rightarrow> opts \<times> string list \<Rightarrow> string \<Rightarrow> opts \<times> string list" where
  "mergeField vm parent child acc key =
     (let (v, ws) = strats key (opt_get parent key) (opt_get child key) vm in (obj_put key v (fst acc), snd acc @ ws))"

definition mergeFields :: "bool \<Rightarrow> opts \<Rightarrow> opts \<Rightarrow> opts \<times> string list" where
  "mergeFields vm parent child =
     foldl (mergeField vm parent child)
       (foldl (mergeField vm parent child) ([], []) (obj_keys parent))
       (filter (\<lambda>k. k \<notin> set (obj_keys parent)) (obj_keys child))"

primrec mergeOptions :: "(string \<Rightarrow> bool) \<Rightarrow> bool \<Rightarrow> component \<Rightarrow> opts \<times> string list \<Rightarrow> opts \<times> string list" where
  "mergeOptions reserved vm (Component options extendsFrom mixins) parent0 =
     (let ws0 = checkComponents reserved options;
          (c1, ws1) = normalizeProps options;
          (c2, ws2) = normalizeInject c1;
          c3 = normalizeDirectives c2;
          start = (fst parent0, snd parent0 @ ws0 @ ws1 @ ws2);
          parent1 = (case map_option (mergeOptions reserved vm) extendsFrom of Some m \<Rightarrow> m start | None \<Rightarrow> start);
          (parent, ws3) = foldl (\<lambda>acc m. m acc) parent1 (map (mergeOptions reserved vm) mixins);
          (res, ws4) = mergeFields vm parent c3
      in (res, ws3 @ ws4))"

definition resolveAsset :: "optval \<Rightarrow> jsval \<Rightarrow> jsval" where
  "resolveAsset assets ident =
     (case ident of
        JStr s \<Rightarrow>
          (let ls = layers assets;
               local = (case ls of l # _ \<Rightarrow> l | [] \<Rightarrow> []);
               camelizedId = camelize s;
               PascalCaseId = capitalize camelizedId
           in case map_of local s of
                Some a \<Rightarrow> a
              | None \<Rightarrow>
                  (case map_of local camelizedId of
                     Some a \<Rightarrow> a
                   | None \<Rightarrow>
                       (case map_of local PascalCaseId of
                          Some a \<Rightarrow> a
                        | None \<Rightarrow>
                            (if truthy (chain_get ls s) then chain_get ls s
                             else if truthy (chain_get ls camelizedId) then chain_get ls camelizedId
                             else chain_get ls PascalCaseId))))
      | _ \<Rightarrow> JUndef)"

section \<open>Merged data\<close>

lemma mergeData_plain: "mergeData to (JObj j ps) = mergeKeys to ps"
  by (subst mergeData.simps) simp

lemma isPlain_obj: "isPlainObject v \<longleftrightarrow> (\<exists>i fs. v = JObj i fs) \<or> (\<exists>i t. v = JHost i ''Object'' t)"
  by (cases v) (auto simp: isPlainObject_def)

declare mergeData.simps [simp del]

text \<open>One level of a merge: what a key of the result holds\<close>

lemma merge_level:
  "distinct (map fst ps) \<Longrightarrow> (\<And>tv fv. fv \<in> snd ` set ps \<Longrightarrow> isPlainObject tv \<Longrightarrow> isPlainObject fv \<Longrightarrow> \<exists>m. mergeData tv fv = Some m) \<Longrightarrow>
   \<exists>gs. mergeKeys (JObj i fs) ps = Some (JObj i gs) \<and>
     (\<forall>k. map_of gs k =
        (case map_of fs k of
           None \<Rightarrow> map_of ps k
         | Some tv \<Rightarrow>
             (case map_of ps k of
                None \<Rightarrow> Some tv
              | Some fv \<Rightarrow> if isPlainObject tv \<and> isPlainObject fv then mergeData tv fv else Some tv)))"
proof (induction ps arbitrary: fs)
  case Nil
  then show ?case by (auto split: option.splits)
next
  case (Cons p ps)
  obtain key fv where p: "p = (key, fv)" by (cases p)
  have d: "distinct (map fst ps)" "map_of ps key = None" using Cons.prems(1) p by (auto simp: map_of_eq_None_iff)
  note IH = Cons.IH [OF d(1) Cons.prems(2)]
  show ?case
  proof (cases "map_of fs key")
    case None
    then obtain gs where gs: "mergeKeys (JObj i (fs @ [(key, fv)])) ps = Some (JObj i gs)"
        "\<forall>k. map_of gs k =
          (case map_of (fs @ [(key, fv)]) k of None \<Rightarrow> map_of ps k
           | Some tv \<Rightarrow> (case map_of ps k of None \<Rightarrow> Some tv
              | Some fv \<Rightarrow> if isPlainObject tv \<and> isPlainObject fv then mergeData tv fv else Some tv))"
      using IH [of "fs @ [(key, fv)]"] by auto
    have "map_of gs k = (case map_of fs k of None \<Rightarrow> map_of (p # ps) k
           | Some tv \<Rightarrow> (case map_of (p # ps) k of None \<Rightarrow> Some tv
              | Some fv \<Rightarrow> if isPlainObject tv \<and> isPlainObject fv then mergeData tv fv else Some tv))" for k
      using gs(2) [rule_format, of k] None d(2) p by (cases "k = key") (auto simp: map_add_def split: option.splits)
    then show ?thesis using gs(1) None p by auto
  next
    case (Some tv)
    define tv' where "tv' = (if isPlainObject tv \<and> isPlainObject fv then the (mergeData tv fv) else tv)"
    have m: "isPlainObject tv \<Longrightarrow> isPlainObject fv \<Longrightarrow> mergeData tv fv = Some tv'"
      using Cons.prems(2) [of fv tv] p by (auto simp: tv'_def)
    define fs' where "fs' = (if isPlainObject tv \<and> isPlainObject fv then obj_put key tv' fs else fs)"
    have fs': "map_of fs' k = (if k = key then Some tv' else map_of fs k)" for k
      using Some by (auto simp: fs'_def tv'_def)
    have step: "mergeKeys (JObj i fs) (p # ps) = mergeKeys (JObj i fs') ps"
      using Some m p by (auto simp: fs'_def)
    obtain gs where gs: "mergeKeys (JObj i fs') ps = Some (JObj i gs)"
        "\<forall>k. map_of gs k =
          (case map_of fs' k of None \<Rightarrow> map_of ps k
           | Some tv \<Rightarrow> (case map_of ps k of None \<Rightarrow> Some tv
              | Some fv \<Rightarrow> if isPlainObject tv \<and> isPlainObject fv then mergeData tv fv else Some tv))"
      using IH [of fs'] by auto
    have "map_of gs k = (case map_of fs k of None \<Rightarrow> map_of (p # ps) k
           | Some tv \<Rightarrow> (case map_of (p # ps) k of None \<Rightarrow> Some tv
              | Some fv \<Rightarrow> if isPlainObject tv \<and> isPlainObject fv then mergeData tv fv else Some tv))" for k
      using gs(2) [rule_format, of k] Some d(2) p m by (cases "k = key") (auto simp: fs' tv'_def split: option.splits)
    then show ?thesis using gs(1) step by auto
  qed
qed

fun wf_data :: "jsval \<Rightarrow> bool" where
  "wf_data (JObj _ ps) \<longleftrightarrow> distinct (map fst ps) \<and> (\<forall>p\<in>set ps. wf_data (snd p))"
| "wf_data _ \<longleftrightarrow> True"

text \<open>A merge of two plain objects ends, and gives a plain object.\<close>

lemma merge_host: "mergeData (JHost i c t) w = Some (JHost i c t)" "mergeData to (JHost i c t) = Some to"
  by (subst mergeData.simps; cases "own_props w"; auto)+

lemma merge_total:
  "wf_data fr \<Longrightarrow> isPlainObject to \<Longrightarrow> isPlainObject fr \<Longrightarrow> \<exists>m. mergeData to fr = Some m \<and> isPlainObject m"
proof (induction fr arbitrary: to rule: wf_data.induct)
  case (1 j ps)
  show ?case
  proof (cases "\<exists>i fs. to = JObj i fs")
    case True
    then obtain i fs where to: "to = JObj i fs" by blast
    have m: "\<exists>m. mergeData tv fv = Some m" if fv: "fv \<in> snd ` set ps" "isPlainObject tv" "isPlainObject fv" for tv fv
    proof -
      obtain p where "p \<in> set ps" "fv = snd p" using fv(1) by auto
      then show ?thesis using 1(1) [of p tv] 1(2) fv(2,3) by auto
    qed
    have "distinct (map fst ps)" using 1(2) by simp
    from merge_level [where i = i and fs = fs, OF this m] show ?thesis by (auto simp: to mergeData_plain isPlain_obj)
  next
    case False
    then show ?thesis using 1(3) by (auto simp: isPlain_obj merge_host)
  qed
qed (auto simp: isPlain_obj merge_host)

lemma merge_lookup:
  assumes "wf_data (JObj j ps)"
  shows "\<exists>gs. mergeData (JObj i fs) (JObj j ps) = Some (JObj i gs) \<and>
     (\<forall>k. map_of gs k =
        (case map_of fs k of
           None \<Rightarrow> map_of ps k
         | Some tv \<Rightarrow>
             (case map_of ps k of
                None \<Rightarrow> Some tv
              | Some fv \<Rightarrow> if isPlainObject tv \<and> isPlainObject fv then mergeData tv fv else Some tv)))"
proof -
  have m: "\<exists>m. mergeData tv fv = Some m" if "fv \<in> snd ` set ps" "isPlainObject tv" "isPlainObject fv" for tv fv
    using merge_total [of fv tv] assms that by auto
  have "distinct (map fst ps)" using assms by simp
  from merge_level [where i = i and fs = fs, OF this m] show ?thesis by (simp add: mergeData_plain)
qed

text \<open>The value at a path of keys\<close>

fun at_path :: "jsval \<Rightarrow> string list \<Rightarrow> jsval option" where
  "at_path v [] = Some v"
| "at_path (JObj _ fs) (k # p) = (case map_of fs k of Some w \<Rightarrow> at_path w p | None \<Rightarrow> None)"
| "at_path _ (k # p) = None"

text \<open>A path leads out of a value below plain objects only.\<close>

fun leaves :: "jsval \<Rightarrow> string list \<Rightarrow> bool" where
  "leaves v [] \<longleftrightarrow> False"
| "leaves (JObj _ fs) (k # p) \<longleftrightarrow> (case map_of fs k of Some w \<Rightarrow> leaves w p | None \<Rightarrow> True)"
| "leaves _ (k # p) \<longleftrightarrow> False"

lemma merge_keeps_own:
  "wf_data fr \<Longrightarrow> isPlainObject to \<Longrightarrow> isPlainObject fr \<Longrightarrow> mergeData to fr = Some m \<Longrightarrow>
   at_path to p = Some v \<Longrightarrow> \<not> isPlainObject v \<Longrightarrow> at_path m p = Some v"
proof (induction p arbitrary: to fr m)
  case Nil
  then show ?case by simp
next
  case (Cons k p)
  obtain i fs where to: "to = JObj i fs" using Cons.prems(5) by (cases to) auto
  obtain tv where tv: "map_of fs k = Some tv" "at_path tv p = Some v" using Cons.prems(5) to by (auto split: option.splits)
  show ?case
  proof (cases "\<exists>j ps. fr = JObj j ps")
    case True
    then obtain j ps where fr: "fr = JObj j ps" by blast
    obtain gs where gs: "m = JObj i gs" "map_of gs k =
          (case map_of ps k of None \<Rightarrow> Some tv
           | Some fv \<Rightarrow> if isPlainObject tv \<and> isPlainObject fv then mergeData tv fv else Some tv)"
      using merge_lookup [OF Cons.prems(1) [unfolded fr], of i fs] Cons.prems(4) unfolding to fr by (auto simp: tv(1))
    show ?thesis
    proof (cases "\<exists>fv. map_of ps k = Some fv \<and> isPlainObject tv \<and> isPlainObject fv")
      case True
      then obtain fv where fv: "map_of ps k = Some fv" "isPlainObject tv" "isPlainObject fv" by blast
      have w: "wf_data fv" using Cons.prems(1) map_of_SomeD [OF fv(1)] fr by auto
      obtain m' where m': "mergeData tv fv = Some m'" using merge_total [OF w fv(2,3)] by blast
      show ?thesis using Cons.IH [OF w fv(2,3) m' tv(2) Cons.prems(6)] fv m' gs by simp
    next
      case False
      then show ?thesis using gs tv(2) by (auto split: option.splits)
    qed
  next
    case False
    then show ?thesis using Cons.prems(3-5) by (auto simp: isPlain_obj merge_host)
  qed
qed

lemma merge_adds_missing:
  "wf_data fr \<Longrightarrow> isPlainObject fr \<Longrightarrow> mergeData to fr = Some m \<Longrightarrow> at_path fr p = Some v \<Longrightarrow> leaves to p \<Longrightarrow> at_path m p = Some v"
proof (induction p arbitrary: to fr m)
  case Nil
  then show ?case by simp
next
  case (Cons k p)
  obtain i fs where to: "to = JObj i fs" using Cons.prems(5) by (cases to) auto
  obtain j ps where fr: "fr = JObj j ps" using Cons.prems(4) by (cases fr) auto
  obtain fv where fv: "map_of ps k = Some fv" "at_path fv p = Some v" using Cons.prems(4) fr by (auto split: option.splits)
  obtain gs where gs: "m = JObj i gs" "map_of gs k =
        (case map_of fs k of None \<Rightarrow> Some fv
         | Some tv \<Rightarrow> if isPlainObject tv \<and> isPlainObject fv then mergeData tv fv else Some tv)"
    using merge_lookup [OF Cons.prems(1) [unfolded fr], of i fs] Cons.prems(3) unfolding to fr
    by (cases "map_of fs k") (auto simp: fv(1))
  show ?case
  proof (cases "map_of fs k")
    case None
    then show ?thesis using gs fv by simp
  next
    case (Some tv)
    then have l: "leaves tv p" using Cons.prems(5) to by simp
    then obtain k' p' where p: "p = k' # p'" by (cases p) auto
    have pl: "isPlainObject tv" using l p by (cases tv) (auto simp: isPlain_obj)
    have pf: "isPlainObject fv" using fv(2) p by (cases fv) (auto simp: isPlain_obj)
    have w: "wf_data fv" using Cons.prems(1) map_of_SomeD [OF fv(1)] fr by auto
    obtain m' where m': "mergeData tv fv = Some m'" using merge_total [OF w pl pf] by blast
    show ?thesis using Cons.IH [OF w pf m' fv(2) l] pl pf m' gs Some by simp
  qed
qed

text \<open>
  Merging data ends and never overwrites: every value the component's data has, at whatever
  depth, stays, and every value of the defaults is found at its path where the component's data
  has nothing on the way to it.
\<close>

theorem mergeData_precedence:
  assumes "wf_data fr" "isPlainObject to" "isPlainObject fr"
  shows "\<exists>m. mergeData to fr = Some m \<and>
    (\<forall>p v. at_path to p = Some v \<longrightarrow> \<not> isPlainObject v \<longrightarrow> at_path m p = Some v) \<and>
    (\<forall>p v. at_path fr p = Some v \<longrightarrow> leaves to p \<longrightarrow> at_path m p = Some v)"
  using merge_total [OF assms] merge_keeps_own [OF assms] merge_adds_missing [OF assms(1,3)] by blast

lemma mergeData_precedence_witness:
  "\<exists>m. mergeData (JObj 1 [(''a'', JObj 2 [(''x'', JBool True)])]) (JObj 3 [(''a'', JObj 4 [(''x'', JNull), (''y'', JBool False)])]) = Some m \<and>
    at_path m [''a'', ''x''] = Some (JBool True) \<and> at_path m [''a'', ''y''] = Some (JBool False)"
proof -
  let ?to = "JObj 1 [(''a'', JObj 2 [(''x'', JBool True)])]" and ?from = "JObj 3 [(''a'', JObj 4 [(''x'', JNull), (''y'', JBool False)])]"
  obtain m where m: "mergeData ?to ?from = Some m" "\<forall>p v. at_path ?to p = Some v \<longrightarrow> \<not> isPlainObject v \<longrightarrow> at_path m p = Some v"
      "\<forall>p v. at_path ?from p = Some v \<longrightarrow> leaves ?to p \<longrightarrow> at_path m p = Some v"
    using mergeData_precedence [of ?from ?to] by (auto simp: isPlain_obj)
  have "at_path m [''a'', ''x''] = Some (JBool True)" by (rule m(2) [rule_format]) (simp_all add: isPlain_obj)
  moreover have "at_path m [''a'', ''y''] = Some (JBool False)" by (rule m(3) [rule_format]) simp_all
  ultimately show ?thesis using m(1) by blast
qed

section \<open>The order of lifecycle hooks\<close>

definition handlers :: "optval \<Rightarrow> jsval list" where
  "handlers v = (if truthy (the_val v) then elems_of (the_val v) else [])"

text \<open>The hooks of a component: those it extends, its mixins in order, then its own\<close>

primrec hook_order :: "string \<Rightarrow> component \<Rightarrow> jsval list" where
  "hook_order key (Component options extendsFrom mixins) =
     (case map_option (hook_order key) extendsFrom of Some hs \<Rightarrow> hs | None \<Rightarrow> []) @
     concat (map (hook_order key) mixins) @ handlers (opt_get options key)"

definition array_or_falsy :: "optval \<Rightarrow> bool" where
  "array_or_falsy v \<longleftrightarrow> \<not> truthy (the_val v) \<or> isArray (the_val v)"

lemma opt_get_put [simp]: "opt_get (obj_put k v os) k' = (if k' = k then v else opt_get os k')"
  by (simp add: opt_get_def)

lemma normalize_get:
  "key \<noteq> ''props'' \<Longrightarrow> opt_get (fst (normalizeProps os)) key = opt_get os key"
  "key \<noteq> ''inject'' \<Longrightarrow> opt_get (fst (normalizeInject os)) key = opt_get os key"
  "key \<noteq> ''directives'' \<Longrightarrow> opt_get (normalizeDirectives os) key = opt_get os key"
  by (simp_all add: normalizeProps_def normalizeInject_def normalizeDirectives_def Let_def split: optval.split jsval.split prod.split)

lemma fields_get:
  "opt_get (fst (foldl (mergeField vm parent child) acc ks)) key =
     (if key \<in> set ks then fst (strats key (opt_get parent key) (opt_get child key) vm) else opt_get (fst acc) key)"
  by (induction ks arbitrary: acc) (auto simp: mergeField_def split: prod.splits)

lemma mergeHook_handlers:
  "array_or_falsy p \<Longrightarrow> handlers (Val (mergeHook (the_val p) (the_val c))) = handlers p @ handlers c \<and>
     array_or_falsy (Val (mergeHook (the_val p) (the_val c)))"
  by (cases "the_val p"; cases "the_val c")
    (auto simp: handlers_def array_or_falsy_def mergeHook_def concat_val_def the_val_def [of "Val v" for v] isArray_def)

lemma mergeFields_hooks:
  assumes "key \<in> set LIFECYCLE_HOOKS" "array_or_falsy (opt_get parent key)"
  shows "handlers (opt_get (fst (mergeFields vm parent child)) key) = handlers (opt_get parent key) @ handlers (opt_get child key) \<and>
    array_or_falsy (opt_get (fst (mergeFields vm parent child)) key)"
proof -
  have s: "strats key p c vm = (Val (mergeHook (the_val p) (the_val c)), [])" for p c
    using assms(1) by (auto simp: strats_def LIFECYCLE_HOOKS_def)
  have u: "opt_get os key = Val JUndef" if "key \<notin> set (obj_keys os)" for os :: opts
  proof -
    have "map_of os key = None" using that by (simp add: map_of_eq_None_iff)
    then show ?thesis by (simp add: opt_get_def)
  qed
  show ?thesis
  proof (cases "key \<in> set (obj_keys parent) \<or> key \<in> set (obj_keys child)")
    case True
    then have "opt_get (fst (mergeFields vm parent child)) key = Val (mergeHook (the_val (opt_get parent key)) (the_val (opt_get child key)))"
      by (auto simp: mergeFields_def fields_get s)
    then show ?thesis using mergeHook_handlers [OF assms(2)] by simp
  next
    case False
    then have "opt_get parent key = Val JUndef" "opt_get child key = Val JUndef" using u by auto
    moreover have "opt_get (fst (mergeFields vm parent child)) key = Val JUndef"
      using False by (auto simp: mergeFields_def fields_get) (simp add: opt_get_def)
    ultimately show ?thesis by (simp add: handlers_def array_or_falsy_def the_val_def)
  qed
qed

lemma merge_hooks:
  assumes key: "key \<in> set LIFECYCLE_HOOKS"
  shows "array_or_falsy (opt_get (fst parent) key) \<Longrightarrow>
    handlers (opt_get (fst (mergeOptions reserved vm c parent)) key) = handlers (opt_get (fst parent) key) @ hook_order key c \<and>
    array_or_falsy (opt_get (fst (mergeOptions reserved vm c parent)) key)"
proof (induction c arbitrary: parent)
  case (Component options ext mix)
  have k: "key \<noteq> ''props''" "key \<noteq> ''inject''" "key \<noteq> ''directives''" using key by (auto simp: LIFECYCLE_HOOKS_def)
  define c3 where "c3 = normalizeDirectives (fst (normalizeInject (fst (normalizeProps options))))"
  have c3: "opt_get c3 key = opt_get options key" by (simp add: c3_def normalize_get k)
  define start where "start = (fst parent, snd parent @ checkComponents reserved options @ snd (normalizeProps options) @
    snd (normalizeInject (fst (normalizeProps options))))"
  define p1 where "p1 = (case map_option (mergeOptions reserved vm) ext of Some m \<Rightarrow> m start | None \<Rightarrow> start)"
  have p1: "handlers (opt_get (fst p1) key) =
      handlers (opt_get (fst parent) key) @ (case map_option (hook_order key) ext of Some hs \<Rightarrow> hs | None \<Rightarrow> [])"
      "array_or_falsy (opt_get (fst p1) key)"
    using Component.IH(1) [of _ start] Component.prems by (cases ext; auto simp: p1_def start_def)+
  have mix: "handlers (opt_get (fst (foldl (\<lambda>acc m. m acc) q (map (mergeOptions reserved vm) ms))) key) =
        handlers (opt_get (fst q) key) @ concat (map (hook_order key) ms) \<and>
      array_or_falsy (opt_get (fst (foldl (\<lambda>acc m. m acc) q (map (mergeOptions reserved vm) ms))) key)"
    if "array_or_falsy (opt_get (fst q) key)" "set ms \<subseteq> set mix" for q ms
    using that
  proof (induction ms arbitrary: q)
    case (Cons m ms)
    have "m \<in> set mix" using Cons.prems(2) by simp
    from Component.IH(2) [OF this Cons.prems(1)] Cons.IH [of "mergeOptions reserved vm m q"] Cons.prems(2)
    show ?case by simp
  qed simp
  define p2 where "p2 = foldl (\<lambda>acc m. m acc) p1 (map (mergeOptions reserved vm) mix)"
  have p2: "handlers (opt_get (fst p2) key) = handlers (opt_get (fst p1) key) @ concat (map (hook_order key) mix)"
      "array_or_falsy (opt_get (fst p2) key)"
    using mix [OF p1(2) order_refl] by (simp_all add: p2_def)
  have e: "fst (mergeOptions reserved vm (Component options ext mix) parent) = fst (mergeFields vm (fst p2) c3)"
    by (cases ext) (simp_all add: c3_def p2_def p1_def start_def Let_def case_prod_beta)
  show ?case unfolding e using mergeFields_hooks [OF key p2(2), of vm c3] by (simp add: p2(1) p1(1) c3)
qed

text \<open>
  C24. Lifecycle hooks run in the documented order: in the merged options of a component, the
  handlers of a hook are those of the parent options, then those of the component it extends, of
  its mixins in order, each with its own extended component and mixins before it, and its own
  last.
\<close>

theorem mergeOptions_hook_order:
  assumes "key \<in> set LIFECYCLE_HOOKS" "array_or_falsy (opt_get parent key)"
  shows "handlers (opt_get (fst (mergeOptions reserved vm c (parent, ws))) key) = handlers (opt_get parent key) @ hook_order key c"
  using merge_hooks [OF assms(1), of "(parent, ws)" reserved vm c] assms(2) by simp

lemma mergeOptions_hook_order_witness:
  "handlers (opt_get (fst (mergeOptions (\<lambda>_. False) False
       (Component [(''created'', Val (JFun 3 []))] (Some (Component [(''created'', Val (JFun 1 []))] None []))
          [Component [(''created'', Val (JArr 0 [JFun 2 []]))] None []])
       ([(''created'', Val (JArr 0 [JFun 0 []]))], []))) ''created'') = [JFun 0 [], JFun 1 [], JFun 2 [], JFun 3 []]"
  by (subst mergeOptions_hook_order)
    (simp_all add: LIFECYCLE_HOOKS_def array_or_falsy_def opt_get_def the_val_def isArray_def handlers_def)

end
