(* ===== verification/Props.thy ===== *)
theory Props
  imports SharedUtil
begin

text \<open>
  The validation of props in \<open>frontend/js/vue.js\<close>: \<open>validateProp\<close> and its parts. \<open>instanceof\<close> (on the
  application's classes), the default factories and the custom validators are parameters. The
  lemmas show what the boolean cast does and that a value that passes without a warning has one of
  the declared types.
\<close>

section \<open>Types\<close>

text \<open>\<open>fn && fn.toString().match(/^\s*function (\w+)/)\<close>\<close>

definition getType :: "jsval \<Rightarrow> string" where
  "getType fn =
     (let s = trim_start (js_String fn) in
      if truthy fn \<and> starts_with ''function '' s then takeWhile is_word (drop 9 s) else [])"

definition isSameType :: "jsval \<Rightarrow> jsval \<Rightarrow> bool" where
  "isSameType a b \<longleftrightarrow> getType a = getType b"

text \<open>The index, or \<open>None\<close> for -1\<close>

definition getTypeIndex :: "jsval \<Rightarrow> jsval \<Rightarrow> nat option" where
  "getTypeIndex type expectedTypes =
     (case expectedTypes of
        JArr _ ts \<Rightarrow> index_by (\<lambda>t. isSameType t type) ts
      | _ \<Rightarrow> if isSameType expectedTypes type then Some 0 else None)"

definition native :: "string \<Rightarrow> jsval" where
  "native name = JFun 0 (''function '' @ name @ ''() { [native code] }'')"

definition simple_types :: "string list" where
  "simple_types = [''String'', ''Number'', ''Boolean'', ''Function'', ''Symbol'']"

definition assertType :: "(jsval \<Rightarrow> jsval \<Rightarrow> bool) \<Rightarrow> jsval \<Rightarrow> jsval \<Rightarrow> bool \<times> string" where
  "assertType inst value type =
     (let expectedType = getType type in
      (if expectedType \<in> set simple_types then
         js_typeof value = toLowerCase expectedType \<or> (js_typeof value = ''object'' \<and> inst value type)
       else if expectedType = ''Object'' then isPlainObject value
       else if expectedType = ''Array'' then (case value of JArr _ _ \<Rightarrow> True | _ \<Rightarrow> False)
       else inst value type,
       expectedType))"

section \<open>Assertions\<close>

text \<open>The loop over the types stops at the first valid one.\<close>

fun assert_types :: "(jsval \<Rightarrow> jsval \<Rightarrow> bool) \<Rightarrow> jsval \<Rightarrow> jsval list \<Rightarrow> bool \<times> string list" where
  "assert_types inst value [] = (False, [])"
| "assert_types inst value (t # ts) =
     (let (ok, e) = assertType inst value t in
      if ok then (True, [e])
      else (let (ok', es) = assert_types inst value ts in (ok', e # es)))"

definition assertProp ::
    "(jsval \<Rightarrow> jsval \<Rightarrow> bool) \<Rightarrow> (jsval \<Rightarrow> jsval \<Rightarrow> bool) \<Rightarrow> jsval obj \<Rightarrow> string \<Rightarrow> jsval \<Rightarrow> bool \<Rightarrow> string list" where
  "assertProp inst check prop name value absent =
     (let required = truthy (get_or_undef prop ''required''); type = get_or_undef prop ''type'';
          validator = get_or_undef prop ''validator'' in
      if required \<and> absent then [''Missing required prop: '' @ [dq] @ name @ [dq]]
      else if isUndef value \<and> \<not> required then []
      else
        (let (ok, expected) =
           (if \<not> truthy type \<or> type = JBool True then (True, [])
            else assert_types inst value (case type of JArr _ ts \<Rightarrow> ts | _ \<Rightarrow> [type]))
         in if \<not> ok then
              [''Invalid prop: type check failed for prop '' @ [dq] @ name @ [dq] @ ''. Expected '' @
               join '', '' (map capitalize expected) @ '', got '' @ toRawType value @ ''.'']
            else if truthy validator \<and> \<not> check validator value then
              [''Invalid prop: custom validator check failed for prop '' @ [dq] @ name @ [dq] @ ''.'']
            else []))"

section \<open>The value of a prop\<close>

text \<open>
  \<open>getPropDefaultValue\<close>; \<open>vm\<close> gives the instance's previous \<open>propsData\<close>, if any, and its current \<open>_props\<close>.
\<close>

definition getPropDefaultValue ::
    "(jsval \<Rightarrow> jsval) \<Rightarrow> (jsval obj option \<times> jsval obj) option \<Rightarrow> jsval obj \<Rightarrow> string \<Rightarrow> jsval \<times> string list" where
  "getPropDefaultValue call vm prop key =
     (if \<not> hasOwn prop ''default'' then (JUndef, [])
      else
        (let def = get_or_undef prop ''default'';
             ws = (if isObject def then
                     [''Invalid default value for prop '' @ [dq] @ key @ [dq] @ '': Props with type Object/Array must use a factory function to return the default value.'']
                   else []);
             previous = (case vm of
                 Some (Some propsData, props) \<Rightarrow>
                   if get_or_undef propsData key = JUndef \<and> get_or_undef props key \<noteq> JUndef then Some (get_or_undef props key) else None
               | _ \<Rightarrow> None)
         in (case previous of
               Some v \<Rightarrow> v
             | None \<Rightarrow>
                 if js_typeof def = ''function'' \<and> getType (get_or_undef prop ''type'') \<noteq> ''Function'' then call def else def,
             ws)))"

definition cast_boolean :: "jsval obj \<Rightarrow> string \<Rightarrow> bool \<Rightarrow> jsval \<Rightarrow> jsval" where
  "cast_boolean prop key absent value =
     (case getTypeIndex (native ''Boolean'') (get_or_undef prop ''type'') of
        None \<Rightarrow> value
      | Some b \<Rightarrow>
          if absent \<and> \<not> hasOwn prop ''default'' then JBool False
          else if value = JStr [] \<or> value = JStr (hyphenate key) then
            (case getTypeIndex (native ''String'') (get_or_undef prop ''type'') of
               None \<Rightarrow> JBool True
             | Some i \<Rightarrow> if b < i then JBool True else value)
          else value)"

text \<open>\<open>validateProp\<close>: the value and the warnings. (A default value is observed, which changes no value.)\<close>

definition validateProp ::
    "(jsval \<Rightarrow> jsval) \<Rightarrow> (jsval \<Rightarrow> jsval \<Rightarrow> bool) \<Rightarrow> (jsval \<Rightarrow> jsval \<Rightarrow> bool) \<Rightarrow> string \<Rightarrow> jsval obj \<Rightarrow> jsval obj \<Rightarrow>
       (jsval obj option \<times> jsval obj) option \<Rightarrow> jsval \<times> string list" where
  "validateProp call inst check key propOptions propsData vm =
     (let prop = own_props (get_or_undef propOptions key);
          absent = (\<not> hasOwn propsData key);
          v1 = cast_boolean prop key absent (get_or_undef propsData key);
          (v2, ws) = (if v1 = JUndef then getPropDefaultValue call vm prop key else (v1, []))
      in (v2, ws @ assertProp inst check prop key v2 absent))"

section \<open>What a prop can be\<close>

lemma getType_native: "list_all is_word name \<Longrightarrow> getType (native name) = name"
proof -
  assume a: "list_all is_word name"
  have "takeWhile is_word (name @ ''() { [native code] }'') = name"
    using a by (simp add: takeWhile_append2 list_all_iff is_word_def is_upper_def is_lower_def is_digit_def code_def)
  then show ?thesis by (simp add: getType_def native_def trim_start_def is_space_def starts_with_def Let_def code_def)
qed

text \<open>A value of one of the types: the type asserted, or none declared\<close>

definition of_type :: "(jsval \<Rightarrow> jsval \<Rightarrow> bool) \<Rightarrow> jsval \<Rightarrow> jsval \<Rightarrow> bool" where
  "of_type inst type value \<longleftrightarrow>
     \<not> truthy type \<or> type = JBool True \<or>
     (\<exists>t\<in>set (case type of JArr _ ts \<Rightarrow> ts | _ \<Rightarrow> [type]). fst (assertType inst value t))"

lemma assert_types_ok: "fst (assert_types inst value ts) \<longleftrightarrow> (\<exists>t\<in>set ts. fst (assertType inst value t))"
  by (induction ts) (auto split: prod.splits)

lemma assertProp_sound:
  "assertProp inst check prop name value absent = [] \<Longrightarrow>
   (isUndef value \<and> \<not> truthy (get_or_undef prop ''required'')) \<or>
   (of_type inst (get_or_undef prop ''type'') value \<and>
    (truthy (get_or_undef prop ''validator'') \<longrightarrow> check (get_or_undef prop ''validator'') value))"
  using assert_types_ok [of inst "value" "case get_or_undef prop ''type'' of JArr _ ts \<Rightarrow> ts | _ \<Rightarrow> [get_or_undef prop ''type'']"]
  by (auto simp: assertProp_def Let_def of_type_def split: if_splits prod.splits)

text \<open>
  C21. A prop that is validated without a warning is what its declaration asks for: it is absent (null or
  undefined) and not required, or it has one of the declared types and passes the custom
  validator; a required prop was given.
\<close>

theorem validateProp_sound:
  assumes "validateProp call inst check key propOptions propsData vm = (value, [])"
    and "own_props (get_or_undef propOptions key) = prop"
  shows "(truthy (get_or_undef prop ''required'') \<longrightarrow> hasOwn propsData key) \<and>
    ((isUndef value \<and> \<not> truthy (get_or_undef prop ''required'')) \<or>
     (of_type inst (get_or_undef prop ''type'') value \<and>
      (truthy (get_or_undef prop ''validator'') \<longrightarrow> check (get_or_undef prop ''validator'') value)))"
proof -
  have "assertProp inst check prop key value (\<not> hasOwn propsData key) = []"
    using assms by (auto simp: validateProp_def Let_def split: prod.splits)
  then show ?thesis using assertProp_sound by (auto simp: assertProp_def Let_def split: if_splits)
qed

lemma validateProp_sound_witness:
  "of_type (\<lambda>_ _. False) (native ''Number'') (JNum (Dec 7 0))"
proof -
  have "validateProp id (\<lambda>_ _. False) (\<lambda>_ _. True) ''n'' [(''n'', JObj 1 [(''type'', native ''Number'')])] [(''n'', JNum (Dec 7 0))] None =
      (JNum (Dec 7 0), [])" by code_simp
  from validateProp_sound [OF this refl] show ?thesis
    by (simp add: get_or_undef_def isUndef_def)
qed

text \<open>
  The boolean cast: for a prop whose first matching declared type is Boolean, leaving the prop
  out means false (unless a default is given), and writing the bare attribute, or the attribute
  with its own name as value, means true; any other value is passed on unchanged.
\<close>

theorem boolean_prop_cast:
  assumes "own_props (get_or_undef propOptions key) = prop" "getTypeIndex (native ''Boolean'') (get_or_undef prop ''type'') = Some b"
    and "case getTypeIndex (native ''String'') (get_or_undef prop ''type'') of None \<Rightarrow> True | Some i \<Rightarrow> b < i"
    and "\<not> hasOwn prop ''default''"
  shows "fst (validateProp call inst check key propOptions propsData vm) =
    (if \<not> hasOwn propsData key then JBool False
     else if get_or_undef propsData key \<in> {JStr [], JStr (hyphenate key)} then JBool True
     else get_or_undef propsData key)"
  using assms
  by (auto simp: validateProp_def Let_def cast_boolean_def getPropDefaultValue_def split: option.splits prod.splits)

lemma boolean_prop_cast_witness:
  "fst (validateProp id (\<lambda>_ _. False) (\<lambda>_ _. True) ''isOpen'' [(''isOpen'', JObj 1 [(''type'', native ''Boolean'')])]
      [(''isOpen'', JStr ''is-open'')] None) = JBool True"
proof -
  let ?decl = "[(''type'', native ''Boolean'')]"
  let ?po = "[(''isOpen'', JObj 1 ?decl)]" and ?pd = "[(''isOpen'', JStr ''is-open'')]"
  have "own_props (get_or_undef ?po ''isOpen'') = ?decl" "getTypeIndex (native ''Boolean'') (get_or_undef ?decl ''type'') = Some 0"
      "case getTypeIndex (native ''String'') (get_or_undef ?decl ''type'') of None \<Rightarrow> True | Some i \<Rightarrow> 0 < i"
      "\<not> hasOwn ?decl ''default''" by code_simp+
  from boolean_prop_cast [OF this, where propsData = ?pd]
  have "fst (validateProp id (\<lambda>_ _. False) (\<lambda>_ _. True) ''isOpen'' ?po ?pd None) =
      (if \<not> hasOwn ?pd ''isOpen'' then JBool False
       else if get_or_undef ?pd ''isOpen'' \<in> {JStr [], JStr (hyphenate ''isOpen'')} then JBool True
       else get_or_undef ?pd ''isOpen'')" .
  also have "\<dots> = JBool True" by code_simp
  finally show ?thesis .
qed

end
