(* ===== verification/KeepAlive.thy ===== *)
theory KeepAlive
  imports SharedUtil
begin

text \<open>
  The \<open>keep-alive\<close> component of \<open>frontend/js/vue.js\<close>: its cache of component instances, the order
  of its keys, and the pruning by pattern and by number. A regular expression is a parameter. The
  lemmas show that the cache and its keys agree, that the cache is bounded by \<open>max\<close>, and that the
  component dropped is the one whose last use is the longest ago.
\<close>

section \<open>State\<close>

text \<open>A vnode of a component; its instance exists once the vnode has been patched.\<close>

record knode =
  kn_tag :: string
  kn_name :: "string option"
  kn_inst :: "nat option"

text \<open>\<open>k_vnode\<close> is the vnode rendered last (\<open>_vnode\<close>), \<open>k_destroyed\<close> the instances destroyed so far.\<close>

record keep =
  k_cache :: "knode option obj"
  k_keys :: "string list"
  k_vnode :: "knode option"
  k_destroyed :: "nat list"

definition keep_created :: keep where
  "keep_created = \<lparr>k_cache = [], k_keys = [], k_vnode = None, k_destroyed = []\<rparr>"

definition cached_node :: "keep \<Rightarrow> string \<Rightarrow> knode option" where
  "cached_node st key = (case map_of (k_cache st) key of Some e \<Rightarrow> e | None \<Rightarrow> None)"

section \<open>Patterns and pruning\<close>

definition matches :: "(jsval \<Rightarrow> string \<Rightarrow> bool) \<Rightarrow> jsval \<Rightarrow> string \<Rightarrow> bool" where
  "matches regexp pattern name =
     (case pattern of
        JArr _ xs \<Rightarrow> list_ex (\<lambda>x. strict_eq x (JStr name)) xs
      | JStr s \<Rightarrow> name \<in> set (split_on (CHR '','') s)
      | _ \<Rightarrow> isRegExp pattern \<and> regexp pattern name)"

text \<open>\<open>None\<close> is the exception of destroying an instance that does not exist.\<close>

definition pruneCacheEntry :: "string \<Rightarrow> knode option \<Rightarrow> keep \<Rightarrow> keep option" where
  "pruneCacheEntry key current st =
     (let gone = (\<lambda>ds. st\<lparr>k_cache := obj_put key None (k_cache st), k_keys := remove_item (k_keys st) key,
                         k_destroyed := k_destroyed st @ ds\<rparr>)
      in case cached_node st key of
           None \<Rightarrow> Some (gone [])
         | Some c \<Rightarrow>
             (if (case current of None \<Rightarrow> True | Some cur \<Rightarrow> kn_tag c \<noteq> kn_tag cur) then
                (case kn_inst c of Some i \<Rightarrow> Some (gone [i]) | None \<Rightarrow> None)
              else Some (gone [])))"

fun prune_keys :: "(knode \<Rightarrow> bool) \<Rightarrow> knode option \<Rightarrow> string list \<Rightarrow> keep \<Rightarrow> keep option" where
  "prune_keys drop_it current [] st = Some st"
| "prune_keys drop_it current (key # ks) st =
     (if (case cached_node st key of Some c \<Rightarrow> drop_it c | None \<Rightarrow> False) then
        (case pruneCacheEntry key current st of Some st1 \<Rightarrow> prune_keys drop_it current ks st1 | None \<Rightarrow> None)
      else prune_keys drop_it current ks st)"

text \<open>When \<open>include\<close> or \<open>exclude\<close> change\<close>

definition pruneCache :: "(string \<Rightarrow> bool) \<Rightarrow> keep \<Rightarrow> keep option" where
  "pruneCache filt st =
     prune_keys (\<lambda>c. case kn_name c of Some name \<Rightarrow> name \<noteq> [] \<and> \<not> filt name | None \<Rightarrow> False)
       (k_vnode st) (obj_keys (k_cache st)) st"

definition watch_include :: "(jsval \<Rightarrow> string \<Rightarrow> bool) \<Rightarrow> jsval \<Rightarrow> keep \<Rightarrow> keep option" where
  "watch_include regexp val = pruneCache (\<lambda>name. matches regexp val name)"

definition watch_exclude :: "(jsval \<Rightarrow> string \<Rightarrow> bool) \<Rightarrow> jsval \<Rightarrow> keep \<Rightarrow> keep option" where
  "watch_exclude regexp val = pruneCache (\<lambda>name. \<not> matches regexp val name)"

fun prune_all :: "string list \<Rightarrow> keep \<Rightarrow> keep option" where
  "prune_all [] st = Some st"
| "prune_all (key # ks) st = (case pruneCacheEntry key None st of Some st1 \<Rightarrow> prune_all ks st1 | None \<Rightarrow> None)"

definition keep_destroyed :: "keep \<Rightarrow> keep option" where
  "keep_destroyed st = prune_all (obj_keys (k_cache st)) st"

section \<open>Rendering\<close>

definition cache_key :: "string option \<Rightarrow> nat \<Rightarrow> string option \<Rightarrow> string" where
  "cache_key key cid tag =
     (case key of
        Some k \<Rightarrow> k
      | None \<Rightarrow> show_nat cid @ (case tag of Some t \<Rightarrow> if t \<noteq> [] then ''::'' @ t else [] | None \<Rightarrow> []))"

definition left_out :: "(jsval \<Rightarrow> string \<Rightarrow> bool) \<Rightarrow> jsval \<Rightarrow> jsval \<Rightarrow> string option \<Rightarrow> bool" where
  "left_out regexp incl excl name \<longleftrightarrow>
     (let named = (case name of Some n \<Rightarrow> n \<noteq> [] | None \<Rightarrow> False); n = (case name of Some n \<Rightarrow> n | None \<Rightarrow> []) in
      (truthy incl \<and> (\<not> named \<or> \<not> matches regexp incl n)) \<or> (truthy excl \<and> named \<and> matches regexp excl n))"

text \<open>\<open>this.max && keys.length > parseInt(this.max)\<close>\<close>

definition too_many :: "jsval \<Rightarrow> string list \<Rightarrow> bool" where
  "too_many mx keys \<longleftrightarrow>
     truthy mx \<and> (case parse_int (js_String mx) of Some m \<Rightarrow> int (length keys) > m | None \<Rightarrow> False)"

text \<open>The vnode that is rendered, with the instance it takes over from the cache\<close>

definition keep_render ::
    "(jsval \<Rightarrow> string \<Rightarrow> bool) \<Rightarrow> jsval \<Rightarrow> jsval \<Rightarrow> jsval \<Rightarrow> string \<Rightarrow> knode \<Rightarrow> keep \<Rightarrow> (knode \<times> keep) option" where
  "keep_render regexp incl excl mx key vnode st =
     (if left_out regexp incl excl (kn_name vnode) then Some (vnode, st)
      else
        case cached_node st key of
          Some c \<Rightarrow>
            Some (vnode\<lparr>kn_inst := kn_inst c\<rparr>, st\<lparr>k_keys := remove_item (k_keys st) key @ [key]\<rparr>)
        | None \<Rightarrow>
            (let st1 = st\<lparr>k_cache := obj_put key (Some vnode) (k_cache st), k_keys := k_keys st @ [key]\<rparr> in
             if too_many mx (k_keys st1) then
               map_option (\<lambda>st2. (vnode, st2)) (pruneCacheEntry (hd (k_keys st1)) (k_vnode st) st1)
             else Some (vnode, st1)))"

text \<open>
  The patch that follows: the vnode becomes the current one; when it has no instance, it gets one,
  and so does the cache, which holds the same vnode.
\<close>

definition keep_patch :: "nat \<Rightarrow> string \<Rightarrow> knode \<Rightarrow> keep \<Rightarrow> keep" where
  "keep_patch fresh key vnode st =
     (let v = (if kn_inst vnode = None then vnode\<lparr>kn_inst := Some fresh\<rparr> else vnode) in
      st\<lparr>k_vnode := Some v,
         k_cache := (if cached_node st key = Some vnode then obj_put key (Some v) (k_cache st) else k_cache st)\<rparr>)"

section \<open>A sequence of components\<close>

text \<open>The components shown one after the other, each with its key, rendered and patched\<close>

fun keep_run :: "jsval \<Rightarrow> nat \<Rightarrow> (string \<times> knode) list \<Rightarrow> keep \<Rightarrow> keep option" where
  "keep_run mx fresh [] st = Some st"
| "keep_run mx fresh ((key, vnode) # vs) st =
     (case keep_render (\<lambda>_ _. False) JUndef JUndef mx key vnode st of
        None \<Rightarrow> None
      | Some (v, st1) \<Rightarrow> keep_run mx (fresh + 1) vs (keep_patch fresh key v st1))"

text \<open>The keys are those of the cache, each once, and every cached vnode has its instance.\<close>

definition keep_inv :: "keep \<Rightarrow> bool" where
  "keep_inv st \<longleftrightarrow>
     distinct (k_keys st) \<and> (\<forall>key. key \<in> set (k_keys st) \<longleftrightarrow> cached_node st key \<noteq> None) \<and>
     (\<forall>key c. cached_node st key = Some c \<longrightarrow> kn_inst c \<noteq> None)"

text \<open>The last elements of a list\<close>

definition last_n :: "nat \<Rightarrow> 'a list \<Rightarrow> 'a list" where
  "last_n n xs = drop (length xs - n) xs"

lemma remdups_snoc: "remdups (xs @ [x]) = filter (\<lambda>y. y \<noteq> x) (remdups xs) @ [x]"
  by (induction xs) auto

lemma last_n_step:
  assumes "distinct xs" "0 < n"
  shows "last_n n (filter (\<lambda>y. y \<noteq> x) xs @ [x]) =
    (if x \<in> set (last_n n xs) then remove1 x (last_n n xs) @ [x]
     else if length (last_n n xs) < n then last_n n xs @ [x] else tl (last_n n xs) @ [x])"
proof -
  define A L where "A = take (length xs - n) xs" and "L = last_n n xs"
  have xs: "xs = A @ L" by (simp add: A_def L_def last_n_def)
  have LL: "last_n n (A @ L) = L" by (metis L_def xs)
  have dL: "distinct L" "distinct A" "set A \<inter> set L = {}" using assms(1) by (auto simp: xs)
  have len: "length L = min n (length xs)" by (simp add: L_def last_n_def min_def)
  have A0: "length L < n \<Longrightarrow> A = []" using len by (auto simp: A_def)
  have rL: "remove1 x L = filter (\<lambda>y. y \<noteq> x) L" 
    using dL(1) by (simp add: distinct_remove1_removeAll removeAll_filter_not_eq) (rule filter_cong; auto)
  show ?thesis
  proof (cases "x \<in> set L")
    case True
    then have fA: "filter (\<lambda>y. y \<noteq> x) A = A" using dL(3) by (auto simp: filter_id_conv)
    have l: "length (remove1 x L @ [x]) = length L" using True by (simp add: length_remove1) (metis Suc_pred length_pos_if_in_set)
    have "last_n n (A @ (remove1 x L @ [x])) = remove1 x L @ [x]"
    proof (cases "length L < n")
      case True
      then show ?thesis using A0 l by (simp add: last_n_def)
    next
      case False
      then have "length L = n" using len by simp
      then show ?thesis using l by (simp add: last_n_def)
    qed
    then show ?thesis using True fA by (simp add: xs rL LL)
  next
    case False
    have fL: "filter (\<lambda>y. y \<noteq> x) L = L" using False by (auto simp: filter_id_conv)
    show ?thesis
    proof (cases "length L < n")
      case True
      then show ?thesis using A0 False fL by (simp add: xs LL) (simp add: last_n_def)
    next
      case lt: False
      then have "length L = n" using len by simp
      moreover then obtain y L' where "L = y # L'" using assms(2) by (cases L) auto
      ultimately have "last_n n (B @ L @ [x]) = tl L @ [x]" for B by (simp add: last_n_def)
      then show ?thesis using False fL lt by (simp add: xs LL)
    qed
  qed
qed

section \<open>Least recently used\<close>

lemma cached_put [simp]: "cached_node (st\<lparr>k_cache := obj_put key v (k_cache st)\<rparr>) k = (if k = key then v else cached_node st k)"
  by (simp add: cached_node_def)

lemma cached_fields [simp]:
  "cached_node (st\<lparr>k_keys := ks\<rparr>) k = cached_node st k" "cached_node (st\<lparr>k_destroyed := ds\<rparr>) k = cached_node st k"
  "cached_node (st\<lparr>k_vnode := v\<rparr>) k = cached_node st k"
  by (simp_all add: cached_node_def)

lemma prune_entry:
  assumes "cached_node st key = Some c" "kn_inst c \<noteq> None"
  shows "\<exists>ds. pruneCacheEntry key current st =
    Some (st\<lparr>k_cache := obj_put key None (k_cache st), k_keys := remove1 key (k_keys st), k_destroyed := k_destroyed st @ ds\<rparr>)"
proof (cases "case current of None \<Rightarrow> True | Some cur \<Rightarrow> kn_tag c \<noteq> kn_tag cur")
  case True
  then show ?thesis using assms by (auto simp: pruneCacheEntry_def Let_def js_simps)
next
  case False
  then show ?thesis using assms by (intro exI [of _ "[]"]) (simp add: pruneCacheEntry_def Let_def js_simps)
qed

text \<open>One component shown: the key moves to the end; when there are too many, the first one is dropped.\<close>

lemma visit:
  assumes inv: "keep_inv st" and new: "kn_inst vnode = None" and m: "\<And>ks. too_many mx ks \<longleftrightarrow> m < length ks" "0 < m" "length (k_keys st) \<le> m"
  shows "\<exists>v st1. keep_render (\<lambda>_ _. False) JUndef JUndef mx key vnode st = Some (v, st1) \<and>
    keep_inv (keep_patch fresh key v st1) \<and>
    k_keys (keep_patch fresh key v st1) =
      (if key \<in> set (k_keys st) then remove1 key (k_keys st) @ [key]
       else if length (k_keys st) < m then k_keys st @ [key] else tl (k_keys st) @ [key])"
proof -
  have lo: "\<not> left_out (\<lambda>_ _. False) JUndef JUndef n" for n by (simp add: left_out_def Let_def)
  have d: "distinct (k_keys st)" and ck: "\<And>k. k \<in> set (k_keys st) \<longleftrightarrow> cached_node st k \<noteq> None"
    and ci: "\<And>k c. cached_node st k = Some c \<Longrightarrow> kn_inst c \<noteq> None" using inv by (auto simp: keep_inv_def)
  show ?thesis
  proof (cases "cached_node st key")
    case (Some c)
    let ?v = "vnode\<lparr>kn_inst := kn_inst c\<rparr>" and ?st1 = "st\<lparr>k_keys := remove1 key (k_keys st) @ [key]\<rparr>"
    have r: "keep_render (\<lambda>_ _. False) JUndef JUndef mx key vnode st = Some (?v, ?st1)"
      using Some by (simp add: keep_render_def lo js_simps)
    have k: "key \<in> set (k_keys st)" using ck Some by simp
    have "kn_inst ?v \<noteq> None" using ci [OF Some] by simp
    then have c: "cached_node (keep_patch fresh key ?v ?st1) k' = cached_node st k'" for k'
      by (auto simp: keep_patch_def Let_def) (simp_all add: cached_node_def)
    have ks: "k_keys (keep_patch fresh key ?v ?st1) = remove1 key (k_keys st) @ [key]" by (simp add: keep_patch_def Let_def)
    have "keep_inv (keep_patch fresh key ?v ?st1)"
      using d k ck ci unfolding keep_inv_def c ks by (auto simp: set_remove1_eq)
    then show ?thesis using r ks k by (intro exI [of _ ?v] exI [of _ ?st1]) simp
  next
    case None
    then have nk: "key \<notin> set (k_keys st)" using ck by simp
    let ?st1 = "st\<lparr>k_cache := obj_put key (Some vnode) (k_cache st), k_keys := k_keys st @ [key]\<rparr>"
    have c1: "cached_node ?st1 k = (if k = key then Some vnode else cached_node st k)" for k by (simp add: cached_node_def)
    show ?thesis
    proof (cases "length (k_keys st) < m")
      case True
      then have r: "keep_render (\<lambda>_ _. False) JUndef JUndef mx key vnode st = Some (vnode, ?st1)"
        using None m(1) by (simp add: keep_render_def lo Let_def)
      have c: "cached_node (keep_patch fresh key vnode ?st1) k =
          (if k = key then Some (vnode\<lparr>kn_inst := Some fresh\<rparr>) else cached_node st k)" for k
        using new by (simp add: keep_patch_def Let_def c1) (simp add: cached_node_def)
      have ks: "k_keys (keep_patch fresh key vnode ?st1) = k_keys st @ [key]" by (simp add: keep_patch_def Let_def)
      have "keep_inv (keep_patch fresh key vnode ?st1)"
        using d nk ck ci unfolding keep_inv_def c ks by auto
      then show ?thesis using r ks nk True by (intro exI [of _ vnode] exI [of _ ?st1]) simp
    next
      case False
      then have l: "length (k_keys st) = m" using m(3) by simp
      then obtain k0 ks0 where k0: "k_keys st = k0 # ks0" using m(2) by (cases "k_keys st") auto
      have k0': "k0 \<noteq> key" using nk k0 by auto
      obtain c0 where c0: "cached_node st k0 = Some c0" using ck [of k0] k0 by auto
      have "cached_node ?st1 k0 = Some c0" using c0 k0' by (simp add: c1)
      then obtain ds where ds: "pruneCacheEntry k0 (k_vnode st) ?st1 =
          Some (?st1\<lparr>k_cache := obj_put k0 None (k_cache ?st1), k_keys := remove1 k0 (k_keys ?st1), k_destroyed := k_destroyed ?st1 @ ds\<rparr>)"
        using prune_entry [OF _ ci [OF c0]] by blast
      define st2 where "st2 = ?st1\<lparr>k_cache := obj_put k0 None (k_cache ?st1), k_keys := remove1 k0 (k_keys ?st1), k_destroyed := k_destroyed ?st1 @ ds\<rparr>"
      have r: "keep_render (\<lambda>_ _. False) JUndef JUndef mx key vnode st = Some (vnode, st2)"
        using None m(1) l ds k0 by (simp add: keep_render_def lo Let_def st2_def)
      have c2: "cached_node st2 k = (if k = k0 then None else if k = key then Some vnode else cached_node st k)" for k
        by (simp add: st2_def cached_node_def)
      have c: "cached_node (keep_patch fresh key vnode st2) k =
          (if k = k0 then None else if k = key then Some (vnode\<lparr>kn_inst := Some fresh\<rparr>) else cached_node st k)" for k
        using new k0' c2 by (simp add: keep_patch_def Let_def) (simp add: cached_node_def)
      have ks: "k_keys (keep_patch fresh key vnode st2) = ks0 @ [key]"
        using k0 by (simp add: keep_patch_def Let_def st2_def)
      have "keep_inv (keep_patch fresh key vnode st2)"
        using d nk ck ci k0 k0' unfolding keep_inv_def c ks by auto
      then show ?thesis using r ks nk l k0 by (intro exI [of _ vnode] exI [of _ st2]) simp
    qed
  qed
qed

lemma run_lru:
  assumes m: "\<And>ks. too_many mx ks \<longleftrightarrow> m < length ks" "0 < m"
  shows "keep_inv st \<Longrightarrow> k_keys st = last_n m (remdups used) \<Longrightarrow> \<forall>v\<in>set vs. kn_inst (snd v) = None \<Longrightarrow>
    \<exists>st'. keep_run mx fresh vs st = Some st' \<and> keep_inv st' \<and> k_keys st' = last_n m (remdups (used @ map fst vs))"
proof (induction vs arbitrary: st used fresh)
  case Nil
  then show ?case by simp
next
  case (Cons p vs)
  obtain key vnode where p: "p = (key, vnode)" by (cases p)
  have len: "length (k_keys st) \<le> m" by (simp add: Cons.prems(2) last_n_def)
  have new: "kn_inst vnode = None" using Cons.prems(3) p by simp
  obtain v st1 where 1: "keep_render (\<lambda>_ _. False) JUndef JUndef mx key vnode st = Some (v, st1)"
      "keep_inv (keep_patch fresh key v st1)"
      "k_keys (keep_patch fresh key v st1) =
        (if key \<in> set (k_keys st) then remove1 key (k_keys st) @ [key]
         else if length (k_keys st) < m then k_keys st @ [key] else tl (k_keys st) @ [key])"
    using visit [OF Cons.prems(1) new m len] by blast
  have "k_keys (keep_patch fresh key v st1) = last_n m (remdups (used @ [key]))"
    unfolding 1(3) Cons.prems(2) remdups_snoc by (rule last_n_step [symmetric]) (simp_all add: m(2))
  from Cons.IH [OF 1(2) this] Cons.prems(3) show ?case using 1(1) p by simp
qed



text \<open>
  With \<open>max\<close> given as the text 0 the first render throws: the vnode just cached is the oldest one
  and is pruned before it has an instance to destroy.
\<close>

theorem keep_alive_max_zero_throws:
  assumes "truthy mx" "parse_int (js_String mx) = Some 0" "kn_inst vnode = None" "\<not> left_out regexp incl excl (kn_name vnode)"
  shows "keep_render regexp incl excl mx key vnode keep_created = None"
  using assms by (simp add: keep_render_def keep_created_def cached_node_def too_many_def pruneCacheEntry_def Let_def)

lemma keep_alive_max_zero_throws_witness:
  "keep_render (\<lambda>_ _. False) JUndef JUndef (JStr ''0'') ''a'' \<lparr>kn_tag = ''a'', kn_name = None, kn_inst = None\<rparr> keep_created = None"
proof -
  have "parse_int (js_String (JStr ''0'')) = Some 0" by code_simp
  then show ?thesis by (intro keep_alive_max_zero_throws) (simp_all add: left_out_def Let_def)
qed

end
