(* ===== verification/EventsProof.thy ===== *)
theory EventsProof
  imports Events "HOL-Library.Multiset"
begin

text \<open>
  The listeners of \<open>Events\<close>: a contract for what \<open>updateListeners\<close> adds listeners to and removes
  them from (\<open>listener_target\<close>), met by the DOM listeners of an element and by the events of a
  component; that a patch keeps them in step with the vnode; what an emitted event calls; the merged
  hooks; and the round trip of the marks of an event name.
\<close>

section \<open>The contract of a target\<close>

text \<open>
  A table gives every event name its invoker; the target holds exactly those, each under what it
  keeps of the name (\<open>same\<close>).
\<close>

definition table_ok ::
    "('t \<Rightarrow> event_info \<Rightarrow> nat \<Rightarrow> bool) \<Rightarrow> ('t \<Rightarrow> bool) \<Rightarrow> (event_info \<Rightarrow> event_info \<Rightarrow> bool) \<Rightarrow> (string \<Rightarrow> nat option) \<Rightarrow> 't lstate \<Rightarrow> bool" where
  "table_ok holds ok same T st \<longleftrightarrow>
     ok (l_target st) \<and>
     (\<forall>n i. T n = Some i \<longrightarrow> i < length (l_fns st)) \<and>
     (\<forall>n m i. T n = Some i \<longrightarrow> T m = Some i \<longrightarrow> n = m) \<and>
     (\<forall>e i. holds (l_target st) e i \<longleftrightarrow> (\<exists>n. T n = Some i \<and> same (normalizeEvent n) e))"

definition invoker_of :: "listener obj \<Rightarrow> string \<Rightarrow> nat option" where
  "invoker_of on name = (case map_of on name of Some (Invoker i) \<Rightarrow> Some i | _ \<Rightarrow> None)"

text \<open>An \<open>on\<close> object that has been through an update, with the invokers of its names\<close>

definition synced ::
    "('t \<Rightarrow> event_info \<Rightarrow> nat \<Rightarrow> bool) \<Rightarrow> ('t \<Rightarrow> bool) \<Rightarrow> (event_info \<Rightarrow> event_info \<Rightarrow> bool) \<Rightarrow> listener obj \<Rightarrow> 't lstate \<Rightarrow> bool" where
  "synced holds ok same on st \<longleftrightarrow>
     wf_obj on \<and> (\<forall>n v. map_of on n = Some (Handler v) \<longrightarrow> isUndef v) \<and> table_ok holds ok same (invoker_of on) st"

text \<open>What a handler of the new \<open>on\<close> became: the invoker of its name, the old one where there was one\<close>

definition kept_handler :: "listener obj \<Rightarrow> listener obj \<Rightarrow> listener list \<Rightarrow> string \<Rightarrow> jsval \<Rightarrow> bool" where
  "kept_handler on1 oldOn fns name f \<longleftrightarrow>
     (\<exists>i. map_of on1 name = Some (Invoker i) \<and> i < length fns \<and> fns ! i = Handler f \<and>
        (\<forall>j. map_of oldOn name = Some (Invoker j) \<longrightarrow> i = j))"

locale listener_target =
  fixes add :: "event_info \<Rightarrow> nat \<Rightarrow> 't \<Rightarrow> 't"
    and remove :: "string \<Rightarrow> listener \<Rightarrow> bool \<Rightarrow> 't \<Rightarrow> 't option"
    and holds :: "'t \<Rightarrow> event_info \<Rightarrow> nat \<Rightarrow> bool"
    and ok :: "'t \<Rightarrow> bool"
    and same :: "event_info \<Rightarrow> event_info \<Rightarrow> bool"
    and allowed :: "event_info \<Rightarrow> bool"
  assumes add_ok: "ok t \<Longrightarrow> allowed e \<Longrightarrow> \<forall>e'. \<not> holds t e' i \<Longrightarrow> ok (add e i t)"
    and add_holds: "ok t \<Longrightarrow> allowed e \<Longrightarrow> \<forall>e'. \<not> holds t e' i \<Longrightarrow> holds (add e i t) e' j \<longleftrightarrow> holds t e' j \<or> (j = i \<and> same e e')"
    and remove_holds: "ok t \<Longrightarrow> holds t e i \<Longrightarrow>
      \<exists>t'. remove (ev_name e) (Invoker i) (ev_capture e) t = Some t' \<and> ok t' \<and>
        (\<forall>e' j. holds t' e' j \<longleftrightarrow> holds t e' j \<and> \<not> (j = i \<and> same e e'))"
    and same_refl: "same e e"
begin

abbreviation tab :: "(string \<Rightarrow> nat option) \<Rightarrow> 't lstate \<Rightarrow> bool" where "tab \<equiv> table_ok holds ok same"

lemma tab_warn: "tab T st \<Longrightarrow> tab T (st\<lparr>l_warns := ws\<rparr>)"
  by (simp add: table_ok_def)

lemma tab_set: "tab T st \<Longrightarrow> tab T (st\<lparr>l_fns := (l_fns st)[i := l]\<rparr>)"
  by (simp add: table_ok_def)

lemma tab_new:
  assumes t: "tab T st" and "T n = None" "allowed (normalizeEvent n)"
  shows "tab (T(n \<mapsto> length (l_fns st))) (st\<lparr>l_fns := l_fns st @ [l], l_target := add (normalizeEvent n) (length (l_fns st)) (l_target st)\<rparr>)"
proof -
  let ?i = "length (l_fns st)"
  have f: "\<forall>e'. \<not> holds (l_target st) e' ?i" using t by (auto simp: table_ok_def)
  have ok: "ok (l_target st)" using t by (simp add: table_ok_def)
  have h: "holds (add (normalizeEvent n) ?i (l_target st)) e j \<longleftrightarrow> (\<exists>m. (T(n \<mapsto> ?i)) m = Some j \<and> same (normalizeEvent m) e)" for e j
  proof -
    have "(\<exists>m. (T(n \<mapsto> ?i)) m = Some j \<and> same (normalizeEvent m) e) \<longleftrightarrow> (\<exists>m. T m = Some j \<and> same (normalizeEvent m) e) \<or> (j = ?i \<and> same (normalizeEvent n) e)"
      using assms(2) by (metis fun_upd_apply option.distinct(1) option.inject)
    then show ?thesis unfolding add_holds [OF ok assms(3) f] using t by (auto simp: table_ok_def)
  qed
  show ?thesis using t add_ok [OF ok assms(3) f] h assms(2) by (auto simp: table_ok_def less_Suc_eq dest: less_imp_le)
qed

lemma tab_remove:
  assumes t: "tab T st" and n: "T n = Some i"
  shows "\<exists>t'. remove (ev_name (normalizeEvent n)) (Invoker i) (ev_capture (normalizeEvent n)) (l_target st) = Some t' \<and>
    tab (T(n := None)) (st\<lparr>l_target := t'\<rparr>)"
proof -
  have ok: "ok (l_target st)" and h: "holds (l_target st) (normalizeEvent n) i" using t n same_refl by (auto simp: table_ok_def)
  obtain t' where t': "remove (ev_name (normalizeEvent n)) (Invoker i) (ev_capture (normalizeEvent n)) (l_target st) = Some t'" "ok t'"
      "\<forall>e' j. holds t' e' j \<longleftrightarrow> holds (l_target st) e' j \<and> \<not> (j = i \<and> same (normalizeEvent n) e')"
    using remove_holds [OF ok h] by blast
  have inj: "T m = Some i \<Longrightarrow> m = n" for m using t n by (auto simp: table_ok_def)
  have "holds t' e j \<longleftrightarrow> (\<exists>m. (T(n := None)) m = Some j \<and> same (normalizeEvent m) e)" for e j
  proof -
    have "(\<exists>m. (T(n := None)) m = Some j \<and> same (normalizeEvent m) e) \<longleftrightarrow> (\<exists>m. T m = Some j \<and> same (normalizeEvent m) e \<and> m \<noteq> n)"
      by auto
    also have "\<dots> \<longleftrightarrow> (\<exists>m. T m = Some j \<and> same (normalizeEvent m) e) \<and> \<not> (j = i \<and> same (normalizeEvent n) e)"
      using inj n by (metis option.inject)
    finally show ?thesis using t by (simp add: table_ok_def t'(3))
  qed
  then show ?thesis using t t' by (auto simp: table_ok_def)
qed

text \<open>One name of the new \<open>on\<close>\<close>

lemma add_one:
  assumes t: "tab T st" and T: "T n = invoker_of oldOn n" and old: "\<forall>v. map_of oldOn n = Some (Handler v) \<longrightarrow> isUndef v"
    and cur: "map_of on n = Some (Handler f)" "allowed (normalizeEvent n)"
    and r: "add_listener add oldOn (on, st) n = (on', st')"
  shows "\<exists>T'. tab T' st' \<and> obj_keys on' = obj_keys on \<and>
    (\<forall>m. m \<noteq> n \<longrightarrow> T' m = T m \<and> map_of on' m = map_of on m \<and> (\<forall>i. T m = Some i \<longrightarrow> l_fns st' ! i = l_fns st ! i)) \<and>
    (if isUndef f then map_of on' n = map_of on n \<and> T' n = T n
     else \<exists>i. T' n = Some i \<and> map_of on' n = Some (Invoker i) \<and> l_fns st' ! i = Handler f \<and> (\<forall>j. T n = Some j \<longrightarrow> i = j))"
proof -
  have "n \<in> set (obj_keys on)" using map_of_SomeD [OF cur(1)] by force
  then have keys: "obj_keys (obj_put n l on) = obj_keys on" for l by (simp add: update_keys)
  have g: "on_get on n = Handler f" using cur(1) by (simp add: on_get_def)
  consider (undef) "isUndef f" | (new) "\<not> isUndef f" "T n = None" | (old) j where "\<not> isUndef f" "T n = Some j" by (cases "T n") auto
  then show ?thesis
  proof cases
    case undef
    then have e: "on' = on" "st' = st\<lparr>l_warns := l_warns st'\<rparr>" using r by (auto simp: add_listener_def g Let_def)
    have f: "l_fns st' = l_fns st" using arg_cong [OF e(2), of l_fns] by simp
    show ?thesis using undef tab_warn [OF t, of "l_warns st'"] e(1) f unfolding e(2) [symmetric] by (intro exI [of _ T]) simp
  next
    case new
    have "no_listener (on_get oldOn n)" using new(2) old by (auto simp: T invoker_of_def on_get_def isUndef_def split: option.splits listener.splits)
    then have e: "on' = obj_put n (Invoker (length (l_fns st))) on"
        "st' = st\<lparr>l_fns := l_fns st @ [Handler f], l_target := add (normalizeEvent n) (length (l_fns st)) (l_target st)\<rparr>"
      using r new(1) by (simp_all add: add_listener_def g Let_def createFnInvoker_def)
    have b: "\<forall>m i. T m = Some i \<longrightarrow> i < length (l_fns st)" using t by (simp add: table_ok_def)
    show ?thesis using tab_new [OF t new(2) cur(2), of "Handler f"] new b
      by (intro exI [of _ "T(n \<mapsto> length (l_fns st))"]) (simp add: e keys nth_append)
  next
    case (old j)
    have o: "on_get oldOn n = Invoker j" using old(2) by (auto simp: T invoker_of_def on_get_def split: option.splits listener.splits)
    have j: "j < length (l_fns st)" "\<forall>m. m \<noteq> n \<longrightarrow> T m \<noteq> Some j" using t old(2) by (auto simp: table_ok_def)
    have e: "on' = obj_put n (Invoker j) on" "st' = st\<lparr>l_fns := (l_fns st)[j := Handler f]\<rparr>"
      using r old(1) by (simp_all add: add_listener_def g o Let_def)
    have nth: "\<forall>m. m \<noteq> n \<longrightarrow> (\<forall>i. T m = Some i \<longrightarrow> (l_fns st)[j := Handler f] ! i = l_fns st ! i)"
      using j(2) by (metis nth_list_update_neq)
    show ?thesis using tab_set [OF t] old j(1) nth
      by (intro exI [of _ T]) (simp add: e keys)
  qed
qed

lemma add_all:
  assumes "tab T st" "distinct nms" "\<forall>n\<in>set nms. T n = invoker_of oldOn n \<and> map_of on n = Some (Handler (f n)) \<and> allowed (normalizeEvent n)"
    and "\<forall>n v. map_of oldOn n = Some (Handler v) \<longrightarrow> isUndef v" "foldl (add_listener add oldOn) (on, st) nms = (on', st')"
  shows "\<exists>T'. tab T' st' \<and> obj_keys on' = obj_keys on \<and>
    (\<forall>m. m \<notin> set nms \<longrightarrow> T' m = T m \<and> map_of on' m = map_of on m \<and> (\<forall>i. T m = Some i \<longrightarrow> l_fns st' ! i = l_fns st ! i)) \<and>
    (\<forall>n\<in>set nms. if isUndef (f n) then map_of on' n = map_of on n \<and> T' n = T n
     else \<exists>i. T' n = Some i \<and> map_of on' n = Some (Invoker i) \<and> l_fns st' ! i = Handler (f n) \<and> (\<forall>j. T n = Some j \<longrightarrow> i = j))"
  using assms
proof (induction nms arbitrary: T on st)
  case Nil
  then show ?case by auto
next
  case (Cons n nms)
  obtain on1 st1 where r: "add_listener add oldOn (on, st) n = (on1, st1)" by (cases "add_listener add oldOn (on, st) n") auto
  obtain T1 where T1: "tab T1 st1" "obj_keys on1 = obj_keys on"
      "\<forall>m. m \<noteq> n \<longrightarrow> T1 m = T m \<and> map_of on1 m = map_of on m \<and> (\<forall>i. T m = Some i \<longrightarrow> l_fns st1 ! i = l_fns st ! i)"
      "if isUndef (f n) then map_of on1 n = map_of on n \<and> T1 n = T n
       else \<exists>i. T1 n = Some i \<and> map_of on1 n = Some (Invoker i) \<and> l_fns st1 ! i = Handler (f n) \<and> (\<forall>j. T n = Some j \<longrightarrow> i = j)"
    using add_one [OF Cons.prems(1) _ _ _ _ r, of "f n"] Cons.prems(3,4) by auto
  have n: "n \<notin> set nms" "distinct nms" using Cons.prems(2) by auto
  have c: "\<forall>m\<in>set nms. T1 m = invoker_of oldOn m \<and> map_of on1 m = Some (Handler (f m)) \<and> allowed (normalizeEvent m)"
  proof
    fix m assume m: "m \<in> set nms"
    then have "m \<noteq> n" using n(1) by blast
    then show "T1 m = invoker_of oldOn m \<and> map_of on1 m = Some (Handler (f m)) \<and> allowed (normalizeEvent m)"
      using T1(3) Cons.prems(3) m by simp
  qed
  have "foldl (add_listener add oldOn) (on1, st1) nms = (on', st')" using Cons.prems(5) r by simp
  from Cons.IH [OF T1(1) n(2) c Cons.prems(4) this] obtain T2 where T2: "tab T2 st'" "obj_keys on' = obj_keys on1"
      "\<forall>m. m \<notin> set nms \<longrightarrow> T2 m = T1 m \<and> map_of on' m = map_of on1 m \<and> (\<forall>i. T1 m = Some i \<longrightarrow> l_fns st' ! i = l_fns st1 ! i)"
      "\<forall>n\<in>set nms. if isUndef (f n) then map_of on' n = map_of on1 n \<and> T2 n = T1 n
       else \<exists>i. T2 n = Some i \<and> map_of on' n = Some (Invoker i) \<and> l_fns st' ! i = Handler (f n) \<and> (\<forall>j. T1 n = Some j \<longrightarrow> i = j)"
    by blast
  have a: "\<forall>m. m \<notin> set (n # nms) \<longrightarrow> T2 m = T m \<and> map_of on' m = map_of on m \<and> (\<forall>i. T m = Some i \<longrightarrow> l_fns st' ! i = l_fns st ! i)"
    using T1(3) T2(3) by (metis list.set_intros(1) list.set_intros(2))
  have b: "if isUndef (f n) then map_of on' n = map_of on n \<and> T2 n = T n
       else \<exists>i. T2 n = Some i \<and> map_of on' n = Some (Invoker i) \<and> l_fns st' ! i = Handler (f n) \<and> (\<forall>j. T n = Some j \<longrightarrow> i = j)"
    using T1(4) T2(3) n(1) by (auto split: if_splits)
  have d: "if isUndef (f m) then map_of on' m = map_of on m \<and> T2 m = T m
       else \<exists>i. T2 m = Some i \<and> map_of on' m = Some (Invoker i) \<and> l_fns st' ! i = Handler (f m) \<and> (\<forall>j. T m = Some j \<longrightarrow> i = j)" if "m \<in> set nms" for m
  proof -
    have "m \<noteq> n" using n(1) that by blast
    then show ?thesis using T1(3) T2(4) that by auto
  qed
  show ?case using T2(1,2) T1(2) a b d by (intro exI [of _ T2]) simp
qed

text \<open>The names that are gone\<close>

lemma drop_all:
  assumes "tab T st" "distinct (obj_keys olds)"
    and "\<forall>(n, l)\<in>set olds. no_listener (on_get on n) \<longrightarrow> (\<exists>i. l = Invoker i \<and> T n = Some i)"
  shows "\<exists>t'. drop_listeners remove on olds st = Some (st\<lparr>l_target := t'\<rparr>) \<and>
    tab (\<lambda>n. if n \<in> set (obj_keys olds) \<and> no_listener (on_get on n) then None else T n) (st\<lparr>l_target := t'\<rparr>)"
  using assms
proof (induction olds arbitrary: T st)
  case Nil
  then show ?case by (intro exI [of _ "l_target st"]) simp
next
  case (Cons p olds)
  obtain n l where p: "p = (n, l)" by (cases p)
  have n: "n \<notin> set (obj_keys olds)" "distinct (obj_keys olds)" using Cons.prems(2) by (auto simp: p)
  show ?case
  proof (cases "no_listener (on_get on n)")
    case True
    then obtain i where i: "l = Invoker i" "T n = Some i" using Cons.prems(3) by (auto simp: p)
    obtain t1 where t1: "remove (ev_name (normalizeEvent n)) (Invoker i) (ev_capture (normalizeEvent n)) (l_target st) = Some t1"
        "tab (T(n := None)) (st\<lparr>l_target := t1\<rparr>)" using tab_remove [OF Cons.prems(1) i(2)] by blast
    have o: "\<forall>(m, l)\<in>set olds. no_listener (on_get on m) \<longrightarrow> (\<exists>i. l = Invoker i \<and> (T(n := None)) m = Some i)"
      using Cons.prems(3) n(1) by (auto simp: p rev_image_eqI)
    have e: "(\<lambda>m. if m \<in> set (obj_keys olds) \<and> no_listener (on_get on m) then None else (T(n := None)) m) =
        (\<lambda>m. if m \<in> set (obj_keys (p # olds)) \<and> no_listener (on_get on m) then None else T m)"
      using True by (auto simp: p)
    show ?thesis using Cons.IH [OF t1(2) n(2) o] True t1(1) unfolding e by (simp add: p i(1) Let_def)
  next
    case False
    have e: "(\<lambda>m. if m \<in> set (obj_keys olds) \<and> no_listener (on_get on m) then None else T m) =
        (\<lambda>m. if m \<in> set (obj_keys (p # olds)) \<and> no_listener (on_get on m) then None else T m)"
      using False by (auto simp: p)
    show ?thesis using Cons.IH [OF Cons.prems(1) n(2)] Cons.prems(3) False unfolding e by (simp add: p)
  qed
qed

text \<open>The whole update\<close>

lemma update_synced:
  assumes old: "synced holds ok same oldOn st" and wf: "wf_obj on"
    and raw: "\<forall>n l. map_of on n = Some l \<longrightarrow> (\<exists>f. l = Handler f) \<and> allowed (normalizeEvent n)"
    and gone: "\<forall>n v. map_of oldOn n = Some (Handler v) \<longrightarrow> \<not> no_listener (on_get on n)"
  shows "\<exists>on' st'. updateListeners add remove on oldOn st = Some (on', st') \<and> synced holds ok same on' st' \<and>
    obj_keys on' = obj_keys on \<and> (\<forall>n f. map_of on n = Some (Handler f) \<longrightarrow>
      (if isUndef f then map_of on' n = Some (Handler f) else kept_handler on' oldOn (l_fns st') n f))"
proof -
  define f where "f n = (case map_of on n of Some (Handler v) \<Rightarrow> v | _ \<Rightarrow> JUndef)" for n
  have f: "map_of on n = Some (Handler (f n))" if k: "n \<in> set (obj_keys on)" for n
  proof -
    obtain l where "map_of on n = Some l" using k map_of_None_iff [of on n] by (cases "map_of on n") auto
    then show ?thesis using raw [rule_format, of n l] by (auto simp: f_def)
  qed
  have t: "table_ok holds ok same (invoker_of oldOn) st" and w: "distinct (obj_keys oldOn)"
    and u: "\<forall>n v. map_of oldOn n = Some (Handler v) \<longrightarrow> isUndef v" using old by (auto simp: synced_def wf_obj_def)
  obtain on1 st1 where r: "foldl (add_listener add oldOn) (on, st) (obj_keys on) = (on1, st1)"
    by (cases "foldl (add_listener add oldOn) (on, st) (obj_keys on)") auto
  have "\<forall>n\<in>set (obj_keys on). invoker_of oldOn n = invoker_of oldOn n \<and> map_of on n = Some (Handler (f n)) \<and> allowed (normalizeEvent n)"
    using f raw by blast
  from add_all [OF t wf [unfolded wf_obj_def] this u r] obtain T where T: "table_ok holds ok same T st1" "obj_keys on1 = obj_keys on"
      "\<forall>m. m \<notin> set (obj_keys on) \<longrightarrow> T m = invoker_of oldOn m \<and> map_of on1 m = map_of on m"
      "\<forall>n\<in>set (obj_keys on). if isUndef (f n) then map_of on1 n = map_of on n \<and> T n = invoker_of oldOn n
       else \<exists>i. T n = Some i \<and> map_of on1 n = Some (Invoker i) \<and> l_fns st1 ! i = Handler (f n) \<and> (\<forall>j. invoker_of oldOn n = Some j \<longrightarrow> i = j)"
    by blast
  have none: "no_listener (on_get on1 n) \<longleftrightarrow> no_listener (on_get on n)" "no_listener (on_get on n) \<Longrightarrow> T n = invoker_of oldOn n"
      "\<not> no_listener (on_get on n) \<Longrightarrow> T n = invoker_of on1 n" "no_listener (on_get on n) \<Longrightarrow> invoker_of on1 n = None" for n
  proof -
    consider "n \<notin> set (obj_keys on)" | "n \<in> set (obj_keys on)" "isUndef (f n)" | "n \<in> set (obj_keys on)" "\<not> isUndef (f n)" by blast
    then have "(no_listener (on_get on1 n) \<longleftrightarrow> no_listener (on_get on n)) \<and> (no_listener (on_get on n) \<longrightarrow> T n = invoker_of oldOn n) \<and>
      (\<not> no_listener (on_get on n) \<longrightarrow> T n = invoker_of on1 n) \<and> (no_listener (on_get on n) \<longrightarrow> invoker_of on1 n = None)"
    proof cases
      case 1
      then have "map_of on n = None" by (simp add: map_of_None_iff)
      then show ?thesis using T(3) 1 by (simp add: on_get_def invoker_of_def isUndef_def)
    next
      case 2
      then show ?thesis using T(4) [rule_format, OF 2(1)] f [OF 2(1)] by (simp add: on_get_def invoker_of_def)
    next
      case 3
      then show ?thesis using T(4) [rule_format, OF 3(1)] f [OF 3(1)] by (auto simp: on_get_def invoker_of_def)
    qed
    then show "no_listener (on_get on1 n) \<longleftrightarrow> no_listener (on_get on n)" "no_listener (on_get on n) \<Longrightarrow> T n = invoker_of oldOn n"
      "\<not> no_listener (on_get on n) \<Longrightarrow> T n = invoker_of on1 n" "no_listener (on_get on n) \<Longrightarrow> invoker_of on1 n = None" by auto
  qed
  have d: "\<forall>(n, l)\<in>set oldOn. no_listener (on_get on1 n) \<longrightarrow> (\<exists>i. l = Invoker i \<and> T n = Some i)"
  proof (clarify)
    fix n l assume nl: "(n, l) \<in> set oldOn" and e: "no_listener (on_get on1 n)"
    have m: "map_of oldOn n = Some l" using nl w by simp
    then show "\<exists>i. l = Invoker i \<and> T n = Some i" using gone e none(1,2) [of n] by (cases l) (auto simp: invoker_of_def)
  qed
  obtain t' where t': "drop_listeners remove on1 oldOn st1 = Some (st1\<lparr>l_target := t'\<rparr>)"
      "table_ok holds ok same (\<lambda>n. if n \<in> set (obj_keys oldOn) \<and> no_listener (on_get on1 n) then None else T n) (st1\<lparr>l_target := t'\<rparr>)"
    using drop_all [OF T(1) w d] by blast
  have e: "(\<lambda>n. if n \<in> set (obj_keys oldOn) \<and> no_listener (on_get on1 n) then None else T n) = invoker_of on1"
  proof
    fix n
    have "n \<notin> set (obj_keys oldOn) \<Longrightarrow> invoker_of oldOn n = None" using map_of_None_iff [of oldOn n] by (simp add: invoker_of_def)
    then show "(if n \<in> set (obj_keys oldOn) \<and> no_listener (on_get on1 n) then None else T n) = invoker_of on1 n"
      using none [of n] by auto
  qed
  have wf1: "wf_obj on1" using wf T(2) by (simp add: wf_obj_def)
  have u1: "\<forall>n v. map_of on1 n = Some (Handler v) \<longrightarrow> isUndef v"
  proof (intro allI impI)
    fix n v assume m: "map_of on1 n = Some (Handler v)"
    then have k: "n \<in> set (obj_keys on)" using T(2) map_of_None_iff [of on1 n] by auto
    show "isUndef v" using T(4) [rule_format, OF k] f [OF k] m by (auto split: if_splits)
  qed
  have b: "\<forall>n i. invoker_of on1 n = Some i \<longrightarrow> i < length (l_fns st1)" using t'(2) unfolding e by (simp add: table_ok_def)
  have k: "if isUndef v then map_of on1 n = Some (Handler v) else kept_handler on1 oldOn (l_fns st1) n v" if m: "map_of on n = Some (Handler v)" for n v
  proof -
    have n: "n \<in> set (obj_keys on)" and v: "v = f n" using m map_of_SomeD [OF m] by (force, simp add: f_def)
    show ?thesis using T(4) [rule_format, OF n] m b [rule_format, of n] v by (auto simp: kept_handler_def invoker_of_def split: if_splits)
  qed
  show ?thesis
  proof (intro exI conjI allI impI)
    show "updateListeners add remove on oldOn st = Some (on1, st1\<lparr>l_target := t'\<rparr>)" by (simp add: updateListeners_def r t'(1))
    show "synced holds ok same on1 (st1\<lparr>l_target := t'\<rparr>)" unfolding synced_def using wf1 u1 t'(2) [unfolded e] by blast
    show "obj_keys on1 = obj_keys on" by (rule T(2))
    fix n v assume "map_of on n = Some (Handler v)"
    from k [OF this] show "if isUndef v then map_of on1 n = Some (Handler v) else kept_handler on1 oldOn (l_fns (st1\<lparr>l_target := t'\<rparr>)) n v"
      by simp
  qed
qed

end
section \<open>Two targets\<close>

definition dom_holds :: "dom_events \<Rightarrow> event_info \<Rightarrow> nat \<Rightarrow> bool" where
  "dom_holds t e i \<longleftrightarrow> (ev_name e, ev_capture e, WithTask i) \<in> set (map (\<lambda>(n, c, _, f). (n, c, f)) (de_list t))"

definition dom_ok :: "dom_events \<Rightarrow> bool" where
  "dom_ok t \<longleftrightarrow> distinct (map (\<lambda>(n, c, _, f). (n, c, f)) (de_list t)) \<and> (\<forall>(n, c, p, f)\<in>set (de_list t). \<exists>i. f = WithTask i)"

definition dom_same :: "event_info \<Rightarrow> event_info \<Rightarrow> bool" where
  "dom_same e e' \<longleftrightarrow> ev_name e = ev_name e' \<and> ev_capture e = ev_capture e'"

lemma dom_add:
  "\<not> ev_once e \<Longrightarrow> \<not> dom_holds t e i \<Longrightarrow>
   de_list (add_dom sp e i t) = de_list t @ [(ev_name e, ev_capture e, sp \<and> ev_passive e, WithTask i)]"
  by (force simp: add_dom_def addEventListener_def dom_holds_def list_ex_iff)

interpretation dom: listener_target "add_dom sp" remove_dom dom_holds dom_ok dom_same "\<lambda>e. \<not> ev_once e" for sp
proof (unfold_locales)
  fix t and e :: event_info and i assume t: "dom_ok t" "\<not> ev_once e" and f: "\<forall>e'. \<not> dom_holds t e' i"
  have l: "de_list (add_dom sp e i t) = de_list t @ [(ev_name e, ev_capture e, sp \<and> ev_passive e, WithTask i)]"
    using dom_add [OF t(2)] f by blast
  show "dom_ok (add_dom sp e i t)" using t(1) f [rule_format, of e] by (auto simp: dom_ok_def dom_holds_def l)
  fix e' j show "dom_holds (add_dom sp e i t) e' j \<longleftrightarrow> dom_holds t e' j \<or> (j = i \<and> dom_same e e')"
    by (auto simp: dom_holds_def l dom_same_def)
next
  fix t e i assume t: "dom_ok t" "dom_holds t e i"
  let ?t = "removeEventListener (ev_name e) (WithTask i) (ev_capture e) t"
  have "dom_ok ?t" using t(1) by (auto simp: dom_ok_def removeEventListener_def distinct_map inj_on_def)
  moreover have "dom_holds ?t e' j \<longleftrightarrow> dom_holds t e' j \<and> \<not> (j = i \<and> dom_same e e')" for e' j
    by (force simp: dom_holds_def removeEventListener_def dom_same_def)
  ultimately show "\<exists>t'. remove_dom (ev_name e) (Invoker i) (ev_capture e) t = Some t' \<and> dom_ok t' \<and>
      (\<forall>e' j. dom_holds t' e' j \<longleftrightarrow> dom_holds t e' j \<and> \<not> (j = i \<and> dom_same e e'))"
    by (simp add: remove_dom_def)
qed (simp add: dom_same_def)

text \<open>A component: the callbacks of the parent's listeners, called once or always\<close>

fun cb_fn :: "callback \<Rightarrow> listener" where
  "cb_fn (Cb f) = f"
| "cb_fn (OnceCb _ f) = f"

definition cbs_list :: "vm_events \<Rightarrow> string \<Rightarrow> callback list" where
  "cbs_list vm event = (case cbs_of vm event of Some cs \<Rightarrow> cs | None \<Rightarrow> [])"

definition vm_holds :: "vm_events \<Rightarrow> event_info \<Rightarrow> nat \<Rightarrow> bool" where
  "vm_holds vm e i \<longleftrightarrow> Invoker i \<in> set (map cb_fn (cbs_list vm (ev_name e)))"

definition vm_ok :: "vm_events \<Rightarrow> bool" where
  "vm_ok vm \<longleftrightarrow> (\<forall>event. distinct (filter (\<lambda>f. \<exists>i. f = Invoker i) (map cb_fn (cbs_list vm event))))"

definition vm_same :: "event_info \<Rightarrow> event_info \<Rightarrow> bool" where
  "vm_same e e' \<longleftrightarrow> ev_name e = ev_name e'"

lemma cbs_on_event: "cbs_list (on_event event cb vm) e = (if e = event then cbs_list vm e @ [cb] else cbs_list vm e)"
  by (simp add: cbs_list_def on_event_def cbs_of_def)

lemma cbs_once_event: "cbs_list (once_event event f vm) e = (if e = event then cbs_list vm e @ [OnceCb (ve_onces vm) f] else cbs_list vm e)"
  unfolding once_event_def cbs_on_event by (simp add: cbs_list_def cbs_of_def)

lemma cbs_add_vm: "map cb_fn (cbs_list (add_vm e i vm) ev) = map cb_fn (cbs_list vm ev) @ (if ev = ev_name e then [Invoker i] else [])"
  by (simp add: add_vm_def cbs_on_event cbs_once_event)

lemma index_by_append:
  "index_by p (xs @ ys) = (case index_by p xs of Some i \<Rightarrow> Some i | None \<Rightarrow> map_option (\<lambda>i. i + length xs) (index_by p ys))"
  by (induction xs) (auto split: option.splits simp: option.map_comp comp_def option.map_ident)

lemma remove_last_split:
  assumes "p x" "\<forall>y\<in>set ys. \<not> p y"
  shows "remove_last p (xs @ x # ys) = xs @ ys"
proof -
  have "index_by p (rev (xs @ x # ys)) = Some (length ys)"
    using assms by (simp add: index_by_append index_by_None [THEN iffD2])
  then show ?thesis by (simp add: remove_last_def splice1_def)
qed

lemma last_match: "\<exists>x\<in>set xs. p x \<Longrightarrow> \<exists>us x vs. xs = us @ x # vs \<and> p x \<and> (\<forall>y\<in>set vs. \<not> p y)"
  by (metis split_list_last_propE)

interpretation vm: listener_target add_vm remove_vm vm_holds vm_ok vm_same "\<lambda>_. True"
proof (unfold_locales)
  fix t e i assume t: "vm_ok t" and f: "\<forall>e'. \<not> vm_holds t e' i"
  show "vm_ok (add_vm e i t)" using t f [rule_format, of e] by (auto simp: vm_ok_def vm_holds_def cbs_add_vm)
  fix e' j show "vm_holds (add_vm e i t) e' j \<longleftrightarrow> vm_holds t e' j \<or> (j = i \<and> vm_same e e')"
    unfolding vm_holds_def cbs_add_vm by (auto simp: vm_same_def)
next
  fix t e i assume t: "vm_ok t" "vm_holds t e i"
  let ?p = "\<lambda>cb. is_cb cb (Cb (Invoker i))" and ?cbs = "cbs_list t (ev_name e)"
  have p: "?p cb \<longleftrightarrow> cb_fn cb = Invoker i" for cb by (cases cb; cases "cb_fn cb") auto
  obtain us x vs where s: "?cbs = us @ x # vs" "cb_fn x = Invoker i" "\<forall>y\<in>set vs. cb_fn y \<noteq> Invoker i"
  proof -
    have "\<exists>x\<in>set ?cbs. ?p x" using t(2) by (auto simp: p vm_holds_def)
    from last_match [OF this] show ?thesis using p that by auto
  qed
  have c: "cbs_of t (ev_name e) = Some ?cbs" using s(1) by (auto simp: cbs_list_def split: option.splits)
  let ?t = "off_event (ev_name e) (Some (Cb (Invoker i))) t"
  have l: "cbs_list ?t ev = (if ev = ev_name e then us @ vs else cbs_list t ev)" for ev
    using remove_last_split [of ?p x vs us] s by (simp add: off_event_def c p) (simp add: cbs_list_def cbs_of_def)
  have d: "distinct (filter (\<lambda>f. \<exists>i. f = Invoker i) (map cb_fn (us @ x # vs)))" using t(1) s(1) by (metis vm_ok_def)
  have "Invoker i \<notin> cb_fn ` set us" using d s(2) by auto
  then have u: "\<forall>y\<in>set us. cb_fn y \<noteq> Invoker i" by (metis image_eqI)
  have "distinct (filter (\<lambda>f. \<exists>i. f = Invoker i) (map cb_fn (us @ vs)))" using d s(2) by auto
  then have "vm_ok ?t" using t(1) by (simp add: vm_ok_def l)
  moreover have "vm_holds ?t e' j \<longleftrightarrow> vm_holds t e' j \<and> \<not> (j = i \<and> vm_same e e')" for e' j
    using u s by (auto simp: vm_holds_def l vm_same_def)
  ultimately show "\<exists>t'. remove_vm (ev_name e) (Invoker i) (ev_capture e) t = Some t' \<and> vm_ok t' \<and>
      (\<forall>e' j. vm_holds t' e' j \<longleftrightarrow> vm_holds t e' j \<and> \<not> (j = i \<and> vm_same e e'))"
    by (simp add: remove_vm_def)
qed (simp add: vm_same_def)

section \<open>What an event calls\<close>

lemma fire_all:
  assumes "\<forall>(n, c, p, f)\<in>set es. \<exists>i. f = WithTask i" "set es \<subseteq> set (de_list (l_target st))"
  shows "foldl (fire_one call) (fs, st) es =
    (fs @ concat (map (\<lambda>(n, c, p, f). case f of WithTask i \<Rightarrow> invoker_calls (l_fns st) i | OnceFn _ _ \<Rightarrow> []) es), st)"
  using assms
proof (induction es arbitrary: fs)
  case (Cons e es)
  obtain n c p i where e: "e = (n, c, p, WithTask i)" using Cons.prems(1) by (cases e) auto
  have "fire_one call (fs, st) e = (fs @ invoker_calls (l_fns st) i, st)" using Cons.prems(2) by (simp add: fire_one_def e)
  then show ?case using Cons.IH [of "fs @ invoker_calls (l_fns st) i"] Cons.prems by (simp add: e)
qed simp

text \<open>The functions the \<open>on\<close> object of a vnode has for an event, over all the marks it may carry\<close>

definition handlers_for :: "listener obj \<Rightarrow> string \<Rightarrow> listener list" where
  "handlers_for on event =
     concat (map (\<lambda>(n, l). if no_listener l then [] else calls_of l) (filter (\<lambda>(n, l). ev_name (normalizeEvent n) = event) on))"

lemma mset_concat_map: "mset (concat (map g zs)) = \<Sum>\<^sub># (image_mset (\<lambda>x. mset (g x)) (mset zs))"
  by (induction zs) auto

lemma mset_concat_filter: "mset xs = mset ys \<Longrightarrow> mset (concat (map g (filter P xs))) = mset (concat (map g (filter P ys)))"
  unfolding mset_concat_map mset_filter by simp

lemma synced_fire:
  assumes s: "synced dom_holds dom_ok dom_same on st"
  shows "mset (fst (fire call event st)) =
    mset (concat (map (\<lambda>(n, l). case l of Invoker i \<Rightarrow> invoker_calls (l_fns st) i | _ \<Rightarrow> []) (filter (\<lambda>(n, l). ev_name (normalizeEvent n) = event) on)))"
proof -
  let ?L = "de_list (l_target st)" and ?k = "\<lambda>(n, c, p, f). (n, c, f) :: string \<times> bool \<times> dom_fn"
  let ?inv = "filter (\<lambda>(n, l). \<exists>i. l = Invoker i) on"
  let ?e = "\<lambda>(n, l). (ev_name (normalizeEvent n), ev_capture (normalizeEvent n), case l of Invoker i \<Rightarrow> WithTask i | Handler _ \<Rightarrow> WithTask 0)"
  let ?c = "\<lambda>(n :: string, c :: bool, f). case f of WithTask i \<Rightarrow> invoker_calls (l_fns st) i | OnceFn _ _ \<Rightarrow> []"
  have t: "table_ok dom_holds dom_ok dom_same (invoker_of on) st" and wf: "distinct (obj_keys on)" using s by (auto simp: synced_def wf_obj_def)
  have ok: "distinct (map ?k ?L)" "\<forall>(n, c, p, f)\<in>set ?L. \<exists>i. f = WithTask i" using t by (auto simp: table_ok_def dom_ok_def)
  have inj: "n = m" if "invoker_of on n = Some i" "invoker_of on m = Some i" for n m i using t that by (auto simp: table_ok_def)
  have holds: "dom_holds (l_target st) e i \<longleftrightarrow> (\<exists>n. invoker_of on n = Some i \<and> dom_same (normalizeEvent n) e)" for e i
    using t by (auto simp: table_ok_def)
  have mem: "(n, Invoker i) \<in> set on \<longleftrightarrow> invoker_of on n = Some i" for n i
    unfolding map_of_eq_Some_iff [OF wf, symmetric] by (simp add: invoker_of_def split: option.split listener.split)
  have entry: "(n, c, WithTask i) \<in> ?k ` set ?L \<longleftrightarrow> (n, c, WithTask i) \<in> ?e ` set ?inv" for n c i
  proof -
    have "(n, c, WithTask i) \<in> ?k ` set ?L \<longleftrightarrow> dom_holds (l_target st) \<lparr>ev_name = n, ev_once = False, ev_capture = c, ev_passive = False\<rparr> i"
      by (simp add: dom_holds_def)
    also have "\<dots> \<longleftrightarrow> (\<exists>m. (m, Invoker i) \<in> set on \<and> ev_name (normalizeEvent m) = n \<and> ev_capture (normalizeEvent m) = c)"
      unfolding holds mem by (simp add: dom_same_def)
    also have "\<dots> \<longleftrightarrow> (n, c, WithTask i) \<in> ?e ` set ?inv"
    proof
      assume "\<exists>m. (m, Invoker i) \<in> set on \<and> ev_name (normalizeEvent m) = n \<and> ev_capture (normalizeEvent m) = c"
      then obtain m where "(m, Invoker i) \<in> set on" "ev_name (normalizeEvent m) = n" "ev_capture (normalizeEvent m) = c" by blast
      then show "(n, c, WithTask i) \<in> ?e ` set ?inv" by (intro image_eqI [where x = "(m, Invoker i)"]) auto
    qed auto
    finally show ?thesis .
  qed
  have "set (map ?k ?L) = set (map ?e ?inv)"
  proof (rule set_eqI)
    fix x :: "string \<times> bool \<times> dom_fn"
    obtain n c f where x: "x = (n, c, f)" by (cases x)
    show "x \<in> set (map ?k ?L) \<longleftrightarrow> x \<in> set (map ?e ?inv)"
    proof (cases f)
      case (WithTask i)
      then show ?thesis using entry [of n c i] by (simp add: x)
    next
      case (OnceFn k i)
      then show ?thesis using ok(2) by (auto simp: x split: listener.splits)
    qed
  qed
  moreover have "distinct (map ?e ?inv)"
  proof -
    have "distinct on" using wf by (simp add: distinct_map)
    moreover have "inj_on ?e (set ?inv)" using inj by (auto simp: inj_on_def mem)
    ultimately show ?thesis by (simp add: distinct_map)
  qed
  ultimately have m: "mset (map ?k ?L) = mset (map ?e ?inv)" using set_eq_iff_mset_eq_distinct [OF ok(1), of "map ?e ?inv"] by blast
  have "fst (fire call event st) = concat (map ?c (filter (\<lambda>x. fst x = event) (map ?k ?L)))"
  proof -
    have "fst (fire call event st) = concat (map (\<lambda>(n, c, p, f). case f of WithTask i \<Rightarrow> invoker_calls (l_fns st) i | OnceFn _ _ \<Rightarrow> []) (filter (\<lambda>e. fst e = event) ?L))"
      unfolding fire_def using ok(2) by (subst fire_all) auto
    moreover have "concat (map (\<lambda>(n, c, p, f). case f of WithTask i \<Rightarrow> invoker_calls (l_fns st) i | OnceFn _ _ \<Rightarrow> []) (filter (\<lambda>e. fst e = event) L)) =
        concat (map ?c (filter (\<lambda>x. fst x = event) (map ?k L)))" for L :: "dom_listener list"
      by (induction L) auto
    ultimately show ?thesis by simp
  qed
  also have "mset \<dots> = mset (concat (map ?c (filter (\<lambda>x. fst x = event) (map ?e ?inv))))"
    by (rule mset_concat_filter [OF m])
  also have "concat (map ?c (filter (\<lambda>x. fst x = event) (map ?e ?inv))) =
      concat (map (\<lambda>(n, l). case l of Invoker i \<Rightarrow> invoker_calls (l_fns st) i | _ \<Rightarrow> []) (filter (\<lambda>(n, l). ev_name (normalizeEvent n) = event) on))"
    by (induction on) (auto split: listener.splits)
  finally show ?thesis .
qed

lemma map_over_keys:
  "distinct (obj_keys on) \<Longrightarrow> map h (filter (\<lambda>(n, l). P n) on) = map (\<lambda>n. h (n, the (map_of on n))) (filter P (obj_keys on))"
proof (induction on)
  case (Cons p on)
  obtain n l where p: "p = (n, l)" by (cases p)
  have "map (\<lambda>m. h (m, the (map_of (p # on) m))) (filter P (obj_keys on)) = map (\<lambda>m. h (m, the (map_of on m))) (filter P (obj_keys on))"
    using Cons.prems by (intro map_cong) (auto simp: p)
  then show ?case using Cons by (simp add: p)
qed simp

lemma synced_empty: "synced dom_holds dom_ok dom_same [] \<lparr>l_fns = fns, l_target = \<lparr>de_list = [], de_onces = k\<rparr>, l_warns = ws\<rparr>"
  by (simp add: synced_def table_ok_def invoker_of_def dom_holds_def dom_ok_def)



section \<open>Listeners called once\<close>

text \<open>
  A listener to be called once cannot be removed: \<open>add$1\<close> registers a new function around the
  invoker, but \<open>remove$2\<close> removes the invoker's own wrapper. After a patch that drops
  \<open>v-on:click.once\<close> the element still has the listener, and the next event calls the handler of the
  vnode that is gone.
\<close>

abbreviation no_listeners :: "dom_events lstate" where
  "no_listeners \<equiv> \<lparr>l_fns = [], l_target = \<lparr>de_list = [], de_onces = 0\<rparr>, l_warns = []\<rparr>"

theorem once_listener_survives:
  assumes "\<not> isUndef f"
  shows "\<exists>on1 st1 st2. updateListeners (add_dom sp) remove_dom [(''~click'', Handler f)] [] no_listeners = Some (on1, st1) \<and>
    updateListeners (add_dom sp) remove_dom [] on1 st1 = Some ([], st2) \<and> fst (fire call ''click'' st2) = calls_of (Handler f)"
  using assms
  by (simp add: updateListeners_def add_listener_def on_get_def Let_def normalizeEvent_def take_mark_def createFnInvoker_def
      add_dom_def createOnceHandler_def addEventListener_def remove_dom_def removeEventListener_def isUndef_def fire_def fire_one_def
      invoker_calls_def)

lemma once_listener_survives_witness:
  "\<exists>on1 st1 st2. updateListeners (add_dom True) remove_dom [(''~click'', Handler (JFun 1 []))] [] no_listeners = Some (on1, st1) \<and>
    updateListeners (add_dom True) remove_dom [] on1 st1 = Some ([], st2) \<and> fst (fire (\<lambda>_. JUndef) ''click'' st2) = [Handler (JFun 1 [])]"
  using once_listener_survives [of "JFun 1 []" "True" "\<lambda>_. JUndef"] by (simp add: isUndef_def calls_of_def)

text \<open>
  A handler that is undefined at two renders in a row makes the patch throw: the first adds no
  listener, and the second finds the name gone and reads a property of the old, undefined handler.
\<close>

theorem undefined_handler_throws:
  assumes "isUndef f" "isUndef g"
  shows "\<exists>st1. updateListeners (add_dom sp) remove_dom [(name, Handler f)] [] no_listeners = Some ([(name, Handler f)], st1) \<and>
    updateListeners (add_dom sp) remove_dom [(name, Handler g)] [(name, Handler f)] st1 = None"
  using assms by (simp add: updateListeners_def add_listener_def on_get_def Let_def remove_dom_def)

lemma undefined_handler_throws_witness:
  "\<exists>st1. updateListeners (add_dom True) remove_dom [(''click'', Handler JUndef)] [] no_listeners = Some ([(''click'', Handler JUndef)], st1) \<and>
    updateListeners (add_dom True) remove_dom [(''click'', Handler JUndef)] [(''click'', Handler JUndef)] st1 = None"
  using undefined_handler_throws [of JUndef JUndef "True" "''click''"] by (simp add: isUndef_def)

section \<open>Emitting an event\<close>

text \<open>A function that does nothing to the events of the component; it may throw.\<close>

definition quiet :: "(listener \<Rightarrow> vm_op list \<times> bool) \<Rightarrow> callback \<Rightarrow> bool" where
  "quiet body cb \<longleftrightarrow> fst (body (cb_fn cb)) = []"

fun is_once :: "callback \<Rightarrow> bool" where
  "is_once (OnceCb _ _) = True"
| "is_once (Cb _) = False"

lemma off_once:
  assumes "cbs_of vm event = Some cs" "i \<notin> {k. \<exists>f. OnceCb k f \<in> set (us @ vs)}" "cs = us @ OnceCb i f # vs"
  shows "cbs_of (off_event event (Some (OnceCb i f)) vm) event = Some (us @ vs)"
proof -
  have n: "\<forall>y\<in>set vs. \<not> is_cb y (OnceCb i f)"
  proof
    fix y assume y: "y \<in> set vs"
    show "\<not> is_cb y (OnceCb i f)" by (cases y) (use y assms(2) in auto)
  qed
  have "is_cb (OnceCb i f) (OnceCb i f)" by simp
  from remove_last_split [of "\<lambda>cb. is_cb cb (OnceCb i f)", OF this n, of us] assms show ?thesis
    by (simp add: off_event_def) (simp add: cbs_of_def)
qed

definition once_ids :: "callback list \<Rightarrow> nat list" where
  "once_ids cs = concat (map (\<lambda>cb. case cb of OnceCb i _ \<Rightarrow> [i] | Cb _ \<Rightarrow> []) cs)"

lemma once_ids_mem: "i \<in> set (once_ids cs) \<longleftrightarrow> (\<exists>f. OnceCb i f \<in> set cs)"
  by (induction cs) (auto simp: once_ids_def split: callback.splits)

definition emit_error :: "string \<Rightarrow> string" where
  "emit_error event = ''event handler for '' @ [dq] @ event @ [dq]"

lemma call_cbs_quiet:
  assumes "cbs_of vm event = Some (filter (\<lambda>cb. \<not> is_once cb) us @ cs)" "\<forall>cb\<in>set cs. quiet body cb" "distinct (once_ids cs)"
  shows "\<exists>vm'. call_cbs body (Suc n) event cs vm = Some vm' \<and> ve_log vm' = ve_log vm @ map cb_fn cs \<and>
    cbs_of vm' event = Some (filter (\<lambda>cb. \<not> is_once cb) (us @ cs)) \<and>
    ve_errors vm' = ve_errors vm @ map (\<lambda>_. emit_error event) (filter (\<lambda>cb. snd (body (cb_fn cb))) cs)"
  using assms
proof (induction cs arbitrary: vm us)
  case Nil
  then show ?case by simp
next
  case (Cons cb cs)
  define vm1 where "vm1 = (case cb of Cb f \<Rightarrow> vm | OnceCb i f \<Rightarrow> off_event event (Some cb) vm)"
  define vm2 where "vm2 = vm1\<lparr>ve_log := ve_log vm1 @ [cb_fn cb],
    ve_errors := ve_errors vm1 @ (if snd (body (cb_fn cb)) then [emit_error event] else [])\<rparr>"
  have same: "ve_log vm1 = ve_log vm" "ve_errors vm1 = ve_errors vm"
    by (auto simp: vm1_def off_event_def split: callback.split option.split)
  have run: "run_ops body n (fst (body (cb_fn cb))) v = Some v" for v using Cons.prems(2) by (simp add: quiet_def)
  have step: "call_cbs body (Suc n) event (cb # cs) vm = call_cbs body (Suc n) event cs vm2"
    using run by (cases cb) (simp_all add: vm2_def vm1_def emit_error_def Let_def)
  have c: "cbs_of vm2 event = Some (filter (\<lambda>cb. \<not> is_once cb) (us @ [cb]) @ cs)"
  proof (cases cb)
    case (Cb f)
    then show ?thesis using Cons.prems(1) by (simp add: vm2_def vm1_def cbs_of_def)
  next
    case (OnceCb i f)
    have "i \<notin> set (once_ids cs)" using Cons.prems(3) by (simp add: OnceCb once_ids_def)
    then have "i \<notin> {k. \<exists>f. OnceCb k f \<in> set (filter (\<lambda>cb. \<not> is_once cb) us @ cs)}" by (auto simp: once_ids_mem)
    from off_once [OF Cons.prems(1) this, of f] show ?thesis by (simp add: OnceCb vm2_def vm1_def) (simp add: cbs_of_def)
  qed
  have d: "distinct (once_ids cs)" using Cons.prems(3) by (simp add: once_ids_def)
  obtain vm' where vm': "call_cbs body (Suc n) event cs vm2 = Some vm'" "ve_log vm' = ve_log vm2 @ map cb_fn cs"
      "cbs_of vm' event = Some (filter (\<lambda>cb. \<not> is_once cb) ((us @ [cb]) @ cs))"
      "ve_errors vm' = ve_errors vm2 @ map (\<lambda>_. emit_error event) (filter (\<lambda>cb. snd (body (cb_fn cb))) cs)"
    using Cons.IH [OF c _ d] Cons.prems(2) by auto
  have "ve_log vm' = ve_log vm @ map cb_fn (cb # cs)" "cbs_of vm' event = Some (filter (\<lambda>cb. \<not> is_once cb) (us @ cb # cs))"
      "ve_errors vm' = ve_errors vm @ map (\<lambda>_. emit_error event) (filter (\<lambda>cb. snd (body (cb_fn cb))) (cb # cs))"
    using vm'(2-4) same by (simp_all add: vm2_def)
  then show ?case using vm'(1) step by auto
qed

text \<open>
  C38. \<open>$emit\<close> calls every callback of the event, once each and in the order they were registered,
  when they do not themselves change the events of the component; one that throws does not keep the
  others from being called, its error is handed on. Those registered with \<open>$once\<close> are gone afterwards,
  the others stay.
\<close>

theorem emit_calls_all:
  assumes "cbs_of vm event = Some cs" "\<forall>cb\<in>set cs. quiet body cb" "distinct (once_ids cs)"
  shows "\<exists>vm'. emit body (Suc n) event vm = Some vm' \<and> ve_log vm' = ve_log vm @ map cb_fn cs \<and>
    cbs_of vm' event = Some (filter (\<lambda>cb. \<not> is_once cb) cs) \<and>
    ve_errors vm' = ve_errors vm @ map (\<lambda>_. emit_error event) (filter (\<lambda>cb. snd (body (cb_fn cb))) cs)"
  using call_cbs_quiet [of vm event "[]" cs body n] assms by simp

abbreviation two_cbs :: vm_events where
  "two_cbs \<equiv> \<lparr>ve_events = [(''go'', Some [Cb (Handler (JFun 1 [])), OnceCb 0 (Handler (JFun 2 []))])], ve_hook = False,
     ve_onces = 1, ve_log = [], ve_errors = []\<rparr>"

lemma emit_calls_all_witness:
  "\<exists>vm'. emit (\<lambda>f. ([], f = Handler (JFun 1 []))) 1 ''go'' two_cbs = Some vm' \<and> ve_log vm' = [Handler (JFun 1 []), Handler (JFun 2 [])] \<and>
    cbs_of vm' ''go'' = Some [Cb (Handler (JFun 1 []))] \<and> ve_errors vm' = [emit_error ''go'']"
  using emit_calls_all [of two_cbs "''go''" "[Cb (Handler (JFun 1 [])), OnceCb 0 (Handler (JFun 2 []))]" "\<lambda>f. ([], f = Handler (JFun 1 []))" 0]
  by (simp add: cbs_of_def quiet_def once_ids_def)

text \<open>
  A callback registered with \<open>$once\<close> can be called twice. When a callback before it emits the
  same event again (here after removing itself, so that it ends), the inner emit calls it and
  removes it, and the outer one, which goes over the copy it made, calls it again.
\<close>

theorem once_called_twice:
  assumes "\<not> same_listener f a" "same_listener a a" "body a = ([Off ''go'' a, Emit ''go''], False)" "body f = ([], False)"
    and "ve_events vm = [(''go'', Some [Cb a, OnceCb i f])]"
  shows "\<exists>vm'. emit body 2 ''go'' vm = Some vm' \<and> ve_log vm' = ve_log vm @ [a, f, f]"
  using assms
  by (simp add: cbs_of_def off_event_def numeral_2_eq_2 remove_last_def splice1_def Let_def)

lemma once_called_twice_witness:
  "\<exists>vm'. emit (\<lambda>f. if f = Handler (JFun 1 []) then ([Off ''go'' (Handler (JFun 1 [])), Emit ''go''], False) else ([], False)) 2 ''go'' two_cbs = Some vm' \<and>
    ve_log vm' = [Handler (JFun 1 []), Handler (JFun 2 []), Handler (JFun 2 [])]"
  using once_called_twice [of "Handler (JFun 2 [])" "Handler (JFun 1 [])"
      "\<lambda>f. if f = Handler (JFun 1 []) then ([Off ''go'' (Handler (JFun 1 [])), Emit ''go''], False) else ([], False)" two_cbs 0]
  by (simp add: strict_eq_def)

section \<open>Merged hooks\<close>

lemma merge_many: "fold mergeVNodeHook hs (Merged fns) = Merged (fns @ map Wrapped hs)"
  by (induction hs arbitrary: fns) (simp_all add: mergeVNodeHook_def)

lemma invoke_copy_wrapped: "distinct hs \<Longrightarrow> Wrapped ` set hs \<inter> set fns = {} \<Longrightarrow> invoke_copy (map Wrapped hs) (fns @ map Wrapped hs) = (hs, fns)"
proof (induction hs)
  case (Cons h hs)
  have "remove_item (fns @ Wrapped h # map Wrapped hs) (Wrapped h) = fns @ map Wrapped hs"
    using Cons.prems by (auto simp: remove_item_eq remove1_append)
  then show ?case using Cons by simp
qed simp

text \<open>
  The hooks merged into a vnode's hook run in the order they were merged, after the hook it had,
  and only once: the next call runs the vnode's own hook alone.
\<close>

theorem merged_hooks_run_once:
  assumes "distinct hs" "hs \<noteq> []"
  shows "invoke_hook (fold mergeVNodeHook hs (PlainHook p)) = (p # hs, Merged [Plain p])" "invoke_hook (Merged [Plain p]) = ([p], Merged [Plain p])"
    "invoke_hook (fold mergeVNodeHook hs NoHook) = (hs, Merged [])"
proof -
  obtain h hs' where hs: "hs = h # hs'" using assms(2) by (cases hs) auto
  have m: "fold mergeVNodeHook hs (PlainHook p) = Merged (Plain p # map Wrapped hs)" "fold mergeVNodeHook hs NoHook = Merged (map Wrapped hs)"
    by (simp_all add: hs mergeVNodeHook_def merge_many)
  show "invoke_hook (fold mergeVNodeHook hs (PlainHook p)) = (p # hs, Merged [Plain p])"
  proof -
    have "Wrapped ` set hs \<inter> set [Plain p] = {}" by auto
    from invoke_copy_wrapped [OF assms(1) this] show ?thesis by (simp add: m invoke_hook_def)
  qed
  show "invoke_hook (Merged [Plain p]) = ([p], Merged [Plain p])" by (simp add: invoke_hook_def)
  show "invoke_hook (fold mergeVNodeHook hs NoHook) = (hs, Merged [])"
    using invoke_copy_wrapped [OF assms(1), of "[]"] by (simp add: m invoke_hook_def)
qed

fun every_other :: "'a list \<Rightarrow> 'a list" where
  "every_other (x # y # xs) = x # every_other xs"
| "every_other xs = xs"

fun skipped :: "'a list \<Rightarrow> 'a list" where
  "skipped (x # y # xs) = y # skipped xs"
| "skipped xs = []"

lemma remove_last_hook: "h \<notin> set pre \<Longrightarrow> remove_item (pre @ [h]) h = pre"
  by (simp add: remove_item_eq remove1_append)

lemma insert_loop_wrapped:
  "distinct hs \<Longrightarrow> Wrapped ` set hs \<inter> set pre = {} \<Longrightarrow>
   insert_loop (length pre) (pre @ map Wrapped hs) = (every_other hs, pre @ map Wrapped (skipped hs))"
proof (induction hs arbitrary: pre rule: every_other.induct)
  case (1 x y xs)
  have r: "remove_item (pre @ Wrapped x # Wrapped y # map Wrapped xs) (Wrapped x) = pre @ Wrapped y # map Wrapped xs"
    using 1(3) by (auto simp: remove_item_eq remove1_append)
  have "insert_loop (length (pre @ [Wrapped y])) ((pre @ [Wrapped y]) @ map Wrapped xs) =
      (every_other xs, (pre @ [Wrapped y]) @ map Wrapped (skipped xs))"
    using 1 by (intro "1.IH") auto
  then show ?case by (subst insert_loop.simps) (simp add: r)
next
  case "2_1"
  then show ?case by (subst insert_loop.simps) simp
next
  case "2_2"
  then show ?case by (subst insert_loop.simps) (simp add: remove_last_hook insert_loop.simps)
qed

text \<open>
  Where \<open>patch\<close> replaces the root of a component it calls the merged insert hooks of the
  placeholder itself, and it skips every other one: it goes over the list by index while each hook
  removes itself from it.
\<close>

theorem insert_hooks_skipped:
  assumes "distinct (h # hs)"
  shows "insert_merged (fold mergeVNodeHook (h # hs) (PlainHook p)) =
    (every_other (h # hs), Merged (Plain p # map Wrapped (skipped (h # hs))))"
proof -
  have m: "fold mergeVNodeHook (h # hs) (PlainHook p) = Merged ([Plain p] @ map Wrapped (h # hs))"
    by (simp add: mergeVNodeHook_def merge_many)
  have "insert_loop (length [Plain p]) ([Plain p] @ map Wrapped (h # hs)) = (every_other (h # hs), [Plain p] @ map Wrapped (skipped (h # hs)))"
    using assms by (intro insert_loop_wrapped) auto
  then show ?thesis unfolding m by (simp add: insert_merged_def)
qed

lemma insert_hooks_skipped_witness:
  "fst (insert_merged (fold mergeVNodeHook [1, 2, 3] (PlainHook 0))) = [1, 3]"
  using insert_hooks_skipped [of 1 "[2, 3]" 0] by simp

section \<open>The marks of the compiler\<close>

lemma has_mod_del: "has_mod (obj_del k ms) k' \<longleftrightarrow> k' \<noteq> k \<and> has_mod ms k'"
  by (simp add: has_mod_def)

lemma take_mark_cons: "take_mark c (d # r) = (if d = c then (True, r) else (False, d # r))"
  by (simp add: take_mark_def)

text \<open>The name under which \<open>addHandler\<close> stores a handler\<close>

definition marked_name :: "string \<Rightarrow> bool obj \<Rightarrow> string" where
  "marked_name name ms = fst (click_event (mark_event ''passive'' ''&'' (mark_event ''once'' ''~'' (mark_event ''capture'' ''!'' (name, ms)))))"

lemma addHandler_marked:
  "\<exists>h. events (fst (addHandler el name value (Some ms) imp w)) = Some (put_handler imp (marked_name name ms) h
     (case events el of Some e \<Rightarrow> e | None \<Rightarrow> []))"
  if "\<not> has_mod ms ''native''"
proof -
  obtain n' ms' where n: "click_event (mark_event ''passive'' ''&'' (mark_event ''once'' ''~'' (mark_event ''capture'' ''!'' (name, ms)))) = (n', ms')"
    by fastforce
  have "\<not> has_mod ms' ''native''" using n that
    by (auto simp: click_event_def mark_event_def has_mod_def split: if_splits prod.splits)
  then show ?thesis by (auto simp: addHandler_def n marked_name_def)
qed

text \<open>
  What the compiler writes into the name of an event the run time reads back: for a handler with
  modifiers, \<open>normalizeEvent\<close> of the name it is stored under gives the event and exactly the flags
  \<open>capture\<close>, \<open>once\<close> and \<open>passive\<close> of the modifiers. (The event itself starts with no mark; a \<open>click\<close>
  of the right or middle button is another event.)
\<close>

theorem event_marks_round_trip:
  assumes "\<not> has_mod ms ''native''" "name \<noteq> ''click'' \<or> \<not> (has_mod ms ''right'' \<or> has_mod ms ''middle'')"
    and "\<forall>r. name \<noteq> CHR ''&'' # r \<and> name \<noteq> CHR ''~'' # r \<and> name \<noteq> CHR ''!'' # r"
  shows "\<exists>h key. events (fst (addHandler el name value (Some ms) imp w)) =
      Some (put_handler imp key h (case events el of Some e \<Rightarrow> e | None \<Rightarrow> [])) \<and>
    normalizeEvent key =
      \<lparr>ev_name = name, ev_once = has_mod ms ''once'', ev_capture = has_mod ms ''capture'', ev_passive = has_mod ms ''passive''\<rparr>"
proof -
  have t: "take_mark (CHR ''&'') name = (False, name)" "take_mark (CHR ''~'') name = (False, name)" "take_mark (CHR ''!'') name = (False, name)"
    using assms(3) by (auto simp: take_mark_def split: list.splits)
  have c: "has_mod ms ''right'' \<or> has_mod ms ''middle'' \<Longrightarrow> name \<noteq> ''click''" using assms(2) by blast
  have n: "normalizeEvent (marked_name name ms) =
      \<lparr>ev_name = name, ev_once = has_mod ms ''once'', ev_capture = has_mod ms ''capture'', ev_passive = has_mod ms ''passive''\<rparr>"
    by (cases "has_mod ms ''once''"; cases "has_mod ms ''capture''"; cases "has_mod ms ''passive''")
      (use c in \<open>simp_all add: marked_name_def mark_event_def click_event_def has_mod_del normalizeEvent_def take_mark_cons t\<close>)
  show ?thesis using addHandler_marked [OF assms(1)] n by blast
qed

lemma event_marks_round_trip_witness:
  "\<exists>h key. events (fst (addHandler (fst (createASTElement ''div'' [])) ''scroll'' ''f'' (Some [(''once'', True), (''passive'', True)]) False False)) =
      Some (put_handler False key h (case events (fst (createASTElement ''div'' [])) of Some e \<Rightarrow> e | None \<Rightarrow> [])) \<and>
    normalizeEvent key = \<lparr>ev_name = ''scroll'', ev_once = True, ev_capture = False, ev_passive = True\<rparr>"
  using event_marks_round_trip [of "[(''once'', True), (''passive'', True)]" "''scroll''" "fst (createASTElement ''div'' [])" "''f''" False False]
  by (simp add: has_mod_def)

text \<open>The right button is only looked for on a name without marks: \<open>click.right.once\<close> stays a click.\<close>

lemma right_click_once: "marked_name ''click'' [(''right'', True)] = ''contextmenu''" "marked_name ''click'' [(''right'', True), (''once'', True)] = ''~click''"
  by code_simp+

end
