(* ===== verification/NextTick.thy ===== *)
theory NextTick
  imports SharedUtil
begin

text \<open>
  Deferred calls in \<open>frontend/js/vue.js\<close>: \<open>nextTick\<close>, its queue of callbacks and the timer that
  flushes it, \<open>withMacroTask\<close>, and the handling of errors (\<open>handleError\<close>, \<open>globalHandleError\<close>,
  \<open>logError\<close>). The browser's task queues are explicit: a timer is a micro or a macro task that will
  call \<open>flushCallbacks\<close>. What a callback or an error hook does is a parameter. The lemmas show that
  every callback runs exactly once, in the order of registration, with one timer pending as long as
  any waits, and how far an error travels.
\<close>

section \<open>Errors\<close>

text \<open>
  What is done with an error, in order: an \<open>errorCaptured\<close> hook is called with it, the global
  handler is, or it is written to the console.
\<close>

datatype 'e report = HookCalled 'e | GlobalCalled 'e | Logged 'e string

text \<open>A hook or handler ends normally (with the answer whether it returned false) or throws.\<close>

type_synonym 'e outcome = "'e + bool"

text \<open>A result: the reports, and the error that is thrown on when there is no console\<close>

definition logError :: "bool \<Rightarrow> 'e \<Rightarrow> string \<Rightarrow> 'e report list \<times> 'e option" where
  "logError console err info = ([Logged err info], if console then None else Some err)"

definition globalHandleError ::
    "bool \<Rightarrow> ('e \<Rightarrow> 'e outcome) option \<Rightarrow> 'e \<Rightarrow> string \<Rightarrow> 'e report list \<times> 'e option" where
  "globalHandleError console errorHandler err info =
     (case errorHandler of
        None \<Rightarrow> logError console err info
      | Some h \<Rightarrow>
          (case h err of
             Inr _ \<Rightarrow> ([GlobalCalled err], None)
           | Inl e \<Rightarrow>
               (case logError console e ''config.errorHandler'' of
                  (rs, Some e') \<Rightarrow> (GlobalCalled err # rs, Some e')
                | (rs, None) \<Rightarrow> (let (rs', t) = logError console err info in (GlobalCalled err # rs @ rs', t)))))"

text \<open>
  The hooks of one ancestor: whether one captured the error. A hook that throws is reported and the
  next one is called.
\<close>

fun call_hooks ::
    "bool \<Rightarrow> ('e \<Rightarrow> 'e outcome) option \<Rightarrow> ('e \<Rightarrow> 'e outcome) list \<Rightarrow> 'e \<Rightarrow> 'e report list \<times> (bool + 'e)" where
  "call_hooks console eh [] err = ([], Inl False)"
| "call_hooks console eh (h # hs) err =
     (case h err of
        Inr True \<Rightarrow> ([HookCalled err], Inl True)
      | Inr False \<Rightarrow> (let (rs, c) = call_hooks console eh hs err in (HookCalled err # rs, c))
      | Inl e \<Rightarrow>
          (case globalHandleError console eh e ''errorCaptured hook'' of
             (rs, Some e') \<Rightarrow> (HookCalled err # rs, Inr e')
           | (rs, None) \<Rightarrow> (let (rs', c) = call_hooks console eh hs err in (HookCalled err # rs @ rs', c))))"

text \<open>The ancestors, the nearest first, each with its hooks (none when it has no such option)\<close>

fun call_parents ::
    "bool \<Rightarrow> ('e \<Rightarrow> 'e outcome) option \<Rightarrow> ('e \<Rightarrow> 'e outcome) list list \<Rightarrow> 'e \<Rightarrow> string \<Rightarrow> 'e report list \<times> 'e option" where
  "call_parents console eh [] err info = globalHandleError console eh err info"
| "call_parents console eh (hooks # ps) err info =
     (case call_hooks console eh hooks err of
        (rs, Inl True) \<Rightarrow> (rs, None)
      | (rs, Inr e) \<Rightarrow> (rs, Some e)
      | (rs, Inl False) \<Rightarrow> (let (rs', t) = call_parents console eh ps err info in (rs @ rs', t)))"

definition handleError ::
    "bool \<Rightarrow> ('e \<Rightarrow> 'e outcome) option \<Rightarrow> ('e \<Rightarrow> 'e outcome) list list option \<Rightarrow> 'e \<Rightarrow> string \<Rightarrow> 'e report list \<times> 'e option" where
  "handleError console eh vm err info =
     (case vm of Some parents \<Rightarrow> call_parents console eh parents err info | None \<Rightarrow> globalHandleError console eh err info)"

section \<open>The queue of callbacks\<close>

text \<open>A callback, or the resolving of the promise \<open>nextTick\<close> returned when it was given none\<close>

datatype tick = Call nat | Resolve nat | Nothing

datatype timer = Micro | Macro

record ticks =
  t_callbacks :: "tick list"
  t_pending :: bool
  t_useMacroTask :: bool
  t_timers :: "timer list"
  t_promises :: nat
  t_registered :: "tick list"
  t_ran :: "tick list"

text \<open>\<open>t_registered\<close> and \<open>t_ran\<close> only record what has been registered and what has run.\<close>

definition ticks_init :: ticks where
  "ticks_init = \<lparr>t_callbacks = [], t_pending = False, t_useMacroTask = False, t_timers = [], t_promises = 0,
     t_registered = [], t_ran = []\<rparr>"

definition macroTimerFunc :: "ticks \<Rightarrow> ticks" where
  "macroTimerFunc st = st\<lparr>t_timers := t_timers st @ [Macro]\<rparr>"

definition microTimerFunc :: "bool \<Rightarrow> ticks \<Rightarrow> ticks" where
  "microTimerFunc promise st = (if promise then st\<lparr>t_timers := t_timers st @ [Micro]\<rparr> else macroTimerFunc st)"

text \<open>\<open>promise\<close>: there is a native \<open>Promise\<close>. The result is the promise, when one is returned.\<close>

definition nextTick :: "bool \<Rightarrow> nat option \<Rightarrow> ticks \<Rightarrow> nat option \<times> ticks" where
  "nextTick promise cb st =
     (let t = (case cb of Some c \<Rightarrow> Call c | None \<Rightarrow> if promise then Resolve (t_promises st) else Nothing);
          st1 = st\<lparr>t_callbacks := t_callbacks st @ [t], t_registered := t_registered st @ [t]\<rparr>;
          st2 = (if \<not> t_pending st1 then
                   (let st' = st1\<lparr>t_pending := True\<rparr> in
                    if t_useMacroTask st' then macroTimerFunc st' else microTimerFunc promise st')
                 else st1)
      in if cb = None \<and> promise then (Some (t_promises st2), st2\<lparr>t_promises := Suc (t_promises st2)\<rparr>) else (None, st2))"

text \<open>
  One callback runs: the callbacks it registers itself (an error it throws is handled and ends only
  it; without a console the error goes on, which is not modelled here).
\<close>

definition run_tick :: "bool \<Rightarrow> (nat \<Rightarrow> nat option list) \<Rightarrow> tick \<Rightarrow> ticks \<Rightarrow> ticks" where
  "run_tick promise body t st =
     (let st1 = st\<lparr>t_ran := t_ran st @ [t]\<rparr> in
      case t of Call c \<Rightarrow> foldl (\<lambda>s cb. snd (nextTick promise cb s)) st1 (body c) | _ \<Rightarrow> st1)"

definition flushCallbacks :: "bool \<Rightarrow> (nat \<Rightarrow> nat option list) \<Rightarrow> ticks \<Rightarrow> ticks" where
  "flushCallbacks promise body st =
     foldl (\<lambda>s t. run_tick promise body t s) (st\<lparr>t_pending := False, t_callbacks := []\<rparr>) (t_callbacks st)"

text \<open>\<open>withMacroTask\<close>: the handler registers callbacks with the flag set. \<open>throws\<close> ends it before the reset.\<close>

definition withMacroTask :: "bool \<Rightarrow> nat option list \<Rightarrow> bool \<Rightarrow> ticks \<Rightarrow> ticks" where
  "withMacroTask promise cbs throws st =
     (let st1 = foldl (\<lambda>s cb. snd (nextTick promise cb s)) (st\<lparr>t_useMacroTask := True\<rparr>) cbs
      in if throws then st1 else st1\<lparr>t_useMacroTask := False\<rparr>)"

section \<open>Steps\<close>

text \<open>
  The application registers a callback or an event handler runs; or the browser takes the next task:
  a micro task before a macro task.
\<close>

definition take_timer :: "timer list \<Rightarrow> timer list" where
  "take_timer ts = (if Micro \<in> set ts then remove1 Micro ts else tl ts)"

inductive tick_step :: "bool \<Rightarrow> (nat \<Rightarrow> nat option list) \<Rightarrow> ticks \<Rightarrow> ticks \<Rightarrow> bool" for promise body where
  register: "tick_step promise body st (snd (nextTick promise cb st))"
| handler: "tick_step promise body st (withMacroTask promise cbs throws st)"
| timer: "t_timers st \<noteq> [] \<Longrightarrow> tick_step promise body st (flushCallbacks promise body (st\<lparr>t_timers := take_timer (t_timers st)\<rparr>))"

definition tick_reachable :: "bool \<Rightarrow> (nat \<Rightarrow> nat option list) \<Rightarrow> ticks \<Rightarrow> bool" where
  "tick_reachable promise body st \<longleftrightarrow> (tick_step promise body)\<^sup>*\<^sup>* ticks_init st"

section \<open>The invariant of the queue\<close>

text \<open>\<open>rest\<close>: the callbacks of the current flush that are still to run\<close>

definition ticks_ok :: "tick list \<Rightarrow> ticks \<Rightarrow> bool" where
  "ticks_ok rest st \<longleftrightarrow>
     t_registered st = t_ran st @ rest @ t_callbacks st \<and>
     (t_pending st \<longleftrightarrow> t_callbacks st \<noteq> []) \<and>
     length (t_timers st) = (if t_pending st then 1 else 0)"

named_theorems tick_defs \<open>the operations of the queue\<close>

lemmas [tick_defs] = nextTick_def macroTimerFunc_def microTimerFunc_def Let_def

lemma nextTick_ok [inv_intros]: "ticks_ok rest st \<Longrightarrow> ticks_ok rest (snd (nextTick promise cb st))"
  by (auto simp: ticks_ok_def tick_defs)

lemma nextTicks_ok [inv_intros]: "ticks_ok rest st \<Longrightarrow> ticks_ok rest (foldl (\<lambda>s cb. snd (nextTick promise cb s)) st cbs)"
  by (induction cbs arbitrary: st) (auto intro: inv_intros)

lemma run_tick_ok: "ticks_ok (t # rest) st \<Longrightarrow> ticks_ok rest (run_tick promise body t st)"
proof -
  assume "ticks_ok (t # rest) st"
  then have "ticks_ok rest (st\<lparr>t_ran := t_ran st @ [t]\<rparr>)" by (simp add: ticks_ok_def)
  then show ?thesis by (auto simp: run_tick_def Let_def intro: inv_intros split: tick.split)
qed

lemma run_ticks_ok: "ticks_ok (ts @ rest) st \<Longrightarrow> ticks_ok rest (foldl (\<lambda>s t. run_tick promise body t s) st ts)"
  by (induction ts arbitrary: st) (auto intro: run_tick_ok)

lemma flush_ok:
  assumes "ticks_ok [] st" "t_timers st \<noteq> []"
  shows "ticks_ok [] (flushCallbacks promise body (st\<lparr>t_timers := take_timer (t_timers st)\<rparr>))"
proof -
  have "take_timer (t_timers st) = []"
    using assms by (cases "t_timers st") (auto simp: take_timer_def ticks_ok_def split: if_splits)
  then have "ticks_ok (t_callbacks st @ []) (st\<lparr>t_timers := take_timer (t_timers st), t_pending := False, t_callbacks := []\<rparr>)"
    using assms by (simp add: ticks_ok_def)
  from run_ticks_ok [OF this] show ?thesis by (simp add: flushCallbacks_def)
qed

lemma withMacroTask_ok: "ticks_ok rest st \<Longrightarrow> ticks_ok rest (withMacroTask promise cbs throws st)"
proof -
  assume "ticks_ok rest st"
  then have "ticks_ok rest (st\<lparr>t_useMacroTask := True\<rparr>)" by (simp add: ticks_ok_def)
  from nextTicks_ok [OF this, of promise cbs] show ?thesis by (simp add: withMacroTask_def Let_def) (simp add: ticks_ok_def)
qed

lemma reachable_ok: "tick_reachable promise body st \<Longrightarrow> ticks_ok [] st"
  unfolding tick_reachable_def
proof (induction rule: rtranclp_induct)
  case base
  show ?case by (simp add: ticks_ok_def ticks_init_def)
next
  case (step st st')
  from step(2) step(3) show ?case
    by cases (auto intro: inv_intros withMacroTask_ok flush_ok)
qed

lemma nextTicks_ran: "t_ran (foldl (\<lambda>s cb. snd (nextTick promise cb s)) st cbs) = t_ran st"
  by (induction cbs arbitrary: st) (simp_all add: tick_defs)

lemma flush_ran: "t_ran (flushCallbacks promise body st) = t_ran st @ t_callbacks st"
proof -
  have one: "t_ran (run_tick promise body t st) = t_ran st @ [t]" for t st
    by (simp add: run_tick_def Let_def nextTicks_ran split: tick.split)
  have "t_ran (foldl (\<lambda>s t. run_tick promise body t s) st ts) = t_ran st @ ts" for ts st
    by (induction ts arbitrary: st) (simp_all add: one)
  then show ?thesis by (simp add: flushCallbacks_def)
qed

text \<open>
  Every callback given to \<open>nextTick\<close> runs exactly once, in the order of registration, whatever
  the callbacks register themselves and whatever event handlers do in between: at every moment what
  has been registered is what has run, followed by what waits. There is a timer exactly while a
  callback waits, never two, and when it fires all that wait have run.
\<close>

theorem ticks_in_order:
  assumes "tick_reachable promise body st"
  shows "t_registered st = t_ran st @ t_callbacks st \<and> length (t_timers st) = (if t_callbacks st = [] then 0 else 1) \<and>
    t_ran (flushCallbacks promise body (st\<lparr>t_timers := take_timer (t_timers st)\<rparr>)) = t_registered st"
  using reachable_ok [OF assms] by (simp add: ticks_ok_def flush_ran)

lemma ticks_in_order_witness:
  "let st = snd (nextTick True None (snd (nextTick True (Some 7) ticks_init))) in
   t_registered st = [Call 7, Resolve 0] \<and> t_timers st = [Micro] \<and>
   t_ran (flushCallbacks True (\<lambda>_. [Some 8]) (st\<lparr>t_timers := take_timer (t_timers st)\<rparr>)) = t_registered st"
proof -
  let ?s1 = "snd (nextTick True (Some 7) ticks_init)" and ?s2 = "snd (nextTick True None (snd (nextTick True (Some 7) ticks_init)))"
  have "tick_step True (\<lambda>_. [Some 8]) ticks_init ?s1" "tick_step True (\<lambda>_. [Some 8]) ?s1 ?s2" by (rule register)+
  then have "tick_reachable True (\<lambda>_. [Some 8]) ?s2"
    unfolding tick_reachable_def by (rule converse_rtranclp_into_rtranclp [OF _ r_into_rtranclp])
  from ticks_in_order [OF this] have "t_ran (flushCallbacks True (\<lambda>_. [Some 8]) (?s2\<lparr>t_timers := take_timer (t_timers ?s2)\<rparr>)) = t_registered ?s2"
    by blast
  moreover have "t_registered ?s2 = [Call 7, Resolve 0]" "t_timers ?s2 = [Micro]" by (simp_all add: tick_defs ticks_init_def)
  ultimately show ?thesis by (simp add: Let_def)
qed

text \<open>
  An event handler that throws leaves the flag set: from then on every callback waits for a macro
  task, not only those registered in event handlers.
\<close>

lemma throwing_handler_keeps_flag:
  assumes "t_callbacks st = []" "\<not> t_pending st" "t_timers st = []"
  shows "t_timers (snd (nextTick True cb (withMacroTask True [] True st))) = [Macro]"
    and "\<not> t_useMacroTask st \<Longrightarrow> t_timers (snd (nextTick True cb (withMacroTask True [] False st))) = [Micro]"
  using assms by (simp_all add: withMacroTask_def tick_defs)

section \<open>How far an error travels\<close>

lemma call_hooks_total:
  "\<forall>h\<in>set hs. \<forall>e. h err \<noteq> Inl e \<Longrightarrow>
   call_hooks console eh hs err =
     (if \<exists>h\<in>set hs. h err = Inr True then (replicate (Suc (length (takeWhile (\<lambda>h. h err = Inr False) hs))) (HookCalled err), Inl True)
      else (replicate (length hs) (HookCalled err), Inl False))"
proof (induction hs)
  case (Cons h hs)
  obtain b where "h err = Inr b" using Cons.prems by (cases "h err") auto
  then show ?case using Cons by (cases b) auto
qed simp

lemma takeWhile_append_all: "\<forall>x\<in>set xs. P x \<Longrightarrow> takeWhile P (xs @ ys) = xs @ takeWhile P ys"
  by (induction xs) auto

text \<open>
  C40. An error goes up the ancestors of its component, the nearest first, through their
  \<open>errorCaptured\<close> hooks in order, each called once with it. The first hook that returns false stops
  it: nothing else is called. When none does it reaches the global handler, once.
\<close>

theorem error_stops_where_captured:
  assumes "\<forall>h\<in>set (concat parents). \<forall>e. h err \<noteq> Inl e"
  shows "handleError console eh (Some parents) err info =
    (if \<exists>h\<in>set (concat parents). h err = Inr True then
       (replicate (Suc (length (takeWhile (\<lambda>h. h err = Inr False) (concat parents)))) (HookCalled err), None)
     else
       (let (rs, t) = globalHandleError console eh err info in (replicate (length (concat parents)) (HookCalled err) @ rs, t)))"
  using assms unfolding handleError_def option.case
proof (induction parents)
  case Nil
  then show ?case by (simp split: prod.split)
next
  case (Cons hooks parents)
  have h: "\<forall>h\<in>set hooks. \<forall>e. h err \<noteq> Inl e" and p: "\<forall>h\<in>set (concat parents). \<forall>e. h err \<noteq> Inl e" using Cons.prems by auto
  show ?case
  proof (cases "\<exists>h\<in>set hooks. h err = Inr True")
    case True
    then obtain g where g: "g \<in> set hooks" "g err = Inr True" by blast
    then have "takeWhile (\<lambda>h. h err = Inr False) (hooks @ concat parents) = takeWhile (\<lambda>h. h err = Inr False) hooks"
      by (intro takeWhile_append1) auto
    then show ?thesis using True by (auto simp: call_hooks_total [OF h])
  next
    case False
    have f: "\<forall>h\<in>set hooks. h err = Inr False"
    proof
      fix g assume g: "g \<in> set hooks"
      then show "g err = Inr False" using h False by (cases "g err") auto
    qed
    show ?thesis using Cons.IH [OF p] False f
      by (auto simp: call_hooks_total [OF h] takeWhile_append_all replicate_add replicate_append_same split: prod.splits)
  qed
qed

lemma error_stops_where_captured_witness:
  "handleError True None (Some [[\<lambda>_. Inr False], [\<lambda>_. Inr True, \<lambda>_. Inr False]]) ''e'' ''render'' =
     ([HookCalled ''e'', HookCalled ''e''], None)"
  by (subst error_stops_where_captured) simp_all

end
