(* ===== verification/VNodes.thy ===== *)
theory VNodes
  imports SharedUtil
begin

text \<open>
  The nodes a render function makes in \<open>frontend/js/vue.js\<close> (\<open>VNode\<close>, before they are patched:
  \<open>Patch\<close> has its own view of them), and what is done to lists of children: normalization, the
  distribution of children to slots, and the props taken out of a component's data. The lemmas show
  that normalization keeps the text and the nodes in order and leaves no two text nodes side by
  side, and that every child lands in exactly one slot.
\<close>

section \<open>Nodes\<close>

text \<open>
  A context or a component is named by a number. The data of a node is the object the compiler or
  the user writes; \<open>None\<close> where it is undefined.
\<close>

record rinfo =
  r_tag :: "string option"
  r_data :: "jsval obj option"
  r_text :: "string option"
  r_key :: jsval
  r_ns :: "string option"
  r_context :: "nat option"
  r_fnContext :: "nat option"
  r_comp :: "nat option"
  r_async :: "nat option"
  r_isComment :: bool
  r_isStatic :: bool
  r_isOnce :: bool
  r_isCloned :: bool

datatype rnode = RNode (r_info: rinfo) (r_children: "rnode list option")

definition VNode ::
    "string option \<Rightarrow> jsval obj option \<Rightarrow> rnode list option \<Rightarrow> string option \<Rightarrow> nat option \<Rightarrow> nat option \<Rightarrow> nat option \<Rightarrow> rnode" where
  "VNode tag data children text ctx componentOptions asyncFactory =
     RNode \<lparr>r_tag = tag, r_data = data, r_text = text,
       r_key = (case data of Some d \<Rightarrow> get_or_undef d ''key'' | None \<Rightarrow> JUndef),
       r_ns = None, r_context = ctx, r_fnContext = None, r_comp = componentOptions, r_async = asyncFactory,
       r_isComment = False, r_isStatic = False, r_isOnce = False, r_isCloned = False\<rparr> children"

definition map_info :: "(rinfo \<Rightarrow> rinfo) \<Rightarrow> rnode \<Rightarrow> rnode" where
  "map_info f n = RNode (f (r_info n)) (r_children n)"

definition createEmptyVNode :: "string \<Rightarrow> rnode" where
  "createEmptyVNode text = map_info (\<lambda>i. i\<lparr>r_text := Some text, r_isComment := True\<rparr>) (VNode None None None None None None None)"

definition createTextVNode :: "string \<Rightarrow> rnode" where
  "createTextVNode val = VNode None None None (Some val) None None None"

text \<open>The mark \<open>isOnce\<close> is not copied.\<close>

definition cloneVNode :: "rnode \<Rightarrow> rnode" where
  "cloneVNode vnode =
     (let i = r_info vnode;
          cloned = VNode (r_tag i) (r_data i) (r_children vnode) (r_text i) (r_context i) (r_comp i) (r_async i)
      in map_info (\<lambda>c. c\<lparr>r_ns := r_ns i, r_isStatic := r_isStatic i, r_key := r_key i, r_isComment := r_isComment i,
           r_fnContext := r_fnContext i, r_isCloned := True\<rparr>) cloned)"

section \<open>Normalization of children\<close>

text \<open>
  A child before normalization: a value, an array (\<open>v-for\<close> marks its own, \<open>_isVList\<close>) or a node.
  Joining a symbol to a text throws in JavaScript; the model prints it.
\<close>

datatype child = Prim jsval | Arr bool "child list" | Node rnode

definition simpleNormalizeChildren :: "child list \<Rightarrow> child list" where
  "simpleNormalizeChildren children =
     (if list_ex (\<lambda>c. case c of Arr _ _ \<Rightarrow> True | _ \<Rightarrow> False) children
      then concat (map (\<lambda>c. case c of Arr _ cs \<Rightarrow> cs | _ \<Rightarrow> [c]) children) else children)"

definition isTextNode :: "rnode \<Rightarrow> bool" where
  "isTextNode node \<longleftrightarrow> r_text (r_info node) \<noteq> None \<and> \<not> r_isComment (r_info node)"

definition node_text :: "rnode \<Rightarrow> string" where
  "node_text n = (case r_text (r_info n) of Some s \<Rightarrow> s | None \<Rightarrow> [])"

definition last_is_text :: "rnode list \<Rightarrow> bool" where
  "last_is_text res \<longleftrightarrow> res \<noteq> [] \<and> isTextNode (last res)"

text \<open>\<open>res[lastIndex] = createTextVNode(last.text + s)\<close>\<close>

definition join_text :: "rnode list \<Rightarrow> string \<Rightarrow> rnode list" where
  "join_text res s = butlast res @ [createTextVNode (node_text (last res) @ s)]"

definition add_nodes :: "rnode list \<Rightarrow> rnode list \<Rightarrow> rnode list" where
  "add_nodes res c =
     (case c of
        n # r \<Rightarrow> if isTextNode n \<and> last_is_text res then join_text res (node_text n) @ r else res @ c
      | [] \<Rightarrow> res)"

text \<open>The default key of a child of \<open>v-for\<close>; the index path is \<open>None\<close> at the top.\<close>

definition with_list_key :: "bool \<Rightarrow> string option \<Rightarrow> nat \<Rightarrow> rnode \<Rightarrow> rnode" where
  "with_list_key isVList nestedIndex i c =
     (case nestedIndex of
        Some ni \<Rightarrow>
          if isVList \<and> r_tag (r_info c) \<noteq> None \<and> isUndef (r_key (r_info c))
          then map_info (\<lambda>x. x\<lparr>r_key := JStr (''__vlist'' @ ni @ ''_'' @ show_nat i @ ''__'')\<rparr>) c else c
      | None \<Rightarrow> c)"

fun normalize_from :: "bool \<Rightarrow> string option \<Rightarrow> nat \<Rightarrow> child list \<Rightarrow> rnode list \<Rightarrow> rnode list" where
  "normalize_from isVList nestedIndex i [] res = res"
| "normalize_from isVList nestedIndex i (Prim v # cs) res =
     normalize_from isVList nestedIndex (Suc i) cs
       (if isUndef v \<or> js_typeof v = ''boolean'' \<or> \<not> isPrimitive v then res
        else if last_is_text res then join_text res (js_String v)
        else if v \<noteq> JStr [] then res @ [createTextVNode (js_String v)] else res)"
| "normalize_from isVList nestedIndex i (Arr b as # cs) res =
     normalize_from isVList nestedIndex (Suc i) cs
       (if as = [] then res
        else add_nodes res
          (normalize_from b (Some ((case nestedIndex of Some ni \<Rightarrow> ni | None \<Rightarrow> []) @ ''_'' @ show_nat i)) 0 as []))"
| "normalize_from isVList nestedIndex i (Node c # cs) res =
     normalize_from isVList nestedIndex (Suc i) cs
       (if isTextNode c \<and> last_is_text res then join_text res (node_text c)
        else res @ [with_list_key isVList nestedIndex i c])"

definition normalizeArrayChildren :: "bool \<Rightarrow> child list \<Rightarrow> string option \<Rightarrow> rnode list" where
  "normalizeArrayChildren isVList children nestedIndex = normalize_from isVList nestedIndex 0 children []"

definition normalizeChildren :: "child \<Rightarrow> rnode list option" where
  "normalizeChildren children =
     (case children of
        Prim v \<Rightarrow> if isPrimitive v then Some [createTextVNode (js_String v)] else None
      | Arr b cs \<Rightarrow> Some (normalizeArrayChildren b cs None)
      | Node _ \<Rightarrow> None)"

section \<open>Slots\<close>

text \<open>\<open>data.attrs.slot\<close> is deleted when it is truthy.\<close>

definition drop_slot_attr :: "rnode \<Rightarrow> rnode" where
  "drop_slot_attr child =
     (case r_data (r_info child) of
        Some d \<Rightarrow>
          (case map_of d ''attrs'' of
             Some (JObj i as) \<Rightarrow>
               if truthy (get_or_undef as ''slot'')
               then map_info (\<lambda>x. x\<lparr>r_data := Some (obj_put ''attrs'' (JObj i (obj_del ''slot'' as)) d)\<rparr>) child else child
           | _ \<Rightarrow> child)
      | None \<Rightarrow> child)"

text \<open>The slot a child is for, and what goes there\<close>

definition slot_of :: "nat option \<Rightarrow> rnode \<Rightarrow> string \<times> rnode list" where
  "slot_of ctx child0 =
     (let child = drop_slot_attr child0; i = r_info child;
          name = (case r_data i of Some d \<Rightarrow> get_or_undef d ''slot'' | None \<Rightarrow> JUndef)
      in if (r_context i = ctx \<or> r_fnContext i = ctx) \<and> r_data i \<noteq> None \<and> isDef name
         then (js_String name,
               if r_tag i = Some ''template'' then (case r_children child of Some cs \<Rightarrow> cs | None \<Rightarrow> []) else [child])
         else (''default'', [child]))"

definition isWhitespace :: "rnode \<Rightarrow> bool" where
  "isWhitespace node \<longleftrightarrow>
     (r_isComment (r_info node) \<and> r_async (r_info node) = None) \<or> r_text (r_info node) = Some '' ''"

definition add_slot :: "nat option \<Rightarrow> rnode list obj \<Rightarrow> rnode \<Rightarrow> rnode list obj" where
  "add_slot ctx slots child =
     (let (name, ns) = slot_of ctx child
      in obj_put name ((case map_of slots name of Some cs \<Rightarrow> cs | None \<Rightarrow> []) @ ns) slots)"

definition resolveSlots :: "rnode list option \<Rightarrow> nat option \<Rightarrow> rnode list obj" where
  "resolveSlots children ctx =
     (case children of
        None \<Rightarrow> []
      | Some cs \<Rightarrow> filter (\<lambda>(_, ns). \<not> list_all isWhitespace ns) (foldl (add_slot ctx) [] cs))"

text \<open>Scoped slots: a function with its key, or an array of such\<close>

datatype scoped = Scoped string jsval | Scopeds "scoped list"

fun resolveScopedSlots :: "scoped list \<Rightarrow> jsval obj \<Rightarrow> jsval obj" where
  "resolveScopedSlots [] res = res"
| "resolveScopedSlots (Scoped k f # fns) res = resolveScopedSlots fns (obj_put k f res)"
| "resolveScopedSlots (Scopeds fs # fns) res = resolveScopedSlots fns (resolveScopedSlots fs res)"

section \<open>The props in a component's data\<close>

text \<open>\<open>checkProp\<close>: what is found, and the object it was found in, without it unless it is preserved\<close>

definition checkProp :: "jsval obj option \<Rightarrow> string \<Rightarrow> string \<Rightarrow> bool \<Rightarrow> (jsval \<times> jsval obj) option" where
  "checkProp hash key altKey preserve =
     (case hash of
        None \<Rightarrow> None
      | Some h \<Rightarrow>
          (case map_of h key of
             Some v \<Rightarrow> Some (v, if preserve then h else obj_del key h)
           | None \<Rightarrow>
               (case map_of h altKey of
                  Some v \<Rightarrow> Some (v, if preserve then h else obj_del altKey h)
                | None \<Rightarrow> None)))"

definition extract_prop :: "jsval obj option \<Rightarrow> jsval obj \<times> jsval obj option \<Rightarrow> string \<Rightarrow> jsval obj \<times> jsval obj option" where
  "extract_prop props acc key =
     (let res = fst acc; attrs = snd acc; altKey = hyphenate key in
      case checkProp props key altKey True of
        Some (v, _) \<Rightarrow> (obj_put key v res, attrs)
      | None \<Rightarrow>
          (case checkProp attrs key altKey False of
             Some (v, as) \<Rightarrow> (obj_put key v res, Some as)
           | None \<Rightarrow> (res, attrs)))"

text \<open>The props found, and the attributes that are left; the tips of the development build are left out.\<close>

definition extractPropsFromVNodeData ::
    "jsval obj option \<Rightarrow> jsval obj option \<Rightarrow> 'o obj option \<Rightarrow> jsval obj option \<times> jsval obj option" where
  "extractPropsFromVNodeData props attrs propOptions =
     (case propOptions of
        None \<Rightarrow> (None, attrs)
      | Some po \<Rightarrow>
          if attrs = None \<and> props = None then (Some [], attrs)
          else (let (res, as) = foldl (extract_prop props) ([], attrs) (obj_keys po) in (Some res, as)))"

definition getFirstComponentChild :: "rnode option list option \<Rightarrow> rnode option" where
  "getFirstComponentChild children =
     (case children of
        None \<Rightarrow> None
      | Some cs \<Rightarrow>
          (case List.find (\<lambda>c. case c of
               Some n \<Rightarrow> r_comp (r_info n) \<noteq> None \<or> (r_isComment (r_info n) \<and> r_async (r_info n) \<noteq> None)
             | None \<Rightarrow> False) cs of
             Some c \<Rightarrow> c
           | None \<Rightarrow> None))"

section \<open>Normalized children\<close>

text \<open>The text, letter by letter, and the other nodes, in order; the key may be added to a node.\<close>

definition keyless :: "rnode \<Rightarrow> rnode" where
  "keyless = map_info (\<lambda>i. i\<lparr>r_key := JUndef\<rparr>)"

definition node_content :: "rnode \<Rightarrow> (char + rnode) list" where
  "node_content n = (if isTextNode n then map Inl (node_text n) else [Inr (keyless n)])"

fun content :: "child \<Rightarrow> (char + rnode) list" where
  "content (Prim v) = (if isUndef v \<or> js_typeof v = ''boolean'' \<or> \<not> isPrimitive v then [] else map Inl (js_String v))"
| "content (Arr _ cs) = concat (map content cs)"
| "content (Node n) = node_content n"

definition no_adjacent_text :: "rnode list \<Rightarrow> bool" where
  "no_adjacent_text ns \<longleftrightarrow> successively (\<lambda>a b. \<not> (isTextNode a \<and> isTextNode b)) ns"

lemma text_node_simps [simp]: "isTextNode (createTextVNode s)" "node_text (createTextVNode s) = s"
  by (simp_all add: isTextNode_def node_text_def createTextVNode_def VNode_def)

lemma text_content: "isTextNode n \<Longrightarrow> node_content n = map Inl (node_text n)"
  by (simp add: node_content_def)

lemma with_key_simps [simp]:
  "isTextNode (with_list_key b ni i c) = isTextNode c" "node_content (with_list_key b ni i c) = node_content c"
  by (auto simp: with_list_key_def isTextNode_def node_text_def node_content_def keyless_def map_info_def split: option.split)

lemma join_content:
  "last_is_text res \<Longrightarrow> concat (map node_content (join_text res s)) = concat (map node_content res) @ map Inl s"
  by (cases res rule: rev_cases) (auto simp: join_text_def text_content last_is_text_def)

lemma adjacent_simps [simp]: "no_adjacent_text []" "no_adjacent_text [n]"
  by (simp_all add: no_adjacent_text_def)

lemma adjacent_snoc:
  "no_adjacent_text (ns @ [n]) \<longleftrightarrow> no_adjacent_text ns \<and> (ns \<noteq> [] \<longrightarrow> \<not> (isTextNode (last ns) \<and> isTextNode n))"
  by (auto simp: no_adjacent_text_def successively_append_iff)

lemma join_adjacent: "no_adjacent_text res \<Longrightarrow> last_is_text res \<Longrightarrow> no_adjacent_text (join_text res s) \<and> last_is_text (join_text res s)"
  by (cases res rule: rev_cases) (auto simp: join_text_def last_is_text_def adjacent_snoc)

lemma add_nodes_content: "concat (map node_content (add_nodes res c)) = concat (map node_content res) @ concat (map node_content c)"
  by (auto simp: add_nodes_def join_content text_content split: list.split)

lemma add_nodes_adjacent:
  assumes "no_adjacent_text res" "no_adjacent_text c"
  shows "no_adjacent_text (add_nodes res c)"
proof (cases c)
  case Nil
  then show ?thesis using assms by (simp add: add_nodes_def)
next
  case (Cons n r)
  show ?thesis
  proof (cases "isTextNode n \<and> last_is_text res")
    case True
    have j: "no_adjacent_text (join_text res (node_text n))" using join_adjacent [OF assms(1)] True by blast
    have "\<not> isTextNode (hd r)" if "r \<noteq> []" using assms(2) True that by (cases r) (auto simp: Cons no_adjacent_text_def)
    moreover have "no_adjacent_text r" using assms(2) by (cases r) (auto simp: Cons no_adjacent_text_def)
    ultimately show ?thesis using True j by (auto simp: add_nodes_def Cons no_adjacent_text_def successively_append_iff)
  next
    case False
    then show ?thesis using assms by (auto simp: add_nodes_def Cons no_adjacent_text_def successively_append_iff last_is_text_def)
  qed
qed

lemma normalize_from_content:
  "concat (map node_content (normalize_from b ni i cs res)) = concat (map node_content res) @ concat (map content cs)"
proof (induction b ni i cs res rule: normalize_from.induct)
  case (2 b ni i v cs res)
  then show ?case by (auto simp: join_content text_content)
next
  case (3 b ni i b' as cs res)
  then show ?case by (simp add: add_nodes_content)
next
  case (4 b ni i c cs res)
  then show ?case by (auto simp: join_content text_content)
qed simp

lemma normalize_from_adjacent: "no_adjacent_text res \<Longrightarrow> no_adjacent_text (normalize_from b ni i cs res)"
proof (induction b ni i cs res rule: normalize_from.induct)
  case (2 b ni i v cs res)
  then show ?case using join_adjacent [of res] by (auto simp: adjacent_snoc last_is_text_def)
next
  case (3 b ni i b' as cs res)
  then show ?case by (auto simp: add_nodes_adjacent)
next
  case (4 b ni i c cs res)
  then show ?case using join_adjacent [of res] by (auto simp: adjacent_snoc last_is_text_def)
qed simp

text \<open>
  Normalizing the children of a render function loses nothing and adds nothing: the text, joined,
  and the other nodes come out in the order they were given, however deep the arrays are nested
  (undefined, null and booleans count as nothing; a node may get a key); and no two text nodes stand
  side by side.
\<close>

theorem normalize_keeps_content:
  "concat (map node_content (normalizeArrayChildren b cs ni)) = concat (map content cs) \<and>
   no_adjacent_text (normalizeArrayChildren b cs ni)"
  by (simp add: normalizeArrayChildren_def normalize_from_content normalize_from_adjacent)

lemma normalize_keeps_content_example:
  "normalizeArrayChildren False [Prim (JStr ''a''), Prim JNull, Arr False [Prim (JStr ''b''), Node (createEmptyVNode [])], Prim (JStr ''c'')] None =
     [createTextVNode ''ab'', createEmptyVNode [], createTextVNode ''c'']"
  by code_simp

section \<open>Slots\<close>

definition slot_children :: "nat option \<Rightarrow> rnode list \<Rightarrow> string \<Rightarrow> rnode list" where
  "slot_children ctx cs name = concat (map (\<lambda>c. snd (slot_of ctx c)) (filter (\<lambda>c. fst (slot_of ctx c) = name) cs))"

lemma slots_collected:
  "wf_obj (foldl (add_slot ctx) [] cs) \<and>
   map_of (foldl (add_slot ctx) [] cs) name =
     (if \<exists>c\<in>set cs. fst (slot_of ctx c) = name then Some (slot_children ctx cs name) else None)"
proof (induction cs rule: rev_induct)
  case (snoc c cs)
  then show ?case by (cases "slot_of ctx c") (auto simp: add_slot_def slot_children_def)
qed simp

lemma map_of_filter_value:
  "distinct (map fst xs) \<Longrightarrow> map_of (filter (\<lambda>(_, v). P v) xs) k = (case map_of xs k of Some v \<Rightarrow> if P v then Some v else None | None \<Rightarrow> None)"
proof (induction xs)
  case (Cons x xs)
  obtain a v where x: "x = (a, v)" by (cases x)
  have "map_of xs a = None" using Cons.prems map_of_None_iff [of xs a] by (simp add: x)
  then show ?case using Cons by (auto simp: x split: option.splits)
qed simp

text \<open>
  The children of a component are distributed to its slots without loss or repetition: the slot
  of a name holds, in order, exactly the children that are for it (a child names a slot only when it
  was rendered in the component's own context; all others are for the default slot; a \<open>template\<close> gives
  its children). A slot of nothing but white space is left out.
\<close>

theorem slots_partition_children:
  "map_of (resolveSlots (Some cs) ctx) name =
     (if list_all isWhitespace (slot_children ctx cs name) then None else Some (slot_children ctx cs name))"
proof -
  have "distinct (map fst (foldl (add_slot ctx) [] cs))" using slots_collected [of ctx cs name] by (simp add: wf_obj_def)
  then have "map_of (resolveSlots (Some cs) ctx) name =
      (case map_of (foldl (add_slot ctx) [] cs) name of
         Some ns \<Rightarrow> if \<not> list_all isWhitespace ns then Some ns else None | None \<Rightarrow> None)"
    by (simp add: resolveSlots_def map_of_filter_value)
  moreover have "slot_children ctx cs name = []" if "\<not> (\<exists>c\<in>set cs. fst (slot_of ctx c) = name)"
    using that by (auto simp: slot_children_def filter_empty_conv)
  ultimately show ?thesis using slots_collected [of ctx cs name] by auto
qed

section \<open>Props and attributes\<close>

definition attr_get :: "jsval obj option \<Rightarrow> string \<Rightarrow> jsval option" where
  "attr_get as k = (case as of Some a \<Rightarrow> map_of a k | None \<Rightarrow> None)"

lemma extract_step:
  "k \<noteq> key \<Longrightarrow> map_of (fst (extract_prop props acc key)) k = map_of (fst acc) k"
  "attr_get props key = Some v \<Longrightarrow> map_of (fst (extract_prop props acc key)) key = Some v"
  "k \<noteq> key \<Longrightarrow> k \<noteq> hyphenate key \<Longrightarrow> attr_get (snd (extract_prop props acc key)) k = attr_get (snd acc) k"
  by (auto simp: extract_prop_def Let_def checkProp_def attr_get_def split: option.splits)

lemma extract_steps:
  "k \<notin> set ks \<Longrightarrow> map_of (fst (foldl (extract_prop props) acc ks)) k = map_of (fst acc) k"
  "\<forall>key\<in>set ks. k \<noteq> key \<and> k \<noteq> hyphenate key \<Longrightarrow> attr_get (snd (foldl (extract_prop props) acc ks)) k = attr_get (snd acc) k"
proof (induction ks arbitrary: acc)
  case (Cons key ks)
  {
    case 1
    then show ?case using Cons.IH(1) [of "extract_prop props acc key"] extract_step(1) [of k key props acc] by simp
  next
    case 2
    then show ?case using Cons.IH(2) [of "extract_prop props acc key"] extract_step(3) [of k key props acc] by simp
  }
qed simp_all

text \<open>
  Only declared props are extracted; a value given as a prop wins over an attribute; and an attribute
  that is neither the name nor the hyphenated name of a declared prop stays an attribute.
\<close>

theorem extract_props_sound:
  assumes "distinct (obj_keys po)" "extractPropsFromVNodeData props attrs (Some po) = (Some res, as)"
  shows "(\<forall>k. k \<notin> set (obj_keys po) \<longrightarrow> map_of res k = None) \<and>
    (\<forall>key v. key \<in> set (obj_keys po) \<longrightarrow> attr_get props key = Some v \<longrightarrow> map_of res key = Some v) \<and>
    (\<forall>k. (\<forall>key\<in>set (obj_keys po). k \<noteq> key \<and> k \<noteq> hyphenate key) \<longrightarrow> attr_get as k = attr_get attrs k)"
proof (cases "attrs = None \<and> props = None")
  case True
  then show ?thesis using assms by (auto simp: extractPropsFromVNodeData_def attr_get_def)
next
  case False
  let ?r = "foldl (extract_prop props) ([], attrs) (obj_keys po)"
  have r: "res = fst ?r" "as = snd ?r" using assms(2) False by (auto simp: extractPropsFromVNodeData_def split: prod.splits if_splits)
  have "map_of res key = Some v" if k: "key \<in> set (obj_keys po)" and v: "attr_get props key = Some v" for key v
  proof -
    obtain us vs where s: "obj_keys po = us @ key # vs" using split_list [OF k] by blast
    then have "key \<notin> set vs" using assms(1) by auto
    then show ?thesis using extract_steps(1) [of key vs props] extract_step(2) [OF v] by (simp add: r(1) s)
  qed
  then show ?thesis using extract_steps(1) [of _ "obj_keys po" props "([], attrs)"] extract_steps(2) [of "obj_keys po" _ props "([], attrs)"] by (simp add: r)
qed

end
