(* ===== verification/RenderHelpers.thy ===== *)
theory RenderHelpers
  imports VNodes Options WebTags
begin

text \<open>
  The helpers the generated render code of \<open>frontend/js/vue.js\<close> calls (\<open>_l\<close>, \<open>_t\<close>, \<open>_f\<close>, \<open>_k\<close>, \<open>_b\<close>, \<open>_g\<close>,
  \<open>_m\<close>, \<open>_o\<close>), and the provision and injection of values down the tree of components. Functions of
  the application are parameters. The lemmas show that \<open>v-bind\<close> and \<open>v-on\<close> of an object never
  displace what the element says itself, that a static tree is rendered once, and that an injected
  value comes from the nearest provider.
\<close>

section \<open>Lists, slots, filters, keys\<close>

text \<open>
  \<open>render\<close> gets the value, the key or index, and the index; \<open>None\<close> is the exception of \<open>new Array\<close>
  for a number that is no array length, the inner \<open>None\<close> is undefined.
\<close>

definition renderList :: "jsval \<Rightarrow> (jsval \<Rightarrow> jsval \<Rightarrow> nat \<Rightarrow> 'a) \<Rightarrow> 'a list option option" where
  "renderList val render =
     (let num = (\<lambda>n. JNum (Dec (int n) 0)) in
      case val of
        JArr _ xs \<Rightarrow> Some (Some (map (\<lambda>i. render (xs ! i) (num i) i) [0..<length xs]))
      | JStr s \<Rightarrow> Some (Some (map (\<lambda>i. render (JStr [s ! i]) (num i) i) [0..<length s]))
      | JNum (Dec m 0) \<Rightarrow>
          if 0 \<le> m \<and> m < 4294967296 then Some (Some (map (\<lambda>i. render (num (Suc i)) (num i) i) [0..<nat m])) else None
      | JNum _ \<Rightarrow> None
      | JObj _ fs \<Rightarrow> Some (Some (map (\<lambda>i. render (snd (fs ! i)) (JStr (fst (fs ! i))) i) [0..<length fs]))
      | JHost _ _ _ \<Rightarrow> Some (Some [])
      | _ \<Rightarrow> Some None)"

text \<open>
  \<open>renderSlot\<close>: the nodes, whether the duplicate warning is given, and the slot the nodes are handed
  on to in a \<open>template\<close>, if any. A scoped slot function is applied by \<open>call\<close>.
\<close>

definition renderSlot ::
    "(jsval \<Rightarrow> jsval obj \<Rightarrow> 'n option) \<Rightarrow> jsval obj \<Rightarrow> ('n \<times> bool) obj \<Rightarrow> string \<Rightarrow> 'n option \<Rightarrow> jsval obj option \<Rightarrow> jsval \<Rightarrow>
       (jsval \<times> 'n option) \<times> ('n \<times> bool) obj \<times> string list" where
  "renderSlot call scopedSlots slots name fallback props bindObject =
     (let (nodes, props1, slots1, ws) =
        (if truthy (get_or_undef scopedSlots name) then
           (let p0 = (case props of Some p \<Rightarrow> p | None \<Rightarrow> []);
                ws = (if truthy bindObject \<and> \<not> isObject bindObject then [''slot v-bind without argument expects an Object''] else []);
                p1 = (if truthy bindObject then SharedUtil.extend (SharedUtil.extend [] (own_props bindObject)) p0 else p0)
            in (case call (get_or_undef scopedSlots name) p1 of Some n \<Rightarrow> Some n | None \<Rightarrow> fallback, Some p1, slots, ws))
         else
           (case map_of slots name of
              Some (ns, rendered) \<Rightarrow>
                (Some ns, props, obj_put name (ns, True) slots,
                 if rendered then [''Duplicate presence of slot '' @ [dq] @ name @ [dq] @
                   '' found in the same render tree - this will likely cause render errors.''] else [])
            | None \<Rightarrow> (fallback, props, slots, [])));
          target = (case props1 of Some p \<Rightarrow> get_or_undef p ''slot'' | None \<Rightarrow> JUndef)
      in ((if truthy target then target else JUndef, nodes), slots1, ws))"

text \<open>\<open>None\<close> stands for \<open>identity\<close>.\<close>

definition resolveFilter :: "optval \<Rightarrow> string \<Rightarrow> jsval option" where
  "resolveFilter filters ident =
     (let f = resolveAsset filters (JStr ident) in if truthy f then Some f else None)"

definition isKeyNotMatch :: "jsval \<Rightarrow> jsval \<Rightarrow> bool" where
  "isKeyNotMatch expect actual =
     (case expect of
        JArr _ xs \<Rightarrow> \<not> list_ex (\<lambda>x. strict_eq x actual) xs
      | _ \<Rightarrow> \<not> strict_eq expect actual)"

definition checkKeyCodes :: "jsval obj \<Rightarrow> jsval \<Rightarrow> string \<Rightarrow> jsval \<Rightarrow> jsval \<Rightarrow> jsval \<Rightarrow> jsval" where
  "checkKeyCodes keyCodes eventKeyCode key builtInKeyCode eventKeyName builtInKeyName =
     (let custom = get_or_undef keyCodes key;
          mappedKeyCode = (if truthy custom then custom else builtInKeyCode)
      in if truthy builtInKeyName \<and> truthy eventKeyName \<and> \<not> truthy custom then JBool (isKeyNotMatch builtInKeyName eventKeyName)
         else if truthy mappedKeyCode then JBool (isKeyNotMatch mappedKeyCode eventKeyCode)
         else if truthy eventKeyName then JBool (hyphenate (js_String eventKeyName) \<noteq> key)
         else JUndef)"

section \<open>Binding objects\<close>

text \<open>A member of the data that is an object, made when it is missing\<close>

definition sub_obj :: "jsval obj \<Rightarrow> string \<Rightarrow> jsval obj" where
  "sub_obj data h = (case map_of data h of Some (JObj _ fs) \<Rightarrow> fs | _ \<Rightarrow> [])"

definition put_sub :: "jsval obj \<Rightarrow> string \<Rightarrow> string \<Rightarrow> jsval \<Rightarrow> jsval obj" where
  "put_sub data h k v =
     obj_put h (JObj (case map_of data h of Some (JObj i _) \<Rightarrow> i | _ \<Rightarrow> 0) (obj_put k v (sub_obj data h))) data"

text \<open>Where a key goes: \<open>None\<close> is the data itself\<close>

definition bind_hash :: "string \<Rightarrow> bool \<Rightarrow> jsval obj \<Rightarrow> string \<Rightarrow> string option" where
  "bind_hash tag asProp data key =
     (if key = ''class'' \<or> key = ''style'' \<or> isReservedAttribute key then None
      else if asProp \<or> mustUseProp tag (case get_or_undef (sub_obj data ''attrs'') ''type'' of JStr s \<Rightarrow> Some s | _ \<Rightarrow> None) key
      then Some ''domProps'' else Some ''attrs'')"

text \<open>One key; \<open>setter\<close> is the function that writes the value back (the modifier \<open>sync\<close>).\<close>

definition bind_key ::
    "(string \<Rightarrow> jsval) \<Rightarrow> string \<Rightarrow> bool \<Rightarrow> bool \<Rightarrow> jsval obj \<Rightarrow> string \<times> jsval \<Rightarrow> jsval obj" where
  "bind_key setter tag asProp isSync data kv =
     (case kv of (key, v) \<Rightarrow>
       let hash = bind_hash tag asProp data key in
       if (case hash of None \<Rightarrow> hasOwn data key | Some h \<Rightarrow> hasOwn (sub_obj data h) key)
       then (case hash of None \<Rightarrow> data | Some h \<Rightarrow> if map_of data h = None then obj_put h (JObj 0 []) data else data)
       else
         (let data1 = (case hash of None \<Rightarrow> obj_put key v data | Some h \<Rightarrow> put_sub data h key v)
          in if isSync then put_sub data1 ''on'' (''update:'' @ key) (setter key) else data1))"

definition bindObjectProps ::
    "(string \<Rightarrow> jsval) \<Rightarrow> jsval obj \<Rightarrow> string \<Rightarrow> jsval \<Rightarrow> bool \<Rightarrow> bool \<Rightarrow> jsval obj \<times> string list" where
  "bindObjectProps setter data tag val asProp isSync =
     (if \<not> truthy val then (data, [])
      else if \<not> isObject val then (data, [''v-bind without argument expects an Object or Array value''])
      else
        (let ps = (case val of
             JArr _ xs \<Rightarrow> toObject (map (\<lambda>x. if truthy x then Some (own_props x) else None) xs)
           | _ \<Rightarrow> own_props val)
         in (foldl (bind_key setter tag asProp isSync) data ps, [])))"

definition parts_of :: "jsval \<Rightarrow> jsval list" where
  "parts_of v = (case v of JArr _ xs \<Rightarrow> xs | _ \<Rightarrow> [v])"

definition bind_listener :: "jsval obj \<Rightarrow> string \<times> jsval \<Rightarrow> jsval obj" where
  "bind_listener on kv =
     (case kv of (key, ours) \<Rightarrow>
       let existing = get_or_undef on key in
       obj_put key (if truthy existing then JArr 0 (parts_of existing @ parts_of ours) else ours) on)"

definition bindObjectListeners :: "jsval obj \<Rightarrow> jsval \<Rightarrow> jsval obj \<times> string list" where
  "bindObjectListeners data val =
     (if \<not> truthy val then (data, [])
      else if \<not> isPlainObject val then (data, [''v-on without argument expects an Object value''])
      else (obj_put ''on'' (JObj 0 (foldl bind_listener (sub_obj data ''on'') (own_props val))) data, []))"

section \<open>Static trees\<close>

text \<open>A tree is a node or an array of nodes and strings; \<open>Inl\<close> is a string (or nothing).\<close>

datatype tree = One rnode | Many "(string + rnode) list"

definition markStaticNode :: "string \<Rightarrow> bool \<Rightarrow> rnode \<Rightarrow> rnode" where
  "markStaticNode key isOnce = map_info (\<lambda>i. i\<lparr>r_isStatic := True, r_key := JStr key, r_isOnce := isOnce\<rparr>)"

definition markStatic :: "tree \<Rightarrow> string \<Rightarrow> bool \<Rightarrow> tree" where
  "markStatic tree key isOnce =
     (case tree of
        One n \<Rightarrow> One (markStaticNode key isOnce n)
      | Many ns \<Rightarrow>
          Many (map (\<lambda>(i, x). case x of Inr n \<Rightarrow> Inr (markStaticNode (key @ ''_'' @ show_nat i) isOnce n) | Inl s \<Rightarrow> Inl s)
            (enumerate 0 ns)))"

definition markOnce :: "tree \<Rightarrow> nat \<Rightarrow> jsval \<Rightarrow> tree" where
  "markOnce tree index key =
     markStatic tree (''__once__'' @ show_nat index @ (if truthy key then ''_'' @ js_String key else [])) True"

text \<open>
  The trees an instance has cached, by index, and how often each render function was called;
  \<open>renderFn\<close> is \<open>staticRenderFns\<close>, \<open>None\<close> the exception of an index it does not have.
\<close>

definition renderStatic ::
    "(nat \<Rightarrow> tree option) \<Rightarrow> nat \<Rightarrow> bool \<Rightarrow> (nat \<rightharpoonup> tree) \<times> nat list \<Rightarrow> (tree \<times> (nat \<rightharpoonup> tree) \<times> nat list) option" where
  "renderStatic renderFn index isInFor st =
     (case (fst st index, isInFor) of
        (Some t, False) \<Rightarrow> Some (t, st)
      | _ \<Rightarrow>
          (case renderFn index of
             None \<Rightarrow> None
           | Some t \<Rightarrow>
               (let t1 = markStatic t (''__static__'' @ show_nat index) False
                in Some (t1, (fst st)(index \<mapsto> t1), snd st @ [index]))))"

section \<open>Provide and inject\<close>

text \<open>
  The instance and its ancestors, each with what it provides, if anything. An injection has a source
  key and perhaps a default; \<open>call\<close> applies a default that is a function.
\<close>

definition initProvide :: "(jsval \<Rightarrow> jsval) \<Rightarrow> jsval \<Rightarrow> jsval obj option \<Rightarrow> jsval obj option" where
  "initProvide call provide provided =
     (if truthy provide then Some (own_props (if js_typeof provide = ''function'' then call provide else provide)) else provided)"

fun find_provided :: "jsval obj option list \<Rightarrow> string \<Rightarrow> jsval option" where
  "find_provided [] key = None"
| "find_provided (p # ps) key =
     (case p of
        Some o1 \<Rightarrow> (case map_of o1 key of Some v \<Rightarrow> Some v | None \<Rightarrow> find_provided ps key)
      | None \<Rightarrow> find_provided ps key)"

definition inject_one ::
    "(jsval \<Rightarrow> jsval) \<Rightarrow> jsval obj option list \<Rightarrow> jsval obj \<times> string list \<Rightarrow> string \<times> jsval \<Rightarrow> jsval obj \<times> string list" where
  "inject_one call chain acc kv =
     (case kv of (key, spec) \<Rightarrow>
       (case find_provided chain (js_String (get_or_undef (own_props spec) ''from'')) of
          Some v \<Rightarrow> (obj_put key v (fst acc), snd acc)
        | None \<Rightarrow>
            if hasOwn (own_props spec) ''default'' then
              (let d = get_or_undef (own_props spec) ''default''
               in (obj_put key (if js_typeof d = ''function'' then call d else d) (fst acc), snd acc))
            else (fst acc, snd acc @ [''Injection '' @ [dq] @ key @ [dq] @ '' not found''])))"

definition resolveInject :: "(jsval \<Rightarrow> jsval) \<Rightarrow> jsval obj option list \<Rightarrow> jsval obj option \<Rightarrow> jsval obj option \<times> string list" where
  "resolveInject call chain inject =
     (case inject of
        None \<Rightarrow> (None, [])
      | Some specs \<Rightarrow> (let (res, ws) = foldl (inject_one call chain) ([], []) specs in (Some res, ws)))"

section \<open>Functional components and v-model of components\<close>

definition mergeProps :: "jsval obj \<Rightarrow> jsval obj \<Rightarrow> jsval obj" where
  "mergeProps to from = foldl (\<lambda>res (k, v). obj_put (camelize k) v res) to from"

text \<open>\<open>transformModel\<close>: \<open>prop\<close> and \<open>event\<close> of the component's option \<open>model\<close>\<close>

definition transformModel :: "jsval obj \<Rightarrow> jsval obj \<Rightarrow> jsval obj" where
  "transformModel model data =
     (let prop = (if truthy (get_or_undef model ''prop'') then js_String (get_or_undef model ''prop'') else ''value'');
          event = (if truthy (get_or_undef model ''event'') then js_String (get_or_undef model ''event'') else ''input'');
          m = sub_obj data ''model'';
          data1 = put_sub data ''props'' prop (get_or_undef m ''value'');
          old = get_or_undef (sub_obj data1 ''on'') event; callback = get_or_undef m ''callback''
      in put_sub data1 ''on'' event (if isDef old then JArr 0 (callback # parts_of old) else callback))"

section \<open>What an object binding may change\<close>

lemma sub_put_sub [simp]: "sub_obj (put_sub data h k v) h' = (if h' = h then obj_put k v (sub_obj data h) else sub_obj data h')"
  by (simp add: sub_obj_def put_sub_def)

lemma get_put_sub [simp]: "k' \<noteq> h \<Longrightarrow> map_of (put_sub data h k v) k' = map_of data k'"
  by (simp add: put_sub_def)

lemma sub_obj_put [simp]: "h \<noteq> k \<Longrightarrow> sub_obj (obj_put k v data) h = sub_obj data h"
  by (simp add: sub_obj_def)

lemma sub_obj_new [simp]: "map_of data h = None \<Longrightarrow> sub_obj (obj_put h (JObj 0 []) data) h' = sub_obj data h'"
  by (simp add: sub_obj_def)

lemma hasOwn_iff: "hasOwn ob k \<longleftrightarrow> map_of ob k \<noteq> None"
  using map_of_None_iff [of ob k] by (simp add: hasOwn_def)

lemma bind_hash_cases: "bind_hash tag asProp data key = None \<and> (key = ''class'' \<or> key = ''style'' \<or> isReservedAttribute key) \<or>
    bind_hash tag asProp data key = Some ''domProps'' \<or> bind_hash tag asProp data key = Some ''attrs''"
  by (auto simp: bind_hash_def)

lemma reserved_not_hash: "isReservedAttribute key \<or> key = ''class'' \<or> key = ''style'' \<Longrightarrow> key \<noteq> ''attrs'' \<and> key \<noteq> ''domProps'' \<and> key \<noteq> ''on''"
  by (auto simp: isReservedAttribute_def makeMap_def)

text \<open>Where the element has a value for a key\<close>

definition bound_at :: "jsval obj \<Rightarrow> string option \<Rightarrow> string \<Rightarrow> jsval option" where
  "bound_at data hash key = (case hash of None \<Rightarrow> map_of data key | Some h \<Rightarrow> map_of (sub_obj data h) key)"

abbreviation bind_target :: "string option \<Rightarrow> string \<Rightarrow> bool" where
  "bind_target hash k \<equiv> hash = Some ''attrs'' \<or> hash = Some ''domProps'' \<or> hash = None \<and> k \<notin> {''attrs'', ''domProps'', ''on''}"

lemma bound_new: "bound_at data hash k = Some v \<Longrightarrow> map_of data h = None \<Longrightarrow> bound_at (obj_put h (JObj 0 []) data) hash k = Some v"
  by (cases hash) (auto simp: bound_at_def)

lemma bound_put:
  "bound_at data hash k = Some v \<Longrightarrow> map_of data key = None \<Longrightarrow> key \<notin> {''attrs'', ''domProps''} \<Longrightarrow> bind_target hash k \<Longrightarrow>
   bound_at (obj_put key w data) hash k = Some v"
  by (cases hash) (auto simp: bound_at_def)

lemma bound_put_sub:
  "bound_at data hash k = Some v \<Longrightarrow> map_of (sub_obj data h) key = None \<or> h = ''on'' \<Longrightarrow> h \<in> {''attrs'', ''domProps'', ''on''} \<Longrightarrow> bind_target hash k \<Longrightarrow>
   bound_at (put_sub data h key w) hash k = Some v"
  by (cases hash) (auto simp: bound_at_def)

lemma bind_key_keeps:
  assumes "bound_at data hash k = Some v" "bind_target hash k"
  shows "bound_at (bind_key setter tag asProp isSync data kv) hash k = Some v"
proof (cases kv)
  case (Pair key w)
  have sync: "bound_at (if isSync then put_sub d ''on'' (''update:'' @ key) (setter key) else d) hash k = Some v"
    if "bound_at d hash k = Some v" for d
    using bound_put_sub [OF that _ _ assms(2), of "''on''"] that by simp
  consider (data) "bind_hash tag asProp data key = None" "key \<notin> {''attrs'', ''domProps''}"
    | (sub) h where "bind_hash tag asProp data key = Some h" "h \<in> {''attrs'', ''domProps''}"
    using bind_hash_cases [of tag asProp data key] reserved_not_hash [of key] by auto
  then show ?thesis
  proof cases
    case data
    then show ?thesis using assms(1) sync [OF bound_put [OF assms(1) _ data(2) assms(2)]]
      by (simp add: bind_key_def Pair hasOwn_iff Let_def)
  next
    case (sub h)
    have "h \<in> {''attrs'', ''domProps'', ''on''}" using sub(2) by blast
    then show ?thesis using sub(1) assms(1) bound_new [OF assms(1)] sync [OF bound_put_sub [OF assms(1) _ _ assms(2)]]
      by (simp add: bind_key_def Pair hasOwn_iff Let_def)
  qed
qed

lemma bind_key_binds: "\<exists>hash. bind_target hash key \<and> bound_at (bind_key setter tag asProp isSync data (key, w)) hash key \<noteq> None"
proof -
  let ?h = "bind_hash tag asProp data key"
  have "bind_target ?h key" using bind_hash_cases [of tag asProp data key] reserved_not_hash [of key] by auto
  moreover have "bound_at (bind_key setter tag asProp isSync data (key, w)) ?h key \<noteq> None"
    using bind_hash_cases [of tag asProp data key] reserved_not_hash [of key]
    by (cases ?h) (auto simp: bind_key_def Let_def bound_at_def hasOwn_iff)
  ultimately show ?thesis by blast
qed

lemma bind_keys:
  "bound_at data hash k = Some v \<Longrightarrow> bind_target hash k \<Longrightarrow>
   bound_at (foldl (bind_key setter tag asProp isSync) data ps) hash k = Some v"
  by (induction ps arbitrary: data) (simp_all add: bind_key_keeps)

lemma bind_keys_bound:
  "key \<in> set (map fst ps) \<Longrightarrow>
   \<exists>hash v. bind_target hash key \<and> bound_at (foldl (bind_key setter tag asProp isSync) data ps) hash key = Some v"
proof (induction ps arbitrary: data)
  case (Cons kv ps)
  show ?case
  proof (cases "key = fst kv")
    case True
    obtain hash v where "bind_target hash key" "bound_at (bind_key setter tag asProp isSync data kv) hash key = Some v"
      using bind_key_binds [of key setter tag asProp isSync data "snd kv"] True by auto
    then show ?thesis using bind_keys [of "bind_key setter tag asProp isSync data kv" hash key v setter tag asProp isSync ps] by auto
  next
    case False
    then show ?thesis using Cons by simp
  qed
qed simp

text \<open>
  \<open>v-bind\<close> of an object gives way to what the element says itself: every attribute and DOM
  property the data already has keeps its value, and so do its class, style, key and the like;
  and every key of the object is bound afterwards, as an attribute, a property or in the data.
\<close>

theorem bind_object_gives_way:
  assumes "bindObjectProps setter data tag (JObj i ps) asProp isSync = (data', ws)"
  shows "(\<forall>h k v. h \<in> {''attrs'', ''domProps''} \<longrightarrow> map_of (sub_obj data h) k = Some v \<longrightarrow> map_of (sub_obj data' h) k = Some v) \<and>
    (\<forall>k v. k \<notin> {''attrs'', ''domProps'', ''on''} \<longrightarrow> map_of data k = Some v \<longrightarrow> map_of data' k = Some v) \<and>
    (\<forall>key\<in>set (map fst ps). hasOwn data' key \<or> hasOwn (sub_obj data' ''attrs'') key \<or> hasOwn (sub_obj data' ''domProps'') key)"
proof -
  have d: "data' = foldl (bind_key setter tag asProp isSync) data ps" using assms by (simp add: bindObjectProps_def isObject_def)
  have "hasOwn data' key \<or> hasOwn (sub_obj data' ''attrs'') key \<or> hasOwn (sub_obj data' ''domProps'') key" if k: "key \<in> set (map fst ps)" for key
  proof -
    from bind_keys_bound [OF k, of setter tag asProp isSync data] obtain hash v where
      "bind_target hash key" "bound_at data' hash key = Some v" unfolding d by (elim exE conjE)
    then show ?thesis by (elim disjE conjE) (simp_all add: bound_at_def hasOwn_iff)
  qed
  moreover have "map_of (sub_obj data' h) k = Some v" if "h \<in> {''attrs'', ''domProps''}" "map_of (sub_obj data h) k = Some v" for h k v
    using bind_keys [of data "Some h" k v setter tag asProp isSync ps] that by (auto simp: bound_at_def d)
  moreover have "map_of data' k = Some v" if "k \<notin> {''attrs'', ''domProps'', ''on''}" "map_of data k = Some v" for k v
    using bind_keys [of data None k v setter tag asProp isSync ps] that by (simp add: bound_at_def d)
  ultimately show ?thesis by blast
qed

lemma bind_object_gives_way_witness:
  "map_of (sub_obj (fst (bindObjectProps (\<lambda>_. JUndef) [(''attrs'', JObj 1 [(''id'', JStr ''own'')])] ''div''
      (JObj 2 [(''id'', JStr ''other''), (''title'', JStr ''t'')]) False False)) ''attrs'') ''id'' = Some (JStr ''own'')"
proof -
  let ?data = "[(''attrs'', JObj 1 [(''id'', JStr ''own'')])]" and ?ps = "[(''id'', JStr ''other''), (''title'', JStr ''t'')]"
  let ?r = "bindObjectProps (\<lambda>_. JUndef) ?data ''div'' (JObj 2 ?ps) False False"
  have "map_of (sub_obj ?data ''attrs'') ''id'' = Some (JStr ''own'')" by (simp add: sub_obj_def)
  from conjunct1 [OF bind_object_gives_way [OF prod.collapse [of ?r, symmetric]], rule_format, OF _ this] show ?thesis by simp
qed

section \<open>Listeners, injections, static trees\<close>

text \<open>The handlers of an event, when there are any\<close>

definition listeners_on :: "jsval obj \<Rightarrow> string \<Rightarrow> jsval list" where
  "listeners_on on key = (if truthy (get_or_undef on key) then parts_of (get_or_undef on key) else [])"

lemma parts_of_array [simp]: "parts_of (JArr i xs) = xs"
  by (simp add: parts_of_def)

text \<open>\<open>v-on\<close> of an object of handlers adds each after the handlers the element has for the event.\<close>

theorem bind_listeners_append:
  assumes "wf_obj hs" "\<forall>(k, h)\<in>set hs. truthy h" "bindObjectListeners data (JObj i hs) = (data', ws)"
  shows "listeners_on (sub_obj data' ''on'') key = listeners_on (sub_obj data ''on'') key @ listeners_on hs key"
proof -
  have "listeners_on (foldl bind_listener on hs) key = listeners_on on key @ listeners_on hs key" for on
    using assms(1,2)
  proof (induction hs arbitrary: on)
    case (Cons p hs)
    obtain k h where p: "p = (k, h)" by (cases p)
    have w: "wf_obj hs" "map_of hs k = None" using Cons.prems(1) map_of_None_iff [of hs k] by (auto simp: wf_obj_def p)
    have "listeners_on (bind_listener on (k, h)) key = listeners_on on key @ (if key = k then parts_of h else [])"
      using Cons.prems(2) by (auto simp: p listeners_on_def bind_listener_def get_or_undef_def Let_def)
    then show ?case using Cons.IH [OF w(1), of "bind_listener on p"] Cons.prems(2) w(2)
      by (auto simp: p listeners_on_def get_or_undef_def)
  qed (simp add: listeners_on_def get_or_undef_def)
  then show ?thesis using assms(3) by (auto simp: bindObjectListeners_def isPlainObject_def sub_obj_def)
qed

text \<open>An injected value is that of the nearest ancestor that provides it.\<close>

theorem injected_from_nearest:
  assumes "wf_obj specs" "map_of specs key = Some spec" "resolveInject call chain (Some specs) = (Some res, ws)"
    and "chain = us @ Some p # vs" "map_of p (js_String (get_or_undef (own_props spec) ''from'')) = Some v"
    and "\<forall>u\<in>set us. \<forall>q. u = Some q \<longrightarrow> map_of q (js_String (get_or_undef (own_props spec) ''from'')) = None"
  shows "map_of res key = Some v"
proof -
  let ?k = "js_String (get_or_undef (own_props spec) ''from'')"
  have f: "find_provided chain ?k = Some v"
    using assms(6) unfolding assms(4) by (induction us) (auto simp: assms(5) split: option.splits)
  have r: "res = fst (foldl (inject_one call chain) ([], []) specs)" using assms(3) by (simp add: resolveInject_def split: prod.splits)
  have other: "map_of (fst (foldl (inject_one call chain) acc ss)) key = map_of (fst acc) key" if "key \<notin> set (map fst ss)" for acc ss
    using that by (induction ss arbitrary: acc) (auto simp: inject_one_def Let_def split: option.splits)
  obtain as bs where s: "specs = as @ (key, spec) # bs" using map_of_SomeD [OF assms(2)] split_list by fastforce
  then have "key \<notin> set (map fst bs)" using assms(1) by (simp add: wf_obj_def)
  then show ?thesis using other [of bs] by (simp add: r s inject_one_def f)
qed

text \<open>Outside \<open>v-for\<close> a static tree is rendered once and the same tree is used again.\<close>

theorem static_tree_once:
  assumes "renderStatic fns index isInFor st = Some (t, st1)"
  shows "renderStatic fns index False st1 = Some (t, st1)"
  using assms by (auto simp: renderStatic_def Let_def split: option.splits bool.splits)

end
