(* ===== verification/CreateElement.thy ===== *)
theory CreateElement
  imports RenderHelpers Props
begin

text \<open>
  The creation of nodes in \<open>frontend/js/vue.js\<close>: \<open>createElement\<close> with the arguments it sorts out,
  \<open>createComponent\<close>, functional components, namespaces, and \<open>_render\<close>, which turns whatever a render
  function does into one node. Constructors, asynchronous components and render functions of the
  application are parameters.
\<close>

section \<open>Components\<close>

text \<open>A constructor: its identity (\<open>cid\<close>) and the options \<open>createComponent\<close> reads\<close>

record ctor =
  ct_cid :: nat
  ct_name :: "string option"
  ct_props :: "jsval obj option"
  ct_model :: "jsval obj"
  ct_functional :: bool
  ct_abstract :: bool

text \<open>
  What is registered as a component: a constructor, a plain options object (which \<open>extend\<close> turns
  into one), the factory of an asynchronous component, another value, or nothing.
\<close>

datatype comp_def = Ctor ctor | Plain nat | Factory nat | Invalid jsval | NoComp

text \<open>The \<open>componentOptions\<close> of a placeholder; \<open>r_comp\<close> of the node is its place in the list of all.\<close>

record comp_options =
  co_ctor :: nat
  co_propsData :: "jsval obj option"
  co_listeners :: jsval
  co_tag :: "string option"
  co_children :: "rnode list option"

datatype created = Single rnode | Several "rnode list" | Undefined

text \<open>
  What the application provides: the constructors of plain options and of factories, the render
  functions of functional components, the value of a prop (\<open>validateProp\<close>), and what a value given
  as \<open>:is\<close> stands for.
\<close>

record app =
  a_extend :: "nat \<Rightarrow> ctor"
  a_async :: "nat \<Rightarrow> ctor option"
  a_render :: "nat \<Rightarrow> jsval obj \<Rightarrow> jsval obj \<Rightarrow> rnode list option \<Rightarrow> created"
  a_prop :: "string \<Rightarrow> jsval obj \<Rightarrow> jsval obj \<Rightarrow> jsval"
  a_value :: "jsval \<Rightarrow> comp_def"

record cstate =
  cs_options :: "comp_options list"
  cs_warns :: "string list"

definition cloneAndMarkFunctionalResult :: "rnode \<Rightarrow> jsval obj \<Rightarrow> nat option \<Rightarrow> rnode" where
  "cloneAndMarkFunctionalResult vnode data contextVm =
     map_info (\<lambda>i. i\<lparr>r_fnContext := contextVm,
       r_data := (if truthy (get_or_undef data ''slot'')
                  then Some (obj_put ''slot'' (get_or_undef data ''slot'') (case r_data i of Some d \<Rightarrow> d | None \<Rightarrow> [])) else r_data i)\<rparr>)
       (cloneVNode vnode)"

definition functional_props :: "app \<Rightarrow> jsval obj option \<Rightarrow> jsval obj option \<Rightarrow> jsval obj \<Rightarrow> jsval obj" where
  "functional_props app propOptions propsData data =
     (case propOptions of
        Some po \<Rightarrow> foldl (\<lambda>res key. obj_put key (a_prop app key po (case propsData of Some p \<Rightarrow> p | None \<Rightarrow> [])) res) [] (obj_keys po)
      | None \<Rightarrow> mergeProps (mergeProps [] (sub_obj data ''attrs'')) (sub_obj data ''props''))"

definition createFunctionalComponent ::
    "app \<Rightarrow> ctor \<Rightarrow> jsval obj option \<Rightarrow> jsval obj \<Rightarrow> nat option \<Rightarrow> rnode list option \<Rightarrow> created" where
  "createFunctionalComponent app Ct propsData data contextVm children =
     (case a_render app (ct_cid Ct) (functional_props app (ct_props Ct) propsData data) data children of
        Single n \<Rightarrow> Single (cloneAndMarkFunctionalResult n data contextVm)
      | Several ns \<Rightarrow>
          Several (map (\<lambda>n. cloneAndMarkFunctionalResult n data contextVm) (normalizeArrayChildren False (map Node ns) None))
      | Undefined \<Rightarrow> Undefined)"

text \<open>The hooks that manage a component are put over the data's own.\<close>

definition hooksToMerge :: "string list" where
  "hooksToMerge = [''init'', ''prepatch'', ''insert'', ''destroy'']"

definition installComponentHooks :: "jsval obj \<Rightarrow> jsval obj" where
  "installComponentHooks data = foldl (\<lambda>d key. put_sub d ''hook'' key (JFun 0 (''componentVNodeHooks.'' @ key))) data hooksToMerge"

definition createAsyncPlaceholder :: "nat \<Rightarrow> rnode" where
  "createAsyncPlaceholder factory = map_info (\<lambda>i. i\<lparr>r_async := Some factory\<rparr>) (createEmptyVNode [])"

definition placeholder_tag :: "ctor \<Rightarrow> string option \<Rightarrow> string" where
  "placeholder_tag Ct tag =
     (let name = (case ct_name Ct of Some n \<Rightarrow> if n \<noteq> [] then Some n else tag | None \<Rightarrow> tag)
      in ''vue-component-'' @ show_nat (ct_cid Ct) @ (case name of Some n \<Rightarrow> if n \<noteq> [] then ''-'' @ n else [] | None \<Rightarrow> []))"

text \<open>The props taken out of the data, and the data without the attributes that became props\<close>

definition component_props :: "ctor \<Rightarrow> jsval obj \<Rightarrow> jsval obj option \<times> jsval obj" where
  "component_props Ct data =
     (let hash = (\<lambda>h. case map_of data h of Some (JObj i as) \<Rightarrow> Some as | _ \<Rightarrow> None);
          (propsData, attrs) = extractPropsFromVNodeData (hash ''props'') (hash ''attrs'') (ct_props Ct)
      in (propsData,
          case (map_of data ''attrs'', attrs) of
            (Some (JObj i _), Some as) \<Rightarrow> obj_put ''attrs'' (JObj i as) data
          | _ \<Rightarrow> data))"

text \<open>The data of the placeholder: native listeners, hooks; of an abstract component only its slot\<close>

definition placeholder_data :: "ctor \<Rightarrow> jsval obj \<Rightarrow> jsval obj" where
  "placeholder_data Ct data =
     (let data1 = obj_put ''on'' (get_or_undef data ''nativeOn'') data
      in installComponentHooks
           (if ct_abstract Ct then
              (if truthy (get_or_undef data1 ''slot'') then [(''slot'', get_or_undef data1 ''slot'')] else [])
            else data1))"

text \<open>A component whose constructor is known: the placeholder, and its options at the end of the list\<close>

definition create_placeholder ::
    "app \<Rightarrow> ctor \<Rightarrow> nat option \<Rightarrow> jsval obj \<Rightarrow> nat option \<Rightarrow> rnode list option \<Rightarrow> string option \<Rightarrow> cstate \<Rightarrow> created \<times> cstate" where
  "create_placeholder app Ct factory data0 ctx children tag st =
     (let data1 = (if isDef (get_or_undef data0 ''model'') then transformModel (ct_model Ct) data0 else data0);
          (propsData, data2) = component_props Ct data1
      in if ct_functional Ct then (createFunctionalComponent app Ct propsData data2 ctx children, st)
         else
           (Single (VNode (Some (placeholder_tag Ct tag)) (Some (placeholder_data Ct data2)) None None ctx (Some (length (cs_options st))) factory),
            st\<lparr>cs_options := cs_options st @
              [\<lparr>co_ctor = ct_cid Ct, co_propsData = propsData, co_listeners = get_or_undef data2 ''on'', co_tag = tag, co_children = children\<rparr>]\<rparr>))"

fun createComponent ::
    "app \<Rightarrow> comp_def \<Rightarrow> jsval obj option \<Rightarrow> nat option \<Rightarrow> rnode list option \<Rightarrow> string option \<Rightarrow> cstate \<Rightarrow> created \<times> cstate" where
  "createComponent app NoComp data ctx children tag st = (Undefined, st)"
| "createComponent app (Invalid v) data ctx children tag st =
     (Undefined, st\<lparr>cs_warns := cs_warns st @ [''Invalid Component definition: '' @ js_String v]\<rparr>)"
| "createComponent app (Plain n) data ctx children tag st =
     create_placeholder app (a_extend app n) None (case data of Some d \<Rightarrow> d | None \<Rightarrow> []) ctx children tag st"
| "createComponent app (Ctor Ct) data ctx children tag st =
     create_placeholder app Ct None (case data of Some d \<Rightarrow> d | None \<Rightarrow> []) ctx children tag st"
| "createComponent app (Factory f) data ctx children tag st =
     (case a_async app f of
        None \<Rightarrow> (Single (createAsyncPlaceholder f), st)
      | Some Ct \<Rightarrow> create_placeholder app Ct (Some f) (case data of Some d \<Rightarrow> d | None \<Rightarrow> []) ctx children tag st)"

section \<open>Namespaces\<close>

fun applyNS :: "string option \<Rightarrow> bool \<Rightarrow> rnode \<Rightarrow> rnode" where
  "applyNS ns force (RNode i kids) =
     (let inside = (if r_tag i = Some ''foreignObject'' then None else ns);
          force1 = (force \<or> r_tag i = Some ''foreignObject'')
      in RNode (i\<lparr>r_ns := ns\<rparr>)
           (case kids of
              None \<Rightarrow> None
            | Some cs \<Rightarrow>
                Some (map (\<lambda>c. if r_tag (r_info c) \<noteq> None \<and>
                                  (r_ns (r_info c) = None \<or> (force1 \<and> r_tag (r_info c) \<noteq> Some ''svg''))
                               then applyNS inside force1 c else c) cs)))"

section \<open>createElement\<close>

text \<open>The second argument: data, or already the children\<close>

datatype data_arg = Data "jsval obj option" | Kids child

text \<open>The tag: a name, a component given directly, or nothing\<close>

datatype tag_arg = Name string | Direct comp_def | NoTag

definition is_num :: "nat \<Rightarrow> child option \<Rightarrow> bool" where
  "is_num n c \<longleftrightarrow> c = Some (Prim (JNum (Dec (int n) 0)))"

definition SIMPLE_NORMALIZE :: nat where "SIMPLE_NORMALIZE = 1"
definition ALWAYS_NORMALIZE :: nat where "ALWAYS_NORMALIZE = 2"

text \<open>
  The children of a node that are not normalized are nodes already (the compiler sees to it); \<open>None\<close>
  for children that are not, which the model does not cover.
\<close>

definition as_nodes :: "child option \<Rightarrow> rnode list option option" where
  "as_nodes c =
     (case c of
        None \<Rightarrow> Some None
      | Some (Arr _ cs) \<Rightarrow>
          if list_all (\<lambda>x. case x of Node _ \<Rightarrow> True | _ \<Rightarrow> False) cs
          then Some (Some (map (\<lambda>x. case x of Node n \<Rightarrow> n | _ \<Rightarrow> createEmptyVNode []) cs)) else None
      | Some _ \<Rightarrow> None)"

definition normalize_arg :: "child option \<Rightarrow> child option \<Rightarrow> rnode list option option" where
  "normalize_arg normalizationType children =
     (if is_num ALWAYS_NORMALIZE normalizationType then
        (case children of Some c \<Rightarrow> Some (normalizeChildren c) | None \<Rightarrow> Some None)
      else if is_num SIMPLE_NORMALIZE normalizationType then
        as_nodes (case children of Some (Arr b cs) \<Rightarrow> Some (Arr b (simpleNormalizeChildren cs)) | _ \<Rightarrow> children)
      else as_nodes children)"

text \<open>A single function as children is the default scoped slot.\<close>

definition function_child :: "jsval obj option \<Rightarrow> child option \<Rightarrow> jsval obj option \<times> child option" where
  "function_child data children =
     (case children of
        Some (Arr b (Prim f # _)) \<Rightarrow>
          if js_typeof f = ''function''
          then (Some (obj_put ''scopedSlots'' (JObj 0 [(''default'', f)]) (case data of Some d \<Rightarrow> d | None \<Rightarrow> [])), Some (Arr b []))
          else (data, children)
      | _ \<Rightarrow> (data, children))"

text \<open>
  What an instance gives as the context: its number, its own namespace and its components.
  (\<open>registerDeepBindings\<close> only reads, to collect dependencies.)
\<close>

record ctx_vm =
  cv_id :: nat
  cv_ns :: "string option"
  cv_components :: "string \<Rightarrow> comp_def"

definition finish_node :: "string option \<Rightarrow> created \<Rightarrow> created" where
  "finish_node ns vnode =
     (case vnode of
        Several ns' \<Rightarrow> Several ns'
      | Single n \<Rightarrow> Single (if ns \<noteq> None then applyNS ns False n else n)
      | Undefined \<Rightarrow> Single (createEmptyVNode []))"

definition createElement_2 ::
    "app \<Rightarrow> ctx_vm \<Rightarrow> tag_arg \<Rightarrow> jsval obj option \<Rightarrow> child option \<Rightarrow> child option \<Rightarrow> cstate \<Rightarrow> (created \<times> cstate) option" where
  "createElement_2 app ctx tag0 data0 children0 normalizationType st0 =
     (if (case data0 of Some d \<Rightarrow> isDef (get_or_undef d ''__ob__'') | None \<Rightarrow> False) then
        Some (Single (createEmptyVNode []), st0\<lparr>cs_warns := cs_warns st0 @ [''Avoid using observed data object as vnode data'']\<rparr>)
      else
        (let is = (case data0 of Some d \<Rightarrow> get_or_undef d ''is'' | None \<Rightarrow> JUndef);
             tag = (if isDef is then (case is of JStr s \<Rightarrow> Name s | v \<Rightarrow> if truthy v then Direct (a_value app v) else NoTag) else tag0)
         in if tag = NoTag \<or> tag = Name [] then Some (Single (createEmptyVNode []), st0)
            else
              (let st = (if (case data0 of Some d \<Rightarrow> isDef (get_or_undef d ''key'') \<and> \<not> isPrimitive (get_or_undef d ''key'') | None \<Rightarrow> False)
                         then st0\<lparr>cs_warns := cs_warns st0 @ [''Avoid using non-primitive value as key, use string/number value instead.'']\<rparr> else st0);
                   (data, children1) = function_child data0 children0
               in case normalize_arg normalizationType children1 of
                    None \<Rightarrow> None
                  | Some children \<Rightarrow>
                      Some (case tag of
                          Name t \<Rightarrow>
                            (let ns = (case cv_ns ctx of Some n \<Rightarrow> Some n | None \<Rightarrow> getTagNamespace t);
                                 (v, st1) =
                                   (if isReservedTag t then (Single (VNode (Some t) data children None (Some (cv_id ctx)) None None), st)
                                    else if cv_components ctx t \<noteq> NoComp then
                                      createComponent app (cv_components ctx t) data (Some (cv_id ctx)) children (Some t) st
                                    else (Single (VNode (Some t) data children None (Some (cv_id ctx)) None None), st))
                             in (finish_node ns v, st1))
                        | Direct c \<Rightarrow>
                            (let (v, st1) = createComponent app c data (Some (cv_id ctx)) children None st in (finish_node None v, st1))
                        | NoTag \<Rightarrow> (Single (createEmptyVNode []), st)))))"

definition createElement ::
    "app \<Rightarrow> ctx_vm \<Rightarrow> tag_arg \<Rightarrow> data_arg \<Rightarrow> child option \<Rightarrow> child option \<Rightarrow> bool \<Rightarrow> cstate \<Rightarrow> (created \<times> cstate) option" where
  "createElement app ctx tag data children normalizationType alwaysNormalize st =
     (let (data1, children1, nt1) = (case data of
            Kids c \<Rightarrow> (None, Some c, children)
          | Data d \<Rightarrow> (d, children, normalizationType));
          nt2 = (if alwaysNormalize then Some (Prim (JNum (Dec (int ALWAYS_NORMALIZE) 0))) else nt1)
      in createElement_2 app ctx tag data1 children1 nt2 st)"

section \<open>Rendering an instance\<close>

text \<open>A render function returns a node, several nodes, another value, or throws an error.\<close>

definition render_vm ::
    "(created + 'e) \<Rightarrow> ('e \<Rightarrow> created + 'e) option \<Rightarrow> rnode option \<Rightarrow> rnode \<times> ('e \<times> string) list \<times> string list" where
  "render_vm result renderError prev =
     (let old = (case prev of Some n \<Rightarrow> Single n | None \<Rightarrow> Undefined);
          (vnode, errs) = (case result of
             Inl v \<Rightarrow> (v, [])
           | Inr e \<Rightarrow>
               (case renderError of
                  None \<Rightarrow> (old, [(e, ''render'')])
                | Some f \<Rightarrow> (case f e of Inl v \<Rightarrow> (v, [(e, ''render'')]) | Inr e' \<Rightarrow> (old, [(e, ''render''), (e', ''renderError'')]))))
      in case vnode of
           Single n \<Rightarrow> (n, errs, [])
         | Several ns \<Rightarrow> (createEmptyVNode [], errs, [''Multiple root nodes returned from render function. Render function should return a single root node.''])
         | Undefined \<Rightarrow> (createEmptyVNode [], errs, []))"

section \<open>What is created\<close>

lemma finish_defined: "finish_node ns v \<noteq> Undefined"
  by (cases v) (auto simp: finish_node_def)

text \<open>A render function always gets a node (or the nodes of a functional component), never undefined.\<close>

theorem createElement_defined:
  assumes "createElement app ctx tag data children nt always st = Some (v, st')"
  shows "v \<noteq> Undefined"
  using assms finish_defined
  by (auto simp: createElement_def createElement_2_def Let_def split: if_splits option.splits prod.splits tag_arg.splits data_arg.splits)

lemma on_not_hooked: "k \<noteq> ''hook'' \<Longrightarrow> map_of (installComponentHooks d) k = map_of d k"
proof -
  assume k: "k \<noteq> ''hook''"
  have "map_of (foldl (\<lambda>d key. put_sub d ''hook'' key (f key)) d ks) k = map_of d k" for f ks
    using k by (induction ks arbitrary: d) simp_all
  then show ?thesis by (simp add: installComponentHooks_def)
qed

lemma component_props_spec:
  assumes "ct_props Ct = Some po" "distinct (obj_keys po)" "map_of data ''attrs'' = Some (JObj i as)"
  shows "\<exists>r as2. component_props Ct data = (Some r, obj_put ''attrs'' (JObj i as2) data) \<and>
    (\<forall>k. map_of r k \<noteq> None \<longrightarrow> k \<in> set (obj_keys po)) \<and>
    (\<forall>k. (\<forall>key\<in>set (obj_keys po). k \<noteq> key \<and> k \<noteq> hyphenate key) \<longrightarrow> map_of as2 k = map_of as k)"
proof -
  define props where "props = (case map_of data ''props'' of Some (JObj i as) \<Rightarrow> Some as | _ \<Rightarrow> None)"
  define r where "r = fst (foldl (extract_prop props) ([], Some as) (obj_keys po))"
  have "snd (foldl (extract_prop props) acc ks) \<noteq> None" if "snd acc \<noteq> None" for acc ks
    using that by (induction ks arbitrary: acc) (auto simp: extract_prop_def Let_def split: option.splits)
  from this [of "([], Some as)" "obj_keys po"] obtain as2 where as2: "snd (foldl (extract_prop props) ([], Some as) (obj_keys po)) = Some as2" by auto
  have e: "extractPropsFromVNodeData props (Some as) (Some po) = (Some r, Some as2)"
    using as2 by (simp add: extractPropsFromVNodeData_def r_def case_prod_beta)
  have c: "component_props Ct data = (Some r, obj_put ''attrs'' (JObj i as2) data)"
    unfolding component_props_def Let_def props_def [symmetric] assms(1,3) option.case jsval.case e by simp
  note s = extract_props_sound [OF assms(2) e]
  have "\<forall>k. map_of r k \<noteq> None \<longrightarrow> k \<in> set (obj_keys po)"
  proof (intro allI impI)
    fix k assume "map_of r k \<noteq> None"
    then show "k \<in> set (obj_keys po)" by (rule contrapos_np) (rule conjunct1 [OF s, rule_format])
  qed
  moreover have "\<forall>k. (\<forall>key\<in>set (obj_keys po). k \<noteq> key \<and> k \<noteq> hyphenate key) \<longrightarrow> map_of as2 k = map_of as k"
    using conjunct2 [OF conjunct2 [OF s]] by (simp add: attr_get_def)
  ultimately show ?thesis using c by (intro exI conjI)
qed

text \<open>
  A component becomes a placeholder that stands for it. The options recorded for it are the ones
  the placeholder refers to; they hold declared props only, and the listeners of the component; the
  listeners with the modifier \<open>native\<close> stay on the placeholder, to become DOM listeners, and no
  attribute is lost that does not name a declared prop.
\<close>

theorem component_placeholder:
  assumes "\<not> ct_functional Ct" "\<not> ct_abstract Ct" "isUndef (get_or_undef data ''model'')"
    and "ct_props Ct = Some po" "distinct (obj_keys po)" "map_of data ''attrs'' = Some (JObj i as)"
  shows "\<exists>n st' opts. createComponent app (Ctor Ct) (Some data) ctx children tag st = (Single n, st') \<and>
    r_comp (r_info n) = Some (length (cs_options st)) \<and> cs_options st' = cs_options st @ [opts] \<and>
    co_ctor opts = ct_cid Ct \<and> co_children opts = children \<and> co_listeners opts = get_or_undef data ''on'' \<and>
    (\<exists>res. co_propsData opts = Some res \<and> (\<forall>k. map_of res k \<noteq> None \<longrightarrow> k \<in> set (obj_keys po))) \<and>
    (\<exists>d. r_data (r_info n) = Some d \<and> get_or_undef d ''on'' = get_or_undef data ''nativeOn'' \<and>
       (\<forall>k. (\<forall>key\<in>set (obj_keys po). k \<noteq> key \<and> k \<noteq> hyphenate key) \<longrightarrow> map_of (sub_obj d ''attrs'') k = map_of as k))"
proof -
  obtain r as2 where cp: "component_props Ct data = (Some r, obj_put ''attrs'' (JObj i as2) data)"
      and declared: "\<forall>k. map_of r k \<noteq> None \<longrightarrow> k \<in> set (obj_keys po)"
      and keep: "\<forall>k. (\<forall>key\<in>set (obj_keys po). k \<noteq> key \<and> k \<noteq> hyphenate key) \<longrightarrow> map_of as2 k = map_of as k"
    using component_props_spec [OF assms(4-6)] by blast
  let ?d = "obj_put ''attrs'' (JObj i as2) data"
  let ?opts = "\<lparr>co_ctor = ct_cid Ct, co_propsData = Some r, co_listeners = get_or_undef ?d ''on'', co_tag = tag, co_children = children\<rparr>"
  have u: "\<not> isDef (get_or_undef data ''model'')" using assms(3) by (simp add: isDef_iff)
  have c: "createComponent app (Ctor Ct) (Some data) ctx children tag st =
      (Single (VNode (Some (placeholder_tag Ct tag)) (Some (placeholder_data Ct ?d)) None None ctx (Some (length (cs_options st))) None),
       st\<lparr>cs_options := cs_options st @ [?opts]\<rparr>)"
    by (simp add: create_placeholder_def u assms(1) cp)
  have g: "get_or_undef ?d ''on'' = get_or_undef data ''on''" "get_or_undef ?d ''nativeOn'' = get_or_undef data ''nativeOn''"
    by (simp_all add: get_or_undef_def)
  have on: "get_or_undef (placeholder_data Ct ?d) ''on'' = get_or_undef data ''nativeOn''"
    using assms(2) by (simp add: placeholder_data_def get_or_undef_def on_not_hooked)
  have at: "sub_obj (placeholder_data Ct ?d) ''attrs'' = as2"
    using assms(2) by (simp add: placeholder_data_def sub_obj_def on_not_hooked)
  show ?thesis
  proof (intro exI conjI)
    show "createComponent app (Ctor Ct) (Some data) ctx children tag st =
      (Single (VNode (Some (placeholder_tag Ct tag)) (Some (placeholder_data Ct ?d)) None None ctx (Some (length (cs_options st))) None),
       st\<lparr>cs_options := cs_options st @ [?opts]\<rparr>)" by (rule c)
    show "\<forall>k. map_of r k \<noteq> None \<longrightarrow> k \<in> set (obj_keys po)" by (rule declared)
    show "get_or_undef (placeholder_data Ct ?d) ''on'' = get_or_undef data ''nativeOn''" by (rule on)
    show "\<forall>k. (\<forall>key\<in>set (obj_keys po). k \<noteq> key \<and> k \<noteq> hyphenate key) \<longrightarrow> map_of (sub_obj (placeholder_data Ct ?d) ''attrs'') k = map_of as k"
      unfolding at by (rule keep)
    show "co_listeners ?opts = get_or_undef data ''on''" using g(1) by simp
  qed (simp_all add: VNode_def)
qed

abbreviation item_ctor :: ctor where
  "item_ctor \<equiv> \<lparr>ct_cid = 3, ct_name = None, ct_props = Some [(''id'', JNull)], ct_model = [], ct_functional = False, ct_abstract = False\<rparr>"

abbreviation item_app :: app where
  "item_app \<equiv> \<lparr>a_extend = (\<lambda>_. item_ctor), a_async = (\<lambda>_. None), a_render = (\<lambda>_ _ _ _. Undefined), a_prop = (\<lambda>_ _ _. JUndef), a_value = (\<lambda>_. NoComp)\<rparr>"

lemma component_placeholder_witness:
  "\<exists>n st' opts. createComponent item_app (Ctor item_ctor) (Some [(''attrs'', JObj 1 [(''id'', JStr ''x''), (''title'', JStr ''t'')])]) None None (Some ''item'')
      \<lparr>cs_options = [], cs_warns = []\<rparr> = (Single n, st') \<and>
    r_comp (r_info n) = Some 0 \<and> cs_options st' = [opts] \<and> co_ctor opts = 3"
proof -
  let ?data = "[(''attrs'', JObj 1 [(''id'', JStr ''x''), (''title'', JStr ''t'')])]"
  have p: "\<not> ct_functional item_ctor" "\<not> ct_abstract item_ctor" "isUndef (get_or_undef ?data ''model'')"
      "ct_props item_ctor = Some [(''id'', JNull)]" "distinct (obj_keys [(''id'', JNull)])"
      "map_of ?data ''attrs'' = Some (JObj 1 [(''id'', JStr ''x''), (''title'', JStr ''t'')])"
    by (simp_all add: get_or_undef_def isUndef_def)
  from component_placeholder [OF p, of item_app None None "Some ''item''" "\<lparr>cs_options = [], cs_warns = []\<rparr>"]
  show ?thesis by (elim exE conjE) (rule exI, rule exI, rule exI, simp del: createComponent.simps)
qed

text \<open>Rendering always ends in one node: the last one, or an empty one, when the render function fails.\<close>

theorem render_falls_back:
  "render_vm (Inr e) None (Some prev) = (prev, [(e, ''render'')], [])"
  "render_vm (Inr e) None None = (createEmptyVNode [], [(e, ''render'')], [])"
  "render_vm (Inr e) (Some (\<lambda>_. Inr e')) (Some prev) = (prev, [(e, ''render''), (e', ''renderError'')], [])"
  by (simp_all add: render_vm_def)

end
