(* ===== verification/AsyncComponent.thy ===== *)
theory AsyncComponent
  imports SharedUtil
begin

text \<open>
  Asynchronous components in \<open>frontend/js/vue.js\<close>: \<open>resolveAsyncComponent\<close> as a state machine. A
  factory is rendered by instances (contexts), is resolved or rejected by the application, and its
  two timers (for the loading component and for the time-out) may fire. Constructors are numbers
  (\<open>ensureCtor\<close> is a parameter). The lemmas show that what a render gets changes only when every
  instance that has rendered the factory is told to render again.
\<close>

section \<open>State\<close>

text \<open>What a factory returns when it is called, besides what it does at once\<close>

record answer =
  an_promise :: bool
  an_component :: bool
  an_error :: "jsval option"
  an_loading :: "jsval option"
  an_delay :: "nat option"
  an_timeout :: "nat option"

text \<open>
  The properties \<open>error\<close>, \<open>errorComp\<close>, \<open>resolved\<close>, \<open>loading\<close>, \<open>loadingComp\<close>, \<open>contexts\<close> of the factory;
  whether \<open>resolve\<close> and \<open>reject\<close> have been called (\<open>once\<close>) and whether the first call is still
  running (\<open>sync\<close>); the timers that are set. \<open>fa_forced\<close> lists the instances told to render again.
\<close>

record factory =
  fa_error :: bool
  fa_errorComp :: "nat option"
  fa_resolved :: "nat option"
  fa_loading :: bool
  fa_loadingComp :: "nat option"
  fa_contexts :: "nat list option"
  fa_resolve_called :: bool
  fa_reject_called :: bool
  fa_sync :: bool
  fa_delay_timer :: "nat option"
  fa_timeout_timer :: "nat option"
  fa_forced :: "nat list"
  fa_warned :: nat

definition new_factory :: factory where
  "new_factory = \<lparr>fa_error = False, fa_errorComp = None, fa_resolved = None, fa_loading = False, fa_loadingComp = None,
     fa_contexts = None, fa_resolve_called = False, fa_reject_called = False, fa_sync = False, fa_delay_timer = None,
     fa_timeout_timer = None, fa_forced = [], fa_warned = 0\<rparr>"

section \<open>Operations\<close>

text \<open>
  \<open>comp.__esModule\<close> modules stand for their default export, plain options are extended; \<open>mk\<close>
  gives the constructor (\<open>None\<close> when the result is undefined or null).
\<close>

definition ensureCtor :: "(jsval \<Rightarrow> nat option) \<Rightarrow> jsval \<Rightarrow> nat option" where
  "ensureCtor mk comp0 =
     (let comp = (if truthy (get_or_undef (own_props comp0) ''__esModule'') then get_or_undef (own_props comp0) ''default'' else comp0)
      in if isUndef comp then None else mk comp)"

definition forceRender :: "factory \<Rightarrow> factory" where
  "forceRender f = f\<lparr>fa_forced := fa_forced f @ (case fa_contexts f of Some cs \<Rightarrow> cs | None \<Rightarrow> [])\<rparr>"

definition resolve :: "(jsval \<Rightarrow> nat option) \<Rightarrow> jsval \<Rightarrow> factory \<Rightarrow> factory" where
  "resolve mk res f =
     (if fa_resolve_called f then f
      else
        (let f1 = f\<lparr>fa_resolve_called := True, fa_resolved := ensureCtor mk res\<rparr>
         in if \<not> fa_sync f1 then forceRender f1 else f1))"

definition reject :: "factory \<Rightarrow> factory" where
  "reject f =
     (if fa_reject_called f then f
      else
        (let f1 = f\<lparr>fa_reject_called := True, fa_warned := Suc (fa_warned f)\<rparr>
         in if fa_errorComp f1 \<noteq> None then forceRender (f1\<lparr>fa_error := True\<rparr>) else f1))"

text \<open>What the factory does while it is called: resolve or reject at once\<close>

datatype at_once = ResolveNow jsval | RejectNow

definition run_now :: "(jsval \<Rightarrow> nat option) \<Rightarrow> at_once list \<Rightarrow> factory \<Rightarrow> factory" where
  "run_now mk acts f = foldl (\<lambda>f a. case a of ResolveNow v \<Rightarrow> resolve mk v f | RejectNow \<Rightarrow> reject f) f acts"

text \<open>What is done with the answer; \<open>an_component\<close>: its property \<open>component\<close> is a promise\<close>

definition use_answer :: "(jsval \<Rightarrow> nat option) \<Rightarrow> answer \<Rightarrow> factory \<Rightarrow> factory" where
  "use_answer mk res f =
     (if an_promise res then f
      else if an_component res then
        (let f1 = (case an_error res of Some e \<Rightarrow> f\<lparr>fa_errorComp := ensureCtor mk e\<rparr> | None \<Rightarrow> f);
             f2 = (case an_loading res of
                     None \<Rightarrow> f1
                   | Some l \<Rightarrow>
                       (let f' = f1\<lparr>fa_loadingComp := ensureCtor mk l\<rparr>
                        in case an_delay res of
                                 Some d \<Rightarrow> if d = 0 then f'\<lparr>fa_loading := True\<rparr> else f'\<lparr>fa_delay_timer := Some d\<rparr>
                               | None \<Rightarrow> f'\<lparr>fa_delay_timer := Some 200\<rparr>))
         in f2\<lparr>fa_timeout_timer := an_timeout res\<rparr>)
      else f)"

text \<open>The first render calls the factory.\<close>

definition first_render :: "(jsval \<Rightarrow> nat option) \<Rightarrow> at_once list \<Rightarrow> answer option \<Rightarrow> nat \<Rightarrow> factory \<Rightarrow> nat option \<times> factory" where
  "first_render mk acts res ctx f =
     (let f1 = run_now mk acts (f\<lparr>fa_contexts := Some [ctx], fa_sync := True\<rparr>);
          f2 = (case res of Some a \<Rightarrow> use_answer mk a f1 | None \<Rightarrow> f1)\<lparr>fa_sync := False\<rparr>
      in (if fa_loading f2 then fa_loadingComp f2 else fa_resolved f2, f2))"

definition resolveAsyncComponent ::
    "(jsval \<Rightarrow> nat option) \<Rightarrow> at_once list \<Rightarrow> answer option \<Rightarrow> nat \<Rightarrow> factory \<Rightarrow> nat option \<times> factory" where
  "resolveAsyncComponent mk acts res ctx f =
     (if fa_error f \<and> fa_errorComp f \<noteq> None then (fa_errorComp f, f)
      else if fa_resolved f \<noteq> None then (fa_resolved f, f)
      else if fa_loading f \<and> fa_loadingComp f \<noteq> None then (fa_loadingComp f, f)
      else
        (case fa_contexts f of
           Some cs \<Rightarrow> (None, f\<lparr>fa_contexts := Some (cs @ [ctx])\<rparr>)
         | None \<Rightarrow> first_render mk acts res ctx f))"

definition delay_timer :: "factory \<Rightarrow> factory" where
  "delay_timer f0 =
     (let f = f0\<lparr>fa_delay_timer := None\<rparr>
      in if fa_resolved f = None \<and> \<not> fa_error f then forceRender (f\<lparr>fa_loading := True\<rparr>) else f)"

definition timeout_timer :: "factory \<Rightarrow> factory" where
  "timeout_timer f0 =
     (let f = f0\<lparr>fa_timeout_timer := None\<rparr> in if fa_resolved f = None then reject f else f)"

section \<open>Instances and the factory\<close>

text \<open>What a render gets, when the factory has been called\<close>

definition shown :: "factory \<Rightarrow> nat option" where
  "shown f =
     (if fa_error f \<and> fa_errorComp f \<noteq> None then fa_errorComp f
      else if fa_resolved f \<noteq> None then fa_resolved f
      else if fa_loading f \<and> fa_loadingComp f \<noteq> None then fa_loadingComp f else None)"

text \<open>
  The factory and the instances whose last render gave the placeholder: an instance renders, the
  application resolves or rejects (any number of times), or a timer that is set fires.
\<close>

inductive async_step :: "(jsval \<Rightarrow> nat option) \<Rightarrow> at_once list \<Rightarrow> answer option \<Rightarrow> factory \<times> nat list \<Rightarrow> factory \<times> nat list \<Rightarrow> bool"
  for mk acts res where
  render: "resolveAsyncComponent mk acts res ctx f = (r, f') \<Longrightarrow>
     async_step mk acts res (f, ws) (f', if r = None then ctx # ws else removeAll ctx ws)"
| resolved: "fa_contexts f \<noteq> None \<Longrightarrow> async_step mk acts res (f, ws) (resolve mk v f, ws)"
| rejected: "fa_contexts f \<noteq> None \<Longrightarrow> async_step mk acts res (f, ws) (reject f, ws)"
| delayed: "fa_delay_timer f \<noteq> None \<Longrightarrow> async_step mk acts res (f, ws) (delay_timer f, ws)"
| timed_out: "fa_timeout_timer f \<noteq> None \<Longrightarrow> async_step mk acts res (f, ws) (timeout_timer f, ws)"

definition async_reachable :: "(jsval \<Rightarrow> nat option) \<Rightarrow> at_once list \<Rightarrow> answer option \<Rightarrow> factory \<Rightarrow> nat list \<Rightarrow> bool" where
  "async_reachable mk acts res f ws \<longleftrightarrow> (async_step mk acts res)\<^sup>*\<^sup>* (new_factory, []) (f, ws)"

text \<open>Every instance that waits is registered, and no call is running between steps.\<close>

definition async_ok :: "factory \<Rightarrow> nat list \<Rightarrow> bool" where
  "async_ok f ws \<longleftrightarrow> \<not> fa_sync f \<and> set ws \<subseteq> set (case fa_contexts f of Some cs \<Rightarrow> cs | None \<Rightarrow> [])"

lemma contexts_kept:
  "fa_contexts (resolve mk v f) = fa_contexts f" "fa_sync (resolve mk v f) = fa_sync f"
  "fa_contexts (reject f) = fa_contexts f" "fa_sync (reject f) = fa_sync f"
  "fa_contexts (delay_timer f) = fa_contexts f" "fa_sync (delay_timer f) = fa_sync f"
  "fa_contexts (timeout_timer f) = fa_contexts f" "fa_sync (timeout_timer f) = fa_sync f"
  by (simp_all add: resolve_def reject_def delay_timer_def timeout_timer_def forceRender_def Let_def)

lemma now_kept: "fa_contexts (run_now mk acts f) = fa_contexts f"
proof -
  have "fa_contexts (foldl (\<lambda>f a. case a of ResolveNow v \<Rightarrow> resolve mk v f | RejectNow \<Rightarrow> reject f) f acts) = fa_contexts f"
    by (induction acts arbitrary: f) (simp_all add: contexts_kept split: at_once.split)
  then show ?thesis by (simp add: run_now_def)
qed

lemma answer_kept: "fa_contexts (use_answer mk a f) = fa_contexts f"
  by (simp add: use_answer_def Let_def split: option.split)

lemma first_render_kept: "fa_contexts (snd (first_render mk acts res ctx f)) = Some [ctx]" "\<not> fa_sync (snd (first_render mk acts res ctx f))"
  by (simp_all add: first_render_def Let_def now_kept answer_kept split: option.split)

lemma render_shown:
  assumes "shown f \<noteq> None"
  shows "resolveAsyncComponent mk acts res ctx f = (shown f, f)"
proof -
  consider "fa_error f \<and> fa_errorComp f \<noteq> None" | "\<not> (fa_error f \<and> fa_errorComp f \<noteq> None)" "fa_resolved f \<noteq> None"
    | "\<not> (fa_error f \<and> fa_errorComp f \<noteq> None)" "fa_resolved f = None" "fa_loading f \<and> fa_loadingComp f \<noteq> None"
    using assms unfolding shown_def by (metis (no_types))
  then show ?thesis by cases (simp_all only: resolveAsyncComponent_def shown_def if_True if_False simp_thms)
qed

lemma render_not_shown:
  "shown f = None \<Longrightarrow> resolveAsyncComponent mk acts res ctx f =
     (case fa_contexts f of Some cs \<Rightarrow> (None, f\<lparr>fa_contexts := Some (cs @ [ctx])\<rparr>) | None \<Rightarrow> first_render mk acts res ctx f)"
  by (auto simp: resolveAsyncComponent_def shown_def split: if_splits)

lemma render_ok:
  assumes ok: "async_ok f ws" and r: "resolveAsyncComponent mk acts res ctx f = (r, f')"
  shows "async_ok f' (if r = None then ctx # ws else removeAll ctx ws)"
proof -
  show ?thesis
  proof (cases "shown f")
    case (Some k)
    then have "(r, f') = (Some k, f)" using r render_shown [of f mk acts res ctx] by simp
    then have "f' = f" "r \<noteq> None" by simp_all
    then show ?thesis using ok by (auto simp: async_ok_def)
  next
    case None
    show ?thesis
    proof (cases "fa_contexts f")
      case c: None
      then have "first_render mk acts res ctx f = (r, f')" using r render_not_shown [OF None, of mk acts res ctx] by simp
      then show ?thesis using ok c first_render_kept [of mk acts res ctx f] by (auto simp: async_ok_def)
    next
      case (Some cs)
      then have "r = None" "f' = f\<lparr>fa_contexts := Some (cs @ [ctx])\<rparr>" using r render_not_shown [OF None, of mk acts res ctx] by auto
      then show ?thesis using ok Some by (auto simp: async_ok_def)
    qed
  qed
qed

lemma async_step_ok: "async_step mk acts res (f, ws) (f', ws') \<Longrightarrow> async_ok f ws \<Longrightarrow> async_ok f' ws'"
proof (induction "(f, ws)" "(f', ws')" rule: async_step.induct)
  case (render ctx r)
  then show ?case using render_ok [of f ws mk acts res ctx r f'] by simp
qed (auto simp: async_ok_def contexts_kept)

lemma async_reachable_ok: "async_reachable mk acts res f ws \<Longrightarrow> async_ok f ws"
  unfolding async_reachable_def
proof (induction "(f, ws)" arbitrary: f ws rule: rtranclp_induct)
  case base
  then show ?case by (simp add: async_ok_def new_factory_def)
next
  case (step s)
  obtain f1 ws1 where s: "s = (f1, ws1)" by (cases s)
  then show ?case using step(2,3) async_step_ok by blast
qed

lemma change_forces:
  "\<not> fa_sync f \<Longrightarrow> shown (resolve mk v f) \<noteq> shown f \<Longrightarrow> fa_forced (resolve mk v f) = fa_forced f @ (case fa_contexts f of Some cs \<Rightarrow> cs | None \<Rightarrow> [])"
  "shown (reject f) \<noteq> shown f \<Longrightarrow> fa_forced (reject f) = fa_forced f @ (case fa_contexts f of Some cs \<Rightarrow> cs | None \<Rightarrow> [])"
  "shown (delay_timer f) \<noteq> shown f \<Longrightarrow> fa_forced (delay_timer f) = fa_forced f @ (case fa_contexts f of Some cs \<Rightarrow> cs | None \<Rightarrow> [])"
  "shown (timeout_timer f) \<noteq> shown f \<Longrightarrow> fa_forced (timeout_timer f) = fa_forced f @ (case fa_contexts f of Some cs \<Rightarrow> cs | None \<Rightarrow> [])"
  by (auto simp: resolve_def reject_def delay_timer_def timeout_timer_def forceRender_def Let_def shown_def split: if_splits)

text \<open>
  C39. No instance is left with the placeholder of an asynchronous component: as soon as a render
  would give something else (the factory is resolved or rejected, or one of its timers fires), every
  instance whose last render gave the placeholder is told to render again.
\<close>

theorem placeholder_rerendered:
  assumes "async_reachable mk acts res f ws" "async_step mk acts res (f, ws) (f', ws)" "shown f' \<noteq> shown f" "fa_contexts f' = fa_contexts f"
    and "fa_contexts f \<noteq> None"
  shows "\<exists>cs. fa_forced f' = fa_forced f @ cs \<and> set ws \<subseteq> set cs"
proof -
  have ok: "async_ok f ws" by (rule async_reachable_ok [OF assms(1)])
  have "fa_forced f' = fa_forced f @ (case fa_contexts f of Some cs \<Rightarrow> cs | None \<Rightarrow> [])"
    using assms(2)
  proof cases
    case (render ctx r)
    obtain cs where cs: "fa_contexts f = Some cs" using assms(5) by blast
    have "shown f \<noteq> None"
    proof
      assume none: "shown f = None"
      have "(r, f') = (None, f\<lparr>fa_contexts := Some (cs @ [ctx])\<rparr>)"
        using render(2) render_not_shown [OF none, of mk acts res ctx] cs by simp
      then show False using assms(4) cs by simp
    qed
    then have "(r, f') = (shown f, f)" by (rule trans [OF render(2) [symmetric] render_shown])
    then show ?thesis using assms(3) by simp
  qed (use assms(3) ok change_forces in \<open>simp_all add: async_ok_def\<close>)
  then show ?thesis using ok by (auto simp: async_ok_def)
qed

definition pending :: factory where
  "pending = snd (resolveAsyncComponent (\<lambda>_. Some 1) [] None 5 new_factory)"

theorem placeholder_rerendered_witness:
  "\<exists>cs. fa_forced (resolve (\<lambda>_. Some 1) (JBool True) pending) = fa_forced pending @ cs \<and> set [5] \<subseteq> set cs"
proof (rule placeholder_rerendered [of "\<lambda>_. Some 1" "[]" None pending "[5]" "resolve (\<lambda>_. Some 1) (JBool True) pending"])
  have "async_step (\<lambda>_. Some 1) [] None (new_factory, []) (pending, [5])"
    using async_step.render [of "\<lambda>_. Some 1" "[]" None 5 new_factory None pending "[]"]
    by (simp add: pending_def resolveAsyncComponent_def first_render_def new_factory_def run_now_def)
  then show "async_reachable (\<lambda>_. Some 1) [] None pending [5]" unfolding async_reachable_def by (rule r_into_rtranclp)
  show "async_step (\<lambda>_. Some 1) [] None (pending, [5]) (resolve (\<lambda>_. Some 1) (JBool True) pending, [5])"
    by (rule async_step.resolved) (simp add: pending_def resolveAsyncComponent_def first_render_def new_factory_def run_now_def)
qed (simp_all add: pending_def resolveAsyncComponent_def first_render_def new_factory_def run_now_def resolve_def ensureCtor_def
      forceRender_def shown_def Let_def get_or_undef_def isUndef_def)

text \<open>
  An instance that renders the component while the loading component is shown is not registered:
  when the component is resolved only the others are told to render again, and it keeps the loading
  component.
\<close>

theorem loading_instance_forgotten:
  assumes "mk c = Some k" "mk l = Some j" "\<not> isUndef c" "\<not> isUndef l" "\<not> truthy (get_or_undef (own_props c) ''__esModule'')"
    "\<not> truthy (get_or_undef (own_props l) ''__esModule'')" "a \<noteq> b"
  shows "\<exists>f1 f2. resolveAsyncComponent mk []
      (Some \<lparr>an_promise = False, an_component = True, an_error = None, an_loading = Some l, an_delay = Some 0, an_timeout = None\<rparr>) a new_factory = (Some j, f1) \<and>
    resolveAsyncComponent mk [] None b f1 = (Some j, f2) \<and>
    fa_resolved (resolve mk c f2) = Some k \<and> fa_forced (resolve mk c f2) = [a]"
  using assms
  by (simp add: resolveAsyncComponent_def first_render_def new_factory_def run_now_def use_answer_def ensureCtor_def resolve_def forceRender_def Let_def)

theorem loading_instance_forgotten_witness:
  "\<exists>f1 f2. resolveAsyncComponent (\<lambda>v. if v = JBool True then Some 1 else Some 2) []
      (Some \<lparr>an_promise = False, an_component = True, an_error = None, an_loading = Some (JBool False), an_delay = Some 0,
             an_timeout = None\<rparr>) 5 new_factory = (Some 2, f1) \<and>
    resolveAsyncComponent (\<lambda>v. if v = JBool True then Some 1 else Some 2) [] None 6 f1 = (Some 2, f2) \<and>
    fa_resolved (resolve (\<lambda>v. if v = JBool True then Some 1 else Some 2) (JBool True) f2) = Some 1 \<and>
    fa_forced (resolve (\<lambda>v. if v = JBool True then Some 1 else Some 2) (JBool True) f2) = [5]"
  by (rule loading_instance_forgotten) (simp_all add: get_or_undef_def isUndef_def)

end
