(* ===== verification/Observer.thy ===== *)
theory Observer
  imports SharedUtil
begin

text \<open>
  The observation of data in \<open>frontend/js/vue.js\<close>: \<open>Observer\<close>, \<open>observe\<close>, \<open>defineReactive\<close> with its getter
  and setter, the patched array methods, \<open>set\<close>, \<open>del\<close>, \<open>dependArray\<close> and \<open>traverse\<close>, on a heap of objects
  that may share parts and be cyclic. A dep is a number; the deps a read depends on and the deps a
  write notifies are logged. Getters and setters of the application and inherited properties are
  parameters; properties that are not enumerable are not modelled.
\<close>

section \<open>The heap\<close>

text \<open>A value is the address of an object or an array, or something \<open>isObject\<close> does not hold of.\<close>

datatype hval = Prim jsval | Ref nat

text \<open>
  A property: plain data, an accessor of the application (has a getter, has a setter), or what
  \<open>defineReactive\<close> makes of a property: its dep, \<open>childOb\<close>, \<open>shallow\<close>, \<open>val\<close> and the property before.
\<close>

datatype slot =
    Data hval
  | Accessor bool bool
  | Reactive nat "nat option" bool hval slot

datatype kind = PlainKind | ArrayKind | VueKind | VNodeKind | OtherKind

record field =
  f_slot :: slot
  f_configurable :: bool

text \<open>\<open>__ob__\<close> is given by the number of the observer's dep.\<close>

record hobj =
  h_kind :: kind
  h_elems :: "hval list"
  h_fields :: "(string \<times> field) list"
  h_extensible :: bool
  h_frozen :: bool
  h_ob :: "nat option"
  h_vmCount :: nat

record world =
  objs :: "nat \<Rightarrow> hobj"
  next_dep :: nat
  shouldObserve :: bool
  isServer :: bool
  tracking :: bool
  touched :: "nat list"
  notified :: "nat list"
  warnings :: nat

text \<open>What the application brings: its accessors, and what an object inherits\<close>

record env =
  e_get :: "nat \<Rightarrow> string \<Rightarrow> world \<Rightarrow> hval"
  e_set :: "nat \<Rightarrow> string \<Rightarrow> hval \<Rightarrow> world \<Rightarrow> world"
  e_inherited :: "nat \<Rightarrow> string \<Rightarrow> hval option"

definition upd_obj :: "nat \<Rightarrow> (hobj \<Rightarrow> hobj) \<Rightarrow> world \<Rightarrow> world" where
  "upd_obj a f w = w\<lparr>objs := (objs w)(a := f (objs w a))\<rparr>"

definition field_of :: "world \<Rightarrow> nat \<Rightarrow> string \<Rightarrow> field option" where
  "field_of w a k = map_of (h_fields (objs w a)) k"

text \<open>A property that is there keeps its place, a new one comes last.\<close>

definition set_field :: "nat \<Rightarrow> string \<Rightarrow> field \<Rightarrow> world \<Rightarrow> world" where
  "set_field a k p = upd_obj a (\<lambda>ob. ob\<lparr>h_fields :=
     (if map_of (h_fields ob) k = None then h_fields ob @ [(k, p)]
      else map (\<lambda>(k', p'). if k' = k then (k, p) else (k', p')) (h_fields ob))\<rparr>)"

definition depend :: "nat \<Rightarrow> world \<Rightarrow> world" where
  "depend d w = (if tracking w then w\<lparr>touched := touched w @ [d]\<rparr> else w)"

definition notify_dep :: "nat \<Rightarrow> world \<Rightarrow> world" where
  "notify_dep d w = w\<lparr>notified := notified w @ [d]\<rparr>"

definition warn :: "world \<Rightarrow> world" where
  "warn w = w\<lparr>warnings := Suc (warnings w)\<rparr>"

definition is_array :: "world \<Rightarrow> hval \<Rightarrow> bool" where
  "is_array w v = (case v of Ref a \<Rightarrow> h_kind (objs w a) = ArrayKind | Prim _ \<Rightarrow> False)"

definition ob_of :: "world \<Rightarrow> hval \<Rightarrow> nat option" where
  "ob_of w v = (case v of Ref a \<Rightarrow> h_ob (objs w a) | Prim _ \<Rightarrow> None)"

fun has_get :: "slot \<Rightarrow> bool" where
  "has_get (Data _) = False"
| "has_get (Accessor g _) = g"
| "has_get (Reactive _ _ _ _ _) = True"

fun has_set :: "slot \<Rightarrow> bool" where
  "has_set (Data _) = False"
| "has_set (Accessor _ s) = s"
| "has_set (Reactive _ _ _ _ _) = True"

section \<open>Observers\<close>

text \<open>
  The functions call each other; \<open>rec\<close> stands for the call of \<open>observe\<close>. \<open>None\<close> means that the call
  throws (or that the fuel is used up).
\<close>

fun observeArray :: "(hval \<Rightarrow> world \<Rightarrow> (nat option \<times> world) option) \<Rightarrow> hval list \<Rightarrow> world \<Rightarrow> world option" where
  "observeArray rec [] w = Some w"
| "observeArray rec (x # xs) w = (case rec x w of None \<Rightarrow> None | Some (_, w1) \<Rightarrow> observeArray rec xs w1)"

text \<open>\<open>given\<close> is the argument \<open>val\<close>, \<open>None\<close> when there are two arguments.\<close>

definition initial_val :: "field option \<Rightarrow> hval option \<Rightarrow> hval" where
  "initial_val p given =
     (case given of
        Some v \<Rightarrow> v
      | None \<Rightarrow> (case p of Some f \<Rightarrow> (case f_slot f of Data v \<Rightarrow> v | _ \<Rightarrow> Prim JUndef) | None \<Rightarrow> Prim JUndef))"

definition defineReactive ::
    "(hval \<Rightarrow> world \<Rightarrow> (nat option \<times> world) option) \<Rightarrow> nat \<Rightarrow> string \<Rightarrow> hval option \<Rightarrow> bool \<Rightarrow> world \<Rightarrow> world option" where
  "defineReactive rec a k given shallow w0 =
     (let dep = next_dep w0;
          w = w0\<lparr>next_dep := Suc dep\<rparr>;
          property = field_of w a k
      in if (case property of Some p \<Rightarrow> \<not> f_configurable p | None \<Rightarrow> False) then Some w
         else
           (let val = initial_val property given
            in case (if shallow then Some (None, w) else rec val w) of
                 None \<Rightarrow> None
               | Some (childOb, w1) \<Rightarrow>
                   if property = None \<and> \<not> h_extensible (objs w1 a) then None
                   else Some (set_field a k
                     \<lparr>f_slot = Reactive dep childOb shallow val (case property of Some p \<Rightarrow> f_slot p | None \<Rightarrow> Data val),
                      f_configurable = True\<rparr> w1)))"

fun walk :: "(hval \<Rightarrow> world \<Rightarrow> (nat option \<times> world) option) \<Rightarrow> nat \<Rightarrow> string list \<Rightarrow> world \<Rightarrow> world option" where
  "walk rec a [] w = Some w"
| "walk rec a (k # ks) w = (case defineReactive rec a k None False w of None \<Rightarrow> None | Some w1 \<Rightarrow> walk rec a ks w1)"

definition new_Observer :: "(hval \<Rightarrow> world \<Rightarrow> (nat option \<times> world) option) \<Rightarrow> nat \<Rightarrow> world \<Rightarrow> (nat option \<times> world) option" where
  "new_Observer rec a w0 =
     (let dep = next_dep w0;
          w = upd_obj a (\<lambda>ob. ob\<lparr>h_ob := Some dep\<rparr>) (w0\<lparr>next_dep := Suc dep\<rparr>)
      in map_option (Pair (Some dep))
           (if h_kind (objs w a) = ArrayKind then observeArray rec (h_elems (objs w a)) w
            else walk rec a (map fst (h_fields (objs w a))) w))"

definition observable :: "hobj \<Rightarrow> bool" where
  "observable ob \<longleftrightarrow> (h_kind ob = ArrayKind \<or> h_kind ob = PlainKind) \<and> h_extensible ob"

definition observe_body :: "(hval \<Rightarrow> world \<Rightarrow> (nat option \<times> world) option) \<Rightarrow> hval \<Rightarrow> world \<Rightarrow> (nat option \<times> world) option" where
  "observe_body rec v w =
     (case v of
        Prim _ \<Rightarrow> Some (None, w)
      | Ref a \<Rightarrow>
          if h_kind (objs w a) = VNodeKind then Some (None, w)
          else if h_ob (objs w a) \<noteq> None then Some (h_ob (objs w a), w)
          else if shouldObserve w \<and> \<not> isServer w \<and> observable (objs w a) then new_Observer rec a w
          else Some (None, w))"

primrec observe_n :: "nat \<Rightarrow> hval \<Rightarrow> world \<Rightarrow> (nat option \<times> world) option" where
  "observe_n 0 v w = None"
| "observe_n (Suc n) v w = observe_body (observe_n n) v w"

definition observe :: "nat \<Rightarrow> hval \<Rightarrow> bool \<Rightarrow> world \<Rightarrow> (nat option \<times> world) option" where
  "observe n v asRootData w =
     (case observe_n n v w of
        None \<Rightarrow> None
      | Some (ob, w1) \<Rightarrow>
          Some (ob, if asRootData \<and> ob \<noteq> None then (case v of Ref a \<Rightarrow> upd_obj a (\<lambda>x. x\<lparr>h_vmCount := Suc (h_vmCount x)\<rparr>) w1 | _ \<Rightarrow> w1) else w1))"

section \<open>Reads\<close>

text \<open>The elements of an array, their observers and the arrays among them (fuel: how deep they nest)\<close>

fun each_elem :: "(nat \<Rightarrow> world \<Rightarrow> world option) \<Rightarrow> hval list \<Rightarrow> world \<Rightarrow> world option" where
  "each_elem rec [] w = Some w"
| "each_elem rec (e # es) w =
     (let w1 = (case ob_of w e of Some d \<Rightarrow> depend d w | None \<Rightarrow> w)
      in case (case e of Ref b \<Rightarrow> if h_kind (objs w b) = ArrayKind then rec b w1 else Some w1 | Prim _ \<Rightarrow> Some w1) of
           None \<Rightarrow> None
         | Some w2 \<Rightarrow> each_elem rec es w2)"

primrec dependArray :: "nat \<Rightarrow> nat \<Rightarrow> world \<Rightarrow> world option" where
  "dependArray 0 a w = None"
| "dependArray (Suc n) a w = each_elem (dependArray n) (h_elems (objs w a)) w"

definition depend_read :: "nat \<Rightarrow> nat \<Rightarrow> nat option \<Rightarrow> hval \<Rightarrow> world \<Rightarrow> world option" where
  "depend_read n dep childOb v w =
     (if tracking w then
        (let w1 = depend dep w
         in case childOb of
              None \<Rightarrow> Some w1
            | Some c \<Rightarrow>
                (let w2 = depend c w1
                 in case v of Ref a \<Rightarrow> if h_kind (objs w2 a) = ArrayKind then dependArray n a w2 else Some w2 | Prim _ \<Rightarrow> Some w2))
      else Some w)"

fun get_slot :: "env \<Rightarrow> nat \<Rightarrow> nat \<Rightarrow> string \<Rightarrow> slot \<Rightarrow> world \<Rightarrow> (hval \<times> world) option" where
  "get_slot E n a k (Data v) w = Some (v, w)"
| "get_slot E n a k (Accessor g s) w = Some (if g then e_get E a k w else Prim JUndef, w)"
| "get_slot E n a k (Reactive dep childOb shallow val inner) w =
     (case (if has_get inner then get_slot E n a k inner w else Some (val, w)) of
        None \<Rightarrow> None
      | Some (v, w1) \<Rightarrow> map_option (Pair v) (depend_read n dep childOb v w1))"

section \<open>Writes\<close>

definition same_value :: "hval \<Rightarrow> hval \<Rightarrow> bool" where
  "same_value x y =
     (case (x, y) of
        (Ref a, Ref b) \<Rightarrow> a = b
      | (Prim v, Prim u) \<Rightarrow> strict_eq v u \<or> (\<not> strict_eq v v \<and> \<not> strict_eq u u)
      | _ \<Rightarrow> False)"

text \<open>The property after the write; writing a property with a getter only throws in strict mode.\<close>

fun set_slot :: "env \<Rightarrow> nat \<Rightarrow> nat \<Rightarrow> string \<Rightarrow> slot \<Rightarrow> hval \<Rightarrow> world \<Rightarrow> (slot \<times> world) option" where
  "set_slot E n a k (Data v) newVal w = (if h_frozen (objs w a) then None else Some (Data newVal, w))"
| "set_slot E n a k (Accessor g s) newVal w = (if s then Some (Accessor g s, e_set E a k newVal w) else None)"
| "set_slot E n a k (Reactive dep childOb shallow val inner) newVal w =
     (case (if has_get inner then get_slot E n a k inner w else Some (val, w)) of
        None \<Rightarrow> None
      | Some (v, w1) \<Rightarrow>
          if same_value newVal v then Some (Reactive dep childOb shallow val inner, w1)
          else
            (case (if has_set inner then map_option (\<lambda>(i, w2). (val, i, w2)) (set_slot E n a k inner newVal w1)
                   else Some (newVal, inner, w1)) of
               None \<Rightarrow> None
             | Some (val', inner', w2) \<Rightarrow>
                 (case (if shallow then Some (None, w2) else observe_n n newVal w2) of
                    None \<Rightarrow> None
                  | Some (childOb', w3) \<Rightarrow> Some (Reactive dep childOb' shallow val' inner', notify_dep dep w3))))"

text \<open>
  \<open>target[key] = val\<close>: on arrays \<open>length\<close> cuts or extends the array (other lengths throw).
\<close>

definition assign_length :: "nat \<Rightarrow> hval \<Rightarrow> world \<Rightarrow> world option" where
  "assign_length a v w =
     (case v of
        Prim (JNum (Dec m 0)) \<Rightarrow>
          if 0 \<le> m \<and> \<not> h_frozen (objs w a) then
            Some (upd_obj a (\<lambda>x. x\<lparr>h_elems := take (nat m) (h_elems x) @ replicate (nat m - length (h_elems x)) (Prim JUndef)\<rparr>) w)
          else None
      | _ \<Rightarrow> None)"

definition assign :: "env \<Rightarrow> nat \<Rightarrow> nat \<Rightarrow> string \<Rightarrow> hval \<Rightarrow> world \<Rightarrow> world option" where
  "assign E n a k v w =
     (case field_of w a k of
        Some p \<Rightarrow> map_option (\<lambda>(s, w1). set_field a k (p\<lparr>f_slot := s\<rparr>) w1) (set_slot E n a k (f_slot p) v w)
      | None \<Rightarrow>
          if h_kind (objs w a) = ArrayKind \<and> k = ''length'' then assign_length a v w
          else if h_extensible (objs w a) then Some (set_field a k \<lparr>f_slot = Data v, f_configurable = True\<rparr> w)
          else None)"

text \<open>The methods of arrays; \<open>sort\<close> has the resulting order as its argument.\<close>

datatype array_call =
    Push "hval list"
  | Pop
  | Shift
  | Unshift "hval list"
  | Splice int "int option" "hval list"
  | Sort "hval list \<Rightarrow> hval list"
  | Reverse

definition splice :: "int \<Rightarrow> int option \<Rightarrow> hval list \<Rightarrow> hval list \<Rightarrow> hval list" where
  "splice start del items xs =
     (let len = int (length xs);
          s = nat (if start < 0 then max (len + start) 0 else min start len);
          d = nat (case del of None \<Rightarrow> len - int s | Some c \<Rightarrow> min (max c 0) (len - int s))
      in take s xs @ items @ drop (s + d) xs)"

fun array_method :: "array_call \<Rightarrow> hval list \<Rightarrow> hval list" where
  "array_method (Push args) xs = xs @ args"
| "array_method Pop xs = butlast xs"
| "array_method Shift xs = tl xs"
| "array_method (Unshift args) xs = args @ xs"
| "array_method (Splice start del items) xs = splice start del items xs"
| "array_method (Sort f) xs = f xs"
| "array_method Reverse xs = rev xs"

fun inserted :: "array_call \<Rightarrow> hval list" where
  "inserted (Push args) = args"
| "inserted (Unshift args) = args"
| "inserted (Splice _ _ items) = items"
| "inserted _ = []"

text \<open>A call of a method: an array without observer has the methods of \<open>Array.prototype\<close>.\<close>

definition mutator :: "nat \<Rightarrow> nat \<Rightarrow> array_call \<Rightarrow> world \<Rightarrow> world option" where
  "mutator n a m w =
     (if h_frozen (objs w a) \<or> (\<not> h_extensible (objs w a) \<and> length (h_elems (objs w a)) < length (array_method m (h_elems (objs w a)))) then None
      else
        (let w1 = upd_obj a (\<lambda>x. x\<lparr>h_elems := array_method m (h_elems x)\<rparr>) w
         in case h_ob (objs w a) of
              None \<Rightarrow> Some w1
            | Some d \<Rightarrow> map_option (notify_dep d) (observeArray (observe_n n) (inserted m) w1)))"

definition object_prototype :: "string list" where
  "object_prototype =
     [''constructor'', ''hasOwnProperty'', ''isPrototypeOf'', ''propertyIsEnumerable'', ''toLocaleString'', ''toString'',
      ''valueOf'', ''__defineGetter__'', ''__defineSetter__'', ''__lookupGetter__'', ''__lookupSetter__'', ''__proto__'']"

definition key_in :: "env \<Rightarrow> world \<Rightarrow> nat \<Rightarrow> string \<Rightarrow> bool" where
  "key_in E w a k \<longleftrightarrow>
     field_of w a k \<noteq> None \<or> (h_kind (objs w a) = ArrayKind \<and> k = ''length'') \<or> e_inherited E a k \<noteq> None \<or> k \<in> set object_prototype"

definition array_index :: "jsval \<Rightarrow> nat" where
  "array_index key = (case parse_float (js_String key) of Dec m _ \<Rightarrow> nat m | _ \<Rightarrow> 0)"

definition set_1 :: "env \<Rightarrow> nat \<Rightarrow> hval \<Rightarrow> jsval \<Rightarrow> hval \<Rightarrow> world \<Rightarrow> world option" where
  "set_1 E n target key val w =
     (case target of
        Prim _ \<Rightarrow> None
      | Ref a \<Rightarrow>
          (let k = js_String key
           in if h_kind (objs w a) = ArrayKind \<and> isValidArrayIndex key then
                (let i = array_index key;
                     w1 = upd_obj a (\<lambda>x. x\<lparr>h_elems := h_elems x @ replicate (i - length (h_elems x)) (Prim JUndef)\<rparr>) w
                 in if h_frozen (objs w a) then None else mutator n a (Splice (int i) (Some 1) [val]) w1)
              else if key_in E w a k \<and> k \<notin> set object_prototype then assign E n a k val w
              else if h_kind (objs w a) = VueKind \<or> (h_ob (objs w a) \<noteq> None \<and> 0 < h_vmCount (objs w a)) then Some (warn w)
              else
                (case h_ob (objs w a) of
                   None \<Rightarrow> assign E n a k val w
                 | Some d \<Rightarrow> map_option (notify_dep d) (defineReactive (observe_n n) a k (Some val) False w))))"

text \<open>
  On undefined and null reading \<open>__ob__\<close> throws; the characters and the length of a string cannot be
  deleted; other primitives have no such property (functions as targets are not modelled).
\<close>

definition del_primitive :: "jsval \<Rightarrow> jsval \<Rightarrow> world \<Rightarrow> world option" where
  "del_primitive p key w =
     (case p of
        JUndef \<Rightarrow> None
      | JNull \<Rightarrow> None
      | JStr s \<Rightarrow> if js_String key = ''length'' \<or> js_String key \<in> set (map show_nat [0..<length s]) then None else Some (warn w)
      | _ \<Rightarrow> Some (warn w))"

definition del_1 :: "nat \<Rightarrow> hval \<Rightarrow> jsval \<Rightarrow> world \<Rightarrow> world option" where
  "del_1 n target key w =
     (case target of
        Prim p \<Rightarrow> del_primitive p key w
      | Ref a \<Rightarrow>
          (let k = js_String key
           in if h_kind (objs w a) = ArrayKind \<and> isValidArrayIndex key then mutator n a (Splice (int (array_index key)) (Some 1) []) w
              else if h_kind (objs w a) = VueKind \<or> (h_ob (objs w a) \<noteq> None \<and> 0 < h_vmCount (objs w a)) then Some (warn w)
              else
                (case field_of w a k of
                   None \<Rightarrow> Some w
                 | Some p \<Rightarrow>
                     if \<not> f_configurable p then None
                     else
                       (let w1 = upd_obj a (\<lambda>x. x\<lparr>h_fields := filter (\<lambda>(k', _). k' \<noteq> k) (h_fields x)\<rparr>) w
                        in case h_ob (objs w a) of None \<Rightarrow> Some w1 | Some d \<Rightarrow> Some (notify_dep d w1)))))"

section \<open>Deep watchers\<close>

text \<open>\<open>seen\<close> holds the deps of the observers visited; the properties are read from the last to the first.\<close>

fun traverse_fields ::
    "(hval \<Rightarrow> nat list \<Rightarrow> world \<Rightarrow> (nat list \<times> world) option) \<Rightarrow> (string \<Rightarrow> world \<Rightarrow> (hval \<times> world) option) \<Rightarrow>
     string list \<Rightarrow> nat list \<Rightarrow> world \<Rightarrow> (nat list \<times> world) option" where
  "traverse_fields rec get [] seen w = Some (seen, w)"
| "traverse_fields rec get (k # ks) seen w =
     (case get k w of
        None \<Rightarrow> None
      | Some (v, w1) \<Rightarrow> (case rec v seen w1 of None \<Rightarrow> None | Some (seen', w2) \<Rightarrow> traverse_fields rec get ks seen' w2))"

fun traverse_elems ::
    "(hval \<Rightarrow> nat list \<Rightarrow> world \<Rightarrow> (nat list \<times> world) option) \<Rightarrow> hval list \<Rightarrow> nat list \<Rightarrow> world \<Rightarrow> (nat list \<times> world) option" where
  "traverse_elems rec [] seen w = Some (seen, w)"
| "traverse_elems rec (x # xs) seen w =
     (case rec x seen w of None \<Rightarrow> None | Some (seen', w1) \<Rightarrow> traverse_elems rec xs seen' w1)"

definition traverse_children ::
    "env \<Rightarrow> nat \<Rightarrow> (hval \<Rightarrow> nat list \<Rightarrow> world \<Rightarrow> (nat list \<times> world) option) \<Rightarrow> nat \<Rightarrow> nat list \<Rightarrow> world \<Rightarrow> (nat list \<times> world) option" where
  "traverse_children E n rec a seen w =
     (if h_kind (objs w a) = ArrayKind then traverse_elems rec (rev (h_elems (objs w a))) seen w
      else traverse_fields rec (\<lambda>k w. case field_of w a k of Some p \<Rightarrow> get_slot E n a k (f_slot p) w | None \<Rightarrow> Some (Prim JUndef, w))
             (rev (map fst (h_fields (objs w a)))) seen w)"

primrec traverse_1 :: "env \<Rightarrow> nat \<Rightarrow> nat \<Rightarrow> hval \<Rightarrow> nat list \<Rightarrow> world \<Rightarrow> (nat list \<times> world) option" where
  "traverse_1 E n 0 v seen w = None"
| "traverse_1 E n (Suc m) v seen w =
     (case v of
        Prim _ \<Rightarrow> Some (seen, w)
      | Ref a \<Rightarrow>
          if h_frozen (objs w a) \<or> h_kind (objs w a) = VNodeKind then Some (seen, w)
          else
            (case h_ob (objs w a) of
               Some d \<Rightarrow> if d \<in> set seen then Some (seen, w) else traverse_children E n (traverse_1 E n m) a (d # seen) w
             | None \<Rightarrow> traverse_children E n (traverse_1 E n m) a seen w))"

definition traverse :: "env \<Rightarrow> nat \<Rightarrow> nat \<Rightarrow> hval \<Rightarrow> world \<Rightarrow> world option" where
  "traverse E n m v w = map_option snd (traverse_1 E n m v [] w)"

end
