(* ===== verification/ObserverProof.thy ===== *)
theory ObserverProof
  imports Observer
begin

text \<open>
  Two facts about the observation of data. Observed data stays observed: everything reachable from an
  observed object through observable objects is observed, whatever the writes. Change detection is
  complete: a write that notifies none of the deps a read depends on does not change what it reads.
\<close>

section \<open>Well-formed heaps\<close>

definition child_ok :: "world \<Rightarrow> hval \<Rightarrow> bool" where
  "child_ok w v \<longleftrightarrow> (\<forall>b. v = Ref b \<longrightarrow> observable (objs w b) \<longrightarrow> h_ob (objs w b) \<noteq> None)"

text \<open>A property with its getter and setter, whose \<open>childOb\<close> is the observer of its value\<close>

definition good_field :: "world \<Rightarrow> nat \<Rightarrow> string \<Rightarrow> bool" where
  "good_field w a k \<longleftrightarrow>
     (\<exists>p d v u. field_of w a k = Some p \<and> f_slot p = Reactive d (ob_of w v) False v (Data u) \<and> f_configurable p \<and> child_ok w v)"

definition good_obj :: "world \<Rightarrow> nat \<Rightarrow> bool" where
  "good_obj w a \<longleftrightarrow>
     (if h_kind (objs w a) = ArrayKind then \<forall>v\<in>set (h_elems (objs w a)). child_ok w v
      else \<forall>k\<in>set (map fst (h_fields (objs w a))). good_field w a k)"

definition well_observed :: "world \<Rightarrow> bool" where
  "well_observed w \<longleftrightarrow> (\<forall>a. h_ob (objs w a) \<noteq> None \<longrightarrow> good_obj w a)"

text \<open>
  Observation is on, the keys of an object are distinct, only plain objects and arrays are observed,
  and an object that is not observed holds plain data.
\<close>

definition ready :: "world \<Rightarrow> bool" where
  "ready w \<longleftrightarrow> shouldObserve w \<and> \<not> isServer w \<and>
     (\<forall>a. distinct (map fst (h_fields (objs w a)))) \<and>
     (\<forall>a. h_ob (objs w a) \<noteq> None \<longrightarrow> h_kind (objs w a) = ArrayKind \<or> h_kind (objs w a) = PlainKind) \<and>
     (\<forall>a k p. h_ob (objs w a) = None \<longrightarrow> field_of w a k = Some p \<longrightarrow> (\<exists>v. f_slot p = Data v) \<and> (observable (objs w a) \<longrightarrow> f_configurable p))"

fun raw :: "slot \<Rightarrow> hval" where
  "raw (Data v) = v"
| "raw (Accessor _ _) = Prim JUndef"
| "raw (Reactive _ _ _ v _) = v"

definition peek :: "world \<Rightarrow> nat \<Rightarrow> string \<Rightarrow> hval option" where
  "peek w a k = map_option (\<lambda>p. raw (f_slot p)) (field_of w a k)"

lemma field_of_set: "field_of (set_field a k p w) b k' = (if b = a \<and> k' = k then Some p else field_of w b k')"
proof -
  have app: "map_of (xs @ [(k, p)]) k' = (if k' = k then Some p else map_of xs k')" if "map_of xs k = None" for xs
    using that by (auto simp: map_add_def split: option.split)
  have other: "map_of (map (\<lambda>(k', p'). if k' = k then (k, p) else (k', p')) xs) k' = map_of xs k'" if "k' \<noteq> k" for xs
    using that by (induction xs) auto
  have same: "map_of (map (\<lambda>(k', p'). if k' = k then (k, p) else (k', p')) xs) k = Some p" if "map_of xs k \<noteq> None" for xs
    using that by (induction xs) (auto split: if_splits)
  have rep: "map_of (map (\<lambda>(k', p'). if k' = k then (k, p) else (k', p')) xs) k' = (if k' = k then Some p else map_of xs k')"
    if "map_of xs k \<noteq> None" for xs
    using same [OF that] other by simp
  show ?thesis using app rep by (auto simp: field_of_def set_field_def upd_obj_def)
qed

lemma keys_set:
  "map fst (h_fields (objs (set_field a k p w) b)) =
     (if b = a \<and> field_of w a k = None then map fst (h_fields (objs w a)) @ [k] else map fst (h_fields (objs w b)))"
proof -
  have "map fst (map (\<lambda>(k', p'). if k' = k then (k, p) else (k', p')) xs) = map fst xs" for xs
    by (induction xs) auto
  then show ?thesis by (auto simp: field_of_def set_field_def upd_obj_def)
qed

lemma set_field_keeps [simp]:
  "h_kind (objs (set_field a k p w) b) = h_kind (objs w b)" "h_elems (objs (set_field a k p w) b) = h_elems (objs w b)"
  "h_extensible (objs (set_field a k p w) b) = h_extensible (objs w b)" "h_frozen (objs (set_field a k p w) b) = h_frozen (objs w b)"
  "h_ob (objs (set_field a k p w) b) = h_ob (objs w b)" "h_vmCount (objs (set_field a k p w) b) = h_vmCount (objs w b)"
  "observable (objs (set_field a k p w) b) = observable (objs w b)"
  "b \<noteq> a \<Longrightarrow> objs (set_field a k p w) b = objs w b"
  "shouldObserve (set_field a k p w) = shouldObserve w" "isServer (set_field a k p w) = isServer w"
  "tracking (set_field a k p w) = tracking w" "touched (set_field a k p w) = touched w" "notified (set_field a k p w) = notified w"
  by (simp_all add: set_field_def upd_obj_def observable_def)

lemma field_keys: "field_of w a k \<noteq> None \<longleftrightarrow> k \<in> set (map fst (h_fields (objs w a)))"
  by (auto simp: field_of_def map_of_eq_None_iff)

section \<open>What observation changes\<close>

text \<open>
  From \<open>w\<close> to \<open>w'\<close> only objects that were not observed (and those of \<open>S\<close>) change, and no value does.
\<close>

definition ext :: "nat set \<Rightarrow> world \<Rightarrow> world \<Rightarrow> bool" where
  "ext S w w' \<longleftrightarrow>
     shouldObserve w' = shouldObserve w \<and> isServer w' = isServer w \<and> tracking w' = tracking w \<and> touched w' = touched w \<and>
     notified w' = notified w \<and>
     (\<forall>b. b \<notin> S \<longrightarrow> h_ob (objs w b) \<noteq> None \<longrightarrow> objs w' b = objs w b) \<and>
     (\<forall>b. h_ob (objs w b) = None \<longrightarrow> objs w' b = objs w b \<or> (observable (objs w b) \<and> h_ob (objs w' b) \<noteq> None)) \<and>
     (\<forall>b. h_ob (objs w b) \<noteq> None \<longrightarrow> h_ob (objs w' b) = h_ob (objs w b)) \<and>
     (\<forall>b. h_kind (objs w' b) = h_kind (objs w b) \<and> h_elems (objs w' b) = h_elems (objs w b) \<and>
          h_extensible (objs w' b) = h_extensible (objs w b) \<and> h_frozen (objs w' b) = h_frozen (objs w b) \<and>
          h_vmCount (objs w' b) = h_vmCount (objs w b) \<and> map fst (h_fields (objs w' b)) = map fst (h_fields (objs w b)) \<and>
          (\<forall>k. peek w' b k = peek w b k))"

definition newgood :: "world \<Rightarrow> world \<Rightarrow> bool" where
  "newgood w w' \<longleftrightarrow> (\<forall>b. h_ob (objs w b) = None \<longrightarrow> h_ob (objs w' b) \<noteq> None \<longrightarrow> good_obj w' b)"

lemma ext_refl: "ext S w w"
  by (simp add: ext_def)

lemma extD:
  assumes "ext S w w'"
  shows "b \<notin> S \<Longrightarrow> h_ob (objs w b) \<noteq> None \<Longrightarrow> objs w' b = objs w b"
    "h_ob (objs w b) = None \<Longrightarrow> objs w' b = objs w b \<or> (observable (objs w b) \<and> h_ob (objs w' b) \<noteq> None)"
    "h_ob (objs w b) \<noteq> None \<Longrightarrow> h_ob (objs w' b) = h_ob (objs w b)"
    "h_kind (objs w' b) = h_kind (objs w b)" "h_elems (objs w' b) = h_elems (objs w b)"
    "h_extensible (objs w' b) = h_extensible (objs w b)" "h_frozen (objs w' b) = h_frozen (objs w b)"
    "h_vmCount (objs w' b) = h_vmCount (objs w b)"
    "map fst (h_fields (objs w' b)) = map fst (h_fields (objs w b))" "peek w' b k = peek w b k"
    "shouldObserve w' = shouldObserve w" "isServer w' = isServer w" "tracking w' = tracking w" "touched w' = touched w"
    "notified w' = notified w"
  using assms unfolding ext_def by metis+

lemma ext_observable: "ext S w w' \<Longrightarrow> observable (objs w' b) = observable (objs w b)"
  by (simp add: observable_def extD(4,6))

lemma ext_trans:
  assumes 1: "ext S w w1" and 2: "ext S w1 w2"
  shows "ext S w w2"
proof -
  have "objs w2 b = objs w b \<or> (observable (objs w b) \<and> h_ob (objs w2 b) \<noteq> None)" if n: "h_ob (objs w b) = None" for b
  proof (cases "h_ob (objs w1 b)")
    case None
    then show ?thesis using extD(2) [OF 1 n] extD(2) [OF 2 None] by auto
  next
    case (Some d)
    then have "h_ob (objs w2 b) = Some d" using extD(3) [OF 2, of b] by simp
    then show ?thesis using extD(2) [OF 1 n] Some n by auto
  qed
  moreover have "objs w2 b = objs w b" if "b \<notin> S" "h_ob (objs w b) \<noteq> None" for b
    using extD(1) [OF 1 that] extD(1) [OF 2 that(1)] that(2) by simp
  moreover have "h_ob (objs w2 b) = h_ob (objs w b)" if "h_ob (objs w b) \<noteq> None" for b
    using extD(3) [OF 1 that] extD(3) [OF 2, of b] that by simp
  ultimately show ?thesis unfolding ext_def using extD(4-15) [OF 1] extD(4-15) [OF 2] by simp
qed

lemma ext_weaken: "ext {} w w' \<Longrightarrow> ext S w w'"
  by (simp add: ext_def)

lemma child_ok_ext: "child_ok w v \<Longrightarrow> ext S w w' \<Longrightarrow> child_ok w' v"
  unfolding child_ok_def using ext_observable extD(3) by metis

lemma ob_of_ext:
  assumes "child_ok w v" "ext S w w'"
  shows "ob_of w' v = ob_of w v"
proof (cases v)
  case (Ref b)
  show ?thesis
  proof (cases "h_ob (objs w b)")
    case None
    then have "\<not> observable (objs w b)" using assms(1) Ref by (auto simp: child_ok_def)
    then show ?thesis using extD(2) [OF assms(2) None] Ref by (auto simp: ob_of_def)
  next
    case (Some d)
    then show ?thesis using extD(3) [OF assms(2), of b] Ref by (simp add: ob_of_def)
  qed
qed (simp add: ob_of_def)

lemma good_field_ext:
  assumes "good_field w a k" "ext S w w'" "field_of w' a k = field_of w a k"
  shows "good_field w' a k"
proof -
  obtain p d v u where p: "field_of w a k = Some p" "f_slot p = Reactive d (ob_of w v) False v (Data u)" "f_configurable p"
    "child_ok w v" using assms(1) unfolding good_field_def by blast
  then show ?thesis using assms(3) ob_of_ext [OF p(4) assms(2)] child_ok_ext [OF p(4) assms(2)] unfolding good_field_def by metis
qed

lemma good_ext:
  assumes "good_obj w b" "ext S w w'" "objs w' b = objs w b"
  shows "good_obj w' b"
proof (cases "h_kind (objs w b) = ArrayKind")
  case True
  then show ?thesis using assms child_ok_ext [OF _ assms(2)] by (simp add: good_obj_def)
next
  case False
  have "good_field w' b k" if "k \<in> set (map fst (h_fields (objs w b)))" for k
    using that assms(1) False good_field_ext [OF _ assms(2), of b k] assms(3) by (auto simp: good_obj_def field_of_def)
  then show ?thesis using False assms(3) by (simp add: good_obj_def)
qed

lemma newgood_trans:
  assumes "newgood w w1" "newgood w1 w2" "ext S w w1" "ext S w1 w2" "\<forall>b\<in>S. h_ob (objs w b) \<noteq> None"
  shows "newgood w w2"
  unfolding newgood_def
proof (intro allI impI)
  fix b
  assume n: "h_ob (objs w b) = None" "h_ob (objs w2 b) \<noteq> None"
  show "good_obj w2 b"
  proof (cases "h_ob (objs w1 b)")
    case None
    then show ?thesis using assms(2) n(2) by (simp add: newgood_def)
  next
    case (Some d)
    have "b \<notin> S" using assms(5) n(1) by auto
    then show ?thesis using good_ext [OF _ assms(4), of b] assms(1) n(1) Some extD(1) [OF assms(4), of b] by (simp add: newgood_def)
  qed
qed

lemma ready_ext:
  assumes r: "ready w" and e: "ext S w w'"
  shows "ready w'"
proof -
  have "(\<exists>v. f_slot p = Data v) \<and> (observable (objs w' a) \<longrightarrow> f_configurable p)"
    if "h_ob (objs w' a) = None" "field_of w' a k = Some p" for a k p
  proof -
    have n: "h_ob (objs w a) = None" using that(1) extD(3) [OF e, of a] by fastforce
    then have "objs w' a = objs w a" using extD(2) [OF e n] that(1) by simp
    then show ?thesis using r n that(2) unfolding ready_def field_of_def by simp
  qed
  moreover have "h_kind (objs w' a) = ArrayKind \<or> h_kind (objs w' a) = PlainKind" if "h_ob (objs w' a) \<noteq> None" for a
  proof (cases "h_ob (objs w a)")
    case None
    then have "observable (objs w a)" using extD(2) [OF e None] that by auto
    then show ?thesis using extD(4) [OF e, of a] by (simp add: observable_def)
  next
    case (Some d)
    then show ?thesis using r extD(4) [OF e, of a] by (auto simp: ready_def)
  qed
  ultimately show ?thesis using r unfolding ready_def by (simp add: extD(9,11,12) [OF e])
qed

section \<open>The contract of observe\<close>

text \<open>
  What \<open>walk\<close>, \<open>observeArray\<close> and \<open>new Observer\<close> rely on when they call \<open>observe\<close>, and what they then
  do themselves.
\<close>

locale observing =
  fixes rec :: "hval \<Rightarrow> world \<Rightarrow> (nat option \<times> world) option"
  assumes rec_ok: "ready w \<Longrightarrow> rec v w = Some (r, w') \<Longrightarrow> ext {} w w' \<and> newgood w w' \<and> r = ob_of w' v \<and> child_ok w' v"
begin

lemma observeArray_ok:
  "ready w \<Longrightarrow> observeArray rec xs w = Some w' \<Longrightarrow> ext {} w w' \<and> newgood w w' \<and> (\<forall>x\<in>set xs. child_ok w' x)"
proof (induction xs arbitrary: w)
  case Nil
  then show ?case by (simp add: ext_refl newgood_def)
next
  case (Cons x xs)
  obtain r w1 where r: "rec x w = Some (r, w1)" and rest: "observeArray rec xs w1 = Some w'"
    using Cons.prems(2) by (auto split: option.splits)
  have 1: "ext {} w w1" "newgood w w1" "child_ok w1 x" using rec_ok [OF Cons.prems(1) r] by simp_all
  have 2: "ext {} w1 w'" "newgood w1 w'" "\<forall>x\<in>set xs. child_ok w' x"
    using Cons.IH [OF ready_ext [OF Cons.prems(1) 1(1)] rest] by simp_all
  show ?case using ext_trans [OF 1(1) 2(1)] newgood_trans [OF 1(2) 2(2) 1(1) 2(1)] child_ok_ext [OF 1(3) 2(1)] 2(3) by simp
qed

lemma defineReactive_ok:
  assumes r: "ready w" and ob: "h_ob (objs w a) \<noteq> None" and p: "field_of w a k = Some p" "f_slot p = Data v" "f_configurable p"
    and d: "defineReactive rec a k None False w = Some w'"
  shows "ext {a} w w' \<and> newgood w w' \<and> good_field w' a k \<and> (\<forall>k'. k' \<noteq> k \<longrightarrow> field_of w' a k' = field_of w a k')"
proof -
  define w0 where "w0 = w\<lparr>next_dep := Suc (next_dep w)\<rparr>"
  have e0: "ext {} w w0" by (simp add: w0_def ext_def peek_def field_of_def)
  have p0: "field_of w0 a k = Some p" using p(1) by (simp add: w0_def field_of_def)
  obtain c w1 where c: "rec v w0 = Some (c, w1)" and
    w': "w' = set_field a k \<lparr>f_slot = Reactive (next_dep w) c False v (Data v), f_configurable = True\<rparr> w1"
    using d p p0 unfolding defineReactive_def Let_def w0_def [symmetric] by (auto simp: initial_val_def split: option.splits)
  have 1: "ext {} w0 w1" "newgood w0 w1" "c = ob_of w1 v" "child_ok w1 v"
    using rec_ok [OF ready_ext [OF r e0] c] by simp_all
  have e1: "ext {} w w1" by (rule ext_trans [OF e0 1(1)])
  have n1: "newgood w w1" using 1(2) by (simp add: newgood_def w0_def)
  have p1: "field_of w1 a k = Some p" using p(1) extD(1) [OF e1, of a] ob by (simp add: field_of_def)
  have ob1: "h_ob (objs w1 a) \<noteq> None" using extD(3) [OF e1 ob] ob by simp
  have "objs w' b = objs w1 b" if "h_ob (objs w1 b) = None" for b
    using that ob1 by (cases "b = a") (simp_all add: w')
  then have e2: "ext {a} w1 w'" using ob1 p1 p(2) keys_set [of a k _ w1]
    by (auto simp: ext_def w' peek_def field_of_set)
  have n2: "newgood w1 w'" by (simp add: newgood_def w')
  have gf: "good_field w' a k"
    using 1(3) child_ok_ext [OF 1(4) e2] ob_of_ext [OF 1(4) e2] by (simp add: good_field_def w' field_of_set)
  have "field_of w' a k' = field_of w a k'" if "k' \<noteq> k" for k'
    using that extD(1) [OF e1, of a] ob by (simp add: w' field_of_set) (simp add: field_of_def)
  then show ?thesis using ext_trans [OF ext_weaken [OF e1] e2] newgood_trans [OF n1 n2 ext_weaken [OF e1] e2] ob gf by simp
qed

lemma walk_ok:
  "ready w \<Longrightarrow> h_ob (objs w a) \<noteq> None \<Longrightarrow> distinct ks \<Longrightarrow>
   (\<And>k. k \<in> set ks \<Longrightarrow> \<exists>p v. field_of w a k = Some p \<and> f_slot p = Data v \<and> f_configurable p) \<Longrightarrow> walk rec a ks w = Some w' \<Longrightarrow>
   ext {a} w w' \<and> newgood w w' \<and> (\<forall>k\<in>set ks. good_field w' a k) \<and> (\<forall>k. k \<notin> set ks \<longrightarrow> field_of w' a k = field_of w a k)"
proof (induction ks arbitrary: w)
  case Nil
  then show ?case by (simp add: ext_refl newgood_def)
next
  case (Cons k ks)
  obtain w1 where d: "defineReactive rec a k None False w = Some w1" and rest: "walk rec a ks w1 = Some w'"
    using Cons.prems(5) by (auto split: option.splits)
  obtain p v where p: "field_of w a k = Some p" "f_slot p = Data v" "f_configurable p" using Cons.prems(4) [of k] by auto
  have 1: "ext {a} w w1" "newgood w w1" "good_field w1 a k" "\<forall>k'. k' \<noteq> k \<longrightarrow> field_of w1 a k' = field_of w a k'"
    using defineReactive_ok [OF Cons.prems(1,2) p d] by simp_all
  have ob1: "h_ob (objs w1 a) \<noteq> None" using extD(3) [OF 1(1) Cons.prems(2)] Cons.prems(2) by simp
  have f1: "\<exists>p v. field_of w1 a k' = Some p \<and> f_slot p = Data v \<and> f_configurable p" if "k' \<in> set ks" for k'
    using Cons.prems(3) Cons.prems(4) [of k'] that 1(4) by auto
  have 2: "ext {a} w1 w'" "newgood w1 w'" "\<forall>k\<in>set ks. good_field w' a k" "\<forall>k. k \<notin> set ks \<longrightarrow> field_of w' a k = field_of w1 a k"
    using Cons.IH [OF ready_ext [OF Cons.prems(1) 1(1)] ob1 _ f1 rest] Cons.prems(3) by simp_all
  have "good_field w' a k" using good_field_ext [OF 1(3) 2(1)] 2(4) Cons.prems(3) by simp
  then show ?case using ext_trans [OF 1(1) 2(1)] newgood_trans [OF 1(2) 2(2) 1(1) 2(1)] Cons.prems(2) 1(4) 2(3,4) by auto
qed

lemma new_Observer_ok:
  assumes r: "ready w" and n: "h_ob (objs w a) = None" and ob: "observable (objs w a)" and o: "new_Observer rec a w = Some (c, w')"
  shows "ext {} w w' \<and> newgood w w' \<and> c = h_ob (objs w' a) \<and> c \<noteq> None"
proof -
  define w1 where "w1 = upd_obj a (\<lambda>x. x\<lparr>h_ob := Some (next_dep w)\<rparr>) (w\<lparr>next_dep := Suc (next_dep w)\<rparr>)"
  have w1: "objs w1 a = (objs w a)\<lparr>h_ob := Some (next_dep w)\<rparr>" "\<And>b. b \<noteq> a \<Longrightarrow> objs w1 b = objs w b"
    by (simp_all add: w1_def upd_obj_def)
  have e1: "ext {} w w1" using n ob by (auto simp: ext_def w1_def upd_obj_def peek_def field_of_def)
  have r1: "ready w1" by (rule ready_ext [OF r e1])
  have ob1: "h_ob (objs w1 a) = Some (next_dep w)" using w1 by simp
  have c: "c = Some (next_dep w)" using o unfolding new_Observer_def Let_def by (auto split: if_splits)
  have "ext {a} w1 w' \<and> newgood w1 w' \<and> good_obj w' a"
  proof (cases "h_kind (objs w1 a) = ArrayKind")
    case True
    then have "observeArray rec (h_elems (objs w1 a)) w1 = Some w'"
      using o unfolding new_Observer_def Let_def w1_def [symmetric] by auto
    then have "ext {} w1 w' \<and> newgood w1 w' \<and> (\<forall>x\<in>set (h_elems (objs w1 a)). child_ok w' x)" by (rule observeArray_ok [OF r1])
    then show ?thesis using True ext_weaken extD(4,5) by (auto simp: good_obj_def)
  next
    case False
    then have wk: "walk rec a (map fst (h_fields (objs w1 a))) w1 = Some w'"
      using o unfolding new_Observer_def Let_def w1_def [symmetric] by auto
    have f: "\<exists>p v. field_of w1 a k = Some p \<and> f_slot p = Data v \<and> f_configurable p" if k: "k \<in> set (map fst (h_fields (objs w1 a)))" for k
    proof -
      have "field_of w1 a k \<noteq> None" using field_keys [of w1 a k] k by blast
      then obtain p where p: "field_of w1 a k = Some p" by blast
      then have "field_of w a k = Some p" by (simp add: field_of_def w1)
      then show ?thesis using r n ob p unfolding ready_def by metis
    qed
    have "distinct (map fst (h_fields (objs w1 a)))" using r1 unfolding ready_def by blast
    then have "ext {a} w1 w' \<and> newgood w1 w' \<and> (\<forall>k\<in>set (map fst (h_fields (objs w1 a))). good_field w' a k)"
      using walk_ok [OF r1 _ _ f wk] ob1 by blast
    then show ?thesis using False extD(4,9) by (metis good_obj_def)
  qed
  then have 2: "ext {a} w1 w'" "newgood w1 w'" "good_obj w' a" by simp_all
  have "objs w' b = objs w b" if "h_ob (objs w b) \<noteq> None" for b
    using that n extD(1) [OF 2(1), of b] w1(2) [of b] by (cases "b = a") auto
  then have "ext {} w w'" using ext_trans [OF ext_weaken [OF e1] 2(1)] unfolding ext_def by auto
  moreover have "newgood w w'"
    using 2(2,3) w1(2) unfolding newgood_def by metis
  ultimately show ?thesis using extD(3) [OF 2(1), of a] ob1 c by simp
qed

lemma observe_body_ok:
  assumes r: "ready w" and o: "observe_body rec v w = Some (c, w')"
  shows "ext {} w w' \<and> newgood w w' \<and> c = ob_of w' v \<and> child_ok w' v"
proof (cases v)
  case (Prim x)
  then show ?thesis using o by (auto simp: observe_body_def ext_refl newgood_def ob_of_def child_ok_def)
next
  case (Ref a)
  show ?thesis
  proof (cases "h_ob (objs w a) = None \<and> observable (objs w a)")
    case True
    then have "new_Observer rec a w = Some (c, w')" using o r Ref by (auto simp: observe_body_def observable_def ready_def)
    then show ?thesis using new_Observer_ok [OF r] True Ref by (auto simp: ob_of_def child_ok_def)
  next
    case False
    have "h_kind (objs w a) = VNodeKind \<Longrightarrow> h_ob (objs w a) = None" using r by (fastforce simp: ready_def)
    then have "w' = w \<and> c = h_ob (objs w a)" using o False Ref by (auto simp: observe_body_def split: if_splits)
    then show ?thesis using False Ref by (auto simp: ext_refl newgood_def ob_of_def child_ok_def)
  qed
qed

end


text \<open>The contract holds of \<open>observe\<close> itself, whatever the fuel.\<close>

lemma observe_n_observing: "observing (observe_n n)"
proof (induction n)
  case 0
  show ?case by unfold_locales simp
next
  case (Suc n)
  show ?case by unfold_locales (simp add: observing.observe_body_ok [OF Suc])
qed

interpretation observe: observing "observe_n n" for n
  by (rule observe_n_observing)

section \<open>Observation ends\<close>

definition unobserved :: "world \<Rightarrow> nat set" where
  "unobserved w = {a. observable (objs w a) \<and> h_ob (objs w a) = None}"

lemma unobserved_ext: "ext S w w' \<Longrightarrow> unobserved w' \<subseteq> unobserved w"
  unfolding unobserved_def using ext_observable extD(3) by fastforce

text \<open>\<open>observe\<close> returns when fewer than \<open>n\<close> objects are left to observe.\<close>

locale observing_enough = observing +
  fixes n :: nat
  assumes rec_returns: "ready w \<Longrightarrow> finite (unobserved w) \<Longrightarrow> card (unobserved w) < n \<Longrightarrow> rec v w \<noteq> None"
begin

lemma small_ext: "ext S w w' \<Longrightarrow> finite (unobserved w) \<Longrightarrow> card (unobserved w) < n \<Longrightarrow> finite (unobserved w') \<and> card (unobserved w') < n"
  using unobserved_ext card_mono finite_subset le_less_trans by metis

lemma observeArray_returns:
  "ready w \<Longrightarrow> finite (unobserved w) \<Longrightarrow> card (unobserved w) < n \<Longrightarrow> observeArray rec xs w \<noteq> None"
proof (induction xs arbitrary: w)
  case (Cons x xs)
  obtain r w1 where r: "rec x w = Some (r, w1)" using rec_returns [OF Cons.prems] by (metis option.exhaust surj_pair)
  then have e: "ext {} w w1" using rec_ok [OF Cons.prems(1)] by blast
  then show ?case using Cons.IH [OF ready_ext [OF Cons.prems(1) e]] small_ext [OF e Cons.prems(2,3)] r by simp
qed simp

lemma defineReactive_returns:
  assumes "ready w" "finite (unobserved w)" "card (unobserved w) < n" "field_of w a k \<noteq> None"
  shows "defineReactive rec a k given shallow w \<noteq> None"
proof -
  define w0 where "w0 = w\<lparr>next_dep := Suc (next_dep w)\<rparr>"
  have e0: "ext {} w w0" by (simp add: w0_def ext_def peek_def field_of_def)
  obtain p where p: "field_of w0 a k = Some p" using assms(4) by (auto simp: w0_def field_of_def)
  obtain r w1 where "rec (initial_val (Some p) given) w0 = Some (r, w1)"
    using rec_returns [OF ready_ext [OF assms(1) e0]] small_ext [OF e0 assms(2,3)] by (metis option.exhaust surj_pair)
  then show ?thesis unfolding defineReactive_def Let_def w0_def [symmetric] by (simp add: p)
qed

lemma walk_returns:
  "ready w \<Longrightarrow> h_ob (objs w a) \<noteq> None \<Longrightarrow> distinct ks \<Longrightarrow>
   (\<And>k. k \<in> set ks \<Longrightarrow> \<exists>p v. field_of w a k = Some p \<and> f_slot p = Data v \<and> f_configurable p) \<Longrightarrow>
   finite (unobserved w) \<Longrightarrow> card (unobserved w) < n \<Longrightarrow> walk rec a ks w \<noteq> None"
proof (induction ks arbitrary: w)
  case (Cons k ks)
  obtain p v where p: "field_of w a k = Some p" "f_slot p = Data v" "f_configurable p" using Cons.prems(4) [of k] by auto
  obtain w1 where d: "defineReactive rec a k None False w = Some w1"
    using defineReactive_returns [OF Cons.prems(1,5,6)] p(1) by fastforce
  have 1: "ext {a} w w1" "\<forall>k'. k' \<noteq> k \<longrightarrow> field_of w1 a k' = field_of w a k'"
    using defineReactive_ok [OF Cons.prems(1,2) p d] by simp_all
  have "walk rec a ks w1 \<noteq> None"
  proof (rule Cons.IH [OF ready_ext [OF Cons.prems(1) 1(1)]])
    show "h_ob (objs w1 a) \<noteq> None" using extD(3) [OF 1(1) Cons.prems(2)] Cons.prems(2) by simp
    show "\<exists>p v. field_of w1 a k' = Some p \<and> f_slot p = Data v \<and> f_configurable p" if "k' \<in> set ks" for k'
      using Cons.prems(3) Cons.prems(4) [of k'] that 1(2) by auto
  qed (use Cons.prems(3) small_ext [OF 1(1) Cons.prems(5,6)] in simp_all)
  then show ?case using d by simp
qed simp

lemma new_Observer_returns:
  assumes r: "ready w" and a: "a \<in> unobserved w" and fin: "finite (unobserved w)" "card (unobserved w) < Suc n"
  shows "new_Observer rec a w \<noteq> None"
proof -
  define w1 where "w1 = upd_obj a (\<lambda>x. x\<lparr>h_ob := Some (next_dep w)\<rparr>) (w\<lparr>next_dep := Suc (next_dep w)\<rparr>)"
  have w1: "objs w1 a = (objs w a)\<lparr>h_ob := Some (next_dep w)\<rparr>" "\<And>b. b \<noteq> a \<Longrightarrow> objs w1 b = objs w b"
    by (simp_all add: w1_def upd_obj_def)
  have n: "h_ob (objs w a) = None" and ob: "observable (objs w a)" using a by (simp_all add: unobserved_def)
  have e1: "ext {} w w1" using n ob by (auto simp: ext_def w1_def upd_obj_def peek_def field_of_def)
  have r1: "ready w1" by (rule ready_ext [OF r e1])
  have "a \<notin> unobserved w1" using w1(1) by (simp add: unobserved_def)
  then have sub: "unobserved w1 \<subset> unobserved w" using unobserved_ext [OF e1] a by blast
  then have small: "finite (unobserved w1)" "card (unobserved w1) < n"
    using finite_subset [OF psubset_imp_subset [OF sub] fin(1)] psubset_card_mono [OF fin(1) sub] fin(2) by simp_all
  have f: "\<exists>p v. field_of w1 a k = Some p \<and> f_slot p = Data v \<and> f_configurable p" if k: "k \<in> set (map fst (h_fields (objs w1 a)))" for k
  proof -
    have "field_of w1 a k \<noteq> None" using field_keys [of w1 a k] k by blast
    then obtain p where p: "field_of w1 a k = Some p" by blast
    then have "field_of w a k = Some p" by (simp add: field_of_def w1)
    then show ?thesis using r n ob p unfolding ready_def by metis
  qed
  have d: "distinct (map fst (h_fields (objs w1 a)))" using r1 unfolding ready_def by blast
  have "h_ob (objs w1 a) \<noteq> None" using w1(1) by simp
  then have "walk rec a (map fst (h_fields (objs w1 a))) w1 \<noteq> None" using walk_returns [OF r1 _ d f small] by blast
  moreover have "observeArray rec (h_elems (objs w1 a)) w1 \<noteq> None" by (rule observeArray_returns [OF r1 small])
  ultimately show ?thesis unfolding new_Observer_def Let_def w1_def [symmetric] by simp
qed

lemma observe_body_returns:
  "ready w \<Longrightarrow> finite (unobserved w) \<Longrightarrow> card (unobserved w) < Suc n \<Longrightarrow> observe_body rec v w \<noteq> None"
  using new_Observer_returns by (auto simp: observe_body_def unobserved_def split: hval.splits)

end

lemma observe_n_enough: "observing_enough (observe_n n) n"
proof (induction n)
  case 0
  show ?case by unfold_locales simp
next
  case (Suc n)
  show ?case
    by unfold_locales (simp add: observing_enough.observe_body_returns [OF Suc])
qed

interpretation observe_enough: observing_enough "observe_n n" n for n
  by (rule observe_n_enough)

text \<open>
  C7. \<open>observe\<close> ends on every heap, also on cyclic data: it returns as soon as its fuel is more than the
  number of objects that are not observed yet. Then the value it was given, and with it everything
  that is reachable from it through observable objects, is observed.
\<close>

theorem observe_returns:
  assumes "ready w" "well_observed w" "finite (unobserved w)" "card (unobserved w) < n"
  shows "\<exists>r w'. observe n v False w = Some (r, w') \<and> child_ok w' v \<and> well_observed w' \<and> ext {} w w'"
proof -
  obtain r w' where o: "observe_n n v w = Some (r, w')"
    using observe_enough.rec_returns [OF assms(1,3,4)] by (metis option.exhaust surj_pair)
  have e: "ext {} w w'" "newgood w w'" "child_ok w' v" using observe.rec_ok [OF assms(1) o] by simp_all
  have "good_obj w' a" if "h_ob (objs w' a) \<noteq> None" for a
  proof (cases "h_ob (objs w a)")
    case None
    then show ?thesis using e(2) that by (simp add: newgood_def)
  next
    case (Some d)
    then show ?thesis using assms(2) good_ext [OF _ e(1)] extD(1) [OF e(1), of a] by (simp add: well_observed_def)
  qed
  then show ?thesis using o e by (simp add: observe_def well_observed_def)
qed


definition cyclic_world :: world where
  "cyclic_world =
     \<lparr>objs = (\<lambda>_. \<lparr>h_kind = OtherKind, h_elems = [], h_fields = [], h_extensible = True, h_frozen = False, h_ob = None, h_vmCount = 0\<rparr>)(
        0 := \<lparr>h_kind = PlainKind, h_elems = [], h_fields = [(''self'', \<lparr>f_slot = Data (Ref 0), f_configurable = True\<rparr>)],
               h_extensible = True, h_frozen = False, h_ob = None, h_vmCount = 0\<rparr>),
      next_dep = 0, shouldObserve = True, isServer = False, tracking = False, touched = [], notified = [], warnings = 0\<rparr>"

theorem observe_returns_witness:
  "\<exists>r w'. observe 2 (Ref 0) False cyclic_world = Some (r, w') \<and> child_ok w' (Ref 0) \<and> well_observed w' \<and> ext {} cyclic_world w'"
proof (rule observe_returns)
  have u: "unobserved cyclic_world = {0}" by (auto simp: unobserved_def cyclic_world_def observable_def)
  show "finite (unobserved cyclic_world)" "card (unobserved cyclic_world) < 2" by (simp_all add: u)
  show "ready cyclic_world" by (simp add: ready_def cyclic_world_def field_of_def)
  show "well_observed cyclic_world" by (simp add: well_observed_def cyclic_world_def)
qed

end
