(* ===== verification/ObserverTrack.thy ===== *)
theory ObserverTrack
  imports ObserverProof
begin

text \<open>
  Writes through the interface of the framework (assignments to properties that are there, \<open>set\<close>,
  \<open>del\<close>, the array methods), reads as paths, and the completeness of change detection.
\<close>

section \<open>Writes\<close>

datatype mutation =
    Assign nat string hval
  | SetKey nat jsval hval
  | DelKey nat jsval
  | Call nat array_call

fun apply_mutation :: "env \<Rightarrow> nat \<Rightarrow> mutation \<Rightarrow> world \<Rightarrow> world option" where
  "apply_mutation E n (Assign a k v) w = assign E n a k v w"
| "apply_mutation E n (SetKey a key v) w = set_1 E n (Ref a) key v w"
| "apply_mutation E n (DelKey a key) w = del_1 n (Ref a) key w"
| "apply_mutation E n (Call a m) w = mutator n a m w"

text \<open>
  What the documentation asks for on observed data: assignments only to properties of plain objects
  that are there; \<open>set\<close> only with an index on arrays, and not with an inherited key; methods only on
  arrays. (\<open>sort\<close> gets a permutation.)
\<close>

fun allowed :: "env \<Rightarrow> world \<Rightarrow> mutation \<Rightarrow> bool" where
  "allowed E w (Assign a k v) \<longleftrightarrow> h_ob (objs w a) \<noteq> None \<longrightarrow> h_kind (objs w a) = PlainKind \<and> field_of w a k \<noteq> None"
| "allowed E w (SetKey a key v) \<longleftrightarrow>
     js_String key \<notin> set object_prototype \<and> e_inherited E a (js_String key) = None \<and>
     (h_kind (objs w a) = ArrayKind \<longrightarrow> isValidArrayIndex key)"
| "allowed E w (DelKey a key) \<longleftrightarrow> True"
| "allowed E w (Call a m) \<longleftrightarrow>
     h_kind (objs w a) = ArrayKind \<and> (case m of Sort f \<Rightarrow> set (f (h_elems (objs w a))) \<subseteq> set (h_elems (objs w a)) | _ \<Rightarrow> True)"

text \<open>
  The effect of a write on observed objects: what it changes is notified, by the dep of the property
  or by that of the object's observer; the properties of a root object are neither added nor deleted.
\<close>

definition field_dep :: "world \<Rightarrow> nat \<Rightarrow> string \<Rightarrow> nat option" where
  "field_dep w a k = (case field_of w a k of Some p \<Rightarrow> (case f_slot p of Reactive d _ _ _ _ \<Rightarrow> Some d | _ \<Rightarrow> None) | None \<Rightarrow> None)"

definition tracked_change :: "world \<Rightarrow> world \<Rightarrow> bool" where
  "tracked_change w w' \<longleftrightarrow>
     set (notified w) \<subseteq> set (notified w') \<and> tracking w' = tracking w \<and>
     (\<forall>a d. h_ob (objs w a) = Some d \<longrightarrow>
        h_ob (objs w' a) = Some d \<and> h_kind (objs w' a) = h_kind (objs w a) \<and>
        (h_kind (objs w a) = ArrayKind \<longrightarrow> h_elems (objs w' a) = h_elems (objs w a) \<or> d \<in> set (notified w')) \<and>
        (h_kind (objs w a) = PlainKind \<longrightarrow> (\<forall>k. peek w' a k = peek w a k \<or>
           (\<exists>p. field_dep w a k = Some p \<and> p \<in> set (notified w')) \<or> (d \<in> set (notified w') \<and> h_vmCount (objs w a) = 0))))"

lemma ext_tracked: "ext {} w w' \<Longrightarrow> tracked_change w w'"
  unfolding tracked_change_def using extD(3,4,5,10,13,15) by (auto simp: extD)

lemma well_observed_ext: "well_observed w \<Longrightarrow> ext {} w w' \<Longrightarrow> newgood w w' \<Longrightarrow> well_observed w'"
  unfolding well_observed_def newgood_def using good_ext extD(1) by (metis empty_iff)

text \<open>\<open>w\<close> and \<open>w'\<close> have the same observers, on objects of the same kinds.\<close>

definition same_marks :: "world \<Rightarrow> world \<Rightarrow> bool" where
  "same_marks w w' \<longleftrightarrow>
     (\<forall>a. h_ob (objs w' a) = h_ob (objs w a) \<and> h_kind (objs w' a) = h_kind (objs w a) \<and> observable (objs w' a) = observable (objs w a))"

lemma same_marks_child: "same_marks w w' \<Longrightarrow> child_ok w' v = child_ok w v"
  by (auto simp: same_marks_def child_ok_def)

lemma same_marks_ob: "same_marks w w' \<Longrightarrow> ob_of w' v = ob_of w v"
  by (auto simp: same_marks_def ob_of_def split: hval.splits)

lemma same_marks_field: "same_marks w w' \<Longrightarrow> field_of w' a k = field_of w a k \<Longrightarrow> good_field w' a k = good_field w a k"
  by (simp add: good_field_def same_marks_child same_marks_ob)

lemma same_marks_obj:
  assumes "same_marks w w'" "objs w' a = objs w a"
  shows "good_obj w' a = good_obj w a"
  using assms same_marks_field [OF assms(1), of a] same_marks_child [OF assms(1)]
  by (simp add: good_obj_def field_of_def)

lemma one_object:
  assumes w: "well_observed w" and m: "same_marks w w'" and others: "\<And>b. b \<noteq> a \<Longrightarrow> objs w' b = objs w b"
    and a: "h_ob (objs w a) \<noteq> None \<Longrightarrow> good_obj w' a"
  shows "well_observed w'"
  unfolding well_observed_def
proof (intro allI impI)
  fix b
  assume b: "h_ob (objs w' b) \<noteq> None"
  then have "h_ob (objs w b) \<noteq> None" using m by (simp add: same_marks_def)
  then show "good_obj w' b"
    using a others [of b] same_marks_obj [OF m, of b] w by (cases "b = a") (auto simp: well_observed_def)
qed

lemma ready_one:
  assumes r: "ready w" and m: "same_marks w w'" and o: "shouldObserve w' = shouldObserve w" "isServer w' = isServer w"
    and others: "\<And>b. b \<noteq> a \<Longrightarrow> h_fields (objs w' b) = h_fields (objs w b)"
    and a: "distinct (map fst (h_fields (objs w' a)))"
    and p: "\<And>k p. h_ob (objs w a) = None \<Longrightarrow> field_of w' a k = Some p \<Longrightarrow> (\<exists>v. f_slot p = Data v) \<and> (observable (objs w a) \<longrightarrow> f_configurable p)"
  shows "ready w'"
proof -
  have "(\<exists>v. f_slot p' = Data v) \<and> (observable (objs w' b) \<longrightarrow> f_configurable p')"
    if "h_ob (objs w' b) = None" "field_of w' b k = Some p'" for b k p'
  proof (cases "b = a")
    case True
    then show ?thesis using p that m by (simp add: same_marks_def)
  next
    case False
    then have "field_of w b k = Some p'" "h_ob (objs w b) = None" using others [OF False] that m by (simp_all add: field_of_def same_marks_def)
    then show ?thesis using r m unfolding ready_def same_marks_def by metis
  qed
  moreover have "distinct (map fst (h_fields (objs w' b)))" for b
    using a others [of b] r unfolding ready_def by (cases "b = a") auto
  ultimately show ?thesis using r m o unfolding ready_def same_marks_def by simp
qed


lemma notify_keeps [simp]:
  "objs (notify_dep d w) = objs w" "shouldObserve (notify_dep d w) = shouldObserve w" "isServer (notify_dep d w) = isServer w"
  "tracking (notify_dep d w) = tracking w" "notified (notify_dep d w) = notified w @ [d]" "touched (notify_dep d w) = touched w"
  by (simp_all add: notify_dep_def)

lemma same_objs:
  assumes "objs w' = objs w"
  shows "field_of w' = field_of w" "child_ok w' = child_ok w" "ob_of w' = ob_of w" "good_obj w' = good_obj w" "well_observed w' = well_observed w"
    "peek w' = peek w"
proof -
  show f: "field_of w' = field_of w" by (simp add: fun_eq_iff field_of_def assms)
  show c: "child_ok w' = child_ok w" by (simp add: fun_eq_iff child_ok_def assms)
  show o: "ob_of w' = ob_of w" unfolding fun_eq_iff ob_of_def assms by simp
  show "peek w' = peek w" by (simp add: fun_eq_iff peek_def f)
  show g: "good_obj w' = good_obj w" by (simp add: fun_eq_iff good_obj_def good_field_def f c o assms)
  show "well_observed w' = well_observed w" by (simp add: well_observed_def g assms)
qed

lemma same_objs_ready:
  assumes "objs w' = objs w" "shouldObserve w' = shouldObserve w" "isServer w' = isServer w"
  shows "ready w' = ready w"
  unfolding ready_def same_objs(1) [OF assms(1)] assms ..

lemma tracked_one:
  assumes e: "ext {} w w1" and others: "\<And>b. b \<noteq> a \<Longrightarrow> objs w' b = objs w1 b"
    and n: "set (notified w1) \<subseteq> set (notified w')" "tracking w' = tracking w1"
    and a: "\<And>d. h_ob (objs w a) = Some d \<Longrightarrow>
        h_ob (objs w' a) = Some d \<and> h_kind (objs w' a) = h_kind (objs w a) \<and>
        (h_kind (objs w a) = ArrayKind \<longrightarrow> h_elems (objs w' a) = h_elems (objs w a) \<or> d \<in> set (notified w')) \<and>
        (h_kind (objs w a) = PlainKind \<longrightarrow> (\<forall>k. peek w' a k = peek w a k \<or>
           (\<exists>p. field_dep w a k = Some p \<and> p \<in> set (notified w')) \<or> (d \<in> set (notified w') \<and> h_vmCount (objs w a) = 0)))"
  shows "tracked_change w w'"
proof -
  have "h_ob (objs w' b) = Some d \<and> h_kind (objs w' b) = h_kind (objs w b) \<and> h_elems (objs w' b) = h_elems (objs w b) \<and> (\<forall>k. peek w' b k = peek w b k)"
    if "b \<noteq> a" "h_ob (objs w b) = Some d" for b d
  proof -
    have "objs w' b = objs w b" using others [OF that(1)] extD(1) [OF e, of b] that(2) by simp
    then show ?thesis using that(2) by (simp add: peek_def field_of_def)
  qed
  note other = this
  show ?thesis unfolding tracked_change_def
  proof (intro conjI allI impI)
    show "set (notified w) \<subseteq> set (notified w')" "tracking w' = tracking w" using n extD(13,15) [OF e] by simp_all
    fix b d
    assume d: "h_ob (objs w b) = Some d"
    show "h_ob (objs w' b) = Some d" "h_kind (objs w' b) = h_kind (objs w b)"
      using other [OF _ d] a [of d] d by (cases "b = a", auto)+
    show "h_elems (objs w' b) = h_elems (objs w b) \<or> d \<in> set (notified w')" if "h_kind (objs w b) = ArrayKind"
      using other [OF _ d] a [of d] d that by (cases "b = a") auto
    show "peek w' b k = peek w b k \<or> (\<exists>p. field_dep w b k = Some p \<and> p \<in> set (notified w')) \<or>
        (d \<in> set (notified w') \<and> h_vmCount (objs w b) = 0)" if "h_kind (objs w b) = PlainKind" for k
      using other [OF _ d] a [of d] d that by (cases "b = a") auto
  qed
qed

lemma set_good:
  assumes r: "ready w" and w: "well_observed w" and ob: "h_ob (objs w a) \<noteq> None" and kind: "h_kind (objs w a) \<noteq> ArrayKind"
    and q: "f_slot q = Reactive d (ob_of w v) False v (Data u)" "f_configurable q" "child_ok w v"
  shows "ready (set_field a k q w) \<and> well_observed (set_field a k q w)"
proof -
  define w' where "w' = set_field a k q w"
  have m: "same_marks w w'" by (simp add: w'_def same_marks_def)
  have "good_field w' a k'" if "k' \<in> set (map fst (h_fields (objs w' a)))" for k'
  proof (cases "k' = k")
    case True
    have "field_of w' a k = Some q" by (simp add: w'_def field_of_set)
    then show ?thesis using True q m same_marks_child same_marks_ob unfolding good_field_def by metis
  next
    case False
    then have f: "field_of w' a k' = field_of w a k'" by (simp add: w'_def field_of_set)
    have "field_of w a k' \<noteq> None" using that field_keys [of w' a k'] f by simp
    then have "k' \<in> set (map fst (h_fields (objs w a)))" using field_keys by blast
    then have "good_field w a k'" using w ob kind unfolding well_observed_def good_obj_def by metis
    then show ?thesis using same_marks_field [OF m f] by simp
  qed
  then have g: "good_obj w' a" using kind by (simp add: good_obj_def w'_def)
  have 1: "well_observed w'" by (rule one_object [OF w m _ g]) (simp add: w'_def)
  have "distinct (map fst (h_fields (objs w' a)))"
    using r field_keys [of w a k] unfolding ready_def w'_def keys_set by auto
  then have 2: "ready w'" by (rule ready_one [OF r m, rotated 3]) (use ob in \<open>simp_all add: w'_def\<close>)
  show ?thesis using 1 2 by (simp add: w'_def)
qed

section \<open>What a write does\<close>

definition mutation_ok :: "world \<Rightarrow> world \<Rightarrow> bool" where
  "mutation_ok w w' \<longleftrightarrow> ready w' \<and> well_observed w' \<and> tracked_change w w'"

text \<open>An object that is not observed may change in any way that leaves it plain data.\<close>

lemma unobserved_ok:
  assumes "ready w" "well_observed w" "h_ob (objs w a) = None"
    and "same_marks w w'" "shouldObserve w' = shouldObserve w" "isServer w' = isServer w" "tracking w' = tracking w" "notified w' = notified w"
    and o: "\<And>b. b \<noteq> a \<Longrightarrow> objs w' b = objs w b" and d: "distinct (map fst (h_fields (objs w' a)))"
    and p: "\<And>k p. field_of w' a k = Some p \<Longrightarrow> (\<exists>v. f_slot p = Data v) \<and> (observable (objs w a) \<longrightarrow> f_configurable p)"
  shows "mutation_ok w w'"
  unfolding mutation_ok_def
proof (intro conjI)
  show "ready w'" by (rule ready_one [OF assms(1,4-6) _ d p]) (simp_all add: o)
  show "well_observed w'" by (rule one_object [where a = a, OF assms(2,4)]) (use o assms(3) in auto)
  show "tracked_change w w'" by (rule tracked_one [where a = a, OF ext_refl]) (use o assms(3,7,8) in auto)
qed

lemma assign_observed_ok:
  assumes r: "ready w" and w: "well_observed w" and ob: "h_ob (objs w a) = Some d0" and kind: "h_kind (objs w a) = PlainKind"
    and f: "field_of w a k \<noteq> None" and s: "assign E n a k v w = Some w'"
  shows "mutation_ok w w'"
proof -
  have "good_obj w a" using w ob by (simp add: well_observed_def)
  then have "good_field w a k" using f field_keys kind by (auto simp: good_obj_def)
  then obtain p d v0 u where p: "field_of w a k = Some p" "f_slot p = Reactive d (ob_of w v0) False v0 (Data u)" "f_configurable p" "child_ok w v0"
    unfolding good_field_def by blast
  show ?thesis
  proof (cases "same_value v v0")
    case True
    have q: "p\<lparr>f_slot := Reactive d (ob_of w v0) False v0 (Data u)\<rparr> = p" by (subst p(2) [symmetric]) simp
    have w': "w' = set_field a k p w" using s p True by (simp add: assign_def q)
    have "peek w' a k' = peek w a k'" for k' using p(1) by (simp add: w' peek_def field_of_set)
    then have "tracked_change w w'" by (intro tracked_one [OF ext_refl, of a]) (use ob in \<open>simp_all add: w'\<close>)
    then show ?thesis using set_good [OF r w _ _ p(2-4)] ob kind by (simp add: mutation_ok_def w')
  next
    case False
    then obtain c w3 where c: "observe_n n v w = Some (c, w3)" and
      w': "w' = set_field a k (p\<lparr>f_slot := Reactive d c False v (Data u)\<rparr>) (notify_dep d w3)"
      using s p by (auto simp: assign_def split: option.splits)
    have 1: "ext {} w w3" "newgood w w3" "c = ob_of w3 v" "child_ok w3 v" using observe.rec_ok [OF r c] by simp_all
    define w4 where "w4 = notify_dep d w3"
    have o4: "objs w4 = objs w3" by (simp add: w4_def)
    have r4: "ready w4" using ready_ext [OF r 1(1)] same_objs_ready [OF o4] by (simp add: w4_def)
    have g4: "well_observed w4" using well_observed_ext [OF w 1(1,2)] by (simp add: same_objs(5) [OF o4])
    have a4: "objs w4 a = objs w a" using extD(1) [OF 1(1), of a] ob o4 by simp
    have "ready w' \<and> well_observed w'" unfolding w' w4_def [symmetric]
      by (rule set_good [OF r4 g4]) (use ob kind a4 p(3) 1(3,4) same_objs(2,3) [OF o4] in simp_all)
    moreover have "tracked_change w w'"
    proof (rule tracked_one [OF 1(1), of a])
      fix d' assume d': "h_ob (objs w a) = Some d'"
      have dep: "field_dep w a k = Some d" using p by (simp add: field_dep_def)
      have "peek w' a k' = peek w a k'" if "k' \<noteq> k" for k'
        using that a4 by (simp add: w' w4_def [symmetric] peek_def field_of_set) (simp add: field_of_def)
      then have change: "peek w' a k' = peek w a k' \<or> (\<exists>p. field_dep w a k' = Some p \<and> p \<in> set (notified w'))" for k'
        using dep by (cases "k' = k") (auto simp: w')
      have "h_ob (objs w' a) = Some d'" "h_kind (objs w' a) = h_kind (objs w a)" using d' a4 by (simp_all add: w' w4_def [symmetric])
      with change show "h_ob (objs w' a) = Some d' \<and> h_kind (objs w' a) = h_kind (objs w a) \<and>
        (h_kind (objs w a) = ArrayKind \<longrightarrow> h_elems (objs w' a) = h_elems (objs w a) \<or> d' \<in> set (notified w')) \<and>
        (h_kind (objs w a) = PlainKind \<longrightarrow> (\<forall>k. peek w' a k = peek w a k \<or>
           (\<exists>p. field_dep w a k = Some p \<and> p \<in> set (notified w')) \<or> (d' \<in> set (notified w') \<and> h_vmCount (objs w a) = 0)))"
        using kind by (intro conjI) (simp_all, metis)
    qed (auto simp: w' w4_def)
    ultimately show ?thesis by (simp add: mutation_ok_def)
  qed
qed


lemma assign_unobserved_ok:
  assumes r: "ready w" and w: "well_observed w" and ob: "h_ob (objs w a) = None" and s: "assign E n a k v w = Some w'"
  shows "mutation_ok w w'"
proof (cases "field_of w a k")
  case (Some p)
  then obtain x where p: "f_slot p = Data x" "observable (objs w a) \<longrightarrow> f_configurable p"
    using r ob unfolding ready_def by metis
  then have w': "w' = set_field a k (p\<lparr>f_slot := Data v\<rparr>) w" using s Some by (auto simp: assign_def split: if_splits)
  have d: "distinct (map fst (h_fields (objs w' a)))" using r Some unfolding w' keys_set ready_def by simp
  show ?thesis
  proof (rule unobserved_ok [OF r w ob _ _ _ _ _ _ d])
    show "(\<exists>v. f_slot q = Data v) \<and> (observable (objs w a) \<longrightarrow> f_configurable q)" if "field_of w' a k' = Some q" for k' q
      using that p(2) r ob unfolding w' field_of_set ready_def by (auto split: if_splits)
  qed (simp_all add: w' same_marks_def)
next
  case None
  show ?thesis
  proof (cases "h_kind (objs w a) = ArrayKind \<and> k = ''length''")
    case True
    then obtain xs where w': "w' = upd_obj a (\<lambda>x. x\<lparr>h_elems := xs\<rparr>) w"
      using s None by (auto simp: assign_def assign_length_def upd_obj_def split: hval.splits jsval.splits jsnum.splits nat.splits if_splits)
    have d: "distinct (map fst (h_fields (objs w' a)))" using r unfolding w' upd_obj_def ready_def by simp
    show ?thesis
    proof (rule unobserved_ok [OF r w ob _ _ _ _ _ _ d])
      show "(\<exists>v. f_slot q = Data v) \<and> (observable (objs w a) \<longrightarrow> f_configurable q)" if "field_of w' a k' = Some q" for k' q
        using that r ob unfolding w' ready_def by (simp add: upd_obj_def field_of_def)
    qed (simp_all add: w' same_marks_def upd_obj_def observable_def)
  next
    case False
    then have w': "w' = set_field a k \<lparr>f_slot = Data v, f_configurable = True\<rparr> w"
      using s None by (auto simp: assign_def split: if_splits)
    have d: "distinct (map fst (h_fields (objs w' a)))" using r None field_keys [of w a k] unfolding w' keys_set ready_def by simp
    show ?thesis
    proof (rule unobserved_ok [OF r w ob _ _ _ _ _ _ d])
      show "(\<exists>v. f_slot q = Data v) \<and> (observable (objs w a) \<longrightarrow> f_configurable q)" if "field_of w' a k' = Some q" for k' q
        using that r ob unfolding w' field_of_set ready_def by (auto split: if_splits)
    qed (simp_all add: w' same_marks_def)
  qed
qed

lemma set_new_ok:
  assumes r: "ready w" and w: "well_observed w" and ob: "h_ob (objs w a) = Some d0" and kind: "h_kind (objs w a) = PlainKind"
    and vm: "h_vmCount (objs w a) = 0" and f: "field_of w a k = None"
    and s: "map_option (notify_dep d0) (defineReactive (observe_n n) a k (Some v) False w) = Some w'"
  shows "mutation_ok w w'"
proof -
  define w0 where "w0 = w\<lparr>next_dep := Suc (next_dep w)\<rparr>"
  have e0: "ext {} w w0" by (simp add: w0_def ext_def peek_def field_of_def)
  have f0: "field_of w0 a k = None" using f by (simp add: w0_def field_of_def)
  obtain c w3 where c: "observe_n n v w0 = Some (c, w3)" and
    w': "w' = notify_dep d0 (set_field a k \<lparr>f_slot = Reactive (next_dep w) c False v (Data v), f_configurable = True\<rparr> w3)"
    using s f0 unfolding defineReactive_def Let_def w0_def [symmetric] by (auto simp: initial_val_def split: option.splits if_splits)
  define w4 where "w4 = set_field a k \<lparr>f_slot = Reactive (next_dep w) c False v (Data v), f_configurable = True\<rparr> w3"
  have 1: "ext {} w0 w3" "newgood w0 w3" "c = ob_of w3 v" "child_ok w3 v" using observe.rec_ok [OF ready_ext [OF r e0] c] by simp_all
  have e: "ext {} w w3" by (rule ext_trans [OF e0 1(1)])
  have n: "newgood w w3" using 1(2) by (simp add: newgood_def w0_def)
  have a3: "objs w3 a = objs w a" using extD(1) [OF e, of a] ob by simp
  have "ready w4 \<and> well_observed w4" unfolding w4_def
    by (rule set_good [OF ready_ext [OF r e] well_observed_ext [OF w e n]]) (use ob kind a3 1(3,4) in simp_all)
  then have "ready w' \<and> well_observed w'" using same_objs(5) [of w' w4] same_objs_ready [of w' w4] by (simp add: w' w4_def)
  moreover have "tracked_change w w'"
  proof (rule tracked_one [where a = a, OF e])
    show "objs w' b = objs w3 b" if "b \<noteq> a" for b using that by (simp add: w')
  qed (use ob kind vm a3 in \<open>auto simp: w'\<close>)
  ultimately show ?thesis by (simp add: mutation_ok_def)
qed

lemma set_splice: "set (splice s d items xs) \<subseteq> set xs \<union> set items"
  unfolding splice_def Let_def using set_take_subset set_drop_subset by fastforce

lemma method_elems:
  assumes "case m of Sort f \<Rightarrow> set (f xs) \<subseteq> set xs | _ \<Rightarrow> True"
  shows "set (array_method m xs) \<subseteq> set xs \<union> set (inserted m)"
proof -
  have tl: "set (tl xs) \<subseteq> set xs" by (cases xs) auto
  show ?thesis using assms set_splice by (cases m) (auto dest: in_set_butlastD subsetD [OF tl])
qed

text \<open>The elements of an array change, in two parts: the change itself and the observation of what came in.\<close>

lemma elems_ok:
  assumes r: "ready w" and w: "well_observed w" and ob: "h_ob (objs w a) = Some d" and kind: "h_kind (objs w a) = ArrayKind"
    and xs: "set xs \<subseteq> set (h_elems (objs w a)) \<union> set new \<union> {Prim JUndef}"
    and o: "observeArray (observe_n n) new (upd_obj a (\<lambda>x. x\<lparr>h_elems := xs\<rparr>) w) = Some w1"
  shows "mutation_ok w (notify_dep d w1)"
proof -
  define w0 where "w0 = upd_obj a (\<lambda>x. x\<lparr>h_elems := xs\<rparr>) w"
  have m: "same_marks w w0" by (simp add: w0_def same_marks_def upd_obj_def observable_def)
  have w0: "objs w0 a = (objs w a)\<lparr>h_elems := xs\<rparr>" "\<And>b. b \<noteq> a \<Longrightarrow> objs w0 b = objs w b" by (simp_all add: w0_def upd_obj_def)
  have r0: "ready w0" by (rule ready_one [where a = a, OF r m]) (use r ob in \<open>auto simp: w0_def upd_obj_def ready_def\<close>)
  have 1: "ext {} w0 w1" "newgood w0 w1" "\<forall>x\<in>set new. child_ok w1 x"
    using observe.observeArray_ok [OF r0] o unfolding w0_def [symmetric] by simp_all
  have a1: "objs w1 a = (objs w a)\<lparr>h_elems := xs\<rparr>" using extD(1) [OF 1(1), of a] w0(1) ob by simp
  have old: "child_ok w1 x" if "x \<in> set (h_elems (objs w a))" for x
  proof -
    have "good_obj w a" using w ob by (simp add: well_observed_def)
    then have "child_ok w x" using that kind by (simp add: good_obj_def)
    then show ?thesis using child_ok_ext [OF _ 1(1)] same_marks_child [OF m] by simp
  qed
  have "child_ok w1 (Prim JUndef)" by (simp add: child_ok_def)
  then have ga: "good_obj w1 a" using old 1(3) xs kind a1 by (auto simp: good_obj_def)
  have g: "good_obj w1 b" if "h_ob (objs w1 b) \<noteq> None" for b
  proof (cases "b = a \<or> h_ob (objs w0 b) = None")
    case True
    then show ?thesis using ga 1(2) that by (auto simp: newgood_def)
  next
    case False
    then have "good_obj w b" using w w0(2) [of b] by (auto simp: well_observed_def)
    then have "good_obj w0 b" using same_marks_obj [OF m w0(2), of b] False by simp
    then show ?thesis using good_ext [OF _ 1(1)] extD(1) [OF 1(1), of b] False by simp
  qed
  have "well_observed (notify_dep d w1)" using g same_objs(5) [of "notify_dep d w1" w1] by (simp add: well_observed_def)
  moreover have "ready (notify_dep d w1)" using ready_ext [OF r0 1(1)] same_objs_ready [of "notify_dep d w1" w1] by simp
  moreover have "tracked_change w (notify_dep d w1)"
    unfolding tracked_change_def
  proof (intro conjI allI impI)
    show "set (notified w) \<subseteq> set (notified (notify_dep d w1))" using extD(15) [OF 1(1)] by (auto simp: w0_def upd_obj_def)
    show "tracking (notify_dep d w1) = tracking w" using extD(13) [OF 1(1)] by (simp add: w0_def upd_obj_def)
    fix b d'
    assume d': "h_ob (objs w b) = Some d'"
    have b: "objs w1 b = objs w b" if "b \<noteq> a" using w0(2) [OF that] extD(1) [OF 1(1), of b] d' by simp
    show "h_ob (objs (notify_dep d w1) b) = Some d'" "h_kind (objs (notify_dep d w1) b) = h_kind (objs w b)"
      using b a1 d' by (cases "b = a", simp_all)+
    show "h_elems (objs (notify_dep d w1) b) = h_elems (objs w b) \<or> d' \<in> set (notified (notify_dep d w1))"
      using b ob d' by (cases "b = a") simp_all
    show "peek (notify_dep d w1) b k = peek w b k \<or> (\<exists>p. field_dep w b k = Some p \<and> p \<in> set (notified (notify_dep d w1))) \<or>
        d' \<in> set (notified (notify_dep d w1)) \<and> h_vmCount (objs w b) = 0" for k
      using b a1 by (cases "b = a") (simp_all add: peek_def field_of_def)
  qed
  ultimately show ?thesis by (simp add: mutation_ok_def)
qed


lemma mutator_ok:
  assumes r: "ready w" and w: "well_observed w" and kind: "h_kind (objs w a) = ArrayKind"
    and m: "case m of Sort f \<Rightarrow> set (f (h_elems (objs w a))) \<subseteq> set (h_elems (objs w a)) | _ \<Rightarrow> True"
    and s: "mutator n a m w = Some w'"
  shows "mutation_ok w w'"
proof (cases "h_ob (objs w a)")
  case None
  then have w': "w' = upd_obj a (\<lambda>x. x\<lparr>h_elems := array_method m (h_elems x)\<rparr>) w"
    using s by (auto simp: mutator_def Let_def split: if_splits)
  have d: "distinct (map fst (h_fields (objs w' a)))" using r unfolding w' upd_obj_def ready_def by simp
  show ?thesis
  proof (rule unobserved_ok [OF r w None _ _ _ _ _ _ d])
    show "(\<exists>v. f_slot q = Data v) \<and> (observable (objs w a) \<longrightarrow> f_configurable q)" if "field_of w' a k' = Some q" for k' q
      using that r None unfolding w' ready_def by (simp add: upd_obj_def field_of_def)
  qed (simp_all add: w' same_marks_def upd_obj_def observable_def)
next
  case (Some d)
  define xs where "xs = array_method m (h_elems (objs w a))"
  have u: "upd_obj a (\<lambda>x. x\<lparr>h_elems := array_method m (h_elems x)\<rparr>) w = upd_obj a (\<lambda>x. x\<lparr>h_elems := xs\<rparr>) w"
    by (simp add: upd_obj_def xs_def)
  obtain w1 where o: "observeArray (observe_n n) (inserted m) (upd_obj a (\<lambda>x. x\<lparr>h_elems := xs\<rparr>) w) = Some w1" and w': "w' = notify_dep d w1"
    using s Some unfolding mutator_def Let_def u by (auto split: if_splits)
  have "set xs \<subseteq> set (h_elems (objs w a)) \<union> set (inserted m) \<union> {Prim JUndef}" using method_elems [OF m] unfolding xs_def by blast
  then show ?thesis unfolding w' by (rule elems_ok [OF r w Some kind _ o])
qed

text \<open>\<open>set\<close> with an index past the end first fills up the array.\<close>

lemma set_index_ok:
  assumes r: "ready w" and w: "well_observed w" and kind: "h_kind (objs w a) = ArrayKind"
    and s: "mutator n a (Splice i (Some 1) [v]) (upd_obj a (\<lambda>x. x\<lparr>h_elems := h_elems x @ replicate j (Prim JUndef)\<rparr>) w) = Some w'"
  shows "mutation_ok w w'"
proof -
  define w0 where "w0 = upd_obj a (\<lambda>x. x\<lparr>h_elems := h_elems x @ replicate j (Prim JUndef)\<rparr>) w"
  define xs where "xs = array_method (Splice i (Some 1) [v]) (h_elems (objs w a) @ replicate j (Prim JUndef))"
  have w0: "h_ob (objs w0 a) = h_ob (objs w a)" "h_elems (objs w0 a) = h_elems (objs w a) @ replicate j (Prim JUndef)"
    by (simp_all add: w0_def upd_obj_def)
  have u: "upd_obj a (\<lambda>x. x\<lparr>h_elems := array_method (Splice i (Some 1) [v]) (h_elems x)\<rparr>) w0 = upd_obj a (\<lambda>x. x\<lparr>h_elems := xs\<rparr>) w"
    by (simp add: w0_def upd_obj_def xs_def)
  show ?thesis
  proof (cases "h_ob (objs w a)")
    case None
    then have w': "w' = upd_obj a (\<lambda>x. x\<lparr>h_elems := xs\<rparr>) w"
      using s unfolding w0_def [symmetric] mutator_def Let_def u by (auto simp: w0 split: if_splits)
    have d: "distinct (map fst (h_fields (objs w' a)))" using r unfolding w' upd_obj_def ready_def by simp
    show ?thesis
    proof (rule unobserved_ok [OF r w None _ _ _ _ _ _ d])
      show "(\<exists>v. f_slot q = Data v) \<and> (observable (objs w a) \<longrightarrow> f_configurable q)" if "field_of w' a k' = Some q" for k' q
        using that r None unfolding w' ready_def by (simp add: upd_obj_def field_of_def)
    qed (simp_all add: w' same_marks_def upd_obj_def observable_def)
  next
    case (Some d)
    obtain w1 where o: "observeArray (observe_n n) [v] (upd_obj a (\<lambda>x. x\<lparr>h_elems := xs\<rparr>) w) = Some w1" and w': "w' = notify_dep d w1"
      using s Some unfolding w0_def [symmetric] mutator_def Let_def u by (auto simp: w0 split: if_splits)
    have "set xs \<subseteq> set (h_elems (objs w a) @ replicate j (Prim JUndef)) \<union> set [v]"
      using method_elems [where m = "Splice i (Some 1) [v]" and xs = "h_elems (objs w a) @ replicate j (Prim JUndef)"]
      unfolding xs_def by simp
    then have "set xs \<subseteq> set (h_elems (objs w a)) \<union> set [v] \<union> {Prim JUndef}" by auto
    then show ?thesis unfolding w' by (rule elems_ok [OF r w Some kind _ o])
  qed
qed

lemma set_ok:
  assumes r: "ready w" and w: "well_observed w" and a: "allowed E w (SetKey a key v)" and s: "set_1 E n (Ref a) key v w = Some w'"
  shows "mutation_ok w w'"
proof -
  define k where "k = js_String key"
  have refl: "mutation_ok w (warn w)"
  proof -
    have "tracked_change w (warn w)" by (rule ext_tracked) (simp add: ext_def warn_def peek_def field_of_def)
    then show ?thesis using r w same_objs(5) [of "warn w" w] same_objs_ready [of "warn w" w] by (simp add: mutation_ok_def warn_def)
  qed
  consider (idx) "h_kind (objs w a) = ArrayKind" | (unob) "h_kind (objs w a) \<noteq> ArrayKind" "h_ob (objs w a) = None"
    | (ob) d where "h_kind (objs w a) = PlainKind" "h_ob (objs w a) = Some d"
    using r unfolding ready_def by fastforce
  then show ?thesis
  proof cases
    case idx
    then have i: "isValidArrayIndex key" using a by simp
    define j where "j = array_index key - length (h_elems (objs w a))"
    have u: "upd_obj a (\<lambda>x. x\<lparr>h_elems := h_elems x @ replicate (array_index key - length (h_elems x)) (Prim JUndef)\<rparr>) w =
        upd_obj a (\<lambda>x. x\<lparr>h_elems := h_elems x @ replicate j (Prim JUndef)\<rparr>) w" by (simp add: upd_obj_def j_def)
    show ?thesis by (rule set_index_ok [OF r w idx]) (use s idx i u in \<open>simp add: set_1_def Let_def split: if_splits\<close>)
  next
    case unob
    then have "assign E n a k v w = Some w' \<or> w' = warn w" using s by (auto simp: set_1_def Let_def k_def split: if_splits)
    then show ?thesis using assign_unobserved_ok [OF r w unob(2)] refl by blast
  next
    case ob
    show ?thesis
    proof (cases "field_of w a k")
      case (Some p)
      then have "assign E n a k v w = Some w'" using s ob a by (auto simp: set_1_def Let_def k_def key_in_def split: if_splits)
      then show ?thesis by (rule assign_observed_ok [OF r w ob(2,1), rotated]) (simp add: Some)
    next
      case None
      then have "\<not> (key_in E w a k \<and> k \<notin> set object_prototype)" using ob a by (auto simp: key_in_def k_def)
      then have "w' = warn w \<or> (h_vmCount (objs w a) = 0 \<and>
          map_option (notify_dep d) (defineReactive (observe_n n) a k (Some v) False w) = Some w')"
        using s ob by (auto simp: set_1_def Let_def k_def split: if_splits)
      then show ?thesis using set_new_ok [OF r w ob(2,1) _ None] refl by blast
    qed
  qed
qed


lemma del_ok:
  assumes r: "ready w" and w: "well_observed w" and s: "del_1 n (Ref a) key w = Some w'"
  shows "mutation_ok w w'"
proof -
  define k where "k = js_String key"
  have refl: "mutation_ok w w2" if o: "objs w2 = objs w" "shouldObserve w2 = shouldObserve w" "isServer w2 = isServer w"
    "tracking w2 = tracking w" "notified w2 = notified w" for w2
  proof -
    have "tracked_change w w2" unfolding tracked_change_def using o same_objs(6) [OF o(1)] by simp
    then show ?thesis using r w same_objs(5) [OF o(1)] same_objs_ready [OF o(1-3)] by (simp add: mutation_ok_def)
  qed
  define w1 where "w1 = upd_obj a (\<lambda>x. x\<lparr>h_fields := filter (\<lambda>(k', _). k' \<noteq> k) (h_fields x)\<rparr>) w"
  have f: "field_of w1 a k' = (if k' = k then None else field_of w a k')" for k'
  proof -
    have "map_of (filter (\<lambda>(k', _). k' \<noteq> k) xs) k' = (if k' = k then None else map_of xs k')" for xs :: "(string \<times> field) list"
      by (induction xs) auto
    then show ?thesis by (simp add: field_of_def w1_def upd_obj_def)
  qed
  have m: "same_marks w w1" by (simp add: w1_def same_marks_def upd_obj_def observable_def)
  have others: "objs w1 b = objs w b" if "b \<noteq> a" for b using that by (simp add: w1_def upd_obj_def)
  have "distinct (map fst (filter (\<lambda>(k', _). k' \<noteq> k) (h_fields (objs w a))))" using r distinct_map_filter unfolding ready_def by blast
  then have d: "distinct (map fst (h_fields (objs w1 a)))" by (simp add: w1_def upd_obj_def)
  have cases: "(h_kind (objs w a) = ArrayKind \<and> mutator n a (Splice (int (array_index key)) (Some 1) []) w = Some w') \<or>
      (w' = warn w \<or> w' = w) \<or> (h_ob (objs w a) = None \<and> w' = w1) \<or>
      (\<exists>d. h_ob (objs w a) = Some d \<and> w' = notify_dep d w1 \<and> h_vmCount (objs w a) = 0)"
  proof (cases "h_kind (objs w a) = ArrayKind \<and> isValidArrayIndex key")
    case True
    then show ?thesis using s by (simp add: del_1_def)
  next
    case idx: False
    show ?thesis
    proof (cases "h_kind (objs w a) = VueKind \<or> (h_ob (objs w a) \<noteq> None \<and> 0 < h_vmCount (objs w a))")
      case True
      have "del_1 n (Ref a) key w = Some (warn w)" unfolding del_1_def hval.case Let_def by (simp only: idx True if_True if_False)
      then show ?thesis using s by simp
    next
      case False
      have d: "del_1 n (Ref a) key w = (case field_of w a k of None \<Rightarrow> Some w | Some p \<Rightarrow>
          if \<not> f_configurable p then None
          else (case h_ob (objs w a) of None \<Rightarrow> Some w1 | Some d \<Rightarrow> Some (notify_dep d w1)))"
        unfolding del_1_def hval.case Let_def k_def w1_def by (simp only: idx False if_False)
      show ?thesis
      proof (cases "field_of w a k")
        case None
        then show ?thesis using s unfolding d by simp
      next
        case (Some p)
        then have c: "f_configurable p" using s unfolding d by (simp split: if_splits)
        show ?thesis
        proof (cases "h_ob (objs w a)")
          case None
          have "w' = w1" using s unfolding d Some None by (simp add: c)
          then show ?thesis using None by blast
        next
          case ob: (Some d0)
          have "w' = notify_dep d0 w1" using s unfolding d Some ob by (simp add: c)
          moreover have "h_vmCount (objs w a) = 0" using False ob by simp
          ultimately show ?thesis using ob by blast
        qed
      qed
    qed
  qed
  then show ?thesis
  proof (elim disjE exE conjE)
    assume idx: "h_kind (objs w a) = ArrayKind" "mutator n a (Splice (int (array_index key)) (Some 1) []) w = Some w'"
    show ?thesis using mutator_ok [OF r w idx(1) _ idx(2)] by simp
  next
    assume "w' = warn w"
    then show ?thesis using refl [of w'] by (simp add: warn_def)
  next
    assume "w' = w"
    then show ?thesis using refl [of w] by simp
  next
    assume unob: "h_ob (objs w a) = None" "w' = w1"
    show ?thesis unfolding unob(2)
    proof (rule unobserved_ok [OF r w unob(1) m _ _ _ _ others d])
      show "(\<exists>v. f_slot q = Data v) \<and> (observable (objs w a) \<longrightarrow> f_configurable q)" if "field_of w1 a k' = Some q" for k' q
        using that r unob(1) unfolding f ready_def by (auto split: if_splits)
    qed (simp_all add: w1_def upd_obj_def)
  next
    fix d0
    assume ob: "h_ob (objs w a) = Some d0" "w' = notify_dep d0 w1" "h_vmCount (objs w a) = 0"
    have "good_obj w a" using w ob(1) by (simp add: well_observed_def)
    then have g: "good_obj w1 a"
    proof (cases "h_kind (objs w a) = ArrayKind")
      case True
      then show ?thesis using \<open>good_obj w a\<close> same_marks_child [OF m] by (simp add: good_obj_def w1_def upd_obj_def)
    next
      case False
      have "good_field w1 a k'" if "k' \<in> set (map fst (h_fields (objs w1 a)))" for k'
      proof -
        have "k' \<noteq> k" "k' \<in> set (map fst (h_fields (objs w a)))" using that by (auto simp: w1_def upd_obj_def)
        then show ?thesis using \<open>good_obj w a\<close> False same_marks_field [OF m, of a k'] f by (auto simp: good_obj_def)
      qed
      then show ?thesis using False by (simp add: good_obj_def w1_def upd_obj_def)
    qed
    have w1: "well_observed w1" by (rule one_object [where a = a, OF w m]) (use others g in auto)
    have r1: "ready w1" by (rule ready_one [where a = a, OF r m]) (use others d ob(1) in \<open>auto simp: w1_def upd_obj_def\<close>)
    have "tracked_change w w'"
      by (rule tracked_one [where a = a, OF ext_refl]) (use others ob in \<open>auto simp: w1_def upd_obj_def\<close>)
    then show ?thesis using w1 r1 same_objs(5) [of w' w1] same_objs_ready [of w' w1] by (simp add: mutation_ok_def ob(2))
  qed
qed

lemma mutation_effect:
  assumes "ready w" "well_observed w" "allowed E w m" "apply_mutation E n m w = Some w'"
  shows "mutation_ok w w'"
proof (cases m)
  case (Assign a k v)
  then show ?thesis using assms assign_unobserved_ok [OF assms(1,2), of a E n k v w'] assign_observed_ok [OF assms(1,2), of a _ k E n v w']
    by (cases "h_ob (objs w a)") auto
next
  case (SetKey a key v)
  then show ?thesis using assms set_ok [OF assms(1,2)] by simp
next
  case (DelKey a key)
  then show ?thesis using assms del_ok [OF assms(1,2)] by simp
next
  case (Call a m')
  then show ?thesis using assms mutator_ok [OF assms(1,2)] by auto
qed

fun apply_all :: "env \<Rightarrow> nat \<Rightarrow> mutation list \<Rightarrow> world \<Rightarrow> world option" where
  "apply_all E n [] w = Some w"
| "apply_all E n (m # ms) w =
     (if allowed E w m then (case apply_mutation E n m w of None \<Rightarrow> None | Some w1 \<Rightarrow> apply_all E n ms w1) else None)"

text \<open>
  C6. Observed data stays observed: after any sequence of writes through the interface (assignments,
  \<open>set\<close>, \<open>del\<close>, array methods) every observed object has a getter and setter for each of its
  properties, every value reachable from it through observable objects is observed, and \<open>childOb\<close> of
  a property is the observer of the value it has now.
\<close>

theorem data_stays_observed:
  "ready w \<Longrightarrow> well_observed w \<Longrightarrow> apply_all E n ms w = Some w' \<Longrightarrow> ready w' \<and> well_observed w'"
proof (induction ms arbitrary: w)
  case (Cons m ms)
  obtain w1 where m: "allowed E w m" "apply_mutation E n m w = Some w1" "apply_all E n ms w1 = Some w'"
    using Cons.prems(3) by (auto split: if_splits option.splits)
  then have "mutation_ok w w1" using mutation_effect [OF Cons.prems(1,2)] by blast
  then show ?case using Cons.IH [OF _ _ m(3)] by (simp add: mutation_ok_def)
qed simp


section \<open>Reads\<close>

text \<open>
  A read follows a path: a property of an object, an element of an array or its length. \<open>None\<close>: the
  read throws or leaves the objects.
\<close>

datatype selector = Field string | Elem nat | Len

definition read_step :: "env \<Rightarrow> nat \<Rightarrow> hval \<Rightarrow> selector \<Rightarrow> world \<Rightarrow> (hval \<times> world) option" where
  "read_step E n v s w =
     (case v of
        Prim _ \<Rightarrow> None
      | Ref a \<Rightarrow>
          (case s of
             Field k \<Rightarrow>
               (case field_of w a k of
                  Some p \<Rightarrow> get_slot E n a k (f_slot p) w
                | None \<Rightarrow> Some (case e_inherited E a k of Some x \<Rightarrow> x | None \<Rightarrow> Prim JUndef, w))
           | Elem i \<Rightarrow>
               if h_kind (objs w a) = ArrayKind then
                 Some (if i < length (h_elems (objs w a)) then h_elems (objs w a) ! i else Prim JUndef, w)
               else None
           | Len \<Rightarrow>
               if h_kind (objs w a) = ArrayKind then Some (Prim (JNum (Dec (int (length (h_elems (objs w a)))) 0)), w) else None))"

primrec read_path :: "env \<Rightarrow> nat \<Rightarrow> hval \<Rightarrow> selector list \<Rightarrow> world \<Rightarrow> (hval \<times> world) option" where
  "read_path E n v [] w = Some (v, w)"
| "read_path E n v (s # ss) w = (case read_step E n v s w of None \<Rightarrow> None | Some (v1, w1) \<Rightarrow> read_path E n v1 ss w1)"

text \<open>The path stays in observed data (and reads properties of plain objects only, own ones or missing ones).\<close>

primrec in_observed :: "env \<Rightarrow> nat \<Rightarrow> hval \<Rightarrow> selector list \<Rightarrow> world \<Rightarrow> bool" where
  "in_observed E n v [] w \<longleftrightarrow> True"
| "in_observed E n v (s # ss) w \<longleftrightarrow>
     (case v of
        Prim _ \<Rightarrow> False
      | Ref a \<Rightarrow>
          h_ob (objs w a) \<noteq> None \<and>
          (case s of Field k \<Rightarrow> h_kind (objs w a) = PlainKind \<and> (field_of w a k = None \<longrightarrow> e_inherited E a k = None) | _ \<Rightarrow> True)) \<and>
     (case read_step E n v s w of None \<Rightarrow> False | Some (v1, w1) \<Rightarrow> in_observed E n v1 ss w1)"

text \<open>\<open>T\<close> has the deps of the elements of an array, at every depth.\<close>

inductive elems_cov :: "world \<Rightarrow> nat set \<Rightarrow> nat \<Rightarrow> bool" for w T where
  "(\<And>b. Ref b \<in> set (h_elems (objs w a)) \<Longrightarrow>
     (\<forall>d. h_ob (objs w b) = Some d \<longrightarrow> d \<in> T) \<and> (h_kind (objs w b) = ArrayKind \<longrightarrow> elems_cov w T b)) \<Longrightarrow> elems_cov w T a"

inductive_cases elems_covE: "elems_cov w T a"

definition cov :: "world \<Rightarrow> nat set \<Rightarrow> hval \<Rightarrow> bool" where
  "cov w T v \<longleftrightarrow>
     (\<forall>a d. v = Ref a \<longrightarrow> h_ob (objs w a) = Some d \<longrightarrow>
        (d \<in> T \<or> (0 < h_vmCount (objs w a) \<and> h_kind (objs w a) = PlainKind)) \<and>
        (h_kind (objs w a) = ArrayKind \<longrightarrow> elems_cov w T a))"

lemma elems_cov_mono: "elems_cov w T a \<Longrightarrow> T \<subseteq> T' \<Longrightarrow> elems_cov w T' a"
proof (induction rule: elems_cov.induct)
  case (1 a)
  show ?case
  proof (rule elems_cov.intros)
    fix b
    assume "Ref b \<in> set (h_elems (objs w a))"
    then show "(\<forall>d. h_ob (objs w b) = Some d \<longrightarrow> d \<in> T') \<and> (h_kind (objs w b) = ArrayKind \<longrightarrow> elems_cov w T' b)"
      using 1(1) [of b] 1(2) by blast
  qed
qed

lemma elems_cov_objs: "elems_cov w T a \<Longrightarrow> objs w' = objs w \<Longrightarrow> elems_cov w' T a"
proof (induction rule: elems_cov.induct)
  case (1 a)
  show ?case
  proof (rule elems_cov.intros)
    fix b
    assume "Ref b \<in> set (h_elems (objs w' a))"
    then show "(\<forall>d. h_ob (objs w' b) = Some d \<longrightarrow> d \<in> T) \<and> (h_kind (objs w' b) = ArrayKind \<longrightarrow> elems_cov w' T b)"
      using 1(1) [of b] 1(2) by simp
  qed
qed

text \<open>A dependency only adds to the log.\<close>

definition log_ext :: "world \<Rightarrow> world \<Rightarrow> bool" where
  "log_ext w w' \<longleftrightarrow> objs w' = objs w \<and> tracking w' = tracking w \<and> set (touched w) \<subseteq> set (touched w')"

lemma log_refl: "log_ext w w"
  by (simp add: log_ext_def)

lemma log_trans: "log_ext w w1 \<Longrightarrow> log_ext w1 w2 \<Longrightarrow> log_ext w w2"
  by (auto simp: log_ext_def)

lemma log_depend: "log_ext w (depend d w)" "tracking w \<Longrightarrow> d \<in> set (touched (depend d w))"
  by (auto simp: log_ext_def depend_def)

lemma each_elem_cov:
  assumes rec: "\<And>b w w'. rec b w = Some w' \<Longrightarrow> tracking w \<Longrightarrow> log_ext w w' \<and> elems_cov w' (set (touched w')) b"
  shows "each_elem rec es w = Some w' \<Longrightarrow> tracking w \<Longrightarrow>
    log_ext w w' \<and> (\<forall>b. Ref b \<in> set es \<longrightarrow>
      (\<forall>d. h_ob (objs w b) = Some d \<longrightarrow> d \<in> set (touched w')) \<and> (h_kind (objs w b) = ArrayKind \<longrightarrow> elems_cov w' (set (touched w')) b))"
proof (induction es arbitrary: w)
  case (Cons e es)
  define w1 where "w1 = (case ob_of w e of Some d \<Rightarrow> depend d w | None \<Rightarrow> w)"
  have 1: "log_ext w w1" "\<And>d. ob_of w e = Some d \<Longrightarrow> d \<in> set (touched w1)"
    using log_refl log_depend Cons.prems(2) by (auto simp: w1_def split: option.split)
  obtain w2 where w2: "(case e of Ref b \<Rightarrow> if h_kind (objs w b) = ArrayKind then rec b w1 else Some w1 | Prim _ \<Rightarrow> Some w1) = Some w2"
    and rest: "each_elem rec es w2 = Some w'"
    using Cons.prems(1) unfolding each_elem.simps Let_def w1_def [symmetric] by (auto split: option.splits)
  have t1: "tracking w1" using 1(1) Cons.prems(2) by (simp add: log_ext_def)
  have 2: "log_ext w1 w2" "\<And>b. e = Ref b \<Longrightarrow> h_kind (objs w b) = ArrayKind \<Longrightarrow> elems_cov w2 (set (touched w2)) b"
    using w2 rec [OF _ t1] log_refl by (auto split: hval.splits if_splits)
  have t2: "tracking w2" using 2(1) t1 by (simp add: log_ext_def)
  have o: "objs w2 = objs w" "objs w1 = objs w" using 1(1) 2(1) by (simp_all add: log_ext_def)
  have 3: "log_ext w2 w'" and tail: "Ref b \<in> set es \<Longrightarrow> (\<forall>d. h_ob (objs w b) = Some d \<longrightarrow> d \<in> set (touched w')) \<and>
      (h_kind (objs w b) = ArrayKind \<longrightarrow> elems_cov w' (set (touched w')) b)" for b
    using Cons.IH [OF rest t2] o by simp_all
  have sub: "set (touched w1) \<subseteq> set (touched w')" "set (touched w2) \<subseteq> set (touched w')" "objs w' = objs w2"
    using 2(1) 3 by (auto simp: log_ext_def)
  have "(\<forall>d. h_ob (objs w b) = Some d \<longrightarrow> d \<in> set (touched w')) \<and> (h_kind (objs w b) = ArrayKind \<longrightarrow> elems_cov w' (set (touched w')) b)"
    if "Ref b \<in> set (e # es)" for b
  proof (cases "e = Ref b")
    case True
    have "elems_cov w' (set (touched w')) b" if "h_kind (objs w b) = ArrayKind"
      using elems_cov_objs [OF elems_cov_mono [OF 2(2) [OF True that] sub(2)] sub(3)] .
    then show ?thesis using 1(2) sub(1) True by (auto simp: ob_of_def)
  next
    case False
    then show ?thesis using tail that by auto
  qed
  then show ?case using log_trans [OF log_trans [OF 1(1) 2(1)] 3] by blast
qed (simp add: log_refl)

lemma dependArray_cov: "dependArray n a w = Some w' \<Longrightarrow> tracking w \<Longrightarrow> log_ext w w' \<and> elems_cov w' (set (touched w')) a"
proof (induction n arbitrary: a w w')
  case (Suc n)
  have 1: "log_ext w w' \<and> (\<forall>b. Ref b \<in> set (h_elems (objs w a)) \<longrightarrow>
      (\<forall>d. h_ob (objs w b) = Some d \<longrightarrow> d \<in> set (touched w')) \<and> (h_kind (objs w b) = ArrayKind \<longrightarrow> elems_cov w' (set (touched w')) b))"
    using each_elem_cov [of "dependArray n", OF Suc.IH] Suc.prems by simp
  then have "objs w' = objs w" by (simp add: log_ext_def)
  then have "elems_cov w' (set (touched w')) a" using 1 by (intro elems_cov.intros) simp
  then show ?case using 1 by blast
qed simp


lemma depend_read_cov:
  assumes d: "depend_read n dep (ob_of w v) v wt = Some wt1" and o: "objs wt = objs w" and t: "tracking wt"
    and T: "set (touched wt1) \<subseteq> T"
  shows "log_ext wt wt1 \<and> dep \<in> T \<and> cov w T v"
proof (cases "ob_of w v")
  case None
  then have w1: "wt1 = depend dep wt" using d t by (simp add: depend_read_def Let_def)
  have "cov w T v" using None by (auto simp: cov_def ob_of_def)
  then show ?thesis using log_depend [of wt dep] t T by (auto simp: w1)
next
  case (Some c)
  then obtain a where v: "v = Ref a" and a: "h_ob (objs w a) = Some c" by (cases v) (simp_all add: ob_of_def)
  define w2 where "w2 = depend c (depend dep wt)"
  have 2: "log_ext wt w2" using log_trans [OF log_depend(1) log_depend(1)] by (simp add: w2_def)
  have t1: "tracking (depend dep wt)" using log_depend(1) [of wt dep] t by (simp add: log_ext_def)
  have in2: "c \<in> set (touched w2)" "dep \<in> set (touched w2)"
    using log_depend(2) [OF t1] log_depend(2) [OF t, of dep] log_depend(1) [of "depend dep wt" c] by (auto simp: w2_def log_ext_def)
  have o2: "objs w2 = objs w" "tracking w2" using 2 o t by (simp_all add: log_ext_def)
  have "(if h_kind (objs w2 a) = ArrayKind then dependArray n a w2 else Some w2) = Some wt1"
    using d t Some unfolding depend_read_def Let_def w2_def v by simp
  then have 3: "log_ext w2 wt1 \<and> (h_kind (objs w a) = ArrayKind \<longrightarrow> elems_cov wt1 (set (touched wt1)) a)"
    using dependArray_cov [OF _ o2(2)] log_refl o2(1) by (auto split: if_splits)
  have o1: "objs w = objs wt1" using 3 o2(1) by (simp add: log_ext_def)
  have sub: "set (touched w2) \<subseteq> T" using 3 T by (auto simp: log_ext_def)
  have "elems_cov w T a" if "h_kind (objs w a) = ArrayKind"
    using 3 that elems_cov_objs [OF elems_cov_mono [OF _ T] o1] by blast
  then have "cov w T v" using a in2(1) sub by (auto simp: cov_def v)
  then show ?thesis using log_trans [OF 2] 3 in2(2) sub by blast
qed

text \<open>One step of the read: what it finds is covered, and it finds the same after the write.\<close>

lemma observed_field:
  assumes "well_observed w" "h_ob (objs w a) \<noteq> None" "h_kind (objs w a) = PlainKind" "field_of w a k = Some p"
  obtains d v u where "f_slot p = Reactive d (ob_of w v) False v (Data u)"
proof -
  have "k \<in> set (map fst (h_fields (objs w a)))" using assms(4) field_keys [of w a k] by simp
  then have "good_field w a k" using assms(1-3) by (auto simp: well_observed_def good_obj_def)
  then show ?thesis using that assms(4) by (auto simp: good_field_def)
qed

lemma step_covered:
  assumes w: "well_observed w" and o: "objs wt = objs w" and t: "tracking wt" and r: "read_step E n v s wt = Some (v1, wt1)"
    and v: "v = Ref a" "h_ob (objs w a) = Some d0" and c: "cov w T v" and T: "set (touched wt1) \<subseteq> T"
    and f: "case s of Field k \<Rightarrow> h_kind (objs w a) = PlainKind \<and> (field_of w a k = None \<longrightarrow> e_inherited E a k = None) | _ \<Rightarrow> True"
    and m: "tracked_change w w'" "well_observed w'" and dis: "T \<inter> set (notified w') = {}"
  shows "log_ext wt wt1 \<and> cov w T v1 \<and> read_step E n v s (w'\<lparr>tracking := False\<rparr>) = Some (v1, w'\<lparr>tracking := False\<rparr>)"
proof -
  have ch: "h_ob (objs w' a) = Some d0" "h_kind (objs w' a) = h_kind (objs w a)"
    "h_kind (objs w a) = ArrayKind \<longrightarrow> h_elems (objs w' a) = h_elems (objs w a) \<or> d0 \<in> set (notified w')"
    "h_kind (objs w a) = PlainKind \<longrightarrow> (\<forall>k. peek w' a k = peek w a k \<or>
           (\<exists>p. field_dep w a k = Some p \<and> p \<in> set (notified w')) \<or> (d0 \<in> set (notified w') \<and> h_vmCount (objs w a) = 0))"
    using m(1) v(2) unfolding tracked_change_def by blast+
  have d0: "d0 \<in> T \<or> (0 < h_vmCount (objs w a) \<and> h_kind (objs w a) = PlainKind)" using c v by (auto simp: cov_def)
  have arr: "h_elems (objs w' a) = h_elems (objs w a)" if "h_kind (objs w a) = ArrayKind"
    using ch(3) that d0 dis by auto
  show ?thesis
  proof (cases s)
    case (Field k)
    then have plain: "h_kind (objs w a) = PlainKind" and inh: "field_of w a k = None \<longrightarrow> e_inherited E a k = None" using f by simp_all
    have chk: "peek w' a k = peek w a k \<or> (\<exists>p. field_dep w a k = Some p \<and> p \<in> set (notified w')) \<or>
        (d0 \<in> set (notified w') \<and> h_vmCount (objs w a) = 0)" using ch(4) plain by blast
    show ?thesis
    proof (cases "field_of w a k")
      case None
      then have "field_dep w a k = None" "peek w a k = None" by (simp_all add: field_dep_def peek_def)
      then have "peek w' a k = None" using chk d0 dis by auto
      then have "field_of w' a k = None" by (simp add: peek_def)
      then show ?thesis using r v Field None inh o by (auto simp: read_step_def field_of_def log_refl cov_def)
    next
      case (Some p)
      obtain d v0 u where p: "f_slot p = Reactive d (ob_of w v0) False v0 (Data u)"
        by (rule observed_field [OF w _ plain Some]) (use v(2) in simp_all)
      have fd: "field_dep w a k = Some d" "peek w a k = Some v0" using p Some by (simp_all add: field_dep_def peek_def)
      have "field_of wt a k = Some p" using Some o by (simp add: field_of_def)
      then have gs: "get_slot E n a k (f_slot p) wt = Some (v1, wt1)" using r v Field by (simp add: read_step_def)
      have v1: "v1 = v0" and dr: "depend_read n d (ob_of w v0) v0 wt = Some wt1" using gs unfolding p by auto
      have 1: "log_ext wt wt1 \<and> d \<in> T \<and> cov w T v0" by (rule depend_read_cov [OF dr o t T])
      then have "peek w' a k = Some v0" using chk d0 dis fd by auto
      then obtain p' where p': "field_of w' a k = Some p'" "raw (f_slot p') = v0" by (auto simp: peek_def)
      obtain d' v2 u' where "f_slot p' = Reactive d' (ob_of w' v2) False v2 (Data u')"
        by (rule observed_field [OF m(2) _ _ p'(1)]) (use ch(1,2) plain in simp_all)
      then have "f_slot p' = Reactive d' (ob_of w' v0) False v0 (Data u')" using p'(2) by simp
      moreover have "field_of (w'\<lparr>tracking := False\<rparr>) a k = Some p'" using p'(1) by (simp add: field_of_def)
      ultimately show ?thesis using 1 v Field by (simp add: read_step_def depend_read_def v1)
    qed
  next
    case (Elem i)
    then have k: "h_kind (objs w a) = ArrayKind" using r v o by (auto simp: read_step_def split: if_splits)
    have v1: "v1 = (if i < length (h_elems (objs w a)) then h_elems (objs w a) ! i else Prim JUndef)" "wt1 = wt"
      using r v o k Elem by (auto simp: read_step_def split: if_splits)
    have ec: "elems_cov w T a" using c v k by (auto simp: cov_def)
    have "cov w T v1"
    proof (cases v1)
      case (Ref b)
      then have "i < length (h_elems (objs w a))" "h_elems (objs w a) ! i = Ref b" using v1(1) by (auto split: if_splits)
      then have "Ref b \<in> set (h_elems (objs w a))" using nth_mem by metis
      then have "(\<forall>d. h_ob (objs w b) = Some d \<longrightarrow> d \<in> T) \<and> (h_kind (objs w b) = ArrayKind \<longrightarrow> elems_cov w T b)"
        using ec by (blast elim: elems_covE)
      then show ?thesis by (simp add: cov_def Ref)
    qed (simp add: cov_def)
    then show ?thesis using v Elem k ch(2) arr by (simp add: read_step_def v1 log_refl)
  next
    case Len
    then have k: "h_kind (objs w a) = ArrayKind" using r v o by (auto simp: read_step_def split: if_splits)
    then have v1: "v1 = Prim (JNum (Dec (int (length (h_elems (objs w a)))) 0))" "wt1 = wt"
      using r v o Len by (simp_all add: read_step_def)
    then show ?thesis using v Len k ch(2) arr by (simp add: read_step_def log_refl cov_def)
  qed
qed

lemma step_log:
  assumes w: "well_observed w" and o: "objs wt = objs w" and t: "tracking wt" and r: "read_step E n v s wt = Some (v1, wt1)"
    and v: "v = Ref a" "h_ob (objs w a) = Some d0" and f: "case s of Field k \<Rightarrow> h_kind (objs w a) = PlainKind | _ \<Rightarrow> True"
  shows "log_ext wt wt1"
proof (cases "\<exists>k p. s = Field k \<and> field_of w a k = Some p")
  case True
  then obtain k p where k: "s = Field k" "field_of w a k = Some p" by blast
  have plain: "h_kind (objs w a) = PlainKind" using f k by simp
  obtain d v0 u where p: "f_slot p = Reactive d (ob_of w v0) False v0 (Data u)"
    by (rule observed_field [OF w _ plain k(2)]) (use v(2) in simp_all)
  have "field_of wt a k = Some p" using k(2) o by (simp add: field_of_def)
  then have gs: "get_slot E n a k (f_slot p) wt = Some (v1, wt1)" using r v k by (simp add: read_step_def)
  have dr: "depend_read n d (ob_of w v0) v0 wt = Some wt1" using gs unfolding p by auto
  then show ?thesis using depend_read_cov [OF dr o t subset_refl] by blast
next
  case False
  have f: "field_of wt = field_of w" by (rule same_objs(1) [OF o])
  show ?thesis using r v False o by (cases s) (auto simp: read_step_def f log_refl split: option.splits if_splits)
qed

lemma path_log:
  "read_path E n v ss wt = Some (r, wt') \<Longrightarrow> in_observed E n v ss wt \<Longrightarrow> well_observed w \<Longrightarrow> objs wt = objs w \<Longrightarrow> tracking wt \<Longrightarrow>
   log_ext wt wt'"
proof (induction ss arbitrary: v wt)
  case (Cons s ss)
  obtain v1 wt1 where s: "read_step E n v s wt = Some (v1, wt1)" and rest: "read_path E n v1 ss wt1 = Some (r, wt')"
    using Cons.prems(1) by (auto split: option.splits)
  obtain a d0 where v: "v = Ref a" "h_ob (objs w a) = Some d0" and f: "case s of Field k \<Rightarrow> h_kind (objs w a) = PlainKind | _ \<Rightarrow> True"
    using Cons.prems(2,4) by (auto split: hval.splits selector.splits)
  have 1: "log_ext wt wt1" by (rule step_log [OF Cons.prems(3-5) s v f])
  have "log_ext wt1 wt'"
    by (rule Cons.IH [OF rest _ Cons.prems(3)]) (use Cons.prems(2,4,5) s 1 in \<open>simp_all add: log_ext_def\<close>)
  then show ?case using log_trans [OF 1] by blast
qed (simp add: log_refl)

lemma path_same:
  assumes w: "well_observed w" and m: "tracked_change w w'" "well_observed w'" and dis: "T \<inter> set (notified w') = {}"
  shows "read_path E n v ss wt = Some (r, wt') \<Longrightarrow> in_observed E n v ss wt \<Longrightarrow> objs wt = objs w \<Longrightarrow> tracking wt \<Longrightarrow> cov w T v \<Longrightarrow>
    set (touched wt') \<subseteq> T \<Longrightarrow> read_path E n v ss (w'\<lparr>tracking := False\<rparr>) = Some (r, w'\<lparr>tracking := False\<rparr>)"
proof (induction ss arbitrary: v wt)
  case (Cons s ss)
  obtain v1 wt1 where s: "read_step E n v s wt = Some (v1, wt1)" and rest: "read_path E n v1 ss wt1 = Some (r, wt')"
    using Cons.prems(1) by (auto split: option.splits)
  have fo: "field_of wt = field_of w" by (rule same_objs(1) [OF Cons.prems(3)])
  obtain a d0 where v: "v = Ref a" "h_ob (objs w a) = Some d0" and
    f: "case s of Field k \<Rightarrow> h_kind (objs w a) = PlainKind \<and> (field_of w a k = None \<longrightarrow> e_inherited E a k = None) | _ \<Rightarrow> True"
    using Cons.prems(2,3) by (auto simp: fo split: hval.splits selector.splits)
  have f': "case s of Field k \<Rightarrow> h_kind (objs w a) = PlainKind | _ \<Rightarrow> True" using f by (cases s) simp_all
  have 1: "log_ext wt wt1" by (rule step_log [OF w Cons.prems(3,4) s v f'])
  have o1: "objs wt1 = objs w" "tracking wt1" using 1 Cons.prems(3,4) by (simp_all add: log_ext_def)
  have i1: "in_observed E n v1 ss wt1" using Cons.prems(2) s by simp
  have "log_ext wt1 wt'" by (rule path_log [OF rest i1 w o1])
  then have T: "set (touched wt1) \<subseteq> T" using Cons.prems(6) by (auto simp: log_ext_def)
  have 2: "cov w T v1" "read_step E n v s (w'\<lparr>tracking := False\<rparr>) = Some (v1, w'\<lparr>tracking := False\<rparr>)"
    using step_covered [OF w Cons.prems(3,4) s v Cons.prems(5) T f m dis] by simp_all
  show ?case using Cons.IH [OF rest i1 o1 2(1) Cons.prems(6)] 2(2) by simp
qed simp

text \<open>
  C5. Change detection is complete: a tracked read starts at the root of a component's data and goes
  through observed objects and arrays, to a value, a missing property or the length of an array. A
  write (an assignment, \<open>set\<close>, \<open>del\<close> or an array method, on any object of the heap, whoever shares it)
  that notifies none of the deps the read depends on does not change what it reads.
\<close>

theorem unnotified_write_unseen:
  assumes "ready w" "well_observed w" "notified w = []"
    and root: "h_ob (objs w r) \<noteq> None" "h_kind (objs w r) = PlainKind" "0 < h_vmCount (objs w r)"
    and read: "read_path E n (Ref r) ss (w\<lparr>tracking := True, touched := []\<rparr>) = Some (v, wr)"
    and inside: "in_observed E n (Ref r) ss (w\<lparr>tracking := True, touched := []\<rparr>)"
    and change: "allowed E w m" "apply_mutation E k m w = Some w'"
    and unnotified: "set (touched wr) \<inter> set (notified w') = {}"
  shows "read_path E n (Ref r) ss (w'\<lparr>tracking := False\<rparr>) = Some (v, w'\<lparr>tracking := False\<rparr>)"
proof -
  have m: "tracked_change w w'" "well_observed w'" using mutation_effect [OF assms(1,2) change] by (simp_all add: mutation_ok_def)
  have "cov w (set (touched wr)) (Ref r)" using root by (auto simp: cov_def)
  then show ?thesis using path_same [OF assms(2) m unnotified read inside] by simp
qed


section \<open>An example\<close>

text \<open>\<open>data = {items: [{x: true}], other: null}\<close>, observed as the root data of one component\<close>

definition other_obj :: hobj where
  "other_obj = \<lparr>h_kind = OtherKind, h_elems = [], h_fields = [], h_extensible = True, h_frozen = False, h_ob = None, h_vmCount = 0\<rparr>"

definition reactive_field :: "nat \<Rightarrow> nat option \<Rightarrow> hval \<Rightarrow> field" where
  "reactive_field d c v = \<lparr>f_slot = Reactive d c False v (Data v), f_configurable = True\<rparr>"

definition ex_world :: world where
  "ex_world = \<lparr>objs = (\<lambda>_. other_obj)(
       0 := other_obj\<lparr>h_kind := PlainKind, h_ob := Some 0, h_vmCount := 1,
              h_fields := [(''items'', reactive_field 10 (Some 1) (Ref 1)), (''other'', reactive_field 11 None (Prim JNull))]\<rparr>,
       1 := other_obj\<lparr>h_kind := ArrayKind, h_ob := Some 1, h_elems := [Ref 2]\<rparr>,
       2 := other_obj\<lparr>h_kind := PlainKind, h_ob := Some 2, h_fields := [(''x'', reactive_field 12 None (Prim (JBool True)))]\<rparr>),
     next_dep = 13, shouldObserve = True, isServer = False, tracking = False, touched = [], notified = [], warnings = 0\<rparr>"

definition no_env :: env where
  "no_env = \<lparr>e_get = (\<lambda>_ _ _. Prim JUndef), e_set = (\<lambda>_ _ _ w. w), e_inherited = (\<lambda>_ _. None)\<rparr>"

lemma ex_ready: "ready ex_world"
  by (simp add: ready_def ex_world_def other_obj_def field_of_def)

lemma ex_good: "well_observed ex_world"
  by (simp add: well_observed_def good_obj_def good_field_def ex_world_def other_obj_def field_of_def child_ok_def reactive_field_def ob_of_def observable_def)

lemmas ex_simps = ex_world_def other_obj_def reactive_field_def no_env_def field_of_def read_step_def depend_read_def depend_def ob_of_def
  same_value_def set_field_def upd_obj_def assign_def notify_dep_def Let_def

theorem data_stays_observed_witness:
  "\<exists>w'. apply_all no_env (Suc (Suc 0)) [Assign 0 ''other'' (Ref 2), Call 1 (Push [Ref 2])] ex_world = Some w' \<and> ready w' \<and> well_observed w'"
proof -
  have "apply_all no_env (Suc (Suc 0)) [Assign 0 ''other'' (Ref 2), Call 1 (Push [Ref 2])] ex_world \<noteq> None"
    by (simp add: ex_simps mutator_def observe_body_def strict_eq_def)
  then obtain w' where w': "apply_all no_env (Suc (Suc 0)) [Assign 0 ''other'' (Ref 2), Call 1 (Push [Ref 2])] ex_world = Some w'" by blast
  then show ?thesis using data_stays_observed [OF ex_ready ex_good w'] by blast
qed

theorem unnotified_write_unseen_witness:
  "\<exists>w'. assign no_env (Suc (Suc 0)) 0 ''other'' (Prim (JBool False)) ex_world = Some w' \<and>
     read_path no_env (Suc (Suc 0)) (Ref 0) [Field ''items'', Elem 0, Field ''x''] (w'\<lparr>tracking := False\<rparr>) =
       Some (Prim (JBool True), w'\<lparr>tracking := False\<rparr>)"
proof -
  obtain w' where w': "apply_mutation no_env (Suc (Suc 0)) (Assign 0 ''other'' (Prim (JBool False))) ex_world = Some w'" and n: "notified w' = [11]"
    by (simp add: ex_simps observe_body_def strict_eq_def)
  obtain wr where read: "read_path no_env (Suc (Suc 0)) (Ref 0) [Field ''items'', Elem 0, Field ''x''] (ex_world\<lparr>tracking := True, touched := []\<rparr>) =
      Some (Prim (JBool True), wr)" and t: "touched wr = [10, 1, 2, 12]"
    by (simp add: ex_simps strict_eq_def)
  have "read_path no_env (Suc (Suc 0)) (Ref 0) [Field ''items'', Elem 0, Field ''x''] (w'\<lparr>tracking := False\<rparr>) =
      Some (Prim (JBool True), w'\<lparr>tracking := False\<rparr>)"
  proof (rule unnotified_write_unseen [OF ex_ready ex_good _ _ _ _ read _ _ w'])
    show "in_observed no_env (Suc (Suc 0)) (Ref 0) [Field ''items'', Elem 0, Field ''x''] (ex_world\<lparr>tracking := True, touched := []\<rparr>)"
      by (simp add: ex_simps strict_eq_def)
    show "set (touched wr) \<inter> set (notified w') = {}" by (simp add: n t)
  qed (simp_all add: ex_simps)
  then show ?thesis using w' by auto
qed

section \<open>What goes wrong\<close>

text \<open>
  An array that contains itself overflows the stack: \<open>dependArray\<close> never comes back from it, so the
  first tracked read of a property that holds it throws.
\<close>

lemma each_elem_objs:
  "(\<And>b w w'. rec b w = Some w' \<Longrightarrow> objs w' = objs w) \<Longrightarrow> each_elem rec es w = Some w' \<Longrightarrow> objs w' = objs w"
proof (induction es arbitrary: w)
  case (Cons e es)
  define w1 where "w1 = (case ob_of w e of Some d \<Rightarrow> depend d w | None \<Rightarrow> w)"
  have o1: "objs w1 = objs w" by (simp add: w1_def depend_def split: option.split)
  obtain w2 where w2: "(case e of Ref b \<Rightarrow> if h_kind (objs w b) = ArrayKind then rec b w1 else Some w1 | Prim _ \<Rightarrow> Some w1) = Some w2"
    and rest: "each_elem rec es w2 = Some w'"
    using Cons.prems(2) unfolding each_elem.simps Let_def w1_def [symmetric] by (auto split: option.splits)
  have "objs w2 = objs w" using w2 Cons.prems(1) [of _ w1 w2] o1 by (auto split: hval.splits if_splits)
  then show ?case using Cons.IH [OF Cons.prems(1) rest] by simp
qed simp

lemma dependArray_objs: "dependArray n a w = Some w' \<Longrightarrow> objs w' = objs w"
proof (induction n arbitrary: a w w')
  case (Suc n)
  have "each_elem (dependArray n) (h_elems (objs w a)) w = Some w'" using Suc.prems by simp
  then show ?case by (rule each_elem_objs [of "dependArray n", rotated]) (rule Suc.IH)
qed simp

lemma each_elem_stuck:
  assumes keeps: "\<And>b w w'. rec b w = Some w' \<Longrightarrow> objs w' = objs w" and stuck: "\<And>w'. objs w' = objs w0 \<Longrightarrow> rec a w' = None"
    and arr: "h_kind (objs w0 a) = ArrayKind"
  shows "Ref a \<in> set es \<Longrightarrow> objs w = objs w0 \<Longrightarrow> each_elem rec es w = None"
proof (induction es arbitrary: w)
  case (Cons e es)
  define w1 where "w1 = (case ob_of w e of Some d \<Rightarrow> depend d w | None \<Rightarrow> w)"
  have o1: "objs w1 = objs w0" using Cons.prems(2) by (simp add: w1_def depend_def split: option.split)
  show ?case
  proof (cases "e = Ref a")
    case True
    then show ?thesis using stuck [OF o1] arr Cons.prems(2) unfolding each_elem.simps Let_def w1_def [symmetric] by simp
  next
    case False
    then have "Ref a \<in> set es" using Cons.prems(1) by simp
    then have "each_elem rec es w2 = None" if "objs w2 = objs w0" for w2 using Cons.IH that by blast
    then show ?thesis using keeps o1 unfolding each_elem.simps Let_def w1_def [symmetric]
      by (auto split: option.splits hval.splits)
  qed
qed simp

theorem self_array_overflows:
  assumes "h_kind (objs w a) = ArrayKind" "Ref a \<in> set (h_elems (objs w a))"
  shows "dependArray n a w = None"
proof -
  have "objs w' = objs w \<Longrightarrow> dependArray n a w' = None" for w'
  proof (induction n arbitrary: w')
    case (Suc n)
    have "each_elem (dependArray n) (h_elems (objs w a)) w' = None"
      by (rule each_elem_stuck [of "dependArray n" w a, OF _ _ assms(1,2) Suc.prems]) (rule dependArray_objs Suc.IH, assumption)+
    then show ?case using Suc.prems by simp
  qed simp
  then show ?thesis by simp
qed

definition loop_world :: world where
  "loop_world = ex_world\<lparr>objs := (objs ex_world)(1 := other_obj\<lparr>h_kind := ArrayKind, h_elems := [Ref 1]\<rparr>)\<rparr>"

theorem self_array_overflows_witness: "dependArray 100 1 loop_world = None"
  by (rule self_array_overflows) (simp_all add: loop_world_def)

text \<open>
  \<open>set\<close> loses the value when the key is a name of \<open>Object.prototype\<close>, such as \<open>constructor\<close>, and the
  object has a reactive property of that name: the property is defined a second time, over the getter it
  has, and keeps its old value.
\<close>

theorem set_prototype_key_lost:
  assumes "h_ob (objs w a) = Some d" "h_kind (objs w a) = PlainKind" "h_vmCount (objs w a) = 0"
    and "js_String key \<in> set object_prototype"
    and p: "field_of w a (js_String key) = Some \<lparr>f_slot = Reactive dp c False v0 (Data u), f_configurable = True\<rparr>"
  shows "\<exists>w'. set_1 E (Suc n) (Ref a) key (Prim x) w = Some w' \<and>
     read_step E m (Ref a) (Field (js_String key)) (w'\<lparr>tracking := False\<rparr>) = Some (v0, w'\<lparr>tracking := False\<rparr>)"
proof -
  define w1 where "w1 = w\<lparr>next_dep := Suc (next_dep w)\<rparr>"
  define q where "q = \<lparr>f_slot = Reactive (next_dep w) None False (Prim x) (Reactive dp c False v0 (Data u)), f_configurable = True\<rparr>"
  have f1: "field_of w1 a (js_String key) = Some \<lparr>f_slot = Reactive dp c False v0 (Data u), f_configurable = True\<rparr>"
    using p by (simp add: w1_def field_of_def)
  have d: "defineReactive (observe_n (Suc n)) a (js_String key) (Some (Prim x)) False w = Some (set_field a (js_String key) q w1)"
    unfolding defineReactive_def Let_def w1_def [symmetric] by (simp add: f1 initial_val_def observe_body_def q_def)
  have s: "set_1 E (Suc n) (Ref a) key (Prim x) w = Some (notify_dep d (set_field a (js_String key) q w1))"
    using assms(1-4) d by (simp add: set_1_def)
  have "field_of ((notify_dep d (set_field a (js_String key) q w1))\<lparr>tracking := False\<rparr>) a (js_String key) = Some q"
    using field_of_set [of a "js_String key" q w1 a "js_String key"] by (simp add: field_of_def)
  then show ?thesis using s by (simp add: read_step_def q_def depend_read_def)
qed

theorem set_prototype_key_lost_witness:
  "\<exists>w'. set_1 no_env (Suc 0) (Ref 2) (JStr ''constructor'') (Prim JNull)
       (set_field 2 ''constructor'' (reactive_field 20 None (Prim (JBool True))) ex_world) = Some w' \<and>
     read_step no_env 0 (Ref 2) (Field ''constructor'') (w'\<lparr>tracking := False\<rparr>) = Some (Prim (JBool True), w'\<lparr>tracking := False\<rparr>)"
  using set_prototype_key_lost [of "set_field 2 ''constructor'' (reactive_field 20 None (Prim (JBool True))) ex_world" 2 2
      "JStr ''constructor''" 20 None "Prim (JBool True)" "Prim (JBool True)" no_env 0 JNull 0]
  by (simp add: field_of_set reactive_field_def object_prototype_def) (simp add: ex_world_def other_obj_def)

end
