(* ===== verification/Lifecycle.thy ===== *)
theory Lifecycle
  imports SharedUtil
begin

text \<open>
  The life of component instances in \<open>frontend/js/vue.js\<close>: their tree (\<open>initLifecycle\<close>), their hooks
  (\<open>callHook\<close>), activation and deactivation of kept-alive components, the \<open>insert\<close> and \<open>destroy\<close>
  hooks of component vnodes, and \<open>$destroy\<close>. Instances are numbered by \<open>_uid\<close>. Which handlers throw is
  a parameter; a handler has no other effect here.
\<close>

section \<open>State\<close>

text \<open>
  \<open>i_tree\<close>: the component vnodes of the rendered tree in the order their destroy hooks run, each as its
  instance and \<open>data.keepAlive\<close>. \<open>i_inactive\<close> is \<open>None\<close> for null. \<open>i_data\<close> is the observer of the data.
\<close>

record inst =
  i_parent :: "nat option"
  i_root :: nat
  i_abstract :: bool
  i_children :: "nat list"
  i_inactive :: "bool option"
  i_direct :: bool
  i_mounted :: bool
  i_destroyed :: bool
  i_being :: bool
  i_tree :: "(nat \<times> bool) list"
  i_watcher :: "nat option"
  i_watchers :: "nat list"
  i_data :: "nat option"
  i_handlers :: "string \<Rightarrow> nat list"
  i_hookEvent :: bool
  i_listening :: bool
  i_linked :: bool

text \<open>
  \<open>hooks\<close> lists the calls of \<open>callHook\<close>, \<open>called\<close> and \<open>handled\<close> the handlers that ran and those whose
  errors were handled, \<open>hook_events\<close> the events emitted for hooks; \<open>torn\<close> the watchers torn down.
\<close>

record life =
  insts :: "nat \<Rightarrow> inst"
  next_vm :: nat
  hooks :: "(nat \<times> string) list"
  called :: "nat list"
  handled_hooks :: "nat list"
  hook_events :: "(nat \<times> string) list"
  torn :: "nat list"
  vm_counts :: "nat \<Rightarrow> nat"
  activated_queue :: "nat list"

definition upd :: "nat \<Rightarrow> (inst \<Rightarrow> inst) \<Rightarrow> life \<Rightarrow> life" where
  "upd v f st = st\<lparr>insts := (insts st)(v := f (insts st v))\<rparr>"

section \<open>Creation\<close>

text \<open>The loop that skips abstract parents (fuel: the number of the instance, which is above its parents' numbers)\<close>

primrec first_concrete :: "nat \<Rightarrow> life \<Rightarrow> nat \<Rightarrow> nat" where
  "first_concrete 0 st p = p"
| "first_concrete (Suc n) st p =
     (if i_abstract (insts st p) then (case i_parent (insts st p) of Some q \<Rightarrow> first_concrete n st q | None \<Rightarrow> p) else p)"

text \<open>\<open>proto\<close> gives the parts of the instance that do not belong to its life.\<close>

definition initLifecycle :: "nat option \<Rightarrow> bool \<Rightarrow> inst \<Rightarrow> life \<Rightarrow> life" where
  "initLifecycle parent0 abstract proto st =
     (let vm = next_vm st;
          parent = (case parent0 of Some p \<Rightarrow> if abstract then Some p else Some (first_concrete p st p) | None \<Rightarrow> None);
          st1 = (case parent of
                   Some p \<Rightarrow> if abstract then st else upd p (\<lambda>i. i\<lparr>i_children := i_children i @ [vm]\<rparr>) st
                 | None \<Rightarrow> st)
      in upd vm (\<lambda>_. proto\<lparr>i_parent := parent, i_root := (case parent of Some p \<Rightarrow> i_root (insts st1 p) | None \<Rightarrow> vm),
            i_abstract := abstract, i_children := [], i_inactive := None, i_direct := False, i_mounted := False,
            i_destroyed := False, i_being := False, i_tree := [], i_watcher := None\<rparr>) (st1\<lparr>next_vm := Suc vm\<rparr>))"

section \<open>Hooks\<close>

definition run_handlers :: "(nat \<Rightarrow> bool) \<Rightarrow> nat list \<Rightarrow> life \<Rightarrow> life" where
  "run_handlers throws hs st =
     foldl (\<lambda>s h. s\<lparr>called := called s @ [h], handled_hooks := handled_hooks s @ (if throws h then [h] else [])\<rparr>) st hs"

definition callHook :: "(nat \<Rightarrow> bool) \<Rightarrow> nat \<Rightarrow> string \<Rightarrow> life \<Rightarrow> life" where
  "callHook throws vm hook st0 =
     (let st = st0\<lparr>hooks := hooks st0 @ [(vm, hook)]\<rparr>;
          st1 = run_handlers throws (i_handlers (insts st vm) hook) st
      in if i_hookEvent (insts st1 vm) then st1\<lparr>hook_events := hook_events st1 @ [(vm, ''hook:'' @ hook)]\<rparr> else st1)"

section \<open>Activation\<close>

text \<open>The loop over the parents (fuel: the number of the instance)\<close>

primrec in_inactive_n :: "nat \<Rightarrow> life \<Rightarrow> nat \<Rightarrow> bool" where
  "in_inactive_n 0 st v = False"
| "in_inactive_n (Suc n) st v =
     (case i_parent (insts st v) of
        None \<Rightarrow> False
      | Some p \<Rightarrow> if i_inactive (insts st p) = Some True then True else in_inactive_n n st p)"

definition isInInactiveTree :: "life \<Rightarrow> nat \<Rightarrow> bool" where
  "isInInactiveTree st v = in_inactive_n (Suc v) st v"

fun each :: "(nat \<Rightarrow> life \<Rightarrow> life option) \<Rightarrow> nat list \<Rightarrow> life \<Rightarrow> life option" where
  "each f [] st = Some st"
| "each f (c # cs) st = (case f c st of None \<Rightarrow> None | Some st1 \<Rightarrow> each f cs st1)"

text \<open>The recursion over the children has fuel; \<open>None\<close> means that it is used up.\<close>

primrec activate_n :: "(nat \<Rightarrow> bool) \<Rightarrow> nat \<Rightarrow> bool \<Rightarrow> nat \<Rightarrow> life \<Rightarrow> life option" where
  "activate_n throws 0 direct vm st = None"
| "activate_n throws (Suc n) direct vm st0 =
     (let st = (if direct then upd vm (\<lambda>i. i\<lparr>i_direct := False\<rparr>) st0 else st0)
      in if (if direct then isInInactiveTree st vm else i_direct (insts st vm)) then Some st
         else if i_inactive (insts st vm) \<noteq> Some False then
           (let st1 = upd vm (\<lambda>i. i\<lparr>i_inactive := Some False\<rparr>) st
            in map_option (callHook throws vm ''activated'') (each (activate_n throws n False) (i_children (insts st1 vm)) st1))
         else Some st)"

primrec deactivate_n :: "(nat \<Rightarrow> bool) \<Rightarrow> nat \<Rightarrow> bool \<Rightarrow> nat \<Rightarrow> life \<Rightarrow> life option" where
  "deactivate_n throws 0 direct vm st = None"
| "deactivate_n throws (Suc n) direct vm st0 =
     (let st = (if direct then upd vm (\<lambda>i. i\<lparr>i_direct := True\<rparr>) st0 else st0)
      in if direct \<and> isInInactiveTree st vm then Some st
         else if i_inactive (insts st vm) \<noteq> Some True then
           (let st1 = upd vm (\<lambda>i. i\<lparr>i_inactive := Some True\<rparr>) st
            in map_option (callHook throws vm ''deactivated'') (each (deactivate_n throws n False) (i_children (insts st1 vm)) st1))
         else Some st)"

definition activateChildComponent :: "(nat \<Rightarrow> bool) \<Rightarrow> bool \<Rightarrow> nat \<Rightarrow> life \<Rightarrow> life option" where
  "activateChildComponent throws direct vm st = activate_n throws (Suc (next_vm st)) direct vm st"

definition deactivateChildComponent :: "(nat \<Rightarrow> bool) \<Rightarrow> bool \<Rightarrow> nat \<Rightarrow> life \<Rightarrow> life option" where
  "deactivateChildComponent throws direct vm st = deactivate_n throws (Suc (next_vm st)) direct vm st"

text \<open>
  Components inserted during an update are queued and activated after the patch; \<open>_inactive\<close> is reset
  in between.
\<close>

definition queueActivatedComponent :: "nat \<Rightarrow> life \<Rightarrow> life" where
  "queueActivatedComponent vm st = upd vm (\<lambda>i. i\<lparr>i_inactive := Some False\<rparr>) (st\<lparr>activated_queue := activated_queue st @ [vm]\<rparr>)"

fun callActivatedHooks :: "(nat \<Rightarrow> bool) \<Rightarrow> nat list \<Rightarrow> life \<Rightarrow> life option" where
  "callActivatedHooks throws [] st = Some st"
| "callActivatedHooks throws (c # cs) st =
     (case activateChildComponent throws True c (upd c (\<lambda>i. i\<lparr>i_inactive := Some True\<rparr>) st) of
        None \<Rightarrow> None
      | Some st1 \<Rightarrow> callActivatedHooks throws cs st1)"

section \<open>Component vnodes\<close>

text \<open>\<open>context_mounted\<close>: whether the instance whose render made the vnode is mounted\<close>

definition insert_hook :: "(nat \<Rightarrow> bool) \<Rightarrow> bool \<Rightarrow> nat \<Rightarrow> bool \<Rightarrow> life \<Rightarrow> life option" where
  "insert_hook throws context_mounted c keepAlive st =
     (let st1 = (if \<not> i_mounted (insts st c) then callHook throws c ''mounted'' (upd c (\<lambda>i. i\<lparr>i_mounted := True\<rparr>) st) else st)
      in if keepAlive then
           (if context_mounted then Some (queueActivatedComponent c st1)
            else activateChildComponent throws True c st1)
         else Some st1)"

definition destroy_hook ::
    "(nat \<Rightarrow> life \<Rightarrow> life option) \<Rightarrow> (nat \<Rightarrow> bool) \<Rightarrow> nat \<times> bool \<Rightarrow> life \<Rightarrow> life option" where
  "destroy_hook destroy throws vnode st =
     (case vnode of (c, keepAlive) \<Rightarrow>
        if \<not> i_destroyed (insts st c) then
          (if \<not> keepAlive then destroy c st else deactivateChildComponent throws True c st)
        else Some st)"

text \<open>\<open>__patch__(vm._vnode, null)\<close> runs the destroy hooks of the rendered tree.\<close>

fun invokeDestroyHooks :: "(nat \<Rightarrow> life \<Rightarrow> life option) \<Rightarrow> (nat \<Rightarrow> bool) \<Rightarrow> (nat \<times> bool) list \<Rightarrow> life \<Rightarrow> life option" where
  "invokeDestroyHooks destroy throws [] st = Some st"
| "invokeDestroyHooks destroy throws (x # xs) st =
     (case destroy_hook destroy throws x st of None \<Rightarrow> None | Some st1 \<Rightarrow> invokeDestroyHooks destroy throws xs st1)"

definition unlink :: "nat \<Rightarrow> life \<Rightarrow> life" where
  "unlink vm st =
     (case i_parent (insts st vm) of
        Some p \<Rightarrow>
          if \<not> i_being (insts st p) \<and> \<not> i_abstract (insts st vm) then
            upd p (\<lambda>i. i\<lparr>i_children := remove_item (i_children i) vm\<rparr>) st
          else st
      | None \<Rightarrow> st)"

definition teardown_all :: "nat \<Rightarrow> life \<Rightarrow> life" where
  "teardown_all vm st =
     st\<lparr>torn := torn st @ (case i_watcher (insts st vm) of Some w \<Rightarrow> [w] | None \<Rightarrow> []) @ rev (i_watchers (insts st vm)),
        vm_counts := (case i_data (insts st vm) of Some d \<Rightarrow> (vm_counts st)(d := vm_counts st d - 1) | None \<Rightarrow> vm_counts st)\<rparr>"

definition start_destroy :: "(nat \<Rightarrow> bool) \<Rightarrow> nat \<Rightarrow> life \<Rightarrow> life" where
  "start_destroy throws vm st =
     upd vm (\<lambda>i. i\<lparr>i_destroyed := True\<rparr>)
       (teardown_all vm (unlink vm (upd vm (\<lambda>i. i\<lparr>i_being := True\<rparr>) (callHook throws vm ''beforeDestroy'' st))))"

definition end_destroy :: "(nat \<Rightarrow> bool) \<Rightarrow> nat \<Rightarrow> life \<Rightarrow> life" where
  "end_destroy throws vm st = upd vm (\<lambda>i. i\<lparr>i_listening := False, i_linked := False\<rparr>) (callHook throws vm ''destroyed'' st)"

primrec destroy_n :: "(nat \<Rightarrow> bool) \<Rightarrow> nat \<Rightarrow> nat \<Rightarrow> life \<Rightarrow> life option" where
  "destroy_n throws 0 vm st = None"
| "destroy_n throws (Suc n) vm st =
     (if i_being (insts st vm) then Some st
      else
        (let st1 = start_destroy throws vm st
         in map_option (end_destroy throws vm) (invokeDestroyHooks (destroy_n throws n) throws (i_tree (insts st1 vm)) st1)))"

definition destroy_1 :: "(nat \<Rightarrow> bool) \<Rightarrow> nat \<Rightarrow> life \<Rightarrow> life option" where
  "destroy_1 throws vm st = destroy_n throws (Suc (next_vm st)) vm st"

end
