(* ===== verification/LifecycleProof.thy ===== *)
theory LifecycleProof
  imports Lifecycle
begin

text \<open>
  The steps in the life of a tree of instances and what holds in every state they reach: which
  instances are inactive, and what is left of a destroyed one.
\<close>

section \<open>The tree\<close>

inductive anc :: "life \<Rightarrow> nat \<Rightarrow> nat \<Rightarrow> bool" for st where
  self: "anc st v v"
| up: "i_parent (insts st u) = Some p \<Longrightarrow> anc st v p \<Longrightarrow> anc st v u"

inductive_cases ancE: "anc st v u"

text \<open>An instance is live when neither it nor one of its ancestors is being destroyed.\<close>

definition live :: "life \<Rightarrow> nat \<Rightarrow> bool" where
  "live st u \<longleftrightarrow> (\<forall>a. anc st a u \<longrightarrow> \<not> i_being (insts st a))"

text \<open>The instance or one of its ancestors was deactivated by itself.\<close>

definition off :: "life \<Rightarrow> nat \<Rightarrow> bool" where
  "off st u \<longleftrightarrow> (\<exists>a. anc st a u \<and> i_direct (insts st a))"

definition forest :: "life \<Rightarrow> bool" where
  "forest st \<longleftrightarrow>
     (\<forall>v c. c \<in> set (i_children (insts st v)) \<longrightarrow> i_parent (insts st c) = Some v \<and> \<not> i_abstract (insts st c)) \<and>
     (\<forall>c p. i_parent (insts st c) = Some p \<longrightarrow> p < c \<and> c < next_vm st) \<and>
     (\<forall>c p. i_parent (insts st c) = Some p \<longrightarrow> \<not> i_abstract (insts st c) \<longrightarrow> \<not> i_abstract (insts st p)) \<and>
     (\<forall>c. c < next_vm st \<longrightarrow> i_abstract (insts st c) \<longrightarrow> i_parent (insts st c) \<noteq> None) \<and>
     (\<forall>c p. i_parent (insts st c) = Some p \<longrightarrow> \<not> i_abstract (insts st c) \<longrightarrow> \<not> i_being (insts st c) \<longrightarrow> \<not> i_being (insts st p) \<longrightarrow>
        c \<in> set (i_children (insts st p)))  \<and>
     (\<forall>v. distinct (i_children (insts st v))) \<and>
     (\<forall>c p. c \<in> set (i_children (insts st p)) \<longrightarrow> i_being (insts st c) \<longrightarrow> i_being (insts st p))"

text \<open>Exactly the instances in a deactivated part of the tree are inactive.\<close>

definition activity :: "life \<Rightarrow> bool" where
  "activity st \<longleftrightarrow>
     (\<forall>u. u < next_vm st \<longrightarrow> \<not> i_abstract (insts st u) \<longrightarrow> live st u \<longrightarrow> (i_inactive (insts st u) = Some True \<longleftrightarrow> off st u))"

lemma forestD:
  assumes "forest st"
  shows "c \<in> set (i_children (insts st v)) \<Longrightarrow> i_parent (insts st c) = Some v"
    "c \<in> set (i_children (insts st v)) \<Longrightarrow> \<not> i_abstract (insts st c)"
    "i_parent (insts st c) = Some p \<Longrightarrow> p < c" "i_parent (insts st c) = Some p \<Longrightarrow> c < next_vm st"
    "i_parent (insts st c) = Some p \<Longrightarrow> \<not> i_abstract (insts st c) \<Longrightarrow> \<not> i_abstract (insts st p)"
    "c < next_vm st \<Longrightarrow> i_abstract (insts st c) \<Longrightarrow> i_parent (insts st c) \<noteq> None"
    "i_parent (insts st c) = Some p \<Longrightarrow> \<not> i_abstract (insts st c) \<Longrightarrow> \<not> i_being (insts st c) \<Longrightarrow> \<not> i_being (insts st p) \<Longrightarrow>
       c \<in> set (i_children (insts st p))"
    "distinct (i_children (insts st v))"
    "c \<in> set (i_children (insts st p)) \<Longrightarrow> i_being (insts st c) \<Longrightarrow> i_being (insts st p)"
  using assms unfolding forest_def by blast+

lemma anc_trans: "anc st b u \<Longrightarrow> anc st a b \<Longrightarrow> anc st a u"
  by (induction rule: anc.induct) (auto intro: anc.up)

lemma anc_le:
  assumes f: "forest st" and a: "anc st a u"
  shows "a \<le> u"
  using a
proof induction
  case (up u p v)
  then show ?case using forestD(3) [OF f up(1)] by simp
qed simp

lemma anc_linear: "anc st a u \<Longrightarrow> anc st b u \<Longrightarrow> anc st a b \<or> anc st b a"
proof (induction arbitrary: b rule: anc.induct)
  case (up u p v)
  show ?case using up(4)
  proof cases
    case self
    then show ?thesis using anc.up [OF up(1,2)] by simp
  next
    case (up p')
    then show ?thesis using \<open>i_parent (insts st u) = Some p\<close> \<open>\<And>b. anc st b p \<Longrightarrow> anc st v b \<or> anc st b v\<close> by simp
  qed
qed simp

lemma live_up: "live st u \<Longrightarrow> anc st a u \<Longrightarrow> live st a"
  unfolding live_def using anc_trans by blast

lemma off_down: "off st a \<Longrightarrow> anc st a u \<Longrightarrow> off st u"
  unfolding off_def using anc_trans by blast

lemma concrete_up:
  assumes f: "forest st" and a: "anc st a u"
  shows "\<not> i_abstract (insts st u) \<Longrightarrow> \<not> i_abstract (insts st a)"
  using a
proof induction
  case (up u p v)
  then show ?case using forestD(5) [OF f up(1)] by blast
qed simp

text \<open>The walk over the parents\<close>

lemma in_inactive: "forest st \<Longrightarrow> v < n \<Longrightarrow> in_inactive_n n st v \<longleftrightarrow> (\<exists>a. anc st a v \<and> a \<noteq> v \<and> i_inactive (insts st a) = Some True)"
proof (induction n arbitrary: v)
  case (Suc n)
  show ?case
  proof (cases "i_parent (insts st v)")
    case None
    then have "\<And>a. anc st a v \<Longrightarrow> a = v" by (auto elim: ancE)
    then show ?thesis using None by auto
  next
    case (Some p)
    have p: "p < v" using forestD(3) [OF Suc.prems(1) Some] .
    have up: "anc st a v \<and> a \<noteq> v \<longleftrightarrow> anc st a p" for a
      using Some anc.up [OF Some] anc_le [OF Suc.prems(1), of a p] p by (auto elim: ancE)
    have "in_inactive_n (Suc n) st v \<longleftrightarrow> i_inactive (insts st p) = Some True \<or> in_inactive_n n st p" using Some by simp
    also have "\<dots> \<longleftrightarrow> i_inactive (insts st p) = Some True \<or> (\<exists>a. anc st a p \<and> a \<noteq> p \<and> i_inactive (insts st a) = Some True)"
      using Suc.IH [OF Suc.prems(1), of p] p Suc.prems(2) by simp
    also have "\<dots> \<longleftrightarrow> (\<exists>a. anc st a p \<and> i_inactive (insts st a) = Some True)" using anc.self by metis
    also have "\<dots> \<longleftrightarrow> (\<exists>a. anc st a v \<and> a \<noteq> v \<and> i_inactive (insts st a) = Some True)" using up by blast
    finally show ?thesis .
  qed
qed simp

lemma isInInactiveTree_iff:
  "forest st \<Longrightarrow> isInInactiveTree st v \<longleftrightarrow> (\<exists>a. anc st a v \<and> a \<noteq> v \<and> i_inactive (insts st a) = Some True)"
  unfolding isInInactiveTree_def by (rule in_inactive) simp_all

section \<open>Spreading a flag over the children\<close>

text \<open>What activation and deactivation of the children have in common: \<open>ok\<close> says where the recursion goes on.\<close>

primrec spread :: "(inst \<Rightarrow> bool) \<Rightarrow> bool \<Rightarrow> string \<Rightarrow> (nat \<Rightarrow> bool) \<Rightarrow> nat \<Rightarrow> nat \<Rightarrow> life \<Rightarrow> life option" where
  "spread ok b hook throws 0 vm st = None"
| "spread ok b hook throws (Suc n) vm st =
     (if ok (insts st vm) then
        (let st1 = upd vm (\<lambda>i. i\<lparr>i_inactive := Some b\<rparr>) st
         in map_option (callHook throws vm hook) (each (spread ok b hook throws n) (i_children (insts st1 vm)) st1))
      else Some st)"

definition act_ok :: "inst \<Rightarrow> bool" where
  "act_ok i \<longleftrightarrow> \<not> i_direct i \<and> i_inactive i \<noteq> Some False"

definition deact_ok :: "inst \<Rightarrow> bool" where
  "deact_ok i \<longleftrightarrow> i_inactive i \<noteq> Some True"

lemma activate_spread: "activate_n throws n False vm st = spread act_ok False ''activated'' throws n vm st"
proof (induction n arbitrary: vm st)
  case (Suc n)
  then have "activate_n throws n False = spread act_ok False ''activated'' throws n" by (simp add: fun_eq_iff)
  then show ?case by (simp add: act_ok_def [of "insts st vm"] Let_def)
qed simp

lemma deactivate_spread: "deactivate_n throws n False vm st = spread deact_ok True ''deactivated'' throws n vm st"
proof (induction n arbitrary: vm st)
  case (Suc n)
  then have "deactivate_n throws n False = spread deact_ok True ''deactivated'' throws n" by (simp add: fun_eq_iff)
  then show ?case by (simp add: deact_ok_def [of "insts st vm"] Let_def)
qed simp

lemma activate_direct:
  assumes "st1 = upd vm (\<lambda>i. i\<lparr>i_direct := False\<rparr>) st"
  shows "activate_n throws (Suc n) True vm st =
    (if isInInactiveTree st1 vm then Some st1 else spread act_ok False ''activated'' throws (Suc n) vm st1)"
proof -
  have "activate_n throws n False = spread act_ok False ''activated'' throws n" by (simp add: fun_eq_iff activate_spread)
  moreover have "act_ok (insts st1 vm) \<longleftrightarrow> i_inactive (insts st1 vm) \<noteq> Some False" by (simp add: act_ok_def assms upd_def)
  ultimately show ?thesis by (simp add: Let_def assms)
qed

lemma deactivate_direct:
  assumes "st1 = upd vm (\<lambda>i. i\<lparr>i_direct := True\<rparr>) st"
  shows "deactivate_n throws (Suc n) True vm st =
    (if isInInactiveTree st1 vm then Some st1 else spread deact_ok True ''deactivated'' throws (Suc n) vm st1)"
proof -
  have "deactivate_n throws n False = spread deact_ok True ''deactivated'' throws n" by (simp add: fun_eq_iff deactivate_spread)
  moreover have "deact_ok (insts st1 vm) \<longleftrightarrow> i_inactive (insts st1 vm) \<noteq> Some True" by (simp add: deact_ok_def)
  ultimately show ?thesis by (simp add: Let_def assms)
qed


inductive spr :: "(inst \<Rightarrow> bool) \<Rightarrow> life \<Rightarrow> nat \<Rightarrow> nat \<Rightarrow> bool" for ok st v where
  here: "ok (insts st v) \<Longrightarrow> spr ok st v v"
| down: "spr ok st v u \<Longrightarrow> c \<in> set (i_children (insts st u)) \<Longrightarrow> ok (insts st c) \<Longrightarrow> spr ok st v c"

text \<open>Only \<open>_inactive\<close> changes, and only hooks of activation run.\<close>

definition erase :: "inst \<Rightarrow> inst" where
  "erase i = i\<lparr>i_inactive := None\<rparr>"

lemma erase_same:
  assumes "erase i = erase j"
  shows "i_children i = i_children j" "i_parent i = i_parent j" "i_abstract i = i_abstract j" "i_direct i = i_direct j"
    "i_being i = i_being j" "i_destroyed i = i_destroyed j" "i_tree i = i_tree j" "i_watcher i = i_watcher j" "i_watchers i = i_watchers j"
  using arg_cong [OF assms, of i_children] arg_cong [OF assms, of i_parent] arg_cong [OF assms, of i_abstract]
    arg_cong [OF assms, of i_direct] arg_cong [OF assms, of i_being] arg_cong [OF assms, of i_destroyed] arg_cong [OF assms, of i_tree]
    arg_cong [OF assms, of i_watcher] arg_cong [OF assms, of i_watchers]
  by (simp_all add: erase_def)

lemma erase_eq: "erase i = erase j \<Longrightarrow> i_inactive i = i_inactive j \<Longrightarrow> i = j"
  by (cases i; cases j) (simp add: erase_def)

definition quiet :: "(nat \<times> string) list \<Rightarrow> bool" where
  "quiet hs \<longleftrightarrow> snd ` set hs \<subseteq> {''activated'', ''deactivated''}"

definition flagged :: "life \<Rightarrow> life \<Rightarrow> bool" where
  "flagged st st' \<longleftrightarrow>
     next_vm st' = next_vm st \<and> torn st' = torn st \<and> (\<forall>u. erase (insts st' u) = erase (insts st u)) \<and>
     (\<exists>hs. hooks st' = hooks st @ hs \<and> quiet hs)"

lemma flagged_refl: "flagged st st"
  by (simp add: flagged_def quiet_def)

lemma flagged_trans:
  assumes 1: "flagged st st1" and 2: "flagged st1 st2"
  shows "flagged st st2"
proof -
  obtain hs1 hs2 where "hooks st1 = hooks st @ hs1" "quiet hs1" "hooks st2 = hooks st1 @ hs2" "quiet hs2"
    using 1 2 unfolding flagged_def by blast
  then have "hooks st2 = hooks st @ (hs1 @ hs2) \<and> quiet (hs1 @ hs2)" by (auto simp: quiet_def)
  then show ?thesis using 1 2 unfolding flagged_def by auto
qed

lemma flagged_same:
  assumes "flagged st st'"
  shows "i_children (insts st' u) = i_children (insts st u)" "i_parent (insts st' u) = i_parent (insts st u)"
    "i_abstract (insts st' u) = i_abstract (insts st u)" "i_direct (insts st' u) = i_direct (insts st u)"
    "i_being (insts st' u) = i_being (insts st u)" "i_destroyed (insts st' u) = i_destroyed (insts st u)"
    "i_tree (insts st' u) = i_tree (insts st u)" "next_vm st' = next_vm st" "torn st' = torn st"
    "i_watcher (insts st' u) = i_watcher (insts st u)" "i_watchers (insts st' u) = i_watchers (insts st u)"
proof -
  have "erase (insts st' u) = erase (insts st u)" using assms unfolding flagged_def by blast
  note erase_same [OF this]
  then show "i_children (insts st' u) = i_children (insts st u)" "i_parent (insts st' u) = i_parent (insts st u)"
    "i_abstract (insts st' u) = i_abstract (insts st u)" "i_direct (insts st' u) = i_direct (insts st u)"
    "i_being (insts st' u) = i_being (insts st u)" "i_destroyed (insts st' u) = i_destroyed (insts st u)"
    "i_tree (insts st' u) = i_tree (insts st u)"  "i_watcher (insts st' u) = i_watcher (insts st u)"
    "i_watchers (insts st' u) = i_watchers (insts st u)" by simp_all
  show "next_vm st' = next_vm st" "torn st' = torn st" using assms unfolding flagged_def by blast+
qed

lemma callHook_same [simp]:
  "insts (callHook throws v h st) = insts st" "next_vm (callHook throws v h st) = next_vm st" "torn (callHook throws v h st) = torn st"
  "hooks (callHook throws v h st) = hooks st @ [(v, h)]" "vm_counts (callHook throws v h st) = vm_counts st"
proof -
  have r: "insts (run_handlers throws hs s) = insts s \<and> next_vm (run_handlers throws hs s) = next_vm s \<and> torn (run_handlers throws hs s) = torn s \<and>
      hooks (run_handlers throws hs s) = hooks s \<and> vm_counts (run_handlers throws hs s) = vm_counts s" for hs s
  proof -
    have "insts (foldl (\<lambda>s h. s\<lparr>called := called s @ [h], handled_hooks := handled_hooks s @ (if throws h then [h] else [])\<rparr>) s hs) = insts s \<and>
      next_vm (foldl (\<lambda>s h. s\<lparr>called := called s @ [h], handled_hooks := handled_hooks s @ (if throws h then [h] else [])\<rparr>) s hs) = next_vm s \<and>
      torn (foldl (\<lambda>s h. s\<lparr>called := called s @ [h], handled_hooks := handled_hooks s @ (if throws h then [h] else [])\<rparr>) s hs) = torn s \<and>
      hooks (foldl (\<lambda>s h. s\<lparr>called := called s @ [h], handled_hooks := handled_hooks s @ (if throws h then [h] else [])\<rparr>) s hs) = hooks s \<and>
      vm_counts (foldl (\<lambda>s h. s\<lparr>called := called s @ [h], handled_hooks := handled_hooks s @ (if throws h then [h] else [])\<rparr>) s hs) = vm_counts s"
      by (induction hs arbitrary: s) simp_all
    then show ?thesis by (simp add: run_handlers_def)
  qed
  show "insts (callHook throws v h st) = insts st" "next_vm (callHook throws v h st) = next_vm st" "torn (callHook throws v h st) = torn st"
    "hooks (callHook throws v h st) = hooks st @ [(v, h)]" "vm_counts (callHook throws v h st) = vm_counts st"
    by (simp_all add: callHook_def Let_def r)
qed

text \<open>The recursion goes on until it meets an instance that is not \<open>ok\<close>; setting the flag ends \<open>ok\<close>.\<close>

locale spreading =
  fixes ok :: "inst \<Rightarrow> bool" and b :: bool and hook :: string
  assumes flips: "\<not> ok (i\<lparr>i_inactive := Some b\<rparr>)" and name: "hook = ''activated'' \<or> hook = ''deactivated''"
begin

text \<open>From \<open>st\<close> to \<open>st'\<close> the instances in \<open>S\<close> got the flag.\<close>

definition marked :: "nat set \<Rightarrow> life \<Rightarrow> life \<Rightarrow> bool" where
  "marked S st st' \<longleftrightarrow> flagged st st' \<and> (\<forall>u. i_inactive (insts st' u) = (if u \<in> S then Some b else i_inactive (insts st u)))"

lemma marked_inst: "marked S st st' \<Longrightarrow> insts st' u = (if u \<in> S then (insts st u)\<lparr>i_inactive := Some b\<rparr> else insts st u)"
proof -
  assume m: "marked S st st'"
  then have e: "erase (insts st' u) = erase (insts st u)" and i: "i_inactive (insts st' u) = (if u \<in> S then Some b else i_inactive (insts st u))"
    unfolding marked_def flagged_def by blast+
  show ?thesis by (rule erase_eq) (use e i in \<open>auto simp: erase_def\<close>)
qed

lemma marked_ok: "marked S st st' \<Longrightarrow> ok (insts st' u) \<longleftrightarrow> u \<notin> S \<and> ok (insts st u)"
  using marked_inst flips by simp

lemma spr_less: "marked S st st' \<Longrightarrow> spr ok st' v u \<Longrightarrow> spr ok st v u"
proof -
  assume m: "marked S st st'" and s: "spr ok st' v u"
  have c: "i_children (insts st' x) = i_children (insts st x)" for x using m flagged_same(1) by (auto simp: marked_def)
  show ?thesis using s by induction (use marked_ok [OF m] c in \<open>auto intro: spr.intros\<close>)
qed

lemma spr_more:
  assumes m: "marked {u. spr ok st c u} st st'" and s: "spr ok st v u"
  shows "spr ok st' v u \<or> spr ok st c u"
  using s
proof induction
  case here
  then show ?case using marked_ok [OF m, of v] spr.here [of ok st' v] by blast
next
  case (down u c')
  have ch: "i_children (insts st' x) = i_children (insts st x)" for x using m flagged_same(1) by (auto simp: marked_def)
  show ?case using down.IH
  proof
    assume "spr ok st' v u"
    then show ?thesis using marked_ok [OF m, of c'] down(2,3) ch spr.down [of ok st' v u c'] by auto
  next
    assume "spr ok st c u"
    then show ?thesis using spr.down [of ok st c u c'] down(2,3) by blast
  qed
qed

lemma spr_left: "spr ok st c u \<Longrightarrow> ok (insts st v) \<Longrightarrow> c \<in> set (i_children (insts st v)) \<Longrightarrow> spr ok st v u"
  by (induction rule: spr.induct) (auto intro: spr.intros)

lemma spr_anc: "forest st \<Longrightarrow> spr ok st v u \<Longrightarrow> anc st v u"
proof -
  assume f: "forest st" and s: "spr ok st v u"
  show ?thesis using s by induction (use forestD(1) [OF f] in \<open>auto intro: anc.intros\<close>)
qed

lemma spr_unfold:
  assumes f: "forest st" and ok: "ok (insts st v)" and m: "marked {v} st st'"
  shows "spr ok st v u \<longleftrightarrow> u = v \<or> (\<exists>c\<in>set (i_children (insts st v)). spr ok st' c u)"
proof
  have ch: "i_children (insts st' x) = i_children (insts st x)" for x using m flagged_same(1) by (auto simp: marked_def)
  assume "spr ok st v u"
  then have "v \<le> u \<and> (u = v \<or> (\<exists>c\<in>set (i_children (insts st v)). spr ok st' c u))"
  proof (induction rule: spr.induct)
    case (down u c)
    have c: "u < c" using forestD(1,3) [OF f] down(2) by blast
    have "c \<noteq> v" using c down.IH by auto
    then have okc: "ok (insts st' c)" using marked_ok [OF m, of c] down(3) by simp
    show ?case
    proof (cases "u = v")
      case True
      then show ?thesis using down(2) spr.here [of ok st' c] okc c by auto
    next
      case False
      then obtain d where "d \<in> set (i_children (insts st v))" "spr ok st' d u" using down.IH by blast
      then show ?thesis using spr.down [of ok st' d u c] down(2) ch okc c down.IH by fastforce
    qed
  qed simp
  then show "u = v \<or> (\<exists>c\<in>set (i_children (insts st v)). spr ok st' c u)" by simp
next
  assume "u = v \<or> (\<exists>c\<in>set (i_children (insts st v)). spr ok st' c u)"
  then show "spr ok st v u" using spr.here [of ok st v] ok spr_left [OF spr_less [OF m] ok] by blast
qed

lemma forest_flagged:
  assumes "forest st" "flagged st st'"
  shows "forest st'"
  using assms(1) unfolding forest_def flagged_same [OF assms(2)] .

lemma each_marked:
  assumes rec: "\<And>c s s'. forest s \<Longrightarrow> f c s = Some s' \<Longrightarrow> marked {u. spr ok s c u} s s'"
  shows "forest s \<Longrightarrow> each f cs s = Some s' \<Longrightarrow> marked {u. \<exists>c\<in>set cs. spr ok s c u} s s'"
proof (induction cs arbitrary: s)
  case Nil
  then show ?case by (simp add: marked_def flagged_refl)
next
  case (Cons c cs)
  obtain s1 where s1: "f c s = Some s1" and rest: "each f cs s1 = Some s'" using Cons.prems(2) by (auto split: option.splits)
  have 1: "marked {u. spr ok s c u} s s1" by (rule rec [OF Cons.prems(1) s1])
  then have "forest s1" using forest_flagged [OF Cons.prems(1)] by (simp add: marked_def)
  then have 2: "marked {u. \<exists>c\<in>set cs. spr ok s1 c u} s1 s'" using Cons.IH rest by blast
  have u: "(\<exists>c'\<in>set cs. spr ok s1 c' u) \<or> spr ok s c u \<longleftrightarrow> (\<exists>c'\<in>set (c # cs). spr ok s c' u)" for u
    using spr_less [OF 1, of _ u] spr_more [OF 1, of _ u] by (metis set_ConsD list.set_intros)
  have "i_inactive (insts s' u) = (if \<exists>c'\<in>set (c # cs). spr ok s c' u then Some b else i_inactive (insts s u))" for u
    using 1 2 unfolding u [symmetric] marked_def by simp
  then show ?case using flagged_trans [of s s1 s'] 1 2 by (simp add: marked_def)
qed

theorem spread_marks: "forest st \<Longrightarrow> spread ok b hook throws n v st = Some st' \<Longrightarrow> marked {u. spr ok st v u} st st'"
proof (induction n arbitrary: v st st')
  case (Suc n)
  show ?case
  proof (cases "ok (insts st v)")
    case False
    have "\<not> spr ok st v u" for u
    proof
      assume "spr ok st v u"
      then show False using False by induction simp_all
    qed
    then show ?thesis using False Suc.prems(2) by (simp add: marked_def flagged_refl)
  next
    case True
    define s1 where "s1 = upd v (\<lambda>i. i\<lparr>i_inactive := Some b\<rparr>) st"
    obtain s2 where s2: "each (spread ok b hook throws n) (i_children (insts s1 v)) s1 = Some s2" and st': "st' = callHook throws v hook s2"
      using Suc.prems(2) True by (auto simp: s1_def Let_def)
    have m1: "marked {v} st s1" by (simp add: marked_def flagged_def s1_def upd_def erase_def quiet_def)
    have "forest s1" using forest_flagged [OF Suc.prems(1)] m1 by (simp add: marked_def)
    then have 2: "marked {u. \<exists>c\<in>set (i_children (insts s1 v)). spr ok s1 c u} s1 s2"
      using each_marked [of "spread ok b hook throws n", OF Suc.IH] s2 by blast
    have ch: "i_children (insts s1 v) = i_children (insts st v)" by (simp add: s1_def upd_def)
    have "flagged s2 st'" using name by (auto simp: st' flagged_def quiet_def)
    then have fl: "flagged st st'" using m1 2 flagged_trans unfolding marked_def by blast
    have "i_inactive (insts st' u) = (if spr ok st v u then Some b else i_inactive (insts st u))" for u
      using 2 m1 unfolding marked_def spr_unfold [OF Suc.prems(1) True m1] ch by (auto simp: st')
    then show ?thesis using fl by (simp add: marked_def)
  qed
qed simp

text \<open>The fuel is enough: the number of a child is above that of its parent.\<close>

lemma spread_returns: "forest st \<Longrightarrow> next_vm st - v < n \<Longrightarrow> spread ok b hook throws n v st \<noteq> None"
proof (induction n arbitrary: v st)
  case (Suc n)
  have each: "each (spread ok b hook throws n) cs s \<noteq> None"
    if "forest s" "\<And>c. c \<in> set cs \<Longrightarrow> next_vm s - c < n" for cs s
    using that
  proof (induction cs arbitrary: s)
    case (Cons c cs)
    obtain s1 where s1: "spread ok b hook throws n c s = Some s1" using Suc.IH [OF Cons.prems(1), of c] Cons.prems(2) by auto
    then have "flagged s s1" using spread_marks [OF Cons.prems(1)] by (auto simp: marked_def)
    then have "forest s1" "next_vm s1 = next_vm s" using forest_flagged [OF Cons.prems(1)] flagged_same(8) by blast+
    then show ?case using Cons.IH [of s1] Cons.prems(2) s1 by simp
  qed simp
  define s1 where "s1 = upd v (\<lambda>i. i\<lparr>i_inactive := Some b\<rparr>) st"
  have "flagged st s1" by (simp add: flagged_def s1_def upd_def erase_def quiet_def)
  then have s1: "forest s1" "next_vm s1 = next_vm st" "i_children (insts s1 v) = i_children (insts st v)"
    using forest_flagged [OF Suc.prems(1)] flagged_same(1,8) by blast+
  have "next_vm s1 - c < n" if "c \<in> set (i_children (insts s1 v))" for c
  proof -
    have "i_parent (insts st c) = Some v" using forestD(1) [OF Suc.prems(1)] that s1(3) by simp
    then have "v < c" "c < next_vm st" using forestD(3,4) [OF Suc.prems(1)] by blast+
    then show ?thesis using Suc.prems(2) s1(2) by linarith
  qed
  then have "each (spread ok b hook throws n) (i_children (insts s1 v)) s1 \<noteq> None" by (rule each [OF s1(1)])
  then show ?case by (simp add: s1_def Let_def)
qed simp

end

interpretation activation: spreading act_ok False "''activated''"
  by unfold_locales (simp_all add: act_ok_def)

interpretation deactivation: spreading deact_ok True "''deactivated''"
  by unfold_locales (simp_all add: deact_ok_def)


section \<open>Activity\<close>

lemma flagged_anc: "flagged st st' \<Longrightarrow> anc st' a u \<longleftrightarrow> anc st a u"
proof -
  assume f: "flagged st st'"
  have "anc st' a u \<Longrightarrow> anc st a u" by (induction rule: anc.induct) (auto intro: anc.intros simp: flagged_same [OF f])
  moreover have "anc st a u \<Longrightarrow> anc st' a u" by (induction rule: anc.induct) (auto intro: anc.intros simp: flagged_same [OF f])
  ultimately show ?thesis by blast
qed

lemma flagged_off: "flagged st st' \<Longrightarrow> off st' u = off st u"
  by (simp add: off_def flagged_anc flagged_same)

lemma flagged_live: "flagged st st' \<Longrightarrow> live st' u = live st u"
  by (simp add: live_def flagged_anc flagged_same)

text \<open>Changing the mark of one instance\<close>

lemma direct_same:
  "i_children (insts (upd v (\<lambda>i. i\<lparr>i_direct := b\<rparr>) st) x) = i_children (insts st x)"
  "i_parent (insts (upd v (\<lambda>i. i\<lparr>i_direct := b\<rparr>) st) x) = i_parent (insts st x)"
  "i_abstract (insts (upd v (\<lambda>i. i\<lparr>i_direct := b\<rparr>) st) x) = i_abstract (insts st x)"
  "i_being (insts (upd v (\<lambda>i. i\<lparr>i_direct := b\<rparr>) st) x) = i_being (insts st x)"
  "i_destroyed (insts (upd v (\<lambda>i. i\<lparr>i_direct := b\<rparr>) st) x) = i_destroyed (insts st x)"
  "i_tree (insts (upd v (\<lambda>i. i\<lparr>i_direct := b\<rparr>) st) x) = i_tree (insts st x)"
  "i_inactive (insts (upd v (\<lambda>i. i\<lparr>i_direct := b\<rparr>) st) x) = i_inactive (insts st x)"
  "next_vm (upd v (\<lambda>i. i\<lparr>i_direct := b\<rparr>) st) = next_vm st"
  by (simp_all add: upd_def)

lemma direct_anc: "anc (upd v (\<lambda>i. i\<lparr>i_direct := b\<rparr>) st) a u \<longleftrightarrow> anc st a u"
proof -
  have p: "i_parent (insts (upd v (\<lambda>i. i\<lparr>i_direct := b\<rparr>) st) x) = i_parent (insts st x)" for x by (simp add: upd_def)
  have "anc (upd v (\<lambda>i. i\<lparr>i_direct := b\<rparr>) st) a u \<Longrightarrow> anc st a u" by (induction rule: anc.induct) (auto intro: anc.intros simp: p)
  moreover have "anc st a u \<Longrightarrow> anc (upd v (\<lambda>i. i\<lparr>i_direct := b\<rparr>) st) a u" by (induction rule: anc.induct) (auto intro: anc.intros simp: p)
  ultimately show ?thesis by blast
qed

lemma direct_live: "live (upd v (\<lambda>i. i\<lparr>i_direct := b\<rparr>) st) u \<longleftrightarrow> live st u"
  unfolding live_def direct_anc direct_same ..

lemma direct_forest: "forest st \<Longrightarrow> forest (upd v (\<lambda>i. i\<lparr>i_direct := b\<rparr>) st)"
  unfolding forest_def direct_same .

text \<open>The path from an ancestor down to a live concrete instance runs through the lists of children.\<close>

lemma path_child:
  assumes f: "forest st" and l: "live st u" and c: "\<not> i_abstract (insts st u)" and p: "i_parent (insts st u) = Some p"
  shows "u \<in> set (i_children (insts st p))"
proof -
  have "\<not> i_being (insts st u)" "\<not> i_being (insts st p)"
    using l anc.self [of st u] anc.up [OF p anc.self] unfolding live_def by blast+
  then show ?thesis using forestD(7) [OF f p c] by blast
qed

lemma spr_path:
  assumes f: "forest st" and a: "anc st v u" and l: "live st u" and c: "\<not> i_abstract (insts st u)"
    and ok: "\<And>w. anc st v w \<Longrightarrow> anc st w u \<Longrightarrow> ok (insts st w)"
  shows "spr ok st v u"
  using a l c ok
proof induction
  case (self v)
  then show ?case using spr.here [of ok st v] anc.self by blast
next
  case (up u p v)
  have ap: "anc st p u" using anc.up [OF up(1) anc.self] .
  have "spr ok st v p"
    using up.IH live_up [OF up.prems(1) ap] concrete_up [OF f ap up.prems(2)] up.prems(3) anc.up [OF up(1)] by blast
  moreover have "ok (insts st u)" using up.prems(3) anc.self anc.up [OF up(1,2)] by blast
  ultimately show ?case using spr.down [of ok st v p u] path_child [OF f up.prems(1,2) up(1)] by blast
qed

text \<open>The flag of the instance that is activated may be set beforehand.\<close>

lemma activate_keeps:
  assumes f: "forest st" and I: "\<And>u. u \<noteq> v \<or> i_inactive (insts st v) \<noteq> Some True \<Longrightarrow> u < next_vm st \<Longrightarrow> \<not> i_abstract (insts st u) \<Longrightarrow>
      live st u \<Longrightarrow> i_inactive (insts st u) = Some True \<longleftrightarrow> off st u"
    and a: "activate_n throws (Suc n) True v st = Some st'"
  shows "forest st' \<and> activity st'"
proof -
  define s1 where "s1 = upd v (\<lambda>i. i\<lparr>i_direct := False\<rparr>) st"
  have f1: "forest s1" using direct_forest [OF f] by (simp add: s1_def)
  have same: "i_inactive (insts s1 x) = i_inactive (insts st x)" "i_abstract (insts s1 x) = i_abstract (insts st x)" "next_vm s1 = next_vm st"
    "i_direct (insts s1 x) \<longleftrightarrow> x \<noteq> v \<and> i_direct (insts st x)" for x by (simp_all add: s1_def upd_def)
  have an: "anc s1 x y \<longleftrightarrow> anc st x y" "live s1 x \<longleftrightarrow> live st x" for x y by (simp_all add: s1_def direct_anc direct_live)
  have off: "off s1 u \<Longrightarrow> off st u" for u unfolding off_def an(1) using same(4) by blast
  have below: "off s1 u = off st u" if "\<not> anc st v u" for u unfolding off_def an(1) same(4) using that by blast
  show ?thesis
  proof (cases "isInInactiveTree s1 v")
    case True
    then have st': "st' = s1" using a activate_direct [OF s1_def] by simp
    obtain p where p: "anc st p v" "p \<noteq> v" "i_inactive (insts st p) = Some True"
      using True isInInactiveTree_iff [OF f1, of v] an(1) same(1) by auto
    have "i_inactive (insts st u) = Some True \<longleftrightarrow> off s1 u" if u: "u < next_vm st" "\<not> i_abstract (insts st u)" "live st u" for u
    proof (cases "anc st v u")
      case vu: True
      have pu: "anc st p u" using anc_trans [OF vu p(1)] .
      have "off st p" using I [of p] p(2,3) live_up [OF u(3) pu] concrete_up [OF f pu u(2)] anc_le [OF f pu] u(1) by simp
      then obtain d where d: "anc st d p" "i_direct (insts st d)" unfolding off_def by blast
      have "d \<noteq> v" using anc_le [OF f d(1)] anc_le [OF f p(1)] p(2) by auto
      then have "off s1 u" unfolding off_def an(1) same(4) using d anc_trans [OF pu d(1)] by blast
      then show ?thesis using off I [OF _ u] by blast
    next
      case no: False
      then have "u \<noteq> v" using anc.self [of st v] by blast
      then show ?thesis using below [OF no] I [OF _ u] by blast
    qed
    then have "activity s1" unfolding activity_def same an(2) by blast
    then show ?thesis using f1 by (simp add: st')
  next
    case False
    then have sp: "spread act_ok False ''activated'' throws (Suc n) v s1 = Some st'" using a activate_direct [OF s1_def] by simp
    have m: "activation.marked {u. spr act_ok s1 v u} s1 st'" by (rule activation.spread_marks [OF f1 sp])
    then have fl: "flagged s1 st'" by (simp add: activation.marked_def)
    have ina: "i_inactive (insts st' u) = (if spr act_ok s1 v u then Some False else i_inactive (insts st u))" for u
      using m same(1) by (simp add: activation.marked_def)
    have "i_inactive (insts st' u) = Some True \<longleftrightarrow> off s1 u" if u: "u < next_vm st" "\<not> i_abstract (insts st u)" "live st u" for u
    proof (cases "anc st v u")
      case no: False
      then have "\<not> spr act_ok s1 v u" using activation.spr_anc [OF f1] an(1) by blast
      moreover have "u \<noteq> v" using no anc.self [of st v] by blast
      ultimately show ?thesis using ina below [OF no] I [OF _ u] by simp
    next
      case vu: True
      have up: "\<not> i_direct (insts st w)" if w: "anc st w v" "w \<noteq> v" for w
      proof
        assume "i_direct (insts st w)"
        then have "off st w" unfolding off_def using anc.self by blast
        moreover have wu: "anc st w u" using anc_trans [OF vu w(1)] .
        ultimately have "i_inactive (insts st w) = Some True"
          using I [of w] w(2) live_up [OF u(3) wu] concrete_up [OF f wu u(2)] anc_le [OF f wu] u(1) by simp
        then show False using False isInInactiveTree_iff [OF f1, of v] an(1) same(1) w by auto
      qed
      show ?thesis
      proof (cases "off s1 u")
        case True
        then have "\<not> spr act_ok s1 v u"
        proof -
          obtain d where d: "anc st d u" "i_direct (insts st d)" "d \<noteq> v" using True unfolding off_def an(1) same(4) by blast
          have vd: "anc st v d" using anc_linear [OF vu d(1)] up d(2,3) by blast
          have "spr act_ok s1 v x \<Longrightarrow> \<not> anc st d x" for x
          proof (induction rule: spr.induct)
            case here
            show ?case using anc_le [OF f, of d v] anc_le [OF f vd] d(3) by auto
          next
            case (down y c)
            have "\<not> i_direct (insts s1 c)" using down(3) by (simp add: act_ok_def)
            then have "c \<noteq> d" using d(2,3) same(4) by auto
            have "i_parent (insts s1 c) = Some y" using forestD(1) [OF f1 down(2)] .
            then have py: "i_parent (insts st c) = Some y" by (simp add: s1_def upd_def split: if_splits)
            show ?case
            proof
              assume "anc st d c"
              then show False using \<open>c \<noteq> d\<close> py down.IH by (auto elim: ancE)
            qed
          qed
          then show ?thesis using d(1) by blast
        qed
        moreover have "u \<noteq> v"
        proof
          assume "u = v"
          then obtain d where "anc st d v" "i_direct (insts st d)" "d \<noteq> v" using True unfolding off_def an(1) same(4) by blast
          then show False using up by blast
        qed
        ultimately show ?thesis using ina I [OF _ u] off [OF True] True by simp
      next
        case none: False
        have "i_inactive (insts st' u) \<noteq> Some True"
        proof (cases "off st u")
          case offu: False
          show ?thesis
          proof (cases "u = v \<and> i_inactive (insts st v) = Some True")
            case True
            then have "spr act_ok s1 v u" using spr.here [of act_ok s1 v] by (simp add: act_ok_def same)
            then show ?thesis using ina by simp
          next
            case False
            then show ?thesis using ina [of u] I [OF _ u] offu by auto
          qed
        next
          case offu: True
          then have dv: "i_direct (insts st v)" using none unfolding off_def an(1) same(4) by blast
          have "spr act_ok s1 v u"
          proof (rule spr_path [OF f1])
            show "anc s1 v u" "live s1 u" "\<not> i_abstract (insts s1 u)" using vu u an same by simp_all
            fix w assume w: "anc s1 v w" "anc s1 w u"
            have "off st w" using dv w(1) an(1) unfolding off_def by blast
            then have "i_inactive (insts st w) = Some True"
              using I [of w] live_up [OF u(3), of w] concrete_up [OF f, of w u] anc_le [OF f, of w u] w(2) an(1) u by auto
            moreover have "\<not> i_direct (insts s1 w)" using none w(2) unfolding off_def by blast
            ultimately show "act_ok (insts s1 w)" using same(1) by (simp add: act_ok_def)
          qed
          then show ?thesis using ina by simp
        qed
        then show ?thesis using none by simp
      qed
    qed
    then have "activity st'" unfolding activity_def flagged_off [OF fl] flagged_live [OF fl] flagged_same(3,8) [OF fl] same an(2) by blast
    then show ?thesis using activation.forest_flagged [OF f1 fl] by blast
  qed
qed


lemma deactivate_keeps:
  assumes f: "forest st" and act: "activity st" and a: "deactivate_n throws (Suc n) True v st = Some st'"
  shows "forest st' \<and> activity st'"
proof -
  define s1 where "s1 = upd v (\<lambda>i. i\<lparr>i_direct := True\<rparr>) st"
  have f1: "forest s1" using direct_forest [OF f] by (simp add: s1_def)
  have same: "i_inactive (insts s1 x) = i_inactive (insts st x)" "i_abstract (insts s1 x) = i_abstract (insts st x)" "next_vm s1 = next_vm st"
    "i_direct (insts s1 x) \<longleftrightarrow> x = v \<or> i_direct (insts st x)" for x by (simp_all add: s1_def upd_def)
  have an: "anc s1 x y \<longleftrightarrow> anc st x y" "live s1 x \<longleftrightarrow> live st x" for x y by (simp_all add: s1_def direct_anc direct_live)
  have off: "off s1 u \<longleftrightarrow> off st u \<or> anc st v u" for u unfolding off_def an(1) same(4) by blast
  have I: "i_inactive (insts st u) = Some True \<longleftrightarrow> off st u" if "u < next_vm st" "\<not> i_abstract (insts st u)" "live st u" for u
    using act that unfolding activity_def by blast
  show ?thesis
  proof (cases "isInInactiveTree s1 v")
    case True
    then have st': "st' = s1" using a deactivate_direct [OF s1_def] by simp
    obtain p where p: "anc st p v" "p \<noteq> v" "i_inactive (insts st p) = Some True"
      using True isInInactiveTree_iff [OF f1, of v] an(1) same(1) by auto
    have "off s1 u = off st u" if u: "u < next_vm st" "\<not> i_abstract (insts st u)" "live st u" for u
    proof (cases "anc st v u")
      case vu: True
      have pu: "anc st p u" using anc_trans [OF vu p(1)] .
      have "off st p" using I [of p] p(3) live_up [OF u(3) pu] concrete_up [OF f pu u(2)] anc_le [OF f pu] u(1) by simp
      then show ?thesis using off_down [OF _ pu] off by blast
    qed (simp add: off)
    then have "activity s1" using I unfolding activity_def same an(2) by blast
    then show ?thesis using f1 by (simp add: st')
  next
    case False
    then have sp: "spread deact_ok True ''deactivated'' throws (Suc n) v s1 = Some st'" using a deactivate_direct [OF s1_def] by simp
    have m: "deactivation.marked {u. spr deact_ok s1 v u} s1 st'" by (rule deactivation.spread_marks [OF f1 sp])
    then have fl: "flagged s1 st'" by (simp add: deactivation.marked_def)
    have ina: "i_inactive (insts st' u) = (if spr deact_ok s1 v u then Some True else i_inactive (insts st u))" for u
      using m same(1) by (simp add: deactivation.marked_def)
    have "i_inactive (insts st' u) = Some True \<longleftrightarrow> off s1 u" if u: "u < next_vm st" "\<not> i_abstract (insts st u)" "live st u" for u
    proof (cases "anc st v u")
      case no: False
      then have "\<not> spr deact_ok s1 v u" using deactivation.spr_anc [OF f1] an(1) by blast
      then show ?thesis using ina off I [OF u] no by simp
    next
      case vu: True
      have "i_inactive (insts st' u) = Some True"
      proof (cases "off st u")
        case offu: True
        then show ?thesis using ina [of u] I [OF u] by simp
      next
        case offu: False
        have "spr deact_ok s1 v u"
        proof (rule spr_path [OF f1])
          show "anc s1 v u" "live s1 u" "\<not> i_abstract (insts s1 u)" using vu u an same by simp_all
          fix w assume w: "anc s1 v w" "anc s1 w u"
          have "\<not> off st w" using offu off_down w(2) an(1) by blast
          then have "i_inactive (insts st w) \<noteq> Some True"
            using I [of w] live_up [OF u(3), of w] concrete_up [OF f, of w u] anc_le [OF f, of w u] w(2) an(1) u by simp
          then show "deact_ok (insts s1 w)" using same(1) by (simp add: deact_ok_def)
        qed
        then show ?thesis using ina by simp
      qed
      then show ?thesis using off vu by simp
    qed
    then have "activity st'" unfolding activity_def flagged_off [OF fl] flagged_live [OF fl] flagged_same(3,8) [OF fl] same an(2) by blast
    then show ?thesis using deactivation.forest_flagged [OF f1 fl] by blast
  qed
qed

lemma activation_returns: "forest st \<Longrightarrow> v < next_vm st \<Longrightarrow> activateChildComponent throws d v st \<noteq> None"
  "forest st \<Longrightarrow> v < next_vm st \<Longrightarrow> deactivateChildComponent throws d v st \<noteq> None"
proof -
  assume f: "forest st" and v: "v < next_vm st"
  have n: "next_vm st - v < Suc (next_vm st)" by simp
  show "activateChildComponent throws d v st \<noteq> None"
  proof (cases d)
    case True
    define s1 where "s1 = upd v (\<lambda>i. i\<lparr>i_direct := False\<rparr>) st"
    have f1: "forest s1" "next_vm s1 = next_vm st" using direct_forest [OF f] by (simp_all add: s1_def upd_def)
    show ?thesis using activation.spread_returns [OF f1(1), of v "Suc (next_vm st)" throws] f1(2) n True
      unfolding activateChildComponent_def by (simp only: activate_direct [OF s1_def] simp_thms if_True if_False split: if_split) simp
  next
    case False
    then show ?thesis using activation.spread_returns [OF f n] by (simp only: activateChildComponent_def activate_spread simp_thms)
  qed
  show "deactivateChildComponent throws d v st \<noteq> None"
  proof (cases d)
    case True
    define s1 where "s1 = upd v (\<lambda>i. i\<lparr>i_direct := True\<rparr>) st"
    have f1: "forest s1" "next_vm s1 = next_vm st" using direct_forest [OF f] by (simp_all add: s1_def upd_def)
    show ?thesis using deactivation.spread_returns [OF f1(1), of v "Suc (next_vm st)" throws] f1(2) n True
      unfolding deactivateChildComponent_def by (simp only: deactivate_direct [OF s1_def] simp_thms if_True if_False split: if_split) simp
  next
    case False
    then show ?thesis using deactivation.spread_returns [OF f n] by (simp only: deactivateChildComponent_def deactivate_spread simp_thms)
  qed
qed

end
