(* ===== verification/LifecycleSteps.thy ===== *)
theory LifecycleSteps
  imports LifecycleProof
begin

text \<open>
  Destroying instances, the steps of a tree of instances, and what holds in every state the steps reach.
\<close>

section \<open>Destroying\<close>

definition nonbeing :: "life \<Rightarrow> nat set" where
  "nonbeing st = {v. v < next_vm st \<and> \<not> i_being (insts st v)}"

text \<open>
  What holds of destroyed instances, \<open>X\<close> being those whose destruction is under way: their hooks
  were called once, their watchers are torn down, the components they rendered are destroyed
  too (kept-alive ones excepted).
\<close>

definition cleaned :: "nat set \<Rightarrow> life \<Rightarrow> bool" where
  "cleaned X st \<longleftrightarrow>
     (\<forall>v. i_being (insts st v) \<longleftrightarrow> i_destroyed (insts st v)) \<and> (\<forall>v. i_being (insts st v) \<longrightarrow> v < next_vm st) \<and>
     (\<forall>v. count_list (hooks st) (v, ''beforeDestroy'') = (if i_destroyed (insts st v) then 1 else 0)) \<and>
     (\<forall>v. count_list (hooks st) (v, ''destroyed'') = (if i_destroyed (insts st v) \<and> v \<notin> X then 1 else 0)) \<and>
     (\<forall>v w. i_destroyed (insts st v) \<longrightarrow> i_watcher (insts st v) = Some w \<or> w \<in> set (i_watchers (insts st v)) \<longrightarrow> w \<in> set (torn st)) \<and>
     (\<forall>v c. i_destroyed (insts st v) \<longrightarrow> v \<notin> X \<longrightarrow> (c, False) \<in> set (i_tree (insts st v)) \<longrightarrow> i_destroyed (insts st c)) \<and>
     (\<forall>v c k. (c, k) \<in> set (i_tree (insts st v)) \<longrightarrow> c < next_vm st)"

lemma cleanedD:
  assumes "cleaned X st"
  shows "i_being (insts st v) \<longleftrightarrow> i_destroyed (insts st v)" "i_being (insts st v) \<Longrightarrow> v < next_vm st"
    "count_list (hooks st) (v, ''beforeDestroy'') = (if i_destroyed (insts st v) then 1 else 0)"
    "count_list (hooks st) (v, ''destroyed'') = (if i_destroyed (insts st v) \<and> v \<notin> X then 1 else 0)"
    "i_destroyed (insts st v) \<Longrightarrow> i_watcher (insts st v) = Some w \<or> w \<in> set (i_watchers (insts st v)) \<Longrightarrow> w \<in> set (torn st)"
    "i_destroyed (insts st v) \<Longrightarrow> v \<notin> X \<Longrightarrow> (c, False) \<in> set (i_tree (insts st v)) \<Longrightarrow> i_destroyed (insts st c)"
    "(c, k) \<in> set (i_tree (insts st v)) \<Longrightarrow> c < next_vm st"
  using assms unfolding cleaned_def by blast+

definition good :: "nat set \<Rightarrow> life \<Rightarrow> bool" where
  "good X st \<longleftrightarrow> forest st \<and> activity st \<and> cleaned X st"

text \<open>Activation and mounting leave all this alone.\<close>

definition still :: "(nat \<times> string) list \<Rightarrow> bool" where
  "still hs \<longleftrightarrow> snd ` set hs \<inter> {''beforeDestroy'', ''destroyed''} = {}"

definition calm :: "life \<Rightarrow> life \<Rightarrow> bool" where
  "calm st st' \<longleftrightarrow> next_vm st' = next_vm st \<and> torn st' = torn st \<and> (\<exists>hs. hooks st' = hooks st @ hs \<and> still hs) \<and>
     (\<forall>u. i_being (insts st' u) = i_being (insts st u) \<and> i_destroyed (insts st' u) = i_destroyed (insts st u) \<and>
          i_tree (insts st' u) = i_tree (insts st u) \<and> i_watcher (insts st' u) = i_watcher (insts st u) \<and>
          i_watchers (insts st' u) = i_watchers (insts st u))"

lemma calm_trans:
  assumes 1: "calm st st1" and 2: "calm st1 st2"
  shows "calm st st2"
proof -
  obtain hs1 hs2 where "hooks st1 = hooks st @ hs1" "still hs1" "hooks st2 = hooks st1 @ hs2" "still hs2"
    using 1 2 unfolding calm_def by blast
  then have "hooks st2 = hooks st @ (hs1 @ hs2) \<and> still (hs1 @ hs2)" by (auto simp: still_def)
  then show ?thesis using 1 2 unfolding calm_def by auto
qed

lemma calm_flagged: "flagged st st' \<Longrightarrow> calm st st'"
proof -
  assume f: "flagged st st'"
  then obtain hs where "hooks st' = hooks st @ hs" "quiet hs" unfolding flagged_def by blast
  then have "hooks st' = hooks st @ hs \<and> still hs" by (auto simp: quiet_def still_def)
  then show ?thesis unfolding calm_def using flagged_same [OF f] by blast
qed

lemma calm_upd:
  assumes "\<And>i. i_being (f i) = i_being i \<and> i_destroyed (f i) = i_destroyed i \<and> i_tree (f i) = i_tree i \<and> i_watcher (f i) = i_watcher i \<and> i_watchers (f i) = i_watchers i"
  shows "calm st (upd v f st)"
  using assms by (simp add: calm_def upd_def still_def)

lemma activate_calm: "forest st \<Longrightarrow> activate_n throws (Suc n) True v st = Some st' \<Longrightarrow> calm st st'"
proof -
  assume f: "forest st" and a: "activate_n throws (Suc n) True v st = Some st'"
  define s1 where "s1 = upd v (\<lambda>i. i\<lparr>i_direct := False\<rparr>) st"
  have "st' = s1 \<or> spread act_ok False ''activated'' throws (Suc n) v s1 = Some st'"
    using a activate_direct [OF s1_def] by (metis option.inject)
  then have "flagged s1 st'"
    using activation.spread_marks [of s1 throws "Suc n" v st'] direct_forest [OF f, of v False] flagged_refl
    by (auto simp: activation.marked_def s1_def)
  moreover have "calm st s1" unfolding s1_def by (rule calm_upd) simp
  ultimately show ?thesis using calm_flagged calm_trans by blast
qed

lemma deactivate_calm: "forest st \<Longrightarrow> deactivate_n throws (Suc n) True v st = Some st' \<Longrightarrow> calm st st'"
proof -
  assume f: "forest st" and a: "deactivate_n throws (Suc n) True v st = Some st'"
  define s1 where "s1 = upd v (\<lambda>i. i\<lparr>i_direct := True\<rparr>) st"
  have "st' = s1 \<or> spread deact_ok True ''deactivated'' throws (Suc n) v s1 = Some st'"
    using a deactivate_direct [OF s1_def] by (metis option.inject)
  then have "flagged s1 st'"
    using deactivation.spread_marks [of s1 throws "Suc n" v st'] direct_forest [OF f, of v True] flagged_refl
    by (auto simp: deactivation.marked_def s1_def)
  moreover have "calm st s1" unfolding s1_def by (rule calm_upd) simp
  ultimately show ?thesis using calm_flagged calm_trans by blast
qed

lemma cleaned_calm:
  assumes c: "cleaned X st" and k: "calm st st'"
  shows "cleaned X st'"
proof -
  obtain hs where hs: "hooks st' = hooks st @ hs" "still hs" using k unfolding calm_def by blast
  have "count_list hs (v, ''beforeDestroy'') = 0 \<and> count_list hs (v, ''destroyed'') = 0" for v
    using hs(2) by (force simp: still_def count_list_0_iff)
  then have n: "count_list (hooks st') (v, h) = count_list (hooks st) (v, h)" if "h = ''beforeDestroy'' \<or> h = ''destroyed''" for v h
    using that hs(1) by auto
  have s: "next_vm st' = next_vm st" "torn st' = torn st"
    "i_being (insts st' u) = i_being (insts st u)" "i_destroyed (insts st' u) = i_destroyed (insts st u)"
    "i_tree (insts st' u) = i_tree (insts st u)" "i_watcher (insts st' u) = i_watcher (insts st u)"
    "i_watchers (insts st' u) = i_watchers (insts st u)" for u using k unfolding calm_def by blast+
  show ?thesis using c unfolding cleaned_def by (simp add: n s)
qed

text \<open>The beginning of a destruction\<close>

lemma start_insts:
  assumes "i_parent (insts st v) \<noteq> Some v"
  shows "insts (start_destroy throws v st) u =
     (if u = v then (insts st v)\<lparr>i_being := True, i_destroyed := True\<rparr>
      else if i_parent (insts st v) = Some u \<and> \<not> i_being (insts st u) \<and> \<not> i_abstract (insts st v) then
        (insts st u)\<lparr>i_children := remove1 v (i_children (insts st u))\<rparr>
      else insts st u)"
  using assms by (auto simp: start_destroy_def teardown_all_def unlink_def upd_def remove_item_eq Let_def split: option.split)

lemma start_rest:
  "next_vm (start_destroy throws v st) = next_vm st" "hooks (start_destroy throws v st) = hooks st @ [(v, ''beforeDestroy'')]"
  by (simp_all add: start_destroy_def teardown_all_def unlink_def upd_def split: option.split)

lemma start_torn:
  assumes "i_parent (insts st v) \<noteq> Some v"
  shows "torn (start_destroy throws v st) =
    torn st @ (case i_watcher (insts st v) of Some w \<Rightarrow> [w] | None \<Rightarrow> []) @ rev (i_watchers (insts st v))"
  using assms by (simp add: start_destroy_def teardown_all_def unlink_def upd_def split: option.split)

lemma start_same:
  assumes "i_parent (insts st v) \<noteq> Some v"
  shows "i_parent (insts (start_destroy throws v st) u) = i_parent (insts st u)"
    "i_abstract (insts (start_destroy throws v st) u) = i_abstract (insts st u)"
    "i_direct (insts (start_destroy throws v st) u) = i_direct (insts st u)"
    "i_inactive (insts (start_destroy throws v st) u) = i_inactive (insts st u)"
    "i_tree (insts (start_destroy throws v st) u) = i_tree (insts st u)"
    "i_watcher (insts (start_destroy throws v st) u) = i_watcher (insts st u)"
    "i_watchers (insts (start_destroy throws v st) u) = i_watchers (insts st u)"
    "i_being (insts (start_destroy throws v st) u) \<longleftrightarrow> u = v \<or> i_being (insts st u)"
    "i_destroyed (insts (start_destroy throws v st) u) \<longleftrightarrow> u = v \<or> i_destroyed (insts st u)"
    "i_children (insts (start_destroy throws v st) u) =
      (if u \<noteq> v \<and> i_parent (insts st v) = Some u \<and> \<not> i_being (insts st u) \<and> \<not> i_abstract (insts st v) then remove1 v (i_children (insts st u))
       else i_children (insts st u))"
  by (simp_all add: start_insts [OF assms])

lemma anc_same:
  assumes "\<And>u. i_parent (insts st' u) = i_parent (insts st u)"
  shows "anc st' a u \<longleftrightarrow> anc st a u"
proof -
  have "anc st' a u \<Longrightarrow> anc st a u" by (induction rule: anc.induct) (auto intro: anc.intros simp: assms)
  moreover have "anc st a u \<Longrightarrow> anc st' a u" by (induction rule: anc.induct) (auto intro: anc.intros simp: assms)
  ultimately show ?thesis by blast
qed

lemma start_forest:
  assumes f: "forest st" and v: "v < next_vm st"
  shows "forest (start_destroy throws v st)"
proof -
  have p: "i_parent (insts st v) \<noteq> Some v" using forestD(3) [OF f, of v v] by auto
  note s = start_same [OF p, of throws] start_rest(1) [of throws v st]
  have sub: "c \<in> set (i_children (insts st u))" if "c \<in> set (i_children (insts (start_destroy throws v st) u))" for c u
    using that subsetD [OF set_remove1_subset, of c v "i_children (insts st u)"] unfolding s by (auto split: if_splits)
  show ?thesis unfolding forest_def
  proof (intro conjI allI impI)
    fix u c
    assume c: "c \<in> set (i_children (insts (start_destroy throws v st) u))"
    show "i_parent (insts (start_destroy throws v st) c) = Some u" unfolding s using forestD(1) [OF f] sub [OF c] by blast
    show "\<not> i_abstract (insts (start_destroy throws v st) c)" unfolding s using forestD(2) [OF f] sub [OF c] by blast
  next
    fix c u
    assume c: "i_parent (insts (start_destroy throws v st) c) = Some u"
    show "u < c" "c < next_vm (start_destroy throws v st)" using forestD(3,4) [OF f] c unfolding s by blast+
  next
    fix c u
    assume c: "i_parent (insts (start_destroy throws v st) c) = Some u" "\<not> i_abstract (insts (start_destroy throws v st) c)"
    show "\<not> i_abstract (insts (start_destroy throws v st) u)" using forestD(5) [OF f] c unfolding s by blast
    assume b: "\<not> i_being (insts (start_destroy throws v st) c)" "\<not> i_being (insts (start_destroy throws v st) u)"
    have "c \<in> set (i_children (insts st u))" using forestD(7) [OF f, of c u] c b unfolding s by blast
    then show "c \<in> set (i_children (insts (start_destroy throws v st) u))" using b unfolding s by simp
  next
    fix c
    assume "c < next_vm (start_destroy throws v st)" "i_abstract (insts (start_destroy throws v st) c)"
    then show "i_parent (insts (start_destroy throws v st) c) \<noteq> None" using forestD(6) [OF f] unfolding s by blast
  next
    fix u
    show "distinct (i_children (insts (start_destroy throws v st) u))" unfolding s using forestD(8) [OF f, of u] by simp
  next
    fix c u
    assume c: "c \<in> set (i_children (insts (start_destroy throws v st) u))" "i_being (insts (start_destroy throws v st) c)"
    show "i_being (insts (start_destroy throws v st) u)"
    proof (cases "c = v")
      case False
      then show ?thesis using forestD(9) [OF f sub [OF c(1)]] c(2) unfolding s by blast
    next
      case True
      have pu: "i_parent (insts st v) = Some u" "\<not> i_abstract (insts st v)" using forestD(1,2) [OF f sub [OF c(1)]] True by blast+
      show ?thesis
      proof (rule ccontr)
        assume "\<not> ?thesis"
        then have "u \<noteq> v" "\<not> i_being (insts st u)" unfolding s by blast+
        then show False using c(1) pu True forestD(8) [OF f, of u] unfolding s by simp
      qed
    qed
  qed
qed

lemma start_good:
  assumes g: "good X st" and v: "v < next_vm st" "\<not> i_being (insts st v)"
  shows "good (insert v X) (start_destroy throws v st)"
proof -
  have f: "forest st" and act: "activity st" and c: "cleaned X st" using g by (simp_all add: good_def)
  have p: "i_parent (insts st v) \<noteq> Some v" using forestD(3) [OF f, of v v] by auto
  note s = start_same [OF p, of throws] start_rest [of throws v st]
  have an: "anc (start_destroy throws v st) a u \<longleftrightarrow> anc st a u" for a u by (rule anc_same) (rule s)
  have "live (start_destroy throws v st) u \<Longrightarrow> live st u" for u unfolding live_def an s by blast
  moreover have "off (start_destroy throws v st) u = off st u" for u unfolding off_def an s ..
  ultimately have "activity (start_destroy throws v st)" using act unfolding activity_def s by blast
  moreover have "cleaned (insert v X) (start_destroy throws v st)"
    unfolding cleaned_def
  proof (intro conjI allI impI)
    have d: "\<not> i_destroyed (insts st v)" using v(2) cleanedD(1) [OF c] by blast
    fix u
    show "i_being (insts (start_destroy throws v st) u) = i_destroyed (insts (start_destroy throws v st) u)"
      unfolding s using cleanedD(1) [OF c] by blast
    show "count_list (hooks (start_destroy throws v st)) (u, ''beforeDestroy'') = (if i_destroyed (insts (start_destroy throws v st) u) then 1 else 0)"
      unfolding s using cleanedD(3) [OF c, of u] d by (cases "u = v") auto
    show "count_list (hooks (start_destroy throws v st)) (u, ''destroyed'') =
        (if i_destroyed (insts (start_destroy throws v st) u) \<and> u \<notin> insert v X then 1 else 0)"
      unfolding s using cleanedD(4) [OF c, of u] d by simp
  next
    fix u assume "i_being (insts (start_destroy throws v st) u)"
    then show "u < next_vm (start_destroy throws v st)" unfolding s using cleanedD(2) [OF c] v(1) by blast
  next
    fix u w assume "i_destroyed (insts (start_destroy throws v st) u)"
      "i_watcher (insts (start_destroy throws v st) u) = Some w \<or> w \<in> set (i_watchers (insts (start_destroy throws v st) u))"
    then show "w \<in> set (torn (start_destroy throws v st))" unfolding s start_torn [OF p] using cleanedD(5) [OF c, of u w] by auto
  next
    fix u c' assume "i_destroyed (insts (start_destroy throws v st) u)" "u \<notin> insert v X" "(c', False) \<in> set (i_tree (insts (start_destroy throws v st) u))"
    then show "i_destroyed (insts (start_destroy throws v st) c')" unfolding s using cleanedD(6) [OF c] by blast
  next
    fix u c' k assume "(c', k) \<in> set (i_tree (insts (start_destroy throws v st) u))"
    then show "c' < next_vm (start_destroy throws v st)" unfolding s using cleanedD(7) [OF c] by blast
  qed
  ultimately show ?thesis using start_forest [OF f v(1)] by (simp add: good_def)
qed

lemma end_same:
  "i_parent (insts (end_destroy throws v st) u) = i_parent (insts st u)" "i_abstract (insts (end_destroy throws v st) u) = i_abstract (insts st u)"
  "i_direct (insts (end_destroy throws v st) u) = i_direct (insts st u)" "i_inactive (insts (end_destroy throws v st) u) = i_inactive (insts st u)"
  "i_tree (insts (end_destroy throws v st) u) = i_tree (insts st u)" "i_watcher (insts (end_destroy throws v st) u) = i_watcher (insts st u)"
  "i_watchers (insts (end_destroy throws v st) u) = i_watchers (insts st u)" "i_being (insts (end_destroy throws v st) u) = i_being (insts st u)"
  "i_destroyed (insts (end_destroy throws v st) u) = i_destroyed (insts st u)" "i_children (insts (end_destroy throws v st) u) = i_children (insts st u)"
  "next_vm (end_destroy throws v st) = next_vm st" "hooks (end_destroy throws v st) = hooks st @ [(v, ''destroyed'')]"
  "torn (end_destroy throws v st) = torn st"
  by (simp_all add: end_destroy_def upd_def)

lemma end_good:
  assumes g: "good (insert v X) st" and v: "v \<notin> X" "i_destroyed (insts st v)"
    and t: "\<And>c. (c, False) \<in> set (i_tree (insts st v)) \<Longrightarrow> i_destroyed (insts st c)"
  shows "good X (end_destroy throws v st)"
proof -
  have f: "forest st" and act: "activity st" and c: "cleaned (insert v X) st" using g by (simp_all add: good_def)
  have an: "anc (end_destroy throws v st) a u \<longleftrightarrow> anc st a u" for a u by (rule anc_same) (rule end_same)
  have "forest (end_destroy throws v st)" using f unfolding forest_def end_same .
  moreover have "activity (end_destroy throws v st)" using act unfolding activity_def live_def off_def an end_same .
  moreover have "cleaned X (end_destroy throws v st)"
    unfolding cleaned_def end_same
  proof (intro conjI allI impI)
    fix u
    show "i_being (insts st u) = i_destroyed (insts st u)" by (rule cleanedD(1) [OF c])
    show "count_list (hooks st @ [(v, ''destroyed'')]) (u, ''beforeDestroy'') = (if i_destroyed (insts st u) then 1 else 0)"
      using cleanedD(3) [OF c, of u] by simp
    show "count_list (hooks st @ [(v, ''destroyed'')]) (u, ''destroyed'') = (if i_destroyed (insts st u) \<and> u \<notin> X then 1 else 0)"
      using cleanedD(4) [OF c, of u] v by (cases "u = v") auto
  next
    fix u assume "i_being (insts st u)"
    then show "u < next_vm st" by (rule cleanedD(2) [OF c])
  next
    fix u w assume "i_destroyed (insts st u)" "i_watcher (insts st u) = Some w \<or> w \<in> set (i_watchers (insts st u))"
    then show "w \<in> set (torn st)" by (rule cleanedD(5) [OF c])
  next
    fix u c' assume u: "i_destroyed (insts st u)" "u \<notin> X" "(c', False) \<in> set (i_tree (insts st u))"
    then show "i_destroyed (insts st c')" using t cleanedD(6) [OF c u(1) _ u(3)] by (cases "u = v") auto
  next
    fix u c' k assume "(c', k) \<in> set (i_tree (insts st u))"
    then show "c' < next_vm st" by (rule cleanedD(7) [OF c])
  qed
  ultimately show ?thesis by (simp add: good_def)
qed


text \<open>From \<open>st\<close> to \<open>st'\<close> instances are only destroyed.\<close>

definition grows :: "life \<Rightarrow> life \<Rightarrow> bool" where
  "grows st st' \<longleftrightarrow> next_vm st' = next_vm st \<and>
     (\<forall>u. (i_being (insts st u) \<longrightarrow> i_being (insts st' u)) \<and> i_tree (insts st' u) = i_tree (insts st u))"

lemma ever_refl: "grows st st"
  by (simp add: grows_def)

lemma ever_trans: "grows st st1 \<Longrightarrow> grows st1 st2 \<Longrightarrow> grows st st2"
  unfolding grows_def by metis

lemma grows_calm: "calm st st' \<Longrightarrow> grows st st'"
  unfolding grows_def calm_def by blast

lemma grows_nonbeing: "grows st st' \<Longrightarrow> nonbeing st' \<subseteq> nonbeing st"
  unfolding grows_def nonbeing_def by auto

lemma nonbeing_finite: "finite (nonbeing st)"
  by (rule finite_subset [of _ "{..<next_vm st}"]) (auto simp: nonbeing_def)

lemma nonbeing_card: "card (nonbeing st) < Suc (next_vm st)"
proof -
  have "nonbeing st \<subseteq> {..<next_vm st}" by (auto simp: nonbeing_def)
  then have "card (nonbeing st) \<le> card {..<next_vm st}" by (intro card_mono) simp_all
  then show ?thesis by simp
qed

lemma good_deactivate:
  assumes g: "good X st" and c: "c < next_vm st"
  shows "\<exists>st'. deactivateChildComponent throws True c st = Some st' \<and> good X st' \<and> grows st st'"
proof -
  have f: "forest st" using g by (simp add: good_def)
  obtain st' where st': "deactivateChildComponent throws True c st = Some st'" using activation_returns(2) [OF f c] by blast
  then have d: "deactivate_n throws (Suc (next_vm st)) True c st = Some st'" by (simp add: deactivateChildComponent_def)
  have k: "calm st st'" by (rule deactivate_calm [OF f d])
  have "good X st'" using deactivate_keeps [OF f _ d] cleaned_calm [OF _ k] g by (simp add: good_def)
  then show ?thesis using st' grows_calm [OF k] by blast
qed

lemma destroy_good:
  "good X st \<Longrightarrow> v < next_vm st \<Longrightarrow> X \<subseteq> Collect (\<lambda>u. i_destroyed (insts st u)) \<Longrightarrow> card (nonbeing st) < n \<Longrightarrow>
   \<exists>st'. destroy_n throws n v st = Some st' \<and> good X st' \<and> grows st st' \<and> i_destroyed (insts st' v)"
proof (induction n arbitrary: X st v)
  case (Suc n)
  note g = Suc.prems(1)
  have c: "cleaned X st" using g by (simp add: good_def)
  show ?case
  proof (cases "i_being (insts st v)")
    case True
    then have "i_destroyed (insts st v)" using cleanedD(1) [OF c] by blast
    then show ?thesis using True g ever_refl by auto
  next
    case False
    define s1 where "s1 = start_destroy throws v st"
    have f: "forest st" using g by (simp add: good_def)
    have p: "i_parent (insts st v) \<noteq> Some v" using forestD(3) [OF f, of v v] by auto
    note s = start_same [OF p, of throws, folded s1_def] start_rest(1) [of throws v st, folded s1_def]
    have g1: "good (insert v X) s1" unfolding s1_def by (rule start_good [OF g Suc.prems(2) False])
    have gr1: "grows st s1" unfolding grows_def s by blast
    have "v \<in> nonbeing st" "v \<notin> nonbeing s1" using False Suc.prems(2) by (simp_all add: nonbeing_def s)
    then have "nonbeing s1 \<subset> nonbeing st" using grows_nonbeing [OF gr1] by blast
    then have "card (nonbeing s1) < card (nonbeing st)" by (rule psubset_card_mono [OF nonbeing_finite])
    then have card: "card (nonbeing s1) < n" using Suc.prems(4) by linarith
    have d1: "insert v X \<subseteq> Collect (\<lambda>u. i_destroyed (insts s1 u))" unfolding s using Suc.prems(3) by blast
    have "\<exists>s2. invokeDestroyHooks (destroy_n throws n) throws xs s = Some s2 \<and> good (insert v X) s2 \<and> grows s s2 \<and>
        (\<forall>c. (c, False) \<in> set xs \<longrightarrow> i_destroyed (insts s2 c))"
      if "good (insert v X) s" "grows s1 s" "\<And>c k. (c, k) \<in> set xs \<Longrightarrow> c < next_vm s" for xs s
      using that
    proof (induction xs arbitrary: s)
      case Nil
      then show ?case by (auto intro: ever_refl)
    next
      case (Cons x xs)
      obtain c k where x: "x = (c, k)" by (cases x)
      have cs: "cleaned (insert v X) s" using Cons.prems(1) by (simp add: good_def)
      have cn: "c < next_vm s" using Cons.prems(3) x by auto
      have "\<exists>s'. destroy_hook (destroy_n throws n) throws x s = Some s' \<and> good (insert v X) s' \<and> grows s s' \<and>
          (k = False \<longrightarrow> i_destroyed (insts s' c))"
      proof (cases "i_destroyed (insts s c)")
        case True
        then show ?thesis using Cons.prems(1) ever_refl by (simp add: x destroy_hook_def)
      next
        case False
        show ?thesis
        proof (cases k)
          case True
          then show ?thesis using good_deactivate [OF Cons.prems(1) cn] \<open>\<not> i_destroyed (insts s c)\<close> by (simp add: x destroy_hook_def)
        next
          case nk: False
          have "\<exists>s'. destroy_n throws n c s = Some s' \<and> good (insert v X) s' \<and> grows s s' \<and> i_destroyed (insts s' c)"
          proof (rule Suc.IH [OF Cons.prems(1) cn])
            have "i_destroyed (insts s u)" if "u \<in> insert v X" for u
            proof -
              have "i_destroyed (insts s1 u)" using d1 that by blast
              then have "i_being (insts s1 u)" using cleanedD(1) [of "insert v X" s1 u] g1 by (simp add: good_def)
              then show ?thesis using Cons.prems(2) cleanedD(1) [OF cs] unfolding grows_def by blast
            qed
            then show "insert v X \<subseteq> Collect (\<lambda>u. i_destroyed (insts s u))" by blast
            show "card (nonbeing s) < n" using card_mono [OF nonbeing_finite grows_nonbeing [OF Cons.prems(2)]] card by linarith
          qed
          then show ?thesis using False nk by (simp add: x destroy_hook_def)
        qed
      qed
      then obtain s' where s': "destroy_hook (destroy_n throws n) throws x s = Some s'" "good (insert v X) s'" "grows s s'"
        "k = False \<longrightarrow> i_destroyed (insts s' c)" by blast
      have "next_vm s' = next_vm s" using s'(3) by (simp add: grows_def)
      then obtain s2 where s2: "invokeDestroyHooks (destroy_n throws n) throws xs s' = Some s2" "good (insert v X) s2" "grows s' s2"
        "\<forall>c. (c, False) \<in> set xs \<longrightarrow> i_destroyed (insts s2 c)"
        using Cons.IH [OF s'(2) ever_trans [OF Cons.prems(2) s'(3)]] Cons.prems(3) by (metis list.set_intros(2))
      have "i_destroyed (insts s2 c)" if "k = False"
      proof -
        have "i_being (insts s' c)" using s'(4) that cleanedD(1) [of "insert v X" s' c] s'(2) by (simp add: good_def)
        then have "i_being (insts s2 c)" using s2(3) by (simp add: grows_def)
        then show ?thesis using cleanedD(1) [of "insert v X" s2 c] s2(2) by (simp add: good_def)
      qed
      then show ?case using s'(1) s2 ever_trans [OF s'(3) s2(3)] x by auto
    qed
    moreover have "\<And>c k. (c, k) \<in> set (i_tree (insts s1 v)) \<Longrightarrow> c < next_vm s1"
      using cleanedD(7) [of "insert v X" s1] g1 by (simp add: good_def)
    ultimately obtain s2 where s2: "invokeDestroyHooks (destroy_n throws n) throws (i_tree (insts s1 v)) s1 = Some s2"
      "good (insert v X) s2" "grows s1 s2" "\<forall>c. (c, False) \<in> set (i_tree (insts s1 v)) \<longrightarrow> i_destroyed (insts s2 c)"
      using g1 ever_refl by blast
    have r: "destroy_n throws (Suc n) v st = Some (end_destroy throws v s2)" using False s2(1) by (simp add: s1_def Let_def)
    have t2: "i_tree (insts s2 v) = i_tree (insts s1 v)" using s2(3) by (simp add: grows_def)
    have "i_being (insts s1 v)" unfolding s by simp
    then have "i_being (insts s2 v)" using s2(3) by (simp add: grows_def)
    then have dv: "i_destroyed (insts s2 v)" using cleanedD(1) [of "insert v X" s2 v] s2(2) by (simp add: good_def)
    have "v \<notin> X" using False Suc.prems(3) cleanedD(1) [OF c] by blast
    then have "good X (end_destroy throws v s2)" using end_good [OF s2(2) _ dv] s2(4) t2 by simp
    moreover have "grows s2 (end_destroy throws v s2)" by (simp add: grows_def end_same)
    ultimately show ?thesis using r ever_trans [OF ever_trans [OF gr1 s2(3)]] dv end_same(9) by auto
  qed
qed simp


section \<open>Creation\<close>

lemma first_concrete_ok:
  assumes f: "forest st"
  shows "q < next_vm st \<Longrightarrow> q \<le> n \<Longrightarrow> \<not> i_abstract (insts st (first_concrete n st q)) \<and> first_concrete n st q \<le> q"
proof (induction n arbitrary: q)
  case 0
  have "\<not> i_abstract (insts st q)"
  proof
    assume "i_abstract (insts st q)"
    then obtain p where "i_parent (insts st q) = Some p" using forestD(6) [OF f 0(1)] by blast
    then show False using forestD(3) [OF f] 0(2) by fastforce
  qed
  then show ?case by simp
next
  case (Suc n)
  show ?case
  proof (cases "i_abstract (insts st q)")
    case True
    then obtain p where p: "i_parent (insts st q) = Some p" using forestD(6) [OF f Suc.prems(1)] by blast
    have "p < q" by (rule forestD(3) [OF f p])
    then show ?thesis using Suc.IH [of p] Suc.prems True p by simp
  qed simp
qed

definition may_create :: "nat option \<Rightarrow> bool \<Rightarrow> life \<Rightarrow> bool" where
  "may_create p abstract st \<longleftrightarrow>
     (case p of
        None \<Rightarrow> \<not> abstract
      | Some q \<Rightarrow> q < next_vm st \<and> (abstract \<or> i_inactive (insts st (first_concrete q st q)) \<noteq> Some True))"

definition new_parent :: "nat option \<Rightarrow> bool \<Rightarrow> life \<Rightarrow> nat option" where
  "new_parent p abstract st = (case p of Some q \<Rightarrow> if abstract then Some q else Some (first_concrete q st q) | None \<Rightarrow> None)"

lemma create_same:
  fixes p abstract proto st
  defines "st' \<equiv> initLifecycle p abstract proto st" and "v \<equiv> next_vm st" and "q \<equiv> new_parent p abstract st"
  assumes q: "q \<noteq> Some v"
  shows "next_vm st' = Suc v" "hooks st' = hooks st" "torn st' = torn st"
    "i_parent (insts st' u) = (if u = v then q else i_parent (insts st u))"
    "i_abstract (insts st' u) = (if u = v then abstract else i_abstract (insts st u))"
    "i_children (insts st' u) = (if u = v then [] else if q = Some u \<and> \<not> abstract then i_children (insts st u) @ [v] else i_children (insts st u))"
    "i_inactive (insts st' u) = (if u = v then None else i_inactive (insts st u))"
    "i_direct (insts st' u) = (if u = v then False else i_direct (insts st u))"
    "i_being (insts st' u) = (if u = v then False else i_being (insts st u))"
    "i_destroyed (insts st' u) = (if u = v then False else i_destroyed (insts st u))"
    "i_tree (insts st' u) = (if u = v then [] else i_tree (insts st u))"
    "u \<noteq> v \<Longrightarrow> i_watcher (insts st' u) = i_watcher (insts st u)" "u \<noteq> v \<Longrightarrow> i_watchers (insts st' u) = i_watchers (insts st u)"
  using q unfolding assms(1-3) initLifecycle_def new_parent_def Let_def
  by (auto simp: upd_def split: option.splits if_splits)

lemma create_good:
  assumes g: "good {} st" and m: "may_create p abstract st"
  shows "good {} (initLifecycle p abstract proto st)"
proof -
  define st' where "st' = initLifecycle p abstract proto st"
  define v where "v = next_vm st"
  define q where "q = new_parent p abstract st"
  have f: "forest st" and act: "activity st" and c: "cleaned {} st" using g by (simp_all add: good_def)
  have q: "\<And>x. q = Some x \<Longrightarrow> x < v \<and> (\<not> abstract \<longrightarrow> \<not> i_abstract (insts st x) \<and> i_inactive (insts st x) \<noteq> Some True)"
    using m first_concrete_ok [OF f] unfolding q_def new_parent_def may_create_def v_def
    by (auto split: option.splits if_splits intro: le_less_trans)
  then have qv: "q \<noteq> Some v" by auto
  note s = create_same [where p = p and abstract = abstract and st = st and proto = proto, folded v_def, folded q_def, OF qv, folded st'_def]
  have old: "u < v" if "i_parent (insts st u) = Some x" for u x using forestD(4) [OF f that] by (simp add: v_def)
  have kid: "u < v" if "u \<in> set (i_children (insts st x))" for u x using old [OF forestD(1) [OF f that]] .
  have an: "anc st' a u \<longleftrightarrow> anc st a u" if "u < v" for a u
  proof -
    have "anc st' a u \<Longrightarrow> u < v \<longrightarrow> anc st a u"
    proof (induction rule: anc.induct)
      case (up u x a)
      show ?case
      proof
        assume u: "u < v"
        then have p': "i_parent (insts st u) = Some x" using up(1) s(4) by simp
        then have "x < v" using forestD(3) [OF f p'] u by simp
        then show "anc st a u" using up.IH anc.up [OF p'] by blast
      qed
    qed (simp add: anc.self)
    moreover have "anc st a u \<Longrightarrow> u < v \<longrightarrow> anc st' a u"
    proof (induction rule: anc.induct)
      case (up u x a)
      show ?case
      proof
        assume u: "u < v"
        then have p': "i_parent (insts st' u) = Some x" using up(1) s(4) by simp
        have "x < v" using forestD(3) [OF f up(1)] u by simp
        then show "anc st' a u" using up.IH anc.up [OF p'] by blast
      qed
    qed (simp add: anc.self)
    ultimately show ?thesis using that by blast
  qed
  have same: "live st' u \<longleftrightarrow> live st u" "off st' u \<longleftrightarrow> off st u" if "u < v" for u
  proof -
    have ne: "a \<noteq> v" if "anc st a u" for a using anc_le [OF f that] \<open>u < v\<close> by simp
    show "live st' u \<longleftrightarrow> live st u" "off st' u \<longleftrightarrow> off st u"
      unfolding live_def off_def an [OF that] s using ne by auto
  qed
  have "forest st'"
    unfolding forest_def
  proof (intro conjI allI impI)
    fix u x
    assume "x \<in> set (i_children (insts st' u))"
    then have "x \<in> set (i_children (insts st u)) \<and> u \<noteq> v \<or> x = v \<and> q = Some u \<and> \<not> abstract" unfolding s by (auto split: if_splits)
    then show "i_parent (insts st' x) = Some u" "\<not> i_abstract (insts st' x)"
      using forestD(1,2) [OF f] kid unfolding s by fastforce+
  next
    fix x u
    assume "i_parent (insts st' x) = Some u"
    then show "u < x" "x < next_vm st'" using forestD(3) [OF f, of x u] old [of x u] q unfolding s by (auto split: if_splits)
  next
    fix x u
    assume "i_parent (insts st' x) = Some u" "\<not> i_abstract (insts st' x)"
    then show "\<not> i_abstract (insts st' u)" using forestD(5) [OF f, of x u] forestD(3) [OF f, of x u] old [of x u] q unfolding s by (auto split: if_splits)
  next
    fix x
    assume "x < next_vm st'" "i_abstract (insts st' x)"
    then show "i_parent (insts st' x) \<noteq> None"
      using forestD(6) [OF f, of x] m unfolding s by (auto simp: v_def q_def new_parent_def may_create_def less_Suc_eq split: if_splits option.splits)
  next
    fix x u
    assume "i_parent (insts st' x) = Some u" "\<not> i_abstract (insts st' x)" "\<not> i_being (insts st' x)" "\<not> i_being (insts st' u)"
    then show "x \<in> set (i_children (insts st' u))"
      using forestD(7) [OF f, of x u] forestD(3) [OF f, of x u] old [of x u] q unfolding s by (auto split: if_splits)
  next
    fix u
    show "distinct (i_children (insts st' u))" using forestD(8) [OF f, of u] kid [of v u] unfolding s by auto
  next
    fix x u
    assume "x \<in> set (i_children (insts st' u))" "i_being (insts st' x)"
    then show "i_being (insts st' u)" using forestD(9) [OF f, of x u] kid [of x u] unfolding s by (auto split: if_splits)
  qed
  moreover have "activity st'"
    unfolding activity_def
  proof (intro allI impI)
    fix u
    assume u: "u < next_vm st'" "\<not> i_abstract (insts st' u)" "live st' u"
    show "i_inactive (insts st' u) = Some True \<longleftrightarrow> off st' u"
    proof (cases "u = v")
      case False
      then have lt: "u < v" using u(1) s(1) by simp
      then show ?thesis using act u same [OF lt] False unfolding activity_def s by (simp add: v_def)
    next
      case True
      have "\<not> off st' v"
      proof
        assume "off st' v"
        then obtain d where d: "anc st' d v" "i_direct (insts st' d)" unfolding off_def by blast
        have "d \<noteq> v" using d(2) s(8) by auto
        then obtain x where x: "i_parent (insts st' v) = Some x" "anc st' d x" using d(1) by (auto elim: ancE)
        have qx: "q = Some x" using x(1) s(4) by simp
        have xv: "x < v" using q [OF qx] by blast
        have "off st' x" unfolding off_def using x(2) d(2) by blast
        then have "off st x" using same(2) [OF xv] by blast
        moreover have "live st x" using live_up [OF u(3), of x] True anc.up [OF x(1) anc.self] same(1) [OF xv] by blast
        moreover have "\<not> abstract" using u(2) True s(5) by simp
        ultimately show False using act q [OF qx] xv unfolding activity_def by (auto simp: v_def)
      qed
      then show ?thesis using True s(7) by simp
    qed
  qed
  moreover have "cleaned {} st'"
  proof -
    have nv: "\<not> i_being (insts st v)" "\<not> i_destroyed (insts st v)" using cleanedD(1,2) [OF c, of v] by (auto simp: v_def)
    show ?thesis unfolding cleaned_def
    proof (intro conjI allI impI)
      fix u
      show "i_being (insts st' u) = i_destroyed (insts st' u)" unfolding s using cleanedD(1) [OF c] by simp
      show "count_list (hooks st') (u, ''beforeDestroy'') = (if i_destroyed (insts st' u) then 1 else 0)"
        unfolding s using cleanedD(3) [OF c, of u] nv by simp
      show "count_list (hooks st') (u, ''destroyed'') = (if i_destroyed (insts st' u) \<and> u \<notin> {} then 1 else 0)"
        unfolding s using cleanedD(4) [OF c, of u] nv by simp
    next
      fix u assume "i_being (insts st' u)"
      then show "u < next_vm st'" unfolding s using cleanedD(2) [OF c, of u] by (auto simp: v_def split: if_splits)
    next
      fix u w assume "i_destroyed (insts st' u)" "i_watcher (insts st' u) = Some w \<or> w \<in> set (i_watchers (insts st' u))"
      moreover from this have "u \<noteq> v" using s(10) by auto
      ultimately show "w \<in> set (torn st')" using s(3) s(10,12,13) [of u] cleanedD(5) [OF c, of u w] by simp
    next
      fix u c' assume "i_destroyed (insts st' u)" "u \<notin> {}" "(c', False) \<in> set (i_tree (insts st' u))"
      then show "i_destroyed (insts st' c')" using cleanedD(6) [OF c, of u c'] cleanedD(7) [OF c, of c' False u] unfolding s by (auto simp: v_def split: if_splits)
    next
      fix u c' k assume "(c', k) \<in> set (i_tree (insts st' u))"
      then show "c' < next_vm st'" using cleanedD(7) [OF c, of c' k u] unfolding s by (auto simp: v_def split: if_splits)
    qed
  qed
  ultimately show ?thesis by (simp add: good_def st'_def)
qed


section \<open>The steps\<close>

text \<open>
  An instance is created (not below an inactive parent), renders (its tree of components changes until it
  is destroyed), its vnode is inserted, is activated or deactivated by itself, or it is destroyed.
\<close>

inductive life_step :: "(nat \<Rightarrow> bool) \<Rightarrow> life \<Rightarrow> life \<Rightarrow> bool" for throws where
  created: "may_create p abstract st \<Longrightarrow> life_step throws st (initLifecycle p abstract proto st)"
| rendered: "\<not> i_destroyed (insts st v) \<Longrightarrow> (\<And>c k. (c, k) \<in> set xs \<Longrightarrow> c < next_vm st) \<Longrightarrow>
     life_step throws st (upd v (\<lambda>i. i\<lparr>i_tree := xs\<rparr>) st)"
| inserted: "c < next_vm st \<Longrightarrow> insert_hook throws False c keep st = Some st' \<Longrightarrow> life_step throws st st'"
| reinserted: "c < next_vm st \<Longrightarrow> insert_hook throws True c True st = Some s \<Longrightarrow> callActivatedHooks throws [c] s = Some st' \<Longrightarrow>
     life_step throws st st'"
| deactivated: "c < next_vm st \<Longrightarrow> deactivateChildComponent throws True c st = Some st' \<Longrightarrow> life_step throws st st'"
| destroyed: "v < next_vm st \<Longrightarrow> destroy_1 throws v st = Some st' \<Longrightarrow> life_step throws st st'"

definition no_inst :: inst where
  "no_inst = \<lparr>i_parent = None, i_root = 0, i_abstract = False, i_children = [], i_inactive = None, i_direct = False, i_mounted = False,
     i_destroyed = False, i_being = False, i_tree = [], i_watcher = None, i_watchers = [], i_data = None, i_handlers = (\<lambda>_. []),
     i_hookEvent = False, i_listening = True, i_linked = True\<rparr>"

definition no_life :: life where
  "no_life = \<lparr>insts = (\<lambda>_. no_inst), next_vm = 0, hooks = [], called = [], handled_hooks = [], hook_events = [], torn = [],
     vm_counts = (\<lambda>_. 0), activated_queue = []\<rparr>"

definition life_reachable :: "(nat \<Rightarrow> bool) \<Rightarrow> life \<Rightarrow> bool" where
  "life_reachable throws st \<longleftrightarrow> (life_step throws)\<^sup>*\<^sup>* no_life st"

lemma mount_calm: "calm st (if \<not> i_mounted (insts st c) then callHook throws c ''mounted'' (upd c (\<lambda>i. i\<lparr>i_mounted := True\<rparr>) st) else st)"
  by (simp add: calm_def upd_def still_def)

lemma forest_same:
  assumes "forest st" "next_vm st' = next_vm st" "\<And>u. i_parent (insts st' u) = i_parent (insts st u)"
    "\<And>u. i_children (insts st' u) = i_children (insts st u)" "\<And>u. i_abstract (insts st' u) = i_abstract (insts st u)"
    "\<And>u. i_being (insts st' u) = i_being (insts st u)"
  shows "forest st'"
  using assms(1) unfolding forest_def assms(2-6) .

lemma activity_same:
  assumes "activity st" "next_vm st' = next_vm st" "\<And>u. i_parent (insts st' u) = i_parent (insts st u)"
    "\<And>u. i_abstract (insts st' u) = i_abstract (insts st u)" "\<And>u. i_being (insts st' u) = i_being (insts st u)"
    "\<And>u. i_direct (insts st' u) = i_direct (insts st u)" "\<And>u. i_inactive (insts st' u) = i_inactive (insts st u)"
  shows "activity st'"
proof -
  have an: "anc st' a u \<longleftrightarrow> anc st a u" for a u by (rule anc_same) (rule assms(3))
  show ?thesis using assms(1) unfolding activity_def live_def off_def an assms(2-7) .
qed

lemma mount_good: "good X st \<Longrightarrow> good X (if \<not> i_mounted (insts st c) then callHook throws c ''mounted'' (upd c (\<lambda>i. i\<lparr>i_mounted := True\<rparr>) st) else st)"
proof -
  assume g: "good X st"
  define s1 where "s1 = (if \<not> i_mounted (insts st c) then callHook throws c ''mounted'' (upd c (\<lambda>i. i\<lparr>i_mounted := True\<rparr>) st) else st)"
  have k: "calm st s1" unfolding s1_def by (rule mount_calm)
  have s: "i_parent (insts s1 u) = i_parent (insts st u)" "i_children (insts s1 u) = i_children (insts st u)"
      "i_abstract (insts s1 u) = i_abstract (insts st u)" "i_being (insts s1 u) = i_being (insts st u)"
      "i_direct (insts s1 u) = i_direct (insts st u)" "i_inactive (insts s1 u) = i_inactive (insts st u)" "next_vm s1 = next_vm st" for u
    by (simp_all add: s1_def upd_def)
  have f: "forest st" "activity st" "cleaned X st" using g by (simp_all add: good_def)
  have "good X s1" using forest_same [OF f(1) s(7,1-4)] activity_same [OF f(2) s(7,1,3-6)] cleaned_calm [OF f(3) k] by (simp add: good_def)
  then show ?thesis unfolding s1_def .
qed

lemma activate_good:
  assumes g: "good X st" and a: "activateChildComponent throws True c st = Some st'"
  shows "good X st'"
proof -
  have d: "activate_n throws (Suc (next_vm st)) True c st = Some st'" using a by (simp add: activateChildComponent_def)
  have f: "forest st" "activity st" "cleaned X st" using g by (simp_all add: good_def)
  have "forest st' \<and> activity st'" by (rule activate_keeps [OF f(1) _ d]) (use f(2) in \<open>auto simp: activity_def\<close>)
  then show ?thesis using cleaned_calm [OF f(3) activate_calm [OF f(1) d]] by (simp add: good_def)
qed

text \<open>The queue of activated components sets the flag of the component first.\<close>

lemma reactivate_good:
  assumes g: "good X st" and q: "callActivatedHooks throws [c] (queueActivatedComponent c st) = Some st'"
  shows "good X st'"
proof -
  define s where "s = upd c (\<lambda>i. i\<lparr>i_inactive := Some True\<rparr>) (queueActivatedComponent c st)"
  have f: "forest st" "activity st" "cleaned X st" using g by (simp_all add: good_def)
  have d: "activate_n throws (Suc (next_vm s)) True c s = Some st'"
    using q by (simp add: s_def activateChildComponent_def split: option.splits)
  have i: "i_parent (insts s u) = i_parent (insts st u)" "i_children (insts s u) = i_children (insts st u)"
      "i_abstract (insts s u) = i_abstract (insts st u)" "i_being (insts s u) = i_being (insts st u)" "i_direct (insts s u) = i_direct (insts st u)"
      "u \<noteq> c \<Longrightarrow> i_inactive (insts s u) = i_inactive (insts st u)" for u
    by (simp_all add: s_def queueActivatedComponent_def upd_def)
  have n: "next_vm s = next_vm st" "i_inactive (insts s c) = Some True" by (simp_all add: s_def queueActivatedComponent_def upd_def)
  have k: "calm st s" by (simp add: calm_def s_def queueActivatedComponent_def upd_def still_def)
  have an: "anc s a u \<longleftrightarrow> anc st a u" for a u by (rule anc_same) (rule i(1))
  have fs: "forest s" by (rule forest_same [OF f(1) n(1) i(1-4)])
  have "forest st' \<and> activity st'"
  proof (rule activate_keeps [OF fs _ d])
    fix u
    assume u: "u \<noteq> c \<or> i_inactive (insts s c) \<noteq> Some True" "u < next_vm s" "\<not> i_abstract (insts s u)" "live s u"
    have ls: "live st u" using u(4) unfolding live_def an i .
    have os: "off s u = off st u" unfolding off_def an i ..
    have "u \<noteq> c" using u(1) n(2) by blast
    moreover have "i_inactive (insts st u) = Some True \<longleftrightarrow> off st u" using f(2) u(2,3) ls unfolding activity_def i(3) n by blast
    ultimately show "i_inactive (insts s u) = Some True \<longleftrightarrow> off s u" using i(6) [of u] os by simp
  qed
  then show ?thesis using cleaned_calm [OF cleaned_calm [OF f(3) k] activate_calm [OF fs d]] by (simp add: good_def)
qed

lemma step_good: "life_step throws st st' \<Longrightarrow> good {} st \<Longrightarrow> good {} st'"
proof (induction rule: life_step.induct)
  case (created p abstract st proto)
  then show ?case by (intro create_good)
next
  case (rendered st v xs)
  define s where "s = upd v (\<lambda>i. i\<lparr>i_tree := xs\<rparr>) st"
  have f: "forest st" "activity st" "cleaned {} st" using rendered(3) by (simp_all add: good_def)
  have i: "i_parent (insts s u) = i_parent (insts st u)" "i_children (insts s u) = i_children (insts st u)"
      "i_abstract (insts s u) = i_abstract (insts st u)" "i_being (insts s u) = i_being (insts st u)" "i_direct (insts s u) = i_direct (insts st u)"
      "i_inactive (insts s u) = i_inactive (insts st u)" "i_destroyed (insts s u) = i_destroyed (insts st u)"
      "i_watcher (insts s u) = i_watcher (insts st u)" "i_watchers (insts s u) = i_watchers (insts st u)"
      "i_tree (insts s u) = (if u = v then xs else i_tree (insts st u))" and n: "next_vm s = next_vm st" "hooks s = hooks st" "torn s = torn st" for u
    by (simp_all add: s_def upd_def)
  have "forest s" by (rule forest_same [OF f(1) n(1) i(1-4)])
  moreover have "activity s" by (rule activity_same [OF f(2) n(1) i(1,3-6)])
  moreover have "cleaned {} s" using f(3) rendered(1,2) unfolding cleaned_def i(4,7-10) n by (simp split: if_split) blast
  ultimately show ?case by (simp add: good_def s_def)
next
  case (inserted c st keep st')
  define s1 where "s1 = (if \<not> i_mounted (insts st c) then callHook throws c ''mounted'' (upd c (\<lambda>i. i\<lparr>i_mounted := True\<rparr>) st) else st)"
  have "good {} s1" unfolding s1_def by (rule mount_good [OF inserted(3)])
  moreover have "st' = s1 \<or> activateChildComponent throws True c s1 = Some st'"
    using inserted(2) unfolding insert_hook_def Let_def s1_def [symmetric] by (auto split: if_splits)
  ultimately show ?case using activate_good by blast
next
  case (reinserted c st s st')
  define s1 where "s1 = (if \<not> i_mounted (insts st c) then callHook throws c ''mounted'' (upd c (\<lambda>i. i\<lparr>i_mounted := True\<rparr>) st) else st)"
  have g: "good {} s1" unfolding s1_def by (rule mount_good [OF reinserted(4)])
  have "s = queueActivatedComponent c s1" using reinserted(2) unfolding insert_hook_def Let_def s1_def [symmetric] by simp
  then show ?case using reactivate_good [OF g] reinserted(3) by simp
next
  case (deactivated c st st')
  then show ?case using good_deactivate [OF deactivated(3,1), of throws] by auto
next
  case (destroyed v st st')
  have "card (nonbeing st) < Suc (next_vm st)" by (rule nonbeing_card)
  then show ?case using destroy_good [OF destroyed(3,1), of "Suc (next_vm st)" throws] destroyed(2) by (auto simp: destroy_1_def)
qed

lemma reachable_good: "life_reachable throws st \<Longrightarrow> good {} st"
  unfolding life_reachable_def
proof (induction rule: rtranclp_induct)
  case base
  show ?case by (simp add: good_def forest_def activity_def cleaned_def no_life_def no_inst_def)
next
  case (step st st')
  then show ?case using step_good by blast
qed


inductive rendered_in :: "life \<Rightarrow> nat \<Rightarrow> nat \<Rightarrow> bool" for st v where
  itself: "rendered_in st v v"
| below: "rendered_in st v u \<Longrightarrow> (c, False) \<in> set (i_tree (insts st u)) \<Longrightarrow> rendered_in st v c"

text \<open>
  C9. Destroying an instance always ends. Then it and every component it rendered (and they rendered,
  kept-alive ones excepted) is destroyed: its hooks \<open>beforeDestroy\<close> and \<open>destroyed\<close> have been called
  exactly once, however often it was told to, and its watchers are torn down.
\<close>

theorem destroy_cleans:
  assumes "life_reachable throws st" "v < next_vm st"
  shows "\<exists>st'. destroy_1 throws v st = Some st' \<and>
    (\<forall>u. rendered_in st v u \<longrightarrow> i_destroyed (insts st' u) \<and> count_list (hooks st') (u, ''beforeDestroy'') = 1 \<and>
       count_list (hooks st') (u, ''destroyed'') = 1 \<and> set (i_watchers (insts st' u)) \<subseteq> set (torn st'))"
proof -
  have g: "good {} st" by (rule reachable_good [OF assms(1)])
  have "card (nonbeing st) < Suc (next_vm st)" by (rule nonbeing_card)
  then obtain st' where st': "destroy_n throws (Suc (next_vm st)) v st = Some st'" "good {} st'" "grows st st'" "i_destroyed (insts st' v)"
    using destroy_good [OF g assms(2), of "Suc (next_vm st)" throws] by auto
  have c: "cleaned {} st'" using st'(2) by (simp add: good_def)
  have d: "i_destroyed (insts st' u)" if "rendered_in st v u" for u
    using that
  proof induction
    case (below u x)
    then show ?case using cleanedD(6) [OF c] st'(3) by (auto simp: grows_def)
  qed (rule st'(4))
  have "set (i_watchers (insts st' u)) \<subseteq> set (torn st')" if "i_destroyed (insts st' u)" for u
    using cleanedD(5) [OF c that] by blast
  then show ?thesis using st'(1) d cleanedD(3,4) [OF c] by (auto simp: destroy_1_def)
qed


section \<open>Examples\<close>

text \<open>A root with one component, which is rendered, and then deactivated\<close>

definition ex_root :: life where
  "ex_root = initLifecycle None False no_inst no_life"

definition ex_child :: life where
  "ex_child = initLifecycle (Some 0) False no_inst ex_root"

definition ex_rendered :: life where
  "ex_rendered = upd 0 (\<lambda>i. i\<lparr>i_tree := [(1, False)]\<rparr>) ex_child"

lemmas ex_life = ex_root_def ex_child_def ex_rendered_def initLifecycle_def no_life_def no_inst_def upd_def Let_def

lemma ex_reachable: "life_reachable (\<lambda>_. False) ex_rendered"
proof -
  have "life_step (\<lambda>_. False) no_life ex_root" unfolding ex_root_def by (rule life_step.created) (simp add: may_create_def)
  moreover have "life_step (\<lambda>_. False) ex_root ex_child" unfolding ex_child_def
    by (rule life_step.created) (simp add: may_create_def ex_life)
  moreover have "life_step (\<lambda>_. False) ex_child ex_rendered" unfolding ex_rendered_def
    by (rule life_step.rendered) (simp_all add: ex_life)
  ultimately show ?thesis unfolding life_reachable_def by (meson r_into_rtranclp rtranclp_trans)
qed

definition ex_off :: "life option" where
  "ex_off = deactivateChildComponent (\<lambda>_. False) True 1 ex_rendered"

lemma ex_off_eval:
  assumes "ex_off = Some st"
  shows "\<not> i_being (insts st a)" "\<not> i_abstract (insts st 1)" "1 < next_vm st"
  using assms
  by (auto simp: ex_off_def deactivateChildComponent_def isInInactiveTree_def callHook_def run_handlers_def ex_life numeral_eq_Suc split: if_splits)


theorem destroy_cleans_witness:
  "\<exists>st'. destroy_1 (\<lambda>_. False) 0 ex_rendered = Some st' \<and>
    (\<forall>u. rendered_in ex_rendered 0 u \<longrightarrow> i_destroyed (insts st' u) \<and> count_list (hooks st') (u, ''beforeDestroy'') = 1 \<and>
       count_list (hooks st') (u, ''destroyed'') = 1 \<and> set (i_watchers (insts st' u)) \<subseteq> set (torn st'))"
  by (rule destroy_cleans [OF ex_reachable]) (simp add: ex_life)

text \<open>
  An instance created below an inactive one escapes deactivation. Here the root \<open>0\<close> has been
  deactivated; then its child \<open>1\<close> and grandchild \<open>2\<close> are created, \<open>1\<close> is deactivated by itself, \<open>0\<close> is
  activated and then \<open>2\<close>: the hook \<open>activated\<close> of \<open>2\<close> is called while \<open>1\<close>, around it, is deactivated.
\<close>

definition late_child :: "life option" where
  "late_child =
     (case deactivateChildComponent (\<lambda>_. False) True 0 ex_root of
        None \<Rightarrow> None
      | Some s0 \<Rightarrow>
          (case deactivateChildComponent (\<lambda>_. False) True 1 (initLifecycle (Some 1) False no_inst (initLifecycle (Some 0) False no_inst s0)) of
             None \<Rightarrow> None
           | Some s1 \<Rightarrow>
               (case activateChildComponent (\<lambda>_. False) True 0 s1 of
                  None \<Rightarrow> None
                | Some s2 \<Rightarrow> activateChildComponent (\<lambda>_. False) True 2 s2)))"

theorem late_child_activated:
  "\<exists>st. late_child = Some st \<and> i_direct (insts st 1) \<and> i_parent (insts st 2) = Some 1 \<and> i_inactive (insts st 2) = Some False \<and>
     (2, ''activated'') \<in> set (hooks st)"
  by (simp add: late_child_def deactivateChildComponent_def activateChildComponent_def isInInactiveTree_def callHook_def run_handlers_def
      ex_life numeral_eq_Suc)

end
