(* ===== verification/Refs.thy ===== *)
theory Refs
  imports SharedUtil "HOL-Library.Multiset"
begin

text \<open>
  Template refs in \<open>frontend/js/vue.js\<close>: \<open>registerRef\<close> and the \<open>ref\<close> module, which patching calls when
  a vnode is created, updated and destroyed. The lemmas show what \<open>$refs\<close> of a component holds after
  any history of its vnodes, and where a changed ref is missed.
\<close>

section \<open>Registering\<close>

text \<open>
  \<open>rn_ref\<close> is what a ref refers to, the component instance or else the element; patching a vnode keeps
  it. All vnodes are rendered by one component, whose \<open>$refs\<close> is meant.
\<close>

record ref_node =
  rn_key :: "string option"
  rn_for :: bool
  rn_ref :: nat

datatype refval = One nat | Many "nat list"

text \<open>A key that was unregistered stays, with undefined.\<close>

type_synonym refs = "refval option obj"

definition refs_get :: "string \<Rightarrow> refs \<Rightarrow> refval option" where
  "refs_get key refs = (case map_of refs key of Some v \<Rightarrow> v | None \<Rightarrow> None)"

definition registerRef :: "ref_node \<Rightarrow> bool \<Rightarrow> refs \<Rightarrow> refs" where
  "registerRef vnode isRemoval refs =
     (case rn_key vnode of
        None \<Rightarrow> refs
      | Some key \<Rightarrow>
          let ref = rn_ref vnode in
          if isRemoval then
            (case refs_get key refs of
               Some (Many rs) \<Rightarrow> obj_put key (Some (Many (remove_item rs ref))) refs
             | Some (One r) \<Rightarrow> if r = ref then obj_put key None refs else refs
             | None \<Rightarrow> refs)
          else if rn_for vnode then
            (case refs_get key refs of
               Some (Many rs) \<Rightarrow> if indexOf rs ref = None then obj_put key (Some (Many (rs @ [ref]))) refs else refs
             | _ \<Rightarrow> obj_put key (Some (Many [ref])) refs)
          else obj_put key (Some (One ref)) refs)"

definition ref_create :: "ref_node \<Rightarrow> refs \<Rightarrow> refs" where
  "ref_create vnode = registerRef vnode False"

definition ref_update :: "ref_node \<Rightarrow> ref_node \<Rightarrow> refs \<Rightarrow> refs" where
  "ref_update oldVnode vnode refs =
     (if rn_key oldVnode \<noteq> rn_key vnode then registerRef vnode False (registerRef oldVnode True refs) else refs)"

definition ref_destroy :: "ref_node \<Rightarrow> refs \<Rightarrow> refs" where
  "ref_destroy vnode = registerRef vnode True"

text \<open>
  Patching calls the modules only for a vnode whose rendered root is an element (\<open>isPatchable\<close>); a
  component without one is registered all the same when it is created.
\<close>

definition patch_refs :: "bool \<Rightarrow> ref_node \<Rightarrow> ref_node \<Rightarrow> refs \<Rightarrow> refs" where
  "patch_refs patchable oldVnode vnode refs = (if patchable then ref_update oldVnode vnode refs else refs)"

lemma refs_get_put [simp]: "refs_get k (obj_put k' v refs) = (if k = k' then v else refs_get k refs)"
  by (simp add: refs_get_def)

lemma register_other: "rn_key v \<noteq> Some k \<Longrightarrow> refs_get k (registerRef v b refs) = refs_get k refs"
  by (auto simp: registerRef_def Let_def split: option.splits refval.splits)

section \<open>Histories\<close>

text \<open>The vnodes in place, \<open>$refs\<close>, and for every key what was registered under it last.\<close>

record ref_state =
  rs_live :: "ref_node list"
  rs_refs :: refs
  rs_last :: "string \<Rightarrow> nat option"

definition registered :: "ref_node \<Rightarrow> (string \<Rightarrow> nat option) \<Rightarrow> string \<Rightarrow> nat option" where
  "registered v seen = (case rn_key v of None \<Rightarrow> seen | Some k \<Rightarrow> seen(k \<mapsto> rn_ref v))"

text \<open>
  The application uses a key either inside of \<open>v-for\<close> or outside (\<open>in_for\<close>). An update that changes the
  ref is on a vnode the modules are called for.
\<close>

inductive ref_history :: "(string \<Rightarrow> bool) \<Rightarrow> ref_state \<Rightarrow> bool" for in_for where
  start: "ref_history in_for \<lparr>rs_live = [], rs_refs = [], rs_last = (\<lambda>_. None)\<rparr>"
| create: "ref_history in_for s \<Longrightarrow> rn_ref v \<notin> rn_ref ` set (rs_live s) \<Longrightarrow> (\<And>k. rn_key v = Some k \<Longrightarrow> rn_for v = in_for k) \<Longrightarrow>
    ref_history in_for \<lparr>rs_live = rs_live s @ [v], rs_refs = ref_create v (rs_refs s), rs_last = registered v (rs_last s)\<rparr>"
| update: "ref_history in_for s \<Longrightarrow> rs_live s = xs @ v # ys \<Longrightarrow> rn_ref v' = rn_ref v \<Longrightarrow> (\<And>k. rn_key v' = Some k \<Longrightarrow> rn_for v' = in_for k) \<Longrightarrow>
    patchable \<or> rn_key v' = rn_key v \<Longrightarrow>
    ref_history in_for \<lparr>rs_live = xs @ v' # ys, rs_refs = patch_refs patchable v v' (rs_refs s),
      rs_last = (if rn_key v' = rn_key v then rs_last s else registered v' (rs_last s))\<rparr>"
| destroy: "ref_history in_for s \<Longrightarrow> rs_live s = xs @ v # ys \<Longrightarrow>
    ref_history in_for \<lparr>rs_live = xs @ ys, rs_refs = ref_destroy v (rs_refs s), rs_last = rs_last s\<rparr>"

definition holders :: "string \<Rightarrow> ref_node list \<Rightarrow> nat set" where
  "holders k vs = {r. \<exists>v\<in>set vs. rn_key v = Some k \<and> rn_ref v = r}"

text \<open>What \<open>$refs\<close> promises for a key\<close>

definition plain_ok :: "string \<Rightarrow> ref_state \<Rightarrow> bool" where
  "plain_ok k s \<longleftrightarrow> refs_get k (rs_refs s) =
     (case rs_last s k of Some r \<Rightarrow> if r \<in> holders k (rs_live s) then Some (One r) else None | None \<Rightarrow> None)"

definition array_ok :: "string \<Rightarrow> ref_state \<Rightarrow> bool" where
  "array_ok k s \<longleftrightarrow>
     (case refs_get k (rs_refs s) of
        None \<Rightarrow> holders k (rs_live s) = {}
      | Some (Many rs) \<Rightarrow> distinct rs \<and> set rs = holders k (rs_live s)
      | Some (One _) \<Rightarrow> False)"

definition live_ok :: "(string \<Rightarrow> bool) \<Rightarrow> ref_node list \<Rightarrow> bool" where
  "live_ok in_for vs \<longleftrightarrow> distinct (map rn_ref vs) \<and> (\<forall>v\<in>set vs. \<forall>k. rn_key v = Some k \<longrightarrow> rn_for v = in_for k)"

definition key_ok :: "(string \<Rightarrow> bool) \<Rightarrow> string \<Rightarrow> ref_state \<Rightarrow> bool" where
  "key_ok in_for k s \<longleftrightarrow>
     (if in_for k then array_ok k s else plain_ok k s \<and> (rs_last s k = None \<longrightarrow> holders k (rs_live s) = {}))"

lemma key_ok_same:
  "key_ok in_for k s \<Longrightarrow> holders k (rs_live s') = holders k (rs_live s) \<Longrightarrow> rs_last s' k = rs_last s k \<Longrightarrow>
   refs_get k (rs_refs s') = refs_get k (rs_refs s) \<Longrightarrow> key_ok in_for k s'"
  by (simp only: key_ok_def array_ok_def plain_ok_def)

definition ref_ok :: "(string \<Rightarrow> bool) \<Rightarrow> ref_state \<Rightarrow> bool" where
  "ref_ok in_for s \<longleftrightarrow>
     live_ok in_for (rs_live s) \<and> (\<forall>k. key_ok in_for k s)"

lemma holders_split: "holders k (xs @ v # ys) = holders k (xs @ ys) \<union> (if rn_key v = Some k then {rn_ref v} else {})"
  by (auto simp: holders_def)

lemma holders_sub: "holders k vs \<subseteq> rn_ref ` set vs"
  by (auto simp: holders_def)

lemma holders_fresh: "distinct (map rn_ref (xs @ v # ys)) \<Longrightarrow> rn_ref v \<notin> holders k (xs @ ys)"
  using holders_sub [of k "xs @ ys"] by auto

lemma unregister_plain:
  assumes "rn_key v = Some k" "\<And>rs. refs_get k refs \<noteq> Some (Many rs)"
  shows "refs_get k (registerRef v True refs) = (if refs_get k refs = Some (One (rn_ref v)) then None else refs_get k refs)"
  using assms by (auto simp: registerRef_def Let_def split: option.splits refval.splits)

lemma ref_ok_reorder:
  assumes "mset vs = mset (rs_live s)" "ref_ok in_for s"
  shows "ref_ok in_for (s\<lparr>rs_live := vs\<rparr>)"
proof -
  have "set vs = set (rs_live s)" using assms(1) by (rule mset_eq_setD)
  moreover have "distinct (map rn_ref vs) = distinct (map rn_ref (rs_live s))"
    using assms(1) by (metis mset_map mset_eq_imp_distinct_iff)
  ultimately show ?thesis using assms(2)
    by (auto simp: ref_ok_def live_ok_def holders_def intro: key_ok_same [of in_for _ s])
qed

lemma add_ok:
  assumes "ref_ok in_for s" "rn_ref v \<notin> rn_ref ` set (rs_live s)" "\<And>k. rn_key v = Some k \<Longrightarrow> rn_for v = in_for k"
  shows "ref_ok in_for \<lparr>rs_live = rs_live s @ [v], rs_refs = registerRef v False (rs_refs s), rs_last = registered v (rs_last s)\<rparr>"
    (is "ref_ok in_for ?s")
proof -
  have holds: "holders k (rs_live s @ [v]) = holders k (rs_live s) \<union> (if rn_key v = Some k then {rn_ref v} else {})" for k
    using holders_split [of k "rs_live s" v "[]"] by simp
  have fresh: "rn_ref v \<notin> holders k (rs_live s)" for k using assms(2) holders_sub [of k "rs_live s"] by blast
  have "live_ok in_for (rs_live ?s)" using assms by (auto simp: ref_ok_def live_ok_def)
  moreover have "key_ok in_for k ?s" for k
  proof -
    have k: "key_ok in_for k s" using assms(1) by (simp add: ref_ok_def)
    show ?thesis
    proof (cases "rn_key v = Some k")
    case False
    then have "holders k (rs_live ?s) = holders k (rs_live s)" "rs_last ?s k = rs_last s k" "refs_get k (rs_refs ?s) = refs_get k (rs_refs s)"
      by (auto simp: holds registered_def register_other split: option.splits)
    then show ?thesis by (rule key_ok_same [OF k])
  next
    case True
    show ?thesis
    proof (cases "in_for k")
      case False
      with True assms(3) have "refs_get k (rs_refs ?s) = Some (One (rn_ref v))" by (simp add: registerRef_def Let_def)
      with True False show ?thesis by (simp add: key_ok_def plain_ok_def registered_def holds)
    next
      case t: True
      then have "array_ok k s" using k by (simp add: key_ok_def)
      then have "array_ok k ?s" using True t assms(3) fresh [of k]
        by (cases "refs_get k (rs_refs s)"; cases "the (refs_get k (rs_refs s))")
          (simp_all add: array_ok_def registerRef_def Let_def holds indexOf_None)
      with t show ?thesis by (simp add: key_ok_def)
    qed
  qed
  qed
  ultimately show ?thesis by (simp add: ref_ok_def)
qed

lemma drop_ok:
  assumes "ref_ok in_for s" "rs_live s = xs @ v # ys"
  shows "ref_ok in_for \<lparr>rs_live = xs @ ys, rs_refs = registerRef v True (rs_refs s), rs_last = rs_last s\<rparr>" (is "ref_ok in_for ?s")
proof -
  have holds: "holders k (rs_live s) = holders k (xs @ ys) \<union> (if rn_key v = Some k then {rn_ref v} else {})" for k
    by (simp only: assms(2) holders_split)
  have fresh: "rn_ref v \<notin> holders k (xs @ ys)" for k
    using assms by (intro holders_fresh) (auto simp: ref_ok_def live_ok_def)
  have "live_ok in_for (rs_live ?s)" using assms by (auto simp: ref_ok_def live_ok_def)
  moreover have "key_ok in_for k ?s" for k
  proof -
    have k: "key_ok in_for k s" using assms(1) by (simp add: ref_ok_def)
    show ?thesis
    proof (cases "rn_key v = Some k")
    case False
    then have "holders k (rs_live ?s) = holders k (rs_live s)" "rs_last ?s k = rs_last s k" "refs_get k (rs_refs ?s) = refs_get k (rs_refs s)"
      by (auto simp: holds register_other)
    then show ?thesis by (rule key_ok_same [OF k])
  next
    case True
    show ?thesis
    proof (cases "in_for k")
      case False
      with k have p: "plain_ok k s" "rs_last s k = None \<longrightarrow> holders k (rs_live s) = {}" by (auto simp: key_ok_def)
      have g: "refs_get k (registerRef v True (rs_refs s)) =
          (if refs_get k (rs_refs s) = Some (One (rn_ref v)) then None else refs_get k (rs_refs s))"
        using p(1) by (intro unregister_plain [OF True]) (simp add: plain_ok_def split: option.splits)
      have "plain_ok k ?s" using p(1) True fresh [of k] by (cases "rs_last s k") (simp_all add: plain_ok_def g holds)
      with False p(2) True show ?thesis by (auto simp: holds key_ok_def)
    next
      case t: True
      then have "array_ok k s" using k by (simp add: key_ok_def)
      then have "array_ok k ?s" using True fresh [of k] holds [of k]
        by (cases "refs_get k (rs_refs s)"; cases "the (refs_get k (rs_refs s))")
          (simp_all add: array_ok_def registerRef_def Let_def remove_item_eq)
      with t show ?thesis by (simp add: key_ok_def)
    qed
  qed
  qed
  ultimately show ?thesis by (simp add: ref_ok_def)
qed

lemma ref_history_ok: "ref_history in_for s \<Longrightarrow> ref_ok in_for s"
proof (induction rule: ref_history.induct)
  case start
  show ?case by (simp add: ref_ok_def key_ok_def live_ok_def array_ok_def plain_ok_def holders_def refs_get_def)
next
  case (create s v)
  then show ?case using add_ok [of in_for s v] by (simp add: ref_create_def)
next
  case (update s xs v ys v' patchable)
  show ?case
  proof (cases "rn_key v' = rn_key v")
    case True
    have "holders k (xs @ v' # ys) = holders k (rs_live s)" for k using update.hyps(2,3) True by (auto simp: holders_def)
    moreover have "live_ok in_for (xs @ v' # ys)" using update True by (auto simp: ref_ok_def live_ok_def)
    ultimately show ?thesis using update.IH True
      by (auto simp: ref_ok_def patch_refs_def ref_update_def intro: key_ok_same [of in_for _ s])
  next
    case False
    define s1 where "s1 = \<lparr>rs_live = xs @ ys, rs_refs = registerRef v True (rs_refs s), rs_last = rs_last s\<rparr>"
    have "ref_ok in_for s1" unfolding s1_def by (rule drop_ok [OF update.IH update.hyps(2)])
    moreover have "rn_ref v' \<notin> rn_ref ` set (rs_live s1)"
      using update.IH update.hyps(2,3) by (auto simp: s1_def ref_ok_def live_ok_def)
    ultimately have "ref_ok in_for \<lparr>rs_live = rs_live s1 @ [v'], rs_refs = registerRef v' False (rs_refs s1), rs_last = registered v' (rs_last s1)\<rparr>"
      using update.hyps(4) by (intro add_ok) auto
    from ref_ok_reorder [OF _ this, of "xs @ v' # ys"] False update.hyps(5) show ?thesis
      by (auto simp: s1_def patch_refs_def ref_update_def)
  qed
next
  case (destroy s xs v ys)
  then show ?case by (auto simp: ref_destroy_def intro: drop_ok)
qed


definition ex_node :: "string \<Rightarrow> nat \<Rightarrow> ref_node" where
  "ex_node k r = \<lparr>rn_key = Some k, rn_for = (k = ''rows''), rn_ref = r\<rparr>"

definition ex_state :: ref_state where
  "ex_state = \<lparr>rs_live = [ex_node ''rows'' 2, ex_node ''box'' 3],
     rs_refs = ref_destroy (ex_node ''rows'' 1) (ref_create (ex_node ''box'' 3) (ref_create (ex_node ''rows'' 2) (ref_create (ex_node ''rows'' 1) []))),
     rs_last = registered (ex_node ''box'' 3) (registered (ex_node ''rows'' 2) (registered (ex_node ''rows'' 1) (\<lambda>_. None)))\<rparr>"

lemma ex_history: "ref_history (\<lambda>k. k = ''rows'') ex_state"
proof -
  let ?h = "ref_history (\<lambda>k. k = ''rows'')"
  have 1: "?h \<lparr>rs_live = [ex_node ''rows'' 1], rs_refs = ref_create (ex_node ''rows'' 1) [], rs_last = registered (ex_node ''rows'' 1) (\<lambda>_. None)\<rparr>"
    using ref_history.create [OF ref_history.start, of "ex_node ''rows'' 1"] by (simp add: ex_node_def)
  have 2: "?h \<lparr>rs_live = [ex_node ''rows'' 1, ex_node ''rows'' 2], rs_refs = ref_create (ex_node ''rows'' 2) (ref_create (ex_node ''rows'' 1) []),
      rs_last = registered (ex_node ''rows'' 2) (registered (ex_node ''rows'' 1) (\<lambda>_. None))\<rparr>"
    using ref_history.create [OF 1, of "ex_node ''rows'' 2"] by (simp add: ex_node_def)
  have 3: "?h \<lparr>rs_live = [ex_node ''rows'' 1, ex_node ''rows'' 2, ex_node ''box'' 3],
      rs_refs = ref_create (ex_node ''box'' 3) (ref_create (ex_node ''rows'' 2) (ref_create (ex_node ''rows'' 1) [])),
      rs_last = registered (ex_node ''box'' 3) (registered (ex_node ''rows'' 2) (registered (ex_node ''rows'' 1) (\<lambda>_. None)))\<rparr>"
    using ref_history.create [OF 2, of "ex_node ''box'' 3"] by (simp add: ex_node_def)
  show ?thesis unfolding ex_state_def
    using ref_history.destroy [OF 3, of "[]" "ex_node ''rows'' 1" "[ex_node ''rows'' 2, ex_node ''box'' 3]"] by simp
qed


text \<open>
  A component that renders no element is not updated by the modules, not even by \<open>ref\<close>, although its
  creation registers it: when its ref changes, it stays registered under the old one and is not under
  the new one, and its destruction leaves the old one in \<open>$refs\<close>.
\<close>

lemma empty_component_ref_stale:
  defines "v1 \<equiv> \<lparr>rn_key = Some ''a'', rn_for = False, rn_ref = 7\<rparr>" and "v2 \<equiv> \<lparr>rn_key = Some ''b'', rn_for = False, rn_ref = 7\<rparr>"
  defines "refs \<equiv> patch_refs False v1 v2 (ref_create v1 [])"
  shows "refs_get ''a'' refs = Some (One 7)" "refs_get ''b'' refs = None" "refs_get ''a'' (ref_destroy v2 refs) = Some (One 7)"
  by (simp_all add: assms patch_refs_def ref_create_def ref_destroy_def registerRef_def refs_get_def)

end
