(* ===== verification/Directives.thy ===== *)
theory Directives
  imports Events
begin

text \<open>
  Run-time directives in \<open>frontend/js/vue.js\<close>: \<open>updateDirectives\<close> and what it calls. The functions of a
  directive's definition are parameters: a call of one is recorded, with the directive as it was then.
  \<open>inserted\<close> and \<open>componentUpdated\<close> are merged into hooks of the vnode (\<open>Events\<close>).
\<close>

section \<open>Directives of a vnode\<close>

text \<open>
  \<open>dir_def\<close> is what \<open>resolveAsset\<close> found: \<open>None\<close> for undefined, else the hooks it has. \<open>dir_raw\<close> is \<open>None\<close>
  where the name is missing or empty, \<open>dir_old\<close> where \<open>oldValue\<close> was never set.
\<close>

record directive =
  dir_name :: string
  dir_raw :: "string option"
  dir_value :: jsval
  dir_old :: "jsval option"
  dir_mods :: "string list option"
  dir_def :: "string list option"

definition getRawDirName :: "directive \<Rightarrow> string" where
  "getRawDirName dir =
     (case dir_raw dir of
        Some s \<Rightarrow> s
      | None \<Rightarrow> dir_name dir @ ''.'' @ join ''.'' (case dir_mods dir of Some ms \<Rightarrow> ms | None \<Rightarrow> []))"

definition prepared :: "(string \<Rightarrow> string list option) \<Rightarrow> directive \<Rightarrow> directive" where
  "prepared resolve dir =
     dir\<lparr>dir_mods := Some (case dir_mods dir of Some ms \<Rightarrow> ms | None \<Rightarrow> []), dir_def := resolve (dir_name dir)\<rparr>"

fun normalizeDirectives :: "(string \<Rightarrow> string list option) \<Rightarrow> directive list option \<Rightarrow> directive obj" where
  "normalizeDirectives resolve None = []"
| "normalizeDirectives resolve (Some dirs) =
     foldl (\<lambda>res dir. obj_put (getRawDirName (prepared resolve dir)) (prepared resolve dir) res) [] dirs"

section \<open>Calls\<close>

text \<open>A call of a hook: the vnode's element, the directive, the vnodes (\<open>None\<close> is the empty node)\<close>

record dir_call =
  dc_hook :: string
  dc_dir :: directive
  dc_vnode :: nat
  dc_old :: "nat option"
  dc_destroy :: bool

text \<open>
  \<open>dl_calls\<close> are the calls made; \<open>dl_later\<close> are the closures made for hooks, each as the calls it makes.
\<close>

record dir_log =
  dl_calls :: "dir_call list"
  dl_errors :: "string list"
  dl_later :: "dir_call list list"

definition callHook_1 :: "(dir_call \<Rightarrow> bool) \<Rightarrow> dir_call \<Rightarrow> dir_log \<Rightarrow> dir_log" where
  "callHook_1 throws c st =
     (case dir_def (dc_dir c) of
        None \<Rightarrow> st
      | Some hooks \<Rightarrow>
          if dc_hook c \<in> set hooks then
            st\<lparr>dl_calls := dl_calls st @ [c],
               dl_errors := dl_errors st @ (if throws c then [''directive '' @ dir_name (dc_dir c) @ '' '' @ dc_hook c @ '' hook''] else [])\<rparr>
          else st)"

definition call_all :: "(dir_call \<Rightarrow> bool) \<Rightarrow> dir_call list \<Rightarrow> dir_log \<Rightarrow> dir_log" where
  "call_all throws cs st = foldl (\<lambda>st c. callHook_1 throws c st) st cs"

definition has_hook :: "directive \<Rightarrow> string \<Rightarrow> bool" where
  "has_hook dir hook \<longleftrightarrow> (case dir_def dir of Some hooks \<Rightarrow> hook \<in> set hooks | None \<Rightarrow> False)"

text \<open>
  A vnode with what the directives use of it. \<open>vd_insert\<close> and \<open>vd_postpatch\<close> are its hooks; after
  \<open>_update\<close>, \<open>vd_dirs\<close> has the directives as they were normalized (one that another with the same name
  replaced is not read again).
\<close>

record dir_vnode =
  vd_id :: nat
  vd_dirs :: "directive list option"
  vd_insert :: hook_slot
  vd_postpatch :: hook_slot

definition dirs_of :: "dir_vnode option \<Rightarrow> directive list option" where
  "dirs_of v = (case v of Some v \<Rightarrow> vd_dirs v | None \<Rightarrow> None)"

text \<open>One round of the first loop of \<open>_update\<close>: the call, and the directive with its old value\<close>

definition bind_or_update ::
    "(dir_call \<Rightarrow> bool) \<Rightarrow> directive obj \<Rightarrow> nat \<Rightarrow> nat option \<Rightarrow> directive list \<times> directive list \<times> directive list \<times> dir_log \<Rightarrow> string \<times> directive
      \<Rightarrow> directive list \<times> directive list \<times> directive list \<times> dir_log" where
  "bind_or_update throws oldDirs vnode oldVnode =
     (\<lambda>(dirs, withInsert, withPostpatch, st) (key, dir0).
        case map_of oldDirs key of
          None \<Rightarrow>
            (dirs @ [dir0], if has_hook dir0 ''inserted'' then withInsert @ [dir0] else withInsert, withPostpatch,
             callHook_1 throws \<lparr>dc_hook = ''bind'', dc_dir = dir0, dc_vnode = vnode, dc_old = oldVnode, dc_destroy = False\<rparr> st)
        | Some oldDir \<Rightarrow>
            let dir = dir0\<lparr>dir_old := Some (dir_value oldDir)\<rparr> in
            (dirs @ [dir], withInsert, if has_hook dir ''componentUpdated'' then withPostpatch @ [dir] else withPostpatch,
             callHook_1 throws \<lparr>dc_hook = ''update'', dc_dir = dir, dc_vnode = vnode, dc_old = oldVnode, dc_destroy = False\<rparr> st))"

definition later :: "string \<Rightarrow> nat \<Rightarrow> nat option \<Rightarrow> directive list \<Rightarrow> dir_call list" where
  "later hook vnode oldVnode dirs =
     map (\<lambda>dir. \<lparr>dc_hook = hook, dc_dir = dir, dc_vnode = vnode, dc_old = oldVnode, dc_destroy = False\<rparr>) dirs"

definition merge_later :: "dir_call list \<Rightarrow> hook_slot \<Rightarrow> dir_log \<Rightarrow> hook_slot \<times> dir_log" where
  "merge_later calls slot st = (mergeVNodeHook (length (dl_later st)) slot, st\<lparr>dl_later := dl_later st @ [calls]\<rparr>)"

definition unbind_calls :: "directive obj \<Rightarrow> directive obj \<Rightarrow> nat \<Rightarrow> bool \<Rightarrow> dir_call list" where
  "unbind_calls oldDirs newDirs oldVnode isDestroy =
     map (\<lambda>(key, dir). \<lparr>dc_hook = ''unbind'', dc_dir = dir, dc_vnode = oldVnode, dc_old = Some oldVnode, dc_destroy = isDestroy\<rparr>)
       (filter (\<lambda>(key, dir). map_of newDirs key = None) oldDirs)"

text \<open>
  \<open>_update\<close> of two vnodes, one of which may be the empty node. Its hooks are not merged into the empty
  node: it has no directives, so nothing is inserted or updated there.
\<close>

definition update_1 ::
    "(string \<Rightarrow> string list option) \<Rightarrow> (dir_call \<Rightarrow> bool) \<Rightarrow> dir_vnode option \<Rightarrow> dir_vnode option \<Rightarrow> dir_log
      \<Rightarrow> dir_vnode option \<times> dir_log" where
  "update_1 resolve throws oldVnode vnode st =
     (let oldDirs = normalizeDirectives resolve (dirs_of oldVnode);
          newDirs = normalizeDirectives resolve (dirs_of vnode);
          (vnode1, st1) =
            (case vnode of
               None \<Rightarrow> (None, st)
             | Some v \<Rightarrow>
                 let (dirs, withInsert, withPostpatch, st1) =
                       foldl (bind_or_update throws oldDirs (vd_id v) (map_option vd_id oldVnode)) ([], [], [], st) newDirs;
                     v1 = v\<lparr>vd_dirs := map_option (\<lambda>_. dirs) (vd_dirs v)\<rparr>;
                     inserts = later ''inserted'' (vd_id v) (map_option vd_id oldVnode) withInsert;
                     posts = later ''componentUpdated'' (vd_id v) (map_option vd_id oldVnode) withPostpatch;
                     (v2, st2) =
                       (if withInsert = [] then (v1, st1)
                        else if oldVnode = None then (let (h, s) = merge_later inserts (vd_insert v1) st1 in (v1\<lparr>vd_insert := h\<rparr>, s))
                        else (v1, call_all throws inserts st1));
                     (v3, st3) =
                       (if withPostpatch = [] then (v2, st2)
                        else (let (h, s) = merge_later posts (vd_postpatch v2) st2 in (v2\<lparr>vd_postpatch := h\<rparr>, s)))
                 in (Some v3, st3))
      in (vnode1,
          case oldVnode of
            None \<Rightarrow> st1
          | Some old \<Rightarrow> call_all throws (unbind_calls oldDirs newDirs (vd_id old) (vnode = None)) st1))"

definition updateDirectives ::
    "(string \<Rightarrow> string list option) \<Rightarrow> (dir_call \<Rightarrow> bool) \<Rightarrow> dir_vnode option \<Rightarrow> dir_vnode option \<Rightarrow> dir_log
      \<Rightarrow> dir_vnode option \<times> dir_log" where
  "updateDirectives resolve throws oldVnode vnode st =
     (if dirs_of oldVnode \<noteq> None \<or> dirs_of vnode \<noteq> None then update_1 resolve throws oldVnode vnode st else (vnode, st))"

definition unbindDirectives ::
    "(string \<Rightarrow> string list option) \<Rightarrow> (dir_call \<Rightarrow> bool) \<Rightarrow> dir_vnode \<Rightarrow> dir_log \<Rightarrow> dir_log" where
  "unbindDirectives resolve throws vnode st = snd (updateDirectives resolve throws (Some vnode) None st)"

text \<open>Running a hook of a vnode runs the closures merged into it.\<close>

definition run_later :: "(dir_call \<Rightarrow> bool) \<Rightarrow> nat list \<Rightarrow> dir_log \<Rightarrow> dir_log" where
  "run_later throws ids st = foldl (\<lambda>s i. if i < length (dl_later s) then call_all throws (dl_later s ! i) s else s) st ids"

section \<open>The life of an element\<close>

text \<open>
  The vnodes an element or a component has in turn: created, inserted, patched, destroyed.
  \<open>replaceRoot\<close> is what \<open>patch\<close> does to the vnode of a component whose root is replaced: the modules'
  destroy and create hooks, and the merged insert hooks but the component's own, which is number 0.
\<close>

record dir_life =
  li_vnode :: "dir_vnode option"
  li_inserted :: bool
  li_log :: dir_log

definition fresh_vnode :: "dir_vnode \<Rightarrow> bool" where
  "fresh_vnode v \<longleftrightarrow> vd_insert v \<in> {NoHook, PlainHook 0} \<and> vd_postpatch v = NoHook"

definition createStep ::
    "(string \<Rightarrow> string list option) \<Rightarrow> (dir_call \<Rightarrow> bool) \<Rightarrow> dir_vnode \<Rightarrow> dir_log \<Rightarrow> dir_life" where
  "createStep resolve throws v st =
     (let (v1, st1) = updateDirectives resolve throws None (Some v) st in \<lparr>li_vnode = v1, li_inserted = False, li_log = st1\<rparr>)"

definition insertStep :: "(dir_call \<Rightarrow> bool) \<Rightarrow> dir_vnode \<Rightarrow> dir_log \<Rightarrow> dir_life" where
  "insertStep throws v st =
     (let (ids, slot) = invoke_hook (vd_insert v) in
      \<lparr>li_vnode = Some (v\<lparr>vd_insert := slot\<rparr>), li_inserted = True, li_log = run_later throws ids st\<rparr>)"

definition patchStep ::
    "(string \<Rightarrow> string list option) \<Rightarrow> (dir_call \<Rightarrow> bool) \<Rightarrow> dir_vnode \<Rightarrow> dir_vnode \<Rightarrow> dir_log \<Rightarrow> dir_life" where
  "patchStep resolve throws old v st =
     (let (v1, st1) = updateDirectives resolve throws (Some old) (Some v) st;
          v2 = (case v1 of Some w \<Rightarrow> w | None \<Rightarrow> v);
          (ids, slot) = invoke_hook (vd_postpatch v2)
      in \<lparr>li_vnode = Some (v2\<lparr>vd_postpatch := slot\<rparr>), li_inserted = True, li_log = run_later throws ids st1\<rparr>)"

definition replaceRoot ::
    "(string \<Rightarrow> string list option) \<Rightarrow> (dir_call \<Rightarrow> bool) \<Rightarrow> dir_vnode \<Rightarrow> dir_log \<Rightarrow> dir_life" where
  "replaceRoot resolve throws v st =
     (let st1 = unbindDirectives resolve throws v st;
          (v1, st2) = updateDirectives resolve throws None (Some v) st1;
          v2 = (case v1 of Some w \<Rightarrow> w | None \<Rightarrow> v);
          (ids, slot) = insert_merged (vd_insert v2)
      in \<lparr>li_vnode = Some (v2\<lparr>vd_insert := slot\<rparr>), li_inserted = True, li_log = run_later throws ids st2\<rparr>)"

definition own_insert :: "hook_slot \<Rightarrow> bool" where
  "own_insert slot \<longleftrightarrow> slot = PlainHook 0 \<or> slot = Merged [Plain 0]"

inductive dir_history :: "(string \<Rightarrow> string list option) \<Rightarrow> (dir_call \<Rightarrow> bool) \<Rightarrow> dir_life \<Rightarrow> bool" for resolve throws where
  start: "dir_history resolve throws
    \<lparr>li_vnode = None, li_inserted = False, li_log = \<lparr>dl_calls = [], dl_errors = [], dl_later = [[]]\<rparr>\<rparr>"
| create: "dir_history resolve throws s \<Longrightarrow> li_vnode s = None \<Longrightarrow> fresh_vnode v \<Longrightarrow>
    dir_history resolve throws (createStep resolve throws v (li_log s))"
| insert: "dir_history resolve throws s \<Longrightarrow> li_vnode s = Some v \<Longrightarrow> \<not> li_inserted s \<Longrightarrow>
    dir_history resolve throws (insertStep throws v (li_log s))"
| patch: "dir_history resolve throws s \<Longrightarrow> li_vnode s = Some old \<Longrightarrow> li_inserted s \<Longrightarrow> fresh_vnode v \<Longrightarrow>
    dir_history resolve throws (patchStep resolve throws old v (li_log s))"
| replace: "dir_history resolve throws s \<Longrightarrow> li_vnode s = Some v \<Longrightarrow> li_inserted s \<Longrightarrow> own_insert (vd_insert v) \<Longrightarrow>
    dir_history resolve throws (replaceRoot resolve throws v (li_log s))"
| destroy: "dir_history resolve throws s \<Longrightarrow> li_vnode s = Some v \<Longrightarrow>
    dir_history resolve throws \<lparr>li_vnode = None, li_inserted = False, li_log = unbindDirectives resolve throws v (li_log s)\<rparr>"

section \<open>The protocol of a directive\<close>

datatype dir_phase = Off | Bound jsval | Ready jsval | Updated jsval

fun protocol_step :: "dir_phase \<Rightarrow> dir_call \<Rightarrow> dir_phase option" where
  "protocol_step Off c = (if dc_hook c = ''bind'' then Some (Bound (dir_value (dc_dir c))) else None)"
| "protocol_step (Bound u) c =
     (if dir_value (dc_dir c) \<noteq> u then None
      else if dc_hook c = ''inserted'' then Some (Ready u) else if dc_hook c = ''unbind'' then Some Off else None)"
| "protocol_step (Ready u) c =
     (if dc_hook c = ''update'' \<and> dir_old (dc_dir c) = Some u then Some (Updated (dir_value (dc_dir c)))
      else if dc_hook c = ''unbind'' \<and> dir_value (dc_dir c) = u then Some Off else None)"
| "protocol_step (Updated u) c =
     (if dc_hook c = ''componentUpdated'' \<and> dir_value (dc_dir c) = u then Some (Ready u) else None)"

definition protocol :: "dir_call list \<Rightarrow> dir_phase option \<Rightarrow> dir_phase option" where
  "protocol cs ph = foldl (\<lambda>ph c. Option.bind ph (\<lambda>p. protocol_step p c)) ph cs"

definition keyed :: "string \<Rightarrow> dir_call list \<Rightarrow> dir_call list" where
  "keyed k cs = filter (\<lambda>c. getRawDirName (dc_dir c) = k) cs"

definition value_under :: "(string \<Rightarrow> string list option) \<Rightarrow> string \<Rightarrow> dir_vnode option \<Rightarrow> jsval option" where
  "value_under resolve k v = map_option dir_value (map_of (normalizeDirectives resolve (dirs_of v)) k)"

definition phase_of :: "(string \<Rightarrow> string list option) \<Rightarrow> string \<Rightarrow> dir_life \<Rightarrow> dir_phase" where
  "phase_of resolve k s =
     (case value_under resolve k (li_vnode s) of
        None \<Rightarrow> Off
      | Some u \<Rightarrow> if li_inserted s then Ready u else Bound u)"

text \<open>Every directive of the name has all five hooks.\<close>

definition all_hooks :: "(string \<Rightarrow> string list option) \<Rightarrow> string \<Rightarrow> bool" where
  "all_hooks resolve k \<longleftrightarrow>
     (\<forall>dir. getRawDirName dir = k \<longrightarrow>
        (case resolve (dir_name dir) of
           Some hooks \<Rightarrow> {''bind'', ''inserted'', ''update'', ''componentUpdated'', ''unbind''} \<subseteq> set hooks
         | None \<Rightarrow> False))"

subsection \<open>What is called\<close>

definition made :: "dir_call list \<Rightarrow> dir_call list" where
  "made cs = filter (\<lambda>c. has_hook (dc_dir c) (dc_hook c)) cs"

lemma made_simps [simp]: "made [] = []" "made (c # cs) = (if has_hook (dc_dir c) (dc_hook c) then c # made cs else made cs)" "made (cs @ ds) = made cs @ made ds"
  by (simp_all add: made_def)

lemma keyed_simps [simp]: "keyed k [] = []" "keyed k (c # cs) = (if getRawDirName (dc_dir c) = k then c # keyed k cs else keyed k cs)"
    "keyed k (cs @ ds) = keyed k cs @ keyed k ds"
  by (simp_all add: keyed_def)

lemma protocol_simps [simp]: "protocol [] ph = ph" "protocol (c # cs) ph = protocol cs (Option.bind ph (\<lambda>p. protocol_step p c))"
    "protocol (cs @ ds) ph = protocol ds (protocol cs ph)"
  by (simp_all add: protocol_def)

lemma call_simps [simp]:
  "dl_calls (callHook_1 throws c st) = dl_calls st @ made [c]" "dl_later (callHook_1 throws c st) = dl_later st"
  by (auto simp: callHook_1_def has_hook_def split: option.splits)

lemma call_all_simps [simp]:
  "dl_calls (call_all throws cs st) = dl_calls st @ made cs" "dl_later (call_all throws cs st) = dl_later st"
  by (induction cs arbitrary: st) (simp_all add: call_all_def)

lemma raw_prepared [simp]: "getRawDirName (prepared resolve dir) = getRawDirName dir"
  by (simp add: getRawDirName_def prepared_def split: option.splits)

lemma raw_old [simp]: "getRawDirName (dir\<lparr>dir_old := x\<rparr>) = getRawDirName dir"
  by (cases "dir_raw dir") (simp_all add: getRawDirName_def)

lemma keyed_made: "keyed k (made cs) = made (keyed k cs)"
  by (induction cs) auto

text \<open>Directives as normalization leaves them\<close>

definition normal :: "(string \<Rightarrow> string list option) \<Rightarrow> directive obj \<Rightarrow> bool" where
  "normal resolve ds \<longleftrightarrow>
     wf_obj ds \<and> (\<forall>key dir. map_of ds key = Some dir \<longrightarrow> getRawDirName dir = key \<and> dir_def dir = resolve (dir_name dir) \<and> dir_mods dir \<noteq> None)"

lemma normal_put: "normal resolve ds \<Longrightarrow> normal resolve (obj_put (getRawDirName dir) (prepared resolve dir) ds)"
  by (auto simp: normal_def) (auto simp: prepared_def getRawDirName_def)

lemma normal_normalize: "normal resolve (normalizeDirectives resolve dirs)"
proof (cases dirs)
  case (Some ds)
  have "normal resolve acc \<Longrightarrow> normal resolve (foldl (\<lambda>res dir. obj_put (getRawDirName (prepared resolve dir)) (prepared resolve dir) res) acc ds)" for acc
    by (induction ds arbitrary: acc) (simp_all add: normal_put)
  moreover have "normal resolve []" by (simp add: normal_def wf_obj_def)
  ultimately show ?thesis using Some by simp
qed (simp add: normal_def wf_obj_def)

lemma normal_Cons: "normal resolve ((key, dir) # ds) \<Longrightarrow> normal resolve ds \<and> getRawDirName dir = key \<and> prepared resolve dir = dir \<and> key \<notin> set (obj_keys ds)"
proof -
  assume n: "normal resolve ((key, dir) # ds)"
  then have d: "key \<notin> set (obj_keys ds)" "wf_obj ds" by (simp_all add: normal_def wf_obj_def)
  have "map_of ((key, dir) # ds) key = Some dir" by simp
  with n have "getRawDirName dir = key" "dir_def dir = resolve (dir_name dir)" "dir_mods dir \<noteq> None" unfolding normal_def by blast+
  moreover have "normal resolve ds"
    unfolding normal_def
  proof (intro conjI allI impI)
    show "wf_obj ds" by (rule d(2))
    fix k v assume m: "map_of ds k = Some v"
    with d(1) have "k \<noteq> key" by (metis map_of_None_iff option.distinct(1))
    with m have "map_of ((key, dir) # ds) k = Some v" by simp
    with n show "getRawDirName v = k" "dir_def v = resolve (dir_name v)" "dir_mods v \<noteq> None" unfolding normal_def by blast+
  qed
  ultimately show ?thesis using d(1) by (auto simp: prepared_def)
qed

lemma renormalize: "normal resolve ds \<Longrightarrow> normalizeDirectives resolve (Some (map snd ds)) = ds"
proof -
  assume n: "normal resolve ds"
  have "normal resolve ds \<Longrightarrow> set (obj_keys acc) \<inter> set (obj_keys ds) = {} \<Longrightarrow>
      foldl (\<lambda>res dir. obj_put (getRawDirName (prepared resolve dir)) (prepared resolve dir) res) acc (map snd ds) = acc @ ds" for acc
  proof (induction ds arbitrary: acc)
    case (Cons kd ds)
    obtain k d where kd: "kd = (k, d)" by (cases kd)
    from Cons.prems normal_Cons [of resolve k d ds] have
      "normal resolve ds" "getRawDirName d = k" "prepared resolve d = d" "k \<notin> set (obj_keys ds)" "k \<notin> set (obj_keys acc)"
      by (auto simp: kd)
    with Cons show ?case by (simp add: kd put_fresh)
  qed simp
  from this [OF n, of "[]"] show ?thesis by simp
qed

lemma keyed_map:
  assumes "wf_obj ds" "\<And>key dir. map_of ds key = Some dir \<Longrightarrow> getRawDirName (dc_dir (f (key, dir))) = key"
  shows "keyed k (map f ds) = (case map_of ds k of Some d \<Rightarrow> [f (k, d)] | None \<Rightarrow> [])"
  using assms
proof (induction ds)
  case (Cons kd ds)
  obtain key dir where kd: "kd = (key, dir)" by (cases kd)
  have d: "key \<notin> set (obj_keys ds)" "wf_obj ds" using Cons.prems(1) by (simp_all add: wf_obj_def kd)
  have other: "map_of ds k' = Some d' \<Longrightarrow> k' \<noteq> key" for k' d' using d(1) by (metis map_of_None_iff option.distinct(1))
  have ih: "keyed k (map f ds) = (case map_of ds k of Some d \<Rightarrow> [f (k, d)] | None \<Rightarrow> [])"
  proof (rule Cons.IH [OF d(2)])
    fix k' d' assume "map_of ds k' = Some d'"
    then show "getRawDirName (dc_dir (f (k', d'))) = k'" using Cons.prems(2) [of k' d'] other by (simp add: kd)
  qed
  have "getRawDirName (dc_dir (f (key, dir))) = key" using Cons.prems(2) [of key dir] by (simp add: kd)
  moreover have "map_of ds key = None" using d(1) by (simp add: map_of_None_iff)
  ultimately show ?case by (auto simp: kd ih)
qed simp

lemma keyed_filter: "keyed k (filter p cs) = filter p (keyed k cs)"
  by (induction cs) auto

subsection \<open>What a comparison of two vnodes calls\<close>

definition aged :: "directive obj \<Rightarrow> string \<times> directive \<Rightarrow> directive" where
  "aged old kd = (case map_of old (fst kd) of None \<Rightarrow> snd kd | Some o1 \<Rightarrow> (snd kd)\<lparr>dir_old := Some (dir_value o1)\<rparr>)"

definition first_call :: "directive obj \<Rightarrow> nat \<Rightarrow> nat option \<Rightarrow> string \<times> directive \<Rightarrow> dir_call" where
  "first_call old v ov kd =
     \<lparr>dc_hook = (if map_of old (fst kd) = None then ''bind'' else ''update''), dc_dir = aged old kd, dc_vnode = v, dc_old = ov, dc_destroy = False\<rparr>"

definition later_dirs :: "directive obj \<Rightarrow> bool \<Rightarrow> string \<Rightarrow> directive obj \<Rightarrow> directive list" where
  "later_dirs old fresh hook new = map (aged old) (filter (\<lambda>kd. (map_of old (fst kd) = None) = fresh \<and> has_hook (snd kd) hook) new)"

lemma has_aged [simp]: "has_hook (aged old kd) hook = has_hook (snd kd) hook"
  by (simp add: aged_def has_hook_def split: option.splits)

lemma raw_aged [simp]: "getRawDirName (aged old kd) = getRawDirName (snd kd)"
  by (simp add: aged_def split: option.splits)

lemma fold_directives:
  "\<exists>st1. foldl (bind_or_update throws old v ov) (dirs, ins, posts, st) new =
       (dirs @ map (aged old) new, ins @ later_dirs old True ''inserted'' new, posts @ later_dirs old False ''componentUpdated'' new, st1) \<and>
     dl_calls st1 = dl_calls st @ made (map (first_call old v ov) new) \<and> dl_later st1 = dl_later st"
proof (induction new arbitrary: dirs ins posts st)
  case (Cons kd new)
  obtain k d where kd: "kd = (k, d)" by (cases kd)
  have h: "has_hook (d\<lparr>dir_old := x\<rparr>) hook = has_hook d hook" for x hook by (simp add: has_hook_def)
  show ?case
  proof (cases "map_of old k")
    case None
    then have a: "aged old kd = d" by (simp add: aged_def kd)
    show ?thesis
      using Cons.IH [of "dirs @ [d]" "if has_hook d ''inserted'' then ins @ [d] else ins" posts
          "callHook_1 throws \<lparr>dc_hook = ''bind'', dc_dir = d, dc_vnode = v, dc_old = ov, dc_destroy = False\<rparr> st"] None a
      by (auto simp: kd bind_or_update_def later_dirs_def first_call_def)
  next
    case (Some o1)
    let ?d = "d\<lparr>dir_old := Some (dir_value o1)\<rparr>"
    from Some have a: "aged old kd = ?d" by (simp add: aged_def kd)
    show ?thesis
      using Cons.IH [of "dirs @ [?d]" ins "if has_hook ?d ''componentUpdated'' then posts @ [?d] else posts"
          "callHook_1 throws \<lparr>dc_hook = ''update'', dc_dir = ?d, dc_vnode = v, dc_old = ov, dc_destroy = False\<rparr> st"] Some a
      by (auto simp: kd bind_or_update_def later_dirs_def first_call_def Let_def h)
  qed
qed (simp add: later_dirs_def)

lemma made_all: "(\<And>c. c \<in> set cs \<Longrightarrow> has_hook (dc_dir c) (dc_hook c)) \<Longrightarrow> made cs = cs"
  by (simp add: made_def filter_id_conv)

lemma later_keyed:
  assumes "wf_obj new" "\<And>key dir. map_of new key = Some dir \<Longrightarrow> getRawDirName dir = key"
  shows "keyed k (later hook v ov (later_dirs old fresh hook new)) =
    (case map_of new k of
       Some d \<Rightarrow>
         if (map_of old k = None) = fresh \<and> has_hook d hook
         then [\<lparr>dc_hook = hook, dc_dir = aged old (k, d), dc_vnode = v, dc_old = ov, dc_destroy = False\<rparr>] else []
     | None \<Rightarrow> [])"
proof -
  let ?f = "\<lambda>kd. \<lparr>dc_hook = hook, dc_dir = aged old kd, dc_vnode = v, dc_old = ov, dc_destroy = False\<rparr>"
  let ?p = "\<lambda>kd. (map_of old (fst kd) = None) = fresh \<and> has_hook (snd kd) hook"
  have w: "wf_obj (filter ?p new)" using assms(1) by (auto simp: wf_obj_def intro: distinct_map_filter)
  have m: "map_of (filter ?p new) k' = (case map_of new k' of Some d \<Rightarrow> if ?p (k', d) then Some d else None | None \<Rightarrow> None)" for k'
    using assms(1)
  proof (induction new)
    case (Cons kd new)
    then have "map_of new (fst kd) = None" by (simp add: wf_obj_def map_of_None_iff)
    with Cons show ?case by (cases kd) (auto simp: wf_obj_def split: option.splits)
  qed simp
  have "keyed k (map ?f (filter ?p new)) = (case map_of (filter ?p new) k of Some d \<Rightarrow> [?f (k, d)] | None \<Rightarrow> [])"
    using assms(2) by (intro keyed_map w) (auto simp: m split: option.splits if_splits)
  then show ?thesis by (simp add: later_def later_dirs_def comp_def m split: option.splits)
qed

lemma first_keyed:
  assumes "wf_obj new" "\<And>key dir. map_of new key = Some dir \<Longrightarrow> getRawDirName dir = key"
  shows "keyed k (map (first_call old v ov) new) = (case map_of new k of Some d \<Rightarrow> [first_call old v ov (k, d)] | None \<Rightarrow> [])"
  using assms by (intro keyed_map) (simp_all add: first_call_def)

lemma unbind_keyed:
  assumes "wf_obj old" "\<And>key dir. map_of old key = Some dir \<Longrightarrow> getRawDirName dir = key"
  shows "keyed k (unbind_calls old new v destroy) =
    (case map_of old k of
       Some d \<Rightarrow> if map_of new k = None then [\<lparr>dc_hook = ''unbind'', dc_dir = d, dc_vnode = v, dc_old = Some v, dc_destroy = destroy\<rparr>] else []
     | None \<Rightarrow> [])"
proof -
  let ?f = "\<lambda>(key::string, dir). \<lparr>dc_hook = ''unbind'', dc_dir = dir, dc_vnode = v, dc_old = Some v, dc_destroy = destroy\<rparr>"
  have w: "wf_obj (filter (\<lambda>(key, dir). map_of new key = None) old)" using assms(1) by (auto simp: wf_obj_def intro: distinct_map_filter)
  have m: "map_of (filter (\<lambda>(key, dir). map_of new key = None) old) k' =
      (case map_of old k' of Some d \<Rightarrow> if map_of new k' = None then Some d else None | None \<Rightarrow> None)" for k'
    using assms(1)
  proof (induction old)
    case (Cons kd old)
    then have "map_of old (fst kd) = None" by (simp add: wf_obj_def map_of_None_iff)
    with Cons show ?case by (cases kd) (auto simp: wf_obj_def split: option.splits)
  qed simp
  have "keyed k (map ?f (filter (\<lambda>(key, dir). map_of new key = None) old)) =
      (case map_of (filter (\<lambda>(key, dir). map_of new key = None) old) k of Some d \<Rightarrow> [?f (k, d)] | None \<Rightarrow> [])"
    using assms(2) by (intro keyed_map w) (auto simp: m split: option.splits if_splits)
  then show ?thesis by (simp add: unbind_calls_def m split: option.splits)
qed

definition renewed :: "directive obj \<Rightarrow> directive obj \<Rightarrow> directive obj" where
  "renewed old new = map (\<lambda>kd. (fst kd, aged old kd)) new"

lemma map_of_renewed: "map_of (renewed old new) k = map_option (\<lambda>d. aged old (k, d)) (map_of new k)"
  by (induction new) (auto simp: renewed_def)

lemma value_aged [simp]: "dir_value (aged old kd) = dir_value (snd kd)"
  by (simp add: aged_def split: option.splits)

lemma normal_renewed: "normal resolve new \<Longrightarrow> normal resolve (renewed old new)"
proof -
  assume n: "normal resolve new"
  have "wf_obj (renewed old new)" using n by (simp add: normal_def wf_obj_def renewed_def comp_def)
  moreover have "dir_def (aged old kd) = dir_def (snd kd)" "dir_name (aged old kd) = dir_name (snd kd)" "dir_mods (aged old kd) = dir_mods (snd kd)" for kd
    by (simp_all add: aged_def split: option.splits)
  ultimately show ?thesis using n by (auto simp: normal_def map_of_renewed)
qed

lemma normalize_renewed:
  "normalizeDirectives resolve (map_option (\<lambda>_. map (aged old) (normalizeDirectives resolve dirs)) dirs) =
   renewed old (normalizeDirectives resolve dirs)"
proof (cases dirs)
  case (Some ds)
  have "map (aged old) (normalizeDirectives resolve dirs) = map snd (renewed old (normalizeDirectives resolve dirs))"
    by (simp add: renewed_def comp_def)
  then show ?thesis using renormalize [OF normal_renewed [OF normal_normalize], of resolve old dirs] Some by simp
qed (simp add: renewed_def)

lemma update_create:
  assumes "N = normalizeDirectives resolve (vd_dirs v)" "ins = later_dirs [] True ''inserted'' N"
  shows "\<exists>w st1. updateDirectives resolve throws None (Some v) st = (Some w, st1) \<and>
     normalizeDirectives resolve (vd_dirs w) = renewed [] N \<and> vd_postpatch w = vd_postpatch v \<and>
     dl_calls st1 = dl_calls st @ made (map (first_call [] (vd_id v) None) N) \<and>
     (if ins = [] then vd_insert w = vd_insert v \<and> dl_later st1 = dl_later st
      else vd_insert w = mergeVNodeHook (length (dl_later st)) (vd_insert v) \<and>
        dl_later st1 = dl_later st @ [later ''inserted'' (vd_id v) None ins])"
proof (cases "vd_dirs v = None")
  case True
  then have "N = []" using assms(1) by simp
  then show ?thesis using True assms(2) by (simp add: updateDirectives_def dirs_of_def later_dirs_def renewed_def)
next
  case False
  obtain st1 where st1: "foldl (bind_or_update throws [] (vd_id v) None) ([], [], [], st) N = (map (aged []) N, ins, [], st1)"
    "dl_calls st1 = dl_calls st @ made (map (first_call [] (vd_id v) None) N)" "dl_later st1 = dl_later st"
    using fold_directives [of throws "[]" "vd_id v" None "[]" "[]" "[]" st N] by (auto simp: assms(2) later_dirs_def)
  show ?thesis
    using False st1(2,3) normalize_renewed [of resolve "[]" "vd_dirs v"]
    by (simp add: updateDirectives_def update_1_def dirs_of_def assms(1) [symmetric] st1(1) merge_later_def Let_def)
qed

lemma update_patch:
  assumes "N = normalizeDirectives resolve (vd_dirs v)" "O1 = normalizeDirectives resolve (vd_dirs old)"
    "ins = later_dirs O1 True ''inserted'' N" "posts = later_dirs O1 False ''componentUpdated'' N"
  shows "\<exists>w st1. updateDirectives resolve throws (Some old) (Some v) st = (Some w, st1) \<and>
     normalizeDirectives resolve (vd_dirs w) = renewed O1 N \<and> vd_insert w = vd_insert v \<and>
     dl_calls st1 = dl_calls st @ made (map (first_call O1 (vd_id v) (Some (vd_id old))) N) @
       made (later ''inserted'' (vd_id v) (Some (vd_id old)) ins) @ made (unbind_calls O1 N (vd_id old) False) \<and>
     (if posts = [] then vd_postpatch w = vd_postpatch v \<and> dl_later st1 = dl_later st
      else vd_postpatch w = mergeVNodeHook (length (dl_later st)) (vd_postpatch v) \<and>
        dl_later st1 = dl_later st @ [later ''componentUpdated'' (vd_id v) (Some (vd_id old)) posts])"
proof (cases "vd_dirs v = None \<and> vd_dirs old = None")
  case True
  then have "N = []" "O1 = []" using assms by simp_all
  then show ?thesis using True assms
    by (simp add: updateDirectives_def dirs_of_def later_dirs_def renewed_def unbind_calls_def later_def)
next
  case False
  obtain st1 where st1: "foldl (bind_or_update throws O1 (vd_id v) (Some (vd_id old))) ([], [], [], st) N = (map (aged O1) N, ins, posts, st1)"
    "dl_calls st1 = dl_calls st @ made (map (first_call O1 (vd_id v) (Some (vd_id old))) N)" "dl_later st1 = dl_later st"
    using fold_directives [of throws O1 "vd_id v" "Some (vd_id old)" "[]" "[]" "[]" st N] by (auto simp: assms)
  have "later ''inserted'' (vd_id v) (Some (vd_id old)) [] = []" by (simp add: later_def)
  moreover have "updateDirectives resolve throws (Some old) (Some v) st = update_1 resolve throws (Some old) (Some v) st"
    using False by (auto simp: updateDirectives_def dirs_of_def)
  ultimately show ?thesis
    using st1(2,3) normalize_renewed [of resolve O1 "vd_dirs v"]
    by (cases "ins = []"; cases "posts = []")
      (simp_all add: update_1_def dirs_of_def assms(1,2) [symmetric] st1(1) merge_later_def Let_def)
qed

lemma update_destroy:
  assumes "O1 = normalizeDirectives resolve (vd_dirs old)"
  shows "dl_calls (unbindDirectives resolve throws old st) = dl_calls st @ made (unbind_calls O1 [] (vd_id old) True)"
    "dl_later (unbindDirectives resolve throws old st) = dl_later st"
proof -
  have "vd_dirs old = None \<Longrightarrow> unbind_calls O1 [] (vd_id old) True = []" by (simp add: assms unbind_calls_def)
  then show "dl_calls (unbindDirectives resolve throws old st) = dl_calls st @ made (unbind_calls O1 [] (vd_id old) True)"
    by (auto simp: unbindDirectives_def updateDirectives_def update_1_def dirs_of_def Let_def assms)
  show "dl_later (unbindDirectives resolve throws old st) = dl_later st"
    by (simp add: unbindDirectives_def updateDirectives_def update_1_def dirs_of_def Let_def)
qed

subsection \<open>Hooks that wait\<close>

definition waiting :: "nat list \<Rightarrow> dir_log \<Rightarrow> dir_call list" where
  "waiting ids st = concat (map (\<lambda>i. if i < length (dl_later st) then dl_later st ! i else []) ids)"

lemma run_later_simps [simp]:
  "dl_calls (run_later throws ids st) = dl_calls st @ made (waiting ids st)" "dl_later (run_later throws ids st) = dl_later st"
proof -
  have "dl_calls (run_later throws ids st) = dl_calls st @ made (waiting ids st) \<and> dl_later (run_later throws ids st) = dl_later st"
    by (induction ids arbitrary: st) (auto simp: run_later_def waiting_def cong: if_cong)
  then show "dl_calls (run_later throws ids st) = dl_calls st @ made (waiting ids st)" "dl_later (run_later throws ids st) = dl_later st"
    by simp_all
qed

text \<open>Number 0, a component's own insert hook, calls no directive.\<close>

definition own_first :: "dir_log \<Rightarrow> bool" where
  "own_first st \<longleftrightarrow> (\<exists>ls. dl_later st = [] # ls)"

lemma waiting_merged:
  assumes "own_first st" "dl_later st1 = dl_later st @ [cs]"
  shows "waiting [length (dl_later st)] st1 = cs" "waiting [0, length (dl_later st)] st1 = cs"
  using assms by (auto simp: own_first_def waiting_def)

lemma invoke_merged:
  "invoke_hook (mergeVNodeHook n NoHook) = ([n], Merged [])" "invoke_hook (mergeVNodeHook n (PlainHook p)) = ([p, n], Merged [Plain p])"
  by (simp_all add: invoke_hook_def mergeVNodeHook_def remove_item_eq)

lemma insert_one:
  "insert_merged (Merged [Plain p, Wrapped n]) = ([n], Merged [Plain p])" "insert_merged (Merged [Plain p]) = ([], Merged [Plain p])"
  "insert_merged (PlainHook p) = ([], PlainHook p)"
  by (simp_all add: insert_merged_def insert_loop.simps remove_item_eq)

lemma made_full:
  assumes "all_hooks resolve k" "getRawDirName d = k" "dir_def d = resolve (dir_name d)"
    "hook \<in> {''bind'', ''inserted'', ''update'', ''componentUpdated'', ''unbind''}"
  shows "has_hook d hook"
proof -
  have "case resolve (dir_name d) of
      Some hooks \<Rightarrow> {''bind'', ''inserted'', ''update'', ''componentUpdated'', ''unbind''} \<subseteq> set hooks
    | None \<Rightarrow> False"
    using assms(1,2) by (simp only: all_hooks_def)
  then show ?thesis using assms(3,4) by (cases "resolve (dir_name d)") (auto simp: has_hook_def)
qed

subsection \<open>The invariant\<close>

text \<open>
  What will be called under \<open>k\<close> when the insert hook runs: \<open>inserted\<close>, if there is a directive of that name.
\<close>

definition insert_waits :: "(string \<Rightarrow> string list option) \<Rightarrow> string \<Rightarrow> dir_life \<Rightarrow> bool" where
  "insert_waits resolve k s \<longleftrightarrow>
     (case li_vnode s of
        None \<Rightarrow> True
      | Some v \<Rightarrow> \<not> li_inserted s \<longrightarrow>
          (case value_under resolve k (Some v) of
             None \<Rightarrow> keyed k (waiting (fst (invoke_hook (vd_insert v))) (li_log s)) = []
           | Some u \<Rightarrow> \<exists>c. keyed k (waiting (fst (invoke_hook (vd_insert v))) (li_log s)) = [c] \<and>
               dc_hook c = ''inserted'' \<and> dir_value (dc_dir c) = u \<and> has_hook (dc_dir c) ''inserted''))"

definition dir_ok :: "(string \<Rightarrow> string list option) \<Rightarrow> string \<Rightarrow> dir_life \<Rightarrow> bool" where
  "dir_ok resolve k s \<longleftrightarrow>
     protocol (keyed k (dl_calls (li_log s))) (Some Off) = Some (phase_of resolve k s) \<and>
     own_first (li_log s) \<and> insert_waits resolve k s"

lemma created_ok:
  assumes full: "all_hooks resolve k" and off: "protocol (keyed k (dl_calls st)) (Some Off) = Some Off"
    and own: "own_first st" and slot: "vd_insert v = NoHook \<or> own_insert (vd_insert v)"
    and up: "updateDirectives resolve throws None (Some v) st = (Some w, st1)"
  shows "own_first st1"
    and "protocol (keyed k (dl_calls st1)) (Some Off) = Some (case value_under resolve k (Some w) of None \<Rightarrow> Off | Some u \<Rightarrow> Bound u)"
    and "insert_waits resolve k \<lparr>li_vnode = Some w, li_inserted = False, li_log = st1\<rparr>"
    and "vd_insert v \<noteq> NoHook \<Longrightarrow> keyed k (waiting (fst (insert_merged (vd_insert w))) st1) = keyed k (waiting (fst (invoke_hook (vd_insert w))) st1)"
proof -
  define N where "N = normalizeDirectives resolve (vd_dirs v)"
  define ins where "ins = later_dirs [] True ''inserted'' N"
  have n: "normal resolve N" by (simp add: N_def normal_normalize)
  have wfN: "wf_obj N" and keyN: "\<And>key dir. map_of N key = Some dir \<Longrightarrow> getRawDirName dir = key \<and> dir_def dir = resolve (dir_name dir)"
    using n by (auto simp: normal_def)
  have w: "normalizeDirectives resolve (vd_dirs w) = renewed [] N"
    "dl_calls st1 = dl_calls st @ made (map (first_call [] (vd_id v) None) N)"
    "if ins = [] then vd_insert w = vd_insert v \<and> dl_later st1 = dl_later st
      else vd_insert w = mergeVNodeHook (length (dl_later st)) (vd_insert v) \<and>
        dl_later st1 = dl_later st @ [later ''inserted'' (vd_id v) None ins]"
    using update_create [OF N_def ins_def, of throws st] up by auto
  show o1: "own_first st1" using own w(3) by (auto simp: own_first_def split: if_splits)
  have val: "value_under resolve k (Some w) = map_option dir_value (map_of N k)"
    by (simp add: value_under_def dirs_of_def w(1) map_of_renewed option.map_comp comp_def)
  have first: "keyed k (map (first_call [] (vd_id v) None) N) = (case map_of N k of Some d \<Rightarrow> [first_call [] (vd_id v) None (k, d)] | None \<Rightarrow> [])"
    using keyN by (intro first_keyed wfN) auto
  have hooks: "map_of N k = Some d \<Longrightarrow> has_hook d ''bind'' \<and> has_hook d ''inserted''" for d
    using made_full [OF full] keyN [of k d] by auto
  show "protocol (keyed k (dl_calls st1)) (Some Off) = Some (case value_under resolve k (Some w) of None \<Rightarrow> Off | Some u \<Rightarrow> Bound u)"
    using off hooks by (cases "map_of N k") (simp_all add: w(2) keyed_made first val first_call_def)
  have inskey: "keyed k (later ''inserted'' (vd_id v) None ins) =
      (case map_of N k of Some d \<Rightarrow> [\<lparr>dc_hook = ''inserted'', dc_dir = aged [] (k, d), dc_vnode = vd_id v, dc_old = None, dc_destroy = False\<rparr>] | None \<Rightarrow> [])"
    using later_keyed [OF wfN, of k "''inserted''" "vd_id v" None "[]" True] keyN hooks by (auto simp: ins_def split: option.splits)
  have own0: "waiting [0] st1 = []" using o1 by (auto simp: own_first_def waiting_def)
  have both: "keyed k (waiting (fst (invoke_hook (vd_insert w))) st1) = keyed k (later ''inserted'' (vd_id v) None ins) \<and>
      (vd_insert v \<noteq> NoHook \<longrightarrow> keyed k (waiting (fst (insert_merged (vd_insert w))) st1) = keyed k (later ''inserted'' (vd_id v) None ins))"
  proof (cases "ins = []")
    case True
    then have "vd_insert w = vd_insert v" "later ''inserted'' (vd_id v) None ins = []" using w(3) by (simp_all add: later_def)
    then show ?thesis using slot own0
      by (auto simp: own_insert_def invoke_hook_def insert_one waiting_def)
  next
    case False
    then have l: "vd_insert w = mergeVNodeHook (length (dl_later st)) (vd_insert v)"
      "dl_later st1 = dl_later st @ [later ''inserted'' (vd_id v) None ins]" using w(3) by auto
    have "invoke_hook (Merged [Plain 0, Wrapped n]) = ([0, n], Merged [Plain 0])" for n
      by (simp add: invoke_hook_def remove_item_eq)
    then show ?thesis using slot waiting_merged [OF own l(2)]
      by (auto simp: l(1) own_insert_def invoke_merged) (auto simp: mergeVNodeHook_def insert_one)
  qed
  then show "insert_waits resolve k \<lparr>li_vnode = Some w, li_inserted = False, li_log = st1\<rparr>"
    using hooks by (cases "map_of N k") (auto simp: insert_waits_def val inskey)
  show "vd_insert v \<noteq> NoHook \<Longrightarrow> keyed k (waiting (fst (insert_merged (vd_insert w))) st1) = keyed k (waiting (fst (invoke_hook (vd_insert w))) st1)"
    using both by simp
qed

lemma unbound_ok:
  assumes full: "all_hooks resolve k" and ok: "dir_ok resolve k s" and v: "li_vnode s = Some v"
  shows "protocol (keyed k (dl_calls (unbindDirectives resolve throws v (li_log s)))) (Some Off) = Some Off"
    and "own_first (unbindDirectives resolve throws v (li_log s))"
proof -
  define O1 where "O1 = normalizeDirectives resolve (vd_dirs v)"
  have n: "normal resolve O1" by (simp add: O1_def normal_normalize)
  have wfO: "wf_obj O1" and keyO: "\<And>key dir. map_of O1 key = Some dir \<Longrightarrow> getRawDirName dir = key \<and> dir_def dir = resolve (dir_name dir)"
    using n by (auto simp: normal_def)
  have val: "value_under resolve k (li_vnode s) = map_option dir_value (map_of O1 k)"
    by (simp add: value_under_def dirs_of_def v O1_def)
  have hooks: "map_of O1 k = Some d \<Longrightarrow> has_hook d ''unbind''" for d
    using made_full [OF full] keyO [of k d] by auto
  have u: "keyed k (unbind_calls O1 [] (vd_id v) True) =
     (case map_of O1 k of
       Some d \<Rightarrow> [\<lparr>dc_hook = ''unbind'', dc_dir = d, dc_vnode = vd_id v, dc_old = Some (vd_id v), dc_destroy = True\<rparr>] | None \<Rightarrow> [])"
    using unbind_keyed [OF wfO, of k "[]" "vd_id v" True] keyO by (simp split: option.splits)
  have "protocol (keyed k (dl_calls (li_log s))) (Some Off) = Some (phase_of resolve k s)" using ok by (simp add: dir_ok_def)
  then show "protocol (keyed k (dl_calls (unbindDirectives resolve throws v (li_log s)))) (Some Off) = Some Off"
    using hooks by (cases "map_of O1 k") (auto simp: update_destroy(1) [OF O1_def] keyed_made u phase_of_def val)
  show "own_first (unbindDirectives resolve throws v (li_log s))"
    using ok by (simp add: dir_ok_def own_first_def update_destroy(2) [OF O1_def])
qed

lemma patched_ok:
  assumes full: "all_hooks resolve k" and ok: "dir_ok resolve k s" and old: "li_vnode s = Some old" "li_inserted s"
    and fresh: "fresh_vnode v"
  shows "dir_ok resolve k (patchStep resolve throws old v (li_log s))"
proof -
  define N where "N = normalizeDirectives resolve (vd_dirs v)"
  define O1 where "O1 = normalizeDirectives resolve (vd_dirs old)"
  define ins where "ins = later_dirs O1 True ''inserted'' N"
  define posts where "posts = later_dirs O1 False ''componentUpdated'' N"
  let ?ov = "Some (vd_id old)" and ?st = "li_log s"
  have "normal resolve N" "normal resolve O1" by (simp_all add: N_def O1_def normal_normalize)
  then have wf: "wf_obj N" "wf_obj O1"
    and keyN: "\<And>key dir. map_of N key = Some dir \<Longrightarrow> getRawDirName dir = key \<and> dir_def dir = resolve (dir_name dir)"
    and keyO: "\<And>key dir. map_of O1 key = Some dir \<Longrightarrow> getRawDirName dir = key \<and> dir_def dir = resolve (dir_name dir)"
    by (auto simp: normal_def)
  obtain w st1 where up: "updateDirectives resolve throws (Some old) (Some v) ?st = (Some w, st1)" and w:
    "normalizeDirectives resolve (vd_dirs w) = renewed O1 N" "vd_insert w = vd_insert v"
    "dl_calls st1 = dl_calls ?st @ made (map (first_call O1 (vd_id v) ?ov) N) @
       made (later ''inserted'' (vd_id v) ?ov ins) @ made (unbind_calls O1 N (vd_id old) False)"
    "if posts = [] then vd_postpatch w = vd_postpatch v \<and> dl_later st1 = dl_later ?st
      else vd_postpatch w = mergeVNodeHook (length (dl_later ?st)) (vd_postpatch v) \<and>
        dl_later st1 = dl_later ?st @ [later ''componentUpdated'' (vd_id v) ?ov posts]"
    using update_patch [OF N_def O1_def ins_def posts_def, of throws ?st] by auto
  have own: "own_first ?st" using ok by (simp add: dir_ok_def)
  have own1: "own_first st1" using own w(4) by (auto simp: own_first_def split: if_splits)
  obtain ids slot where inv: "invoke_hook (vd_postpatch w) = (ids, slot)" by fastforce
  have wait: "keyed k (waiting ids st1) = keyed k (later ''componentUpdated'' (vd_id v) ?ov posts)"
  proof (cases "posts = []")
    case True
    then show ?thesis using w(4) inv fresh by (auto simp: fresh_vnode_def invoke_hook_def waiting_def later_def)
  next
    case False
    then have l: "vd_postpatch w = mergeVNodeHook (length (dl_later ?st)) NoHook"
      "dl_later st1 = dl_later ?st @ [later ''componentUpdated'' (vd_id v) ?ov posts]" using w(4) fresh by (auto simp: fresh_vnode_def)
    with inv have "ids = [length (dl_later ?st)]" by (simp add: invoke_merged)
    then show ?thesis using waiting_merged(1) [OF own l(2)] by simp
  qed
  have hooksN: "map_of N k = Some d \<Longrightarrow> \<forall>h\<in>{''bind'', ''inserted'', ''update'', ''componentUpdated''}. has_hook d h" for d
    using made_full [OF full] keyN [of k d] by auto
  have hooksO: "map_of O1 k = Some d \<Longrightarrow> has_hook d ''unbind''" for d
    using made_full [OF full] keyO [of k d] by auto
  note parts = first_keyed [OF wf(1), of k O1 "vd_id v" ?ov] later_keyed [OF wf(1), of k "''inserted''" "vd_id v" ?ov O1 True]
    later_keyed [OF wf(1), of k "''componentUpdated''" "vd_id v" ?ov O1 False] unbind_keyed [OF wf(2), of k N "vd_id old" False]
  have valO: "value_under resolve k (li_vnode s) = map_option dir_value (map_of O1 k)"
    by (simp add: value_under_def dirs_of_def old O1_def)
  have valN: "value_under resolve k (Some (w\<lparr>vd_postpatch := slot\<rparr>)) = map_option dir_value (map_of N k)"
    by (simp add: value_under_def dirs_of_def w(1) map_of_renewed option.map_comp comp_def)
  have now: "protocol (keyed k (dl_calls ?st)) (Some Off) = Some (phase_of resolve k s)" using ok by (simp add: dir_ok_def)
  have ps: "patchStep resolve throws old v ?st = \<lparr>li_vnode = Some (w\<lparr>vd_postpatch := slot\<rparr>), li_inserted = True, li_log = run_later throws ids st1\<rparr>"
    by (simp add: patchStep_def up inv)
  have "protocol (keyed k (dl_calls (run_later throws ids st1))) (Some Off) =
      Some (case map_of N k of None \<Rightarrow> Off | Some d \<Rightarrow> Ready (dir_value d))"
    using keyN keyO hooksN hooksO
    by (cases "map_of N k"; cases "map_of O1 k")
      (simp_all add: w(3) keyed_made wait now phase_of_def valO old(2) parts ins_def posts_def first_call_def aged_def has_hook_def)
  then show ?thesis
    unfolding ps dir_ok_def using own1
    by (simp add: phase_of_def valN own_first_def insert_waits_def split: option.splits)
qed

lemma inserted_ok:
  assumes ok: "dir_ok resolve k s" and v: "li_vnode s = Some v" "\<not> li_inserted s"
  shows "dir_ok resolve k (insertStep throws v (li_log s))"
proof -
  obtain ids slot where inv: "invoke_hook (vd_insert v) = (ids, slot)" by fastforce
  have val: "value_under resolve k (Some (v\<lparr>vd_insert := slot\<rparr>)) = value_under resolve k (Some v)"
    by (simp add: value_under_def dirs_of_def)
  have now: "protocol (keyed k (dl_calls (li_log s))) (Some Off) =
      Some (case value_under resolve k (Some v) of None \<Rightarrow> Off | Some u \<Rightarrow> Bound u)"
    using ok v by (cases "value_under resolve k (Some v)") (simp_all add: dir_ok_def phase_of_def)
  have wait: "insert_waits resolve k s" using ok by (simp add: dir_ok_def)
  have "protocol (keyed k (dl_calls (run_later throws ids (li_log s)))) (Some Off) =
      Some (case value_under resolve k (Some v) of None \<Rightarrow> Off | Some u \<Rightarrow> Ready u)"
    using wait now by (cases "value_under resolve k (Some v)") (auto simp: insert_waits_def v inv keyed_made)
  then show ?thesis using ok
    by (simp add: insertStep_def inv dir_ok_def phase_of_def val own_first_def insert_waits_def split: option.splits)
qed

lemma update_some: "\<exists>w st1. updateDirectives resolve throws None (Some v) st = (Some w, st1)"
  using update_create [OF refl refl] by blast

lemma replaced_ok:
  assumes full: "all_hooks resolve k" and ok: "dir_ok resolve k s" and v: "li_vnode s = Some v" "li_inserted s"
    and slot: "own_insert (vd_insert v)"
  shows "dir_ok resolve k (replaceRoot resolve throws v (li_log s))"
proof -
  let ?st = "unbindDirectives resolve throws v (li_log s)"
  obtain w st1 where up: "updateDirectives resolve throws None (Some v) ?st = (Some w, st1)" using update_some by blast
  have slot': "vd_insert v \<noteq> NoHook" using slot by (auto simp: own_insert_def)
  note c = created_ok [OF full unbound_ok [OF full ok v(1)] disjI2 [OF slot] up]
  obtain ids new where inv: "insert_merged (vd_insert w) = (ids, new)" by fastforce
  have wait: "keyed k (waiting ids st1) = keyed k (waiting (fst (invoke_hook (vd_insert w))) st1)" using c(4) [OF slot'] inv by simp
  have val: "value_under resolve k (Some (w\<lparr>vd_insert := new\<rparr>)) = value_under resolve k (Some w)"
    by (simp add: value_under_def dirs_of_def)
  have "protocol (keyed k (dl_calls (run_later throws ids st1))) (Some Off) =
      Some (case value_under resolve k (Some w) of None \<Rightarrow> Off | Some u \<Rightarrow> Ready u)"
    using c(2,3) by (cases "value_under resolve k (Some w)") (auto simp: insert_waits_def keyed_made wait)
  then show ?thesis using c(1)
    by (simp add: replaceRoot_def up inv dir_ok_def phase_of_def val own_first_def insert_waits_def split: option.splits)
qed

lemma dir_history_ok: "dir_history resolve throws s \<Longrightarrow> all_hooks resolve k \<Longrightarrow> dir_ok resolve k s"
proof (induction rule: dir_history.induct)
  case start
  show ?case by (simp add: dir_ok_def phase_of_def value_under_def dirs_of_def own_first_def insert_waits_def)
next
  case (create s v)
  obtain w st1 where up: "updateDirectives resolve throws None (Some v) (li_log s) = (Some w, st1)" using update_some by blast
  have ok: "dir_ok resolve k s" using create by simp
  have off: "protocol (keyed k (dl_calls (li_log s))) (Some Off) = Some Off" "own_first (li_log s)"
    using ok create.hyps(2) by (simp_all add: dir_ok_def phase_of_def value_under_def dirs_of_def)
  have "vd_insert v = NoHook \<or> own_insert (vd_insert v)" using create.hyps(3) by (auto simp: fresh_vnode_def own_insert_def)
  note c = created_ok [OF create.prems off this up]
  show ?case using c(1-3) by (simp add: createStep_def up dir_ok_def phase_of_def split: option.splits)
next
  case (insert s v)
  then show ?case by (intro inserted_ok) auto
next
  case (patch s old v)
  then show ?case by (intro patched_ok) auto
next
  case (replace s v)
  then show ?case by (intro replaced_ok) auto
next
  case (destroy s v)
  then have "dir_ok resolve k s" by simp
  from unbound_ok [OF destroy.prems this destroy.hyps(2)] show ?case
    by (simp add: dir_ok_def phase_of_def value_under_def dirs_of_def insert_waits_def)
qed


definition ex_dir :: "int \<Rightarrow> directive" where
  "ex_dir n = \<lparr>dir_name = ''focus'', dir_raw = Some ''v-focus'', dir_value = JNum (Dec n 0), dir_old = None, dir_mods = None, dir_def = None\<rparr>"

definition ex_vnode :: "nat \<Rightarrow> directive list \<Rightarrow> dir_vnode" where
  "ex_vnode i ds = \<lparr>vd_id = i, vd_dirs = Some ds, vd_insert = NoHook, vd_postpatch = NoHook\<rparr>"

definition ex_hooks :: "string \<Rightarrow> string list option" where
  "ex_hooks name = Some [''bind'', ''inserted'', ''update'', ''componentUpdated'', ''unbind'']"

definition ex_created :: dir_life where
  "ex_created = createStep ex_hooks (\<lambda>_. False) (ex_vnode 1 [ex_dir 5]) \<lparr>dl_calls = [], dl_errors = [], dl_later = [[]]\<rparr>"

definition ex_inserted :: dir_life where
  "ex_inserted = (case li_vnode ex_created of Some v \<Rightarrow> insertStep (\<lambda>_. False) v (li_log ex_created) | None \<Rightarrow> ex_created)"

definition ex_life :: dir_life where
  "ex_life =
     (case li_vnode ex_inserted of
        Some v \<Rightarrow> patchStep ex_hooks (\<lambda>_. False) v (ex_vnode 2 [ex_dir 6]) (li_log ex_inserted)
      | None \<Rightarrow> ex_inserted)"

lemma ex_life_history: "dir_history ex_hooks (\<lambda>_. False) ex_life"
proof -
  let ?h = "dir_history ex_hooks (\<lambda>_. False)"
  have f: "fresh_vnode (ex_vnode i ds)" for i ds by (simp add: fresh_vnode_def ex_vnode_def)
  have h1: "?h ex_created" unfolding ex_created_def
    using dir_history.create [OF dir_history.start _ f, of ex_hooks "\<lambda>_. False"] by simp
  have "li_vnode ex_created \<noteq> None" "\<not> li_inserted ex_created" by code_simp+
  then obtain v1 where v1: "li_vnode ex_created = Some v1" "\<not> li_inserted ex_created" by auto
  have h2: "?h ex_inserted" using dir_history.insert [OF h1 v1] by (simp add: ex_inserted_def v1(1))
  have "li_vnode ex_inserted \<noteq> None" "li_inserted ex_inserted" by code_simp+
  then obtain v2 where v2: "li_vnode ex_inserted = Some v2" "li_inserted ex_inserted" by auto
  show ?thesis using dir_history.patch [OF h2 v2 f] by (simp add: ex_life_def v2(1))
qed


end
