(* ===== verification/Constructors.thy ===== *)
theory Constructors
  imports Options
begin

text \<open>
  Component constructors in \<open>frontend/js/vue.js\<close>: \<open>Vue.extend\<close>, \<open>Vue.mixin\<close>, \<open>Vue.use\<close>, the asset registers, and
  \<open>resolveConstructorOptions\<close>, which merges the options of a constructor again after those of its parent
  changed. Here the identity of options objects, arrays and asset tables matters, so they have addresses.
  The lemmas show which hooks a constructor ends up with after late changes, and what gets doubled or lost.
\<close>

section \<open>Objects with identity\<close>

text \<open>
  The value of an option: an array of functions, a function, a table of assets, a name, or something else
  that is only compared. Functions and assets are numbers; the other numbers are addresses.
\<close>

datatype cval = Undef | Hooks nat "nat list" | Fun nat | Tab nat | Name string | Other nat

definition oget :: "string \<Rightarrow> cval obj \<Rightarrow> cval" where
  "oget key ob = (case map_of ob key of Some v \<Rightarrow> v | None \<Rightarrow> Undef)"

text \<open>\<open>x_ctors\<close> is \<open>extendOptions._Ctor\<close>; the application's options are given without \<open>extends\<close> and \<open>mixins\<close>.\<close>

record ext_options =
  x_fields :: "cval obj"
  x_ctors :: "(nat \<times> nat) list"

record ctor =
  k_super :: "nat option"
  k_options :: nat
  k_superOptions :: nat
  k_ext :: nat
  k_sealed :: "cval obj"

record cworld =
  w_next :: nat
  w_opts :: "nat \<Rightarrow> cval obj"
  w_tabs :: "nat \<Rightarrow> nat obj \<times> nat option"
  w_exts :: "nat \<Rightarrow> ext_options"
  w_ctors :: "nat \<Rightarrow> ctor"

definition options_of :: "cworld \<Rightarrow> nat \<Rightarrow> cval obj" where
  "options_of w c = w_opts w (k_options (w_ctors w c))"

fun as_list :: "cval \<Rightarrow> nat list" where
  "as_list (Hooks _ fs) = fs"
| "as_list (Fun f) = [f]"
| "as_list _ = []"

fun is_array :: "cval \<Rightarrow> bool" where
  "is_array (Hooks _ _) = True"
| "is_array _ = False"

section \<open>Merging\<close>

text \<open>A merged hook is an array; a new one where there are hooks on both sides.\<close>

definition merge_hook :: "cval \<Rightarrow> cval \<Rightarrow> cworld \<Rightarrow> cval \<times> cworld" where
  "merge_hook parentVal childVal w =
     (if childVal = Undef then (parentVal, w)
      else if parentVal \<noteq> Undef then (Hooks (w_next w) (as_list parentVal @ as_list childVal), w\<lparr>w_next := Suc (w_next w)\<rparr>)
      else if is_array childVal then (childVal, w)
      else (Hooks (w_next w) (as_list childVal), w\<lparr>w_next := Suc (w_next w)\<rparr>))"

definition merge_table :: "cval \<Rightarrow> cval \<Rightarrow> cworld \<Rightarrow> cval \<times> cworld" where
  "merge_table parentVal childVal w =
     (let own = (case childVal of Tab t \<Rightarrow> fst (w_tabs w t) | _ \<Rightarrow> []);
          proto = (case parentVal of Tab t \<Rightarrow> Some t | _ \<Rightarrow> None)
      in (Tab (w_next w), w\<lparr>w_tabs := (w_tabs w)(w_next w := (SharedUtil.extend [] own, proto)), w_next := Suc (w_next w)\<rparr>))"

definition merge_key :: "(string \<Rightarrow> cval \<Rightarrow> cval \<Rightarrow> cval) \<Rightarrow> string \<Rightarrow> cval \<Rightarrow> cval \<Rightarrow> cworld \<Rightarrow> cval \<times> cworld" where
  "merge_key strat key p c w =
     (if key \<in> set LIFECYCLE_HOOKS then merge_hook p c w
      else if key \<in> (\<lambda>t. t @ ''s'') ` set ASSET_TYPES then merge_table p c w
      else (strat key p c, w))"

definition merge_fields :: "(string \<Rightarrow> cval \<Rightarrow> cval \<Rightarrow> cval) \<Rightarrow> cval obj \<Rightarrow> cval obj \<Rightarrow> cworld \<Rightarrow> cval obj \<times> cworld" where
  "merge_fields strat parent child w =
     foldl (\<lambda>(options, w) key.
        let (v, w1) = merge_key strat key (oget key parent) (oget key child) w in (obj_put key v options, w1))
       ([], w) (obj_keys parent @ filter (\<lambda>key. key \<notin> set (obj_keys parent)) (obj_keys child))"

text \<open>A new options object\<close>

definition new_options :: "(string \<Rightarrow> cval \<Rightarrow> cval \<Rightarrow> cval) \<Rightarrow> cval obj \<Rightarrow> cval obj \<Rightarrow> cworld \<Rightarrow> nat \<times> cworld" where
  "new_options strat parent child w =
     (let (fields, w1) = merge_fields strat parent child w in
      (w_next w1, w1\<lparr>w_opts := (w_opts w1)(w_next w1 := fields), w_next := Suc (w_next w1)\<rparr>))"

text \<open>\<open>options.components[name] = Ctor\<close>, and the like for the other types\<close>

definition put_asset :: "string \<Rightarrow> cval obj \<Rightarrow> string \<Rightarrow> nat \<Rightarrow> cworld \<Rightarrow> cworld" where
  "put_asset type options nm a w =
     (case oget (type @ ''s'') options of
        Tab t \<Rightarrow> w\<lparr>w_tabs := (w_tabs w)(t := (obj_put nm a (fst (w_tabs w t)), snd (w_tabs w t)))\<rparr>
      | _ \<Rightarrow> w)"

definition put_self :: "cval \<Rightarrow> cval obj \<Rightarrow> nat \<Rightarrow> cworld \<Rightarrow> cworld" where
  "put_self name options c w = (case name of Name (x # xs) \<Rightarrow> put_asset ''component'' options (x # xs) c w | _ \<Rightarrow> w)"

section \<open>The global functions\<close>

definition mixin_1 :: "(string \<Rightarrow> cval \<Rightarrow> cval \<Rightarrow> cval) \<Rightarrow> nat \<Rightarrow> cval obj \<Rightarrow> cworld \<Rightarrow> cworld" where
  "mixin_1 strat c mix w =
     (let (a, w1) = new_options strat (options_of w c) mix w in
      w1\<lparr>w_ctors := (w_ctors w1)(c := (w_ctors w1 c)\<lparr>k_options := a\<rparr>)\<rparr>)"

definition name_of :: "cval obj \<Rightarrow> cval obj \<Rightarrow> cval" where
  "name_of ext super = (if oget ''name'' ext \<in> {Undef, Name []} then oget ''name'' super else oget ''name'' ext)"

definition extend_1 :: "(string \<Rightarrow> cval \<Rightarrow> cval \<Rightarrow> cval) \<Rightarrow> nat \<Rightarrow> nat \<Rightarrow> cworld \<Rightarrow> nat \<times> cworld" where
  "extend_1 strat super e w =
     (case map_of (x_ctors (w_exts w e)) super of
        Some c \<Rightarrow> (c, w)
      | None \<Rightarrow>
          let name = name_of (x_fields (w_exts w e)) (options_of w super);
              (a, w1) = new_options strat (options_of w super) (x_fields (w_exts w e)) w;
              c = w_next w1;
              w2 = put_self name (w_opts w1 a) c (w1\<lparr>w_next := Suc c\<rparr>);
              sub = \<lparr>k_super = Some super, k_options = a, k_superOptions = k_options (w_ctors w super), k_ext = e,
                     k_sealed = SharedUtil.extend [] (w_opts w1 a)\<rparr>
          in (c, w2\<lparr>w_ctors := (w_ctors w2)(c := sub),
                    w_exts := (w_exts w2)(e := (w_exts w2 e)\<lparr>x_ctors := (super, c) # x_ctors (w_exts w2 e)\<rparr>)\<rparr>))"

text \<open>The value \<open>undefined\<close> in \<open>[sealed]\<close> and \<open>[extended]\<close> is none of the functions of \<open>latest\<close>.\<close>

definition dedupe :: "cval \<Rightarrow> cval \<Rightarrow> cval \<Rightarrow> nat \<Rightarrow> cval" where
  "dedupe latest extended sealed fresh =
     (case latest of
        Hooks _ fs \<Rightarrow> Hooks fresh (filter (\<lambda>f. f \<in> set (as_list extended) \<or> f \<notin> set (as_list sealed)) fs)
      | _ \<Rightarrow> latest)"

definition resolveModifiedOptions :: "nat \<Rightarrow> cworld \<Rightarrow> cval obj option \<times> cworld" where
  "resolveModifiedOptions c w =
     foldl (\<lambda>(modified, w1) (key, latest).
        if latest \<noteq> oget key (k_sealed (w_ctors w c)) then
          (Some (obj_put key (dedupe latest (oget key (x_fields (w_exts w (k_ext (w_ctors w c))))) (oget key (k_sealed (w_ctors w c))) (w_next w1))
             (case modified of Some m \<Rightarrow> m | None \<Rightarrow> [])), w1\<lparr>w_next := Suc (w_next w1)\<rparr>)
        else (modified, w1))
       (None, w) (options_of w c)"

text \<open>\<open>extend(Ctor.extendOptions, modifiedOptions)\<close>\<close>

definition adopt_modified :: "nat \<Rightarrow> cworld \<Rightarrow> cworld" where
  "adopt_modified c w =
     (let e = k_ext (w_ctors w c); (modified, w1) = resolveModifiedOptions c w in
      case modified of
        Some m \<Rightarrow> w1\<lparr>w_exts := (w_exts w1)(e := (w_exts w1 e)\<lparr>x_fields := SharedUtil.extend (x_fields (w_exts w1 e)) m\<rparr>)\<rparr>
      | None \<Rightarrow> w1)"

text \<open>What happens to a constructor when its parent's options are no longer those it was made from\<close>

definition update_options :: "(string \<Rightarrow> cval \<Rightarrow> cval \<Rightarrow> cval) \<Rightarrow> nat \<Rightarrow> nat \<Rightarrow> cworld \<Rightarrow> nat \<times> cworld" where
  "update_options strat c superOptions w =
     (let w1 = adopt_modified c (w\<lparr>w_ctors := (w_ctors w)(c := (w_ctors w c)\<lparr>k_superOptions := superOptions\<rparr>)\<rparr>);
          (a, w2) = new_options strat (w_opts w1 superOptions) (x_fields (w_exts w1 (k_ext (w_ctors w c)))) w1;
          w3 = put_self (oget ''name'' (w_opts w2 a)) (w_opts w2 a) c w2
      in (a, w3\<lparr>w_ctors := (w_ctors w3)(c := (w_ctors w3 c)\<lparr>k_options := a\<rparr>)\<rparr>))"

text \<open>The recursion follows \<open>Ctor.super\<close>; a constructor has fewer ancestors than its number says.\<close>

primrec resolve_n :: "(string \<Rightarrow> cval \<Rightarrow> cval \<Rightarrow> cval) \<Rightarrow> nat \<Rightarrow> nat \<Rightarrow> cworld \<Rightarrow> nat \<times> cworld" where
  "resolve_n strat 0 c w = (k_options (w_ctors w c), w)"
| "resolve_n strat (Suc n) c w =
     (case k_super (w_ctors w c) of
        None \<Rightarrow> (k_options (w_ctors w c), w)
      | Some s \<Rightarrow>
          let (superOptions, w1) = resolve_n strat n s w in
          if superOptions \<noteq> k_superOptions (w_ctors w1 c) then update_options strat c superOptions w1
          else (k_options (w_ctors w1 c), w1))"

definition resolveConstructorOptions :: "(string \<Rightarrow> cval \<Rightarrow> cval \<Rightarrow> cval) \<Rightarrow> nat \<Rightarrow> cworld \<Rightarrow> nat \<times> cworld" where
  "resolveConstructorOptions strat c = resolve_n strat (Suc c) c"

text \<open>
  The asset registers. A definition is a component's options (an address), or an asset there is already;
  \<open>base\<close> is \<open>options._base\<close>. A directive that is a function becomes a new definition.
\<close>

datatype definition_arg = OptionsAt nat | Asset nat | Function nat

primrec chain_get :: "nat \<Rightarrow> string \<Rightarrow> nat \<Rightarrow> cworld \<Rightarrow> nat option" where
  "chain_get 0 nm t w = None"
| "chain_get (Suc n) nm t w =
     (case map_of (fst (w_tabs w t)) nm of
        Some a \<Rightarrow> Some a
      | None \<Rightarrow> (case snd (w_tabs w t) of Some p \<Rightarrow> chain_get n nm p w | None \<Rightarrow> None))"

definition get_asset :: "string \<Rightarrow> cval obj \<Rightarrow> string \<Rightarrow> cworld \<Rightarrow> nat option" where
  "get_asset type options nm w = (case oget (type @ ''s'') options of Tab t \<Rightarrow> chain_get (w_next w) nm t w | _ \<Rightarrow> None)"

definition asset_1 ::
    "(string \<Rightarrow> cval \<Rightarrow> cval \<Rightarrow> cval) \<Rightarrow> nat \<Rightarrow> nat \<Rightarrow> string \<Rightarrow> string \<Rightarrow> definition_arg option \<Rightarrow> cworld \<Rightarrow> nat option \<times> cworld" where
  "asset_1 strat base c type nm definition w =
     (case definition of
        None \<Rightarrow> (get_asset type (options_of w c) nm w, w)
      | Some d \<Rightarrow>
          let (a, w1) =
                (case d of
                   OptionsAt e \<Rightarrow>
                     if type = ''component'' then
                       let fields = x_fields (w_exts w e);
                           fields1 = obj_put ''name'' (if oget ''name'' fields \<in> {Undef, Name []} then Name nm else oget ''name'' fields) fields
                       in extend_1 strat base e (w\<lparr>w_exts := (w_exts w)(e := (w_exts w e)\<lparr>x_fields := fields1\<rparr>)\<rparr>)
                     else (e, w)
                 | Asset a \<Rightarrow> (a, w)
                 | Function f \<Rightarrow> if type = ''directive'' then (w_next w, w\<lparr>w_next := Suc (w_next w)\<rparr>) else (f, w))
          in (Some a, put_asset type (options_of w1 c) nm a w1))"

text \<open>\<open>Vue.use\<close>: the installed plugins, and the calls of \<open>install\<close> in order\<close>

definition use_1 :: "nat \<Rightarrow> nat list \<times> nat list \<Rightarrow> nat list \<times> nat list" where
  "use_1 plugin = (\<lambda>(installed, calls).
     if plugin \<in> set installed then (installed, calls) else (installed @ [plugin], calls @ [plugin]))"

section \<open>What merging keeps\<close>

text \<open>Merging makes new arrays and tables only.\<close>

definition same_objects :: "cworld \<Rightarrow> cworld \<Rightarrow> bool" where
  "same_objects w w' \<longleftrightarrow> w_opts w' = w_opts w \<and> w_exts w' = w_exts w \<and> w_ctors w' = w_ctors w \<and> w_next w \<le> w_next w'"

lemma same_objects_refl [simp]: "same_objects w w"
  by (simp add: same_objects_def)

lemma same_objects_trans: "same_objects w w1 \<Longrightarrow> same_objects w1 w2 \<Longrightarrow> same_objects w w2"
  by (simp add: same_objects_def)

lemma oget_put [simp]: "oget k (obj_put k' v ob) = (if k = k' then v else oget k ob)"
  by (simp add: oget_def)

lemma merge_key_same: "same_objects w (snd (merge_key strat k p c w))"
  by (auto simp: merge_key_def merge_hook_def merge_table_def same_objects_def Let_def)

lemma merge_key_hook: "k \<in> set LIFECYCLE_HOOKS \<Longrightarrow> as_list (fst (merge_key strat k p c w)) = as_list p @ as_list c"
  by (cases c) (auto simp: merge_key_def merge_hook_def)

definition hook_value :: "cval \<Rightarrow> bool" where
  "hook_value v \<longleftrightarrow> v = Undef \<or> is_array v"

lemma merge_key_array: "k \<in> set LIFECYCLE_HOOKS \<Longrightarrow> hook_value p \<Longrightarrow> hook_value (fst (merge_key strat k p c w))"
  by (auto simp: merge_key_def merge_hook_def hook_value_def)

lemma merge_fold:
  fixes strat :: "string \<Rightarrow> cval \<Rightarrow> cval \<Rightarrow> cval" and parent child :: "cval obj"
  defines "step \<equiv> \<lambda>(options, w) key. let (v, w1) = merge_key strat key (oget key parent) (oget key child) w in (obj_put key v options, w1)"
  assumes "k \<in> set LIFECYCLE_HOOKS"
  shows "same_objects w (snd (foldl step (options, w) ks)) \<and>
    (wf_obj options \<longrightarrow> wf_obj (fst (foldl step (options, w) ks))) \<and>
    (distinct ks \<longrightarrow> as_list (oget k (fst (foldl step (options, w) ks))) =
      (if k \<in> set ks then as_list (oget k parent) @ as_list (oget k child) else as_list (oget k options))) \<and>
    (hook_value (oget k parent) \<longrightarrow> hook_value (oget k options) \<longrightarrow> hook_value (oget k (fst (foldl step (options, w) ks))))"
proof (induction ks arbitrary: options w)
  case (Cons key ks)
  obtain v w1 where m: "merge_key strat key (oget key parent) (oget key child) w = (v, w1)" by fastforce
  have "same_objects w w1" using merge_key_same [of w strat key "oget key parent" "oget key child"] by (simp add: m)
  moreover have "key = k \<Longrightarrow> as_list v = as_list (oget k parent) @ as_list (oget k child)"
    using merge_key_hook [OF assms(2), of strat "oget k parent" "oget k child" w] m by auto
  moreover have "key = k \<Longrightarrow> hook_value (oget k parent) \<Longrightarrow> hook_value v"
    using merge_key_array [OF assms(2), of "oget k parent" strat "oget k child" w] m by auto
  moreover have "step (options, w) key = (obj_put key v options, w1)" by (simp add: step_def m)
  moreover note Cons.IH [of w1 "obj_put key v options"]
  ultimately show ?case by (cases "k = key") (auto intro: same_objects_trans)
qed simp

lemma merge_fields_ok:
  assumes "merge_fields strat parent child w = (flds, w1)"
  shows "same_objects w w1" "wf_obj flds" "k \<in> set LIFECYCLE_HOOKS \<Longrightarrow> hook_value (oget k parent) \<Longrightarrow> hook_value (oget k flds)"
    and "wf_obj parent \<Longrightarrow> wf_obj child \<Longrightarrow> k \<in> set LIFECYCLE_HOOKS \<Longrightarrow>
      as_list (oget k flds) = as_list (oget k parent) @ as_list (oget k child)"
proof -
  let ?ks = "obj_keys parent @ filter (\<lambda>key. key \<notin> set (obj_keys parent)) (obj_keys child)"
  have c: "''created'' \<in> set LIFECYCLE_HOOKS" by (simp add: LIFECYCLE_HOOKS_def)
  show "same_objects w w1" "wf_obj flds"
    using merge_fold [OF c, of w strat parent child "[]" ?ks] assms by (auto simp: merge_fields_def wf_obj_def)
  show "k \<in> set LIFECYCLE_HOOKS \<Longrightarrow> hook_value (oget k parent) \<Longrightarrow> hook_value (oget k flds)"
    using merge_fold [of k w strat parent child "[]" ?ks] assms by (simp add: merge_fields_def hook_value_def oget_def)
  assume "wf_obj parent" "wf_obj child" and k: "k \<in> set LIFECYCLE_HOOKS"
  then have "distinct ?ks" by (auto simp: wf_obj_def)
  moreover have "k \<notin> set ?ks \<Longrightarrow> oget k parent = Undef \<and> oget k child = Undef"
    using map_of_eq_None_iff [of parent k] map_of_eq_None_iff [of child k] by (auto simp: oget_def)
  ultimately show "as_list (oget k flds) = as_list (oget k parent) @ as_list (oget k child)"
    using merge_fold [OF k, of w strat parent child "[]" ?ks] assms
    by (cases "k \<in> set ?ks") (simp_all add: merge_fields_def oget_def)
qed

lemma new_options_ok:
  assumes "new_options strat parent child w = (a, w1)"
  shows "w_next w \<le> a" "w_next w1 = Suc a" "w_exts w1 = w_exts w" "w_ctors w1 = w_ctors w"
    "\<And>b. b \<noteq> a \<Longrightarrow> w_opts w1 b = w_opts w b" "wf_obj (w_opts w1 a)"
    "k \<in> set LIFECYCLE_HOOKS \<Longrightarrow> hook_value (oget k parent) \<Longrightarrow> hook_value (oget k (w_opts w1 a))"
    and "wf_obj parent \<Longrightarrow> wf_obj child \<Longrightarrow> k \<in> set LIFECYCLE_HOOKS \<Longrightarrow>
      as_list (oget k (w_opts w1 a)) = as_list (oget k parent) @ as_list (oget k child)"
proof -
  obtain flds w' where m: "merge_fields strat parent child w = (flds, w')" by fastforce
  then have "a = w_next w'" "w1 = w'\<lparr>w_opts := (w_opts w')(w_next w' := flds), w_next := Suc (w_next w')\<rparr>"
    using assms by (auto simp: new_options_def)
  then show "w_next w \<le> a" "w_next w1 = Suc a" "w_exts w1 = w_exts w" "w_ctors w1 = w_ctors w"
    "\<And>b. b \<noteq> a \<Longrightarrow> w_opts w1 b = w_opts w b" "wf_obj (w_opts w1 a)"
    "k \<in> set LIFECYCLE_HOOKS \<Longrightarrow> hook_value (oget k parent) \<Longrightarrow> hook_value (oget k (w_opts w1 a))"
    "wf_obj parent \<Longrightarrow> wf_obj child \<Longrightarrow> k \<in> set LIFECYCLE_HOOKS \<Longrightarrow>
      as_list (oget k (w_opts w1 a)) = as_list (oget k parent) @ as_list (oget k child)"
    using merge_fields_ok [OF m] by (auto simp: same_objects_def)
qed

lemma put_asset_same [simp]:
  "w_opts (put_asset type options nm a w) = w_opts w" "w_exts (put_asset type options nm a w) = w_exts w"
  "w_ctors (put_asset type options nm a w) = w_ctors w" "w_next (put_asset type options nm a w) = w_next w"
  by (simp_all add: put_asset_def split: cval.splits)

lemma put_self_same [simp]:
  "w_opts (put_self name options c w) = w_opts w" "w_exts (put_self name options c w) = w_exts w"
  "w_ctors (put_self name options c w) = w_ctors w" "w_next (put_self name options c w) = w_next w"
  by (simp_all add: put_self_def split: cval.splits list.splits)

lemma modified_fold:
  fixes ext sealed :: "cval obj"
  defines "step \<equiv> \<lambda>(modified, w1) (key, latest).
     if latest \<noteq> oget key sealed then
       (Some (obj_put key (dedupe latest (oget key ext) (oget key sealed) (w_next w1)) (case modified of Some m \<Rightarrow> m | None \<Rightarrow> [])),
        w1\<lparr>w_next := Suc (w_next w1)\<rparr>)
     else (modified, w1)"
  defines "flds \<equiv> \<lambda>m. case m of Some m \<Rightarrow> m | None \<Rightarrow> []"
  assumes "distinct (obj_keys latest)"
  shows "same_objects w1 (snd (foldl step (m, w1) latest)) \<and>
    (wf_obj (flds m) \<longrightarrow> wf_obj (flds (fst (foldl step (m, w1) latest)))) \<and>
    (\<exists>n. map_of (flds (fst (foldl step (m, w1) latest))) k =
      (case map_of latest k of
         Some v \<Rightarrow> if v \<noteq> oget k sealed then Some (dedupe v (oget k ext) (oget k sealed) n) else map_of (flds m) k
       | None \<Rightarrow> map_of (flds m) k))"
  using assms(3)
proof (induction latest arbitrary: m w1)
  case (Cons kv latest)
  obtain key v where kv: "kv = (key, v)" by (cases kv)
  have notin: "map_of latest key = None" using Cons.prems by (simp add: kv map_of_None_iff)
  obtain m2 w2 where s: "step (m, w1) (key, v) = (m2, w2)" by fastforce
  have f: "same_objects w1 w2" "wf_obj (flds m) \<longrightarrow> wf_obj (flds m2)"
    "\<exists>n. map_of (flds m2) k = (if k = key \<and> v \<noteq> oget k sealed then Some (dedupe v (oget k ext) (oget k sealed) n) else map_of (flds m) k)"
    using s by (auto simp: step_def flds_def same_objects_def split: if_splits)
  have "distinct (obj_keys latest)" using Cons.prems by simp
  from Cons.IH [OF this, of w2 m2] f(1,2) have
    "same_objects w1 (snd (foldl step (m2, w2) latest))" "wf_obj (flds m) \<longrightarrow> wf_obj (flds (fst (foldl step (m2, w2) latest)))"
    by (auto intro: same_objects_trans)
  moreover have "\<exists>n. map_of (flds (fst (foldl step (m2, w2) latest))) k =
      (case map_of (kv # latest) k of
         Some v \<Rightarrow> if v \<noteq> oget k sealed then Some (dedupe v (oget k ext) (oget k sealed) n) else map_of (flds m) k
       | None \<Rightarrow> map_of (flds m) k)"
  proof (cases "k = key")
    case True
    then show ?thesis using Cons.IH [OF \<open>distinct (obj_keys latest)\<close>, of w2 m2] notin f(3) by (auto simp: kv)
  next
    case False
    then have e: "map_of (flds m2) k = map_of (flds m) k" using f(3) by auto
    have "map_of (kv # latest) k = map_of latest k" using False by (simp add: kv)
    with Cons.IH [OF \<open>distinct (obj_keys latest)\<close>, of w2 m2] show ?thesis unfolding e by simp
  qed
  ultimately show ?case by (simp add: kv s)
qed simp

text \<open>The extend options after the late changes were taken over\<close>

definition kept :: "cval \<Rightarrow> cval \<Rightarrow> cval \<Rightarrow> nat list" where
  "kept latest ext sealed =
     (if latest \<noteq> sealed \<and> is_array latest then filter (\<lambda>f. f \<in> set (as_list ext) \<or> f \<notin> set (as_list sealed)) (as_list latest)
      else as_list ext)"

lemma update_options_ok:
  assumes "update_options strat c so w = (a, w4)"
    and wf: "wf_obj (options_of w c)" "wf_obj (w_opts w so)" "wf_obj (x_fields (w_exts w (k_ext (w_ctors w c))))"
  defines "e \<equiv> k_ext (w_ctors w c)"
  shows "w_next w \<le> a" "a < w_next w4" "k_options (w_ctors w4 c) = a" "k_superOptions (w_ctors w4 c) = so" "k_sealed (w_ctors w4 c) = k_sealed (w_ctors w c)"
    "k_super (w_ctors w4 c) = k_super (w_ctors w c)" "k_ext (w_ctors w4 c) = e" "\<And>d. d \<noteq> c \<Longrightarrow> w_ctors w4 d = w_ctors w d"
    "\<And>b. b < w_next w \<Longrightarrow> w_opts w4 b = w_opts w b" "wf_obj (w_opts w4 a)" "wf_obj (x_fields (w_exts w4 e))"
    "k \<in> set LIFECYCLE_HOOKS \<Longrightarrow> hook_value (oget k (w_opts w so)) \<Longrightarrow> hook_value (oget k (w_opts w4 a))"
    and "k \<in> set LIFECYCLE_HOOKS \<Longrightarrow> oget k (options_of w c) = oget k (k_sealed (w_ctors w c)) \<or> is_array (oget k (options_of w c)) \<Longrightarrow>
      as_list (oget k (x_fields (w_exts w4 e))) = kept (oget k (options_of w c)) (oget k (x_fields (w_exts w e))) (oget k (k_sealed (w_ctors w c))) \<and>
      as_list (oget k (w_opts w4 a)) = as_list (oget k (w_opts w so)) @
        kept (oget k (options_of w c)) (oget k (x_fields (w_exts w e))) (oget k (k_sealed (w_ctors w c)))"
proof -
  define wa where "wa = w\<lparr>w_ctors := (w_ctors w)(c := (w_ctors w c)\<lparr>k_superOptions := so\<rparr>)\<rparr>"
  define ext where "ext = x_fields (w_exts w e)"
  define sealed where "sealed = k_sealed (w_ctors w c)"
  obtain modified w1 where m: "resolveModifiedOptions c wa = (modified, w1)" by fastforce
  define flds where "flds = (case modified of Some m \<Rightarrow> m | None \<Rightarrow> [])"
  define w2 where "w2 = adopt_modified c wa"
  obtain a' w3 where n: "new_options strat (w_opts w2 so) (x_fields (w_exts w2 e)) w2 = (a', w3)" by fastforce
  have e': "k_ext (w_ctors wa c) = e" by (simp add: wa_def e_def)
  have w2d: "w2 = (case modified of
      Some m \<Rightarrow> w1\<lparr>w_exts := (w_exts w1)(e := (w_exts w1 e)\<lparr>x_fields := SharedUtil.extend (x_fields (w_exts w1 e)) m\<rparr>)\<rparr> | None \<Rightarrow> w1)"
    by (simp add: w2_def adopt_modified_def m e')
  have a: "a' = a" "w4 = (let w = put_self (oget ''name'' (w_opts w3 a)) (w_opts w3 a) c w3 in
      w\<lparr>w_ctors := (w_ctors w)(c := (w_ctors w c)\<lparr>k_options := a\<rparr>)\<rparr>)"
    using assms(1) by (auto simp: update_options_def wa_def [symmetric] w2_def [symmetric] e_def [symmetric] n)
  have opts: "options_of wa c = options_of w c" by (simp add: options_of_def wa_def)
  have d: "distinct (obj_keys (options_of w c))" using wf(1) by (simp add: wf_obj_def)
  have wa: "k_sealed (w_ctors wa c) = sealed" "x_fields (w_exts wa (k_ext (w_ctors wa c))) = ext"
    by (simp_all add: wa_def sealed_def ext_def e_def)
  have r: "foldl (\<lambda>(modified, w1) (key, latest).
      if latest \<noteq> oget key sealed then
        (Some (obj_put key (dedupe latest (oget key ext) (oget key sealed) (w_next w1)) (case modified of Some m \<Rightarrow> m | None \<Rightarrow> [])),
         w1\<lparr>w_next := Suc (w_next w1)\<rparr>)
      else (modified, w1)) (None, wa) (options_of w c) = (modified, w1)"
    using m unfolding resolveModifiedOptions_def opts wa .
  have ma: "same_objects wa w1" "wf_obj flds"
    "\<And>k. \<exists>n. map_of flds k = (case map_of (options_of w c) k of
         Some v \<Rightarrow> if v \<noteq> oget k sealed then Some (dedupe v (oget k ext) (oget k sealed) n) else None | None \<Rightarrow> None)"
    using modified_fold [OF d, of wa sealed ext None] unfolding r by (simp_all add: flds_def cong: option.case_cong if_cong)
  have w2: "w_opts w2 = w_opts w" "w_ctors w2 = w_ctors wa" "w_next w \<le> w_next w2" "x_fields (w_exts w2 e) = SharedUtil.extend ext flds"
    using ma(1) by (auto simp: w2d same_objects_def wa_def ext_def flds_def split: option.splits)
  have wfx: "wf_obj (x_fields (w_exts w2 e))" using wf(3) unfolding w2(4) by (simp add: ext_def e_def)
  note o = new_options_ok [OF n [unfolded a(1)]]
  show "w_next w \<le> a" "a < w_next w4" using o(1,2) w2(3) by (simp_all add: a(2) Let_def)
  show "k_options (w_ctors w4 c) = a" "k_superOptions (w_ctors w4 c) = so" "k_sealed (w_ctors w4 c) = k_sealed (w_ctors w c)"
    "k_super (w_ctors w4 c) = k_super (w_ctors w c)" "k_ext (w_ctors w4 c) = e" "\<And>d. d \<noteq> c \<Longrightarrow> w_ctors w4 d = w_ctors w d"
    by (simp_all add: a(2) Let_def o(4) w2(2) wa_def e_def)
  show "\<And>b. b < w_next w \<Longrightarrow> w_opts w4 b = w_opts w b" using o(1,5) w2(1,3) by (auto simp: a(2) Let_def)
  show "wf_obj (w_opts w4 a)" using o(6) by (simp add: a(2) Let_def)
  show "wf_obj (x_fields (w_exts w4 e))" using wfx by (simp add: a(2) Let_def o(3))
  show "k \<in> set LIFECYCLE_HOOKS \<Longrightarrow> hook_value (oget k (w_opts w so)) \<Longrightarrow> hook_value (oget k (w_opts w4 a))"
    using o(7) by (simp add: a(2) Let_def w2(1))
  assume k: "k \<in> set LIFECYCLE_HOOKS" and arr: "oget k (options_of w c) = oget k (k_sealed (w_ctors w c)) \<or> is_array (oget k (options_of w c))"
  have "as_list (oget k (x_fields (w_exts w2 e))) = kept (oget k (options_of w c)) (oget k ext) (oget k sealed)"
  proof -
    obtain n where n: "map_of flds k = (case map_of (options_of w c) k of
         Some v \<Rightarrow> if v \<noteq> oget k sealed then Some (dedupe v (oget k ext) (oget k sealed) n) else None | None \<Rightarrow> None)"
      using ma(3) by blast
    have g: "oget k (SharedUtil.extend ext flds) = (case map_of flds k of Some v \<Rightarrow> v | None \<Rightarrow> oget k ext)"
      using get_extend [OF ma(2), of ext k] by (simp add: oget_def split: option.splits)
    show ?thesis
    proof (cases "map_of (options_of w c) k")
      case None
      then have "oget k (options_of w c) = Undef" by (simp add: oget_def)
      with n None show ?thesis by (simp add: w2(4) g kept_def)
    next
      case (Some v)
      then have "oget k (options_of w c) = v" by (simp add: oget_def)
      with n Some arr show ?thesis
        by (cases v) (auto simp: w2(4) g kept_def dedupe_def sealed_def)
    qed
  qed
  moreover have "as_list (oget k (w_opts w3 a)) = as_list (oget k (w_opts w so)) @ as_list (oget k (x_fields (w_exts w2 e)))"
    using o(8) [OF _ wfx k] wf(2) by (simp add: w2(1))
  ultimately show "as_list (oget k (x_fields (w_exts w4 e))) = kept (oget k (options_of w c)) (oget k (x_fields (w_exts w e))) (oget k (k_sealed (w_ctors w c))) \<and>
      as_list (oget k (w_opts w4 a)) = as_list (oget k (w_opts w so)) @
        kept (oget k (options_of w c)) (oget k (x_fields (w_exts w e))) (oget k (k_sealed (w_ctors w c)))"
    by (simp add: a(2) Let_def o(3) ext_def sealed_def)
qed

section \<open>Late changes\<close>

text \<open>A constructor without parent (\<open>Vue\<close>), and options it has not been extended by.\<close>

definition root_ok :: "nat \<Rightarrow> cworld \<Rightarrow> bool" where
  "root_ok c w \<longleftrightarrow> c < w_next w \<and> k_super (w_ctors w c) = None \<and> k_options (w_ctors w c) < w_next w \<and> wf_obj (options_of w c) \<and>
     (\<forall>k\<in>set LIFECYCLE_HOOKS. hook_value (oget k (options_of w c)))"

definition ext_ok :: "nat \<Rightarrow> nat \<Rightarrow> cworld \<Rightarrow> bool" where
  "ext_ok c e w \<longleftrightarrow> map_of (x_ctors (w_exts w e)) c = None \<and> wf_obj (x_fields (w_exts w e))"

text \<open>The invariant between a root \<open>v\<close> and its extension \<open>c\<close>\<close>

definition sub_ok :: "nat \<Rightarrow> nat \<Rightarrow> cworld \<Rightarrow> bool" where
  "sub_ok v c w \<longleftrightarrow> root_ok v w \<and> c \<noteq> v \<and> k_super (w_ctors w c) = Some v \<and> k_superOptions (w_ctors w c) < w_next w \<and>
     k_options (w_ctors w c) < w_next w \<and> k_options (w_ctors w c) \<noteq> k_options (w_ctors w v) \<and> wf_obj (options_of w c) \<and>
     wf_obj (x_fields (w_exts w (k_ext (w_ctors w c)))) \<and> (\<forall>k\<in>set LIFECYCLE_HOOKS. hook_value (oget k (options_of w c)))"

lemma extend_ok:
  assumes "root_ok v w" "ext_ok v e w" "extend_1 strat v e w = (c, w')"
  shows "sub_ok v c w'" "options_of w' v = options_of w v" "k_superOptions (w_ctors w' c) = k_options (w_ctors w' v)"
    "k_ext (w_ctors w' c) = e" "x_fields (w_exts w' e) = x_fields (w_exts w e)" "oget k (k_sealed (w_ctors w' c)) = oget k (options_of w' c)"
    "k \<in> set LIFECYCLE_HOOKS \<Longrightarrow> as_list (oget k (options_of w' c)) = as_list (oget k (options_of w v)) @ as_list (oget k (x_fields (w_exts w e)))"
proof -
  obtain a w1 where n: "new_options strat (options_of w v) (x_fields (w_exts w e)) w = (a, w1)" by fastforce
  note o = new_options_ok [OF n]
  define c' where "c' = w_next w1"
  define w2 where "w2 = put_self (name_of (x_fields (w_exts w e)) (options_of w v)) (w_opts w1 a) c' (w1\<lparr>w_next := Suc c'\<rparr>)"
  define sub where "sub = \<lparr>k_super = Some v, k_options = a, k_superOptions = k_options (w_ctors w v), k_ext = e,
      k_sealed = SharedUtil.extend [] (w_opts w1 a)\<rparr>"
  have c: "c = c'" "w' = w2\<lparr>w_ctors := (w_ctors w2)(c' := sub),
      w_exts := (w_exts w2)(e := (w_exts w2 e)\<lparr>x_ctors := (v, c') # x_ctors (w_exts w2 e)\<rparr>)\<rparr>"
    using assms(2,3) by (auto simp: extend_1_def ext_ok_def n Let_def c'_def w2_def sub_def)
  have v: "v < a" "k_options (w_ctors w v) < a" using assms(1) o(1) by (simp_all add: root_ok_def)
  have w2: "w_opts w2 = w_opts w1" "w_exts w2 = w_exts w" "w_ctors w2 = w_ctors w" "w_next w2 = Suc c'" "c' = Suc a"
    by (simp_all add: w2_def o(2-4) c'_def)
  show "options_of w' v = options_of w v" "k_superOptions (w_ctors w' c) = k_options (w_ctors w' v)" "k_ext (w_ctors w' c) = e"
    "x_fields (w_exts w' e) = x_fields (w_exts w e)"
    using v by (simp_all add: c w2 options_of_def o(5) sub_def)
  have oc: "options_of w' c = w_opts w1 a" by (simp add: c w2 options_of_def sub_def)
  show "oget k (k_sealed (w_ctors w' c)) = oget k (options_of w' c)"
    using get_extend [OF o(6), of "[]" k] by (simp add: oc) (simp add: c sub_def oget_def split: option.splits)
  show "k \<in> set LIFECYCLE_HOOKS \<Longrightarrow> as_list (oget k (options_of w' c)) = as_list (oget k (options_of w v)) @ as_list (oget k (x_fields (w_exts w e)))"
    using o(8) assms(1,2) by (simp add: oc root_ok_def ext_ok_def)
  have "root_ok v w'" using assms(1) v by (simp add: root_ok_def c w2 options_of_def o(5))
  moreover have "\<forall>k\<in>set LIFECYCLE_HOOKS. hook_value (oget k (options_of w' c))"
    using o(7) assms(1) by (simp add: oc root_ok_def)
  ultimately show "sub_ok v c w'"
    using v o(6) assms(2) by (simp add: sub_ok_def oc ext_ok_def) (simp add: c w2 sub_def)
qed

lemma mixin_ok:
  assumes "sub_ok v c w" "wf_obj mix"
  shows "sub_ok v c (mixin_1 strat v mix w)" "w_ctors (mixin_1 strat v mix w) c = w_ctors w c" "options_of (mixin_1 strat v mix w) c = options_of w c"
    "w_exts (mixin_1 strat v mix w) = w_exts w" "k_superOptions (w_ctors w c) \<noteq> k_options (w_ctors (mixin_1 strat v mix w) v)"
    "k \<in> set LIFECYCLE_HOOKS \<Longrightarrow> as_list (oget k (options_of (mixin_1 strat v mix w) v)) = as_list (oget k (options_of w v)) @ as_list (oget k mix)"
proof -
  obtain a w1 where n: "new_options strat (options_of w v) mix w = (a, w1)" by fastforce
  note o = new_options_ok [OF n]
  have m: "mixin_1 strat v mix w = w1\<lparr>w_ctors := (w_ctors w1)(v := (w_ctors w1 v)\<lparr>k_options := a\<rparr>)\<rparr>"
    by (simp add: mixin_1_def n)
  have r: "root_ok v w" and c: "c \<noteq> v" "k_options (w_ctors w c) < a" "k_superOptions (w_ctors w c) < a"
    using assms(1) o(1) by (auto simp: sub_ok_def)
  show x: "w_ctors (mixin_1 strat v mix w) c = w_ctors w c" "options_of (mixin_1 strat v mix w) c = options_of w c"
    "w_exts (mixin_1 strat v mix w) = w_exts w" "k_superOptions (w_ctors w c) \<noteq> k_options (w_ctors (mixin_1 strat v mix w) v)"
    using c by (simp_all add: m options_of_def o(3-5))
  have ov: "options_of (mixin_1 strat v mix w) v = w_opts w1 a" by (simp add: m options_of_def)
  show "k \<in> set LIFECYCLE_HOOKS \<Longrightarrow> as_list (oget k (options_of (mixin_1 strat v mix w) v)) = as_list (oget k (options_of w v)) @ as_list (oget k mix)"
    using o(8) r assms(2) by (simp add: ov root_ok_def)
  have "root_ok v (mixin_1 strat v mix w)"
    using r o(1,6,7) by (simp add: root_ok_def ov) (simp add: m o(2,4) less_Suc_eq_le)
  moreover have "k_superOptions (w_ctors w c) < w_next (mixin_1 strat v mix w)" "k_options (w_ctors w c) < w_next (mixin_1 strat v mix w)"
    "k_options (w_ctors w c) \<noteq> k_options (w_ctors (mixin_1 strat v mix w) v)"
    using c by (simp_all add: m o(2))
  ultimately show "sub_ok v c (mixin_1 strat v mix w)"
    using assms(1) by (simp add: sub_ok_def x)
qed

lemma resolve_sub:
  assumes "sub_ok v c w" "k_superOptions (w_ctors w c) \<noteq> k_options (w_ctors w v)"
  shows "resolveConstructorOptions strat c w = update_options strat c (k_options (w_ctors w v)) w"
proof -
  have "resolve_n strat n v w = (k_options (w_ctors w v), w)" for n
    using assms(1) by (cases n) (simp_all add: sub_ok_def root_ok_def)
  then show ?thesis using assms by (simp add: resolveConstructorOptions_def sub_ok_def)
qed

lemma resolved_ok:
  assumes ok: "sub_ok v c w" and ne: "k_superOptions (w_ctors w c) \<noteq> k_options (w_ctors w v)"
    and up: "resolveConstructorOptions strat c w = (a, w')"
  shows "sub_ok v c w'" "options_of w' c = w_opts w' a" "options_of w' v = options_of w v" "k_sealed (w_ctors w' c) = k_sealed (w_ctors w c)"
    "k_ext (w_ctors w' c) = k_ext (w_ctors w c)"
    "k \<in> set LIFECYCLE_HOOKS \<Longrightarrow> oget k (options_of w c) = oget k (k_sealed (w_ctors w c)) \<or> is_array (oget k (options_of w c)) \<Longrightarrow>
      as_list (oget k (x_fields (w_exts w' (k_ext (w_ctors w c))))) =
        kept (oget k (options_of w c)) (oget k (x_fields (w_exts w (k_ext (w_ctors w c))))) (oget k (k_sealed (w_ctors w c))) \<and>
      as_list (oget k (options_of w' c)) = as_list (oget k (options_of w v)) @
        kept (oget k (options_of w c)) (oget k (x_fields (w_exts w (k_ext (w_ctors w c))))) (oget k (k_sealed (w_ctors w c)))"
proof -
  have r: "root_ok v w" "c \<noteq> v" and wf: "wf_obj (options_of w c)" "wf_obj (x_fields (w_exts w (k_ext (w_ctors w c))))"
    using ok by (simp_all add: sub_ok_def)
  have wfv: "wf_obj (w_opts w (k_options (w_ctors w v)))" using r(1) by (simp add: root_ok_def options_of_def)
  note u = update_options_ok [OF up [unfolded resolve_sub [OF ok ne]] wf(1) wfv wf(2)]
  have v: "w_ctors w' v = w_ctors w v" "k_options (w_ctors w v) < w_next w" using u(8) [of v] r by (auto simp: root_ok_def)
  show oa: "options_of w' c = w_opts w' a" by (simp add: options_of_def u(3))
  show ov: "options_of w' v = options_of w v" using u(9) v by (simp add: options_of_def)
  show "k_sealed (w_ctors w' c) = k_sealed (w_ctors w c)" "k_ext (w_ctors w' c) = k_ext (w_ctors w c)" by (rule u(5), rule u(7))
  show "k \<in> set LIFECYCLE_HOOKS \<Longrightarrow> oget k (options_of w c) = oget k (k_sealed (w_ctors w c)) \<or> is_array (oget k (options_of w c)) \<Longrightarrow>
      as_list (oget k (x_fields (w_exts w' (k_ext (w_ctors w c))))) =
        kept (oget k (options_of w c)) (oget k (x_fields (w_exts w (k_ext (w_ctors w c))))) (oget k (k_sealed (w_ctors w c))) \<and>
      as_list (oget k (options_of w' c)) = as_list (oget k (options_of w v)) @
        kept (oget k (options_of w c)) (oget k (x_fields (w_exts w (k_ext (w_ctors w c))))) (oget k (k_sealed (w_ctors w c)))"
    using u(13) by (simp add: oa) (simp add: options_of_def)
  have "root_ok v w'" using r(1) u(1,2) by (simp add: root_ok_def ov v(1))
  moreover have "\<forall>k\<in>set LIFECYCLE_HOOKS. hook_value (oget k (options_of w' c))"
    using u(12) r(1) by (simp add: oa root_ok_def) (simp add: options_of_def)
  ultimately show "sub_ok v c w'"
    using ok u(1,2) v by (simp add: sub_ok_def oa u(3,4,6,7,10,11))
qed

text \<open>The application attaches a hook to the options of a constructor: \<open>C.options.created = C.options.created.concat(fs)\<close>.\<close>

definition attach_hooks :: "string \<Rightarrow> nat list \<Rightarrow> nat \<Rightarrow> cworld \<Rightarrow> cworld" where
  "attach_hooks k fs c w =
     (let a = k_options (w_ctors w c) in
      w\<lparr>w_opts := (w_opts w)(a := obj_put k (Hooks (w_next w) (as_list (oget k (w_opts w a)) @ fs)) (w_opts w a)), w_next := Suc (w_next w)\<rparr>)"

lemma attach_ok:
  assumes "sub_ok v c w"
  shows "sub_ok v c (attach_hooks k fs c w)" "w_ctors (attach_hooks k fs c w) = w_ctors w" "w_exts (attach_hooks k fs c w) = w_exts w"
    "oget k (options_of (attach_hooks k fs c w) c) = Hooks (w_next w) (as_list (oget k (options_of w c)) @ fs)"
    "options_of (attach_hooks k fs c w) v = options_of w v"
proof -
  show x: "w_ctors (attach_hooks k fs c w) = w_ctors w" "w_exts (attach_hooks k fs c w) = w_exts w"
    "oget k (options_of (attach_hooks k fs c w) c) = Hooks (w_next w) (as_list (oget k (options_of w c)) @ fs)"
    "options_of (attach_hooks k fs c w) v = options_of w v"
    using assms by (auto simp: attach_hooks_def Let_def options_of_def sub_ok_def)
  have o: "options_of (attach_hooks k fs c w) c = obj_put k (Hooks (w_next w) (as_list (oget k (options_of w c)) @ fs)) (options_of w c)"
    by (simp add: attach_hooks_def Let_def options_of_def)
  have n: "w_next (attach_hooks k fs c w) = Suc (w_next w)" by (simp add: attach_hooks_def Let_def)
  have "root_ok v (attach_hooks k fs c w)" using assms by (auto simp: sub_ok_def root_ok_def x(1,4) n)
  then show "sub_ok v c (attach_hooks k fs c w)"
    using assms by (simp add: sub_ok_def x(1,2) o n less_Suc_eq hook_value_def)
qed

lemma filter_late:
  assumes "set p \<inter> set (own @ late) = {}"
  shows "filter (\<lambda>f. f \<in> set own \<or> f \<notin> set (p @ own)) p = []" "filter (\<lambda>f. f \<in> set own \<or> f \<notin> set (p @ own)) own = own"
    "filter (\<lambda>f. f \<in> set own \<or> f \<notin> set (p @ own)) late = late"
proof -
  show "filter (\<lambda>f. f \<in> set own \<or> f \<notin> set (p @ own)) p = []" using assms by (auto simp: filter_empty_conv)
  show "filter (\<lambda>f. f \<in> set own \<or> f \<notin> set (p @ own)) own = own" by (rule filter_True) simp
  show "filter (\<lambda>f. f \<in> set own \<or> f \<notin> set (p @ own)) late = late" using assms by (intro filter_True) auto
qed

text \<open>
  C25. Hooks attached to a constructor after \<open>Vue.extend\<close> survive a later global mixin: once the options are resolved
  again, the constructor has the hooks of \<open>Vue\<close>, those of the mixin, its own and the attached ones, in this
  order and each once.
\<close>

theorem late_hooks_survive:
  assumes "root_ok v w" "ext_ok v e w" "k \<in> set LIFECYCLE_HOOKS" "wf_obj mix"
    and "extend_1 strat v e w = (c, w1)"
    and "resolveConstructorOptions strat c (mixin_1 strat v mix (attach_hooks k fs c w1)) = (a, w2)"
    and "set (as_list (oget k (options_of w v))) \<inter> set (as_list (oget k (x_fields (w_exts w e))) @ fs) = {}"
  shows "as_list (oget k (w_opts w2 a)) =
    as_list (oget k (options_of w v)) @ as_list (oget k mix) @ as_list (oget k (x_fields (w_exts w e))) @ fs"
proof -
  note x = extend_ok [OF assms(1,2,5)]
  note t = attach_ok [OF x(1), of k fs]
  note m = mixin_ok [OF t(1) assms(4), where strat = strat]
  have "k_superOptions (w_ctors (mixin_1 strat v mix (attach_hooks k fs c w1)) c) \<noteq> k_options (w_ctors (mixin_1 strat v mix (attach_hooks k fs c w1)) v)"
    using m(2,5) by simp
  note r = resolved_ok [OF m(1) this assms(6)]
  have latest: "oget k (options_of (mixin_1 strat v mix (attach_hooks k fs c w1)) c) =
      Hooks (w_next w1) (as_list (oget k (options_of w v)) @ as_list (oget k (x_fields (w_exts w e))) @ fs)"
    using assms(3) by (simp add: m(3) t(4) x(7))
  have sealed: "as_list (oget k (k_sealed (w_ctors w1 c))) = as_list (oget k (options_of w v)) @ as_list (oget k (x_fields (w_exts w e)))"
    using x(6,7) assms(3) by simp
  have ext: "x_fields (w_exts (mixin_1 strat v mix (attach_hooks k fs c w1)) (k_ext (w_ctors w1 c))) = x_fields (w_exts w e)"
    by (simp add: m(4) t(3) x(4,5))
  have "kept (oget k (options_of (mixin_1 strat v mix (attach_hooks k fs c w1)) c)) (oget k (x_fields (w_exts w e))) (oget k (k_sealed (w_ctors w1 c))) =
      as_list (oget k (x_fields (w_exts w e))) @ fs"
  proof (cases "fs = []")
    case True
    then show ?thesis
      using filter_late [of "as_list (oget k (options_of w v))" "as_list (oget k (x_fields (w_exts w e)))" "[]"] assms(7)
      unfolding latest by (simp add: kept_def sealed del: set_append)
  next
    case False
    then have "Hooks (w_next w1) (as_list (oget k (options_of w v)) @ as_list (oget k (x_fields (w_exts w e))) @ fs) \<noteq> oget k (k_sealed (w_ctors w1 c))"
      using sealed by (metis append_assoc append_self_conv as_list.simps(1))
    then show ?thesis using filter_late [OF assms(7)] unfolding latest by (simp add: kept_def sealed del: set_append)
  qed
  then show ?thesis
    using r(6) [OF assms(3)] latest assms(3) by (simp add: r(2) m(2,6) t(2) ext) (simp add: t(5) x(2))
qed

text \<open>
  C26. The hook of a global mixin runs twice. When the options of a constructor have been resolved after a first
  mixin, a second one makes the hooks of the first look as if the application had attached them to the
  constructor, because \<open>sealedOptions\<close> is as it was at \<open>Vue.extend\<close>: they are there both from \<open>Vue\<close> and as
  the constructor's own, from then on.
\<close>

theorem mixin_hook_doubled:
  assumes "root_ok v w" "ext_ok v e w" "k \<in> set LIFECYCLE_HOOKS" "wf_obj mix1" "wf_obj mix2"
    and "extend_1 strat v e w = (c, w1)"
    and "resolveConstructorOptions strat c (mixin_1 strat v mix1 w1) = (a1, w2)"
    and "resolveConstructorOptions strat c (mixin_1 strat v mix2 w2) = (a2, w3)"
    and "p = as_list (oget k (options_of w v))" "own = as_list (oget k (x_fields (w_exts w e)))"
    and "m1 = as_list (oget k mix1)" "m2 = as_list (oget k mix2)"
    and "m1 \<noteq> []" "set p \<inter> set (own @ m1) = {}" "set own \<inter> set m1 = {}"
  shows "as_list (oget k (w_opts w2 a1)) = p @ m1 @ own \<and> as_list (oget k (w_opts w3 a2)) = p @ m1 @ m2 @ m1 @ own"
proof -
  note x = extend_ok [OF assms(1,2,6)]
  note m = mixin_ok [OF x(1) assms(4), where strat = strat]
  have ne: "k_superOptions (w_ctors (mixin_1 strat v mix1 w1) c) \<noteq> k_options (w_ctors (mixin_1 strat v mix1 w1) v)"
    using m(2,5) by simp
  note r = resolved_ok [OF m(1) ne assms(7)]
  have s1: "oget k (options_of (mixin_1 strat v mix1 w1) c) = oget k (k_sealed (w_ctors (mixin_1 strat v mix1 w1) c))"
    by (simp add: m(2,3) x(6))
  have "as_list (oget k (options_of w2 c)) = as_list (oget k (options_of (mixin_1 strat v mix1 w1) v)) @ own" and
    ext: "as_list (oget k (x_fields (w_exts w2 e))) = own"
    using r(6) [OF assms(3) disjI1 [OF s1]] by (simp_all add: kept_def s1 m(2,4) x(4,5) assms(10))
  then have o1: "as_list (oget k (options_of w2 c)) = p @ m1 @ own"
    using m(6) [OF assms(3)] by (simp add: x(2) assms(9,11))
  note n = mixin_ok [OF r(1) assms(5), where strat = strat]
  have ne2: "k_superOptions (w_ctors (mixin_1 strat v mix2 w2) c) \<noteq> k_options (w_ctors (mixin_1 strat v mix2 w2) v)"
    using n(2,5) by simp
  note q = resolved_ok [OF n(1) ne2 assms(8)]
  have e: "k_ext (w_ctors w2 c) = e" using r(5) by (simp add: m(2) x(4))
  have sealed: "as_list (oget k (k_sealed (w_ctors w2 c))) = p @ own"
    using x(6,7) assms(3) by (simp add: r(4) m(2) assms(9,10))
  have latest: "as_list (oget k (options_of w2 c)) = p @ m1 @ own" by (rule o1)
  then have diff: "oget k (options_of w2 c) \<noteq> oget k (k_sealed (w_ctors w2 c))" using sealed assms(13) by auto
  have "is_array (oget k (options_of w2 c))"
    using r(1) assms(3,13) latest by (auto simp: sub_ok_def hook_value_def)
  then have "kept (oget k (options_of w2 c)) (oget k (x_fields (w_exts w2 e))) (oget k (k_sealed (w_ctors w2 c))) = m1 @ own"
    using diff filter_late [OF assms(14)] by (simp add: kept_def latest sealed ext del: set_append)
  then have "as_list (oget k (options_of w3 c)) = as_list (oget k (options_of (mixin_1 strat v mix2 w2) v)) @ m1 @ own"
    using q(6) [OF assms(3)] \<open>is_array (oget k (options_of w2 c))\<close> by (simp add: n(2-4) e)
  moreover have "as_list (oget k (options_of (mixin_1 strat v mix2 w2) v)) = p @ m1 @ m2"
    using n(6) [OF assms(3)] m(6) [OF assms(3)] by (simp add: r(3) x(2) assms(9,11,12))
  ultimately show ?thesis using o1 by (simp add: r(2) q(2))
qed

section \<open>An application\<close>

definition ex_world :: cworld where
  "ex_world =
     \<lparr>w_next = 10,
      w_opts = (\<lambda>_. [(''created'', Hooks 1 [100]), (''components'', Tab 2)]),
      w_tabs = (\<lambda>_. ([], None)),
      w_exts = (\<lambda>_. \<lparr>x_fields = [(''created'', Fun 200)], x_ctors = []\<rparr>),
      w_ctors = (\<lambda>_. \<lparr>k_super = None, k_options = 3, k_superOptions = 0, k_ext = 0, k_sealed = []\<rparr>)\<rparr>"

definition ex_strat :: "string \<Rightarrow> cval \<Rightarrow> cval \<Rightarrow> cval" where
  "ex_strat key p c = (if c = Undef then p else c)"

lemma ex_root: "root_ok 4 ex_world" "ext_ok 4 5 ex_world"
  by (simp_all add: root_ok_def ext_ok_def ex_world_def options_of_def wf_obj_def hook_value_def oget_def LIFECYCLE_HOOKS_def)

lemma late_hooks_survive_witness:
  "\<exists>c w1 a w2. extend_1 ex_strat 4 5 ex_world = (c, w1) \<and>
     resolveConstructorOptions ex_strat c (mixin_1 ex_strat 4 [(''created'', Fun 300)] (attach_hooks ''created'' [400] c w1)) = (a, w2) \<and>
     as_list (oget ''created'' (w_opts w2 a)) = [100, 300, 200, 400]"
proof -
  obtain c w1 where x: "extend_1 ex_strat 4 5 ex_world = (c, w1)" by fastforce
  obtain a w2 where r: "resolveConstructorOptions ex_strat c (mixin_1 ex_strat 4 [(''created'', Fun 300)] (attach_hooks ''created'' [400] c w1)) = (a, w2)"
    by fastforce
  have p: "oget ''created'' (options_of ex_world 4) = Hooks 1 [100]" "oget ''created'' (x_fields (w_exts ex_world 5)) = Fun 200"
    by (simp_all add: ex_world_def options_of_def oget_def)
  have "as_list (oget ''created'' (w_opts w2 a)) = [100, 300, 200, 400]"
    using late_hooks_survive [OF ex_root _ _ x r] by (simp add: p LIFECYCLE_HOOKS_def wf_obj_def) (simp add: oget_def)
  then show ?thesis using x r by blast
qed

lemma mixin_hook_doubled_witness:
  "\<exists>c w1 a1 w2 a2 w3. extend_1 ex_strat 4 5 ex_world = (c, w1) \<and>
     resolveConstructorOptions ex_strat c (mixin_1 ex_strat 4 [(''created'', Fun 300)] w1) = (a1, w2) \<and>
     resolveConstructorOptions ex_strat c (mixin_1 ex_strat 4 [] w2) = (a2, w3) \<and>
     as_list (oget ''created'' (w_opts w2 a1)) = [100, 300, 200] \<and> as_list (oget ''created'' (w_opts w3 a2)) = [100, 300, 300, 200]"
proof -
  obtain c w1 where x: "extend_1 ex_strat 4 5 ex_world = (c, w1)" by fastforce
  obtain a1 w2 where r: "resolveConstructorOptions ex_strat c (mixin_1 ex_strat 4 [(''created'', Fun 300)] w1) = (a1, w2)" by fastforce
  obtain a2 w3 where q: "resolveConstructorOptions ex_strat c (mixin_1 ex_strat 4 [] w2) = (a2, w3)" by fastforce
  have p: "as_list (oget ''created'' (options_of ex_world 4)) = [100]" "as_list (oget ''created'' (x_fields (w_exts ex_world 5))) = [200]"
    "as_list (oget ''created'' [(''created'', Fun 300)]) = [300]" "as_list (oget ''created'' []) = []"
    by (simp_all add: ex_world_def options_of_def oget_def)
  have "as_list (oget ''created'' (w_opts w2 a1)) = [100, 300, 200] \<and> as_list (oget ''created'' (w_opts w3 a2)) = [100, 300, 300, 200]"
    using mixin_hook_doubled [OF ex_root _ _ _ x r q refl refl refl refl, of "''created''"]
    unfolding p by (simp add: LIFECYCLE_HOOKS_def wf_obj_def)
  then show ?thesis using x r q by blast
qed

text \<open>
  A component registered on a constructor after \<open>Vue.extend\<close> is lost with the next global mixin: the table of
  components is the same object in \<open>sealedOptions\<close>, so it does not count as modified.
\<close>

lemma late_component_lost:
  "let (c, w1) = extend_1 ex_strat 4 5 ex_world;
       (_, w2) = asset_1 ex_strat 4 c ''component'' ''my-item'' (Some (Asset 77)) w1;
       (a, w3) = resolveConstructorOptions ex_strat c (mixin_1 ex_strat 4 [] w2)
   in get_asset ''component'' (options_of w2 c) ''my-item'' w2 = Some 77 \<and> get_asset ''component'' (w_opts w3 a) ''my-item'' w3 = None"
  by code_simp

end
