(* ===== verification/InstanceState.thy ===== *)
theory InstanceState
  imports Props
begin

text \<open>
  The initialisation of an instance in \<open>frontend/js/vue.js\<close>: \<open>initInjections\<close>, \<open>initState\<close> with the functions it
  calls, and what \<open>Vue.extend\<close> puts on a constructor's prototype. Props, methods, data, computed properties
  and injections share the names of the instance. The lemmas show which of them a name means in the end, and
  which clashes are reported. Functions of the application are numbers; calling them is a parameter.
\<close>

section \<open>Properties of an instance\<close>

text \<open>
  A property holds a value, forwards to another object (\<open>proxy\<close>), is computed (with its getter and setter), or
  is injected. \<open>fields\<close> of the framework itself are values.
\<close>

datatype comp_getter = Cached string | Direct nat | NoGetter
datatype comp_setter = UserSet nat | WarnSet

datatype acc = Value jsval | Proxy string string | Computed comp_getter comp_setter | Injected jsval

datatype comp_def = CompFun nat | CompObj "nat option" "nat option" bool

text \<open>\<open>m_proto\<close> stands for the prototype chain; \<open>m_child\<close>: the instance has a parent.\<close>

record vm_state =
  m_own :: "acc obj"
  m_proto :: "acc obj"
  m_child :: bool
  m_props :: "jsval obj"
  m_propKeys :: "string list"
  m_data :: "jsval obj"
  m_computed :: "string list"
  m_watches :: "(string \<times> jsval \<times> bool) list"
  m_setters :: "(nat \<times> jsval) list"
  m_observing :: bool
  m_warns :: "string list"

definition vm_get :: "string \<Rightarrow> vm_state \<Rightarrow> acc option" where
  "vm_get key vm = (case map_of (m_own vm) key of Some a \<Rightarrow> Some a | None \<Rightarrow> map_of (m_proto vm) key)"

abbreviation key_in_vm :: "string \<Rightarrow> vm_state \<Rightarrow> bool" where "key_in_vm key vm \<equiv> vm_get key vm \<noteq> None"

definition vm_warn :: "string \<Rightarrow> vm_state \<Rightarrow> vm_state" where
  "vm_warn msg vm = vm\<lparr>m_warns := m_warns vm @ [msg]\<rparr>"

definition quoted :: "string \<Rightarrow> string" where
  "quoted s = [dq] @ s @ [dq]"

text \<open>\<open>Object.defineProperty\<close> on the instance, and \<open>proxy\<close> on any object\<close>

definition vm_define :: "string \<Rightarrow> acc \<Rightarrow> vm_state \<Rightarrow> vm_state" where
  "vm_define key a vm = vm\<lparr>m_own := obj_put key a (m_own vm)\<rparr>"

definition proxy :: "(string \<Rightarrow> acc \<Rightarrow> 'o \<Rightarrow> 'o) \<Rightarrow> string \<Rightarrow> string \<Rightarrow> 'o \<Rightarrow> 'o" where
  "proxy defineProperty sourceKey key target = defineProperty key (Proxy sourceKey key) target"

text \<open>
  \<open>vm[key] = v\<close>: an accessor's setter is called. Setting a prop of a child or an injected property warns.
\<close>

definition vm_assign :: "string \<Rightarrow> jsval \<Rightarrow> vm_state \<Rightarrow> vm_state" where
  "vm_assign key v vm =
     (case vm_get key vm of
        Some (Proxy src k) \<Rightarrow>
          if src = ''_props'' then
            (let vm1 = vm\<lparr>m_props := obj_put k v (m_props vm)\<rparr> in
             if m_child vm then vm_warn (''Avoid mutating a prop directly. Prop being mutated: '' @ quoted k) vm1 else vm1)
          else vm\<lparr>m_data := obj_put k v (m_data vm)\<rparr>
      | Some (Computed g (UserSet f)) \<Rightarrow> vm\<lparr>m_setters := m_setters vm @ [(f, v)]\<rparr>
      | Some (Computed g WarnSet) \<Rightarrow> vm_warn (''Computed property '' @ quoted key @ '' was assigned to but it has no setter.'') vm
      | Some (Injected w) \<Rightarrow>
          vm_warn (''Avoid mutating an injected value directly. injection being mutated: '' @ quoted key) (vm_define key (Injected v) vm)
      | _ \<Rightarrow> vm_define key (Value v) vm)"

section \<open>Computed properties\<close>

definition comp_acc :: "bool \<Rightarrow> string \<Rightarrow> comp_def \<Rightarrow> acc" where
  "comp_acc ssr key def =
     (let shouldCache = \<not> ssr in
      case def of
        CompFun f \<Rightarrow> Computed (if shouldCache then Cached key else Direct f) WarnSet
      | CompObj g s cache \<Rightarrow>
          Computed (case g of
                      Some f \<Rightarrow> if shouldCache \<and> cache then Cached key else Direct f
                    | None \<Rightarrow> NoGetter)
            (case s of Some f \<Rightarrow> UserSet f | None \<Rightarrow> WarnSet))"

definition defineComputed :: "(string \<Rightarrow> acc \<Rightarrow> 'o \<Rightarrow> 'o) \<Rightarrow> bool \<Rightarrow> string \<Rightarrow> comp_def \<Rightarrow> 'o \<Rightarrow> 'o" where
  "defineComputed defineProperty ssr key def target = defineProperty key (comp_acc ssr key def) target"

fun getter_of :: "comp_def \<Rightarrow> nat option" where
  "getter_of (CompFun f) = Some f"
| "getter_of (CompObj g _ _) = g"

text \<open>
  The members of \<open>Object.prototype\<close> count as being in \<open>vm.$data\<close> and in \<open>vm.$options.props\<close>.
\<close>

definition computed_one :: "string list \<Rightarrow> bool \<Rightarrow> string list option \<Rightarrow> vm_state \<Rightarrow> string \<times> comp_def \<Rightarrow> vm_state" where
  "computed_one object_names ssr props vm0 = (\<lambda>(key, def).
     let vm = (if getter_of def = None then vm_warn (''Getter is missing for computed property '' @ quoted key @ ''.'') vm0 else vm0);
         vm1 = (if ssr then vm else vm\<lparr>m_computed := m_computed vm @ [key]\<rparr>)
     in if \<not> key_in_vm key vm1 then defineComputed vm_define ssr key def vm1
        else if key \<in> set (obj_keys (m_data vm1)) \<or> key \<in> set object_names then
          vm_warn (''The computed property '' @ quoted key @ '' is already defined in data.'') vm1
        else if (case props of Some ps \<Rightarrow> key \<in> set ps | None \<Rightarrow> False) then
          vm_warn (''The computed property '' @ quoted key @ '' is already defined as a prop.'') vm1
        else vm1)"

definition initComputed :: "string list \<Rightarrow> bool \<Rightarrow> string list option \<Rightarrow> comp_def obj \<Rightarrow> vm_state \<Rightarrow> vm_state" where
  "initComputed object_names ssr props computed vm = foldl (computed_one object_names ssr props) (vm\<lparr>m_computed := []\<rparr>) computed"

section \<open>Props\<close>

text \<open>What \<open>validateProp\<close> needs of the application\<close>

record prop_env =
  pe_call :: "jsval \<Rightarrow> jsval"
  pe_inst :: "jsval \<Rightarrow> jsval \<Rightarrow> bool"
  pe_check :: "jsval \<Rightarrow> jsval \<Rightarrow> bool"

definition prop_one :: "prop_env \<Rightarrow> jsval obj \<Rightarrow> jsval obj \<Rightarrow> vm_state \<Rightarrow> string \<Rightarrow> vm_state" where
  "prop_one E propsOptions propsData vm key =
     (let vm1 = vm\<lparr>m_propKeys := m_propKeys vm @ [key]\<rparr>;
          (value, ws) = validateProp (pe_call E) (pe_inst E) (pe_check E) key propsOptions propsData (Some (Some propsData, m_props vm1));
          vm2 = vm1\<lparr>m_warns := m_warns vm1 @ ws @
              (if isReservedAttribute (hyphenate key) then [quoted (hyphenate key) @ '' is a reserved attribute and cannot be used as component prop.''] else []),
            m_props := obj_put key value (m_props vm1)\<rparr>
      in if \<not> key_in_vm key vm2 then proxy vm_define ''_props'' key vm2 else vm2)"

definition initProps :: "prop_env \<Rightarrow> jsval obj \<Rightarrow> jsval obj \<Rightarrow> vm_state \<Rightarrow> vm_state" where
  "initProps E propsOptions propsData vm =
     (let vm1 = vm\<lparr>m_props := [], m_propKeys := [], m_observing := (if m_child vm then False else m_observing vm)\<rparr>
      in (foldl (prop_one E propsOptions propsData) vm1 (obj_keys propsOptions))\<lparr>m_observing := True\<rparr>)"

section \<open>Methods\<close>

text \<open>\<open>None\<close> is a method that is null or undefined; a bound method is named by its function.\<close>

definition method_one :: "string list option \<Rightarrow> vm_state \<Rightarrow> string \<times> nat option \<Rightarrow> vm_state" where
  "method_one props vm = (\<lambda>(key, m).
     let w1 = (if m = None then [''Method '' @ quoted key @ '' has an undefined value in the component definition.''] else []);
         w2 = (if (case props of Some ps \<Rightarrow> key \<in> set ps | None \<Rightarrow> False) then [''Method '' @ quoted key @ '' has already been defined as a prop.''] else []);
         w3 = (if key_in_vm key vm \<and> isReserved key then [''Method '' @ quoted key @ '' conflicts with an existing Vue instance method.''] else [])
     in vm_assign key (case m of Some f \<Rightarrow> JFun f key | None \<Rightarrow> JFun 0 ''noop'') (vm\<lparr>m_warns := m_warns vm @ w1 @ w2 @ w3\<rparr>))"

definition initMethods :: "string list option \<Rightarrow> nat option obj \<Rightarrow> vm_state \<Rightarrow> vm_state" where
  "initMethods props methods vm = foldl (method_one props) vm methods"

section \<open>Data\<close>

text \<open>The option \<open>data\<close>: a value, or a function; \<open>None\<close> where calling it throws\<close>

datatype data_option = DataVal jsval | DataFun "jsval option"

definition getData :: "jsval option \<Rightarrow> jsval \<times> string list" where
  "getData result = (case result of Some v \<Rightarrow> (v, []) | None \<Rightarrow> (JObj 0 [], [''Error in data()'']))"

definition data_one :: "string list option \<Rightarrow> string list option \<Rightarrow> vm_state \<Rightarrow> string \<Rightarrow> vm_state" where
  "data_one props methods vm key =
     (let vm1 = (if (case methods of Some ms \<Rightarrow> key \<in> set ms | None \<Rightarrow> False)
            then vm_warn (''Method '' @ quoted key @ '' has already been defined as a data property.'') vm else vm)
      in if (case props of Some ps \<Rightarrow> key \<in> set ps | None \<Rightarrow> False)
         then vm_warn (''The data property '' @ quoted key @ '' is already declared as a prop. Use prop default value instead.'') vm1
         else if \<not> isReserved key then proxy vm_define ''_data'' key vm1
         else vm1)"

fun plain_fields :: "jsval \<Rightarrow> jsval obj option" where
  "plain_fields (JObj _ fs) = Some fs"
| "plain_fields _ = None"

text \<open>The properties of \<open>vm._data\<close>, and the warnings\<close>

definition data_value :: "data_option \<Rightarrow> jsval obj \<times> string list" where
  "data_value d =
     (let (value, ws) = (case d of DataFun r \<Rightarrow> getData r | DataVal v \<Rightarrow> (if truthy v then v else JObj 0 [], []))
      in case plain_fields value of Some fs \<Rightarrow> (fs, ws) | None \<Rightarrow> ([], ws @ [''data functions should return an object'']))"

definition initData :: "data_option \<Rightarrow> string list option \<Rightarrow> string list option \<Rightarrow> vm_state \<Rightarrow> vm_state" where
  "initData d props methods vm =
     (let (data, ws) = data_value d in
      foldl (data_one props methods) (vm\<lparr>m_data := data, m_warns := m_warns vm @ ws\<rparr>) (rev (obj_keys data)))"

section \<open>Watches\<close>

text \<open>A handler is a function, the name of a method, or options with a handler.\<close>

datatype handler = HFun nat | HName string | HOptions handler bool

text \<open>\<open>$watch\<close> registers a watcher: the expression, the callback, and whether it is called at once.\<close>

fun createWatcher :: "string \<Rightarrow> handler \<Rightarrow> bool \<Rightarrow> vm_state \<Rightarrow> vm_state" where
  "createWatcher expOrFn (HFun f) immediate vm = vm\<lparr>m_watches := m_watches vm @ [(expOrFn, JFun f [], immediate)]\<rparr>"
| "createWatcher expOrFn (HName name) immediate vm =
     (let v = (case vm_get name vm of
                 Some (Value v) \<Rightarrow> v
               | Some (Injected v) \<Rightarrow> v
               | Some (Proxy src k) \<Rightarrow> get_or_undef (if src = ''_props'' then m_props vm else m_data vm) k
               | _ \<Rightarrow> JUndef)
      in vm\<lparr>m_watches := m_watches vm @ [(expOrFn, v, immediate)]\<rparr>)"
| "createWatcher expOrFn (HOptions h imm) immediate vm = createWatcher expOrFn h imm vm"

definition initWatch :: "handler list obj \<Rightarrow> vm_state \<Rightarrow> vm_state" where
  "initWatch watch vm = foldl (\<lambda>vm (key, hs). foldl (\<lambda>vm h. createWatcher key h False vm) vm hs) vm watch"

section \<open>The whole\<close>

record comp_options =
  co_props :: "jsval obj option"
  co_propsData :: "jsval obj"
  co_methods :: "nat option obj option"
  co_data :: "data_option option"
  co_computed :: "comp_def obj option"
  co_watch :: "handler list obj option"

definition initState :: "prop_env \<Rightarrow> string list \<Rightarrow> bool \<Rightarrow> comp_options \<Rightarrow> vm_state \<Rightarrow> vm_state" where
  "initState E object_names ssr opts vm =
     (let props = map_option obj_keys (co_props opts);
          vm1 = (case co_props opts of Some ps \<Rightarrow> initProps E ps (co_propsData opts) vm | None \<Rightarrow> vm);
          vm2 = (case co_methods opts of Some ms \<Rightarrow> initMethods props ms vm1 | None \<Rightarrow> vm1);
          vm3 = (case co_data opts of
                   Some d \<Rightarrow> initData d props (map_option obj_keys (co_methods opts)) vm2
                 | None \<Rightarrow> vm2\<lparr>m_data := []\<rparr>);
          vm4 = (case co_computed opts of Some cs \<Rightarrow> initComputed object_names ssr props cs vm3 | None \<Rightarrow> vm3)
      in (case co_watch opts of Some ws \<Rightarrow> initWatch ws vm4 | None \<Rightarrow> vm4))"

text \<open>The injected values come from \<open>resolveInject\<close>.\<close>

definition initInjections :: "jsval obj option \<Rightarrow> vm_state \<Rightarrow> vm_state" where
  "initInjections result vm =
     (case result of
        None \<Rightarrow> vm
      | Some r \<Rightarrow> vm\<lparr>m_own := foldl (\<lambda>own (key, v). obj_put key (Injected v) own) (m_own vm) r, m_observing := True\<rparr>)"

text \<open>The prototype of a component's constructor, on top of what it inherits\<close>

definition initProps_1 :: "string list \<Rightarrow> acc obj \<Rightarrow> acc obj" where
  "initProps_1 props proto = foldl (\<lambda>p key. proxy obj_put ''_props'' key p) proto props"

definition initComputed_1 :: "bool \<Rightarrow> comp_def obj \<Rightarrow> acc obj \<Rightarrow> acc obj" where
  "initComputed_1 ssr computed proto = foldl (\<lambda>p (key, def). defineComputed obj_put ssr key def p) proto computed"

definition extended_proto :: "bool \<Rightarrow> comp_options \<Rightarrow> acc obj \<Rightarrow> acc obj" where
  "extended_proto ssr opts proto =
     (let p1 = (case co_props opts of Some ps \<Rightarrow> initProps_1 (obj_keys ps) proto | None \<Rightarrow> proto)
      in (case co_computed opts of Some cs \<Rightarrow> initComputed_1 ssr cs p1 | None \<Rightarrow> p1))"

section \<open>What a name means\<close>

lemma get_own_put [simp]: "vm_get k (vm_define k' a vm) = (if k = k' then Some a else vm_get k vm)"
  by (cases "map_of (m_own vm) k") (simp_all add: vm_get_def vm_define_def)

lemma get_same [simp]:
  "vm_get k (vm\<lparr>m_warns := x1\<rparr>) = vm_get k vm" "vm_get k (vm\<lparr>m_props := x2\<rparr>) = vm_get k vm" "vm_get k (vm\<lparr>m_data := x3\<rparr>) = vm_get k vm"
  "vm_get k (vm\<lparr>m_propKeys := x4\<rparr>) = vm_get k vm" "vm_get k (vm\<lparr>m_observing := x5\<rparr>) = vm_get k vm" "vm_get k (vm\<lparr>m_computed := x6\<rparr>) = vm_get k vm"
  "vm_get k (vm\<lparr>m_watches := x7\<rparr>) = vm_get k vm" "vm_get k (vm\<lparr>m_setters := x8\<rparr>) = vm_get k vm" "vm_get k (vm_warn m vm) = vm_get k vm"
  by (cases "map_of (m_own vm) k"; simp add: vm_get_def vm_warn_def)+

lemma props_get:
  "vm_get k (foldl (prop_one E po pd) vm keys) = (if vm_get k vm = None \<and> k \<in> set keys then Some (Proxy ''_props'' k) else vm_get k vm)"
proof (induction keys arbitrary: vm)
  case (Cons key keys)
  have "vm_get k (prop_one E po pd vm key) = (if vm_get k vm = None \<and> k = key then Some (Proxy ''_props'' k) else vm_get k vm)"
    by (auto simp: prop_one_def Let_def proxy_def split: prod.splits)
  then show ?case using Cons.IH [of "prop_one E po pd vm key"] by auto
qed simp

text \<open>An assignment creates a property, or calls a setter.\<close>

definition assigned :: "acc option \<Rightarrow> jsval \<Rightarrow> acc option" where
  "assigned a v = (case a of Some (Proxy _ _) \<Rightarrow> a | Some (Computed _ _) \<Rightarrow> a | Some (Injected _) \<Rightarrow> Some (Injected v) | _ \<Rightarrow> Some (Value v))"

lemma assign_get: "vm_get k (vm_assign key v vm) = (if k = key then assigned (vm_get key vm) v else vm_get k vm)"
  by (auto simp: vm_assign_def assigned_def Let_def split: option.splits acc.splits comp_setter.splits)

definition method_value :: "string \<Rightarrow> nat option \<Rightarrow> jsval" where
  "method_value key m = (case m of Some f \<Rightarrow> JFun f key | None \<Rightarrow> JFun 0 ''noop'')"

lemma method_one_get: "vm_get k (method_one props vm (key, m)) = (if k = key then assigned (vm_get key vm) (method_value key m) else vm_get k vm)"
  by (simp add: method_one_def Let_def assign_get method_value_def)

lemma methods_get:
  "wf_obj methods \<Longrightarrow> vm_get k (initMethods props methods vm) =
     (case map_of methods k of Some m \<Rightarrow> assigned (vm_get k vm) (method_value k m) | None \<Rightarrow> vm_get k vm)"
proof (induction methods arbitrary: vm)
  case (Cons km methods)
  obtain key m where km: "km = (key, m)" by (cases km)
  have w: "wf_obj methods" "map_of methods key = None" using Cons.prems by (simp_all add: wf_obj_def km map_of_None_iff)
  have "initMethods props (km # methods) vm = initMethods props methods (method_one props vm (key, m))"
    by (simp add: initMethods_def km)
  then show ?case using Cons.IH [OF w(1), of "method_one props vm (key, m)"] w(2) by (auto simp: km method_one_get split: option.splits)
qed (simp add: initMethods_def)

definition among :: "string \<Rightarrow> string list option \<Rightarrow> bool" where
  "among k ks = (case ks of Some ks \<Rightarrow> k \<in> set ks | None \<Rightarrow> False)"

lemma data_fold_get:
  "vm_get k (foldl (data_one props methods) vm keys) =
     (if k \<in> set keys \<and> \<not> among k props \<and> \<not> isReserved k then Some (Proxy ''_data'' k) else vm_get k vm)"
proof (induction keys arbitrary: vm)
  case (Cons key keys)
  have "vm_get k (data_one props methods vm key) =
      (if k = key \<and> \<not> among k props \<and> \<not> isReserved k then Some (Proxy ''_data'' k) else vm_get k vm)"
    by (auto simp: data_one_def Let_def among_def proxy_def split: option.splits)
  then show ?case using Cons.IH [of "data_one props methods vm key"] by auto
qed simp

definition data_fields :: "data_option option \<Rightarrow> jsval obj" where
  "data_fields d = (case d of None \<Rightarrow> [] | Some d \<Rightarrow> fst (data_value d))"

lemma computed_get:
  "wf_obj cs \<Longrightarrow> vm_get k (foldl (computed_one names ssr props) vm cs) =
     (case vm_get k vm of Some a \<Rightarrow> Some a | None \<Rightarrow> map_option (comp_acc ssr k) (map_of cs k))"
proof (induction cs arbitrary: vm)
  case (Cons kd cs)
  obtain key d where kd: "kd = (key, d)" by (cases kd)
  have w: "wf_obj cs" "map_of cs key = None" using Cons.prems by (simp_all add: wf_obj_def kd map_of_None_iff)
  have "vm_get k (computed_one names ssr props vm (key, d)) =
      (case vm_get k vm of Some a \<Rightarrow> Some a | None \<Rightarrow> if k = key then Some (comp_acc ssr key d) else None)"
    by (auto simp: computed_one_def Let_def defineComputed_def split: option.splits)
  then show ?case using Cons.IH [OF w(1), of "computed_one names ssr props vm (key, d)"] w(2) by (auto simp: kd split: option.splits)
qed (simp split: option.splits)

lemma watcher_get [simp]: "vm_get k (createWatcher key h im vm) = vm_get k vm"
  by (induction key h im vm rule: createWatcher.induct) (simp_all add: Let_def)

lemma initWatch_get [simp]: "vm_get k (initWatch ws vm) = vm_get k vm"
proof -
  have h: "vm_get k (foldl (\<lambda>vm h. createWatcher key h False vm) vm hs) = vm_get k vm" for key hs vm
    by (induction hs arbitrary: vm) simp_all
  show ?thesis by (induction ws arbitrary: vm) (auto simp: initWatch_def h)
qed

lemma injections_get:
  "wf_obj r \<Longrightarrow> vm_get k (initInjections (Some r) vm) = (case map_of r k of Some v \<Rightarrow> Some (Injected v) | None \<Rightarrow> vm_get k vm)"
proof -
  have "wf_obj r \<Longrightarrow> map_of (foldl (\<lambda>own (key, v). obj_put key (Injected v) own) own r) k =
      (case map_of r k of Some v \<Rightarrow> Some (Injected v) | None \<Rightarrow> map_of own k)" for own
  proof (induction r arbitrary: own)
    case (Cons kv r)
    obtain key v where kv: "kv = (key, v)" by (cases kv)
    have "wf_obj r" "map_of r key = None" using Cons.prems by (simp_all add: wf_obj_def kv map_of_None_iff)
    then show ?case using Cons.IH by (auto simp: kv split: option.splits)
  qed simp
  then show "wf_obj r \<Longrightarrow> ?thesis" by (simp add: initInjections_def vm_get_def split: option.splits)
qed

lemma extended_get:
  "wf_obj (case co_computed opts of Some cs \<Rightarrow> cs | None \<Rightarrow> []) \<Longrightarrow> map_of (extended_proto ssr opts base) k =
     (case co_computed opts of
        Some cs \<Rightarrow> (case map_of cs k of
           Some d \<Rightarrow> Some (comp_acc ssr k d)
         | None \<Rightarrow> if among k (map_option obj_keys (co_props opts)) then Some (Proxy ''_props'' k) else map_of base k)
      | None \<Rightarrow> if among k (map_option obj_keys (co_props opts)) then Some (Proxy ''_props'' k) else map_of base k)"
proof -
  assume w: "wf_obj (case co_computed opts of Some cs \<Rightarrow> cs | None \<Rightarrow> [])"
  have p: "map_of (initProps_1 keys proto) k = (if k \<in> set keys then Some (Proxy ''_props'' k) else map_of proto k)" for keys proto
    unfolding initProps_1_def by (induction keys arbitrary: proto) (auto simp: proxy_def)
  have c: "wf_obj cs \<Longrightarrow> map_of (initComputed_1 ssr cs proto) k = (case map_of cs k of Some d \<Rightarrow> Some (comp_acc ssr k d) | None \<Rightarrow> map_of proto k)" for cs proto
    unfolding initComputed_1_def
  proof (induction cs arbitrary: proto)
    case (Cons kd cs)
    obtain key d where kd: "kd = (key, d)" by (cases kd)
    have "wf_obj cs" "map_of cs key = None" using Cons.prems by (simp_all add: wf_obj_def kd map_of_None_iff)
    then show ?case using Cons.IH by (auto simp: kd defineComputed_def split: option.splits)
  qed simp
  show ?thesis using w
    by (cases "co_computed opts"; cases "co_props opts") (simp_all add: extended_proto_def among_def p c split: option.split)
qed

text \<open>
  What a name means on an instance. Only a computed property of a constructor made by \<open>Vue.extend\<close> comes before
  a prop of the same name; on an instance made from options directly it comes last.
\<close>

definition meaning :: "bool \<Rightarrow> bool \<Rightarrow> comp_options \<Rightarrow> jsval obj \<Rightarrow> string \<Rightarrow> acc option" where
  "meaning extended ssr opts injected k =
     (let is_prop = among k (map_option obj_keys (co_props opts));
          comp = (case co_computed opts of Some cs \<Rightarrow> map_option (comp_acc ssr k) (map_of cs k) | None \<Rightarrow> None);
          meth = (case co_methods opts of Some ms \<Rightarrow> map_option (method_value k) (map_of ms k) | None \<Rightarrow> None)
      in if k \<in> set (obj_keys (data_fields (co_data opts))) \<and> \<not> is_prop \<and> \<not> isReserved k then Some (Proxy ''_data'' k)
         else (case map_of injected k of
             Some v \<Rightarrow> Some (Injected (case meth of Some f \<Rightarrow> f | None \<Rightarrow> v))
           | None \<Rightarrow>
               if extended \<and> comp \<noteq> None then comp
               else if is_prop then Some (Proxy ''_props'' k)
               else (case meth of Some f \<Rightarrow> Some (Value f) | None \<Rightarrow> comp)))"

definition wf_options :: "comp_options \<Rightarrow> bool" where
  "wf_options opts \<longleftrightarrow> wf_obj (case co_methods opts of Some ms \<Rightarrow> ms | None \<Rightarrow> []) \<and> wf_obj (case co_computed opts of Some cs \<Rightarrow> cs | None \<Rightarrow> [])"

lemma initState_get:
  assumes "wf_options opts"
  shows "vm_get k (initState E names ssr opts vm) =
    (let is_prop = among k (map_option obj_keys (co_props opts));
         a1 = (if vm_get k vm = None \<and> is_prop then Some (Proxy ''_props'' k) else vm_get k vm);
         a2 = (case co_methods opts of
                 Some ms \<Rightarrow> (case map_of ms k of Some m \<Rightarrow> assigned a1 (method_value k m) | None \<Rightarrow> a1)
               | None \<Rightarrow> a1);
         a3 = (if k \<in> set (obj_keys (data_fields (co_data opts))) \<and> \<not> is_prop \<and> \<not> isReserved k then Some (Proxy ''_data'' k) else a2)
     in case a3 of
          Some a \<Rightarrow> Some a
        | None \<Rightarrow> (case co_computed opts of Some cs \<Rightarrow> map_option (comp_acc ssr k) (map_of cs k) | None \<Rightarrow> None))"
proof -
  let ?ps = "map_option obj_keys (co_props opts)" and ?mk = "map_option obj_keys (co_methods opts)"
  define vm1 where "vm1 = (case co_props opts of Some ps \<Rightarrow> initProps E ps (co_propsData opts) vm | None \<Rightarrow> vm)"
  define vm2 where "vm2 = (case co_methods opts of Some ms \<Rightarrow> initMethods ?ps ms vm1 | None \<Rightarrow> vm1)"
  define vm3 where "vm3 = (case co_data opts of Some d \<Rightarrow> initData d ?ps ?mk vm2 | None \<Rightarrow> vm2\<lparr>m_data := []\<rparr>)"
  define vm4 where "vm4 = (case co_computed opts of Some cs \<Rightarrow> initComputed names ssr ?ps cs vm3 | None \<Rightarrow> vm3)"
  have 1: "vm_get k vm1 = (if vm_get k vm = None \<and> among k ?ps then Some (Proxy ''_props'' k) else vm_get k vm)"
    by (cases "co_props opts") (simp_all add: vm1_def among_def initProps_def Let_def props_get)
  have 2: "vm_get k vm2 = (case co_methods opts of
                 Some ms \<Rightarrow> (case map_of ms k of Some m \<Rightarrow> assigned (vm_get k vm1) (method_value k m) | None \<Rightarrow> vm_get k vm1)
               | None \<Rightarrow> vm_get k vm1)"
    using assms by (cases "co_methods opts") (simp_all add: vm2_def wf_options_def methods_get)
  have 3: "vm_get k vm3 = (if k \<in> set (obj_keys (data_fields (co_data opts))) \<and> \<not> among k ?ps \<and> \<not> isReserved k
      then Some (Proxy ''_data'' k) else vm_get k vm2)"
    by (cases "co_data opts") (auto simp: vm3_def data_fields_def initData_def data_fold_get split: prod.splits)
  have 4: "vm_get k vm4 = (case vm_get k vm3 of
          Some a \<Rightarrow> Some a
        | None \<Rightarrow> (case co_computed opts of Some cs \<Rightarrow> map_option (comp_acc ssr k) (map_of cs k) | None \<Rightarrow> None))"
    using assms by (cases "co_computed opts") (simp_all add: vm4_def wf_options_def initComputed_def computed_get split: option.split)
  have "initState E names ssr opts vm = (case co_watch opts of Some ws \<Rightarrow> initWatch ws vm4 | None \<Rightarrow> vm4)"
    unfolding initState_def Let_def vm4_def vm3_def vm2_def vm1_def by (rule refl)
  then have "vm_get k (initState E names ssr opts vm) = vm_get k vm4" by (cases "co_watch opts") simp_all
  then show ?thesis unfolding 4 3 2 1 Let_def .
qed

text \<open>
  C22. Whatever names the options of an instance share between props, methods, data, computed properties and
  injections, each name that is not one of the framework's means what \<open>meaning\<close> says.
\<close>

theorem name_resolution:
  assumes "wf_options opts" "wf_obj injected" "map_of (m_own vm) k = None" "map_of base k = None"
    and "m_proto vm = (if extended then extended_proto ssr opts base else base)"
  shows "vm_get k (initState E names ssr opts (initInjections (Some injected) vm)) = meaning extended ssr opts injected k"
proof -
  define comp where "comp = (case co_computed opts of Some cs \<Rightarrow> map_option (comp_acc ssr k) (map_of cs k) | None \<Rightarrow> None)"
  define meth where "meth = (case co_methods opts of Some ms \<Rightarrow> map_option (method_value k) (map_of ms k) | None \<Rightarrow> None)"
  define is_prop where "is_prop = among k (map_option obj_keys (co_props opts))"
  have "map_of (extended_proto ssr opts base) k = (case comp of Some a \<Rightarrow> Some a | None \<Rightarrow> if is_prop then Some (Proxy ''_props'' k) else None)"
    using extended_get [of opts ssr base k] assms(1,4) unfolding wf_options_def comp_def is_prop_def
    by (cases "co_computed opts"; simp; cases "map_of (the (co_computed opts)) k"; simp)
  then have start: "vm_get k vm = (if extended then (case comp of Some a \<Rightarrow> Some a | None \<Rightarrow> if is_prop then Some (Proxy ''_props'' k) else None) else None)"
    using assms(3-5) by (simp add: vm_get_def)
  let ?data = "k \<in> set (obj_keys (data_fields (co_data opts))) \<and> \<not> is_prop \<and> \<not> isReserved k"
  have m: "(case co_methods opts of Some ms \<Rightarrow> (case map_of ms k of Some m \<Rightarrow> assigned a (method_value k m) | None \<Rightarrow> a) | None \<Rightarrow> a) =
      (case meth of Some f \<Rightarrow> assigned a f | None \<Rightarrow> a)" for a
    by (cases "co_methods opts"; simp add: meth_def; cases "map_of (the (co_methods opts)) k"; simp)
  have steps: "vm_get k (initState E names ssr opts v) =
      (let a1 = (if vm_get k v = None \<and> is_prop then Some (Proxy ''_props'' k) else vm_get k v) in
       case (if ?data then Some (Proxy ''_data'' k) else (case meth of Some f \<Rightarrow> assigned a1 f | None \<Rightarrow> a1)) of Some a \<Rightarrow> Some a | None \<Rightarrow> comp)" for v
    unfolding initState_get [OF assms(1)] Let_def m comp_def is_prop_def by (rule refl)
  have goal: "meaning extended ssr opts injected k =
      (if ?data then Some (Proxy ''_data'' k)
         else (case map_of injected k of
             Some v \<Rightarrow> Some (Injected (case meth of Some f \<Rightarrow> f | None \<Rightarrow> v))
           | None \<Rightarrow>
               if extended \<and> comp \<noteq> None then comp
               else if is_prop then Some (Proxy ''_props'' k)
               else (case meth of Some f \<Rightarrow> Some (Value f) | None \<Rightarrow> comp)))"
    unfolding meaning_def Let_def comp_def meth_def is_prop_def by (rule refl)
  have c: "comp = None \<or> (\<exists>g s. comp = Some (Computed g s))"
  proof -
    have "\<exists>g s. comp_acc ssr k d = Computed g s" for d by (cases d) (simp_all add: comp_acc_def Let_def)
    then show ?thesis by (cases "co_computed opts"; simp add: comp_def; cases "map_of (the (co_computed opts)) k"; simp)
  qed
  show ?thesis
    unfolding steps goal injections_get [OF assms(2)] start Let_def
    using c by (cases ?data; simp; cases extended; cases is_prop; cases "map_of injected k"; cases meth; simp add: assigned_def; auto simp: assigned_def)
qed

section \<open>Which clashes are reported\<close>

definition warned :: "vm_state \<Rightarrow> string set" where
  "warned vm = set (m_warns vm)"

lemma warned_simps [simp]: "warned (vm_warn m vm) = insert m (warned vm)" "warned (vm_define k a vm) = warned vm"
    "warned (vm\<lparr>m_computed := ks\<rparr>) = warned vm" "m_data (vm_warn m vm) = m_data vm"
  by (simp_all add: warned_def vm_warn_def vm_define_def)

lemma fold_warned: "(\<And>vm x. warned vm \<subseteq> warned (f vm x)) \<Longrightarrow> warned vm \<subseteq> warned (foldl f vm xs)"
proof (induction xs arbitrary: vm)
  case (Cons x xs)
  then show ?case by (metis foldl_Cons order_trans)
qed simp

lemma fold_emits:
  assumes "x \<in> set xs" "I vm" "\<And>vm y. I vm \<Longrightarrow> I (f vm y)" "\<And>vm y. warned vm \<subseteq> warned (f vm y)" "\<And>vm. I vm \<Longrightarrow> m \<in> warned (f vm x)"
  shows "m \<in> warned (foldl f vm xs)"
  using assms(1,2)
proof (induction xs arbitrary: vm)
  case (Cons y ys)
  show ?case
  proof (cases "x = y")
    case True
    then show ?thesis using assms(5) [OF Cons.prems(2)] fold_warned [of f "f vm y" ys, OF assms(4)] by auto
  next
    case False
    with Cons show ?thesis using assms(3) by simp
  qed
qed simp

lemma assign_warned: "warned vm \<subseteq> warned (vm_assign key v vm)"
  by (auto simp: vm_assign_def Let_def split: option.splits acc.splits comp_setter.splits) (auto simp: warned_def vm_warn_def)

lemma method_warned: "warned vm \<subseteq> warned (method_one props vm km)"
proof (cases km)
  case (Pair key m)
  show ?thesis unfolding method_one_def Pair Let_def prod.case
    by (rule order_trans [OF _ assign_warned]) (simp add: warned_def)
qed

lemma data_one_warned: "warned vm \<subseteq> warned (data_one props methods vm key)"
  by (auto simp: data_one_def Let_def proxy_def)

lemma computed_one_warned: "warned vm \<subseteq> warned (computed_one names ssr props vm kd)"
  by (cases kd) (auto simp: computed_one_def Let_def defineComputed_def warned_def vm_warn_def vm_define_def)

lemma watch_warned: "warned (createWatcher key h im vm) = warned vm"
  by (induction key h im vm rule: createWatcher.induct) (simp_all add: Let_def warned_def)

lemma initWatch_warned: "warned vm \<subseteq> warned (initWatch ws vm)"
proof -
  have "warned vm \<subseteq> warned (foldl (\<lambda>vm h. createWatcher key h False vm) vm hs)" for key hs vm
    by (rule fold_warned) (simp add: watch_warned)
  then show ?thesis unfolding initWatch_def by (intro fold_warned) auto
qed

definition clash_messages :: "string \<Rightarrow> string set" where
  "clash_messages k =
     {''Method '' @ quoted k @ '' has already been defined as a prop.'',
      ''Method '' @ quoted k @ '' has already been defined as a data property.'',
      ''The data property '' @ quoted k @ '' is already declared as a prop. Use prop default value instead.'',
      ''The computed property '' @ quoted k @ '' is already defined in data.'',
      ''The computed property '' @ quoted k @ '' is already defined as a prop.''}"

lemma method_clash: "(k, m) \<in> set ms \<Longrightarrow> among k props \<Longrightarrow> \<exists>c\<in>clash_messages k. c \<in> warned (initMethods props ms vm)"
proof -
  assume "(k, m) \<in> set ms" "among k props"
  moreover have "among k props \<Longrightarrow> ''Method '' @ quoted k @ '' has already been defined as a prop.'' \<in> warned (method_one props vm (k, m))" for vm
    unfolding method_one_def Let_def prod.case
    by (rule subsetD [OF assign_warned]) (simp add: warned_def among_def)
  ultimately have "''Method '' @ quoted k @ '' has already been defined as a prop.'' \<in> warned (initMethods props ms vm)"
    unfolding initMethods_def by (intro fold_emits [where I = "\<lambda>_. True"] method_warned) auto
  then show ?thesis by (auto simp: clash_messages_def)
qed

lemma data_clash: "k \<in> set keys \<Longrightarrow> among k props \<or> among k methods \<Longrightarrow> \<exists>c\<in>clash_messages k. c \<in> warned (foldl (data_one props methods) vm keys)"
proof -
  assume k: "k \<in> set keys" and a: "among k props \<or> among k methods"
  define c where "c = (if among k methods then ''Method '' @ quoted k @ '' has already been defined as a data property.''
    else ''The data property '' @ quoted k @ '' is already declared as a prop. Use prop default value instead.'')"
  have "c \<in> warned (data_one props methods vm k)" for vm
    using a by (auto simp: data_one_def Let_def c_def among_def proxy_def split: option.splits)
  then have "c \<in> warned (foldl (data_one props methods) vm keys)"
    using k by (intro fold_emits [where I = "\<lambda>_. True"] data_one_warned) auto
  then show ?thesis by (auto simp: c_def clash_messages_def split: if_splits)
qed

lemma computed_one_keeps: "m_data (computed_one names ssr props vm kd) = m_data vm"
  by (cases kd) (simp add: computed_one_def Let_def defineComputed_def vm_warn_def vm_define_def)

lemma computed_clash:
  assumes "(k, d) \<in> set cs" "vm_get k vm \<noteq> None" "k \<in> set (obj_keys (m_data vm)) \<or> among k props"
  shows "\<exists>c\<in>clash_messages k. c \<in> warned (foldl (computed_one names ssr props) vm cs)"
proof -
  define c where "c = (if k \<in> set (obj_keys (m_data vm)) \<or> k \<in> set names
    then ''The computed property '' @ quoted k @ '' is already defined in data.'' else ''The computed property '' @ quoted k @ '' is already defined as a prop.'')"
  define I where "I = (\<lambda>v. vm_get k v \<noteq> None \<and> m_data v = m_data vm)"
  have get1: "vm_get k v \<noteq> None \<Longrightarrow> vm_get k (computed_one names ssr props v y) \<noteq> None" for v y
    by (cases y) (auto simp: computed_one_def Let_def defineComputed_def)
  have "c \<in> warned (foldl (computed_one names ssr props) vm cs)"
  proof (rule fold_emits [where I = I and x = "(k, d)"])
    show "(k, d) \<in> set cs" "I vm" using assms by (simp_all add: I_def)
    show "I v \<Longrightarrow> I (computed_one names ssr props v y)" for v y using get1 by (auto simp: I_def computed_one_keeps)
    show "warned v \<subseteq> warned (computed_one names ssr props v y)" for v y by (rule computed_one_warned)
    fix v assume "I v"
    then show "c \<in> warned (computed_one names ssr props v (k, d))"
      using assms(3) by (auto simp: I_def c_def computed_one_def Let_def among_def split: option.splits)
  qed
  then show ?thesis by (auto simp: c_def clash_messages_def split: if_splits)
qed

lemma initData_warned: "warned vm \<subseteq> warned (initData d props methods vm)"
proof -
  obtain data ws where v: "data_value d = (data, ws)" by fastforce
  have "warned vm \<subseteq> warned (vm\<lparr>m_data := data, m_warns := m_warns vm @ ws\<rparr>)" by (simp add: warned_def)
  also have "\<dots> \<subseteq> warned (foldl (data_one props methods) (vm\<lparr>m_data := data, m_warns := m_warns vm @ ws\<rparr>) (rev (obj_keys data)))"
    by (rule fold_warned) (rule data_one_warned)
  finally show ?thesis by (simp add: initData_def v)
qed

lemma data_fold_keeps: "m_data (foldl (data_one props methods) vm keys) = m_data vm"
proof (induction keys arbitrary: vm)
  case (Cons key keys)
  have "m_data (data_one props methods vm key) = m_data vm"
    by (auto simp: data_one_def Let_def vm_define_def proxy_def)
  then show ?case using Cons.IH by simp
qed simp

lemma initComputed_warned: "warned vm \<subseteq> warned (initComputed names ssr props cs vm)"
  unfolding initComputed_def by (rule order_trans [OF _ fold_warned [OF computed_one_warned]]) simp

lemma initState_reports:
  fixes vm :: vm_state
  assumes "props = map_option obj_keys (co_props opts)" "methods = map_option obj_keys (co_methods opts)"
    "vm1 = (case co_props opts of Some ps \<Rightarrow> initProps E ps (co_propsData opts) vm | None \<Rightarrow> vm)"
    "vm2 = (case co_methods opts of Some ms \<Rightarrow> initMethods props ms vm1 | None \<Rightarrow> vm1)"
    "vm3 = (case co_data opts of Some d \<Rightarrow> initData d props methods vm2 | None \<Rightarrow> vm2\<lparr>m_data := []\<rparr>)"
    "vm4 = (case co_computed opts of Some cs \<Rightarrow> initComputed names ssr props cs vm3 | None \<Rightarrow> vm3)"
  shows "warned vm2 \<subseteq> warned (initState E names ssr opts vm)" "warned vm3 \<subseteq> warned (initState E names ssr opts vm)"
    "warned vm4 \<subseteq> warned (initState E names ssr opts vm)"
proof -
  have e: "initState E names ssr opts vm = (case co_watch opts of Some ws \<Rightarrow> initWatch ws vm4 | None \<Rightarrow> vm4)"
    unfolding initState_def Let_def assms by (rule refl)
  show 4: "warned vm4 \<subseteq> warned (initState E names ssr opts vm)" by (cases "co_watch opts") (simp_all add: e initWatch_warned)
  have "warned vm3 \<subseteq> warned vm4" by (cases "co_computed opts") (simp_all add: assms(6) initComputed_warned)
  then show 3: "warned vm3 \<subseteq> warned (initState E names ssr opts vm)" using 4 by blast
  have "warned vm2 \<subseteq> warned vm3" by (cases "co_data opts") (simp_all add: assms(5) initData_warned warned_def [of "vm2\<lparr>m_data := []\<rparr>"], simp add: warned_def)
  then show "warned vm2 \<subseteq> warned (initState E names ssr opts vm)" using 3 by blast
qed

definition declares_prop :: "comp_options \<Rightarrow> string \<Rightarrow> bool" where
  "declares_prop opts k \<longleftrightarrow> among k (map_option obj_keys (co_props opts))"

definition declares_method :: "comp_options \<Rightarrow> string \<Rightarrow> bool" where
  "declares_method opts k \<longleftrightarrow> among k (map_option obj_keys (co_methods opts))"

definition declares_data :: "comp_options \<Rightarrow> string \<Rightarrow> bool" where
  "declares_data opts k \<longleftrightarrow> k \<in> set (obj_keys (data_fields (co_data opts)))"

definition declares_computed :: "comp_options \<Rightarrow> string \<Rightarrow> bool" where
  "declares_computed opts k \<longleftrightarrow> among k (map_option obj_keys (co_computed opts))"

text \<open>
  C23. A name that is declared twice, among props, methods, data and computed properties, is reported with a
  warning that names it, but for one pair: a method and a computed property. (Names that begin with
  a dollar sign or an underscore are not proxied from the data, and do not clash with computed properties.)
\<close>

theorem clash_reported:
  assumes "wf_options opts"
    and "declares_prop opts k \<and> (declares_method opts k \<or> declares_data opts k \<or> declares_computed opts k) \<or>
      declares_data opts k \<and> (declares_method opts k \<or> declares_computed opts k \<and> \<not> isReserved k)"
  shows "\<exists>c\<in>clash_messages k. c \<in> set (m_warns (initState E names ssr opts vm))"
proof -
  define props methods where "props = map_option obj_keys (co_props opts)" and "methods = map_option obj_keys (co_methods opts)"
  define vm1 where "vm1 = (case co_props opts of Some ps \<Rightarrow> initProps E ps (co_propsData opts) vm | None \<Rightarrow> vm)"
  define vm2 where "vm2 = (case co_methods opts of Some ms \<Rightarrow> initMethods props ms vm1 | None \<Rightarrow> vm1)"
  define vm3 where "vm3 = (case co_data opts of Some d \<Rightarrow> initData d props methods vm2 | None \<Rightarrow> vm2\<lparr>m_data := []\<rparr>)"
  define vm4 where "vm4 = (case co_computed opts of Some cs \<Rightarrow> initComputed names ssr props cs vm3 | None \<Rightarrow> vm3)"
  note up = initState_reports [OF props_def methods_def vm1_def vm2_def vm3_def vm4_def]
  have prop_get: "declares_prop opts k \<Longrightarrow> vm_get k vm1 \<noteq> None"
    by (cases "co_props opts") (simp_all add: declares_prop_def among_def vm1_def initProps_def Let_def props_get)
  have m_get: "vm_get k vm1 \<noteq> None \<Longrightarrow> vm_get k vm2 \<noteq> None"
    using assms(1) by (cases "co_methods opts") (auto simp: vm2_def wf_options_def methods_get assigned_def split: option.splits acc.splits)
  have d_get: "vm_get k vm2 \<noteq> None \<or> declares_data opts k \<and> \<not> declares_prop opts k \<and> \<not> isReserved k \<Longrightarrow> vm_get k vm3 \<noteq> None"
    by (cases "co_data opts")
      (auto simp: vm3_def initData_def data_fold_get declares_data_def declares_prop_def data_fields_def props_def split: prod.splits)
  have data3: "m_data vm3 = data_fields (co_data opts)"
    by (cases "co_data opts") (auto simp: vm3_def data_fields_def initData_def data_fold_keeps split: prod.splits)
  have M: "\<exists>c\<in>clash_messages k. c \<in> warned vm2" if a: "declares_prop opts k" and b: "declares_method opts k"
  proof -
    obtain ms m where "co_methods opts = Some ms" "(k, m) \<in> set ms" using b by (auto simp: declares_method_def among_def split: option.splits)
    moreover have "among k props" using a by (simp add: declares_prop_def props_def)
    ultimately show ?thesis using method_clash [of k m ms props vm1] by (simp add: vm2_def)
  qed
  have D: "\<exists>c\<in>clash_messages k. c \<in> warned vm3" if a: "declares_data opts k" and b: "declares_prop opts k \<or> declares_method opts k"
  proof -
    obtain d where d: "co_data opts = Some d" using a by (cases "co_data opts") (simp_all add: declares_data_def data_fields_def)
    obtain data ws where v: "data_value d = (data, ws)" by fastforce
    have "k \<in> set (rev (obj_keys data))" using a by (simp add: declares_data_def data_fields_def d v)
    moreover have "among k props \<or> among k methods" using b by (simp add: declares_prop_def declares_method_def props_def methods_def)
    ultimately show ?thesis using data_clash [of k "rev (obj_keys data)" props methods] by (simp add: vm3_def d initData_def v)
  qed
  have C: "\<exists>c\<in>clash_messages k. c \<in> warned vm4" if c: "declares_computed opts k" and g: "vm_get k vm3 \<noteq> None" and p: "declares_data opts k \<or> declares_prop opts k"
  proof -
    obtain cs d where cs: "co_computed opts = Some cs" "(k, d) \<in> set cs" using c by (auto simp: declares_computed_def among_def split: option.splits)
    have "k \<in> set (obj_keys (m_data (vm3\<lparr>m_computed := []\<rparr>))) \<or> among k props"
      using p by (simp add: data3 declares_data_def declares_prop_def props_def)
    from computed_clash [OF cs(2) _ this] g show ?thesis by (simp add: vm4_def cs(1) initComputed_def)
  qed
  have "\<exists>c\<in>clash_messages k. c \<in> warned vm2 \<union> warned vm3 \<union> warned vm4"
    using assms(2) M D C prop_get m_get d_get by blast
  then show ?thesis using up by (auto simp: warned_def)
qed

section \<open>Examples\<close>

definition ex_vm :: vm_state where
  "ex_vm = \<lparr>m_own = [], m_proto = [], m_child = False, m_props = [], m_propKeys = [], m_data = [], m_computed = [], m_watches = [],
     m_setters = [], m_observing = True, m_warns = []\<rparr>"

definition ex_env :: prop_env where
  "ex_env = \<lparr>pe_call = (\<lambda>v. v), pe_inst = (\<lambda>_ _. True), pe_check = (\<lambda>_ _. True)\<rparr>"

definition ex_opts :: comp_options where
  "ex_opts = \<lparr>co_props = Some [(''item'', JObj 1 [])], co_propsData = [(''item'', JNum (Dec 3 0))], co_methods = Some [(''item'', Some 8), (''total'', Some 9)],
     co_data = Some (DataFun (Some (JObj 2 [(''item'', JNull), (''count'', JNull)]))), co_computed = Some [(''total'', CompFun 5)], co_watch = None\<rparr>"

lemma ex_wf: "wf_options ex_opts"
  by (simp add: wf_options_def ex_opts_def wf_obj_def)

lemma name_resolution_witness:
  "vm_get ''item'' (initState ex_env [] False ex_opts (initInjections (Some []) ex_vm)) = Some (Proxy ''_props'' ''item'')"
proof -
  have "vm_get ''item'' (initState ex_env [] False ex_opts (initInjections (Some []) ex_vm)) = meaning False False ex_opts [] ''item''"
    by (rule name_resolution [OF ex_wf, where base = "[]"]) (simp_all add: ex_vm_def wf_obj_def)
  moreover have "meaning False False ex_opts [] ''item'' = Some (Proxy ''_props'' ''item'')" by code_simp
  ultimately show ?thesis by simp
qed

lemma clash_reported_witness: "\<exists>c\<in>clash_messages ''item''. c \<in> set (m_warns (initState ex_env [] False ex_opts ex_vm))"
  by (rule clash_reported [OF ex_wf])
    (simp add: declares_prop_def declares_method_def among_def ex_opts_def)

text \<open>
  A computed property with the name of a method is dropped without a word on an instance that is not made by
  an extended constructor: the name means the method.
\<close>

lemma method_hides_computed:
  "let opts = ex_opts\<lparr>co_props := None, co_data := None, co_methods := Some [(''total'', Some 9)]\<rparr>;
       vm = initState ex_env [] False opts ex_vm
   in vm_get ''total'' vm = Some (Value (JFun 9 ''total'')) \<and> m_warns vm = []"
  by code_simp

end
