(* ===== verification/Mounting.thy ===== *)
theory Mounting
  imports JsPrelude
begin

text \<open>
  Mounting in \<open>frontend/js/vue.js\<close>: \<open>mountComponent\<close>, \<open>_update\<close>, \<open>createElm\<close> and \<open>createComponent\<close> with the
  hook \<open>init\<close>, and the queue of insert hooks that delays \<open>mounted\<close>. What the render functions give is the tree
  that is mounted. What happens is logged: hooks, insertions into the DOM. The lemmas show in which
  order the hooks of a tree of components run, and who becomes whose parent.
\<close>

section \<open>What is mounted\<close>

text \<open>
  An element (does it have data, an insert hook?), a text or comment, a component with what it renders, or a
  kept-alive component whose instance, element and kind of root are known.
\<close>

datatype mnode = El bool bool "mnode list" | Leaf | Cmp bool mnode | Kept nat nat bool

datatype mount_event =
    Hook string nat
  | CreateHooks nat
  | Prepatch nat
  | InsertAt nat nat
  | RemoveElm nat
  | ElemInserted nat
  | Activate nat

text \<open>A vnode in \<open>insertedVnodeQueue\<close>: an element, or a component and \<open>data.keepAlive\<close>\<close>

datatype queued = QElem nat | QComp nat bool

record mount_state =
  mt_log :: "mount_event list"
  mt_next :: nat
  mt_elms :: nat
  mt_active :: "nat option"
  mt_parent :: "nat \<Rightarrow> nat option"
  mt_mounted :: "nat \<Rightarrow> bool"

definition logged :: "mount_event list \<Rightarrow> mount_state \<Rightarrow> mount_state" where
  "logged es st = st\<lparr>mt_log := mt_log st @ es\<rparr>"

definition insert_at :: "nat option \<Rightarrow> nat \<Rightarrow> mount_state \<Rightarrow> mount_state" where
  "insert_at parentElm elm st = (case parentElm of Some p \<Rightarrow> logged [InsertAt elm p] st | None \<Rightarrow> st)"

definition new_elm :: "mount_state \<Rightarrow> nat \<times> mount_state" where
  "new_elm st = (mt_elms st, st\<lparr>mt_elms := Suc (mt_elms st)\<rparr>)"

fun isPatchable :: "mnode \<Rightarrow> bool" where
  "isPatchable (El _ _ _) = True"
| "isPatchable Leaf = False"
| "isPatchable (Cmp _ t) = isPatchable t"
| "isPatchable (Kept _ _ patchable) = patchable"

text \<open>\<open>_init\<close>: the new instance's parent is the active instance.\<close>

definition new_instance :: "mount_state \<Rightarrow> nat \<times> mount_state" where
  "new_instance st =
     (let u = mt_next st in
      (u, logged [Hook ''beforeCreate'' u, Hook ''created'' u]
            (st\<lparr>mt_next := Suc u, mt_parent := (mt_parent st)(u := mt_active st), mt_mounted := (mt_mounted st)(u := False)\<rparr>)))"

text \<open>
  \<open>initComponent\<close>: the insert hooks that wait in the component's subtree join the queue, then the
  component's own.
\<close>

definition initComponent :: "nat \<Rightarrow> bool \<Rightarrow> bool \<Rightarrow> nat \<Rightarrow> queued list \<Rightarrow> queued list \<times> mount_state \<Rightarrow> queued list \<times> mount_state" where
  "initComponent u keepAlive patchable elm pendingInsert = (\<lambda>(queue, st).
     (queue @ pendingInsert @ [QComp u keepAlive], if patchable then logged [CreateHooks elm] st else st))"

section \<open>The insert hooks\<close>

definition insertHook :: "queued \<Rightarrow> mount_state \<Rightarrow> mount_state" where
  "insertHook q st =
     (case q of
        QElem elm \<Rightarrow> logged [ElemInserted elm] st
      | QComp u keepAlive \<Rightarrow>
          let st1 = (if mt_mounted st u then st else logged [Hook ''mounted'' u] (st\<lparr>mt_mounted := (mt_mounted st)(u := True)\<rparr>))
          in if keepAlive then logged [Activate u] st1 else st1)"

text \<open>\<open>initial\<close>: the first patch of a component that has a placeholder; its queue waits there.\<close>

definition invokeInsertHook :: "bool \<Rightarrow> queued list \<Rightarrow> mount_state \<Rightarrow> queued list \<times> mount_state" where
  "invokeInsertHook initial_child queue st = (if initial_child then (queue, st) else ([], foldl (\<lambda>st q. insertHook q st) st queue))"

section \<open>Creating nodes\<close>

text \<open>
  \<open>createElm\<close> gives the vnode's element. In the case of a component: \<open>init\<close> creates and mounts the instance, with
  a queue of its own that is left as \<open>pendingInsert\<close>; \<open>_update\<close> makes the instance the active one meanwhile.
\<close>

fun createElm :: "mnode \<Rightarrow> nat option \<Rightarrow> queued list \<times> mount_state \<Rightarrow> nat \<times> queued list \<times> mount_state"
  and createChildren :: "mnode list \<Rightarrow> nat \<Rightarrow> queued list \<times> mount_state \<Rightarrow> queued list \<times> mount_state" where
  "createElm Leaf parentElm (queue, st) =
     (let (elm, st1) = new_elm st in (elm, queue, insert_at parentElm elm st1))"
| "createElm (El has_data has_insert children) parentElm (queue, st) =
     (let (elm, st1) = new_elm st;
          (queue1, st2) = createChildren children elm (queue, st1);
          st3 = (if has_data then logged [CreateHooks elm] st2 else st2);
          queue2 = (if has_data \<and> has_insert then queue1 @ [QElem elm] else queue1)
      in (elm, queue2, insert_at parentElm elm st3))"
| "createElm (Cmp keepAlive rendered) parentElm (queue, st) =
     (let (u, st1) = new_instance st;
          st2 = logged [Hook ''beforeMount'' u] st1;
          (elm, own, st3) = createElm rendered parentElm ([], st2\<lparr>mt_active := Some u\<rparr>);
          (pendingInsert, st4) = invokeInsertHook True own st3;
          (queue1, st5) = initComponent u keepAlive (isPatchable rendered) elm pendingInsert (queue, st4\<lparr>mt_active := mt_active st2\<rparr>)
      in (elm, queue1, st5))"
| "createElm (Kept u elm patchable) parentElm (queue, st) =
     (let (queue1, st1) = initComponent u True patchable elm [] (queue, logged [Prepatch u] st)
      in (elm, queue1, insert_at parentElm elm st1))"
| "createChildren [] elm qs = qs"
| "createChildren (c # cs) elm qs = (let (_, queue, st) = createElm c (Some elm) qs in createChildren cs elm (queue, st))"

section \<open>Mounting\<close>

text \<open>
  Mounting an instance by hand on an element of the page (\<open>None\<close>: on nothing): the new element goes where the
  old one was, which is removed before the insert hooks run.
\<close>

definition mountComponent :: "nat \<Rightarrow> mnode \<Rightarrow> (nat \<times> nat) option \<Rightarrow> mount_state \<Rightarrow> mount_state" where
  "mountComponent u rendered at st =
     (let st1 = logged [Hook ''beforeMount'' u] st;
          (elm, queue, st2) = createElm rendered (map_option snd at) ([], st1\<lparr>mt_active := Some u\<rparr>);
          st3 = (case at of Some (old, _) \<Rightarrow> logged [RemoveElm old] st2 | None \<Rightarrow> st2);
          (_, st4) = invokeInsertHook False queue st3
      in logged [Hook ''mounted'' u] (st4\<lparr>mt_active := mt_active st1, mt_mounted := (mt_mounted st4)(u := True)\<rparr>))"

definition mountNew :: "mnode \<Rightarrow> (nat \<times> nat) option \<Rightarrow> mount_state \<Rightarrow> mount_state" where
  "mountNew rendered at st = (let (u, st1) = new_instance st in mountComponent u rendered at st1)"

section \<open>The order of hooks\<close>

text \<open>Instances are numbered as they are created. \<open>below\<close> lists those of a tree, children before their component.\<close>

fun instances :: "mnode \<Rightarrow> nat" where
  "instances (El _ _ cs) = sum_list (map instances cs)"
| "instances (Cmp _ t) = Suc (instances t)"
| "instances _ = 0"

fun below :: "nat \<Rightarrow> mnode \<Rightarrow> nat list" and belows :: "nat \<Rightarrow> mnode list \<Rightarrow> nat list" where
  "below n (El _ _ cs) = belows n cs"
| "below n (Cmp _ t) = below (Suc n) t @ [n]"
| "below n _ = []"
| "belows n [] = []"
| "belows n (c # cs) = below n c @ belows (n + instances c) cs"

text \<open>Every instance with its parent: the component in whose rendered tree it stands.\<close>

fun owners :: "nat \<Rightarrow> nat option \<Rightarrow> mnode \<Rightarrow> (nat \<times> nat option) list"
  and ownerss :: "nat \<Rightarrow> nat option \<Rightarrow> mnode list \<Rightarrow> (nat \<times> nat option) list" where
  "owners n p (El _ _ cs) = ownerss n p cs"
| "owners n p (Cmp _ t) = (n, p) # owners (Suc n) (Some n) t"
| "owners n p _ = []"
| "ownerss n p [] = []"
| "ownerss n p (c # cs) = owners n p c @ ownerss (n + instances c) p cs"

fun kepts :: "mnode \<Rightarrow> nat set" where
  "kepts (El _ _ cs) = (\<Union>c\<in>set cs. kepts c)"
| "kepts (Cmp _ t) = kepts t"
| "kepts (Kept u _ _) = {u}"
| "kepts Leaf = {}"

definition hooks_of :: "string \<Rightarrow> mount_event list \<Rightarrow> nat list" where
  "hooks_of h es = concat (map (\<lambda>e. case e of Hook h' u \<Rightarrow> if h' = h then [u] else [] | _ \<Rightarrow> []) es)"

definition comps :: "queued list \<Rightarrow> nat list" where
  "comps qs = concat (map (\<lambda>q. case q of QComp u _ \<Rightarrow> [u] | QElem _ \<Rightarrow> []) qs)"

definition building :: "mount_event \<Rightarrow> bool" where
  "building e \<longleftrightarrow> (case e of Hook h _ \<Rightarrow> h \<noteq> ''mounted'' | ElemInserted _ \<Rightarrow> False | Activate _ \<Rightarrow> False | RemoveElm _ \<Rightarrow> False | _ \<Rightarrow> True)"

definition changes_dom :: "mount_event \<Rightarrow> bool" where
  "changes_dom e \<longleftrightarrow> (case e of InsertAt _ _ \<Rightarrow> True | RemoveElm _ \<Rightarrow> True | _ \<Rightarrow> False)"

lemma hooks_simps [simp]: "hooks_of h [] = []" "hooks_of h (es @ fs) = hooks_of h es @ hooks_of h fs"
  "hooks_of h (e # es) = (case e of Hook h' u \<Rightarrow> if h' = h then [u] else [] | _ \<Rightarrow> []) @ hooks_of h es"
  by (simp_all add: hooks_of_def)

lemma comps_simps [simp]: "comps [] = []" "comps (qs @ rs) = comps qs @ comps rs"
  "comps (q # qs) = (case q of QComp u _ \<Rightarrow> [u] | QElem _ \<Rightarrow> []) @ comps qs"
  by (simp_all add: comps_def)

text \<open>
  What creating nodes leaves behind: \<open>k\<close> new instances, of which \<open>ups\<close> wait for their insert hook in this order,
  with the parents \<open>ows\<close>; \<open>P\<close> picks them out of the queue.
\<close>

definition built :: "(nat \<Rightarrow> bool) \<Rightarrow> nat \<Rightarrow> nat list \<Rightarrow> (nat \<times> nat option) list \<Rightarrow> queued list \<times> mount_state \<Rightarrow> queued list \<times> mount_state \<Rightarrow> bool" where
  "built P k ups ows qs qs' \<longleftrightarrow>
     (\<exists>es rest. mt_log (snd qs') = mt_log (snd qs) @ es \<and> fst qs' = fst qs @ rest \<and> list_all building es \<and>
        hooks_of ''beforeMount'' es = [mt_next (snd qs)..<mt_next (snd qs) + k] \<and>
        filter P (comps rest) = ups) \<and>
     mt_next (snd qs') = mt_next (snd qs) + k \<and> mt_active (snd qs') = mt_active (snd qs) \<and>
     (\<forall>u. mt_parent (snd qs') u = (case map_of ows u of Some p \<Rightarrow> p | None \<Rightarrow> mt_parent (snd qs) u)) \<and>
     (\<forall>u. mt_mounted (snd qs') u = (if mt_next (snd qs) \<le> u \<and> u < mt_next (snd qs) + k then False else mt_mounted (snd qs) u))"

lemma owners_dom: "fst ` set (owners n p t) = {n..<n + instances t}" "fst ` set (ownerss n p ts) = {n..<n + sum_list (map instances ts)}"
proof (induction n p t and n p ts rule: owners_ownerss.induct)
  case (5 n p c cs)
  then show ?case unfolding ownerss.simps set_append image_Un by auto
qed auto

lemma belows_set: "set (below n t) = {n..<n + instances t} \<and> distinct (below n t)"
  "set (belows n ts) = {n..<n + sum_list (map instances ts)} \<and> distinct (belows n ts)"
  by (induction n t and n ts rule: below_belows.induct) auto

lemma built_refl: "built P 0 [] [] qs qs"
  by (auto simp: built_def)

lemma built_trans:
  assumes "built P k1 u1 o1 a b" "built P k2 u2 o2 b c" "fst ` set o1 \<inter> fst ` set o2 = {}"
  shows "built P (k1 + k2) (u1 @ u2) (o1 @ o2) a c"
proof -
  obtain es1 r1 where 1: "mt_log (snd b) = mt_log (snd a) @ es1" "fst b = fst a @ r1" "list_all building es1"
    "hooks_of ''beforeMount'' es1 = [mt_next (snd a)..<mt_next (snd a) + k1]" "filter P (comps r1) = u1"
    using assms(1) by (auto simp: built_def)
  obtain es2 r2 where 2: "mt_log (snd c) = mt_log (snd b) @ es2" "fst c = fst b @ r2" "list_all building es2"
    "hooks_of ''beforeMount'' es2 = [mt_next (snd b)..<mt_next (snd b) + k2]" "filter P (comps r2) = u2"
    using assms(2) by (auto simp: built_def)
  have n: "mt_next (snd b) = mt_next (snd a) + k1" "mt_next (snd c) = mt_next (snd b) + k2"
    "mt_active (snd c) = mt_active (snd a)" using assms(1,2) by (simp_all add: built_def)
  have "hooks_of ''beforeMount'' (es1 @ es2) = [mt_next (snd a)..<mt_next (snd a) + (k1 + k2)]"
    using 1(4) 2(4) n(1) upt_add_eq_append [of "mt_next (snd a)" "mt_next (snd a) + k1" k2] by (simp add: add.assoc)
  then have ex: "\<exists>es rest. mt_log (snd c) = mt_log (snd a) @ es \<and> fst c = fst a @ rest \<and> list_all building es \<and>
        hooks_of ''beforeMount'' es = [mt_next (snd a)..<mt_next (snd a) + (k1 + k2)] \<and> filter P (comps rest) = u1 @ u2"
    using 1 2 by (intro exI [of _ "es1 @ es2"] exI [of _ "r1 @ r2"]) simp
  have parent: "mt_parent (snd c) u = (case map_of (o1 @ o2) u of Some p \<Rightarrow> p | None \<Rightarrow> mt_parent (snd a) u)" for u
  proof -
    have "map_of o1 u \<noteq> None \<Longrightarrow> map_of o2 u = None" using assms(3) by (auto simp: map_of_eq_None_iff)
    moreover have "mt_parent (snd c) u = (case map_of o2 u of Some p \<Rightarrow> p | None \<Rightarrow> mt_parent (snd b) u)"
      "mt_parent (snd b) u = (case map_of o1 u of Some p \<Rightarrow> p | None \<Rightarrow> mt_parent (snd a) u)"
      using assms(1,2) by (simp_all add: built_def)
    ultimately show ?thesis by (auto simp: map_add_def split: option.splits)
  qed
  have "\<forall>u. mt_mounted (snd c) u = (if mt_next (snd a) \<le> u \<and> u < mt_next (snd a) + (k1 + k2) then False else mt_mounted (snd a) u)"
    using assms(1,2) n(1) by (auto simp: built_def)
  then show ?thesis using ex n parent unfolding built_def by simp
qed

text \<open>Events that build the tree, without hooks of instances\<close>

lemma built_log:
  assumes "list_all building es" "hooks_of ''beforeMount'' es = []" "filter P (comps rest) = ups"
    "mt_log st' = mt_log st @ es" "mt_next st' = mt_next st" "mt_active st' = mt_active st" "mt_parent st' = mt_parent st" "mt_mounted st' = mt_mounted st"
  shows "built P 0 ups [] (q, st) (q @ rest, st')"
  using assms unfolding built_def by (intro conjI exI [of _ es] exI [of _ rest]) auto

lemma insert_log: "\<exists>es. insert_at p e st = logged es st \<and> list_all building es \<and> hooks_of ''beforeMount'' es = []"
proof (cases p)
  case None
  then show ?thesis by (intro exI [of _ "[]"]) (simp add: insert_at_def logged_def)
next
  case (Some x)
  then show ?thesis by (intro exI [of _ "[InsertAt e x]"]) (simp add: insert_at_def building_def)
qed

lemma logged_simps [simp]: "mt_log (logged es st) = mt_log st @ es" "mt_next (logged es st) = mt_next st" "mt_active (logged es st) = mt_active st"
  "mt_parent (logged es st) = mt_parent st" "mt_mounted (logged es st) = mt_mounted st" "mt_elms (logged es st) = mt_elms st"
  by (simp_all add: logged_def)

lemma built_insert: "built P 0 [] [] (q, st) (q, insert_at p e st)"
proof -
  obtain es where "insert_at p e st = logged es st" "list_all building es" "hooks_of ''beforeMount'' es = []"
    using insert_log by blast
  then show ?thesis using built_log [of es P "[]" "[]" "insert_at p e st" st q] by simp
qed

lemma created:
  "\<forall>u\<in>kepts t. \<not> P u \<Longrightarrow> \<forall>u\<ge>mt_next (snd qs). P u \<Longrightarrow>
     built P (instances t) (below (mt_next (snd qs)) t) (owners (mt_next (snd qs)) (mt_active (snd qs)) t) qs (snd (createElm t p qs))"
  "\<forall>c\<in>set cs. \<forall>u\<in>kepts c. \<not> P u \<Longrightarrow> \<forall>u\<ge>mt_next (snd qs). P u \<Longrightarrow>
     built P (sum_list (map instances cs)) (belows (mt_next (snd qs)) cs) (ownerss (mt_next (snd qs)) (mt_active (snd qs)) cs) qs (createChildren cs elm qs)"
proof (induction t p qs and cs elm qs rule: createElm_createChildren.induct)
  case (1 parentElm queue st)
  have "built P 0 [] [] (queue, st) (queue, st\<lparr>mt_elms := Suc (mt_elms st)\<rparr>)" by (auto simp: built_def)
  from built_trans [OF this built_insert] show ?case by (simp add: new_elm_def)
next
  case (2 has_data has_insert children parentElm queue st)
  let ?st1 = "st\<lparr>mt_elms := Suc (mt_elms st)\<rparr>" and ?e = "mt_elms st"
  obtain queue1 st2 where c: "createChildren children ?e (queue, ?st1) = (queue1, st2)" by fastforce
  define st3 where "st3 = (if has_data then logged [CreateHooks ?e] st2 else st2)"
  define queue2 where "queue2 = (if has_data \<and> has_insert then queue1 @ [QElem ?e] else queue1)"
  have k: "built P (sum_list (map instances children)) (belows (mt_next st) children) (ownerss (mt_next st) (mt_active st) children) (queue, ?st1) (queue1, st2)"
    using "2.IH" [OF refl, of ?e ?st1] "2.prems" c by (simp add: new_elm_def)
  have start: "built P 0 [] [] (queue, st) (queue, ?st1)" by (auto simp: built_def)
  have fin: "built P 0 [] [] (queue1, st2) (queue2, st3)"
    by (auto simp: built_def st3_def queue2_def building_def)
  have ins: "built P 0 [] [] (queue2, st3) (queue2, insert_at parentElm ?e st3)" by (rule built_insert)
  have "built P (sum_list (map instances children)) (belows (mt_next st) children) (ownerss (mt_next st) (mt_active st) children)
      (queue, st) (queue2, insert_at parentElm ?e st3)"
    using built_trans [OF built_trans [OF built_trans [OF start k] fin] ins] by simp
  then show ?case by (simp add: new_elm_def c st3_def queue2_def)
next
  case (3 keepAlive rendered parentElm queue st)
  let ?u = "mt_next st"
  obtain st1 where n: "new_instance st = (?u, st1)" unfolding new_instance_def Let_def by blast
  define st2 where "st2 = (logged [Hook ''beforeMount'' ?u] st1)\<lparr>mt_active := Some ?u\<rparr>"
  obtain elm own st3 where c: "createElm rendered parentElm ([], st2) = (elm, own, st3)" by (metis prod_cases3)
  have st2: "mt_next st2 = Suc ?u" "mt_active st2 = Some ?u" "mt_parent st2 = (mt_parent st)(?u := mt_active st)"
    "mt_mounted st2 = (mt_mounted st)(?u := False)" "mt_log st2 = mt_log st @ [Hook ''beforeCreate'' ?u, Hook ''created'' ?u, Hook ''beforeMount'' ?u]"
    using n by (auto simp: st2_def new_instance_def Let_def)
  have act: "mt_active st1 = mt_active st" using n by (auto simp: new_instance_def Let_def)
  have ih: "built P (instances rendered) (below (Suc ?u) rendered) (owners (Suc ?u) (Some ?u) rendered) ([], st2) (own, st3)"
    using "3.IH" [OF n [symmetric] refl refl] "3.prems" c by (simp add: st2_def [symmetric] st2)
  obtain es where es: "mt_log st3 = mt_log st2 @ es" "list_all building es" "hooks_of ''beforeMount'' es = [Suc ?u..<Suc ?u + instances rendered]"
    "filter P (comps own) = below (Suc ?u) rendered"
    using ih by (auto simp: built_def st2)
  have rest: "mt_next st3 = Suc ?u + instances rendered"
    "\<And>u. mt_parent st3 u = (case map_of (owners (Suc ?u) (Some ?u) rendered) u of Some p \<Rightarrow> p | None \<Rightarrow> mt_parent st2 u)"
    "\<And>u. mt_mounted st3 u = (if Suc ?u \<le> u \<and> u < Suc ?u + instances rendered then False else mt_mounted st2 u)"
    using ih unfolding built_def snd_conv st2(1) by blast+
  have notin: "map_of (owners (Suc ?u) (Some ?u) rendered) ?u = None"
    using owners_dom(1) [of "Suc ?u" "Some ?u" rendered] by (simp add: map_of_eq_None_iff)
  let ?st5 = "if isPatchable rendered then logged [CreateHooks elm] (st3\<lparr>mt_active := mt_active st\<rparr>) else st3\<lparr>mt_active := mt_active st\<rparr>"
  have result: "snd (createElm (Cmp keepAlive rendered) parentElm (queue, st)) = (queue @ own @ [QComp ?u keepAlive], ?st5)"
    by (simp add: n c st2_def [symmetric] invokeInsertHook_def initComponent_def act)
  have "mt_log ?st5 = mt_log st @ ([Hook ''beforeCreate'' ?u, Hook ''created'' ?u, Hook ''beforeMount'' ?u] @ es @ (if isPatchable rendered then [CreateHooks elm] else []))"
    by (simp add: es(1) st2)
  moreover have "?u # [Suc ?u..<Suc ?u + instances rendered] = [?u..<?u + instances (Cmp keepAlive rendered)]"
    by (simp add: upt_rec [of ?u])
  moreover have "filter P (comps (own @ [QComp ?u keepAlive])) = below ?u (Cmp keepAlive rendered)"
    using "3.prems"(2) by (simp add: es(4))
  ultimately have ex: "\<exists>es rest. mt_log ?st5 = mt_log st @ es \<and> queue @ own @ [QComp ?u keepAlive] = queue @ rest \<and> list_all building es \<and>
      hooks_of ''beforeMount'' es = [?u..<?u + instances (Cmp keepAlive rendered)] \<and> filter P (comps rest) = below ?u (Cmp keepAlive rendered)"
    using es(2,3)
    by (intro exI [of _ "[Hook ''beforeCreate'' ?u, Hook ''created'' ?u, Hook ''beforeMount'' ?u] @ es @ (if isPatchable rendered then [CreateHooks elm] else [])"]
        exI [of _ "own @ [QComp ?u keepAlive]"]) (auto simp: building_def)
  have parent: "mt_parent st3 v = (case map_of (owners ?u (mt_active st) (Cmp keepAlive rendered)) v of Some p \<Rightarrow> p | None \<Rightarrow> mt_parent st v)" for v
    using notin by (cases "v = ?u"; cases "map_of (owners (Suc ?u) (Some ?u) rendered) v") (simp_all add: rest(2) st2(3))
  have mounted: "mt_mounted st3 v = (if ?u \<le> v \<and> v < ?u + instances (Cmp keepAlive rendered) then False else mt_mounted st v)" for v
    by (auto simp: rest(3) st2(4))
  have "mt_next ?st5 = ?u + instances (Cmp keepAlive rendered)" "mt_active ?st5 = mt_active st" "mt_parent ?st5 = mt_parent st3" "mt_mounted ?st5 = mt_mounted st3"
    by (simp_all add: rest(1))
  then show ?case unfolding result built_def snd_conv fst_conv
    using ex parent mounted by presburger
next
  case (4 u elm patchable parentElm queue st)
  let ?st1 = "if patchable then logged [CreateHooks elm] (logged [Prepatch u] st) else logged [Prepatch u] st"
  have "built P 0 [] [] (queue, st) (queue @ [QComp u True], ?st1)"
    using "4.prems" by (intro built_log [of "Prepatch u # (if patchable then [CreateHooks elm] else [])"]) (auto simp: building_def)
  from built_trans [OF this built_insert [of P _ ?st1 parentElm elm]] show ?case
    by (simp add: initComponent_def)
next
  case (5 elm qs)
  show ?case by (simp add: built_refl)
next
  case (6 c cs elm qs)
  obtain e queue st where c: "createElm c (Some elm) qs = (e, queue, st)" by (metis prod_cases3)
  have 1: "built P (instances c) (below (mt_next (snd qs)) c) (owners (mt_next (snd qs)) (mt_active (snd qs)) c) qs (queue, st)"
    using "6.IH"(1) "6.prems" c by simp
  then have n: "mt_next st = mt_next (snd qs) + instances c" "mt_active st = mt_active (snd qs)" by (simp_all add: built_def)
  have 2: "built P (sum_list (map instances cs)) (belows (mt_next st) cs) (ownerss (mt_next st) (mt_active st) cs) (queue, st) (createChildren cs elm (queue, st))"
    using "6.IH"(2) [OF c [symmetric] refl] "6.prems" n by simp
  have "fst ` set (owners (mt_next (snd qs)) (mt_active (snd qs)) c) \<inter> fst ` set (ownerss (mt_next st) (mt_active st) cs) = {}"
    by (auto simp: owners_dom n)
  from built_trans [OF 1 2 this] show ?case by (simp add: c n)
qed

lemma insert_hooks:
  assumes "distinct (filter (\<lambda>u. \<not> mt_mounted st u) (comps queue))"
  shows "\<exists>es. mt_log (foldl (\<lambda>st q. insertHook q st) st queue) = mt_log st @ es \<and> list_all (\<lambda>e. \<not> changes_dom e) es \<and>
    hooks_of ''mounted'' es = filter (\<lambda>u. \<not> mt_mounted st u) (comps queue) \<and>
    mt_active (foldl (\<lambda>st q. insertHook q st) st queue) = mt_active st \<and>
    mt_parent (foldl (\<lambda>st q. insertHook q st) st queue) = mt_parent st \<and>
    (\<forall>u. mt_mounted (foldl (\<lambda>st q. insertHook q st) st queue) u \<longleftrightarrow> mt_mounted st u \<or> u \<in> set (comps queue))"
  using assms
proof (induction queue arbitrary: st)
  case (Cons q queue)
  show ?case
  proof (cases q)
    case (QElem e)
    have s: "insertHook (QElem e) st = logged [ElemInserted e] st" by (simp add: insertHook_def)
    have "distinct (filter (\<lambda>u. \<not> mt_mounted (insertHook q st) u) (comps queue))" using Cons.prems by (simp add: QElem s)
    from Cons.IH [OF this] obtain es where "mt_log (foldl (\<lambda>st q. insertHook q st) (insertHook q st) queue) = mt_log (insertHook q st) @ es"
      "list_all (\<lambda>e. \<not> changes_dom e) es" "hooks_of ''mounted'' es = filter (\<lambda>u. \<not> mt_mounted st u) (comps queue)"
      by (auto simp: s QElem)
    then show ?thesis using Cons.IH [OF \<open>distinct (filter (\<lambda>u. \<not> mt_mounted (insertHook q st) u) (comps queue))\<close>]
      by (intro exI [of _ "ElemInserted e # es"]) (simp add: s QElem changes_dom_def)
  next
    case (QComp u ka)
    define es0 where "es0 = (if mt_mounted st u then [] else [Hook ''mounted'' u]) @ (if ka then [Activate u] else [])"
    define new where "new = insertHook q st"
    have s: "mt_log new = mt_log st @ es0" "mt_active new = mt_active st" "mt_parent new = mt_parent st"
      "\<And>v. mt_mounted new v \<longleftrightarrow> mt_mounted st v \<or> v = u"
      by (auto simp: new_def insertHook_def QComp Let_def es0_def)
    have f: "filter (\<lambda>v. \<not> mt_mounted new v) (comps queue) = filter (\<lambda>v. v \<noteq> u) (filter (\<lambda>v. \<not> mt_mounted st v) (comps queue))"
      by (auto simp: s intro: filter_cong)
    have d: "distinct (filter (\<lambda>v. \<not> mt_mounted new v) (comps queue))"
    proof -
      have "distinct (filter (\<lambda>v. \<not> mt_mounted st v) (comps queue))" using Cons.prems by (simp add: QComp split: if_splits)
      then show ?thesis unfolding f by (rule distinct_filter)
    qed
    have e: "filter (\<lambda>v. \<not> mt_mounted st v) (comps (q # queue)) = hooks_of ''mounted'' es0 @ filter (\<lambda>v. \<not> mt_mounted new v) (comps queue)"
    proof (cases "mt_mounted st u")
      case True
      then have "filter (\<lambda>v. v \<noteq> u) (filter (\<lambda>v. \<not> mt_mounted st v) (comps queue)) = filter (\<lambda>v. \<not> mt_mounted st v) (comps queue)"
        by (intro filter_True) (auto simp: True)
      then show ?thesis unfolding f by (simp add: QComp es0_def True)
    next
      case False
      then have "u \<notin> set (filter (\<lambda>v. \<not> mt_mounted st v) (comps queue))" using Cons.prems by (simp add: QComp)
      then have "filter (\<lambda>v. v \<noteq> u) (filter (\<lambda>v. \<not> mt_mounted st v) (comps queue)) = filter (\<lambda>v. \<not> mt_mounted st v) (comps queue)"
        by (intro filter_True) blast
      then show ?thesis unfolding f by (simp add: QComp es0_def False)
    qed
    from Cons.IH [OF d] obtain es where "mt_log (foldl (\<lambda>st q. insertHook q st) new queue) = mt_log new @ es"
      "list_all (\<lambda>e. \<not> changes_dom e) es" "hooks_of ''mounted'' es = filter (\<lambda>v. \<not> mt_mounted new v) (comps queue)"
      by auto
    moreover have "foldl (\<lambda>st q. insertHook q st) st (q # queue) = foldl (\<lambda>st q. insertHook q st) new queue"
      by (simp add: new_def)
    moreover have "list_all (\<lambda>e. \<not> changes_dom e) es0" "set (comps (q # queue)) = insert u (set (comps queue))"
      by (simp_all add: es0_def changes_dom_def QComp)
    ultimately show ?thesis using Cons.IH [OF d] e
      by (intro exI [of _ "es0 @ es"]) (simp only: s list_all_append hooks_simps append_assoc, blast)
  qed
qed simp

text \<open>
  C10. Mounting a tree of components. First the tree is built: every instance is created after its parent (with
  the component as its parent in whose rendered tree it stands) and gets \<open>beforeMount\<close> in this order, and the
  DOM is complete before the first \<open>mounted\<close>; then \<open>mounted\<close> is called once on every new instance, on
  all inside a component before the component, and on the root last. Components kept alive are not mounted again.
\<close>

theorem mount_order:
  assumes "\<forall>u\<in>kepts t. u < mt_next st \<and> mt_mounted st u" "n = mt_next st"
  shows "\<exists>before after. mt_log (mountNew t at st) = mt_log st @ before @ after \<and>
    hooks_of ''mounted'' before = [] \<and> list_all (\<lambda>e. \<not> changes_dom e) after \<and>
    hooks_of ''beforeMount'' before = [n..<Suc n + instances t] \<and> hooks_of ''mounted'' after = below (Suc n) t @ [n] \<and>
    mt_active (mountNew t at st) = mt_active st \<and>
    (\<forall>(u, p)\<in>set ((n, mt_active st) # owners (Suc n) (Some n) t). mt_parent (mountNew t at st) u = p)"
proof -
  define st1 where "st1 = (logged [Hook ''beforeCreate'' n, Hook ''created'' n, Hook ''beforeMount'' n]
      (st\<lparr>mt_next := Suc n, mt_parent := (mt_parent st)(n := mt_active st), mt_mounted := (mt_mounted st)(n := False)\<rparr>))\<lparr>mt_active := Some n\<rparr>"
  obtain elm queue st2 where c: "createElm t (map_option snd at) ([], st1) = (elm, queue, st2)" by (metis prod_cases3)
  define st3 where "st3 = (case at of Some (old, _) \<Rightarrow> logged [RemoveElm old] st2 | None \<Rightarrow> st2)"
  define st4 where "st4 = foldl (\<lambda>st q. insertHook q st) st3 queue"
  define P where "P = (\<lambda>u. \<not> mt_mounted st2 u)"
  have s1: "mt_next st1 = Suc n" "mt_active st1 = Some n" by (simp_all add: st1_def)
  have "mountNew t at st = logged [Hook ''mounted'' n] (st4\<lparr>mt_active := mt_active st, mt_mounted := (mt_mounted st4)(n := True)\<rparr>)"
  proof -
    have "logged [Hook ''beforeMount'' n] (logged [Hook ''beforeCreate'' n, Hook ''created'' n]
        (st\<lparr>mt_next := Suc n, mt_parent := (mt_parent st)(n := mt_active st), mt_mounted := (mt_mounted st)(n := False)\<rparr>))\<lparr>mt_active := Some n\<rparr> = st1"
      by (simp add: st1_def logged_def)
    then show ?thesis
      using c by (simp add: mountNew_def new_instance_def assms(2) [symmetric] mountComponent_def Let_def invokeInsertHook_def st3_def [symmetric] st4_def [symmetric] split del: if_split)
  qed
  note mounted = this
  have b: "built (\<lambda>u. \<not> (u < n \<and> mt_mounted st u)) (instances t) (below (Suc n) t) (owners (Suc n) (Some n) t) ([], st1) (queue, st2)"
    using created(1) [of t "\<lambda>u. \<not> (u < n \<and> mt_mounted st u)" "([], st1)" "map_option snd at"] assms by (simp add: c s1)
  then obtain es where es: "mt_log st2 = mt_log st1 @ es" "list_all building es" "hooks_of ''beforeMount'' es = [Suc n..<Suc n + instances t]"
    "filter (\<lambda>u. \<not> (u < n \<and> mt_mounted st u)) (comps queue) = below (Suc n) t"
    by (auto simp: built_def s1)
  have par: "mt_parent st2 u = (case map_of (owners (Suc n) (Some n) t) u of Some p \<Rightarrow> p | None \<Rightarrow> mt_parent st1 u)"
    and mtd: "mt_mounted st2 u = (if Suc n \<le> u \<and> u < Suc n + instances t then False else mt_mounted st1 u)" for u
    using b unfolding built_def snd_conv s1 by blast+
  have st3: "mt_mounted st3 = mt_mounted st2" "mt_parent st3 = mt_parent st2"
    "mt_log st3 = mt_log st2 @ (case at of Some (old, _) \<Rightarrow> [RemoveElm old] | None \<Rightarrow> [])"
    by (simp_all add: st3_def split: option.splits prod.splits)
  have new: "u \<in> set (comps queue) \<Longrightarrow> mt_mounted st3 u \<longleftrightarrow> u < n \<and> mt_mounted st u" for u
  proof -
    assume "u \<in> set (comps queue)"
    then have "u < n \<and> mt_mounted st u \<or> u \<in> set (below (Suc n) t)" unfolding es(4) [symmetric] by auto
    then show ?thesis using belows_set(1) [of "Suc n" t] by (auto simp: st3 mtd) (auto simp: st1_def)
  qed
  then have f: "filter (\<lambda>u. \<not> mt_mounted st3 u) (comps queue) = below (Suc n) t"
    unfolding es(4) [symmetric] by (auto intro: filter_cong)
  have d: "distinct (filter (\<lambda>u. \<not> mt_mounted st3 u) (comps queue))" unfolding f using belows_set(1) by blast
  obtain es' where es': "mt_log st4 = mt_log st3 @ es'" "list_all (\<lambda>e. \<not> changes_dom e) es'" "hooks_of ''mounted'' es' = below (Suc n) t"
    "mt_parent st4 = mt_parent st3"
    using insert_hooks [OF d] by (auto simp: f st4_def)
  let ?before = "[Hook ''beforeCreate'' n, Hook ''created'' n, Hook ''beforeMount'' n] @ es @ (case at of Some (old, _) \<Rightarrow> [RemoveElm old] | None \<Rightarrow> [])"
  let ?after = "es' @ [Hook ''mounted'' n]"
  have nm: "hooks_of ''mounted'' es = []"
    using es(2) by (induction es) (auto simp: building_def split: mount_event.splits)
  have "mt_log (mountNew t at st) = mt_log st @ ?before @ ?after"
    by (simp add: mounted es'(1) st3(3) es(1)) (simp add: st1_def)
  moreover have "hooks_of ''mounted'' ?before = []" "hooks_of ''beforeMount'' ?before = [n..<Suc n + instances t]"
    using upt_rec [of n "Suc n + instances t"] by (simp_all add: nm es(3) split: option.splits prod.splits)
  moreover have "list_all (\<lambda>e. \<not> changes_dom e) ?after" "hooks_of ''mounted'' ?after = below (Suc n) t @ [n]"
    using es'(2,3) by (simp_all add: changes_dom_def)
  moreover have "\<forall>(u, p)\<in>set ((n, mt_active st) # owners (Suc n) (Some n) t). mt_parent (mountNew t at st) u = p"
  proof -
    have dist: "distinct (map fst (owners m q t))" "distinct (map fst (ownerss m q ts))" for m q t ts
      by (induction m q t and m q ts rule: owners_ownerss.induct) (auto simp: owners_dom simp flip: image_set)
    have "n \<notin> fst ` set (owners (Suc n) (Some n) t)" by (simp add: owners_dom)
    then have "map_of (owners (Suc n) (Some n) t) n = None" by (simp add: map_of_eq_None_iff)
    then show ?thesis using dist by (auto simp: mounted es'(4) st3 par) (auto simp: st1_def)
  qed
  ultimately show ?thesis by (intro exI [of _ ?before] exI [of _ ?after]) (simp add: mounted)
qed

definition ex_tree :: mnode where
  "ex_tree = El False False [Cmp False (El False False [Cmp False Leaf]), Cmp False Leaf]"

definition ex_mount :: mount_state where
  "ex_mount = \<lparr>mt_log = [], mt_next = 0, mt_elms = 10, mt_active = None, mt_parent = (\<lambda>_. None), mt_mounted = (\<lambda>_. False)\<rparr>"

lemma mount_order_witness:
  "hooks_of ''mounted'' (mt_log (mountNew ex_tree (Some (5, 4)) ex_mount)) = [2, 1, 3, 0] \<and>
   mt_parent (mountNew ex_tree (Some (5, 4)) ex_mount) 2 = Some 1"
proof -
  have k: "\<forall>u\<in>kepts ex_tree. u < mt_next ex_mount \<and> mt_mounted ex_mount u" by (simp add: ex_tree_def)
  obtain before after where m: "mt_log (mountNew ex_tree (Some (5, 4)) ex_mount) = mt_log ex_mount @ before @ after"
    "hooks_of ''mounted'' before = []" "hooks_of ''mounted'' after = below (Suc 0) ex_tree @ [0]"
    "\<forall>(u, p)\<in>set ((0, mt_active ex_mount) # owners (Suc 0) (Some 0) ex_tree). mt_parent (mountNew ex_tree (Some (5, 4)) ex_mount) u = p"
    using mount_order [OF k, of 0 "Some (5, 4)"] by (auto simp: ex_mount_def)
  have "below (Suc 0) ex_tree = [2, 1, 3]" "(2, Some 1) \<in> set (owners (Suc 0) (Some 0) ex_tree)" by (simp_all add: ex_tree_def)
  then show ?thesis using m by (auto simp: ex_mount_def)
qed

end
