(* ===== verification/ChildUpdate.thy ===== *)
theory ChildUpdate
  imports InstanceState VNodes Events
begin

text \<open>
  What a parent passes to a child component in \<open>frontend/js/vue.js\<close>: the initialisation of the child's options
  (\<open>initInternalComponent\<close>, \<open>initEvents\<close>, \<open>initRender\<close>, \<open>initProps\<close>) and \<open>updateChildComponent\<close>, which
  \<open>prepatch\<close> calls when the parent renders again. The lemmas show that an updated child is in the state of
  one that is created anew, and when it has to render again.
\<close>

section \<open>Passing and receiving\<close>

text \<open>
  What the placeholder vnode says: \<open>componentOptions\<close> and the parts of \<open>data\<close> that the child reads. \<open>pa_scoped\<close>
  tells whether there are scoped slots.
\<close>

record passed =
  pa_vnode :: nat
  pa_context :: "nat option"
  pa_attrs :: "jsval obj option"
  pa_scoped :: bool
  pa_propsData :: "jsval obj option"
  pa_listeners :: "listener obj option"
  pa_children :: "rnode list option"

text \<open>
  The child: \<open>$options\<close> as far as it comes from the parent, and what is made of it. \<open>cv_scoped\<close>: \<open>$scopedSlots\<close> is not
  the empty object (\<open>_render\<close> sets it). \<open>cv_changed\<close> lists the reactive properties whose setter saw a new
  value, \<open>cv_forced\<close> counts the calls of \<open>$forceUpdate\<close>.
\<close>

record child_vm =
  cv_vnode :: passed
  cv_rootParent :: "nat option"
  cv_attrs :: "jsval obj"
  cv_listeners :: "listener obj"
  cv_propsData :: "jsval obj option"
  cv_props :: "jsval obj"
  cv_propKeys :: "string list"
  cv_parentListeners :: "listener obj option"
  cv_renderChildren :: "rnode list option"
  cv_slots :: "rnode list obj"
  cv_scoped :: bool
  cv_events :: "vm_events lstate"
  cv_forced :: nat
  cv_changed :: "string list"

definition or_empty :: "'v obj option \<Rightarrow> 'v obj" where
  "or_empty ob = (case ob of Some x \<Rightarrow> x | None \<Rightarrow> [])"

definition prop_value :: "prop_env \<Rightarrow> jsval obj \<Rightarrow> jsval obj \<Rightarrow> jsval obj option \<Rightarrow> jsval obj \<Rightarrow> string \<Rightarrow> jsval" where
  "prop_value E propOptions propsData oldData vals key =
     fst (validateProp (pe_call E) (pe_inst E) (pe_check E) key propOptions propsData (Some (oldData, vals)))"

text \<open>\<open>initProps\<close>, the values only: see \<open>InstanceState\<close>.\<close>

definition init_values :: "prop_env \<Rightarrow> jsval obj \<Rightarrow> jsval obj \<Rightarrow> jsval obj option \<Rightarrow> jsval obj" where
  "init_values E propOptions propsData optData =
     foldl (\<lambda>vals key. obj_put key (prop_value E propOptions propsData optData vals key) vals) [] (obj_keys propOptions)"

text \<open>\<open>initInternalComponent\<close>: the options that come from the placeholder; the instance has nothing of its own yet.\<close>

definition initInternalComponent :: "passed \<Rightarrow> child_vm" where
  "initInternalComponent p =
     \<lparr>cv_vnode = p, cv_rootParent = None, cv_attrs = [], cv_listeners = [], cv_propsData = pa_propsData p, cv_props = [], cv_propKeys = [],
      cv_parentListeners = pa_listeners p, cv_renderChildren = pa_children p, cv_slots = [], cv_scoped = False,
      cv_events = \<lparr>l_fns = [], l_target = \<lparr>ve_events = [], ve_hook = False, ve_onces = 0, ve_log = [], ve_errors = []\<rparr>, l_warns = []\<rparr>,
      cv_forced = 0, cv_changed = []\<rparr>"

definition initRender :: "child_vm \<Rightarrow> child_vm" where
  "initRender vm = vm\<lparr>cv_rootParent := None, cv_slots := resolveSlots (cv_renderChildren vm) (pa_context (cv_vnode vm)), cv_scoped := False,
     cv_attrs := or_empty (pa_attrs (cv_vnode vm)), cv_listeners := or_empty (cv_parentListeners vm)\<rparr>"

definition init_props :: "prop_env \<Rightarrow> jsval obj option \<Rightarrow> child_vm \<Rightarrow> child_vm" where
  "init_props E propOptions vm =
     (case propOptions of
        Some po \<Rightarrow> vm\<lparr>cv_props := init_values E po (or_empty (cv_propsData vm)) (cv_propsData vm), cv_propKeys := obj_keys po\<rparr>
      | None \<Rightarrow> vm)"

text \<open>
  \<open>createComponentInstanceForVnode\<close>, as far as \<open>_init\<close> takes from the parent; \<open>None\<close> is an exception of
  \<open>updateListeners\<close>, which also puts its invokers into the listeners.
\<close>

definition create_child :: "prop_env \<Rightarrow> jsval obj option \<Rightarrow> passed \<Rightarrow> listener list \<Rightarrow> child_vm option" where
  "create_child E propOptions p fns =
     (let vm = initInternalComponent p in
      map_option (\<lambda>(ons, evs). init_props E propOptions (initRender (vm\<lparr>cv_parentListeners := ons, cv_events := evs\<rparr>)))
        (initEvents (cv_parentListeners vm) fns))"

text \<open>The child renders: the root vnode gets the placeholder as parent, its scoped slots are taken over.\<close>

definition rendered :: "child_vm \<Rightarrow> child_vm" where
  "rendered vm = vm\<lparr>cv_rootParent := Some (pa_vnode (cv_vnode vm)), cv_scoped := pa_scoped (cv_vnode vm)\<rparr>"

definition set_prop :: "string \<Rightarrow> jsval \<Rightarrow> child_vm \<Rightarrow> child_vm" where
  "set_prop key v vm =
     (if get_or_undef (cv_props vm) key = v then vm
      else vm\<lparr>cv_props := obj_put key v (cv_props vm), cv_changed := cv_changed vm @ [key]\<rparr>)"

definition prop_step :: "prop_env \<Rightarrow> jsval obj \<Rightarrow> jsval obj \<Rightarrow> child_vm \<Rightarrow> string \<Rightarrow> child_vm" where
  "prop_step E po pd vm key = set_prop key (prop_value E po pd (cv_propsData vm) (cv_props vm) key) vm"

definition update_props :: "prop_env \<Rightarrow> jsval obj option \<Rightarrow> jsval obj option \<Rightarrow> child_vm \<Rightarrow> child_vm" where
  "update_props E propOptions propsData vm =
     (case (propsData, propOptions) of
        (Some pd, Some po) \<Rightarrow>
          (foldl (prop_step E po pd) vm (cv_propKeys vm))\<lparr>cv_propsData := Some pd\<rparr>
      | _ \<Rightarrow> vm)"

definition updateChildComponent :: "prop_env \<Rightarrow> jsval obj option \<Rightarrow> passed \<Rightarrow> child_vm \<Rightarrow> child_vm option" where
  "updateChildComponent E propOptions p vm0 =
     (let hasChildren = (pa_children p \<noteq> None \<or> cv_renderChildren vm0 \<noteq> None \<or> pa_scoped p \<or> cv_scoped vm0);
          vm1 = vm0\<lparr>cv_vnode := p, cv_rootParent := map_option (\<lambda>_. pa_vnode p) (cv_rootParent vm0),
            cv_renderChildren := pa_children p, cv_attrs := or_empty (pa_attrs p)\<rparr>;
          vm2 = update_props E propOptions (pa_propsData p) vm1
      in case updateComponentListeners (or_empty (pa_listeners p)) (cv_parentListeners vm2) (cv_events vm2) of
           None \<Rightarrow> None
         | Some (ons, evs) \<Rightarrow>
             let vm3 = vm2\<lparr>cv_listeners := ons, cv_parentListeners := Some ons, cv_events := evs\<rparr>
             in Some (if hasChildren
                  then vm3\<lparr>cv_slots := resolveSlots (pa_children p) (pa_context p), cv_forced := Suc (cv_forced vm3)\<rparr>
                  else vm3))"

text \<open>What happens to a child: the parent passes something new, or the child renders itself.\<close>

datatype child_step = Passed passed | Rendered

definition child_step_of :: "prop_env \<Rightarrow> jsval obj option \<Rightarrow> child_vm option \<Rightarrow> child_step \<Rightarrow> child_vm option" where
  "child_step_of E propOptions r s =
     (case r of
        None \<Rightarrow> None
      | Some vm \<Rightarrow> (case s of Passed p \<Rightarrow> updateChildComponent E propOptions p vm | Rendered \<Rightarrow> Some (rendered vm)))"

section \<open>An updated child is like a new one\<close>

text \<open>What a child has from its parent, but for the listeners (for these see \<open>EventsProof\<close>)\<close>

definition received :: "child_vm \<Rightarrow> passed \<times> jsval obj \<times> jsval obj option \<times> (string \<Rightarrow> jsval) \<times> string list \<times> rnode list option \<times> rnode list obj" where
  "received vm = (cv_vnode vm, cv_attrs vm, cv_propsData vm, get_or_undef (cv_props vm), cv_propKeys vm, cv_renderChildren vm, cv_slots vm)"

text \<open>\<open>extractPropsFromVNodeData\<close> gives an object whenever the component has props.\<close>

definition passes :: "jsval obj option \<Rightarrow> passed \<Rightarrow> bool" where
  "passes propOptions p \<longleftrightarrow> (propOptions \<noteq> None \<longleftrightarrow> pa_propsData p \<noteq> None)"

text \<open>The values a new child computes, each without regard to the others\<close>

definition fresh_value :: "prop_env \<Rightarrow> jsval obj \<Rightarrow> jsval obj \<Rightarrow> string \<Rightarrow> jsval" where
  "fresh_value E propOptions propsData key = prop_value E propOptions propsData None [] key"

lemma value_cong:
  assumes "get_or_undef vals key = get_or_undef vals' key"
  shows "prop_value E po pd od vals key = prop_value E po pd od vals' key"
  using assms by (cases od) (simp_all add: prop_value_def validateProp_def getPropDefaultValue_def Let_def)

lemma value_fresh:
  assumes "\<And>d. od = Some d \<Longrightarrow> get_or_undef vals key = JUndef \<or> get_or_undef vals key = fresh_value E po d key"
  shows "prop_value E po pd od vals key = fresh_value E po pd key"
proof (cases "\<exists>d. od = Some d \<and> get_or_undef d key = JUndef \<and> get_or_undef vals key \<noteq> JUndef \<and> hasOwn (own_props (get_or_undef po key)) ''default''")
  case False
  then have "getPropDefaultValue (pe_call E) (Some (od, vals)) (own_props (get_or_undef po key)) key =
      getPropDefaultValue (pe_call E) (Some (None, [])) (own_props (get_or_undef po key)) key"
    by (auto simp: getPropDefaultValue_def Let_def split: option.splits)
  then show ?thesis by (simp add: prop_value_def fresh_value_def validateProp_def Let_def)
next
  case True
  then obtain d where d: "od = Some d" "get_or_undef d key = JUndef" "get_or_undef vals key \<noteq> JUndef"
    and has: "hasOwn (own_props (get_or_undef po key)) ''default''" by blast
  have v: "get_or_undef vals key = fresh_value E po d key" using assms [OF d(1)] d(3) by blast
  have cast: "cast_boolean (own_props (get_or_undef po key)) key a JUndef = JUndef" for a
    using has by (simp add: cast_boolean_def split: option.splits)
  have "fresh_value E po d key = fst (getPropDefaultValue (pe_call E) (Some (None, [])) (own_props (get_or_undef po key)) key)"
    by (simp add: fresh_value_def prop_value_def validateProp_def Let_def d(2) cast split: prod.splits)
  then have "fst (getPropDefaultValue (pe_call E) (Some (od, vals)) (own_props (get_or_undef po key)) key) =
      fst (getPropDefaultValue (pe_call E) (Some (None, [])) (own_props (get_or_undef po key)) key)"
    using v d has by (simp add: getPropDefaultValue_def Let_def)
  then show ?thesis by (auto simp: prop_value_def fresh_value_def validateProp_def Let_def split: prod.splits)
qed

lemma get_or_undef_put [simp]: "get_or_undef (obj_put k v ob) k' = (if k' = k then v else get_or_undef ob k')"
  by (simp add: get_or_undef_def)

lemma init_values_get:
  assumes "wf_obj po"
  shows "get_or_undef (init_values E po pd od) k = (if k \<in> set (obj_keys po) then fresh_value E po pd k else JUndef)"
proof -
  have "distinct keys \<Longrightarrow> (\<forall>k\<in>set keys. get_or_undef vals k = JUndef) \<Longrightarrow>
      get_or_undef (foldl (\<lambda>vals key. obj_put key (prop_value E po pd od vals key) vals) vals keys) k =
        (if k \<in> set keys then fresh_value E po pd k else get_or_undef vals k)" for keys vals
  proof (induction keys arbitrary: vals)
    case (Cons key keys)
    have "prop_value E po pd od vals key = fresh_value E po pd key" using Cons.prems(2) by (intro value_fresh) simp
    then show ?case using Cons.prems Cons.IH [of "obj_put key (prop_value E po pd od vals key) vals"] by auto
  qed simp
  from this [of "obj_keys po" "[]"] show ?thesis using assms by (simp add: init_values_def wf_obj_def get_or_undef_def)
qed

lemma set_prop_get [simp]: "get_or_undef (cv_props (set_prop key v vm)) k = (if k = key then v else get_or_undef (cv_props vm) k)"
  by (auto simp: set_prop_def)

lemma set_prop_rest [simp]: "cv_vnode (set_prop key v vm) = cv_vnode vm" "cv_attrs (set_prop key v vm) = cv_attrs vm"
  "cv_propsData (set_prop key v vm) = cv_propsData vm" "cv_propKeys (set_prop key v vm) = cv_propKeys vm"
  "cv_renderChildren (set_prop key v vm) = cv_renderChildren vm" "cv_slots (set_prop key v vm) = cv_slots vm"
  "cv_parentListeners (set_prop key v vm) = cv_parentListeners vm" "cv_events (set_prop key v vm) = cv_events vm" "cv_forced (set_prop key v vm) = cv_forced vm"
  by (simp_all add: set_prop_def)

lemma prop_step_rest [simp]: "cv_vnode (prop_step E po pd vm key) = cv_vnode vm" "cv_attrs (prop_step E po pd vm key) = cv_attrs vm"
  "cv_propsData (prop_step E po pd vm key) = cv_propsData vm" "cv_propKeys (prop_step E po pd vm key) = cv_propKeys vm"
  "cv_renderChildren (prop_step E po pd vm key) = cv_renderChildren vm" "cv_slots (prop_step E po pd vm key) = cv_slots vm"
  "cv_parentListeners (prop_step E po pd vm key) = cv_parentListeners vm" "cv_events (prop_step E po pd vm key) = cv_events vm"
  "cv_forced (prop_step E po pd vm key) = cv_forced vm"
  by (simp_all add: prop_step_def)

lemma prop_steps_rest [simp]:
  "cv_vnode (foldl (prop_step E po pd) vm keys) = cv_vnode vm" "cv_attrs (foldl (prop_step E po pd) vm keys) = cv_attrs vm"
  "cv_propsData (foldl (prop_step E po pd) vm keys) = cv_propsData vm" "cv_propKeys (foldl (prop_step E po pd) vm keys) = cv_propKeys vm"
  "cv_renderChildren (foldl (prop_step E po pd) vm keys) = cv_renderChildren vm" "cv_slots (foldl (prop_step E po pd) vm keys) = cv_slots vm"
  "cv_parentListeners (foldl (prop_step E po pd) vm keys) = cv_parentListeners vm" "cv_events (foldl (prop_step E po pd) vm keys) = cv_events vm"
  "cv_forced (foldl (prop_step E po pd) vm keys) = cv_forced vm"
  by (induction keys arbitrary: vm) simp_all

text \<open>Every write either keeps the value or is noticed.\<close>

lemma prop_steps_get:
  assumes "distinct keys" "\<And>k d. k \<in> set keys \<Longrightarrow> cv_propsData vm = Some d \<Longrightarrow> get_or_undef (cv_props vm) k = fresh_value E po d k"
  shows "(\<forall>k. get_or_undef (cv_props (foldl (prop_step E po pd) vm keys)) k =
        (if k \<in> set keys then fresh_value E po pd k else get_or_undef (cv_props vm) k)) \<and>
    cv_changed (foldl (prop_step E po pd) vm keys) = cv_changed vm @ filter (\<lambda>k. fresh_value E po pd k \<noteq> get_or_undef (cv_props vm) k) keys"
  using assms
proof (induction keys arbitrary: vm)
  case (Cons key keys)
  have "prop_value E po pd (cv_propsData vm) (cv_props vm) key = fresh_value E po pd key"
    using Cons.prems(2) by (intro value_fresh) simp
  then have s: "prop_step E po pd vm key = set_prop key (fresh_value E po pd key) vm" by (simp add: prop_step_def)
  have d: "distinct keys" "key \<notin> set keys" using Cons.prems(1) by auto
  have g: "get_or_undef (cv_props (prop_step E po pd vm key)) k = get_or_undef (cv_props vm) k" if "k \<in> set keys" for k
    using that d(2) by (auto simp: s)
  have "\<And>k d. k \<in> set keys \<Longrightarrow> cv_propsData (prop_step E po pd vm key) = Some d \<Longrightarrow>
      get_or_undef (cv_props (prop_step E po pd vm key)) k = fresh_value E po d k"
    using Cons.prems(2) g by simp
  note IH = Cons.IH [OF d(1) this]
  have "filter (\<lambda>k. fresh_value E po pd k \<noteq> get_or_undef (cv_props (prop_step E po pd vm key)) k) keys =
      filter (\<lambda>k. fresh_value E po pd k \<noteq> get_or_undef (cv_props vm) k) keys"
    using g by (intro filter_cong) simp_all
  then show ?case using IH d(2) by (auto simp: s set_prop_def)
qed simp

text \<open>The value of every prop for a placeholder, and the state of a child that belongs to one\<close>

definition values_of :: "prop_env \<Rightarrow> jsval obj option \<Rightarrow> passed \<Rightarrow> string \<Rightarrow> jsval" where
  "values_of E propOptions p k =
     (case propOptions of
        Some po \<Rightarrow> if k \<in> set (obj_keys po) then fresh_value E po (or_empty (pa_propsData p)) k else JUndef
      | None \<Rightarrow> JUndef)"

definition child_ok :: "prop_env \<Rightarrow> jsval obj option \<Rightarrow> child_vm \<Rightarrow> bool" where
  "child_ok E propOptions vm \<longleftrightarrow>
     received vm = (cv_vnode vm, or_empty (pa_attrs (cv_vnode vm)), pa_propsData (cv_vnode vm), values_of E propOptions (cv_vnode vm),
       (case propOptions of Some po \<Rightarrow> obj_keys po | None \<Rightarrow> []),
       pa_children (cv_vnode vm), resolveSlots (pa_children (cv_vnode vm)) (pa_context (cv_vnode vm)))"

definition declared :: "jsval obj option \<Rightarrow> bool" where
  "declared propOptions \<longleftrightarrow> (case propOptions of Some po \<Rightarrow> wf_obj po | None \<Rightarrow> True)"

lemma init_values_of:
  assumes "declared (Some po)"
  shows "get_or_undef (init_values E po (or_empty (pa_propsData p)) (pa_propsData p)) = values_of E (Some po) p"
  using assms by (simp add: fun_eq_iff init_values_get values_of_def declared_def)

lemmas create_child_simps = create_child_def initInternalComponent_def initRender_def init_props_def Let_def

lemma create_child_ok:
  assumes "declared propOptions" "create_child E propOptions p fns = Some vm"
  shows "child_ok E propOptions vm" and "cv_vnode vm = p"
proof -
  show "cv_vnode vm = p" using assms(2) by (auto simp: create_child_simps split: option.splits)
  show "child_ok E propOptions vm"
  proof (cases propOptions)
    case None
    then show ?thesis using assms(2)
      by (auto simp: create_child_simps child_ok_def received_def values_of_def get_or_undef_def fun_eq_iff)
  next
    case (Some po)
    show ?thesis using assms(2) init_values_of [of po E p] assms(1)
      by (auto simp: Some create_child_simps child_ok_def received_def)
  qed
qed

lemma rendered_ok: "child_ok E propOptions (rendered vm) = child_ok E propOptions vm" "cv_vnode (rendered vm) = cv_vnode vm"
  by (simp_all add: child_ok_def rendered_def received_def)

lemma update_props_rest [simp]:
  "cv_vnode (update_props E po pd vm) = cv_vnode vm" "cv_attrs (update_props E po pd vm) = cv_attrs vm"
  "cv_propKeys (update_props E po pd vm) = cv_propKeys vm" "cv_renderChildren (update_props E po pd vm) = cv_renderChildren vm"
  "cv_slots (update_props E po pd vm) = cv_slots vm" "cv_forced (update_props E po pd vm) = cv_forced vm"
  by (simp_all add: update_props_def split: option.splits)

lemma new_props_ok:
  assumes "declared propOptions" "get_or_undef (cv_props vm) = values_of E propOptions p0" "cv_propsData vm = pa_propsData p0"
    "cv_propKeys vm = (case propOptions of Some po \<Rightarrow> obj_keys po | None \<Rightarrow> [])" "passes propOptions p0" "passes propOptions p"
  shows "get_or_undef (cv_props (update_props E propOptions (pa_propsData p) vm)) = values_of E propOptions p"
    and "cv_propsData (update_props E propOptions (pa_propsData p) vm) = pa_propsData p"
    and "cv_changed (update_props E propOptions (pa_propsData p) vm) =
      cv_changed vm @ filter (\<lambda>k. values_of E propOptions p k \<noteq> values_of E propOptions p0 k) (cv_propKeys vm)"
proof -
  consider "propOptions = None" "pa_propsData p = None"
    | po pd0 pd where "propOptions = Some po" "pa_propsData p0 = Some pd0" "pa_propsData p = Some pd"
    using assms(5,6) by (auto simp: passes_def)
  then have "get_or_undef (cv_props (update_props E propOptions (pa_propsData p) vm)) = values_of E propOptions p \<and>
      cv_propsData (update_props E propOptions (pa_propsData p) vm) = pa_propsData p \<and>
      cv_changed (update_props E propOptions (pa_propsData p) vm) =
        cv_changed vm @ filter (\<lambda>k. values_of E propOptions p k \<noteq> values_of E propOptions p0 k) (cv_propKeys vm)"
  proof cases
    case 1
    then show ?thesis using assms(2-4,5) by (simp add: update_props_def values_of_def fun_eq_iff passes_def)
  next
    case 2
    have keys: "cv_propKeys vm = obj_keys po" "distinct (obj_keys po)" using assms(1,4) 2(1) by (simp_all add: declared_def wf_obj_def)
    have vals: "k \<in> set (obj_keys po) \<Longrightarrow> values_of E propOptions q k = fresh_value E po (or_empty (pa_propsData q)) k" for q k
      by (simp add: values_of_def 2(1))
    have none: "k \<notin> set (obj_keys po) \<Longrightarrow> values_of E propOptions q k = JUndef" for q k by (simp add: values_of_def 2(1))
    have "get_or_undef (cv_props vm) k = fresh_value E po d k" if "k \<in> set (obj_keys po)" "cv_propsData vm = Some d" for k d
      using that assms(2,3) vals [OF that(1)] 2(2) by (simp add: or_empty_def)
    note steps = prop_steps_get [OF keys(2) this, of pd]
    have "filter (\<lambda>k. fresh_value E po pd k \<noteq> get_or_undef (cv_props vm) k) (obj_keys po) =
        filter (\<lambda>k. values_of E propOptions p k \<noteq> values_of E propOptions p0 k) (obj_keys po)"
      using vals assms(2) 2(3) by (intro filter_cong) (simp_all add: or_empty_def)
    moreover have "(if k \<in> set (obj_keys po) then fresh_value E po pd k else get_or_undef (cv_props vm) k) = values_of E propOptions p k" for k
      using vals none assms(2) 2(3) by (simp add: or_empty_def)
    ultimately show ?thesis using steps by (simp add: update_props_def 2 keys(1) fun_eq_iff)
  qed
  then show "get_or_undef (cv_props (update_props E propOptions (pa_propsData p) vm)) = values_of E propOptions p"
    "cv_propsData (update_props E propOptions (pa_propsData p) vm) = pa_propsData p"
    "cv_changed (update_props E propOptions (pa_propsData p) vm) =
      cv_changed vm @ filter (\<lambda>k. values_of E propOptions p k \<noteq> values_of E propOptions p0 k) (cv_propKeys vm)"
    by blast+
qed

lemma no_slots [simp]: "resolveSlots None ctx = []"
  by (simp add: resolveSlots_def)

definition slots_involved :: "passed \<Rightarrow> child_vm \<Rightarrow> bool" where
  "slots_involved p vm \<longleftrightarrow> pa_children p \<noteq> None \<or> pa_children (cv_vnode vm) \<noteq> None \<or> pa_scoped p \<or> cv_scoped vm"

lemma update_child:
  assumes "declared propOptions" "child_ok E propOptions vm" "passes propOptions (cv_vnode vm)" "passes propOptions p"
    "updateChildComponent E propOptions p vm = Some vm'"
  shows "child_ok E propOptions vm'" and "cv_vnode vm' = p"
    and "cv_changed vm' = cv_changed vm @
      filter (\<lambda>k. get_or_undef (cv_props vm') k \<noteq> get_or_undef (cv_props vm) k) (cv_propKeys vm)"
    and "cv_forced vm' = cv_forced vm + (if slots_involved p vm then 1 else 0)"
proof -
  let ?vm1 = "vm\<lparr>cv_vnode := p, cv_rootParent := map_option (\<lambda>_. pa_vnode p) (cv_rootParent vm),
            cv_renderChildren := pa_children p, cv_attrs := or_empty (pa_attrs p)\<rparr>"
  let ?vm2 = "update_props E propOptions (pa_propsData p) ?vm1"
  have ok: "get_or_undef (cv_props ?vm1) = values_of E propOptions (cv_vnode vm)" "cv_propsData ?vm1 = pa_propsData (cv_vnode vm)"
      "cv_propKeys ?vm1 = (case propOptions of Some po \<Rightarrow> obj_keys po | None \<Rightarrow> [])"
      "cv_renderChildren vm = pa_children (cv_vnode vm)"
      "cv_slots vm = resolveSlots (pa_children (cv_vnode vm)) (pa_context (cv_vnode vm))"
    using assms(2) by (simp_all add: child_ok_def received_def)
  note props = new_props_ok [OF assms(1) ok(1-3) assms(3,4)]
  obtain ons evs where up: "updateComponentListeners (or_empty (pa_listeners p)) (cv_parentListeners ?vm2) (cv_events ?vm2) = Some (ons, evs)"
    and vm': "vm' = (let vm3 = ?vm2\<lparr>cv_listeners := ons, cv_parentListeners := Some ons, cv_events := evs\<rparr>
       in if slots_involved p vm
          then vm3\<lparr>cv_slots := resolveSlots (pa_children p) (pa_context p), cv_forced := Suc (cv_forced vm3)\<rparr>
          else vm3)"
    using assms(5) ok(4) unfolding updateChildComponent_def Let_def slots_involved_def by (auto split: option.splits)
  show "cv_vnode vm' = p" by (simp add: vm' Let_def)
  have "cv_slots vm' = resolveSlots (pa_children p) (pa_context p)" using ok(5) by (auto simp: vm' Let_def slots_involved_def)
  then show "child_ok E propOptions vm'" using props ok by (simp add: child_ok_def received_def vm' Let_def)
  show "cv_changed vm' = cv_changed vm @
      filter (\<lambda>k. get_or_undef (cv_props vm') k \<noteq> get_or_undef (cv_props vm) k) (cv_propKeys vm)"
    using props ok by (simp add: vm' Let_def)
  show "cv_forced vm' = cv_forced vm + (if slots_involved p vm then 1 else 0)" by (simp add: vm' Let_def)
qed

lemma child_step_simps [simp]: "child_step_of E propOptions None s = None"
  "child_step_of E propOptions (Some vm) (Passed p) = updateChildComponent E propOptions p vm"
  "child_step_of E propOptions (Some vm) Rendered = Some (rendered vm)"
  by (simp_all add: child_step_of_def)

lemma child_steps_ok:
  assumes "declared propOptions" "child_ok E propOptions vm" "passes propOptions (cv_vnode vm)"
    "\<And>p. Passed p \<in> set steps \<Longrightarrow> passes propOptions p"
    "foldl (child_step_of E propOptions) (Some vm) steps = Some vm'"
  shows "child_ok E propOptions vm' \<and> passes propOptions (cv_vnode vm')"
  using assms(2-)
proof (induction steps arbitrary: vm)
  case (Cons s steps)
  have none: "foldl (child_step_of E propOptions) None steps = None" by (induction steps) simp_all
  show ?case
  proof (cases s)
    case (Passed p)
    then obtain vm1 where up: "updateChildComponent E propOptions p vm = Some vm1"
      and rest: "foldl (child_step_of E propOptions) (Some vm1) steps = Some vm'"
      using Cons.prems(4) none by (cases "updateChildComponent E propOptions p vm") auto
    have "passes propOptions p" using Cons.prems(3) Passed by simp
    note one = update_child [OF assms(1) Cons.prems(1,2) this up]
    have p1: "passes propOptions (cv_vnode vm1)" using one(2) \<open>passes propOptions p\<close> by simp
    have later: "\<And>p. Passed p \<in> set steps \<Longrightarrow> passes propOptions p" using Cons.prems(3) by simp
    show ?thesis using Cons.IH [OF one(1) p1 later rest] .
  next
    case Rendered
    have rest: "foldl (child_step_of E propOptions) (Some (rendered vm)) steps = Some vm'"
      using Cons.prems(4) by (simp add: Rendered)
    have later: "\<And>p. Passed p \<in> set steps \<Longrightarrow> passes propOptions p" using Cons.prems(3) by simp
    have "child_ok E propOptions (rendered vm)" "passes propOptions (cv_vnode (rendered vm))"
      using Cons.prems(1,2) by (simp_all add: rendered_ok)
    then show ?thesis using Cons.IH [OF _ _ later rest] by blast
  qed
qed simp


section \<open>Example\<close>

definition ex_po :: "jsval obj" where
  "ex_po = [(''size'', JObj 1 [(''type'', native ''Number''), (''default'', JNum (Dec 7 0))]), (''open'', JObj 2 [(''type'', native ''Boolean'')])]"

definition ex_pass :: "nat \<Rightarrow> jsval obj \<Rightarrow> passed" where
  "ex_pass n pd = \<lparr>pa_vnode = n, pa_context = None, pa_attrs = None, pa_scoped = False, pa_propsData = Some pd, pa_listeners = None, pa_children = None\<rparr>"

text \<open>The size is passed, then left out: the default is back, as in a new child.\<close>

definition ex_created :: "child_vm option" where
  "ex_created = create_child ex_env (Some ex_po) (ex_pass 1 []) []"

definition ex_later :: "child_vm option" where
  "ex_later = foldl (child_step_of ex_env (Some ex_po)) ex_created [Rendered, Passed (ex_pass 2 [(''size'', JNum (Dec 9 0))])]"

definition ex_updated :: "child_vm option" where
  "ex_updated = child_step_of ex_env (Some ex_po) ex_later (Passed (ex_pass 3 [(''open'', JStr [])]))"

definition ex_fresh :: "child_vm option" where
  "ex_fresh = create_child ex_env (Some ex_po) (ex_pass 3 [(''open'', JStr [])]) []"


end
