(* ===== verification/Transitions.thy ===== *)
theory Transitions
  imports Complex_Main SharedUtil WebClass
begin

text \<open>
  Transitions of elements in \<open>frontend/js/vue.js\<close>: \<open>resolveTransition\<close>, the end of a CSS transition
  (\<open>getTransitionInfo\<close>, \<open>whenTransitionEnds\<close>), \<open>enter\<close> and \<open>leave\<close> with their callbacks, the transition
  module and the directive \<open>v-show\<close>. Frames, timers, ends of CSS transitions, the application's \<open>done\<close>, the
  insert hooks and delayed leaves are steps that come in any order. What holds of them is in
  \<open>TransitionsProof\<close>.
\<close>

section \<open>The definition of a transition\<close>

text \<open>
  A hook is a function (its identity, \<open>length\<close> and \<open>_length\<close>, 0 if missing), or an invoker with one function
  or several in \<open>fns\<close>.
\<close>

datatype hook_fn = Fn nat nat nat | InvokerOf hook_fn | InvokerAll "hook_fn list"

fun takes_done :: "hook_fn \<Rightarrow> bool" where
  "takes_done (Fn _ len len') \<longleftrightarrow> (if len' \<noteq> 0 then len' else len) > 1"
| "takes_done (InvokerOf f) = takes_done f"
| "takes_done (InvokerAll []) = False"
| "takes_done (InvokerAll (f # _)) = takes_done f"

definition getHookArgumentsLength :: "hook_fn option \<Rightarrow> bool" where
  "getHookArgumentsLength f = (case f of Some f \<Rightarrow> takes_done f | None \<Rightarrow> False)"

text \<open>
  What a definition says: classes and hooks under their names; \<open>tr_appear\<close> is the flag \<open>appear\<close> (true for the empty
  text too, and for a hook \<open>appear\<close>), \<open>tr_delay\<close> the presence of \<open>delayLeave\<close>.
\<close>

record transition =
  tr_name :: "string option"
  tr_css :: "bool option"
  tr_type :: "string option"
  tr_classes :: "string obj"
  tr_hooks :: "hook_fn obj"
  tr_appear :: bool
  tr_duration :: jsval
  tr_delay :: bool

datatype trans_def = NoTransition | DefName string | DefObj transition

definition autoCssTransition :: "string \<Rightarrow> string obj" where
  "autoCssTransition name =
     [(''enterClass'', name @ ''-enter''), (''enterToClass'', name @ ''-enter-to''), (''enterActiveClass'', name @ ''-enter-active''),
      (''leaveClass'', name @ ''-leave''), (''leaveToClass'', name @ ''-leave-to''), (''leaveActiveClass'', name @ ''-leave-active'')]"

definition resolveTransition :: "trans_def \<Rightarrow> transition option" where
  "resolveTransition def =
     (case def of
        NoTransition \<Rightarrow> None
      | DefObj d \<Rightarrow>
          (if tr_css d \<noteq> Some False
           then let name = (case tr_name d of Some n \<Rightarrow> if n = [] then ''v'' else n | None \<Rightarrow> ''v'')
                in Some (d\<lparr>tr_classes := SharedUtil.extend (autoCssTransition name) (tr_classes d)\<rparr>)
           else Some d)
      | DefName name \<Rightarrow>
          (if name = [] then None
           else Some \<lparr>tr_name = None, tr_css = None, tr_type = None, tr_classes = autoCssTransition name, tr_hooks = [],
             tr_appear = False, tr_duration = JUndef, tr_delay = False\<rparr>))"

definition class_named :: "transition \<Rightarrow> string \<Rightarrow> string" where
  "class_named d k = (case map_of (tr_classes d) k of Some c \<Rightarrow> c | None \<Rightarrow> [])"

section \<open>The end of a CSS transition\<close>

text \<open>
  Computed durations and delays are lists like \<open>0.3s, 1s\<close>; \<open>None\<close> is NaN. \<open>split_list\<close>, the splitting at a
  comma and a space, is left to the caller: the styles come as lists, which are not empty.
\<close>

definition toMs :: "string \<Rightarrow> rat option" where
  "toMs s = (case parse_float (take (length s - 1) s) of Dec m e \<Rightarrow> Some (of_int m / 10 ^ e * 1000) | _ \<Rightarrow> None)"

function doubled :: "'a list \<Rightarrow> nat \<Rightarrow> 'a list" where
  "doubled delays n = (if length delays < n \<and> delays \<noteq> [] then doubled (delays @ delays) n else delays)"
  by pat_completeness auto
termination doubled by (relation "measure (\<lambda>(delays, n). n - length delays)") (auto intro!: diff_less_mono2 simp: length_greater_0_conv [symmetric] simp del: length_greater_0_conv)

declare doubled.simps [simp del]

definition add_ms :: "rat option \<Rightarrow> rat option \<Rightarrow> rat option" where
  "add_ms a b = (case (a, b) of (Some x, Some y) \<Rightarrow> Some (x + y) | _ \<Rightarrow> None)"

definition max_ms :: "rat option \<Rightarrow> rat option \<Rightarrow> rat option" where
  "max_ms a b = (case (a, b) of (Some x, Some y) \<Rightarrow> Some (max x y) | _ \<Rightarrow> None)"

definition positive :: "rat option \<Rightarrow> bool" where
  "positive a = (case a of Some x \<Rightarrow> 0 < x | None \<Rightarrow> False)"

definition getTimeout :: "string list \<Rightarrow> string list \<Rightarrow> rat option" where
  "getTimeout delays durations =
     (let ts = map (\<lambda>(d, w). add_ms (toMs d) (toMs w)) (zip durations (doubled delays (length durations)))
      in foldl max_ms (hd ts) (tl ts))"

record css_styles =
  cs_transitionDelay :: "string list"
  cs_transitionDuration :: "string list"
  cs_animationDelay :: "string list"
  cs_animationDuration :: "string list"
  cs_transitionProperty :: string

record trans_info =
  ti_type :: "string option"
  ti_timeout :: "rat option"
  ti_count :: nat
  ti_hasTransform :: bool

text \<open>\<open>/\b(transform|all)(,|$)/\<close>\<close>

definition transformRE :: "string \<Rightarrow> bool" where
  "transformRE s \<longleftrightarrow>
     (\<exists>i\<in>set [0..<length s]. (i = 0 \<or> \<not> is_word (s ! (i - 1))) \<and>
        (\<exists>w\<in>{''transform'', ''all''}. starts_with w (drop i s) \<and> (case drop (i + length w) s of [] \<Rightarrow> True | c # _ \<Rightarrow> c = CHR '','')))"

definition getTransitionInfo :: "css_styles \<Rightarrow> string option \<Rightarrow> trans_info" where
  "getTransitionInfo styles expectedType =
     (let transitionDurations = cs_transitionDuration styles; animationDurations = cs_animationDuration styles;
          transitionTimeout = getTimeout (cs_transitionDelay styles) transitionDurations;
          animationTimeout = getTimeout (cs_animationDelay styles) animationDurations;
          (type, timeout, propCount) =
            (if expectedType = Some ''transition'' then
               (if positive transitionTimeout then (Some ''transition'', transitionTimeout, length transitionDurations) else (None, Some 0, 0))
             else if expectedType = Some ''animation'' then
               (if positive animationTimeout then (Some ''animation'', animationTimeout, length animationDurations) else (None, Some 0, 0))
             else
               (let timeout = max_ms transitionTimeout animationTimeout;
                    type = (if positive timeout
                      then if (case (transitionTimeout, animationTimeout) of (Some t, Some a) \<Rightarrow> t > a | _ \<Rightarrow> False) then Some ''transition'' else Some ''animation''
                      else None)
                in (type, timeout, case type of None \<Rightarrow> 0 | Some t \<Rightarrow> if t = ''transition'' then length transitionDurations else length animationDurations)))
      in \<lparr>ti_type = type, ti_timeout = timeout, ti_count = propCount,
          ti_hasTransform = (type = Some ''transition'' \<and> transformRE (cs_transitionProperty styles))\<rparr>)"

text \<open>
  \<open>whenTransitionEnds\<close>, once there is something to wait for: an event with its target the element or not,
  and the timer. \<open>en_calls\<close> counts the calls of \<open>cb\<close>.
\<close>

datatype end_event = EndEvent bool | Timeout

record end_state =
  en_ended :: nat
  en_listening :: bool
  en_calls :: nat

definition await_end :: "end_state" where
  "await_end = \<lparr>en_ended = 0, en_listening = True, en_calls = 0\<rparr>"

definition ends :: "end_state \<Rightarrow> end_state" where
  "ends s = s\<lparr>en_listening := False, en_calls := Suc (en_calls s)\<rparr>"

definition end_step :: "nat \<Rightarrow> end_state \<Rightarrow> end_event \<Rightarrow> end_state" where
  "end_step propCount s e =
     (case e of
        EndEvent on_el \<Rightarrow>
          (if en_listening s \<and> on_el
           then let s1 = s\<lparr>en_ended := Suc (en_ended s)\<rparr> in if en_ended s1 \<ge> propCount then ends s1 else s1
           else s)
      | Timeout \<Rightarrow> if en_ended s < propCount then ends s else s)"

lemma end_steps:
  assumes "0 < n" "Timeout \<notin> set es"
  shows "let s = foldl (end_step n) await_end es
    in en_calls s = (if en_ended s < n then 0 else 1) \<and> (en_listening s \<longleftrightarrow> en_ended s < n)"
  using assms(2)
proof (induction es rule: rev_induct)
  case Nil
  then show ?case using assms(1) by (simp add: await_end_def)
next
  case (snoc e es)
  then obtain b where "e = EndEvent b" by (cases e) auto
  then show ?case using snoc by (auto simp: end_step_def ends_def Let_def)
qed

text \<open>Whatever events come, before the timer and after it, \<open>cb\<close> is called once.\<close>

lemma ends_once:
  assumes "0 < n" "Timeout \<notin> set es" "Timeout \<notin> set es'"
  shows "en_calls (foldl (end_step n) await_end (es @ Timeout # es')) = 1"
proof -
  let ?s = "end_step n (foldl (end_step n) await_end es) Timeout"
  have s: "en_calls ?s = 1" "\<not> en_listening ?s"
    using end_steps [OF assms(1,2)] by (auto simp: end_step_def ends_def Let_def)
  have "en_calls s = 1 \<Longrightarrow> \<not> en_listening s \<Longrightarrow> en_calls (foldl (end_step n) s es') = 1" for s
    using assms(3)
  proof (induction es' arbitrary: s)
    case (Cons e es')
    then obtain b where "e = EndEvent b" by (cases e) auto
    then show ?case using Cons by (simp add: end_step_def)
  qed simp
  then show ?thesis using s by simp
qed

lemma info_count:
  assumes "cs_transitionDuration styles \<noteq> []" "cs_animationDuration styles \<noteq> []" "ti_type (getTransitionInfo styles t) \<noteq> None"
  shows "0 < ti_count (getTransitionInfo styles t)"
  using assms by (auto simp: getTransitionInfo_def Let_def split: if_splits)

section \<open>Elements in transition\<close>

datatype side = Entering | Leaving

text \<open>What to do when an element has left: \<open>v-show\<close> hides it, the patch lets the node go.\<close>

datatype remover = Hide nat | LetGo nat

text \<open>A callback \<open>_enterCb\<close> or \<open>_leaveCb\<close> with what its closure holds\<close>

record trans_cb =
  tc_side :: side
  tc_el :: nat
  tc_key :: string
  tc_tag :: string
  tc_show :: bool
  tc_css :: bool
  tc_start :: string
  tc_active :: string
  tc_to :: string
  tc_type :: "string option"
  tc_hook :: "hook_fn option"
  tc_after :: "hook_fn option"
  tc_cancel :: "hook_fn option"
  tc_before :: "hook_fn option"
  tc_duration :: jsval
  tc_rm :: remover
  tc_called :: bool
  tc_cancelled :: bool

definition tc_control :: "trans_cb \<Rightarrow> bool" where
  "tc_control c = getHookArgumentsLength (tc_hook c)"

datatype trans_event =
    Before nat
  | HookCall nat
  | After nat
  | Cancelled nat
  | FrameRun nat
  | Removes "nat option" remover
  | BadDuration string jsval

text \<open>
  The elements: their classes, \<open>_transitionClasses\<close>, \<open>_enterCb\<close>, \<open>_leaveCb\<close>, parent, \<open>style.display\<close> and
  \<open>__vOriginalDisplay\<close>; \<open>tw_pending\<close> is \<open>_pending\<close> of a parent: tag and element of the leaving vnode with a key.
  Callbacks are numbered. Then what waits: next frames, ends of transitions, insert hooks, delayed leaves, and the
  callbacks the application has got.
\<close>

record trans_world =
  tw_class :: "nat \<Rightarrow> class_store"
  tw_tcls :: "nat \<Rightarrow> string list"
  tw_enter :: "nat \<Rightarrow> nat option"
  tw_leave :: "nat \<Rightarrow> nat option"
  tw_parent :: "nat \<Rightarrow> nat option"
  tw_pending :: "nat \<Rightarrow> string \<Rightarrow> (string \<times> nat) option"
  tw_display :: "nat \<Rightarrow> string"
  tw_orig :: "nat \<Rightarrow> string"
  tw_cbs :: "trans_cb list"
  tw_frames :: "nat list"
  tw_ends :: "nat list"
  tw_inserts :: "nat list"
  tw_delayed :: "nat list"
  tw_given :: "nat list"
  tw_log :: "trans_event list"

abbreviation cb_at :: "trans_world \<Rightarrow> nat \<Rightarrow> trans_cb" where
  "cb_at w c \<equiv> tw_cbs w ! c"

definition noted :: "trans_event list \<Rightarrow> trans_world \<Rightarrow> trans_world" where
  "noted es w = w\<lparr>tw_log := tw_log w @ es\<rparr>"

definition addTransitionClass :: "nat \<Rightarrow> string \<Rightarrow> trans_world \<Rightarrow> trans_world" where
  "addTransitionClass el cls w =
     (if cls \<in> set (tw_tcls w el) then w
      else w\<lparr>tw_tcls := (tw_tcls w)(el := tw_tcls w el @ [cls]), tw_class := (tw_class w)(el := addClass (tw_class w el) (Some cls))\<rparr>)"

definition removeTransitionClass :: "nat \<Rightarrow> string \<Rightarrow> trans_world \<Rightarrow> trans_world" where
  "removeTransitionClass el cls w =
     w\<lparr>tw_tcls := (tw_tcls w)(el := remove_item (tw_tcls w el) cls), tw_class := (tw_class w)(el := removeClass (tw_class w el) (Some cls))\<rparr>"

definition do_remove :: "nat option \<Rightarrow> remover \<Rightarrow> trans_world \<Rightarrow> trans_world" where
  "do_remove who r w = noted [Removes who r] (case r of Hide el \<Rightarrow> w\<lparr>tw_display := (tw_display w)(el := ''none'')\<rparr> | LetGo _ \<Rightarrow> w)"

definition set_cb :: "nat \<Rightarrow> (trans_cb \<Rightarrow> trans_cb) \<Rightarrow> trans_world \<Rightarrow> trans_world" where
  "set_cb c f w = w\<lparr>tw_cbs := (tw_cbs w)[c := f (cb_at w c)]\<rparr>"

text \<open>\<open>_pending[key] = null\<close> of the element's parent, if it has \<open>_pending\<close>\<close>

definition unpend :: "nat \<Rightarrow> string \<Rightarrow> trans_world \<Rightarrow> trans_world" where
  "unpend el key w =
     (case tw_parent w el of
        Some p \<Rightarrow> w\<lparr>tw_pending := (tw_pending w)(p := (tw_pending w p)(key := None))\<rparr>
      | None \<Rightarrow> w)"

text \<open>The body of the callback: of \<open>enter\<close>, of \<open>leave\<close>.\<close>

definition enter_done :: "nat \<Rightarrow> trans_world \<Rightarrow> trans_world" where
  "enter_done c w =
     (let cb = cb_at w c; el = tc_el cb;
          w1 = (if tc_css cb then removeTransitionClass el (tc_active cb) (removeTransitionClass el (tc_to cb) w) else w);
          w2 = (if tc_cancelled cb
            then noted [Cancelled c] (if tc_css cb then removeTransitionClass el (tc_start cb) w1 else w1)
            else noted [After c] w1)
      in w2\<lparr>tw_enter := (tw_enter w2)(el := None)\<rparr>)"

definition leave_done :: "nat \<Rightarrow> trans_world \<Rightarrow> trans_world" where
  "leave_done c w =
     (let cb = cb_at w c; el = tc_el cb;
          w0 = unpend el (tc_key cb) w;
          w1 = (if tc_css cb then removeTransitionClass el (tc_active cb) (removeTransitionClass el (tc_to cb) w0) else w0);
          w2 = (if tc_cancelled cb
            then noted [Cancelled c] (if tc_css cb then removeTransitionClass el (tc_start cb) w1 else w1)
            else noted [After c] (do_remove (Some c) (tc_rm cb) w1))
      in w2\<lparr>tw_leave := (tw_leave w2)(el := None)\<rparr>)"

text \<open>Calling it: \<open>once\<close>\<close>

definition run_cb :: "nat \<Rightarrow> trans_world \<Rightarrow> trans_world" where
  "run_cb c w =
     (if tc_called (cb_at w c) then w
      else let w1 = set_cb c (\<lambda>cb. cb\<lparr>tc_called := True\<rparr>) w
           in case tc_side (cb_at w c) of Entering \<Rightarrow> enter_done c w1 | Leaving \<Rightarrow> leave_done c w1)"

definition cancel_cb :: "nat \<Rightarrow> trans_world \<Rightarrow> trans_world" where
  "cancel_cb c w = run_cb c (set_cb c (\<lambda>cb. cb\<lparr>tc_cancelled := True\<rparr>) w)"

text \<open>
  The hook \<open>enter\<close> or \<open>leave\<close> is called with the callback; \<open>sync\<close> tells of the hooks which call it at once. Any hook may keep it
  for later.
\<close>

definition call_hook :: "(hook_fn \<Rightarrow> bool) \<Rightarrow> nat \<Rightarrow> trans_world \<Rightarrow> trans_world" where
  "call_hook sync c w =
     (case tc_hook (cb_at w c) of
        None \<Rightarrow> w
      | Some f \<Rightarrow>
          let w1 = noted [HookCall c] (w\<lparr>tw_given := tw_given w @ [c]\<rparr>)
          in if sync f then run_cb c w1 else w1)"

definition checkDuration :: "jsval \<Rightarrow> string \<Rightarrow> trans_world \<Rightarrow> trans_world" where
  "checkDuration val name w =
     (if val = JUndef \<or> val = JNull then w
      else case val of JNum n \<Rightarrow> if n = NaN then noted [BadDuration name val] w else w
        | _ \<Rightarrow> noted [BadDuration name val] w)"

definition isValidDuration :: "jsval \<Rightarrow> bool" where
  "isValidDuration val = (case val of JNum n \<Rightarrow> n \<noteq> NaN | _ \<Rightarrow> False)"

definition explicit_duration :: "jsval \<Rightarrow> string \<Rightarrow> jsval" where
  "explicit_duration duration k = toNumber (if isObject duration then (case duration of JObj _ ob \<Rightarrow> get_or_undef ob k | _ \<Rightarrow> JUndef) else duration)"

text \<open>
  The callback in the next frame. It waits for the explicit duration, or for what the styles say, or there is nothing
  to wait for.
\<close>

definition next_frame :: "css_styles \<Rightarrow> nat \<Rightarrow> trans_world \<Rightarrow> trans_world" where
  "next_frame styles c w =
     (let cb = cb_at w c; w1 = noted [FrameRun c] (removeTransitionClass (tc_el cb) (tc_start cb) w) in
      if tc_cancelled cb then w1
      else let w2 = addTransitionClass (tc_el cb) (tc_to cb) w1 in
        if tc_control cb then w2
        else if isValidDuration (tc_duration cb) \<or> ti_type (getTransitionInfo styles (tc_type cb)) \<noteq> None
        then w2\<lparr>tw_ends := tw_ends w2 @ [c]\<rparr>
        else run_cb c w2)"

section \<open>Entering and leaving\<close>

text \<open>
  A vnode with a transition. What decides whether entering is appearing: \<open>activeInstance\<close> and the contexts of the
  placeholders above it, the last of which counts.
\<close>

record trans_vnode =
  tv_el :: nat
  tv_element :: bool
  tv_key :: string
  tv_tag :: string
  tv_def :: trans_def
  tv_show :: bool
  tv_rootInsert :: bool

record trans_ctx =
  tx_active :: nat
  tx_above :: "nat list"
  tx_mounted :: "nat \<Rightarrow> bool"

definition is_appear :: "trans_ctx \<Rightarrow> trans_vnode \<Rightarrow> bool" where
  "is_appear ctx v \<longleftrightarrow> \<not> tx_mounted ctx (last (tx_active ctx # tx_above ctx)) \<or> \<not> tv_rootInsert v"

definition or_class :: "bool \<Rightarrow> transition \<Rightarrow> string \<Rightarrow> string \<Rightarrow> string" where
  "or_class isAppear d k k' = (if isAppear \<and> class_named d k \<noteq> [] then class_named d k else class_named d k')"

definition or_hook :: "bool \<Rightarrow> transition \<Rightarrow> string \<Rightarrow> string \<Rightarrow> hook_fn option" where
  "or_hook isAppear d k k' =
     (case (if isAppear then map_of (tr_hooks d) k else None) of Some f \<Rightarrow> Some f | None \<Rightarrow> map_of (tr_hooks d) k')"

definition enter_cb :: "bool \<Rightarrow> bool \<Rightarrow> transition \<Rightarrow> trans_vnode \<Rightarrow> trans_cb" where
  "enter_cb isIE9 isAppear d v =
     \<lparr>tc_side = Entering, tc_el = tv_el v, tc_key = tv_key v, tc_tag = tv_tag v, tc_show = tv_show v,
      tc_css = (tr_css d \<noteq> Some False \<and> \<not> isIE9),
      tc_start = or_class isAppear d ''appearClass'' ''enterClass'', tc_active = or_class isAppear d ''appearActiveClass'' ''enterActiveClass'',
      tc_to = or_class isAppear d ''appearToClass'' ''enterToClass'', tc_type = tr_type d,
      tc_hook = or_hook isAppear d ''appear'' ''enter'', tc_after = or_hook isAppear d ''afterAppear'' ''afterEnter'',
      tc_cancel = or_hook isAppear d ''appearCancelled'' ''enterCancelled'', tc_before = or_hook isAppear d ''beforeAppear'' ''beforeEnter'',
      tc_duration = explicit_duration (tr_duration d) ''enter'', tc_rm = LetGo (tv_el v), tc_called = False, tc_cancelled = False\<rparr>"

definition leave_cb :: "bool \<Rightarrow> transition \<Rightarrow> trans_vnode \<Rightarrow> remover \<Rightarrow> trans_cb" where
  "leave_cb isIE9 d v rm =
     \<lparr>tc_side = Leaving, tc_el = tv_el v, tc_key = tv_key v, tc_tag = tv_tag v, tc_show = tv_show v,
      tc_css = (tr_css d \<noteq> Some False \<and> \<not> isIE9),
      tc_start = class_named d ''leaveClass'', tc_active = class_named d ''leaveActiveClass'', tc_to = class_named d ''leaveToClass'', tc_type = tr_type d,
      tc_hook = map_of (tr_hooks d) ''leave'', tc_after = map_of (tr_hooks d) ''afterLeave'',
      tc_cancel = map_of (tr_hooks d) ''leaveCancelled'', tc_before = map_of (tr_hooks d) ''beforeLeave'',
      tc_duration = explicit_duration (tr_duration d) ''leave'', tc_rm = rm, tc_called = False, tc_cancelled = False\<rparr>"

text \<open>The classes a transition begins with; the rest comes in the next frame.\<close>

definition begin_css :: "nat \<Rightarrow> trans_world \<Rightarrow> trans_world" where
  "begin_css c w =
     (let cb = cb_at w c in
      if tc_css cb
      then (let w1 = addTransitionClass (tc_el cb) (tc_active cb) (addTransitionClass (tc_el cb) (tc_start cb) w) in w1\<lparr>tw_frames := tw_frames w1 @ [c]\<rparr>)
      else w)"

definition finish_now :: "nat \<Rightarrow> trans_world \<Rightarrow> trans_world" where
  "finish_now c w = (if \<not> tc_css (cb_at w c) \<and> \<not> tc_control (cb_at w c) then run_cb c w else w)"

definition cancel_leave :: "nat \<Rightarrow> trans_world \<Rightarrow> trans_world" where
  "cancel_leave el w = (case tw_leave w el of Some c \<Rightarrow> cancel_cb c w | None \<Rightarrow> w)"

definition cancel_enter :: "nat \<Rightarrow> trans_world \<Rightarrow> trans_world" where
  "cancel_enter el w = (case tw_enter w el of Some c \<Rightarrow> cancel_cb c w | None \<Rightarrow> w)"

text \<open>A new callback becomes the \<open>_enterCb\<close> or \<open>_leaveCb\<close> of its element.\<close>

definition with_cb :: "trans_cb \<Rightarrow> trans_world \<Rightarrow> trans_world" where
  "with_cb cb w =
     (case tc_side cb of
        Entering \<Rightarrow> w\<lparr>tw_cbs := tw_cbs w @ [cb], tw_enter := (tw_enter w)(tc_el cb := Some (length (tw_cbs w)))\<rparr>
      | Leaving \<Rightarrow> w\<lparr>tw_cbs := tw_cbs w @ [cb], tw_leave := (tw_leave w)(tc_el cb := Some (length (tw_cbs w)))\<rparr>)"

text \<open>Entering, once it begins\<close>

definition entered :: "(hook_fn \<Rightarrow> bool) \<Rightarrow> trans_cb \<Rightarrow> (trans_world \<Rightarrow> trans_world) \<Rightarrow> trans_world \<Rightarrow> trans_world" where
  "entered sync cb toggleDisplay w =
     (let c = length (tw_cbs w); w3 = with_cb cb w;
          w4 = (if \<not> tc_show cb then w3\<lparr>tw_inserts := tw_inserts w3 @ [c]\<rparr> else w3);
          w5 = begin_css c (noted [Before c] w4);
          w6 = (if tc_show cb then call_hook sync c (toggleDisplay w5) else w5)
      in finish_now c w6)"

definition enter :: "(hook_fn \<Rightarrow> bool) \<Rightarrow> bool \<Rightarrow> trans_ctx \<Rightarrow> trans_vnode \<Rightarrow> (trans_world \<Rightarrow> trans_world) \<Rightarrow> trans_world \<Rightarrow> trans_world" where
  "enter sync isIE9 ctx v toggleDisplay w0 =
     (let el = tv_el v; w1 = cancel_leave el w0 in
      case resolveTransition (tv_def v) of
        None \<Rightarrow> w1
      | Some d \<Rightarrow>
          if tw_enter w1 el \<noteq> None \<or> \<not> tv_element v then w1
          else let isAppear = is_appear ctx v in
            if isAppear \<and> \<not> tr_appear d then w1
            else let cb = enter_cb isIE9 isAppear d v
                 in entered sync cb toggleDisplay (checkDuration (tc_duration cb) ''enter'' w1))"

text \<open>\<open>performLeave\<close>; \<open>None\<close> is the error of an element without parent.\<close>

definition performLeave :: "(hook_fn \<Rightarrow> bool) \<Rightarrow> nat \<Rightarrow> trans_world \<Rightarrow> trans_world option" where
  "performLeave sync c w =
     (let cb = cb_at w c; el = tc_el cb in
      if tc_cancelled cb then Some w
      else if \<not> tc_show cb \<and> tw_parent w el = None then None
      else let w1 = (if tc_show cb then w
             else case tw_parent w el of
               Some p \<Rightarrow> w\<lparr>tw_pending := (tw_pending w)(p := (tw_pending w p)(tc_key cb \<mapsto> (tc_tag cb, el)))\<rparr>
             | None \<Rightarrow> w)
           in Some (finish_now c (call_hook sync c (begin_css c (noted [Before c] w1)))))"

definition leave :: "(hook_fn \<Rightarrow> bool) \<Rightarrow> bool \<Rightarrow> trans_vnode \<Rightarrow> remover \<Rightarrow> trans_world \<Rightarrow> trans_world option" where
  "leave sync isIE9 v rm w0 =
     (let el = tv_el v; w1 = cancel_enter el w0 in
      case (if tv_element v then resolveTransition (tv_def v) else None) of
        None \<Rightarrow> Some (do_remove None rm w1)
      | Some d \<Rightarrow>
          if tw_leave w1 el \<noteq> None then Some w1
          else let cb = leave_cb isIE9 d v rm; c = length (tw_cbs w1);
                   w3 = with_cb cb (checkDuration (tc_duration cb) ''leave'' w1)
               in if tr_delay d then Some (w3\<lparr>tw_delayed := tw_delayed w3 @ [c]\<rparr>) else performLeave sync c w3)"

text \<open>The hook that \<open>enter\<close> adds to the insert hooks of its vnode\<close>

definition insert_hook :: "(hook_fn \<Rightarrow> bool) \<Rightarrow> nat \<Rightarrow> trans_world \<Rightarrow> trans_world" where
  "insert_hook sync c w =
     (let cb = cb_at w c;
          pendingNode = (case tw_parent w (tc_el cb) of Some p \<Rightarrow> tw_pending w p (tc_key cb) | None \<Rightarrow> None);
          w1 = (case pendingNode of
              Some (tag, el) \<Rightarrow> if tag = tc_tag cb then (case tw_leave w el of Some l \<Rightarrow> run_cb l w | None \<Rightarrow> w) else w
            | None \<Rightarrow> w)
      in call_hook sync c w1)"

section \<open>The transition module and v-show\<close>

definition enter_1 :: "(hook_fn \<Rightarrow> bool) \<Rightarrow> bool \<Rightarrow> trans_ctx \<Rightarrow> trans_vnode \<Rightarrow> trans_world \<Rightarrow> trans_world" where
  "enter_1 sync isIE9 ctx v w = (if \<not> tv_show v then enter sync isIE9 ctx v id w else w)"

definition remove_1 :: "(hook_fn \<Rightarrow> bool) \<Rightarrow> bool \<Rightarrow> trans_vnode \<Rightarrow> remover \<Rightarrow> trans_world \<Rightarrow> trans_world option" where
  "remove_1 sync isIE9 v rm w = (if \<not> tv_show v then leave sync isIE9 v rm w else Some (do_remove None rm w))"

text \<open>
  \<open>show\<close>; the vnode is the one \<open>locateNode\<close> finds, with the same element. \<open>vnode.data.show = true\<close> is
  \<open>tv_show\<close>.
\<close>

definition set_display :: "nat \<Rightarrow> string \<Rightarrow> trans_world \<Rightarrow> trans_world" where
  "set_display el s w = w\<lparr>tw_display := (tw_display w)(el := s)\<rparr>"

definition has_transition :: "trans_vnode \<Rightarrow> bool" where
  "has_transition v \<longleftrightarrow> (case tv_def v of NoTransition \<Rightarrow> False | DefName name \<Rightarrow> name \<noteq> [] | DefObj _ \<Rightarrow> True)"

definition show_bind :: "(hook_fn \<Rightarrow> bool) \<Rightarrow> bool \<Rightarrow> trans_ctx \<Rightarrow> trans_vnode \<Rightarrow> bool \<Rightarrow> trans_world \<Rightarrow> trans_world" where
  "show_bind sync isIE9 ctx v val w =
     (let el = tv_el v; originalDisplay = (if tw_display w el = ''none'' then [] else tw_display w el);
          w1 = w\<lparr>tw_orig := (tw_orig w)(el := originalDisplay)\<rparr>
      in if val \<and> has_transition v
         then enter sync isIE9 ctx (v\<lparr>tv_show := True\<rparr>) (set_display el originalDisplay) w1
         else set_display el (if val then originalDisplay else ''none'') w1)"

definition show_update :: "(hook_fn \<Rightarrow> bool) \<Rightarrow> bool \<Rightarrow> trans_ctx \<Rightarrow> trans_vnode \<Rightarrow> bool \<Rightarrow> bool \<Rightarrow> trans_world \<Rightarrow> trans_world option" where
  "show_update sync isIE9 ctx v val oldVal w =
     (let el = tv_el v in
      if val = oldVal then Some w
      else if has_transition v then
        (if val then Some (enter sync isIE9 ctx (v\<lparr>tv_show := True\<rparr>) (\<lambda>w. set_display el (tw_orig w el) w) w)
         else leave sync isIE9 (v\<lparr>tv_show := True\<rparr>) (Hide el) w)
      else Some (set_display el (if val then tw_orig w el else ''none'') w))"

definition show_unbind :: "nat \<Rightarrow> bool \<Rightarrow> trans_world \<Rightarrow> trans_world" where
  "show_unbind el isDestroy w = (if \<not> isDestroy then set_display el (tw_orig w el) w else w)"

text \<open>\<open>callPendingCbs\<close> of a transition group ends an entering that is under way.\<close>

definition call_enter :: "nat \<Rightarrow> trans_world \<Rightarrow> trans_world" where
  "call_enter el w = (case tw_enter w el of Some c \<Rightarrow> run_cb c w | None \<Rightarrow> w)"

section \<open>Steps\<close>

text \<open>
  What happens in the page; \<open>None\<close> is a step that cannot happen now, or an error. The patch puts elements in place
  and takes them away, but does not move one that is leaving.
\<close>

datatype page_step =
    Enters trans_ctx trans_vnode
  | Leaves trans_vnode nat
  | ShowBind trans_ctx trans_vnode bool
  | ShowUpdate trans_ctx trans_vnode bool bool
  | Frame css_styles nat
  | End nat
  | Done nat
  | Insert nat
  | Delayed nat
  | Place nat "nat option"
  | CallPending nat

definition if_waiting :: "nat \<Rightarrow> nat list \<Rightarrow> 'a \<Rightarrow> 'a option" where
  "if_waiting c cs r = (if c \<in> set cs then Some r else None)"

fun trans_step :: "(hook_fn \<Rightarrow> bool) \<Rightarrow> bool \<Rightarrow> page_step \<Rightarrow> trans_world \<Rightarrow> trans_world option" where
  "trans_step sync isIE9 (Enters ctx v) w = Some (enter_1 sync isIE9 ctx v w)"
| "trans_step sync isIE9 (Leaves v node) w = remove_1 sync isIE9 v (LetGo node) w"
| "trans_step sync isIE9 (ShowBind ctx v val) w = Some (show_bind sync isIE9 ctx v val w)"
| "trans_step sync isIE9 (ShowUpdate ctx v val oldVal) w = show_update sync isIE9 ctx v val oldVal w"
| "trans_step sync isIE9 (Frame styles c) w = if_waiting c (tw_frames w) (next_frame styles c (w\<lparr>tw_frames := remove1 c (tw_frames w)\<rparr>))"
| "trans_step sync isIE9 (End c) w = if_waiting c (tw_ends w) (run_cb c (w\<lparr>tw_ends := remove1 c (tw_ends w)\<rparr>))"
| "trans_step sync isIE9 (Done c) w = if_waiting c (tw_given w) (run_cb c w)"
| "trans_step sync isIE9 (Insert c) w = if_waiting c (tw_inserts w) (insert_hook sync c (w\<lparr>tw_inserts := remove1 c (tw_inserts w)\<rparr>))"
| "trans_step sync isIE9 (Delayed c) w = Option.bind (if_waiting c (tw_delayed w) (w\<lparr>tw_delayed := remove1 c (tw_delayed w)\<rparr>)) (performLeave sync c)"
| "trans_step sync isIE9 (Place el p) w = (if tw_leave w el = None then Some (w\<lparr>tw_parent := (tw_parent w)(el := p)\<rparr>) else None)"
| "trans_step sync isIE9 (CallPending el) w = Some (call_enter el w)"

definition trans_run :: "(hook_fn \<Rightarrow> bool) \<Rightarrow> bool \<Rightarrow> page_step list \<Rightarrow> trans_world \<Rightarrow> trans_world option" where
  "trans_run sync isIE9 steps w = foldl (\<lambda>r s. Option.bind r (trans_step sync isIE9 s)) (Some w) steps"

text \<open>A page where no transition has begun\<close>

definition at_rest :: "trans_world \<Rightarrow> bool" where
  "at_rest w \<longleftrightarrow> (\<forall>el. tw_tcls w el = [] \<and> tw_enter w el = None \<and> tw_leave w el = None) \<and> (\<forall>p key. tw_pending w p key = None) \<and>
     tw_cbs w = [] \<and> tw_frames w = [] \<and> tw_ends w = [] \<and> tw_inserts w = [] \<and> tw_delayed w = [] \<and> tw_given w = [] \<and> tw_log w = []"

end
