(* ===== verification/TransitionsProof.thy ===== *)
theory TransitionsProof
  imports Transitions
begin

text \<open>
  What holds of the transitions of \<open>Transitions\<close> in any order of steps: a callback does its work once, none is
  forgotten, which classes an element can be left with and how \<open>done\<close> called too early leaves one; and
  \<open>v-show\<close> displays what its value says.
\<close>

section \<open>What calling a callback does\<close>

lemma noted_fields [simp]:
  "tw_class (noted es w) = tw_class w" "tw_tcls (noted es w) = tw_tcls w" "tw_enter (noted es w) = tw_enter w" "tw_leave (noted es w) = tw_leave w"
  "tw_parent (noted es w) = tw_parent w" "tw_pending (noted es w) = tw_pending w" "tw_display (noted es w) = tw_display w"
  "tw_orig (noted es w) = tw_orig w" "tw_cbs (noted es w) = tw_cbs w" "tw_frames (noted es w) = tw_frames w" "tw_ends (noted es w) = tw_ends w"
  "tw_inserts (noted es w) = tw_inserts w" "tw_delayed (noted es w) = tw_delayed w" "tw_given (noted es w) = tw_given w"
  "tw_log (noted es w) = tw_log w @ es"
  by (simp_all add: noted_def)

lemma add_fields [simp]:
  "tw_enter (addTransitionClass e k w) = tw_enter w" "tw_leave (addTransitionClass e k w) = tw_leave w"
  "tw_parent (addTransitionClass e k w) = tw_parent w" "tw_pending (addTransitionClass e k w) = tw_pending w" "tw_display (addTransitionClass e k w) = tw_display w"
  "tw_orig (addTransitionClass e k w) = tw_orig w" "tw_cbs (addTransitionClass e k w) = tw_cbs w" "tw_frames (addTransitionClass e k w) = tw_frames w"
  "tw_ends (addTransitionClass e k w) = tw_ends w" "tw_inserts (addTransitionClass e k w) = tw_inserts w" "tw_delayed (addTransitionClass e k w) = tw_delayed w"
  "tw_given (addTransitionClass e k w) = tw_given w" "tw_log (addTransitionClass e k w) = tw_log w"
  "tw_tcls (addTransitionClass e k w) = (tw_tcls w)(e := (if k \<in> set (tw_tcls w e) then tw_tcls w e else tw_tcls w e @ [k]))"
  by (simp_all add: addTransitionClass_def)

lemma remove_fields [simp]:
  "tw_enter (removeTransitionClass e k w) = tw_enter w" "tw_leave (removeTransitionClass e k w) = tw_leave w"
  "tw_parent (removeTransitionClass e k w) = tw_parent w" "tw_pending (removeTransitionClass e k w) = tw_pending w"
  "tw_display (removeTransitionClass e k w) = tw_display w" "tw_orig (removeTransitionClass e k w) = tw_orig w"
  "tw_cbs (removeTransitionClass e k w) = tw_cbs w" "tw_frames (removeTransitionClass e k w) = tw_frames w"
  "tw_ends (removeTransitionClass e k w) = tw_ends w" "tw_inserts (removeTransitionClass e k w) = tw_inserts w"
  "tw_delayed (removeTransitionClass e k w) = tw_delayed w"
  "tw_given (removeTransitionClass e k w) = tw_given w" "tw_log (removeTransitionClass e k w) = tw_log w"
  "tw_tcls (removeTransitionClass e k w) = (tw_tcls w)(e := remove1 k (tw_tcls w e))"
  by (simp_all add: removeTransitionClass_def remove_item_eq)

lemma do_remove_fields [simp]:
  "tw_tcls (do_remove who r w) = tw_tcls w" "tw_enter (do_remove who r w) = tw_enter w" "tw_leave (do_remove who r w) = tw_leave w"
  "tw_parent (do_remove who r w) = tw_parent w" "tw_pending (do_remove who r w) = tw_pending w"
  "tw_orig (do_remove who r w) = tw_orig w" "tw_cbs (do_remove who r w) = tw_cbs w" "tw_frames (do_remove who r w) = tw_frames w" "tw_ends (do_remove who r w) = tw_ends w"
  "tw_inserts (do_remove who r w) = tw_inserts w" "tw_delayed (do_remove who r w) = tw_delayed w" "tw_given (do_remove who r w) = tw_given w"
  "tw_log (do_remove who r w) = tw_log w @ [Removes who r]"
  "tw_display (do_remove who r w) = (case r of Hide e \<Rightarrow> (tw_display w)(e := ''none'') | LetGo _ \<Rightarrow> tw_display w)"
  by (simp_all add: do_remove_def split: remover.split)

lemma unpend_fields [simp]:
  "tw_tcls (unpend e k w) = tw_tcls w" "tw_enter (unpend e k w) = tw_enter w" "tw_leave (unpend e k w) = tw_leave w"
  "tw_parent (unpend e k w) = tw_parent w" "tw_display (unpend e k w) = tw_display w"
  "tw_orig (unpend e k w) = tw_orig w" "tw_cbs (unpend e k w) = tw_cbs w" "tw_frames (unpend e k w) = tw_frames w" "tw_ends (unpend e k w) = tw_ends w"
  "tw_inserts (unpend e k w) = tw_inserts w" "tw_delayed (unpend e k w) = tw_delayed w" "tw_given (unpend e k w) = tw_given w" "tw_log (unpend e k w) = tw_log w"
  "tw_pending (unpend e k w) p q = (if tw_parent w e = Some p \<and> q = k then None else tw_pending w p q)"
  by (auto simp: unpend_def split: option.split)

definition marked_called :: "nat \<Rightarrow> trans_world \<Rightarrow> trans_cb list" where
  "marked_called c w = (tw_cbs w)[c := (cb_at w c)\<lparr>tc_called := True\<rparr>]"

text \<open>What the callback notes\<close>

definition ending :: "nat \<Rightarrow> trans_cb \<Rightarrow> trans_event list" where
  "ending c cb =
     (if tc_cancelled cb then [Cancelled c]
      else (if tc_side cb = Leaving then [Removes (Some c) (tc_rm cb)] else []) @ [After c])"

lemma run_called: "tc_called (cb_at w c) \<Longrightarrow> run_cb c w = w"
  by (simp add: run_cb_def)

lemmas run_defs = run_cb_def set_cb_def enter_done_def leave_done_def Let_def

lemma run_rest [simp]:
  "tw_parent (run_cb c w) = tw_parent w" "tw_orig (run_cb c w) = tw_orig w" "tw_frames (run_cb c w) = tw_frames w" "tw_ends (run_cb c w) = tw_ends w"
  "tw_inserts (run_cb c w) = tw_inserts w" "tw_delayed (run_cb c w) = tw_delayed w" "tw_given (run_cb c w) = tw_given w"
  by (simp_all add: run_defs split: side.split)

lemma run_cbs: "c < length (tw_cbs w) \<Longrightarrow> tw_cbs (run_cb c w) = (if tc_called (cb_at w c) then tw_cbs w else marked_called c w)"
  by (simp add: run_defs marked_called_def split: side.split)

lemma enter_done_fields:
  "tw_log (enter_done c w) = tw_log w @ [if tc_cancelled (cb_at w c) then Cancelled c else After c]"
  "tw_enter (enter_done c w) = (tw_enter w)(tc_el (cb_at w c) := None)" "tw_leave (enter_done c w) = tw_leave w"
  "tw_display (enter_done c w) = tw_display w" "tw_pending (enter_done c w) = tw_pending w"
  "tw_tcls (enter_done c w) = (if \<not> tc_css (cb_at w c) then tw_tcls w else (tw_tcls w)(tc_el (cb_at w c) :=
     (let ks = remove1 (tc_active (cb_at w c)) (remove1 (tc_to (cb_at w c)) (tw_tcls w (tc_el (cb_at w c))))
      in if tc_cancelled (cb_at w c) then remove1 (tc_start (cb_at w c)) ks else ks)))"
  by (simp_all add: enter_done_def Let_def)

lemma leave_done_fields:
  "tw_log (leave_done c w) = tw_log w @ (if tc_cancelled (cb_at w c) then [Cancelled c] else [Removes (Some c) (tc_rm (cb_at w c)), After c])"
  "tw_enter (leave_done c w) = tw_enter w" "tw_leave (leave_done c w) = (tw_leave w)(tc_el (cb_at w c) := None)"
  "tw_display (leave_done c w) = (if tc_cancelled (cb_at w c) then tw_display w
     else case tc_rm (cb_at w c) of Hide e \<Rightarrow> (tw_display w)(e := ''none'') | LetGo _ \<Rightarrow> tw_display w)"
  "tw_pending (leave_done c w) = tw_pending (unpend (tc_el (cb_at w c)) (tc_key (cb_at w c)) w)"
  "tw_tcls (leave_done c w) = (if \<not> tc_css (cb_at w c) then tw_tcls w else (tw_tcls w)(tc_el (cb_at w c) :=
     (let ks = remove1 (tc_active (cb_at w c)) (remove1 (tc_to (cb_at w c)) (tw_tcls w (tc_el (cb_at w c))))
      in if tc_cancelled (cb_at w c) then remove1 (tc_start (cb_at w c)) ks else ks)))"
  by (simp_all add: leave_done_def Let_def del: unpend_fields(13)) (simp_all add: do_remove_def noted_def removeTransitionClass_def split: remover.split)

text \<open>The classes left of \<open>ks\<close> when the callback has run\<close>

definition left_classes :: "trans_cb \<Rightarrow> string list \<Rightarrow> string list" where
  "left_classes cb ks =
     (if \<not> tc_css cb then ks
      else let ks1 = remove1 (tc_active cb) (remove1 (tc_to cb) ks) in if tc_cancelled cb then remove1 (tc_start cb) ks1 else ks1)"

lemma set_cb_fields [simp]:
  "tw_tcls (set_cb c f w) = tw_tcls w" "tw_enter (set_cb c f w) = tw_enter w" "tw_leave (set_cb c f w) = tw_leave w"
  "tw_parent (set_cb c f w) = tw_parent w" "tw_pending (set_cb c f w) = tw_pending w" "tw_display (set_cb c f w) = tw_display w"
  "tw_orig (set_cb c f w) = tw_orig w" "tw_frames (set_cb c f w) = tw_frames w" "tw_ends (set_cb c f w) = tw_ends w"
  "tw_inserts (set_cb c f w) = tw_inserts w" "tw_delayed (set_cb c f w) = tw_delayed w" "tw_given (set_cb c f w) = tw_given w"
  "tw_log (set_cb c f w) = tw_log w" "tw_cbs (set_cb c f w) = (tw_cbs w)[c := f (cb_at w c)]"
  by (simp_all add: set_cb_def)

lemma run_new:
  assumes "c < length (tw_cbs w)" "\<not> tc_called (cb_at w c)"
  shows "tw_log (run_cb c w) = tw_log w @ ending c (cb_at w c)"
    and "tw_enter (run_cb c w) = (if tc_side (cb_at w c) = Entering then (tw_enter w)(tc_el (cb_at w c) := None) else tw_enter w)"
    and "tw_leave (run_cb c w) = (if tc_side (cb_at w c) = Leaving then (tw_leave w)(tc_el (cb_at w c) := None) else tw_leave w)"
    and "tw_display (run_cb c w) = (if tc_side (cb_at w c) = Leaving \<and> \<not> tc_cancelled (cb_at w c)
        then (case tc_rm (cb_at w c) of Hide e \<Rightarrow> (tw_display w)(e := ''none'') | LetGo _ \<Rightarrow> tw_display w) else tw_display w)"
    and "tw_pending (run_cb c w) p q = (if tc_side (cb_at w c) = Leaving \<and> tw_parent w (tc_el (cb_at w c)) = Some p \<and> q = tc_key (cb_at w c)
        then None else tw_pending w p q)"
    and "tw_tcls (run_cb c w) = (tw_tcls w)(tc_el (cb_at w c) := left_classes (cb_at w c) (tw_tcls w (tc_el (cb_at w c))))"
proof -
  define cb where "cb = cb_at w c"
  define w1 where "w1 = set_cb c (\<lambda>cb. cb\<lparr>tc_called := True\<rparr>) w"
  have w1: "tw_tcls w1 = tw_tcls w" "tw_enter w1 = tw_enter w" "tw_leave w1 = tw_leave w" "tw_display w1 = tw_display w" "tw_pending w1 = tw_pending w"
    "tw_parent w1 = tw_parent w" "tw_log w1 = tw_log w" "cb_at w1 c = cb\<lparr>tc_called := True\<rparr>"
    using assms(1) by (simp_all add: w1_def cb_def)
  have run: "run_cb c w = (case tc_side cb of Entering \<Rightarrow> enter_done c w1 | Leaving \<Rightarrow> leave_done c w1)"
    using assms(2) unfolding run_cb_def w1_def cb_def Let_def by simp
  note facts = run enter_done_fields leave_done_fields w1 ending_def left_classes_def
  show "tw_log (run_cb c w) = tw_log w @ ending c (cb_at w c)" unfolding cb_def [symmetric] by (cases "tc_side cb") (simp_all add: facts)
  show "tw_enter (run_cb c w) = (if tc_side (cb_at w c) = Entering then (tw_enter w)(tc_el (cb_at w c) := None) else tw_enter w)"
    unfolding cb_def [symmetric] by (cases "tc_side cb") (simp_all add: facts)
  show "tw_leave (run_cb c w) = (if tc_side (cb_at w c) = Leaving then (tw_leave w)(tc_el (cb_at w c) := None) else tw_leave w)"
    unfolding cb_def [symmetric] by (cases "tc_side cb") (simp_all add: facts)
  show "tw_display (run_cb c w) = (if tc_side (cb_at w c) = Leaving \<and> \<not> tc_cancelled (cb_at w c)
        then (case tc_rm (cb_at w c) of Hide e \<Rightarrow> (tw_display w)(e := ''none'') | LetGo _ \<Rightarrow> tw_display w) else tw_display w)"
    unfolding cb_def [symmetric] by (cases "tc_side cb"; cases "tc_rm cb") (simp_all add: facts)
  show "tw_pending (run_cb c w) p q = (if tc_side (cb_at w c) = Leaving \<and> tw_parent w (tc_el (cb_at w c)) = Some p \<and> q = tc_key (cb_at w c)
        then None else tw_pending w p q)"
    unfolding cb_def [symmetric] by (cases "tc_side cb") (simp_all add: facts)
  show "tw_tcls (run_cb c w) = (tw_tcls w)(tc_el (cb_at w c) := left_classes (cb_at w c) (tw_tcls w (tc_el (cb_at w c))))"
    unfolding cb_def [symmetric] by (cases "tc_side cb") (simp_all add: facts Let_def)
qed

section \<open>The state of transitions\<close>

text \<open>
  Callbacks whose frame came after they were called: the class they are headed for was added when nobody was left to
  remove it.
\<close>

definition strays :: "trans_event list \<Rightarrow> nat set" where
  "strays es = {c. \<exists>l1 l2. es = l1 @ FrameRun c # l2 \<and> After c \<in> set l1}"

text \<open>What the log says of the end of a callback\<close>

fun about :: "nat \<Rightarrow> trans_event \<Rightarrow> bool" where
  "about c (After c') \<longleftrightarrow> c' = c"
| "about c (Cancelled c') \<longleftrightarrow> c' = c"
| "about c (Removes (Some c') _) \<longleftrightarrow> c' = c"
| "about c _ = False"

text \<open>Somebody will call the callback: a frame, the end of a CSS transition, the application, or a delayed leave will begin.\<close>

definition in_hand :: "trans_world \<Rightarrow> nat \<Rightarrow> bool" where
  "in_hand w c \<longleftrightarrow> c \<in> set (tw_delayed w) \<or>
     (if tc_control (cb_at w c) then c \<in> set (tw_given w) \<or> c \<in> set (tw_inserts w)
      else c \<in> set (tw_frames w) \<or> c \<in> set (tw_ends w))"

text \<open>Why an element may have a transition class\<close>

definition class_of_cb :: "trans_world \<Rightarrow> nat \<Rightarrow> string \<Rightarrow> bool" where
  "class_of_cb w c k \<longleftrightarrow>
     (\<not> tc_called (cb_at w c) \<and> k \<in> {tc_active (cb_at w c), tc_to (cb_at w c)}) \<or>
     (c \<in> set (tw_frames w) \<and> k = tc_start (cb_at w c)) \<or> (c \<in> strays (tw_log w) \<and> k = tc_to (cb_at w c))"

definition classes_ok :: "trans_world \<Rightarrow> bool" where
  "classes_ok w \<longleftrightarrow> (\<forall>el. distinct (tw_tcls w el) \<and>
     (\<forall>k\<in>set (tw_tcls w el). \<exists>c<length (tw_cbs w). tc_el (cb_at w c) = el \<and> tc_css (cb_at w c) \<and> class_of_cb w c k))"

definition current_ok :: "trans_world \<Rightarrow> bool" where
  "current_ok w \<longleftrightarrow>
     (\<forall>el c. tw_enter w el = Some c \<longrightarrow> c < length (tw_cbs w) \<and> tc_side (cb_at w c) = Entering \<and> tc_el (cb_at w c) = el \<and> \<not> tc_called (cb_at w c)) \<and>
     (\<forall>el c. tw_leave w el = Some c \<longrightarrow> c < length (tw_cbs w) \<and> tc_side (cb_at w c) = Leaving \<and> tc_el (cb_at w c) = el \<and> \<not> tc_called (cb_at w c)) \<and>
     (\<forall>el. tw_enter w el = None \<or> tw_leave w el = None) \<and>
     (\<forall>c<length (tw_cbs w). \<not> tc_called (cb_at w c) \<longrightarrow>
        \<not> tc_cancelled (cb_at w c) \<and> (if tc_side (cb_at w c) = Entering then tw_enter w else tw_leave w) (tc_el (cb_at w c)) = Some c)"

lemma current_cong: "tw_enter w' = tw_enter w \<Longrightarrow> tw_leave w' = tw_leave w \<Longrightarrow> tw_cbs w' = tw_cbs w \<Longrightarrow> current_ok w' = current_ok w"
  by (simp only: current_ok_def)

lemma one_current: "current_ok w \<Longrightarrow> tw_enter w el = None \<or> tw_leave w el = None"
  unfolding current_ok_def by (elim conjE) (rule spec)

lemma enter_current: "current_ok w \<Longrightarrow> tw_enter w el = Some c \<Longrightarrow>
    c < length (tw_cbs w) \<and> tc_side (cb_at w c) = Entering \<and> tc_el (cb_at w c) = el \<and> \<not> tc_called (cb_at w c)"
  unfolding current_ok_def by (elim conjE) simp

lemma leave_current: "current_ok w \<Longrightarrow> tw_leave w el = Some c \<Longrightarrow>
    c < length (tw_cbs w) \<and> tc_side (cb_at w c) = Leaving \<and> tc_el (cb_at w c) = el \<and> \<not> tc_called (cb_at w c)"
  unfolding current_ok_def by (elim conjE) simp

definition log_ok :: "trans_world \<Rightarrow> bool" where
  "log_ok w \<longleftrightarrow>
     (\<forall>c. filter (about c) (tw_log w) = (if c < length (tw_cbs w) \<and> tc_called (cb_at w c) then ending c (cb_at w c) else []))"

definition lists_ok :: "trans_world \<Rightarrow> bool" where
  "lists_ok w \<longleftrightarrow>
     (\<forall>c\<in>set (tw_frames w) \<union> set (tw_ends w) \<union> set (tw_inserts w) \<union> set (tw_delayed w) \<union> set (tw_given w). c < length (tw_cbs w)) \<and>
     distinct (tw_frames w) \<and> distinct (tw_delayed w) \<and> (\<forall>c\<in>set (tw_frames w). tc_css (cb_at w c)) \<and>
     (\<forall>c\<in>set (tw_inserts w). tc_side (cb_at w c) = Entering) \<and>
     (\<forall>c\<in>set (tw_delayed w). tc_side (cb_at w c) = Leaving \<and> c \<notin> set (tw_frames w) \<union> set (tw_ends w) \<union> set (tw_given w) \<and> (tc_called (cb_at w c) \<longrightarrow> tc_cancelled (cb_at w c)))"

definition pending_ok :: "trans_world \<Rightarrow> bool" where
  "pending_ok w \<longleftrightarrow>
     (\<forall>p key tag el. tw_pending w p key = Some (tag, el) \<longrightarrow>
        tw_parent w el = Some p \<and> (\<exists>c. tw_leave w el = Some c \<and> tc_key (cb_at w c) = key \<and> c \<notin> set (tw_delayed w)))"

text \<open>\<open>X\<close>: callbacks just made, for which nothing has been arranged yet\<close>

definition trans_ok :: "nat set \<Rightarrow> trans_world \<Rightarrow> bool" where
  "trans_ok X w \<longleftrightarrow> classes_ok w \<and> current_ok w \<and> log_ok w \<and> lists_ok w \<and> pending_ok w \<and>
     (\<forall>c<length (tw_cbs w). \<not> tc_called (cb_at w c) \<longrightarrow> c \<in> X \<or> in_hand w c)"

lemma strays_snoc: "c \<in> strays (es @ [e]) \<longleftrightarrow> c \<in> strays es \<or> e = FrameRun c \<and> After c \<in> set es"
proof
  assume "c \<in> strays (es @ [e])"
  then obtain l1 l2 where l: "es @ [e] = l1 @ FrameRun c # l2" "After c \<in> set l1" by (auto simp: strays_def)
  show "c \<in> strays es \<or> e = FrameRun c \<and> After c \<in> set es"
  proof (cases l2 rule: rev_cases)
    case (snoc l3 x)
    then have "es = l1 @ FrameRun c # l3" using l(1) by simp
    then show ?thesis using l(2) by (auto simp: strays_def)
  qed (use l in simp)
next
  assume "c \<in> strays es \<or> e = FrameRun c \<and> After c \<in> set es"
  then show "c \<in> strays (es @ [e])"
  proof (elim disjE conjE)
    assume "c \<in> strays es"
    then obtain l1 l2 where "es = l1 @ FrameRun c # l2" "After c \<in> set l1" by (auto simp: strays_def)
    then have "es @ [e] = l1 @ FrameRun c # (l2 @ [e])" "After c \<in> set l1" by simp_all
    then show ?thesis unfolding strays_def by blast
  qed (auto simp: strays_def)
qed

lemma strays_more: "c \<in> strays es \<Longrightarrow> c \<in> strays (es @ fs)"
  by (induction fs rule: rev_induct) (simp_all add: strays_snoc flip: append_assoc)

lemma left_classes: "distinct ks \<Longrightarrow> distinct (left_classes cb ks) \<and> set (left_classes cb ks) \<subseteq> set ks \<and>
    (tc_css cb \<longrightarrow> tc_active cb \<notin> set (left_classes cb ks) \<and> tc_to cb \<notin> set (left_classes cb ks) \<and>
      (tc_cancelled cb \<longrightarrow> tc_start cb \<notin> set (left_classes cb ks)))"
  by (auto simp: left_classes_def Let_def)

lemma class_mono:
  assumes "class_of_cb w c k" "cb_at w' c = cb_at w c" "set (tw_frames w) \<subseteq> set (tw_frames w')" "tw_log w' = tw_log w @ es"
  shows "class_of_cb w' c k"
  using assms strays_more [of c "tw_log w" es] by (auto simp: class_of_cb_def)

lemma filter_ending: "filter (about c) (ending c' cb) = (if c = c' then ending c cb else [])"
  by (auto simp: ending_def)

text \<open>A callback that has not been called is called, or cancelled and called.\<close>

definition with_flag :: "nat \<Rightarrow> bool \<Rightarrow> trans_world \<Rightarrow> trans_world" where
  "with_flag c b w = set_cb c (\<lambda>cb. cb\<lparr>tc_cancelled := b\<rparr>) w"

lemma run_ok:
  assumes ok: "trans_ok X w" and c: "c < length (tw_cbs w)" "\<not> tc_called (cb_at w c)" and b: "b \<or> c \<notin> set (tw_delayed w)"
  shows "trans_ok X (run_cb c (with_flag c b w))"
proof -
  define w1 where "w1 = with_flag c b w"
  define cb where "cb = (cb_at w c)\<lparr>tc_cancelled := b\<rparr>"
  let ?w' = "run_cb c w1"
  have w1: "tw_tcls w1 = tw_tcls w" "tw_enter w1 = tw_enter w" "tw_leave w1 = tw_leave w" "tw_pending w1 = tw_pending w"
    "tw_parent w1 = tw_parent w" "tw_log w1 = tw_log w" "cb_at w1 c = cb" "length (tw_cbs w1) = length (tw_cbs w)" "\<not> tc_called (cb_at w1 c)"
    "tw_frames w1 = tw_frames w" "tw_ends w1 = tw_ends w" "tw_inserts w1 = tw_inserts w" "tw_delayed w1 = tw_delayed w" "tw_given w1 = tw_given w"
    using c by (simp_all add: w1_def cb_def with_flag_def)
  have c1: "c < length (tw_cbs w1)" using c(1) w1(8) by simp
  note run = run_new [OF c1 w1(9), unfolded w1(7)]
  have len: "length (tw_cbs ?w') = length (tw_cbs w)" using c1 w1(8,9) by (simp add: run_cbs marked_called_def)
  have other: "cb_at ?w' c' = cb_at w c'" if "c' \<noteq> c" for c'
    using that c1 w1(9) by (simp add: run_cbs marked_called_def w1_def with_flag_def)
  have itself: "cb_at ?w' c = cb\<lparr>tc_called := True\<rparr>" using c1 w1(7,9) by (simp add: run_cbs marked_called_def)
  have parts: "classes_ok w" "current_ok w" "log_ok w" "lists_ok w" "pending_ok w"
    "\<forall>c<length (tw_cbs w). \<not> tc_called (cb_at w c) \<longrightarrow> c \<in> X \<or> in_hand w c" using ok unfolding trans_ok_def by blast+
  have cur: "(if tc_side cb = Entering then tw_enter w else tw_leave w) (tc_el cb) = Some c"
    using parts(2) c unfolding current_ok_def cb_def by simp
  have fields: "tc_side (cb_at ?w' c') = tc_side (cb_at w c')" "tc_el (cb_at ?w' c') = tc_el (cb_at w c')" "tc_key (cb_at ?w' c') = tc_key (cb_at w c')"
      "tc_css (cb_at ?w' c') = tc_css (cb_at w c')" "tc_control (cb_at ?w' c') = tc_control (cb_at w c')"
      "tc_start (cb_at ?w' c') = tc_start (cb_at w c')" "tc_to (cb_at ?w' c') = tc_to (cb_at w c')" for c'
  proof -
    consider "c' = c" | "c' \<noteq> c" by blast
    then have "tc_side (cb_at ?w' c') = tc_side (cb_at w c') \<and> tc_el (cb_at ?w' c') = tc_el (cb_at w c') \<and> tc_key (cb_at ?w' c') = tc_key (cb_at w c') \<and>
      tc_css (cb_at ?w' c') = tc_css (cb_at w c') \<and> tc_control (cb_at ?w' c') = tc_control (cb_at w c') \<and>
      tc_start (cb_at ?w' c') = tc_start (cb_at w c') \<and> tc_to (cb_at ?w' c') = tc_to (cb_at w c')"
    proof cases
      case 1
      show ?thesis unfolding 1 itself cb_def tc_control_def by simp
    next
      case 2
      show ?thesis unfolding other [OF 2] by simp
    qed
    then show "tc_side (cb_at ?w' c') = tc_side (cb_at w c')" "tc_el (cb_at ?w' c') = tc_el (cb_at w c')" "tc_key (cb_at ?w' c') = tc_key (cb_at w c')"
      "tc_css (cb_at ?w' c') = tc_css (cb_at w c')" "tc_control (cb_at ?w' c') = tc_control (cb_at w c')"
      "tc_start (cb_at ?w' c') = tc_start (cb_at w c')" "tc_to (cb_at ?w' c') = tc_to (cb_at w c')" by blast+
  qed
  have cls: "classes_ok ?w'" unfolding classes_ok_def
  proof (intro allI conjI ballI)
    fix el
    have d: "distinct (tw_tcls w el)" using parts(1) by (simp add: classes_ok_def)
    have sub: "distinct (tw_tcls ?w' el) \<and> set (tw_tcls ?w' el) \<subseteq> set (tw_tcls w el)"
      using left_classes [of "tw_tcls w (tc_el cb)" cb] d by (auto simp: run(6) w1(1))
    then show "distinct (tw_tcls ?w' el)" by blast
    fix k assume k: "k \<in> set (tw_tcls ?w' el)"
    then obtain c' where c': "c' < length (tw_cbs w)" "tc_el (cb_at w c') = el" "tc_css (cb_at w c')" "class_of_cb w c' k"
      using parts(1) sub unfolding classes_ok_def by blast
    have "class_of_cb ?w' c' k"
    proof (cases "c' = c")
      case False
      show ?thesis by (rule class_mono [OF c'(4) other [OF False], where es = "ending c cb"]) (simp_all add: run(1) w1)
    next
      case True
      have "tc_el cb = el" "tc_css cb" using c'(2,3) True by (simp_all add: cb_def)
      then have "k \<in> set (left_classes cb (tw_tcls w el))" using k by (simp add: run(6) w1(1))
      then have no: "k \<noteq> tc_active cb" "k \<noteq> tc_to cb" using left_classes [OF d, of cb] \<open>tc_css cb\<close> by auto
      then have "c \<in> set (tw_frames w) \<and> k = tc_start cb" using c'(4) True by (auto simp: class_of_cb_def cb_def)
      then show ?thesis using True by (simp add: class_of_cb_def w1 itself)
    qed
    then show "\<exists>c'<length (tw_cbs ?w'). tc_el (cb_at ?w' c') = el \<and> tc_css (cb_at ?w' c') \<and> class_of_cb ?w' c' k"
      using c' by (intro exI [of _ c']) (simp add: len fields)
  qed
  have cur': "tw_enter ?w' el = (if tc_side cb = Entering \<and> el = tc_el cb then None else tw_enter w el)"
    "tw_leave ?w' el = (if tc_side cb = Leaving \<and> el = tc_el cb then None else tw_leave w el)" for el
    by (simp_all add: run(2,3) w1)
  have now: "tc_called (cb_at ?w' c)" using itself by simp
  have current: "current_ok ?w'" unfolding current_ok_def
  proof (intro conjI allI impI)
    fix el c' assume a: "tw_enter ?w' el = Some c'"
    then have e: "tw_enter w el = Some c'" "\<not> (tc_side cb = Entering \<and> el = tc_el cb)" using cur' by (auto split: if_splits)
    then have p: "c' < length (tw_cbs w)" "tc_side (cb_at w c') = Entering" "tc_el (cb_at w c') = el" "\<not> tc_called (cb_at w c')"
      using enter_current [OF parts(2)] by blast+
    then have "c' \<noteq> c" using e(2) by (auto simp: cb_def)
    then show "c' < length (tw_cbs ?w')" "tc_side (cb_at ?w' c') = Entering" "tc_el (cb_at ?w' c') = el" "\<not> tc_called (cb_at ?w' c')"
      using p len other by simp_all
  next
    fix el c' assume a: "tw_leave ?w' el = Some c'"
    then have e: "tw_leave w el = Some c'" "\<not> (tc_side cb = Leaving \<and> el = tc_el cb)" using cur' by (auto split: if_splits)
    then have p: "c' < length (tw_cbs w)" "tc_side (cb_at w c') = Leaving" "tc_el (cb_at w c') = el" "\<not> tc_called (cb_at w c')"
      using leave_current [OF parts(2)] by blast+
    then have "c' \<noteq> c" using e(2) by (auto simp: cb_def)
    then show "c' < length (tw_cbs ?w')" "tc_side (cb_at ?w' c') = Leaving" "tc_el (cb_at ?w' c') = el" "\<not> tc_called (cb_at ?w' c')"
      using p len other by simp_all
  next
    fix el
    show "tw_enter ?w' el = None \<or> tw_leave ?w' el = None" using one_current [OF parts(2), of el] unfolding cur' by presburger
  next
    fix c' assume a: "c' < length (tw_cbs ?w')" "\<not> tc_called (cb_at ?w' c')"
    then have n: "c' \<noteq> c" using now by blast
    then have p: "\<not> tc_cancelled (cb_at w c')" "(if tc_side (cb_at w c') = Entering then tw_enter w else tw_leave w) (tc_el (cb_at w c')) = Some c'"
      using a len other parts(2) unfolding current_ok_def by auto
    show "\<not> tc_cancelled (cb_at ?w' c')" using p(1) other n by simp
    have "tc_side (cb_at w c') = tc_side cb \<Longrightarrow> tc_el (cb_at w c') \<noteq> tc_el cb" using p(2) cur n by auto
    then show "(if tc_side (cb_at ?w' c') = Entering then tw_enter ?w' else tw_leave ?w') (tc_el (cb_at ?w' c')) = Some c'"
      using p(2) other [OF n] by (cases "tc_side (cb_at w c')"; cases "tc_side cb") (simp_all add: cur')
  qed
  have log: "log_ok ?w'" unfolding log_ok_def
  proof
    fix c'
    have "filter (about c') (tw_log w) = (if c' < length (tw_cbs w) \<and> tc_called (cb_at w c') then ending c' (cb_at w c') else [])"
      using parts(3) unfolding log_ok_def by blast
    then show "filter (about c') (tw_log ?w') = (if c' < length (tw_cbs ?w') \<and> tc_called (cb_at ?w' c') then ending c' (cb_at ?w' c') else [])"
      using c other itself len by (cases "c' = c") (simp_all add: run(1) w1 filter_ending ending_def cb_def)
  qed
  have lists: "lists_ok ?w'"
  proof -
    have "tc_called (cb_at ?w' c') \<longrightarrow> tc_cancelled (cb_at ?w' c')" if "c' \<in> set (tw_delayed w)" for c'
    proof (cases "c' = c")
      case True
      then have b using b that by blast
      then show ?thesis by (simp add: True itself cb_def)
    next
      case False
      then show ?thesis using that parts(4) other by (simp add: lists_ok_def)
    qed
    then show ?thesis using parts(4) unfolding lists_ok_def by (simp add: w1 len fields)
  qed
  have pend: "pending_ok ?w'" unfolding pending_ok_def
  proof (intro allI impI)
    fix p key tag el assume "tw_pending ?w' p key = Some (tag, el)"
    then have o: "tw_pending w p key = Some (tag, el)" "\<not> (tc_side cb = Leaving \<and> tw_parent w (tc_el cb) = Some p \<and> key = tc_key cb)"
      using run(5) [of p key] by (auto simp: w1 split: if_splits)
    then obtain c' where p: "tw_parent w el = Some p" "tw_leave w el = Some c'" "tc_key (cb_at w c') = key" "c' \<notin> set (tw_delayed w)"
      using parts(5) unfolding pending_ok_def by blast
    have "\<not> (tc_side cb = Leaving \<and> el = tc_el cb)"
    proof
      assume a: "tc_side cb = Leaving \<and> el = tc_el cb"
      then have "c' = c" using cur p(2) by simp
      then show False using o(2) a p(1,3) by (simp add: cb_def)
    qed
    then show "tw_parent ?w' el = Some p \<and> (\<exists>c. tw_leave ?w' el = Some c \<and> tc_key (cb_at ?w' c) = key \<and> c \<notin> set (tw_delayed ?w'))"
      using p by (simp add: w1 cur' fields)
  qed
  have "c' \<in> X \<or> in_hand ?w' c'" if "c' < length (tw_cbs ?w')" "\<not> tc_called (cb_at ?w' c')" for c'
  proof -
    have "c' \<noteq> c" using that(2) now by blast
    then have "c' \<in> X \<or> in_hand w c'" using that parts(6) len other by simp
    then show ?thesis by (simp only: in_hand_def fields w1 run_rest)
  qed
  then show ?thesis using cls current log lists pend unfolding trans_ok_def w1_def by blast
qed

lemma in_hand_mono:
  assumes "in_hand w c" "tc_control (cb_at w' c) = tc_control (cb_at w c)" "set (tw_delayed w) \<subseteq> set (tw_delayed w')"
    "set (tw_given w) \<subseteq> set (tw_given w')" "set (tw_inserts w) \<subseteq> set (tw_inserts w')" "set (tw_frames w) \<subseteq> set (tw_frames w')"
    "set (tw_ends w) \<subseteq> set (tw_ends w')"
  shows "in_hand w' c"
  using assms by (auto simp: in_hand_def split: if_splits)

lemma in_hand_except:
  assumes "in_hand w c" "c \<noteq> d" "tc_control (cb_at w' c) = tc_control (cb_at w c)" "set (tw_delayed w) - {d} \<subseteq> set (tw_delayed w')"
    "set (tw_given w) - {d} \<subseteq> set (tw_given w')" "set (tw_inserts w) - {d} \<subseteq> set (tw_inserts w')"
    "set (tw_frames w) - {d} \<subseteq> set (tw_frames w')" "set (tw_ends w) - {d} \<subseteq> set (tw_ends w')"
  shows "in_hand w' c"
  using assms by (auto simp: in_hand_def split: if_splits)

lemma trans_okD:
  assumes "trans_ok X w"
  shows "classes_ok w" "current_ok w" "log_ok w" "lists_ok w" "pending_ok w"
    "\<And>c. c < length (tw_cbs w) \<Longrightarrow> \<not> tc_called (cb_at w c) \<Longrightarrow> c \<in> X \<or> in_hand w c"
  using assms unfolding trans_ok_def by blast+

lemma trans_okI:
  assumes "classes_ok w" "current_ok w" "log_ok w" "lists_ok w" "pending_ok w"
    "\<And>c. c < length (tw_cbs w) \<Longrightarrow> \<not> tc_called (cb_at w c) \<Longrightarrow> c \<in> X \<or> in_hand w c"
  shows "trans_ok X w"
  using assms unfolding trans_ok_def by blast

lemma not_cancelled:
  assumes "current_ok w" "c < length (tw_cbs w)" "\<not> tc_called (cb_at w c)"
  shows "\<not> tc_cancelled (cb_at w c)"
    and "(if tc_side (cb_at w c) = Entering then tw_enter w else tw_leave w) (tc_el (cb_at w c)) = Some c"
  using assms unfolding current_ok_def by blast+

lemma run_any:
  assumes "trans_ok X w" "c < length (tw_cbs w)" "c \<notin> set (tw_delayed w)"
  shows "trans_ok X (run_cb c w)"
proof (cases "tc_called (cb_at w c)")
  case True
  then show ?thesis using assms(1) by (simp add: run_called)
next
  case False
  have "\<not> tc_cancelled (cb_at w c)" using not_cancelled(1) [OF trans_okD(2) [OF assms(1)] assms(2) False] .
  then have "(cb_at w c)\<lparr>tc_cancelled := False\<rparr> = cb_at w c" by simp
  then have "with_flag c False w = w" by (simp add: with_flag_def set_cb_def)
  then show ?thesis using run_ok [OF assms(1,2) False, of False] assms(3) by simp
qed

lemma called_after: "c < length (tw_cbs w) \<Longrightarrow> tc_called (cb_at (run_cb c w) c)"
  by (cases "tc_called (cb_at w c)") (simp_all add: run_called run_cbs marked_called_def)

lemma called_kept: "c < length (tw_cbs w) \<Longrightarrow> tc_called (cb_at w c') \<Longrightarrow> tc_called (cb_at (run_cb c w) c')"
  by (cases "c' = c") (simp_all add: called_after run_cbs marked_called_def)

lemma run_length [simp]: "length (tw_cbs (run_cb c w)) = length (tw_cbs w)"
  by (simp add: run_defs split: side.split)

lemma run_stable [simp]: "tc_control (cb_at (run_cb c w) c') = tc_control (cb_at w c')" "tc_css (cb_at (run_cb c w) c') = tc_css (cb_at w c')"
proof -
  have "tw_cbs (run_cb c w) = tw_cbs w \<or> tw_cbs (run_cb c w) = marked_called c w"
    by (simp add: run_defs marked_called_def split: side.split)
  moreover have "tc_control (marked_called c w ! c') = tc_control (cb_at w c') \<and> tc_css (marked_called c w ! c') = tc_css (cb_at w c')"
    by (cases "c < length (tw_cbs w)"; cases "c' = c") (simp_all add: marked_called_def tc_control_def list_update_beyond)
  ultimately show "tc_control (cb_at (run_cb c w) c') = tc_control (cb_at w c')" "tc_css (cb_at (run_cb c w) c') = tc_css (cb_at w c')"
    by metis+
qed

text \<open>\<open>X\<close> can go when what it holds is called or in somebody's hand.\<close>

lemma trans_ok_less:
  assumes "trans_ok (insert c X) w" "tc_called (cb_at w c) \<or> in_hand w c"
  shows "trans_ok X w"
  using assms unfolding trans_ok_def by (metis insert_iff)

lemma trans_ok_more: "trans_ok {} w \<Longrightarrow> trans_ok X w"
  unfolding trans_ok_def by blast

text \<open>A change of nothing but the lists, the log and the classes\<close>

definition quiet :: "trans_event \<Rightarrow> bool" where
  "quiet e \<longleftrightarrow> (\<forall>c. \<not> about c e \<and> e \<noteq> FrameRun c)"

lemma noted_ok:
  assumes "trans_ok X w" "list_all quiet es"
  shows "trans_ok X (noted es w)"
proof (rule trans_okI)
  note ok = trans_okD [OF assms(1)]
  show "classes_ok (noted es w)" unfolding classes_ok_def
  proof (intro allI conjI ballI)
    fix el show "distinct (tw_tcls (noted es w) el)" using ok(1) by (simp add: classes_ok_def)
    fix k assume "k \<in> set (tw_tcls (noted es w) el)"
    then obtain c where c: "c < length (tw_cbs w)" "tc_el (cb_at w c) = el" "tc_css (cb_at w c)" "class_of_cb w c k"
      using ok(1) unfolding classes_ok_def by auto
    have "class_of_cb (noted es w) c k" by (rule class_mono [OF c(4)]) simp_all
    then show "\<exists>c<length (tw_cbs (noted es w)). tc_el (cb_at (noted es w) c) = el \<and> tc_css (cb_at (noted es w) c) \<and> class_of_cb (noted es w) c k"
      using c by (intro exI [of _ c]) simp
  qed
  have "filter (about c) es = []" for c using assms(2) by (auto simp: filter_empty_conv list_all_iff quiet_def)
  then show "log_ok (noted es w)" using ok(3) by (simp add: log_ok_def)
  show "current_ok (noted es w)" using ok(2) current_cong [of "noted es w" w] by simp
  show "lists_ok (noted es w)" "pending_ok (noted es w)" using ok(4,5) by (simp_all add: lists_ok_def pending_ok_def)
  show "c \<in> X \<or> in_hand (noted es w) c" if "c < length (tw_cbs (noted es w))" "\<not> tc_called (cb_at (noted es w) c)" for c
    using ok(6) [of c] that in_hand_mono [of w c "noted es w"] by auto
qed

lemma given_ok:
  assumes "trans_ok X w" "c < length (tw_cbs w)" "c \<notin> set (tw_delayed w)"
  shows "trans_ok X (w\<lparr>tw_given := tw_given w @ [c]\<rparr>)"
proof (rule trans_okI)
  note ok = trans_okD [OF assms(1)]
  show "classes_ok (w\<lparr>tw_given := tw_given w @ [c]\<rparr>)" using ok(1) by (simp add: classes_ok_def class_of_cb_def)
  show "current_ok (w\<lparr>tw_given := tw_given w @ [c]\<rparr>)" using ok(2) current_cong [of "w\<lparr>tw_given := tw_given w @ [c]\<rparr>" w] by simp
  show "log_ok (w\<lparr>tw_given := tw_given w @ [c]\<rparr>)" using ok(3) by (simp add: log_ok_def)
  show "lists_ok (w\<lparr>tw_given := tw_given w @ [c]\<rparr>)" using ok(4) assms(2,3) by (auto simp: lists_ok_def)
  show "pending_ok (w\<lparr>tw_given := tw_given w @ [c]\<rparr>)" using ok(5) by (simp add: pending_ok_def)
  show "c' \<in> X \<or> in_hand (w\<lparr>tw_given := tw_given w @ [c]\<rparr>) c'"
    if "c' < length (tw_cbs (w\<lparr>tw_given := tw_given w @ [c]\<rparr>))" "\<not> tc_called (cb_at (w\<lparr>tw_given := tw_given w @ [c]\<rparr>) c')" for c'
    using ok(6) [of c'] that in_hand_mono [of w c' "w\<lparr>tw_given := tw_given w @ [c]\<rparr>"] by auto
qed

lemma call_hook_ok:
  assumes "trans_ok X w" "c < length (tw_cbs w)" "c \<notin> set (tw_delayed w)"
  shows "trans_ok X (call_hook sync c w)"
proof (cases "tc_hook (cb_at w c)")
  case None
  then show ?thesis using assms(1) by (simp add: call_hook_def)
next
  case (Some f)
  have "trans_ok X (noted [HookCall c] (w\<lparr>tw_given := tw_given w @ [c]\<rparr>))"
    by (rule noted_ok [OF given_ok [OF assms]]) (simp add: quiet_def)
  then show ?thesis using run_any [of X "noted [HookCall c] (w\<lparr>tw_given := tw_given w @ [c]\<rparr>)" c] assms(2,3)
    by (simp add: call_hook_def Some Let_def)
qed

lemma call_hook_given: "c < length (tw_cbs w) \<Longrightarrow> tc_control (cb_at w c) \<Longrightarrow> c \<in> set (tw_given (call_hook sync c w))"
  by (auto simp: call_hook_def tc_control_def getHookArgumentsLength_def Let_def split: option.splits)

lemma call_hook_called: "c < length (tw_cbs w) \<Longrightarrow> tc_called (cb_at w c') \<Longrightarrow> tc_called (cb_at (call_hook sync c w) c')"
  using called_kept [of c "noted [HookCall c] (w\<lparr>tw_given := tw_given w @ [c]\<rparr>)" c']
  by (simp add: call_hook_def Let_def split: option.split)

lemma call_hook_rest [simp]:
  "length (tw_cbs (call_hook sync c w)) = length (tw_cbs w)" "tw_delayed (call_hook sync c w) = tw_delayed w"
  "tw_frames (call_hook sync c w) = tw_frames w" "tw_ends (call_hook sync c w) = tw_ends w" "tw_inserts (call_hook sync c w) = tw_inserts w"
  "tc_control (cb_at (call_hook sync c w) c') = tc_control (cb_at w c')" "tc_css (cb_at (call_hook sync c w) c') = tc_css (cb_at w c')" "tw_parent (call_hook sync c w) = tw_parent w"
  by (simp_all add: call_hook_def Let_def split: option.split)

text \<open>The first classes, and what the frame does\<close>

lemma begin_ok:
  assumes "trans_ok X w" "c < length (tw_cbs w)" "\<not> tc_called (cb_at w c)" "c \<notin> set (tw_frames w)" "c \<notin> set (tw_delayed w)"
  shows "trans_ok X (begin_css c w)"
proof (cases "tc_css (cb_at w c)")
  case False
  then show ?thesis using assms(1) by (simp add: begin_css_def)
next
  case True
  let ?w1 = "addTransitionClass (tc_el (cb_at w c)) (tc_active (cb_at w c)) (addTransitionClass (tc_el (cb_at w c)) (tc_start (cb_at w c)) w)"
  let ?w' = "?w1\<lparr>tw_frames := tw_frames ?w1 @ [c]\<rparr>"
  note ok = trans_okD [OF assms(1)]
  have "trans_ok X ?w'"
  proof (rule trans_okI)
    show "classes_ok ?w'" unfolding classes_ok_def
    proof (intro allI conjI ballI)
      fix el
      have d: "distinct (tw_tcls w el)" using ok(1) by (simp add: classes_ok_def)
      then show "distinct (tw_tcls ?w' el)" by auto
      fix k assume "k \<in> set (tw_tcls ?w' el)"
      then consider "k \<in> set (tw_tcls w el)" | "el = tc_el (cb_at w c)" "k \<in> {tc_start (cb_at w c), tc_active (cb_at w c)}"
        by (auto split: if_splits)
      then show "\<exists>c<length (tw_cbs ?w'). tc_el (cb_at ?w' c) = el \<and> tc_css (cb_at ?w' c) \<and> class_of_cb ?w' c k"
      proof cases
        case 1
        then obtain c' where c': "c' < length (tw_cbs w)" "tc_el (cb_at w c') = el" "tc_css (cb_at w c')" "class_of_cb w c' k"
          using ok(1) unfolding classes_ok_def by blast
        have "class_of_cb ?w' c' k" by (rule class_mono [OF c'(4), where es = "[]"]) auto
        then show ?thesis using c' by (intro exI [of _ c']) simp
      next
        case 2
        then show ?thesis using assms(2,3) True by (intro exI [of _ c]) (auto simp: class_of_cb_def)
      qed
    qed
    show "current_ok ?w'" using ok(2) current_cong [of ?w' w] by simp
    show "log_ok ?w'" using ok(3) by (simp add: log_ok_def)
    show "lists_ok ?w'" using ok(4) assms(2,4,5) True by (auto simp: lists_ok_def)
    show "pending_ok ?w'" using ok(5) by (simp add: pending_ok_def)
    show "c' \<in> X \<or> in_hand ?w' c'" if "c' < length (tw_cbs ?w')" "\<not> tc_called (cb_at ?w' c')" for c'
      using ok(6) [of c'] that in_hand_mono [of w c' ?w'] by auto
  qed
  then show ?thesis using True by (simp add: begin_css_def Let_def)
qed

lemma begin_rest [simp]:
  "tw_cbs (begin_css c w) = tw_cbs w" "tw_delayed (begin_css c w) = tw_delayed w" "tw_ends (begin_css c w) = tw_ends w"
  "tw_inserts (begin_css c w) = tw_inserts w" "tw_given (begin_css c w) = tw_given w"
  "tw_frames (begin_css c w) = (if tc_css (cb_at w c) then tw_frames w @ [c] else tw_frames w)"
  "tw_enter (begin_css c w) = tw_enter w" "tw_leave (begin_css c w) = tw_leave w" "tw_display (begin_css c w) = tw_display w"
  "tw_orig (begin_css c w) = tw_orig w"
  by (simp_all add: begin_css_def Let_def)

text \<open>A callback for which nothing has been arranged but its frame has somebody to call it when all is begun.\<close>

lemma finish_ok:
  assumes "trans_ok {c} w" "c < length (tw_cbs w)" "c \<notin> set (tw_delayed w)"
    and "tc_control (cb_at w c) \<Longrightarrow> c \<in> set (tw_given w) \<or> c \<in> set (tw_inserts w)"
    and "tc_css (cb_at w c) \<Longrightarrow> c \<in> set (tw_frames w)"
  shows "trans_ok {} (finish_now c w)"
proof (cases "\<not> tc_css (cb_at w c) \<and> \<not> tc_control (cb_at w c)")
  case True
  have "trans_ok {c} (run_cb c w)" by (rule run_any [OF assms(1-3)])
  then have "trans_ok {} (run_cb c w)" by (rule trans_ok_less) (simp add: called_after assms(2))
  then show ?thesis using True by (simp add: finish_now_def)
next
  case False
  have "in_hand w c" using assms(4,5) False by (auto simp: in_hand_def)
  then have "trans_ok {} w" using trans_ok_less [OF assms(1)] by blast
  then show ?thesis using False by (auto simp: finish_now_def)
qed

lemma frame_ok:
  assumes "trans_ok {} w" "c \<in> set (tw_frames w)"
  shows "trans_ok {} (next_frame styles c (w\<lparr>tw_frames := remove1 c (tw_frames w)\<rparr>))"
proof -
  note ok = trans_okD [OF assms(1)]
  let ?cb = "cb_at w c"
  let ?w0 = "w\<lparr>tw_frames := remove1 c (tw_frames w)\<rparr>"
  let ?w1 = "noted [FrameRun c] (removeTransitionClass (tc_el ?cb) (tc_start ?cb) ?w0)"
  have c: "c < length (tw_cbs w)" "tc_css ?cb" "distinct (tw_frames w)" "c \<notin> set (tw_delayed w)" using ok(4) assms(2) by (auto simp: lists_ok_def)
  have w1: "trans_ok {c} ?w1"
  proof (rule trans_okI)
    show "classes_ok ?w1" unfolding classes_ok_def
    proof (intro allI conjI ballI)
      fix el
      have d: "distinct (tw_tcls w el)" using ok(1) by (simp add: classes_ok_def)
      then show "distinct (tw_tcls ?w1 el)" by auto
      fix k assume k: "k \<in> set (tw_tcls ?w1 el)"
      then have k': "k \<in> set (tw_tcls w el)" "el = tc_el ?cb \<Longrightarrow> k \<noteq> tc_start ?cb" using d by (auto split: if_splits)
      then obtain c' where c': "c' < length (tw_cbs w)" "tc_el (cb_at w c') = el" "tc_css (cb_at w c')" "class_of_cb w c' k"
        using ok(1) unfolding classes_ok_def by blast
      have "class_of_cb ?w1 c' k"
        using c'(2,4) k'(2) c(3) strays_more [of c' "tw_log w" "[FrameRun c]"] by (auto simp: class_of_cb_def)
      then show "\<exists>c'<length (tw_cbs ?w1). tc_el (cb_at ?w1 c') = el \<and> tc_css (cb_at ?w1 c') \<and> class_of_cb ?w1 c' k"
        using c' by (intro exI [of _ c']) simp
    qed
    show "current_ok ?w1" using ok(2) current_cong [of ?w1 w] by simp
    show "log_ok ?w1" using ok(3) by (simp add: log_ok_def)
    show "lists_ok ?w1" using ok(4) by (auto simp: lists_ok_def dest: notin_set_remove1)
    show "pending_ok ?w1" using ok(5) by (simp add: pending_ok_def)
    show "c' \<in> {c} \<or> in_hand ?w1 c'" if "c' < length (tw_cbs ?w1)" "\<not> tc_called (cb_at ?w1 c')" for c'
      using ok(6) [of c'] that by (auto simp: in_hand_def split: if_splits)
  qed
  show ?thesis
  proof (cases "tc_cancelled ?cb")
    case True
    then have "tc_called ?cb" using not_cancelled(1) [OF ok(2) c(1)] by blast
    then have "trans_ok {} ?w1" using trans_ok_less [OF w1] by simp
    then show ?thesis using True by (simp add: next_frame_def Let_def)
  next
    case False
    let ?w2 = "addTransitionClass (tc_el ?cb) (tc_to ?cb) ?w1"
    have stray: "tc_called ?cb \<Longrightarrow> c \<in> strays (tw_log ?w1)"
    proof -
      assume called: "tc_called ?cb"
      then have "filter (about c) (tw_log w) = ending c ?cb" using ok(3) c(1) by (simp add: log_ok_def)
      then have "After c \<in> set (filter (about c) (tw_log w))" using False by (simp add: ending_def)
      then show ?thesis by (simp add: strays_snoc)
    qed
    have w2: "trans_ok {c} ?w2"
    proof (rule trans_okI)
      note ok1 = trans_okD [OF w1]
      show "classes_ok ?w2" unfolding classes_ok_def
      proof (intro allI conjI ballI)
        fix el
        have d: "distinct (tw_tcls ?w1 el)" using ok1(1) unfolding classes_ok_def by blast
        then show "distinct (tw_tcls ?w2 el)" by auto
        fix k assume "k \<in> set (tw_tcls ?w2 el)"
        then consider "k \<in> set (tw_tcls ?w1 el)" | "el = tc_el ?cb" "k = tc_to ?cb" by (auto split: if_splits)
        then show "\<exists>c<length (tw_cbs ?w2). tc_el (cb_at ?w2 c) = el \<and> tc_css (cb_at ?w2 c) \<and> class_of_cb ?w2 c k"
        proof cases
          case 1
          then obtain c' where c': "c' < length (tw_cbs ?w1)" "tc_el (cb_at ?w1 c') = el" "tc_css (cb_at ?w1 c')" "class_of_cb ?w1 c' k"
            using ok1(1) unfolding classes_ok_def by blast
          have "class_of_cb ?w2 c' k" by (rule class_mono [OF c'(4), where es = "[]"]) auto
          then show ?thesis using c' by (intro exI [of _ c']) simp
        next
          case 2
          then show ?thesis using c(1,2) stray by (intro exI [of _ c]) (auto simp: class_of_cb_def)
        qed
      qed
      show "current_ok ?w2" using ok1(2) current_cong [of ?w2 ?w1] by simp
      show "log_ok ?w2" "lists_ok ?w2" "pending_ok ?w2" using ok1(3-5) by (simp_all add: log_ok_def lists_ok_def pending_ok_def)
      show "c' \<in> {c} \<or> in_hand ?w2 c'" if "c' < length (tw_cbs ?w2)" "\<not> tc_called (cb_at ?w2 c')" for c'
        using ok1(6) [of c'] that in_hand_mono [of ?w1 c' ?w2] by auto
    qed
    consider "tc_control ?cb" | "\<not> tc_control ?cb" "isValidDuration (tc_duration ?cb) \<or> ti_type (getTransitionInfo styles (tc_type ?cb)) \<noteq> None"
      | "\<not> tc_control ?cb" "\<not> (isValidDuration (tc_duration ?cb) \<or> ti_type (getTransitionInfo styles (tc_type ?cb)) \<noteq> None)" by blast
    then show ?thesis
    proof cases
      case 1
      have "tc_called ?cb \<or> in_hand ?w2 c" using ok(6) [OF c(1)] c(4) 1 by (auto simp: in_hand_def)
      then have "trans_ok {} ?w2" using trans_ok_less [OF w2] by simp
      then show ?thesis using False 1 by (simp add: next_frame_def Let_def)
    next
      case 2
      let ?w3 = "?w2\<lparr>tw_ends := tw_ends ?w2 @ [c]\<rparr>"
      have "trans_ok {c} ?w3"
      proof (rule trans_okI)
        note ok2 = trans_okD [OF w2]
        show "classes_ok ?w3" using ok2(1) by (simp add: classes_ok_def class_of_cb_def)
        show "current_ok ?w3" using ok2(2) current_cong [of ?w3 ?w2] by simp
        show "log_ok ?w3" "pending_ok ?w3" using ok2(3,5) by (simp_all add: log_ok_def pending_ok_def)
        show "lists_ok ?w3" using ok2(4) c(1,4) by (auto simp: lists_ok_def)
        show "c' \<in> {c} \<or> in_hand ?w3 c'" if "c' < length (tw_cbs ?w3)" "\<not> tc_called (cb_at ?w3 c')" for c'
          using ok2(6) [of c'] that in_hand_mono [of ?w2 c' ?w3] by auto
      qed
      moreover have "in_hand ?w3 c" using 2(1) by (simp add: in_hand_def)
      ultimately have "trans_ok {} ?w3" using trans_ok_less by blast
      then show ?thesis using False 2 by (simp add: next_frame_def Let_def)
    next
      case 3
      have "trans_ok {c} (run_cb c ?w2)" by (rule run_any [OF w2]) (simp_all add: c)
      then have "trans_ok {} (run_cb c ?w2)" by (rule trans_ok_less) (simp add: called_after c(1))
      then show ?thesis using False 3 by (simp add: next_frame_def Let_def)
    qed
  qed
qed

lemma with_cb_fields [simp]:
  "tw_tcls (with_cb cb w) = tw_tcls w" "tw_parent (with_cb cb w) = tw_parent w" "tw_pending (with_cb cb w) = tw_pending w"
  "tw_display (with_cb cb w) = tw_display w" "tw_orig (with_cb cb w) = tw_orig w" "tw_frames (with_cb cb w) = tw_frames w"
  "tw_ends (with_cb cb w) = tw_ends w" "tw_inserts (with_cb cb w) = tw_inserts w" "tw_delayed (with_cb cb w) = tw_delayed w"
  "tw_given (with_cb cb w) = tw_given w" "tw_log (with_cb cb w) = tw_log w" "tw_cbs (with_cb cb w) = tw_cbs w @ [cb]"
  "tw_enter (with_cb cb w) = (if tc_side cb = Entering then (tw_enter w)(tc_el cb := Some (length (tw_cbs w))) else tw_enter w)"
  "tw_leave (with_cb cb w) = (if tc_side cb = Leaving then (tw_leave w)(tc_el cb := Some (length (tw_cbs w))) else tw_leave w)"
  by (simp_all add: with_cb_def split: side.split)

lemma new_cb_ok:
  assumes "trans_ok {} w" "tw_enter w (tc_el cb) = None" "tw_leave w (tc_el cb) = None" "\<not> tc_called cb" "\<not> tc_cancelled cb"
  shows "trans_ok {length (tw_cbs w)} (with_cb cb w)"
proof (rule trans_okI)
  note ok = trans_okD [OF assms(1)]
  let ?w' = "with_cb cb w"
  have old: "c < length (tw_cbs w) \<Longrightarrow> cb_at ?w' c = cb_at w c" for c by (simp add: nth_append)
  have new: "cb_at ?w' (length (tw_cbs w)) = cb" by simp
  have less: "c < length (tw_cbs ?w') \<longleftrightarrow> c < length (tw_cbs w) \<or> c = length (tw_cbs w)" for c by auto
  show "classes_ok ?w'" unfolding classes_ok_def
  proof (intro allI conjI ballI)
    fix el
    show "distinct (tw_tcls ?w' el)" using ok(1) by (simp add: classes_ok_def)
    fix k assume "k \<in> set (tw_tcls ?w' el)"
    then obtain c' where c': "c' < length (tw_cbs w)" "tc_el (cb_at w c') = el" "tc_css (cb_at w c')" "class_of_cb w c' k"
      using ok(1) unfolding classes_ok_def by auto
    have "class_of_cb ?w' c' k" by (rule class_mono [OF c'(4) old [OF c'(1)], where es = "[]"]) auto
    then show "\<exists>c<length (tw_cbs ?w'). tc_el (cb_at ?w' c) = el \<and> tc_css (cb_at ?w' c) \<and> class_of_cb ?w' c k"
      using c' old less by (intro exI [of _ c']) auto
  qed
  show "current_ok ?w'" unfolding current_ok_def
  proof (intro conjI allI impI)
    fix el c assume a: "tw_enter ?w' el = Some c"
    consider "c = length (tw_cbs w)" "tc_side cb = Entering" "el = tc_el cb" | "tw_enter w el = Some c"
      using a by (cases "tc_side cb = Entering \<and> el = tc_el cb") (simp_all split: if_splits)
    then have "c < length (tw_cbs ?w') \<and> tc_side (cb_at ?w' c) = Entering \<and> tc_el (cb_at ?w' c) = el \<and> \<not> tc_called (cb_at ?w' c)"
    proof cases
      case 1
      then show ?thesis using new assms(4) by simp
    next
      case 2
      then show ?thesis using old less enter_current [OF ok(2)] by auto
    qed
    then show "c < length (tw_cbs ?w')" "tc_side (cb_at ?w' c) = Entering" "tc_el (cb_at ?w' c) = el" "\<not> tc_called (cb_at ?w' c)" by blast+
  next
    fix el c assume a: "tw_leave ?w' el = Some c"
    consider "c = length (tw_cbs w)" "tc_side cb = Leaving" "el = tc_el cb" | "tw_leave w el = Some c"
      using a by (cases "tc_side cb = Leaving \<and> el = tc_el cb") (simp_all split: if_splits)
    then have "c < length (tw_cbs ?w') \<and> tc_side (cb_at ?w' c) = Leaving \<and> tc_el (cb_at ?w' c) = el \<and> \<not> tc_called (cb_at ?w' c)"
    proof cases
      case 1
      then show ?thesis using new assms(4) by simp
    next
      case 2
      then show ?thesis using old less leave_current [OF ok(2)] by auto
    qed
    then show "c < length (tw_cbs ?w')" "tc_side (cb_at ?w' c) = Leaving" "tc_el (cb_at ?w' c) = el" "\<not> tc_called (cb_at ?w' c)" by blast+
  next
    fix el show "tw_enter ?w' el = None \<or> tw_leave ?w' el = None" using one_current [OF ok(2), of el] assms(2,3) by auto
  next
    fix c assume a: "c < length (tw_cbs ?w')" "\<not> tc_called (cb_at ?w' c)"
    have "\<not> tc_cancelled (cb_at ?w' c) \<and> (if tc_side (cb_at ?w' c) = Entering then tw_enter ?w' else tw_leave ?w') (tc_el (cb_at ?w' c)) = Some c"
    proof (cases "c = length (tw_cbs w)")
      case True
      then show ?thesis using new assms(5) by (cases "tc_side cb") simp_all
    next
      case False
      then have c: "c < length (tw_cbs w)" using a less by auto
      then have o: "\<not> tc_cancelled (cb_at w c)" "(if tc_side (cb_at w c) = Entering then tw_enter w else tw_leave w) (tc_el (cb_at w c)) = Some c"
        using not_cancelled [OF ok(2) c] a old by auto
      then have "tc_el (cb_at w c) \<noteq> tc_el cb" using assms(2,3) by (auto split: if_splits)
      then show ?thesis using o old [OF c] by auto
    qed
    then show "\<not> tc_cancelled (cb_at ?w' c)"
      "(if tc_side (cb_at ?w' c) = Entering then tw_enter ?w' else tw_leave ?w') (tc_el (cb_at ?w' c)) = Some c" by blast+
  qed
  show "log_ok ?w'" unfolding log_ok_def
  proof
    fix c
    have "filter (about c) (tw_log w) = (if c < length (tw_cbs w) \<and> tc_called (cb_at w c) then ending c (cb_at w c) else [])"
      using ok(3) unfolding log_ok_def by blast
    then show "filter (about c) (tw_log ?w') = (if c < length (tw_cbs ?w') \<and> tc_called (cb_at ?w' c) then ending c (cb_at ?w' c) else [])"
      using old [of c] new assms(4) less [of c] by (cases "c < length (tw_cbs w)"; cases "c = length (tw_cbs w)") auto
  qed
  have in_range: "c < length (tw_cbs w)" if "c \<in> set (tw_frames w) \<or> c \<in> set (tw_delayed w) \<or> c \<in> set (tw_inserts w)" for c using ok(4) that by (auto simp: lists_ok_def)
  show "lists_ok ?w'" using ok(4) in_range old unfolding lists_ok_def by (auto simp: less_Suc_eq)
  show "pending_ok ?w'" unfolding pending_ok_def
  proof (intro allI impI)
    fix p key tag el assume "tw_pending ?w' p key = Some (tag, el)"
    then obtain c where c: "tw_parent w el = Some p" "tw_leave w el = Some c" "tc_key (cb_at w c) = key" "c \<notin> set (tw_delayed w)"
      using ok(5) unfolding pending_ok_def with_cb_fields by blast
    have "c < length (tw_cbs w)" using leave_current [OF ok(2) c(2)] by blast
    then show "tw_parent ?w' el = Some p \<and> (\<exists>c. tw_leave ?w' el = Some c \<and> tc_key (cb_at ?w' c) = key \<and> c \<notin> set (tw_delayed ?w'))"
      using c old assms(3) by auto
  qed
  show "c \<in> {length (tw_cbs w)} \<or> in_hand ?w' c" if "c < length (tw_cbs ?w')" "\<not> tc_called (cb_at ?w' c)" for c
  proof (cases "c = length (tw_cbs w)")
    case False
    then have "c < length (tw_cbs w)" using that by simp
    then show ?thesis using ok(6) [of c] that old in_hand_mono [of w c ?w'] by simp
  qed simp
qed

text \<open>Changes that concern none of this\<close>

lemma display_ok: "trans_ok X (set_display el d w) = trans_ok X w" "trans_ok X (w\<lparr>tw_orig := os\<rparr>) = trans_ok X w"
  by (simp_all add: trans_ok_def set_display_def classes_ok_def class_of_cb_def current_ok_def log_ok_def lists_ok_def pending_ok_def in_hand_def)

section \<open>Every step keeps it\<close>

lemma cancel_run:
  assumes "trans_ok X w" "c < length (tw_cbs w)" "\<not> tc_called (cb_at w c)"
  shows "trans_ok X (cancel_cb c w)"
  using run_ok [OF assms, of True] by (simp add: cancel_cb_def with_flag_def)

lemma cancel_leave_ok:
  assumes "trans_ok X w"
  shows "trans_ok X (cancel_leave el w)" "tw_leave (cancel_leave el w) el = None"
    "el' \<noteq> el \<Longrightarrow> tw_leave (cancel_leave el w) el' = tw_leave w el'" "tw_enter (cancel_leave el w) = tw_enter w"
    "tw_display (cancel_leave el w) = tw_display w" "tw_orig (cancel_leave el w) = tw_orig w"
proof -
  note ok = trans_okD [OF assms]
  have "trans_ok X (cancel_leave el w) \<and> tw_leave (cancel_leave el w) el = None \<and>
      (el' \<noteq> el \<longrightarrow> tw_leave (cancel_leave el w) el' = tw_leave w el') \<and> tw_enter (cancel_leave el w) = tw_enter w \<and>
      tw_display (cancel_leave el w) = tw_display w \<and> tw_orig (cancel_leave el w) = tw_orig w"
  proof (cases "tw_leave w el")
    case None
    then show ?thesis using assms by (simp add: cancel_leave_def)
  next
    case (Some c)
    note c = leave_current [OF ok(2) Some]
    define w1 where "w1 = set_cb c (\<lambda>cb. cb\<lparr>tc_cancelled := True\<rparr>) w"
    have w1: "c < length (tw_cbs w1)" "\<not> tc_called (cb_at w1 c)" "tc_side (cb_at w1 c) = Leaving" "tc_el (cb_at w1 c) = el" "tc_cancelled (cb_at w1 c)"
      "tw_leave w1 = tw_leave w" "tw_enter w1 = tw_enter w" "tw_display w1 = tw_display w" "tw_orig w1 = tw_orig w"
      using c by (simp_all add: w1_def)
    have eq: "cancel_leave el w = run_cb c w1" unfolding cancel_leave_def Some cancel_cb_def w1_def by simp
    have "trans_ok X (cancel_leave el w)" unfolding cancel_leave_def Some using cancel_run [OF assms] c by simp
    then show ?thesis using run_new [OF w1(1,2)] w1 unfolding eq by simp
  qed
  then show "trans_ok X (cancel_leave el w)" "tw_leave (cancel_leave el w) el = None"
    "el' \<noteq> el \<Longrightarrow> tw_leave (cancel_leave el w) el' = tw_leave w el'" "tw_enter (cancel_leave el w) = tw_enter w"
    "tw_display (cancel_leave el w) = tw_display w" "tw_orig (cancel_leave el w) = tw_orig w" by blast+
qed

lemma cancel_enter_ok:
  assumes "trans_ok X w"
  shows "trans_ok X (cancel_enter el w)" "tw_enter (cancel_enter el w) el = None"
    "el' \<noteq> el \<Longrightarrow> tw_enter (cancel_enter el w) el' = tw_enter w el'" "tw_leave (cancel_enter el w) = tw_leave w"
    "tw_display (cancel_enter el w) = tw_display w" "tw_orig (cancel_enter el w) = tw_orig w"
proof -
  note ok = trans_okD [OF assms]
  have "trans_ok X (cancel_enter el w) \<and> tw_enter (cancel_enter el w) el = None \<and>
      (el' \<noteq> el \<longrightarrow> tw_enter (cancel_enter el w) el' = tw_enter w el') \<and> tw_leave (cancel_enter el w) = tw_leave w \<and>
      tw_display (cancel_enter el w) = tw_display w \<and> tw_orig (cancel_enter el w) = tw_orig w"
  proof (cases "tw_enter w el")
    case None
    then show ?thesis using assms by (simp add: cancel_enter_def)
  next
    case (Some c)
    note c = enter_current [OF ok(2) Some]
    define w1 where "w1 = set_cb c (\<lambda>cb. cb\<lparr>tc_cancelled := True\<rparr>) w"
    have w1: "c < length (tw_cbs w1)" "\<not> tc_called (cb_at w1 c)" "tc_side (cb_at w1 c) = Entering" "tc_el (cb_at w1 c) = el" "tc_cancelled (cb_at w1 c)"
      "tw_leave w1 = tw_leave w" "tw_enter w1 = tw_enter w" "tw_display w1 = tw_display w" "tw_orig w1 = tw_orig w"
      using c by (simp_all add: w1_def)
    have eq: "cancel_enter el w = run_cb c w1" unfolding cancel_enter_def Some cancel_cb_def w1_def by simp
    have "trans_ok X (cancel_enter el w)" unfolding cancel_enter_def Some using cancel_run [OF assms] c by simp
    then show ?thesis using run_new [OF w1(1,2)] w1 unfolding eq by simp
  qed
  then show "trans_ok X (cancel_enter el w)" "tw_enter (cancel_enter el w) el = None"
    "el' \<noteq> el \<Longrightarrow> tw_enter (cancel_enter el w) el' = tw_enter w el'" "tw_leave (cancel_enter el w) = tw_leave w"
    "tw_display (cancel_enter el w) = tw_display w" "tw_orig (cancel_enter el w) = tw_orig w" by blast+
qed

lemma checked: "\<exists>es. checkDuration val name w = noted es w \<and> list_all quiet es"
proof -
  have "checkDuration val name w = noted [] w \<or> checkDuration val name w = noted [BadDuration name val] w"
    by (cases val) (simp_all add: checkDuration_def noted_def)
  then show ?thesis
  proof
    assume "checkDuration val name w = noted [] w"
    then show ?thesis by (intro exI [of _ "[]"]) simp
  next
    assume "checkDuration val name w = noted [BadDuration name val] w"
    then show ?thesis by (intro exI [of _ "[BadDuration name val]"]) (simp add: quiet_def)
  qed
qed

lemma inserts_ok:
  assumes "trans_ok X w" "c < length (tw_cbs w)" "tc_side (cb_at w c) = Entering"
  shows "trans_ok X (w\<lparr>tw_inserts := tw_inserts w @ [c]\<rparr>)"
proof (rule trans_okI)
  note ok = trans_okD [OF assms(1)]
  let ?w = "w\<lparr>tw_inserts := tw_inserts w @ [c]\<rparr>"
  show "classes_ok ?w" using ok(1) by (simp add: classes_ok_def class_of_cb_def)
  show "current_ok ?w" using ok(2) current_cong [of ?w w] by simp
  show "log_ok ?w" "pending_ok ?w" using ok(3,5) by (simp_all add: log_ok_def pending_ok_def)
  show "lists_ok ?w" using ok(4) assms(2,3) by (auto simp: lists_ok_def)
  show "c' \<in> X \<or> in_hand ?w c'" if "c' < length (tw_cbs ?w)" "\<not> tc_called (cb_at ?w c')" for c'
    using ok(6) [of c'] that in_hand_mono [of w c' ?w] by auto
qed

lemma quiet_before [simp]: "quiet (Before c)" "quiet (HookCall c)" "quiet (Removes None r)"
  by (simp_all add: quiet_def)

lemma resolved: "has_transition v \<longleftrightarrow> resolveTransition (tv_def v) \<noteq> None"
  by (auto simp: has_transition_def resolveTransition_def Let_def split: trans_def.splits if_splits)

lemma enter_cases:
  obtains "enter sync isIE9 ctx v toggle w = cancel_leave (tv_el v) w"
      "has_transition v \<longrightarrow> tw_enter (cancel_leave (tv_el v) w) (tv_el v) \<noteq> None \<or> \<not> tv_element v \<or>
        is_appear ctx v \<and> (\<forall>d. resolveTransition (tv_def v) = Some d \<longrightarrow> \<not> tr_appear d)"
    | d es where "resolveTransition (tv_def v) = Some d" "list_all quiet es" "tw_enter (cancel_leave (tv_el v) w) (tv_el v) = None"
      "enter sync isIE9 ctx v toggle w = entered sync (enter_cb isIE9 (is_appear ctx v) d v) toggle (noted es (cancel_leave (tv_el v) w))"
proof (cases "resolveTransition (tv_def v)")
  case None
  then have "\<not> has_transition v" by (auto simp: has_transition_def resolveTransition_def Let_def split: trans_def.splits if_splits)
  then show thesis using that(1) None by (simp add: enter_def Let_def)
next
  case (Some d)
  let ?w1 = "cancel_leave (tv_el v) w"
  show thesis
  proof (cases "tw_enter ?w1 (tv_el v) \<noteq> None \<or> \<not> tv_element v \<or> is_appear ctx v \<and> \<not> tr_appear d")
    case True
    then have "enter sync isIE9 ctx v toggle w = ?w1" by (auto simp: enter_def Let_def Some)
    then show thesis using that(1) True Some by auto
  next
    case False
    let ?cb = "enter_cb isIE9 (is_appear ctx v) d v"
    obtain es where es: "checkDuration (tc_duration ?cb) ''enter'' ?w1 = noted es ?w1" "list_all quiet es" using checked by blast
    have side: "tc_side ?cb = Entering" "tc_el ?cb = tv_el v" "tc_show ?cb = tv_show v" by (simp_all add: enter_cb_def)
    have "enter sync isIE9 ctx v toggle w = entered sync ?cb toggle (noted es ?w1)"
      using False es(1) by (auto simp: enter_def Some Let_def)
    then show thesis using that(2) Some es(2) False by blast
  qed
qed

lemma entered_ok:
  assumes "trans_ok {} w" "tw_enter w (tc_el cb) = None" "tw_leave w (tc_el cb) = None" "\<not> tc_called cb" "\<not> tc_cancelled cb"
    and side: "tc_side cb = Entering" and "\<And>w. toggle w = set_display el (d w) w"
  shows "trans_ok {} (entered sync cb toggle w)"
proof -
  define c where "c = length (tw_cbs w)"
  define w3 where "w3 = with_cb cb w"
  define w4 where "w4 = (if \<not> tc_show cb then w3\<lparr>tw_inserts := tw_inserts w3 @ [c]\<rparr> else w3)"
  define w5 where "w5 = begin_css c (noted [Before c] w4)"
  define w6 where "w6 = (if tc_show cb then call_hook sync c (toggle w5) else w5)"
  have lists: "c \<notin> set (tw_frames w)" "c \<notin> set (tw_delayed w)" using trans_okD(4) [OF assms(1)] by (auto simp: lists_ok_def c_def)
  have 3: "trans_ok {c} w3" "c < length (tw_cbs w3)" "cb_at w3 c = cb" using new_cb_ok [OF assms(1-5)] by (simp_all add: w3_def c_def)
  have 4: "trans_ok {c} w4" "tw_cbs w4 = tw_cbs w3" using inserts_ok [OF 3(1,2)] 3 side by (simp_all add: w4_def)
  have "trans_ok {c} (noted [Before c] w4)" by (rule noted_ok [OF 4(1)]) simp
  then have 5: "trans_ok {c} w5" using 3 4(2) lists assms(4) unfolding w5_def by (intro begin_ok) (simp_all add: w4_def w3_def)
  have cbs: "tw_cbs w5 = tw_cbs w3" "tw_delayed w5 = tw_delayed w" by (simp_all add: w5_def 4(2) w4_def w3_def)
  have "trans_ok {c} (toggle w5)" "tw_cbs (toggle w5) = tw_cbs w3" "tw_delayed (toggle w5) = tw_delayed w" "tw_frames (toggle w5) = tw_frames w5"
    using 5 cbs by (simp_all add: assms(7) display_ok) (simp_all add: set_display_def cbs)
  then have 6: "trans_ok {c} w6" "length (tw_cbs w6) = length (tw_cbs w3)" "tw_delayed w6 = tw_delayed w"
      "tc_control (cb_at w6 c) = tc_control cb" "tc_css (cb_at w6 c) = tc_css cb" "tw_frames w6 = tw_frames w5"
    using call_hook_ok [of "{c}" "toggle w5" c sync] 5 cbs 3 lists by (simp_all add: w6_def)
  have "trans_ok {} (finish_now c w6)"
  proof (rule finish_ok [OF 6(1)])
    show "c < length (tw_cbs w6)" "c \<notin> set (tw_delayed w6)" using 6 3(2) lists(2) by simp_all
    show "c \<in> set (tw_frames w6)" if "tc_css (cb_at w6 c)" using that 6(5,6) 3(3) by (simp add: w5_def 4(2))
    show "c \<in> set (tw_given w6) \<or> c \<in> set (tw_inserts w6)" if "tc_control (cb_at w6 c)"
    proof (cases "tc_show cb")
      case True
      then show ?thesis using that 6(4) 3 \<open>tw_cbs (toggle w5) = tw_cbs w3\<close> call_hook_given [of c "toggle w5" sync] by (simp add: w6_def)
    qed (simp add: w6_def w5_def w4_def)
  qed
  then show ?thesis unfolding entered_def w6_def w5_def w4_def w3_def c_def Let_def .
qed

lemma enter_ok:
  assumes "trans_ok {} w" "\<And>w. toggle w = set_display el (d w) w"
  shows "trans_ok {} (enter sync isIE9 ctx v toggle w)"
proof (cases rule: enter_cases [of sync isIE9 ctx v toggle w])
  case 1
  then show ?thesis using cancel_leave_ok(1) [OF assms(1)] by simp
next
  case (2 d' es)
  note cl = cancel_leave_ok [OF assms(1), of "tv_el v"]
  have "trans_ok {} (entered sync (enter_cb isIE9 (is_appear ctx v) d' v) toggle (noted es (cancel_leave (tv_el v) w)))"
    by (rule entered_ok [where el = el and d = d]) (use noted_ok [OF cl(1) 2(2)] cl(2) 2(3) assms(2) in \<open>simp_all add: enter_cb_def\<close>)
  then show ?thesis using 2(4) by simp
qed

lemma performLeave_ok:
  assumes "trans_ok {c} w" "c < length (tw_cbs w)" "tc_side (cb_at w c) = Leaving" "c \<notin> set (tw_frames w)" "c \<notin> set (tw_delayed w)"
    "tc_called (cb_at w c) \<Longrightarrow> tc_cancelled (cb_at w c)" "performLeave sync c w = Some w'"
  shows "trans_ok {} w'"
proof (cases "tc_cancelled (cb_at w c)")
  case True
  then have "tc_called (cb_at w c)" using not_cancelled(1) [OF trans_okD(2) [OF assms(1)] assms(2)] by blast
  then have "trans_ok {} w" using trans_ok_less [OF assms(1)] by blast
  then show ?thesis using assms(7) True by (simp add: performLeave_def)
next
  case False
  then have nc: "\<not> tc_called (cb_at w c)" using assms(6) by blast
  let ?cb = "cb_at w c"
  define w1 where "w1 = (if tc_show ?cb then w
             else case tw_parent w (tc_el ?cb) of
               Some p \<Rightarrow> w\<lparr>tw_pending := (tw_pending w)(p := (tw_pending w p)(tc_key ?cb \<mapsto> (tc_tag ?cb, tc_el ?cb)))\<rparr>
             | None \<Rightarrow> w)"
  have w': "w' = finish_now c (call_hook sync c (begin_css c (noted [Before c] w1)))"
    using assms(7) False by (simp add: performLeave_def Let_def w1_def split: if_splits)
  note ok = trans_okD [OF assms(1)]
  have lv: "tw_leave w (tc_el ?cb) = Some c" using not_cancelled(2) [OF ok(2) assms(2) nc] assms(3) by simp
  have w1: "trans_ok {c} w1" "tw_cbs w1 = tw_cbs w" "tw_frames w1 = tw_frames w" "tw_delayed w1 = tw_delayed w"
  proof -
    have "trans_ok {c} w1 \<and> tw_cbs w1 = tw_cbs w \<and> tw_frames w1 = tw_frames w \<and> tw_delayed w1 = tw_delayed w"
    proof (cases "tc_show ?cb \<or> tw_parent w (tc_el ?cb) = None")
      case True
      then have "w1 = w" by (auto simp: w1_def)
      then show ?thesis using assms(1) by simp
    next
      case False
      then obtain p where p: "\<not> tc_show ?cb" "tw_parent w (tc_el ?cb) = Some p" by blast
      let ?w1 = "w\<lparr>tw_pending := (tw_pending w)(p := (tw_pending w p)(tc_key ?cb \<mapsto> (tc_tag ?cb, tc_el ?cb)))\<rparr>"
      have "trans_ok {c} ?w1"
      proof (rule trans_okI)
        show "classes_ok ?w1" using ok(1) by (simp add: classes_ok_def class_of_cb_def)
        show "current_ok ?w1" using ok(2) current_cong [of ?w1 w] by simp
        show "log_ok ?w1" "lists_ok ?w1" using ok(3,4) by (simp_all add: log_ok_def lists_ok_def)
        show "pending_ok ?w1" unfolding pending_ok_def
        proof (intro allI impI)
          fix q key tag el assume "tw_pending ?w1 q key = Some (tag, el)"
          then consider "q = p" "key = tc_key ?cb" "el = tc_el ?cb" | "tw_pending w q key = Some (tag, el)" by (simp split: if_splits)
          then show "tw_parent ?w1 el = Some q \<and> (\<exists>c. tw_leave ?w1 el = Some c \<and> tc_key (cb_at ?w1 c) = key \<and> c \<notin> set (tw_delayed ?w1))"
          proof cases
            case 1
            then show ?thesis using p lv assms(5) by simp
          next
            case 2
            then show ?thesis using ok(5) unfolding pending_ok_def by simp
          qed
        qed
        show "c' \<in> {c} \<or> in_hand ?w1 c'" if "c' < length (tw_cbs ?w1)" "\<not> tc_called (cb_at ?w1 c')" for c'
          using ok(6) [of c'] that in_hand_mono [of w c' ?w1] by auto
      qed
      then show ?thesis using p by (simp add: w1_def)
    qed
    then show "trans_ok {c} w1" "tw_cbs w1 = tw_cbs w" "tw_frames w1 = tw_frames w" "tw_delayed w1 = tw_delayed w" by blast+
  qed
  have "trans_ok {c} (noted [Before c] w1)" by (rule noted_ok [OF w1(1)]) simp
  then have b: "trans_ok {c} (begin_css c (noted [Before c] w1))" using assms(2,4,5) nc w1 by (intro begin_ok) simp_all
  have h: "trans_ok {c} (call_hook sync c (begin_css c (noted [Before c] w1)))"
    by (rule call_hook_ok [OF b]) (use assms(2,5) w1 in simp_all)
  show ?thesis unfolding w'
  proof (rule finish_ok [OF h])
    show "c \<in> set (tw_given (call_hook sync c (begin_css c (noted [Before c] w1)))) \<or>
        c \<in> set (tw_inserts (call_hook sync c (begin_css c (noted [Before c] w1))))"
      if "tc_control (cb_at (call_hook sync c (begin_css c (noted [Before c] w1))) c)"
      using that call_hook_given [of c "begin_css c (noted [Before c] w1)" sync] assms(2) w1 by simp
  qed (use assms(2,5) w1 in simp_all)
qed

lemma do_remove_ok:
  assumes "trans_ok X w"
  shows "trans_ok X (do_remove None r w)"
proof (cases r)
  case (Hide el)
  have "trans_ok X (set_display el ''none'' w)" using assms by (simp add: display_ok)
  then have "trans_ok X (noted [Removes None r] (set_display el ''none'' w))" by (rule noted_ok) simp
  then show ?thesis by (simp add: do_remove_def set_display_def Hide)
next
  case (LetGo n)
  then show ?thesis using noted_ok [OF assms, of "[Removes None r]"] by (simp add: do_remove_def)
qed

lemma leave_cases:
  assumes "leave sync isIE9 v rm w = Some w'"
  obtains "w' = do_remove None rm (cancel_enter (tv_el v) w)" "\<not> tv_element v \<or> \<not> has_transition v"
    | "w' = cancel_enter (tv_el v) w" "tw_leave (cancel_enter (tv_el v) w) (tv_el v) \<noteq> None"
    | d es where "resolveTransition (tv_def v) = Some d" "list_all quiet es" "tw_leave (cancel_enter (tv_el v) w) (tv_el v) = None"
      "(let w1 = noted es (cancel_enter (tv_el v) w); c = length (tw_cbs w1); w3 = with_cb (leave_cb isIE9 d v rm) w1
        in if tr_delay d then Some (w3\<lparr>tw_delayed := tw_delayed w3 @ [c]\<rparr>) else performLeave sync c w3) = Some w'"
proof (cases "if tv_element v then resolveTransition (tv_def v) else None")
  case None
  then have "\<not> tv_element v \<or> \<not> has_transition v"
    by (auto simp: has_transition_def resolveTransition_def Let_def split: trans_def.splits if_splits)
  then show thesis using that(1) None assms by (simp add: leave_def Let_def)
next
  case (Some d)
  then have el: "resolveTransition (tv_def v) = Some d" by (simp split: if_splits)
  let ?w1 = "cancel_enter (tv_el v) w"
  show thesis
  proof (cases "tw_leave ?w1 (tv_el v)")
    case (Some c)
    then show thesis using that(2) assms \<open>(if tv_element v then resolveTransition (tv_def v) else None) = Some d\<close> by (simp add: leave_def Let_def)
  next
    case None
    obtain es where es: "checkDuration (tc_duration (leave_cb isIE9 d v rm)) ''leave'' ?w1 = noted es ?w1" "list_all quiet es" using checked by blast
    have "leave sync isIE9 v rm w = (let w1 = noted es ?w1; c = length (tw_cbs w1); w3 = with_cb (leave_cb isIE9 d v rm) w1
        in if tr_delay d then Some (w3\<lparr>tw_delayed := tw_delayed w3 @ [c]\<rparr>) else performLeave sync c w3)"
      unfolding leave_def Let_def Some using None by (simp add: es(1))
    then show thesis using that(3) [OF el es(2) None] assms by simp
  qed
qed

lemma leave_ok:
  assumes "trans_ok {} w" "leave sync isIE9 v rm w = Some w'"
  shows "trans_ok {} w'"
proof (cases rule: leave_cases [OF assms(2)])
  case 1
  then show ?thesis using do_remove_ok [OF cancel_enter_ok(1) [OF assms(1)]] by simp
next
  case 2
  then show ?thesis using cancel_enter_ok(1) [OF assms(1)] by simp
next
  case (3 d es)
  note ce = cancel_enter_ok [OF assms(1), of "tv_el v"]
  let ?w1 = "noted es (cancel_enter (tv_el v) w)"
  let ?cb = "leave_cb isIE9 d v rm" and ?c = "length (tw_cbs ?w1)"
  let ?w3 = "with_cb ?cb ?w1"
  have w1: "trans_ok {} ?w1" by (rule noted_ok [OF ce(1) 3(2)])
  have cb: "tc_side ?cb = Leaving" "tc_el ?cb = tv_el v" "\<not> tc_called ?cb" "\<not> tc_cancelled ?cb" by (simp_all add: leave_cb_def)
  have w3: "trans_ok {?c} ?w3" using new_cb_ok [OF w1, of ?cb] ce(2) 3(3) cb by simp
  have lists: "?c \<notin> set (tw_frames ?w1)" "?c \<notin> set (tw_delayed ?w1)" "?c \<notin> set (tw_ends ?w1)" "?c \<notin> set (tw_given ?w1)" using trans_okD(4) [OF w1] by (auto simp: lists_ok_def)
  show ?thesis
  proof (cases "tr_delay d")
    case False
    then have "performLeave sync ?c ?w3 = Some w'" using 3(4) by (simp add: Let_def)
    then show ?thesis using performLeave_ok [OF w3, of sync w'] cb lists by simp
  next
    case True
    let ?w4 = "?w3\<lparr>tw_delayed := tw_delayed ?w3 @ [?c]\<rparr>"
    have w': "w' = ?w4" using 3(4) True by (simp add: Let_def)
    note ok = trans_okD [OF w3]
    have "trans_ok {?c} ?w4"
    proof (rule trans_okI)
      show "classes_ok ?w4" using ok(1) by (simp add: classes_ok_def class_of_cb_def)
      show "current_ok ?w4" using ok(2) current_cong [of ?w4 ?w3] by simp
      show "log_ok ?w4" using ok(3) by (simp add: log_ok_def)
      show "lists_ok ?w4" using ok(4) cb lists by (auto simp: lists_ok_def)
      show "pending_ok ?w4" unfolding pending_ok_def
      proof (intro allI impI)
        fix p key tag el assume "tw_pending ?w4 p key = Some (tag, el)"
        then have "tw_pending ?w1 p key = Some (tag, el)" by simp
        then obtain c' where c': "tw_parent ?w1 el = Some p" "tw_leave ?w1 el = Some c'" "tc_key (cb_at ?w1 c') = key" "c' \<notin> set (tw_delayed ?w1)"
          using trans_okD(5) [OF w1] unfolding pending_ok_def by blast
        have "el \<noteq> tv_el v" using c'(2) 3(3) by auto
        moreover have "c' < ?c" using leave_current [OF trans_okD(2) [OF w1] c'(2)] by blast
        ultimately show "tw_parent ?w4 el = Some p \<and> (\<exists>c. tw_leave ?w4 el = Some c \<and> tc_key (cb_at ?w4 c) = key \<and> c \<notin> set (tw_delayed ?w4))"
          using c' cb by (auto simp: nth_append)
      qed
      show "c' \<in> {?c} \<or> in_hand ?w4 c'" if "c' < length (tw_cbs ?w4)" "\<not> tc_called (cb_at ?w4 c')" for c'
        using ok(6) [of c'] that in_hand_mono [of ?w3 c' ?w4] by auto
    qed
    moreover have "in_hand ?w4 ?c" by (simp add: in_hand_def)
    ultimately show ?thesis using trans_ok_less w' by blast
  qed
qed

lemma removed_ok:
  assumes "trans_ok {} w"
  shows "c \<in> set (tw_inserts w) \<Longrightarrow> trans_ok {c} (w\<lparr>tw_inserts := remove1 c (tw_inserts w)\<rparr>)"
    and "c \<in> set (tw_ends w) \<Longrightarrow> trans_ok {c} (w\<lparr>tw_ends := remove1 c (tw_ends w)\<rparr>)"
    and "c \<in> set (tw_delayed w) \<Longrightarrow> trans_ok {c} (w\<lparr>tw_delayed := remove1 c (tw_delayed w)\<rparr>)"
proof -
  note ok = trans_okD [OF assms]
  have less: "x \<in> set xs" if "x \<in> set (remove1 c xs)" for x and xs :: "nat list" using that set_remove1_subset by fast
  have more: "set xs - {c} \<subseteq> set (remove1 c xs)" for xs :: "nat list"
    using in_set_remove1 [of _ c xs] by blast
  {
    assume "c \<in> set (tw_inserts w)"
    let ?w = "w\<lparr>tw_inserts := remove1 c (tw_inserts w)\<rparr>"
    show "trans_ok {c} ?w"
    proof (rule trans_okI)
      show "classes_ok ?w" using ok(1) by (simp add: classes_ok_def class_of_cb_def)
      show "current_ok ?w" using ok(2) current_cong [of ?w w] by simp
      show "log_ok ?w" "pending_ok ?w" using ok(3,5) by (simp_all add: log_ok_def pending_ok_def)
      show "lists_ok ?w" using ok(4) unfolding lists_ok_def by (auto dest: less)
      show "c' \<in> {c} \<or> in_hand ?w c'" if "c' < length (tw_cbs ?w)" "\<not> tc_called (cb_at ?w c')" for c'
        using ok(6) [of c'] that in_hand_except [of w c' c ?w] more by auto
    qed
  next
    assume "c \<in> set (tw_ends w)"
    let ?w = "w\<lparr>tw_ends := remove1 c (tw_ends w)\<rparr>"
    show "trans_ok {c} ?w"
    proof (rule trans_okI)
      show "classes_ok ?w" using ok(1) by (simp add: classes_ok_def class_of_cb_def)
      show "current_ok ?w" using ok(2) current_cong [of ?w w] by simp
      show "log_ok ?w" "pending_ok ?w" using ok(3,5) by (simp_all add: log_ok_def pending_ok_def)
      show "lists_ok ?w" using ok(4) unfolding lists_ok_def by (auto dest: less)
      show "c' \<in> {c} \<or> in_hand ?w c'" if "c' < length (tw_cbs ?w)" "\<not> tc_called (cb_at ?w c')" for c'
        using ok(6) [of c'] that in_hand_except [of w c' c ?w] more by auto
    qed
  next
    assume "c \<in> set (tw_delayed w)"
    let ?w = "w\<lparr>tw_delayed := remove1 c (tw_delayed w)\<rparr>"
    show "trans_ok {c} ?w"
    proof (rule trans_okI)
      show "classes_ok ?w" using ok(1) by (simp add: classes_ok_def class_of_cb_def)
      show "current_ok ?w" using ok(2) current_cong [of ?w w] by simp
      show "log_ok ?w" using ok(3) by (simp add: log_ok_def)
      show "pending_ok ?w" using ok(5) unfolding pending_ok_def by (fastforce dest: less)
      show "lists_ok ?w" using ok(4) unfolding lists_ok_def by (auto dest: less)
      show "c' \<in> {c} \<or> in_hand ?w c'" if "c' < length (tw_cbs ?w)" "\<not> tc_called (cb_at ?w c')" for c'
        using ok(6) [of c'] that in_hand_except [of w c' c ?w] more by auto
    qed
  }
qed

lemma insert_ok:
  assumes "trans_ok {} w" "c \<in> set (tw_inserts w)"
  shows "trans_ok {} (insert_hook sync c (w\<lparr>tw_inserts := remove1 c (tw_inserts w)\<rparr>))"
proof -
  let ?w0 = "w\<lparr>tw_inserts := remove1 c (tw_inserts w)\<rparr>"
  note ok = trans_okD [OF assms(1)]
  have c: "c < length (tw_cbs w)" using ok(4) assms(2) by (auto simp: lists_ok_def)
  have w0: "trans_ok {c} ?w0" by (rule removed_ok(1) [OF assms])
  define pendingNode where "pendingNode = (case tw_parent ?w0 (tc_el (cb_at ?w0 c)) of Some p \<Rightarrow> tw_pending ?w0 p (tc_key (cb_at ?w0 c)) | None \<Rightarrow> None)"
  define w1 where "w1 = (case pendingNode of
              Some (tag, el) \<Rightarrow> if tag = tc_tag (cb_at ?w0 c) then (case tw_leave ?w0 el of Some l \<Rightarrow> run_cb l ?w0 | None \<Rightarrow> ?w0) else ?w0
            | None \<Rightarrow> ?w0)"
  have "w1 = ?w0 \<or> (\<exists>l. w1 = run_cb l ?w0 \<and> l < length (tw_cbs w) \<and> l \<notin> set (tw_delayed w))"
  proof (cases pendingNode)
    case (Some x)
    obtain tag el where x: "x = (tag, el)" by (cases x)
    have "\<exists>p k. tw_pending w p k = Some (tag, el)" using Some by (auto simp: pendingNode_def x split: option.splits)
    then obtain l where l: "tw_leave w el = Some l" "l \<notin> set (tw_delayed w)" using ok(5) unfolding pending_ok_def by blast
    then show ?thesis using leave_current [OF ok(2) l(1)] by (simp add: w1_def Some x) blast
  qed (simp add: w1_def)
  note some = this
  then have w1: "trans_ok {c} w1" "length (tw_cbs w1) = length (tw_cbs w)" "tw_delayed w1 = tw_delayed w" "tc_control (cb_at w1 c) = tc_control (cb_at w c)"
    "tw_frames w1 = tw_frames w" "tw_ends w1 = tw_ends w"
    using w0 run_any [OF w0] by auto
  have res: "insert_hook sync c ?w0 = call_hook sync c w1" by (simp add: insert_hook_def Let_def w1_def pendingNode_def cong: option.case_cong)
  have nd: "c \<notin> set (tw_delayed w)" using ok(4) assms(2) by (auto simp: lists_ok_def)
  have h: "trans_ok {c} (call_hook sync c w1)" by (rule call_hook_ok [OF w1(1)]) (simp_all add: w1 c nd)
  have "tc_called (cb_at (call_hook sync c w1) c) \<or> in_hand (call_hook sync c w1) c"
  proof (cases "tc_control (cb_at w c)")
    case True
    then have "c \<in> set (tw_given (call_hook sync c w1))" using call_hook_given [of c w1 sync] w1 c by simp
    then show ?thesis using True w1 by (simp add: in_hand_def)
  next
    case False
    have "tc_called (cb_at w1 c)" if "tc_called (cb_at w c)" using that some w1(2) called_kept [of _ ?w0 c] by auto
    then have "tc_called (cb_at w c) \<longrightarrow> tc_called (cb_at (call_hook sync c w1) c)" using call_hook_called [of c w1 c sync] w1(2) c by simp
    then show ?thesis using ok(6) [OF c] nd False w1 by (auto simp: in_hand_def)
  qed
  then show ?thesis using trans_ok_less [OF h] res by simp
qed

text \<open>A page at rest is in order, and every step keeps it so.\<close>

lemma rest_ok: "at_rest w \<Longrightarrow> trans_ok {} w"
  by (simp add: at_rest_def trans_ok_def classes_ok_def current_ok_def log_ok_def lists_ok_def pending_ok_def)

lemma place_ok:
  assumes "trans_ok {} w" "tw_leave w el = None"
  shows "trans_ok {} (w\<lparr>tw_parent := (tw_parent w)(el := p)\<rparr>)"
proof (rule trans_okI)
  note ok = trans_okD [OF assms(1)]
  let ?w = "w\<lparr>tw_parent := (tw_parent w)(el := p)\<rparr>"
  show "classes_ok ?w" using ok(1) by (simp add: classes_ok_def class_of_cb_def)
  show "current_ok ?w" using ok(2) current_cong [of ?w w] by simp
  show "log_ok ?w" "lists_ok ?w" using ok(3,4) by (simp_all add: log_ok_def lists_ok_def)
  show "pending_ok ?w" unfolding pending_ok_def
  proof (intro allI impI)
    fix q key tag e assume "tw_pending ?w q key = Some (tag, e)"
    then have "tw_pending w q key = Some (tag, e)" by simp
    then obtain c where "tw_parent w e = Some q" "tw_leave w e = Some c" "tc_key (cb_at w c) = key" "c \<notin> set (tw_delayed w)"
      using ok(5) unfolding pending_ok_def by blast
    then show "tw_parent ?w e = Some q \<and> (\<exists>c. tw_leave ?w e = Some c \<and> tc_key (cb_at ?w c) = key \<and> c \<notin> set (tw_delayed ?w))"
      using assms(2) by auto
  qed
  show "c' \<in> {} \<or> in_hand ?w c'" if "c' < length (tw_cbs ?w)" "\<not> tc_called (cb_at ?w c')" for c'
    using ok(6) [of c'] that in_hand_mono [of w c' ?w] by auto
qed

lemma show_bind_ok: "trans_ok {} w \<Longrightarrow> trans_ok {} (show_bind sync isIE9 ctx v val w)"
  unfolding show_bind_def Let_def using enter_ok by (simp add: display_ok)

lemma show_update_ok:
  assumes "trans_ok {} w" "show_update sync isIE9 ctx v val oldVal w = Some w'"
  shows "trans_ok {} w'"
proof -
  have "trans_ok {} (enter sync isIE9 ctx (v\<lparr>tv_show := True\<rparr>) (\<lambda>w. set_display (tv_el v) (tw_orig w (tv_el v)) w) w)"
    by (rule enter_ok [OF assms(1), where el = "tv_el v" and d = "\<lambda>w. tw_orig w (tv_el v)"]) simp
  then show ?thesis using assms leave_ok by (auto simp: show_update_def Let_def display_ok split: if_splits)
qed

lemma step_trans_ok:
  assumes "trans_ok {} w" "trans_step sync isIE9 s w = Some w'"
  shows "trans_ok {} w'"
proof -
  note ok = trans_okD [OF assms(1)]
  show ?thesis
  proof (cases s)
    case (Enters ctx v)
    have "trans_ok {} (enter sync isIE9 ctx v id w)"
      by (rule enter_ok [OF assms(1), where el = 0 and d = "\<lambda>w. tw_display w 0"]) (simp add: set_display_def)
    then show ?thesis using assms Enters by (auto simp: enter_1_def split: if_splits)
  next
    case (Leaves v node)
    then show ?thesis using assms leave_ok [OF assms(1)] do_remove_ok [OF assms(1)] by (auto simp: remove_1_def split: if_splits)
  next
    case (ShowBind ctx v val)
    then show ?thesis using assms show_bind_ok by auto
  next
    case (ShowUpdate ctx v val oldVal)
    then show ?thesis using assms show_update_ok by auto
  next
    case (Frame styles c)
    then show ?thesis using assms frame_ok [OF assms(1), of c styles] by (auto simp: if_waiting_def split: if_splits)
  next
    case (End c)
    then have e: "c \<in> set (tw_ends w)" "w' = run_cb c (w\<lparr>tw_ends := remove1 c (tw_ends w)\<rparr>)" using assms(2) by (auto simp: if_waiting_def split: if_splits)
    have c: "c < length (tw_cbs w)" "c \<notin> set (tw_delayed w)" using ok(4) e(1) by (auto simp: lists_ok_def)
    have "trans_ok {c} w'" unfolding e(2) by (rule run_any [OF removed_ok(2) [OF assms(1) e(1)]]) (simp_all add: c)
    then show ?thesis by (rule trans_ok_less) (simp add: e(2) called_after c)
  next
    case (Done c)
    then have e: "c \<in> set (tw_given w)" "w' = run_cb c w" using assms(2) by (auto simp: if_waiting_def split: if_splits)
    have c: "c < length (tw_cbs w)" "c \<notin> set (tw_delayed w)" using ok(4) e(1) by (auto simp: lists_ok_def)
    show ?thesis unfolding e(2) by (rule run_any [OF assms(1) c])
  next
    case (Insert c)
    then show ?thesis using assms insert_ok [OF assms(1), of c sync] by (auto simp: if_waiting_def split: if_splits)
  next
    case (Delayed c)
    then have e: "c \<in> set (tw_delayed w)" "performLeave sync c (w\<lparr>tw_delayed := remove1 c (tw_delayed w)\<rparr>) = Some w'"
      using assms(2) by (auto simp: if_waiting_def split: if_splits)
    have c: "c < length (tw_cbs w)" "tc_side (cb_at w c) = Leaving" "c \<notin> set (tw_frames w)" "distinct (tw_delayed w)"
      "tc_called (cb_at w c) \<Longrightarrow> tc_cancelled (cb_at w c)"
      using ok(4) e(1) by (auto simp: lists_ok_def)
    show ?thesis by (rule performLeave_ok [OF removed_ok(3) [OF assms(1) e(1)] _ _ _ _ _ e(2)]) (use c in simp_all)
  next
    case (Place el p)
    then show ?thesis using assms place_ok by (auto split: if_splits)
  next
    case (CallPending el)
    have "trans_ok {} (call_enter el w)"
    proof (cases "tw_enter w el")
      case (Some c)
      have "c < length (tw_cbs w)" "tc_side (cb_at w c) = Entering" using enter_current [OF ok(2) Some] by blast+
      then have "trans_ok {} (run_cb c w)" using ok(4) by (intro run_any [OF assms(1)]) (auto simp: lists_ok_def)
      then show ?thesis by (simp add: call_enter_def Some)
    qed (simp add: call_enter_def assms(1))
    then show ?thesis using assms(2) CallPending by simp
  qed
qed

lemma run_trans_ok:
  assumes "trans_ok {} w" "trans_run sync isIE9 steps w = Some w'"
  shows "trans_ok {} w'"
  using assms(2)
proof (induction steps arbitrary: w' rule: rev_induct)
  case (snoc s steps)
  then obtain w1 where "trans_run sync isIE9 steps w = Some w1" "trans_step sync isIE9 s w1 = Some w'"
    by (auto simp: trans_run_def bind_eq_Some_conv)
  then show ?case using snoc.IH step_trans_ok by blast
qed (simp add: trans_run_def assms(1))

section \<open>What transitions do\<close>

text \<open>
  C12. Whatever the order of frames, timers, calls of \<open>done\<close>, insert hooks, delayed leaves and of new enters and leaves that
  interrupt them: an element never enters and leaves at a time; every callback does its work at most once, either
  cancelled, or with its after-hook and, for a leave, the removal of the element; one that has not been called
  is still the one of its element, and somebody is going to call it; and an element has no transition class but
  those of callbacks that have not been called, of frames that have not come, and of callbacks that were
  called before their frame.
\<close>

theorem transitions_settle:
  assumes "at_rest w0" "trans_run sync isIE9 steps w0 = Some w"
  shows "(\<forall>el. tw_enter w el = None \<or> tw_leave w el = None) \<and>
    (\<forall>c<length (tw_cbs w).
      filter (about c) (tw_log w) =
        (if \<not> tc_called (cb_at w c) then []
         else if tc_cancelled (cb_at w c) then [Cancelled c]
         else if tc_side (cb_at w c) = Leaving then [Removes (Some c) (tc_rm (cb_at w c)), After c] else [After c]) \<and>
      (\<not> tc_called (cb_at w c) \<longrightarrow>
        (if tc_side (cb_at w c) = Entering then tw_enter w else tw_leave w) (tc_el (cb_at w c)) = Some c \<and> in_hand w c)) \<and>
    (\<forall>el. \<forall>k\<in>set (tw_tcls w el). \<exists>c<length (tw_cbs w). tc_el (cb_at w c) = el \<and> tc_css (cb_at w c) \<and> class_of_cb w c k)"
proof -
  note ok = trans_okD [OF run_trans_ok [OF rest_ok [OF assms(1)] assms(2)]]
  have "filter (about c) (tw_log w) =
        (if \<not> tc_called (cb_at w c) then []
         else if tc_cancelled (cb_at w c) then [Cancelled c]
         else if tc_side (cb_at w c) = Leaving then [Removes (Some c) (tc_rm (cb_at w c)), After c] else [After c])"
    if "c < length (tw_cbs w)" for c
  proof -
    have "filter (about c) (tw_log w) = (if c < length (tw_cbs w) \<and> tc_called (cb_at w c) then ending c (cb_at w c) else [])"
      using ok(3) unfolding log_ok_def by (rule spec)
    then show ?thesis using that by (simp add: ending_def)
  qed
  moreover have "\<forall>el. \<forall>k\<in>set (tw_tcls w el). \<exists>c<length (tw_cbs w). tc_el (cb_at w c) = el \<and> tc_css (cb_at w c) \<and> class_of_cb w c k"
    using ok(1) unfolding classes_ok_def by blast
  ultimately show ?thesis using one_current [OF ok(2)] not_cancelled(2) [OF ok(2)] ok(6) by simp
qed

text \<open>
  C33. An \<open>enter\<close> or \<open>leave\<close> hook that calls \<open>done\<close> before the next frame, say at once, leaves the element with a class: the
  frame comes when the callback has done its work, and adds the class the element is headed for, which
  nobody removes.
\<close>

theorem early_done_leaves_class:
  assumes "at_rest w0" "trans_run sync isIE9 steps w0 = Some w"
    and "c \<in> set (tw_frames w)" "c \<in> set (tw_given w)" "\<not> tc_called (cb_at w c)"
  shows "\<exists>w'. trans_run sync isIE9 [Done c, Frame styles c] w = Some w' \<and> tc_to (cb_at w c) \<in> set (tw_tcls w' (tc_el (cb_at w c))) \<and>
    (\<forall>c'<length (tw_cbs w'). tc_el (cb_at w' c') = tc_el (cb_at w c) \<longrightarrow> tc_called (cb_at w' c'))"
proof -
  have w: "trans_ok {} w" by (rule run_trans_ok [OF rest_ok [OF assms(1)] assms(2)])
  note ok = trans_okD [OF w]
  have c: "c < length (tw_cbs w)" using ok(4) assms(3) by (auto simp: lists_ok_def)
  have nc: "\<not> tc_cancelled (cb_at w c)" and cur: "(if tc_side (cb_at w c) = Entering then tw_enter w else tw_leave w) (tc_el (cb_at w c)) = Some c"
    using not_cancelled [OF ok(2) c assms(5)] by blast+
  let ?w1 = "run_cb c w" and ?el = "tc_el (cb_at w c)"
  let ?w' = "next_frame styles c (?w1\<lparr>tw_frames := remove1 c (tw_frames ?w1)\<rparr>)"
  have cb: "cb_at ?w1 c = (cb_at w c)\<lparr>tc_called := True\<rparr>" using c assms(5) by (simp add: run_cbs marked_called_def)
  have run: "trans_run sync isIE9 [Done c, Frame styles c] w = Some ?w'"
    using assms(3,4) by (simp add: trans_run_def if_waiting_def)
  have tcls: "tc_to (cb_at w c) \<in> set (tw_tcls ?w' ?el)" and cbs: "tw_cbs ?w' = tw_cbs ?w1"
    using c by (simp_all add: next_frame_def Let_def cb nc run_called)
  have "trans_ok {} ?w1" using step_trans_ok [OF w, of sync isIE9 "Done c" ?w1] assms(4) by (simp add: if_waiting_def)
  note ok1 = trans_okD [OF this]
  have "tw_enter ?w1 ?el = None \<and> tw_leave ?w1 ?el = None"
    using one_current [OF ok(2), of ?el] cur run_new(2,3) [OF c assms(5)] by (cases "tc_side (cb_at w c)") auto
  then have "tc_called (cb_at ?w1 c')" if "c' < length (tw_cbs ?w1)" "tc_el (cb_at ?w1 c') = ?el" for c'
    using not_cancelled(2) [OF ok1(2) that(1)] that(2) by (cases "tc_side (cb_at ?w1 c')") auto
  then show ?thesis using run tcls cbs by auto
qed

section \<open>v-show\<close>

text \<open>The value of \<open>v-show\<close> on an element, after the steps\<close>

definition next_shown :: "nat \<Rightarrow> bool option \<Rightarrow> page_step \<Rightarrow> bool option" where
  "next_shown el r s =
     (case s of
        ShowBind _ v val \<Rightarrow> if tv_el v = el then Some val else r
      | ShowUpdate _ v val _ \<Rightarrow> if tv_el v = el then Some val else r
      | _ \<Rightarrow> r)"

definition may_show :: "trans_ctx \<Rightarrow> trans_vnode \<Rightarrow> bool \<Rightarrow> bool" where
  "may_show ctx v val \<longleftrightarrow>
     (val \<and> is_appear ctx v \<longrightarrow> (case resolveTransition (tv_def v) of Some d \<Rightarrow> tr_appear d | None \<Rightarrow> True))"

text \<open>
  An element with a transition and \<open>v-show\<close>: its vnodes say so, the directive is bound once and its updates know the
  old value, and the transition does not keep it from appearing. (Without a transition the display is set directly.)
\<close>

definition managed :: "nat \<Rightarrow> bool option \<Rightarrow> page_step \<Rightarrow> bool" where
  "managed el r s \<longleftrightarrow>
     (case s of
        Enters _ v \<Rightarrow> tv_el v = el \<longrightarrow> tv_show v
      | Leaves v _ \<Rightarrow> tv_el v = el \<longrightarrow> tv_show v
      | ShowBind ctx v val \<Rightarrow> tv_el v = el \<longrightarrow> r = None \<and> tv_element v \<and> has_transition v \<and> may_show ctx v val
      | ShowUpdate ctx v val oldVal \<Rightarrow> tv_el v = el \<longrightarrow> r = Some oldVal \<and> tv_element v \<and> has_transition v \<and> may_show ctx v val
      | _ \<Rightarrow> True)"

fun all_managed :: "nat \<Rightarrow> bool option \<Rightarrow> page_step list \<Rightarrow> bool" where
  "all_managed el r [] = True"
| "all_managed el r (s # steps) \<longleftrightarrow> managed el r s \<and> all_managed el (next_shown el r s) steps"

definition callbacks_of :: "nat \<Rightarrow> trans_world \<Rightarrow> bool" where
  "callbacks_of el w \<longleftrightarrow>
     (\<forall>c<length (tw_cbs w). (\<forall>e. tc_rm (cb_at w c) = Hide e \<longrightarrow> tc_el (cb_at w c) = e) \<and>
        (tc_el (cb_at w c) = el \<and> \<not> tc_called (cb_at w c) \<longrightarrow>
           (if tc_side (cb_at w c) = Entering then tw_enter w el = Some c else tw_leave w el = Some c \<and> tc_rm (cb_at w c) = Hide el)))"

definition shows_value :: "nat \<Rightarrow> bool option \<Rightarrow> trans_world \<Rightarrow> bool" where
  "shows_value el r w \<longleftrightarrow>
     (case r of
        None \<Rightarrow> tw_enter w el = None \<and> tw_leave w el = None
      | Some val \<Rightarrow>
          if val then tw_leave w el = None \<and> tw_display w el = tw_orig w el
          else tw_enter w el = None \<and> tw_display w el = (if tw_leave w el = None then ''none'' else tw_orig w el))"

definition show_ok :: "nat \<Rightarrow> bool option \<Rightarrow> trans_world \<Rightarrow> bool" where
  "show_ok el r w \<longleftrightarrow> callbacks_of el w \<and> shows_value el r w"

lemma show_cong:
  assumes "tw_cbs w' = tw_cbs w" "tw_enter w' el = tw_enter w el" "tw_leave w' el = tw_leave w el" "tw_display w' el = tw_display w el" "tw_orig w' el = tw_orig w el"
  shows "show_ok el r w' = show_ok el r w" "callbacks_of el w' = callbacks_of el w"
  by (simp_all only: show_ok_def callbacks_of_def shows_value_def assms)

lemma callbacks_cong:
  assumes "tw_cbs w' = tw_cbs w" "tw_enter w' el = tw_enter w el" "tw_leave w' el = tw_leave w el"
  shows "callbacks_of el w' = callbacks_of el w"
  by (simp only: callbacks_of_def assms)

lemma shows_cong:
  assumes "tw_enter w' el = tw_enter w el" "tw_leave w' el = tw_leave w el" "tw_display w' el = tw_display w el" "tw_orig w' el = tw_orig w el"
  shows "shows_value el r w' = shows_value el r w"
  by (simp only: shows_value_def assms)

lemma hide_el:
  assumes "callbacks_of el w" "c < length (tw_cbs w)" "tc_rm (cb_at w c) = Hide e"
  shows "tc_el (cb_at w c) = e"
  using assms(1) [unfolded callbacks_of_def, rule_format, OF assms(2), THEN conjunct1, rule_format, OF assms(3)] .

lemma callback_current:
  assumes "callbacks_of el w" "c < length (tw_cbs w)" "tc_el (cb_at w c) = el" "\<not> tc_called (cb_at w c)"
  shows "if tc_side (cb_at w c) = Entering then tw_enter w el = Some c else tw_leave w el = Some c \<and> tc_rm (cb_at w c) = Hide el"
  using assms(1) [unfolded callbacks_of_def, rule_format, OF assms(2), THEN conjunct2, rule_format, OF conjI [OF assms(3,4)]] .

text \<open>Calling a callback that is not cancelled, or is another element's\<close>

lemma run_show:
  assumes "callbacks_of el w" "c < length (tw_cbs w)"
  shows "callbacks_of el (run_cb c w)"
    "tc_el (cb_at w c) = el \<longrightarrow> tc_called (cb_at w c) \<or> \<not> tc_cancelled (cb_at w c) \<Longrightarrow> shows_value el r w \<Longrightarrow> shows_value el r (run_cb c w)"
proof -
  have "callbacks_of el (run_cb c w) \<and>
    ((tc_el (cb_at w c) = el \<longrightarrow> tc_called (cb_at w c) \<or> \<not> tc_cancelled (cb_at w c)) \<longrightarrow> shows_value el r w \<longrightarrow> shows_value el r (run_cb c w))"
  proof (cases "tc_called (cb_at w c)")
    case True
    then show ?thesis using assms(1) by (simp add: run_called)
  next
    case False
    let ?cb = "cb_at w c" and ?w' = "run_cb c w"
    note run = run_new [OF assms(2) False]
    have itself: "cb_at ?w' c = ?cb\<lparr>tc_called := True\<rparr>" and other: "c' \<noteq> c \<Longrightarrow> cb_at ?w' c' = cb_at w c'" for c'
      using assms(2) False by (simp_all add: run_cbs marked_called_def)
    note hide = hide_el [OF assms]
    note cur = callback_current [OF assms _ False]
    have "callbacks_of el ?w'" unfolding callbacks_of_def
    proof (intro allI impI conjI)
      fix c' e assume a: "c' < length (tw_cbs ?w')" "tc_rm (cb_at ?w' c') = Hide e"
      show "tc_el (cb_at ?w' c') = e"
      proof (cases "c' = c")
        case True
        then show ?thesis using a(2) itself hide by simp
      next
        case False
        then show ?thesis using a hide_el [OF assms(1), of c' e] other by simp
      qed
    next
      fix c' assume a: "c' < length (tw_cbs ?w')" "tc_el (cb_at ?w' c') = el \<and> \<not> tc_called (cb_at ?w' c')"
      have n: "c' \<noteq> c" using a itself by (cases "c' = c") simp_all
      have old: "if tc_side (cb_at w c') = Entering then tw_enter w el = Some c' else tw_leave w el = Some c' \<and> tc_rm (cb_at w c') = Hide el"
        using callback_current [OF assms(1), of c'] a other [OF n] by simp
      have d: "tc_el ?cb = el \<Longrightarrow> tc_side ?cb \<noteq> tc_side (cb_at w c')" using cur old n by (cases "tc_side ?cb"; cases "tc_side (cb_at w c')") auto
      show "if tc_side (cb_at ?w' c') = Entering then tw_enter ?w' el = Some c' else tw_leave ?w' el = Some c' \<and> tc_rm (cb_at ?w' c') = Hide el"
        using old d unfolding other [OF n] run(2,3) by (cases "tc_side ?cb"; cases "tc_side (cb_at w c')") auto
    qed
    moreover have "shows_value el r ?w'" if u: "tc_el ?cb = el \<longrightarrow> tc_called ?cb \<or> \<not> tc_cancelled ?cb" and s: "shows_value el r w"
    proof (cases "tc_el ?cb = el")
      case False
      then have "tw_enter ?w' el = tw_enter w el" "tw_leave ?w' el = tw_leave w el" by (auto simp: run(2,3))
      moreover have "tw_display ?w' el = tw_display w el" using False hide by (auto simp: run(4) split: remover.split)
      ultimately show ?thesis using s shows_cong [of ?w' el w r] by simp
    next
      case True
      then have nc: "\<not> tc_cancelled ?cb" using u \<open>\<not> tc_called ?cb\<close> by blast
      show ?thesis
      proof (cases "tc_side ?cb")
        case Entering
        then have "tw_enter w el = Some c" using cur True by simp
        moreover have "tw_enter ?w' el = None" "tw_leave ?w' el = tw_leave w el" "tw_display ?w' el = tw_display w el"
          using True Entering by (simp_all add: run(2-4))
        ultimately show ?thesis using s by (simp add: shows_value_def split: option.splits if_splits)
      next
        case Leaving
        then have "tw_leave w el = Some c" "tc_rm ?cb = Hide el" using cur True by simp_all
        moreover have "tw_enter ?w' el = tw_enter w el" "tw_leave ?w' el = None" "tw_display ?w' el = ''none''"
          using True Leaving nc calculation(2) by (simp_all add: run(2-4))
        ultimately show ?thesis using s by (simp add: shows_value_def split: option.splits if_splits)
      qed
    qed
    ultimately show ?thesis by blast
  qed
  then show "callbacks_of el (run_cb c w)"
    "tc_el (cb_at w c) = el \<longrightarrow> tc_called (cb_at w c) \<or> \<not> tc_cancelled (cb_at w c) \<Longrightarrow> shows_value el r w \<Longrightarrow> shows_value el r (run_cb c w)"
    by blast+
qed

definition live :: "nat \<Rightarrow> trans_world \<Rightarrow> bool" where
  "live c w \<longleftrightarrow> tc_called (cb_at w c) \<or> \<not> tc_cancelled (cb_at w c)"

lemma ok_live: "trans_ok X w \<Longrightarrow> c < length (tw_cbs w) \<Longrightarrow> live c w"
  using not_cancelled(1) [OF trans_okD(2)] unfolding live_def by blast

lemma live_cong: "tw_cbs w' = tw_cbs w \<Longrightarrow> live c w' = live c w"
  by (simp add: live_def)

lemma live_run: "l < length (tw_cbs w) \<Longrightarrow> live c w \<Longrightarrow> live c (run_cb l w)"
  by (cases "c = l") (auto simp: live_def run_cbs marked_called_def)

lemma run_show_ok:
  assumes "show_ok el r w" "c < length (tw_cbs w)" "live c w"
  shows "show_ok el r (run_cb c w)"
  using assms run_show unfolding show_ok_def live_def by blast

lemma call_show_ok:
  assumes "show_ok el r w" "c < length (tw_cbs w)" "live c w"
  shows "show_ok el r (call_hook sync c w)" "live c (call_hook sync c w)"
proof -
  let ?w = "noted [HookCall c] (w\<lparr>tw_given := tw_given w @ [c]\<rparr>)"
  have "show_ok el r ?w" "live c ?w" using assms(1,3) show_cong(1) [of ?w w el] live_cong [of ?w w] by simp_all
  then show "show_ok el r (call_hook sync c w)" "live c (call_hook sync c w)"
    using run_show_ok [of el r ?w c] live_run [of c ?w c] assms by (simp_all add: call_hook_def Let_def split: option.split)
qed

lemma finish_show_ok:
  assumes "show_ok el r w" "c < length (tw_cbs w)" "live c w"
  shows "show_ok el r (finish_now c w)"
  using run_show_ok [OF assms] assms(1) by (simp add: finish_now_def)

lemma begun_show_ok:
  assumes "show_ok el r w" "c < length (tw_cbs w)" "live c w"
  shows "show_ok el r (begin_css c (noted es w))" "live c (begin_css c (noted es w))"
  using assms show_cong(1) [of "begin_css c (noted es w)" w el] live_cong [of "begin_css c (noted es w)" w] by simp_all

text \<open>Cancelling what another element does\<close>

lemma cancel_cb_show:
  assumes "callbacks_of el w" "c < length (tw_cbs w)"
  shows "callbacks_of el (cancel_cb c w)" "tc_el (cb_at w c) \<noteq> el \<Longrightarrow> shows_value el r w \<Longrightarrow> shows_value el r (cancel_cb c w)"
proof -
  define w1 where "w1 = set_cb c (\<lambda>cb. cb\<lparr>tc_cancelled := True\<rparr>) w"
  have cb: "cb_at w1 c' = (if c' = c then (cb_at w c)\<lparr>tc_cancelled := True\<rparr> else cb_at w c')" for c'
    using assms(2) by (simp add: w1_def)
  have rest: "length (tw_cbs w1) = length (tw_cbs w)" "tw_enter w1 = tw_enter w" "tw_leave w1 = tw_leave w" "tw_display w1 = tw_display w" "tw_orig w1 = tw_orig w"
    by (simp_all add: w1_def)
  have same: "tc_rm (cb_at w1 c') = tc_rm (cb_at w c')" "tc_el (cb_at w1 c') = tc_el (cb_at w c')" "tc_called (cb_at w1 c') = tc_called (cb_at w c')"
    "tc_side (cb_at w1 c') = tc_side (cb_at w c')" for c' by (simp_all add: cb)
  have w1: "callbacks_of el w1" using assms(1) unfolding callbacks_of_def rest same .
  have eq: "cancel_cb c w = run_cb c w1" by (simp add: cancel_cb_def w1_def)
  show "callbacks_of el (cancel_cb c w)" unfolding eq using run_show(1) [OF w1] assms(2) rest by simp
  assume "tc_el (cb_at w c) \<noteq> el" "shows_value el r w"
  then show "shows_value el r (cancel_cb c w)" unfolding eq using run_show(2) [OF w1, of c r] assms(2) rest same
      shows_cong [of w1 el w r] by simp
qed

lemma cancel_show:
  assumes "callbacks_of el w" "trans_ok X w"
  shows "callbacks_of el (cancel_leave el' w)" "callbacks_of el (cancel_enter el' w)"
    "el' \<noteq> el \<Longrightarrow> shows_value el r w \<Longrightarrow> shows_value el r (cancel_leave el' w)"
    "el' \<noteq> el \<Longrightarrow> shows_value el r w \<Longrightarrow> shows_value el r (cancel_enter el' w)"
proof -
  note ok = trans_okD(2) [OF assms(2)]
  have "callbacks_of el (cancel_leave el' w) \<and> (el' \<noteq> el \<longrightarrow> shows_value el r w \<longrightarrow> shows_value el r (cancel_leave el' w))"
  proof (cases "tw_leave w el'")
    case (Some c)
    then show ?thesis using leave_current [OF ok Some] cancel_cb_show [OF assms(1), of c] by (simp add: cancel_leave_def)
  qed (simp add: cancel_leave_def assms(1))
  then show "callbacks_of el (cancel_leave el' w)" "el' \<noteq> el \<Longrightarrow> shows_value el r w \<Longrightarrow> shows_value el r (cancel_leave el' w)" by blast+
  have "callbacks_of el (cancel_enter el' w) \<and> (el' \<noteq> el \<longrightarrow> shows_value el r w \<longrightarrow> shows_value el r (cancel_enter el' w))"
  proof (cases "tw_enter w el'")
    case (Some c)
    then show ?thesis using enter_current [OF ok Some] cancel_cb_show [OF assms(1), of c] by (simp add: cancel_enter_def)
  qed (simp add: cancel_enter_def assms(1))
  then show "callbacks_of el (cancel_enter el' w)" "el' \<noteq> el \<Longrightarrow> shows_value el r w \<Longrightarrow> shows_value el r (cancel_enter el' w)" by blast+
qed

lemma performLeave_show:
  assumes "show_ok el r w" "c < length (tw_cbs w)" "performLeave sync c w = Some w'"
  shows "show_ok el r w'"
proof (cases "tc_cancelled (cb_at w c)")
  case True
  then show ?thesis using assms(1,3) by (simp add: performLeave_def)
next
  case False
  define w1 where "w1 = (if tc_show (cb_at w c) then w
             else case tw_parent w (tc_el (cb_at w c)) of
               Some p \<Rightarrow> w\<lparr>tw_pending := (tw_pending w)(p := (tw_pending w p)(tc_key (cb_at w c) \<mapsto> (tc_tag (cb_at w c), tc_el (cb_at w c))))\<rparr>
             | None \<Rightarrow> w)"
  have w': "w' = finish_now c (call_hook sync c (begin_css c (noted [Before c] w1)))"
    using assms(3) False by (simp add: performLeave_def Let_def w1_def split: if_splits)
  have f: "tw_cbs w1 = tw_cbs w" "tw_enter w1 = tw_enter w" "tw_leave w1 = tw_leave w" "tw_display w1 = tw_display w" "tw_orig w1 = tw_orig w"
    by (simp_all add: w1_def split: option.split)
  have 1: "show_ok el r w1" "c < length (tw_cbs w1)" "live c w1"
    using assms(1,2) False show_cong(1) [of w1 w el] by (simp_all add: f live_def)
  note 2 = begun_show_ok [OF 1, of "[Before c]"]
  have c: "c < length (tw_cbs (begin_css c (noted [Before c] w1)))" using 1(2) by simp
  note 3 = call_show_ok [OF 2(1) c 2(2), of sync]
  show ?thesis unfolding w' by (rule finish_show_ok [OF 3(1) _ 3(2)]) (use 1(2) in simp)
qed

lemma frame_show:
  assumes "show_ok el r w" "c < length (tw_cbs w)"
  shows "show_ok el r (next_frame styles c w)"
proof -
  let ?cb = "cb_at w c"
  let ?w1 = "noted [FrameRun c] (removeTransitionClass (tc_el ?cb) (tc_start ?cb) w)"
  let ?w2 = "addTransitionClass (tc_el ?cb) (tc_to ?cb) ?w1"
  have 1: "show_ok el r ?w1" and 2: "show_ok el r ?w2" and 3: "show_ok el r (?w2\<lparr>tw_ends := tw_ends ?w2 @ [c]\<rparr>)"
    using assms(1) show_cong(1) [of ?w1 w el r] show_cong(1) [of ?w2 w el r] show_cong(1) [of "?w2\<lparr>tw_ends := tw_ends ?w2 @ [c]\<rparr>" w el r] by simp_all
  have "\<not> tc_cancelled ?cb \<Longrightarrow> show_ok el r (run_cb c ?w2)" by (rule run_show_ok [OF 2]) (use assms(2) in \<open>simp_all add: live_def\<close>)
  then show ?thesis using 1 2 3 by (simp add: next_frame_def Let_def)
qed

lemma with_cb_callbacks:
  assumes "callbacks_of el w" "tc_el cb \<noteq> el \<or> (tc_side cb = Leaving \<longrightarrow> tc_rm cb = Hide el)" "\<And>e. tc_rm cb = Hide e \<Longrightarrow> tc_el cb = e"
    "tw_enter w (tc_el cb) = None" "tw_leave w (tc_el cb) = None"
  shows "callbacks_of el (with_cb cb w)"
  unfolding callbacks_of_def
proof (intro allI impI conjI)
  fix c e assume a: "c < length (tw_cbs (with_cb cb w))" "tc_rm (cb_at (with_cb cb w) c) = Hide e"
  show "tc_el (cb_at (with_cb cb w) c) = e"
  proof (cases "c = length (tw_cbs w)")
    case True
    then show ?thesis using a(2) assms(3) by simp
  next
    case False
    then show ?thesis using a hide_el [OF assms(1), of c e] by (simp add: nth_append)
  qed
next
  fix c assume a: "c < length (tw_cbs (with_cb cb w))" "tc_el (cb_at (with_cb cb w) c) = el \<and> \<not> tc_called (cb_at (with_cb cb w) c)"
  show "if tc_side (cb_at (with_cb cb w) c) = Entering then tw_enter (with_cb cb w) el = Some c
      else tw_leave (with_cb cb w) el = Some c \<and> tc_rm (cb_at (with_cb cb w) c) = Hide el"
  proof (cases "c = length (tw_cbs w)")
    case True
    then show ?thesis using a(2) assms(2) by (cases "tc_side cb") auto
  next
    case False
    then have o: "c < length (tw_cbs w)" "cb_at (with_cb cb w) c = cb_at w c" using a(1) by (simp_all add: nth_append)
    have "if tc_side (cb_at w c) = Entering then tw_enter w el = Some c else tw_leave w el = Some c \<and> tc_rm (cb_at w c) = Hide el"
      using callback_current [OF assms(1) o(1)] a(2) o(2) by simp
    then show ?thesis using assms(4,5) unfolding o(2) by (cases "tc_side (cb_at w c)"; cases "el = tc_el cb") simp_all
  qed
qed

text \<open>Entering of an element, with what \<open>toggleDisplay\<close> does\<close>

lemma entered_show:
  assumes "callbacks_of el w" "tw_enter w (tc_el cb) = None" "tw_leave w (tc_el cb) = None" "\<not> tc_called cb" "\<not> tc_cancelled cb"
    "tc_side cb = Entering" "tc_rm cb = LetGo n"
    and el: "tc_el cb \<noteq> el \<Longrightarrow> shows_value el r w" "tc_el cb \<noteq> el \<Longrightarrow> \<forall>w. toggle w = w \<or> (\<exists>d. toggle w = set_display (tc_el cb) d w)"
    and itself: "tc_el cb = el \<Longrightarrow> tc_show cb \<and> r = Some True \<and> toggle = (\<lambda>w. set_display el (d w) w) \<and> (\<forall>w'. tw_orig w' el = tw_orig w el \<longrightarrow> d w' = tw_orig w el)"
  shows "show_ok el r (entered sync cb toggle w)"
proof -
  define c where "c = length (tw_cbs w)"
  define w3 where "w3 = with_cb cb w"
  define w4 where "w4 = (if \<not> tc_show cb then w3\<lparr>tw_inserts := tw_inserts w3 @ [c]\<rparr> else w3)"
  define w5 where "w5 = begin_css c (noted [Before c] w4)"
  define w6 where "w6 = (if tc_show cb then call_hook sync c (toggle w5) else w5)"
  have w5: "tw_cbs w5 = tw_cbs w @ [cb]" "tw_enter w5 = (tw_enter w)(tc_el cb := Some c)" "tw_leave w5 = tw_leave w" "tw_display w5 = tw_display w" "tw_orig w5 = tw_orig w"
    using assms(6) by (simp_all add: w5_def w4_def w3_def c_def)
  have "callbacks_of el w3" unfolding w3_def by (rule with_cb_callbacks) (use assms in simp_all)
  then have cbs: "callbacks_of el w5" using show_cong(2) [of w5 w3 el] w5 assms(6) by (simp add: w3_def c_def)
  have c: "c < length (tw_cbs w5)" "live c w5" using assms(5) by (simp_all add: w5 c_def live_def)
  have toggled: "show_ok el r (toggle w5) \<and> tw_cbs (toggle w5) = tw_cbs w5" if "tc_show cb \<or> tc_el cb \<noteq> el"
  proof (cases "tc_el cb = el")
    case False
    have "shows_value el r w5" using el(1) [OF False] False w5 shows_cong [of w5 el w r] by simp
    then have ok: "show_ok el r w5" using cbs by (simp add: show_ok_def)
    from el(2) [OF False] have "toggle w5 = w5 \<or> (\<exists>d. toggle w5 = set_display (tc_el cb) d w5)" by blast
    then show ?thesis
    proof
      assume "\<exists>d. toggle w5 = set_display (tc_el cb) d w5"
      then obtain d where d: "toggle w5 = set_display (tc_el cb) d w5" by blast
      show ?thesis using ok show_cong(1) [of "toggle w5" w5 el r] False by (simp add: d set_display_def)
    qed (use ok in simp)
  next
    case True
    note i = itself [OF True]
    have "d w5 = tw_orig w el" using i w5(5) by simp
    then have t: "toggle w5 = set_display el (tw_orig w el) w5" using i by simp
    have "callbacks_of el (toggle w5) = callbacks_of el w5"
      unfolding t by (rule callbacks_cong) (simp_all add: set_display_def)
    then have "callbacks_of el (toggle w5)" using cbs by blast
    moreover have "shows_value el r (toggle w5)" using i assms(3) True by (simp add: t set_display_def shows_value_def w5)
    ultimately show ?thesis by (simp add: show_ok_def t set_display_def)
  qed
  have "show_ok el r w6 \<and> length (tw_cbs w6) = length (tw_cbs w5) \<and> live c w6"
  proof (cases "tc_show cb")
    case True
    have l: "live c (toggle w5)" using toggled True c(2) live_cong by blast
    have "c < length (tw_cbs (toggle w5))" using toggled True c(1) by simp
    then show ?thesis using call_show_ok [of el r "toggle w5" c sync] toggled True l by (simp add: w6_def)
  next
    case False
    then have n: "tc_el cb \<noteq> el" using itself by blast
    have "shows_value el r w5" using el(1) [OF n] n w5 shows_cong [of w5 el w r] by simp
    then show ?thesis using cbs c False by (simp add: w6_def show_ok_def)
  qed
  then have "show_ok el r (finish_now c w6)" using finish_show_ok c(1) by simp
  then show ?thesis unfolding entered_def w6_def w5_def w4_def w3_def c_def Let_def .
qed

lemma noted_show: "show_ok el r (noted es w) = show_ok el r w" "callbacks_of el (noted es w) = callbacks_of el w"
  "shows_value el r (noted es w) = shows_value el r w"
  using show_cong [of "noted es w" w el] shows_cong [of "noted es w" el w] by simp_all

text \<open>Another element enters or leaves.\<close>

lemma enter_other:
  assumes "show_ok el r w" "trans_ok {} w" "tv_el v \<noteq> el" "\<forall>w. toggle w = w \<or> (\<exists>d. toggle w = set_display (tv_el v) d w)"
  shows "show_ok el r (enter sync isIE9 ctx v toggle w)"
proof -
  have c: "callbacks_of el (cancel_leave (tv_el v) w)" "shows_value el r (cancel_leave (tv_el v) w)"
    using cancel_show [OF _ assms(2)] assms(1,3) unfolding show_ok_def by blast+
  show ?thesis
  proof (cases rule: enter_cases [of sync isIE9 ctx v toggle w])
    case 1
    then show ?thesis using c by (simp add: show_ok_def)
  next
    case (2 d es)
    note cl = cancel_leave_ok(2) [OF assms(2), of "tv_el v"]
    show ?thesis unfolding 2(4)
      by (rule entered_show [where n = "tv_el v"]) (use c cl 2(3) assms(3,4) in \<open>simp_all add: noted_show enter_cb_def\<close>)
  qed
qed

lemma leave_other:
  assumes "show_ok el r w" "trans_ok {} w" "tv_el v \<noteq> el" "rm = LetGo n \<or> rm = Hide (tv_el v)" "leave sync isIE9 v rm w = Some w'"
  shows "show_ok el r w'"
proof -
  have c: "callbacks_of el (cancel_enter (tv_el v) w)" "shows_value el r (cancel_enter (tv_el v) w)"
    using cancel_show [OF _ assms(2)] assms(1,3) unfolding show_ok_def by blast+
  show ?thesis
  proof (cases rule: leave_cases [OF assms(5)])
    case 1
    have "show_ok el r (do_remove None rm (cancel_enter (tv_el v) w))"
      using c assms(3,4) show_cong(1) [of "do_remove None rm (cancel_enter (tv_el v) w)" "cancel_enter (tv_el v) w" el r] by (auto simp: show_ok_def)
    then show ?thesis using 1 by simp
  next
    case 2
    then show ?thesis using c by (simp add: show_ok_def)
  next
    case (3 d es)
    let ?w1 = "noted es (cancel_enter (tv_el v) w)" and ?cb = "leave_cb isIE9 d v rm"
    let ?w3 = "with_cb ?cb ?w1" and ?c = "length (tw_cbs (noted es (cancel_enter (tv_el v) w)))"
    have cb: "tc_side ?cb = Leaving" "tc_el ?cb = tv_el v" "tc_rm ?cb = rm" by (simp_all add: leave_cb_def)
    have "callbacks_of el ?w3" by (rule with_cb_callbacks) (use c 3(3) cancel_enter_ok(2) [OF assms(2)] cb assms(3,4) in \<open>auto simp: noted_show\<close>)
    moreover have "shows_value el r ?w3" using c(2) shows_cong [of ?w3 el ?w1 r] assms(3) cb by (simp add: noted_show)
    ultimately have s: "show_ok el r ?w3" by (simp add: show_ok_def)
    then have s': "show_ok el r (?w3\<lparr>tw_delayed := tw_delayed ?w3 @ [?c]\<rparr>)"
      using show_cong(1) [of "?w3\<lparr>tw_delayed := tw_delayed ?w3 @ [?c]\<rparr>" ?w3 el r] by simp
    show ?thesis
    proof (cases "tr_delay d")
      case True
      then show ?thesis using 3(4) s' by (simp add: Let_def)
    next
      case False
      then show ?thesis using 3(4) performLeave_show [OF s, of ?c sync w'] by (simp add: Let_def)
    qed
  qed
qed

text \<open>The element itself is shown, or hidden.\<close>

lemma enter_itself:
  assumes "callbacks_of (tv_el v) w" "trans_ok {} w" "tw_enter w (tv_el v) = None" "tv_show v" "tv_element v" "has_transition v" "may_show ctx v True"
    and "toggle = (\<lambda>w. set_display (tv_el v) (d w) w)" "\<And>w'. tw_orig w' (tv_el v) = tw_orig w (tv_el v) \<Longrightarrow> d w' = tw_orig w (tv_el v)"
  shows "show_ok (tv_el v) (Some True) (enter sync isIE9 ctx v toggle w)"
proof (cases rule: enter_cases [of sync isIE9 ctx v toggle w])
  case 1
  then have False using assms(3,5-7) cancel_leave_ok(4) [OF assms(2), of "tv_el v"] by (auto simp: may_show_def resolved split: option.splits)
  then show ?thesis ..
next
  case (2 d' es)
  note cl = cancel_leave_ok [OF assms(2), of "tv_el v"]
  show ?thesis unfolding 2(4)
    by (rule entered_show [where n = "tv_el v" and d = d])
      (use cancel_show(1) [OF assms(1,2)] cl 2(3) assms(4,8,9) in \<open>simp_all add: noted_show enter_cb_def\<close>)
qed

lemma leave_itself:
  assumes "show_ok (tv_el v) (Some True) w" "trans_ok {} w" "tv_element v" "has_transition v" "leave sync isIE9 v (Hide (tv_el v)) w = Some w'"
  shows "show_ok (tv_el v) (Some False) w'"
proof -
  have w: "callbacks_of (tv_el v) w" "tw_leave w (tv_el v) = None" "tw_display w (tv_el v) = tw_orig w (tv_el v)"
    using assms(1) by (simp_all add: show_ok_def shows_value_def)
  note ce = cancel_enter_ok [OF assms(2), of "tv_el v"]
  show ?thesis
  proof (cases rule: leave_cases [OF assms(5)])
    case (3 d es)
    let ?w1 = "noted es (cancel_enter (tv_el v) w)" and ?cb = "leave_cb isIE9 d v (Hide (tv_el v))"
    let ?w3 = "with_cb ?cb ?w1" and ?c = "length (tw_cbs (noted es (cancel_enter (tv_el v) w)))"
    have cb: "tc_side ?cb = Leaving" "tc_el ?cb = tv_el v" "tc_rm ?cb = Hide (tv_el v)" by (simp_all add: leave_cb_def)
    have "callbacks_of (tv_el v) ?w3"
      by (rule with_cb_callbacks) (use cancel_show(2) [OF w(1) assms(2)] 3(3) ce(2) cb in \<open>simp_all add: noted_show\<close>)
    moreover have "shows_value (tv_el v) (Some False) ?w3" using ce w cb by (simp add: shows_value_def)
    ultimately have s: "show_ok (tv_el v) (Some False) ?w3" by (simp add: show_ok_def)
    then have s': "show_ok (tv_el v) (Some False) (?w3\<lparr>tw_delayed := tw_delayed ?w3 @ [?c]\<rparr>)"
      using show_cong(1) [of "?w3\<lparr>tw_delayed := tw_delayed ?w3 @ [?c]\<rparr>" ?w3 "tv_el v" "Some False"] by simp
    show ?thesis
    proof (cases "tr_delay d")
      case True
      then show ?thesis using 3(4) s' by (simp add: Let_def)
    next
      case False
      then show ?thesis using 3(4) performLeave_show [OF s, of ?c sync w'] by (simp add: Let_def)
    qed
  qed (use assms(3,4) w(2) ce(4) in simp_all)
qed

lemma show_bind_itself:
  assumes "show_ok (tv_el v) None w" "trans_ok {} w" "tv_element v" "has_transition v" "may_show ctx v val"
  shows "show_ok (tv_el v) (Some val) (show_bind sync isIE9 ctx v val w)"
proof -
  let ?el = "tv_el v" and ?o = "if tw_display w (tv_el v) = ''none'' then [] else tw_display w (tv_el v)"
  let ?w1 = "w\<lparr>tw_orig := (tw_orig w)(?el := ?o)\<rparr>"
  have w: "callbacks_of ?el w" "tw_enter w ?el = None" "tw_leave w ?el = None" using assms(1) by (simp_all add: show_ok_def shows_value_def)
  have c1: "callbacks_of ?el ?w1" using w(1) callbacks_cong [of ?w1 w ?el] by simp
  have w1: "trans_ok {} ?w1" using assms(2) by (simp add: display_ok)
  show ?thesis
  proof (cases val)
    case True
    have "show_ok (tv_el (v\<lparr>tv_show := True\<rparr>)) (Some True) (enter sync isIE9 ctx (v\<lparr>tv_show := True\<rparr>) (set_display ?el ?o) ?w1)"
      by (rule enter_itself [where d = "\<lambda>_. ?o"]) (use c1 w1 w assms(3-5) True in \<open>simp_all add: may_show_def has_transition_def is_appear_def\<close>)
    then show ?thesis using True assms(4) by (simp add: show_bind_def Let_def)
  next
    case False
    let ?w2 = "set_display ?el ''none'' ?w1"
    have "callbacks_of ?el ?w2" using c1 callbacks_cong [of ?w2 ?w1 ?el] by (simp add: set_display_def)
    moreover have "shows_value ?el (Some False) ?w2" using w by (simp add: shows_value_def set_display_def)
    ultimately show ?thesis using False by (simp add: show_bind_def Let_def show_ok_def)
  qed
qed

lemma show_update_itself:
  assumes "show_ok (tv_el v) (Some oldVal) w" "trans_ok {} w" "tv_element v" "has_transition v" "may_show ctx v val"
    "show_update sync isIE9 ctx v val oldVal w = Some w'"
  shows "show_ok (tv_el v) (Some val) w'"
proof (cases "val = oldVal")
  case True
  then show ?thesis using assms(1,6) by (simp add: show_update_def Let_def)
next
  case False
  let ?v = "v\<lparr>tv_show := True\<rparr>"
  have v: "tv_element ?v" "has_transition ?v" "may_show ctx ?v val" "tv_el ?v = tv_el v" "tv_show ?v"
    using assms(3-5) by (simp_all add: may_show_def has_transition_def is_appear_def)
  show ?thesis
  proof (cases val)
    case True
    have w: "callbacks_of (tv_el ?v) w" "tw_enter w (tv_el ?v) = None" using assms(1) False True by (simp_all add: show_ok_def shows_value_def)
    have "show_ok (tv_el ?v) (Some True) (enter sync isIE9 ctx ?v (\<lambda>w. set_display (tv_el v) (tw_orig w (tv_el v)) w) w)"
      by (rule enter_itself [where d = "\<lambda>w. tw_orig w (tv_el v)"]) (use w v assms(2) True in simp_all)
    then show ?thesis using assms(4,6) False True by (simp add: show_update_def Let_def)
  next
    case False
    then have l: "leave sync isIE9 ?v (Hide (tv_el ?v)) w = Some w'" using assms(4,6) \<open>val \<noteq> oldVal\<close> by (simp add: show_update_def Let_def)
    have "show_ok (tv_el ?v) (Some True) w" using assms(1) False \<open>val \<noteq> oldVal\<close> by simp
    from leave_itself [OF this assms(2) v(1,2) l] show ?thesis using False by simp
  qed
qed

lemma step_show:
  assumes "show_ok el r w" "trans_ok {} w" "managed el r s" "trans_step sync isIE9 s w = Some w'"
  shows "show_ok el (next_shown el r s) w'"
proof -
  note lists = trans_okD(4) [OF assms(2)]
  show ?thesis
  proof (cases s)
    case (Enters ctx v)
    then have w': "w' = enter_1 sync isIE9 ctx v w" "tv_el v = el \<Longrightarrow> tv_show v" using assms(3,4) by (simp_all add: managed_def)
    show ?thesis
    proof (cases "tv_show v")
      case False
      then have "show_ok el r (enter sync isIE9 ctx v id w)" using w' by (intro enter_other [OF assms(1,2)]) auto
      then show ?thesis using w' False Enters by (simp add: enter_1_def next_shown_def)
    qed (use assms(1) w' Enters in \<open>simp add: enter_1_def next_shown_def\<close>)
  next
    case (Leaves v node)
    then have w': "remove_1 sync isIE9 v (LetGo node) w = Some w'" "tv_el v = el \<Longrightarrow> tv_show v" using assms(3,4) by (simp_all add: managed_def)
    show ?thesis
    proof (cases "tv_show v")
      case True
      then show ?thesis using w' assms(1) show_cong(1) [of w' w el r] Leaves by (auto simp: remove_1_def next_shown_def)
    next
      case False
      then have l: "tv_el v \<noteq> el" "leave sync isIE9 v (LetGo node) w = Some w'" using w' by (auto simp: remove_1_def)
      have "show_ok el r w'" by (rule leave_other [OF assms(1,2) l(1) _ l(2), where n = node]) simp
      then show ?thesis using Leaves by (simp add: next_shown_def)
    qed
  next
    case (ShowBind ctx v val)
    then have w': "w' = show_bind sync isIE9 ctx v val w" using assms(4) by simp
    show ?thesis
    proof (cases "tv_el v = el")
      case True
      then show ?thesis using show_bind_itself [of v w ctx val sync isIE9] assms(1-3) ShowBind w' by (simp add: managed_def next_shown_def)
    next
      case False
      let ?o = "if tw_display w (tv_el v) = ''none'' then [] else tw_display w (tv_el v)"
      let ?w1 = "w\<lparr>tw_orig := (tw_orig w)(tv_el v := ?o)\<rparr>"
      have w1: "show_ok el r ?w1" "trans_ok {} ?w1" using assms(1,2) False show_cong(1) [of ?w1 w el r] by (simp_all add: display_ok)
      have "show_ok el r (enter sync isIE9 ctx (v\<lparr>tv_show := True\<rparr>) (set_display (tv_el v) ?o) ?w1)"
        by (rule enter_other [OF w1]) (use False in auto)
      moreover have "show_ok el r (set_display (tv_el v) d ?w1)" for d
        using w1 False show_cong(1) [of "set_display (tv_el v) d ?w1" ?w1 el r] by (simp add: set_display_def)
      ultimately show ?thesis using w' False ShowBind unfolding show_bind_def Let_def next_shown_def by simp
    qed
  next
    case (ShowUpdate ctx v val oldVal)
    then have w': "show_update sync isIE9 ctx v val oldVal w = Some w'" using assms(4) by simp
    show ?thesis
    proof (cases "tv_el v = el")
      case True
      then show ?thesis using show_update_itself [OF _ assms(2) _ _ _ w'] assms(1,3) ShowUpdate by (simp add: managed_def next_shown_def)
    next
      case False
      have e: "show_ok el r (enter sync isIE9 ctx (v\<lparr>tv_show := True\<rparr>) (\<lambda>w. set_display (tv_el v) (tw_orig w (tv_el v)) w) w)"
        by (rule enter_other [OF assms(1,2)]) (use False in auto)
      have l: "leave sync isIE9 (v\<lparr>tv_show := True\<rparr>) (Hide (tv_el v)) w = Some w' \<Longrightarrow> show_ok el r w'"
        by (rule leave_other [OF assms(1,2), where v = "v\<lparr>tv_show := True\<rparr>"]) (use False in auto)
      have d: "show_ok el r (set_display (tv_el v) d w)" for d
        using assms(1) False show_cong(1) [of "set_display (tv_el v) d w" w el r] by (simp add: set_display_def)
      show ?thesis using w' e l d assms(1) False ShowUpdate by (auto simp: show_update_def Let_def next_shown_def split: if_splits)
    qed
  next
    case (Frame styles c)
    then have f: "c \<in> set (tw_frames w)" "w' = next_frame styles c (w\<lparr>tw_frames := remove1 c (tw_frames w)\<rparr>)"
      using assms(4) by (auto simp: if_waiting_def split: if_splits)
    have "show_ok el r (w\<lparr>tw_frames := remove1 c (tw_frames w)\<rparr>)" using assms(1) show_cong(1) [of "w\<lparr>tw_frames := remove1 c (tw_frames w)\<rparr>" w el r] by simp
    then show ?thesis using frame_show [of el r _ c styles] lists f Frame by (simp add: lists_ok_def next_shown_def)
  next
    case (End c)
    let ?w0 = "w\<lparr>tw_ends := remove1 c (tw_ends w)\<rparr>"
    have e: "c \<in> set (tw_ends w)" "w' = run_cb c ?w0" using assms(4) End by (auto simp: if_waiting_def split: if_splits)
    have c: "c < length (tw_cbs w)" using lists e(1) by (simp add: lists_ok_def)
    have "show_ok el r ?w0" "live c ?w0" using assms(1) ok_live [OF assms(2) c] live_cong [of ?w0 w c] show_cong(1) [of ?w0 w el r] by simp_all
    then show ?thesis using run_show_ok [of el r ?w0 c] c e(2) End by (simp add: next_shown_def)
  next
    case (Done c)
    have e: "c \<in> set (tw_given w)" "w' = run_cb c w" using assms(4) Done by (auto simp: if_waiting_def split: if_splits)
    have c: "c < length (tw_cbs w)" using lists e(1) by (simp add: lists_ok_def)
    then show ?thesis using run_show_ok [OF assms(1) c] ok_live [OF assms(2) c] e(2) Done by (simp add: next_shown_def)
  next
    case (Insert c)
    let ?w0 = "w\<lparr>tw_inserts := remove1 c (tw_inserts w)\<rparr>"
    have e: "c \<in> set (tw_inserts w)" "w' = insert_hook sync c ?w0" using assms(4) Insert by (auto simp: if_waiting_def split: if_splits)
    have c: "c < length (tw_cbs w)" using lists e(1) by (simp add: lists_ok_def)
    have w0: "show_ok el r ?w0" using assms(1) show_cong(1) [of ?w0 w el r] by simp
    have live0: "l < length (tw_cbs w) \<Longrightarrow> live l ?w0" for l using ok_live [OF assms(2)] live_cong [of ?w0 w l] by simp
    have run: "show_ok el r (run_cb l ?w0) \<and> live c (run_cb l ?w0)" if "tw_leave w e' = Some l" for l e'
    proof -
      have l: "l < length (tw_cbs w)" using leave_current [OF trans_okD(2) [OF assms(2)] that] by blast
      then show ?thesis using run_show_ok [OF w0, of l] live_run [of l ?w0 c] live0 c by simp
    qed
    have "\<exists>w1. insert_hook sync c ?w0 = call_hook sync c w1 \<and> show_ok el r w1 \<and> live c w1 \<and> length (tw_cbs w1) = length (tw_cbs w)"
      unfolding insert_hook_def Let_def
      by (rule exI, rule conjI, rule refl) (use w0 live0 [OF c] run in \<open>auto split: option.split\<close>)
    then show ?thesis using call_show_ok(1) [of el r _ c sync] c e(2) Insert by (auto simp: next_shown_def)
  next
    case (Delayed c)
    let ?w0 = "w\<lparr>tw_delayed := remove1 c (tw_delayed w)\<rparr>"
    have e: "c \<in> set (tw_delayed w)" "performLeave sync c ?w0 = Some w'" using assms(4) Delayed by (auto simp: if_waiting_def split: if_splits)
    have c: "c < length (tw_cbs w)" using lists e(1) by (simp add: lists_ok_def)
    have "show_ok el r ?w0" using assms(1) show_cong(1) [of ?w0 w el r] by simp
    then show ?thesis using performLeave_show [OF _ _ e(2)] c Delayed by (simp add: next_shown_def)
  next
    case (Place e p)
    then have "w' = w\<lparr>tw_parent := (tw_parent w)(e := p)\<rparr>" using assms(4) by (simp split: if_splits)
    then show ?thesis using assms(1) show_cong(1) [of w' w el r] Place by (simp add: next_shown_def)
  next
    case (CallPending e)
    have "show_ok el r (call_enter e w)"
    proof (cases "tw_enter w e")
      case (Some c)
      have c: "c < length (tw_cbs w)" using enter_current [OF trans_okD(2) [OF assms(2)] Some] by blast
      then show ?thesis using run_show_ok [OF assms(1) c ok_live [OF assms(2) c]] by (simp add: call_enter_def Some)
    qed (simp add: call_enter_def assms(1))
    then show ?thesis using assms(4) CallPending by (simp add: next_shown_def)
  qed
qed

lemma run_show_steps:
  assumes "show_ok el r w" "trans_ok {} w" "all_managed el r steps" "trans_run sync isIE9 steps w = Some w'"
  shows "show_ok el (foldl (next_shown el) r steps) w'"
  using assms
proof (induction steps arbitrary: r w)
  case (Cons s steps)
  have none: "foldl (\<lambda>r s. Option.bind r (trans_step sync isIE9 s)) None steps = None" by (induction steps) simp_all
  then obtain w1 where w1: "trans_step sync isIE9 s w = Some w1" "trans_run sync isIE9 steps w1 = Some w'"
    using Cons.prems(4) by (cases "trans_step sync isIE9 s w") (simp_all add: trans_run_def)
  have "show_ok el (next_shown el r s) w1" by (rule step_show [OF Cons.prems(1,2) _ w1(1)]) (use Cons.prems(3) in simp)
  then show ?case using Cons.IH [OF _ step_trans_ok [OF Cons.prems(2) w1(1)] _ w1(2)] Cons.prems(3) by simp
qed (simp add: trans_run_def)

text \<open>
  C13. \<open>v-show\<close> with a transition: through any interleaving of updates, frames, timers, calls of \<open>done\<close> and transitions of
  other elements, an element whose value is true is displayed as it was when it was bound, one whose value is
  false is hidden unless it is still leaving, and the element of a value that is true is not leaving.
\<close>

theorem show_follows_value:
  assumes "at_rest w0" "trans_run sync isIE9 steps w0 = Some w" "all_managed el None steps"
    and "foldl (next_shown el) None steps = Some val"
  shows "if val then tw_display w el = tw_orig w el \<and> tw_leave w el = None
    else tw_display w el = (if tw_leave w el = None then ''none'' else tw_orig w el)"
proof -
  have "show_ok el None w0" using assms(1) by (simp add: show_ok_def callbacks_of_def shows_value_def at_rest_def)
  from run_show_steps [OF this rest_ok [OF assms(1)] assms(3,2)] show ?thesis
    by (cases val) (simp_all add: assms(4) show_ok_def shows_value_def)
qed

section \<open>Examples\<close>

definition ex_page :: trans_world where
  "ex_page = \<lparr>tw_class = (\<lambda>_. ClassList []), tw_tcls = (\<lambda>_. []), tw_enter = (\<lambda>_. None), tw_leave = (\<lambda>_. None), tw_parent = (\<lambda>_. Some 9),
     tw_pending = (\<lambda>_ _. None), tw_display = (\<lambda>_. []), tw_orig = (\<lambda>_. []), tw_cbs = [], tw_frames = [], tw_ends = [], tw_inserts = [],
     tw_delayed = [], tw_given = [], tw_log = []\<rparr>"

definition ex_ctx :: trans_ctx where
  "ex_ctx = \<lparr>tx_active = 0, tx_above = [], tx_mounted = (\<lambda>_. True)\<rparr>"

definition ex_box :: "trans_def \<Rightarrow> bool \<Rightarrow> trans_vnode" where
  "ex_box d sh = \<lparr>tv_el = 1, tv_element = True, tv_key = ''k'', tv_tag = ''div'', tv_def = d, tv_show = sh, tv_rootInsert = True\<rparr>"

definition ex_styles :: css_styles where
  "ex_styles = \<lparr>cs_transitionDelay = [''0s''], cs_transitionDuration = [''0.3s''], cs_animationDelay = [''0s''], cs_animationDuration = [''0s''], cs_transitionProperty = ''opacity''\<rparr>"

text \<open>A fading box that is taken out and put back again before it has faded\<close>

definition ex_steps :: "page_step list" where
  "ex_steps = [Enters ex_ctx (ex_box (DefName ''fade'') False), Insert 0, Frame ex_styles 0, End 0,
     Leaves (ex_box (DefName ''fade'') False) 1, Frame ex_styles 1, Enters ex_ctx (ex_box (DefName ''fade'') False)]"

definition ex_hooked :: trans_def where
  "ex_hooked = DefObj \<lparr>tr_name = None, tr_css = None, tr_type = None, tr_classes = [], tr_hooks = [(''enter'', Fn 7 2 0)],
     tr_appear = False, tr_duration = JUndef, tr_delay = False\<rparr>"

lemma ex_page_rest: "at_rest ex_page"
  by (simp add: at_rest_def ex_page_def)

lemma transitions_settle_witness:
  "\<exists>w. trans_run (\<lambda>_. False) False ex_steps ex_page = Some w \<and> (tw_enter w 1 = None \<or> tw_leave w 1 = None)"
proof -
  have "trans_run (\<lambda>_. False) False ex_steps ex_page \<noteq> None" by code_simp
  then obtain w where w: "trans_run (\<lambda>_. False) False ex_steps ex_page = Some w" by blast
  then show ?thesis using transitions_settle [OF ex_page_rest w] by blast
qed

lemma early_done_leaves_class_witness:
  "\<exists>w w'. trans_run (\<lambda>_. False) False [Enters ex_ctx (ex_box ex_hooked False), Insert 0] ex_page = Some w \<and>
    trans_run (\<lambda>_. False) False [Done 0, Frame ex_styles 0] w = Some w' \<and> ''v-enter-to'' \<in> set (tw_tcls w' 1)"
proof -
  let ?r = "trans_run (\<lambda>_. False) False [Enters ex_ctx (ex_box ex_hooked False), Insert 0] ex_page"
  have "case ?r of Some w \<Rightarrow> 0 \<in> set (tw_frames w) \<and> 0 \<in> set (tw_given w) \<and> \<not> tc_called (cb_at w 0) \<and>
      tc_to (cb_at w 0) = ''v-enter-to'' \<and> tc_el (cb_at w 0) = 1 | None \<Rightarrow> False" by code_simp
  then obtain w where w: "?r = Some w" "0 \<in> set (tw_frames w)" "0 \<in> set (tw_given w)" "\<not> tc_called (cb_at w 0)"
      "tc_to (cb_at w 0) = ''v-enter-to''" "tc_el (cb_at w 0) = 1" by (auto split: option.splits)
  show ?thesis using early_done_leaves_class [OF ex_page_rest w(1-4), of ex_styles] w(1,5,6) by auto
qed

definition ex_show_steps :: "page_step list" where
  "ex_show_steps = [ShowBind ex_ctx (ex_box (DefName ''fade'') True) False, ShowUpdate ex_ctx (ex_box (DefName ''fade'') True) True False,
     Frame ex_styles 0, ShowUpdate ex_ctx (ex_box (DefName ''fade'') True) False True, Frame ex_styles 1, End 1]"

lemma show_follows_value_witness:
  "\<exists>w. trans_run (\<lambda>_. False) False ex_show_steps ex_page = Some w \<and> tw_leave w 1 = None \<and> tw_display w 1 = ''none''"
proof -
  have "case trans_run (\<lambda>_. False) False ex_show_steps ex_page of Some w \<Rightarrow> tw_leave w 1 = None | None \<Rightarrow> False" by code_simp
  then obtain w where w: "trans_run (\<lambda>_. False) False ex_show_steps ex_page = Some w" "tw_leave w 1 = None" by (auto split: option.splits)
  have "all_managed 1 None ex_show_steps" "foldl (next_shown 1) None ex_show_steps = Some False" by code_simp+
  from show_follows_value [OF ex_page_rest w(1) this] w show ?thesis by simp
qed

end
