(* ===== verification/SelectModel.thy ===== *)
theory SelectModel
  imports SharedUtil WebTags
begin

text \<open>
  The run-time directive \<open>v-model\<close> in \<open>frontend/js/vue.js\<close>: how the options of a select element follow the
  model (\<open>setSelected\<close>, \<open>componentUpdated\<close>), and when an element of text reports its input while a text is being
  composed. The lemmas say which options are selected, when the model is asked to follow the options,
  and when a change of the options goes unnoticed.
\<close>

section \<open>A select element\<close>

text \<open>
  An option with \<open>value\<close>, \<open>_value\<close> (\<open>None\<close> if there is no such property) and \<open>selected\<close>. \<open>se_vOptions\<close> is \<open>_vOptions\<close>, \<open>se_changes\<close>
  counts the change events triggered, \<open>se_later\<close> lists the values to be set again by a timer,
  \<open>se_postpatch\<close> the hooks added to the vnode.
\<close>

record sel_option =
  so_value :: string
  so__value :: "jsval option"
  so_selected :: bool

record sel_elm =
  se_multiple :: bool
  se_options :: "sel_option list"
  se_vOptions :: "jsval list option"
  se_warns :: "string list"
  se_changes :: nat
  se_later :: "jsval list"
  se_postpatch :: nat

record model_binding =
  mb_value :: jsval
  mb_oldValue :: jsval
  mb_expression :: string

definition getValue :: "sel_option \<Rightarrow> jsval" where
  "getValue opt = (case so__value opt of Some v \<Rightarrow> v | None \<Rightarrow> JStr (so_value opt))"

text \<open>The browser's \<open>selectedIndex\<close> of an element for one choice (\<open>None\<close> is -1): writing it selects this option alone.\<close>

definition selectedIndex :: "sel_elm \<Rightarrow> nat option" where
  "selectedIndex el = index_by so_selected (se_options el)"

definition set_selectedIndex :: "nat option \<Rightarrow> sel_elm \<Rightarrow> sel_elm" where
  "set_selectedIndex i el = el\<lparr>se_options := map (\<lambda>(j, opt). opt\<lparr>so_selected := (i = Some j)\<rparr>) (enumerate 0 (se_options el))\<rparr>"

definition elements_of :: "jsval \<Rightarrow> jsval list option" where
  "elements_of v = (case v of JArr _ xs \<Rightarrow> Some xs | _ \<Rightarrow> None)"

definition actuallySetSelected :: "model_binding \<Rightarrow> sel_elm \<Rightarrow> sel_elm" where
  "actuallySetSelected binding el =
     (let val = mb_value binding in
      if se_multiple el then
        (case elements_of val of
           None \<Rightarrow> el\<lparr>se_warns := se_warns el @ [''<select multiple v-model='' @ [dq] @ mb_expression binding @ [dq] @
             ''> expects an Array value for its binding, but got '' @ toRawType val]\<rparr>
         | Some vs \<Rightarrow>
             el\<lparr>se_options := map (\<lambda>opt. let selected = looseIndexOf vs (getValue opt) \<noteq> None
                in if so_selected opt \<noteq> selected then opt\<lparr>so_selected := selected\<rparr> else opt) (se_options el)\<rparr>)
      else
        (case index_by (\<lambda>opt. looseEqual (getValue opt) val) (se_options el) of
           Some i \<Rightarrow> if selectedIndex el \<noteq> Some i then set_selectedIndex (Some i) el else el
         | None \<Rightarrow> set_selectedIndex None el))"

definition setSelected :: "bool \<Rightarrow> model_binding \<Rightarrow> sel_elm \<Rightarrow> sel_elm" where
  "setSelected isIE_or_Edge binding el =
     (let el1 = actuallySetSelected binding el
      in if isIE_or_Edge then el1\<lparr>se_later := se_later el1 @ [mb_value binding]\<rparr> else el1)"

definition hasNoMatchingOption :: "jsval \<Rightarrow> jsval list \<Rightarrow> bool" where
  "hasNoMatchingOption val options = list_all (\<lambda>opt. \<not> looseEqual opt val) options"

text \<open>\<open>curOptions.some(...)\<close>: an old option that is missing reads as undefined.\<close>

definition options_differ :: "jsval list \<Rightarrow> jsval list \<Rightarrow> bool" where
  "options_differ curOptions prevOptions =
     list_ex (\<lambda>(i, opt). \<not> looseEqual opt (case nth_opt prevOptions i of Some p \<Rightarrow> p | None \<Rightarrow> JUndef)) (enumerate 0 curOptions)"

text \<open>\<open>None\<close>: the value has no method \<open>some\<close>, or there are no previous options to look at.\<close>

definition componentUpdated :: "bool \<Rightarrow> string \<Rightarrow> model_binding \<Rightarrow> sel_elm \<Rightarrow> sel_elm option" where
  "componentUpdated isIE_or_Edge vtag binding el =
     (if vtag \<noteq> ''select'' then Some el
      else
        let el1 = setSelected isIE_or_Edge binding el;
            prevOptions = se_vOptions el1; curOptions = map getValue (se_options el1);
            el2 = el1\<lparr>se_vOptions := Some curOptions\<rparr>
        in case prevOptions of
             None \<Rightarrow> if curOptions = [] then Some el2 else None
           | Some prev \<Rightarrow>
               if options_differ curOptions prev then
                 (case (if se_multiple el2
                        then map_option (list_ex (\<lambda>v. hasNoMatchingOption v curOptions)) (elements_of (mb_value binding))
                        else Some (\<not> strict_eq (mb_value binding) (mb_oldValue binding) \<and> hasNoMatchingOption (mb_value binding) curOptions)) of
                    None \<Rightarrow> None
                  | Some needReset \<Rightarrow> Some (if needReset then el2\<lparr>se_changes := Suc (se_changes el2)\<rparr> else el2))
               else Some el2)"

text \<open>\<open>inserted\<close> of a select; \<open>reused\<close>: the old vnode has an element which has no \<open>_vOptions\<close> (it was no such select).\<close>

definition inserted_select :: "bool \<Rightarrow> bool \<Rightarrow> model_binding \<Rightarrow> sel_elm \<Rightarrow> sel_elm" where
  "inserted_select isIE_or_Edge reused binding el =
     (let el1 = (if reused then el\<lparr>se_postpatch := Suc (se_postpatch el)\<rparr> else setSelected isIE_or_Edge binding el)
      in el1\<lparr>se_vOptions := Some (map getValue (se_options el1))\<rparr>)"

section \<open>An element of text\<close>

record text_elm =
  te_lazy :: bool
  te_listeners :: "(string \<times> string) list"
  te_composing :: bool
  te_inputs :: nat

definition inserted_text :: "string \<Rightarrow> string \<Rightarrow> bool \<Rightarrow> text_elm \<Rightarrow> text_elm" where
  "inserted_text vtag type lazy el =
     (if vtag = ''textarea'' \<or> isTextInputType type then
        let el1 = el\<lparr>te_lazy := lazy\<rparr> in
        if \<not> lazy then el1\<lparr>te_listeners := te_listeners el1 @
             [(''compositionstart'', ''onCompositionStart''), (''compositionend'', ''onCompositionEnd''), (''change'', ''onCompositionEnd'')]\<rparr>
        else el1
      else el)"

definition onCompositionStart :: "text_elm \<Rightarrow> text_elm" where
  "onCompositionStart el = el\<lparr>te_composing := True\<rparr>"

definition onCompositionEnd :: "text_elm \<Rightarrow> text_elm" where
  "onCompositionEnd el = (if \<not> te_composing el then el else el\<lparr>te_composing := False, te_inputs := Suc (te_inputs el)\<rparr>)"

definition text_event :: "text_elm \<Rightarrow> string \<Rightarrow> text_elm" where
  "text_event el e =
     foldl (\<lambda>el (_, h). if h = ''onCompositionStart'' then onCompositionStart el else onCompositionEnd el) el
       (filter (\<lambda>(n, _). n = e) (te_listeners el))"

section \<open>What is selected\<close>

lemma value_selected [simp]: "getValue (opt\<lparr>so_selected := b\<rparr>) = getValue opt"
  by (simp add: getValue_def split: option.split)

lemma enumerate_map: "map f (map (\<lambda>(j, opt). g j opt) (enumerate n opts)) = map (\<lambda>(j, opt). f (g j opt)) (enumerate n opts)"
  by (simp add: case_prod_unfold)

lemma values_index: "map getValue (se_options (set_selectedIndex i el)) = map getValue (se_options el)"
proof -
  have "map getValue (map (\<lambda>(j, opt). opt\<lparr>so_selected := f j\<rparr>) (enumerate n opts)) = map getValue opts" for f n opts
    by (induction opts arbitrary: n) simp_all
  then show ?thesis by (simp add: set_selectedIndex_def)
qed

lemma index_options: "length (se_options (set_selectedIndex i el)) = length (se_options el)"
  "j < length (se_options el) \<Longrightarrow> so_selected (se_options (set_selectedIndex i el) ! j) \<longleftrightarrow> i = Some j"
  by (simp_all add: set_selectedIndex_def nth_enumerate_eq)

lemma values_kept: "map getValue (se_options (actuallySetSelected binding el)) = map getValue (se_options el)"
  using values_index by (auto simp: actuallySetSelected_def Let_def split: option.split)

text \<open>An element for one choice has at most one option selected.\<close>

definition one_choice :: "sel_elm \<Rightarrow> bool" where
  "one_choice el \<longleftrightarrow> (\<forall>i<length (se_options el). \<forall>j<length (se_options el).
     so_selected (se_options el ! i) \<and> so_selected (se_options el ! j) \<longrightarrow> i = j)"

text \<open>
  \<open>v-model\<close> on a select: where several options can be chosen, those are selected whose value is loosely equal
  to an element of the model, and without an array for a model nothing changes but for a warning; otherwise the
  first option with a value loosely equal to the model is selected, alone, or none.
\<close>

theorem select_shows_model:
  assumes "\<not> se_multiple el \<longrightarrow> one_choice el"
    and el'_def: "el' = actuallySetSelected binding el"
  shows "if se_multiple el then
      (case elements_of (mb_value binding) of
         None \<Rightarrow> se_options el' = se_options el \<and> length (se_warns el') = Suc (length (se_warns el))
       | Some vs \<Rightarrow> \<forall>i<length (se_options el).
           so_selected (se_options el' ! i) \<longleftrightarrow> (\<exists>v\<in>set vs. looseEqual v (getValue (se_options el ! i))))
    else \<forall>i<length (se_options el).
      so_selected (se_options el' ! i) \<longleftrightarrow>
        looseEqual (getValue (se_options el ! i)) (mb_value binding) \<and>
        (\<forall>j<i. \<not> looseEqual (getValue (se_options el ! j)) (mb_value binding))"
proof (cases "se_multiple el")
  case True
  have "looseIndexOf vs v \<noteq> None \<longleftrightarrow> (\<exists>x\<in>set vs. looseEqual x v)" for vs v
    by (auto simp: looseIndexOf_def index_by_None)
  then show ?thesis using True by (simp add: el'_def actuallySetSelected_def Let_def split: option.split)
next
  case False
  let ?P = "\<lambda>opt. looseEqual (getValue opt) (mb_value binding)"
  show ?thesis
  proof (cases "index_by ?P (se_options el)")
    case None
    then have no: "\<forall>opt\<in>set (se_options el). \<not> ?P opt" by (simp add: index_by_None)
    have "el' = set_selectedIndex None el" using None False by (simp add: el'_def actuallySetSelected_def)
    then show ?thesis using False no index_options(2) [of _ el None] by simp
  next
    case (Some i)
    then have i: "i < length (se_options el)" "?P (se_options el ! i)" "\<forall>j<i. \<not> ?P (se_options el ! j)"
      using index_by_Some [OF Some] by blast+
    have sel: "so_selected (se_options el' ! k) \<longleftrightarrow> k = i" if "k < length (se_options el)" for k
    proof (cases "selectedIndex el = Some i")
      case True
      then have "el' = el" using Some False by (simp add: el'_def actuallySetSelected_def)
      moreover have "so_selected (se_options el ! i)" using index_by_Some [of so_selected "se_options el" i] True by (simp add: selectedIndex_def)
      ultimately show ?thesis using assms(1) False that i(1) unfolding one_choice_def by blast
    next
      case nonsel: False
      then have "el' = set_selectedIndex (Some i) el" using Some False by (simp add: el'_def actuallySetSelected_def)
      then show ?thesis using index_options(2) [OF that, of "Some i"] by auto
    qed
    have "k = i \<longleftrightarrow> ?P (se_options el ! k) \<and> (\<forall>j<k. \<not> ?P (se_options el ! j))" for k
      using i(2,3) by (metis linorder_neqE_nat)
    then show ?thesis using sel False by simp
  qed
qed

text \<open>
  When options at the end go away, nothing is noticed, whatever the model: the comparison looks at the
  options that are left. A model whose option is gone keeps its value, while the element shows no choice.
\<close>

lemma shrunk_options_unnoticed:
  assumes "se_vOptions el = Some prev" "map getValue (se_options el) = take n prev"
  shows "\<exists>el'. componentUpdated False ''select'' binding el = Some el' \<and> se_changes el' = se_changes el"
proof -
  let ?el1 = "actuallySetSelected binding el"
  have keeps: "se_vOptions ?el1 = se_vOptions el" "se_changes ?el1 = se_changes el" "se_multiple ?el1 = se_multiple el"
    by (simp_all add: actuallySetSelected_def set_selectedIndex_def Let_def split: option.split)
  have "\<not> options_differ (take n prev) prev"
  proof -
    have "looseEqual (take n prev ! i) (prev ! i)" if "i < length (take n prev)" for i
      using that by (simp add: looseEqual_refl)
    then show ?thesis
      by (auto simp: options_differ_def list_ex_iff in_set_enumerate_eq nth_opt_def)
  qed
  then show ?thesis using assms(1,2) values_kept [of binding el] keeps
    by (simp add: componentUpdated_def setSelected_def Let_def)
qed

text \<open>No input event without a composition: what is triggered is the ends that follow a start.\<close>

lemma no_spurious_input:
  assumes "te_composing el = False" "''compositionstart'' \<notin> set es"
    "te_listeners el = [(''compositionstart'', ''onCompositionStart''), (''compositionend'', ''onCompositionEnd''), (''change'', ''onCompositionEnd'')]"
  shows "foldl text_event el es = el"
  using assms(2)
proof (induction es)
  case (Cons e es)
  have "text_event el e = el" using Cons.prems assms(1,3) by (simp add: text_event_def onCompositionEnd_def)
  then show ?case using Cons by simp
qed simp

definition ex_select :: sel_elm where
  "ex_select = \<lparr>se_multiple = False, se_options = [\<lparr>so_value = ''a'', so__value = None, so_selected = True\<rparr>, \<lparr>so_value = ''7'', so__value = Some (JNum (Dec 7 0)), so_selected = False\<rparr>],
     se_vOptions = None, se_warns = [], se_changes = 0, se_later = [], se_postpatch = 0\<rparr>"

lemma select_shows_model_witness:
  "so_selected (se_options (actuallySetSelected \<lparr>mb_value = JStr ''7'', mb_oldValue = JUndef, mb_expression = ''n''\<rparr> ex_select) ! 1)"
proof -
  have "\<not> se_multiple ex_select \<longrightarrow> one_choice ex_select" by (auto simp: ex_select_def one_choice_def less_Suc_eq)
  note select_shows_model [OF this refl, of "\<lparr>mb_value = JStr ''7'', mb_oldValue = JUndef, mb_expression = ''n''\<rparr>"]
  moreover have "\<not> se_multiple ex_select" "length (se_options ex_select) = 2" "looseEqual (getValue (se_options ex_select ! 1)) (JStr ''7'')"
    "\<forall>j<1. \<not> looseEqual (getValue (se_options ex_select ! j)) (JStr ''7'')" by code_simp+
  ultimately show ?thesis by simp
qed

end
