(* ===== verification/Spec2Isabelle.thy ===== *)
theory Spec2Isabelle
  imports JsPrelude SharedUtil AppCommon Ast CompilerUtil WebTags WebClass WebAttrs WebStyle
    ModelGen HandlerGen Codegen TextParse ElementParse
    Optimizer ParseHTML TemplateParse Patch PatchProof Scheduler Reactive ReactiveSound Reactivity
    Options Props KeepAlive Events EventsProof NextTick
    VNodes RenderHelpers CreateElement AsyncComponent Observer ObserverProof ObserverTrack
    Lifecycle LifecycleProof LifecycleSteps
    Refs Directives Constructors InstanceState Mounting ChildUpdate
    Transitions TransitionsProof SelectModel
begin

text \<open>
  The repository is a small shop: a Java back end, static pages, and a front end whose logic is in
  JavaScript. This development models the JavaScript: the application's own scripts
  \<open>frontend/js/common.js\<close> and \<open>frontend/js/footer.js\<close>, and the framework every page runs on, the
  build of Vue 2.5 in \<open>frontend/js/vue.js\<close>, whose 11000 lines are nearly all of the code.

  \<^bold>\<open>How the parts of the framework work together.\<close>
  A template is text. \<open>parseHTML\<close> cuts it into events, \<open>parse\<close> builds a syntax tree from them,
  \<open>optimize\<close> marks its static parts, \<open>generate\<close> prints the code of a render function. The render
  function, with the helpers the code calls, builds a tree of vnodes by \<open>createElement\<close>;
  \<open>patch\<close> compares it with the previous tree and changes the DOM, and modules (attributes, classes,
  styles, DOM properties, listeners, refs, directives) bring each element in step with its vnode.
  What a render function reads is recorded: \<open>observe\<close> makes data reactive, a read of a
  property subscribes the running watcher to its dep, a write notifies the dep, the scheduler queues
  the watchers and runs them in one flush, which renders again. Components are instances in a
  tree, made from merged options, with validated props, hooks, events and slots.

  \<^bold>\<open>The theories.\<close>
  \<^item> \<open>JsPrelude\<close>, \<open>SharedUtil\<close>: JavaScript values, objects as insertion-ordered association
    lists, the standard library used, and \<open>shared/util\<close> (\<open>looseEqual\<close>, \<open>camelize\<close>, \<open>hyphenate\<close>,
    \<open>cached\<close>, \<open>extend\<close>, ...): loose equality accepts deep copies, and the two case converters are
    inverse on identifiers.
  \<^item> \<open>AppCommon\<close>: the shop's own scripts: prices round-trip through their printed form (where
    the code does so), query strings are read back.
  \<^item> \<open>Ast\<close>, \<open>CompilerUtil\<close>, \<open>TextParse\<close>, \<open>ModelGen\<close>, \<open>HandlerGen\<close>, \<open>ElementParse\<close>,
    \<open>ParseHTML\<close>, \<open>TemplateParse\<close>, \<open>Optimizer\<close>, \<open>Codegen\<close>: the compiler, in the order the data
    flows. The events of \<open>parseHTML\<close> nest for every text; \<open>parse\<close> returns a tree when comments are
    dropped, and no script or style is in it; only static trees are hoisted, none inside another;
    the generator ends on every tree.
  \<^item> \<open>WebTags\<close>, \<open>WebClass\<close>, \<open>WebAttrs\<close>, \<open>WebStyle\<close>: the tables and patch modules of the web
    platform. A patch keeps the attributes of an element in step with the vnode.
  \<^item> \<open>Events\<close>, \<open>EventsProof\<close>: listeners of elements and components. The contract of
    what \<open>updateListeners\<close> adds to and removes from is the locale \<open>listener_target\<close>, met by both.
  \<^item> \<open>VNodes\<close>, \<open>RenderHelpers\<close>, \<open>CreateElement\<close>, \<open>AsyncComponent\<close>: making vnodes; children
    are neither lost nor reordered, each lands in one slot; asynchronous components as steps.
  \<^item> \<open>Patch\<close>, \<open>PatchProof\<close>: the diff of two trees on an explicit DOM. Whatever the keys, the
    DOM after \<open>patch\<close> is the rendering of the new tree, and nothing of the old one is left.
  \<^item> \<open>Observer\<close>, \<open>ObserverProof\<close>, \<open>ObserverTrack\<close>: the observation of data on a heap with
    sharing and cycles. Observed data stays observed under every write the documentation allows, and
    a write that notifies none of the deps of a read does not change what the read gives.
  \<^item> \<open>Reactive\<close>, \<open>ReactiveSound\<close>, \<open>Reactivity\<close>: deps, watchers, computed properties. A
    watcher that is not queued is current; a computed property read is never stale.
  \<^item> \<open>Scheduler\<close>: the queue of watchers, its order, its guard against loops and where it fails.
  \<^item> \<open>Options\<close>, \<open>Props\<close>, \<open>KeepAlive\<close>, \<open>NextTick\<close>: option merging, prop validation, the cache of
    kept-alive components, deferred calls and errors.
  \<^item> \<open>Lifecycle\<close>, \<open>LifecycleProof\<close>, \<open>LifecycleSteps\<close>: the tree of instances, activation,
    deactivation and destruction, as steps: which instances are inactive, and what is
    left of a destroyed one.
  \<^item> \<open>Refs\<close>, \<open>Directives\<close>: the modules for refs and run-time directives over whole histories of vnodes:
    \<open>$refs\<close> holds exactly what is in place, the hooks of a directive are called by the book.
  \<^item> \<open>Constructors\<close>: \<open>Vue.extend\<close>, \<open>Vue.mixin\<close> and the resolution of options after late changes: hooks
    attached late survive, those of a mixin may be doubled.
  \<^item> \<open>InstanceState\<close>: \<open>initState\<close>: what a name on an instance means, and which clashes are reported.
  \<^item> \<open>Mounting\<close>, \<open>ChildUpdate\<close>: the order of the hooks of a tree that is mounted, and what a
    child has received after any number of updates by its parent.
  \<^item> \<open>Transitions\<close>, \<open>TransitionsProof\<close>: entering and leaving with transitions as a machine of frames, timers,
    hooks and interruptions: every callback does its work once, none is forgotten; which classes can be left
    (\<open>done\<close> called too early leaves one), and what \<open>v-show\<close> displays.
  \<^item> \<open>SelectModel\<close>: the run-time directive \<open>v-model\<close>: which options of a select are selected.

  \<^bold>\<open>How code becomes definitions.\<close>
  A definition has the name of the function it translates (with a suffix where the build or HOL
  has the name twice). State is a record passed along; a TypeError, a thrown value or a stack
  overflow is \<open>None\<close> or an error of a sum; identity of objects and functions is a number they carry. Functions
  of the application (handlers, getters, render functions, factories) and of the browser are
  arguments of the definitions that call them.

  \<^bold>\<open>Fuel.\<close>
  Loops whose end the code does not make obvious are bounded by fuel, and a theorem says the
  bound is enough: the loop of \<open>parseHTML\<close> and the generator (\<open>parse_returns\<close>,
  \<open>generate_terminates\<close>), \<open>observe\<close> (as many calls as there are objects not yet observed,
  \<open>observe_returns\<close>), activation and destruction (as many as there are instances that are not being destroyed,
  \<open>activation_returns\<close>, \<open>destroy_cleans\<close>). A flush may not end in the code either; then the theorems say
  when it does (\<open>flush_in_order\<close>, \<open>circular_guard_bounds\<close>) and that it may not
  (\<open>mutual_updates_never_stop\<close>).

  \<^bold>\<open>Not modelled.\<close>
  The back end (Java), the scripts of the data base and of the server (Lua, SQL) and the pages (HTML) are
  not JavaScript; \<open>element.js\<close> and the HTTP client are third-party builds. Of \<open>vue.js\<close>: the components
  \<open>transition\<close> and \<open>transition-group\<close>, which decide when elements enter and leave and measure positions; hydration of
  server-rendered pages; the compilation of code strings into functions; the tests of the browser the file
  starts with; \<open>console\<close>, performance marks and the hook of the developer tools.
\<close>

end
